(* ===== verification/Prelude.thy ===== *)
theory Prelude
  imports Main "HOL-Library.AList" "HOL-Library.Sublist" "HOL-Library.Word"
begin

text \<open>
  Shared vocabulary of the development.

  \<^item> The computation type: asynchronous TypeScript methods either resolve with a value or reject with
    an error, and in both cases leave their object fields as the statements executed so far left
    them. \<open>('e, 's, 'a) comp\<close> is that: a state transformer that returns \<open>Inl\<close> the error or
    \<open>Inr\<close> the value, \<^emph>\<open>and\<close> the state reached.
  \<^item> JavaScript \<open>Map\<close>s and database tables are association lists with distinct keys, updated by
    \<open>AList.update\<close> (an existing key keeps its position, a new key is appended, exactly the
    insertion order of \<open>Map.prototype.set\<close>) and \<open>AList.delete\<close>.
  \<^item> Strings are lists of code units; \<open>split_on\<close>, \<open>join_with\<close>, \<open>last_index_of\<close> and
    \<open>slice_to\<close> are \<open>String.prototype.split\<close>, \<open>Array.prototype.join\<close>,
    \<open>lastIndexOf\<close> and \<open>slice(0, i)\<close>.
\<close>

named_theorems comp_simps \<open>evaluation of computations\<close>
named_theorems table_simps \<open>lookups in updated tables\<close>
named_theorems path_simps \<open>normalised paths and their segments\<close>

section \<open>Computations with errors and state\<close>

type_synonym ('e, 's, 'a) comp = "'s \<Rightarrow> ('e + 'a) \<times> 's"

definition return_ok :: "'a \<Rightarrow> ('e, 's, 'a) comp" where
  "return_ok a = (\<lambda>s. (Inr a, s))"

definition throw :: "'e \<Rightarrow> ('e, 's, 'a) comp" where
  "throw e = (\<lambda>s. (Inl e, s))"

definition and_then :: "('e, 's, 'a) comp \<Rightarrow> ('a \<Rightarrow> ('e, 's, 'b) comp) \<Rightarrow> ('e, 's, 'b) comp" where
  "and_then m k = (\<lambda>s. case m s of (Inl e, s') \<Rightarrow> (Inl e, s') | (Inr a, s') \<Rightarrow> k a s')"

definition throw_if :: "bool \<Rightarrow> 'e \<Rightarrow> ('e, 's, unit) comp" where
  "throw_if b e = (if b then throw e else return_ok ())"

definition gets :: "('s \<Rightarrow> 'a) \<Rightarrow> ('e, 's, 'a) comp" where
  "gets f = (\<lambda>s. (Inr (f s), s))"

definition modify :: "('s \<Rightarrow> 's) \<Rightarrow> ('e, 's, unit) comp" where
  "modify f = (\<lambda>s. (Inr (), f s))"

definition of_sum :: "'e + 'a \<Rightarrow> ('e, 's, 'a) comp" where
  "of_sum r = (\<lambda>s. (r, s))"

definition catch :: "('e, 's, 'a) comp \<Rightarrow> ('e \<Rightarrow> ('e, 's, 'a) comp) \<Rightarrow> ('e, 's, 'a) comp" where
  "catch m h = (\<lambda>s. case m s of (Inl e, s') \<Rightarrow> h e s' | (Inr a, s') \<Rightarrow> (Inr a, s'))"

fun for_each :: "'x list \<Rightarrow> ('x \<Rightarrow> ('e, 's, unit) comp) \<Rightarrow> ('e, 's, unit) comp" where
  "for_each [] f = return_ok ()"
| "for_each (x # xs) f = and_then (f x) (\<lambda>_. for_each xs f)"

lemma return_ok_app [comp_simps, simp]: "return_ok a s = (Inr a, s)"
  by (simp add: return_ok_def)

lemma throw_app [comp_simps, simp]: "throw e s = (Inl e, s)"
  by (simp add: throw_def)

lemma gets_app [comp_simps, simp]: "gets f s = (Inr (f s), s)"
  by (simp add: gets_def)

lemma modify_app [comp_simps, simp]: "modify f s = (Inr (), f s)"
  by (simp add: modify_def)

lemma of_sum_app [comp_simps, simp]: "of_sum r s = (r, s)"
  by (simp add: of_sum_def)

lemma throw_if_app [comp_simps, simp]: "throw_if b e s = (if b then (Inl e, s) else (Inr (), s))"
  by (simp add: throw_if_def)

lemma and_then_ok [comp_simps]: "m s = (Inr a, s') \<Longrightarrow> and_then m k s = k a s'"
  by (simp add: and_then_def)

lemma and_then_err [comp_simps]: "m s = (Inl e, s') \<Longrightarrow> and_then m k s = (Inl e, s')"
  by (simp add: and_then_def)

lemma and_then_Inr_iff:
  "and_then m k s = (Inr b, s'') \<longleftrightarrow> (\<exists>a s'. m s = (Inr a, s') \<and> k a s' = (Inr b, s''))"
  by (auto simp: and_then_def split: prod.splits sum.splits)

lemma and_then_Inl_iff:
  "and_then m k s = (Inl e, s'') \<longleftrightarrow>
     m s = (Inl e, s'') \<or> (\<exists>a s'. m s = (Inr a, s') \<and> k a s' = (Inl e, s''))"
  by (auto simp: and_then_def split: prod.splits sum.splits)

lemma and_then_InrE:
  assumes "and_then m k s = (Inr b, s'')"
  obtains a s' where "m s = (Inr a, s')" and "k a s' = (Inr b, s'')"
  using assms by (auto simp: and_then_Inr_iff)

lemma and_then_basic [comp_simps, simp]:
  "and_then (return_ok a) k s = k a s"
  "and_then (throw e) k s = (Inl e, s)"
  "and_then (gets f) k s = k (f s) s"
  "and_then (modify g) k' s = k' () (g s)"
  "and_then (throw_if b e) k' s = (if b then (Inl e, s) else k' () s)"
  by (simp_all add: and_then_def)

lemma and_then_of_sum [comp_simps, simp]:
  "and_then (of_sum (Inl e)) k s = (Inl e, s)"
  "and_then (of_sum (Inr a)) k s = k a s"
  by (simp_all add: and_then_def)

lemma and_then_pure [comp_simps, simp]:
  "and_then (of_sum (Inr a)) k = k a" "and_then (return_ok a) k = k a"
  by (simp_all add: fun_eq_iff and_then_def)

lemma and_then_assoc: "and_then (and_then m f) g = and_then m (\<lambda>a. and_then (f a) g)"
  by (rule ext) (simp add: and_then_def split: prod.split sum.split)

lemma for_each_append: "for_each (xs @ ys) f = and_then (for_each xs f) (\<lambda>_. for_each ys f)"
  by (induction xs) (simp_all only: for_each.simps append.simps and_then_pure and_then_assoc)

section \<open>Association lists as tables\<close>

type_synonym ('k, 'v) table = "('k \<times> 'v) list"

lemma map_of_update [table_simps, simp]:
  "map_of (AList.update k v t) k' = (if k' = k then Some v else map_of t k')"
  by (simp add: update_conv')

lemma map_of_delete [table_simps, simp]:
  "map_of (AList.delete k t) k' = (if k' = k then None else map_of t k')"
  by (simp add: delete_conv')

lemma map_of_filter_key [table_simps]:
  "map_of (filter (\<lambda>p. P (fst p)) t) k = (if P k then map_of t k else None)"
  by (induction t) auto

lemma map_of_filter_distinct:
  "distinct (map fst t) \<Longrightarrow>
     map_of (filter (\<lambda>(k, v). P k v) t) k =
       (case map_of t k of None \<Rightarrow> None | Some v \<Rightarrow> if P k v then Some v else None)"
proof (induction t)
  case Nil
  then show ?case by simp
next
  case (Cons a t)
  obtain k' v' where a: "a = (k', v')" by (cases a)
  show ?case
  proof (cases "k' = k")
    case True
    then have "map_of t k = None"
      using Cons.prems a by (auto simp: map_of_eq_None_iff)
    then show ?thesis using Cons a True by (auto split: option.splits)
  next
    case False
    then show ?thesis using Cons a by auto
  qed
qed

lemma map_of_map_values [table_simps]:
  "map_of (map (\<lambda>(k, v). (k, f k v)) t) k = map_option (f k) (map_of t k)"
  by (induction t) auto

lemma distinct_keys_filter: "distinct (map fst t) \<Longrightarrow> distinct (map fst (filter P t))"
  by (rule distinct_map_filter)

lemma keys_map_values [simp]: "map fst (map (\<lambda>(k, v). (k, f k v)) t) = map fst t"
  by (induction t) auto

lemma distinct_keys_delete: "distinct (map fst t) \<Longrightarrow> distinct (map fst (AList.delete k t))"
  by (rule distinct_delete)

lemma map_of_Some_in_keys: "map_of t k = Some v \<Longrightarrow> k \<in> set (map fst t)"
  by (force dest: map_of_SomeD)

lemma in_keys_map_of: "k \<in> set (map fst t) \<longleftrightarrow> (\<exists>v. map_of t k = Some v)"
  using map_of_eq_None_iff [of t k] by (cases "map_of t k") auto

lemma table_update_absent: "k \<notin> fst ` set t \<Longrightarrow> AList.update k v t = t @ [(k, v)]"
  by (induction t) auto

lemma delete_update_same [simp]: "AList.delete k (AList.update k v t) = AList.delete k t"
  by (induction t) (auto simp: AList.delete_eq)

lemma update_update_same [simp]: "AList.update k v (AList.update k w t) = AList.update k v t"
  by (induction t) auto

section \<open>Strings\<close>

fun split_on :: "char \<Rightarrow> string \<Rightarrow> string list" where
  "split_on c [] = [[]]"
| "split_on c (x # xs) =
     (if x = c then [] # split_on c xs
      else (case split_on c xs of [] \<Rightarrow> [[x]] | y # ys \<Rightarrow> (x # y) # ys))"

fun join_with :: "char \<Rightarrow> string list \<Rightarrow> string" where
  "join_with c [] = []"
| "join_with c [s] = s"
| "join_with c (s # t # ss) = s @ c # join_with c (t # ss)"

fun last_index_of :: "char \<Rightarrow> string \<Rightarrow> int" where
  "last_index_of c [] = -1"
| "last_index_of c (x # xs) =
     (let r = last_index_of c xs in if r \<ge> 0 then r + 1 else if x = c then 0 else -1)"

definition slice_to :: "string \<Rightarrow> int \<Rightarrow> string" where
  "slice_to s i = (if i < 0 then take (nat (int (length s) + i)) s else take (nat i) s)"

lemma split_on_not_Nil [simp]: "split_on c s \<noteq> []"
  by (cases s) (auto split: list.splits)

lemma split_on_absent [simp]: "c \<notin> set s \<Longrightarrow> split_on c s = [s]"
  by (induction s) auto

lemma split_on_append: "c \<notin> set s \<Longrightarrow> split_on c (s @ c # t) = s # split_on c t"
  by (induction s) auto

lemma split_on_segments: "seg \<in> set (split_on c s) \<Longrightarrow> c \<notin> set seg"
  by (induction s arbitrary: seg) (fastforce split: if_splits list.splits)+

lemma split_on_chars: "seg \<in> set (split_on c s) \<Longrightarrow> set seg \<subseteq> set s"
proof (induction s arbitrary: seg)
  case Nil
  then show ?case by simp
next
  case (Cons x xs)
  show ?case
  proof (cases "x = c")
    case True
    with Cons show ?thesis by fastforce
  next
    case False
    obtain y ys where eq: "split_on c xs = y # ys"
      using split_on_not_Nil [of c xs] by (cases "split_on c xs") auto
    with False Cons.prems have "seg = x # y \<or> seg \<in> set ys" by simp
    with Cons.IH eq show ?thesis by fastforce
  qed
qed

lemma join_with_Cons: "ss \<noteq> [] \<Longrightarrow> join_with c (s # ss) = s @ c # join_with c ss"
  by (cases ss) auto

lemma join_with_snoc: "ss \<noteq> [] \<Longrightarrow> join_with c (ss @ [s]) = join_with c ss @ c # s"
  by (induction ss rule: induct_list012) (auto simp: join_with_Cons)

lemma split_on_join:
  "ss \<noteq> [] \<Longrightarrow> (\<And>s. s \<in> set ss \<Longrightarrow> c \<notin> set s) \<Longrightarrow> split_on c (join_with c ss) = ss"
proof (induction ss)
  case Nil
  then show ?case by simp
next
  case (Cons s ss)
  then show ?case
    by (cases "ss = []") (simp_all add: join_with_Cons split_on_append)
qed

lemma last_index_of_absent: "c \<notin> set s \<Longrightarrow> last_index_of c s = -1"
  by (induction s) auto

lemma last_index_of_ge: "-1 \<le> last_index_of c s"
  by (induction s) (auto simp: Let_def)

lemma last_index_of_append:
  "c \<notin> set t \<Longrightarrow> last_index_of c (s @ c # t) = int (length s)"
  by (induction s) (auto simp: Let_def last_index_of_absent)

section \<open>Relations a computation stays in\<close>

text \<open>
  The contract of a computation that is stated on its start and end state only (\<open>what it leaves
  alone\<close>, \<open>what it keeps true\<close>, \<open>what only grows\<close>): a reflexive and transitive relation on states.
  \<open>keeps m\<close> says that \<open>m\<close> stays in it whether it returns or throws; the lemmas carry it through the
  combinators, so that a component proves it for its primitive steps only.
\<close>

locale state_preorder =
  fixes R :: "'s \<Rightarrow> 's \<Rightarrow> bool"
  assumes refl: "R s s" and trans: "R s t \<Longrightarrow> R t u \<Longrightarrow> R s u"
begin

definition keeps :: "('e, 's, 'a) comp \<Rightarrow> bool" where
  "keeps m \<longleftrightarrow> (\<forall>s. R s (snd (m s)))"

lemma keepsI: "(\<And>s r s'. m s = (r, s') \<Longrightarrow> R s s') \<Longrightarrow> keeps m"
  unfolding keeps_def by (metis prod.collapse)

lemma keepsD: "keeps m \<Longrightarrow> m s = (r, s') \<Longrightarrow> R s s'"
  unfolding keeps_def by (metis snd_conv)

lemma keeps_app: "keeps m \<Longrightarrow> R s (snd (m s))"
  by (simp add: keeps_def)

lemma keeps_fun: "(\<And>s. R s (snd (m s))) \<Longrightarrow> keeps m"
  by (simp add: keeps_def)

lemma keeps_pure: "keeps (return_ok a)" "keeps (throw e)" "keeps (gets f)" "keeps (throw_if b e)" "keeps (of_sum r)"
  by (simp_all add: keeps_def refl)

lemma keeps_modify: "(\<And>s. R s (f s)) \<Longrightarrow> keeps (modify f)"
  by (simp add: keeps_def)

lemma keeps_and_then: "keeps m \<Longrightarrow> (\<And>a. keeps (k a)) \<Longrightarrow> keeps (and_then m k)"
  by (rule keepsI) (auto simp: and_then_def dest: keepsD intro: trans split: prod.splits sum.splits)

lemma keeps_catch: "keeps m \<Longrightarrow> (\<And>e. keeps (h e)) \<Longrightarrow> keeps (catch m h)"
  by (rule keepsI) (auto simp: catch_def dest: keepsD intro: trans split: prod.splits sum.splits)

lemma keeps_for_each: "(\<And>x. x \<in> set xs \<Longrightarrow> keeps (f x)) \<Longrightarrow> keeps (for_each xs f)"
  by (induction xs) (simp_all add: keeps_pure keeps_and_then)

lemma keeps_if: "(b \<Longrightarrow> keeps m) \<Longrightarrow> (\<not> b \<Longrightarrow> keeps n) \<Longrightarrow> keeps (if b then m else n)"
  by simp

lemma keeps_case_option: "(x = None \<Longrightarrow> keeps m) \<Longrightarrow> (\<And>a. x = Some a \<Longrightarrow> keeps (k a)) \<Longrightarrow> keeps (case x of None \<Rightarrow> m | Some a \<Rightarrow> k a)"
  by (cases x) simp_all

lemma keeps_case_prod: "(\<And>a b. keeps (k a b)) \<Longrightarrow> keeps (case x of (a, b) \<Rightarrow> k a b)"
  by (cases x) simp

lemma keeps_and_then_app: "keeps m \<Longrightarrow> (\<And>a. keeps (k a)) \<Longrightarrow> R s (snd (and_then m k s))"
  by (rule keeps_app) (rule keeps_and_then)

lemma keeps_and_then_from: "R s (snd (m s)) \<Longrightarrow> (\<And>a. keeps (k a)) \<Longrightarrow> R s (snd (and_then m k s))"
  by (auto simp: and_then_def intro: trans [OF _ keeps_app] split: prod.splits sum.splits)

text \<open>A computation that reads its state first and then runs one that keeps the relation.\<close>

lemma keeps_state: "(\<And>x. keeps (f x)) \<Longrightarrow> keeps (\<lambda>s. f s s)"
  by (simp add: keeps_def)

lemmas keeps_intros = keeps_pure keeps_and_then keeps_catch keeps_for_each keeps_if keeps_case_option
  keeps_case_prod

end

section \<open>Machines and their invariants\<close>

text \<open>
  A component with its own state: start states, a step relation, and an invariant the steps keep.
  Reachability is the closure of the steps, so an invariant holds after any history.
\<close>

locale safe_machine =
  fixes start :: "'s \<Rightarrow> bool" and step :: "'s \<Rightarrow> 's \<Rightarrow> bool" and Inv :: "'s \<Rightarrow> bool"
  assumes start_inv: "start s \<Longrightarrow> Inv s" and step_inv: "Inv s \<Longrightarrow> step s t \<Longrightarrow> Inv t"
begin

lemma run_inv: "step\<^sup>*\<^sup>* s t \<Longrightarrow> Inv s \<Longrightarrow> Inv t"
  by (induction rule: rtranclp_induct) (auto intro: step_inv)

lemma reachable_inv: "start s \<Longrightarrow> step\<^sup>*\<^sup>* s t \<Longrightarrow> Inv t"
  by (blast intro: run_inv start_inv)

end

end
