(* ===== verification/Errors.thy ===== *)
theory Errors
  imports Prelude
begin

text \<open>
  The errors of \<open>src/sql-fs/errors.ts\<close> and of the driver underneath it, as a datatype: every
  \<open>throw\<close> of the modelled code is a value of \<open>fs_error\<close>. A constructor carries the
  arguments of the source's \<open>createE...\<close> function from which the message is built; messages
  themselves are prose and are not modelled. \<open>SqlState\<close> is an error raised by Postgres itself
  (its five-character code), \<open>MysqlErrno\<close> and \<open>TsqlNumber\<close> those of the other two
  drivers \<open>translateSqlError\<close> knows, \<open>InternalError\<close> a bare \<open>new Error(...)\<close>.
  \<open>Diverges\<close> is no error of the program: it marks a statement that does not return.
\<close>

datatype fs_error =
    ENOENT string
  | EEXIST string
  | EISDIR string
  | ENOTDIR string
  | ENOTEMPTY string
  | ELOOP string
  | EPERM string string
  | EINVAL string
  | EREADONLY string string
  | ESTALE string
  | ESANDBOXGONE string
  | EDRIVERFAULT
  | EFBIG string int int bool
  | ESCRIPTBUFFER int int int int
  | ECOHERENCE
  | EBUSY
  | ENOTSUP
  | ELOCKLOST string
  | EEXEC_INPUT_LIMIT string int int int
  | SqlState string
  | MysqlErrno int
  | TsqlNumber int
  | InternalError string
  | Diverges

text \<open>The \<open>code\<close> property of the error object, where it has one.\<close>

fun error_code :: "fs_error \<Rightarrow> string option" where
  "error_code (ENOENT _) = Some ''ENOENT''"
| "error_code (EEXIST _) = Some ''EEXIST''"
| "error_code (EISDIR _) = Some ''EISDIR''"
| "error_code (ENOTDIR _) = Some ''ENOTDIR''"
| "error_code (ENOTEMPTY _) = Some ''ENOTEMPTY''"
| "error_code (ELOOP _) = Some ''ELOOP''"
| "error_code (EPERM _ _) = Some ''EPERM''"
| "error_code (EINVAL _) = Some ''EINVAL''"
| "error_code (EREADONLY _ _) = Some ''EREADONLY''"
| "error_code (ESTALE _) = Some ''ESTALE''"
| "error_code (ESANDBOXGONE _) = Some ''ESANDBOXGONE''"
| "error_code EDRIVERFAULT = Some ''EDRIVERFAULT''"
| "error_code (EFBIG _ _ _ _) = Some ''EFBIG''"
| "error_code (ESCRIPTBUFFER _ _ _ _) = Some ''ESCRIPTBUFFER''"
| "error_code ECOHERENCE = Some ''ECOHERENCE''"
| "error_code EBUSY = Some ''EBUSY''"
| "error_code ENOTSUP = Some ''ENOTSUP''"
| "error_code (ELOCKLOST _) = Some ''ELOCKLOST''"
| "error_code (EEXEC_INPUT_LIMIT _ _ _ _) = Some ''EEXEC_INPUT_LIMIT''"
| "error_code (SqlState c) = Some c"
| "error_code (MysqlErrno _) = None"
| "error_code (TsqlNumber _) = None"
| "error_code (InternalError _) = None"
| "error_code Diverges = None"

text \<open>
  \<open>translateSqlError\<close>: Postgres codes first, then MySQL \<open>errno\<close>, then the T-SQL
  \<open>number\<close>; anything else is passed through the message sanitiser, which keeps \<open>code\<close>
  and \<open>path\<close> and rewrites only the message, so it is the identity here.
\<close>

definition translateSqlError :: "fs_error \<Rightarrow> string \<Rightarrow> fs_error" where
  "translateSqlError err path =
     (case err of
        SqlState c \<Rightarrow>
          (if c = ''23505'' then EEXIST path
           else if c = ''FS001'' then ELOOP path
           else if c = ''FS002'' then ENOENT path
           else if c = ''FS003'' then ENOTDIR path
           else err)
      | MysqlErrno n \<Rightarrow> if n = 1062 then EEXIST path else err
      | TsqlNumber n \<Rightarrow> if n = 2601 \<or> n = 2627 then EEXIST path else err
      | _ \<Rightarrow> err)"

text \<open>Postgres' \<open>unique_violation\<close>, \<open>foreign_key_violation\<close> and the row-level-security check.\<close>

definition unique_violation :: fs_error where "unique_violation = SqlState ''23505''"
definition foreign_key_violation :: fs_error where "foreign_key_violation = SqlState ''23503''"
definition insufficient_privilege :: fs_error where "insufficient_privilege = SqlState ''42501''"

end
