(* ===== verification/Paths.thy ===== *)
theory Paths
  imports Errors
begin

text \<open>
  \<open>src/sql-fs/state/paths.ts\<close>: normalisation and validation of sandbox paths. A stored path is
  a string; the lemmas relate the normalised strings to lists of segments (\<open>path_of\<close>), which
  is how every later theory reasons about the tree.
\<close>

section \<open>Model\<close>

abbreviation slash :: char where "slash \<equiv> CHR ''/''"
abbreviation nul :: char where "nul \<equiv> CHR 0x00"

definition DEV_NULL :: string where "DEV_NULL = ''/dev/null''"

text \<open>The \<open>for\<close> loop of \<open>normalizeFsPath\<close>: \<open>stack.pop()\<close> on an empty stack is a no-op.\<close>

fun push_parts :: "string list \<Rightarrow> string list \<Rightarrow> string list" where
  "push_parts stack [] = stack"
| "push_parts stack (part # ps) =
     (if part = ''..'' then push_parts (butlast stack) ps else push_parts (stack @ [part]) ps)"

definition normalizeFsPath :: "string \<Rightarrow> string" where
  "normalizeFsPath p =
     (if p = [] \<or> p = ''/'' then ''/''
      else
        let s = (if prefix ''/'' p then p else slash # p);
            parts = filter (\<lambda>seg. seg \<noteq> [] \<and> seg \<noteq> ''.'') (split_on slash s)
        in slash # join_with slash (push_parts [] parts))"

definition validatePath :: "string \<Rightarrow> fs_error + string" where
  "validatePath p =
     (if nul \<in> set p then Inl (EINVAL p)
      else
        let path = normalizeFsPath p
        in if prefix (DEV_NULL @ ''/'') path then Inl (ENOTDIR DEV_NULL) else Inr path)"

definition parentOf :: "string \<Rightarrow> string" where
  "parentOf path = (let idx = last_index_of slash path in if idx = 0 then ''/'' else slice_to path idx)"

definition nameOf :: "string \<Rightarrow> string" where
  "nameOf path = drop (nat (last_index_of slash path + 1)) path"

definition resolvePath :: "string \<Rightarrow> string \<Rightarrow> string" where
  "resolvePath base path =
     (if prefix ''/'' path then normalizeFsPath path
      else normalizeFsPath (if base = ''/'' then slash # path else base @ slash # path))"

definition assertStoredPath :: "string \<Rightarrow> string \<Rightarrow> fs_error + unit" where
  "assertStoredPath path operation = (if path = DEV_NULL then Inl (EPERM path operation) else Inr ())"

text \<open>\<open>split("/").filter(Boolean)\<close>, used by the namespace operations on normalised paths.\<close>

definition path_parts :: "string \<Rightarrow> string list" where
  "path_parts p = filter (\<lambda>s. s \<noteq> []) (split_on slash p)"

text \<open>\<open>current === "/" ? `/${seg}` : `${current}/${seg}`\<close>.\<close>

definition child_path :: "string \<Rightarrow> string \<Rightarrow> string" where
  "child_path current seg = (if current = ''/'' then slash # seg else current @ slash # seg)"

text \<open>\<open>dirPath === "/" ? "/" : `${dirPath}/`\<close>.\<close>

definition dir_prefix :: "string \<Rightarrow> string" where
  "dir_prefix d = (if d = ''/'' then ''/'' else d @ ''/'')"

section \<open>Segments\<close>

text \<open>A directory-entry name that normalisation can produce, and the path of a list of them.\<close>

definition valid_name :: "string \<Rightarrow> bool" where
  "valid_name n \<longleftrightarrow> n \<noteq> [] \<and> slash \<notin> set n \<and> n \<noteq> ''.'' \<and> n \<noteq> ''..''"

definition path_of :: "string list \<Rightarrow> string" where
  "path_of segs = slash # join_with slash segs"

abbreviation valid_names :: "string list \<Rightarrow> bool" where
  "valid_names \<equiv> list_all valid_name"

definition normal_path :: "string \<Rightarrow> bool" where
  "normal_path p \<longleftrightarrow> valid_names (path_parts p) \<and> p = path_of (path_parts p)"

lemma valid_names_append [simp]: "valid_names (xs @ ys) \<longleftrightarrow> valid_names xs \<and> valid_names ys"
  by simp

lemma valid_name_no_slash: "valid_name n \<Longrightarrow> slash \<notin> set n"
  by (simp add: valid_name_def)

lemma valid_name_not_Nil: "valid_name n \<Longrightarrow> n \<noteq> []"
  by (simp add: valid_name_def)

lemma path_of_Nil [path_simps, simp]: "path_of [] = ''/''"
  by (simp add: path_of_def)

lemma path_of_snoc: "path_of (segs @ [n]) = (if segs = [] then slash # n else path_of segs @ slash # n)"
  by (cases "segs = []") (simp_all add: path_of_def join_with_snoc)

lemma path_parts_path_of [path_simps, simp]:
  assumes "valid_names segs"
  shows "path_parts (path_of segs) = segs"
proof (cases "segs = []")
  case True
  then show ?thesis by (simp add: path_parts_def path_of_def)
next
  case False
  have ns: "\<And>s. s \<in> set segs \<Longrightarrow> slash \<notin> set s"
    using assms by (auto simp: list_all_iff valid_name_def)
  have "split_on slash (path_of segs) = [] # segs"
    using False ns by (simp add: path_of_def split_on_join)
  moreover have "filter (\<lambda>s. s \<noteq> []) segs = segs"
    using assms by (auto simp: list_all_iff valid_name_def intro: filter_True)
  ultimately show ?thesis by (simp add: path_parts_def)
qed

lemma path_of_inject [path_simps, simp]:
  "valid_names a \<Longrightarrow> valid_names b \<Longrightarrow> path_of a = path_of b \<longleftrightarrow> a = b"
  by (metis path_parts_path_of)

lemma path_of_root_iff [path_simps, simp]: "valid_names a \<Longrightarrow> path_of a = ''/'' \<longleftrightarrow> a = []"
  using path_of_inject [of a "[]"] by simp

lemma normal_path_iff: "normal_path p \<longleftrightarrow> (\<exists>segs. valid_names segs \<and> p = path_of segs)"
  by (auto simp: normal_path_def)

lemma normal_pathE:
  assumes "normal_path p"
  obtains segs where "valid_names segs" and "p = path_of segs"
  using assms by (auto simp: normal_path_iff)

lemma normal_path_of [simp]: "valid_names segs \<Longrightarrow> normal_path (path_of segs)"
  by (auto simp: normal_path_iff)

lemma child_path_of [path_simps]:
  "valid_names segs \<Longrightarrow> child_path (path_of segs) n = path_of (segs @ [n])"
  by (simp add: child_path_def path_of_snoc)

lemma last_slash_path_of_snoc:
  assumes "valid_name n"
  shows "last_index_of slash (path_of (segs @ [n])) = int (length (path_of (segs @ [n])) - length n - 1)"
proof -
  have n: "slash \<notin> set n" using assms by (rule valid_name_no_slash)
  have "path_of (segs @ [n]) = (if segs = [] then [] else path_of segs) @ slash # n"
    by (simp add: path_of_snoc)
  then show ?thesis using n by (auto simp: last_index_of_append last_index_of_absent)
qed

lemma parentOf_path_of [path_simps, simp]:
  assumes "valid_name n" and "valid_names segs"
  shows "parentOf (path_of (segs @ [n])) = path_of segs"
proof (cases "segs = []")
  case True
  then show ?thesis using assms last_slash_path_of_snoc [of n "[]"]
    by (simp add: parentOf_def path_of_def Let_def)
next
  case False
  have eq: "path_of (segs @ [n]) = path_of segs @ slash # n"
    using False by (simp add: path_of_snoc)
  have "last_index_of slash (path_of (segs @ [n])) = int (length (path_of segs))"
    using assms by (simp add: eq last_index_of_append valid_name_no_slash)
  moreover have "length (path_of segs) > 0" by (simp add: path_of_def)
  ultimately show ?thesis by (simp add: parentOf_def Let_def slice_to_def eq)
qed

lemma nameOf_path_of [path_simps, simp]:
  assumes "valid_name n"
  shows "nameOf (path_of (segs @ [n])) = n"
proof -
  obtain pre where eq: "path_of (segs @ [n]) = pre @ slash # n"
    by (metis append_Nil path_of_snoc)
  have "last_index_of slash (path_of (segs @ [n])) = int (length pre)"
    using assms by (simp add: eq last_index_of_append valid_name_no_slash)
  then show ?thesis by (simp add: nameOf_def eq nat_add_distrib)
qed

lemma parentOf_root [simp]: "parentOf ''/'' = ''/''"
  by (simp add: parentOf_def)

lemma nameOf_root [simp]: "nameOf ''/'' = []"
  by (simp add: nameOf_def)

section \<open>Normalisation\<close>

lemma push_parts_valid:
  "valid_names stack \<Longrightarrow> list_all (\<lambda>s. s = ''..'' \<or> valid_name s) ps \<Longrightarrow> valid_names (push_parts stack ps)"
proof (induction ps arbitrary: stack)
  case Nil
  then show ?case by simp
next
  case (Cons p ps)
  have "valid_names (butlast stack)"
    using Cons.prems(1) by (auto simp: list_all_iff dest: in_set_butlastD)
  with Cons show ?case by auto
qed

lemma push_parts_id: "valid_names ps \<Longrightarrow> push_parts stack ps = stack @ ps"
  by (induction ps arbitrary: stack) (auto simp: valid_name_def)

lemma split_parts_valid_or_dots:
  "list_all (\<lambda>s. s = ''..'' \<or> valid_name s)
     (filter (\<lambda>seg. seg \<noteq> [] \<and> seg \<noteq> ''.'') (split_on slash s))"
  by (auto simp: list_all_iff valid_name_def dest: split_on_segments)

lemma normalizeFsPath_segments: "\<exists>segs. valid_names segs \<and> normalizeFsPath p = path_of segs"
proof (cases "p = [] \<or> p = ''/''")
  case True
  then have "normalizeFsPath p = path_of []" by (auto simp: normalizeFsPath_def)
  moreover have "valid_names []" by simp
  ultimately show ?thesis by blast
next
  case False
  let ?s = "if prefix ''/'' p then p else slash # p"
  let ?segs = "push_parts [] (filter (\<lambda>seg. seg \<noteq> [] \<and> seg \<noteq> ''.'') (split_on slash ?s))"
  have "valid_names ?segs" by (rule push_parts_valid) (simp_all add: split_parts_valid_or_dots)
  moreover have "normalizeFsPath p = path_of ?segs"
    unfolding normalizeFsPath_def path_of_def Let_def using False by simp
  ultimately show ?thesis by blast
qed

lemma normalizeFsPath_normal: "normal_path (normalizeFsPath p)"
  using normalizeFsPath_segments [of p] by (auto simp: normal_path_iff)

lemma normalizeFsPath_path_of [path_simps]:
  assumes "valid_names segs"
  shows "normalizeFsPath (path_of segs) = path_of segs"
proof (cases "segs = []")
  case True
  then show ?thesis by (simp add: normalizeFsPath_def)
next
  case False
  have ne: "path_of segs \<noteq> ''/''" using False assms by simp
  have pre: "prefix ''/'' (path_of segs)" by (simp add: path_of_def)
  have parts: "filter (\<lambda>seg. seg \<noteq> [] \<and> seg \<noteq> ''.'') (split_on slash (path_of segs)) = segs"
  proof -
    have "filter (\<lambda>seg. seg \<noteq> [] \<and> seg \<noteq> ''.'') (split_on slash (path_of segs)) =
        filter (\<lambda>seg. seg \<noteq> ''.'') (path_parts (path_of segs))"
      by (simp add: path_parts_def conj_commute)
    also have "\<dots> = segs"
      using assms by (auto simp: list_all_iff valid_name_def intro!: filter_True)
    finally show ?thesis .
  qed
  show ?thesis
    unfolding normalizeFsPath_def Let_def parts
    using ne pre assms parts by (simp add: push_parts_id path_of_def)
qed

lemma validatePath_ok:
  assumes "validatePath p = Inr q"
  shows "normal_path q" and "\<not> prefix (DEV_NULL @ ''/'') q" and "nul \<notin> set p"
  using assms normalizeFsPath_normal [of p]
  by (auto simp: validatePath_def Let_def split: if_splits)

section \<open>Subtrees\<close>

text \<open>The \<open>startsWith\<close> test of the path cache is the prefix order on segments.\<close>

lemma join_append: "xs \<noteq> [] \<Longrightarrow> ys \<noteq> [] \<Longrightarrow> join_with c (xs @ ys) = join_with c xs @ c # join_with c ys"
  by (induction xs rule: induct_list012) (auto simp: join_with_Cons)

lemma dir_prefix_path_of_append:
  assumes "valid_names a"
  shows "ys \<noteq> [] \<Longrightarrow> path_of (a @ ys) = dir_prefix (path_of a) @ join_with slash ys"
  using path_of_root_iff [OF assms]
  by (cases "a = []") (simp_all add: dir_prefix_def path_of_def join_append)

lemma join_starts_with_join:
  assumes "prefix (join_with slash a @ ''/'') (join_with slash b)"
    and "a \<noteq> []" and "valid_names a" and "valid_names b"
  shows "strict_prefix a b"
  using assms
proof (induction a arbitrary: b)
  case Nil
  then show ?case by simp
next
  case (Cons x xs)
  have x: "slash \<notin> set x" using Cons.prems by (simp add: valid_name_no_slash)
  obtain rest where rest: "join_with slash b = join_with slash (x # xs) @ slash # rest"
    using Cons.prems(1) by (auto simp: prefix_def)
  then have "b \<noteq> []" by auto
  then obtain y ys where b: "b = y # ys" by (cases b) auto
  have y: "slash \<notin> set y" using Cons.prems b by (simp add: valid_name_no_slash)
  have hd_eq: "split_on slash (join_with slash b) = y # ys"
    using Cons.prems(4) b by (subst split_on_join) (auto simp: list_all_iff valid_name_def)
  obtain tail where tail: "join_with slash b = x @ slash # tail"
    using rest by (cases xs) (auto simp: join_with_Cons)
  then have "split_on slash (join_with slash b) = x # split_on slash tail"
    using x by (simp add: split_on_append)
  with hd_eq have xy: "x = y" and ys: "ys = split_on slash tail" by auto
  then have ysne: "ys \<noteq> []" by simp
  show ?case
  proof (cases "xs = []")
    case True
    then show ?thesis using b xy ysne by (simp add: strict_prefix_def)
  next
    case False
    have "prefix (join_with slash xs @ ''/'') (join_with slash ys)"
      using rest b xy False ysne by (simp add: join_with_Cons)
    then have "strict_prefix xs ys"
      using Cons.IH [of ys] False Cons.prems b by simp
    then show ?thesis using b xy by (simp add: strict_prefix_def)
  qed
qed

lemma starts_with_iff [path_simps]:
  assumes a: "valid_names a" and b: "valid_names b"
  shows "path_of b \<noteq> path_of a \<and> prefix (dir_prefix (path_of a)) (path_of b) \<longleftrightarrow> strict_prefix a b"
proof
  assume L: "path_of b \<noteq> path_of a \<and> prefix (dir_prefix (path_of a)) (path_of b)"
  show "strict_prefix a b"
  proof (cases "a = []")
    case True
    then show ?thesis using L a b by (auto simp: strict_prefix_def)
  next
    case False
    then have "dir_prefix (path_of a) = slash # join_with slash a @ ''/''"
      using a by (simp add: dir_prefix_def path_of_root_iff) (simp add: path_of_def)
    then have "prefix (join_with slash a @ ''/'') (join_with slash b)"
      using L by (simp add: path_of_def)
    then show ?thesis using join_starts_with_join False a b by blast
  qed
next
  assume R: "strict_prefix a b"
  then obtain ys where ys: "ys \<noteq> []" "b = a @ ys"
    by (metis strict_prefixE' append_Nil2 list.distinct(1))
  then have "prefix (dir_prefix (path_of a)) (path_of b)"
    using dir_prefix_path_of_append [OF a] by (auto simp: prefix_def)
  then show "path_of b \<noteq> path_of a \<and> prefix (dir_prefix (path_of a)) (path_of b)"
    using a b ys by simp
qed

lemma drop_subtree_path [path_simps]:
  assumes "valid_names a" and "a \<noteq> []"
  shows "drop (length (path_of a)) (path_of (a @ ys)) = (if ys = [] then [] else slash # join_with slash ys)"
  using assms dir_prefix_path_of_append [OF assms(1), of ys]
  by (cases "ys = []") (simp_all add: dir_prefix_def)

lemma graft_subtree_path [path_simps]:
  assumes "valid_names a" and "a \<noteq> []" and "valid_names d" and "d \<noteq> []"
  shows "path_of d @ drop (length (path_of a)) (path_of (a @ ys)) = path_of (d @ ys)"
  using assms dir_prefix_path_of_append [OF assms(3), of ys]
  by (cases "ys = []") (simp_all add: drop_subtree_path dir_prefix_def)

end
