(* ===== verification/PgState.thy ===== *)
theory PgState
  imports Paths
begin

text \<open>
  The relational state behind the dialect, as the migrations under
  \<open>src/sql-fs/migrations/postgres\<close> declare it: the five tables, the \<open>BIGSERIAL\<close>
  sequence of inode ids, and, per transaction, the session settings \<open>app.sandbox_id\<close> and
  \<open>app.sandbox_epoch\<close>, the advisory locks held and the value of \<open>now()\<close>.

  Statements run one after another on the transaction's state. Row-level security
  (\<open>0005_row_level_security.sql\<close>) is \<open>rls_ok\<close>: a row is visible, and may be written, when
  no sandbox context is set or when it belongs to the context's sandbox. Foreign keys are checked
  and cascaded on all rows, as Postgres' integrity triggers do.
\<close>

type_synonym bytes = "8 word list"

datatype inode_kind = FILE | DIRECTORY | SYMLINK

record inode_row =
  i_sandbox :: string
  i_kind :: inode_kind
  i_mode :: int
  i_size :: int
  i_mtime :: int
  i_nlink :: int
  i_sha :: "bytes option"
  i_target :: "string option"

record dirent_row =
  d_inode :: int
  d_sandbox :: string

record sandbox_row =
  sb_root :: "int option"
  sb_owner :: "string option"
  sb_name :: "string option"
  sb_python :: bool
  sb_javascript :: bool
  sb_network :: bool
  sb_created_at :: int
  sb_version :: int

record blob_row =
  b_data :: bytes
  b_size :: int
  b_referenced :: "int option"

record db =
  sandboxes :: "(string, sandbox_row) table"
  sandbox_epochs :: "(string, int) table"
  inodes :: "(int, inode_row) table"
  dirents :: "(int \<times> string, dirent_row) table"
  blobs :: "(bytes, blob_row) table"
  inode_seq :: int

record pgtx =
  t_db :: db
  app_sandbox_id :: string
  app_sandbox_epoch :: "int option"
  t_locks :: "string list"
  t_now :: int

type_synonym 'a pg = "(fs_error, pgtx, 'a) comp"

section \<open>Row-level security and row access\<close>

definition rls_ok :: "pgtx \<Rightarrow> string \<Rightarrow> bool" where
  "rls_ok tx sid \<longleftrightarrow> app_sandbox_id tx = [] \<or> sid = app_sandbox_id tx"

definition get_sandbox :: "pgtx \<Rightarrow> string \<Rightarrow> sandbox_row option" where
  "get_sandbox tx sid = (if rls_ok tx sid then map_of (sandboxes (t_db tx)) sid else None)"

definition get_inode :: "pgtx \<Rightarrow> int \<Rightarrow> inode_row option" where
  "get_inode tx i =
     (case map_of (inodes (t_db tx)) i of
        None \<Rightarrow> None
      | Some r \<Rightarrow> if rls_ok tx (i_sandbox r) then Some r else None)"

definition get_dirent :: "pgtx \<Rightarrow> int \<times> string \<Rightarrow> dirent_row option" where
  "get_dirent tx k =
     (case map_of (dirents (t_db tx)) k of
        None \<Rightarrow> None
      | Some d \<Rightarrow> if rls_ok tx (d_sandbox d) then Some d else None)"

section \<open>Table updates\<close>

definition put_inode :: "int \<Rightarrow> inode_row \<Rightarrow> db \<Rightarrow> db" where
  "put_inode i r d = d\<lparr>inodes := AList.update i r (inodes d)\<rparr>"

definition put_dirent :: "int \<times> string \<Rightarrow> dirent_row \<Rightarrow> db \<Rightarrow> db" where
  "put_dirent k e d = d\<lparr>dirents := AList.update k e (dirents d)\<rparr>"

definition del_dirent :: "int \<times> string \<Rightarrow> db \<Rightarrow> db" where
  "del_dirent k d = d\<lparr>dirents := AList.delete k (dirents d)\<rparr>"

text \<open>\<open>DELETE FROM inodes\<close>, with \<open>ON DELETE CASCADE\<close> on both foreign keys of \<open>dirents\<close>.\<close>

definition del_inode :: "int \<Rightarrow> db \<Rightarrow> db" where
  "del_inode i d =
     d\<lparr>inodes := AList.delete i (inodes d),
       dirents := filter (\<lambda>(k, e). fst k \<noteq> i \<and> d_inode e \<noteq> i) (dirents d)\<rparr>"

definition on_db :: "(db \<Rightarrow> db) \<Rightarrow> pgtx \<Rightarrow> pgtx" where
  "on_db f tx = tx\<lparr>t_db := f (t_db tx)\<rparr>"

text \<open>A row with the column defaults of the \<open>inodes\<close> table.\<close>

definition new_inode_row ::
  "string \<Rightarrow> inode_kind \<Rightarrow> int \<Rightarrow> int \<Rightarrow> bytes option \<Rightarrow> string option \<Rightarrow> int \<Rightarrow> inode_row" where
  "new_inode_row sid kind mode sz sha target now =
     \<lparr>i_sandbox = sid, i_kind = kind, i_mode = mode, i_size = sz, i_mtime = now,
      i_nlink = 1, i_sha = sha, i_target = target\<rparr>"

definition insert_inode :: "inode_row \<Rightarrow> int pg" where
  "insert_inode r = (\<lambda>tx.
     if \<not> rls_ok tx (i_sandbox r) then (Inl insufficient_privilege, tx)
     else if map_of (sandboxes (t_db tx)) (i_sandbox r) = None then (Inl foreign_key_violation, tx)
     else
       let i = inode_seq (t_db tx)
       in (Inr i, on_db (\<lambda>d. (put_inode i r d)\<lparr>inode_seq := i + 1\<rparr>) tx))"

definition insert_dirent_row :: "int \<times> string \<Rightarrow> dirent_row \<Rightarrow> unit pg" where
  "insert_dirent_row k e = (\<lambda>tx.
     if \<not> rls_ok tx (d_sandbox e) then (Inl insufficient_privilege, tx)
     else if map_of (dirents (t_db tx)) k \<noteq> None then (Inl unique_violation, tx)
     else if map_of (inodes (t_db tx)) (fst k) = None \<or> map_of (inodes (t_db tx)) (d_inode e) = None
       \<or> map_of (sandboxes (t_db tx)) (d_sandbox e) = None then (Inl foreign_key_violation, tx)
     else (Inr (), on_db (put_dirent k e) tx))"

text \<open>
  \<open>INSERT ... ON CONFLICT (parent_inode_id, name) DO UPDATE SET inode_id\<close>: a conflicting row keeps
  its \<open>sandbox_id\<close> and must itself pass the policy.
\<close>

definition upsert_dirent_row :: "int \<times> string \<Rightarrow> dirent_row \<Rightarrow> unit pg" where
  "upsert_dirent_row k e = (\<lambda>tx.
     case map_of (dirents (t_db tx)) k of
       None \<Rightarrow> insert_dirent_row k e tx
     | Some old \<Rightarrow>
         if \<not> rls_ok tx (d_sandbox e) \<or> \<not> rls_ok tx (d_sandbox old) then (Inl insufficient_privilege, tx)
         else if map_of (inodes (t_db tx)) (d_inode e) = None then (Inl foreign_key_violation, tx)
         else (Inr (), on_db (put_dirent k (old\<lparr>d_inode := d_inode e\<rparr>)) tx))"

text \<open>
  The two mutually exclusive statements \<open>DELETE ... WHERE nlink <= 1\<close> and
  \<open>UPDATE ... SET nlink = nlink - 1 WHERE nlink > 1\<close> of the composites.
\<close>

definition drop_link :: "int \<Rightarrow> pgtx \<Rightarrow> pgtx" where
  "drop_link i tx =
     (case get_inode tx i of
        None \<Rightarrow> tx
      | Some r \<Rightarrow>
          if i_nlink r \<le> 1 then on_db (del_inode i) tx
          else on_db (put_inode i (r\<lparr>i_nlink := i_nlink r - 1\<rparr>)) tx)"

section \<open>Transactions\<close>

text \<open>
  A fresh transaction on the committed database; \<open>sql.begin(fn)\<close> commits the final state when the
  callback resolves and discards it when it rejects. (Postgres does not hand out again the sequence
  numbers of a rolled-back transaction; the model does, and nothing refers to an id that never
  committed.)
\<close>

definition begin_tx :: "db \<Rightarrow> int \<Rightarrow> pgtx" where
  "begin_tx d now = \<lparr>t_db = d, app_sandbox_id = [], app_sandbox_epoch = None, t_locks = [], t_now = now\<rparr>"

definition run_transaction :: "'a pg \<Rightarrow> db \<Rightarrow> int \<Rightarrow> (fs_error + 'a) \<times> db" where
  "run_transaction f d now =
     (case f (begin_tx d now) of (Inl e, _) \<Rightarrow> (Inl e, d) | (Inr a, tx) \<Rightarrow> (Inr a, t_db tx))"

lemma run_transaction_Inr_iff:
  "run_transaction f d now = (Inr a, d') \<longleftrightarrow> (\<exists>tx. f (begin_tx d now) = (Inr a, tx) \<and> d' = t_db tx)"
  by (auto simp: run_transaction_def split: prod.splits sum.splits)

lemma run_transaction_Inl:
  "run_transaction f d now = (Inl e, d') \<Longrightarrow> d' = d"
  by (auto simp: run_transaction_def split: prod.splits sum.splits)

end
