(* ===== verification/PgSandbox.thy ===== *)
theory PgSandbox
  imports PgState
begin

text \<open>
  \<open>src/sql-fs/dialects/postgres/sandbox.ts\<close>: the writer lock, the epoch fence every write carries,
  and the sandbox lifecycle. A sandbox's \<open>version\<close> column is its epoch.
\<close>

section \<open>Lock and fence\<close>

definition takeWriterLock :: "string \<Rightarrow> unit pg" where
  "takeWriterLock sid = modify (\<lambda>tx. tx\<lparr>t_locks := List.insert sid (t_locks tx)\<rparr>)"

text \<open>The \<open>WHERE\<close> clause of the \<open>ctx\<close> CTE: \<open>COALESCE\<close> and the own-bump branch.\<close>

definition fence_accepts :: "int \<Rightarrow> int option \<Rightarrow> int option \<Rightarrow> bool" where
  "fence_accepts version expected pinned \<longleftrightarrow>
     version = (case expected of Some e \<Rightarrow> e | None \<Rightarrow> (case pinned of Some p \<Rightarrow> p | None \<Rightarrow> version))
     \<or> (case expected of None \<Rightarrow> False | Some e \<Rightarrow> version > e \<and> pinned = Some version)"

datatype fence_context = Existing | Composite

text \<open>
  The CTEs \<open>ctx\<close>, \<open>advanced\<close>, \<open>epoch\<close>: whether \<open>epoch\<close> has a row (\<open>fenced\<close>), and
  the state after the version bump.
\<close>

definition fenceCtes :: "fence_context \<Rightarrow> string \<Rightarrow> int option \<Rightarrow> pgtx \<Rightarrow> bool \<times> pgtx" where
  "fenceCtes context sid expected tx =
     (case get_sandbox tx sid of
        None \<Rightarrow> (False, tx)
      | Some s \<Rightarrow>
          if fence_accepts (sb_version s) expected (app_sandbox_epoch tx) then
            let v = sb_version s + 1;
                tx1 = on_db (\<lambda>d. d\<lparr>sandboxes := AList.update sid (s\<lparr>sb_version := v\<rparr>) (sandboxes d)\<rparr>) tx
            in (True, tx1\<lparr>app_sandbox_epoch := Some v,
                          app_sandbox_id := (if context = Composite then sid else app_sandbox_id tx)\<rparr>)
          else (False, tx))"

section \<open>Contexts and epochs\<close>

definition setSandboxContext :: "string \<Rightarrow> unit pg" where
  "setSandboxContext sid = modify (\<lambda>tx. tx\<lparr>app_sandbox_id := sid\<rparr>)"

definition setSandboxContextWithLock :: "string \<Rightarrow> unit pg" where
  "setSandboxContextWithLock sid =
     and_then (takeWriterLock sid) (\<lambda>_ tx.
       case get_sandbox tx sid of
         None \<Rightarrow> (Inl (ENOENT sid), tx)
       | Some s \<Rightarrow> (Inr (), tx\<lparr>app_sandbox_id := sid, app_sandbox_epoch := Some (sb_version s)\<rparr>))"

definition getSandboxEpoch :: "string \<Rightarrow> int pg" where
  "getSandboxEpoch sid = (\<lambda>tx.
     case get_sandbox tx sid of None \<Rightarrow> (Inl (ENOENT sid), tx) | Some s \<Rightarrow> (Inr (sb_version s), tx))"

record sandbox_generation =
  prior_epoch :: int
  gen_epoch :: int

definition retireSandboxGeneration :: "string \<Rightarrow> (fs_error + unit) \<Rightarrow> sandbox_generation pg" where
  "retireSandboxGeneration sid assertOwnerLease =
     and_then (setSandboxContextWithLock sid) (\<lambda>_.
     and_then (of_sum assertOwnerLease) (\<lambda>_ tx.
       case get_sandbox tx sid of
         None \<Rightarrow> (Inl (ENOENT sid), tx)
       | Some s \<Rightarrow>
           (Inr \<lparr>prior_epoch = sb_version s, gen_epoch = sb_version s + 1\<rparr>,
            on_db (\<lambda>d. d\<lparr>sandboxes := AList.update sid (s\<lparr>sb_version := sb_version s + 1\<rparr>) (sandboxes d)\<rparr>) tx)))"

section \<open>Lifecycle\<close>

definition createDirInode :: "string \<Rightarrow> int \<Rightarrow> string \<Rightarrow> int pg" where
  "createDirInode sid parent name =
     and_then (\<lambda>tx. insert_inode (new_inode_row sid DIRECTORY 493 0 None None (t_now tx)) tx) (\<lambda>i.
     and_then (insert_dirent_row (parent, name) \<lparr>d_inode = i, d_sandbox = sid\<rparr>) (\<lambda>_.
     return_ok i))"

text \<open>
  The first incarnation of an id starts at epoch 0; every later one advances the tombstone. The
  \<open>INSERT INTO sandboxes\<close> fails on a live id (primary key).
\<close>

definition createSandbox :: "string \<Rightarrow> string \<Rightarrow> (int \<times> int \<times> int) pg" where
  "createSandbox sid owner =
     and_then (takeWriterLock sid) (\<lambda>_ tx0.
       let epoch = (case map_of (sandbox_epochs (t_db tx0)) sid of None \<Rightarrow> 0 | Some e \<Rightarrow> e + 1);
           tx1 = on_db (\<lambda>d. d\<lparr>sandbox_epochs := AList.update sid epoch (sandbox_epochs d)\<rparr>) tx0
       in if \<not> rls_ok tx1 sid then (Inl insufficient_privilege, tx1)
          else if map_of (sandboxes (t_db tx1)) sid \<noteq> None then (Inl unique_violation, tx1)
          else
            let row = \<lparr>sb_root = None, sb_owner = Some owner, sb_name = None, sb_python = False,
                       sb_javascript = False, sb_network = False, sb_created_at = t_now tx1,
                       sb_version = epoch\<rparr>;
                tx2 = on_db (\<lambda>d. d\<lparr>sandboxes := AList.update sid row (sandboxes d)\<rparr>) tx1
            in and_then (\<lambda>tx. insert_inode (new_inode_row sid DIRECTORY 493 0 None None (t_now tx)) tx) (\<lambda>root.
               and_then (modify (on_db (\<lambda>d. d\<lparr>sandboxes :=
                   AList.update sid (row\<lparr>sb_root := Some root\<rparr>) (sandboxes d)\<rparr>))) (\<lambda>_.
               and_then (createDirInode sid root ''home'') (\<lambda>home.
               and_then (createDirInode sid root ''tmp'') (\<lambda>_.
               and_then (createDirInode sid root ''bin'') (\<lambda>_.
               and_then (createDirInode sid home ''user'') (\<lambda>_.
               return_ok (root, t_now tx1, epoch))))))) tx2)"

text \<open>\<open>DELETE FROM sandboxes\<close> cascades to the sandbox's inodes and dirents.\<close>

definition del_sandbox :: "string \<Rightarrow> db \<Rightarrow> db" where
  "del_sandbox sid d =
     (let gone = map fst (filter (\<lambda>(i, r). i_sandbox r = sid) (inodes d))
      in d\<lparr>sandboxes := AList.delete sid (sandboxes d),
           inodes := filter (\<lambda>(i, r). i_sandbox r \<noteq> sid) (inodes d),
           dirents := filter (\<lambda>(k, e). d_sandbox e \<noteq> sid \<and> fst k \<notin> set gone \<and> d_inode e \<notin> set gone) (dirents d)\<rparr>)"

definition deleteSandbox :: "string \<Rightarrow> int pg" where
  "deleteSandbox sid =
     and_then (takeWriterLock sid) (\<lambda>_ tx.
       case get_sandbox tx sid of
         None \<Rightarrow> (Inr (case map_of (sandbox_epochs (t_db tx)) sid of None \<Rightarrow> 0 | Some e \<Rightarrow> e), tx)
       | Some s \<Rightarrow>
           let epoch = (case map_of (sandbox_epochs (t_db tx)) sid of
                          None \<Rightarrow> sb_version s + 1 | Some e \<Rightarrow> max e (sb_version s + 1))
           in (Inr epoch,
               on_db (\<lambda>d. (del_sandbox sid d)\<lparr>sandbox_epochs := AList.update sid epoch (sandbox_epochs d)\<rparr>) tx))"

definition sandboxExists :: "string \<Rightarrow> bool pg" where
  "sandboxExists sid = gets (\<lambda>tx. get_sandbox tx sid \<noteq> None)"

record sandbox_meta =
  meta_owner :: "string option"
  meta_name :: "string option"
  meta_python :: bool
  meta_javascript :: bool
  meta_network :: bool
  meta_created_at :: int

definition meta_of_row :: "sandbox_row \<Rightarrow> sandbox_meta" where
  "meta_of_row s =
     \<lparr>meta_owner = sb_owner s, meta_name = sb_name s, meta_python = sb_python s,
      meta_javascript = sb_javascript s, meta_network = sb_network s, meta_created_at = sb_created_at s\<rparr>"

definition getSandboxMeta :: "string \<Rightarrow> sandbox_meta option pg" where
  "getSandboxMeta sid = gets (\<lambda>tx. map_option meta_of_row (get_sandbox tx sid))"

definition updateSandboxMeta :: "string \<Rightarrow> sandbox_meta \<Rightarrow> unit pg" where
  "updateSandboxMeta sid meta = (\<lambda>tx.
     case get_sandbox tx sid of
       None \<Rightarrow> (Inl (ENOENT sid), tx)
     | Some s \<Rightarrow>
         (Inr (), on_db (\<lambda>d. d\<lparr>sandboxes := AList.update sid
            (s\<lparr>sb_owner := meta_owner meta, sb_name := meta_name meta, sb_python := meta_python meta,
               sb_javascript := meta_javascript meta, sb_network := meta_network meta\<rparr>) (sandboxes d)\<rparr>) tx))"

text \<open>A flag left \<open>undefined\<close> (\<open>None\<close>) keeps its column: \<open>COALESCE(flag, column)\<close>.\<close>

definition coalesce :: "'a option \<Rightarrow> 'a \<Rightarrow> 'a" where
  "coalesce o' v = (case o' of None \<Rightarrow> v | Some x \<Rightarrow> x)"

definition updateSandboxRuntime ::
  "string \<Rightarrow> bool option \<Rightarrow> bool option \<Rightarrow> bool option \<Rightarrow> sandbox_meta option pg" where
  "updateSandboxRuntime sid python javascript network =
     and_then (takeWriterLock sid) (\<lambda>_ tx.
       case get_sandbox tx sid of
         None \<Rightarrow> (Inr None, tx)
       | Some s \<Rightarrow>
           let s' = s\<lparr>sb_python := coalesce python (sb_python s),
                      sb_javascript := coalesce javascript (sb_javascript s),
                      sb_network := coalesce network (sb_network s),
                      sb_version := sb_version s + 1\<rparr>
           in (Inr (Some (meta_of_row s')),
               on_db (\<lambda>d. d\<lparr>sandboxes := AList.update sid s' (sandboxes d)\<rparr>) tx))"

end
