(* ===== verification/PgNamespace.thy ===== *)
theory PgNamespace
  imports PgSandbox
begin

text \<open>
  \<open>src/sql-fs/dialects/postgres/namespace.ts\<close>: inode and directory-entry statements. Each
  definition is one method; the \<open>fenced\<close> column of its result row is the boolean of
  \<open>fenceCtes\<close>, and a guard \<open>(SELECT 1 FROM epoch) IS NOT NULL\<close> is the branch taken only when
  it is true.
\<close>

section \<open>Composites\<close>

text \<open>
  A composite's final \<open>SELECT ... FROM sandboxes WHERE id = ...\<close> has a row exactly when the sandbox
  is visible, so a failed fence is ESTALE on a live sandbox and the method's own error otherwise.
\<close>

definition composite_fence :: "string \<Rightarrow> int option \<Rightarrow> fs_error \<Rightarrow> unit pg" where
  "composite_fence sid expected gone = (\<lambda>tx.
     case fenceCtes Composite sid expected tx of
       (True, tx') \<Rightarrow> (Inr (), tx')
     | (False, tx') \<Rightarrow> (if get_sandbox tx' sid = None then (Inl gone, tx') else (Inl (ESTALE sid), tx')))"

definition mkdirComposite :: "string \<Rightarrow> int \<Rightarrow> string \<Rightarrow> int \<Rightarrow> int option \<Rightarrow> int pg" where
  "mkdirComposite sid parent name mode expected =
     and_then (takeWriterLock sid) (\<lambda>_.
     and_then (composite_fence sid expected (InternalError ''mkdirComposite: INSERT returned no rows'')) (\<lambda>_.
     and_then (\<lambda>tx. insert_inode (new_inode_row sid DIRECTORY mode 0 None None (t_now tx)) tx) (\<lambda>i.
     and_then (insert_dirent_row (parent, name) \<lparr>d_inode = i, d_sandbox = sid\<rparr>) (\<lambda>_.
     return_ok i))))"

definition rmComposite :: "string \<Rightarrow> int \<Rightarrow> string \<Rightarrow> int option \<Rightarrow> int pg" where
  "rmComposite sid parent name expected =
     and_then (takeWriterLock sid) (\<lambda>_.
     and_then (composite_fence sid expected (ENOENT name)) (\<lambda>_ tx.
       case get_dirent tx (parent, name) of
         None \<Rightarrow> (Inl (ENOENT name), tx)
       | Some d \<Rightarrow> (Inr (d_inode d), drop_link (d_inode d) (on_db (del_dirent (parent, name)) tx))))"

definition writeFileComposite ::
  "string \<Rightarrow> int \<Rightarrow> string \<Rightarrow> int \<Rightarrow> int \<Rightarrow> bytes \<Rightarrow> int option \<Rightarrow> int pg" where
  "writeFileComposite sid parent name mode sz sha expected =
     and_then (takeWriterLock sid) (\<lambda>_.
     and_then (composite_fence sid expected (InternalError ''writeFileComposite: INSERT returned no rows'')) (\<lambda>_ tx0.
       let old = get_dirent tx0 (parent, name)
       in and_then (\<lambda>tx. insert_inode (new_inode_row sid FILE mode sz (Some sha) None (t_now tx)) tx) (\<lambda>i.
          and_then (upsert_dirent_row (parent, name) \<lparr>d_inode = i, d_sandbox = sid\<rparr>) (\<lambda>_.
          and_then (modify (case old of None \<Rightarrow> id | Some d \<Rightarrow> drop_link (d_inode d))) (\<lambda>_.
          return_ok i))) tx0))"

text \<open>The primary key refuses a rename onto an occupied slot (here: a slot of another sandbox).\<close>

definition rename_dirent :: "int \<times> string \<Rightarrow> int \<times> string \<Rightarrow> fs_error \<Rightarrow> unit pg" where
  "rename_dirent old new missing = (\<lambda>tx.
     case get_dirent tx old of
       None \<Rightarrow> (Inl missing, tx)
     | Some d \<Rightarrow>
         if new \<noteq> old \<and> map_of (dirents (t_db tx)) new \<noteq> None then (Inl unique_violation, tx)
         else if map_of (inodes (t_db tx)) (fst new) = None then (Inl foreign_key_violation, tx)
         else (Inr (), on_db (\<lambda>x. put_dirent new d (del_dirent old x)) tx))"

definition mvComposite ::
  "string \<Rightarrow> int \<Rightarrow> string \<Rightarrow> int \<Rightarrow> string \<Rightarrow> int option \<Rightarrow> unit pg" where
  "mvComposite sid oldParent oldName newParent newName expected =
     and_then (takeWriterLock sid) (\<lambda>_.
     and_then (composite_fence sid expected (ENOENT oldName)) (\<lambda>_.
     and_then (modify (\<lambda>tx.
        case get_dirent tx (newParent, newName) of
          None \<Rightarrow> tx
        | Some d \<Rightarrow> drop_link (d_inode d) (on_db (del_dirent (newParent, newName)) tx))) (\<lambda>_.
     and_then (takeWriterLock sid) (\<lambda>_.
     and_then (composite_fence sid expected (ENOENT oldName)) (\<lambda>_.
     rename_dirent (oldParent, oldName) (newParent, newName) (ENOENT oldName))))))"

section \<open>Fenced single statements\<close>

text \<open>Without a \<open>FROM sandboxes\<close> the result row always exists: a refused fence is always ESTALE.\<close>

definition plain_fence :: "string \<Rightarrow> int option \<Rightarrow> unit pg" where
  "plain_fence sid expected = (\<lambda>tx.
     case fenceCtes Existing sid expected tx of
       (True, tx') \<Rightarrow> (Inr (), tx')
     | (False, tx') \<Rightarrow> (Inl (ESTALE sid), tx'))"

record create_inode_opts =
  c_sandbox :: string
  c_kind :: inode_kind
  c_mode :: int
  c_size :: int
  c_sha :: "bytes option"
  c_target :: "string option"

definition createInode :: "create_inode_opts \<Rightarrow> int option \<Rightarrow> int pg" where
  "createInode opts expected =
     and_then (plain_fence (c_sandbox opts) expected) (\<lambda>_ tx.
       insert_inode (new_inode_row (c_sandbox opts) (c_kind opts) (c_mode opts) (c_size opts)
         (c_sha opts) (c_target opts) (t_now tx)) tx)"

definition getInode :: "int \<Rightarrow> inode_row option pg" where
  "getInode i = gets (\<lambda>tx. get_inode tx i)"

record update_inode_opts =
  u_mode :: "int option"
  u_size :: "int option"
  u_mtime :: "int option"
  u_sha :: "bytes option option"

definition patch_inode_row :: "update_inode_opts \<Rightarrow> inode_row \<Rightarrow> inode_row" where
  "patch_inode_row u r =
     r\<lparr>i_mode := coalesce (u_mode u) (i_mode r),
       i_size := coalesce (u_size u) (i_size r),
       i_mtime := coalesce (u_mtime u) (i_mtime r),
       i_sha := coalesce (u_sha u) (i_sha r)\<rparr>"

definition updateInode :: "int \<Rightarrow> update_inode_opts \<Rightarrow> string \<Rightarrow> int option \<Rightarrow> unit pg" where
  "updateInode i u sid expected =
     (if u_mode u = None \<and> u_size u = None \<and> u_mtime u = None \<and> u_sha u = None then return_ok ()
      else
        and_then (plain_fence sid expected) (\<lambda>_ tx.
          (Inr (), case get_inode tx i of
                     None \<Rightarrow> tx
                   | Some r \<Rightarrow> on_db (put_inode i (patch_inode_row u r)) tx)))"

definition deleteInode :: "int \<Rightarrow> unit pg" where
  "deleteInode i = (\<lambda>tx. (Inr (), if get_inode tx i = None then tx else on_db (del_inode i) tx))"

definition incrementNlink :: "int \<Rightarrow> string \<Rightarrow> int option \<Rightarrow> unit pg" where
  "incrementNlink i sid expected =
     and_then (plain_fence sid expected) (\<lambda>_ tx.
       (Inr (), case get_inode tx i of
                  None \<Rightarrow> tx
                | Some r \<Rightarrow> on_db (put_inode i (r\<lparr>i_nlink := i_nlink r + 1\<rparr>)) tx))"

definition decrementNlink :: "int \<Rightarrow> int pg" where
  "decrementNlink i = (\<lambda>tx.
     case get_inode tx i of
       None \<Rightarrow> (Inl (InternalError ''decrementNlink: inode not found''), tx)
     | Some r \<Rightarrow> (Inr (i_nlink r - 1), on_db (put_inode i (r\<lparr>i_nlink := i_nlink r - 1\<rparr>)) tx))"

text \<open>\<open>INSERT ... SELECT ... FROM inodes WHERE id = parent\<close>: no row when the parent is not visible.\<close>

definition insertDirent :: "int \<Rightarrow> string \<Rightarrow> int \<Rightarrow> unit pg" where
  "insertDirent parent name i = (\<lambda>tx.
     case get_inode tx parent of
       None \<Rightarrow> (Inr (), tx)
     | Some p \<Rightarrow> insert_dirent_row (parent, name) \<lparr>d_inode = i, d_sandbox = i_sandbox p\<rparr> tx)"

definition upsertDirent :: "int \<Rightarrow> string \<Rightarrow> int \<Rightarrow> int option pg" where
  "upsertDirent parent name i = (\<lambda>tx.
     case get_inode tx parent of
       None \<Rightarrow> (Inl (InternalError ''upsertDirent: INSERT returned no rows''), tx)
     | Some p \<Rightarrow>
         let old = map_option d_inode (get_dirent tx (parent, name))
         in and_then (upsert_dirent_row (parent, name) \<lparr>d_inode = i, d_sandbox = i_sandbox p\<rparr>) (\<lambda>_.
            return_ok old) tx)"

definition deleteDirent :: "int \<Rightarrow> string \<Rightarrow> string \<Rightarrow> int option \<Rightarrow> int pg" where
  "deleteDirent parent name sid expected =
     and_then (plain_fence sid expected) (\<lambda>_ tx.
       case get_dirent tx (parent, name) of
         None \<Rightarrow> (Inl (ENOENT name), tx)
       | Some d \<Rightarrow> (Inr (d_inode d), on_db (del_dirent (parent, name)) tx))"

definition moveDirent ::
  "int \<Rightarrow> string \<Rightarrow> int \<Rightarrow> string \<Rightarrow> string \<Rightarrow> int option \<Rightarrow> unit pg" where
  "moveDirent oldParent oldName newParent newName sid expected =
     and_then (plain_fence sid expected) (\<lambda>_.
     and_then (modify (\<lambda>tx.
        if get_dirent tx (newParent, newName) = None then tx
        else on_db (del_dirent (newParent, newName)) tx)) (\<lambda>_.
     rename_dirent (oldParent, oldName) (newParent, newName) (ENOENT oldName)))"

section \<open>Loading the tree\<close>

text \<open>An entry of the path cache (\<open>PathCacheEntry\<close> of \<open>types.ts\<close>).\<close>

record path_entry =
  pe_inode :: int
  pe_kind :: inode_kind
  pe_mode :: int
  pe_size :: int
  pe_mtime :: int
  pe_sha :: "bytes option"
  pe_target :: "string option"

definition entry_of_row :: "int \<Rightarrow> inode_row \<Rightarrow> path_entry" where
  "entry_of_row i r =
     \<lparr>pe_inode = i, pe_kind = i_kind r, pe_mode = i_mode r, pe_size = i_size r,
      pe_mtime = i_mtime r, pe_sha = i_sha r, pe_target = i_target r\<rparr>"

type_synonym path_rows = "(string \<times> path_entry) list"

text \<open>
  One iteration of the recursive CTE \<open>tree\<close>: the rows joined to the working table. The CTE iterates
  until the working table is empty.
\<close>

definition tree_step :: "pgtx \<Rightarrow> path_rows \<Rightarrow> path_rows" where
  "tree_step tx work =
     concat (map (\<lambda>(path, e).
       concat (map (\<lambda>((parent, name), d).
         if parent = pe_inode e \<and> rls_ok tx (d_sandbox d) then
           (case get_inode tx (d_inode d) of
              None \<Rightarrow> []
            | Some r \<Rightarrow> [(child_path path name, entry_of_row (d_inode d) r)])
         else []) (dirents (t_db tx)))) work)"

partial_function (option) tree_rows :: "pgtx \<Rightarrow> path_rows \<Rightarrow> path_rows \<Rightarrow> path_rows option" where
  "tree_rows tx acc work =
     (if work = [] then Some acc else tree_rows tx (acc @ work) (tree_step tx work))"

declare tree_rows.simps [code]

definition tree_anchor :: "pgtx \<Rightarrow> path_rows" where
  "tree_anchor tx =
     (case get_sandbox tx (app_sandbox_id tx) of
        None \<Rightarrow> []
      | Some s \<Rightarrow>
          (case sb_root s of
             None \<Rightarrow> []
           | Some root \<Rightarrow>
               (case get_inode tx root of None \<Rightarrow> [] | Some r \<Rightarrow> [(''/'', entry_of_row root r)])))"

definition loadAllPaths :: "pgtx \<Rightarrow> path_rows option" where
  "loadAllPaths tx = tree_rows tx [] (tree_anchor tx)"

end
