(* ===== verification/Tree.thy ===== *)
theory Tree
  imports PgNamespace
begin

text \<open>
  What the tables \<open>inodes\<close> and \<open>dirents\<close> mean as a directory tree, and the invariant every
  statement sequence of the file system keeps. \<open>walk\<close> follows entries from an inode, \<open>db_lookup\<close>
  is the entry a path denotes, \<open>wf_db\<close> the invariant: entries join a directory to an inode of the
  same sandbox, a directory has at most one entry and a root none, link counts count entries, and
  ids are positive and below the sequence. Nothing here models code; it is the specification that the
  path cache and the dialect are related by.
\<close>

section \<open>Walking a child function\<close>

fun walkc :: "(int \<Rightarrow> string \<Rightarrow> int option) \<Rightarrow> int \<Rightarrow> string list \<Rightarrow> int option" where
  "walkc ch i [] = Some i"
| "walkc ch i (n # ns) = (case ch i n of None \<Rightarrow> None | Some j \<Rightarrow> walkc ch j ns)"

lemma walkc_append:
  "walkc ch i (a @ b) = (case walkc ch i a of None \<Rightarrow> None | Some j \<Rightarrow> walkc ch j b)"
  by (induction a arbitrary: i) (auto split: option.splits)

lemma walkc_snoc: "walkc ch i (a @ [n]) = (case walkc ch i a of None \<Rightarrow> None | Some j \<Rightarrow> ch j n)"
  by (auto simp: walkc_append split: option.splits)

lemma walkc_snoc_Some: "walkc ch i a = Some j \<Longrightarrow> walkc ch i (a @ b) = walkc ch j b"
  by (simp add: walkc_append)

lemma walkc_leaf: "(\<And>n. ch i n = None) \<Longrightarrow> walkc ch i ns = (if ns = [] then Some i else None)"
  by (cases ns) auto

abbreviation set_child ::
  "(int \<Rightarrow> string \<Rightarrow> int option) \<Rightarrow> int \<Rightarrow> string \<Rightarrow> int option \<Rightarrow> int \<Rightarrow> string \<Rightarrow> int option" where
  "set_child ch p n x \<equiv> ch(p := (ch p)(n := x))"

text \<open>A walk that never stands on \<open>p\<close> before reading \<open>n\<close> does not notice the update.\<close>

lemma walkc_set_child_other:
  assumes "\<And>a b. segs = a @ n # b \<Longrightarrow> walkc ch i a \<noteq> Some p"
  shows "walkc (set_child ch p n x) i segs = walkc ch i segs"
  using assms
proof (induction segs arbitrary: i)
  case Nil
  then show ?case by simp
next
  case (Cons m ms)
  have here: "\<not> (i = p \<and> m = n)"
    using Cons.prems [of "[]" ms] by auto
  have below: "\<And>j a b. ch i m = Some j \<Longrightarrow> ms = a @ n # b \<Longrightarrow> walkc ch j a \<noteq> Some p"
    using Cons.prems [of "m # _"] by fastforce
  have "set_child ch p n x i m = ch i m" using here by auto
  then show ?case using Cons.IH below by (auto split: option.splits)
qed

lemma walkc_set_child:
  assumes at: "walkc ch r ps = Some p"
    and unique: "\<And>qs. walkc ch r qs = Some p \<Longrightarrow> qs = ps"
  shows "walkc (set_child ch p n x) r segs =
    (if prefix (ps @ [n]) segs
     then (case x of None \<Rightarrow> None | Some i \<Rightarrow> walkc (set_child ch p n x) i (drop (Suc (length ps)) segs))
     else walkc ch r segs)"
proof (cases "prefix (ps @ [n]) segs")
  case True
  then obtain rest where segs: "segs = ps @ n # rest" by (auto simp: prefix_def)
  have "walkc (set_child ch p n x) r ps = walkc ch r ps"
  proof (rule walkc_set_child_other)
    fix a b assume "ps = a @ n # b"
    then show "walkc ch r a \<noteq> Some p" using unique [of a] by auto
  qed
  then have "walkc (set_child ch p n x) r ps = Some p" using at by simp
  then have "walkc (set_child ch p n x) r segs = walkc (set_child ch p n x) p (n # rest)"
    unfolding segs by (rule walkc_snoc_Some)
  then show ?thesis using True segs by (cases x) simp_all
next
  case False
  have "walkc (set_child ch p n x) r segs = walkc ch r segs"
  proof (rule walkc_set_child_other)
    fix a b assume "segs = a @ n # b"
    then show "walkc ch r a \<noteq> Some p" using unique [of a] False by auto
  qed
  then show ?thesis using False by simp
qed

text \<open>The child becomes a leaf (a new file or an empty directory).\<close>

lemma walkc_set_leaf:
  assumes at: "walkc ch r ps = Some p"
    and unique: "\<And>qs. walkc ch r qs = Some p \<Longrightarrow> qs = ps"
    and leaf: "\<And>m. ch i m = None" and ne: "i \<noteq> p"
  shows "walkc (set_child ch p n (Some i)) r segs =
    (if segs = ps @ [n] then Some i
     else if strict_prefix (ps @ [n]) segs then None else walkc ch r segs)"
proof -
  have "walkc (set_child ch p n (Some i)) i ns = (if ns = [] then Some i else None)" for ns
    by (rule walkc_leaf) (use leaf ne in auto)
  then show ?thesis
    using walkc_set_child [OF at unique, of n "Some i" segs]
    by (auto simp: strict_prefix_def prefix_def)
qed

lemma walkc_remove:
  assumes at: "walkc ch r ps = Some p"
    and unique: "\<And>qs. walkc ch r qs = Some p \<Longrightarrow> qs = ps"
  shows "walkc (set_child ch p n None) r segs =
    (if prefix (ps @ [n]) segs then None else walkc ch r segs)"
  using walkc_set_child [OF at unique, of n None segs] by simp

section \<open>The tables as a tree\<close>

definition child :: "db \<Rightarrow> int \<Rightarrow> string \<Rightarrow> int option" where
  "child d p n = map_option d_inode (map_of (dirents d) (p, n))"

abbreviation walk :: "db \<Rightarrow> int \<Rightarrow> string list \<Rightarrow> int option" where
  "walk d \<equiv> walkc (child d)"

definition node :: "db \<Rightarrow> int \<Rightarrow> inode_row option" where
  "node d i = map_of (inodes d) i"

definition db_lookup :: "db \<Rightarrow> int \<Rightarrow> string list \<Rightarrow> path_entry option" where
  "db_lookup d r segs =
     (case walk d r segs of None \<Rightarrow> None | Some i \<Rightarrow> map_option (entry_of_row i) (node d i))"

definition links :: "db \<Rightarrow> int \<Rightarrow> (int \<times> string) set" where
  "links d i = {k. map_option d_inode (map_of (dirents d) k) = Some i}"

definition link_count :: "db \<Rightarrow> int \<Rightarrow> int" where
  "link_count d i = int (card (links d i))"

definition root_of :: "db \<Rightarrow> string \<Rightarrow> int option" where
  "root_of d sid = (case map_of (sandboxes d) sid of None \<Rightarrow> None | Some s \<Rightarrow> sb_root s)"

definition version_of :: "db \<Rightarrow> string \<Rightarrow> int option" where
  "version_of d sid = map_option sb_version (map_of (sandboxes d) sid)"

definition is_root :: "db \<Rightarrow> int \<Rightarrow> bool" where
  "is_root d i \<longleftrightarrow> (\<exists>sid. root_of d sid = Some i)"

section \<open>The invariant\<close>

definition wf_keys :: "db \<Rightarrow> bool" where
  "wf_keys d \<longleftrightarrow> distinct (map fst (inodes d)) \<and> distinct (map fst (dirents d))
     \<and> distinct (map fst (sandboxes d))"

definition wf_ids :: "db \<Rightarrow> bool" where
  "wf_ids d \<longleftrightarrow> 0 < inode_seq d \<and> (\<forall>i r. node d i = Some r \<longrightarrow> 0 < i \<and> i < inode_seq d)"

definition wf_entries :: "db \<Rightarrow> bool" where
  "wf_entries d \<longleftrightarrow> (\<forall>p n e. map_of (dirents d) (p, n) = Some e \<longrightarrow>
     valid_name n
     \<and> (\<exists>pr. node d p = Some pr \<and> i_kind pr = DIRECTORY \<and> i_sandbox pr = d_sandbox e)
     \<and> (\<exists>cr. node d (d_inode e) = Some cr \<and> i_sandbox cr = d_sandbox e))"

definition wf_dirs :: "db \<Rightarrow> bool" where
  "wf_dirs d \<longleftrightarrow> (\<forall>i r k k'. node d i = Some r \<and> i_kind r = DIRECTORY \<and> k \<in> links d i \<and> k' \<in> links d i \<longrightarrow> k = k')"

definition wf_roots :: "db \<Rightarrow> bool" where
  "wf_roots d \<longleftrightarrow> (\<forall>sid r. root_of d sid = Some r \<longrightarrow>
     (\<exists>row. node d r = Some row \<and> i_kind row = DIRECTORY \<and> i_sandbox row = sid) \<and> links d r = {})"

text \<open>
  Between the statements of one transaction a link count may be off by what the remaining statements
  will settle: \<open>off i\<close> is how much the stored count of \<open>i\<close> exceeds the number of its entries.
\<close>

definition wf_links :: "(int \<Rightarrow> int) \<Rightarrow> db \<Rightarrow> bool" where
  "wf_links off d \<longleftrightarrow> (\<forall>i r. node d i = Some r \<and> \<not> is_root d i \<longrightarrow> i_nlink r = link_count d i + off i)"

definition wf_off :: "(int \<Rightarrow> int) \<Rightarrow> db \<Rightarrow> bool" where
  "wf_off off d \<longleftrightarrow> wf_keys d \<and> wf_ids d \<and> wf_entries d \<and> wf_dirs d \<and> wf_roots d \<and> wf_links off d"

abbreviation wf_db :: "db \<Rightarrow> bool" where
  "wf_db \<equiv> wf_off (\<lambda>_. 0)"

section \<open>Consequences of the invariant\<close>

lemma finite_links [simp]: "finite (links d i)"
proof -
  have "links d i \<subseteq> dom (map_of (dirents d))" by (auto simp: links_def)
  then show ?thesis by (rule finite_subset) (rule finite_dom_map_of)
qed

lemma mem_links_iff: "k \<in> links d i \<longleftrightarrow> (\<exists>e. map_of (dirents d) k = Some e \<and> d_inode e = i)"
  by (auto simp: links_def)

lemma mem_links_child: "(p, n) \<in> links d i \<longleftrightarrow> child d p n = Some i"
  by (simp add: links_def child_def)

lemma link_count_nonneg [simp]: "0 \<le> link_count d i"
  by (simp add: link_count_def)

lemma link_count_0_iff: "link_count d i = 0 \<longleftrightarrow> links d i = {}"
  by (simp add: link_count_def)

lemma child_Some_iff: "child d p n = Some i \<longleftrightarrow> (\<exists>e. map_of (dirents d) (p, n) = Some e \<and> d_inode e = i)"
  by (auto simp: child_def)

lemma wf_child_entry:
  assumes "wf_off off d" and "child d p n = Some i"
  obtains e pr cr where "map_of (dirents d) (p, n) = Some e" and "d_inode e = i" and "valid_name n"
    and "node d p = Some pr" and "i_kind pr = DIRECTORY" and "i_sandbox pr = d_sandbox e"
    and "node d i = Some cr" and "i_sandbox cr = d_sandbox e"
  using assms unfolding wf_off_def wf_entries_def child_Some_iff by metis

lemma wf_nondir_no_child:
  assumes "wf_off off d" and "node d p = None \<or> (\<exists>r. node d p = Some r \<and> i_kind r \<noteq> DIRECTORY)"
  shows "child d p n = None"
  using assms by (cases "child d p n") (auto elim!: wf_child_entry)

lemma wf_walk_node:
  assumes "wf_off off d" and "root_of d sid = Some r" and "walk d r segs = Some i"
  shows "\<exists>row. node d i = Some row \<and> i_sandbox row = sid"
  using assms(3)
proof (induction segs arbitrary: i rule: rev_induct)
  case Nil
  then show ?case using assms(1,2) by (auto simp: wf_off_def wf_roots_def)
next
  case (snoc n segs)
  then obtain p where p: "walk d r segs = Some p" "child d p n = Some i"
    by (auto simp: walkc_snoc split: option.splits)
  with snoc.IH obtain row where "node d p = Some row" "i_sandbox row = sid" by blast
  with p assms(1) show ?case by (auto elim!: wf_child_entry)
qed

lemma wf_walk_valid:
  assumes "wf_off off d" and "walk d r segs = Some i"
  shows "valid_names segs"
  using assms(2)
  by (induction segs arbitrary: r) (auto split: option.splits elim: wf_child_entry [OF assms(1)])

text \<open>A directory has one path: the key fact behind a path-keyed cache.\<close>

lemma wf_dir_unique_path:
  assumes wf: "wf_off off d" and root: "root_of d sid = Some r"
    and dir: "node d p = Some row" "i_kind row = DIRECTORY"
    and s: "walk d r s = Some p" and t: "walk d r t = Some p"
  shows "s = t"
  using dir s t
proof (induction "length s" arbitrary: s t p row rule: less_induct)
  case less
  have no_root: "child d q n \<noteq> Some r" for q n
    using wf root by (auto simp: wf_off_def wf_roots_def simp flip: mem_links_child)
  have last: "\<exists>s' n q. s = s' @ [n] \<and> walk d r s' = Some q \<and> child d q n = Some p" if "s \<noteq> []"
    using that less.prems(3) by (cases s rule: rev_cases) (auto simp: walkc_snoc split: option.splits)
  have last': "\<exists>t' n q. t = t' @ [n] \<and> walk d r t' = Some q \<and> child d q n = Some p" if "t \<noteq> []"
    using that less.prems(4) by (cases t rule: rev_cases) (auto simp: walkc_snoc split: option.splits)
  consider "s = []" "t = []" | "s = []" "t \<noteq> []" | "s \<noteq> []" "t = []" | "s \<noteq> []" "t \<noteq> []" by blast
  then show ?case
  proof cases
    case 1
    then show ?thesis by simp
  next
    case 2
    then show ?thesis using last' less.prems(3) no_root by auto
  next
    case 3
    then show ?thesis using last less.prems(4) no_root by auto
  next
    case 4
    from last [OF 4(1)] obtain s' n q where sq: "s = s' @ [n]" "walk d r s' = Some q" "child d q n = Some p"
      by blast
    from last' [OF 4(2)] obtain t' n' q' where tq: "t = t' @ [n']" "walk d r t' = Some q'" "child d q' n' = Some p"
      by blast
    have "(q, n) \<in> links d p" and "(q', n') \<in> links d p"
      using sq(3) tq(3) by (simp_all add: mem_links_child)
    then have same: "q = q'" "n = n'"
      using wf less.prems(1,2) unfolding wf_off_def wf_dirs_def by (metis prod.inject)+
    obtain qr where "node d q = Some qr" "i_kind qr = DIRECTORY"
      using wf sq(3) by (auto elim: wf_child_entry)
    then have "s' = t'" using less.hyps [of s' q qr t'] sq tq same by simp
    then show ?thesis using sq tq same by simp
  qed
qed

lemma wf_no_node_no_links: "wf_off off d \<Longrightarrow> node d i = None \<Longrightarrow> links d i = {}"
  by (auto simp: mem_links_child elim: wf_child_entry)

lemma wf_root_no_links: "wf_off off d \<Longrightarrow> is_root d i \<Longrightarrow> links d i = {}"
  by (auto simp: wf_off_def wf_roots_def is_root_def)

lemma wf_dir_links: "wf_off off d \<Longrightarrow> node d i = Some r \<Longrightarrow> i_kind r = DIRECTORY \<Longrightarrow>
   k \<in> links d i \<Longrightarrow> links d i = {k}"
  unfolding wf_off_def wf_dirs_def by blast

section \<open>Effect of the table updates\<close>

lemma node_put_inode [table_simps, simp]:
  "node (put_inode i r d) j = (if j = i then Some r else node d j)"
  by (simp add: node_def put_inode_def)

lemma child_put_inode [table_simps, simp]: "child (put_inode i r d) = child d"
  by (intro ext) (simp add: child_def put_inode_def)

lemma child_inode_seq [table_simps, simp]: "child (d\<lparr>inode_seq := x\<rparr>) = child d"
  by (intro ext) (simp add: child_def)

lemma node_inode_seq [table_simps, simp]: "node (d\<lparr>inode_seq := x\<rparr>) = node d"
  by (intro ext) (simp add: node_def)

lemma child_sandboxes [table_simps, simp]: "child (d\<lparr>sandboxes := x\<rparr>) = child d"
  by (intro ext) (simp add: child_def)

lemma node_sandboxes [table_simps, simp]: "node (d\<lparr>sandboxes := x\<rparr>) = node d"
  by (intro ext) (simp add: node_def)

lemma node_put_dirent [table_simps, simp]: "node (put_dirent k e d) = node d"
  by (intro ext) (simp add: node_def put_dirent_def)

lemma node_del_dirent [table_simps, simp]: "node (del_dirent k d) = node d"
  by (intro ext) (simp add: node_def del_dirent_def)

lemma map_of_dirents_put [table_simps, simp]:
  "map_of (dirents (put_dirent k e d)) k' = (if k' = k then Some e else map_of (dirents d) k')"
  by (simp add: put_dirent_def)

lemma map_of_dirents_del [table_simps, simp]:
  "map_of (dirents (del_dirent k d)) k' = (if k' = k then None else map_of (dirents d) k')"
  by (simp add: del_dirent_def)

lemma dirents_put_inode [table_simps, simp]: "dirents (put_inode i r d) = dirents d"
  by (simp add: put_inode_def)

lemma child_put_dirent [table_simps]:
  "child (put_dirent (p, n) e d) = set_child (child d) p n (Some (d_inode e))"
  by (intro ext) (auto simp: child_def put_dirent_def)

lemma child_del_dirent [table_simps]:
  "child (del_dirent (p, n) d) = set_child (child d) p n None"
  by (intro ext) (auto simp: child_def del_dirent_def)

lemma node_del_inode [table_simps, simp]:
  "node (del_inode i d) j = (if j = i then None else node d j)"
  by (simp add: node_def del_inode_def)

text \<open>Deleting an inode no entry mentions leaves the entries alone.\<close>

lemma dirents_del_inode_unlinked:
  assumes "\<And>k e. map_of (dirents d) k = Some e \<Longrightarrow> fst k \<noteq> i \<and> d_inode e \<noteq> i"
    and "distinct (map fst (dirents d))"
  shows "dirents (del_inode i d) = dirents d"
proof -
  have "filter (\<lambda>(k, e). fst k \<noteq> i \<and> d_inode e \<noteq> i) (dirents d) = dirents d"
    using assms by (intro filter_True) (auto simp: map_of_eq_Some_iff)
  then show ?thesis by (simp add: del_inode_def)
qed

section \<open>Every statement keeps the invariant up to its debt\<close>

lemma links_put_inode [table_simps, simp]: "links (put_inode i r d) = links d"
  by (intro ext) (simp add: links_def put_inode_def)

lemma links_inode_seq [table_simps, simp]: "links (d\<lparr>inode_seq := x\<rparr>) = links d"
  by (intro ext) (simp add: links_def)

lemma links_put_dirent [table_simps]:
  "links (put_dirent k e d) i = (if d_inode e = i then insert k (links d i) else links d i - {k})"
  by (auto simp: links_def put_dirent_def)

lemma links_del_dirent [table_simps]: "links (del_dirent k d) i = links d i - {k}"
  by (auto simp: links_def del_dirent_def)

lemma root_of_put_inode [table_simps, simp]: "root_of (put_inode i r d) = root_of d"
  by (intro ext) (simp add: root_of_def put_inode_def)

lemma root_of_inode_seq [table_simps, simp]: "root_of (d\<lparr>inode_seq := x\<rparr>) = root_of d"
  by (intro ext) (simp add: root_of_def)

lemma root_of_put_dirent [table_simps, simp]: "root_of (put_dirent k e d) = root_of d"
  by (intro ext) (simp add: root_of_def put_dirent_def)

lemma root_of_del_dirent [table_simps, simp]: "root_of (del_dirent k d) = root_of d"
  by (intro ext) (simp add: root_of_def del_dirent_def)

lemma root_of_del_inode [table_simps, simp]: "root_of (del_inode i d) = root_of d"
  by (intro ext) (simp add: root_of_def del_inode_def)

lemma is_root_simps [table_simps, simp]:
  "is_root (put_inode i r d) = is_root d" "is_root (d\<lparr>inode_seq := x\<rparr>) = is_root d"
  "is_root (put_dirent k e d) = is_root d" "is_root (del_dirent k d) = is_root d"
  "is_root (del_inode i d) = is_root d"
  by (simp_all add: is_root_def fun_eq_iff)

lemma wf_root_node:
  "wf_off off d \<Longrightarrow> is_root d i \<Longrightarrow> \<exists>r. node d i = Some r \<and> i_kind r = DIRECTORY"
  unfolding wf_off_def wf_roots_def is_root_def by blast

text \<open>A new inode owes one entry.\<close>

lemma wf_insert_inode:
  assumes wf: "wf_off off d" and i: "i = inode_seq d" and r: "i_nlink r = 1"
  shows "wf_off (off(i := 1)) ((put_inode i r d)\<lparr>inode_seq := i + 1\<rparr>)"
proof -
  have fresh: "node d i = None" using wf i by (auto simp: wf_off_def wf_ids_def)
  then have nl: "links d i = {}" using wf by (rule wf_no_node_no_links [rotated])
  have nr: "\<not> is_root d i" using wf_root_node [OF wf, of i] fresh by auto
  have ne: "map_of (dirents d) (p, n) = Some e \<Longrightarrow> p \<noteq> i \<and> d_inode e \<noteq> i" for p n e
    using wf fresh unfolding wf_off_def wf_entries_def by (metis option.distinct(1))
  show ?thesis
    unfolding wf_off_def
  proof (intro conjI)
    show "wf_keys ((put_inode i r d)\<lparr>inode_seq := i + 1\<rparr>)"
      using wf by (simp add: wf_off_def wf_keys_def put_inode_def distinct_update)
    show "wf_ids ((put_inode i r d)\<lparr>inode_seq := i + 1\<rparr>)"
      using wf i by (auto simp: wf_off_def wf_ids_def)
    show "wf_entries ((put_inode i r d)\<lparr>inode_seq := i + 1\<rparr>)"
      using wf ne by (auto simp: wf_off_def wf_entries_def put_inode_def node_def)
    show "wf_dirs ((put_inode i r d)\<lparr>inode_seq := i + 1\<rparr>)"
      using wf nl by (auto simp: wf_off_def wf_dirs_def)
    show "wf_roots ((put_inode i r d)\<lparr>inode_seq := i + 1\<rparr>)"
      using wf nr by (auto simp: wf_off_def wf_roots_def is_root_def)
    show "wf_links (off(i := 1)) ((put_inode i r d)\<lparr>inode_seq := i + 1\<rparr>)"
      using wf nl r by (auto simp: wf_off_def wf_links_def link_count_def)
  qed
qed

text \<open>An update that keeps kind and sandbox moves the debt by the change of the count.\<close>

lemma wf_put_inode:
  assumes wf: "wf_off off d" and r: "node d i = Some r"
    and r': "i_kind r' = i_kind r" "i_sandbox r' = i_sandbox r"
  shows "wf_off (off(i := off i + (i_nlink r' - i_nlink r))) (put_inode i r' d)"
proof -
  have ent: "wf_entries (put_inode i r' d)"
    using wf r r' by (fastforce simp: wf_off_def wf_entries_def put_inode_def node_def)
  show ?thesis
    unfolding wf_off_def
  proof (intro conjI ent)
    show "wf_keys (put_inode i r' d)"
      using wf by (simp add: wf_off_def wf_keys_def put_inode_def distinct_update)
    have "0 < i \<and> i < inode_seq d" using wf r by (auto simp: wf_off_def wf_ids_def)
    moreover have "inode_seq (put_inode i r' d) = inode_seq d" by (simp add: put_inode_def)
    ultimately show "wf_ids (put_inode i r' d)"
      using wf by (auto simp: wf_off_def wf_ids_def)
    show "wf_dirs (put_inode i r' d)"
      using wf r r' by (auto simp: wf_off_def wf_dirs_def)
    show "wf_roots (put_inode i r' d)"
      using wf r r' by (fastforce simp: wf_off_def wf_roots_def)
    show "wf_links (off(i := off i + (i_nlink r' - i_nlink r))) (put_inode i r' d)"
      using wf r by (auto simp: wf_off_def wf_links_def link_count_def)
  qed
qed

text \<open>Removing an entry leaves its target with one count too many.\<close>

lemma wf_del_dirent:
  assumes wf: "wf_off off d" and e: "map_of (dirents d) k = Some e"
  shows "wf_off (off(d_inode e := off (d_inode e) + 1)) (del_dirent k d)"
proof -
  have k: "k \<in> links d (d_inode e)" and only: "\<And>i. k \<in> links d i \<Longrightarrow> i = d_inode e"
    using e by (auto simp: mem_links_iff)
  have cnt: "link_count (del_dirent k d) i = (if i = d_inode e then link_count d i - 1 else link_count d i)" for i
  proof (cases "i = d_inode e")
    case True
    then show ?thesis
      using k card_Suc_Diff1 [OF finite_links k] by (simp add: link_count_def links_del_dirent)
  next
    case False
    then have "links d i - {k} = links d i" using only by blast
    then show ?thesis using False by (simp add: link_count_def links_del_dirent)
  qed
  show ?thesis
    unfolding wf_off_def
  proof (intro conjI)
    show "wf_keys (del_dirent k d)"
      using wf by (simp add: wf_off_def wf_keys_def del_dirent_def distinct_delete)
    show "wf_ids (del_dirent k d)"
      using wf by (auto simp: wf_off_def wf_ids_def del_dirent_def node_def)
    show "wf_entries (del_dirent k d)"
      using wf by (auto simp: wf_off_def wf_entries_def del_dirent_def node_def split: if_splits)
    show "wf_dirs (del_dirent k d)"
      using wf by (auto simp: wf_off_def wf_dirs_def links_del_dirent)
    show "wf_roots (del_dirent k d)"
      using wf by (auto simp: wf_off_def wf_roots_def links_del_dirent)
    show "wf_links (off(d_inode e := off (d_inode e) + 1)) (del_dirent k d)"
      using wf by (auto simp: wf_off_def wf_links_def cnt)
  qed
qed

text \<open>
  A new entry settles one count of its target. A directory may be entered only when it has no entry
  yet; a root never.
\<close>

lemma wf_put_dirent:
  assumes wf: "wf_off off d" and none: "map_of (dirents d) (p, n) = None"
    and p: "node d p = Some pr" "i_kind pr = DIRECTORY" "i_sandbox pr = d_sandbox e"
    and c: "node d (d_inode e) = Some cr" "i_sandbox cr = d_sandbox e"
    and n: "valid_name n" and nr: "\<not> is_root d (d_inode e)"
    and dir: "i_kind cr = DIRECTORY \<Longrightarrow> links d (d_inode e) = {}"
  shows "wf_off (off(d_inode e := off (d_inode e) - 1)) (put_dirent (p, n) e d)"
proof -
  have notin: "(p, n) \<notin> links d i" for i using none by (simp add: mem_links_iff)
  have cnt: "link_count (put_dirent (p, n) e d) i = (if i = d_inode e then link_count d i + 1 else link_count d i)" for i
    using notin by (simp add: link_count_def links_put_dirent)
  show ?thesis
    unfolding wf_off_def
  proof (intro conjI)
    show "wf_keys (put_dirent (p, n) e d)"
      using wf by (simp add: wf_off_def wf_keys_def put_dirent_def distinct_update)
    show "wf_ids (put_dirent (p, n) e d)"
      using wf by (auto simp: wf_off_def wf_ids_def put_dirent_def node_def)
    show "wf_entries (put_dirent (p, n) e d)"
      using wf p c n by (auto simp: wf_off_def wf_entries_def put_dirent_def node_def split: if_splits)
    show "wf_dirs (put_dirent (p, n) e d)"
      using wf dir c notin by (auto simp: wf_off_def wf_dirs_def links_put_dirent split: if_splits)
    show "wf_roots (put_dirent (p, n) e d)"
      using wf nr by (auto simp: wf_off_def wf_roots_def links_put_dirent is_root_def)
    show "wf_links (off(d_inode e := off (d_inode e) - 1)) (put_dirent (p, n) e d)"
      using wf by (auto simp: wf_off_def wf_links_def cnt)
  qed
qed

text \<open>An inode without entries to it or below it may be deleted; nothing cascades.\<close>

lemma wf_del_inode:
  assumes wf: "wf_off off d" and nl: "links d i = {}" and nc: "\<And>n. child d i n = None"
    and nr: "\<not> is_root d i"
  shows "wf_off off (del_inode i d)" and "dirents (del_inode i d) = dirents d"
proof -
  have ne: "map_of (dirents d) (p, n) = Some e \<Longrightarrow> p \<noteq> i \<and> d_inode e \<noteq> i" for p n e
    using nl nc [of n] by (auto simp: mem_links_iff set_eq_iff child_def)
  have keys: "distinct (map fst (dirents d))" using wf by (simp add: wf_off_def wf_keys_def)
  show dirs: "dirents (del_inode i d) = dirents d"
  proof (rule dirents_del_inode_unlinked [OF _ keys])
    fix k e assume "map_of (dirents d) k = Some e"
    then show "fst k \<noteq> i \<and> d_inode e \<noteq> i" using ne by (cases k) auto
  qed
  then have links: "links (del_inode i d) = links d" by (intro ext) (simp add: links_def)
  show "wf_off off (del_inode i d)"
    unfolding wf_off_def
  proof (intro conjI)
    show "wf_keys (del_inode i d)"
      using wf by (simp add: wf_off_def wf_keys_def dirs) (simp add: del_inode_def distinct_delete)
    show "wf_ids (del_inode i d)"
      using wf by (auto simp: wf_off_def wf_ids_def split: if_splits) (simp_all add: del_inode_def)
    show "wf_entries (del_inode i d)"
      using wf ne by (auto simp: wf_off_def wf_entries_def dirs)
    show "wf_dirs (del_inode i d)"
      using wf by (auto simp: wf_off_def wf_dirs_def links split: if_splits)
    show "wf_roots (del_inode i d)"
      using wf nr by (auto simp: wf_off_def wf_roots_def links is_root_def)
    show "wf_links off (del_inode i d)"
      using wf by (auto simp: wf_off_def wf_links_def link_count_def links split: if_splits)
  qed
qed

lemma wf_off_cong: "(\<And>i. node d i \<noteq> None \<Longrightarrow> \<not> is_root d i \<Longrightarrow> off i = off' i) \<Longrightarrow> wf_off off d \<Longrightarrow> wf_off off' d"
  by (auto simp: wf_off_def wf_links_def)

lemma child_cong: "dirents d' = dirents d \<Longrightarrow> child d' = child d"
  by (intro ext) (simp add: child_def)

end
