(* ===== verification/Fencing.thy ===== *)
theory Fencing
  imports Tree
begin

text \<open>
  The epoch fence of \<open>sandbox.ts\<close>. \<open>ready\<close> is the state of a transaction that has set its sandbox
  context and pinned epoch \<open>e\<close>: the sandbox still has that version, or the transaction itself has
  advanced it. In a ready transaction every fence accepts; the locale \<open>fenced_write\<close> is what a
  write of the dialect promises, and its lemmas are the fencing theorems, proved once and
  interpreted for every write.
\<close>

section \<open>Ready transactions\<close>

definition bump :: "string \<Rightarrow> db \<Rightarrow> db" where
  "bump sid d =
     (case map_of (sandboxes d) sid of
        None \<Rightarrow> d
      | Some s \<Rightarrow> d\<lparr>sandboxes := AList.update sid (s\<lparr>sb_version := sb_version s + 1\<rparr>) (sandboxes d)\<rparr>)"

definition bumped :: "string \<Rightarrow> pgtx \<Rightarrow> pgtx" where
  "bumped sid tx = (on_db (bump sid) tx)\<lparr>app_sandbox_epoch := version_of (bump sid (t_db tx)) sid\<rparr>"

definition ready :: "string \<Rightarrow> int \<Rightarrow> pgtx \<Rightarrow> bool" where
  "ready sid e tx \<longleftrightarrow> app_sandbox_id tx = sid
     \<and> (\<exists>v. version_of (t_db tx) sid = Some v \<and> (v = e \<or> e < v \<and> app_sandbox_epoch tx = Some v))"

lemma node_bump [simp]: "node (bump sid d) = node d"
  by (intro ext) (simp add: bump_def node_def split: option.split)

lemma inodes_bump [simp]: "inodes (bump sid d) = inodes d" "dirents (bump sid d) = dirents d"
    "inode_seq (bump sid d) = inode_seq d" "blobs (bump sid d) = blobs d"
    "sandbox_epochs (bump sid d) = sandbox_epochs d"
  by (simp_all add: bump_def split: option.split)

lemma child_bump [simp]: "child (bump sid d) = child d"
  by (intro ext) (simp add: child_def)

lemma links_bump [simp]: "links (bump sid d) = links d"
  by (intro ext) (simp add: links_def)

lemma root_of_bump [simp]: "root_of (bump sid d) = root_of d"
  by (intro ext) (simp add: bump_def root_of_def split: option.split)

lemma is_root_bump [simp]: "is_root (bump sid d) = is_root d"
  by (intro ext) (simp add: is_root_def)

lemma version_of_bump [simp]:
  "version_of (bump sid d) sid' =
     (if sid' = sid then map_option (\<lambda>v. v + 1) (version_of d sid) else version_of d sid')"
  by (auto simp: bump_def version_of_def split: option.split)

lemma sandbox_exists_bump [simp]:
  "map_of (sandboxes (bump sid d)) sid' = None \<longleftrightarrow> map_of (sandboxes d) sid' = None"
  by (auto simp: bump_def split: option.split)

lemma wf_bump [simp]: "wf_off off (bump sid d) \<longleftrightarrow> wf_off off d"
proof -
  have "distinct (map fst (sandboxes (bump sid d))) = distinct (map fst (sandboxes d))"
    by (auto simp: bump_def update_keys split: option.split dest: map_of_Some_in_keys)
  then show ?thesis
    by (simp add: wf_off_def wf_keys_def wf_ids_def wf_entries_def wf_dirs_def wf_roots_def wf_links_def
        link_count_def)
qed

lemma bumped_simps [simp]:
  "t_db (bumped sid tx) = bump sid (t_db tx)" "app_sandbox_id (bumped sid tx) = app_sandbox_id tx"
  "t_now (bumped sid tx) = t_now tx" "t_locks (bumped sid tx) = t_locks tx"
  by (simp_all add: bumped_def on_db_def)

lemma on_db_simps [simp]:
  "t_db (on_db f tx) = f (t_db tx)" "app_sandbox_id (on_db f tx) = app_sandbox_id tx"
  "app_sandbox_epoch (on_db f tx) = app_sandbox_epoch tx" "t_now (on_db f tx) = t_now tx"
  "t_locks (on_db f tx) = t_locks tx"
  by (simp_all add: on_db_def)

lemma ready_rls [simp]: "ready sid e tx \<Longrightarrow> rls_ok tx sid"
  by (simp add: ready_def rls_ok_def)

lemma ready_sandbox: "ready sid e tx \<Longrightarrow> map_of (sandboxes (t_db tx)) sid \<noteq> None"
  by (auto simp: ready_def version_of_def)

lemma ready_on_db:
  "ready sid e tx \<Longrightarrow> version_of (f (t_db tx)) sid = version_of (t_db tx) sid \<Longrightarrow> ready sid e (on_db f tx)"
  by (simp add: ready_def)

lemma fence_ready:
  assumes "ready sid e tx"
  shows "fenceCtes ctx sid (Some e) tx = (True, bumped sid tx)" and "ready sid e (bumped sid tx)"
proof -
  obtain s where s: "map_of (sandboxes (t_db tx)) sid = Some s" "app_sandbox_id tx = sid"
      "sb_version s = e \<or> e < sb_version s \<and> app_sandbox_epoch tx = Some (sb_version s)"
    using assms by (auto simp: ready_def version_of_def)
  have "version_of (t_db tx) sid = Some (sb_version s)"
    using s by (simp add: version_of_def)
  then have v: "version_of (bump sid (t_db tx)) sid = Some (sb_version s + 1)"
    by simp
  have b: "bump sid (t_db tx) =
      (t_db tx)\<lparr>sandboxes := AList.update sid (s\<lparr>sb_version := sb_version s + 1\<rparr>) (sandboxes (t_db tx))\<rparr>"
    using s by (simp add: bump_def)
  have "bumped sid tx = (on_db (\<lambda>d. d\<lparr>sandboxes :=
      AList.update sid (s\<lparr>sb_version := sb_version s + 1\<rparr>) (sandboxes d)\<rparr>) tx)\<lparr>app_sandbox_epoch := Some (sb_version s + 1)\<rparr>"
    unfolding bumped_def v by (simp add: on_db_def b)
  then show "fenceCtes ctx sid (Some e) tx = (True, bumped sid tx)"
    using s by (auto simp: fenceCtes_def get_sandbox_def rls_ok_def fence_accepts_def Let_def on_db_def)
  show "ready sid e (bumped sid tx)"
    using s v by (auto simp: ready_def bumped_def)
qed

lemma plain_fence_ready [simp]: "ready sid e tx \<Longrightarrow> plain_fence sid (Some e) tx = (Inr (), bumped sid tx)"
  by (simp add: plain_fence_def fence_ready(1))

lemma composite_fence_ready [simp]:
  "ready sid e tx \<Longrightarrow> composite_fence sid (Some e) gone tx = (Inr (), bumped sid tx)"
  by (simp add: composite_fence_def fence_ready(1))

section \<open>Setting the context\<close>

text \<open>What \<open>setSandboxContextWithLock\<close> and the epoch comparison establish.\<close>

lemma context_ready:
  assumes "setSandboxContextWithLock sid (begin_tx d now) = (Inr u, tx)"
  shows "t_db tx = d" and "app_sandbox_id tx = sid" and "sid \<in> set (t_locks tx)"
    and "version_of d sid = Some e \<Longrightarrow> ready sid e tx"
  using assms
  by (auto simp: setSandboxContextWithLock_def and_then_Inr_iff takeWriterLock_def get_sandbox_def
      rls_ok_def begin_tx_def ready_def version_of_def split: option.splits if_splits)

lemma context_ok:
  assumes "version_of d sid = Some v"
  shows "\<exists>tx. setSandboxContextWithLock sid (begin_tx d now) = (Inr (), tx) \<and> t_db tx = d
    \<and> app_sandbox_id tx = sid \<and> app_sandbox_epoch tx = Some v \<and> t_now tx = now \<and> sid \<in> set (t_locks tx)"
  using assms
  by (auto simp: setSandboxContextWithLock_def takeWriterLock_def get_sandbox_def rls_ok_def
      begin_tx_def version_of_def and_then_def)

lemma getSandboxEpoch_Inr_iff:
  "getSandboxEpoch sid tx = (Inr v, tx') \<longleftrightarrow> tx' = tx \<and> rls_ok tx sid \<and> version_of (t_db tx) sid = Some v"
  by (auto simp: getSandboxEpoch_def get_sandbox_def version_of_def split: option.splits)

section \<open>Refusing and advancing\<close>

text \<open>The fence refuses: another writer has moved the sandbox past the pinned epoch.\<close>

definition stale_for :: "string \<Rightarrow> int \<Rightarrow> pgtx \<Rightarrow> bool" where
  "stale_for sid e tx \<longleftrightarrow> app_sandbox_id tx = sid
     \<and> (\<exists>v. version_of (t_db tx) sid = Some v \<and> v \<noteq> e \<and> \<not> (e < v \<and> app_sandbox_epoch tx = Some v))"

lemma plain_fence_stale: "stale_for sid e tx \<Longrightarrow> plain_fence sid (Some e) tx = (Inl (ESTALE sid), tx)"
  by (auto simp: stale_for_def plain_fence_def fenceCtes_def get_sandbox_def rls_ok_def version_of_def
      fence_accepts_def)

lemma composite_fence_stale:
  "stale_for sid e tx \<Longrightarrow> composite_fence sid (Some e) gone tx = (Inl (ESTALE sid), tx)"
  by (auto simp: stale_for_def composite_fence_def fenceCtes_def get_sandbox_def rls_ok_def version_of_def
      fence_accepts_def)

lemma fenceCtes_True:
  "fenceCtes ctx sid expected tx = (True, tx') \<Longrightarrow>
     \<exists>v. version_of (t_db tx) sid = Some v \<and> version_of (t_db tx') sid = Some (v + 1)"
  by (auto simp: fenceCtes_def get_sandbox_def version_of_def Let_def split: option.splits if_splits)

lemma plain_fence_advances:
  "plain_fence sid expected tx = (Inr u, tx') \<Longrightarrow> version_of (t_db tx) sid = Some v \<Longrightarrow>
     version_of (t_db tx') sid = Some (v + 1)"
  by (auto simp: plain_fence_def split: prod.splits bool.splits dest: fenceCtes_True)

lemma composite_fence_advances:
  "composite_fence sid expected gone tx = (Inr u, tx') \<Longrightarrow> version_of (t_db tx) sid = Some v \<Longrightarrow>
     version_of (t_db tx') sid = Some (v + 1)"
  by (auto simp: composite_fence_def split: prod.splits bool.splits if_splits dest: fenceCtes_True)

text \<open>Statements below a fence never touch the version; only fences do, and they only advance it.\<close>

definition version_grows :: "string \<Rightarrow> pgtx \<Rightarrow> pgtx \<Rightarrow> bool" where
  "version_grows sid tx tx' \<longleftrightarrow>
     (\<forall>v. version_of (t_db tx) sid = Some v \<longrightarrow> (\<exists>v'. version_of (t_db tx') sid = Some v' \<and> v \<le> v'))"

interpretation grow: state_preorder "version_grows sid" for sid
proof
  show "version_grows sid s t \<Longrightarrow> version_grows sid t u \<Longrightarrow> version_grows sid s u" for s t u
    unfolding version_grows_def by (meson order_trans)
qed (simp add: version_grows_def)

lemma version_of_updates [simp]:
  "version_of (put_inode i r d) = version_of d" "version_of (put_dirent k e d) = version_of d"
  "version_of (del_dirent k d) = version_of d" "version_of (del_inode i d) = version_of d"
  "version_of (d\<lparr>inode_seq := x\<rparr>) = version_of d"
  by (simp_all add: fun_eq_iff version_of_def put_inode_def put_dirent_def del_dirent_def del_inode_def)

lemma version_grows_eq: "version_of (t_db tx') sid = version_of (t_db tx) sid \<Longrightarrow> version_grows sid tx tx'"
  by (simp add: version_grows_def)

lemma version_drop_link [simp]: "version_of (t_db (drop_link i tx)) sid = version_of (t_db tx) sid"
  by (simp add: drop_link_def split: option.split)

lemma grow_statements:
  "grow.keeps sid (insert_inode r)" "grow.keeps sid (insert_dirent_row k e)"
  "grow.keeps sid (upsert_dirent_row k e)" "grow.keeps sid (takeWriterLock s)"
  "grow.keeps sid (rename_dirent old new missing)"
  by (auto intro!: grow.keepsI version_grows_eq simp: insert_inode_def insert_dirent_row_def
      upsert_dirent_row_def takeWriterLock_def rename_dirent_def Let_def
      split: if_splits option.splits)

lemma grow_insert_now: "grow.keeps sid (\<lambda>tx. insert_inode (f tx) tx)"
  by (rule grow.keeps_state) (rule grow_statements)

lemma grow_fence: "grow.keeps sid (composite_fence sid expected gone)" "grow.keeps sid (plain_fence sid expected)"
  by (auto intro!: grow.keepsI simp: composite_fence_def plain_fence_def fenceCtes_def version_grows_def
      version_of_def get_sandbox_def Let_def split: if_splits option.splits prod.splits bool.splits)

lemmas grow_intros = grow.keeps_intros grow_statements grow_insert_now grow_fence

section \<open>The contract of a fenced write\<close>

text \<open>
  \<open>op e\<close> is a write that carries the fence with expected epoch \<open>e\<close>. It promises: with the sandbox
  visible and the fence refusing, it fails with ESTALE and changes no table; when it succeeds, the
  sandbox's version has strictly grown.
\<close>

locale fenced_write =
  fixes sid :: string and op :: "int \<Rightarrow> 'a pg"
  assumes stale: "stale_for sid e tx \<Longrightarrow> \<exists>tx'. op e tx = (Inl (ESTALE sid), tx') \<and> t_db tx' = t_db tx"
    and advances: "\<lbrakk>app_sandbox_id tx = sid; op e tx = (Inr a, tx'); version_of (t_db tx) sid = Some v\<rbrakk>
      \<Longrightarrow> \<exists>v'. version_of (t_db tx') sid = Some v' \<and> v < v'"
begin

text \<open>The transaction a writer that pinned epoch \<open>e\<close> runs.\<close>

definition pinned_write :: "int \<Rightarrow> db \<Rightarrow> int \<Rightarrow> (fs_error + 'a) \<times> db" where
  "pinned_write e d now =
     run_transaction (and_then (setSandboxContextWithLock sid) (\<lambda>_.
       and_then (getSandboxEpoch sid) (\<lambda>epoch.
       and_then (throw_if (epoch \<noteq> e) (ESTALE sid)) (\<lambda>_. op e)))) d now"

lemma pinned_write_advances:
  assumes "pinned_write e d now = (Inr a, d')"
  shows "version_of d sid = Some e" and "\<exists>v'. version_of d' sid = Some v' \<and> e < v'"
proof -
  obtain tx tx1 where tx1: "setSandboxContextWithLock sid (begin_tx d now) = (Inr (), tx1)"
    and v: "version_of (t_db tx1) sid = Some e" and op: "op e tx1 = (Inr a, tx)" and d': "d' = t_db tx"
    using assms
    by (auto simp: pinned_write_def run_transaction_Inr_iff and_then_Inr_iff getSandboxEpoch_Inr_iff
        split: if_splits)
  show "version_of d sid = Some e" using context_ready(1) [OF tx1] v by simp
  have "app_sandbox_id tx1 = sid" using tx1 by (rule context_ready(2))
  then show "\<exists>v'. version_of d' sid = Some v' \<and> e < v'" using advances [OF _ op v] d' by simp
qed

text \<open>Two writers that pinned the same epoch cannot both commit.\<close>

lemma no_two_commits:
  assumes "pinned_write e d now = (Inr a, d')" and "version_of d'' sid = version_of d' sid"
  shows "pinned_write e d'' now' = (Inl (ESTALE sid), d'')"
proof -
  obtain v' where v': "version_of d'' sid = Some v'" "e < v'"
    using pinned_write_advances(2) [OF assms(1)] assms(2) by auto
  obtain tx where tx: "setSandboxContextWithLock sid (begin_tx d'' now') = (Inr (), tx)" "t_db tx = d''"
      "app_sandbox_id tx = sid"
    using context_ok [OF v'(1)] by blast
  have "getSandboxEpoch sid tx = (Inr v', tx)"
    using tx v' by (simp add: getSandboxEpoch_Inr_iff rls_ok_def)
  then show ?thesis
    using tx v' by (simp add: pinned_write_def run_transaction_def and_then_def)
qed

end

section \<open>The dialect's writes\<close>

lemma fenced_plainI:
  assumes "\<And>e tx. op e tx = and_then (plain_fence sid (Some e)) (k e) tx" and "\<And>e. grow.keeps sid (k e ())"
  shows "fenced_write sid op"
proof
  show "\<exists>tx'. op e tx = (Inl (ESTALE sid), tx') \<and> t_db tx' = t_db tx" if "stale_for sid e tx" for e tx
    using plain_fence_stale [OF that] by (simp add: assms(1) and_then_def)
  show "\<exists>v'. version_of (t_db tx') sid = Some v' \<and> v < v'"
    if op: "op e tx = (Inr a, tx')" and v: "version_of (t_db tx) sid = Some v" for tx e a tx' v
  proof -
    obtain tx1 where tx1: "plain_fence sid (Some e) tx = (Inr (), tx1)" "k e () tx1 = (Inr a, tx')"
      using op by (auto simp: assms(1) and_then_Inr_iff)
    have "version_grows sid tx1 tx'" using grow.keepsD [OF assms(2) tx1(2)] .
    then show ?thesis
      using plain_fence_advances [OF tx1(1) v] unfolding version_grows_def by force
  qed
qed

lemma fenced_compositeI:
  assumes "\<And>e tx. op e tx = and_then (takeWriterLock sid) (\<lambda>_. and_then (composite_fence sid (Some e) gone) (k e)) tx"
    and "\<And>e. grow.keeps sid (k e ())"
  shows "fenced_write sid op"
proof
  show "\<exists>tx'. op e tx = (Inl (ESTALE sid), tx') \<and> t_db tx' = t_db tx" if "stale_for sid e tx" for e tx
  proof -
    have "stale_for sid e (tx\<lparr>t_locks := List.insert sid (t_locks tx)\<rparr>)"
      using that by (simp add: stale_for_def)
    from composite_fence_stale [OF this] show ?thesis
      by (simp add: assms(1) takeWriterLock_def and_then_def)
  qed
  show "\<exists>v'. version_of (t_db tx') sid = Some v' \<and> v < v'"
    if op: "op e tx = (Inr a, tx')" and v: "version_of (t_db tx) sid = Some v" for tx e a tx' v
  proof -
    obtain tx0 tx1 where tx0: "takeWriterLock sid tx = (Inr (), tx0)"
      and tx1: "composite_fence sid (Some e) gone tx0 = (Inr (), tx1)" "k e () tx1 = (Inr a, tx')"
      using op by (auto simp: assms(1) and_then_Inr_iff)
    have v0: "version_of (t_db tx0) sid = Some v" using tx0 v by (auto simp: takeWriterLock_def)
    have "version_grows sid tx1 tx'" using grow.keepsD [OF assms(2) tx1(2)] .
    then show ?thesis
      using composite_fence_advances [OF tx1(1) v0] unfolding version_grows_def by force
  qed
qed

interpretation fw_mkdir: fenced_write sid "\<lambda>e. mkdirComposite sid parent name mode (Some e)" for sid parent name mode
  by (rule fenced_compositeI, unfold mkdirComposite_def, rule refl) (intro grow_intros)

interpretation fw_rm: fenced_write sid "\<lambda>e. rmComposite sid parent name (Some e)" for sid parent name
  by (rule fenced_compositeI, unfold rmComposite_def, rule refl)
     (auto intro!: grow.keepsI version_grows_eq split: option.splits)

lemma grow_write_body:
  "grow.keeps sid (\<lambda>tx0.
     and_then (\<lambda>tx. insert_inode (f tx) tx) (\<lambda>i.
     and_then (upsert_dirent_row k (g i)) (\<lambda>_.
     and_then (modify (case h tx0 of None \<Rightarrow> id | Some d \<Rightarrow> drop_link (d_inode d))) (\<lambda>_.
     return_ok i))) tx0)"
proof (rule grow.keeps_state [where f = "\<lambda>tx0. and_then _ (\<lambda>i. and_then (_ i) (\<lambda>_.
     and_then (modify (case h tx0 of None \<Rightarrow> id | Some d \<Rightarrow> drop_link (d_inode d))) (\<lambda>_. return_ok i)))"])
qed (intro grow_intros grow.keeps_modify version_grows_eq, simp split: option.split)

interpretation fw_write: fenced_write sid "\<lambda>e. writeFileComposite sid parent name mode sz sha (Some e)"
  for sid parent name mode sz sha
  by (rule fenced_compositeI, unfold writeFileComposite_def, rule refl)
     (unfold Let_def, rule grow_write_body)

interpretation fw_mv: fenced_write sid "\<lambda>e. mvComposite sid op' on np nn (Some e)" for sid op' on np nn
  by (rule fenced_compositeI, unfold mvComposite_def, rule refl)
     (intro grow_intros grow.keeps_modify version_grows_eq, simp split: option.split)

interpretation fw_create: fenced_write "c_sandbox opts" "\<lambda>e. createInode opts (Some e)" for opts
  by (rule fenced_plainI, unfold createInode_def, rule refl) (intro grow_intros)

interpretation fw_link: fenced_write sid "\<lambda>e. incrementNlink i sid (Some e)" for sid i
  by (rule fenced_plainI, unfold incrementNlink_def, rule refl)
     (auto intro!: grow.keepsI version_grows_eq split: option.splits)

interpretation fw_unlink: fenced_write sid "\<lambda>e. deleteDirent parent name sid (Some e)" for sid parent name
  by (rule fenced_plainI, unfold deleteDirent_def, rule refl)
     (auto intro!: grow.keepsI version_grows_eq split: option.splits)

interpretation fw_move: fenced_write sid "\<lambda>e. moveDirent op' on np nn sid (Some e)" for sid op' on np nn
  by (rule fenced_plainI, unfold moveDirent_def, rule refl)
     (intro grow_intros grow.keeps_modify version_grows_eq, simp)

text \<open>\<open>updateInode\<close> runs no statement when no column is given; otherwise it is fenced too.\<close>

lemma fenced_update:
  assumes "\<not> (u_mode u = None \<and> u_size u = None \<and> u_mtime u = None \<and> u_sha u = None)"
  shows "fenced_write sid (\<lambda>e. updateInode i u sid (Some e))"
  by (rule fenced_plainI, unfold updateInode_def if_not_P [OF assms], rule refl)
     (auto intro!: grow.keepsI version_grows_eq split: option.splits)

end
