(* ===== verification/Session.thy ===== *)
theory Session
  imports PgNamespace
begin

text \<open>
  The state of one warm session: a \<open>SqlFs\<close> object with its \<open>CoherentView\<close>, \<open>FileContents\<close> and
  \<open>ScriptPersistence\<close> (\<open>src/sql-fs/sql-fs.ts\<close>, \<open>src/sql-fs/state/\<close>), the call's exec and read-only
  contexts, and the committed database it talks to. Second half: \<open>script-persistence.ts\<close> in its
  deployed shape (\<open>SCRIPT_TX_BUFFERED\<close> on): outside a scope a mutation is one fenced transaction,
  inside a scope it is recorded in a journal that \<open>finish\<close> replays in one transaction. The other shape, a transaction
  held open for the whole script (\<open>#openScriptTx\<close>), and the race of \<open>guarded\<close> against a driver fault are not modelled.

  A recorded mutation keeps the closure the code keeps: \<open>m_run\<close> takes the replay context (the
  expected epoch and the resolution of provisional inode ids) and runs on the flush transaction.
  Code outside the repository is a field of \<open>env\<close>: \<open>e_sha256\<close> is Node's SHA-256, \<open>e_lru_set\<close> the
  insertion of the \<open>lru-cache\<close> package (which may evict), \<open>e_redis\<close> the blob cache's answer.
\<close>

section \<open>State\<close>

record replay_context =
  r_expected :: int
  r_resolve :: "int \<Rightarrow> fs_error + int"

record mutation_spec =
  o_kind :: string
  o_composite :: bool
  o_mints :: nat
  o_bytes :: "int option"
  o_supersedes :: "(int \<times> string) option"
  o_run :: "replay_context \<Rightarrow> int list pg"

record buffered_mutation =
  m_kind :: string
  m_minted :: "int list"
  m_bytes :: int
  m_supersedes :: "(int \<times> string) option"
  m_run :: "replay_context \<Rightarrow> int list pg"

datatype publication = Recorded | Committed int

datatype scope_settlement =
    Unchanged
  | ScopeCommitted int "(int, int) table option"
  | ScopeFailed fs_error bool

record scope_stamp =
  st_generation :: nat
  st_active :: bool

record exec_context =
  x_max_file :: "int option"
  x_input_limit :: "int option"
  x_input_bytes :: int
  x_exceeded :: "fs_error option"

record env =
  e_sha256 :: "bytes \<Rightarrow> bytes"
  e_lru_set :: "int \<Rightarrow> bytes \<Rightarrow> (int, bytes) table \<Rightarrow> (int, bytes) table"
  e_redis :: "bytes \<Rightarrow> bytes option"
  e_composites :: bool

record session =
  s_db :: db
  s_now :: int
  s_env :: env
  s_sandbox :: string
  v_epoch :: int
  v_cache :: path_rows
  v_dirty :: bool
  v_poisoned :: bool
  v_bytes :: int
  c_cache :: "(int, bytes) table"
  c_generation :: nat
  p_max_ops :: int
  p_max_bytes :: int
  p_scope :: bool
  p_scope_gen :: nat
  p_script_epoch :: "int option"
  p_lost :: "fs_error option"
  p_journal :: "buffered_mutation list"
  p_journal_bytes :: int
  p_remap :: "(int, int) table"
  p_next_id :: int
  f_readonly :: nat
  f_allow_symlinks :: bool
  f_guard :: "fs_error option"
  f_owner_lost :: bool
  f_exec :: "exec_context option"
  f_ro_violated :: "bool option"

type_synonym 'a fs = "(fs_error, session, 'a) comp"

section \<open>Leases and liveness\<close>

text \<open>\<open>SqlFs.#assertOwnerLease\<close>, passed to the persistence as \<open>assertLease\<close>.\<close>

definition lease_verdict :: "session \<Rightarrow> fs_error + unit" where
  "lease_verdict s =
     (case f_guard s of
        Some e \<Rightarrow> Inl e
      | None \<Rightarrow> if f_owner_lost s then Inl (ELOCKLOST ''worker owner generation'') else Inr ())"

definition alive_verdict :: "session \<Rightarrow> fs_error + unit" where
  "alive_verdict s =
     (case p_lost s of Some e \<Rightarrow> if p_scope s then Inl e else Inr () | None \<Rightarrow> Inr ())"

definition assertAlive :: "unit fs" where
  "assertAlive = (\<lambda>s. (alive_verdict s, s))"

text \<open>\<open>dialect.transaction(fn)\<close> against the session's database.\<close>

definition transaction :: "'a pg \<Rightarrow> 'a fs" where
  "transaction f = (\<lambda>s. case run_transaction f (s_db s) (s_now s) of (r, d) \<Rightarrow> (r, s\<lparr>s_db := d\<rparr>))"

section \<open>Transactions outside a scope\<close>

definition assertDurableWriteEpoch :: "session \<Rightarrow> unit pg" where
  "assertDurableWriteEpoch s =
     and_then (of_sum (lease_verdict s)) (\<lambda>_.
     and_then (of_sum (alive_verdict s)) (\<lambda>_.
     and_then (getSandboxEpoch (s_sandbox s)) (\<lambda>epoch.
     throw_if (epoch \<noteq> v_epoch s) (ESTALE (s_sandbox s)))))"

text \<open>The transaction bodies of \<open>#withBareTx\<close> and \<open>#withWriteTx\<close> when no scope is active.\<close>

definition withBareTx :: "'a pg \<Rightarrow> (publication \<times> 'a) fs" where
  "withBareTx fn = (\<lambda>s.
     transaction
       (and_then (setSandboxContextWithLock (s_sandbox s)) (\<lambda>_.
        and_then (assertDurableWriteEpoch s) (\<lambda>_.
        and_then fn (\<lambda>value.
        and_then (getSandboxEpoch (s_sandbox s)) (\<lambda>observed.
        and_then (of_sum (lease_verdict s)) (\<lambda>_.
        return_ok (Committed observed, value))))))) s)"

definition withWriteTx :: "'a pg \<Rightarrow> (publication \<times> 'a) fs" where
  "withWriteTx fn = (\<lambda>s.
     transaction
       (and_then (setSandboxContextWithLock (s_sandbox s)) (\<lambda>_.
        and_then (getSandboxEpoch (s_sandbox s)) (\<lambda>epoch.
        and_then (throw_if (epoch \<noteq> v_epoch s) (ESTALE (s_sandbox s))) (\<lambda>_.
        and_then fn (\<lambda>value.
        and_then (getSandboxEpoch (s_sandbox s)) (\<lambda>observed.
        and_then (of_sum (lease_verdict s)) (\<lambda>_.
        return_ok (Committed observed, value)))))))) s)"

definition persist_read :: "'a pg \<Rightarrow> 'a fs" where
  "persist_read fn =
     and_then assertAlive (\<lambda>_ s. transaction (and_then (setSandboxContext (s_sandbox s)) (\<lambda>_. fn)) s)"

definition readSnapshot :: "'a pg \<Rightarrow> 'a fs" where
  "readSnapshot fn = (\<lambda>s. transaction (and_then (setSandboxContext (s_sandbox s)) (\<lambda>_. fn)) s)"

section \<open>The journal\<close>

definition PER_MUTATION_BASE_BYTES :: int where "PER_MUTATION_BASE_BYTES = 200"

text \<open>\<open>#mintInodeId\<close>, \<open>n\<close> times: provisional ids count down from -1 and are never reused.\<close>

fun mint_ids :: "nat \<Rightarrow> int \<Rightarrow> int list \<times> int" where
  "mint_ids 0 next = ([], next)"
| "mint_ids (Suc n) next = (case mint_ids n (next - 1) of (ids, next') \<Rightarrow> (next # ids, next'))"

definition realId :: "(int, int) table \<Rightarrow> int \<Rightarrow> fs_error + int" where
  "realId remap i =
     (if i \<ge> 0 then Inr i else (case map_of remap i of None \<Rightarrow> Inl ECOHERENCE | Some r \<Rightarrow> Inr r))"

definition replay_of :: "int \<Rightarrow> (int, int) table \<Rightarrow> replay_context" where
  "replay_of expected remap = \<lparr>r_expected = expected, r_resolve = realId remap\<rparr>"

definition superseding :: "buffered_mutation list \<Rightarrow> buffered_mutation \<Rightarrow> bool" where
  "superseding js m \<longleftrightarrow> m_supersedes m \<noteq> None \<and> js \<noteq> [] \<and> m_supersedes (last js) = m_supersedes m"

definition recordMutation :: "buffered_mutation \<Rightarrow> unit fs" where
  "recordMutation m = (\<lambda>s.
     let js = p_journal s;
         sup = superseding js m;
         ops = int (length js) + (if sup then 0 else 1);
         bytes = p_journal_bytes s + m_bytes m - (if sup then m_bytes (last js) else 0)
     in if ops > p_max_ops s \<or> bytes > p_max_bytes s then
          let err = ESCRIPTBUFFER ops bytes (p_max_ops s) (p_max_bytes s)
          in (Inl err, s\<lparr>p_lost := (case p_lost s of None \<Rightarrow> Some err | Some e \<Rightarrow> Some e)\<rparr>)
        else (Inr (), s\<lparr>p_journal := (if sup then butlast js @ [m] else js @ [m]), p_journal_bytes := bytes\<rparr>))"

definition discardMutations :: "session \<Rightarrow> session" where
  "discardMutations s = s\<lparr>p_journal := [], p_journal_bytes := 0, p_remap := []\<rparr>"

definition scope_begin :: "unit fs" where
  "scope_begin =
     and_then assertAlive (\<lambda>_ s.
       if p_scope s then (Inl (InternalError ''beginScriptScope: a script scope is already active''), s)
       else (Inr (), (discardMutations (s\<lparr>p_lost := None\<rparr>))\<lparr>p_scope_gen := Suc (p_scope_gen s), p_scope := True\<rparr>))"

section \<open>Reservations\<close>

definition captureGeneration :: "session \<Rightarrow> nat option" where
  "captureGeneration s = (if p_scope s then Some (p_scope_gen s) else None)"

definition lost_or_stale :: "session \<Rightarrow> fs_error" where
  "lost_or_stale s = (case p_lost s of Some e \<Rightarrow> e | None \<Rightarrow> ESTALE (s_sandbox s))"

definition assertGeneration :: "nat option \<Rightarrow> unit fs" where
  "assertGeneration gen = (\<lambda>s.
     case gen of
       None \<Rightarrow> if p_scope s then (Inl (ESTALE (s_sandbox s)), s) else assertAlive s
     | Some g \<Rightarrow> if \<not> p_scope s \<or> g \<noteq> p_scope_gen s then (Inl (lost_or_stale s), s) else assertAlive s)"

definition captureReservation :: "session \<Rightarrow> scope_stamp" where
  "captureReservation s = \<lparr>st_generation = p_scope_gen s, st_active = p_scope s\<rparr>"

definition assertReservation :: "scope_stamp \<Rightarrow> unit fs" where
  "assertReservation stamp = (\<lambda>s.
     if st_active stamp \<noteq> p_scope s \<or> st_generation stamp \<noteq> p_scope_gen s
     then (Inl (lost_or_stale s), s)
     else assertGeneration (if st_active stamp then Some (st_generation stamp) else None) s)"

section \<open>Mutations\<close>

text \<open>
  \<open>mutate\<close>: recorded inside a scope, one fenced transaction outside it. The expected epoch of the
  replay context is \<open>scriptEpoch ?? authority.epoch\<close>.
\<close>

definition expectedEpoch :: "session \<Rightarrow> int" where
  "expectedEpoch s = (case p_script_epoch s of Some e \<Rightarrow> e | None \<Rightarrow> v_epoch s)"

definition mutate :: "mutation_spec \<Rightarrow> (publication \<times> int list) fs" where
  "mutate op = (\<lambda>s.
     if p_scope s then
       and_then assertAlive (\<lambda>_ s.
         let (minted, next) = mint_ids (o_mints op) (p_next_id s);
             m = \<lparr>m_kind = o_kind op, m_minted = minted,
                  m_bytes = (case o_bytes op of None \<Rightarrow> PER_MUTATION_BASE_BYTES | Some b \<Rightarrow> b),
                  m_supersedes = o_supersedes op, m_run = o_run op\<rparr>
         in and_then (modify (\<lambda>s. s\<lparr>p_next_id := next\<rparr>)) (\<lambda>_.
            and_then (recordMutation m) (\<lambda>_.
            return_ok (Recorded, minted))) s) s
     else
       let run = o_run op (replay_of (expectedEpoch s) (p_remap s))
       in (if o_composite op then withBareTx run s else withWriteTx run s))"

definition mutateOne :: "mutation_spec \<Rightarrow> (publication \<times> int) fs" where
  "mutateOne op =
     and_then (mutate (op\<lparr>o_mints := 1\<rparr>)) (\<lambda>(p, ids). return_ok (p, hd ids))"

text \<open>\<open>write\<close> when no scope is open: its one caller, bulk ingest, refuses an open scope first.\<close>

definition persist_write :: "(replay_context \<Rightarrow> 'a pg) \<Rightarrow> (publication \<times> 'a) fs" where
  "persist_write run = (\<lambda>s. withWriteTx (run (replay_of (expectedEpoch s) (p_remap s))) s)"

section \<open>Flush\<close>

text \<open>
  The loop of \<open>#flushMutations\<close>: the lease is asserted before every operation, and the ids the
  operation produced are bound to the ids it minted.
\<close>

fun replay_ops ::
  "(fs_error + unit) \<Rightarrow> int \<Rightarrow> buffered_mutation list \<Rightarrow> (int, int) table \<Rightarrow> (int, int) table pg" where
  "replay_ops lease expected [] remap = return_ok remap"
| "replay_ops lease expected (m # ms) remap =
     and_then (of_sum lease) (\<lambda>_.
     and_then (m_run m (replay_of expected remap)) (\<lambda>produced.
     replay_ops lease expected ms
       (fold (\<lambda>(minted, real). AList.update minted real) (zip (m_minted m) produced) remap)))"

definition flush_body :: "session \<Rightarrow> (int \<times> (int, int) table) pg" where
  "flush_body s =
     and_then (setSandboxContextWithLock (s_sandbox s)) (\<lambda>_.
     and_then (of_sum (alive_verdict s)) (\<lambda>_.
     and_then (getSandboxEpoch (s_sandbox s)) (\<lambda>epoch.
     and_then (throw_if (epoch \<noteq> v_epoch s) (ESTALE (s_sandbox s))) (\<lambda>_.
     and_then (replay_ops (lease_verdict s) epoch (p_journal s) (p_remap s)) (\<lambda>remap.
     and_then (getSandboxEpoch (s_sandbox s)) (\<lambda>final.
     and_then (of_sum (lease_verdict s)) (\<lambda>_.
     return_ok (final, remap))))))))"

definition flushMutations :: "int option fs" where
  "flushMutations = (\<lambda>s.
     if p_journal s = [] then (Inr None, s)
     else
       (case transaction (flush_body s) s of
          (Inl e, s') \<Rightarrow> (Inl e, s')
        | (Inr (final, remap), s') \<Rightarrow>
            (Inr (Some final), s'\<lparr>p_script_epoch := Some final, p_remap := remap\<rparr>)))"

definition clearTransaction :: "session \<Rightarrow> session" where
  "clearTransaction s = s\<lparr>p_script_epoch := None\<rparr>"

definition scope_abort :: "bool fs" where
  "scope_abort = (\<lambda>s.
     if \<not> p_scope s then (Inr False, s)
     else (Inr (p_journal s \<noteq> []), clearTransaction (discardMutations (s\<lparr>p_scope := False\<rparr>))))"

definition finish :: "scope_settlement fs" where
  "finish = (\<lambda>s.
     if \<not> p_scope s then (Inr Unchanged, s)
     else
       case p_lost s of
         Some lost \<Rightarrow> and_then scope_abort (\<lambda>reload. return_ok (ScopeFailed lost reload)) s
       | None \<Rightarrow>
           let s1 = s\<lparr>p_scope := False\<rparr>; hadTx = (p_journal s \<noteq> [])
           in (case flushMutations s1 of
                 (Inl e, s2) \<Rightarrow> (Inr (ScopeFailed e hadTx), discardMutations (clearTransaction s2))
               | (Inr flushed, s2) \<Rightarrow>
                   (Inr (case p_script_epoch s2 of
                           None \<Rightarrow> Unchanged
                         | Some e \<Rightarrow> ScopeCommitted e (if flushed = None then None else Some (p_remap s2))),
                    discardMutations (clearTransaction s2))))"

definition claimGeneration :: "sandbox_generation option fs" where
  "claimGeneration = (\<lambda>s.
     and_then (of_sum (lease_verdict s)) (\<lambda>_.
     and_then assertAlive (\<lambda>_.
     if p_scope s then throw (ESTALE (s_sandbox s))
     else
       and_then (transaction
         (and_then (retireSandboxGeneration (s_sandbox s) (lease_verdict s)) (\<lambda>g.
          and_then (of_sum (lease_verdict s)) (\<lambda>_. return_ok g)))) (\<lambda>g.
       and_then assertAlive (\<lambda>_. return_ok (Some g))))) s)"

section \<open>Exec context\<close>

definition consumeExecInput :: "int \<Rightarrow> string \<Rightarrow> unit fs" where
  "consumeExecInput bytes source = (\<lambda>s.
     case f_exec s of
       None \<Rightarrow> (Inr (), s)
     | Some c \<Rightarrow>
         (case x_input_limit c of
            None \<Rightarrow> (Inr (), s)
          | Some limit \<Rightarrow>
              (case x_exceeded c of
                 Some e \<Rightarrow> (Inl e, s)
               | None \<Rightarrow>
                   if bytes > limit - x_input_bytes c then
                     let e = EEXEC_INPUT_LIMIT source (x_input_bytes c) bytes limit
                     in (Inl e, s\<lparr>f_exec := Some (c\<lparr>x_exceeded := Some e\<rparr>)\<rparr>)
                   else (Inr (), s\<lparr>f_exec := Some (c\<lparr>x_input_bytes := x_input_bytes c + bytes\<rparr>)\<rparr>))))"

definition assertExecFileSize :: "string \<Rightarrow> int \<Rightarrow> bool \<Rightarrow> unit fs" where
  "assertExecFileSize path bytes is_read = (\<lambda>s.
     case f_exec s of
       None \<Rightarrow> (Inr (), s)
     | Some c \<Rightarrow>
         (case x_max_file c of
            None \<Rightarrow> (Inr (), s)
          | Some limit \<Rightarrow>
              if bytes \<le> limit then (Inr (), s)
              else
                let e = EFBIG path bytes limit is_read
                in (Inl e, s\<lparr>f_exec := Some (c\<lparr>x_exceeded :=
                      (case x_exceeded c of None \<Rightarrow> Some e | Some e' \<Rightarrow> Some e')\<rparr>)\<rparr>)))"

definition assertWritable :: "string \<Rightarrow> string \<Rightarrow> unit fs" where
  "assertWritable path op =
     and_then assertAlive (\<lambda>_ s.
       if f_readonly s > 0
       then (Inl (EREADONLY path op),
             s\<lparr>f_ro_violated := (case f_ro_violated s of None \<Rightarrow> None | Some _ \<Rightarrow> Some True)\<rparr>)
       else (Inr (), s))"

end
