(* ===== verification/View.thy ===== *)
theory View
  imports Session Tree
begin

text \<open>
  \<open>src/sql-fs/state/coherent-view.ts\<close> and \<open>file-contents.ts\<close>: the path cache (a JavaScript \<open>Map\<close>
  from absolute path to entry, in insertion order), its byte accounting, the content cache, symlink
  resolution on the cache, loading a committed view, and publication of mutations. Freshness requests
  are served one at a time here; the cohort queue that batches concurrent ones only decides who
  shares a load.
\<close>

section \<open>Path cache\<close>

definition view_get :: "session \<Rightarrow> string \<Rightarrow> path_entry option" where
  "view_get s p = map_of (v_cache s) p"

definition view_has :: "session \<Rightarrow> string \<Rightarrow> bool" where
  "view_has s p \<longleftrightarrow> view_get s p \<noteq> None"

definition view_paths :: "session \<Rightarrow> string list" where
  "view_paths s = map fst (v_cache s)"

definition childPaths :: "session \<Rightarrow> string \<Rightarrow> string list" where
  "childPaths s dir =
     filter (\<lambda>key. key \<noteq> dir \<and> prefix (dir_prefix dir) key
        \<and> slash \<notin> set (drop (length (dir_prefix dir)) key)) (map fst (v_cache s))"

definition pathsUnder :: "session \<Rightarrow> string \<Rightarrow> string list" where
  "pathsUnder s dir =
     dir # filter (\<lambda>key. key \<noteq> dir \<and> prefix (dir_prefix dir) key) (map fst (v_cache s))"

definition target_bytes :: "path_entry \<Rightarrow> int" where
  "target_bytes e = (case pe_target e of None \<Rightarrow> 0 | Some t \<Rightarrow> int (length t) * 2)"

definition cacheSet :: "string \<Rightarrow> path_entry \<Rightarrow> session \<Rightarrow> session" where
  "cacheSet key e s =
     s\<lparr>v_bytes := v_bytes s
         + (case map_of (v_cache s) key of None \<Rightarrow> int (length key) + 100 | Some prior \<Rightarrow> - target_bytes prior)
         + target_bytes e,
       v_cache := AList.update key e (v_cache s)\<rparr>"

definition cacheDelete :: "string \<Rightarrow> session \<Rightarrow> session" where
  "cacheDelete key s =
     (case map_of (v_cache s) key of
        None \<Rightarrow> s
      | Some prior \<Rightarrow>
          s\<lparr>v_cache := AList.delete key (v_cache s),
            v_bytes := v_bytes s - (int (length key) + 100 + target_bytes prior)\<rparr>)"

record entry_patch =
  ep_mode :: "int option"
  ep_mtime :: "int option"

definition patch_entry :: "entry_patch \<Rightarrow> path_entry \<Rightarrow> path_entry" where
  "patch_entry u e = e\<lparr>pe_mode := coalesce (ep_mode u) (pe_mode e), pe_mtime := coalesce (ep_mtime u) (pe_mtime e)\<rparr>"

text \<open>\<open>#updateCacheByInode\<close>: every path of the inode, hard links included.\<close>

definition updateCacheByInode :: "int \<Rightarrow> entry_patch \<Rightarrow> session \<Rightarrow> session" where
  "updateCacheByInode i u s =
     fold (\<lambda>(p, e) s. if pe_inode e = i then cacheSet p (patch_entry u e) s else s) (v_cache s) s"

definition requireParent :: "string \<Rightarrow> session \<Rightarrow> fs_error + (string \<times> path_entry)" where
  "requireParent path s =
     (case view_get s (parentOf path) of
        None \<Rightarrow> Inl (ENOENT (parentOf path))
      | Some e \<Rightarrow>
          if pe_kind e \<noteq> DIRECTORY then Inl (ENOTDIR (parentOf path)) else Inr (nameOf path, e))"

section \<open>Symlink resolution on the cache\<close>

text \<open>
  \<open>resolveCached\<close>: \<open>walk\<close> restarts at the root with the resolved target and the remaining suffix at
  every symlink; \<open>hops\<close> is shared by the whole resolution, so at most 40 restarts happen. The result
  is the path with its entry, or the virtual device (no entry).
\<close>

function resolve_walk ::
  "path_rows \<Rightarrow> string \<Rightarrow> nat \<Rightarrow> string \<Rightarrow> path_entry \<Rightarrow> string list \<Rightarrow> fs_error + (string \<times> path_entry option)"
  and resolve_start :: "path_rows \<Rightarrow> string \<Rightarrow> nat \<Rightarrow> string \<Rightarrow> fs_error + (string \<times> path_entry option)"
where
  "resolve_walk cache path hops current entry [] = Inr (current, Some entry)"
| "resolve_walk cache path hops current entry (part # parts) =
     (if pe_kind entry \<noteq> DIRECTORY then Inl (ENOTDIR current)
      else
        case map_of cache (child_path current part) of
          None \<Rightarrow> Inl (ENOENT path)
        | Some nxt \<Rightarrow>
            if pe_kind nxt = SYMLINK then
              if Suc hops > 40 then Inl (ELOOP path)
              else
                (case pe_target nxt of
                   None \<Rightarrow> Inl (ENOENT path)
                 | Some link \<Rightarrow>
                     let resolved = resolvePath current link;
                         suffix = join_with slash parts
                     in resolve_start cache path (Suc hops)
                          (if suffix \<noteq> [] then resolvePath resolved suffix else resolved))
            else resolve_walk cache path hops (child_path current part) nxt parts)"
| "resolve_start cache path hops target =
     (if target = DEV_NULL then Inr (target, None)
      else if prefix (DEV_NULL @ ''/'') target then Inl (ENOTDIR DEV_NULL)
      else
        case map_of cache ''/'' of
          None \<Rightarrow> Inl (ENOENT path)
        | Some root \<Rightarrow> resolve_walk cache path hops ''/'' root (path_parts target))"
  by pat_completeness auto
termination
  by (relation "measures
      [case_sum (\<lambda>(c, p, hops, _). 41 - hops) (\<lambda>(c, p, hops, _). 41 - hops),
       case_sum (\<lambda>(c, p, h, cur, e, parts). 0) (\<lambda>_. 1),
       case_sum (\<lambda>(c, p, h, cur, e, parts). length parts) (\<lambda>_. 0)]") auto

definition resolveCached :: "session \<Rightarrow> string \<Rightarrow> fs_error + (string \<times> path_entry option)" where
  "resolveCached s path = resolve_start (v_cache s) path 0 path"

section \<open>Content cache\<close>

definition contents_evict :: "int \<Rightarrow> session \<Rightarrow> session" where
  "contents_evict i s = s\<lparr>c_cache := AList.delete i (c_cache s)\<rparr>"

definition contents_put :: "int \<Rightarrow> bytes \<Rightarrow> session \<Rightarrow> session" where
  "contents_put i b s = s\<lparr>c_cache := e_lru_set (s_env s) i b (c_cache s)\<rparr>"

definition contents_remap :: "(int, int) table \<Rightarrow> session \<Rightarrow> session" where
  "contents_remap ids s =
     fold (\<lambda>(provisional, real) s.
       let cached = map_of (c_cache s) provisional; s1 = contents_evict provisional s
       in (case cached of None \<Rightarrow> s1 | Some b \<Rightarrow> contents_put real b s1)) ids s"

definition getBlob :: "env \<Rightarrow> bytes \<Rightarrow> bytes option pg" where
  "getBlob env sha = (\<lambda>tx.
     (Inr (case e_redis env sha of
             Some b \<Rightarrow> Some b
           | None \<Rightarrow> map_option b_data (map_of (blobs (t_db tx)) sha)), tx))"

text \<open>\<open>#contentEntryIsCurrent\<close> compares object identity; two entries are the same object here when equal.\<close>

definition contentEntryIsCurrent :: "session \<Rightarrow> string \<Rightarrow> path_entry \<Rightarrow> bool" where
  "contentEntryIsCurrent s path e \<longleftrightarrow>
     view_get s path = Some e
     \<or> map_option pe_kind (view_get s path) = Some SYMLINK \<and> e \<in> set (map snd (v_cache s))"

text \<open>
  \<open>read\<close> with no prewarming under way. \<open>#startPrewarm\<close>, which fills the content cache in the background with blobs
  whose hash it has checked, and the wait for it are not modelled: without them a read asks the blob store.
\<close>

definition contents_read :: "string \<Rightarrow> path_entry \<Rightarrow> bytes fs" where
  "contents_read path e = (\<lambda>s.
     case map_of (c_cache s) (pe_inode e) of
       Some b \<Rightarrow> (Inr b, s)
     | None \<Rightarrow>
         (case pe_sha e of
            None \<Rightarrow> (Inr [], s)
          | Some sha \<Rightarrow>
              and_then (transaction (getBlob (s_env s) sha)) (\<lambda>data s.
                let b = (case data of None \<Rightarrow> [] | Some x \<Rightarrow> x)
                in (Inr b, if contentEntryIsCurrent s path e \<and> b \<noteq> []
                           then contents_put (pe_inode e) b s else s)) s))"

definition readBytes :: "string \<Rightarrow> path_entry \<Rightarrow> bytes fs" where
  "readBytes path e = and_then (contents_read path e) (\<lambda>b. and_then assertAlive (\<lambda>_. return_ok b))"

section \<open>Loading a committed view\<close>

text \<open>\<open>new Map(rows.map(...))\<close>.\<close>

definition map_from_rows :: "path_rows \<Rightarrow> path_rows" where
  "map_from_rows rows = fold (\<lambda>(p, e). AList.update p e) rows []"

definition cache_bytes :: "path_rows \<Rightarrow> int" where
  "cache_bytes rows = sum_list (map (\<lambda>(p, e). int (length p) + 100 + target_bytes e) rows)"

definition load_snapshot :: "bool \<Rightarrow> session \<Rightarrow> (int \<times> path_rows) option pg" where
  "load_snapshot force s =
     and_then (getSandboxEpoch (s_sandbox s)) (\<lambda>epoch tx.
       if \<not> force \<and> \<not> v_poisoned s \<and> v_cache s \<noteq> [] \<and> epoch = v_epoch s then (Inr None, tx)
       else
         (case loadAllPaths tx of
            None \<Rightarrow> (Inl Diverges, tx)
          | Some rows \<Rightarrow>
              if rows = [] then (Inl (ESANDBOXGONE (s_sandbox s)), tx)
              else (Inr (Some (epoch, map_from_rows rows)), tx)))"

fun check_loaded_paths :: "string list \<Rightarrow> fs_error + unit" where
  "check_loaded_paths [] = Inr ()"
| "check_loaded_paths (p # ps) =
     (case validatePath p of
        Inl e \<Rightarrow> Inl e
      | Inr q \<Rightarrow>
          (case assertStoredPath q ''load reserved virtual device'' of
             Inl e \<Rightarrow> Inl e
           | Inr _ \<Rightarrow> check_loaded_paths ps))"

definition installView :: "int \<Rightarrow> path_rows \<Rightarrow> session \<Rightarrow> session" where
  "installView epoch entries s =
     s\<lparr>v_epoch := epoch, v_cache := entries, v_bytes := cache_bytes entries,
       v_dirty := False, v_poisoned := False, c_cache := [], c_generation := Suc (c_generation s)\<rparr>"

definition loadCommittedView :: "bool \<Rightarrow> bool fs" where
  "loadCommittedView force = (\<lambda>s.
     and_then (readSnapshot (load_snapshot force s)) (\<lambda>view.
     and_then assertAlive (\<lambda>_.
     (case view of
        None \<Rightarrow> return_ok False
      | Some (epoch, entries) \<Rightarrow>
          and_then (of_sum (check_loaded_paths (map fst entries))) (\<lambda>_.
          and_then (modify (installView epoch entries)) (\<lambda>_.
          return_ok True))))) s)"

definition ensureFresh :: "bool fs" where
  "ensureFresh =
     and_then assertAlive (\<lambda>_ s. if p_scope s then (Inl EBUSY, s) else loadCommittedView False s)"

definition view_ready :: "unit fs" where
  "view_ready = and_then assertAlive (\<lambda>_. and_then (loadCommittedView True) (\<lambda>_. return_ok ()))"

definition reload :: "unit fs" where
  "reload =
     and_then assertAlive (\<lambda>_ s.
       if p_scope s then (Inr (), s) else and_then (loadCommittedView True) (\<lambda>_. return_ok ()) s)"

section \<open>Publication\<close>

datatype path_change =
    SetPath string path_entry
  | DeletePath string
  | PatchInode int entry_patch

datatype content_change = Evict int | Put int bytes

fun apply_path_change :: "path_change \<Rightarrow> session \<Rightarrow> session" where
  "apply_path_change (SetPath p e) s = cacheSet p e s"
| "apply_path_change (DeletePath p) s = cacheDelete p s"
| "apply_path_change (PatchInode i u) s = updateCacheByInode i u s"

fun apply_content_change :: "content_change \<Rightarrow> session \<Rightarrow> session" where
  "apply_content_change (Evict i) s = contents_evict i s"
| "apply_content_change (Put i b) s = contents_put i b s"

definition publish_epoch :: "publication \<Rightarrow> session \<Rightarrow> session" where
  "publish_epoch pub s = (case pub of Recorded \<Rightarrow> s | Committed e \<Rightarrow> s\<lparr>v_epoch := e\<rparr>)"

definition publishMutation ::
  "publication \<Rightarrow> path_change list \<Rightarrow> content_change list \<Rightarrow> bool \<Rightarrow> session \<Rightarrow> session" where
  "publishMutation pub paths contents complete s =
     (let s1 = fold apply_path_change paths s;
          s2 = fold apply_content_change contents s1;
          s3 = publish_epoch pub s2
      in if complete then s3\<lparr>v_dirty := True\<rparr> else s3)"

definition publishGeneration :: "sandbox_generation \<Rightarrow> bool fs" where
  "publishGeneration g = (\<lambda>s.
     if \<not> v_poisoned s \<and> prior_epoch g = v_epoch s then (Inr True, s\<lparr>v_epoch := gen_epoch g\<rparr>)
     else (Inr False, s))"

definition remap_entry :: "(int, int) table \<Rightarrow> path_entry \<Rightarrow> path_entry" where
  "remap_entry ids e = (case map_of ids (pe_inode e) of None \<Rightarrow> e | Some real \<Rightarrow> e\<lparr>pe_inode := real\<rparr>)"

definition publishScope :: "int \<Rightarrow> (int, int) table option \<Rightarrow> unit fs" where
  "publishScope epoch remap = (\<lambda>s.
     case remap of
       None \<Rightarrow> (Inr (), s\<lparr>v_epoch := epoch\<rparr>)
     | Some ids \<Rightarrow>
         let s1 = fold (\<lambda>(p, e) s.
                    if map_of ids (pe_inode e) \<noteq> None then cacheSet p (remap_entry ids e) s else s) (v_cache s) s;
             s2 = contents_remap ids s1
         in if \<exists>pe \<in> set (v_cache s2). pe_inode (snd pe) < 0 then (Inl ECOHERENCE, s2)
            else (Inr (), s2\<lparr>v_epoch := epoch\<rparr>))"

end
