(* ===== verification/PgBlobs.thy ===== *)
theory PgBlobs
  imports PgState
begin

text \<open>
  \<open>src/sql-fs/dialects/postgres/blobs.ts\<close>: the content-addressed store. \<open>commitBlob\<close> is a single
  self-committing statement on its own connection, so it acts on the committed database directly.
\<close>

definition touch_blob :: "bytes \<Rightarrow> bytes \<Rightarrow> int \<Rightarrow> db \<Rightarrow> db" where
  "touch_blob sha data now d =
     d\<lparr>blobs := AList.update sha
        (case map_of (blobs d) sha of
           None \<Rightarrow> \<lparr>b_data = data, b_size = int (length data), b_referenced = Some now\<rparr>
         | Some b \<Rightarrow> b\<lparr>b_referenced := Some now\<rparr>) (blobs d)\<rparr>"

definition commitBlob :: "bytes \<Rightarrow> bytes \<Rightarrow> int \<Rightarrow> db \<Rightarrow> db" where
  "commitBlob sha data now d = touch_blob sha data now d"

definition upsertBlob :: "bytes \<Rightarrow> bytes \<Rightarrow> unit pg" where
  "upsertBlob sha data = (\<lambda>tx. (Inr (), on_db (touch_blob sha data (t_now tx)) tx))"

text \<open>
  \<open>gcOrphanBlobs\<close> deletes the blobs no linked inode references whose reference time is unknown or
  older than the grace window. It runs without a sandbox context, so it sees every inode.
\<close>

definition blob_referenced :: "pgtx \<Rightarrow> bytes \<Rightarrow> bool" where
  "blob_referenced tx sha \<longleftrightarrow>
     list_ex (\<lambda>(i, r). rls_ok tx (i_sandbox r) \<and> i_sha r = Some sha \<and> i_nlink r > 0) (inodes (t_db tx))"

definition blob_collectable :: "pgtx \<Rightarrow> int \<Rightarrow> bytes \<Rightarrow> blob_row \<Rightarrow> bool" where
  "blob_collectable tx minAge sha b \<longleftrightarrow>
     \<not> blob_referenced tx sha
     \<and> (case b_referenced b of None \<Rightarrow> True | Some t \<Rightarrow> t < t_now tx - minAge)"

definition gcOrphanBlobs :: "int \<Rightarrow> bytes list pg" where
  "gcOrphanBlobs minAge = (\<lambda>tx.
     (Inr (map fst (filter (\<lambda>(sha, b). blob_collectable tx minAge sha b) (blobs (t_db tx)))),
      on_db (\<lambda>d. d\<lparr>blobs := filter (\<lambda>(sha, b). \<not> blob_collectable tx minAge sha b) (blobs d)\<rparr>) tx))"

lemma gcOrphanBlobs_keeps:
  assumes "gcOrphanBlobs minAge tx = (Inr gone, tx')" and "distinct (map fst (blobs (t_db tx)))"
    and "map_of (blobs (t_db tx)) sha = Some b"
    and "blob_referenced tx sha \<or> (\<exists>t. b_referenced b = Some t \<and> t_now tx - minAge \<le> t)"
  shows "map_of (blobs (t_db tx')) sha = Some b"
proof -
  have tx': "tx' = on_db (\<lambda>d. d\<lparr>blobs := filter (\<lambda>(sha, b). \<not> blob_collectable tx minAge sha b) (blobs d)\<rparr>) tx"
    using assms(1) by (simp add: gcOrphanBlobs_def)
  have "\<not> blob_collectable tx minAge sha b"
    using assms(4) by (auto simp: blob_collectable_def)
  then show ?thesis
    using assms(2,3) by (simp add: tx' on_db_def map_of_filter_distinct)
qed

lemma gcOrphanBlobs_deletes:
  assumes "gcOrphanBlobs minAge tx = (Inr gone, tx')" and "distinct (map fst (blobs (t_db tx)))"
    and "map_of (blobs (t_db tx)) sha = Some b"
    and "\<not> blob_referenced tx sha" and "b_referenced b = None \<or> (\<exists>t. b_referenced b = Some t \<and> t < t_now tx - minAge)"
  shows "sha \<in> set gone" and "map_of (blobs (t_db tx')) sha = None"
proof -
  have gone: "gone = map fst (filter (\<lambda>(sha, b). blob_collectable tx minAge sha b) (blobs (t_db tx)))"
    and tx': "tx' = on_db (\<lambda>d. d\<lparr>blobs := filter (\<lambda>(sha, b). \<not> blob_collectable tx minAge sha b) (blobs d)\<rparr>) tx"
    using assms(1) by (simp_all add: gcOrphanBlobs_def)
  have c: "blob_collectable tx minAge sha b" using assms(4,5) by (auto simp: blob_collectable_def)
  then show "sha \<in> set gone" using assms(3) by (force simp: gone dest: map_of_SomeD)
  show "map_of (blobs (t_db tx')) sha = None"
    using assms(2,3) c by (simp add: tx' on_db_def map_of_filter_distinct)
qed

end
