(* ===== verification/FileWrites.thy ===== *)
theory FileWrites
  imports View PgBlobs
begin

text \<open>
  \<open>src/sql-fs/state/namespace/file-writes.ts\<close>: \<open>writeFile\<close> and \<open>appendFile\<close>. A write replaces the
  directory entry's inode by a new one carrying the content's hash; the content itself is committed
  to the blob store first, in its own transaction, unless it is empty.
\<close>

definition NEW_FILE_MODE :: int where "NEW_FILE_MODE = 420"

text \<open>\<open>if (oldInodeId !== null) { decrementNlink; if 0 deleteInode }\<close>.\<close>

definition unlink_replaced :: "int option \<Rightarrow> unit pg" where
  "unlink_replaced old =
     (case old of
        None \<Rightarrow> return_ok ()
      | Some i \<Rightarrow>
          and_then (decrementNlink i) (\<lambda>n. if n = 0 then deleteInode i else return_ok ()))"

definition putFileOp ::
  "string \<Rightarrow> bool \<Rightarrow> string \<Rightarrow> int \<Rightarrow> string \<Rightarrow> int \<Rightarrow> int \<Rightarrow> bytes \<Rightarrow> mutation_spec" where
  "putFileOp sid composites kind parent name mode sz sha =
     (if composites then
        \<lparr>o_kind = kind, o_composite = True, o_mints = 1, o_bytes = None, o_supersedes = Some (parent, name),
         o_run = (\<lambda>rp.
           and_then (of_sum (r_resolve rp parent)) (\<lambda>p.
           and_then (writeFileComposite sid p name mode sz sha (Some (r_expected rp))) (\<lambda>i.
           return_ok [i])))\<rparr>
      else
        \<lparr>o_kind = kind, o_composite = False, o_mints = 1, o_bytes = Some PER_MUTATION_BASE_BYTES,
         o_supersedes = Some (parent, name),
         o_run = (\<lambda>rp.
           and_then (createInode \<lparr>c_sandbox = sid, c_kind = FILE, c_mode = mode, c_size = sz,
                                  c_sha = Some sha, c_target = None\<rparr> (Some (r_expected rp))) (\<lambda>i.
           and_then (of_sum (r_resolve rp parent)) (\<lambda>p.
           and_then (upsertDirent p name i) (\<lambda>old.
           and_then (unlink_replaced old) (\<lambda>_.
           return_ok [i])))))\<rparr>)"

text \<open>\<open>persistence.guarded(() => dialect.commitBlob!(sha256, bytes))\<close>, skipped for empty content.\<close>

definition commit_content :: "bytes \<Rightarrow> bytes \<Rightarrow> unit fs" where
  "commit_content sha b =
     (if b = [] then return_ok () else modify (\<lambda>s. s\<lparr>s_db := commitBlob sha b (s_now s) (s_db s)\<rparr>))"

definition file_entry :: "int \<Rightarrow> int \<Rightarrow> int \<Rightarrow> int \<Rightarrow> bytes \<Rightarrow> path_entry" where
  "file_entry i mode sz mtime sha =
     \<lparr>pe_inode = i, pe_kind = FILE, pe_mode = mode, pe_size = sz, pe_mtime = mtime,
      pe_sha = Some sha, pe_target = None\<rparr>"

definition writeFile_ns :: "string \<Rightarrow> bytes \<Rightarrow> int option \<Rightarrow> unit fs" where
  "writeFile_ns path b createMode =
     and_then (gets captureReservation) (\<lambda>stamp.
     and_then (assertWritable path ''writeFile'') (\<lambda>_.
     and_then (gets (\<lambda>s. map_option pe_kind (view_get s path))) (\<lambda>kind.
     and_then (throw_if (kind = Some DIRECTORY) (EISDIR path)) (\<lambda>_.
     and_then (gets (requireParent path)) (\<lambda>par.
     and_then (of_sum par) (\<lambda>(name, parent).
     and_then (assertExecFileSize path (int (length b)) False) (\<lambda>_.
     and_then (gets (\<lambda>s. e_sha256 (s_env s) b)) (\<lambda>sha.
     and_then (gets s_now) (\<lambda>mtime.
     and_then (assertReservation stamp) (\<lambda>_.
     and_then (commit_content sha b) (\<lambda>_.
     and_then (assertReservation stamp) (\<lambda>_.
     and_then (gets (\<lambda>s. view_get s path)) (\<lambda>prior.
     and_then (gets (\<lambda>s. e_composites (s_env s))) (\<lambda>composites.
     and_then (gets s_sandbox) (\<lambda>sid.
     (let mode = (case createMode of
                    Some m \<Rightarrow> m
                  | None \<Rightarrow> (case prior of
                               None \<Rightarrow> NEW_FILE_MODE
                             | Some pr \<Rightarrow> if pe_kind pr = FILE then pe_mode pr else NEW_FILE_MODE))
      in and_then (mutateOne (putFileOp sid composites ''writeFile'' (pe_inode parent) name mode (int (length b)) sha))
         (\<lambda>(pub, i).
           and_then (gets (\<lambda>s. view_get s path)) (\<lambda>displaced.
           modify (publishMutation pub
             [SetPath path (file_entry i mode (int (length b)) mtime sha)]
             ((case displaced of
                 None \<Rightarrow> []
               | Some e \<Rightarrow> if pe_inode e \<noteq> i then [Evict (pe_inode e)] else [])
              @ (if b \<noteq> [] then [Put i b] else []))
             True)))))))))))))))))))"

definition readForAppend :: "'a pg \<Rightarrow> 'a fs" where
  "readForAppend run = (\<lambda>s.
     if p_scope s then persist_read run s
     else transaction (and_then (setSandboxContextWithLock (s_sandbox s)) (\<lambda>_. run)) s)"

definition append_base :: "string \<Rightarrow> path_entry option \<Rightarrow> bytes \<Rightarrow> bytes fs" where
  "append_base path existing b =
     (case existing of
        None \<Rightarrow> return_ok b
      | Some e \<Rightarrow>
          (case pe_sha e of
             None \<Rightarrow> return_ok b
           | Some sha \<Rightarrow>
               if pe_kind e \<noteq> FILE then return_ok b
               else
                 and_then (consumeExecInput (pe_size e) path) (\<lambda>_.
                 and_then (gets s_env) (\<lambda>env.
                 and_then (readForAppend (getBlob env sha)) (\<lambda>old.
                 return_ok ((case old of None \<Rightarrow> [] | Some x \<Rightarrow> x) @ b))))))"

definition appendFile_ns :: "string \<Rightarrow> bytes \<Rightarrow> unit fs" where
  "appendFile_ns path b =
     and_then (gets captureReservation) (\<lambda>stamp.
     and_then (assertWritable path ''appendFile'') (\<lambda>_.
     and_then (gets (\<lambda>s. view_get s path)) (\<lambda>existing.
     and_then (throw_if (map_option pe_kind existing = Some DIRECTORY) (EISDIR path)) (\<lambda>_.
     and_then (gets s_now) (\<lambda>mtime.
     if b = [] \<and> map_option pe_kind existing = Some FILE then return_ok ()
     else
       and_then (assertExecFileSize path
         ((case existing of Some e \<Rightarrow> if pe_kind e = FILE then pe_size e else 0 | None \<Rightarrow> 0) + int (length b)) False) (\<lambda>_.
       and_then (append_base path existing b) (\<lambda>full.
       and_then (gets (\<lambda>s. e_sha256 (s_env s) full)) (\<lambda>sha.
       and_then (gets (requireParent path)) (\<lambda>par.
       and_then (of_sum par) (\<lambda>(name, parent).
       and_then (assertReservation stamp) (\<lambda>_.
       and_then (commit_content sha full) (\<lambda>_.
       and_then (assertReservation stamp) (\<lambda>_.
       and_then (gets (\<lambda>s. e_composites (s_env s))) (\<lambda>composites.
       and_then (gets s_sandbox) (\<lambda>sid.
       (let mode = (case existing of Some e \<Rightarrow> if pe_kind e = FILE then pe_mode e else NEW_FILE_MODE | None \<Rightarrow> NEW_FILE_MODE)
        in and_then (mutateOne (putFileOp sid composites ''appendFile'' (pe_inode parent) name mode (int (length full)) sha))
           (\<lambda>(pub, i).
             modify (publishMutation pub
               [SetPath path (file_entry i mode (int (length full)) mtime sha)]
               ((case existing of None \<Rightarrow> [] | Some e \<Rightarrow> [Evict (pe_inode e)])
                @ (if full \<noteq> [] then [Put i full] else []))
               True))))))))))))))))))"

end
