(* ===== verification/DirectoryTree.thy ===== *)
theory DirectoryTree
  imports FileWrites
begin

text \<open>
  \<open>src/sql-fs/state/namespace/directory-tree.ts\<close>: \<open>mkdir\<close> (and \<open>mkdir -p\<close>), \<open>rm\<close> (and \<open>rm -r\<close>),
  \<open>cp\<close> (and \<open>cp -r\<close>). Plans of recursive operations are computed from the cache when the operation
  is called and only replayed later, as in the source.
\<close>

section \<open>mkdir\<close>

definition dir_entry :: "int \<Rightarrow> int \<Rightarrow> int \<Rightarrow> path_entry" where
  "dir_entry i mode mtime =
     \<lparr>pe_inode = i, pe_kind = DIRECTORY, pe_mode = mode, pe_size = 0, pe_mtime = mtime,
      pe_sha = None, pe_target = None\<rparr>"

definition create_dir_run :: "string \<Rightarrow> int \<Rightarrow> string \<Rightarrow> int \<Rightarrow> replay_context \<Rightarrow> int list pg" where
  "create_dir_run sid parent name mode rp =
     and_then (createInode \<lparr>c_sandbox = sid, c_kind = DIRECTORY, c_mode = mode, c_size = 0,
                            c_sha = None, c_target = None\<rparr> (Some (r_expected rp))) (\<lambda>i.
     and_then (of_sum (r_resolve rp parent)) (\<lambda>p.
     and_then (insertDirent p name i) (\<lambda>_.
     return_ok [i])))"

definition mkdir_p_spec :: "string \<Rightarrow> int \<Rightarrow> string \<Rightarrow> int \<Rightarrow> mutation_spec" where
  "mkdir_p_spec sid parent name mode =
     \<lparr>o_kind = ''mkdir -p'', o_composite = False, o_mints = 1, o_bytes = None, o_supersedes = None,
      o_run = create_dir_run sid parent name mode\<rparr>"

definition mkdir_spec :: "string \<Rightarrow> bool \<Rightarrow> int \<Rightarrow> string \<Rightarrow> int \<Rightarrow> mutation_spec" where
  "mkdir_spec sid composites parent name mode =
     \<lparr>o_kind = ''mkdir'', o_composite = composites, o_mints = 1, o_bytes = None, o_supersedes = None,
      o_run = (if composites then (\<lambda>rp.
                 and_then (of_sum (r_resolve rp parent)) (\<lambda>p.
                 and_then (mkdirComposite sid p name mode (Some (r_expected rp))) (\<lambda>i.
                 return_ok [i])))
               else create_dir_run sid parent name mode)\<rparr>"

text \<open>The \<open>for (const seg of segments)\<close> loop of the recursive branch; the flag is \<open>created\<close>.\<close>

fun mkdir_segments :: "int \<Rightarrow> int \<Rightarrow> string \<Rightarrow> bool \<Rightarrow> string list \<Rightarrow> bool fs" where
  "mkdir_segments mode mtime current created [] = return_ok created"
| "mkdir_segments mode mtime current created (seg # segs) = (\<lambda>s.
     let nxt = child_path current seg
     in if view_has s nxt then mkdir_segments mode mtime nxt created segs s
        else
          (case view_get s current of
             None \<Rightarrow> (Inl (ENOENT current), s)
           | Some parent \<Rightarrow>
               if pe_kind parent \<noteq> DIRECTORY then (Inl (ENOTDIR current), s)
               else
                 and_then (mutateOne (mkdir_p_spec (s_sandbox s) (pe_inode parent) seg mode)) (\<lambda>(pub, i).
                 and_then (modify (publishMutation pub [SetPath nxt (dir_entry i mode mtime)] [] False)) (\<lambda>_.
                 mkdir_segments mode mtime nxt True segs)) s))"

definition mkdir_ns :: "string \<Rightarrow> bool \<Rightarrow> int \<Rightarrow> unit fs" where
  "mkdir_ns path recursive mode =
     and_then (assertWritable path ''mkdir'') (\<lambda>_.
     and_then (gets s_now) (\<lambda>mtime.
     if recursive then
       and_then (mkdir_segments mode mtime ''/'' False (path_parts path)) (\<lambda>created.
       if created then modify (\<lambda>s. s\<lparr>v_dirty := True\<rparr>) else return_ok ())
     else
       and_then (gets (\<lambda>s. view_has s path)) (\<lambda>present.
       and_then (throw_if present (EEXIST path)) (\<lambda>_.
       and_then (gets (requireParent path)) (\<lambda>par.
       and_then (of_sum par) (\<lambda>(name, parent).
       and_then (gets (\<lambda>s. (s_sandbox s, e_composites (s_env s)))) (\<lambda>(sid, composites).
       and_then (mutateOne (mkdir_spec sid composites (pe_inode parent) name mode)) (\<lambda>(pub, i).
       modify (publishMutation pub [SetPath path (dir_entry i mode mtime)] [] True)))))))))"

section \<open>rm\<close>

definition path_depth :: "string \<Rightarrow> int" where
  "path_depth p = int (length (split_on slash p))"

record rm_step =
  rs_inode :: int
  rs_parent :: "int option"
  rs_name :: string

definition rm_plan :: "session \<Rightarrow> string \<Rightarrow> string list \<Rightarrow> rm_step list" where
  "rm_plan s path subtree =
     map (\<lambda>p. \<lparr>rs_inode = pe_inode (the (view_get s p)),
               rs_parent = (if p = path then None else map_option pe_inode (view_get s (parentOf p))),
               rs_name = nameOf p\<rparr>) subtree"

definition unlink_inode :: "int \<Rightarrow> unit pg" where
  "unlink_inode i = and_then (decrementNlink i) (\<lambda>n. if n = 0 then deleteInode i else return_ok ())"

definition rm_tree_step :: "string \<Rightarrow> replay_context \<Rightarrow> rm_step \<Rightarrow> unit pg" where
  "rm_tree_step sid rp step =
     and_then (case rs_parent step of
                 None \<Rightarrow> return_ok ()
               | Some parent \<Rightarrow>
                   and_then (of_sum (r_resolve rp parent)) (\<lambda>p.
                   and_then (deleteDirent p (rs_name step) sid (Some (r_expected rp))) (\<lambda>_.
                   return_ok ()))) (\<lambda>_.
     and_then (of_sum (r_resolve rp (rs_inode step))) unlink_inode)"

definition rm_tree_run ::
  "string \<Rightarrow> int option \<Rightarrow> string \<Rightarrow> rm_step list \<Rightarrow> replay_context \<Rightarrow> int list pg" where
  "rm_tree_run sid parent name plan rp =
     and_then (case parent of
                 None \<Rightarrow> return_ok ()
               | Some parent \<Rightarrow>
                   and_then (of_sum (r_resolve rp parent)) (\<lambda>p.
                   and_then (deleteDirent p name sid (Some (r_expected rp))) (\<lambda>_.
                   return_ok ()))) (\<lambda>_.
     and_then (for_each plan (rm_tree_step sid rp)) (\<lambda>_.
     return_ok []))"

definition rm_spec :: "string \<Rightarrow> bool \<Rightarrow> int \<Rightarrow> string \<Rightarrow> mutation_spec" where
  "rm_spec sid composites parent name =
     \<lparr>o_kind = ''rm'', o_composite = composites, o_mints = 0, o_bytes = None, o_supersedes = None,
      o_run = (if composites then (\<lambda>rp.
                 and_then (of_sum (r_resolve rp parent)) (\<lambda>p.
                 and_then (rmComposite sid p name (Some (r_expected rp))) (\<lambda>_.
                 return_ok [])))
               else (\<lambda>rp.
                 and_then (of_sum (r_resolve rp parent)) (\<lambda>p.
                 and_then (deleteDirent p name sid (Some (r_expected rp))) (\<lambda>i.
                 and_then (unlink_inode i) (\<lambda>_.
                 return_ok [])))))\<rparr>"

text \<open>\<open>parentEntry!\<close> on a missing parent is a \<open>TypeError\<close>: a bare error of the language.\<close>

definition rm_tree_ns :: "string \<Rightarrow> unit fs" where
  "rm_tree_ns path = (\<lambda>s.
     let subtree = sort_key (\<lambda>p. - path_depth p) (pathsUnder s path);
         plan = rm_plan s path subtree;
         parent = map_option pe_inode (view_get s (parentOf path))
     in and_then (mutate
          \<lparr>o_kind = ''rm -r'', o_composite = False, o_mints = 0,
           o_bytes = Some (PER_MUTATION_BASE_BYTES + int (length plan) * 80), o_supersedes = None,
           o_run = rm_tree_run (s_sandbox s) parent (nameOf path) plan\<rparr>) (\<lambda>(pub, _).
        and_then (gets (\<lambda>s. concat (map (\<lambda>p. case view_get s p of
             None \<Rightarrow> [] | Some e \<Rightarrow> [Evict (pe_inode e)]) subtree))) (\<lambda>contents.
        modify (publishMutation pub (map DeletePath subtree) contents True))) s)"

definition rm_ns :: "string \<Rightarrow> bool \<Rightarrow> bool \<Rightarrow> unit fs" where
  "rm_ns path recursive force =
     and_then (assertWritable path ''rm'') (\<lambda>_ s.
       case view_get s path of
         None \<Rightarrow> if force then (Inr (), s) else (Inl (ENOENT path), s)
       | Some e \<Rightarrow>
           if recursive \<and> pe_kind e = DIRECTORY then rm_tree_ns path s
           else if pe_kind e = DIRECTORY \<and> childPaths s path \<noteq> [] then (Inl (ENOTEMPTY path), s)
           else
             (case view_get s (parentOf path) of
                None \<Rightarrow> (Inl (InternalError ''TypeError''), s)
              | Some parent \<Rightarrow>
                  and_then (mutate (rm_spec (s_sandbox s) (e_composites (s_env s)) (pe_inode parent) (nameOf path)))
                    (\<lambda>(pub, _).
                  modify (publishMutation pub [DeletePath path] [Evict (pe_inode e)] True)) s))"

section \<open>cp\<close>

record cp_step =
  cs_dest :: string
  cs_name :: string
  cs_parent_path :: string
  cs_existing_parent :: "int option"
  cs_entry :: path_entry

fun cp_plan :: "session \<Rightarrow> string \<Rightarrow> string \<Rightarrow> string list \<Rightarrow> fs_error + cp_step list" where
  "cp_plan s src dest [] = Inr []"
| "cp_plan s src dest (p # ps) =
     (let destPath = dest @ drop (length src) p
      in case validatePath destPath of
           Inl e \<Rightarrow> Inl e
         | Inr _ \<Rightarrow>
             (case assertStoredPath destPath ''cp'' of
                Inl e \<Rightarrow> Inl e
              | Inr _ \<Rightarrow>
                  (case cp_plan s src dest ps of
                     Inl e \<Rightarrow> Inl e
                   | Inr steps \<Rightarrow>
                       Inr (\<lparr>cs_dest = destPath, cs_name = nameOf destPath, cs_parent_path = parentOf destPath,
                             cs_existing_parent = map_option pe_inode (view_get s (parentOf destPath)),
                             cs_entry = the (view_get s p)\<rparr> # steps))))"

definition create_opts_of :: "string \<Rightarrow> path_entry \<Rightarrow> create_inode_opts" where
  "create_opts_of sid e =
     \<lparr>c_sandbox = sid, c_kind = pe_kind e, c_mode = pe_mode e, c_size = pe_size e,
      c_sha = pe_sha e, c_target = pe_target e\<rparr>"

fun cp_tree_loop ::
  "string \<Rightarrow> replay_context \<Rightarrow> (string, int) table \<Rightarrow> int list \<Rightarrow> cp_step list \<Rightarrow> int list pg" where
  "cp_tree_loop sid rp created ids [] = return_ok ids"
| "cp_tree_loop sid rp created ids (step # steps) =
     and_then (case map_of created (cs_parent_path step) of
                 Some p \<Rightarrow> return_ok p
               | None \<Rightarrow>
                   (case cs_existing_parent step of
                      Some parent \<Rightarrow> of_sum (r_resolve rp parent)
                    | None \<Rightarrow> throw (ENOENT (cs_parent_path step)))) (\<lambda>p.
     and_then (createInode (create_opts_of sid (cs_entry step)) (Some (r_expected rp))) (\<lambda>i.
     and_then (insertDirent p (cs_name step) i) (\<lambda>_.
     cp_tree_loop sid rp (AList.update (cs_dest step) i created) (ids @ [i]) steps)))"

definition cp_tree_bytes :: "cp_step list \<Rightarrow> int" where
  "cp_tree_bytes plan =
     PER_MUTATION_BASE_BYTES + sum_list (map (\<lambda>st. int (length (cs_dest st)) * 2 + 120) plan)"

definition cp_tree_ns :: "string \<Rightarrow> string \<Rightarrow> unit fs" where
  "cp_tree_ns src dest = (\<lambda>s.
     let srcPaths = sort_key path_depth (pathsUnder s src)
     in and_then (of_sum (requireParent dest s)) (\<lambda>_.
        and_then (gets s_now) (\<lambda>mtime.
        and_then (of_sum (cp_plan s src dest srcPaths)) (\<lambda>plan.
        and_then (mutate
          \<lparr>o_kind = ''cp -r'', o_composite = False, o_mints = length plan,
           o_bytes = Some (cp_tree_bytes plan), o_supersedes = None,
           o_run = (\<lambda>rp. cp_tree_loop (s_sandbox s) rp [] [] plan)\<rparr>) (\<lambda>(pub, ids).
        and_then (gets (\<lambda>s. map (\<lambda>(destPath, i).
            SetPath destPath ((the (view_get s (src @ drop (length dest) destPath)))\<lparr>pe_inode := i, pe_mtime := mtime\<rparr>))
            (fold (\<lambda>(st, i). AList.update (cs_dest st) i) (zip plan ids) []))) (\<lambda>paths.
        modify (publishMutation pub paths [] True)))))) s)"

definition cp_file_spec :: "string \<Rightarrow> path_entry \<Rightarrow> int \<Rightarrow> string \<Rightarrow> mutation_spec" where
  "cp_file_spec sid e parent name =
     \<lparr>o_kind = ''cp'', o_composite = False, o_mints = 1, o_bytes = None, o_supersedes = None,
      o_run = (\<lambda>rp.
        and_then (createInode (create_opts_of sid e) (Some (r_expected rp))) (\<lambda>i.
        and_then (of_sum (r_resolve rp parent)) (\<lambda>p.
        and_then (upsertDirent p name i) (\<lambda>old.
        and_then (unlink_replaced old) (\<lambda>_.
        return_ok [i])))))\<rparr>"

definition cp_ns :: "string \<Rightarrow> string \<Rightarrow> bool \<Rightarrow> (string \<Rightarrow> int \<Rightarrow> unit fs) \<Rightarrow> unit fs" where
  "cp_ns src dest recursive writeEmpty =
     (if src = DEV_NULL then (if dest \<noteq> DEV_NULL then writeEmpty dest 438 else return_ok ())
      else
        and_then (gets (\<lambda>s. view_get s src)) (\<lambda>srcEntry.
        if dest = DEV_NULL then
          (case srcEntry of
             None \<Rightarrow> throw (ENOENT src)
           | Some e \<Rightarrow> if pe_kind e = DIRECTORY then throw (ENOTDIR dest) else return_ok ())
        else
          and_then (assertWritable dest ''cp'') (\<lambda>_.
          and_then (throw_if (nameOf dest = []) (EISDIR dest)) (\<lambda>_.
          (case srcEntry of
             None \<Rightarrow> throw (ENOENT src)
           | Some e \<Rightarrow>
               if pe_kind e = DIRECTORY then
                 (if \<not> recursive then throw (EISDIR src) else cp_tree_ns src dest)
               else
                 and_then (gets (\<lambda>s. map_option pe_kind (view_get s dest))) (\<lambda>kind.
                 and_then (throw_if (kind = Some DIRECTORY) (EISDIR dest)) (\<lambda>_.
                 and_then (gets (requireParent dest)) (\<lambda>par.
                 and_then (of_sum par) (\<lambda>(name, parent).
                 and_then (gets s_now) (\<lambda>mtime.
                 and_then (gets s_sandbox) (\<lambda>sid.
                 and_then (mutateOne (cp_file_spec sid e (pe_inode parent) name)) (\<lambda>(pub, i).
                 modify (publishMutation pub [SetPath dest (e\<lparr>pe_inode := i, pe_mtime := mtime\<rparr>)] [] True)))))))))))))"

end
