(* ===== verification/LinksMoves.thy ===== *)
theory LinksMoves
  imports FileWrites
begin

text \<open>\<open>src/sql-fs/state/namespace/links-moves.ts\<close>: \<open>chmod\<close>, \<open>utimes\<close>, \<open>mv\<close>, \<open>symlink\<close>, \<open>link\<close>.\<close>

section \<open>chmod and utimes\<close>

definition no_update :: update_inode_opts where
  "no_update = \<lparr>u_mode = None, u_size = None, u_mtime = None, u_sha = None\<rparr>"

definition update_spec :: "string \<Rightarrow> string \<Rightarrow> int \<Rightarrow> update_inode_opts \<Rightarrow> mutation_spec" where
  "update_spec kind sid i u =
     \<lparr>o_kind = kind, o_composite = False, o_mints = 0, o_bytes = None, o_supersedes = None,
      o_run = (\<lambda>rp.
        and_then (of_sum (r_resolve rp i)) (\<lambda>i'.
        and_then (updateInode i' u sid (Some (r_expected rp))) (\<lambda>_.
        return_ok [])))\<rparr>"

definition chmod_ns :: "string \<Rightarrow> int \<Rightarrow> unit fs" where
  "chmod_ns path mode =
     and_then (assertWritable path ''chmod'') (\<lambda>_ s.
       case view_get s path of
         None \<Rightarrow> (Inl (ENOENT path), s)
       | Some e \<Rightarrow>
           and_then (mutate (update_spec ''chmod'' (s_sandbox s) (pe_inode e) (no_update\<lparr>u_mode := Some mode\<rparr>)))
             (\<lambda>(pub, _).
           modify (publishMutation pub [PatchInode (pe_inode e) \<lparr>ep_mode = Some mode, ep_mtime = None\<rparr>] [] True)) s)"

definition utimes_ns :: "string \<Rightarrow> int \<Rightarrow> unit fs" where
  "utimes_ns path mtime =
     and_then (assertWritable path ''utimes'') (\<lambda>_ s.
       case view_get s path of
         None \<Rightarrow> (Inl (ENOENT path), s)
       | Some e \<Rightarrow>
           and_then (mutate (update_spec ''utimes'' (s_sandbox s) (pe_inode e) (no_update\<lparr>u_mtime := Some mtime\<rparr>)))
             (\<lambda>(pub, _).
           modify (publishMutation pub [PatchInode (pe_inode e) \<lparr>ep_mode = None, ep_mtime = Some mtime\<rparr>] [] True)) s)"

section \<open>mv\<close>

fun mv_check_targets :: "string \<Rightarrow> string \<Rightarrow> string list \<Rightarrow> fs_error + unit" where
  "mv_check_targets src dest [] = Inr ()"
| "mv_check_targets src dest (p # ps) =
     (case validatePath (dest @ drop (length src) p) of
        Inl e \<Rightarrow> Inl e
      | Inr q \<Rightarrow>
          (case assertStoredPath q ''mv'' of Inl e \<Rightarrow> Inl e | Inr _ \<Rightarrow> mv_check_targets src dest ps))"

definition mv_spec :: "string \<Rightarrow> bool \<Rightarrow> int \<Rightarrow> string \<Rightarrow> int \<Rightarrow> string \<Rightarrow> int option \<Rightarrow> mutation_spec" where
  "mv_spec sid composites srcParent srcName destParent destName destInode =
     \<lparr>o_kind = ''mv'', o_composite = composites, o_mints = 0, o_bytes = None, o_supersedes = None,
      o_run = (if composites then (\<lambda>rp.
                 and_then (of_sum (r_resolve rp srcParent)) (\<lambda>sp.
                 and_then (of_sum (r_resolve rp destParent)) (\<lambda>dp.
                 and_then (mvComposite sid sp srcName dp destName (Some (r_expected rp))) (\<lambda>_.
                 return_ok []))))
               else (\<lambda>rp.
                 and_then (of_sum (r_resolve rp srcParent)) (\<lambda>sp.
                 and_then (of_sum (r_resolve rp destParent)) (\<lambda>dp.
                 and_then (moveDirent sp srcName dp destName sid (Some (r_expected rp))) (\<lambda>_.
                 and_then (case destInode of
                             None \<Rightarrow> return_ok ()
                           | Some i \<Rightarrow>
                               and_then (of_sum (r_resolve rp i)) (\<lambda>i'.
                               and_then (decrementNlink i') (\<lambda>n.
                               if n = 0 then deleteInode i' else return_ok ()))) (\<lambda>_.
                 return_ok []))))))\<rparr>"

text \<open>The cache changes: the source subtree and whatever is at or below the destination go, then the
  snapshot of the source subtree is set under the destination.\<close>

definition mv_changes :: "session \<Rightarrow> string \<Rightarrow> string \<Rightarrow> path_change list" where
  "mv_changes s src dest =
     map DeletePath (pathsUnder s src)
     @ map DeletePath (filter (\<lambda>key. key = dest \<or> prefix (dir_prefix dest) key) (view_paths s))
     @ concat (map (\<lambda>p. case view_get s p of
          None \<Rightarrow> [] | Some e \<Rightarrow> [SetPath (dest @ drop (length src) p) e]) (pathsUnder s src))"

definition mv_ns :: "string \<Rightarrow> string \<Rightarrow> unit fs" where
  "mv_ns src dest =
     and_then (assertWritable dest ''mv'') (\<lambda>_ s.
       case view_get s src of
         None \<Rightarrow> (Inl (ENOENT src), s)
       | Some srcEntry \<Rightarrow>
           and_then (of_sum (mv_check_targets src dest (pathsUnder s src))) (\<lambda>_ s.
           case view_get s (parentOf src) of
             None \<Rightarrow> (Inl (ENOENT (parentOf src)), s)
           | Some srcParent \<Rightarrow>
               (case view_get s (parentOf dest) of
                  None \<Rightarrow> (Inl (ENOENT (parentOf dest)), s)
                | Some destParent \<Rightarrow>
                    let destEntry = view_get s dest
                    in if pe_kind destParent \<noteq> DIRECTORY then (Inl (ENOTDIR (parentOf dest)), s)
                       else if pe_kind srcEntry = DIRECTORY \<and> (prefix (dir_prefix src) dest \<or> dest = src)
                       then (Inl (EINVAL src), s)
                       else if nameOf dest = [] then (Inl (EISDIR dest), s)
                       else if map_option pe_inode destEntry = Some (pe_inode srcEntry) then (Inr (), s)
                       else if map_option pe_kind destEntry = Some DIRECTORY \<and> childPaths s dest \<noteq> []
                       then (Inl (ENOTEMPTY dest), s)
                       else if map_option pe_kind destEntry = Some DIRECTORY \<and> pe_kind srcEntry \<noteq> DIRECTORY
                       then (Inl (EISDIR dest), s)
                       else if destEntry \<noteq> None \<and> map_option pe_kind destEntry \<noteq> Some DIRECTORY \<and> pe_kind srcEntry = DIRECTORY
                       then (Inl (ENOTDIR dest), s)
                       else
                         and_then (mutate (mv_spec (s_sandbox s) (e_composites (s_env s))
                             (pe_inode srcParent) (nameOf src) (pe_inode destParent) (nameOf dest)
                             (map_option pe_inode destEntry))) (\<lambda>(pub, _) s.
                           modify (publishMutation pub (mv_changes s src dest) [] True) s) s)) s)"

section \<open>symlink and link\<close>

definition symlink_entry :: "int \<Rightarrow> string \<Rightarrow> int \<Rightarrow> path_entry" where
  "symlink_entry i target mtime =
     \<lparr>pe_inode = i, pe_kind = SYMLINK, pe_mode = 511, pe_size = int (length target), pe_mtime = mtime,
      pe_sha = None, pe_target = Some target\<rparr>"

definition symlink_spec :: "string \<Rightarrow> int \<Rightarrow> string \<Rightarrow> string \<Rightarrow> mutation_spec" where
  "symlink_spec sid parent name target =
     \<lparr>o_kind = ''symlink'', o_composite = False, o_mints = 1,
      o_bytes = Some (PER_MUTATION_BASE_BYTES + int (length target)), o_supersedes = None,
      o_run = (\<lambda>rp.
        and_then (createInode \<lparr>c_sandbox = sid, c_kind = SYMLINK, c_mode = 511,
                               c_size = int (length target), c_sha = None, c_target = Some target\<rparr>
                    (Some (r_expected rp))) (\<lambda>i.
        and_then (of_sum (r_resolve rp parent)) (\<lambda>p.
        and_then (insertDirent p name i) (\<lambda>_.
        return_ok [i]))))\<rparr>"

definition assertSymlink :: "string \<Rightarrow> string \<Rightarrow> unit fs" where
  "assertSymlink target path = (\<lambda>s.
     if nul \<in> set target then (Inl (EINVAL target), s)
     else if \<not> f_allow_symlinks s then (Inl (EPERM path ''symlink''), s)
     else (Inr (), s))"

definition symlink_ns :: "string \<Rightarrow> string \<Rightarrow> unit fs" where
  "symlink_ns target linkPath =
     and_then (assertWritable linkPath ''symlink'') (\<lambda>_.
     and_then (assertSymlink target linkPath) (\<lambda>_.
     and_then (gets (requireParent linkPath)) (\<lambda>par.
     and_then (of_sum par) (\<lambda>(name, parent).
     and_then (gets s_now) (\<lambda>mtime.
     and_then (gets s_sandbox) (\<lambda>sid.
     and_then (mutateOne (symlink_spec sid (pe_inode parent) name target)) (\<lambda>(pub, i).
     modify (publishMutation pub [SetPath linkPath (symlink_entry i target mtime)] [] True))))))))"

definition link_spec :: "string \<Rightarrow> int \<Rightarrow> int \<Rightarrow> string \<Rightarrow> mutation_spec" where
  "link_spec sid target parent name =
     \<lparr>o_kind = ''link'', o_composite = False, o_mints = 0, o_bytes = None, o_supersedes = None,
      o_run = (\<lambda>rp.
        and_then (of_sum (r_resolve rp target)) (\<lambda>t.
        and_then (incrementNlink t sid (Some (r_expected rp))) (\<lambda>_.
        and_then (of_sum (r_resolve rp parent)) (\<lambda>p.
        and_then (insertDirent p name t) (\<lambda>_.
        return_ok [])))))\<rparr>"

definition link_ns :: "string \<Rightarrow> string \<Rightarrow> unit fs" where
  "link_ns existingPath newPath =
     and_then (assertWritable newPath ''link'') (\<lambda>_ s.
       case view_get s existingPath of
         None \<Rightarrow> (Inl (ENOENT existingPath), s)
       | Some srcEntry \<Rightarrow>
           if pe_kind srcEntry = DIRECTORY then (Inl (EPERM existingPath ''link''), s)
           else if view_has s newPath then (Inl (EEXIST newPath), s)
           else
             and_then (of_sum (requireParent newPath s)) (\<lambda>(name, parent).
             and_then (mutate (link_spec (s_sandbox s) (pe_inode srcEntry) (pe_inode parent) name)) (\<lambda>(pub, _).
             modify (publishMutation pub [SetPath newPath srcEntry] [] True))) s)"

end
