(* ===== verification/Effects.thy ===== *)
theory Effects
  imports Fencing DirectoryTree LinksMoves
begin

text \<open>
  What the statement sequences of the file system do to a well-formed database in a ready
  transaction: each composite and each sequence of single statements is one of six database updates
  (\<open>add_node\<close>, \<open>replace_node\<close>, \<open>remove_entry\<close>, \<open>put_inode\<close> with a patched row, \<open>add_link\<close>,
  \<open>move_entry\<close>) on top of one or more version bumps. A composite and the sequence it replaces give the same tables.
\<close>

section \<open>The database updates\<close>

definition add_node :: "string \<Rightarrow> int \<Rightarrow> string \<Rightarrow> inode_row \<Rightarrow> db \<Rightarrow> db" where
  "add_node sid p n r d =
     put_dirent (p, n) \<lparr>d_inode = inode_seq d, d_sandbox = sid\<rparr>
       ((put_inode (inode_seq d) r d)\<lparr>inode_seq := inode_seq d + 1\<rparr>)"

definition unlink_db :: "int \<Rightarrow> db \<Rightarrow> db" where
  "unlink_db i d =
     (case node d i of
        None \<Rightarrow> d
      | Some r \<Rightarrow> if i_nlink r \<le> 1 then del_inode i d else put_inode i (r\<lparr>i_nlink := i_nlink r - 1\<rparr>) d)"

definition replace_node :: "string \<Rightarrow> int \<Rightarrow> string \<Rightarrow> inode_row \<Rightarrow> db \<Rightarrow> db" where
  "replace_node sid p n r d =
     (case child d p n of None \<Rightarrow> add_node sid p n r d | Some old \<Rightarrow> unlink_db old (add_node sid p n r d))"

definition remove_entry :: "int \<Rightarrow> string \<Rightarrow> db \<Rightarrow> db" where
  "remove_entry p n d =
     (case child d p n of None \<Rightarrow> d | Some i \<Rightarrow> unlink_db i (del_dirent (p, n) d))"

definition add_link :: "string \<Rightarrow> int \<Rightarrow> string \<Rightarrow> int \<Rightarrow> inode_row \<Rightarrow> db \<Rightarrow> db" where
  "add_link sid p n i r d =
     put_dirent (p, n) \<lparr>d_inode = i, d_sandbox = sid\<rparr> (put_inode i (r\<lparr>i_nlink := i_nlink r + 1\<rparr>) d)"

definition move_entry :: "int \<times> string \<Rightarrow> int \<times> string \<Rightarrow> dirent_row \<Rightarrow> db \<Rightarrow> db" where
  "move_entry old new e d = put_dirent new e (del_dirent old d)"

definition lockd :: "string \<Rightarrow> pgtx \<Rightarrow> pgtx" where
  "lockd sid tx = tx\<lparr>t_locks := List.insert sid (t_locks tx)\<rparr>"

section \<open>Visibility in a ready transaction\<close>

lemma lockd_simps [simp]:
  "t_db (lockd sid tx) = t_db tx" "app_sandbox_id (lockd sid tx) = app_sandbox_id tx" "t_now (lockd sid tx) = t_now tx"
  "app_sandbox_epoch (lockd sid tx) = app_sandbox_epoch tx" "ready s e (lockd sid tx) = ready s e tx"
  by (simp_all add: lockd_def ready_def)

lemma takeWriterLock_app [simp]: "takeWriterLock sid tx = (Inr (), lockd sid tx)"
  by (simp add: takeWriterLock_def lockd_def)

lemma ready_bumped [simp]: "ready sid e tx \<Longrightarrow> ready sid e (bumped sid tx)"
  by (rule fence_ready(2))

definition dir_of :: "string \<Rightarrow> int \<Rightarrow> db \<Rightarrow> bool" where
  "dir_of sid p d \<longleftrightarrow> (\<exists>r. node d p = Some r \<and> i_kind r = DIRECTORY \<and> i_sandbox r = sid)"

definition in_sandbox :: "string \<Rightarrow> int \<Rightarrow> db \<Rightarrow> bool" where
  "in_sandbox sid i d \<longleftrightarrow> (\<exists>r. node d i = Some r \<and> i_sandbox r = sid)"

lemma dir_of_in_sandbox: "dir_of sid p d \<Longrightarrow> in_sandbox sid p d"
  by (auto simp: dir_of_def in_sandbox_def)

lemma get_inode_ready:
  "ready sid e tx \<Longrightarrow> in_sandbox sid i (t_db tx) \<Longrightarrow> get_inode tx i = node (t_db tx) i"
  by (auto simp: get_inode_def node_def in_sandbox_def ready_def rls_ok_def)

lemma rls_bumped [simp]: "rls_ok (bumped sid tx) s = rls_ok tx s"
  by (simp add: rls_ok_def)

lemma rls_on_db [simp]: "rls_ok (on_db f tx) s = rls_ok tx s"
  by (simp add: rls_ok_def)

lemma rls_lockd [simp]: "rls_ok (lockd s' tx) s = rls_ok tx s"
  by (simp add: rls_ok_def)

lemma on_db_on_db [simp]: "on_db f (on_db g tx) = on_db (\<lambda>d. f (g d)) tx"
  by (simp add: on_db_def)

lemma on_db_cong: "f (t_db tx) = g (t_db tx) \<Longrightarrow> on_db f tx = on_db g tx"
  by (simp add: on_db_def)

lemma get_inode_bumped [simp]: "get_inode (bumped sid tx) = get_inode tx" "get_inode (lockd sid tx) = get_inode tx"
  by (simp_all add: fun_eq_iff get_inode_def split: option.split)

lemma get_dirent_bumped [simp]: "get_dirent (bumped sid tx) = get_dirent tx" "get_dirent (lockd sid tx) = get_dirent tx"
  by (simp_all add: fun_eq_iff get_dirent_def split: option.split)

text \<open>In a well-formed database every entry of an own directory is visible.\<close>

lemma get_dirent_ready:
  assumes "ready sid e tx" and "wf_off off (t_db tx)" and "in_sandbox sid p (t_db tx)"
  shows "get_dirent tx (p, n) = map_of (dirents (t_db tx)) (p, n)"
proof (cases "map_of (dirents (t_db tx)) (p, n)")
  case (Some x)
  then have "child (t_db tx) p n = Some (d_inode x)" by (simp add: child_def)
  then have "d_sandbox x = sid"
    using wf_child_entry [OF assms(2)] assms(3) Some unfolding in_sandbox_def by (metis option.inject)
  then show ?thesis using Some assms(1) by (simp add: get_dirent_def)
qed (simp add: get_dirent_def)

lemma wf_fresh: "wf_off off d \<Longrightarrow> node d (inode_seq d) = None"
  unfolding wf_off_def wf_ids_def by (metis not_None_eq order_less_irrefl)

lemma insert_inode_ready:
  assumes "ready sid e tx" and "i_sandbox r = sid"
  shows "insert_inode r tx =
    (Inr (inode_seq (t_db tx)), on_db (\<lambda>d. (put_inode (inode_seq d) r d)\<lparr>inode_seq := inode_seq d + 1\<rparr>) tx)"
  using assms ready_sandbox [OF assms(1)] by (simp add: insert_inode_def Let_def on_db_def)

lemma node_on_seq: "map_of (inodes d) i = node d i" by (simp add: node_def)

section \<open>Creating an entry\<close>

lemma insert_entry_ready:
  assumes rd: "ready sid e tx" and wf: "wf_off off (t_db tx)" and p: "dir_of sid p (t_db tx)"
    and free: "child (t_db tx) p n = None" and r: "i_sandbox r = sid"
  shows "and_then (insert_inode r) (\<lambda>i. and_then (insert_dirent_row (p, n) \<lparr>d_inode = i, d_sandbox = sid\<rparr>) (\<lambda>_. return_ok i)) tx
    = (Inr (inode_seq (t_db tx)), on_db (add_node sid p n r) tx)"
proof -
  have "map_of (dirents (t_db tx)) (p, n) = None" using free by (simp add: child_def)
  moreover have "map_of (inodes (t_db tx)) p \<noteq> None" using p by (auto simp: dir_of_def node_def)
  ultimately show ?thesis
    using ready_sandbox [OF rd] rd
    by (simp add: and_then_def insert_inode_ready [OF rd r] insert_dirent_row_def put_inode_def)
       (auto intro!: on_db_cong simp: add_node_def put_inode_def)
qed

lemma mkdirComposite_ready:
  assumes "ready sid e tx" and "wf_off off (t_db tx)" and "dir_of sid p (t_db tx)" and "child (t_db tx) p n = None"
  shows "mkdirComposite sid p n mode (Some e) tx =
    (Inr (inode_seq (t_db tx)),
     on_db (add_node sid p n (new_inode_row sid DIRECTORY mode 0 None None (t_now tx))) (bumped sid (lockd sid tx)))"
  using assms insert_entry_ready [of sid e "bumped sid (lockd sid tx)" off p n "new_inode_row sid DIRECTORY mode 0 None None (t_now tx)"]
  by (simp add: mkdirComposite_def and_then_def dir_of_def new_inode_row_def)

definition row_of_opts :: "create_inode_opts \<Rightarrow> int \<Rightarrow> inode_row" where
  "row_of_opts opts now =
     new_inode_row (c_sandbox opts) (c_kind opts) (c_mode opts) (c_size opts) (c_sha opts) (c_target opts) now"

lemma row_of_opts_simps [simp]:
  "i_sandbox (row_of_opts opts now) = c_sandbox opts" "i_nlink (row_of_opts opts now) = 1"
  "i_kind (row_of_opts opts now) = c_kind opts"
  by (simp_all add: row_of_opts_def new_inode_row_def)

lemma createInode_ready:
  assumes "ready (c_sandbox opts) e tx"
  shows "createInode opts (Some e) tx =
    (Inr (inode_seq (t_db tx)),
     on_db (\<lambda>d. (put_inode (inode_seq d) (row_of_opts opts (t_now tx)) d)\<lparr>inode_seq := inode_seq d + 1\<rparr>)
       (bumped (c_sandbox opts) tx))"
  using assms insert_inode_ready [OF ready_bumped [OF assms], of "row_of_opts opts (t_now tx)"]
  by (simp add: createInode_def and_then_def) (simp add: row_of_opts_def)

lemma insertDirent_fresh:
  assumes rd: "ready sid e tx" and p: "dir_of sid p (t_db tx)" and free: "child (t_db tx) p n = None"
    and r: "i_sandbox r = sid"
  shows "insertDirent p n (inode_seq (t_db tx))
      (on_db (\<lambda>d. (put_inode (inode_seq d) r d)\<lparr>inode_seq := inode_seq d + 1\<rparr>) tx) =
    (Inr (), on_db (add_node sid p n r) tx)"
proof -
  let ?tx = "on_db (\<lambda>d. (put_inode (inode_seq d) r d)\<lparr>inode_seq := inode_seq d + 1\<rparr>) tx"
  obtain pr where pr: "get_inode ?tx p = Some pr" "i_sandbox pr = sid"
    using p rd r
    by (cases "p = inode_seq (t_db tx)") (auto simp: get_inode_def dir_of_def node_def put_inode_def)
  have "map_of (dirents (t_db tx)) (p, n) = None" using free by (simp add: child_def)
  moreover have "map_of (inodes (t_db tx)) p \<noteq> None" using p by (auto simp: dir_of_def node_def)
  ultimately show ?thesis
    using ready_sandbox [OF rd] rd pr
    by (simp add: insertDirent_def insert_dirent_row_def put_inode_def)
       (auto intro!: on_db_cong simp: add_node_def put_inode_def)
qed

lemma create_entry_ready:
  assumes rd: "ready sid e tx" and p: "dir_of sid p (t_db tx)" and free: "child (t_db tx) p n = None"
    and sid: "c_sandbox opts = sid"
  shows "and_then (createInode opts (Some e)) (\<lambda>i. and_then (insertDirent p n i) (k i)) tx =
    k (inode_seq (t_db tx)) () (on_db (add_node sid p n (row_of_opts opts (t_now tx))) (bumped sid tx))"
proof -
  have "insertDirent p n (inode_seq (t_db tx))
      (on_db (\<lambda>d. (put_inode (inode_seq d) (row_of_opts opts (t_now tx)) d)\<lparr>inode_seq := inode_seq d + 1\<rparr>) (bumped sid tx)) =
    (Inr (), on_db (add_node sid p n (row_of_opts opts (t_now tx))) (bumped sid tx))"
    using insertDirent_fresh [OF ready_bumped [OF rd], of p n "row_of_opts opts (t_now tx)"] p free sid
    by (simp add: dir_of_def)
  then show ?thesis
    using createInode_ready [of opts e tx] rd sid by (simp add: and_then_def)
qed

text \<open>\<open>mkdir\<close> through the composite and through single statements.\<close>

lemma create_dir_run_ready:
  assumes "ready sid e tx" and "dir_of sid p (t_db tx)" and "child (t_db tx) p n = None"
    and "r_resolve rp parent = Inr p" and "r_expected rp = e"
  shows "create_dir_run sid parent n mode rp tx =
    (Inr [inode_seq (t_db tx)],
     on_db (add_node sid p n (new_inode_row sid DIRECTORY mode 0 None None (t_now tx))) (bumped sid tx))"
  using assms create_entry_ready [OF assms(1-3), of "\<lparr>c_sandbox = sid, c_kind = DIRECTORY, c_mode = mode,
      c_size = 0, c_sha = None, c_target = None\<rparr>" "\<lambda>i _. return_ok [i]"]
  by (simp add: create_dir_run_def row_of_opts_def and_then_def split: prod.splits sum.splits)

section \<open>Dropping a link\<close>

lemma drop_link_ready:
  "ready sid e tx \<Longrightarrow> in_sandbox sid i (t_db tx) \<Longrightarrow> drop_link i tx = on_db (unlink_db i) tx"
  by (auto simp: drop_link_def get_inode_ready unlink_db_def in_sandbox_def intro: on_db_cong)

lemma del_put_inode [simp]: "del_inode i (put_inode i r d) = del_inode i d"
  by (simp add: del_inode_def put_inode_def)

text \<open>With an exact link count, \<open>decrementNlink\<close> followed by \<open>deleteInode\<close> at zero is the composite's pair of statements.\<close>

lemma unlink_inode_ready:
  assumes "ready sid e tx" and "node (t_db tx) i = Some r" and "i_sandbox r = sid" and "1 \<le> i_nlink r"
  shows "unlink_inode i tx = (Inr (), on_db (unlink_db i) tx)"
proof -
  have g: "get_inode tx i = Some r"
    using assms by (subst get_inode_ready) (auto simp: in_sandbox_def)
  let ?tx = "on_db (put_inode i (r\<lparr>i_nlink := i_nlink r - 1\<rparr>)) tx"
  have "get_inode ?tx i = Some (r\<lparr>i_nlink := i_nlink r - 1\<rparr>)"
    using assms by (simp add: get_inode_def put_inode_def)
  then show ?thesis
    using g assms(2,4)
    by (auto simp: unlink_inode_def decrementNlink_def deleteInode_def and_then_def unlink_db_def intro!: on_db_cong)
qed

lemma unlink_replaced_eq: "unlink_replaced old = (case old of None \<Rightarrow> return_ok () | Some i \<Rightarrow> unlink_inode i)"
  by (simp add: unlink_replaced_def unlink_inode_def split: option.split)

section \<open>Replacing an entry\<close>

lemma node_add_node [simp]: "node (add_node sid p n r d) i = (if i = inode_seq d then Some r else node d i)"
  by (simp add: add_node_def)

lemma child_add_node: "child (add_node sid p n r d) = set_child (child d) p n (Some (inode_seq d))"
  by (simp add: add_node_def child_put_dirent)

lemma root_of_add_node [simp]: "root_of (add_node sid p n r d) = root_of d"
  by (simp add: add_node_def)

lemma version_of_add_node [simp]: "version_of (add_node sid p n r d) = version_of d"
  by (simp add: add_node_def)

lemma wf_entry_own:
  assumes "wf_off off d" and "in_sandbox sid p d" and "map_of (dirents d) (p, n) = Some x"
  shows "d_sandbox x = sid" and "in_sandbox sid (d_inode x) d"
proof -
  have "child d p n = Some (d_inode x)" using assms(3) by (simp add: child_def)
  from wf_child_entry [OF assms(1) this] obtain e pr cr where
    e: "map_of (dirents d) (p, n) = Some e" "node d p = Some pr" "i_sandbox pr = d_sandbox e"
      "node d (d_inode x) = Some cr" "i_sandbox cr = d_sandbox e" by metis
  then show "d_sandbox x = sid" "in_sandbox sid (d_inode x) d"
    using assms(2,3) by (auto simp: in_sandbox_def)
qed

lemma wf_child_own:
  assumes "wf_off off d" and "in_sandbox sid p d" and "child d p n = Some i"
  shows "in_sandbox sid i d"
  using wf_entry_own(2) [OF assms(1,2)] assms(3) by (auto simp: child_def)

text \<open>A linked inode is no root and its count is at least one.\<close>

lemma wf_linked:
  assumes wf: "wf_db d" and ch: "child d p n = Some i"
  shows "\<exists>row. node d i = Some row \<and> i_nlink row = link_count d i \<and> 1 \<le> i_nlink row" and "\<not> is_root d i"
proof -
  have mem: "(p, n) \<in> links d i" using ch by (simp add: mem_links_child)
  then show nr: "\<not> is_root d i" using wf_root_no_links [OF wf] by blast
  obtain row where row: "node d i = Some row" using wf_child_entry [OF wf ch] by blast
  have "i_nlink row = link_count d i" using wf row nr unfolding wf_off_def wf_links_def by simp
  moreover have "0 < card (links d i)" using mem by (auto simp: card_gt_0_iff)
  ultimately show "\<exists>row. node d i = Some row \<and> i_nlink row = link_count d i \<and> 1 \<le> i_nlink row"
    using row by (simp add: link_count_def)
qed

lemma upsert_fresh:
  assumes rd: "ready sid e tx" and wf: "wf_off off (t_db tx)" and p: "dir_of sid p (t_db tx)" and r: "i_sandbox r = sid"
  shows "upsert_dirent_row (p, n) \<lparr>d_inode = inode_seq (t_db tx), d_sandbox = sid\<rparr>
      (on_db (\<lambda>d. (put_inode (inode_seq d) r d)\<lparr>inode_seq := inode_seq d + 1\<rparr>) tx) =
    (Inr (), on_db (add_node sid p n r) tx)"
proof -
  have pn: "map_of (inodes (t_db tx)) p \<noteq> None" using p by (auto simp: dir_of_def node_def)
  have own: "d_sandbox x = sid" if "map_of (dirents (t_db tx)) (p, n) = Some x" for x
    using wf_entry_own(1) [OF wf dir_of_in_sandbox [OF p] that] .
  have same: "x\<lparr>d_inode := i\<rparr> = \<lparr>d_inode = i, d_sandbox = sid\<rparr>" if "d_sandbox x = sid" for x :: dirent_row and i
    using that by (cases x) simp
  show ?thesis
    using ready_sandbox [OF rd] rd pn own
    by (cases "map_of (dirents (t_db tx)) (p, n)")
       (auto simp: upsert_dirent_row_def insert_dirent_row_def put_inode_def add_node_def same intro!: on_db_cong)
qed

lemma writeFileComposite_ready:
  assumes rd: "ready sid e tx" and wf: "wf_off off (t_db tx)" and p: "dir_of sid p (t_db tx)"
  shows "writeFileComposite sid p n mode sz sha (Some e) tx =
    (Inr (inode_seq (t_db tx)),
     on_db (replace_node sid p n (new_inode_row sid FILE mode sz (Some sha) None (t_now tx))) (bumped sid (lockd sid tx)))"
proof -
  let ?tx = "bumped sid (lockd sid tx)" and ?r = "new_inode_row sid FILE mode sz (Some sha) None (t_now tx)"
  have rd': "ready sid e ?tx" using rd by simp
  have p': "dir_of sid p (t_db ?tx)" using p by (simp add: dir_of_def)
  have old: "get_dirent tx (p, n) = map_of (dirents (t_db tx)) (p, n)"
    using rd wf dir_of_in_sandbox [OF p] by (rule get_dirent_ready)
  have drop: "drop_link (d_inode x) (on_db (add_node sid p n ?r) ?tx) =
      on_db (\<lambda>d. unlink_db (d_inode x) (add_node sid p n ?r d)) ?tx"
    if "map_of (dirents (t_db tx)) (p, n) = Some x" for x
  proof -
    have "in_sandbox sid (d_inode x) (add_node sid p n ?r (t_db ?tx))"
      using wf_entry_own(2) [OF wf dir_of_in_sandbox [OF p] that]
      by (auto simp: in_sandbox_def new_inode_row_def)
    moreover have "ready sid e (on_db (add_node sid p n ?r) ?tx)"
      using rd' by (rule ready_on_db) simp
    ultimately show ?thesis by (subst drop_link_ready) auto
  qed
  have ins: "insert_inode ?r ?tx = (Inr (inode_seq (t_db tx)),
      on_db (\<lambda>d. (put_inode (inode_seq d) ?r d)\<lparr>inode_seq := inode_seq d + 1\<rparr>) ?tx)"
    using insert_inode_ready [OF rd', of ?r] by (simp add: new_inode_row_def)
  have ups: "upsert_dirent_row (p, n) \<lparr>d_inode = inode_seq (t_db tx), d_sandbox = sid\<rparr>
      (on_db (\<lambda>d. (put_inode (inode_seq d) ?r d)\<lparr>inode_seq := inode_seq d + 1\<rparr>) ?tx) =
    (Inr (), on_db (add_node sid p n ?r) ?tx)"
    using upsert_fresh [OF rd' _ p', of off ?r n] wf by (simp add: new_inode_row_def)
  show ?thesis
    using rd drop
    by (simp add: writeFileComposite_def and_then_def Let_def ins ups old split: option.split)
       (auto simp: replace_node_def child_def intro!: on_db_cong)
qed

lemma upsertDirent_fresh:
  assumes rd: "ready sid e tx" and wf: "wf_off off (t_db tx)" and p: "dir_of sid p (t_db tx)" and r: "i_sandbox r = sid"
  shows "upsertDirent p n (inode_seq (t_db tx))
      (on_db (\<lambda>d. (put_inode (inode_seq d) r d)\<lparr>inode_seq := inode_seq d + 1\<rparr>) tx) =
    (Inr (child (t_db tx) p n), on_db (add_node sid p n r) tx)"
proof -
  let ?tx = "on_db (\<lambda>d. (put_inode (inode_seq d) r d)\<lparr>inode_seq := inode_seq d + 1\<rparr>) tx"
  obtain pr where pr: "get_inode ?tx p = Some pr" "i_sandbox pr = sid"
    using p rd r by (cases "p = inode_seq (t_db tx)") (auto simp: get_inode_def dir_of_def node_def put_inode_def)
  have "get_dirent ?tx (p, n) = get_dirent tx (p, n)" by (simp add: get_dirent_def put_inode_def split: option.split)
  also have "\<dots> = map_of (dirents (t_db tx)) (p, n)"
    using rd wf dir_of_in_sandbox [OF p] by (rule get_dirent_ready)
  finally show ?thesis
    using pr upsert_fresh [OF rd wf p r, of n]
    by (simp add: upsertDirent_def Let_def and_then_def child_def)
qed

text \<open>\<open>createInode; upsertDirent; decrementNlink / deleteInode\<close>, the sequence of \<open>cp\<close> and of the write without composites.\<close>

lemma replace_entry_ready:
  assumes rd: "ready sid e tx" and wf: "wf_db (t_db tx)" and p: "dir_of sid p (t_db tx)" and sid: "c_sandbox opts = sid"
    and k: "\<And>i x. k i x = and_then (unlink_replaced x) (\<lambda>_. return_ok [i])"
  shows "and_then (createInode opts (Some e)) (\<lambda>i. and_then (upsertDirent p n i) (k i)) tx =
    (Inr [inode_seq (t_db tx)], on_db (replace_node sid p n (row_of_opts opts (t_now tx))) (bumped sid tx))"
proof -
  let ?tx = "bumped sid tx" and ?r = "row_of_opts opts (t_now tx)"
  have rd': "ready sid e ?tx" using rd by simp
  have p': "dir_of sid p (t_db ?tx)" using p by (simp add: dir_of_def)
  have ups: "upsertDirent p n (inode_seq (t_db tx))
      (on_db (\<lambda>d. (put_inode (inode_seq d) ?r d)\<lparr>inode_seq := inode_seq d + 1\<rparr>) ?tx) =
    (Inr (child (t_db tx) p n), on_db (add_node sid p n ?r) ?tx)"
    using upsertDirent_fresh [OF rd' _ p', of _ ?r n] wf sid by simp
  have rd2: "ready sid e (on_db (add_node sid p n ?r) ?tx)"
    using rd' by (rule ready_on_db) simp
  have unl: "unlink_inode i (on_db (add_node sid p n ?r) ?tx) =
      (Inr (), on_db (\<lambda>d. unlink_db i (add_node sid p n ?r d)) ?tx)" if ch: "child (t_db tx) p n = Some i" for i
  proof -
    obtain row where row: "node (t_db tx) i = Some row" "i_sandbox row = sid" "1 \<le> i_nlink row"
      using wf_linked [OF wf ch] wf_child_own [OF wf dir_of_in_sandbox [OF p] ch] by (auto simp: in_sandbox_def)
    have "i \<noteq> inode_seq (t_db tx)" using row wf_fresh [OF wf] by auto
    then have "unlink_inode i (on_db (add_node sid p n ?r) ?tx) = (Inr (), on_db (unlink_db i) (on_db (add_node sid p n ?r) ?tx))"
      using row by (intro unlink_inode_ready [OF rd2]) simp_all
    then show ?thesis by simp
  qed
  show ?thesis
    using createInode_ready [of opts e tx] rd sid ups unl
    by (cases "child (t_db tx) p n")
       (auto simp: and_then_def k unlink_replaced_eq replace_node_def intro!: on_db_cong)
qed

section \<open>Removing an entry\<close>

lemma node_del_dirent_in [simp]: "in_sandbox sid i (del_dirent k d) = in_sandbox sid i d" "in_sandbox s i (bump sid d) = in_sandbox s i d"
  by (simp_all add: in_sandbox_def)

lemma dir_of_simps [simp]: "dir_of sid p (del_dirent k d) = dir_of sid p d" "dir_of s p (bump sid d) = dir_of s p d"
  by (simp_all add: dir_of_def)

lemma visible_entry:
  assumes "ready sid e tx" and "wf_off off (t_db tx)" and "dir_of sid p (t_db tx)" and "child (t_db tx) p n = Some i"
  shows "\<exists>x. get_dirent tx (p, n) = Some x \<and> map_of (dirents (t_db tx)) (p, n) = Some x \<and> d_inode x = i \<and> d_sandbox x = sid"
  using assms get_dirent_ready [OF assms(1,2) dir_of_in_sandbox [OF assms(3)], of n]
    wf_entry_own(1) [OF assms(2) dir_of_in_sandbox [OF assms(3)]]
  by (auto simp: child_def)

lemma rmComposite_ready:
  assumes rd: "ready sid e tx" and wf: "wf_off off (t_db tx)" and p: "dir_of sid p (t_db tx)"
    and ch: "child (t_db tx) p n = Some i"
  shows "rmComposite sid p n (Some e) tx = (Inr i, on_db (remove_entry p n) (bumped sid (lockd sid tx)))"
proof -
  let ?tx = "bumped sid (lockd sid tx)"
  obtain x where x: "get_dirent tx (p, n) = Some x" "d_inode x = i"
    using visible_entry [OF assms] by blast
  have "ready sid e (on_db (del_dirent (p, n)) ?tx)"
    using rd by (intro ready_on_db) simp_all
  moreover have "in_sandbox sid i (t_db (on_db (del_dirent (p, n)) ?tx))"
    using wf_child_own [OF wf dir_of_in_sandbox [OF p] ch] by simp
  ultimately have "drop_link i (on_db (del_dirent (p, n)) ?tx) = on_db (unlink_db i) (on_db (del_dirent (p, n)) ?tx)"
    by (rule drop_link_ready)
  then show ?thesis
    using rd x ch by (simp add: rmComposite_def and_then_def) (rule on_db_cong, simp add: remove_entry_def)
qed

lemma deleteDirent_ready:
  assumes "ready sid e tx" and "wf_off off (t_db tx)" and "dir_of sid p (t_db tx)" and "child (t_db tx) p n = Some i"
  shows "deleteDirent p n sid (Some e) tx = (Inr i, on_db (del_dirent (p, n)) (bumped sid tx))"
  using visible_entry [OF assms] assms(1) by (auto simp: deleteDirent_def and_then_def)

lemma unlink_after_delete:
  assumes rd: "ready sid e tx" and wf: "wf_db (t_db tx)" and p: "dir_of sid p (t_db tx)"
    and ch: "child (t_db tx) p n = Some i"
  shows "unlink_inode i (on_db (del_dirent (p, n)) tx) = (Inr (), on_db (remove_entry p n) tx)"
proof -
  obtain row where row: "node (t_db tx) i = Some row" "i_sandbox row = sid" "1 \<le> i_nlink row"
    using wf_linked(1) [OF wf ch] wf_child_own [OF wf dir_of_in_sandbox [OF p] ch] by (auto simp: in_sandbox_def)
  have rd2: "ready sid e (on_db (del_dirent (p, n)) tx)"
    using rd by (intro ready_on_db) simp_all
  have "unlink_inode i (on_db (del_dirent (p, n)) tx) = (Inr (), on_db (unlink_db i) (on_db (del_dirent (p, n)) tx))"
    using row by (intro unlink_inode_ready [OF rd2]) simp_all
  then show ?thesis using ch by (auto simp: remove_entry_def intro: on_db_cong)
qed

lemma rm_statements_ready:
  assumes rd: "ready sid e tx" and wf: "wf_db (t_db tx)" and p: "dir_of sid p (t_db tx)"
    and ch: "child (t_db tx) p n = Some i"
  shows "and_then (deleteDirent p n sid (Some e)) (\<lambda>i. and_then (unlink_inode i) (k i)) tx =
    k i () (on_db (remove_entry p n) (bumped sid tx))"
  using deleteDirent_ready [OF assms] unlink_after_delete [OF ready_bumped [OF rd], of p n i] wf p ch
  by (simp add: and_then_def)

section \<open>Patching and linking\<close>

lemma updateInode_ready:
  assumes "ready sid e tx" and "node (t_db tx) i = Some r" and "i_sandbox r = sid"
    and "\<not> (u_mode u = None \<and> u_size u = None \<and> u_mtime u = None \<and> u_sha u = None)"
  shows "updateInode i u sid (Some e) tx = (Inr (), on_db (put_inode i (patch_inode_row u r)) (bumped sid tx))"
  using assms(1-3) get_inode_ready [OF assms(1), of i]
  unfolding updateInode_def if_not_P [OF assms(4)]
  by (simp add: and_then_def in_sandbox_def)

lemma link_ready:
  assumes rd: "ready sid e tx" and r: "node (t_db tx) i = Some r" "i_sandbox r = sid"
    and p: "dir_of sid p (t_db tx)" and free: "child (t_db tx) p n = None"
  shows "and_then (incrementNlink i sid (Some e)) (\<lambda>_. and_then (insertDirent p n i) k) tx =
    k () (on_db (add_link sid p n i r) (bumped sid tx))"
proof -
  let ?r = "r\<lparr>i_nlink := i_nlink r + 1\<rparr>" and ?tx = "bumped sid tx"
  have inc: "incrementNlink i sid (Some e) tx = (Inr (), on_db (put_inode i ?r) ?tx)"
    using rd r get_inode_ready [OF rd, of i] by (simp add: incrementNlink_def and_then_def in_sandbox_def)
  obtain pr where pr: "get_inode (on_db (put_inode i ?r) ?tx) p = Some pr" "i_sandbox pr = sid"
    using p rd r by (cases "p = i") (auto simp: get_inode_def dir_of_def node_def put_inode_def)
  have "map_of (dirents (t_db tx)) (p, n) = None" using free by (simp add: child_def)
  moreover have "map_of (inodes (t_db tx)) p \<noteq> None" "map_of (inodes (t_db tx)) i \<noteq> None"
    using p r by (auto simp: dir_of_def node_def)
  ultimately have "insertDirent p n i (on_db (put_inode i ?r) ?tx) = (Inr (), on_db (add_link sid p n i r) ?tx)"
    using ready_sandbox [OF rd] rd pr
    by (simp add: insertDirent_def insert_dirent_row_def put_inode_def)
       (auto intro!: on_db_cong simp: add_link_def put_inode_def)
  then show ?thesis using inc by (simp add: and_then_def)
qed

section \<open>Moving an entry\<close>

lemma rename_ready:
  assumes rd: "ready sid e tx" and old: "get_dirent tx old = Some x" and p: "dir_of sid (fst new) (t_db tx)"
    and free: "map_of (dirents (t_db tx)) new = None"
  shows "rename_dirent old new missing tx = (Inr (), on_db (move_entry old new x) tx)"
  using old free p by (auto simp: rename_dirent_def dir_of_def node_def move_entry_def intro!: on_db_cong)

end
