(* ===== verification/Updates.thy ===== *)
theory Updates
  imports Effects
begin

text \<open>
  The database updates of \<open>Effects\<close> keep the invariant of \<open>Tree\<close>, and what they do to the meaning
  of every path. Together with \<open>Effects\<close> this gives each file-system mutation its effect on the
  tree of its sandbox.
\<close>

section \<open>The invariant only depends on the tables as maps\<close>

lemma wf_ext:
  assumes "wf_off off d" and "wf_keys d'" and "map_of (inodes d') = map_of (inodes d)"
    and "map_of (dirents d') = map_of (dirents d)" and "map_of (sandboxes d') = map_of (sandboxes d)"
    and "inode_seq d' = inode_seq d"
  shows "wf_off off d'"
proof -
  have n: "node d' = node d" by (intro ext) (simp add: node_def assms)
  have l: "links d' = links d" by (intro ext) (simp add: links_def assms)
  have r: "root_of d' = root_of d" by (intro ext) (simp add: root_of_def assms)
  have ir: "is_root d' = is_root d" by (intro ext) (simp add: is_root_def r)
  show ?thesis
    using assms(1,2)
    by (simp add: wf_off_def wf_ids_def wf_entries_def wf_dirs_def wf_roots_def wf_links_def link_count_def
        n l r ir assms)
qed

lemma put_over_del: "map_of (dirents (put_dirent k e (del_dirent k d))) = map_of (dirents (put_dirent k e d))"
  by (intro ext) (simp add: put_dirent_def del_dirent_def)

text \<open>Redirecting an existing entry: its old target has one count too many, its new one is settled.\<close>

lemma wf_put_over:
  assumes wf: "wf_off off d" and old: "map_of (dirents d) (p, n) = Some x"
    and p: "node d p = Some pr" "i_kind pr = DIRECTORY" "i_sandbox pr = d_sandbox e"
    and c: "node d (d_inode e) = Some cr" "i_sandbox cr = d_sandbox e"
    and n: "valid_name n" and nr: "\<not> is_root d (d_inode e)" and nl: "links d (d_inode e) = {}"
  shows "wf_off (off(d_inode x := off (d_inode x) + 1, d_inode e := off (d_inode e) - 1)) (put_dirent (p, n) e d)"
proof -
  have ne: "d_inode x \<noteq> d_inode e" using nl old by (auto simp: mem_links_iff set_eq_iff)
  have w1: "wf_off (off(d_inode x := off (d_inode x) + 1)) (del_dirent (p, n) d)"
    using wf old by (rule wf_del_dirent)
  have "wf_off ((off(d_inode x := off (d_inode x) + 1))(d_inode e := (off(d_inode x := off (d_inode x) + 1)) (d_inode e) - 1))
      (put_dirent (p, n) e (del_dirent (p, n) d))"
    using p c n nr nl by (intro wf_put_dirent [OF w1, of p n pr e cr]) (simp_all add: links_del_dirent)
  then have "wf_off (off(d_inode x := off (d_inode x) + 1, d_inode e := off (d_inode e) - 1))
      (put_dirent (p, n) e (del_dirent (p, n) d))" using ne by simp
  then show ?thesis
  proof (rule wf_ext)
    show "wf_keys (put_dirent (p, n) e d)"
      using wf by (simp add: wf_off_def wf_keys_def put_dirent_def distinct_update)
  qed (simp_all add: put_over_del, simp_all add: put_dirent_def del_dirent_def)
qed

section \<open>Well-formedness of the updates\<close>

lemma wf_dir_ofE:
  assumes "dir_of sid p d" obtains pr where "node d p = Some pr" "i_kind pr = DIRECTORY" "i_sandbox pr = sid"
  using assms by (auto simp: dir_of_def)

lemma wf_not_root_fresh: "wf_off off d \<Longrightarrow> \<not> is_root d (inode_seq d)"
  using wf_root_node wf_fresh by fastforce

lemma wf_no_links_fresh: "wf_off off d \<Longrightarrow> links d (inode_seq d) = {}"
  by (rule wf_no_node_no_links) (auto intro: wf_fresh)

lemma wf_add_node:
  assumes wf: "wf_db d" and p: "dir_of sid p d" and free: "child d p n = None" and n: "valid_name n"
    and r: "i_sandbox r = sid" "i_nlink r = 1"
  shows "wf_db (add_node sid p n r d)"
proof -
  let ?i = "inode_seq d" and ?d = "(put_inode (inode_seq d) r d)\<lparr>inode_seq := inode_seq d + 1\<rparr>"
  have w1: "wf_off ((\<lambda>_. 0)(?i := 1)) ?d" using wf_insert_inode [OF wf refl r(2)] .
  obtain pr where pr: "node d p = Some pr" "i_kind pr = DIRECTORY" "i_sandbox pr = sid"
    using p by (rule wf_dir_ofE)
  have "p \<noteq> ?i" using pr wf_fresh [OF wf] by auto
  then have "wf_off (((\<lambda>_. 0)(?i := 1))(?i := ((\<lambda>_. 0)(?i := 1)) ?i - 1)) (put_dirent (p, n) \<lparr>d_inode = ?i, d_sandbox = sid\<rparr> ?d)"
    using wf_put_dirent [OF w1, of p n pr "\<lparr>d_inode = ?i, d_sandbox = sid\<rparr>" r] pr free n r
      wf_not_root_fresh [OF wf] wf_no_links_fresh [OF wf]
    by (simp add: child_def put_inode_def) (simp add: node_def links_def is_root_def root_of_def)
  moreover have "((\<lambda>_. 0)(?i := 1))(?i := ((\<lambda>_. 0)(?i := 1)) ?i - 1) = (\<lambda>_. 0 :: int)" by auto
  ultimately show ?thesis unfolding add_node_def by metis
qed

lemma wf_add_node_over:
  assumes wf: "wf_db d" and p: "dir_of sid p d" and old: "child d p n = Some i0"
    and r: "i_sandbox r = sid" "i_nlink r = 1"
  shows "wf_off ((\<lambda>_. 0)(i0 := 1)) (add_node sid p n r d)"
proof -
  let ?i = "inode_seq d" and ?d = "(put_inode (inode_seq d) r d)\<lparr>inode_seq := inode_seq d + 1\<rparr>"
  have w1: "wf_off ((\<lambda>_. 0)(?i := 1)) ?d" using wf_insert_inode [OF wf refl r(2)] .
  obtain pr where pr: "node d p = Some pr" "i_kind pr = DIRECTORY" "i_sandbox pr = sid"
    using p by (rule wf_dir_ofE)
  obtain x where x: "map_of (dirents d) (p, n) = Some x" "d_inode x = i0" using old by (auto simp: child_def)
  have n: "valid_name n" and i0: "i0 \<noteq> ?i"
    using wf_child_entry [OF wf old] wf_fresh [OF wf] by (metis, metis option.distinct(1))
  have "p \<noteq> ?i" using pr wf_fresh [OF wf] by auto
  then have "wf_off (((\<lambda>_. 0)(?i := 1))(d_inode x := ((\<lambda>_. 0)(?i := 1)) (d_inode x) + 1,
      d_inode \<lparr>d_inode = ?i, d_sandbox = sid\<rparr> := ((\<lambda>_. 0)(?i := 1)) (d_inode \<lparr>d_inode = ?i, d_sandbox = sid\<rparr>) - 1))
      (put_dirent (p, n) \<lparr>d_inode = ?i, d_sandbox = sid\<rparr> ?d)"
    using pr x n r wf_not_root_fresh [OF wf] wf_no_links_fresh [OF wf]
    by (intro wf_put_over [OF w1, where pr = pr and cr = r])
       simp_all
  moreover have "((\<lambda>_. 0)(?i := 1))(d_inode x := ((\<lambda>_. 0)(?i := 1)) (d_inode x) + 1,
      d_inode \<lparr>d_inode = ?i, d_sandbox = sid\<rparr> := ((\<lambda>_. 0)(?i := 1)) (d_inode \<lparr>d_inode = ?i, d_sandbox = sid\<rparr>) - 1)
      = (\<lambda>_. 0 :: int)(i0 := 1)" using x i0 by (auto simp: fun_eq_iff)
  ultimately show ?thesis unfolding add_node_def by metis
qed

text \<open>Settling the one count an unlinked inode has too many.\<close>

lemma wf_unlink_db:
  assumes wf: "wf_off ((\<lambda>_. 0)(i := 1)) d" and r: "node d i = Some r" and nr: "\<not> is_root d i"
    and leaf: "\<And>n. child d i n = None"
  shows "wf_db (unlink_db i d)" and "child (unlink_db i d) = child d"
proof -
  have cnt: "i_nlink r = link_count d i + 1"
    using wf r nr unfolding wf_off_def wf_links_def by simp
  have "wf_db (unlink_db i d) \<and> child (unlink_db i d) = child d"
  proof (cases "i_nlink r \<le> 1")
    case True
    then have "links d i = {}" using cnt by (simp add: link_count_def)
    note del = wf_del_inode [OF wf this leaf nr]
    have "wf_off (\<lambda>_. 0) (del_inode i d)"
      by (rule wf_off_cong [OF _ del(1)]) (auto split: if_splits)
    then show ?thesis using True r child_cong [OF del(2)] by (simp add: unlink_db_def)
  next
    case False
    let ?r = "r\<lparr>i_nlink := i_nlink r - 1\<rparr>"
    have "wf_off (((\<lambda>_. 0)(i := 1))(i := ((\<lambda>_. 0)(i := 1)) i + (i_nlink ?r - i_nlink r))) (put_inode i ?r d)"
      by (rule wf_put_inode [OF wf r]) simp_all
    then have "wf_db (put_inode i ?r d)" by (rule wf_off_cong [rotated]) simp
    then show ?thesis using False r by (simp add: unlink_db_def)
  qed
  then show "wf_db (unlink_db i d)" "child (unlink_db i d) = child d" by simp_all
qed

lemma node_unlink_db: "node (unlink_db i d) j =
    (if j = i then (case node d i of None \<Rightarrow> None
       | Some r \<Rightarrow> if i_nlink r \<le> 1 then None else Some (r\<lparr>i_nlink := i_nlink r - 1\<rparr>)) else node d j)"
  by (simp add: unlink_db_def split: option.split)

lemma root_of_unlink_db [simp]: "root_of (unlink_db i d) = root_of d"
  by (simp add: unlink_db_def split: option.split)

lemma version_of_unlink_db [simp]: "version_of (unlink_db i d) = version_of d"
  by (simp add: unlink_db_def split: option.split)

lemma wf_replace_node:
  assumes wf: "wf_db d" and p: "dir_of sid p d" and n: "valid_name n"
    and r: "i_sandbox r = sid" "i_nlink r = 1" and leaf: "\<And>i m. child d p n = Some i \<Longrightarrow> child d i m = None"
  shows "wf_db (replace_node sid p n r d)"
    and "child (replace_node sid p n r d) = set_child (child d) p n (Some (inode_seq d))"
proof -
  have "wf_db (replace_node sid p n r d) \<and> child (replace_node sid p n r d) = set_child (child d) p n (Some (inode_seq d))"
  proof (cases "child d p n")
    case None
    then show ?thesis using wf_add_node [OF wf p None n r] by (simp add: replace_node_def child_add_node)
  next
    case (Some i0)
    let ?d = "add_node sid p n r d"
    obtain row where row: "node d i0 = Some row" using wf_linked(1) [OF wf Some] by blast
    then have "i0 \<noteq> inode_seq d" using wf_fresh [OF wf] by auto
    moreover have "p \<noteq> i0" using leaf [OF Some, of n] Some by auto
    moreover have "\<not> is_root ?d i0" using wf_linked(2) [OF wf Some] by (simp add: add_node_def)
    ultimately have "wf_db (unlink_db i0 ?d) \<and> child (unlink_db i0 ?d) = child ?d"
      using wf_unlink_db [OF wf_add_node_over [OF wf p Some r], of row] leaf [OF Some] row
      by (simp add: child_add_node)
    then show ?thesis using Some by (simp add: replace_node_def child_add_node)
  qed
  then show "wf_db (replace_node sid p n r d)"
    "child (replace_node sid p n r d) = set_child (child d) p n (Some (inode_seq d))" by simp_all
qed

lemma wf_remove_entry:
  assumes wf: "wf_db d" and ch: "child d p n = Some i" and leaf: "\<And>m. child d i m = None"
  shows "wf_db (remove_entry p n d)" and "child (remove_entry p n d) = set_child (child d) p n None"
proof -
  obtain x where x: "map_of (dirents d) (p, n) = Some x" "d_inode x = i" using ch by (auto simp: child_def)
  obtain row where row: "node d i = Some row" using wf_linked(1) [OF wf ch] by blast
  have w1: "wf_off ((\<lambda>_. 0)(i := 1)) (del_dirent (p, n) d)"
    using wf_del_dirent [OF wf x(1)] x(2) by simp
  have "p \<noteq> i" using ch leaf [of n] by auto
  then have "wf_db (unlink_db i (del_dirent (p, n) d)) \<and> child (unlink_db i (del_dirent (p, n) d)) = child (del_dirent (p, n) d)"
    using wf_unlink_db [OF w1, of row] row leaf wf_linked(2) [OF wf ch] by (simp add: child_del_dirent)
  then show "wf_db (remove_entry p n d)" "child (remove_entry p n d) = set_child (child d) p n None"
    using ch by (simp_all add: remove_entry_def child_del_dirent)
qed

lemma wf_patch:
  assumes "wf_db d" and "node d i = Some r" and "i_kind r' = i_kind r" and "i_sandbox r' = i_sandbox r" and "i_nlink r' = i_nlink r"
  shows "wf_db (put_inode i r' d)"
  by (rule wf_off_cong [OF _ wf_put_inode [OF assms(1-4)]]) (simp add: assms(5))

lemma wf_add_link:
  assumes wf: "wf_db d" and r: "node d i = Some r" "i_sandbox r = sid" "i_kind r \<noteq> DIRECTORY"
    and p: "dir_of sid p d" and free: "child d p n = None" and n: "valid_name n"
  shows "wf_db (add_link sid p n i r d)" and "child (add_link sid p n i r d) = set_child (child d) p n (Some i)"
proof -
  let ?r = "r\<lparr>i_nlink := i_nlink r + 1\<rparr>" and ?e = "\<lparr>d_inode = i, d_sandbox = sid\<rparr>"
  have w1: "wf_off ((\<lambda>_. 0)(i := 1)) (put_inode i ?r d)"
    using wf_put_inode [OF wf r(1), of ?r] by simp
  obtain pr where pr: "node d p = Some pr" "i_kind pr = DIRECTORY" "i_sandbox pr = sid"
    using p by (rule wf_dir_ofE)
  have "p \<noteq> i" using pr r by auto
  moreover have "\<not> is_root d i" using wf_root_node [OF wf, of i] r by auto
  ultimately have "wf_off (((\<lambda>_. 0)(i := 1))(d_inode ?e := ((\<lambda>_. 0)(i := 1)) (d_inode ?e) - 1)) (put_dirent (p, n) ?e (put_inode i ?r d))"
    using pr r free n by (intro wf_put_dirent [OF w1, of p n pr ?e ?r]) (simp_all add: child_def)
  then have "wf_db (put_dirent (p, n) ?e (put_inode i ?r d))" by (rule wf_off_cong [rotated]) simp
  then show "wf_db (add_link sid p n i r d)" by (simp add: add_link_def)
  show "child (add_link sid p n i r d) = set_child (child d) p n (Some i)"
    by (simp add: add_link_def child_put_dirent)
qed

lemma wf_move_entry:
  assumes wf: "wf_db d" and x: "map_of (dirents d) (op, on) = Some x" "d_sandbox x = sid"
    and p: "dir_of sid np d" and free: "child d np nn = None" and n: "valid_name nn"
  shows "wf_db (move_entry (op, on) (np, nn) x d)"
    and "child (move_entry (op, on) (np, nn) x d) = set_child (set_child (child d) op on None) np nn (Some (d_inode x))"
proof -
  have ch: "child d op on = Some (d_inode x)" using x by (simp add: child_def)
  have w1: "wf_off ((\<lambda>_. 0)(d_inode x := 1)) (del_dirent (op, on) d)"
    using wf_del_dirent [OF wf x(1)] by simp
  obtain pr where pr: "node d np = Some pr" "i_kind pr = DIRECTORY" "i_sandbox pr = sid"
    using p by (rule wf_dir_ofE)
  obtain cr where cr: "node d (d_inode x) = Some cr" "i_sandbox cr = sid"
    using wf_child_entry [OF wf ch] x by (metis option.inject)
  have "(op, on) \<in> links d (d_inode x)" using ch by (simp add: mem_links_child)
  then have "i_kind cr = DIRECTORY \<Longrightarrow> links (del_dirent (op, on) d) (d_inode x) = {}"
    using wf_dir_links [OF wf cr(1)] by (simp add: links_del_dirent)
  then have "wf_off (((\<lambda>_. 0)(d_inode x := 1))(d_inode x := ((\<lambda>_. 0)(d_inode x := 1)) (d_inode x) - 1))
      (put_dirent (np, nn) x (del_dirent (op, on) d))"
    using pr cr x free n wf_linked(2) [OF wf ch]
    by (intro wf_put_dirent [OF w1, of np nn pr x cr]) (simp_all add: child_def)
  then have "wf_db (put_dirent (np, nn) x (del_dirent (op, on) d))" by (rule wf_off_cong [rotated]) simp
  then show "wf_db (move_entry (op, on) (np, nn) x d)" by (simp add: move_entry_def)
  show "child (move_entry (op, on) (np, nn) x d) = set_child (set_child (child d) op on None) np nn (Some (d_inode x))"
    by (simp add: move_entry_def child_put_dirent child_del_dirent)
qed

end
