(* ===== verification/FsTree.thy ===== *)
theory FsTree
  imports Updates
begin

text \<open>
  The abstract file system: a partial function from paths (lists of names) to entries, and the four
  operations every mutation amounts to. \<open>db_lookup d r\<close> is the abstraction of a database, and each
  database update of \<open>Updates\<close> refines one of the abstract operations.
\<close>

type_synonym fs_tree = "string list \<Rightarrow> path_entry option"

definition tree_set :: "string list \<Rightarrow> path_entry \<Rightarrow> fs_tree \<Rightarrow> fs_tree" where
  "tree_set q e T = (\<lambda>segs. if segs = q then Some e else if strict_prefix q segs then None else T segs)"

definition tree_del :: "string list \<Rightarrow> fs_tree \<Rightarrow> fs_tree" where
  "tree_del q T = (\<lambda>segs. if prefix q segs then None else T segs)"

definition tree_move :: "string list \<Rightarrow> string list \<Rightarrow> fs_tree \<Rightarrow> fs_tree" where
  "tree_move src dst T = (\<lambda>segs.
     if prefix dst segs then T (src @ drop (length dst) segs) else if prefix src segs then None else T segs)"

definition tree_patch :: "int \<Rightarrow> (path_entry \<Rightarrow> path_entry) \<Rightarrow> fs_tree \<Rightarrow> fs_tree" where
  "tree_patch i f T = (\<lambda>segs. map_option (\<lambda>e. if pe_inode e = i then f e else e) (T segs))"

section \<open>Walks in a well-formed database\<close>

lemma db_lookup_Some:
  assumes "wf_off off d" and "root_of d sid = Some r" and "walk d r segs = Some i"
  obtains row where "node d i = Some row" and "i_sandbox row = sid" and "db_lookup d r segs = Some (entry_of_row i row)"
  using wf_walk_node [OF assms] assms(3) by (auto simp: db_lookup_def)

lemma db_lookup_walk:
  "wf_off off d \<Longrightarrow> root_of d sid = Some r \<Longrightarrow> db_lookup d r segs = Some e \<Longrightarrow> walk d r segs = Some (pe_inode e)"
  by (auto simp: db_lookup_def entry_of_row_def split: option.splits)

lemma db_lookup_row:
  "db_lookup d r segs = Some e \<Longrightarrow> \<exists>row. node d (pe_inode e) = Some row \<and> e = entry_of_row (pe_inode e) row"
  by (auto simp: db_lookup_def entry_of_row_def split: option.splits)

lemma walk_last_link:
  assumes "walk d r segs = Some i" and "i \<noteq> r"
  obtains qs q m where "segs = qs @ [m]" and "walk d r qs = Some q" and "(q, m) \<in> links d i"
  using assms by (cases segs rule: rev_cases) (auto simp: walkc_snoc mem_links_child split: option.splits)

lemma wf_only_path:
  assumes wf: "wf_db d" and root: "root_of d sid = Some r" and ps: "walk d r ps = Some p"
    and one: "links d i = {(p, n)}" and segs: "walk d r segs = Some i" and dir: "dir_of sid p d"
  shows "segs = ps @ [n]"
proof -
  have "links d r = {}" using wf root by (auto intro!: wf_root_no_links simp: is_root_def)
  then have "i \<noteq> r" using one by auto
  then obtain qs q m where q: "segs = qs @ [m]" "walk d r qs = Some q" "(q, m) \<in> links d i"
    by (rule walk_last_link [OF segs])
  then have "q = p" "m = n" using one by auto
  moreover from this have "qs = ps"
    using wf_dir_unique_path [OF wf root _ _ _ ps] q(2) dir by (auto simp: dir_of_def)
  ultimately show ?thesis using q(1) by simp
qed

section \<open>Refinement of the database updates\<close>

lemma lookup_set_leaf:
  assumes wf: "wf_db d" and root: "root_of d sid = Some r" and ps: "walk d r ps = Some p" and dir: "dir_of sid p d"
    and ch: "child d' = set_child (child d) p n (Some i)" and leaf: "\<And>m. child d i m = None" and ne: "i \<noteq> p"
    and new: "node d' i = Some row"
    and rest: "\<And>segs j. walk d r segs = Some j \<Longrightarrow> segs \<noteq> ps @ [n] \<Longrightarrow>
      map_option (entry_of_row j) (node d' j) = map_option (entry_of_row j) (node d j)"
  shows "db_lookup d' r = tree_set (ps @ [n]) (entry_of_row i row) (db_lookup d r)"
proof
  fix segs
  obtain pr where pr: "node d p = Some pr" "i_kind pr = DIRECTORY" using dir by (auto simp: dir_of_def)
  have uniq: "walk d r qs = Some p \<Longrightarrow> qs = ps" for qs
    using wf_dir_unique_path [OF wf root pr] ps by blast
  show "db_lookup d' r segs = tree_set (ps @ [n]) (entry_of_row i row) (db_lookup d r) segs"
    using walkc_set_leaf [OF ps uniq leaf ne, of n segs] rest new
    by (auto simp: db_lookup_def tree_set_def ch split: option.split)
qed

lemma lookup_add_node:
  assumes wf: "wf_db d" and root: "root_of d sid = Some r" and ps: "walk d r ps = Some p" and dir: "dir_of sid p d"
  shows "db_lookup (add_node sid p n row d) r = tree_set (ps @ [n]) (entry_of_row (inode_seq d) row) (db_lookup d r)"
proof (rule lookup_set_leaf [OF wf root ps dir child_add_node])
  have fresh: "node d (inode_seq d) = None" using wf by (rule wf_fresh)
  show "child d (inode_seq d) m = None" for m using wf_nondir_no_child [OF wf] fresh by blast
  show "inode_seq d \<noteq> p" using fresh dir by (auto simp: dir_of_def)
  show "map_option (entry_of_row j) (node (add_node sid p n row d) j) = map_option (entry_of_row j) (node d j)"
    if "walk d r segs = Some j" for segs j
    using wf_walk_node [OF wf root that] fresh by auto
qed simp

lemma entry_of_row_nlink [simp]: "entry_of_row i (r\<lparr>i_nlink := x\<rparr>) = entry_of_row i r"
  by (simp add: entry_of_row_def)

lemma wf_links_one:
  assumes "wf_db d" and "child d p n = Some i" and "node d i = Some row" and "i_nlink row \<le> 1"
  shows "links d i = {(p, n)}"
proof -
  have mem: "(p, n) \<in> links d i" using assms(2) by (simp add: mem_links_child)
  have "card (links d i) \<le> 1"
    using wf_linked(1) [OF assms(1,2)] assms(3,4) by (simp add: link_count_def)
  then have "k = (p, n)" if "k \<in> links d i" for k
    using mem that card_le_Suc0_iff_eq [OF finite_links, of d i] by auto
  then show ?thesis using mem by blast
qed

lemma lookup_replace_node:
  assumes wf: "wf_db d" and root: "root_of d sid = Some r" and ps: "walk d r ps = Some p" and dir: "dir_of sid p d"
    and n: "valid_name n" and row: "i_sandbox row = sid" "i_nlink row = 1"
    and leaf: "\<And>i m. child d p n = Some i \<Longrightarrow> child d i m = None"
  shows "db_lookup (replace_node sid p n row d) r = tree_set (ps @ [n]) (entry_of_row (inode_seq d) row) (db_lookup d r)"
proof (rule lookup_set_leaf [OF wf root ps dir])
  have fresh: "node d (inode_seq d) = None" using wf by (rule wf_fresh)
  show "child (replace_node sid p n row d) = set_child (child d) p n (Some (inode_seq d))"
    by (rule wf_replace_node(2) [OF wf dir n row leaf])
  show "child d (inode_seq d) m = None" for m using wf_nondir_no_child [OF wf] fresh by blast
  show "inode_seq d \<noteq> p" using fresh dir by (auto simp: dir_of_def)
  have old: "node d i \<noteq> None" if "child d p n = Some i" for i
    using wf_linked(1) [OF wf that] by auto
  show "node (replace_node sid p n row d) (inode_seq d) = Some row"
    using old fresh by (auto simp: replace_node_def node_unlink_db split: option.split)
  show "map_option (entry_of_row j) (node (replace_node sid p n row d) j) = map_option (entry_of_row j) (node d j)"
    if w: "walk d r segs = Some j" and ne: "segs \<noteq> ps @ [n]" for segs j
  proof -
    have j: "j \<noteq> inode_seq d" using wf_walk_node [OF wf root w] fresh by auto
    have "\<not> i_nlink jr \<le> 1" if "child d p n = Some j" "node d j = Some jr" for jr
      using wf_only_path [OF wf root ps wf_links_one [OF wf that] w dir] ne by auto
    then show ?thesis using j by (auto simp: replace_node_def node_unlink_db split: option.split)
  qed
qed

lemma lookup_remove_entry:
  assumes wf: "wf_db d" and root: "root_of d sid = Some r" and ps: "walk d r ps = Some p" and dir: "dir_of sid p d"
    and ch: "child d p n = Some i" and leaf: "\<And>m. child d i m = None"
  shows "db_lookup (remove_entry p n d) r = tree_del (ps @ [n]) (db_lookup d r)"
proof
  fix segs
  obtain pr where pr: "node d p = Some pr" "i_kind pr = DIRECTORY" using dir by (auto simp: dir_of_def)
  have uniq: "walk d r qs = Some p \<Longrightarrow> qs = ps" for qs
    using wf_dir_unique_path [OF wf root pr] ps by blast
  have walk: "walk (remove_entry p n d) r segs = (if prefix (ps @ [n]) segs then None else walk d r segs)"
    using walkc_remove [OF ps uniq] by (simp add: wf_remove_entry(2) [OF wf ch leaf])
  have rest: "map_option (entry_of_row j) (node (remove_entry p n d) j) = map_option (entry_of_row j) (node d j)"
    if w: "walk d r segs = Some j" and ne: "\<not> prefix (ps @ [n]) segs" for j
  proof -
    have "\<not> i_nlink jr \<le> 1" if "child d p n = Some j" "node d j = Some jr" for jr
      using wf_only_path [OF wf root ps wf_links_one [OF wf that] w dir] ne by auto
    then show ?thesis using ch by (auto simp: remove_entry_def node_unlink_db split: option.split)
  qed
  show "db_lookup (remove_entry p n d) r segs = tree_del (ps @ [n]) (db_lookup d r) segs"
    using walk rest by (auto simp: db_lookup_def tree_del_def split: option.split)
qed

lemma lookup_patch:
  assumes "node d i = Some row" and "entry_of_row i row' = f (entry_of_row i row)"
  shows "db_lookup (put_inode i row' d) r = tree_patch i f (db_lookup d r)"
proof
  fix segs
  have id: "pe_inode (entry_of_row j x) = j" for j x by (simp add: entry_of_row_def)
  show "db_lookup (put_inode i row' d) r segs = tree_patch i f (db_lookup d r) segs"
    using assms by (auto simp: db_lookup_def tree_patch_def option.map_comp o_def id split: option.split)
qed

lemma lookup_add_link:
  assumes wf: "wf_db d" and root: "root_of d sid = Some r" and ps: "walk d r ps = Some p" and dir: "dir_of sid p d"
    and row: "node d i = Some row" "i_kind row \<noteq> DIRECTORY"
  shows "db_lookup (add_link sid p n i row d) r = tree_set (ps @ [n]) (entry_of_row i row) (db_lookup d r)"
proof -
  have "db_lookup (add_link sid p n i row d) r =
      tree_set (ps @ [n]) (entry_of_row i (row\<lparr>i_nlink := i_nlink row + 1\<rparr>)) (db_lookup d r)"
  proof (rule lookup_set_leaf [OF wf root ps dir])
    show "child (add_link sid p n i row d) = set_child (child d) p n (Some i)"
      by (simp add: add_link_def child_put_dirent)
    show "child d i m = None" for m using wf_nondir_no_child [OF wf] row by blast
    show "i \<noteq> p" using row dir by (auto simp: dir_of_def)
    show "node (add_link sid p n i row d) i = Some (row\<lparr>i_nlink := i_nlink row + 1\<rparr>)" by (simp add: add_link_def)
    show "map_option (entry_of_row j) (node (add_link sid p n i row d) j) = map_option (entry_of_row j) (node d j)" for j
      using row by (simp add: add_link_def)
  qed
  then show ?thesis by simp
qed

text \<open>A subtree moves as a whole when its new place is not below it.\<close>

lemma walk_move:
  assumes wf: "wf_db d" and root: "root_of d sid = Some r" and ss: "walk d r ss = Some sp" and sdir: "dir_of sid sp d"
    and src: "child d sp sn = Some i" and ds: "walk d r ds = Some dp" and ddir: "dir_of sid dp d"
    and out: "\<not> prefix (ss @ [sn]) ds"
  shows "walkc (set_child (set_child (child d) sp sn None) dp dn (Some i)) r segs =
    (if prefix (ds @ [dn]) segs then walk d r ((ss @ [sn]) @ drop (length (ds @ [dn])) segs)
     else if prefix (ss @ [sn]) segs then None else walk d r segs)"
proof -
  let ?c1 = "set_child (child d) sp sn None"
  have us: "walk d r qs = Some sp \<Longrightarrow> qs = ss" and ud: "walk d r qs = Some dp \<Longrightarrow> qs = ds" for qs
    using wf_dir_unique_path [OF wf root _ _ _ ss] wf_dir_unique_path [OF wf root _ _ _ ds] sdir ddir
    by (auto simp: dir_of_def)
  have c1: "walkc ?c1 r qs = (if prefix (ss @ [sn]) qs then None else walk d r qs)" for qs
    using walkc_remove [OF ss us] .
  have at: "walkc ?c1 r ds = Some dp" using ds out c1 by simp
  have un: "walkc ?c1 r qs = Some dp \<Longrightarrow> qs = ds" for qs using ud c1 by (auto split: if_splits)
  have src': "walk d r (ss @ sn # a) = walk d i a" for a using ss src by (simp add: walkc_append)
  have below: "walkc (set_child ?c1 dp dn (Some i)) i rest = walk d i rest" for rest
  proof -
    have 1: "walkc ?c1 i xs = walk d i xs" for xs
    proof (rule walkc_set_child_other)
      fix a b assume "xs = a @ sn # b"
      show "walk d i a \<noteq> Some sp" using us [of "ss @ sn # a"] src' [of a] by auto
    qed
    have "walkc (set_child ?c1 dp dn (Some i)) i rest = walkc ?c1 i rest"
    proof (rule walkc_set_child_other)
      fix a b assume "rest = a @ dn # b"
      show "walkc ?c1 i a \<noteq> Some dp" using ud [of "ss @ sn # a"] src' [of a] out 1 [of a] by auto
    qed
    then show ?thesis using 1 by simp
  qed
  show ?thesis
    using walkc_set_child [OF at un, of dn "Some i" segs] below src' c1 by simp
qed

lemma lookup_move_entry:
  assumes "wf_db d" and "root_of d sid = Some r" and "walk d r ss = Some sp" and "dir_of sid sp d"
    and x: "map_of (dirents d) (sp, sn) = Some x" and "walk d r ds = Some dp" and "dir_of sid dp d"
    and "\<not> prefix (ss @ [sn]) ds"
  shows "db_lookup (move_entry (sp, sn) (dp, dn) x d) r = tree_move (ss @ [sn]) (ds @ [dn]) (db_lookup d r)"
proof
  fix segs
  have ch: "child d sp sn = Some (d_inode x)" using x by (simp add: child_def)
  have "walk (move_entry (sp, sn) (dp, dn) x d) r segs =
    (if prefix (ds @ [dn]) segs then walk d r ((ss @ [sn]) @ drop (length (ds @ [dn])) segs)
     else if prefix (ss @ [sn]) segs then None else walk d r segs)"
    using walk_move [OF assms(1-4) ch assms(6-8)]
    by (simp add: move_entry_def child_put_dirent child_del_dirent)
  then show "db_lookup (move_entry (sp, sn) (dp, dn) x d) r segs = tree_move (ss @ [sn]) (ds @ [dn]) (db_lookup d r) segs"
    by (auto simp: db_lookup_def tree_move_def move_entry_def split: option.split)
qed

end
