(* ===== verification/Frame.thy ===== *)
theory Frame
  imports View
begin

text \<open>
  What publication leaves alone: \<open>publishMutation\<close>, \<open>publishScope\<close> and the content cache change
  only the view (paths, bytes, epoch, dirty flag) and the content cache of a session. \<open>core s\<close> is
  the rest of the session.
\<close>

definition core :: "session \<Rightarrow> session" where
  "core s = s\<lparr>v_cache := [], v_bytes := 0, c_cache := [], v_epoch := 0, v_dirty := False\<rparr>"

lemma core_fields:
  "s_db (core s) = s_db s"
  "s_now (core s) = s_now s"
  "s_env (core s) = s_env s"
  "s_sandbox (core s) = s_sandbox s"
  "v_poisoned (core s) = v_poisoned s"
  "p_scope (core s) = p_scope s"
  "p_scope_gen (core s) = p_scope_gen s"
  "p_script_epoch (core s) = p_script_epoch s"
  "p_lost (core s) = p_lost s"
  "p_journal (core s) = p_journal s"
  "p_remap (core s) = p_remap s"
  "p_next_id (core s) = p_next_id s"
  "f_guard (core s) = f_guard s"
  "f_owner_lost (core s) = f_owner_lost s"
  "f_readonly (core s) = f_readonly s"
  "c_generation (core s) = c_generation s"
  "f_exec (core s) = f_exec s"
  "p_journal_bytes (core s) = p_journal_bytes s"
  "p_max_ops (core s) = p_max_ops s"
  "p_max_bytes (core s) = p_max_bytes s"
  "f_allow_symlinks (core s) = f_allow_symlinks s"
  "f_ro_violated (core s) = f_ro_violated s"
  by (simp_all add: core_def)

lemma core_eq_fields:
  assumes "core s' = core s"
  shows "s_db s' = s_db s" "s_now s' = s_now s" "s_env s' = s_env s" "s_sandbox s' = s_sandbox s"
     "v_poisoned s' = v_poisoned s" "p_scope s' = p_scope s" "p_scope_gen s' = p_scope_gen s" "p_script_epoch s' = p_script_epoch s"
     "p_lost s' = p_lost s" "p_journal s' = p_journal s" "p_remap s' = p_remap s" "p_next_id s' = p_next_id s"
     "f_guard s' = f_guard s" "f_owner_lost s' = f_owner_lost s" "f_readonly s' = f_readonly s" "c_generation s' = c_generation s"
     "f_exec s' = f_exec s" "p_journal_bytes s' = p_journal_bytes s" "p_max_ops s' = p_max_ops s" "p_max_bytes s' = p_max_bytes s"
     "f_allow_symlinks s' = f_allow_symlinks s" "f_ro_violated s' = f_ro_violated s"
  by (metis core_fields assms)+

lemma core_view_updates [simp]:
  "core (s\<lparr>v_cache := a\<rparr>) = core s" "core (s\<lparr>v_bytes := b\<rparr>) = core s" "core (s\<lparr>c_cache := c\<rparr>) = core s"
  "core (s\<lparr>v_epoch := e\<rparr>) = core s" "core (s\<lparr>v_dirty := x\<rparr>) = core s"
  by (simp_all add: core_def)

lemma core_fold: "(\<And>x s. x \<in> set xs \<Longrightarrow> core (f x s) = core s) \<Longrightarrow> core (fold f xs s) = core s"
  by (induction xs arbitrary: s) auto

lemma core_cacheSet [simp]: "core (cacheSet k e s) = core s"
  by (simp add: cacheSet_def)

lemma core_cacheDelete [simp]: "core (cacheDelete k s) = core s"
  by (simp add: cacheDelete_def split: option.split)

lemma core_updateCacheByInode [simp]: "core (updateCacheByInode i u s) = core s"
  unfolding updateCacheByInode_def by (rule core_fold) (auto split: prod.split)

lemma core_contents [simp]: "core (contents_evict i s) = core s" "core (contents_put i b s) = core s"
  by (simp_all add: contents_evict_def contents_put_def)

lemma core_contents_remap [simp]: "core (contents_remap ids s) = core s"
  unfolding contents_remap_def by (rule core_fold) (auto simp: Let_def split: prod.split option.split)

lemma core_apply_path_change [simp]: "core (apply_path_change c s) = core s"
  by (cases c) simp_all

lemma core_apply_content_change [simp]: "core (apply_content_change c s) = core s"
  by (cases c) simp_all

lemma core_publish_epoch [simp]: "core (publish_epoch pub s) = core s"
  by (simp add: publish_epoch_def split: publication.split)

lemma core_publishMutation [simp]: "core (publishMutation pub ps cs complete s) = core s"
  by (simp add: publishMutation_def Let_def core_fold)

lemmas publishMutation_fields [simp] = core_eq_fields [OF core_publishMutation]

lemma core_publishScope: "publishScope epoch remap s = (r, s') \<Longrightarrow> core s' = core s"
  by (auto simp: publishScope_def Let_def split: option.splits if_splits prod.splits intro!: core_fold)

lemma and_then_assertAlive:
  "and_then assertAlive k s = (case alive_verdict s of Inl e \<Rightarrow> (Inl e, s) | Inr u \<Rightarrow> k u s)"
  by (simp add: assertAlive_def and_then_def split: sum.split)

section \<open>The path cache after a publication\<close>

lemma v_cache_contents [simp]:
  "v_cache (contents_evict i s) = v_cache s" "v_cache (contents_put i b s) = v_cache s"
  by (simp_all add: contents_evict_def contents_put_def)

lemma v_cache_content_changes [simp]: "v_cache (fold apply_content_change cs s) = v_cache s"
proof (induction cs arbitrary: s)
  case (Cons c cs)
  then show ?case by (cases c) simp_all
qed simp

fun cache_change :: "path_change \<Rightarrow> path_rows \<Rightarrow> path_rows" where
  "cache_change (SetPath p e) c = AList.update p e c"
| "cache_change (DeletePath p) c = AList.delete p c"
| "cache_change (PatchInode i u) c = map (\<lambda>(p, e). (p, if pe_inode e = i then patch_entry u e else e)) c"

lemma v_cache_publishMutation_paths:
  "v_cache (publishMutation pub ps cs complete s) = v_cache (fold apply_path_change ps s)"
  by (simp add: publishMutation_def Let_def publish_epoch_def split: publication.split)

lemma v_cache_cacheSet [simp]: "v_cache (cacheSet k e s) = AList.update k e (v_cache s)"
  by (simp add: cacheSet_def)

lemma v_cache_cacheDelete [simp]: "v_cache (cacheDelete k s) = AList.delete k (v_cache s)"
proof (cases "map_of (v_cache s) k")
  case None
  then have "k \<notin> fst ` set (v_cache s)" by (simp add: map_of_eq_None_iff)
  then have "filter (\<lambda>(k', uu). k \<noteq> k') (v_cache s) = v_cache s" by (intro filter_True) force
  then show ?thesis using None by (simp add: cacheDelete_def AList.delete_eq)
qed (simp add: cacheDelete_def)

text \<open>
  Rewriting every matching entry of a map while iterating over it is a map over its entries: the
  lemma behind \<open>#updateCacheByInode\<close> and \<open>publishScope\<close>.
\<close>

lemma update_in_place:
  assumes "distinct (map fst t)" and "(k, v) \<in> set t"
  shows "AList.update k w t = map (\<lambda>(k', v'). (k', if k' = k then w else v')) t"
  using assms
proof (induction t)
  case (Cons a t)
  obtain k' v' where a: "a = (k', v')" by (cases a)
  show ?case
  proof (cases "k' = k")
    case True
    then have "map (\<lambda>(k', v'). (k', if k' = k then w else v')) t = t"
      using Cons.prems a by (intro map_idI) (force split: prod.split)
    then show ?thesis using a True by simp
  qed (use Cons a in auto)
qed simp

lemma fold_rewrite_entries:
  assumes "distinct (map fst (v_cache s))" and "set xs \<subseteq> set (v_cache s)" and "distinct (map fst xs)"
  shows "v_cache (fold (\<lambda>(p, e) s. if P e then cacheSet p (f e) s else s) xs s) =
    map (\<lambda>(p, e). (p, if p \<in> fst ` set xs \<and> P e then f e else e)) (v_cache s)"
  using assms
proof (induction xs rule: rev_induct)
  case Nil
  then show ?case by (simp add: case_prod_unfold)
next
  case (snoc x xs)
  obtain p e where x: "x = (p, e)" by (cases x)
  let ?s = "fold (\<lambda>(p, e) s. if P e then cacheSet p (f e) s else s) xs s"
  let ?g = "\<lambda>(p', e'). (p', if p' \<in> fst ` set xs \<and> P e' then f e' else e')"
  have IH: "v_cache ?s = map ?g (v_cache s)" using snoc by simp
  have p: "p \<notin> fst ` set xs" using snoc.prems(3) x by auto
  have mem: "(p, e) \<in> set (v_cache s)" using snoc.prems(2) x by auto
  have keys: "map fst (map ?g (v_cache s)) = map fst (v_cache s)" by (simp add: case_prod_unfold)
  have uniq: "e' = e" if "(p, e') \<in> set (v_cache s)" for e'
    using that mem snoc.prems(1) by (metis eq_key_imp_eq_value)
  show ?case
  proof (cases "P e")
    case False
    then show ?thesis using x IH p uniq by (auto simp: case_prod_unfold)
  next
    case True
    have "?g (p, e) \<in> set (map ?g (v_cache s))" unfolding set_map by (rule imageI [OF mem])
    then have "(p, e) \<in> set (map ?g (v_cache s))" using p by simp
    then have "AList.update p (f e) (map ?g (v_cache s)) =
        map (\<lambda>(k', v'). (k', if k' = p then f e else v')) (map ?g (v_cache s))"
      by (intro update_in_place) (simp_all only: keys snoc.prems(1))
    then show ?thesis using x IH True p uniq by (auto simp: case_prod_unfold)
  qed
qed

lemma v_cache_updateCacheByInode:
  assumes "distinct (map fst (v_cache s))"
  shows "v_cache (updateCacheByInode i u s) = cache_change (PatchInode i u) (v_cache s)"
proof -
  have "v_cache (updateCacheByInode i u s) =
      map (\<lambda>(p, e). (p, if p \<in> fst ` set (v_cache s) \<and> pe_inode e = i then patch_entry u e else e)) (v_cache s)"
    unfolding updateCacheByInode_def using fold_rewrite_entries [OF assms order_refl assms] .
  also have "\<dots> = cache_change (PatchInode i u) (v_cache s)"
    by (auto simp: case_prod_unfold)
  finally show ?thesis .
qed

lemma distinct_cache_change: "distinct (map fst c) \<Longrightarrow> distinct (map fst (cache_change ch c))"
  by (cases ch) (auto simp: distinct_update distinct_delete case_prod_unfold o_def)

lemma v_cache_path_changes:
  "distinct (map fst (v_cache s)) \<Longrightarrow> v_cache (fold apply_path_change ps s) = fold cache_change ps (v_cache s)"
proof (induction ps arbitrary: s)
  case (Cons c ps)
  have "v_cache (apply_path_change c s) = cache_change c (v_cache s)"
    using Cons.prems by (cases c) (simp_all add: v_cache_updateCacheByInode)
  then show ?case using Cons distinct_cache_change [OF Cons.prems, of c] by simp
qed simp

lemma v_cache_publishMutation:
  "distinct (map fst (v_cache s)) \<Longrightarrow>
     v_cache (publishMutation pub ps cs complete s) = fold cache_change ps (v_cache s)"
  by (simp add: v_cache_publishMutation_paths v_cache_path_changes)

lemma v_epoch_publishMutation [simp]:
  "v_epoch (publishMutation pub ps cs complete s) =
     (case pub of Recorded \<Rightarrow> v_epoch s | Committed e \<Rightarrow> e)"
proof -
  have 1: "v_epoch (fold apply_content_change cs s) = v_epoch s" for s
  proof (induction cs arbitrary: s)
    case (Cons c cs)
    then show ?case by (cases c) (simp_all add: contents_evict_def contents_put_def)
  qed simp
  have 2: "v_epoch (cacheSet k e s) = v_epoch s" "v_epoch (cacheDelete k s) = v_epoch s" for k e s
    by (simp_all add: cacheSet_def cacheDelete_def split: option.split)
  have 3: "v_epoch (fold (\<lambda>(p, e) s. if pe_inode e = i then cacheSet p (patch_entry u e) s else s) xs s) = v_epoch s"
    for i u xs s by (induction xs arbitrary: s) (auto simp: 2)
  have 4: "v_epoch (fold apply_path_change ps s) = v_epoch s" for s
  proof (induction ps arbitrary: s)
    case (Cons c ps)
    then show ?case by (cases c) (simp_all add: 2 3 updateCacheByInode_def)
  qed simp
  show ?thesis
    by (simp add: publishMutation_def Let_def publish_epoch_def 1 4 split: publication.split)
qed

end
