(* ===== verification/Coherence.thy ===== *)
theory Coherence
  imports FsTree Frame
begin

text \<open>
  When the path cache and the committed tree say the same. Provisional inode ids of an open scope
  are related to real ones by a renaming \<open>\<rho>\<close> (the identity outside a scope); modification times are
  not compared, because the cache stamps them when the call is made and the database when the
  statement runs. Each abstract tree operation is matched by the cache changes the source makes.
\<close>

definition norm_entry :: "(int \<Rightarrow> int) \<Rightarrow> path_entry \<Rightarrow> path_entry" where
  "norm_entry \<rho> e = e\<lparr>pe_inode := \<rho> (pe_inode e), pe_mtime := 0\<rparr>"

definition cohere :: "(int \<Rightarrow> int) \<Rightarrow> path_rows \<Rightarrow> fs_tree \<Rightarrow> bool" where
  "cohere \<rho> c T \<longleftrightarrow> distinct (map fst c) \<and> (\<forall>p \<in> fst ` set c. normal_path p)
     \<and> (\<forall>segs. valid_names segs \<longrightarrow>
          map_option (norm_entry \<rho>) (map_of c (path_of segs)) = map_option (norm_entry id) (T segs))"

definition inos :: "path_rows \<Rightarrow> int set" where
  "inos c = pe_inode ` snd ` set c"

lemma cohere_distinct: "cohere \<rho> c T \<Longrightarrow> distinct (map fst c)"
  by (simp add: cohere_def)

lemma cohere_normal: "cohere \<rho> c T \<Longrightarrow> map_of c p = Some e \<Longrightarrow> normal_path p"
  by (force simp: cohere_def dest: map_of_SomeD)

lemma cohere_at:
  "cohere \<rho> c T \<Longrightarrow> valid_names segs \<Longrightarrow>
     map_option (norm_entry \<rho>) (map_of c (path_of segs)) = map_option (norm_entry id) (T segs)"
  by (simp add: cohere_def)

lemma cohere_None: "cohere \<rho> c T \<Longrightarrow> valid_names segs \<Longrightarrow> map_of c (path_of segs) = None \<longleftrightarrow> T segs = None"
  using cohere_at [of \<rho> c T segs] by (metis option.map_disc_iff)

lemma norm_entry_eqD:
  assumes "norm_entry \<rho> e = norm_entry id x"
  shows "pe_inode x = \<rho> (pe_inode e)" "pe_kind x = pe_kind e" "pe_mode x = pe_mode e" "pe_size x = pe_size e"
    "pe_sha x = pe_sha e" "pe_target x = pe_target e"
  using assms by (cases e; cases x; simp add: norm_entry_def)+

lemma cohere_Some:
  assumes "cohere \<rho> c T" and "valid_names segs" and "map_of c (path_of segs) = Some e"
  obtains x where "T segs = Some x" and "norm_entry \<rho> e = norm_entry id x"
  using cohere_at [OF assms(1,2)] assms(3) by (cases "T segs") auto

lemma cohere_Some':
  assumes "cohere \<rho> c T" and "valid_names segs" and "T segs = Some x"
  obtains e where "map_of c (path_of segs) = Some e" and "norm_entry \<rho> e = norm_entry id x"
  using cohere_at [OF assms(1,2)] assms(3) by (cases "map_of c (path_of segs)") auto

lemma inos_I: "map_of c p = Some e \<Longrightarrow> pe_inode e \<in> inos c"
  by (force simp: inos_def dest: map_of_SomeD)

lemma inos_E:
  assumes "i \<in> inos c" and "distinct (map fst c)"
  obtains p e where "map_of c p = Some e" and "pe_inode e = i"
  using assms by (force simp: inos_def)

lemma inos_update: "inos (AList.update p e c) \<subseteq> insert (pe_inode e) (inos c)"
proof -
  have "snd ` set (AList.update p e c) \<subseteq> insert e (snd ` set c)" by (induction c) auto
  then show ?thesis by (auto simp: inos_def)
qed

lemma inos_subset: "set c' \<subseteq> set c \<Longrightarrow> inos c' \<subseteq> inos c"
  by (auto simp: inos_def)

lemma norm_entry_cong: "\<rho>' (pe_inode e) = \<rho> (pe_inode e) \<Longrightarrow> norm_entry \<rho>' e = norm_entry \<rho> e"
  by (simp add: norm_entry_def)

lemma cohere_rename:
  assumes "cohere \<rho> c T" and "\<And>i. i \<in> inos c \<Longrightarrow> \<rho>' i = \<rho> i"
  shows "cohere \<rho>' c T"
  using assms unfolding cohere_def
  by (metis (mono_tags, lifting) inos_I norm_entry_cong option.map_cong option.set_cases)

section \<open>Setting, deleting and patching entries\<close>

lemma cohere_set:
  assumes co: "cohere \<rho> c T" and q: "valid_names q" and below: "\<And>segs. strict_prefix q segs \<Longrightarrow> T segs = None"
    and e: "norm_entry \<rho>' e = norm_entry id x" and \<rho>': "\<And>i. i \<in> inos c \<Longrightarrow> \<rho>' i = \<rho> i"
  shows "cohere \<rho>' (AList.update (path_of q) e c) (tree_set q x T)"
proof -
  have co': "cohere \<rho>' c T" by (rule cohere_rename [OF co \<rho>'])
  show ?thesis
    unfolding cohere_def
  proof (intro conjI allI impI)
    show "distinct (map fst (AList.update (path_of q) e c))"
      using cohere_distinct [OF co] by (rule distinct_update)
    show "\<forall>p \<in> fst ` set (AList.update (path_of q) e c). normal_path p"
      using co q by (auto simp: cohere_def update_keys dom_update)
    fix segs assume v: "valid_names segs"
    show "map_option (norm_entry \<rho>') (map_of (AList.update (path_of q) e c) (path_of segs)) =
        map_option (norm_entry id) (tree_set q x T segs)"
      using cohere_at [OF co' v] below [of segs] cohere_None [OF co' v] e q v by (auto simp: tree_set_def)
  qed
qed

lemma cohere_del:
  assumes co: "cohere \<rho> c T" and q: "valid_names q" and below: "\<And>segs. strict_prefix q segs \<Longrightarrow> T segs = None"
  shows "cohere \<rho> (AList.delete (path_of q) c) (tree_del q T)"
  unfolding cohere_def
proof (intro conjI allI impI)
  show "distinct (map fst (AList.delete (path_of q) c))"
    using cohere_distinct [OF co] by (rule distinct_delete)
  show "\<forall>p \<in> fst ` set (AList.delete (path_of q) c). normal_path p"
    using co by (auto simp: cohere_def AList.delete_eq)
  fix segs assume v: "valid_names segs"
  have "T segs = None" if "prefix q segs" "segs \<noteq> q" using below [of segs] that by (simp add: strict_prefix_def)
  then show "map_option (norm_entry \<rho>) (map_of (AList.delete (path_of q) c) (path_of segs)) =
      map_option (norm_entry id) (tree_del q T segs)"
    using cohere_at [OF co v] cohere_None [OF co v] q v by (auto simp: tree_del_def)
qed

text \<open>Patching by inode: the renaming must not merge two ids of the cache.\<close>

lemma cohere_patch:
  assumes co: "cohere \<rho> c T" and inj: "inj_on \<rho> (inos c)" and i: "i \<in> inos c"
    and f: "\<And>e x. norm_entry \<rho> e = norm_entry id x \<Longrightarrow> norm_entry \<rho> (patch_entry u e) = norm_entry id (f x)"
  shows "cohere \<rho> (cache_change (PatchInode i u) c) (tree_patch (\<rho> i) f T)"
  unfolding cohere_def
proof (intro conjI allI impI)
  let ?c = "cache_change (PatchInode i u) c"
  show "distinct (map fst ?c)" using cohere_distinct [OF co] by (rule distinct_cache_change)
  show "\<forall>p \<in> fst ` set ?c. normal_path p"
    using co by (auto simp: cohere_def)
  fix segs assume v: "valid_names segs"
  have at: "map_of ?c (path_of segs) = map_option (\<lambda>e. if pe_inode e = i then patch_entry u e else e) (map_of c (path_of segs))"
    using map_of_map_values [of "\<lambda>_ e. if pe_inode e = i then patch_entry u e else e" c] by simp
  show "map_option (norm_entry \<rho>) (map_of ?c (path_of segs)) = map_option (norm_entry id) (tree_patch (\<rho> i) f T segs)"
  proof (cases "map_of c (path_of segs)")
    case None
    then show ?thesis using at cohere_None [OF co v] by (simp add: tree_patch_def)
  next
    case (Some e)
    then obtain x where x: "T segs = Some x" "norm_entry \<rho> e = norm_entry id x"
      by (rule cohere_Some [OF co v])
    have "pe_inode x = \<rho> i \<longleftrightarrow> pe_inode e = i"
      using norm_entry_eqD(1) [OF x(2)] inj i inos_I [OF Some] by (auto dest: inj_onD)
    then show ?thesis using Some at x f [OF x(2)] by (simp add: tree_patch_def)
  qed
qed

end
