(* ===== verification/Lifecycle.thy ===== *)
theory Lifecycle
  imports FsTree
begin

text \<open>
  The sandbox lifecycle of \<open>sandbox.ts\<close>: creation builds a well-formed tree with the five standard
  directories, deletion removes exactly the sandbox's rows, and the epochs of one id grow strictly
  across incarnations, so that nothing pinned on an old incarnation matches a later one.
\<close>

definition empty_db :: db where
  "empty_db = \<lparr>sandboxes = [], sandbox_epochs = [], inodes = [], dirents = [], blobs = [], inode_seq = 1\<rparr>"

lemma wf_empty_db: "wf_db empty_db"
  by (simp add: empty_db_def wf_off_def wf_keys_def wf_ids_def wf_entries_def wf_dirs_def wf_roots_def
      wf_links_def node_def root_of_def)

section \<open>Creation\<close>

definition put_sandbox :: "string \<Rightarrow> sandbox_row \<Rightarrow> db \<Rightarrow> db" where
  "put_sandbox sid s d = d\<lparr>sandboxes := AList.update sid s (sandboxes d)\<rparr>"

lemma put_sandbox_simps [simp]:
  "node (put_sandbox sid s d) = node d" "child (put_sandbox sid s d) = child d" "inode_seq (put_sandbox sid s d) = inode_seq d"
  "dirents (put_sandbox sid s d) = dirents d" "inodes (put_sandbox sid s d) = inodes d" "links (put_sandbox sid s d) = links d"
  "sandbox_epochs (put_sandbox sid s d) = sandbox_epochs d"
  by (simp_all add: put_sandbox_def fun_eq_iff links_def)

lemma root_of_put_sandbox [simp]: "root_of (put_sandbox sid s d) = (root_of d)(sid := sb_root s)"
  by (simp add: fun_eq_iff root_of_def put_sandbox_def)

lemma version_of_put_sandbox [simp]: "version_of (put_sandbox sid s d) = (version_of d)(sid := Some (sb_version s))"
  by (simp add: fun_eq_iff version_of_def put_sandbox_def)

lemma wf_put_sandbox:
  assumes wf: "wf_off off d" and new: "root_of d sid = None"
    and root: "\<And>r. sb_root s = Some r \<Longrightarrow> \<exists>row. node d r = Some row \<and> i_kind row = DIRECTORY \<and> i_sandbox row = sid \<and> links d r = {}"
  shows "wf_off (case sb_root s of None \<Rightarrow> off | Some r \<Rightarrow> off(r := 0)) (put_sandbox sid s d)"
proof -
  have ir: "is_root (put_sandbox sid s d) i \<longleftrightarrow> is_root d i \<or> sb_root s = Some i" for i
    using new unfolding is_root_def by (metis fun_upd_apply option.distinct(1) root_of_put_sandbox)
  show ?thesis
    unfolding wf_off_def
  proof (intro conjI)
    show "wf_keys (put_sandbox sid s d)"
      using wf by (simp add: wf_off_def wf_keys_def put_sandbox_def distinct_update)
    show "wf_ids (put_sandbox sid s d)" "wf_entries (put_sandbox sid s d)" "wf_dirs (put_sandbox sid s d)"
      using wf by (simp_all add: wf_off_def wf_ids_def wf_entries_def wf_dirs_def)
    show "wf_roots (put_sandbox sid s d)"
      using wf root by (auto simp: wf_off_def wf_roots_def)
    show "wf_links (case sb_root s of None \<Rightarrow> off | Some r \<Rightarrow> off(r := 0)) (put_sandbox sid s d)"
      using wf by (auto simp: wf_off_def wf_links_def link_count_def ir split: option.split)
  qed
qed

text \<open>\<open>createDirInode\<close> in a transaction without context.\<close>

lemma createDirInode_free:
  assumes "app_sandbox_id tx = []" and "map_of (sandboxes (t_db tx)) sid \<noteq> None" and "node (t_db tx) p \<noteq> None"
    and "child (t_db tx) p n = None"
  shows "createDirInode sid p n tx =
    (Inr (inode_seq (t_db tx)), on_db (add_node sid p n (new_inode_row sid DIRECTORY 493 0 None None (t_now tx))) tx)"
  using assms
  by (auto simp: createDirInode_def and_then_def insert_inode_def insert_dirent_row_def rls_ok_def Let_def
      new_inode_row_def node_def child_def put_inode_def add_node_def intro!: on_db_cong)

definition new_sandbox_row :: "string \<Rightarrow> int \<Rightarrow> int \<Rightarrow> int option \<Rightarrow> sandbox_row" where
  "new_sandbox_row owner now epoch root =
     \<lparr>sb_root = root, sb_owner = Some owner, sb_name = None, sb_python = False, sb_javascript = False,
      sb_network = False, sb_created_at = now, sb_version = epoch\<rparr>"

definition next_epoch :: "db \<Rightarrow> string \<Rightarrow> int" where
  "next_epoch d sid = (case map_of (sandbox_epochs d) sid of None \<Rightarrow> 0 | Some e \<Rightarrow> e + 1)"

definition seed_dir :: "string \<Rightarrow> int \<Rightarrow> inode_row" where
  "seed_dir sid now = new_inode_row sid DIRECTORY 493 0 None None now"

text \<open>The database a successful \<open>createSandbox\<close> leaves: the root at id \<open>i\<close>, then /home, /tmp, /bin and /home/user.\<close>

definition seeded :: "string \<Rightarrow> string \<Rightarrow> int \<Rightarrow> db \<Rightarrow> db" where
  "seeded sid owner now d =
     (let i = inode_seq d; row = seed_dir sid now;
          d0 = put_sandbox sid (new_sandbox_row owner now (next_epoch d sid) None)
                 (d\<lparr>sandbox_epochs := AList.update sid (next_epoch d sid) (sandbox_epochs d)\<rparr>);
          d1 = put_sandbox sid (new_sandbox_row owner now (next_epoch d sid) (Some i))
                 ((put_inode i row d0)\<lparr>inode_seq := i + 1\<rparr>)
      in add_node sid (i + 1) ''user'' row (add_node sid i ''bin'' row
           (add_node sid i ''tmp'' row (add_node sid i ''home'' row d1))))"

lemma inode_seq_add_node [simp]: "inode_seq (add_node sid p n r d) = inode_seq d + 1"
  by (simp add: add_node_def put_dirent_def)

lemma sandboxes_add_node [simp]: "sandboxes (add_node sid p n r d) = sandboxes d"
  by (simp add: add_node_def put_dirent_def put_inode_def)

definition seed_root :: "string \<Rightarrow> string \<Rightarrow> int \<Rightarrow> db \<Rightarrow> db" where
  "seed_root sid owner now d =
     (let i = inode_seq d;
          d0 = put_sandbox sid (new_sandbox_row owner now (next_epoch d sid) None)
                 (d\<lparr>sandbox_epochs := AList.update sid (next_epoch d sid) (sandbox_epochs d)\<rparr>)
      in put_sandbox sid (new_sandbox_row owner now (next_epoch d sid) (Some i))
           ((put_inode i (seed_dir sid now) d0)\<lparr>inode_seq := i + 1\<rparr>))"

definition seed_tail :: "string \<Rightarrow> int \<Rightarrow> 'a \<Rightarrow> 'a pg" where
  "seed_tail sid root result =
     and_then (createDirInode sid root ''home'') (\<lambda>home.
     and_then (createDirInode sid root ''tmp'') (\<lambda>_.
     and_then (createDirInode sid root ''bin'') (\<lambda>_.
     and_then (createDirInode sid home ''user'') (\<lambda>_.
     return_ok result))))"

lemma createSandbox_root:
  assumes "map_of (sandboxes d) sid = None"
  shows "createSandbox sid owner (begin_tx d now) =
    seed_tail sid (inode_seq d) (inode_seq d, now, next_epoch d sid)
      (on_db (\<lambda>_. seed_root sid owner now d) (lockd sid (begin_tx d now)))"
proof -
  let ?d0 = "put_sandbox sid (new_sandbox_row owner now (next_epoch d sid) None)
      (d\<lparr>sandbox_epochs := AList.update sid (next_epoch d sid) (sandbox_epochs d)\<rparr>)"
  let ?tx0 = "on_db (\<lambda>_. ?d0) (lockd sid (begin_tx d now))"
  let ?row = "new_sandbox_row owner now (next_epoch d sid) (Some (inode_seq d))"
  have ins: "insert_inode (new_inode_row sid DIRECTORY 493 0 None None (t_now ?tx0)) ?tx0 =
      (Inr (inode_seq d), on_db (\<lambda>_. (put_inode (inode_seq d) (seed_dir sid now) ?d0)\<lparr>inode_seq := inode_seq d + 1\<rparr>) ?tx0)"
    by (simp add: insert_inode_def rls_ok_def begin_tx_def new_inode_row_def seed_dir_def Let_def)
       (simp add: put_sandbox_def)
  have "createSandbox sid owner (begin_tx d now) =
      and_then (\<lambda>tx. insert_inode (new_inode_row sid DIRECTORY 493 0 None None (t_now tx)) tx) (\<lambda>root.
      and_then (modify (on_db (put_sandbox sid (new_sandbox_row owner now (next_epoch d sid) (Some root))))) (\<lambda>_.
      seed_tail sid root (root, now, next_epoch d sid))) ?tx0"
    using assms
    by (simp add: createSandbox_def and_then_def [of "takeWriterLock sid"] Let_def rls_ok_def begin_tx_def)
       (simp add: on_db_def lockd_def seed_tail_def next_epoch_def put_sandbox_def [abs_def] new_sandbox_row_def)
  also have "\<dots> = seed_tail sid (inode_seq d) (inode_seq d, now, next_epoch d sid)
      (on_db (put_sandbox sid ?row)
        (on_db (\<lambda>_. (put_inode (inode_seq d) (seed_dir sid now) ?d0)\<lparr>inode_seq := inode_seq d + 1\<rparr>) ?tx0))"
    using ins by (simp add: and_then_ok)
  also have "\<dots> = seed_tail sid (inode_seq d) (inode_seq d, now, next_epoch d sid)
      (on_db (\<lambda>_. seed_root sid owner now d) (lockd sid (begin_tx d now)))"
    by (simp add: seed_root_def Let_def)
  finally show ?thesis .
qed

lemma seed_root_facts:
  assumes wf: "wf_db d" and new: "map_of (sandboxes d) sid = None"
  shows "wf_db (seed_root sid owner now d)" and "dir_of sid (inode_seq d) (seed_root sid owner now d)"
    and "child (seed_root sid owner now d) (inode_seq d) = (\<lambda>n. None)"
    and "child (seed_root sid owner now d) (inode_seq d + 1) = (\<lambda>n. None)"
    and "inode_seq (seed_root sid owner now d) = inode_seq d + 1"
proof -
  let ?i = "inode_seq d"
  let ?d0 = "put_sandbox sid (new_sandbox_row owner now (next_epoch d sid) None)
      (d\<lparr>sandbox_epochs := AList.update sid (next_epoch d sid) (sandbox_epochs d)\<rparr>)"
  have r0: "root_of d sid = None" using new by (simp add: root_of_def)
  have w: "wf_db (d\<lparr>sandbox_epochs := x\<rparr>)" for x
    by (rule wf_ext [OF wf]) (use wf in \<open>simp_all add: wf_off_def wf_keys_def\<close>)
  have w0: "wf_db ?d0"
    using wf_put_sandbox [OF w, where sid = sid and s = "new_sandbox_row owner now (next_epoch d sid) None"] r0
    by (simp add: new_sandbox_row_def root_of_def)
  have w1: "wf_off ((\<lambda>_. 0)(?i := 1)) ((put_inode ?i (seed_dir sid now) ?d0)\<lparr>inode_seq := ?i + 1\<rparr>)"
    using wf_insert_inode [OF w0, of ?i "seed_dir sid now"] by (simp add: seed_dir_def new_inode_row_def)
  have nl: "links d ?i = {}" using wf_no_links_fresh [OF wf] .
  have "wf_off (((\<lambda>_. 0)(?i := 1))(?i := 0)) (seed_root sid owner now d)"
    using wf_put_sandbox [OF w1, where sid = sid and s = "new_sandbox_row owner now (next_epoch d sid) (Some ?i)"] nl
    by (simp add: seed_root_def Let_def) (simp add: new_sandbox_row_def seed_dir_def new_inode_row_def links_def)
  then show "wf_db (seed_root sid owner now d)" by (rule wf_off_cong [rotated]) simp
  show "dir_of sid ?i (seed_root sid owner now d)"
    by (simp add: dir_of_def seed_root_def Let_def seed_dir_def new_inode_row_def)
  have fresh: "node d (?i + k) = None" if "k \<ge> 0" for k
    using wf that unfolding wf_off_def wf_ids_def by (smt (verit) not_None_eq)
  have none: "child d (?i + k) n = None" if "k \<ge> 0" for k n
    using wf_nondir_no_child [OF wf] fresh [OF that] by blast
  have ch: "child (seed_root sid owner now d) = child d"
    by (simp add: seed_root_def Let_def child_def fun_eq_iff)
  show "child (seed_root sid owner now d) ?i = (\<lambda>n. None)" "child (seed_root sid owner now d) (?i + 1) = (\<lambda>n. None)"
    using none [of 0] none [of 1] by (simp_all add: ch fun_eq_iff)
  show "inode_seq (seed_root sid owner now d) = ?i + 1" by (simp add: seed_root_def Let_def)
qed

lemma createSandbox_seeded:
  assumes wf: "wf_db d" and new: "map_of (sandboxes d) sid = None"
  shows "run_transaction (createSandbox sid owner) d now =
    (Inr (inode_seq d, now, next_epoch d sid), seeded sid owner now d)"
proof -
  let ?i = "inode_seq d" and ?row = "seed_dir sid now" and ?d1 = "seed_root sid owner now d"
  let ?tx = "\<lambda>x. on_db (\<lambda>_. x) (lockd sid (begin_tx d now))"
  note f = seed_root_facts [OF assms, of owner now]
  have sb: "map_of (sandboxes ?d1) sid \<noteq> None" by (simp add: seed_root_def Let_def put_sandbox_def)
  have step: "createDirInode sid p n (?tx x) = (Inr (inode_seq x), ?tx (add_node sid p n ?row x))"
    if "map_of (sandboxes x) sid \<noteq> None" "node x p \<noteq> None" "child x p n = None" for p n x
    using createDirInode_free [of "?tx x" sid p n] that by (simp add: begin_tx_def seed_dir_def)
  have "node ?d1 ?i \<noteq> None" using f(2) by (auto simp: dir_of_def)
  then have "seed_tail sid ?i res (?tx ?d1) = (Inr res, ?tx (seeded sid owner now d))" for res :: "int \<times> int \<times> int"
    using f sb
    by (simp add: seed_tail_def and_then_def step child_add_node) (simp add: seeded_def seed_root_def Let_def)
  then show ?thesis using createSandbox_root [OF new] by (simp add: run_transaction_def)
qed

lemma wf_seeded:
  assumes wf: "wf_db d" and new: "map_of (sandboxes d) sid = None"
  shows "wf_db (seeded sid owner now d)"
proof -
  let ?i = "inode_seq d" and ?row = "seed_dir sid now" and ?d1 = "seed_root sid owner now d"
  note f = seed_root_facts [OF assms, of owner now]
  have row: "i_sandbox ?row = sid" "i_nlink ?row = 1" "i_kind ?row = DIRECTORY"
    by (simp_all add: seed_dir_def new_inode_row_def)
  have dir: "dir_of sid p (add_node sid q n ?row x)" if "dir_of sid p x \<or> p = inode_seq x" for p q n x
    using that row by (auto simp: dir_of_def)
  have v: "valid_name ''home''" "valid_name ''tmp''" "valid_name ''bin''" "valid_name ''user''"
    by (simp_all add: valid_name_def)
  have h: "wf_db (add_node sid ?i ''home'' ?row ?d1)"
    using f v row by (intro wf_add_node) simp_all
  have t: "wf_db (add_node sid ?i ''tmp'' ?row (add_node sid ?i ''home'' ?row ?d1))"
    using f v row h by (intro wf_add_node dir) (simp_all add: child_add_node)
  have b: "wf_db (add_node sid ?i ''bin'' ?row (add_node sid ?i ''tmp'' ?row (add_node sid ?i ''home'' ?row ?d1)))"
    using f v row t by (intro wf_add_node dir) (simp_all add: child_add_node dir)
  have "wf_db (add_node sid (?i + 1) ''user'' ?row
      (add_node sid ?i ''bin'' ?row (add_node sid ?i ''tmp'' ?row (add_node sid ?i ''home'' ?row ?d1))))"
    using f v row b by (intro wf_add_node dir) (simp_all add: child_add_node dir)
  then show ?thesis by (simp add: seeded_def seed_root_def Let_def)
qed

lemma seeded_root: "root_of (seeded sid owner now d) sid = Some (inode_seq d)"
    and seeded_version: "version_of (seeded sid owner now d) sid = Some (next_epoch d sid)"
    and seeded_epoch: "map_of (sandbox_epochs (seeded sid owner now d)) sid = Some (next_epoch d sid)"
  by (simp_all add: seeded_def Let_def new_sandbox_row_def) (simp add: add_node_def put_dirent_def put_inode_def put_sandbox_def)

section \<open>Deletion\<close>

lemma node_del_sandbox:
  assumes "wf_db d"
  shows "node (del_sandbox sid d) i = (case node d i of None \<Rightarrow> None | Some r \<Rightarrow> if i_sandbox r \<noteq> sid then Some r else None)"
  using assms map_of_filter_distinct [of "inodes d" "\<lambda>_ r. i_sandbox r \<noteq> sid" i]
  by (simp add: del_sandbox_def Let_def node_def wf_off_def wf_keys_def)

lemma dirents_del_sandbox:
  assumes wf: "wf_db d"
  shows "map_of (dirents (del_sandbox sid d)) k =
    (case map_of (dirents d) k of None \<Rightarrow> None | Some e \<Rightarrow> if d_sandbox e \<noteq> sid then Some e else None)"
proof -
  let ?gone = "set (map fst (filter (\<lambda>(i, r). i_sandbox r = sid) (inodes d)))"
  have gone: "i \<in> ?gone \<longleftrightarrow> (\<exists>r. node d i = Some r \<and> i_sandbox r = sid)" for i
    using wf by (force simp: node_def wf_off_def wf_keys_def)
  have own: "d_sandbox e \<noteq> sid \<Longrightarrow> fst k \<notin> ?gone \<and> d_inode e \<notin> ?gone" if e: "map_of (dirents d) k = Some e" for e
  proof -
    have "child d (fst k) (snd k) = Some (d_inode e)" using e by (simp add: child_def)
    from wf_child_entry [OF wf this] obtain pr cr where
      "node d (fst k) = Some pr" "i_sandbox pr = d_sandbox e" "node d (d_inode e) = Some cr" "i_sandbox cr = d_sandbox e"
      using e by (metis option.inject prod.collapse)
    then show "d_sandbox e \<noteq> sid \<Longrightarrow> fst k \<notin> ?gone \<and> d_inode e \<notin> ?gone" unfolding gone by auto
  qed
  have "map_of (dirents (del_sandbox sid d)) k = (case map_of (dirents d) k of None \<Rightarrow> None
      | Some e \<Rightarrow> if d_sandbox e \<noteq> sid \<and> fst k \<notin> ?gone \<and> d_inode e \<notin> ?gone then Some e else None)"
    using map_of_filter_distinct [of "dirents d" "\<lambda>k e. d_sandbox e \<noteq> sid \<and> fst k \<notin> ?gone \<and> d_inode e \<notin> ?gone" k] wf
    by (simp add: del_sandbox_def Let_def wf_off_def wf_keys_def)
  then show ?thesis using own by (simp split: option.split)
qed

lemma wf_del_sandbox:
  assumes wf: "wf_db d" shows "wf_db (del_sandbox sid d)"
proof -
  note nd = node_del_sandbox [OF wf] and dd = dirents_del_sandbox [OF wf]
  have root: "root_of (del_sandbox sid d) s = (if s = sid then None else root_of d s)" for s
    by (simp add: root_of_def del_sandbox_def Let_def)
  have links: "links (del_sandbox sid d) i = links d i" if r: "node d i = Some r" "i_sandbox r \<noteq> sid" for i r
  proof -
    have "d_sandbox e \<noteq> sid" if e: "map_of (dirents d) k = Some e" "d_inode e = i" for k e
    proof -
      have "child d (fst k) (snd k) = Some i" using e by (simp add: child_def)
      from wf_child_entry [OF wf this] show ?thesis using e r by (metis option.inject prod.collapse)
    qed
    then show ?thesis by (force simp: mem_links_iff set_eq_iff dd split: option.splits if_splits)
  qed
  show ?thesis
    unfolding wf_off_def
  proof (intro conjI)
    show "wf_keys (del_sandbox sid d)"
      using wf by (simp add: wf_off_def wf_keys_def del_sandbox_def Let_def distinct_keys_filter distinct_delete)
    show "wf_ids (del_sandbox sid d)"
      using wf nd by (auto simp: wf_off_def wf_ids_def split: option.splits if_splits) (simp_all add: del_sandbox_def Let_def)
    show "wf_entries (del_sandbox sid d)"
      unfolding wf_entries_def
    proof (intro allI impI)
      fix p n e assume "map_of (dirents (del_sandbox sid d)) (p, n) = Some e"
      then have e: "map_of (dirents d) (p, n) = Some e" "d_sandbox e \<noteq> sid"
        by (auto simp: dd split: option.splits if_splits)
      from wf_child_entry [OF wf, of p n "d_inode e"] e show "valid_name n
        \<and> (\<exists>pr. node (del_sandbox sid d) p = Some pr \<and> i_kind pr = DIRECTORY \<and> i_sandbox pr = d_sandbox e)
        \<and> (\<exists>cr. node (del_sandbox sid d) (d_inode e) = Some cr \<and> i_sandbox cr = d_sandbox e)"
        by (simp add: nd child_def) fastforce
    qed
    have kept: "node d i = Some r \<and> i_sandbox r \<noteq> sid" if "node (del_sandbox sid d) i = Some r" for i r
      using that by (auto simp: nd split: option.splits if_splits)
    show "wf_dirs (del_sandbox sid d)"
      unfolding wf_dirs_def
    proof (intro allI impI, elim conjE)
      fix i r k k' assume "node (del_sandbox sid d) i = Some r" "i_kind r = DIRECTORY"
        "k \<in> links (del_sandbox sid d) i" "k' \<in> links (del_sandbox sid d) i"
      then show "k = k'" using kept links wf unfolding wf_off_def wf_dirs_def by metis
    qed
    show "wf_roots (del_sandbox sid d)"
      unfolding wf_roots_def
    proof (intro allI impI)
      fix s r assume "root_of (del_sandbox sid d) s = Some r"
      then have s: "s \<noteq> sid" "root_of d s = Some r" by (auto simp: root split: if_splits)
      then obtain row where row: "node d r = Some row" "i_kind row = DIRECTORY" "i_sandbox row = s" "links d r = {}"
        using wf unfolding wf_off_def wf_roots_def by blast
      then show "(\<exists>row. node (del_sandbox sid d) r = Some row \<and> i_kind row = DIRECTORY \<and> i_sandbox row = s)
          \<and> links (del_sandbox sid d) r = {}"
        using s(1) links [of r row] by (simp add: nd)
    qed
    have isr: "is_root (del_sandbox sid d) i \<longleftrightarrow> is_root d i" if "node d i = Some r" "i_sandbox r \<noteq> sid" for i r
    proof -
      have "s \<noteq> sid" if s: "root_of d s = Some i" for s
      proof -
        obtain row where "node d i = Some row" "i_sandbox row = s"
          using wf s unfolding wf_off_def wf_roots_def by blast
        then show ?thesis using \<open>node d i = Some r\<close> \<open>i_sandbox r \<noteq> sid\<close> by auto
      qed
      then show ?thesis by (auto simp: is_root_def root)
    qed
    show "wf_links (\<lambda>_. 0) (del_sandbox sid d)"
      unfolding wf_links_def
    proof (intro allI impI, elim conjE)
      fix i r assume i: "node (del_sandbox sid d) i = Some r" "\<not> is_root (del_sandbox sid d) i"
      note k = kept [OF i(1)]
      then have "\<not> is_root d i" using isr [of i r] i(2) by blast
      then show "i_nlink r = link_count (del_sandbox sid d) i + 0"
        using k wf links [of i r] unfolding wf_off_def wf_links_def link_count_def by simp
    qed
  qed
qed

lemma deleteSandbox_run:
  "run_transaction (deleteSandbox sid) d now =
     (case map_of (sandboxes d) sid of
        None \<Rightarrow> (Inr (case map_of (sandbox_epochs d) sid of None \<Rightarrow> 0 | Some e \<Rightarrow> e), d)
      | Some s \<Rightarrow>
          let epoch = (case map_of (sandbox_epochs d) sid of None \<Rightarrow> sb_version s + 1 | Some e \<Rightarrow> max e (sb_version s + 1))
          in (Inr epoch, (del_sandbox sid d)\<lparr>sandbox_epochs := AList.update sid epoch (sandbox_epochs d)\<rparr>))"
  by (simp add: run_transaction_def deleteSandbox_def and_then_def get_sandbox_def rls_ok_def begin_tx_def Let_def
      split: option.split)

section \<open>Epochs across incarnations\<close>

text \<open>
  The committed history of one sandbox id: creation, deletion, and everything else that may only
  advance its version (every fenced write, generation claim and runtime update does).
\<close>

datatype life_event = Created | Deleted | Advanced

inductive life_step :: "string \<Rightarrow> life_event \<Rightarrow> db \<Rightarrow> db \<Rightarrow> bool" for sid where
  create: "run_transaction (createSandbox sid owner) d now = (Inr x, d') \<Longrightarrow> life_step sid Created d d'"
| delete: "run_transaction (deleteSandbox sid) d now = (Inr e, d') \<Longrightarrow> life_step sid Deleted d d'"
| advance: "\<lbrakk>map_of (sandbox_epochs d') sid = map_of (sandbox_epochs d) sid;
     version_of d' sid = None \<longleftrightarrow> version_of d sid = None;
     \<And>v v'. version_of d sid = Some v \<Longrightarrow> version_of d' sid = Some v' \<Longrightarrow> v \<le> v'\<rbrakk>
     \<Longrightarrow> life_step sid Advanced d d'"

inductive life_run :: "string \<Rightarrow> life_event list \<Rightarrow> db \<Rightarrow> db \<Rightarrow> bool" for sid where
  nil: "life_run sid [] d d"
| step: "life_step sid ev d d' \<Longrightarrow> life_run sid evs d' d'' \<Longrightarrow> life_run sid (ev # evs) d d''"

inductive_cases life_stepE: "life_step sid ev d d'"
inductive_cases life_run_ConsE: "life_run sid (ev # evs) d d''"

text \<open>A live sandbox has its incarnation's tombstone at or below its version.\<close>

definition epochs_ok :: "string \<Rightarrow> db \<Rightarrow> bool" where
  "epochs_ok sid d \<longleftrightarrow> (\<forall>v. version_of d sid = Some v \<longrightarrow> (\<exists>e. map_of (sandbox_epochs d) sid = Some e \<and> e \<le> v))"

definition epoch_ceiling :: "string \<Rightarrow> db \<Rightarrow> int" where
  "epoch_ceiling sid d =
     (case version_of d sid of Some v \<Rightarrow> v
      | None \<Rightarrow> (case map_of (sandbox_epochs d) sid of Some e \<Rightarrow> e | None \<Rightarrow> -1))"

lemma createSandbox_epochs:
  assumes "run_transaction (createSandbox sid owner) d now = (Inr x, d')"
  shows "version_of d sid = None" and "version_of d' sid = Some (next_epoch d sid)"
    and "map_of (sandbox_epochs d') sid = Some (next_epoch d sid)"
proof -
  show new: "version_of d sid = None"
    using assms by (auto simp: run_transaction_Inr_iff createSandbox_def and_then_Inr_iff Let_def
        version_of_def begin_tx_def split: if_splits)
  define K where "K tx tx' \<longleftrightarrow> version_of (t_db tx') sid = version_of (t_db tx) sid
    \<and> map_of (sandbox_epochs (t_db tx')) sid = map_of (sandbox_epochs (t_db tx)) sid" for tx tx' :: pgtx
  have dir: "K tx tx'" if "createDirInode sid p n tx = (r, tx')" for p n tx r tx'
    using that
    by (auto simp: K_def createDirInode_def and_then_def insert_inode_def insert_dirent_row_def Let_def
        put_inode_def put_dirent_def version_of_def split: if_splits)
  have tail: "K tx tx'" if "seed_tail sid r res tx = (Inr y, tx')" for r tx y tx' and res :: "int \<times> int \<times> int"
    using that unfolding seed_tail_def by (auto simp: and_then_Inr_iff K_def dest!: dir)
  have "map_of (sandboxes d) sid = None" using new by (simp add: version_of_def)
  from createSandbox_root [OF this] assms obtain tx' where
    "seed_tail sid (inode_seq d) (inode_seq d, now, next_epoch d sid)
      (on_db (\<lambda>_. seed_root sid owner now d) (lockd sid (begin_tx d now))) = (Inr x, tx')" "d' = t_db tx'"
    by (auto simp: run_transaction_Inr_iff)
  with tail have "K (on_db (\<lambda>_. seed_root sid owner now d) (lockd sid (begin_tx d now))) tx'" by blast
  then show "version_of d' sid = Some (next_epoch d sid)" "map_of (sandbox_epochs d') sid = Some (next_epoch d sid)"
    using \<open>d' = t_db tx'\<close>
    by (simp_all add: K_def seed_root_def Let_def new_sandbox_row_def) (simp add: put_inode_def)
qed

lemma life_step_epochs:
  assumes "life_step sid ev d d'" and "epochs_ok sid d"
  shows "epochs_ok sid d'" and "epoch_ceiling sid d \<le> epoch_ceiling sid d'"
    and "ev = Deleted \<Longrightarrow> version_of d sid = Some v \<Longrightarrow> v < epoch_ceiling sid d'"
    and "ev \<noteq> Deleted \<Longrightarrow> version_of d sid = Some v \<Longrightarrow> \<exists>v'. version_of d' sid = Some v' \<and> v \<le> v'"
proof -
  have "epochs_ok sid d' \<and> epoch_ceiling sid d \<le> epoch_ceiling sid d'
    \<and> (ev = Deleted \<longrightarrow> (\<forall>v. version_of d sid = Some v \<longrightarrow> v < epoch_ceiling sid d'))
    \<and> (ev \<noteq> Deleted \<longrightarrow> (\<forall>v. version_of d sid = Some v \<longrightarrow> (\<exists>v'. version_of d' sid = Some v' \<and> v \<le> v')))"
    using assms(1)
  proof cases
    case (create owner now x)
    note c = createSandbox_epochs [OF create(2)]
    show ?thesis using create(1) c by (auto simp: epochs_ok_def epoch_ceiling_def next_epoch_def split: option.split)
  next
    case (delete now e)
    have gone: "version_of (del_sandbox sid d \<lparr>sandbox_epochs := y\<rparr>) sid = None" for y
      by (simp add: version_of_def del_sandbox_def Let_def)
    show ?thesis
    proof (cases "map_of (sandboxes d) sid")
      case None
      then show ?thesis using delete assms(2) by (auto simp: deleteSandbox_run version_of_def)
    next
      case (Some s)
      then have "version_of d sid = Some (sb_version s)" by (simp add: version_of_def)
      then show ?thesis using delete Some gone
        by (auto simp: deleteSandbox_run epochs_ok_def epoch_ceiling_def Let_def split: option.splits)
    qed
  next
    case advance
    then show ?thesis
      using assms(2)
      by (cases "version_of d sid"; cases "version_of d' sid") (fastforce simp: epochs_ok_def epoch_ceiling_def)+
  qed
  then show "epochs_ok sid d'" "epoch_ceiling sid d \<le> epoch_ceiling sid d'"
    "ev = Deleted \<Longrightarrow> version_of d sid = Some v \<Longrightarrow> v < epoch_ceiling sid d'"
    "ev \<noteq> Deleted \<Longrightarrow> version_of d sid = Some v \<Longrightarrow> \<exists>v'. version_of d' sid = Some v' \<and> v \<le> v'" by blast+
qed

lemma life_run_ceiling:
  "life_run sid evs d d' \<Longrightarrow> epochs_ok sid d \<Longrightarrow> epochs_ok sid d' \<and> epoch_ceiling sid d \<le> epoch_ceiling sid d'"
  by (induction rule: life_run.induct) (auto dest: life_step_epochs(1,2) order_trans)

lemma life_run_deleted:
  "life_run sid evs d d' \<Longrightarrow> epochs_ok sid d \<Longrightarrow> version_of d sid = Some v \<Longrightarrow> Deleted \<in> set evs \<Longrightarrow>
     v < epoch_ceiling sid d'"
proof (induction arbitrary: v rule: life_run.induct)
  case (step ev d d' evs d'')
  have ok: "epochs_ok sid d'" using life_step_epochs(1) [OF step.hyps(1) step.prems(1)] .
  show ?case
  proof (cases "ev = Deleted")
    case True
    then show ?thesis
      using life_step_epochs(3) [OF step.hyps(1) step.prems(1)] step.prems(2)
        life_run_ceiling [OF step.hyps(2) ok] by fastforce
  next
    case False
    then obtain v' where "version_of d' sid = Some v'" "v \<le> v'"
      using life_step_epochs(4) [OF step.hyps(1) step.prems(1)] step.prems(2) by blast
    then show ?thesis using step.IH [OF ok, of v'] step.prems(3) False by auto
  qed
qed simp

end
