(* ===== verification/Simulation.thy ===== *)
theory Simulation
  imports Coherence
begin

text \<open>
  Simulation of one mutation. \<open>in_sync\<close> relates a transaction to a path cache; \<open>simulates\<close> says that
  the closure of a mutation runs without error on every transaction in sync with the cache it was
  planned on, mints as many ids as announced, and leaves the transaction in sync with the changed
  cache, whatever ids the cache uses for the minted ones. The same lemma serves a mutation that
  commits at once (the ids are the real ones) and a journalled one (provisional ids, replayed later).
\<close>

definition in_sync :: "string \<Rightarrow> int \<Rightarrow> int \<Rightarrow> (int \<Rightarrow> int) \<Rightarrow> path_rows \<Rightarrow> pgtx \<Rightarrow> bool" where
  "in_sync sid e r \<rho> c tx \<longleftrightarrow> ready sid e tx \<and> wf_db (t_db tx) \<and> root_of (t_db tx) sid = Some r
     \<and> cohere \<rho> c (db_lookup (t_db tx) r) \<and> inj_on \<rho> (inos c)"

definition resolves :: "replay_context \<Rightarrow> (int \<Rightarrow> int) \<Rightarrow> path_rows \<Rightarrow> bool" where
  "resolves rp \<rho> c \<longleftrightarrow> (\<forall>i \<in> inos c. r_resolve rp i = Inr (\<rho> i))"

definition simulates ::
  "string \<Rightarrow> (replay_context \<Rightarrow> int list pg) \<Rightarrow> nat \<Rightarrow> path_rows \<Rightarrow> (int list \<Rightarrow> path_rows) \<Rightarrow> bool" where
  "simulates sid run n c c' \<longleftrightarrow> (\<forall>e r \<rho> tx rp.
     in_sync sid e r \<rho> c tx \<and> r_expected rp = e \<and> resolves rp \<rho> c \<longrightarrow>
     (\<exists>rids tx'. run rp tx = (Inr rids, tx') \<and> length rids = n \<and> distinct rids
        \<and> (\<forall>i \<in> set rids. node (t_db tx) i = None \<and> 0 < i)
        \<and> (\<forall>cids \<rho>'. map \<rho>' cids = rids \<and> set cids \<inter> inos c = {} \<and> (\<forall>i \<in> inos c. \<rho>' i = \<rho> i)
             \<longrightarrow> in_sync sid e r \<rho>' (c' cids) tx' \<and> inos (c' cids) \<subseteq> inos c \<union> set cids)))"

lemma simulatesI:
  assumes "\<And>e r \<rho> tx rp. in_sync sid e r \<rho> c tx \<Longrightarrow> r_expected rp = e \<Longrightarrow> resolves rp \<rho> c \<Longrightarrow>
     \<exists>rids tx'. run rp tx = (Inr rids, tx') \<and> length rids = n \<and> distinct rids
        \<and> (\<forall>i \<in> set rids. node (t_db tx) i = None \<and> 0 < i)
        \<and> (\<forall>cids \<rho>'. map \<rho>' cids = rids \<and> set cids \<inter> inos c = {} \<and> (\<forall>i \<in> inos c. \<rho>' i = \<rho> i)
             \<longrightarrow> in_sync sid e r \<rho>' (c' cids) tx' \<and> inos (c' cids) \<subseteq> inos c \<union> set cids)"
  shows "simulates sid run n c c'"
  using assms unfolding simulates_def by blast

section \<open>Reading the cache in a synchronised transaction\<close>

lemma in_sync_entry:
  assumes "in_sync sid e r \<rho> c tx" and "valid_names segs" and "map_of c (path_of segs) = Some x"
  obtains row where "walk (t_db tx) r segs = Some (\<rho> (pe_inode x))" and "node (t_db tx) (\<rho> (pe_inode x)) = Some row"
    and "i_kind row = pe_kind x" and "i_mode row = pe_mode x" and "i_size row = pe_size x" and "i_sha row = pe_sha x"
    and "i_target row = pe_target x" and "i_sandbox row = sid"
proof -
  have co: "cohere \<rho> c (db_lookup (t_db tx) r)" and wf: "wf_db (t_db tx)" and root: "root_of (t_db tx) sid = Some r"
    using assms(1) by (simp_all add: in_sync_def)
  obtain y where y: "db_lookup (t_db tx) r segs = Some y" "norm_entry \<rho> x = norm_entry id y"
    using cohere_Some [OF co assms(2,3)] .
  note f = norm_entry_eqD [OF y(2)]
  have w: "walk (t_db tx) r segs = Some (\<rho> (pe_inode x))" using db_lookup_walk [OF wf root y(1)] f(1) by simp
  obtain row where row: "node (t_db tx) (\<rho> (pe_inode x)) = Some row" "i_sandbox row = sid"
    "db_lookup (t_db tx) r segs = Some (entry_of_row (\<rho> (pe_inode x)) row)"
    using db_lookup_Some [OF wf root w] .
  then have "y = entry_of_row (\<rho> (pe_inode x)) row" using y(1) by simp
  then show thesis using that [OF w row(1)] row(2) f by (simp add: entry_of_row_def)
qed

lemma in_sync_dir:
  assumes "in_sync sid e r \<rho> c tx" and "valid_names segs" and "map_of c (path_of segs) = Some x" and "pe_kind x = DIRECTORY"
  shows "dir_of sid (\<rho> (pe_inode x)) (t_db tx)" and "walk (t_db tx) r segs = Some (\<rho> (pe_inode x))"
proof -
  obtain row where "walk (t_db tx) r segs = Some (\<rho> (pe_inode x))" "node (t_db tx) (\<rho> (pe_inode x)) = Some row"
    "i_kind row = pe_kind x" "i_sandbox row = sid" by (rule in_sync_entry [OF assms(1-3)])
  then show "dir_of sid (\<rho> (pe_inode x)) (t_db tx)" "walk (t_db tx) r segs = Some (\<rho> (pe_inode x))"
    using assms(4) by (simp_all add: dir_of_def)
qed

lemma in_sync_child:
  assumes s: "in_sync sid e r \<rho> c tx" and v: "valid_names (ps @ [n])" and p: "walk (t_db tx) r ps = Some p"
  shows "child (t_db tx) p n = map_option (\<lambda>x. \<rho> (pe_inode x)) (map_of c (path_of (ps @ [n])))"
proof -
  have co: "cohere \<rho> c (db_lookup (t_db tx) r)" and wf: "wf_db (t_db tx)" and root: "root_of (t_db tx) sid = Some r"
    using s by (simp_all add: in_sync_def)
  have ch: "walk (t_db tx) r (ps @ [n]) = child (t_db tx) p n" using p by (simp add: walkc_snoc)
  show ?thesis
  proof (cases "map_of c (path_of (ps @ [n]))")
    case None
    then have "db_lookup (t_db tx) r (ps @ [n]) = None" using cohere_None [OF co v] by simp
    then have "walk (t_db tx) r (ps @ [n]) = None"
      using db_lookup_Some [OF wf root] by (cases "walk (t_db tx) r (ps @ [n])") fastforce+
    then show ?thesis using ch None by simp
  next
    case (Some x)
    then show ?thesis using ch in_sync_entry [OF s v Some] by auto
  qed
qed

lemma in_sync_below:
  assumes s: "in_sync sid e r \<rho> c tx"
    and leaf: "map_of c (path_of q) = None \<or> (\<exists>x. map_of c (path_of q) = Some x \<and> pe_kind x \<noteq> DIRECTORY)"
    and q: "valid_names q" and sp: "strict_prefix q segs"
  shows "db_lookup (t_db tx) r segs = None"
proof -
  have wf: "wf_db (t_db tx)" using s by (simp add: in_sync_def)
  obtain zs where "segs = q @ zs" "zs \<noteq> []" using sp by (auto simp: strict_prefix_def prefix_def)
  then obtain n rest where segs: "segs = q @ n # rest" by (cases zs) auto
  show ?thesis
  proof (cases "walk (t_db tx) r q")
    case None
    then show ?thesis by (simp add: segs db_lookup_def walkc_append)
  next
    case (Some i)
    have "child (t_db tx) i n = None"
    proof (cases "map_of c (path_of q)")
      case None
      have co: "cohere \<rho> c (db_lookup (t_db tx) r)" and root: "root_of (t_db tx) sid = Some r"
        using s by (simp_all add: in_sync_def)
      have "db_lookup (t_db tx) r q = None" using cohere_None [OF co q] None by simp
      then show ?thesis using db_lookup_Some [OF wf root Some] by force
    next
      case (Some x)
      obtain row where "walk (t_db tx) r q = Some (\<rho> (pe_inode x))" "node (t_db tx) (\<rho> (pe_inode x)) = Some row"
        "i_kind row = pe_kind x" by (rule in_sync_entry [OF s q Some])
      then show ?thesis
        using leaf Some \<open>walk (t_db tx) r q = Some i\<close> wf_nondir_no_child [OF wf, of i n] by auto
    qed
    then show ?thesis using Some by (simp add: segs db_lookup_def walkc_append)
  qed
qed

lemma in_sync_bumped: "in_sync sid e r \<rho> c tx \<Longrightarrow> ready sid e (bumped sid tx)"
  by (simp add: in_sync_def)

lemma db_lookup_bump [simp]: "db_lookup (bump sid d) r = db_lookup d r"
  by (simp add: db_lookup_def fun_eq_iff split: option.split)

text \<open>The id a fresh inode gets is unknown to the cache.\<close>

lemma in_sync_fresh:
  assumes s: "in_sync sid e r \<rho> c tx" and i: "i \<in> inos c"
  shows "node (t_db tx) (\<rho> i) \<noteq> None"
proof -
  have co: "cohere \<rho> c (db_lookup (t_db tx) r)" using s by (simp add: in_sync_def)
  obtain p x where x: "map_of c p = Some x" "pe_inode x = i" using i cohere_distinct [OF co] by (rule inos_E)
  obtain segs where "valid_names segs" "p = path_of segs" using cohere_normal [OF co x(1)] by (rule normal_pathE)
  then show ?thesis using in_sync_entry [OF s] x by (metis option.distinct(1))
qed

lemma inj_on_fresh:
  assumes "inj_on \<rho> A" and "B \<subseteq> A \<union> set cids" and "\<And>i. i \<in> A \<Longrightarrow> \<rho>' i = \<rho> i" and "distinct (map \<rho>' cids)"
    and "\<And>i. i \<in> A \<Longrightarrow> \<rho> i \<notin> set (map \<rho>' cids)"
  shows "inj_on \<rho>' B"
proof (rule inj_onI)
  fix x y assume xy: "x \<in> B" "y \<in> B" "\<rho>' x = \<rho>' y"
  have inj: "inj_on \<rho>' (set cids)" using assms(4) by (simp add: distinct_map)
  have apart: "\<rho>' a \<noteq> \<rho>' b" if "a \<in> A" "b \<in> set cids" for a b
    using that assms(3) [of a] assms(5) [of a] by auto
  consider "x \<in> A" "y \<in> A" | "x \<in> A" "y \<in> set cids" | "x \<in> set cids" "y \<in> A" | "x \<in> set cids" "y \<in> set cids"
    using xy assms(2) by blast
  then show "x = y"
  proof cases
    case 1
    then show ?thesis using xy(3) assms(3) inj_onD [OF assms(1)] by auto
  next
    case 2
    then show ?thesis using xy(3) apart by blast
  next
    case 3
    then show ?thesis using xy(3) apart [of y x] by simp
  next
    case 4
    then show ?thesis using xy(3) inj_onD [OF inj] by blast
  qed
qed

section \<open>Mutations that set one entry\<close>

lemma in_sync_set:
  assumes s: "in_sync sid e r \<rho> c tx" and q: "valid_names q"
    and leaf: "map_of c (path_of q) = None \<or> (\<exists>x. map_of c (path_of q) = Some x \<and> pe_kind x \<noteq> DIRECTORY)"
    and tx': "ready sid e tx'" "wf_db (t_db tx')" "root_of (t_db tx') sid = Some r"
      "db_lookup (t_db tx') r = tree_set q x (db_lookup (t_db tx) r)"
    and y: "norm_entry \<rho>' y = norm_entry id x" and \<rho>': "\<And>i. i \<in> inos c \<Longrightarrow> \<rho>' i = \<rho> i"
    and cids: "insert (pe_inode y) (inos c) \<subseteq> inos c \<union> set cids" "distinct (map \<rho>' cids)"
      "\<And>i. i \<in> set cids \<Longrightarrow> node (t_db tx) (\<rho>' i) = None"
  shows "in_sync sid e r \<rho>' (AList.update (path_of q) y c) tx' \<and> inos (AList.update (path_of q) y c) \<subseteq> inos c \<union> set cids"
proof
  have co: "cohere \<rho> c (db_lookup (t_db tx) r)" and inj: "inj_on \<rho> (inos c)" using s by (simp_all add: in_sync_def)
  show sub: "inos (AList.update (path_of q) y c) \<subseteq> inos c \<union> set cids"
    using inos_update [of "path_of q" y c] cids(1) by blast
  have "inj_on \<rho>' (inos (AList.update (path_of q) y c))"
  proof (rule inj_on_fresh [OF inj sub \<rho>' cids(2)])
    show "\<rho> i \<notin> set (map \<rho>' cids)" if "i \<in> inos c" for i
      using in_sync_fresh [OF s that] cids(3) by auto
  qed
  then show "in_sync sid e r \<rho>' (AList.update (path_of q) y c) tx'"
    unfolding in_sync_def tx'(4) using tx'(1-3) cohere_set [OF co q in_sync_below [OF s leaf q] y \<rho>'] by blast
qed

text \<open>The two shapes of a new entry: into a free slot, and over a file or link.\<close>

definition entry_of_opts :: "int \<Rightarrow> create_inode_opts \<Rightarrow> int \<Rightarrow> path_entry" where
  "entry_of_opts i o' mtime =
     \<lparr>pe_inode = i, pe_kind = c_kind o', pe_mode = c_mode o', pe_size = c_size o', pe_mtime = mtime,
      pe_sha = c_sha o', pe_target = c_target o'\<rparr>"

lemma norm_entry_of_opts:
  "\<rho> i = j \<Longrightarrow> norm_entry \<rho> (entry_of_opts i o' mtime) = norm_entry id (entry_of_row j (row_of_opts o' now))"
  by (simp add: norm_entry_def entry_of_opts_def entry_of_row_def row_of_opts_def new_inode_row_def)

lemma wf_fresh_pos: "wf_off off d \<Longrightarrow> 0 < inode_seq d"
  by (simp add: wf_off_def wf_ids_def)

lemma in_sync_new_entry:
  assumes s: "in_sync sid e r \<rho> c tx" and q: "valid_names (ps @ [n])"
    and p: "map_of c (path_of ps) = Some pe" "pe_kind pe = DIRECTORY"
    and leaf: "map_of c (path_of (ps @ [n])) = None \<or> (\<exists>x. map_of c (path_of (ps @ [n])) = Some x \<and> pe_kind x \<noteq> DIRECTORY)"
    and sid: "c_sandbox opts = sid"
    and tx': "t_db tx' = replace_node sid (\<rho> (pe_inode pe)) n (row_of_opts opts now) (bump sid (t_db tx))" "ready sid e tx'"
    and \<rho>': "map \<rho>' cids = [inode_seq (t_db tx)]" "\<forall>i \<in> inos c. \<rho>' i = \<rho> i"
  shows "in_sync sid e r \<rho>' (AList.update (path_of (ps @ [n])) (entry_of_opts (hd cids) opts mtime) c) tx'
    \<and> inos (AList.update (path_of (ps @ [n])) (entry_of_opts (hd cids) opts mtime) c) \<subseteq> inos c \<union> set cids"
proof -
  have wf: "wf_db (t_db tx)" and root: "root_of (t_db tx) sid = Some r" using s by (simp_all add: in_sync_def)
  have ps: "valid_names ps" and n: "valid_name n" using q by simp_all
  note dir = in_sync_dir [OF s ps p]
  let ?d = "bump sid (t_db tx)" and ?p = "\<rho> (pe_inode pe)" and ?row = "row_of_opts opts now"
  have noch: "child ?d i m = None" if "child ?d ?p n = Some i" for i m
  proof -
    from that obtain x where x: "map_of c (path_of (ps @ [n])) = Some x" "i = \<rho> (pe_inode x)"
      using in_sync_child [OF s q dir(2)] by auto
    obtain row where "node (t_db tx) i = Some row" "i_kind row = pe_kind x"
      using in_sync_entry [OF s q x(1)] x(2) by metis
    then show ?thesis using leaf x wf_nondir_no_child [OF wf, of i m] by auto
  qed
  have wfd: "wf_db ?d" "root_of ?d sid = Some r" "dir_of sid ?p ?d" "walk ?d r ps = Some ?p"
    using wf root dir by simp_all
  have row: "i_sandbox ?row = sid" "i_nlink ?row = 1" using sid by simp_all
  obtain cid where cid: "cids = [cid]" "\<rho>' cid = inode_seq (t_db tx)" using \<rho>'(1) by (cases cids) auto
  show ?thesis
  proof (rule in_sync_set [OF s q leaf])
    show "wf_db (t_db tx')" using wf_replace_node(1) [OF wfd(1,3) n row noch] tx'(1) by simp
    show "db_lookup (t_db tx') r = tree_set (ps @ [n]) (entry_of_row (inode_seq (t_db tx)) ?row) (db_lookup (t_db tx) r)"
      using lookup_replace_node [OF wfd(1,2,4,3) n row noch] tx'(1) by simp
    show "root_of (t_db tx') sid = Some r" using tx'(1) root by (simp add: replace_node_def split: option.split)
    show "norm_entry \<rho>' (entry_of_opts (hd cids) opts mtime) = norm_entry id (entry_of_row (inode_seq (t_db tx)) ?row)"
      using cid by (simp add: norm_entry_of_opts)
    show "insert (pe_inode (entry_of_opts (hd cids) opts mtime)) (inos c) \<subseteq> inos c \<union> set cids"
      using cid by (auto simp: entry_of_opts_def)
    show "node (t_db tx) (\<rho>' i) = None" if "i \<in> set cids" for i using that cid wf_fresh [OF wf] by simp
  qed (use tx' \<rho>' cid in auto)
qed

lemma simulates_new:
  assumes q: "valid_names (ps @ [n])" and p: "map_of c (path_of ps) = Some pe" "pe_kind pe = DIRECTORY"
    and leaf: "map_of c (path_of (ps @ [n])) = None \<or> (\<exists>x. map_of c (path_of (ps @ [n])) = Some x \<and> pe_kind x \<noteq> DIRECTORY)"
    and sid: "c_sandbox opts = sid"
    and run: "\<And>e tx rp p. ready sid e tx \<Longrightarrow> wf_db (t_db tx) \<Longrightarrow> dir_of sid p (t_db tx) \<Longrightarrow>
        (map_of c (path_of (ps @ [n])) = None \<Longrightarrow> child (t_db tx) p n = None) \<Longrightarrow>
        r_expected rp = e \<Longrightarrow> r_resolve rp (pe_inode pe) = Inr p \<Longrightarrow>
      \<exists>tx'. run rp tx = (Inr [inode_seq (t_db tx)], tx')
        \<and> t_db tx' = replace_node sid p n (row_of_opts opts (t_now tx)) (bump sid (t_db tx)) \<and> ready sid e tx'"
  shows "simulates sid run 1 c (\<lambda>cids. AList.update (path_of (ps @ [n])) (entry_of_opts (hd cids) opts mtime) c)"
proof (rule simulatesI)
  fix e r \<rho> tx and rp :: replay_context
  assume s: "in_sync sid e r \<rho> c tx" and ex: "r_expected rp = e" and rs: "resolves rp \<rho> c"
  have res: "r_resolve rp (pe_inode pe) = Inr (\<rho> (pe_inode pe))" using rs inos_I [OF p(1)] by (simp add: resolves_def)
  have ps: "valid_names ps" using q by simp
  note dir = in_sync_dir [OF s ps p]
  have wf: "wf_db (t_db tx)" and rd: "ready sid e tx" using s by (simp_all add: in_sync_def)
  from run [OF rd wf dir(1) _ ex res] in_sync_child [OF s q dir(2)]
  obtain tx' where tx': "run rp tx = (Inr [inode_seq (t_db tx)], tx')"
    "t_db tx' = replace_node sid (\<rho> (pe_inode pe)) n (row_of_opts opts (t_now tx)) (bump sid (t_db tx))" "ready sid e tx'"
    by auto
  have ids: "\<forall>i \<in> set [inode_seq (t_db tx)]. node (t_db tx) i = None \<and> 0 < i"
    using wf_fresh [OF wf] wf_fresh_pos [OF wf] by simp
  have main: "\<forall>cids \<rho>'. map \<rho>' cids = [inode_seq (t_db tx)] \<and> set cids \<inter> inos c = {} \<and> (\<forall>i \<in> inos c. \<rho>' i = \<rho> i)
           \<longrightarrow> in_sync sid e r \<rho>' (AList.update (path_of (ps @ [n])) (entry_of_opts (hd cids) opts mtime) c) tx'
             \<and> inos (AList.update (path_of (ps @ [n])) (entry_of_opts (hd cids) opts mtime) c) \<subseteq> inos c \<union> set cids"
    by (intro allI impI, elim conjE) (rule in_sync_new_entry [OF s q p leaf sid tx'(2,3)])
  show "\<exists>rids tx'. run rp tx = (Inr rids, tx') \<and> length rids = 1 \<and> distinct rids
      \<and> (\<forall>i \<in> set rids. node (t_db tx) i = None \<and> 0 < i)
      \<and> (\<forall>cids \<rho>'. map \<rho>' cids = rids \<and> set cids \<inter> inos c = {} \<and> (\<forall>i \<in> inos c. \<rho>' i = \<rho> i)
           \<longrightarrow> in_sync sid e r \<rho>' (AList.update (path_of (ps @ [n])) (entry_of_opts (hd cids) opts mtime) c) tx'
             \<and> inos (AList.update (path_of (ps @ [n])) (entry_of_opts (hd cids) opts mtime) c) \<subseteq> inos c \<union> set cids)"
    by (intro exI [of _ "[inode_seq (t_db tx)]"] exI [of _ tx'] conjI tx'(1) ids main) simp_all
qed

lemma replace_node_free: "child d p n = None \<Longrightarrow> replace_node sid p n r d = add_node sid p n r d"
  by (simp add: replace_node_def)

lemma ready_update [simp]:
  "ready sid e (on_db (add_node sid' p n r) (bumped sid tx)) = ready sid e (bumped sid tx)"
  "ready sid e (on_db (replace_node sid' p n r) (bumped sid tx)) = ready sid e (bumped sid tx)"
  by (simp_all add: ready_def bumped_def replace_node_def split: option.split)

section \<open>mkdir, symlink\<close>

definition dir_opts :: "string \<Rightarrow> int \<Rightarrow> create_inode_opts" where
  "dir_opts sid mode = \<lparr>c_sandbox = sid, c_kind = DIRECTORY, c_mode = mode, c_size = 0, c_sha = None, c_target = None\<rparr>"

lemma dir_entry_opts: "dir_entry i mode mtime = entry_of_opts i (dir_opts sid mode) mtime"
  by (simp add: dir_entry_def entry_of_opts_def dir_opts_def)

lemma sim_create_dir_run:
  assumes q: "valid_names (ps @ [n])" and p: "map_of c (path_of ps) = Some pe" "pe_kind pe = DIRECTORY"
    and free: "map_of c (path_of (ps @ [n])) = None"
  shows "simulates sid (create_dir_run sid (pe_inode pe) n mode) 1 c
    (\<lambda>cids. AList.update (path_of (ps @ [n])) (dir_entry (hd cids) mode mtime) c)"
  unfolding dir_entry_opts [where sid = sid]
  by (rule simulates_new [OF q p])
     (auto simp: free create_dir_run_ready replace_node_free row_of_opts_def dir_opts_def)

lemma sim_mkdir_spec:
  assumes q: "valid_names (ps @ [n])" and p: "map_of c (path_of ps) = Some pe" "pe_kind pe = DIRECTORY"
    and free: "map_of c (path_of (ps @ [n])) = None"
  shows "simulates sid (o_run (mkdir_spec sid composites (pe_inode pe) n mode)) 1 c
    (\<lambda>cids. AList.update (path_of (ps @ [n])) (dir_entry (hd cids) mode mtime) c)"
proof (cases composites)
  case True
  have "simulates sid (\<lambda>rp. and_then (of_sum (r_resolve rp (pe_inode pe))) (\<lambda>p.
      and_then (mkdirComposite sid p n mode (Some (r_expected rp))) (\<lambda>i. return_ok [i]))) 1 c
    (\<lambda>cids. AList.update (path_of (ps @ [n])) (dir_entry (hd cids) mode mtime) c)"
    unfolding dir_entry_opts [where sid = sid]
    by (rule simulates_new [OF q p])
       (auto simp: free mkdirComposite_ready and_then_def replace_node_free row_of_opts_def dir_opts_def)
  then show ?thesis using True by (simp add: mkdir_spec_def)
next
  case False
  then show ?thesis using sim_create_dir_run [OF assms] by (simp add: mkdir_spec_def)
qed

definition symlink_opts :: "string \<Rightarrow> string \<Rightarrow> create_inode_opts" where
  "symlink_opts sid target =
     \<lparr>c_sandbox = sid, c_kind = SYMLINK, c_mode = 511, c_size = int (length target), c_sha = None, c_target = Some target\<rparr>"

lemma sim_symlink_spec:
  assumes q: "valid_names (ps @ [n])" and p: "map_of c (path_of ps) = Some pe" "pe_kind pe = DIRECTORY"
    and free: "map_of c (path_of (ps @ [n])) = None"
  shows "simulates sid (o_run (symlink_spec sid (pe_inode pe) n target)) 1 c
    (\<lambda>cids. AList.update (path_of (ps @ [n])) (symlink_entry (hd cids) target mtime) c)"
proof -
  have e: "symlink_entry i target mtime = entry_of_opts i (symlink_opts sid target) mtime" for i
    by (simp add: symlink_entry_def entry_of_opts_def symlink_opts_def)
  have run: "o_run (symlink_spec sid (pe_inode pe) n target) rp tx =
      (Inr [inode_seq (t_db tx)], on_db (add_node sid p n (row_of_opts (symlink_opts sid target) (t_now tx))) (bumped sid tx))"
    if "ready sid e tx" "dir_of sid p (t_db tx)" "child (t_db tx) p n = None" "r_expected rp = e" "r_resolve rp (pe_inode pe) = Inr p"
    for e tx p and rp :: replay_context
    using create_entry_ready [OF that(1-3), of "symlink_opts sid target" "\<lambda>i _. return_ok [i]"] that(4,5)
    by (simp add: symlink_spec_def symlink_opts_def)
  show ?thesis
    unfolding e by (rule simulates_new [OF q p]) (auto simp: free run replace_node_free symlink_opts_def)
qed

section \<open>Writing and copying a file\<close>

definition file_opts :: "string \<Rightarrow> int \<Rightarrow> int \<Rightarrow> bytes \<Rightarrow> create_inode_opts" where
  "file_opts sid mode sz sha =
     \<lparr>c_sandbox = sid, c_kind = FILE, c_mode = mode, c_size = sz, c_sha = Some sha, c_target = None\<rparr>"

lemma file_opts_sandbox [simp]: "c_sandbox (file_opts sid mode sz sha) = sid"
  by (simp add: file_opts_def)

lemma file_entry_opts: "file_entry i mode sz mtime sha = entry_of_opts i (file_opts sid mode sz sha) mtime"
  by (simp add: file_entry_def entry_of_opts_def file_opts_def)

lemma replace_run:
  assumes "ready sid e tx" and "wf_db (t_db tx)" and "dir_of sid p (t_db tx)" and "c_sandbox opts = sid"
  shows "and_then (createInode opts (Some e)) (\<lambda>i.
      and_then (upsertDirent p n i) (\<lambda>old. and_then (unlink_replaced old) (\<lambda>_. return_ok [i]))) tx =
    (Inr [inode_seq (t_db tx)], on_db (replace_node sid p n (row_of_opts opts (t_now tx))) (bumped sid tx))"
  by (rule replace_entry_ready [OF assms]) (rule refl)

lemma sim_putFileOp:
  assumes q: "valid_names (ps @ [n])" and p: "map_of c (path_of ps) = Some pe" "pe_kind pe = DIRECTORY"
    and leaf: "map_of c (path_of (ps @ [n])) = None \<or> (\<exists>x. map_of c (path_of (ps @ [n])) = Some x \<and> pe_kind x \<noteq> DIRECTORY)"
  shows "simulates sid (o_run (putFileOp sid composites kind (pe_inode pe) n mode sz sha)) 1 c
    (\<lambda>cids. AList.update (path_of (ps @ [n])) (file_entry (hd cids) mode sz mtime sha) c)"
proof (cases composites)
  case True
  have "simulates sid (\<lambda>rp. and_then (of_sum (r_resolve rp (pe_inode pe))) (\<lambda>p.
      and_then (writeFileComposite sid p n mode sz sha (Some (r_expected rp))) (\<lambda>i. return_ok [i]))) 1 c
    (\<lambda>cids. AList.update (path_of (ps @ [n])) (file_entry (hd cids) mode sz mtime sha) c)"
    unfolding file_entry_opts [where sid = sid]
    by (rule simulates_new [OF q p leaf])
       (auto simp: writeFileComposite_ready and_then_def row_of_opts_def file_opts_def)
  then show ?thesis using True by (simp add: putFileOp_def)
next
  case False
  have "simulates sid (\<lambda>rp. and_then (createInode (file_opts sid mode sz sha) (Some (r_expected rp))) (\<lambda>i.
      and_then (of_sum (r_resolve rp (pe_inode pe))) (\<lambda>p. and_then (upsertDirent p n i) (\<lambda>old.
      and_then (unlink_replaced old) (\<lambda>_. return_ok [i]))))) 1 c
    (\<lambda>cids. AList.update (path_of (ps @ [n])) (file_entry (hd cids) mode sz mtime sha) c)"
    unfolding file_entry_opts [where sid = sid]
    by (rule simulates_new [OF q p leaf]) (auto simp: replace_run)
  then show ?thesis using False by (simp add: putFileOp_def file_opts_def)
qed

lemma sim_cp_file_spec:
  assumes q: "valid_names (ps @ [n])" and p: "map_of c (path_of ps) = Some pe" "pe_kind pe = DIRECTORY"
    and leaf: "map_of c (path_of (ps @ [n])) = None \<or> (\<exists>x. map_of c (path_of (ps @ [n])) = Some x \<and> pe_kind x \<noteq> DIRECTORY)"
  shows "simulates sid (o_run (cp_file_spec sid src (pe_inode pe) n)) 1 c
    (\<lambda>cids. AList.update (path_of (ps @ [n])) (src\<lparr>pe_inode := hd cids, pe_mtime := mtime\<rparr>) c)"
proof -
  have sb: "c_sandbox (create_opts_of sid src) = sid" by (simp add: create_opts_of_def)
  have e: "src\<lparr>pe_inode := i, pe_mtime := mtime\<rparr> = entry_of_opts i (create_opts_of sid src) mtime" for i
    by (cases src) (simp add: entry_of_opts_def create_opts_of_def)
  show ?thesis
    unfolding e cp_file_spec_def mutation_spec.select_convs
    by (rule simulates_new [OF q p leaf sb]) (auto simp: replace_run sb)
qed

section \<open>Mutations that mint no id\<close>

lemma in_sync_rename:
  assumes "in_sync sid e r \<rho> c tx" and "\<forall>i \<in> inos c. \<rho>' i = \<rho> i"
  shows "in_sync sid e r \<rho>' c tx"
proof -
  have "inj_on \<rho>' (inos c)" using assms by (auto simp: in_sync_def inj_on_def)
  then show ?thesis using assms cohere_rename [of \<rho> c _ \<rho>'] by (auto simp: in_sync_def)
qed

lemma simulates_nomint:
  assumes run: "\<And>e r \<rho> tx rp. in_sync sid e r \<rho> c tx \<Longrightarrow> r_expected rp = e \<Longrightarrow> resolves rp \<rho> c \<Longrightarrow>
      \<exists>tx'. run rp tx = (Inr [], tx') \<and> in_sync sid e r \<rho> c' tx'"
    and sub: "inos c' \<subseteq> inos c"
  shows "simulates sid run 0 c (\<lambda>_. c')"
proof (rule simulatesI)
  fix e r \<rho> tx and rp :: replay_context
  assume "in_sync sid e r \<rho> c tx" "r_expected rp = e" "resolves rp \<rho> c"
  from run [OF this] obtain tx' where tx': "run rp tx = (Inr [], tx')" "in_sync sid e r \<rho> c' tx'" by blast
  show "\<exists>rids tx'. run rp tx = (Inr rids, tx') \<and> length rids = 0 \<and> distinct rids
      \<and> (\<forall>i \<in> set rids. node (t_db tx) i = None \<and> 0 < i)
      \<and> (\<forall>cids \<rho>'. map \<rho>' cids = rids \<and> set cids \<inter> inos c = {} \<and> (\<forall>i \<in> inos c. \<rho>' i = \<rho> i)
           \<longrightarrow> in_sync sid e r \<rho>' c' tx' \<and> inos c' \<subseteq> inos c \<union> set cids)"
    using tx'(1) sub in_sync_rename [OF tx'(2)] by (intro exI [of _ "[]"] exI [of _ tx']) auto
qed

lemma in_sync_tx:
  assumes "in_sync sid e r \<rho> c tx" and "ready sid e tx'" and "wf_db (t_db tx')" and "root_of (t_db tx') sid = Some r"
    and "cohere \<rho> c' (db_lookup (t_db tx') r)" and "inos c' \<subseteq> inos c"
  shows "in_sync sid e r \<rho> c' tx'"
  using assms by (auto simp: in_sync_def intro: inj_on_subset)

subsection \<open>rm\<close>

definition childless :: "path_rows \<Rightarrow> string list \<Rightarrow> bool" where
  "childless c q \<longleftrightarrow> (\<forall>m. valid_name m \<longrightarrow> map_of c (path_of (q @ [m])) = None)"

lemma in_sync_childless:
  assumes s: "in_sync sid e r \<rho> c tx" and q: "valid_names q" and x: "map_of c (path_of q) = Some x"
    and leaf: "pe_kind x \<noteq> DIRECTORY \<or> childless c q"
  shows "child (t_db tx) (\<rho> (pe_inode x)) m = None"
proof (cases "child (t_db tx) (\<rho> (pe_inode x)) m")
  case (Some j)
  have wf: "wf_db (t_db tx)" using s by (simp add: in_sync_def)
  obtain row where row: "walk (t_db tx) r q = Some (\<rho> (pe_inode x))" "node (t_db tx) (\<rho> (pe_inode x)) = Some row"
    "i_kind row = pe_kind x" using in_sync_entry [OF s q x] by metis
  have m: "valid_name m" using wf_child_entry [OF wf Some] by metis
  have "pe_kind x = DIRECTORY" using wf_nondir_no_child [OF wf, of "\<rho> (pe_inode x)" m] row Some by auto
  then have "map_of c (path_of (q @ [m])) = None" using leaf m by (auto simp: childless_def)
  then show ?thesis using in_sync_child [OF s _ row(1), of m] q m by simp
qed simp

lemma in_sync_leaf_below:
  assumes s: "in_sync sid e r \<rho> c tx" and q: "valid_names q" and x: "map_of c (path_of q) = Some x"
    and leaf: "pe_kind x \<noteq> DIRECTORY \<or> childless c q" and sp: "strict_prefix q segs"
  shows "db_lookup (t_db tx) r segs = None"
proof -
  obtain zs where "segs = q @ zs" "zs \<noteq> []" using sp by (auto simp: strict_prefix_def prefix_def)
  then obtain n rest where segs: "segs = q @ n # rest" by (cases zs) auto
  have "walk (t_db tx) r q = Some (\<rho> (pe_inode x))" using in_sync_entry [OF s q x] by metis
  then show ?thesis using in_sync_childless [OF s q x leaf, of n] by (simp add: segs db_lookup_def walkc_append)
qed

lemma ready_remove [simp]:
  "ready sid e (on_db (remove_entry p n) (bumped sid tx)) = ready sid e (bumped sid tx)"
  by (simp add: ready_def bumped_def remove_entry_def split: option.split)

lemma root_of_remove_entry [simp]: "root_of (remove_entry p n d) = root_of d"
  by (simp add: remove_entry_def split: option.split)

lemma in_sync_remove:
  assumes s: "in_sync sid e r \<rho> c tx" and q: "valid_names (ps @ [n])"
    and p: "map_of c (path_of ps) = Some pe" and x: "map_of c (path_of (ps @ [n])) = Some x"
    and leaf: "pe_kind x \<noteq> DIRECTORY \<or> childless c (ps @ [n])"
    and tx': "t_db tx' = remove_entry (\<rho> (pe_inode pe)) n d1" "ready sid e tx'" and d1: "d1 = t_db tx \<or> d1 = bump sid (t_db tx)"
  shows "dir_of sid (\<rho> (pe_inode pe)) (t_db tx)" and "child (t_db tx) (\<rho> (pe_inode pe)) n = Some (\<rho> (pe_inode x))"
    and "in_sync sid e r \<rho> (AList.delete (path_of (ps @ [n])) c) tx'"
proof -
  have wf: "wf_db (t_db tx)" and root: "root_of (t_db tx) sid = Some r" and co: "cohere \<rho> c (db_lookup (t_db tx) r)"
    using s by (simp_all add: in_sync_def)
  have ps: "valid_names ps" using q by simp
  obtain row where row: "walk (t_db tx) r ps = Some (\<rho> (pe_inode pe))" "node (t_db tx) (\<rho> (pe_inode pe)) = Some row"
    "i_sandbox row = sid" using in_sync_entry [OF s ps p] by metis
  show ch: "child (t_db tx) (\<rho> (pe_inode pe)) n = Some (\<rho> (pe_inode x))"
    using in_sync_child [OF s q row(1)] x by simp
  have "i_kind row = DIRECTORY" using wf_nondir_no_child [OF wf, of "\<rho> (pe_inode pe)" n] row ch by auto
  then show dir: "dir_of sid (\<rho> (pe_inode pe)) (t_db tx)" using row by (simp add: dir_of_def)
  let ?d = d1
  have d: "wf_db ?d" "root_of ?d sid = Some r" "walk ?d r ps = Some (\<rho> (pe_inode pe))"
    "dir_of sid (\<rho> (pe_inode pe)) ?d" "child ?d (\<rho> (pe_inode pe)) n = Some (\<rho> (pe_inode x))"
    using wf root row dir ch d1 by auto
  have noch: "child ?d (\<rho> (pe_inode x)) m = None" for m using in_sync_childless [OF s q x leaf] d1 by auto
  have look: "db_lookup (t_db tx') r = tree_del (ps @ [n]) (db_lookup (t_db tx) r)"
    using lookup_remove_entry [OF d noch] tx'(1) d1 by auto
  show "in_sync sid e r \<rho> (AList.delete (path_of (ps @ [n])) c) tx'"
  proof (rule in_sync_tx [OF s tx'(2)])
    show "wf_db (t_db tx')" using wf_remove_entry(1) [OF d(1,5) noch] tx'(1) by simp
    show "root_of (t_db tx') sid = Some r" using d(2) tx'(1) by simp
    show "cohere \<rho> (AList.delete (path_of (ps @ [n])) c) (db_lookup (t_db tx') r)"
      unfolding look by (rule cohere_del [OF co q in_sync_leaf_below [OF s q x leaf]])
    show "inos (AList.delete (path_of (ps @ [n])) c) \<subseteq> inos c" by (rule inos_subset) (auto simp: AList.delete_eq)
  qed
qed

lemma sim_rm_spec:
  assumes q: "valid_names (ps @ [n])" and p: "map_of c (path_of ps) = Some pe" and x: "map_of c (path_of (ps @ [n])) = Some x"
    and leaf: "pe_kind x \<noteq> DIRECTORY \<or> childless c (ps @ [n])"
  shows "simulates sid (o_run (rm_spec sid composites (pe_inode pe) n)) 0 c (\<lambda>_. AList.delete (path_of (ps @ [n])) c)"
proof (rule simulates_nomint)
  fix e r \<rho> tx and rp :: replay_context
  assume s: "in_sync sid e r \<rho> c tx" and ex: "r_expected rp = e" and rs: "resolves rp \<rho> c"
  have res: "r_resolve rp (pe_inode pe) = Inr (\<rho> (pe_inode pe))" using rs inos_I [OF p] by (simp add: resolves_def)
  have rd: "ready sid e tx" and wf: "wf_db (t_db tx)" using s by (simp_all add: in_sync_def)
  let ?t = "if composites then bumped sid (lockd sid tx) else bumped sid tx"
  let ?tx = "on_db (remove_entry (\<rho> (pe_inode pe)) n) ?t"
  have tx': "t_db ?tx = remove_entry (\<rho> (pe_inode pe)) n (bump sid (t_db tx))" "ready sid e ?tx"
    using rd by simp_all
  note rm = in_sync_remove [OF s q p x leaf tx' disjI2 [OF refl]]
  have "o_run (rm_spec sid composites (pe_inode pe) n) rp tx = (Inr [], ?tx)"
    using rmComposite_ready [OF rd wf rm(1,2)] rm_statements_ready [OF rd wf rm(1,2), of "\<lambda>_ _. return_ok ([] :: int list)"] ex res
    by (simp add: rm_spec_def and_then_ok)
  then show "\<exists>tx'. o_run (rm_spec sid composites (pe_inode pe) n) rp tx = (Inr [], tx')
      \<and> in_sync sid e r \<rho> (AList.delete (path_of (ps @ [n])) c) tx'"
    using rm(3) by blast
qed (auto simp: AList.delete_eq intro!: inos_subset)

subsection \<open>chmod, utimes, link\<close>

lemma inos_patch: "inos (cache_change (PatchInode i ep) c) = inos c"
  by (induction c) (auto simp: inos_def patch_entry_def)

lemma sim_update_spec:
  assumes q: "valid_names q" and x: "map_of c (path_of q) = Some x"
    and u: "\<not> (u_mode u = None \<and> u_size u = None \<and> u_mtime u = None \<and> u_sha u = None)"
    and ep: "u_size u = None" "u_sha u = None" "ep_mode ep = u_mode u" "ep_mtime ep = u_mtime u"
  shows "simulates sid (o_run (update_spec kind sid (pe_inode x) u)) 0 c (\<lambda>_. cache_change (PatchInode (pe_inode x) ep) c)"
proof (rule simulates_nomint)
  fix e r \<rho> tx and rp :: replay_context
  assume s: "in_sync sid e r \<rho> c tx" and ex: "r_expected rp = e" and rs: "resolves rp \<rho> c"
  let ?i = "\<rho> (pe_inode x)"
  have res: "r_resolve rp (pe_inode x) = Inr ?i" using rs inos_I [OF x] by (simp add: resolves_def)
  have rd: "ready sid e tx" and wf: "wf_db (t_db tx)" and root: "root_of (t_db tx) sid = Some r"
    and co: "cohere \<rho> c (db_lookup (t_db tx) r)" and inj: "inj_on \<rho> (inos c)" using s by (simp_all add: in_sync_def)
  obtain row where row: "node (t_db tx) ?i = Some row" "i_sandbox row = sid" using in_sync_entry [OF s q x] by metis
  let ?row = "patch_inode_row u row" and ?tx = "on_db (put_inode ?i (patch_inode_row u row)) (bumped sid tx)"
  let ?f = "\<lambda>y. y\<lparr>pe_mode := coalesce (u_mode u) (pe_mode y), pe_mtime := coalesce (u_mtime u) (pe_mtime y)\<rparr>"
  have run: "o_run (update_spec kind sid (pe_inode x) u) rp tx = (Inr [], ?tx)"
    using updateInode_ready [OF rd row u] ex res by (simp add: update_spec_def and_then_ok)
  have f: "entry_of_row ?i ?row = ?f (entry_of_row ?i row)"
    using ep by (simp add: entry_of_row_def patch_inode_row_def coalesce_def)
  have look: "db_lookup (t_db ?tx) r = tree_patch ?i ?f (db_lookup (t_db tx) r)"
    using lookup_patch [of "bump sid (t_db tx)" ?i row ?row ?f r] f row by simp
  have norm: "norm_entry \<rho> (patch_entry ep a) = norm_entry id (?f b)" if "norm_entry \<rho> a = norm_entry id b" for a b
    using that ep(3,4) by (cases a; cases b) (simp add: norm_entry_def patch_entry_def)
  have "in_sync sid e r \<rho> (cache_change (PatchInode (pe_inode x) ep) c) ?tx"
  proof (rule in_sync_tx [OF s])
    show "ready sid e ?tx" using rd by (intro ready_on_db) simp_all
    show "wf_db (t_db ?tx)"
      using wf_patch [of "bump sid (t_db tx)" ?i row ?row] wf row by (simp add: patch_inode_row_def)
    show "cohere \<rho> (cache_change (PatchInode (pe_inode x) ep) c) (db_lookup (t_db ?tx) r)"
      unfolding look
      by (rule cohere_patch [OF co inj inos_I [OF x] norm])
    show "inos (cache_change (PatchInode (pe_inode x) ep) c) \<subseteq> inos c"
      by (simp only: inos_patch order_refl)
  qed (use root in simp)
  then show "\<exists>tx'. o_run (update_spec kind sid (pe_inode x) u) rp tx = (Inr [], tx')
      \<and> in_sync sid e r \<rho> (cache_change (PatchInode (pe_inode x) ep) c) tx'" using run by blast
qed (simp only: inos_patch order_refl)

lemma sim_link_spec:
  assumes src: "valid_names src" "map_of c (path_of src) = Some x" "pe_kind x \<noteq> DIRECTORY"
    and q: "valid_names (ps @ [n])" and p: "map_of c (path_of ps) = Some pe" "pe_kind pe = DIRECTORY"
    and free: "map_of c (path_of (ps @ [n])) = None"
  shows "simulates sid (o_run (link_spec sid (pe_inode x) (pe_inode pe) n)) 0 c (\<lambda>_. AList.update (path_of (ps @ [n])) x c)"
proof (rule simulates_nomint)
  fix e r \<rho> tx and rp :: replay_context
  assume s: "in_sync sid e r \<rho> c tx" and ex: "r_expected rp = e" and rs: "resolves rp \<rho> c"
  let ?i = "\<rho> (pe_inode x)" and ?p = "\<rho> (pe_inode pe)"
  have res: "r_resolve rp (pe_inode x) = Inr ?i" "r_resolve rp (pe_inode pe) = Inr ?p"
    using rs inos_I [OF src(2)] inos_I [OF p(1)] by (simp_all add: resolves_def)
  have rd: "ready sid e tx" and wf: "wf_db (t_db tx)" and root: "root_of (t_db tx) sid = Some r" using s by (simp_all add: in_sync_def)
  have ps: "valid_names ps" and n: "valid_name n" using q by simp_all
  obtain y where y: "db_lookup (t_db tx) r src = Some y" "norm_entry \<rho> x = norm_entry id y"
    using s src by (meson cohere_Some in_sync_def)
  obtain row where row: "node (t_db tx) ?i = Some row" "i_sandbox row = sid" "i_kind row = pe_kind x"
      "walk (t_db tx) r src = Some ?i"
    using in_sync_entry [OF s src(1,2)] by metis
  have ye: "y = entry_of_row ?i row" using y(1) row by (simp add: db_lookup_def)
  note dir = in_sync_dir [OF s ps p]
  have fr: "child (t_db tx) ?p n = None" using in_sync_child [OF s q dir(2)] free by simp
  let ?tx = "on_db (add_link sid ?p n ?i row) (bumped sid tx)"
  have run: "o_run (link_spec sid (pe_inode x) (pe_inode pe) n) rp tx = (Inr [], ?tx)"
    using link_ready [OF rd row(1,2) dir(1) fr, of "\<lambda>_. return_ok ([] :: int list)"] ex res by (simp add: link_spec_def)
  let ?d = "bump sid (t_db tx)"
  have d: "wf_db ?d" "root_of ?d sid = Some r" "walk ?d r ps = Some ?p" "dir_of sid ?p ?d" "node ?d ?i = Some row" "child ?d ?p n = None"
    using wf root dir row fr by simp_all
  have nk: "i_kind row \<noteq> DIRECTORY" using row src(3) by simp
  have "in_sync sid e r \<rho> (AList.update (path_of (ps @ [n])) x c) ?tx \<and> inos (AList.update (path_of (ps @ [n])) x c) \<subseteq> inos c \<union> set []"
  proof (rule in_sync_set [OF s q])
    show "ready sid e ?tx" using rd by (intro ready_on_db) (simp_all add: add_link_def)
    show "wf_db (t_db ?tx)" using wf_add_link(1) [OF d(1,5) row(2) nk d(4,6) n] by simp
    show "root_of (t_db ?tx) sid = Some r" using root by (simp add: add_link_def)
    show "db_lookup (t_db ?tx) r = tree_set (ps @ [n]) y (db_lookup (t_db tx) r)"
      using lookup_add_link [OF d(1-5) nk, of n] ye by simp
    show "insert (pe_inode x) (inos c) \<subseteq> inos c \<union> set []" using inos_I [OF src(2)] by auto
  qed (use free y(2) in simp_all)
  then show "\<exists>tx'. o_run (link_spec sid (pe_inode x) (pe_inode pe) n) rp tx = (Inr [], tx')
      \<and> in_sync sid e r \<rho> (AList.update (path_of (ps @ [n])) x c) tx'" using run by blast
qed (use inos_update [of "path_of (ps @ [n])" x c] inos_I [OF src(2)] in auto)

end
