(* ===== verification/MoveSim.thy ===== *)
theory MoveSim
  imports Simulation
begin

text \<open>
  \<open>mv\<close>: the composite (clear the destination, bump, rename) and the single statements (rename, then
  unlink what was displaced) both move the subtree, and the cache changes of \<open>mv\<close> move the same keys.
\<close>

section \<open>The database side\<close>

lemma node_move_entry [simp]: "node (move_entry old new x d) = node d"
  by (simp add: move_entry_def)

lemma unlink_db_move:
  assumes keys: "distinct (map fst (dirents d))" and row: "node d j = Some row"
    and one: "i_nlink row \<le> 1 \<Longrightarrow> links d j = {}" and leaf: "\<And>m. child d j m = None"
    and x: "map_of (dirents d) old = Some x" "d_inode x \<noteq> j" and new: "fst new \<noteq> j"
  shows "unlink_db j (move_entry old new x d) = move_entry old new x (unlink_db j d)"
proof (cases "i_nlink row \<le> 1")
  case False
  then have "unlink_db j (move_entry old new x d) = put_inode j (row\<lparr>i_nlink := i_nlink row - 1\<rparr>) (move_entry old new x d)"
    "unlink_db j d = put_inode j (row\<lparr>i_nlink := i_nlink row - 1\<rparr>) d" using row by (simp_all add: unlink_db_def)
  then show ?thesis by (simp add: move_entry_def put_inode_def put_dirent_def del_dirent_def)
next
  case True
  have free: "fst k \<noteq> j \<and> d_inode e \<noteq> j" if "map_of (dirents d) k = Some e" for k e
    using one [OF True] leaf [of "snd k"] that by (cases k) (auto simp: mem_links_iff set_eq_iff child_def)
  have 1: "dirents (del_inode j d) = dirents d"
    by (rule dirents_del_inode_unlinked [OF free keys])
  have 2: "dirents (del_inode j (move_entry old new x d)) = dirents (move_entry old new x d)"
  proof (rule dirents_del_inode_unlinked)
    show "distinct (map fst (dirents (move_entry old new x d)))"
      using keys by (simp add: move_entry_def put_dirent_def del_dirent_def distinct_update distinct_delete)
    show "fst k \<noteq> j \<and> d_inode e \<noteq> j" if "map_of (dirents (move_entry old new x d)) k = Some e" for k e
      using that free x new by (auto simp: move_entry_def split: if_splits)
  qed
  have "del_inode j (move_entry old new x d) = move_entry old new x (del_inode j d)"
    using 1 2 by (simp add: del_inode_def move_entry_def put_dirent_def del_dirent_def)
  then show ?thesis using row True by (simp add: unlink_db_def)
qed

lemma walk_remove_entry:
  assumes wf: "wf_db d" and root: "root_of d sid = Some r" and ps: "walk d r ps = Some p" and dir: "dir_of sid p d"
    and leaf: "\<And>i m. child d p n = Some i \<Longrightarrow> child d i m = None"
  shows "walk (remove_entry p n d) r segs = (if prefix (ps @ [n]) segs then None else walk d r segs)"
    and "wf_db (remove_entry p n d)"
    and "db_lookup (remove_entry p n d) r = tree_del (ps @ [n]) (db_lookup d r)"
proof -
  obtain pr where pr: "node d p = Some pr" "i_kind pr = DIRECTORY" using dir by (auto simp: dir_of_def)
  have uniq: "walk d r qs = Some p \<Longrightarrow> qs = ps" for qs
    using wf_dir_unique_path [OF wf root pr] ps by blast
  have none: "walk d r (ps @ n # rest) = None" if "child d p n = None" for rest
    using that ps by (simp add: walkc_append)
  have "walk (remove_entry p n d) r segs = (if prefix (ps @ [n]) segs then None else walk d r segs)
      \<and> wf_db (remove_entry p n d) \<and> db_lookup (remove_entry p n d) r = tree_del (ps @ [n]) (db_lookup d r)"
  proof (cases "child d p n")
    case None
    then have "walk d r qs = None" if "prefix (ps @ [n]) qs" for qs using none that by (auto simp: prefix_def)
    then show ?thesis using None wf by (auto simp: remove_entry_def tree_del_def fun_eq_iff db_lookup_def)
  next
    case (Some i)
    note l = leaf [OF Some]
    show ?thesis
      using walkc_remove [OF ps uniq, of n segs] wf_remove_entry [OF wf Some l] lookup_remove_entry [OF wf root ps dir Some l]
      by simp
  qed
  then show "walk (remove_entry p n d) r segs = (if prefix (ps @ [n]) segs then None else walk d r segs)"
    "wf_db (remove_entry p n d)" "db_lookup (remove_entry p n d) r = tree_del (ps @ [n]) (db_lookup d r)" by blast+
qed

lemma node_remove_entry_dir:
  assumes "dir_of sid q d" and "child d p n \<noteq> Some q"
  shows "dir_of sid q (remove_entry p n d)"
  using assms by (auto simp: dir_of_def remove_entry_def node_unlink_db split: option.split)

lemma dirents_remove_entry:
  assumes wf: "wf_db d" and leaf: "\<And>i m. child d p n = Some i \<Longrightarrow> child d i m = None"
  shows "map_of (dirents (remove_entry p n d)) k = (if k = (p, n) then None else map_of (dirents d) k)"
proof (cases "child d p n")
  case None
  then show ?thesis by (auto simp: remove_entry_def child_def)
next
  case (Some i)
  obtain row where row: "node d i = Some row" using wf_linked(1) [OF wf Some] by blast
  have "dirents (del_inode i (del_dirent (p, n) d)) = dirents (del_dirent (p, n) d)" if "i_nlink row \<le> 1"
  proof (rule dirents_del_inode_unlinked)
    show "distinct (map fst (dirents (del_dirent (p, n) d)))"
      using wf by (simp add: wf_off_def wf_keys_def del_dirent_def distinct_delete)
    show "fst k \<noteq> i \<and> d_inode e \<noteq> i" if "map_of (dirents (del_dirent (p, n) d)) k = Some e" for k e
      using that wf_links_one [OF wf Some row \<open>i_nlink row \<le> 1\<close>] leaf [OF Some, of "snd k"]
      by (cases k) (auto simp: mem_links_iff set_eq_iff child_def split: if_splits)
  qed
  then show ?thesis using Some row by (auto simp: remove_entry_def unlink_db_def)
qed

text \<open>The preconditions of a move in a well-formed database.\<close>

definition movable :: "string \<Rightarrow> int \<Rightarrow> db \<Rightarrow> string list \<Rightarrow> int \<Rightarrow> string \<Rightarrow> int \<Rightarrow> string list \<Rightarrow> int \<Rightarrow> string \<Rightarrow> bool" where
  "movable sid r d ss sp sn i ds dp dn \<longleftrightarrow>
     wf_db d \<and> root_of d sid = Some r \<and> walk d r ss = Some sp \<and> dir_of sid sp d \<and> child d sp sn = Some i
     \<and> walk d r ds = Some dp \<and> dir_of sid dp d \<and> valid_name dn
     \<and> \<not> prefix (ss @ [sn]) (ds @ [dn]) \<and> \<not> prefix (ds @ [dn]) (ss @ [sn])
     \<and> (\<forall>j. child d dp dn = Some j \<longrightarrow> j \<noteq> i \<and> (\<forall>m. child d j m = None))"

lemma movable_bump [simp]: "movable sid r (bump sid d) ss sp sn i ds dp dn = movable sid r d ss sp sn i ds dp dn"
  by (simp add: movable_def)

lemma movable_cleared:
  assumes mv: "movable sid r d ss sp sn i ds dp dn"
  defines "d1 \<equiv> remove_entry dp dn d"
  shows "wf_db d1" "root_of d1 sid = Some r" "walk d1 r ss = Some sp" "dir_of sid sp d1" "walk d1 r ds = Some dp"
    "dir_of sid dp d1" "child d1 dp dn = None" "db_lookup d1 r = tree_del (ds @ [dn]) (db_lookup d r)"
    "\<And>x. map_of (dirents d) (sp, sn) = Some x \<Longrightarrow> map_of (dirents d1) (sp, sn) = Some x"
proof -
  have m: "wf_db d" "root_of d sid = Some r" "walk d r ss = Some sp" "dir_of sid sp d" "child d sp sn = Some i"
    "walk d r ds = Some dp" "dir_of sid dp d" "\<not> prefix (ss @ [sn]) (ds @ [dn])" "\<not> prefix (ds @ [dn]) (ss @ [sn])"
    and leaf: "child d dp dn = Some j \<Longrightarrow> child d j m = None" for j m
    using mv by (auto simp: movable_def)
  note w = walk_remove_entry [OF m(1,2,6,7) leaf]
  show "wf_db d1" "root_of d1 sid = Some r" "db_lookup d1 r = tree_del (ds @ [dn]) (db_lookup d r)"
    using w(2,3) m(2) by (simp_all add: d1_def)
  have "\<not> prefix (ds @ [dn]) ss" using m(9) by (auto simp: prefix_def)
  then show "walk d1 r ss = Some sp" using w(1) m(3) by (simp add: d1_def)
  have "\<not> prefix (ds @ [dn]) ds" using prefix_length_le [of "ds @ [dn]" ds] by auto
  then show "walk d1 r ds = Some dp" using w(1) m(6) by (simp add: d1_def)
  have "child d dp dn \<noteq> Some sp" using leaf [of sp sn] m(5) by auto
  then show "dir_of sid sp d1" using node_remove_entry_dir [OF m(4)] by (simp add: d1_def)
  have "child d dp dn \<noteq> Some dp" using leaf [of dp dn] by auto
  then show "dir_of sid dp d1" using node_remove_entry_dir [OF m(7)] by (simp add: d1_def)
  have dr: "map_of (dirents d1) k = (if k = (dp, dn) then None else map_of (dirents d) k)" for k
    using dirents_remove_entry [OF m(1) leaf] by (simp add: d1_def)
  then show "child d1 dp dn = None" by (simp add: child_def)
  have "(sp, sn) \<noteq> (dp, dn)"
  proof
    assume "(sp, sn) = (dp, dn)"
    then have "ss = ds" "sn = dn" using wf_dir_unique_path [OF m(1,2) _ _ m(3), of _ ds] m(4,6) by (auto simp: dir_of_def)
    then show False using m(8) by simp
  qed
  then show "map_of (dirents d1) (sp, sn) = Some x" if "map_of (dirents d) (sp, sn) = Some x" for x using dr that by simp
qed

lemma move_result:
  assumes mv: "movable sid r d ss sp sn i ds dp dn" and x: "map_of (dirents d) (sp, sn) = Some x"
    and d1: "d1 = remove_entry dp dn d \<or> d1 = bump sid (remove_entry dp dn d)"
  shows "wf_db (move_entry (sp, sn) (dp, dn) x d1)"
    and "root_of (move_entry (sp, sn) (dp, dn) x d1) sid = Some r"
    and "db_lookup (move_entry (sp, sn) (dp, dn) x d1) r = tree_move (ss @ [sn]) (ds @ [dn]) (tree_del (ds @ [dn]) (db_lookup d r))"
proof -
  note c = movable_cleared [OF mv]
  have own: "d_sandbox x = sid" and vn: "valid_name dn" and out: "\<not> prefix (ss @ [sn]) ds"
    using mv x wf_entry_own(1) [of "\<lambda>_. 0" d sid sp sn x] by (auto simp: movable_def dir_of_in_sandbox)
  have f: "wf_db d1" "root_of d1 sid = Some r" "walk d1 r ss = Some sp" "dir_of sid sp d1" "walk d1 r ds = Some dp"
    "dir_of sid dp d1" "child d1 dp dn = None" "db_lookup d1 r = tree_del (ds @ [dn]) (db_lookup d r)"
    "map_of (dirents d1) (sp, sn) = Some x"
    using d1 c(1-8) c(9) [OF x] by auto
  show "wf_db (move_entry (sp, sn) (dp, dn) x d1)" using wf_move_entry(1) [OF f(1,9) own f(6,7) vn] .
  show "root_of (move_entry (sp, sn) (dp, dn) x d1) sid = Some r" using f(2) by (simp add: move_entry_def)
  show "db_lookup (move_entry (sp, sn) (dp, dn) x d1) r = tree_move (ss @ [sn]) (ds @ [dn]) (tree_del (ds @ [dn]) (db_lookup d r))"
    using lookup_move_entry [OF f(1-4,9,5,6) out] f(8) by simp
qed

lemma movable_entry:
  assumes mv: "movable sid r (t_db tx) ss sp sn i ds dp dn" and rd: "ready sid e tx"
  shows "\<exists>x. get_dirent tx (sp, sn) = Some x \<and> map_of (dirents (t_db tx)) (sp, sn) = Some x \<and> d_inode x = i"
  using mv visible_entry [OF rd, of "\<lambda>_. 0" sp sn i] by (auto simp: movable_def)

lemma clear_target_ready:
  assumes mv: "movable sid r (t_db tx) ss sp sn i ds dp dn" and rd: "ready sid e tx"
  shows "(case get_dirent tx (dp, dn) of None \<Rightarrow> tx
      | Some x \<Rightarrow> drop_link (d_inode x) (on_db (del_dirent (dp, dn)) tx)) = on_db (remove_entry dp dn) tx"
proof -
  have wf: "wf_db (t_db tx)" and dir: "dir_of sid dp (t_db tx)" using mv by (simp_all add: movable_def)
  have g: "get_dirent tx (dp, dn) = map_of (dirents (t_db tx)) (dp, dn)"
    by (rule get_dirent_ready [OF rd wf dir_of_in_sandbox [OF dir]])
  show ?thesis
  proof (cases "map_of (dirents (t_db tx)) (dp, dn)")
    case None
    then have "child (t_db tx) dp dn = None" by (simp add: child_def)
    then show ?thesis using None g by (simp add: remove_entry_def on_db_def)
  next
    case (Some x)
    then have ch: "child (t_db tx) dp dn = Some (d_inode x)" by (simp add: child_def)
    have "drop_link (d_inode x) (on_db (del_dirent (dp, dn)) tx) = on_db (unlink_db (d_inode x)) (on_db (del_dirent (dp, dn)) tx)"
      using wf_child_own [OF wf dir_of_in_sandbox [OF dir] ch] ready_on_db [OF rd, of "del_dirent (dp, dn)"]
      by (intro drop_link_ready) simp_all
    then show ?thesis using Some g ch by (auto simp: remove_entry_def intro: on_db_cong)
  qed
qed

lemma version_of_remove_entry [simp]: "version_of (remove_entry p n d) = version_of d"
  by (simp add: remove_entry_def split: option.split)

lemma version_of_move_entry [simp]: "version_of (move_entry old new x d) = version_of d"
  by (simp add: move_entry_def)

lemma mvComposite_ready:
  assumes mv: "movable sid r (t_db tx) ss sp sn i ds dp dn" and rd: "ready sid e tx"
    and x: "map_of (dirents (t_db tx)) (sp, sn) = Some x"
  shows "\<exists>tx'. mvComposite sid sp sn dp dn (Some e) tx = (Inr (), tx') \<and> ready sid e tx'
    \<and> t_db tx' = move_entry (sp, sn) (dp, dn) x (bump sid (remove_entry dp dn (bump sid (t_db tx))))"
proof -
  let ?t1 = "bumped sid (lockd sid tx)"
  let ?t2 = "bumped sid (lockd sid (on_db (remove_entry dp dn) ?t1))"
  have rd1: "ready sid e ?t1" using rd by simp
  have mv1: "movable sid r (t_db ?t1) ss sp sn i ds dp dn" using mv by simp
  have rd2: "ready sid e ?t2"
    using ready_on_db [OF rd1, of "remove_entry dp dn"] by simp
  note c = movable_cleared [OF mv1]
  have x2: "map_of (dirents (t_db ?t2)) (sp, sn) = Some x" using c(9) x by simp
  have own: "d_sandbox x = sid" using mv x wf_entry_own(1) [of "\<lambda>_. 0" "t_db tx" sid sp sn x] by (auto simp: movable_def dir_of_in_sandbox)
  have g2: "get_dirent ?t2 (sp, sn) = Some x" using x2 own rd by (simp add: get_dirent_def)
  have free: "map_of (dirents (t_db ?t2)) (dp, dn) = None" using c(7) by (simp add: child_def)
  have dir: "dir_of sid (fst (dp, dn)) (t_db ?t2)" using c(6) by simp
  have ren: "rename_dirent (sp, sn) (dp, dn) (ENOENT sn) ?t2 = (Inr (), on_db (move_entry (sp, sn) (dp, dn) x) ?t2)"
    by (rule rename_ready [OF rd2 g2 dir free])
  have "mvComposite sid sp sn dp dn (Some e) tx = (Inr (), on_db (move_entry (sp, sn) (dp, dn) x) ?t2)"
    using rd clear_target_ready [OF mv1 rd1] ready_on_db [OF rd1, of "remove_entry dp dn"] ren
    by (simp add: mvComposite_def and_then_ok)
  moreover have "ready sid e (on_db (move_entry (sp, sn) (dp, dn) x) ?t2)" using rd2 by (rule ready_on_db) simp
  ultimately show ?thesis by simp
qed

lemma moveDirent_ready:
  assumes mv: "movable sid r (t_db tx) ss sp sn i ds dp dn" and rd: "ready sid e tx"
    and x: "map_of (dirents (t_db tx)) (sp, sn) = Some x"
  shows "moveDirent sp sn dp dn sid (Some e) tx =
    (Inr (), on_db (move_entry (sp, sn) (dp, dn) x) (on_db (if child (t_db tx) dp dn = None then id else del_dirent (dp, dn)) (bumped sid tx)))"
proof -
  let ?t1 = "bumped sid tx" and ?f = "if child (t_db tx) dp dn = None then id else del_dirent (dp, dn)"
  have rd1: "ready sid e ?t1" using rd by simp
  have m: "wf_db (t_db tx)" "dir_of sid dp (t_db tx)" "dir_of sid sp (t_db tx)" using mv by (simp_all add: movable_def)
  have g: "get_dirent tx (dp, dn) = map_of (dirents (t_db tx)) (dp, dn)"
    by (rule get_dirent_ready [OF rd m(1) dir_of_in_sandbox [OF m(2)]])
  have ne: "(sp, sn) \<noteq> (dp, dn)" using movable_cleared(9) [OF mv x] movable_cleared(7) [OF mv] by (auto simp: child_def)
  have own: "d_sandbox x = sid" using x wf_entry_own(1) [OF m(1) dir_of_in_sandbox [OF m(3)]] by blast
  have rd2: "ready sid e (on_db ?f ?t1)" using rd1 by (rule ready_on_db) simp
  have clear: "(if get_dirent ?t1 (dp, dn) = None then ?t1 else on_db (del_dirent (dp, dn)) ?t1) = on_db ?f ?t1"
    using g by (simp add: child_def on_db_def)
  have ren: "rename_dirent (sp, sn) (dp, dn) (ENOENT sn) (on_db ?f ?t1) = (Inr (), on_db (move_entry (sp, sn) (dp, dn) x) (on_db ?f ?t1))"
  proof (rule rename_ready [OF rd2])
    show "get_dirent (on_db ?f ?t1) (sp, sn) = Some x" using x ne own rd by (auto simp: get_dirent_def)
    show "dir_of sid (fst (dp, dn)) (t_db (on_db ?f ?t1))" using m(2) by simp
    show "map_of (dirents (t_db (on_db ?f ?t1))) (dp, dn) = None" by (simp add: child_def)
  qed
  show ?thesis using rd clear ren unfolding moveDirent_def by (simp add: and_then_ok)
qed

lemma move_then_unlink:
  assumes mv: "movable sid r (t_db tx) ss sp sn i ds dp dn" and rd: "ready sid e tx"
    and x: "map_of (dirents (t_db tx)) (sp, sn) = Some x"
  shows "\<exists>tx'. and_then (moveDirent sp sn dp dn sid (Some e)) (\<lambda>_.
      and_then (case child (t_db tx) dp dn of None \<Rightarrow> return_ok () | Some j \<Rightarrow> unlink_inode j) k) tx = k () tx' \<and> ready sid e tx'
    \<and> t_db tx' = move_entry (sp, sn) (dp, dn) x (remove_entry dp dn (bump sid (t_db tx)))"
proof (cases "child (t_db tx) dp dn")
  case None
  then show ?thesis
    using moveDirent_ready [OF mv rd x] ready_on_db [OF ready_bumped [OF rd], of "move_entry (sp, sn) (dp, dn) x"]
    by (intro exI [of _ "on_db (move_entry (sp, sn) (dp, dn) x) (bumped sid tx)"]) (simp add: and_then_ok remove_entry_def)
next
  case (Some j)
  have m: "wf_db (t_db tx)" "dir_of sid dp (t_db tx)" "child (t_db tx) sp sn = Some i" "j \<noteq> i"
    and leaf: "child (t_db tx) j m = None" for m using mv Some by (auto simp: movable_def)
  obtain row where row: "node (t_db tx) j = Some row" "i_sandbox row = sid" "1 \<le> i_nlink row"
    using wf_linked(1) [OF m(1) Some] wf_child_own [OF m(1) dir_of_in_sandbox [OF m(2)] Some] by (auto simp: in_sandbox_def)
  let ?d = "del_dirent (dp, dn) (bump sid (t_db tx))"
  let ?t = "on_db (\<lambda>d. move_entry (sp, sn) (dp, dn) x (del_dirent (dp, dn) d)) (bumped sid tx)"
  have ne: "(sp, sn) \<noteq> (dp, dn)" using m(3,4) Some by auto
  have comm: "unlink_db j (move_entry (sp, sn) (dp, dn) x ?d) = move_entry (sp, sn) (dp, dn) x (unlink_db j ?d)"
  proof (rule unlink_db_move [where row = row])
    show "distinct (map fst (dirents ?d))" using m(1) by (simp add: wf_off_def wf_keys_def del_dirent_def distinct_delete)
    show "links ?d j = {}" if "i_nlink row \<le> 1"
      using wf_links_one [OF m(1) Some row(1) that] by (simp add: links_del_dirent)
    show "child ?d j m = None" for m using leaf by (auto simp: child_del_dirent)
    show "map_of (dirents ?d) (sp, sn) = Some x" using x ne by simp
    show "d_inode x \<noteq> j" using x m(3,4) by (simp add: child_def)
    show "fst (dp, dn) \<noteq> j" using leaf [of dn] Some by auto
  qed (use row in simp)
  have rd2: "ready sid e ?t" using ready_bumped [OF rd] by (rule ready_on_db) simp
  have "unlink_inode j ?t = (Inr (), on_db (unlink_db j) ?t)"
    by (rule unlink_inode_ready [OF rd2, of j row]) (use row in simp_all)
  moreover have "ready sid e (on_db (unlink_db j) ?t)" using rd2 by (rule ready_on_db) simp
  ultimately show ?thesis
    using moveDirent_ready [OF mv rd x] Some comm
    by (intro exI [of _ "on_db (unlink_db j) ?t"]) (simp add: and_then_ok remove_entry_def)
qed

section \<open>The cache side\<close>

lemma cache_deletes: "map_of (fold cache_change (map DeletePath ps) c) k = (if k \<in> set ps then None else map_of c k)"
  by (induction ps arbitrary: c) auto

lemma cache_sets:
  assumes "distinct (map fst kvs)"
  shows "map_of (fold cache_change (map (\<lambda>(k, e). SetPath k e) kvs) c) k =
    (case map_of kvs k of Some e \<Rightarrow> Some e | None \<Rightarrow> map_of c k)"
  using assms
proof (induction kvs arbitrary: c)
  case (Cons a kvs)
  have "map_of kvs (fst a) = None" using Cons.prems by (simp add: map_of_eq_None_iff)
  then show ?case using Cons by (cases a) (auto split: option.split)
qed simp

lemma distinct_cache_changes: "distinct (map fst c) \<Longrightarrow> distinct (map fst (fold cache_change chs c))"
  by (induction chs arbitrary: c) (auto simp: distinct_cache_change)

lemma cohere_I_maps:
  assumes "cohere \<rho> c T" and "distinct (map fst c')" and "\<And>p e. map_of c' p = Some e \<Longrightarrow> normal_path p"
    and "\<And>segs. valid_names segs \<Longrightarrow> map_option (norm_entry \<rho>) (map_of c' (path_of segs)) = map_option (norm_entry id) (T' segs)"
  shows "cohere \<rho> c' T'"
  unfolding cohere_def
proof (intro conjI allI impI ballI)
  fix p assume "p \<in> fst ` set c'"
  then obtain e where "map_of c' p = Some e" using in_keys_map_of [of p c'] by auto
  then show "normal_path p" by (rule assms(3))
qed (use assms in simp_all)

lemma under_iff:
  assumes "valid_names a" and "valid_names b"
  shows "(path_of b = path_of a \<or> path_of b \<noteq> path_of a \<and> prefix (dir_prefix (path_of a)) (path_of b)) \<longleftrightarrow> prefix a b"
  using starts_with_iff [OF assms] path_of_inject [OF assms(2,1)] by (auto simp: strict_prefix_def)

definition normal_keys :: "path_rows \<Rightarrow> bool" where
  "normal_keys c \<longleftrightarrow> (\<forall>p e. map_of c p = Some e \<longrightarrow> normal_path p)"

lemma cohere_normal_keys: "cohere \<rho> c T \<Longrightarrow> normal_keys c"
  by (auto simp: normal_keys_def dest: cohere_normal)

lemma set_pathsUnder:
  assumes a: "valid_names a" "map_of (v_cache s) (path_of a) \<noteq> None"
    and b: "valid_names b"
  shows "path_of b \<in> set (pathsUnder s (path_of a)) \<longleftrightarrow> prefix a b \<and> map_of (v_cache s) (path_of b) \<noteq> None"
  using under_iff [OF a(1) b] a(2) in_keys_map_of [of "path_of b" "v_cache s"]
  by (auto simp: pathsUnder_def)

definition image_rows :: "('a \<Rightarrow> 'k) \<Rightarrow> ('a \<Rightarrow> 'v option) \<Rightarrow> 'a list \<Rightarrow> ('k \<times> 'v) list" where
  "image_rows f g ps = concat (map (\<lambda>p. case g p of None \<Rightarrow> [] | Some e \<Rightarrow> [(f p, e)]) ps)"

lemma image_rows_simps [simp]:
  "image_rows f g [] = []"
  "image_rows f g (p # ps) = (case g p of None \<Rightarrow> image_rows f g ps | Some e \<Rightarrow> (f p, e) # image_rows f g ps)"
  by (simp_all add: image_rows_def split: option.split)

lemma keys_image_rows: "fst ` set (image_rows f g ps) \<subseteq> f ` set ps"
  by (induction ps) (auto split: option.splits)

lemma values_image_rows: "snd ` set (image_rows f g ps) \<subseteq> {e. \<exists>p \<in> set ps. g p = Some e}"
  by (induction ps) (auto split: option.splits)

lemma map_of_image_rows_None: "k \<notin> f ` set ps \<Longrightarrow> map_of (image_rows f g ps) k = None"
  using keys_image_rows [of f g ps] by (auto simp: map_of_eq_None_iff)

lemma map_of_image_rows: "inj_on f (set ps) \<Longrightarrow> p \<in> set ps \<Longrightarrow> map_of (image_rows f g ps) (f p) = g p"
proof (induction ps)
  case (Cons q ps)
  show ?case
  proof (cases "p = q")
    case True
    show ?thesis
    proof (cases "g q = None \<and> p \<in> set ps")
      case True
      then show ?thesis using Cons by simp
    next
      case False
      then show ?thesis using True Cons.prems map_of_image_rows_None [of "f p" f ps g]
        by (cases "g q") (auto simp: inj_on_def)
    qed
  next
    case False
    then have "f q \<noteq> f p" using Cons.prems by (auto simp: inj_on_def)
    then show ?thesis using False Cons by (auto split: option.split)
  qed
qed simp

lemma distinct_image_rows: "distinct ps \<Longrightarrow> inj_on f (set ps) \<Longrightarrow> distinct (map fst (image_rows f g ps))"
proof (induction ps)
  case (Cons q ps)
  then have "f q \<notin> fst ` set (image_rows f g ps)" using keys_image_rows [of f g ps] by (auto simp: inj_on_def)
  then show ?case using Cons by (auto split: option.split)
qed simp

lemma mv_changes_rows:
  "mv_changes s src dest =
     map DeletePath (pathsUnder s src @ filter (\<lambda>key. key = dest \<or> prefix (dir_prefix dest) key) (view_paths s))
     @ map (\<lambda>(k, e). SetPath k e) (image_rows (\<lambda>p. dest @ drop (length src) p) (view_get s) (pathsUnder s src))"
proof -
  have "concat (map (\<lambda>p. case view_get s p of None \<Rightarrow> [] | Some e \<Rightarrow> [SetPath (dest @ drop (length src) p) e]) ps) =
      map (\<lambda>(k, e). SetPath k e) (image_rows (\<lambda>p. dest @ drop (length src) p) (view_get s) ps)" for ps
    by (induction ps) (auto split: option.split)
  then show ?thesis by (simp add: mv_changes_def)
qed

lemma pathsUnder_segs:
  assumes keys: "normal_keys (v_cache s)" and a: "valid_names a"
    and p: "p \<in> set (pathsUnder s (path_of a))"
  obtains ys where "valid_names (a @ ys)" and "p = path_of (a @ ys)"
proof (cases "p = path_of a")
  case True
  then show ?thesis using that [of "[]"] a by simp
next
  case False
  then have "p \<in> fst ` set (v_cache s)" "prefix (dir_prefix (path_of a)) p" using p by (auto simp: pathsUnder_def)
  then obtain e where "map_of (v_cache s) p = Some e" using in_keys_map_of [of p "v_cache s"] by auto
  then obtain b where b: "valid_names b" "p = path_of b" using keys unfolding normal_keys_def by (metis normal_pathE)
  then have "prefix a b" using under_iff [OF a b(1)] False \<open>prefix (dir_prefix (path_of a)) p\<close> by auto
  then show ?thesis using that b by (auto simp: prefix_def)
qed

lemma mv_cache:
  assumes co: "cohere \<rho> (v_cache s) T" and a: "valid_names a" "a \<noteq> []" "map_of (v_cache s) (path_of a) \<noteq> None"
    and b: "valid_names b" "b \<noteq> []" and ab: "\<not> prefix a b" "\<not> prefix b a" and v: "valid_names segs"
  shows "map_of (fold cache_change (mv_changes s (path_of a) (path_of b)) (v_cache s)) (path_of segs) =
    (if prefix b segs then map_of (v_cache s) (path_of (a @ drop (length b) segs))
     else if prefix a segs then None else map_of (v_cache s) (path_of segs))"
proof -
  let ?c = "v_cache s" and ?PU = "pathsUnder s (path_of a)" and ?f = "\<lambda>p. path_of b @ drop (length (path_of a)) p"
  have keys: "normal_keys ?c" using co by (rule cohere_normal_keys)
  note PU = set_pathsUnder [OF a(1,3)]
  have f: "?f (path_of (a @ ys)) = path_of (b @ ys)" if "valid_names (a @ ys)" for ys
    using graft_subtree_path [OF a(1,2) b] by simp
  have inj: "inj_on ?f (set ?PU)"
  proof (rule inj_onI)
    fix p q assume pq: "p \<in> set ?PU" "q \<in> set ?PU" "?f p = ?f q"
    obtain ys where ys: "valid_names (a @ ys)" "p = path_of (a @ ys)" using pathsUnder_segs [OF keys a(1) pq(1)] by blast
    obtain zs where zs: "valid_names (a @ zs)" "q = path_of (a @ zs)" using pathsUnder_segs [OF keys a(1) pq(2)] by blast
    have "b @ ys = b @ zs" using pq(3) f [OF ys(1)] f [OF zs(1)] ys zs b by (simp only: path_of_inject list_all_append)
    then show "p = q" using ys zs by simp
  qed
  have "distinct ?PU" using cohere_distinct [OF co] by (simp add: pathsUnder_def)
  then have dist: "distinct (map fst (image_rows ?f (view_get s) ?PU))" using inj by (rule distinct_image_rows)
  have under_b: "path_of segs \<in> set (filter (\<lambda>key. key = path_of b \<or> prefix (dir_prefix (path_of b)) key) (view_paths s))
      \<longleftrightarrow> prefix b segs \<and> map_of ?c (path_of segs) \<noteq> None"
    using under_iff [OF b(1) v] in_keys_map_of [of "path_of segs" ?c] by (auto simp: view_paths_def)
  have del: "map_of (fold cache_change (map DeletePath (?PU @ filter (\<lambda>key. key = path_of b \<or> prefix (dir_prefix (path_of b)) key) (view_paths s))) ?c)
      (path_of segs) = (if prefix a segs \<or> prefix b segs then None else map_of ?c (path_of segs))"
    unfolding cache_deletes using PU [OF v] under_b by auto
  have rows: "map_of (image_rows ?f (view_get s) ?PU) (path_of segs) =
      (if prefix b segs then map_of ?c (path_of (a @ drop (length b) segs)) else None)"
  proof (cases "prefix b segs")
    case True
    then obtain ys where ys: "segs = b @ ys" by (auto simp: prefix_def)
    have va: "valid_names (a @ ys)" using a(1) v ys by simp
    show ?thesis
    proof (cases "map_of ?c (path_of (a @ ys)) = None")
      case False
      then have "path_of (a @ ys) \<in> set ?PU" using PU [OF va] by simp
      from map_of_image_rows [OF inj this, of "view_get s"] show ?thesis using True ys f [OF va] by (simp add: view_get_def)
    next
      case True
      have "path_of segs \<notin> ?f ` set ?PU"
      proof
        assume "path_of segs \<in> ?f ` set ?PU"
        then obtain q where q: "q \<in> set ?PU" "path_of segs = ?f q" by blast
        obtain zs where zs: "valid_names (a @ zs)" "q = path_of (a @ zs)" using pathsUnder_segs [OF keys a(1) q(1)] by blast
        then have "segs = b @ zs" using q(2) f [OF zs(1)] v b(1) by (simp only: path_of_inject list_all_append)
        then show False using PU [OF zs(1)] q zs True ys by simp
      qed
      then show ?thesis using True ys \<open>prefix b segs\<close> by (simp add: map_of_image_rows_None)
    qed
  next
    case False
    have "path_of segs \<notin> ?f ` set ?PU"
    proof
      assume "path_of segs \<in> ?f ` set ?PU"
      then obtain q where q: "q \<in> set ?PU" "path_of segs = ?f q" by blast
      obtain zs where zs: "valid_names (a @ zs)" "q = path_of (a @ zs)" using pathsUnder_segs [OF keys a(1) q(1)] by blast
      then have "segs = b @ zs" using q(2) f [OF zs(1)] v b(1) by (simp only: path_of_inject list_all_append)
      then show False using False by simp
    qed
    then show ?thesis using False by (simp add: map_of_image_rows_None)
  qed
  show ?thesis
    unfolding mv_changes_rows fold_append comp_apply cache_sets [OF dist] rows del
    using ab by (auto split: option.split)
qed

lemma mv_cache_keys:
  assumes keys: "normal_keys (v_cache s)" and a: "valid_names (ss @ [sn])" and b: "valid_names (ds @ [dn])"
  shows "normal_keys (fold cache_change (mv_changes s (path_of (ss @ [sn])) (path_of (ds @ [dn]))) (v_cache s))"
proof -
  let ?a = "ss @ [sn]" and ?b = "ds @ [dn]"
  let ?f = "\<lambda>p. path_of ?b @ drop (length (path_of ?a)) p" and ?PU = "pathsUnder s (path_of ?a)"
  have sets: "fst ` set (fold cache_change (map (\<lambda>(k, e). SetPath k e) kvs) c) \<subseteq> fst ` set c \<union> fst ` set kvs"
    for kvs :: "(string \<times> path_entry) list" and c
  proof (induction kvs arbitrary: c)
    case (Cons x kvs)
    show ?case using Cons [of "AList.update (fst x) (snd x) c"] by (cases x) (auto simp: dom_update)
  qed simp
  have img: "normal_path p" if p: "p \<in> ?f ` set ?PU" for p
  proof -
    obtain q where q: "q \<in> set ?PU" "p = ?f q" using p by blast
    obtain ys where ys: "valid_names (?a @ ys)" "q = path_of (?a @ ys)" using pathsUnder_segs [OF keys a q(1)] by blast
    have "p = path_of (?b @ ys)" using q(2) ys(2) graft_subtree_path [OF a _ b, of ys] by simp
    moreover have "valid_names (?b @ ys)" using b ys(1) by simp
    ultimately show ?thesis by (simp only: normal_path_of)
  qed
  show ?thesis
    unfolding normal_keys_def mv_changes_rows fold_append comp_apply
  proof (intro allI impI)
    fix p e
    let ?c0 = "fold cache_change (map DeletePath (?PU @ filter (\<lambda>key. key = path_of ?b \<or> prefix (dir_prefix (path_of ?b)) key) (view_paths s))) (v_cache s)"
    assume "map_of (fold cache_change (map (\<lambda>(k, e). SetPath k e) (image_rows ?f (view_get s) ?PU)) ?c0) p = Some e"
    then have "p \<in> fst ` set ?c0 \<union> fst ` set (image_rows ?f (view_get s) ?PU)"
      using sets [of "image_rows ?f (view_get s) ?PU" ?c0] by (force dest: map_of_SomeD)
    then show "normal_path p"
    proof
      assume "p \<in> fst ` set ?c0"
      then obtain z where "map_of ?c0 p = Some z" using in_keys_map_of [of p ?c0] by auto
      then show ?thesis using keys unfolding cache_deletes normal_keys_def by (auto split: if_splits)
    next
      assume "p \<in> fst ` set (image_rows ?f (view_get s) ?PU)"
      then have "p \<in> ?f ` set ?PU" using keys_image_rows [of ?f "view_get s" ?PU] by (rule subsetD [rotated])
      then show ?thesis by (rule img)
    qed
  qed
qed

section \<open>mv simulates\<close>

text \<open>What the guards of \<open>mv\<close> establish on the cache before the mutation is issued.\<close>

definition mv_guards :: "path_rows \<Rightarrow> string list \<Rightarrow> string \<Rightarrow> path_entry \<Rightarrow> path_entry \<Rightarrow> string list \<Rightarrow> string \<Rightarrow> path_entry \<Rightarrow> bool" where
  "mv_guards c ss sn spe x ds dn dpe \<longleftrightarrow>
     valid_names (ss @ [sn]) \<and> valid_names (ds @ [dn])
     \<and> map_of c (path_of ss) = Some spe \<and> map_of c (path_of (ss @ [sn])) = Some x
     \<and> map_of c (path_of ds) = Some dpe \<and> pe_kind dpe = DIRECTORY
     \<and> (pe_kind x = DIRECTORY \<longrightarrow> \<not> prefix (ss @ [sn]) (ds @ [dn]))
     \<and> (\<forall>y. map_of c (path_of (ds @ [dn])) = Some y \<longrightarrow>
          pe_inode y \<noteq> pe_inode x \<and> (pe_kind y \<noteq> DIRECTORY \<or> childless c (ds @ [dn])))"

lemma mv_apart:
  assumes s: "in_sync sid e r \<rho> c tx" and g: "mv_guards c ss sn spe x ds dn dpe"
  shows "\<not> prefix (ss @ [sn]) (ds @ [dn])" and "\<not> prefix (ds @ [dn]) (ss @ [sn])"
proof -
  have co: "cohere \<rho> c (db_lookup (t_db tx) r)" using s by (simp add: in_sync_def)
  have va: "valid_names (ss @ [sn])" and vb: "valid_names (ds @ [dn])" and vd: "valid_names ds"
    and x: "map_of c (path_of (ss @ [sn])) = Some x" and d: "map_of c (path_of ds) = Some dpe" "pe_kind dpe = DIRECTORY"
    and dst: "map_of c (path_of (ds @ [dn])) = Some y \<Longrightarrow> pe_inode y \<noteq> pe_inode x \<and> (pe_kind y \<noteq> DIRECTORY \<or> childless c (ds @ [dn]))" for y
    using g by (auto simp: mv_guards_def)
  have ne: "ss @ [sn] \<noteq> ds @ [dn]" using dst [of x] x by metis
  have lx: "db_lookup (t_db tx) r (ss @ [sn]) \<noteq> None" using cohere_None [OF co va] x by simp
  have ld: "db_lookup (t_db tx) r ds \<noteq> None" using cohere_None [OF co vd] d by simp
  show "\<not> prefix (ss @ [sn]) (ds @ [dn])"
  proof
    assume pre: "prefix (ss @ [sn]) (ds @ [dn])"
    then have nd: "pe_kind x \<noteq> DIRECTORY" using g by (auto simp: mv_guards_def)
    have "prefix (ss @ [sn]) ds" using pre ne by (auto simp: prefix_snoc)
    moreover have "ss @ [sn] \<noteq> ds" using x d nd by auto
    ultimately have "strict_prefix (ss @ [sn]) ds" by (simp add: strict_prefix_def)
    then show False using in_sync_leaf_below [OF s va x] nd ld by simp
  qed
  show "\<not> prefix (ds @ [dn]) (ss @ [sn])"
  proof
    assume "prefix (ds @ [dn]) (ss @ [sn])"
    then have sp: "strict_prefix (ds @ [dn]) (ss @ [sn])" using ne unfolding strict_prefix_def by blast
    show False
    proof (cases "map_of c (path_of (ds @ [dn]))")
      case None
      then show False using in_sync_below [OF s _ vb sp] lx by simp
    next
      case (Some y)
      then show False using in_sync_leaf_below [OF s vb Some _ sp] dst [OF Some] lx by simp
    qed
  qed
qed

lemma mv_movable:
  assumes s: "in_sync sid e r \<rho> c tx" and g: "mv_guards c ss sn spe x ds dn dpe"
  shows "movable sid r (t_db tx) ss (\<rho> (pe_inode spe)) sn (\<rho> (pe_inode x)) ds (\<rho> (pe_inode dpe)) dn"
proof -
  have wf: "wf_db (t_db tx)" and root: "root_of (t_db tx) sid = Some r" and inj: "inj_on \<rho> (inos c)" using s by (simp_all add: in_sync_def)
  have va: "valid_names (ss @ [sn])" "valid_names ss" and vb: "valid_names (ds @ [dn])" "valid_names ds" "valid_name dn"
    and sp: "map_of c (path_of ss) = Some spe" and x: "map_of c (path_of (ss @ [sn])) = Some x"
    and d: "map_of c (path_of ds) = Some dpe" "pe_kind dpe = DIRECTORY"
    and dst: "map_of c (path_of (ds @ [dn])) = Some y \<Longrightarrow> pe_inode y \<noteq> pe_inode x \<and> (pe_kind y \<noteq> DIRECTORY \<or> childless c (ds @ [dn]))" for y
    using g by (auto simp: mv_guards_def)
  obtain row where row: "walk (t_db tx) r ss = Some (\<rho> (pe_inode spe))" "node (t_db tx) (\<rho> (pe_inode spe)) = Some row" "i_sandbox row = sid"
    using in_sync_entry [OF s va(2) sp] by metis
  have ch: "child (t_db tx) (\<rho> (pe_inode spe)) sn = Some (\<rho> (pe_inode x))" using in_sync_child [OF s va(1) row(1)] x by simp
  have "i_kind row = DIRECTORY" using wf_nondir_no_child [OF wf, of "\<rho> (pe_inode spe)" sn] row ch by auto
  then have sdir: "dir_of sid (\<rho> (pe_inode spe)) (t_db tx)" using row by (simp add: dir_of_def)
  note ddir = in_sync_dir [OF s vb(2) d]
  have "j \<noteq> \<rho> (pe_inode x) \<and> (\<forall>m. child (t_db tx) j m = None)" if j: "child (t_db tx) (\<rho> (pe_inode dpe)) dn = Some j" for j
  proof -
    obtain y where y: "map_of c (path_of (ds @ [dn])) = Some y" "j = \<rho> (pe_inode y)"
      using j in_sync_child [OF s vb(1) ddir(2)] by auto
    have "\<rho> (pe_inode y) \<noteq> \<rho> (pe_inode x)" using inj_onD [OF inj] inos_I [OF y(1)] inos_I [OF x] dst [OF y(1)] by blast
    then show ?thesis using y in_sync_childless [OF s vb(1) y(1)] dst [OF y(1)] by auto
  qed
  then show ?thesis
    using wf root row(1) sdir ch ddir vb(3) mv_apart [OF s g] by (simp add: movable_def)
qed

lemma sim_mv_spec:
  assumes g: "mv_guards (v_cache s0) ss sn spe x ds dn dpe"
  shows "simulates sid (o_run (mv_spec sid composites (pe_inode spe) sn (pe_inode dpe) dn
        (map_option pe_inode (map_of (v_cache s0) (path_of (ds @ [dn])))))) 0 (v_cache s0)
      (\<lambda>_. fold cache_change (mv_changes s0 (path_of (ss @ [sn])) (path_of (ds @ [dn]))) (v_cache s0))"
proof (rule simulates_nomint)
  let ?c = "v_cache s0" and ?a = "ss @ [sn]" and ?b = "ds @ [dn]"
  let ?c' = "fold cache_change (mv_changes s0 (path_of ?a) (path_of ?b)) ?c"
  have va: "valid_names ?a" and vb: "valid_names ?b" and sp: "map_of ?c (path_of ss) = Some spe"
    and x: "map_of ?c (path_of ?a) = Some x" and d: "map_of ?c (path_of ds) = Some dpe"
    using g by (auto simp: mv_guards_def)
  show sub: "inos ?c' \<subseteq> inos ?c"
  proof -
    have set_ok: "inos (fold cache_change (map (\<lambda>(k, e). SetPath k e) kvs) c) \<subseteq> inos c \<union> pe_inode ` snd ` set kvs" for kvs c
    proof (induction kvs arbitrary: c)
      case (Cons a kvs)
      show ?case using Cons [of "AList.update (fst a) (snd a) c"] inos_update [of "fst a" "snd a" c] by (cases a) auto
    qed simp
    have del_ok: "inos (fold cache_change (map DeletePath ps) c) \<subseteq> inos c" for ps c
    proof (induction ps arbitrary: c)
      case (Cons p ps)
      show ?case using Cons [of "AList.delete p c"] inos_subset [of "AList.delete p c" c] by (auto simp: AList.delete_eq)
    qed simp
    have "pe_inode ` snd ` set (image_rows f (view_get s0) ps) \<subseteq> inos ?c" for f :: "string \<Rightarrow> string" and ps
      using values_image_rows [of f "view_get s0" ps] by (auto simp: view_get_def dest: inos_I)
    then show ?thesis
      unfolding mv_changes_rows fold_append comp_apply using set_ok del_ok by (meson Un_least order_trans)
  qed
  fix e r \<rho> tx and rp :: replay_context
  assume s: "in_sync sid e r \<rho> ?c tx" and ex: "r_expected rp = e" and rs: "resolves rp \<rho> ?c"
  have res: "r_resolve rp (pe_inode z) = Inr (\<rho> (pe_inode z))" if "map_of ?c p = Some z" for p z
    using rs inos_I [OF that] by (simp add: resolves_def)
  have rd: "ready sid e tx" and co: "cohere \<rho> ?c (db_lookup (t_db tx) r)" using s by (simp_all add: in_sync_def)
  note mv = mv_movable [OF s g] and ab = mv_apart [OF s g]
  let ?sp = "\<rho> (pe_inode spe)" and ?dp = "\<rho> (pe_inode dpe)"
  obtain w where w: "map_of (dirents (t_db tx)) (?sp, sn) = Some w" using movable_entry [OF mv rd] by blast
  have chd: "child (t_db tx) ?dp dn = map_option (\<lambda>y. \<rho> (pe_inode y)) (map_of ?c (path_of ?b))"
    using in_sync_child [OF s vb] mv by (simp add: movable_def)
  obtain tx' d1 where tx': "o_run (mv_spec sid composites (pe_inode spe) sn (pe_inode dpe) dn
        (map_option pe_inode (map_of ?c (path_of ?b)))) rp tx = (Inr [], tx')" "ready sid e tx'"
      "t_db tx' = move_entry (?sp, sn) (?dp, dn) w d1"
      "d1 = remove_entry ?dp dn (bump sid (t_db tx)) \<or> d1 = bump sid (remove_entry ?dp dn (bump sid (t_db tx)))"
  proof (cases composites)
    case True
    then show ?thesis
      using that mvComposite_ready [OF mv rd w] ex res [OF sp] res [OF d] by (auto simp: mv_spec_def and_then_ok)
  next
    case False
    have "(case map_option pe_inode (map_of ?c (path_of ?b)) of None \<Rightarrow> return_ok ()
        | Some i \<Rightarrow> and_then (of_sum (r_resolve rp i)) (\<lambda>i'. and_then (decrementNlink i') (\<lambda>n. if n = 0 then deleteInode i' else return_ok ())))
      = (case child (t_db tx) ?dp dn of None \<Rightarrow> return_ok () | Some j \<Rightarrow> unlink_inode j)"
      using chd res by (auto simp: unlink_inode_def split: option.split)
    then show ?thesis
      using that move_then_unlink [OF mv rd w, of "\<lambda>_. return_ok ([] :: int list)"] ex res [OF sp] res [OF d] False
      by (auto simp: mv_spec_def)
  qed
  have mvb: "movable sid r (bump sid (t_db tx)) ss ?sp sn (\<rho> (pe_inode x)) ds ?dp dn" using mv by simp
  have wb: "map_of (dirents (bump sid (t_db tx))) (?sp, sn) = Some w" using w by simp
  note res' = move_result [OF mvb wb tx'(4)]
  have look: "db_lookup (t_db tx') r = tree_move ?a ?b (tree_del ?b (db_lookup (t_db tx) r))"
    using res'(3) tx'(3) by simp
  have "in_sync sid e r \<rho> ?c' tx'"
  proof (rule in_sync_tx [OF s tx'(2) _ _ _ sub])
    show "wf_db (t_db tx')" "root_of (t_db tx') sid = Some r" using res'(1,2) tx'(3) by simp_all
    have at: "map_of ?c' (path_of segs) = (if prefix ?b segs then map_of ?c (path_of (?a @ drop (length ?b) segs))
        else if prefix ?a segs then None else map_of ?c (path_of segs))" if "valid_names segs" for segs
      by (rule mv_cache [OF co va _ _ vb _ ab that]) (use x in simp_all)
    show "cohere \<rho> ?c' (db_lookup (t_db tx') r)"
      unfolding look
    proof (rule cohere_I_maps [OF co])
      show "distinct (map fst ?c')" using cohere_distinct [OF co] by (rule distinct_cache_changes)
      have keys: "normal_keys ?c" using co by (rule cohere_normal_keys)
      show "normal_path p" if "map_of ?c' p = Some z" for p z
        using mv_cache_keys [OF keys va vb] that by (auto simp: normal_keys_def)
      fix segs assume v: "valid_names segs"
      have "\<not> prefix ?b (?a @ ys)" for ys using ab prefix_same_cases [of ?b "?a @ ys" ?a] by (meson prefixI)
      moreover have "valid_names (?a @ drop (length ?b) segs)" using va v by (auto simp: list_all_iff dest: in_set_dropD)
      ultimately show "map_option (norm_entry \<rho>) (map_of ?c' (path_of segs)) =
          map_option (norm_entry id) (tree_move ?a ?b (tree_del ?b (db_lookup (t_db tx) r)) segs)"
        unfolding at [OF v] using cohere_at [OF co v] cohere_at [OF co, of "?a @ drop (length ?b) segs"]
        by (simp add: tree_move_def tree_del_def)
    qed
  qed
  then show "\<exists>tx'. o_run (mv_spec sid composites (pe_inode spe) sn (pe_inode dpe) dn
        (map_option pe_inode (map_of ?c (path_of ?b)))) rp tx = (Inr [], tx') \<and> in_sync sid e r \<rho> ?c' tx'"
    using tx'(1) by blast
qed

end
