(* ===== verification/Loading.thy ===== *)
theory Loading
  imports Coherence Lifecycle MoveSim
begin

text \<open>
  \<open>loadAllPaths\<close>: the recursive query terminates on every well-formed database and returns each path
  of the sandbox's tree exactly once, with the entry stored for it. So a loaded view is coherent with
  the database it was loaded from.
\<close>

section \<open>Levels of the tree\<close>

text \<open>The rows of depth \<open>k\<close>, as the query returns them.\<close>

definition level :: "db \<Rightarrow> int \<Rightarrow> nat \<Rightarrow> (string \<times> path_entry) set" where
  "level d r k = {(path_of segs, e) | segs e. length segs = k \<and> db_lookup d r segs = Some e}"

lemma level_0:
  assumes "wf_db d" and "root_of d sid = Some r" and "node d r = Some row"
  shows "level d r 0 = {(''/'', entry_of_row r row)}"
  using assms by (auto simp: level_def db_lookup_def)

text \<open>The directories on a path are pairwise different, so no path is longer than the inode table.\<close>

lemma walk_length_bound:
  assumes wf: "wf_db d" and root: "root_of d sid = Some r" and w: "walk d r segs = Some i"
  shows "length segs \<le> length (inodes d)"
proof -
  define at where "at k = the (walk d r (take k segs))" for k
  have at: "walk d r (take k segs) = Some (at k)" for k
  proof -
    show ?thesis
      using w walkc_append [of "child d" r "take k segs" "drop k segs"] by (cases "walk d r (take k segs)") (simp_all add: at_def)
  qed
  have dir: "\<exists>row. node d (at k) = Some row \<and> i_kind row = DIRECTORY" if "k < length segs" for k
  proof -
    have "walk d r (take k segs @ [segs ! k]) = Some (at (Suc k))"
      using that at [of "Suc k"] by (simp add: take_Suc_conv_app_nth)
    then have "child d (at k) (segs ! k) = Some (at (Suc k))" by (simp add: walkc_snoc at)
    then show ?thesis using wf_child_entry [OF wf] by metis
  qed
  have "inj_on at {..<length segs}"
  proof (rule inj_onI)
    fix j k assume jk: "j \<in> {..<length segs}" "k \<in> {..<length segs}" "at j = at k"
    obtain row where "node d (at k) = Some row" "i_kind row = DIRECTORY" using dir jk(2) by auto
    then have "take j segs = take k segs"
      using wf_dir_unique_path [OF wf root] at [of j] at [of k] jk(3) by metis
    then have "length (take j segs) = length (take k segs)" by simp
    then show "j = k" using jk(1,2) by simp
  qed
  moreover have "at ` {..<length segs} \<subseteq> set (map fst (inodes d))"
    using dir by (fastforce simp: node_def dest: map_of_SomeD intro: rev_image_eqI)
  ultimately have "card {..<length segs} \<le> card (set (map fst (inodes d)))"
    by (metis List.finite_set card_image card_mono)
  then show ?thesis using card_length [of "map fst (inodes d)"] by simp
qed

lemma level_beyond: "wf_db d \<Longrightarrow> root_of d sid = Some r \<Longrightarrow> length (inodes d) < k \<Longrightarrow> level d r k = {}"
  using walk_length_bound by (fastforce simp: level_def db_lookup_def split: option.splits)

section \<open>One iteration\<close>

definition sees :: "string \<Rightarrow> pgtx \<Rightarrow> bool" where
  "sees sid tx \<longleftrightarrow> app_sandbox_id tx = sid"

lemma sees_rls: "sees sid tx \<Longrightarrow> rls_ok tx sid"
  by (simp add: sees_def rls_ok_def)

lemma sees_inode: "sees sid tx \<Longrightarrow> node (t_db tx) i = Some row \<Longrightarrow> i_sandbox row = sid \<Longrightarrow> get_inode tx i = Some row"
  by (simp add: get_inode_def node_def sees_rls)

lemma dirents_child: "wf_db d \<Longrightarrow> ((p, n), x) \<in> set (dirents d) \<longleftrightarrow> map_of (dirents d) (p, n) = Some x"
  by (auto simp: wf_off_def wf_keys_def intro: map_of_is_SomeI dest: map_of_SomeD)

lemma step_entry:
  assumes wf: "wf_db (t_db tx)" and root: "root_of (t_db tx) sid = Some r" and sees: "sees sid tx"
    and e: "db_lookup (t_db tx) r segs = Some e" and x: "map_of (dirents (t_db tx)) (pe_inode e, n) = Some x"
  shows "valid_names (segs @ [n])" and "rls_ok tx (d_sandbox x)"
    and "\<exists>row. get_inode tx (d_inode x) = Some row \<and> db_lookup (t_db tx) r (segs @ [n]) = Some (entry_of_row (d_inode x) row)"
proof -
  have w: "walk (t_db tx) r segs = Some (pe_inode e)" by (rule db_lookup_walk [OF wf root e])
  have ch: "child (t_db tx) (pe_inode e) n = Some (d_inode x)" using x by (simp add: child_def)
  then have w': "walk (t_db tx) r (segs @ [n]) = Some (d_inode x)" using w by (simp add: walkc_snoc)
  obtain row where row: "node (t_db tx) (d_inode x) = Some row" "i_sandbox row = sid" using wf_walk_node [OF wf root w'] by blast
  have sb: "d_sandbox x = sid" by (rule wf_child_entry [OF wf ch]) (use x row in auto)
  show "valid_names (segs @ [n])" by (rule wf_walk_valid [OF wf w'])
  show "rls_ok tx (d_sandbox x)" using sees sb by (simp add: sees_rls)
  show "\<exists>row. get_inode tx (d_inode x) = Some row \<and> db_lookup (t_db tx) r (segs @ [n]) = Some (entry_of_row (d_inode x) row)"
    using sees_inode [OF sees row] row w' by (simp add: db_lookup_def)
qed

lemma mem_concat_map: "q \<in> set (concat (map f xs)) \<longleftrightarrow> (\<exists>x \<in> set xs. q \<in> set (f x))"
  by simp

lemma split_paired_Bex: "(\<exists>x \<in> A. P x) \<longleftrightarrow> (\<exists>a b. (a, b) \<in> A \<and> P (a, b))"
  by auto

lemma mem_tree_step:
  "q \<in> set (tree_step tx work) \<longleftrightarrow>
     (\<exists>path e n x row. (path, e) \<in> set work \<and> ((pe_inode e, n), x) \<in> set (dirents (t_db tx)) \<and> rls_ok tx (d_sandbox x)
        \<and> get_inode tx (d_inode x) = Some row \<and> q = (child_path path n, entry_of_row (d_inode x) row))"
proof -
  have row: "q \<in> set (if p = pe_inode e \<and> rls_ok tx (d_sandbox x) then
       (case get_inode tx (d_inode x) of None \<Rightarrow> [] | Some r \<Rightarrow> [(child_path path n, entry_of_row (d_inode x) r)]) else [])
     \<longleftrightarrow> p = pe_inode e \<and> rls_ok tx (d_sandbox x)
       \<and> (\<exists>row. get_inode tx (d_inode x) = Some row \<and> q = (child_path path n, entry_of_row (d_inode x) row))" for path p e n x
  proof (cases "p = pe_inode e \<and> rls_ok tx (d_sandbox x)")
    case True
    show ?thesis unfolding if_P [OF True] by (cases "get_inode tx (d_inode x)") (use True in auto)
  next
    case False
    show ?thesis unfolding if_not_P [OF False] using False by (simp, blast)
  qed
  show ?thesis
    unfolding tree_step_def mem_concat_map split_paired_Bex split_paired_Ex prod.case row by blast
qed

lemma tree_step_level:
  assumes wf: "wf_db (t_db tx)" and root: "root_of (t_db tx) sid = Some r" and sees: "sees sid tx"
    and work: "set work = level (t_db tx) r k"
  shows "set (tree_step tx work) = level (t_db tx) r (Suc k)"
proof (rule set_eqI, rule iffI)
  fix q assume "q \<in> set (tree_step tx work)"
  then obtain path e n x row where pe: "(path, e) \<in> level (t_db tx) r k" and x: "((pe_inode e, n), x) \<in> set (dirents (t_db tx))"
    and q: "get_inode tx (d_inode x) = Some row" "q = (child_path path n, entry_of_row (d_inode x) row)"
    unfolding mem_tree_step work by blast
  obtain segs where segs: "path = path_of segs" "length segs = k" "db_lookup (t_db tx) r segs = Some e" using pe by (auto simp: level_def)
  have "map_of (dirents (t_db tx)) (pe_inode e, n) = Some x" using x dirents_child [OF wf] by simp
  note step = step_entry [OF wf root sees segs(3) this]
  have "q = (path_of (segs @ [n]), entry_of_row (d_inode x) row)" using q segs(1) step(1) by (simp add: child_path_of)
  moreover have "db_lookup (t_db tx) r (segs @ [n]) = Some (entry_of_row (d_inode x) row)" using step(3) q(1) by auto
  ultimately show "q \<in> level (t_db tx) r (Suc k)" using segs(2) unfolding level_def by force
next
  fix q assume "q \<in> level (t_db tx) r (Suc k)"
  then obtain ss e' where q: "q = (path_of ss, e')" "length ss = Suc k" "db_lookup (t_db tx) r ss = Some e'" by (auto simp: level_def)
  obtain segs n where ss: "ss = segs @ [n]" using q(2) by (cases ss rule: rev_cases) simp_all
  have w: "walk (t_db tx) r (segs @ [n]) = Some (pe_inode e')" using db_lookup_walk [OF wf root] q(3) ss by blast
  obtain i where i: "walk (t_db tx) r segs = Some i" "child (t_db tx) i n = Some (pe_inode e')"
    using w by (auto simp: walkc_snoc split: option.splits)
  obtain e where e: "db_lookup (t_db tx) r segs = Some e" "pe_inode e = i"
    using db_lookup_Some [OF wf root i(1)] by (metis entry_of_row_def path_entry.select_convs(1))
  obtain x where x: "map_of (dirents (t_db tx)) (i, n) = Some x" "d_inode x = pe_inode e'" using i(2) by (auto simp: child_def)
  note step = step_entry [OF wf root sees e(1), unfolded e(2), OF x(1)]
  obtain row where row: "get_inode tx (d_inode x) = Some row" "db_lookup (t_db tx) r ss = Some (entry_of_row (d_inode x) row)"
    using step(3) ss by blast
  have "(path_of segs, e) \<in> set work" using e q(2) ss by (auto simp: work level_def)
  moreover have "((i, n), x) \<in> set (dirents (t_db tx))" using x dirents_child [OF wf] by simp
  moreover have "q = (child_path (path_of segs) n, entry_of_row (d_inode x) row)"
    using q row(2) step(1) ss by (simp add: child_path_of)
  ultimately show "q \<in> set (tree_step tx work)"
    unfolding mem_tree_step using step(2) row(1) e(2) by blast
qed

section \<open>Distinct rows\<close>

lemma distinct_concat_map:
  assumes "distinct xs" and "\<And>x. x \<in> set xs \<Longrightarrow> distinct (map g (f x))"
    and "\<And>x y a b. x \<in> set xs \<Longrightarrow> y \<in> set xs \<Longrightarrow> x \<noteq> y \<Longrightarrow> a \<in> set (f x) \<Longrightarrow> b \<in> set (f y) \<Longrightarrow> g a \<noteq> g b"
  shows "distinct (map g (concat (map f xs)))"
  using assms
proof (induction xs)
  case (Cons x xs)
  have "g a \<noteq> g b" if "a \<in> set (f x)" "y \<in> set xs" "b \<in> set (f y)" for a b y
    using Cons.prems(1,3) that by (metis distinct.simps(2) list.set_intros)
  moreover have "distinct (map g (concat (map f xs)))" using Cons by (metis distinct.simps(2) list.set_intros(2))
  moreover have "distinct (map g (f x))" using Cons.prems(2) by simp
  ultimately show ?case by (auto simp: image_iff)
qed simp

definition step_rows :: "pgtx \<Rightarrow> string \<times> path_entry \<Rightarrow> (int \<times> string) \<times> dirent_row \<Rightarrow> path_rows" where
  "step_rows tx w y =
     (case (w, y) of ((path, e), ((parent, name), d)) \<Rightarrow>
       if parent = pe_inode e \<and> rls_ok tx (d_sandbox d) then
         (case get_inode tx (d_inode d) of None \<Rightarrow> [] | Some r \<Rightarrow> [(child_path path name, entry_of_row (d_inode d) r)])
       else [])"

lemma tree_step_rows: "tree_step tx work = concat (map (\<lambda>w. concat (map (step_rows tx w) (dirents (t_db tx)))) work)"
  unfolding tree_step_def step_rows_def
  by (rule arg_cong [of _ _ concat], rule map_cong [OF refl])
     (simp only: split_paired_all prod.case, rule arg_cong [of _ _ concat], rule map_cong [OF refl],
       simp only: split_paired_all prod.case)

lemma mem_step_rows:
  "q \<in> set (step_rows tx (path, e) ((p, n), x)) \<Longrightarrow> p = pe_inode e \<and> fst q = child_path path n"
  unfolding step_rows_def
  by (cases "p = pe_inode e \<and> rls_ok tx (d_sandbox x)"; cases "get_inode tx (d_inode x)") simp_all

lemma distinct_step_rows: "distinct (map fst (step_rows tx w y))"
proof -
  obtain path e p n x where "w = (path, e)" "y = ((p, n), x)" by (metis prod.collapse)
  then show ?thesis unfolding step_rows_def
    by (cases "p = pe_inode e \<and> rls_ok tx (d_sandbox x)"; cases "get_inode tx (d_inode x)") simp_all
qed

lemma distinct_tree_step:
  assumes wf: "wf_db (t_db tx)" and root: "root_of (t_db tx) sid = Some r" and sees: "sees sid tx"
    and work: "set work = level (t_db tx) r k" and d: "distinct (map fst work)"
  shows "distinct (map fst (tree_step tx work))"
proof -
  have at: "\<exists>segs. valid_names (segs @ [n]) \<and> path = path_of segs \<and> fst q = path_of (segs @ [n])"
    if "(path, e) \<in> set work" "((p, n), x) \<in> set (dirents (t_db tx))" "q \<in> set (step_rows tx (path, e) ((p, n), x))" for path e p n x q
  proof -
    note row = that
    obtain segs where segs: "path = path_of segs" "db_lookup (t_db tx) r segs = Some e" using row(1) unfolding work level_def by blast
    have "map_of (dirents (t_db tx)) (pe_inode e, n) = Some x" using that(2) mem_step_rows [OF that(3)] dirents_child [OF wf] by simp
    note v = step_entry(1) [OF wf root sees segs(2) this]
    then show ?thesis using mem_step_rows [OF that(3)] segs(1) by (auto simp: child_path_of)
  qed
  have dd: "distinct (map fst (dirents (t_db tx)))" using wf by (simp add: wf_off_def wf_keys_def)
  show ?thesis unfolding tree_step_rows
  proof (rule distinct_concat_map)
    show "distinct work" using d by (rule distinct_map [THEN iffD1, THEN conjunct1])
    fix w assume w: "w \<in> set work"
    show "distinct (map fst (concat (map (step_rows tx w) (dirents (t_db tx)))))"
    proof (rule distinct_concat_map)
      show "distinct (dirents (t_db tx))" using dd by (rule distinct_map [THEN iffD1, THEN conjunct1])
      fix y z a b assume h: "y \<in> set (dirents (t_db tx))" "z \<in> set (dirents (t_db tx))" "y \<noteq> z" "a \<in> set (step_rows tx w y)" "b \<in> set (step_rows tx w z)"
      obtain path e p n x p' n' x' where eqs: "w = (path, e)" "y = ((p, n), x)" "z = ((p', n'), x')" by (metis prod.collapse)
      then have pq: "p = pe_inode e" "p' = pe_inode e" using h mem_step_rows by blast+
      have nn: "n \<noteq> n'"
      proof
        assume "n = n'"
        then show False using h(1-3) eqs pq dd by (metis eq_key_imp_eq_value)
      qed
      obtain s1 s2 where "valid_names (s1 @ [n])" "path = path_of s1" "fst a = path_of (s1 @ [n])"
          "valid_names (s2 @ [n'])" "path = path_of s2" "fst b = path_of (s2 @ [n'])"
        using at h w eqs by metis
      then show "fst a \<noteq> fst b" using nn by (metis last_snoc path_of_inject)
    qed (rule distinct_step_rows)
  next
    fix w w' a b assume h: "w \<in> set work" "w' \<in> set work" "w \<noteq> w'"
      "a \<in> set (concat (map (step_rows tx w) (dirents (t_db tx))))" "b \<in> set (concat (map (step_rows tx w') (dirents (t_db tx))))"
    obtain path e path' e' where eqs: "w = (path, e)" "w' = (path', e')" by (metis prod.collapse)
    then have ne: "path \<noteq> path'" using h(1-3) d by (metis eq_key_imp_eq_value)
    obtain y z where "y \<in> set (dirents (t_db tx))" "a \<in> set (step_rows tx w y)" "z \<in> set (dirents (t_db tx))" "b \<in> set (step_rows tx w' z)"
      using h(4,5) unfolding mem_concat_map by blast
    then obtain s1 n1 s2 n2 where "valid_names (s1 @ [n1])" "path = path_of s1" "fst a = path_of (s1 @ [n1])"
          "valid_names (s2 @ [n2])" "path' = path_of s2" "fst b = path_of (s2 @ [n2])"
      using at h(1,2) eqs by (metis prod.collapse)
    then show "fst a \<noteq> fst b" using ne by (metis butlast_snoc path_of_inject)
  qed
qed

section \<open>The loaded view\<close>

lemma tree_rows_ok:
  assumes wf: "wf_db (t_db tx)" and root: "root_of (t_db tx) sid = Some r" and sees: "sees sid tx"
    and "k \<le> Suc (length (inodes (t_db tx)))"
    and "set work = level (t_db tx) r k" and "set acc = (\<Union>j < k. level (t_db tx) r j)" and "distinct (map fst (acc @ work))"
  shows "\<exists>rows. tree_rows tx acc work = Some rows \<and> distinct (map fst rows) \<and> set rows = (\<Union>j. level (t_db tx) r j)"
  using assms(4-7)
proof (induction "Suc (length (inodes (t_db tx))) - k" arbitrary: k acc work)
  case 0
  then have k: "k = Suc (length (inodes (t_db tx)))" by simp
  have beyond: "level (t_db tx) r j = {}" if "k \<le> j" for j by (rule level_beyond [OF wf root]) (use that k in simp)
  then have "work = []" using 0(3) by simp
  moreover have "(\<Union>j < k. level (t_db tx) r j) = (\<Union>j. level (t_db tx) r j)"
    using beyond by (auto, metis empty_iff lessThan_iff not_le)
  ultimately show ?case using 0 by (subst tree_rows.simps) simp
next
  case (Suc n)
  show ?case
  proof (cases "work = []")
    case True
    have "level (t_db tx) r j = {}" if "k \<le> j" for j
      using that
    proof (induction rule: dec_induct)
      case base
      then show ?case using Suc.prems(2) True by simp
    next
      case (step m)
      then show ?case using tree_step_level [OF wf root sees, of "[]" m] by (simp add: tree_step_def)
    qed
    then have "(\<Union>j < k. level (t_db tx) r j) = (\<Union>j. level (t_db tx) r j)"
      by (auto, metis empty_iff lessThan_iff not_le)
    then show ?thesis using Suc.prems True by (subst tree_rows.simps) simp
  next
    case False
    let ?acc = "acc @ work" and ?work = "tree_step tx work"
    have dw: "distinct (map fst work)" using Suc.prems(4) by simp
    have w: "set ?work = level (t_db tx) r (Suc k)" by (rule tree_step_level [OF wf root sees Suc.prems(2)])
    have a: "set ?acc = (\<Union>j < Suc k. level (t_db tx) r j)" using Suc.prems(2,3) by (auto simp: lessThan_Suc)
    have valid: "\<exists>segs. valid_names segs \<and> length segs = j \<and> p = path_of segs" if "(p, e) \<in> level (t_db tx) r j" for p e j
      using that wf_walk_valid [OF wf] by (fastforce simp: level_def db_lookup_def split: option.splits)
    have "fst x \<noteq> fst y" if xy: "x \<in> set ?acc" "y \<in> set ?work" for x y
    proof -
      obtain j where j: "j < Suc k" "x \<in> level (t_db tx) r j" using xy(1) a by blast
      obtain s1 s2 where "valid_names s1" "length s1 = j" "fst x = path_of s1" "valid_names s2" "length s2 = Suc k" "fst y = path_of s2"
        using valid j(2) xy(2) w by (metis prod.collapse)
      then show ?thesis using j(1) by auto
    qed
    then have "set (map fst ?acc) \<inter> set (map fst ?work) = {}" unfolding set_map by blast
    then have "distinct (map fst (?acc @ ?work))"
      unfolding map_append [of fst ?acc] distinct_append
      using Suc.prems(4) distinct_tree_step [OF wf root sees Suc.prems(2) dw] by blast
    moreover have "n = Suc (length (inodes (t_db tx))) - Suc k" "Suc k \<le> Suc (length (inodes (t_db tx)))" using Suc.hyps(2) by simp_all
    ultimately show ?thesis using Suc.hyps(1) [OF _ _ w a] False by (subst tree_rows.simps) simp
  qed
qed

lemma loadAllPaths_ok:
  assumes wf: "wf_db (t_db tx)" and root: "root_of (t_db tx) sid = Some r" and sees: "sees sid tx"
  shows "\<exists>rows. loadAllPaths tx = Some rows \<and> distinct (map fst rows) \<and> rows \<noteq> []
    \<and> (\<forall>segs. valid_names segs \<longrightarrow> map_of rows (path_of segs) = db_lookup (t_db tx) r segs)
    \<and> (\<forall>p \<in> fst ` set rows. normal_path p)"
proof -
  obtain row where row: "node (t_db tx) r = Some row" "i_sandbox row = sid"
    using wf root by (auto simp: wf_off_def wf_roots_def)
  have "tree_anchor tx = [(''/'', entry_of_row r row)]"
    using root row sees sees_inode [OF sees row] sees_rls [OF sees]
    by (auto simp: tree_anchor_def get_sandbox_def root_of_def sees_def split: option.splits)
  then obtain rows where rows: "loadAllPaths tx = Some rows" "distinct (map fst rows)" "set rows = (\<Union>j. level (t_db tx) r j)"
    using tree_rows_ok [OF wf root sees, of 0 "tree_anchor tx" "[]"] level_0 [OF wf root row(1)] by (auto simp: loadAllPaths_def)
  have valid: "valid_names segs" if "db_lookup (t_db tx) r segs = Some e" for segs e
    using that wf_walk_valid [OF wf] by (auto simp: db_lookup_def split: option.splits)
  have mem: "(path_of segs, e) \<in> set rows \<longleftrightarrow> db_lookup (t_db tx) r segs = Some e" if "valid_names segs" for segs e
    unfolding rows(3) using that valid by (fastforce simp: level_def)
  have "map_of rows (path_of segs) = db_lookup (t_db tx) r segs" if v: "valid_names segs" for segs
  proof (cases "db_lookup (t_db tx) r segs")
    case None
    then have "path_of segs \<notin> fst ` set rows" using mem [OF v] by auto
    then show ?thesis using None by (simp add: map_of_eq_None_iff)
  next
    case (Some e)
    then show ?thesis using mem [OF v] rows(2) by simp
  qed
  moreover have "\<forall>p \<in> fst ` set rows. normal_path p"
    unfolding rows(3) using valid by (fastforce simp: level_def)
  moreover have "rows \<noteq> []" using level_0 [OF wf root row(1)] rows(3) by (metis UN_I empty_iff empty_set insertI1 iso_tuple_UNIV_I)
  ultimately show ?thesis using rows by blast
qed

lemma map_from_rows_distinct: "distinct (map fst rows) \<Longrightarrow> map_from_rows rows = rows"
proof -
  have "distinct (map fst (acc @ rows)) \<Longrightarrow> fold (\<lambda>(p, e). AList.update p e) rows acc = acc @ rows" for acc :: path_rows
  proof (induction rows arbitrary: acc)
    case (Cons x rows)
    then show ?case using table_update_absent [of "fst x" acc "snd x"] Cons.IH [of "acc @ [x]"] by (cases x) auto
  qed simp
  from this [of "[]"] show "distinct (map fst rows) \<Longrightarrow> map_from_rows rows = rows" by (simp add: map_from_rows_def)
qed

lemma loaded_coherent:
  assumes "wf_db (t_db tx)" and "root_of (t_db tx) sid = Some r" and "sees sid tx" and "loadAllPaths tx = Some rows"
  shows "cohere id (map_from_rows rows) (db_lookup (t_db tx) r)"
  using loadAllPaths_ok [OF assms(1-3)] assms(4) by (auto simp: cohere_def map_from_rows_distinct)

end
