(* ===== verification/RemoveTreeSim.thy ===== *)
theory RemoveTreeSim
  imports MoveSim
begin

text \<open>
  \<open>rm -r\<close>: the transaction first cuts the subtree off its parent and then takes it apart from the
  deepest path up, along the plan made from the cache. Every state of it is a state of the same
  removal with the top still attached, minus the top's directory entry; the attached states are in
  sync with the cache as it shrinks.
\<close>

section \<open>Removing leaves below a cut\<close>

lemma delete_commute: "AList.delete k (AList.delete k' t) = AList.delete k' (AList.delete k t)"
  by (simp add: AList.delete_eq conj_commute)

lemma cut_del_dirent: "del_dirent k (del_dirent k' d) = del_dirent k' (del_dirent k d)"
  by (simp add: del_dirent_def delete_commute)

lemma cut_unlink: "unlink_db j (del_dirent k d) = del_dirent k (unlink_db j d)"
proof -
  have "filter P (AList.delete k t) = AList.delete k (filter P t)" for P and t :: "((int \<times> string) \<times> dirent_row) list"
    by (induction t) (auto simp: AList.delete_eq)
  then show ?thesis by (simp add: unlink_db_def del_dirent_def del_inode_def put_inode_def node_def split: option.split)
qed

lemma cut_remove: "k \<noteq> (p, n) \<Longrightarrow> remove_entry p n (del_dirent k d) = del_dirent k (remove_entry p n d)"
  by (auto simp: remove_entry_def cut_unlink cut_del_dirent child_def split: option.split)

lemma cut_bump: "bump sid (del_dirent k d) = del_dirent k (bump sid d)"
  by (simp add: bump_def del_dirent_def split: option.split)

lemma cut_bumped: "bumped sid (on_db (del_dirent k) tx) = on_db (del_dirent k) (bumped sid tx)"
  by (simp add: bumped_def on_db_def cut_bump)

lemma wf_cut:
  assumes "wf_db d" and "child d p n = Some i"
  shows "\<exists>off. wf_off off (del_dirent (p, n) d)"
  using assms wf_del_dirent [of "\<lambda>_. 0" d "(p, n)"] by (auto simp: child_def)

lemma rm_leaf_step:
  assumes s: "in_sync sid e r \<rho> c tx" and q: "valid_names (ps @ [n])"
    and p: "map_of c (path_of ps) = Some pe" and x: "map_of c (path_of (ps @ [n])) = Some x" and leaf: "childless c (ps @ [n])"
    and cut: "child (t_db tx) tp tn = Some t" and top: "(tp, tn) \<noteq> (\<rho> (pe_inode pe), n)"
    and rp: "r_expected rp = e" "r_resolve rp (pe_inode pe) = Inr (\<rho> (pe_inode pe))" "r_resolve rp (pe_inode x) = Inr (\<rho> (pe_inode x))"
  defines "tx' \<equiv> on_db (remove_entry (\<rho> (pe_inode pe)) n) (bumped sid tx)"
  shows "rm_tree_step sid rp \<lparr>rs_inode = pe_inode x, rs_parent = Some (pe_inode pe), rs_name = n\<rparr> (on_db (del_dirent (tp, tn)) tx)
      = (Inr (), on_db (del_dirent (tp, tn)) tx')"
    and "in_sync sid e r \<rho> (AList.delete (path_of (ps @ [n])) c) tx'"
    and "child (t_db tx') tp tn = Some t"
proof -
  let ?P = "\<rho> (pe_inode pe)" and ?J = "\<rho> (pe_inode x)" and ?k = "(tp, tn)"
  have rd: "ready sid e tx" and wf: "wf_db (t_db tx)" using s by (simp_all add: in_sync_def)
  have f: "t_db tx' = remove_entry ?P n (bump sid (t_db tx))" "ready sid e tx'" using rd by (simp_all add: tx'_def)
  note rm = in_sync_remove [OF s q p x disjI2 [OF leaf] f disjI2 [OF refl]]
  show "in_sync sid e r \<rho> (AList.delete (path_of (ps @ [n])) c) tx'" by (rule rm(3))
  obtain off where wfc: "wf_off off (t_db (on_db (del_dirent ?k) tx))" using wf_cut [OF wf cut] by auto
  have rdc: "ready sid e (on_db (del_dirent ?k) tx)" using rd by (rule ready_on_db) simp
  have ch: "child (t_db (on_db (del_dirent ?k) tx)) ?P n = Some ?J" using rm(2) top by (auto simp: child_del_dirent)
  have dir: "dir_of sid ?P (t_db (on_db (del_dirent ?k) tx))" using rm(1) by simp
  have dd: "deleteDirent ?P n sid (Some e) (on_db (del_dirent ?k) tx) =
      (Inr ?J, on_db (\<lambda>d. del_dirent (?P, n) (del_dirent ?k d)) (bumped sid tx))"
    using deleteDirent_ready [OF rdc wfc dir ch] by (simp add: cut_bumped)
  obtain row where row: "node (t_db tx) ?J = Some row" "i_sandbox row = sid" "1 \<le> i_nlink row"
    using wf_linked(1) [OF wf rm(2)] wf_child_own [OF wf dir_of_in_sandbox [OF rm(1)] rm(2)] by (auto simp: in_sandbox_def)
  let ?t1 = "on_db (\<lambda>d. del_dirent (?P, n) (del_dirent ?k d)) (bumped sid tx)"
  have rd1: "ready sid e ?t1" using ready_bumped [OF rd] by (rule ready_on_db) simp
  have "unlink_inode ?J ?t1 = (Inr (), on_db (unlink_db ?J) ?t1)"
    using row by (intro unlink_inode_ready [OF rd1, of ?J row]) simp_all
  moreover have "on_db (unlink_db ?J) ?t1 = on_db (del_dirent ?k) tx'"
    using rm(2) by (simp add: tx'_def) (rule on_db_cong, simp add: remove_entry_def cut_unlink cut_del_dirent)
  ultimately show "rm_tree_step sid rp \<lparr>rs_inode = pe_inode x, rs_parent = Some (pe_inode pe), rs_name = n\<rparr> (on_db (del_dirent ?k) tx)
      = (Inr (), on_db (del_dirent ?k) tx')"
    using dd rp by (simp add: rm_tree_step_def and_then_ok)
  have "child (remove_entry ?P n (bump sid (t_db tx))) = set_child (child (t_db tx)) ?P n None"
    using wf_remove_entry(2) [of "bump sid (t_db tx)" ?P n ?J] wf rm(2) in_sync_childless [OF s q x disjI2 [OF leaf]] by simp
  then show "child (t_db tx') tp tn = Some t" using f(1) cut top by auto
qed

section \<open>The loop\<close>

text \<open>A list of paths that can be removed one after the other, each childless when its turn comes.\<close>

fun removable :: "path_rows \<Rightarrow> string list list \<Rightarrow> bool" where
  "removable c [] \<longleftrightarrow> True"
| "removable c (q # qs) \<longleftrightarrow> q \<noteq> [] \<and> valid_names q \<and> map_of c (path_of q) \<noteq> None
     \<and> map_of c (path_of (butlast q)) \<noteq> None \<and> childless c q \<and> removable (AList.delete (path_of q) c) qs"

definition rm_step_of :: "path_rows \<Rightarrow> string list \<Rightarrow> rm_step" where
  "rm_step_of c q = \<lparr>rs_inode = pe_inode (the (map_of c (path_of q))),
     rs_parent = map_option pe_inode (map_of c (path_of (butlast q))), rs_name = last q\<rparr>"

abbreviation delete_all :: "string list list \<Rightarrow> path_rows \<Rightarrow> path_rows" where
  "delete_all qs c \<equiv> fold (\<lambda>q. AList.delete (path_of q)) qs c"

lemma rm_loop:
  assumes "in_sync sid e r \<rho> c tx" and "removable c qs" and "\<And>p x. map_of c p = Some x \<Longrightarrow> map_of c0 p = Some x"
    and "resolves rp \<rho> c0" and "r_expected rp = e"
    and "map_of c (path_of tps) = Some tpe" and "valid_names (tps @ [tn])" and "map_of c (path_of (tps @ [tn])) = Some t"
    and "(tps @ [tn]) \<notin> set qs" and "tps \<notin> set qs"
  shows "\<exists>tx'. for_each (map (rm_step_of c0) qs) (rm_tree_step sid rp) (on_db (del_dirent (\<rho> (pe_inode tpe), tn)) tx)
      = (Inr (), on_db (del_dirent (\<rho> (pe_inode tpe), tn)) tx')
    \<and> in_sync sid e r \<rho> (delete_all qs c) tx'"
  using assms
proof (induction qs arbitrary: c tx)
  case Nil
  then show ?case by auto
next
  case (Cons q qs)
  let ?k = "(\<rho> (pe_inode tpe), tn)"
  obtain ps n where q: "q = ps @ [n]" using Cons.prems(2) by (cases q rule: rev_cases) auto
  have v: "valid_names (ps @ [n])" and leaf: "childless c (ps @ [n])" using Cons.prems(2) q by simp_all
  obtain x pe where x: "map_of c (path_of (ps @ [n])) = Some x" and p: "map_of c (path_of ps) = Some pe"
    using Cons.prems(2) q by auto
  have x0: "map_of c0 (path_of (ps @ [n])) = Some x" and p0: "map_of c0 (path_of ps) = Some pe"
    using Cons.prems(3) x p by blast+
  have step: "rm_step_of c0 q = \<lparr>rs_inode = pe_inode x, rs_parent = Some (pe_inode pe), rs_name = n\<rparr>"
    by (simp add: rm_step_of_def q x0 p0)
  have rs: "r_resolve rp (pe_inode pe) = Inr (\<rho> (pe_inode pe))" "r_resolve rp (pe_inode x) = Inr (\<rho> (pe_inode x))"
    using Cons.prems(4) inos_I [OF x0] inos_I [OF p0] by (simp_all add: resolves_def)
  note s = Cons.prems(1)
  have wp: "walk (t_db tx) r tps = Some (\<rho> (pe_inode tpe))"
    using in_sync_entry [OF s _ Cons.prems(6)] Cons.prems(7) by auto
  have cut: "child (t_db tx) (\<rho> (pe_inode tpe)) tn = Some (\<rho> (pe_inode t))"
    using in_sync_child [OF s Cons.prems(7) wp] Cons.prems(8) by simp
  have pdir: "pe_inode tpe = pe_inode pe \<Longrightarrow> tps = ps"
  proof -
    assume eq: "pe_inode tpe = pe_inode pe"
    have wf: "wf_db (t_db tx)" and root: "root_of (t_db tx) sid = Some r" using s by (simp_all add: in_sync_def)
    obtain pr where "node (t_db tx) (\<rho> (pe_inode tpe)) = Some pr" "i_kind pr = DIRECTORY"
      by (rule wf_child_entry [OF wf cut])
    then show "tps = ps"
      using wf_dir_unique_path [OF wf root _ _ wp] in_sync_entry [OF s _ p] v eq by (metis valid_names_append)
  qed
  have inj: "inj_on \<rho> (inos c)" using s by (simp add: in_sync_def)
  have top: "?k \<noteq> (\<rho> (pe_inode pe), n)"
  proof
    assume "?k = (\<rho> (pe_inode pe), n)"
    then have "pe_inode tpe = pe_inode pe" "tn = n"
      using inj_onD [OF inj] inos_I [OF Cons.prems(6)] inos_I [OF p] by auto
    then show False using pdir q Cons.prems(9) by auto
  qed
  note st = rm_leaf_step [OF s v p x leaf cut top Cons.prems(5) rs]
  let ?tx = "on_db (remove_entry (\<rho> (pe_inode pe)) n) (bumped sid tx)" and ?c = "AList.delete (path_of q) c"
  have ne: "path_of q \<noteq> path_of (tps @ [tn])" "path_of q \<noteq> path_of tps"
    using v q Cons.prems(7,9,10) by auto
  have "\<exists>tx'. for_each (map (rm_step_of c0) qs) (rm_tree_step sid rp) (on_db (del_dirent ?k) ?tx)
        = (Inr (), on_db (del_dirent ?k) tx') \<and> in_sync sid e r \<rho> (delete_all qs ?c) tx'"
  proof (rule Cons.IH)
    show "in_sync sid e r \<rho> ?c ?tx" using st(2) q by simp
  qed (use Cons.prems ne in \<open>auto split: if_splits\<close>)
  then show ?case using st(1) step by (simp add: and_then_ok)
qed

lemma removableI:
  assumes "sorted_wrt (\<lambda>a b. length b \<le> length a) qs" and "distinct qs"
    and "\<And>q. q \<in> set qs \<Longrightarrow> q \<noteq> [] \<and> valid_names q \<and> map_of c (path_of q) \<noteq> None \<and> map_of c (path_of (butlast q)) \<noteq> None"
    and "\<And>q m. q \<in> set qs \<Longrightarrow> valid_name m \<Longrightarrow> map_of c (path_of (q @ [m])) \<noteq> None \<Longrightarrow> q @ [m] \<in> set qs"
  shows "removable c qs"
  using assms
proof (induction qs arbitrary: c)
  case (Cons h qs)
  let ?c = "AList.delete (path_of h) c"
  have h: "h \<noteq> []" "valid_names h" "map_of c (path_of h) \<noteq> None" "map_of c (path_of (butlast h)) \<noteq> None"
    using Cons.prems(3) [of h] by simp_all
  have no_child: "h @ [m] \<notin> set (h # qs)" for m using Cons.prems(1) by auto
  have leaf: "childless c h"
    unfolding childless_def using Cons.prems(4) [of h] no_child by (metis list.set_intros(1))
  have "removable ?c qs"
  proof (rule Cons.IH)
    show "sorted_wrt (\<lambda>a b. length b \<le> length a) qs" "distinct qs" using Cons.prems(1,2) by simp_all
    fix q assume q: "q \<in> set qs"
    then have v: "q \<noteq> []" "valid_names q" "map_of c (path_of q) \<noteq> None" "map_of c (path_of (butlast q)) \<noteq> None"
      using Cons.prems(3) [of q] by simp_all
    have "butlast q \<noteq> h"
    proof
      assume "butlast q = h"
      then have "q = h @ [last q]" using v(1) by auto
      then show False using no_child [of "last q"] q by auto
    qed
    moreover have "valid_names (butlast q)" using v(1,2) by (metis append_butlast_last_id valid_names_append)
    moreover have "q \<noteq> h" using Cons.prems(2) q by auto
    ultimately show "q \<noteq> [] \<and> valid_names q \<and> map_of ?c (path_of q) \<noteq> None \<and> map_of ?c (path_of (butlast q)) \<noteq> None"
      using v h(2) by simp
    fix m assume m: "valid_name m" "map_of ?c (path_of (q @ [m])) \<noteq> None"
    then have "q @ [m] \<in> set (h # qs)" "q @ [m] \<noteq> h" using Cons.prems(4) [of q m] q by (auto split: if_splits)
    then show "q @ [m] \<in> set qs" by simp
  qed
  then show ?case using h leaf by simp
qed simp

lemma map_of_delete_all: "map_of (delete_all qs c) p = (if p \<in> path_of ` set qs then None else map_of c p)"
  by (induction qs arbitrary: c) auto

lemma delete_all_cache_changes:
  "(\<And>p. p \<in> set ps \<Longrightarrow> path_of (path_parts p) = p) \<Longrightarrow>
     fold cache_change (map DeletePath ps) c = delete_all (map path_parts ps) c"
  by (induction ps arbitrary: c) simp_all

section \<open>The plan\<close>

lemma path_depth_path_of: "valid_names a \<Longrightarrow> a \<noteq> [] \<Longrightarrow> path_depth (path_of a) = int (length a) + 1"
proof -
  assume a: "valid_names a" "a \<noteq> []"
  then have "split_on slash (join_with slash a) = a"
    by (intro split_on_join) (auto simp: list_all_iff valid_name_def)
  then show ?thesis by (simp add: path_depth_def path_of_def)
qed

definition deepest_first :: "session \<Rightarrow> string \<Rightarrow> string list" where
  "deepest_first s path = sort_key (\<lambda>p. - path_depth p) (pathsUnder s path)"

lemma deepest_first_segs:
  assumes keys: "normal_keys (v_cache s)" and q: "valid_names q" and p: "p \<in> set (deepest_first s (path_of q))"
  obtains ys where "valid_names (q @ ys)" and "p = path_of (q @ ys)"
  using pathsUnder_segs [OF keys q] p by (auto simp: deepest_first_def)

lemma distinct_pathsUnder: "distinct (map fst (v_cache s)) \<Longrightarrow> distinct (pathsUnder s p)"
  by (auto simp: pathsUnder_def intro: distinct_filter)

lemma deepest_first_split:
  assumes keys: "normal_keys (v_cache s)" and q: "valid_names q" "q \<noteq> []" and d: "distinct (map fst (v_cache s))"
    and x: "map_of (v_cache s) (path_of q) \<noteq> None"
  defines "L \<equiv> deepest_first s (path_of q)"
  defines "qs \<equiv> map path_parts (butlast L)"
  shows "L = butlast L @ [path_of q]" and "\<And>p. p \<in> set L \<Longrightarrow> path_of (path_parts p) = p"
    and "distinct qs" and "sorted_wrt (\<lambda>a b. length b \<le> length a) qs"
    and "\<And>z. valid_names z \<Longrightarrow> z \<in> set qs \<longleftrightarrow> strict_prefix q z \<and> map_of (v_cache s) (path_of z) \<noteq> None"
    and "\<And>z. z \<in> set qs \<Longrightarrow> valid_names z"
proof -
  have dis: "distinct L" using distinct_pathsUnder [OF d] by (simp add: L_def deepest_first_def)
  have srt: "sorted (map (\<lambda>p. - path_depth p) L)" by (simp add: L_def deepest_first_def)
  have mem: "path_of q \<in> set L" unfolding L_def deepest_first_def set_sort by (simp add: pathsUnder_def)
  show id: "path_of (path_parts p) = p" if p: "p \<in> set L" for p
    using deepest_first_segs [OF keys q(1) p [unfolded L_def]] by (metis path_parts_path_of)
  have depth: "path_depth p = int (length (path_parts p)) + 1" if p: "p \<in> set L" for p
    using deepest_first_segs [OF keys q(1) p [unfolded L_def]] q(2) by (metis append_is_Nil_conv path_depth_path_of path_parts_path_of)
  have L: "L = butlast L @ [last L]" using mem by (metis append_butlast_last_id empty_iff list.set(1))
  have low: "path_depth (last L) \<le> path_depth p" if "p \<in> set L" for p
    using srt that by (subst (asm) L, subst (asm) (3) L) (auto simp: sorted_append)
  have "last L = path_of q"
  proof -
    have "last L \<in> set L" using mem by (metis empty_iff last_in_set list.set(1))
    then obtain ys where ys: "valid_names (q @ ys)" "last L = path_of (q @ ys)"
      using deepest_first_segs [OF keys q(1)] by (auto simp: L_def)
    have "path_depth (path_of (q @ ys)) = int (length (q @ ys)) + 1" "path_depth (path_of q) = int (length q) + 1"
      using path_depth_path_of ys(1) q by simp_all
    then have "ys = []" using low [OF mem] ys(2) by simp
    then show ?thesis using ys(2) by simp
  qed
  then show split: "L = butlast L @ [path_of q]" using L by simp
  have sub: "set (butlast L) \<subseteq> set L" using in_set_butlastD by fastforce
  have inj: "inj_on path_parts (set L)" using id by (metis inj_onI)
  show "distinct qs"
    unfolding qs_def distinct_map using dis inj_on_subset [OF inj sub] by (simp add: distinct_butlast)
  have "sorted (map (\<lambda>p. - path_depth p) (butlast L))"
    using srt by (subst (asm) split) (simp add: sorted_append)
  then have "sorted_wrt (\<lambda>a b. path_depth b \<le> path_depth a) (butlast L)" by (simp add: sorted_map)
  then have "sorted_wrt (\<lambda>a b. length (path_parts b) \<le> length (path_parts a)) (butlast L)"
  proof (rule sorted_wrt_mono_rel [rotated])
    fix a b assume "a \<in> set (butlast L)" "b \<in> set (butlast L)" "path_depth b \<le> path_depth a"
    moreover from this have "a \<in> set L" "b \<in> set L" using sub by blast+
    ultimately show "length (path_parts b) \<le> length (path_parts a)" using depth [of a] depth [of b] by linarith
  qed
  then show "sorted_wrt (\<lambda>a b. length b \<le> length a) qs" by (simp add: qs_def sorted_wrt_map)
  have notq: "path_of q \<notin> set (butlast L)" using dis by (subst (asm) split) simp
  show "valid_names z" if z: "z \<in> set qs" for z
  proof -
    obtain p where p: "p \<in> set L" "z = path_parts p" using z sub by (auto simp: qs_def)
    show ?thesis using deepest_first_segs [OF keys q(1) p(1) [unfolded L_def]] p(2) by (metis path_parts_path_of)
  qed
  fix z assume z: "valid_names z"
  have "z \<in> set qs \<longleftrightarrow> path_of z \<in> set (butlast L)"
    unfolding qs_def using id sub z by (metis imageE image_eqI in_mono list.set_map path_parts_path_of)
  also have "\<dots> \<longleftrightarrow> path_of z \<in> set L \<and> z \<noteq> q" using notq z q(1) by (subst (2) split) auto
  also have "\<dots> \<longleftrightarrow> strict_prefix q z \<and> map_of (v_cache s) (path_of z) \<noteq> None"
    using set_pathsUnder [OF q(1) x z] by (auto simp: L_def deepest_first_def strict_prefix_def)
  finally show "z \<in> set qs \<longleftrightarrow> strict_prefix q z \<and> map_of (v_cache s) (path_of z) \<noteq> None" .
qed

lemma rm_plan_split:
  assumes keys: "normal_keys (v_cache s)" and q: "valid_names q" "q \<noteq> []" and d: "distinct (map fst (v_cache s))"
    and x: "map_of (v_cache s) (path_of q) = Some x"
  defines "L \<equiv> deepest_first s (path_of q)"
  shows "rm_plan s (path_of q) L = map (rm_step_of (v_cache s)) (map path_parts (butlast L))
    @ [\<lparr>rs_inode = pe_inode x, rs_parent = None, rs_name = last q\<rparr>]"
proof -
  note sp = deepest_first_split [OF keys q d, folded L_def]
  have x': "map_of (v_cache s) (path_of q) \<noteq> None" using x by simp
  note sp = sp [OF x']
  let ?st = "\<lambda>p. \<lparr>rs_inode = pe_inode (the (view_get s p)),
      rs_parent = (if p = path_of q then None else map_option pe_inode (view_get s (parentOf p))), rs_name = nameOf p\<rparr>"
  have step: "?st p = rm_step_of (v_cache s) (path_parts p)" if p: "p \<in> set (butlast L)" for p
  proof -
    have z: "path_parts p \<in> set (map path_parts (butlast L))" using p by simp
    have v: "valid_names (path_parts p)" and sq: "strict_prefix q (path_parts p)" using sp(5,6) [OF _] sp(6) z by blast+
    obtain zs n where zn: "path_parts p = zs @ [n]" using sq by (cases "path_parts p" rule: rev_cases) auto
    have pp: "p = path_of (zs @ [n])" using sp(2) p in_set_butlastD zn by metis
    have "p \<noteq> path_of q" using sq v q(1) pp zn by (auto simp: strict_prefix_def)
    then show ?thesis using v zn pp by (simp add: rm_step_of_def view_get_def)
  qed
  obtain ps n where pn: "q = ps @ [n]" using q(2) by (cases q rule: rev_cases) auto
  have top: "?st (path_of q) = \<lparr>rs_inode = pe_inode x, rs_parent = None, rs_name = last q\<rparr>"
    using x q pn by (simp add: view_get_def)
  have "rm_plan s (path_of q) L = map ?st (butlast L) @ [?st (path_of q)]"
    unfolding rm_plan_def by (subst sp(1)) simp
  then show ?thesis using step top by simp
qed

section \<open>rm -r\<close>

lemma sim_rm_tree:
  assumes q: "valid_names (ps @ [n])" and p: "map_of (v_cache s0) (path_of ps) = Some pe"
    and x: "map_of (v_cache s0) (path_of (ps @ [n])) = Some x"
  defines "L \<equiv> deepest_first s0 (path_of (ps @ [n]))"
  shows "simulates sid (rm_tree_run sid (Some (pe_inode pe)) n (rm_plan s0 (path_of (ps @ [n])) L)) 0 (v_cache s0)
    (\<lambda>_. fold cache_change (map DeletePath L) (v_cache s0))"
proof (rule simulates_nomint)
  fix e r \<rho> tx and rp :: replay_context
  assume s: "in_sync sid e r \<rho> (v_cache s0) tx" and ex: "r_expected rp = e" and rs: "resolves rp \<rho> (v_cache s0)"
  let ?c = "v_cache s0" and ?P = "\<rho> (pe_inode pe)" and ?I = "\<rho> (pe_inode x)" and ?q = "ps @ [n]"
  let ?qs = "map path_parts (butlast L)" and ?k = "(\<rho> (pe_inode pe), n)"
  have rd: "ready sid e tx" and wf: "wf_db (t_db tx)" and root: "root_of (t_db tx) sid = Some r"
    and co: "cohere \<rho> ?c (db_lookup (t_db tx) r)" using s by (simp_all add: in_sync_def)
  have keys: "normal_keys ?c" by (rule cohere_normal_keys [OF co])
  have x': "map_of ?c (path_of ?q) \<noteq> None" using x by simp
  have ne: "?q \<noteq> []" by simp
  note sp = deepest_first_split [OF keys q ne cohere_distinct [OF co] x', folded L_def]
  have res: "r_resolve rp (pe_inode pe) = Inr ?P" "r_resolve rp (pe_inode x) = Inr ?I"
    using rs inos_I [OF p] inos_I [OF x] by (simp_all add: resolves_def)
  have wps: "walk (t_db tx) r ps = Some ?P" using in_sync_entry [OF s _ p] q by auto
  have ch: "child (t_db tx) ?P n = Some ?I" using in_sync_child [OF s q wps] x by simp
  obtain prow where "node (t_db tx) ?P = Some prow" "i_kind prow = DIRECTORY" by (rule wf_child_entry [OF wf ch])
  moreover have "in_sandbox sid ?P (t_db tx)" using in_sync_entry [OF s _ p] q by (auto simp: in_sandbox_def)
  ultimately have dir: "dir_of sid ?P (t_db tx)" by (auto simp: dir_of_def in_sandbox_def)
  have s1: "in_sync sid e r \<rho> ?c (bumped sid tx)"
    using wf root co rd by (intro in_sync_tx [OF s]) simp_all
  have rem: "removable ?c ?qs"
  proof (rule removableI [OF sp(4,3)])
    fix z assume z: "z \<in> set ?qs"
    then have v: "valid_names z" by (rule sp(6))
    then have zq: "strict_prefix ?q z" "map_of ?c (path_of z) \<noteq> None" using sp(5) z by simp_all
    obtain zs m where zm: "z = zs @ [m]" using zq(1) by (cases z rule: rev_cases) auto
    have "map_of ?c (path_of zs) \<noteq> None"
    proof
      assume "map_of ?c (path_of zs) = None"
      then have "db_lookup (t_db tx) r z = None" using v zm in_sync_below [OF s, of zs z] by (simp add: strict_prefix_def)
      then show False using zq(2) cohere_None [OF co v] by simp
    qed
    then show "z \<noteq> [] \<and> valid_names z \<and> map_of ?c (path_of z) \<noteq> None \<and> map_of ?c (path_of (butlast z)) \<noteq> None"
      using v zm zq(2) by simp
    fix m' assume "valid_name m'" "map_of ?c (path_of (z @ [m'])) \<noteq> None"
    moreover have "strict_prefix ?q (z @ [m'])" using zq(1) by (metis prefix_order.less_le_trans prefixI)
    ultimately show "z @ [m'] \<in> set ?qs" using sp(5) [of "z @ [m']"] v by simp
  qed
  have out: "?q \<notin> set ?qs" "ps \<notin> set ?qs"
    using sp(5) [of ?q] sp(5) [of ps] q by (auto simp: strict_prefix_def dest: prefix_length_le)
  from rm_loop [OF s1 rem _ rs ex p q x out]
  obtain tx1 where loop: "for_each (map (rm_step_of ?c) ?qs) (rm_tree_step sid rp) (on_db (del_dirent ?k) (bumped sid tx))
      = (Inr (), on_db (del_dirent ?k) tx1)" and s2: "in_sync sid e r \<rho> (delete_all ?qs ?c) tx1" by blast
  have keep: "map_of (delete_all ?qs ?c) (path_of z) = map_of ?c (path_of z)" if "valid_names z" "z \<notin> set ?qs" for z
    using that sp(6) by (auto simp: map_of_delete_all)
  have p2: "map_of (delete_all ?qs ?c) (path_of ps) = Some pe" and x2: "map_of (delete_all ?qs ?c) (path_of ?q) = Some x"
    using keep [of ps] keep [of ?q] out p x q by simp_all
  have leaf: "childless (delete_all ?qs ?c) ?q"
    unfolding childless_def map_of_delete_all
  proof (intro allI impI)
    fix m assume "valid_name m"
    then have "?q @ [m] \<in> set ?qs \<longleftrightarrow> map_of ?c (path_of (?q @ [m])) \<noteq> None"
      using sp(5) [of "?q @ [m]"] q by (simp add: strict_prefix_def)
    then show "(if path_of (?q @ [m]) \<in> path_of ` set ?qs then None else map_of ?c (path_of (?q @ [m]))) = None"
      by (metis (no_types, lifting) imageI)
  qed
  let ?tx = "on_db (remove_entry ?P n) tx1"
  have f: "t_db ?tx = remove_entry ?P n (t_db tx1)" "ready sid e ?tx"
    using s2 by (auto simp: in_sync_def intro: ready_on_db)
  note rm = in_sync_remove [OF s2 q p2 x2 disjI2 [OF leaf] f disjI1 [OF refl]]
  have last_step: "rm_tree_step sid rp \<lparr>rs_inode = pe_inode x, rs_parent = None, rs_name = n\<rparr> (on_db (del_dirent ?k) tx1) = (Inr (), ?tx)"
    using unlink_after_delete [of sid e, OF _ _ rm(1,2)] s2 res(2) by (simp add: rm_tree_step_def in_sync_def)
  have plan: "rm_plan s0 (path_of ?q) L = map (rm_step_of ?c) ?qs @ [\<lparr>rs_inode = pe_inode x, rs_parent = None, rs_name = n\<rparr>]"
    using rm_plan_split [OF keys q _ cohere_distinct [OF co] x] by (simp add: L_def)
  have run: "rm_tree_run sid (Some (pe_inode pe)) n (rm_plan s0 (path_of ?q) L) rp tx = (Inr [], ?tx)"
    using deleteDirent_ready [OF rd wf dir ch] res ex loop last_step unfolding plan
    by (simp add: rm_tree_run_def and_then_ok for_each_append)
  have "fold cache_change (map DeletePath L) ?c = delete_all (map path_parts L) ?c"
    using sp(2) by (rule delete_all_cache_changes)
  also have "\<dots> = AList.delete (path_of ?q) (delete_all ?qs ?c)" using q by (subst sp(1)) simp
  finally show "\<exists>tx'. rm_tree_run sid (Some (pe_inode pe)) n (rm_plan s0 (path_of ?q) L) rp tx = (Inr [], tx')
      \<and> in_sync sid e r \<rho> (fold cache_change (map DeletePath L) ?c) tx'" using run rm(3) by auto
next
  have "set (fold cache_change (map DeletePath M) c) \<subseteq> set c" for M c
    by (induction M arbitrary: c) (fastforce simp: AList.delete_eq)+
  then show "inos (fold cache_change (map DeletePath L) (v_cache s0)) \<subseteq> inos (v_cache s0)" by (rule inos_subset)
qed

end
