(* ===== verification/PgResolve.thy ===== *)
theory PgResolve
  imports PgNamespace
begin

text \<open>
  The stored procedure \<open>fs_resolve\<close> (\<open>migrations/postgres\<close>, its last version) and the method
  \<open>resolvePath\<close> of \<open>namespace.ts\<close> that calls it. The loop keeps the pending components, the current
  inode and the stack of inodes that \<open>..\<close> ascends; a followed symlink prepends its target's
  components, and at most 40 are followed in one resolution.
\<close>

definition sql_segments :: "string \<Rightarrow> string list" where
  "sql_segments p = filter (\<lambda>seg. seg \<noteq> []) (split_on slash p)"

function fs_resolve_loop ::
  "pgtx \<Rightarrow> int \<Rightarrow> bool \<Rightarrow> nat \<Rightarrow> int \<Rightarrow> int list \<Rightarrow> string list \<Rightarrow> fs_error + int" where
  "fs_resolve_loop tx root follow hops current stack [] = Inr current"
| "fs_resolve_loop tx root follow hops current stack (c # cs) =
     (if c = ''.'' then fs_resolve_loop tx root follow hops current stack cs
      else if c = ''..'' then
        (if length stack > 1
         then fs_resolve_loop tx root follow hops (last (butlast stack)) (butlast stack) cs
         else fs_resolve_loop tx root follow hops current stack cs)
      else if map_option (\<lambda>r. i_kind r \<noteq> DIRECTORY) (get_inode tx current) = Some True then Inl (SqlState ''FS003'')
      else
        case get_dirent tx (current, c) of
          None \<Rightarrow> Inl (SqlState ''FS002'')
        | Some d \<Rightarrow>
            (case get_inode tx (d_inode d) of
               Some r \<Rightarrow>
                 if i_kind r = SYMLINK \<and> (cs \<noteq> [] \<or> follow) then
                   if Suc hops > 40 then Inl (SqlState ''FS001'')
                   else
                     let target = (case i_target r of None \<Rightarrow> [] | Some t \<Rightarrow> t)
                     in if prefix ''/'' target
                        then fs_resolve_loop tx root follow (Suc hops) root [root] (sql_segments target @ cs)
                        else fs_resolve_loop tx root follow (Suc hops) current stack (sql_segments target @ cs)
                 else fs_resolve_loop tx root follow hops (d_inode d) (stack @ [d_inode d]) cs
             | None \<Rightarrow> fs_resolve_loop tx root follow hops (d_inode d) (stack @ [d_inode d]) cs))"
  by pat_completeness auto
termination
  by (relation "measures [\<lambda>(tx, root, follow, hops, cur, st, cs). 41 - hops,
                          \<lambda>(tx, root, follow, hops, cur, st, cs). length cs]") auto

definition fs_resolve :: "pgtx \<Rightarrow> string \<Rightarrow> bool \<Rightarrow> fs_error + int" where
  "fs_resolve tx path follow =
     (case get_sandbox tx (app_sandbox_id tx) of
        None \<Rightarrow> Inl (SqlState ''FS002'')
      | Some s \<Rightarrow>
          (case sb_root s of
             None \<Rightarrow> Inl (SqlState ''FS002'')
           | Some root \<Rightarrow> fs_resolve_loop tx root follow 0 root [root] (sql_segments path)))"

definition pg_resolvePath :: "string \<Rightarrow> bool \<Rightarrow> int pg" where
  "pg_resolvePath path follow = (\<lambda>tx.
     case fs_resolve tx path follow of
       Inl e \<Rightarrow> (Inl (translateSqlError e path), tx)
     | Inr i \<Rightarrow> (Inr i, tx))"

end
