(* ===== verification/SqlFs.thy ===== *)
theory SqlFs
  imports DirectoryTree LinksMoves PgResolve
begin

text \<open>
  \<open>src/sql-fs/sql-fs.ts\<close> and the entry points of \<open>state/namespace-operations.ts\<close>: the file-system
  interface a script sees. Every path argument goes through \<open>validatePath\<close>; \<open>/dev/null\<close> is
  served virtually; mutations go to the namespace operations. One call runs at a time here: the
  namespace reservation serialises overlapping calls.
\<close>

section \<open>Stat values\<close>

record fs_stat =
  st_isFile :: bool
  st_isDirectory :: bool
  st_isSymbolicLink :: bool
  st_mode :: int
  st_size :: int
  st_mtime :: int
  st_identity :: "int option"

text \<open>\<open>identity\<close> is the decimal inode id, or the device's own name (\<open>None\<close>).\<close>

definition DEV_NULL_STAT :: fs_stat where
  "DEV_NULL_STAT = \<lparr>st_isFile = True, st_isDirectory = False, st_isSymbolicLink = False,
     st_mode = 438, st_size = 0, st_mtime = 0, st_identity = None\<rparr>"

definition stat_of_entry :: "bool \<Rightarrow> path_entry \<Rightarrow> fs_stat" where
  "stat_of_entry follow e =
     \<lparr>st_isFile = (pe_kind e = FILE), st_isDirectory = (pe_kind e = DIRECTORY),
      st_isSymbolicLink = (follow \<and> pe_kind e = SYMLINK),
      st_mode = pe_mode e, st_size = pe_size e, st_mtime = pe_mtime e, st_identity = Some (pe_inode e)\<rparr>"

section \<open>Reads\<close>

definition entry_with_inode :: "session \<Rightarrow> int \<Rightarrow> path_entry option" where
  "entry_with_inode s i = map_option snd (List.find (\<lambda>(p, e). pe_inode e = i) (v_cache s))"

definition resolveReadEntry :: "string \<Rightarrow> path_entry option fs" where
  "resolveReadEntry path = (\<lambda>s.
     let from_dialect =
       and_then (persist_read (pg_resolvePath path True)) (\<lambda>i s.
         case entry_with_inode s i of None \<Rightarrow> (Inl (ENOENT path), s) | Some e \<Rightarrow> (Inr (Some e), s))
     in case view_get s path of
          Some e \<Rightarrow>
            if pe_kind e \<noteq> SYMLINK then (Inr (Some e), s)
            else
              (case resolveCached s path of
                 Inr (_, None) \<Rightarrow> (Inr None, s)
               | Inr (_, Some e') \<Rightarrow> if p_scope s then (Inr (Some e'), s) else from_dialect s
               | Inl err \<Rightarrow>
                   if p_scope s \<or> error_code err \<noteq> Some ''ENOENT'' then (Inl err, s) else from_dialect s)
        | None \<Rightarrow>
            (case resolveCached s path of
               Inr (_, None) \<Rightarrow> (Inr None, s)
             | Inr (_, Some e') \<Rightarrow> if p_scope s then (Inr (Some e'), s) else from_dialect s
             | Inl err \<Rightarrow> (Inl err, s)))"

definition readBytes_fs :: "string \<Rightarrow> bytes fs" where
  "readBytes_fs inputPath =
     and_then (of_sum (validatePath inputPath)) (\<lambda>path.
     if path = DEV_NULL then return_ok []
     else
       and_then (resolveReadEntry path) (\<lambda>entry.
       case entry of
         None \<Rightarrow> return_ok []
       | Some e \<Rightarrow>
           and_then (throw_if (pe_kind e = DIRECTORY) (EISDIR path)) (\<lambda>_.
           and_then (assertExecFileSize path (pe_size e) True) (\<lambda>_.
           and_then (consumeExecInput (pe_size e) path) (\<lambda>_.
           readBytes path e)))))"

definition readFileBuffer :: "string \<Rightarrow> bytes fs" where
  "readFileBuffer inputPath = and_then assertAlive (\<lambda>_. readBytes_fs inputPath)"

definition fs_exists :: "string \<Rightarrow> bool fs" where
  "fs_exists inputPath =
     and_then assertAlive (\<lambda>_.
     and_then (of_sum (validatePath inputPath)) (\<lambda>path.
     gets (\<lambda>s. path = DEV_NULL \<or> view_has s path)))"

definition fs_stat_op :: "string \<Rightarrow> fs_stat fs" where
  "fs_stat_op inputPath =
     and_then assertAlive (\<lambda>_.
     and_then (of_sum (validatePath inputPath)) (\<lambda>path.
     if path = DEV_NULL then return_ok DEV_NULL_STAT
     else
       and_then (resolveReadEntry path) (\<lambda>entry.
       return_ok (case entry of None \<Rightarrow> DEV_NULL_STAT | Some e \<Rightarrow> stat_of_entry False e))))"

definition fs_lstat :: "string \<Rightarrow> fs_stat fs" where
  "fs_lstat inputPath =
     and_then assertAlive (\<lambda>_.
     and_then (of_sum (validatePath inputPath)) (\<lambda>path s.
     if path = DEV_NULL then (Inr DEV_NULL_STAT, s)
     else (case view_get s path of None \<Rightarrow> (Inl (ENOENT path), s) | Some e \<Rightarrow> (Inr (stat_of_entry True e), s))))"

definition fs_readdir :: "string \<Rightarrow> string list fs" where
  "fs_readdir inputPath =
     and_then assertAlive (\<lambda>_.
     and_then (of_sum (validatePath inputPath)) (\<lambda>path s.
     if path = DEV_NULL then (Inl (ENOTDIR path), s)
     else
       (case view_get s path of
          None \<Rightarrow> (Inl (ENOENT path), s)
        | Some e \<Rightarrow>
            if pe_kind e \<noteq> DIRECTORY then (Inl (ENOTDIR path), s)
            else (Inr (map nameOf (childPaths s path)), s))))"

definition fs_readlink :: "string \<Rightarrow> string fs" where
  "fs_readlink inputPath =
     and_then (of_sum (validatePath inputPath)) (\<lambda>path s.
     if path = DEV_NULL then (Inl (EINVAL path), s)
     else
       (case view_get s path of
          None \<Rightarrow> (Inl (ENOENT path), s)
        | Some e \<Rightarrow>
            if pe_kind e \<noteq> SYMLINK then (Inl (EINVAL path), s)
            else (Inr (the (pe_target e)), s)))"

definition path_with_inode :: "session \<Rightarrow> int \<Rightarrow> string option" where
  "path_with_inode s i = map_option fst (List.find (\<lambda>(p, e). pe_inode e = i) (v_cache s))"

definition fs_realpath :: "string \<Rightarrow> string fs" where
  "fs_realpath inputPath =
     and_then assertAlive (\<lambda>_.
     and_then (of_sum (validatePath inputPath)) (\<lambda>path s.
       let from_dialect =
         and_then (persist_read (pg_resolvePath path True)) (\<lambda>i s.
           case path_with_inode s i of None \<Rightarrow> (Inl (ENOENT path), s) | Some p \<Rightarrow> (Inr p, s))
       in if path = DEV_NULL then (Inr path, s)
          else
            (case resolveCached s path of
               Inr (p, None) \<Rightarrow> (Inr p, s)
             | Inr (p, Some _) \<Rightarrow> if p_scope s then (Inr p, s) else from_dialect s
             | Inl err \<Rightarrow>
                 if p_scope s \<or> error_code err \<noteq> Some ''ENOENT'' then (Inl err, s) else from_dialect s)))"

section \<open>Writes\<close>

definition fs_writeFile :: "string \<Rightarrow> bytes \<Rightarrow> unit fs" where
  "fs_writeFile inputPath b =
     and_then (of_sum (validatePath inputPath)) (\<lambda>path.
     if path = DEV_NULL then return_ok () else writeFile_ns path b None)"

definition fs_appendFile :: "string \<Rightarrow> bytes \<Rightarrow> unit fs" where
  "fs_appendFile inputPath b =
     and_then (of_sum (validatePath inputPath)) (\<lambda>path.
     if path = DEV_NULL then return_ok () else appendFile_ns path b)"

definition fs_rm :: "string \<Rightarrow> bool \<Rightarrow> bool \<Rightarrow> unit fs" where
  "fs_rm inputPath recursive force =
     and_then (of_sum (validatePath inputPath)) (\<lambda>path.
     and_then (of_sum (assertStoredPath path ''rm'')) (\<lambda>_.
     rm_ns path recursive force))"

definition fs_chmod :: "string \<Rightarrow> int \<Rightarrow> unit fs" where
  "fs_chmod inputPath mode =
     and_then (of_sum (validatePath inputPath)) (\<lambda>path.
     and_then (of_sum (assertStoredPath path ''chmod'')) (\<lambda>_.
     chmod_ns path mode))"

definition fs_utimes :: "string \<Rightarrow> int \<Rightarrow> unit fs" where
  "fs_utimes inputPath mtime =
     and_then (of_sum (validatePath inputPath)) (\<lambda>path.
     and_then (of_sum (assertStoredPath path ''utimes'')) (\<lambda>_.
     utimes_ns path mtime))"

definition fs_cp :: "string \<Rightarrow> string \<Rightarrow> bool \<Rightarrow> unit fs" where
  "fs_cp inputSrc inputDest recursive =
     and_then (of_sum (validatePath inputSrc)) (\<lambda>src.
     and_then (of_sum (validatePath inputDest)) (\<lambda>dest.
     cp_ns src dest recursive (\<lambda>path mode. writeFile_ns path [] (Some mode))))"

definition fs_mv :: "string \<Rightarrow> string \<Rightarrow> unit fs" where
  "fs_mv inputSrc inputDest =
     and_then (of_sum (validatePath inputSrc)) (\<lambda>src.
     and_then (of_sum (validatePath inputDest)) (\<lambda>dest.
     and_then (of_sum (assertStoredPath src ''mv'')) (\<lambda>_.
     and_then (of_sum (assertStoredPath dest ''mv'')) (\<lambda>_.
     mv_ns src dest))))"

definition fs_symlink :: "string \<Rightarrow> string \<Rightarrow> unit fs" where
  "fs_symlink target inputLinkPath =
     and_then (of_sum (validatePath inputLinkPath)) (\<lambda>linkPath.
     if linkPath = DEV_NULL then throw (EEXIST linkPath) else symlink_ns target linkPath)"

definition fs_link :: "string \<Rightarrow> string \<Rightarrow> unit fs" where
  "fs_link inputExisting inputNew =
     and_then (of_sum (validatePath inputExisting)) (\<lambda>existing.
     and_then (of_sum (validatePath inputNew)) (\<lambda>new.
     and_then (of_sum (assertStoredPath existing ''link'')) (\<lambda>_.
     if new = DEV_NULL then throw (EEXIST new) else link_ns existing new)))"

definition fs_createExclusive :: "string \<Rightarrow> bool \<Rightarrow> int \<Rightarrow> unit fs" where
  "fs_createExclusive inputPath directory mode =
     and_then (of_sum (validatePath inputPath)) (\<lambda>path.
     if path = DEV_NULL then throw (EEXIST path)
     else
       and_then (assertWritable path ''createExclusive'') (\<lambda>_.
       and_then (gets (\<lambda>s. view_has s path)) (\<lambda>present.
       and_then (throw_if present (EEXIST path)) (\<lambda>_.
       and_then (gets (requireParent path)) (\<lambda>par.
       and_then (of_sum par) (\<lambda>_.
       if directory then mkdir_ns path False mode else writeFile_ns path [] (Some mode)))))))"

definition fs_mkdir :: "string \<Rightarrow> bool \<Rightarrow> unit fs" where
  "fs_mkdir inputPath recursive =
     and_then (of_sum (validatePath inputPath)) (\<lambda>path.
     if path = DEV_NULL then (if recursive then throw (ENOTDIR path) else throw (EEXIST path))
     else mkdir_ns path recursive 493)"

section \<open>Script scopes\<close>

definition recoverCommittedView :: "unit fs" where
  "recoverCommittedView =
     catch (and_then reload (\<lambda>_. modify (\<lambda>s. s\<lparr>v_dirty := False\<rparr>)))
       (\<lambda>_. modify (\<lambda>s. s\<lparr>v_poisoned := True\<rparr>))"

definition beginScriptScope :: "unit fs" where
  "beginScriptScope = scope_begin"

definition abortScriptScope :: "unit fs" where
  "abortScriptScope =
     and_then scope_abort (\<lambda>reloadRequired.
     if reloadRequired then
       catch (and_then reload (\<lambda>_. modify (\<lambda>s. s\<lparr>v_dirty := False\<rparr>)))
         (\<lambda>_. modify (\<lambda>s. s\<lparr>v_poisoned := True\<rparr>))
     else return_ok ())"

definition endScriptScope :: "unit fs" where
  "endScriptScope = (\<lambda>s.
     if \<not> p_scope s then (Inr (), s)
     else if f_owner_lost s then
       and_then abortScriptScope (\<lambda>_. throw (ELOCKLOST ''worker owner before flush'')) s
     else
       case alive_verdict s of
         Inl lost \<Rightarrow> and_then abortScriptScope (\<lambda>_. throw lost) s
       | Inr _ \<Rightarrow>
           and_then finish (\<lambda>settlement.
           case settlement of
             ScopeFailed e reloadRequired \<Rightarrow>
               and_then (if reloadRequired then recoverCommittedView else return_ok ()) (\<lambda>_. throw e)
           | ScopeCommitted epoch remap \<Rightarrow>
               catch (publishScope epoch remap) (\<lambda>e. and_then recoverCommittedView (\<lambda>_. throw e))
           | Unchanged \<Rightarrow> return_ok ()) s)"

definition fs_claimGeneration :: "bool fs" where
  "fs_claimGeneration =
     and_then claimGeneration (\<lambda>certificate.
     case certificate of
       None \<Rightarrow> return_ok False
     | Some g \<Rightarrow>
         and_then (publishGeneration g) (\<lambda>published.
         if published then return_ok False else and_then reload (\<lambda>_. return_ok True)))"

definition beginReadOnlyScope :: "unit fs" where
  "beginReadOnlyScope = modify (\<lambda>s. s\<lparr>f_readonly := Suc (f_readonly s)\<rparr>)"

definition endReadOnlyScope :: "unit fs" where
  "endReadOnlyScope = (\<lambda>s.
     if f_readonly s = 0 then (Inl (InternalError ''endReadOnlyScope: no active read-only scope''), s)
     else (Inr (), s\<lparr>f_readonly := f_readonly s - 1\<rparr>))"

definition assertFileAccess :: "string \<Rightarrow> int \<Rightarrow> bool \<Rightarrow> unit fs" where
  "assertFileAccess inputPath bytes is_read =
     and_then (of_sum (validatePath inputPath)) (\<lambda>path.
     if path = DEV_NULL then return_ok ()
     else
       and_then (if is_read then assertAlive else assertWritable path ''writeFile'') (\<lambda>_.
       assertExecFileSize path bytes is_read))"

text \<open>\<open>runInScriptScope\<close> of \<open>script-scope.ts\<close>: all the script's mutations commit together or not at all.\<close>

definition runInScriptScope :: "'a fs \<Rightarrow> 'a fs" where
  "runInScriptScope f = (\<lambda>s.
     if p_scope s then f s
     else
       and_then beginScriptScope (\<lambda>_.
       catch (and_then f (\<lambda>r. and_then endScriptScope (\<lambda>_. return_ok r)))
         (\<lambda>primary. and_then (catch (\<lambda>s. if p_scope s then abortScriptScope s else (Inr (), s)) (\<lambda>_. return_ok ()))
            (\<lambda>_. throw primary))) s)"

end
