(* ===== verification/Isolation.thy ===== *)
theory Isolation
  imports Fencing FileWrites
begin

text \<open>
  Tenant isolation at the level of the dialect: a statement that runs with the context of sandbox
  \<open>sid\<close> leaves every row of every other sandbox as it is. \<open>foreign sid d\<close> is what of \<open>d\<close> belongs to
  others; \<open>closed_for sid d\<close> is the invariant the cascades of \<open>DELETE FROM inodes\<close> need (a foreign
  entry joins foreign inodes, ids lie below the sequence).
\<close>

section \<open>What belongs to the others\<close>

definition only :: "('r \<Rightarrow> string) \<Rightarrow> string \<Rightarrow> ('k \<Rightarrow> 'r option) \<Rightarrow> 'k \<Rightarrow> 'r option" where
  "only owner sid t k = (case t k of None \<Rightarrow> None | Some r \<Rightarrow> if owner r \<noteq> sid then Some r else None)"

definition foreign_inodes :: "string \<Rightarrow> db \<Rightarrow> int \<Rightarrow> inode_row option" where
  "foreign_inodes sid d = only i_sandbox sid (node d)"

definition foreign_dirents :: "string \<Rightarrow> db \<Rightarrow> int \<times> string \<Rightarrow> dirent_row option" where
  "foreign_dirents sid d = only d_sandbox sid (map_of (dirents d))"

definition foreign_sandboxes :: "string \<Rightarrow> db \<Rightarrow> string \<Rightarrow> sandbox_row option" where
  "foreign_sandboxes sid d = (\<lambda>s. if s = sid then None else map_of (sandboxes d) s)"

definition same_foreign :: "string \<Rightarrow> db \<Rightarrow> db \<Rightarrow> bool" where
  "same_foreign sid d d' \<longleftrightarrow> foreign_inodes sid d' = foreign_inodes sid d
     \<and> foreign_dirents sid d' = foreign_dirents sid d \<and> foreign_sandboxes sid d' = foreign_sandboxes sid d
     \<and> sandbox_epochs d' = sandbox_epochs d"

definition closed_for :: "string \<Rightarrow> db \<Rightarrow> bool" where
  "closed_for sid d \<longleftrightarrow> (\<forall>i r. node d i = Some r \<longrightarrow> i < inode_seq d) \<and> distinct (map fst (dirents d))
     \<and> (\<forall>k e. foreign_dirents sid d k = Some e \<longrightarrow>
          foreign_inodes sid d (fst k) \<noteq> None \<and> foreign_inodes sid d (d_inode e) \<noteq> None)"

text \<open>The invariant of the whole database gives it for every sandbox.\<close>

lemma wf_closed_for: "wf_off off d \<Longrightarrow> closed_for sid d"
  unfolding wf_off_def wf_keys_def wf_ids_def wf_entries_def closed_for_def foreign_dirents_def
    foreign_inodes_def only_def
  by (fastforce split: option.splits if_splits)

definition isolated :: "string \<Rightarrow> db \<Rightarrow> db \<Rightarrow> bool" where
  "isolated sid d d' \<longleftrightarrow> (closed_for sid d \<longrightarrow> closed_for sid d' \<and> same_foreign sid d d')"

definition isolated_tx :: "string \<Rightarrow> pgtx \<Rightarrow> pgtx \<Rightarrow> bool" where
  "isolated_tx sid tx tx' \<longleftrightarrow>
     (sid \<noteq> [] \<and> app_sandbox_id tx = sid \<longrightarrow> app_sandbox_id tx' = sid \<and> isolated sid (t_db tx) (t_db tx'))"

lemma isolated_refl [simp]: "isolated sid d d"
  by (simp add: isolated_def same_foreign_def)

lemma isolated_trans: "isolated sid a b \<Longrightarrow> isolated sid b c \<Longrightarrow> isolated sid a c"
  by (auto simp: isolated_def same_foreign_def)

interpretation iso: state_preorder "isolated_tx sid" for sid
proof
  show "isolated_tx sid s t \<Longrightarrow> isolated_tx sid t u \<Longrightarrow> isolated_tx sid s u" for s t u
    by (auto simp: isolated_tx_def intro: isolated_trans)
qed (simp add: isolated_tx_def)

section \<open>Row updates\<close>

lemma isolated_cong:
  assumes "inodes d' = inodes d" and "dirents d' = dirents d" and "inode_seq d' = inode_seq d"
    and "\<And>s. s \<noteq> sid \<Longrightarrow> map_of (sandboxes d') s = map_of (sandboxes d) s" and "sandbox_epochs d' = sandbox_epochs d"
  shows "isolated sid d d'"
  using assms
  by (auto simp: isolated_def closed_for_def same_foreign_def foreign_inodes_def foreign_dirents_def
      foreign_sandboxes_def node_def fun_eq_iff only_def)

lemma sandboxes_updates [simp]:
  "sandboxes (put_inode i r d) = sandboxes d" "sandboxes (put_dirent k e d) = sandboxes d"
  "sandboxes (del_dirent k d) = sandboxes d" "sandboxes (del_inode i d) = sandboxes d"
  "sandbox_epochs (put_inode i r d) = sandbox_epochs d" "sandbox_epochs (put_dirent k e d) = sandbox_epochs d"
  "sandbox_epochs (del_dirent k d) = sandbox_epochs d" "sandbox_epochs (del_inode i d) = sandbox_epochs d"
  by (simp_all add: put_inode_def put_dirent_def del_dirent_def del_inode_def)

lemma isolated_put_inode:
  assumes "i_sandbox r = sid" and "\<And>r'. node d i = Some r' \<Longrightarrow> i_sandbox r' = sid"
    and "i < inode_seq d \<or> x > i" and "inode_seq d \<le> x"
  shows "isolated sid d ((put_inode i r d)\<lparr>inode_seq := x\<rparr>)"
proof -
  have fi: "foreign_inodes sid ((put_inode i r d)\<lparr>inode_seq := x\<rparr>) = foreign_inodes sid d"
    using assms(1,2) by (auto simp: foreign_inodes_def only_def fun_eq_iff split: option.splits)
  have fd: "foreign_dirents sid ((put_inode i r d)\<lparr>inode_seq := x\<rparr>) = foreign_dirents sid d"
    by (simp add: foreign_dirents_def put_inode_def)
  show ?thesis
    using assms(3,4) fi fd
    by (fastforce simp: isolated_def closed_for_def same_foreign_def foreign_sandboxes_def put_inode_def node_def)
qed

lemma isolated_put_dirent:
  assumes "d_sandbox e = sid" and "\<And>e'. map_of (dirents d) k = Some e' \<Longrightarrow> d_sandbox e' = sid"
  shows "isolated sid d (put_dirent k e d)"
proof -
  have fd: "foreign_dirents sid (put_dirent k e d) = foreign_dirents sid d"
    using assms by (auto simp: foreign_dirents_def only_def put_dirent_def fun_eq_iff split: option.splits)
  have "foreign_inodes sid (put_dirent k e d) = foreign_inodes sid d"
    by (simp add: foreign_inodes_def)
  then show ?thesis
    using fd by (auto simp: isolated_def closed_for_def same_foreign_def foreign_sandboxes_def
        put_dirent_def node_def distinct_update)
qed

lemma isolated_del_dirent:
  assumes "\<And>e'. map_of (dirents d) k = Some e' \<Longrightarrow> d_sandbox e' = sid"
  shows "isolated sid d (del_dirent k d)"
proof -
  have fd: "foreign_dirents sid (del_dirent k d) = foreign_dirents sid d"
    using assms by (auto simp: foreign_dirents_def only_def del_dirent_def fun_eq_iff split: option.splits)
  have "foreign_inodes sid (del_dirent k d) = foreign_inodes sid d"
    by (simp add: foreign_inodes_def)
  then show ?thesis
    using fd by (auto simp: isolated_def closed_for_def same_foreign_def foreign_sandboxes_def
        del_dirent_def node_def distinct_delete)
qed

text \<open>The cascade of a deleted inode stays inside its sandbox.\<close>

lemma isolated_del_inode:
  assumes "node d i = Some r" and "i_sandbox r = sid"
  shows "isolated sid d (del_inode i d)"
  unfolding isolated_def
proof
  assume c: "closed_for sid d"
  have own: "foreign_inodes sid d i = None" using assms by (simp add: foreign_inodes_def only_def)
  have fi: "foreign_inodes sid (del_inode i d) = foreign_inodes sid d"
    using assms by (auto simp: foreign_inodes_def only_def fun_eq_iff split: option.splits)
  have keep: "fst k \<noteq> i \<and> d_inode e \<noteq> i" if "foreign_dirents sid d k = Some e" for k e
    using c that own unfolding closed_for_def by metis
  have fd: "foreign_dirents sid (del_inode i d) k = foreign_dirents sid d k" for k
    using c keep [of k]
    by (cases "map_of (dirents d) k")
       (auto simp: foreign_dirents_def only_def del_inode_def closed_for_def
         map_of_filter_distinct [where P = "\<lambda>k e. fst k \<noteq> i \<and> d_inode e \<noteq> i"] split: if_splits)
  then have "foreign_dirents sid (del_inode i d) = foreign_dirents sid d" by blast
  moreover have "distinct (map fst (dirents (del_inode i d)))"
    using c by (simp add: closed_for_def del_inode_def distinct_keys_filter)
  moreover have "inode_seq (del_inode i d) = inode_seq d" by (simp add: del_inode_def)
  moreover have "\<forall>j r. node (del_inode i d) j = Some r \<longrightarrow> j < inode_seq d"
    using c by (auto simp: closed_for_def)
  ultimately show "closed_for sid (del_inode i d) \<and> same_foreign sid d (del_inode i d)"
    using c fi by (auto simp: closed_for_def same_foreign_def foreign_sandboxes_def)
qed

section \<open>Statements\<close>

lemma isolated_txI:
  "(sid \<noteq> [] \<Longrightarrow> app_sandbox_id tx = sid \<Longrightarrow> app_sandbox_id tx' = sid \<and> isolated sid (t_db tx) (t_db tx'))
     \<Longrightarrow> isolated_tx sid tx tx'"
  by (simp add: isolated_tx_def)

lemma rls_own: "app_sandbox_id tx = sid \<Longrightarrow> sid \<noteq> [] \<Longrightarrow> rls_ok tx s \<longleftrightarrow> s = sid"
  by (simp add: rls_ok_def)

lemma get_inode_own:
  "app_sandbox_id tx = sid \<Longrightarrow> sid \<noteq> [] \<Longrightarrow> get_inode tx i = Some r \<longleftrightarrow> node (t_db tx) i = Some r \<and> i_sandbox r = sid"
  by (auto simp: get_inode_def rls_own node_def split: option.splits)

lemma get_dirent_own:
  "app_sandbox_id tx = sid \<Longrightarrow> sid \<noteq> [] \<Longrightarrow>
     get_dirent tx k = Some e \<longleftrightarrow> map_of (dirents (t_db tx)) k = Some e \<and> d_sandbox e = sid"
  by (auto simp: get_dirent_def rls_own split: option.splits)

lemma iso_insert_inode: "iso.keeps sid (insert_inode r)"
proof (rule iso.keepsI, rule isolated_txI)
  fix tx res tx' assume op: "insert_inode r tx = (res, tx')" and own: "sid \<noteq> []" "app_sandbox_id tx = sid"
  show "app_sandbox_id tx' = sid \<and> isolated sid (t_db tx) (t_db tx')"
  proof (cases "closed_for sid (t_db tx)")
    case True
    then have "node (t_db tx) (inode_seq (t_db tx)) = None"
      unfolding closed_for_def by (metis not_None_eq order_less_irrefl)
    then show ?thesis
      using op own
      by (auto simp: insert_inode_def Let_def rls_own intro!: isolated_put_inode split: if_splits)
  next
    case False
    then show ?thesis using op own by (auto simp: insert_inode_def Let_def isolated_def split: if_splits)
  qed
qed

lemma iso_put_inode:
  "get_inode tx i = Some r \<Longrightarrow> i_sandbox r' = i_sandbox r \<Longrightarrow> isolated_tx sid tx (on_db (put_inode i r') tx)"
proof (rule isolated_txI)
  assume r: "get_inode tx i = Some r" "i_sandbox r' = i_sandbox r" and own: "sid \<noteq> []" "app_sandbox_id tx = sid"
  have "isolated sid (t_db tx) ((put_inode i r' (t_db tx))\<lparr>inode_seq := inode_seq (t_db tx)\<rparr>)"
  proof (cases "closed_for sid (t_db tx)")
    case True
    then show ?thesis
      using r own unfolding closed_for_def by (intro isolated_put_inode) (auto simp: get_inode_own)
  qed (simp add: isolated_def)
  then show "app_sandbox_id (on_db (put_inode i r') tx) = sid \<and> isolated sid (t_db tx) (t_db (on_db (put_inode i r') tx))"
    using own by (simp add: put_inode_def)
qed

lemma iso_del_inode: "get_inode tx i = Some r \<Longrightarrow> isolated_tx sid tx (on_db (del_inode i) tx)"
  by (rule isolated_txI) (auto simp: get_inode_own intro: isolated_del_inode)

lemma iso_del_dirent: "get_dirent tx k = Some e \<Longrightarrow> isolated_tx sid tx (on_db (del_dirent k) tx)"
  by (rule isolated_txI) (auto simp: get_dirent_own intro: isolated_del_dirent)

lemma iso_drop_link: "isolated_tx sid tx (drop_link i tx)"
  by (auto simp: drop_link_def iso.refl intro: iso_del_inode iso_put_inode split: option.split)

lemma iso_insert_dirent_row: "iso.keeps sid (insert_dirent_row k e)"
  by (rule iso.keepsI, rule isolated_txI)
     (auto simp: insert_dirent_row_def rls_own intro!: isolated_put_dirent split: if_splits)

lemma iso_upsert_dirent_row: "iso.keeps sid (upsert_dirent_row k e)"
proof (rule iso.keepsI)
  fix tx res tx' assume op: "upsert_dirent_row k e tx = (res, tx')"
  show "isolated_tx sid tx tx'"
  proof (cases "map_of (dirents (t_db tx)) k")
    case None
    then show ?thesis
      using op iso.keepsD [OF iso_insert_dirent_row, of k e tx res tx'] by (simp add: upsert_dirent_row_def)
  next
    case (Some old)
    then show ?thesis
      using op
      by (auto simp: upsert_dirent_row_def rls_own intro!: isolated_txI isolated_put_dirent split: if_splits)
  qed
qed

lemma iso_rename_dirent: "iso.keeps sid (rename_dirent old new missing)"
proof (rule iso.keepsI, rule isolated_txI)
  fix tx res tx' assume op: "rename_dirent old new missing tx = (res, tx')" and own: "sid \<noteq> []" "app_sandbox_id tx = sid"
  show "app_sandbox_id tx' = sid \<and> isolated sid (t_db tx) (t_db tx')"
  proof (cases "\<exists>d. get_dirent tx old = Some d \<and> tx' = on_db (\<lambda>x. put_dirent new d (del_dirent old x)) tx
      \<and> (new = old \<or> map_of (dirents (t_db tx)) new = None)")
    case True
    then obtain d where d: "get_dirent tx old = Some d" "tx' = on_db (\<lambda>x. put_dirent new d (del_dirent old x)) tx"
      "new = old \<or> map_of (dirents (t_db tx)) new = None" by blast
    have "isolated sid (t_db tx) (del_dirent old (t_db tx))"
      using d(1) own by (intro isolated_del_dirent) (auto simp: get_dirent_own)
    moreover have "isolated sid (del_dirent old (t_db tx)) (put_dirent new d (del_dirent old (t_db tx)))"
      using d own by (intro isolated_put_dirent) (auto simp: get_dirent_own del_dirent_def split: if_splits)
    ultimately show ?thesis using d own by (simp add: isolated_trans)
  next
    case False
    then show ?thesis using op own by (auto simp: rename_dirent_def split: if_splits option.splits)
  qed
qed

lemma iso_locks: "iso.keeps sid (takeWriterLock s)"
  by (rule iso.keepsI) (auto simp: takeWriterLock_def isolated_tx_def)

lemma iso_fenceCtes: "fenceCtes ctx s expected tx = (b, tx') \<Longrightarrow> isolated_tx sid tx tx'"
  by (rule isolated_txI)
     (auto simp: fenceCtes_def get_sandbox_def rls_own Let_def intro!: isolated_cong split: option.splits if_splits)

lemma iso_fence: "iso.keeps sid (plain_fence s expected)" "iso.keeps sid (composite_fence s expected gone)"
  by (auto intro!: iso.keepsI intro: iso_fenceCtes simp: plain_fence_def composite_fence_def
      split: prod.splits bool.splits if_splits)

lemma iso_insert_now: "iso.keeps sid (\<lambda>tx. insert_inode (f tx) tx)"
  by (rule iso.keeps_state) (rule iso_insert_inode)

lemma iso_reads: "iso.keeps sid (getSandboxEpoch s)" "iso.keeps sid (getInode i)" "iso.keeps sid (getBlob env sha)"
  by (auto intro!: iso.keepsI simp: getSandboxEpoch_def getInode_def getBlob_def iso.refl split: option.splits)

lemmas iso_statements = iso_insert_inode iso_insert_dirent_row iso_upsert_dirent_row iso_rename_dirent
  iso_locks iso_fence iso_insert_now iso_reads

section \<open>Dialect methods\<close>

lemma iso_mkdirComposite: "iso.keeps sid (mkdirComposite s parent name mode expected)"
  unfolding mkdirComposite_def by (intro iso.keeps_intros iso_statements)

lemma iso_rmComposite: "iso.keeps sid (rmComposite s parent name expected)"
  unfolding rmComposite_def
  by (intro iso.keeps_intros iso_statements iso.keeps_fun)
     (auto split: option.split intro: iso.refl iso.trans [OF iso_del_dirent iso_drop_link])

lemma iso_writeFileComposite: "iso.keeps sid (writeFileComposite s parent name mode sz sha expected)"
  unfolding writeFileComposite_def Let_def
  by (intro iso.keeps_intros iso_statements iso.keeps_fun iso.keeps_and_then_app iso.keeps_modify)
     (auto intro: iso_drop_link iso.refl split: option.split)

lemma iso_mvComposite: "iso.keeps sid (mvComposite s op' on np nn expected)"
  unfolding mvComposite_def
  by (intro iso.keeps_intros iso_statements iso.keeps_modify)
     (auto split: option.split intro: iso.refl iso.trans [OF iso_del_dirent iso_drop_link])

lemma iso_createInode: "iso.keeps sid (createInode opts expected)"
  unfolding createInode_def by (intro iso.keeps_intros iso_statements)

lemma iso_updateInode: "iso.keeps sid (updateInode i u s expected)"
  unfolding updateInode_def
  by (intro iso.keeps_intros iso_statements iso.keeps_fun)
     (auto simp: patch_inode_row_def split: option.split intro: iso.refl iso_put_inode)

lemma iso_deleteInode: "iso.keeps sid (deleteInode i)"
  unfolding deleteInode_def by (rule iso.keeps_fun) (auto intro: iso.refl iso_del_inode)

lemma iso_nlink: "iso.keeps sid (incrementNlink i s expected)" "iso.keeps sid (decrementNlink i)"
  unfolding incrementNlink_def decrementNlink_def
  by (intro iso.keeps_intros iso_statements iso.keeps_fun; auto split: option.split intro: iso.refl iso_put_inode)+

lemma iso_dirents: "iso.keeps sid (insertDirent parent name i)" "iso.keeps sid (upsertDirent parent name i)"
    "iso.keeps sid (deleteDirent parent name s expected)" "iso.keeps sid (moveDirent op' on np nn s expected)"
  unfolding insertDirent_def upsertDirent_def deleteDirent_def moveDirent_def Let_def
  subgoal by (rule iso.keeps_fun) (auto split: option.split intro: iso.refl iso.keeps_app iso_statements)
  subgoal
  proof (rule iso.keeps_fun)
    fix tx
    show "isolated_tx sid tx (snd (case get_inode tx parent of
        None \<Rightarrow> (Inl (InternalError ''upsertDirent: INSERT returned no rows''), tx)
      | Some p \<Rightarrow> and_then (upsert_dirent_row (parent, name) \<lparr>d_inode = i, d_sandbox = i_sandbox p\<rparr>)
          (\<lambda>_. return_ok (map_option d_inode (get_dirent tx (parent, name)))) tx))"
      by (cases "get_inode tx parent", simp_all only: option.case snd_conv iso.refl)
         (intro iso.keeps_and_then_app iso.keeps_intros iso_statements)
  qed
  subgoal by (intro iso.keeps_intros iso_statements iso.keeps_fun)
      (auto split: option.split intro: iso.refl iso_del_dirent)
  subgoal by (intro iso.keeps_intros iso_statements iso.keeps_modify)
      (auto intro: iso.refl iso_del_dirent)
  done

lemmas iso_methods = iso_mkdirComposite iso_rmComposite iso_writeFileComposite iso_mvComposite
  iso_createInode iso_updateInode iso_deleteInode iso_nlink iso_dirents

end
