(* ===== verification/TenantIsolation.thy ===== *)
theory TenantIsolation
  imports SqlFs Isolation Frame
begin

text \<open>
  Tenant isolation of a whole session: whatever operation of the file system runs, in or outside a
  script scope, succeeding or failing, the rows of other sandboxes do not change. Inside a scope the
  writes are only recorded, so the relation also keeps that every journalled closure is isolated; the
  flush then inherits it.
\<close>

definition journal_isolated :: "session \<Rightarrow> bool" where
  "journal_isolated s \<longleftrightarrow> (\<forall>m \<in> set (p_journal s). \<forall>rp. iso.keeps (s_sandbox s) (m_run m rp))"

definition s_isolated :: "session \<Rightarrow> session \<Rightarrow> bool" where
  "s_isolated s s' \<longleftrightarrow> s_sandbox s' = s_sandbox s
     \<and> (s_sandbox s \<noteq> [] \<and> journal_isolated s \<longrightarrow> journal_isolated s' \<and> isolated (s_sandbox s) (s_db s) (s_db s'))"

interpretation siso: state_preorder s_isolated
proof
  show "s_isolated s t \<Longrightarrow> s_isolated t u \<Longrightarrow> s_isolated s u" for s t u
    by (auto simp: s_isolated_def intro: isolated_trans)
qed (simp add: s_isolated_def)

section \<open>Transactions\<close>

lemma siso_frame:
  "s_sandbox s' = s_sandbox s \<Longrightarrow> s_db s' = s_db s \<Longrightarrow> p_journal s' = p_journal s \<or> p_journal s' = [] \<Longrightarrow> s_isolated s s'"
  by (auto simp: s_isolated_def journal_isolated_def)

lemma siso_core: "core s' = core s \<Longrightarrow> s_isolated s s'"
  by (rule siso_frame) (auto dest: core_eq_fields)

lemma siso_db: "isolated (s_sandbox s) (s_db s) d \<Longrightarrow> s_isolated s (s\<lparr>s_db := d\<rparr>)"
  by (simp add: s_isolated_def journal_isolated_def)

lemma isolated_in_context:
  assumes ctx: "c = setSandboxContextWithLock sid \<or> c = setSandboxContext sid"
    and k: "\<And>u. iso.keeps sid (k u)" and run: "run_transaction (and_then c k) d now = (r, d')" and sid: "sid \<noteq> []"
  shows "isolated sid d d'"
proof (cases r)
  case (Inl e)
  then show ?thesis using run run_transaction_Inl [of "and_then c k" d now e d'] by simp
next
  case (Inr a)
  then obtain u tx tx' where tx: "c (begin_tx d now) = (Inr u, tx)" "k u tx = (Inr a, tx')" "d' = t_db tx'"
    using run by (auto simp: run_transaction_Inr_iff and_then_Inr_iff)
  have "t_db tx = d \<and> app_sandbox_id tx = sid"
    using ctx
  proof
    assume "c = setSandboxContextWithLock sid"
    then show ?thesis using tx(1) context_ready(1,2) by auto
  next
    assume "c = setSandboxContext sid"
    then show ?thesis using tx(1) by (auto simp: setSandboxContext_def begin_tx_def)
  qed
  then show ?thesis
    using iso.keepsD [OF k tx(2)] sid tx(3) by (simp add: isolated_tx_def)
qed

lemma siso_transaction:
  assumes "\<And>u. iso.keeps (s_sandbox s) (k u)"
    and "c = setSandboxContextWithLock (s_sandbox s) \<or> c = setSandboxContext (s_sandbox s)"
  shows "s_isolated s (snd (transaction (and_then c k) s))"
proof (cases "s_sandbox s = []")
  case True
  then show ?thesis by (simp add: s_isolated_def transaction_def split: prod.split)
next
  case False
  then show ?thesis
    using isolated_in_context [OF assms(2,1)]
    by (auto simp: transaction_def split: prod.split intro!: siso_db)
qed

lemma iso_context_reads: "iso.keeps sid (of_sum v)" "iso.keeps sid (assertDurableWriteEpoch s)"
  unfolding assertDurableWriteEpoch_def by (intro iso.keeps_intros iso_reads)+

lemma siso_withBareTx: "(\<And>sid. iso.keeps sid fn) \<Longrightarrow> siso.keeps (withBareTx fn)"
  unfolding withBareTx_def
  by (intro siso.keeps_fun siso_transaction iso.keeps_intros iso_reads iso_context_reads) simp_all

lemma siso_withWriteTx: "(\<And>sid. iso.keeps sid fn) \<Longrightarrow> siso.keeps (withWriteTx fn)"
  unfolding withWriteTx_def
  by (intro siso.keeps_fun siso_transaction iso.keeps_intros iso_reads iso_context_reads) simp_all

lemma siso_assertAlive: "siso.keeps assertAlive"
  unfolding assertAlive_def by (intro siso.keeps_fun) (simp add: siso.refl)

lemma siso_persist_read: "(\<And>sid. iso.keeps sid fn) \<Longrightarrow> siso.keeps (persist_read fn)"
  unfolding persist_read_def
  by (intro siso.keeps_and_then siso_assertAlive siso.keeps_fun siso_transaction) simp_all

lemma siso_readSnapshot: "(\<And>sid. iso.keeps sid fn) \<Longrightarrow> siso.keeps (readSnapshot fn)"
  unfolding readSnapshot_def by (intro siso.keeps_fun siso_transaction) simp_all

section \<open>Mutations\<close>

definition isolated_spec :: "mutation_spec \<Rightarrow> bool" where
  "isolated_spec op \<longleftrightarrow> (\<forall>sid rp. iso.keeps sid (o_run op rp))"

lemma siso_recordMutation: "(\<And>sid rp. iso.keeps sid (m_run m rp)) \<Longrightarrow> siso.keeps (recordMutation m)"
  unfolding recordMutation_def
  by (rule siso.keeps_fun)
     (auto simp: Let_def s_isolated_def journal_isolated_def dest: in_set_butlastD)

lemma siso_mutate: assumes "isolated_spec op" shows "siso.keeps (mutate op)"
proof (rule siso.keeps_fun)
  fix s
  have run: "iso.keeps sid (o_run op rp)" for sid rp using assms by (simp add: isolated_spec_def)
  show "s_isolated s (snd (mutate op s))"
  proof (cases "p_scope s")
    case True
    then show ?thesis
      unfolding mutate_def Let_def case_prod_unfold if_P [OF True]
      by (intro siso.keeps_and_then_app siso_assertAlive siso.keeps_fun siso.keeps_modify siso_recordMutation
          siso.keeps_and_then siso.keeps_pure) (simp_all add: run siso_frame)
  next
    case False
    then show ?thesis
      using siso.keeps_app [OF siso_withBareTx [OF run]] siso.keeps_app [OF siso_withWriteTx [OF run]]
      by (simp add: mutate_def Let_def)
  qed
qed

lemma siso_mutateOne: "isolated_spec op \<Longrightarrow> siso.keeps (mutateOne op)"
  unfolding mutateOne_def
  by (intro siso.keeps_intros siso_mutate) (simp add: isolated_spec_def)

lemma siso_publish: "siso.keeps (modify (publishMutation pub ps cs complete))"
  by (intro siso.keeps_modify siso_core) simp

lemma siso_field_updates:
  "siso.keeps (modify (\<lambda>s. s\<lparr>v_dirty := b\<rparr>))" "siso.keeps (modify (\<lambda>s. s\<lparr>v_poisoned := b\<rparr>))"
  "siso.keeps (modify (installView epoch entries))"
  by (intro siso.keeps_modify siso_frame; simp add: installView_def)+

section \<open>Specifications of the operations\<close>

lemma iso_unlink_replaced: "iso.keeps sid (unlink_replaced old)" "iso.keeps sid (unlink_inode i)"
  unfolding unlink_replaced_def unlink_inode_def by (intro iso.keeps_intros iso_methods)+

lemma isolated_putFileOp: "isolated_spec (putFileOp sid composites kind parent name mode sz sha)"
  by (auto simp: isolated_spec_def putFileOp_def intro!: iso.keeps_intros iso_methods iso_unlink_replaced simp del: return_ok_app)

lemma iso_create_dir_run: "iso.keeps sid (create_dir_run s parent name mode rp)"
  unfolding create_dir_run_def by (intro iso.keeps_intros iso_methods)

lemma isolated_mkdir: "isolated_spec (mkdir_p_spec sid parent name mode)"
    "isolated_spec (mkdir_spec sid composites parent name mode)"
  by (auto simp: isolated_spec_def mkdir_p_spec_def mkdir_spec_def intro!: iso_create_dir_run iso.keeps_intros iso_methods)

lemma isolated_rm: "isolated_spec (rm_spec sid composites parent name)"
  by (auto simp: isolated_spec_def rm_spec_def intro!: iso.keeps_intros iso_methods iso_unlink_replaced)

lemma iso_rm_tree_run: "iso.keeps sid (rm_tree_run s parent name plan rp)"
  unfolding rm_tree_run_def rm_tree_step_def by (intro iso.keeps_intros iso_methods iso_unlink_replaced)

lemma isolated_links: "isolated_spec (update_spec kind sid i u)" "isolated_spec (symlink_spec sid parent name target)"
    "isolated_spec (link_spec sid i parent name)" "isolated_spec (cp_file_spec sid e parent name)"
  unfolding isolated_spec_def update_spec_def symlink_spec_def link_spec_def cp_file_spec_def
  by (simp_all only: mutation_spec.select_convs, safe)
     (intro iso.keeps_intros iso_methods iso_unlink_replaced)+

lemma isolated_mv: "isolated_spec (mv_spec sid composites sp sn dp dn di)"
  by (auto simp: isolated_spec_def mv_spec_def simp del: and_then_pure intro!: iso.keeps_intros iso_methods split: option.split)

lemma iso_cp_tree_loop: "iso.keeps sid (cp_tree_loop s rp created ids steps)"
  by (induction steps arbitrary: created ids)
     (auto intro!: iso.keeps_intros iso_methods split: option.split simp del: return_ok_app of_sum_app)

section \<open>File-system operations\<close>

lemma siso_asserts: "siso.keeps (assertWritable path op)" "siso.keeps (assertExecFileSize path n r)"
    "siso.keeps (consumeExecInput n src)" "siso.keeps (assertGeneration g)" "siso.keeps (assertSymlink target path)"
  unfolding assertWritable_def assertExecFileSize_def consumeExecInput_def assertGeneration_def assertSymlink_def
  subgoal by (intro siso.keeps_and_then siso_assertAlive siso.keeps_fun) (auto simp: siso.refl intro!: siso_frame)
  subgoal by (rule siso.keeps_fun) (auto simp: siso.refl Let_def intro!: siso_frame split: option.split)
  subgoal by (rule siso.keeps_fun) (auto simp: siso.refl Let_def intro!: siso_frame split: option.split)
  subgoal by (rule siso.keeps_fun)
      (auto simp: siso.refl intro: siso.keeps_app [OF siso_assertAlive] split: option.split)
  subgoal by (rule siso.keeps_fun) (auto simp: siso.refl)
  done

lemma siso_assertReservation: "siso.keeps (assertReservation stamp)"
  unfolding assertReservation_def
  by (rule siso.keeps_fun) (auto simp: siso.refl intro: siso.keeps_app [OF siso_asserts(4)])

lemma siso_commit_content: "siso.keeps (commit_content sha b)"
  unfolding commit_content_def
  by (intro siso.keeps_intros siso.keeps_modify siso_db isolated_cong)
     (simp_all add: commitBlob_def Let_def touch_blob_def split: option.split)

lemmas siso_basic = siso.keeps_intros siso_assertAlive siso_asserts siso_assertReservation siso_commit_content
  siso_mutate siso_mutateOne siso_publish siso_field_updates isolated_putFileOp isolated_mkdir isolated_rm
  isolated_links isolated_mv

lemma siso_writeFile_ns: "siso.keeps (writeFile_ns path b createMode)"
  unfolding writeFile_ns_def Let_def by (intro siso_basic)

lemma siso_transaction_pure:
  assumes "\<And>tx. t_db (snd (f tx)) = t_db tx" shows "siso.keeps (transaction f)"
proof (rule siso.keeps_fun)
  fix s :: session
  have "snd (run_transaction f (s_db s) (s_now s)) = s_db s"
    using assms [of "begin_tx (s_db s) (s_now s)"]
    by (auto simp: run_transaction_def begin_tx_def split: prod.split sum.split)
  then show "s_isolated s (snd (transaction f s))"
    by (auto simp: transaction_def split: prod.splits intro: siso_frame)
qed

lemma siso_readForAppend: "siso.keeps (readForAppend (getBlob env sha))"
  unfolding readForAppend_def
  by (rule siso.keeps_fun)
     (auto intro!: siso.keeps_app [OF siso_persist_read] siso_transaction iso_reads)

lemma siso_append_base: "siso.keeps (append_base path existing b)"
  unfolding append_base_def by (intro siso_basic siso_readForAppend)

lemma siso_appendFile_ns: "siso.keeps (appendFile_ns path b)"
  unfolding appendFile_ns_def Let_def by (intro siso_basic siso_append_base)

lemma siso_mkdir_segments: "siso.keeps (mkdir_segments mode mtime current created segs)"
proof (induction segs arbitrary: current created)
  case Nil
  then show ?case by (simp only: mkdir_segments.simps siso.keeps_pure)
next
  case (Cons seg segs)
  show ?case
  proof (rule siso.keeps_fun)
    fix s
    have "siso.keeps (and_then (mutateOne (mkdir_p_spec sid i seg mode)) (\<lambda>(pub, i).
        and_then (modify (publishMutation pub [SetPath p (dir_entry i mode mtime)] [] False)) (\<lambda>_.
        mkdir_segments mode mtime p True segs)))" for sid i p
      by (intro siso_basic Cons.IH)
    then show "s_isolated s (snd (mkdir_segments mode mtime current created (seg # segs) s))"
      using siso.keeps_app [OF Cons.IH]
      by (auto simp: Let_def siso.refl split: option.split dest: siso.keeps_app)
  qed
qed

lemma siso_mkdir_ns: "siso.keeps (mkdir_ns path recursive mode)"
  unfolding mkdir_ns_def by (intro siso_basic siso_mkdir_segments)

lemma siso_rm_tree_ns: "siso.keeps (rm_tree_ns path)"
  unfolding rm_tree_ns_def Let_def
  by (intro siso.keeps_fun siso.keeps_and_then_app siso_basic)
     (simp add: isolated_spec_def iso_rm_tree_run)

lemma siso_rm_ns: "siso.keeps (rm_ns path recursive force)"
  unfolding rm_ns_def
proof (intro siso.keeps_and_then siso_asserts siso.keeps_fun)
  fix u :: unit and s
  have "siso.keeps (and_then (mutate (rm_spec sid c p n)) (\<lambda>(pub, _).
      modify (publishMutation pub [DeletePath path] ev True)))" for sid c p n ev
    by (intro siso_basic)
  from siso.keeps_app [OF this] siso.keeps_app [OF siso_rm_tree_ns]
  show "s_isolated s (snd (case view_get s path of
         None \<Rightarrow> if force then (Inr (), s) else (Inl (ENOENT path), s)
       | Some e \<Rightarrow>
           if recursive \<and> pe_kind e = DIRECTORY then rm_tree_ns path s
           else if pe_kind e = DIRECTORY \<and> childPaths s path \<noteq> [] then (Inl (ENOTEMPTY path), s)
           else
             (case view_get s (parentOf path) of
                None \<Rightarrow> (Inl (InternalError ''TypeError''), s)
              | Some parent \<Rightarrow>
                  and_then (mutate (rm_spec (s_sandbox s) (e_composites (s_env s)) (pe_inode parent) (nameOf path)))
                    (\<lambda>(pub, _).
                  modify (publishMutation pub [DeletePath path] [Evict (pe_inode e)] True)) s)))"
    by (auto simp: siso.refl split: option.split)
qed

lemma siso_cp_tree_ns: "siso.keeps (cp_tree_ns src dest)"
  unfolding cp_tree_ns_def Let_def
  by (intro siso.keeps_fun siso.keeps_and_then_app siso_basic)
     (simp add: isolated_spec_def iso_cp_tree_loop)

lemma siso_cp_ns: "(\<And>p m. siso.keeps (w p m)) \<Longrightarrow> siso.keeps (cp_ns src dest recursive w)"
  unfolding cp_ns_def by (intro siso_basic siso_cp_tree_ns; assumption)

lemma siso_chmod_ns: "siso.keeps (chmod_ns path mode)" "siso.keeps (utimes_ns path mtime)"
  unfolding chmod_ns_def utimes_ns_def
  by (intro siso.keeps_and_then siso_asserts siso.keeps_fun;
      auto simp: siso.refl split: option.split intro!: siso.keeps_and_then_app siso_basic)+

lemma siso_symlink_ns: "siso.keeps (symlink_ns target path)"
  unfolding symlink_ns_def by (intro siso_basic)

lemma siso_link_ns: "siso.keeps (link_ns existing new)"
  unfolding link_ns_def
  by (intro siso.keeps_and_then siso_asserts siso.keeps_fun)
     (auto simp: siso.refl split: option.split intro!: siso.keeps_and_then_app siso_basic)

lemma siso_mv_ns: "siso.keeps (mv_ns src dest)"
  unfolding mv_ns_def
  by (intro siso.keeps_and_then siso_asserts siso.keeps_fun)
     (auto simp: siso.refl Let_def split: option.split intro!: siso.keeps_and_then_app siso.keeps_pure siso.keeps_fun
         siso.keeps_app [OF siso_mutate [OF isolated_mv]] siso_core [OF core_publishMutation])

lemma iso_fs_resolve: "iso.keeps sid (pg_resolvePath path follow)"
  unfolding pg_resolvePath_def by (rule iso.keeps_fun) (auto simp: iso.refl split: sum.split option.split)

lemma siso_persist_resolve: "siso.keeps (persist_read (pg_resolvePath path follow))"
  by (rule siso_persist_read) (rule iso_fs_resolve)

lemma siso_resolve_then:
  "s_isolated s (snd (and_then (persist_read (pg_resolvePath path follow)) (\<lambda>i s.
     case f s i of None \<Rightarrow> (Inl e, s) | Some x \<Rightarrow> (Inr (g x), s)) s))"
  by (intro siso.keeps_and_then_app siso_persist_resolve siso.keeps_fun) (simp add: siso.refl split: option.split)

lemma siso_resolveReadEntry: "siso.keeps (resolveReadEntry path)"
  unfolding resolveReadEntry_def Let_def
  by (rule siso.keeps_fun)
     (auto simp: siso.refl siso_resolve_then split: option.split sum.split prod.split)

lemma siso_contents_read: "siso.keeps (contents_read path e)"
  unfolding contents_read_def Let_def
proof (rule siso.keeps_fun)
  fix s
  show "s_isolated s (snd (case map_of (c_cache s) (pe_inode e) of
       Some b \<Rightarrow> (Inr b, s)
     | None \<Rightarrow> (case pe_sha e of None \<Rightarrow> (Inr [], s)
        | Some sha \<Rightarrow> and_then (transaction (getBlob (s_env s) sha)) (\<lambda>data s.
            (Inr (case data of None \<Rightarrow> [] | Some x \<Rightarrow> x),
             if contentEntryIsCurrent s path e \<and> (case data of None \<Rightarrow> [] | Some x \<Rightarrow> x) \<noteq> []
             then contents_put (pe_inode e) (case data of None \<Rightarrow> [] | Some x \<Rightarrow> x) s else s)) s)))"
    by (cases "map_of (c_cache s) (pe_inode e)"; cases "pe_sha e"; simp add: siso.refl)
       (intro siso.keeps_and_then_app siso_transaction_pure siso.keeps_fun,
        auto simp: getBlob_def siso.refl intro: siso_core)
qed

lemma siso_reads: "siso.keeps (readFileBuffer path)" "siso.keeps (fs_exists path)" "siso.keeps (fs_stat_op path)"
    "siso.keeps (fs_lstat path)" "siso.keeps (fs_readdir path)" "siso.keeps (fs_readlink path)"
    "siso.keeps (fs_realpath path)"
  unfolding readFileBuffer_def readBytes_fs_def fs_exists_def fs_stat_op_def fs_lstat_def fs_readdir_def
    fs_readlink_def fs_realpath_def readBytes_def Let_def
  by (intro siso_basic siso_resolveReadEntry siso_contents_read siso.keeps_fun;
      auto simp: siso.refl siso_resolve_then split: option.split sum.split prod.split)+

lemma siso_writes: "siso.keeps (fs_writeFile path b)" "siso.keeps (fs_appendFile path b)"
    "siso.keeps (fs_rm path recursive force)" "siso.keeps (fs_chmod path mode)" "siso.keeps (fs_utimes path mtime)"
    "siso.keeps (fs_cp src dest recursive)" "siso.keeps (fs_mv src dest)" "siso.keeps (fs_symlink target path)"
    "siso.keeps (fs_link src dest)" "siso.keeps (fs_createExclusive path directory mode)"
    "siso.keeps (fs_mkdir path recursive)"
  unfolding fs_writeFile_def fs_appendFile_def fs_rm_def fs_chmod_def fs_utimes_def fs_cp_def fs_mv_def
    fs_symlink_def fs_link_def fs_createExclusive_def fs_mkdir_def
  by (intro siso_basic siso_writeFile_ns siso_appendFile_ns siso_rm_ns siso_chmod_ns siso_cp_ns siso_mv_ns
      siso_symlink_ns siso_link_ns siso_mkdir_ns)+

section \<open>Loading and scopes\<close>

lemma iso_load_snapshot: "iso.keeps sid (load_snapshot force s)"
  unfolding load_snapshot_def
  by (intro iso.keeps_and_then iso_reads iso.keeps_fun) (auto simp: iso.refl split: option.split)

lemma siso_loadCommittedView: "siso.keeps (loadCommittedView force)"
  unfolding loadCommittedView_def
  by (rule siso.keeps_fun)
     (intro siso.keeps_and_then_app siso_basic siso_readSnapshot iso_load_snapshot)

lemma siso_reload: "siso.keeps reload" "siso.keeps ensureFresh" "siso.keeps view_ready"
  unfolding reload_def ensureFresh_def view_ready_def
  by (intro siso_basic siso_loadCommittedView siso.keeps_fun;
      auto simp: siso.refl intro!: siso.keeps_and_then_app siso.keeps_app [OF siso_loadCommittedView]
        siso_loadCommittedView siso.keeps_pure)+

lemma iso_replay_ops:
  "(\<And>m rp. m \<in> set ms \<Longrightarrow> iso.keeps sid (m_run m rp)) \<Longrightarrow> iso.keeps sid (replay_ops lease e ms remap)"
  by (induction ms arbitrary: remap) (auto intro!: iso.keeps_and_then iso.keeps_pure simp del: return_ok_app)

lemma siso_flushMutations: "siso.keeps flushMutations"
proof (rule siso.keeps_fun)
  fix s
  show "s_isolated s (snd (flushMutations s))"
  proof (cases "journal_isolated s \<and> p_journal s \<noteq> []")
    case True
    then have j: "iso.keeps (s_sandbox s) (m_run m rp)" if "m \<in> set (p_journal s)" for m rp
      using that by (simp add: journal_isolated_def)
    have "s_isolated s (snd (transaction (flush_body s) s))"
      unfolding flush_body_def
      by (intro siso_transaction iso.keeps_intros iso_reads iso_replay_ops j) simp_all
    moreover have "s_isolated s (x\<lparr>p_script_epoch := a, p_remap := b\<rparr>)" if "s_isolated s x" for x a b
      using that by (rule siso.trans) (simp add: siso_frame)
    ultimately show ?thesis
      using True by (auto simp: flushMutations_def split: prod.split sum.split)
  next
    case False
    then show ?thesis
      by (auto simp: flushMutations_def s_isolated_def transaction_def split: prod.split sum.split)
  qed
qed

lemma siso_scope_state: "s_isolated s (discardMutations s)" "s_isolated s (clearTransaction s)"
    "s_isolated s (s\<lparr>p_scope := b\<rparr>)"
  by (simp_all add: discardMutations_def clearTransaction_def siso_frame)

lemma siso_scope_abort: "siso.keeps scope_abort"
  unfolding scope_abort_def
  by (rule siso.keeps_fun)
     (auto simp: siso.refl intro: siso.trans [OF siso_scope_state(3) siso.trans [OF siso_scope_state(1,2)]])

lemma siso_finish: "siso.keeps finish"
proof (rule siso.keepsI)
  fix s r s' assume f: "finish s = (r, s')"
  have flush: "s_isolated s s2" if "flushMutations (s\<lparr>p_scope := False\<rparr>) = (x, s2)" for x s2
    using siso.trans [OF siso_scope_state(3) siso.keepsD [OF siso_flushMutations that]] .
  have fin: "s_isolated s (discardMutations (clearTransaction s2))" if "s_isolated s s2" for s2
    using that siso_scope_state siso.trans by blast
  consider (idle) "\<not> p_scope s" | (lost) e where "p_scope s" "p_lost s = Some e" | (live) "p_scope s" "p_lost s = None"
    by (cases "p_lost s") auto
  then show "s_isolated s s'"
  proof cases
    case lost
    then have "and_then scope_abort (\<lambda>reload. return_ok (ScopeFailed e reload)) s = (r, s')"
      using f by (simp add: finish_def)
    then show ?thesis by (rule siso.keepsD [rotated]) (intro siso.keeps_intros siso_scope_abort)
  qed (use f flush fin in \<open>auto simp: finish_def siso.refl Let_def split: prod.splits sum.splits\<close>)
qed

lemma siso_scope_begin: "siso.keeps scope_begin"
  unfolding scope_begin_def
  by (intro siso.keeps_and_then siso_assertAlive siso.keeps_fun)
     (auto simp: siso.refl discardMutations_def intro!: siso_frame)

lemma siso_recoverCommittedView: "siso.keeps recoverCommittedView"
  unfolding recoverCommittedView_def by (intro siso_basic siso_reload)

lemma siso_abortScriptScope: "siso.keeps abortScriptScope"
  unfolding abortScriptScope_def by (intro siso_basic siso_reload siso_scope_abort)

lemma siso_publishScope: "siso.keeps (publishScope epoch remap)"
  by (rule siso.keepsI) (rule siso_core [OF core_publishScope])

lemma siso_endScriptScope: "siso.keeps endScriptScope"
proof (rule siso.keeps_fun)
  fix s
  have settle: "siso.keeps (case settlement of
             ScopeFailed e reloadRequired \<Rightarrow>
               and_then (if reloadRequired then recoverCommittedView else return_ok ()) (\<lambda>_. throw e)
           | ScopeCommitted epoch remap \<Rightarrow>
               catch (publishScope epoch remap) (\<lambda>e. and_then recoverCommittedView (\<lambda>_. throw e))
           | Unchanged \<Rightarrow> return_ok ())" for settlement
    by (cases settlement; simp only: scope_settlement.case)
       (intro siso_basic siso_recoverCommittedView siso_publishScope)+
  have abort: "s_isolated s (snd (and_then abortScriptScope (\<lambda>_. throw e) s))" for e
    by (intro siso.keeps_and_then_app siso_abortScriptScope siso.keeps_pure)
  show "s_isolated s (snd (endScriptScope s))"
    using abort siso.keeps_and_then_app [OF siso_finish settle]
    by (auto simp: endScriptScope_def siso.refl split: sum.split)
qed

lemma siso_claimGeneration: "siso.keeps fs_claimGeneration"
proof -
  have retire: "iso.keeps sid (\<lambda>tx. case get_sandbox tx sid of
         None \<Rightarrow> (Inl (ENOENT sid), tx)
       | Some s \<Rightarrow> (Inr \<lparr>prior_epoch = sb_version s, gen_epoch = sb_version s + 1\<rparr>,
            on_db (\<lambda>d. d\<lparr>sandboxes := AList.update sid (s\<lparr>sb_version := sb_version s + 1\<rparr>) (sandboxes d)\<rparr>) tx))" for sid
    by (rule iso.keepsI)
       (auto simp: isolated_tx_def intro!: isolated_cong split: option.splits)
  have tx: "s_isolated s (snd (transaction
         (and_then (retireSandboxGeneration (s_sandbox s) v) (\<lambda>g. and_then (of_sum w) (\<lambda>_. return_ok g))) s))" for s v w
    unfolding retireSandboxGeneration_def and_then_assoc
    by (intro siso_transaction iso.keeps_intros retire) simp
  have claim: "siso.keeps claimGeneration"
  proof (rule siso.keeps_fun)
    fix s
    have "s_isolated s (snd (and_then (transaction
         (and_then (retireSandboxGeneration (s_sandbox s) v) (\<lambda>g. and_then (of_sum v) (\<lambda>_. return_ok g))))
         (\<lambda>g. and_then assertAlive (\<lambda>_. return_ok (Some g))) s))" for v
      by (intro siso.keeps_and_then_from tx siso.keeps_intros siso_assertAlive)
    then show "s_isolated s (snd (claimGeneration s))"
      by (cases "lease_verdict s"; cases "alive_verdict s")
         (simp_all add: claimGeneration_def and_then_assertAlive [of _ s] siso.refl del: and_then_pure)
  qed
  show ?thesis
    unfolding fs_claimGeneration_def publishGeneration_def
    by (intro siso_basic claim siso_reload siso.keeps_fun) (simp_all add: siso.refl siso_frame)
qed

lemma siso_runInScriptScope: "siso.keeps f \<Longrightarrow> siso.keeps (runInScriptScope f)"
  unfolding runInScriptScope_def beginScriptScope_def
proof (rule siso.keeps_fun)
  fix s assume f: "siso.keeps f"
  have "siso.keeps (and_then scope_begin (\<lambda>_.
       catch (and_then f (\<lambda>r. and_then endScriptScope (\<lambda>_. return_ok r)))
         (\<lambda>primary. and_then (catch (\<lambda>s. if p_scope s then abortScriptScope s else (Inr (), s)) (\<lambda>_. return_ok ()))
            (\<lambda>_. throw primary))))"
    by (intro siso_basic siso_scope_begin f siso_endScriptScope siso.keeps_fun)
       (auto simp: siso.refl intro: siso.keeps_app [OF siso_abortScriptScope])
  from siso.keeps_app [OF this] siso.keeps_app [OF f]
  show "s_isolated s (snd (if p_scope s then f s else and_then scope_begin (\<lambda>_.
       catch (and_then f (\<lambda>r. and_then endScriptScope (\<lambda>_. return_ok r)))
         (\<lambda>primary. and_then (catch (\<lambda>s. if p_scope s then abortScriptScope s else (Inr (), s)) (\<lambda>_. return_ok ()))
            (\<lambda>_. throw primary))) s))"
    by simp
qed

end
