(* ===== verification/SessionSync.thy ===== *)
theory SessionSync
  imports Loading RemoveTreeSim TenantIsolation
begin

text \<open>
  From single statements to a session: what one mutation does to the view and the database together.
  Outside a script scope a mutation is one fenced transaction; inside a scope it is appended to the
  journal, and the view is coherent with the database the journal \<^emph>\<open>would\<close> produce. The chain of the
  caches the journal passes through is the proof device: every journal entry either carries each of
  them to the next, or its replay fails and with it the whole flush.
\<close>

section \<open>Snapshots\<close>

definition snapshot :: "string \<Rightarrow> path_rows \<Rightarrow> db \<Rightarrow> bool" where
  "snapshot sid c d \<longleftrightarrow> (\<exists>r. root_of d sid = Some r \<and> cohere id c (db_lookup d r))"

definition current :: "session \<Rightarrow> bool" where
  "current s \<longleftrightarrow> version_of (s_db s) (s_sandbox s) = Some (v_epoch s)"

lemma snapshot_in_sync:
  assumes "snapshot sid c d" and "wf_db d" and "ready sid e tx" and "t_db tx = d"
  obtains r where "in_sync sid e r id c tx" and "root_of d sid = Some r"
  using assms by (auto simp: snapshot_def in_sync_def)

lemma in_sync_snapshot: "in_sync sid e r id c tx \<Longrightarrow> snapshot sid c (t_db tx)"
  by (auto simp: snapshot_def in_sync_def)

lemma in_sync_ino_pos:
  assumes "in_sync sid e r id c tx" and "i \<in> inos c" shows "0 < i"
  using in_sync_fresh [OF assms] assms(1) by (auto simp: in_sync_def wf_off_def wf_ids_def)

section \<open>Effects of a mutation\<close>

text \<open>
  A mutation is faithful on a cache when, on every database the cache is in sync with, its statements
  carry both along and advance the epoch, or throw.
\<close>

definition advancing :: "string \<Rightarrow> (replay_context \<Rightarrow> int list pg) \<Rightarrow> path_rows \<Rightarrow> bool" where
  "advancing sid run c \<longleftrightarrow> (\<forall>e r \<rho> tx rp ids tx' v. in_sync sid e r \<rho> c tx \<and> run rp tx = (Inr ids, tx')
     \<and> version_of (t_db tx) sid = Some v \<longrightarrow> (\<exists>v'. version_of (t_db tx') sid = Some v' \<and> v < v'))"

definition doomed :: "string \<Rightarrow> (replay_context \<Rightarrow> int list pg) \<Rightarrow> path_rows \<Rightarrow> bool" where
  "doomed sid run c \<longleftrightarrow> (\<forall>e r \<rho> tx rp. in_sync sid e r \<rho> c tx \<and> r_expected rp = e \<and> resolves rp \<rho> c
     \<longrightarrow> (\<exists>err tx'. run rp tx = (Inl err, tx')))"

definition faithful ::
  "string \<Rightarrow> (replay_context \<Rightarrow> int list pg) \<Rightarrow> nat \<Rightarrow> path_rows \<Rightarrow> (int list \<Rightarrow> path_rows) \<Rightarrow> bool" where
  "faithful sid run n c f \<longleftrightarrow> simulates sid run n c f \<and> advancing sid run c \<or> doomed sid run c"

lemma doomedD: "doomed sid run c \<Longrightarrow> in_sync sid e r \<rho> c tx \<Longrightarrow> r_expected rp = e \<Longrightarrow> resolves rp \<rho> c
   \<Longrightarrow> \<exists>err tx'. run rp tx = (Inl err, tx')"
  by (auto simp: doomed_def)

lemma advancingD: "advancing sid run c \<Longrightarrow> in_sync sid e r \<rho> c tx \<Longrightarrow> run rp tx = (Inr ids, tx') \<Longrightarrow>
   version_of (t_db tx) sid = Some v \<Longrightarrow> \<exists>v'. version_of (t_db tx') sid = Some v' \<and> v < v'"
  by (auto simp: advancing_def)

lemma simulatesD:
  assumes "simulates sid run n c f" and "in_sync sid e r \<rho> c tx" and "r_expected rp = e" and "resolves rp \<rho> c"
  obtains rids tx' where "run rp tx = (Inr rids, tx')" and "length rids = n" and "distinct rids"
    and "\<And>i. i \<in> set rids \<Longrightarrow> node (t_db tx) i = None \<and> 0 < i"
    and "\<And>cids \<rho>'. map \<rho>' cids = rids \<Longrightarrow> set cids \<inter> inos c = {} \<Longrightarrow> (\<And>i. i \<in> inos c \<Longrightarrow> \<rho>' i = \<rho> i) \<Longrightarrow>
      in_sync sid e r \<rho>' (f cids) tx' \<and> inos (f cids) \<subseteq> inos c \<union> set cids"
  using assms unfolding simulates_def by metis

text \<open>A successful run of a faithful mutation.\<close>

lemma faithfulD:
  assumes "faithful sid run n c f" and s: "in_sync sid e r \<rho> c tx" and "r_expected rp = e" and "resolves rp \<rho> c"
    and run: "run rp tx = (Inr rids, tx')"
  shows "length rids = n" and "distinct rids" and "\<And>i. i \<in> set rids \<Longrightarrow> node (t_db tx) i = None \<and> 0 < i"
    and "\<And>cids \<rho>'. map \<rho>' cids = rids \<Longrightarrow> set cids \<inter> inos c = {} \<Longrightarrow> (\<And>i. i \<in> inos c \<Longrightarrow> \<rho>' i = \<rho> i) \<Longrightarrow>
      in_sync sid e r \<rho>' (f cids) tx' \<and> inos (f cids) \<subseteq> inos c \<union> set cids"
    and "\<And>v. version_of (t_db tx) sid = Some v \<Longrightarrow> \<exists>v'. version_of (t_db tx') sid = Some v' \<and> v < v'"
proof -
  have sim: "simulates sid run n c f" "advancing sid run c"
    using assms(1) doomedD [OF _ s assms(3,4)] run by (force simp: faithful_def)+
  obtain rids' tx'' where "run rp tx = (Inr rids', tx'')" "length rids' = n" "distinct rids'"
    "\<And>i. i \<in> set rids' \<Longrightarrow> node (t_db tx) i = None \<and> 0 < i"
    "\<And>cids \<rho>'. map \<rho>' cids = rids' \<Longrightarrow> set cids \<inter> inos c = {} \<Longrightarrow> (\<And>i. i \<in> inos c \<Longrightarrow> \<rho>' i = \<rho> i) \<Longrightarrow>
      in_sync sid e r \<rho>' (f cids) tx'' \<and> inos (f cids) \<subseteq> inos c \<union> set cids"
    by (rule simulatesD [OF sim(1) s assms(3,4)]) blast
  note this [unfolded run prod.inject sum.inject]
  note facts = this(2-) [folded conjunct1 [OF this(1)] conjunct2 [OF this(1)]]
  show "length rids = n" "distinct rids" "\<And>i. i \<in> set rids \<Longrightarrow> node (t_db tx) i = None \<and> 0 < i" by (use facts in blast)+
  show "in_sync sid e r \<rho>' (f cids) tx' \<and> inos (f cids) \<subseteq> inos c \<union> set cids"
    if "map \<rho>' cids = rids" "set cids \<inter> inos c = {}" "\<And>i. i \<in> inos c \<Longrightarrow> \<rho>' i = \<rho> i" for cids \<rho>'
    using facts(4) that by blast
  show "\<exists>v'. version_of (t_db tx') sid = Some v' \<and> v < v'" if "version_of (t_db tx) sid = Some v" for v
    by (rule advancingD [OF sim(2) s run that])
qed

section \<open>Outside a scope\<close>

lemma write_tx_Inl: "(if cmp then withBareTx fn s else withWriteTx fn s) = (Inl e, s') \<Longrightarrow> s' = s"
  by (auto simp: withBareTx_def withWriteTx_def transaction_def dest!: run_transaction_Inl split: prod.splits if_splits)

lemma write_tx_Inr:
  assumes "(if cmp then withBareTx fn s else withWriteTx fn s) = (Inr (pub, a), s')"
  obtains tx tx' v where "t_db tx = s_db s" and "ready (s_sandbox s) (v_epoch s) tx" and "current s"
    and "fn tx = (Inr a, tx')" and "s' = s\<lparr>s_db := t_db tx'\<rparr>" and "pub = Committed v"
    and "version_of (t_db tx') (s_sandbox s) = Some v"
proof -
  have "\<exists>tx tx' v. setSandboxContextWithLock (s_sandbox s) (begin_tx (s_db s) (s_now s)) = (Inr (), tx)
      \<and> version_of (t_db tx) (s_sandbox s) = Some (v_epoch s) \<and> fn tx = (Inr a, tx') \<and> s' = s\<lparr>s_db := t_db tx'\<rparr>
      \<and> pub = Committed v \<and> version_of (t_db tx') (s_sandbox s) = Some v"
    using assms
    by (auto simp: withBareTx_def withWriteTx_def transaction_def run_transaction_Inr_iff assertDurableWriteEpoch_def
        and_then_Inr_iff getSandboxEpoch_Inr_iff split: prod.splits if_splits)
  then obtain tx tx' v where *: "setSandboxContextWithLock (s_sandbox s) (begin_tx (s_db s) (s_now s)) = (Inr (), tx)"
    "version_of (t_db tx) (s_sandbox s) = Some (v_epoch s)" "fn tx = (Inr a, tx')" "s' = s\<lparr>s_db := t_db tx'\<rparr>"
    "pub = Committed v" "version_of (t_db tx') (s_sandbox s) = Some v" by blast
  have db: "t_db tx = s_db s" by (rule context_ready(1) [OF *(1)])
  then have "current s" using *(2) by (simp add: current_def)
  then show thesis using that *(3-6) db context_ready(4) [OF *(1)] by (simp add: current_def)
qed

lemma mutate_committed:
  assumes out: "\<not> p_scope s" "p_remap s = []" "p_script_epoch s = None" and wf: "wf_db (s_db s)"
    and view: "current s \<Longrightarrow> snapshot (s_sandbox s) (v_cache s) (s_db s)"
    and op: "faithful (s_sandbox s) (o_run op) (o_mints op) (v_cache s) f"
    and run: "mutate op s = (Inr (pub, ids), s')"
  obtains v d' where "pub = Committed v" and "s' = s\<lparr>s_db := d'\<rparr>" and "current s" and "v_epoch s < v"
    and "version_of d' (s_sandbox s) = Some v" and "wf_db d'" and "snapshot (s_sandbox s) (f ids) d'"
    and "length ids = o_mints op"
proof -
  let ?rp = "replay_of (expectedEpoch s) (p_remap s)"
  have e: "expectedEpoch s = v_epoch s" using out by (simp add: expectedEpoch_def)
  have "(if o_composite op then withBareTx (o_run op ?rp) s else withWriteTx (o_run op ?rp) s) = (Inr (pub, ids), s')"
    using run out(1) unfolding mutate_def Let_def by simp
  then obtain tx tx' v where tx: "t_db tx = s_db s" "ready (s_sandbox s) (v_epoch s) tx" "current s"
    and fn: "o_run op ?rp tx = (Inr ids, tx')" and s': "s' = s\<lparr>s_db := t_db tx'\<rparr>" "pub = Committed v"
      "version_of (t_db tx') (s_sandbox s) = Some v"
    by (rule write_tx_Inr) blast
  obtain r where sync: "in_sync (s_sandbox s) (v_epoch s) r id (v_cache s) tx"
    using snapshot_in_sync [OF view [OF tx(3)] wf tx(2,1)] by blast
  have res: "resolves ?rp id (v_cache s)"
    using in_sync_ino_pos [OF sync] out(2) by (fastforce simp: resolves_def replay_of_def realId_def)
  have exp: "r_expected ?rp = v_epoch s" by (simp add: replay_of_def e)
  note ok = faithfulD [OF op sync exp res fn]
  have "set ids \<inter> inos (v_cache s) = {}" using ok(3) in_sync_fresh [OF sync] by fastforce
  then have post: "in_sync (s_sandbox s) (v_epoch s) r id (f ids) tx'" using ok(4) [of id ids] by simp
  have "v_epoch s < v" using ok(5) [of "v_epoch s"] tx(1,3) s'(3) by (auto simp: current_def)
  moreover have "wf_db (t_db tx')" using post by (simp add: in_sync_def)
  ultimately show thesis using that [OF s'(2,1) tx(3) _ s'(3)] in_sync_snapshot [OF post] ok(1) by blast
qed

lemma mutate_refused: "\<not> p_scope s \<Longrightarrow> mutate op s = (Inl e, s') \<Longrightarrow> s' = s"
  using write_tx_Inl [of "o_composite op"] unfolding mutate_def Let_def by simp

section \<open>Inside a scope\<close>

text \<open>The real id of an id in the view, once the replay has bound the provisional ones.\<close>

definition real_id :: "(int, int) table \<Rightarrow> int \<Rightarrow> int" where
  "real_id remap i = (if 0 \<le> i then i else the (map_of remap i))"

abbreviation bind_ids :: "int list \<Rightarrow> int list \<Rightarrow> (int, int) table \<Rightarrow> (int, int) table" where
  "bind_ids minted produced remap \<equiv> fold (\<lambda>(minted, real). AList.update minted real) (zip minted produced) remap"

lemma map_of_bind_ids:
  "i \<notin> set minted \<Longrightarrow> map_of (bind_ids minted produced remap) i = map_of remap i"
  by (induction minted arbitrary: produced remap) (auto split: list.splits simp: zip_Cons1)

lemma real_id_bind:
  assumes "length minted = length produced" and "distinct minted" and "\<And>i. i \<in> set minted \<Longrightarrow> i < 0"
  shows "map (real_id (bind_ids minted produced remap)) minted = produced"
  using assms
proof (induction minted produced arbitrary: remap rule: list_induct2)
  case (Cons m ms p ps)
  have "map_of (bind_ids ms ps (AList.update m p remap)) m = Some p"
    using map_of_bind_ids [of m ms ps "AList.update m p remap"] Cons.prems(1) by simp
  then have "real_id (bind_ids ms ps (AList.update m p remap)) m = p" using Cons.prems(2) [of m] by (simp add: real_id_def)
  then show ?case using Cons.IH [of "AList.update m p remap"] Cons.prems by simp
qed simp

lemma bind_ids_bound: "length minted = length produced \<Longrightarrow> i \<in> set minted \<Longrightarrow> map_of (bind_ids minted produced remap) i \<noteq> None"
proof (induction minted produced arbitrary: remap rule: list_induct2)
  case (Cons m ms p ps)
  then show ?case
    using map_of_bind_ids [of m ms ps "AList.update m p remap"] by (cases "i \<in> set ms") auto
qed simp

definition orphan :: "string \<Rightarrow> path_rows \<Rightarrow> bool" where
  "orphan sid c \<longleftrightarrow> (\<forall>e r \<rho> tx. \<not> in_sync sid e r \<rho> c tx)"

lemma orphan_faithful: "orphan sid c \<Longrightarrow> faithful sid run n c f"
  by (simp add: orphan_def faithful_def doomed_def)

text \<open>
  A write to one slot (a directory's inode and a name), whatever else the cache holds: the writes
  that may replace the journal's last entry.
\<close>

definition slot_at :: "path_rows \<Rightarrow> int \<times> string \<Rightarrow> string list \<Rightarrow> bool" where
  "slot_at c k ps \<longleftrightarrow> valid_names (ps @ [snd k])
     \<and> (\<exists>pe. map_of c (path_of ps) = Some pe \<and> pe_kind pe = DIRECTORY \<and> pe_inode pe = fst k)
     \<and> (map_of c (path_of (ps @ [snd k])) = None \<or> (\<exists>x. map_of c (path_of (ps @ [snd k])) = Some x \<and> pe_kind x \<noteq> DIRECTORY))"

definition writes_slot ::
  "string \<Rightarrow> (replay_context \<Rightarrow> int list pg) \<Rightarrow> path_rows \<Rightarrow> (int list \<Rightarrow> path_rows) \<Rightarrow> int \<times> string \<Rightarrow> bool" where
  "writes_slot sid run c f k \<longleftrightarrow> (\<exists>ps y. slot_at c k ps \<and> f = (\<lambda>ids. AList.update (path_of (ps @ [snd k])) (y ids) c)
     \<and> (\<forall>ids. pe_kind (y ids) \<noteq> DIRECTORY)
     \<and> (\<forall>c'. slot_at c' k ps \<longrightarrow> faithful sid run 1 c' (\<lambda>ids. AList.update (path_of (ps @ [snd k])) (y ids) c')))"

definition step_ok :: "string \<Rightarrow> buffered_mutation \<Rightarrow> path_rows \<Rightarrow> path_rows \<Rightarrow> bool" where
  "step_ok sid m c c' \<longleftrightarrow> distinct (m_minted m) \<and> (\<forall>i \<in> set (m_minted m). i < 0) \<and> set (m_minted m) \<inter> inos c = {}
     \<and> (orphan sid c \<or> (\<exists>f. faithful sid (m_run m) (length (m_minted m)) c f \<and> c' = f (m_minted m)
          \<and> (\<forall>k. m_supersedes m = Some k \<longrightarrow> writes_slot sid (m_run m) c f k)))"

inductive chain :: "string \<Rightarrow> int \<Rightarrow> path_rows \<Rightarrow> buffered_mutation list \<Rightarrow> path_rows \<Rightarrow> bool" for sid b c0 where
  start: "(\<And>i. i \<in> inos c0 \<Longrightarrow> b < i) \<Longrightarrow> chain sid b c0 [] c0"
| snoc: "chain sid b c0 js c \<Longrightarrow> step_ok sid m c c' \<Longrightarrow> (\<And>i. i \<in> inos c' \<Longrightarrow> b < i) \<Longrightarrow> chain sid b c0 (js @ [m]) c'"

inductive_cases chain_NilE: "chain sid b c0 [] c"
inductive_cases chain_snocE: "chain sid b c0 (js @ [m]) c"

lemma chain_lower: "chain sid b c0 js c \<Longrightarrow> b' \<le> b \<Longrightarrow> chain sid b' c0 js c"
  by (induction rule: chain.induct) (force intro: chain.intros)+

lemma chain_bound: "chain sid b c0 js c \<Longrightarrow> i \<in> inos c \<Longrightarrow> b < i"
  by (induction rule: chain.induct) auto

lemma replay_ops_append:
  "replay_ops lease e (js @ [m]) remap = and_then (replay_ops lease e js remap) (\<lambda>remap.
     and_then (of_sum lease) (\<lambda>_. and_then (m_run m (replay_of e remap)) (\<lambda>produced. return_ok (bind_ids (m_minted m) produced remap))))"
proof (induction js arbitrary: remap)
  case (Cons j js)
  show ?case unfolding append_Cons replay_ops.simps Cons and_then_assoc by (rule refl)
qed (simp del: and_then_pure(1))

text \<open>Replaying the journal carries the scope's first cache to its last.\<close>

lemma chain_replay:
  assumes "chain sid b c0 js c" and "in_sync sid e r id c0 tx" and "replay_ops (Inr ()) e js [] tx = (Inr remap, tx')"
    and "version_of (t_db tx) sid = Some v"
  shows "in_sync sid e r (real_id remap) c tx' \<and> resolves (replay_of e remap) (real_id remap) c
    \<and> (\<exists>v'. version_of (t_db tx') sid = Some v' \<and> v \<le> v' \<and> (js \<noteq> [] \<longrightarrow> v < v'))"
  using assms(1,3)
proof (induction arbitrary: remap tx' rule: chain.induct)
  case start
  have pos: "0 < i" if "i \<in> inos c0" for i using in_sync_ino_pos [OF assms(2) that] .
  have "in_sync sid e r (real_id []) c0 tx"
    by (rule in_sync_rename [OF assms(2)]) (use pos in \<open>fastforce simp: real_id_def\<close>)
  moreover have "resolves (replay_of e []) (real_id []) c0"
    using pos by (fastforce simp: resolves_def replay_of_def realId_def real_id_def)
  ultimately show ?case using start assms(4) by simp
next
  case (snoc js c m c')
  obtain remap1 tx1 produced where r1: "replay_ops (Inr ()) e js [] tx = (Inr remap1, tx1)"
    and run: "m_run m (replay_of e remap1) tx1 = (Inr produced, tx')" and remap: "remap = bind_ids (m_minted m) produced remap1"
    using snoc.prems by (auto simp: replay_ops_append and_then_Inr_iff)
  note IH = snoc.IH [OF r1]
  have sync: "in_sync sid e r (real_id remap1) c tx1" and res: "resolves (replay_of e remap1) (real_id remap1) c" using IH by blast+
  obtain v1 where v1: "version_of (t_db tx1) sid = Some v1" "v \<le> v1" using IH by blast
  obtain f where f: "faithful sid (m_run m) (length (m_minted m)) c f" "c' = f (m_minted m)"
    using snoc.hyps(2) sync by (auto simp: step_ok_def orphan_def)
  have m: "distinct (m_minted m)" "\<And>i. i \<in> set (m_minted m) \<Longrightarrow> i < 0" "set (m_minted m) \<inter> inos c = {}"
    using snoc.hyps(2) by (auto simp: step_ok_def)
  note ok = faithfulD [OF f(1) sync _ res run]
  have len: "length produced = length (m_minted m)" using ok(1) by (simp add: replay_of_def)
  have bound: "map (real_id remap) (m_minted m) = produced" unfolding remap using real_id_bind [OF len [symmetric] m(1,2)] by blast
  have keep: "real_id remap i = real_id remap1 i" if "i \<in> inos c" for i
  proof -
    have "i \<notin> set (m_minted m)" using m(3) that by blast
    then show ?thesis by (simp add: remap real_id_def map_of_bind_ids)
  qed
  have post: "in_sync sid e r (real_id remap) c' tx'" and sub: "inos c' \<subseteq> inos c \<union> set (m_minted m)"
    unfolding f(2) using ok(4) [OF _ bound m(3) keep] by (simp_all add: replay_of_def)
  have "realId remap i = Inr (real_id remap i)" if i: "i \<in> inos c'" for i
  proof (cases "i \<in> set (m_minted m)")
    case True
    have "map_of remap i \<noteq> None" unfolding remap by (rule bind_ids_bound) (use len True in auto)
    then show ?thesis using m(2) [OF True] by (auto simp: realId_def real_id_def)
  next
    case False
    then have "i \<in> inos c" using sub i by blast
    then have "realId remap1 i = Inr (real_id remap1 i)" using res by (simp add: resolves_def replay_of_def)
    then show ?thesis using map_of_bind_ids [OF False] by (simp add: remap realId_def real_id_def split: if_splits)
  qed
  then have "resolves (replay_of e remap) (real_id remap) c'" by (simp add: resolves_def replay_of_def)
  then show ?case using post ok(5) [OF _ v1(1)] v1(2) by (force simp: replay_of_def)
qed

section \<open>Recording\<close>

lemma mint_ids_fresh:
  "mint_ids n b = (ids, b') \<Longrightarrow> length ids = n \<and> distinct ids \<and> b' \<le> b \<and> (\<forall>i \<in> set ids. b' < i \<and> i \<le> b)"
  by (induction n arbitrary: b ids) (fastforce split: prod.splits)+

lemma in_sync_dir_unique:
  assumes s: "in_sync sid e r \<rho> c tx" and a: "valid_names a" "map_of c (path_of a) = Some x" "pe_kind x = DIRECTORY"
    and b: "valid_names b" "map_of c (path_of b) = Some y" "pe_kind y = DIRECTORY" and i: "pe_inode x = pe_inode y"
  shows "a = b"
proof -
  have wf: "wf_db (t_db tx)" "root_of (t_db tx) sid = Some r" using s by (simp_all add: in_sync_def)
  obtain row where "node (t_db tx) (\<rho> (pe_inode x)) = Some row" "i_kind row = DIRECTORY"
    using in_sync_entry [OF s a(1,2)] a(3) by metis
  then show ?thesis
    using wf_dir_unique_path [OF wf] in_sync_dir(2) [OF s a] in_sync_dir(2) [OF s b] i by simp
qed

text \<open>
  A write that supersedes the previous one to the same slot may take its place in the journal: its
  effect on the cache before the superseded write is the effect of both.
\<close>

lemma supersede_step:
  assumes l: "step_ok sid l c1 c2" "m_supersedes l = Some k"
    and m: "m_supersedes m = Some k" "writes_slot sid (m_run m) c2 f k" "length (m_minted m) = 1"
      "distinct (m_minted m)" "\<forall>i \<in> set (m_minted m). i < 0" "set (m_minted m) \<inter> inos c1 = {}"
  shows "step_ok sid m c1 (f (m_minted m))"
proof (cases "orphan sid c1")
  case True
  then show ?thesis using m by (simp add: step_ok_def)
next
  case False
  then obtain e r \<rho> tx where sync: "in_sync sid e r \<rho> c1 tx" by (auto simp: orphan_def)
  obtain g where g: "c2 = g (m_minted l)" "writes_slot sid (m_run l) c1 g k" using l False by (auto simp: step_ok_def)
  obtain ps y where ps: "slot_at c1 k ps" "g = (\<lambda>ids. AList.update (path_of (ps @ [snd k])) (y ids) c1)" "\<forall>ids. pe_kind (y ids) \<noteq> DIRECTORY"
    using g(2) unfolding writes_slot_def by blast
  obtain qs z where qs: "slot_at c2 k qs" "f = (\<lambda>ids. AList.update (path_of (qs @ [snd k])) (z ids) c2)" "\<forall>ids. pe_kind (z ids) \<noteq> DIRECTORY"
    and uniform: "\<forall>c'. slot_at c' k qs \<longrightarrow> faithful sid (m_run m) 1 c' (\<lambda>ids. AList.update (path_of (qs @ [snd k])) (z ids) c')"
    using m(2) unfolding writes_slot_def by blast
  have c2: "c2 = AList.update (path_of (ps @ [snd k])) (y (m_minted l)) c1" using g(1) ps(2) by simp
  have same: "qs = ps"
  proof -
    obtain pe where pe: "map_of c2 (path_of qs) = Some pe" "pe_kind pe = DIRECTORY" "pe_inode pe = fst k" "valid_names qs"
      using qs(1) by (auto simp: slot_at_def)
    then have "map_of c1 (path_of qs) = Some pe" using ps(3) c2 by (auto split: if_splits)
    moreover obtain pe' where "map_of c1 (path_of ps) = Some pe'" "pe_kind pe' = DIRECTORY" "pe_inode pe' = fst k" "valid_names ps"
      using ps(1) by (auto simp: slot_at_def)
    ultimately show ?thesis using in_sync_dir_unique [OF sync] pe by metis
  qed
  let ?f = "\<lambda>ids. AList.update (path_of (ps @ [snd k])) (z ids) c1"
  have "f (m_minted m) = ?f (m_minted m)" using qs(2) c2 same by simp
  moreover have "faithful sid (m_run m) (length (m_minted m)) c1 ?f" using uniform ps(1) same m(3) by simp
  moreover have "writes_slot sid (m_run m) c1 ?f k"
    unfolding writes_slot_def using ps(1) qs(3) uniform same by blast
  ultimately show ?thesis using m by (auto simp: step_ok_def)
qed

lemma chain_record:
  assumes ch: "chain sid b c0 js c" and m: "step_ok sid m c (f (m_minted m))"
    and slot: "\<And>k. m_supersedes m = Some k \<Longrightarrow> length (m_minted m) = 1 \<and> writes_slot sid (m_run m) c f k"
    and ids: "\<forall>i \<in> set (m_minted m). b' < i \<and> i \<le> b" and b': "b' \<le> b" and grow: "inos (f (m_minted m)) \<subseteq> inos c \<union> set (m_minted m)"
  shows "chain sid b' c0 (if superseding js m then butlast js @ [m] else js @ [m]) (f (m_minted m))"
proof -
  have new: "b' < i" if "i \<in> inos (f (m_minted m))" for i using that grow ids b' chain_bound [OF ch] by fastforce
  show ?thesis
  proof (cases "superseding js m")
    case False
    then show ?thesis using chain.snoc [OF chain_lower [OF ch b'] m] new by simp
  next
    case True
    then obtain k where k: "m_supersedes m = Some k" "m_supersedes (last js) = Some k" "js \<noteq> []" by (auto simp: superseding_def)
    have "chain sid b c0 (butlast js @ [last js]) c" using ch k(3) by simp
    then obtain c1 where c1: "chain sid b c0 (butlast js) c1" "step_ok sid (last js) c1 c"
      by (rule chain_snocE) (auto simp: snoc_eq_iff_butlast k(3))
    have "set (m_minted m) \<inter> inos c1 = {}" using ids chain_bound [OF c1(1)] by fastforce
    then have "step_ok sid m c1 (f (m_minted m))"
      using supersede_step [OF c1(2) k(2,1)] slot [OF k(1)] m by (auto simp: step_ok_def)
    then show ?thesis using chain.snoc [OF chain_lower [OF c1(1) b']] new True by simp
  qed
qed

definition recorded_as :: "mutation_spec \<Rightarrow> int list \<Rightarrow> buffered_mutation" where
  "recorded_as op minted =
     \<lparr>m_kind = o_kind op, m_minted = minted,
      m_bytes = (case o_bytes op of None \<Rightarrow> PER_MUTATION_BASE_BYTES | Some b \<Rightarrow> b), m_supersedes = o_supersedes op, m_run = o_run op\<rparr>"

lemma recorded_as_simps [simp]:
  "m_minted (recorded_as op ids) = ids" "m_supersedes (recorded_as op ids) = o_supersedes op" "m_run (recorded_as op ids) = o_run op"
  by (simp_all add: recorded_as_def)

lemma mutate_scope:
  "p_scope s \<Longrightarrow> mint_ids (o_mints op) (p_next_id s) = (minted, b) \<Longrightarrow>
     mutate op s = (case alive_verdict s of
        Inl e \<Rightarrow> (Inl e, s)
      | Inr _ \<Rightarrow> and_then (recordMutation (recorded_as op minted)) (\<lambda>_. return_ok (Recorded, minted)) (s\<lparr>p_next_id := b\<rparr>))"
  by (simp add: mutate_def and_then_assertAlive recorded_as_def split: sum.split)

lemma recordMutation_Inr:
  "recordMutation m s = (Inr u, s') \<Longrightarrow>
     \<exists>n. s' = s\<lparr>p_journal := (if superseding (p_journal s) m then butlast (p_journal s) @ [m] else p_journal s @ [m]), p_journal_bytes := n\<rparr>"
  by (auto simp: recordMutation_def Let_def split: if_splits)

lemma recordMutation_Inl: "recordMutation m s = (Inl e, s') \<Longrightarrow> \<exists>l. s' = s\<lparr>p_lost := l\<rparr>"
  by (auto simp: recordMutation_def Let_def split: if_splits)

lemma mutate_recorded:
  assumes scope: "p_scope s" and ch: "chain (s_sandbox s) (p_next_id s) c0 (p_journal s) (v_cache s)" and neg: "p_next_id s < 0"
    and op: "faithful (s_sandbox s) (o_run op) (o_mints op) (v_cache s) f"
    and slot: "\<And>k. o_supersedes op = Some k \<Longrightarrow> o_mints op = 1 \<and> writes_slot (s_sandbox s) (o_run op) (v_cache s) f k"
    and grow: "\<And>ids. length ids = o_mints op \<Longrightarrow> inos (f ids) \<subseteq> inos (v_cache s) \<union> set ids"
    and run: "mutate op s = (Inr (pub, ids), s')"
  obtains b js n where "pub = Recorded" and "s' = s\<lparr>p_next_id := b, p_journal := js, p_journal_bytes := n\<rparr>" and "b < 0"
    and "chain (s_sandbox s) b c0 js (f ids)" and "length ids = o_mints op"
proof -
  obtain minted b where mb: "mint_ids (o_mints op) (p_next_id s) = (minted, b)" by force
  note fresh = mint_ids_fresh [OF mb]
  define m where "m = recorded_as op minted"
  obtain s1 where "recordMutation m (s\<lparr>p_next_id := b\<rparr>) = (Inr (), s1)" "pub = Recorded" "ids = minted" "s' = s1"
    using run unfolding mutate_scope [OF scope mb] m_def [symmetric] by (auto simp: and_then_Inr_iff split: sum.splits)
  then have res: "pub = Recorded" "ids = minted"
    "\<exists>n. s' = s\<lparr>p_next_id := b, p_journal := (if superseding (p_journal s) m then butlast (p_journal s) @ [m] else p_journal s @ [m]), p_journal_bytes := n\<rparr>"
    using recordMutation_Inr by fastforce+
  have "set minted \<inter> inos (v_cache s) = {}" using fresh chain_bound [OF ch] by fastforce
  moreover have "\<forall>i \<in> set minted. i < 0" using fresh neg by fastforce
  ultimately have step: "step_ok (s_sandbox s) m (v_cache s) (f (m_minted m))"
    using op slot fresh unfolding step_ok_def m_def recorded_as_simps by metis
  have "chain (s_sandbox s) b c0 (if superseding (p_journal s) m then butlast (p_journal s) @ [m] else p_journal s @ [m]) (f (m_minted m))"
    by (rule chain_record [where f = f, OF ch step]) (use slot grow fresh in \<open>auto simp: m_def\<close>)
  then show thesis using that res fresh neg by (auto simp: m_def)
qed

lemma mutate_unrecorded:
  assumes "p_scope s" and "mutate op s = (Inl e, s')"
  shows "\<exists>b l. s' = s\<lparr>p_next_id := b, p_lost := l\<rparr> \<and> b \<le> p_next_id s"
proof -
  obtain minted b where mb: "mint_ids (o_mints op) (p_next_id s) = (minted, b)" by force
  consider "s' = s" | l where "s' = s\<lparr>p_next_id := b, p_lost := l\<rparr>"
    using assms(2) unfolding mutate_scope [OF assms(1) mb]
    by (cases "alive_verdict s") (use recordMutation_Inl in \<open>fastforce simp: and_then_Inl_iff\<close>)+
  then show ?thesis
  proof cases
    case 1
    then have "s' = s\<lparr>p_next_id := p_next_id s, p_lost := p_lost s\<rparr>" by simp
    then show ?thesis by blast
  next
    case 2
    then show ?thesis using mint_ids_fresh [OF mb] by blast
  qed
qed

end
