(* ===== verification/SessionInv.thy ===== *)
theory SessionInv
  imports SessionSync
begin

text \<open>
  The invariant of a warm session and the contract of its calls. While the sandbox's epoch is the one
  the session observed, the view is exactly the committed tree (outside a scope), or the tree the
  journal would produce from it (inside a scope). \<open>sync\<close> is the relation every call stays in: the
  invariant is kept, and the sandbox's tree changes only together with its epoch.
\<close>

section \<open>Invariant\<close>

definition ok_path :: "string \<Rightarrow> bool" where
  "ok_path p \<longleftrightarrow> validatePath p = Inr p \<and> p \<noteq> DEV_NULL"

definition ok_keys :: "path_rows \<Rightarrow> bool" where
  "ok_keys c \<longleftrightarrow> (\<forall>p \<in> fst ` set c. ok_path p)"

definition sound_db :: "string \<Rightarrow> db \<Rightarrow> bool" where
  "sound_db sid d \<longleftrightarrow> wf_db d \<and> (version_of d sid \<noteq> None \<longrightarrow>
     (\<exists>r. root_of d sid = Some r \<and> (\<forall>segs e. db_lookup d r segs = Some e \<longrightarrow> ok_path (path_of segs))))"

definition view_ok :: "session \<Rightarrow> bool" where
  "view_ok s \<longleftrightarrow>
     (if p_scope s then
        \<exists>c0. chain (s_sandbox s) (p_next_id s) c0 (p_journal s) (v_cache s)
          \<and> (current s \<longrightarrow> snapshot (s_sandbox s) c0 (s_db s))
      else p_journal s = [] \<and> (current s \<longrightarrow> snapshot (s_sandbox s) (v_cache s) (s_db s)))"

definition sess_inv :: "session \<Rightarrow> bool" where
  "sess_inv s \<longleftrightarrow> sound_db (s_sandbox s) (s_db s) \<and> distinct (map fst (v_cache s)) \<and> ok_keys (v_cache s)
     \<and> p_next_id s < 0 \<and> (\<forall>i \<in> inos (v_cache s). p_next_id s < i) \<and> p_remap s = [] \<and> p_script_epoch s = None
     \<and> v_epoch s \<le> epoch_ceiling (s_sandbox s) (s_db s) \<and> view_ok s"

text \<open>Between two states of the database the sandbox's tree is the same, or its epoch has moved on.\<close>

definition later :: "string \<Rightarrow> db \<Rightarrow> db \<Rightarrow> bool" where
  "later sid d d' \<longleftrightarrow> epoch_ceiling sid d < epoch_ceiling sid d'
     \<or> version_of d' sid = version_of d sid \<and> epoch_ceiling sid d' = epoch_ceiling sid d \<and> root_of d' sid = root_of d sid
       \<and> (\<forall>r. root_of d sid = Some r \<longrightarrow> db_lookup d' r = db_lookup d r)"

definition sync_step :: "session \<Rightarrow> session \<Rightarrow> bool" where
  "sync_step s s' \<longleftrightarrow> (sess_inv s \<longrightarrow> s_sandbox s' = s_sandbox s \<and> sess_inv s' \<and> later (s_sandbox s) (s_db s) (s_db s'))"

lemma later_refl [simp]: "later sid d d"
  by (simp add: later_def)

lemma later_trans: "later sid d d' \<Longrightarrow> later sid d' d'' \<Longrightarrow> later sid d d''"
  by (auto simp: later_def)

interpretation sync: state_preorder sync_step
  by unfold_locales (auto simp: sync_step_def intro: later_trans)

section \<open>Well-formed databases and snapshots\<close>

lemma ok_path_normal: "ok_path p \<Longrightarrow> normal_path p"
  by (auto simp: ok_path_def dest: validatePath_ok(1))

lemma ok_keysD: "ok_keys c \<Longrightarrow> map_of c p = Some e \<Longrightarrow> ok_path p"
  using map_of_SomeD by (force simp: ok_keys_def)

lemma ok_keys_normal: "ok_keys c \<Longrightarrow> normal_keys c"
  by (auto simp: normal_keys_def dest: ok_keysD ok_path_normal)

lemma ok_keys_update: "ok_keys c \<Longrightarrow> ok_path p \<Longrightarrow> ok_keys (AList.update p e c)"
  by (simp add: ok_keys_def dom_update)

lemma ok_keys_delete: "ok_keys c \<Longrightarrow> ok_keys (AList.delete p c)"
  unfolding ok_keys_def using dom_delete_subset [of p c] by blast

lemma ok_keys_change: "ok_keys c \<Longrightarrow> (\<And>p e. ch = SetPath p e \<Longrightarrow> ok_path p) \<Longrightarrow> ok_keys (cache_change ch c)"
proof (cases ch)
  case (PatchInode i u)
  assume "ok_keys c"
  then show ?thesis using PatchInode by (force simp: ok_keys_def)
qed (simp_all add: ok_keys_update ok_keys_delete)

lemma ok_keys_changes:
  "ok_keys c \<Longrightarrow> (\<And>p e. SetPath p e \<in> set chs \<Longrightarrow> ok_path p) \<Longrightarrow> ok_keys (fold cache_change chs c)"
proof (induction chs arbitrary: c)
  case (Cons ch chs)
  have "ok_keys (cache_change ch c)" by (rule ok_keys_change) (use Cons.prems in auto)
  then show ?case using Cons.IH [of "cache_change ch c"] Cons.prems(2) by (metis fold_simps(2) list.set_intros(2))
qed simp

lemma snapshot_ino_pos:
  assumes "snapshot sid c d" and "wf_db d" and "i \<in> inos c" shows "0 < i"
proof -
  obtain r where r: "root_of d sid = Some r" "cohere id c (db_lookup d r)" using assms(1) by (auto simp: snapshot_def)
  obtain p e where e: "map_of c p = Some e" "pe_inode e = i" using inos_E [OF assms(3) cohere_distinct [OF r(2)]] by blast
  obtain segs where segs: "valid_names segs" "p = path_of segs" using cohere_normal [OF r(2) e(1)] by (rule normal_pathE)
  obtain x where x: "db_lookup d r segs = Some x" "norm_entry id e = norm_entry id x" using cohere_Some [OF r(2) segs(1)] e(1) segs(2) by blast
  have "pe_inode x = i" using norm_entry_eqD(1) [OF x(2)] e(2) by simp
  then show ?thesis using db_lookup_row [OF x(1)] assms(2) by (auto simp: wf_off_def wf_ids_def)
qed

lemma snapshot_sound:
  assumes "snapshot sid c d" and "wf_db d" and "ok_keys c" shows "sound_db sid d"
proof -
  obtain r where r: "root_of d sid = Some r" "cohere id c (db_lookup d r)" using assms(1) by (auto simp: snapshot_def)
  have "ok_path (path_of segs)" if "db_lookup d r segs = Some e" for segs e
  proof -
    have "valid_names segs" using that wf_walk_valid [OF assms(2)] by (auto simp: db_lookup_def split: option.splits)
    then show ?thesis using cohere_Some' [OF r(2) _ that] ok_keysD [OF assms(3)] by metis
  qed
  then show ?thesis using assms(2) r(1) by (auto simp: sound_db_def)
qed

lemma ceiling_version: "version_of d sid = Some v \<Longrightarrow> epoch_ceiling sid d = v"
  by (simp add: epoch_ceiling_def)

section \<open>One mutation and its publication\<close>

definition publishes :: "path_rows \<Rightarrow> (int list \<Rightarrow> path_change list) \<Rightarrow> (publication \<times> int list \<Rightarrow> unit fs) \<Rightarrow> bool" where
  "publishes c paths k \<longleftrightarrow> (\<forall>pub ids s. v_cache s = c \<longrightarrow>
     (\<exists>cs b. k (pub, ids) s = (Inr (), publishMutation pub (paths ids) cs b s)))"

text \<open>
  What a namespace operation owes: statements faithful to the cache change it publishes, publishable
  paths, no ids but old and minted ones, and the slot it claims when it supersedes.
\<close>

definition mutation_ok :: "string \<Rightarrow> mutation_spec \<Rightarrow> path_rows \<Rightarrow> (int list \<Rightarrow> path_rows) \<Rightarrow> bool" where
  "mutation_ok sid op c f \<longleftrightarrow> faithful sid (o_run op) (o_mints op) c f
     \<and> (\<forall>k. o_supersedes op = Some k \<longrightarrow> o_mints op = 1 \<and> writes_slot sid (o_run op) c f k)
     \<and> (\<forall>ids. length ids = o_mints op \<longrightarrow> ok_keys (f ids) \<and> inos (f ids) \<subseteq> inos c \<union> set ids)"

lemma publish_step:
  assumes op: "sess_inv s \<Longrightarrow> mutation_ok (s_sandbox s) op (v_cache s) f"
    and paths: "\<And>ids. length ids = o_mints op \<Longrightarrow> fold cache_change (paths ids) (v_cache s) = f ids"
    and k: "publishes (v_cache s) paths k"
  shows "sync_step s (snd (and_then (mutate op) k s))"
proof (cases "sess_inv s")
  case True
  note inv = True [unfolded sess_inv_def]
  note ok = op [OF True, unfolded mutation_ok_def]
  let ?sid = "s_sandbox s"
  have f: "faithful ?sid (o_run op) (o_mints op) (v_cache s) f" using ok by blast
  obtain res s1 where run: "mutate op s = (res, s1)" by force
  have publish: "\<exists>cs b. k (pub, ids) s1 = (Inr (), publishMutation pub (paths ids) cs b s1)
      \<and> v_cache (publishMutation pub (paths ids) cs b s1) = f ids"
    if "v_cache s1 = v_cache s" "length ids = o_mints op" for pub ids
    using k that inv paths [OF that(2)] v_cache_publishMutation [of s1] unfolding publishes_def by metis
  show ?thesis
  proof (cases "p_scope s")
    case out: False
    have wf: "wf_db (s_db s)" using inv by (simp add: sound_db_def)
    have view: "current s \<Longrightarrow> snapshot ?sid (v_cache s) (s_db s)" using inv out by (simp add: view_ok_def)
    show ?thesis
    proof (cases res)
      case (Inl e)
      then show ?thesis using run mutate_refused [OF out, of op e s1] by (simp add: and_then_def sync.refl)
    next
      case (Inr x)
      obtain pub ids where x: "x = (pub, ids)" by force
      obtain v d' where c: "pub = Committed v" "s1 = s\<lparr>s_db := d'\<rparr>" "current s" "v_epoch s < v"
        "version_of d' ?sid = Some v" "wf_db d'" "snapshot ?sid (f ids) d'" "length ids = o_mints op"
        by (rule mutate_committed [OF out _ _ wf view f run [unfolded Inr x]]) (use inv in auto)
      obtain cs b where k': "k (pub, ids) s1 = (Inr (), publishMutation pub (paths ids) cs b s1)"
          "v_cache (publishMutation pub (paths ids) cs b s1) = f ids"
        using publish [of ids pub] c(2,8) by auto
      have keys: "ok_keys (f ids)" "distinct (map fst (f ids))" using ok c(7,8) by (auto simp: snapshot_def dest: cohere_distinct)
      have "\<forall>i \<in> inos (f ids). p_next_id s < i" using snapshot_ino_pos [OF c(7,6)] inv by fastforce
      then have "sess_inv (publishMutation pub (paths ids) cs b s1)"
        unfolding sess_inv_def view_ok_def k'(2)
        using inv out keys c snapshot_sound [OF c(7,6) keys(1)] by (simp add: ceiling_version view_ok_def)
      moreover have "later ?sid (s_db s) d'" using c(3-5) by (simp add: later_def current_def ceiling_version)
      ultimately show ?thesis using k' c(2) by (simp add: and_then_def run Inr x sync_step_def)
    qed
  next
    case scope: True
    obtain c0 where c0: "chain ?sid (p_next_id s) c0 (p_journal s) (v_cache s)" "current s \<longrightarrow> snapshot ?sid c0 (s_db s)"
      using inv scope by (auto simp: view_ok_def)
    show ?thesis
    proof (cases res)
      case (Inl e)
      then obtain b l where s1: "s1 = s\<lparr>p_next_id := b, p_lost := l\<rparr>" "b \<le> p_next_id s"
        using mutate_unrecorded [OF scope] run by blast
      have "\<forall>i \<in> inos (v_cache s). b < i" "b < 0" using inv s1(2) by fastforce+
      then have "sess_inv s1"
        using inv scope c0(2) s1 chain_lower [OF c0(1) s1(2)] unfolding sess_inv_def view_ok_def current_def by auto
      then show ?thesis using s1 by (simp add: and_then_def run Inl sync_step_def)
    next
      case (Inr x)
      obtain pub ids where x: "x = (pub, ids)" by force
      obtain b js n where r: "pub = Recorded" "s1 = s\<lparr>p_next_id := b, p_journal := js, p_journal_bytes := n\<rparr>" "b < 0"
        "chain ?sid b c0 js (f ids)" "length ids = o_mints op"
        by (rule mutate_recorded [OF scope c0(1) _ f _ _ run [unfolded Inr x]]) (use inv ok in \<open>blast+\<close>)
      obtain cs w where k': "k (pub, ids) s1 = (Inr (), publishMutation pub (paths ids) cs w s1)"
          "v_cache (publishMutation pub (paths ids) cs w s1) = f ids"
        using publish [of ids pub] r(2,5) by auto
      have keys: "ok_keys (f ids)" "distinct (map fst (f ids))"
        using ok r(5) inv distinct_cache_changes [of "v_cache s" "paths ids"] paths [OF r(5)] by auto
      have "sess_inv (publishMutation pub (paths ids) cs w s1)"
        unfolding sess_inv_def view_ok_def k'(2)
        using inv scope keys r c0(2) chain_bound [OF r(4)] by (auto simp: current_def)
      then show ?thesis using k' r(2) by (simp add: and_then_def run Inr x sync_step_def)
    qed
  qed
qed (simp add: sync_step_def)

end
