(* ===== verification/SpecSteps.thy ===== *)
theory SpecSteps
  imports SessionInv
begin

text \<open>
  The mutations of the namespace operations, one by one: a successful run advances the sandbox's epoch
  (the fence is the first statement that writes), and the runs that cannot succeed are recognised.
\<close>

section \<open>Advancing the epoch\<close>

definition advances :: "string \<Rightarrow> 'a pg \<Rightarrow> bool" where
  "advances sid m \<longleftrightarrow> (\<forall>tx a tx' v. app_sandbox_id tx = sid \<and> m tx = (Inr a, tx') \<and> version_of (t_db tx) sid = Some v
     \<longrightarrow> (\<exists>v'. version_of (t_db tx') sid = Some v' \<and> v < v'))"

lemma advancesI:
  "(\<And>tx a tx' v. app_sandbox_id tx = sid \<Longrightarrow> m tx = (Inr a, tx') \<Longrightarrow> version_of (t_db tx) sid = Some v \<Longrightarrow>
     \<exists>v'. version_of (t_db tx') sid = Some v' \<and> v < v') \<Longrightarrow> advances sid m"
  unfolding advances_def by blast

lemma advances_app:
  "advances sid m \<Longrightarrow> app_sandbox_id tx = sid \<Longrightarrow> m tx = (Inr a, tx') \<Longrightarrow> version_of (t_db tx) sid = Some v \<Longrightarrow>
     \<exists>v'. version_of (t_db tx') sid = Some v' \<and> v < v'"
  unfolding advances_def by blast

lemma advances_fenced: "fenced_write sid op \<Longrightarrow> advances sid (op e)"
  by (rule advancesI) (rule fenced_write.advances)

lemma advances_then:
  assumes "advances sid m" and "\<And>a. grow.keeps sid (k a)"
  shows "advances sid (and_then m k)"
proof (rule advancesI)
  fix tx a tx' v
  assume tx: "app_sandbox_id tx = sid" "version_of (t_db tx) sid = Some v" and "and_then m k tx = (Inr a, tx')"
  then obtain b tx1 where run: "m tx = (Inr b, tx1)" "k b tx1 = (Inr a, tx')" by (auto elim: and_then_InrE)
  obtain v1 where "version_of (t_db tx1) sid = Some v1" "v < v1" using advances_app [OF assms(1) tx(1) run(1) tx(2)] by blast
  moreover have "version_grows sid tx1 tx'" by (rule grow.keepsD [OF assms(2) run(2)])
  ultimately show "\<exists>v'. version_of (t_db tx') sid = Some v' \<and> v < v'" by (force simp: version_grows_def)
qed

lemma advances_of_sum: "(\<And>a. advances sid (k a)) \<Longrightarrow> advances sid (and_then (of_sum x) k)"
  by (cases x) (auto simp: advances_def)

lemma advancingI: "(\<And>rp. advances sid (run rp)) \<Longrightarrow> advancing sid run c"
  unfolding advancing_def by (auto simp: in_sync_def ready_def intro: advances_app)

lemma grow_dirents:
  "grow.keeps sid (insertDirent p n i)" "grow.keeps sid (upsertDirent p n i)" "grow.keeps sid (deleteInode i)"
  "grow.keeps sid (decrementNlink i)"
  by (auto intro!: grow.keepsI version_grows_eq simp: insertDirent_def upsertDirent_def deleteInode_def decrementNlink_def
      insert_dirent_row_def upsert_dirent_row_def and_then_def Let_def split: option.splits if_splits)

lemma grow_unlink: "grow.keeps sid (unlink_inode i)" "grow.keeps sid (unlink_replaced old)"
  unfolding unlink_inode_def unlink_replaced_def by (intro grow_intros grow_dirents)+

lemmas grow_rest = grow.keeps_intros grow_dirents grow_unlink grow_statements

lemma advances_write: "advances sid (writeFileComposite sid p n mode sz sha (Some e))"
  by (rule advances_fenced [OF fw_write.fenced_write_axioms])

lemma advances_create: "advances (c_sandbox opts) (createInode opts (Some e))"
  by (rule advances_fenced [OF fw_create.fenced_write_axioms])

lemma advances_new: "c_sandbox opts = sid \<Longrightarrow> (\<And>a. grow.keeps sid (k a)) \<Longrightarrow> advances sid (and_then (createInode opts (Some e)) k)"
  using advances_then [OF advances_create] by metis

lemma advancing_putFileOp: "advancing sid (o_run (putFileOp sid composites kind p n mode sz sha)) c"
  unfolding putFileOp_def
  by (rule advancingI, cases composites; simp)
     (intro advances_of_sum advances_then advances_write advances_new grow_rest, simp?)+

lemma advancing_create_dir_run: "advancing sid (create_dir_run sid p n mode) c"
  unfolding create_dir_run_def by (rule advancingI) (intro advances_new grow_rest, simp)

lemma advancing_mkdir_spec: "advancing sid (o_run (mkdir_spec sid composites p n mode)) c"
proof (cases composites)
  case True
  then show ?thesis unfolding mkdir_spec_def
    by (intro advancingI) (simp, intro advances_of_sum advances_then advances_fenced [OF fw_mkdir.fenced_write_axioms] grow_rest)
qed (simp add: mkdir_spec_def advancing_create_dir_run)

lemma advancing_symlink_spec: "advancing sid (o_run (symlink_spec sid p n target)) c"
  unfolding symlink_spec_def by (rule advancingI, simp) (intro advances_new grow_rest, simp)

lemma advancing_cp_file_spec: "advancing sid (o_run (cp_file_spec sid e p n)) c"
  unfolding cp_file_spec_def by (rule advancingI, simp) (intro advances_new grow_rest, simp add: create_opts_of_def)

lemma advances_unlink: "advances sid (deleteDirent p n sid (Some e))"
  by (rule advances_fenced [OF fw_unlink.fenced_write_axioms])

lemma advancing_rm_spec: "advancing sid (o_run (rm_spec sid composites p n)) c"
  unfolding rm_spec_def
  by (rule advancingI, cases composites; simp)
     (intro advances_of_sum advances_then advances_fenced [OF fw_rm.fenced_write_axioms] advances_unlink grow_rest)+

lemma advancing_update_spec:
  assumes "\<not> (u_mode u = None \<and> u_size u = None \<and> u_mtime u = None \<and> u_sha u = None)"
  shows "advancing sid (o_run (update_spec kind sid i u)) c"
  unfolding update_spec_def
  by (rule advancingI, simp) (intro advances_of_sum advances_then advances_fenced [OF fenced_update [OF assms]] grow_rest)

lemma advancing_link_spec: "advancing sid (o_run (link_spec sid t p n)) c"
  unfolding link_spec_def
  by (rule advancingI, simp) (intro advances_of_sum advances_then advances_fenced [OF fw_link.fenced_write_axioms] grow_rest)

lemma advancing_mv_spec: "advancing sid (o_run (mv_spec sid composites sp sn dp dn di)) c"
  unfolding mv_spec_def
  by (rule advancingI, cases composites; simp)
     (intro advances_of_sum advances_then advances_fenced [OF fw_mv.fenced_write_axioms]
       advances_fenced [OF fw_move.fenced_write_axioms] grow_rest)+

lemma grow_unlink_dirent: "grow.keeps sid (deleteDirent p n sid expected)"
  unfolding deleteDirent_def
  by (rule grow.keeps_and_then [OF grow_fence(2)]) (auto intro!: grow.keepsI version_grows_eq split: option.splits)

lemma advancing_rm_tree_run: "advancing sid (rm_tree_run sid (Some p) n plan) c"
proof (rule advancingI)
  fix rp
  have body: "grow.keeps sid (for_each plan (rm_tree_step sid rp))"
    unfolding rm_tree_step_def by (intro grow_rest grow_unlink_dirent)
  have "advances sid (and_then (and_then (of_sum (r_resolve rp p)) (\<lambda>p. and_then (deleteDirent p n sid (Some (r_expected rp))) (\<lambda>_. return_ok ())))
      (\<lambda>_. and_then (for_each plan (rm_tree_step sid rp)) (\<lambda>_. return_ok [])))"
    by (intro advances_then advances_of_sum advances_unlink grow_rest body)
  then show "advances sid (rm_tree_run sid (Some p) n plan rp)" by (simp add: rm_tree_run_def)
qed

lemma grow_create: "c_sandbox opts = sid \<Longrightarrow> grow.keeps sid (createInode opts expected)"
  unfolding createInode_def by (intro grow_intros) (auto intro: grow_fence)

lemma grow_cp_tree_loop: "grow.keeps sid (cp_tree_loop sid rp created ids steps)"
  by (induction steps arbitrary: created ids)
     (auto intro!: grow_rest grow_create simp: create_opts_of_def simp del: and_then_pure split: option.split)

lemma advancing_cp_tree:
  "plan \<noteq> [] \<Longrightarrow> advancing sid (\<lambda>rp. cp_tree_loop sid rp [] [] plan) c"
proof (rule advancingI)
  fix rp assume "plan \<noteq> []"
  then obtain step steps where plan: "plan = step # steps" by (cases plan) auto
  have new: "advances sid (and_then (createInode (create_opts_of sid (cs_entry step)) (Some (r_expected rp))) (\<lambda>i.
     and_then (insertDirent p (cs_name step) i) (\<lambda>_.
     cp_tree_loop sid rp (AList.update (cs_dest step) i []) ([] @ [i]) steps)))" for p
    by (intro advances_new grow_rest grow_cp_tree_loop) (simp add: create_opts_of_def)
  show "advances sid (cp_tree_loop sid rp [] [] plan)"
    unfolding plan cp_tree_loop.simps map_of.simps option.case
  proof (cases "cs_existing_parent step")
    case None
    then show "advances sid (and_then (case cs_existing_parent step of Some parent \<Rightarrow> of_sum (r_resolve rp parent) | None \<Rightarrow> throw (ENOENT (cs_parent_path step))) (\<lambda>p.
       and_then (createInode (create_opts_of sid (cs_entry step)) (Some (r_expected rp))) (\<lambda>i.
       and_then (insertDirent p (cs_name step) i) (\<lambda>_.
       cp_tree_loop sid rp (AList.update (cs_dest step) i []) ([] @ [i]) steps))))"
      by (simp add: advances_def)
  next
    case (Some q)
    then show "advances sid (and_then (case cs_existing_parent step of Some parent \<Rightarrow> of_sum (r_resolve rp parent) | None \<Rightarrow> throw (ENOENT (cs_parent_path step))) (\<lambda>p.
       and_then (createInode (create_opts_of sid (cs_entry step)) (Some (r_expected rp))) (\<lambda>i.
       and_then (insertDirent p (cs_name step) i) (\<lambda>_.
       cp_tree_loop sid rp (AList.update (cs_dest step) i []) ([] @ [i]) steps))))"
      unfolding Some option.case by (intro advances_of_sum new)
  qed
qed

section \<open>Runs that cannot succeed\<close>

lemma in_sync_parent:
  assumes s: "in_sync sid e r \<rho> c tx" and v: "valid_names (ps @ [n])" and x: "map_of c (path_of (ps @ [n])) = Some x"
  obtains pe where "map_of c (path_of ps) = Some pe" and "pe_kind pe = DIRECTORY"
proof -
  have wf: "wf_db (t_db tx)" and root: "root_of (t_db tx) sid = Some r" and co: "cohere \<rho> c (db_lookup (t_db tx) r)"
    using s by (simp_all add: in_sync_def)
  obtain i where i: "walk (t_db tx) r (ps @ [n]) = Some i" using in_sync_entry [OF s v x] by blast
  then obtain p where p: "walk (t_db tx) r ps = Some p" "child (t_db tx) p n = Some i" by (auto simp: walkc_snoc split: option.splits)
  obtain row where row: "node (t_db tx) p = Some row" "db_lookup (t_db tx) r ps = Some (entry_of_row p row)"
    using db_lookup_Some [OF wf root p(1)] by metis
  have dir: "i_kind row = DIRECTORY" using wf_child_entry [OF wf p(2)] row(1) by (metis option.inject)
  have vp: "valid_names ps" using v by simp
  obtain pe where "map_of c (path_of ps) = Some pe" "norm_entry \<rho> pe = norm_entry id (entry_of_row p row)"
    using cohere_Some' [OF co vp row(2)] by blast
  then show thesis using that norm_entry_eqD(2) dir by (metis entry_of_row_def path_entry.select_convs(2))
qed

lemma in_sync_root:
  assumes s: "in_sync sid e r \<rho> c tx"
  obtains pe where "map_of c ''/'' = Some pe" and "pe_kind pe = DIRECTORY"
proof -
  have wf: "wf_db (t_db tx)" and root: "root_of (t_db tx) sid = Some r" and co: "cohere \<rho> c (db_lookup (t_db tx) r)"
    using s by (simp_all add: in_sync_def)
  obtain row where row: "node (t_db tx) r = Some row" "i_kind row = DIRECTORY" using wf root unfolding wf_off_def wf_roots_def by blast
  then have "db_lookup (t_db tx) r [] = Some (entry_of_row r row)" by (simp add: db_lookup_def)
  then obtain pe where "map_of c (path_of []) = Some pe" "norm_entry \<rho> pe = norm_entry id (entry_of_row r row)"
    using cohere_Some' [OF co, of "[]"] by auto
  then show thesis using that norm_entry_eqD(2) row(2) by (metis entry_of_row_def path_entry.select_convs(2) path_of_Nil)
qed

lemma orphan_no_parent:
  "valid_names (ps @ [n]) \<Longrightarrow> map_of c (path_of (ps @ [n])) = Some x \<Longrightarrow> map_of c (path_of ps) = None \<Longrightarrow> orphan sid c"
  unfolding orphan_def using in_sync_parent by (metis option.distinct(1))

lemma orphan_root: "map_of c ''/'' = Some x \<Longrightarrow> pe_kind x \<noteq> DIRECTORY \<Longrightarrow> orphan sid c"
  unfolding orphan_def using in_sync_root by (metis option.inject)

lemma and_then_fails: "\<exists>err s'. m s = (Inl err, s') \<Longrightarrow> \<exists>err s'. and_then m k s = (Inl err, s')"
  by (auto simp: and_then_def)

lemma insertDirent_occupied:
  assumes "rls_ok tx sid" and "dir_of sid p (t_db tx)" and "child (t_db tx) p n \<noteq> None"
  shows "\<exists>err. insertDirent p n i tx = (Inl err, tx)"
proof -
  obtain pr where "node (t_db tx) p = Some pr" "i_sandbox pr = sid" using wf_dir_ofE [OF assms(2)] by blast
  then have "get_inode tx p = Some pr" using assms(1) by (simp add: get_inode_def node_def)
  moreover have "map_of (dirents (t_db tx)) (p, n) \<noteq> None" using assms(3) by (auto simp: child_def)
  ultimately show ?thesis by (simp add: insertDirent_def insert_dirent_row_def)
qed

lemma create_occupied:
  assumes rd: "ready sid e tx" and wf: "wf_db (t_db tx)" and p: "dir_of sid p (t_db tx)" and occ: "child (t_db tx) p n \<noteq> None"
    and sid: "c_sandbox opts = sid"
  shows "\<exists>err tx'. and_then (createInode opts (Some e)) (\<lambda>i. and_then (insertDirent p n i) (k i)) tx = (Inl err, tx')"
proof -
  let ?tx = "on_db (\<lambda>d. (put_inode (inode_seq d) (row_of_opts opts (t_now tx)) d)\<lparr>inode_seq := inode_seq d + 1\<rparr>) (bumped sid tx)"
  have run: "createInode opts (Some e) tx = (Inr (inode_seq (t_db tx)), ?tx)" using createInode_ready [of opts e tx] rd sid by simp
  have "p < inode_seq (t_db tx)" using p wf by (auto simp: dir_of_def wf_off_def wf_ids_def split: option.splits elim!: wf_dir_ofE)
  then have "dir_of sid p (t_db ?tx)" using p by (auto simp: dir_of_def)
  moreover have "rls_ok ?tx sid" using rd by (auto simp: ready_def rls_ok_def)
  moreover have "child (t_db ?tx) p n \<noteq> None" using occ by simp
  ultimately obtain err where "insertDirent p n (inode_seq (t_db tx)) ?tx = (Inl err, ?tx)" using insertDirent_occupied by blast
  then show ?thesis by (simp add: and_then_def run)
qed

lemma doomed_symlink:
  assumes v: "valid_names (ps @ [n])" and p: "map_of c (path_of ps) = Some pe" "pe_kind pe = DIRECTORY"
    and x: "map_of c (path_of (ps @ [n])) = Some x"
  shows "doomed sid (o_run (symlink_spec sid (pe_inode pe) n target)) c"
  unfolding doomed_def
proof (intro allI impI, elim conjE)
  fix e r \<rho> tx rp
  assume s: "in_sync sid e r \<rho> c tx" and rp: "r_expected rp = e" "resolves rp \<rho> c"
  have vp: "valid_names ps" using v by simp
  have d: "dir_of sid (\<rho> (pe_inode pe)) (t_db tx)" "walk (t_db tx) r ps = Some (\<rho> (pe_inode pe))" using in_sync_dir [OF s vp p] by blast+
  have "child (t_db tx) (\<rho> (pe_inode pe)) n \<noteq> None" using in_sync_child [OF s v d(2)] x by simp
  moreover have "r_resolve rp (pe_inode pe) = Inr (\<rho> (pe_inode pe))" using rp(2) inos_I [OF p(1)] by (simp add: resolves_def)
  moreover have "ready sid e tx" "wf_db (t_db tx)" using s by (simp_all add: in_sync_def)
  ultimately show "\<exists>err tx'. o_run (symlink_spec sid (pe_inode pe) n target) rp tx = (Inl err, tx')"
    using create_occupied [of sid e tx "\<rho> (pe_inode pe)" n "symlink_opts sid target" "\<lambda>i _. return_ok [i]"] d(1) rp(1)
    by (simp add: symlink_spec_def symlink_opts_def)
qed

lemma no_empty_name: "wf_db d \<Longrightarrow> map_of (dirents d) (p, []) = None"
  by (cases "map_of (dirents d) (p, [])") (auto simp: wf_off_def wf_entries_def valid_name_def)

lemma no_empty_dirent: "in_sync sid e r \<rho> c tx \<Longrightarrow> get_dirent (bumped sid tx) (p, []) = None"
  using no_empty_name [of "t_db tx"] by (simp add: in_sync_def get_dirent_def)

lemma deleteDirent_empty: "in_sync sid e r \<rho> c tx \<Longrightarrow> \<exists>err tx'. deleteDirent p [] sid (Some e) tx = (Inl err, tx')"
  using no_empty_dirent [of sid e r \<rho> c tx p] by (auto simp: deleteDirent_def and_then_def in_sync_def)

lemma doomed_rm_spec: "doomed sid (o_run (rm_spec sid composites p [])) c"
  unfolding doomed_def
proof (intro allI impI, elim conjE)
  fix e r \<rho> tx and rp :: replay_context
  assume s: "in_sync sid e r \<rho> c tx" and rp: "r_expected rp = e"
  let ?tx = "tx\<lparr>t_locks := List.insert sid (t_locks tx)\<rparr>"
  have s': "in_sync sid e r \<rho> c ?tx" using s by (simp add: in_sync_def ready_def)
  then have "ready sid e ?tx" by (simp add: in_sync_def)
  then have "\<exists>err tx'. rmComposite sid q [] (Some e) tx = (Inl err, tx')" for q
    using no_empty_dirent [OF s', of q] by (simp add: rmComposite_def takeWriterLock_def and_then_def)
  moreover note deleteDirent_empty [OF s]
  ultimately show "\<exists>err tx'. o_run (rm_spec sid composites p []) rp tx = (Inl err, tx')"
    using rp by (cases "r_resolve rp p"; cases composites) (auto simp: rm_spec_def intro: and_then_fails)
qed

lemma doomed_rm_tree: "doomed sid (rm_tree_run sid (Some p) [] plan) c"
  unfolding doomed_def
proof (intro allI impI, elim conjE)
  fix e r \<rho> tx and rp :: replay_context
  assume s: "in_sync sid e r \<rho> c tx" and rp: "r_expected rp = e"
  show "\<exists>err tx'. rm_tree_run sid (Some p) [] plan rp tx = (Inl err, tx')"
    using deleteDirent_empty [OF s] rp by (cases "r_resolve rp p") (auto simp: rm_tree_run_def and_then_assoc intro: and_then_fails)
qed

end
