(* ===== verification/CopyTreeSim.thy ===== *)
theory CopyTreeSim
  imports SpecSteps
begin

text \<open>
  \<open>cp -r\<close>: the plan lists the source subtree top down, and the replay creates one inode per entry, its
  parent looked up among the ids created so far and otherwise in the cache. When every destination is
  free the replay builds exactly the copied tree; when one is taken it fails.
\<close>

section \<open>The replay of a plan\<close>

text \<open>A plan by segments: destination and source entry; parents come before their children.\<close>

fun planned :: "string list set \<Rightarrow> (string list \<times> path_entry) list \<Rightarrow> bool" where
  "planned D [] \<longleftrightarrow> True"
| "planned D ((z, x) # steps) \<longleftrightarrow> z \<noteq> [] \<and> valid_names z \<and> butlast z \<in> D
     \<and> planned (if pe_kind x = DIRECTORY then insert z D else D) steps"

definition cp_step_of :: "path_rows \<Rightarrow> string list \<times> path_entry \<Rightarrow> cp_step" where
  "cp_step_of c0 zx =
     \<lparr>cs_dest = path_of (fst zx), cs_name = last (fst zx), cs_parent_path = path_of (butlast (fst zx)),
      cs_existing_parent = map_option pe_inode (map_of c0 (path_of (butlast (fst zx)))), cs_entry = snd zx\<rparr>"

definition copy_entry :: "path_entry \<Rightarrow> int \<Rightarrow> int \<Rightarrow> path_entry" where
  "copy_entry x mtime i = x\<lparr>pe_inode := i, pe_mtime := mtime\<rparr>"

definition dirs_of :: "path_rows \<Rightarrow> string list set" where
  "dirs_of c = {w. valid_names w \<and> (\<exists>pe. map_of c (path_of w) = Some pe \<and> pe_kind pe = DIRECTORY)}"

text \<open>What the loop knows of the ids created so far, of the cache as it was, and of the cache to be.\<close>

definition copying :: "replay_context \<Rightarrow> path_rows \<Rightarrow> (string, int) table \<Rightarrow> (int \<Rightarrow> int) \<Rightarrow> path_rows \<Rightarrow> bool" where
  "copying rp c0 created \<rho> c \<longleftrightarrow> (\<forall>w pe. valid_names w \<and> map_of c (path_of w) = Some pe \<longrightarrow>
     (case map_of created (path_of w) of
        Some p \<Rightarrow> \<rho> (pe_inode pe) = p
      | None \<Rightarrow> map_of c0 (path_of w) = Some pe \<and> r_resolve rp (pe_inode pe) = Inr (\<rho> (pe_inode pe))))"

lemma copying_start: "resolves rp \<rho> c0 \<Longrightarrow> copying rp c0 [] \<rho> c0"
  by (auto simp: copying_def resolves_def intro: inos_I)

lemma copying_extend:
  assumes "copying rp c0 created \<rho> c" and "\<rho>' i = p" and "\<And>j. j \<in> inos c \<Longrightarrow> \<rho>' j = \<rho> j"
  shows "copying rp c0 (AList.update (path_of z) p created) \<rho>' (AList.update (path_of z) (copy_entry x mtime i) c)"
  using assms unfolding copying_def by (fastforce simp: copy_entry_def dest: inos_I split: option.splits)

lemma copy_entry_opts: "copy_entry x mtime i = entry_of_opts i (create_opts_of sid x) mtime"
  by (cases x) (simp add: entry_of_opts_def create_opts_of_def copy_entry_def)

lemma dirs_of_update:
  assumes "map_of c (path_of z) = None" and "valid_names z"
  shows "dirs_of (AList.update (path_of z) (copy_entry x mtime i) c) = (if pe_kind x = DIRECTORY then insert z (dirs_of c) else dirs_of c)"
  using assms by (auto simp: dirs_of_def copy_entry_def)

text \<open>One iteration.\<close>

lemma cp_iteration:
  fixes x :: path_entry
  assumes s: "in_sync sid e r \<rho> c tx" and cp: "copying rp c0 created \<rho> c" and e: "r_expected rp = e"
    and z: "z \<noteq> []" "valid_names z" "butlast z \<in> dirs_of c"
  defines "step \<equiv> cp_step_of c0 (z, x)" and "i \<equiv> inode_seq (t_db tx)"
  shows "map_of c (path_of z) \<noteq> None \<Longrightarrow> \<exists>err tx'. cp_tree_loop sid rp created ids (step # steps) tx = (Inl err, tx')"
    and "map_of c (path_of z) = None \<Longrightarrow> \<exists>tx1. node (t_db tx) i = None \<and> 0 < i \<and> node (t_db tx1) i \<noteq> None
      \<and> (\<forall>j. node (t_db tx1) j = None \<longrightarrow> node (t_db tx) j = None)
      \<and> cp_tree_loop sid rp created ids (step # steps) tx
        = cp_tree_loop sid rp (AList.update (path_of z) i created) (ids @ [i]) steps tx1
      \<and> (\<forall>cid \<rho>'. \<rho>' cid = i \<and> cid \<notin> inos c \<and> (\<forall>j \<in> inos c. \<rho>' j = \<rho> j) \<longrightarrow>
           in_sync sid e r \<rho>' (AList.update (path_of z) (copy_entry x mtime cid) c) tx1
           \<and> inos (AList.update (path_of z) (copy_entry x mtime cid) c) \<subseteq> insert cid (inos c))"
proof -
  let ?ps = "butlast z" and ?n = "last z" and ?opts = "create_opts_of sid x"
  have zs: "?ps @ [?n] = z" using z(1) by simp
  have sb: "c_sandbox ?opts = sid" by (simp add: create_opts_of_def)
  obtain pe where pe: "map_of c (path_of ?ps) = Some pe" "pe_kind pe = DIRECTORY" and vp: "valid_names ?ps"
    using z(3) by (auto simp: dirs_of_def)
  let ?p = "\<rho> (pe_inode pe)"
  note dir = in_sync_dir [OF s vp pe]
  have rd: "ready sid e tx" and wf: "wf_db (t_db tx)" using s by (simp_all add: in_sync_def)
  have par: "(case map_of created (cs_parent_path step) of Some p \<Rightarrow> return_ok p
      | None \<Rightarrow> (case cs_existing_parent step of Some parent \<Rightarrow> of_sum (r_resolve rp parent)
                 | None \<Rightarrow> throw (ENOENT (cs_parent_path step)))) = (return_ok ?p :: int pg)"
    using cp [unfolded copying_def, rule_format, of ?ps pe] vp pe(1)
    by (auto simp: step_def cp_step_of_def of_sum_def return_ok_def fun_eq_iff split: option.splits)
  have unfold: "cp_tree_loop sid rp created ids (step # steps) tx =
      and_then (createInode ?opts (Some e)) (\<lambda>i. and_then (insertDirent ?p ?n i) (\<lambda>_.
        cp_tree_loop sid rp (AList.update (path_of z) i created) (ids @ [i]) steps)) tx"
    unfolding cp_tree_loop.simps par by (simp add: step_def cp_step_of_def e)
  have ch: "child (t_db tx) ?p ?n = map_option (\<lambda>x. \<rho> (pe_inode x)) (map_of c (path_of z))"
    using in_sync_child [OF s _ dir(2), of ?n] z(2) zs by simp
  show "\<exists>err tx'. cp_tree_loop sid rp created ids (step # steps) tx = (Inl err, tx')" if "map_of c (path_of z) \<noteq> None"
    unfolding unfold by (rule create_occupied [OF rd wf dir(1) _ sb]) (use that ch in auto)
  assume free: "map_of c (path_of z) = None"
  then have nochild: "child (t_db tx) ?p ?n = None" using ch by simp
  let ?tx1 = "on_db (add_node sid ?p ?n (row_of_opts ?opts (t_now tx))) (bumped sid tx)"
  have run: "cp_tree_loop sid rp created ids (step # steps) tx
      = cp_tree_loop sid rp (AList.update (path_of z) i created) (ids @ [i]) steps ?tx1"
    unfolding unfold i_def by (rule create_entry_ready [OF rd dir(1) nochild sb])
  have db: "t_db ?tx1 = replace_node sid ?p ?n (row_of_opts ?opts (t_now tx)) (bump sid (t_db tx))"
    using replace_node_free [of "bump sid (t_db tx)" ?p ?n] nochild by simp
  have rd1: "ready sid e ?tx1" using in_sync_bumped [OF s] by simp
  have "in_sync sid e r \<rho>' (AList.update (path_of z) (copy_entry x mtime cid) c) ?tx1
      \<and> inos (AList.update (path_of z) (copy_entry x mtime cid) c) \<subseteq> insert cid (inos c)"
    if "\<rho>' cid = i" "cid \<notin> inos c" "\<forall>j \<in> inos c. \<rho>' j = \<rho> j" for cid \<rho>'
  proof -
    have v: "valid_names (?ps @ [?n])" using z(2) zs by simp
    show ?thesis
      using in_sync_new_entry [OF s v pe _ sb db rd1, of \<rho>' "[cid]" mtime] free zs that
      by (simp add: copy_entry_opts [of x mtime cid sid] i_def)
  qed
  moreover have "node (t_db tx) i = None" "0 < i" using wf by (auto simp: i_def wf_off_def wf_ids_def)
  ultimately show "\<exists>tx1. node (t_db tx) i = None \<and> 0 < i \<and> node (t_db tx1) i \<noteq> None
      \<and> (\<forall>j. node (t_db tx1) j = None \<longrightarrow> node (t_db tx) j = None)
      \<and> cp_tree_loop sid rp created ids (step # steps) tx
        = cp_tree_loop sid rp (AList.update (path_of z) i created) (ids @ [i]) steps tx1
      \<and> (\<forall>cid \<rho>'. \<rho>' cid = i \<and> cid \<notin> inos c \<and> (\<forall>j \<in> inos c. \<rho>' j = \<rho> j) \<longrightarrow>
           in_sync sid e r \<rho>' (AList.update (path_of z) (copy_entry x mtime cid) c) tx1
           \<and> inos (AList.update (path_of z) (copy_entry x mtime cid) c) \<subseteq> insert cid (inos c))"
    using run by (intro exI [of _ ?tx1]) (auto simp: i_def)
qed

lemma cp_loop_length:
  "cp_tree_loop sid rp created ids steps tx = (Inr out, tx') \<Longrightarrow> \<exists>rids. out = ids @ rids \<and> length rids = length steps"
proof (induction steps arbitrary: created ids tx)
  case (Cons step steps)
  obtain i created' tx1 where "cp_tree_loop sid rp created' (ids @ [i]) steps tx1 = (Inr out, tx')"
    using Cons.prems by (auto simp: and_then_Inr_iff)
  from Cons.IH [OF this] show ?case by auto
qed simp

abbreviation all_free :: "path_rows \<Rightarrow> (string list \<times> path_entry) list \<Rightarrow> bool" where
  "all_free c steps \<equiv> \<forall>z \<in> fst ` set steps. map_of c (path_of z) = None"

lemma planned_valid: "planned D steps \<Longrightarrow> z \<in> fst ` set steps \<Longrightarrow> valid_names z"
  by (induction D steps rule: planned.induct) auto

lemma all_free_update:
  assumes "z \<notin> fst ` set steps" and "valid_names z" and "\<And>w. w \<in> fst ` set steps \<Longrightarrow> valid_names w"
  shows "all_free (AList.update (path_of z) y c) steps = all_free c steps"
proof -
  have "map_of (AList.update (path_of z) y c) (path_of w) = map_of c (path_of w)" if w: "w \<in> fst ` set steps" for w
  proof -
    have "w \<noteq> z" using w assms(1) by blast
    then show ?thesis using path_of_inject [OF assms(3) [OF w] assms(2)] by simp
  qed
  then show ?thesis by simp
qed

lemma inos_finite: "finite (inos c)"
  by (simp add: inos_def)

text \<open>The outcome of the loop.\<close>

lemma cp_loop_outcome:
  assumes "in_sync sid e r \<rho> c tx" and "copying rp c0 created \<rho> c" and "r_expected rp = e"
    and "planned (dirs_of c) steps" and "distinct (map fst steps)"
  shows "(all_free c steps \<longrightarrow> (\<exists>rids tx'. cp_tree_loop sid rp created ids (map (cp_step_of c0) steps) tx = (Inr (ids @ rids), tx')
      \<and> length rids = length steps \<and> distinct rids \<and> (\<forall>i \<in> set rids. node (t_db tx) i = None \<and> 0 < i)))
    \<and> (\<not> all_free c steps \<longrightarrow> (\<exists>err tx'. cp_tree_loop sid rp created ids (map (cp_step_of c0) steps) tx = (Inl err, tx')))"
  using assms
proof (induction steps arbitrary: \<rho> c tx created ids)
  case (Cons zx steps)
  obtain z x where zx: "zx = (z, x)" by force
  have z: "z \<noteq> []" "valid_names z" "butlast z \<in> dirs_of c"
    and tail: "planned (if pe_kind x = DIRECTORY then insert z (dirs_of c) else dirs_of c) steps"
    and new: "z \<notin> fst ` set steps" "distinct (map fst steps)"
    using Cons.prems(4,5) by (auto simp: zx)
  let ?i = "inode_seq (t_db tx)" and ?steps = "map (cp_step_of c0) steps"
  note it = cp_iteration [OF Cons.prems(1,2,3) z, where x = x and ids = ids and steps = ?steps]
  show ?case
  proof (cases "map_of c (path_of z) = None")
    case False
    then show ?thesis using it(1) by (auto simp: zx)
  next
    case free: True
    obtain tx1 where tx1: "node (t_db tx) ?i = None" "0 < ?i" "node (t_db tx1) ?i \<noteq> None"
        "\<forall>j. node (t_db tx1) j = None \<longrightarrow> node (t_db tx) j = None"
      and run: "cp_tree_loop sid rp created ids (cp_step_of c0 (z, x) # ?steps) tx
        = cp_tree_loop sid rp (AList.update (path_of z) ?i created) (ids @ [?i]) ?steps tx1"
      and sync: "\<And>cid \<rho>'. \<rho>' cid = ?i \<Longrightarrow> cid \<notin> inos c \<Longrightarrow> (\<forall>j \<in> inos c. \<rho>' j = \<rho> j) \<Longrightarrow>
           in_sync sid e r \<rho>' (AList.update (path_of z) (copy_entry x 0 cid) c) tx1"
      using it(2) [OF free, where mtime = 0] by blast
    obtain a where a: "a \<notin> inos c" using ex_new_if_finite [OF infinite_UNIV_int inos_finite] by blast
    let ?c1 = "AList.update (path_of z) (copy_entry x 0 a) c" and ?\<rho>1 = "\<rho>(a := ?i)"
    have s1: "in_sync sid e r ?\<rho>1 ?c1 tx1" by (rule sync) (use a in auto)
    have cp1: "copying rp c0 (AList.update (path_of z) ?i created) ?\<rho>1 ?c1"
      by (rule copying_extend [OF Cons.prems(2)]) (use a in auto)
    have pl1: "planned (dirs_of ?c1) steps" using tail dirs_of_update [OF free z(2)] by simp
    have same: "all_free ?c1 steps = all_free c steps"
      by (rule all_free_update [OF new(1) z(2)]) (rule planned_valid [OF tail])
    note IH = Cons.IH [OF s1 cp1 Cons.prems(3) pl1 new(2), of "ids @ [?i]", unfolded same]
    show ?thesis
    proof (cases "all_free c steps")
      case True
      then obtain rids tx' where r: "cp_tree_loop sid rp (AList.update (path_of z) ?i created) (ids @ [?i]) ?steps tx1 = (Inr ((ids @ [?i]) @ rids), tx')"
        "length rids = length steps" "distinct rids" "\<forall>i \<in> set rids. node (t_db tx1) i = None \<and> 0 < i"
        using IH by blast
      then have "?i \<notin> set rids" "\<forall>i \<in> set rids. node (t_db tx) i = None \<and> 0 < i" using tx1 by auto
      then show ?thesis using r run tx1(1,2) True free by (auto simp: zx intro!: exI [of _ "?i # rids"])
    next
      case False
      then show ?thesis using IH run by (auto simp: zx)
    qed
  qed
qed simp

text \<open>The tree it builds, whatever ids the cache uses for the new entries.\<close>

abbreviation copy_into :: "int \<Rightarrow> (string list \<times> path_entry) list \<Rightarrow> int list \<Rightarrow> path_rows \<Rightarrow> path_rows" where
  "copy_into mtime steps cids c \<equiv> fold (\<lambda>((z, x), i). AList.update (path_of z) (copy_entry x mtime i)) (zip steps cids) c"

lemma cp_loop_tree:
  assumes "in_sync sid e r \<rho> c tx" and "copying rp c0 created \<rho> c" and "r_expected rp = e"
    and "planned (dirs_of c) steps" and "distinct (map fst steps)" and "all_free c steps"
    and "cp_tree_loop sid rp created ids (map (cp_step_of c0) steps) tx = (Inr (ids @ rids), tx')"
    and "map \<rho> cids = rids" and "distinct cids" and "set cids \<inter> inos c = {}"
  shows "in_sync sid e r \<rho> (copy_into mtime steps cids c) tx' \<and> inos (copy_into mtime steps cids c) \<subseteq> inos c \<union> set cids"
  using assms
proof (induction steps arbitrary: c tx created ids rids cids)
  case (Cons zx steps)
  obtain z x where zx: "zx = (z, x)" by force
  have z: "z \<noteq> []" "valid_names z" "butlast z \<in> dirs_of c" and free: "map_of c (path_of z) = None"
    and tail: "planned (if pe_kind x = DIRECTORY then insert z (dirs_of c) else dirs_of c) steps"
    and new: "z \<notin> fst ` set steps" "distinct (map fst steps)" and frees: "all_free c steps"
    using Cons.prems(4-6) by (auto simp: zx)
  let ?i = "inode_seq (t_db tx)" and ?steps = "map (cp_step_of c0) steps"
  obtain tx1 where run: "cp_tree_loop sid rp created ids (cp_step_of c0 (z, x) # ?steps) tx
        = cp_tree_loop sid rp (AList.update (path_of z) ?i created) (ids @ [?i]) ?steps tx1"
      and sync: "\<And>cid \<rho>'. \<rho>' cid = ?i \<Longrightarrow> cid \<notin> inos c \<Longrightarrow> (\<forall>j \<in> inos c. \<rho>' j = \<rho> j) \<Longrightarrow>
           in_sync sid e r \<rho>' (AList.update (path_of z) (copy_entry x mtime cid) c) tx1
           \<and> inos (AList.update (path_of z) (copy_entry x mtime cid) c) \<subseteq> insert cid (inos c)"
    using cp_iteration(2) [OF Cons.prems(1,2,3) z free, where x = x and ids = ids and steps = ?steps and mtime = mtime]
    by (elim exE conjE) (rule that, assumption, simp)
  have rest: "cp_tree_loop sid rp (AList.update (path_of z) ?i created) (ids @ [?i]) ?steps tx1 = (Inr (ids @ rids), tx')"
    using Cons.prems(7) run by (simp add: zx)
  obtain rids' where rids: "rids = ?i # rids'" using cp_loop_length [OF rest] by auto
  obtain cid cids' where cids: "cids = cid # cids'" "\<rho> cid = ?i" "map \<rho> cids' = rids'" using Cons.prems(8) rids by (cases cids) auto
  have cid: "cid \<notin> inos c" "cid \<notin> set cids'" "distinct cids'" using Cons.prems(9,10) cids(1) by auto
  let ?c1 = "AList.update (path_of z) (copy_entry x mtime cid) c"
  have s1: "in_sync sid e r \<rho> ?c1 tx1" and sub: "inos ?c1 \<subseteq> insert cid (inos c)" using sync [of \<rho> cid] cids(2) cid(1) by simp_all
  have cp1: "copying rp c0 (AList.update (path_of z) ?i created) \<rho> ?c1"
    by (rule copying_extend [OF Cons.prems(2)]) (simp_all add: cids(2))
  have pl1: "planned (dirs_of ?c1) steps" using tail dirs_of_update [OF free z(2)] by simp
  have free1: "all_free ?c1 steps"
    by (rule iffD2 [OF all_free_update [OF new(1) z(2)] frees]) (rule planned_valid [OF tail])
  have "set cids' \<inter> inos ?c1 = {}" using sub cid(2) Cons.prems(10) cids(1) by auto
  moreover have "cp_tree_loop sid rp (AList.update (path_of z) ?i created) (ids @ [?i]) ?steps tx1 = (Inr ((ids @ [?i]) @ rids'), tx')"
    using rest rids by simp
  ultimately have "in_sync sid e r \<rho> (copy_into mtime steps cids' ?c1) tx' \<and> inos (copy_into mtime steps cids' ?c1) \<subseteq> inos ?c1 \<union> set cids'"
    using Cons.IH [OF s1 cp1 Cons.prems(3) pl1 new(2) free1 _ cids(3) cid(3)] by blast
  then show ?case using sub cids(1) by (auto simp: zx)
qed simp

section \<open>The plan of \<open>cp -r\<close>\<close>

text \<open>
  Where an entry of the source subtree goes. For a source other than the root this is the destination
  followed by the relative path; for the root the code drops the separator, so the first name of the
  relative path is glued to the destination's.
\<close>

definition graft :: "string list \<Rightarrow> string list \<Rightarrow> string list \<Rightarrow> string list" where
  "graft q d ys = (if q = [] \<and> ys \<noteq> [] then butlast d @ (last d @ hd ys) # tl ys else d @ ys)"

lemma valid_glued: "valid_name a \<Longrightarrow> valid_name b \<Longrightarrow> valid_name (a @ b)"
  by (auto simp: valid_name_def append_eq_Cons_conv)

lemma graft_valid: "valid_names d \<Longrightarrow> d \<noteq> [] \<Longrightarrow> valid_names ys \<Longrightarrow> valid_names (graft q d ys) \<and> graft q d ys \<noteq> []"
  by (cases d rule: rev_cases; cases ys) (auto simp: graft_def valid_glued)

lemma join_glue: "join_with c (as @ (b @ x) # xs) = join_with c (as @ [b]) @ join_with c (x # xs)"
  by (cases "as = []"; cases xs) (simp_all add: join_append join_with_Cons)

lemma graft_path:
  assumes "valid_names (q @ ys)" and "valid_names d" and "d \<noteq> []"
  shows "path_of d @ drop (length (path_of q)) (path_of (q @ ys)) = path_of (graft q d ys)"
proof (cases "q = []")
  case True
  then show ?thesis
    using assms(3) join_glue [of slash "butlast d" "last d" "hd ys" "tl ys"]
    by (cases ys) (simp_all add: graft_def path_of_def)
qed (use graft_subtree_path [of q d ys] assms in \<open>simp add: graft_def\<close>)

lemma graft_inj:
  assumes "graft q d ys = graft q d zs" and "valid_names d" and "d \<noteq> []" and "valid_names (q @ ys)" and "valid_names (q @ zs)"
  shows "ys = zs"
proof -
  have "drop (length (path_of q)) (path_of (q @ ys)) = drop (length (path_of q)) (path_of (q @ zs))"
    using graft_path [OF assms(4,2,3)] graft_path [OF assms(5,2,3)] assms(1) by (metis same_append_eq)
  moreover have "take (length (path_of q)) (path_of (q @ xs)) = path_of q" if "valid_names q" for xs
    using dir_prefix_path_of_append [OF that, of xs] by (cases "xs = []") (auto simp: dir_prefix_def split: if_splits)
  ultimately have "path_of (q @ ys) = path_of (q @ zs)" using assms(4) by (metis append_take_drop_id valid_names_append)
  then show ?thesis using assms(4,5) by simp
qed

text \<open>The parent of a grafted entry is the destination's parent or a grafted directory.\<close>

lemma graft_parent:
  assumes "valid_names (q @ ys @ [n])" and "q \<noteq> [] \<or> ys \<noteq> []" and "d \<noteq> []"
  shows "butlast (graft q d (ys @ [n])) = graft q d ys"
  using assms by (cases ys) (auto simp: graft_def butlast_append)

lemma graft_top: "d \<noteq> [] \<Longrightarrow> butlast (graft q d []) = butlast d" "d \<noteq> [] \<Longrightarrow> butlast (graft [] d [n]) = butlast d"
  by (auto simp: graft_def butlast_append)

text \<open>The entries to copy, as segments and source entry, in the order of the plan.\<close>

definition shallowest_first :: "session \<Rightarrow> string \<Rightarrow> string list" where
  "shallowest_first s src = sort_key path_depth (pathsUnder s src)"

definition copies :: "session \<Rightarrow> string list \<Rightarrow> string list \<Rightarrow> (string list \<times> path_entry) list" where
  "copies s q d = map (\<lambda>p. (graft q d (drop (length q) (path_parts p)), the (map_of (v_cache s) p)))
     (shallowest_first s (path_of q))"

lemma plannedI:
  assumes "\<And>k. k < length steps \<Longrightarrow> fst (steps ! k) \<noteq> [] \<and> valid_names (fst (steps ! k))
     \<and> (butlast (fst (steps ! k)) \<in> D \<or> (\<exists>j < k. fst (steps ! j) = butlast (fst (steps ! k)) \<and> pe_kind (snd (steps ! j)) = DIRECTORY))"
  shows "planned D steps"
  using assms
proof (induction steps arbitrary: D)
  case (Cons zx steps)
  obtain z x where zx: "zx = (z, x)" by force
  have "planned (if pe_kind x = DIRECTORY then insert z D else D) steps"
  proof (rule Cons.IH)
    fix k assume k: "k < length steps"
    from Cons.prems [of "Suc k"] k
    consider "butlast (fst (steps ! k)) \<in> D"
      | j where "j < Suc k" "fst ((zx # steps) ! j) = butlast (fst (steps ! k))" "pe_kind (snd ((zx # steps) ! j)) = DIRECTORY"
      by auto
    then have "butlast (fst (steps ! k)) \<in> (if pe_kind x = DIRECTORY then insert z D else D)
        \<or> (\<exists>j < k. fst (steps ! j) = butlast (fst (steps ! k)) \<and> pe_kind (snd (steps ! j)) = DIRECTORY)"
    proof cases
      case (2 j)
      then show ?thesis by (cases j) (auto simp: zx)
    qed simp
    then show "fst (steps ! k) \<noteq> [] \<and> valid_names (fst (steps ! k)) \<and> (butlast (fst (steps ! k)) \<in> (if pe_kind x = DIRECTORY then insert z D else D)
        \<or> (\<exists>j < k. fst (steps ! j) = butlast (fst (steps ! k)) \<and> pe_kind (snd (steps ! j)) = DIRECTORY))"
      using Cons.prems [of "Suc k"] k by simp
  qed
  then show ?case using Cons.prems [of 0] by (simp add: zx)
qed simp

lemma sorted_before:
  assumes "sorted (map f xs)" and "k < length xs" and "y \<in> set xs" and "f y < f (xs ! k)"
  obtains j where "j < k" and "xs ! j = y"
proof -
  obtain j where j: "j < length xs" "xs ! j = y" using assms(3) by (auto simp: in_set_conv_nth)
  have "\<not> k \<le> j" using sorted_nth_mono [OF assms(1), of k j] assms(2,4) j by auto
  then have "j < k" by simp
  then show ?thesis using that j(2) by blast
qed

lemma distinct_shallowest: "distinct (map fst (v_cache s)) \<Longrightarrow> distinct (shallowest_first s p)"
  by (simp add: shallowest_first_def distinct_pathsUnder)

lemma shallowest_segs:
  assumes keys: "normal_keys (v_cache s)" and q: "valid_names q" "map_of (v_cache s) (path_of q) \<noteq> None"
    and p: "p \<in> set (shallowest_first s (path_of q))"
  obtains ys where "valid_names (q @ ys)" and "p = path_of (q @ ys)" and "map_of (v_cache s) p \<noteq> None"
proof -
  have p': "p \<in> set (pathsUnder s (path_of q))" using p by (simp add: shallowest_first_def)
  obtain ys where "valid_names (q @ ys)" "p = path_of (q @ ys)" using pathsUnder_segs [OF keys q(1) p'] by blast
  then show ?thesis using that set_pathsUnder [OF q, of "q @ ys"] p' by blast
qed

text \<open>One step of the plan, for the entry with the relative path \<open>ys\<close>.\<close>

lemma copies_nth:
  assumes keys: "normal_keys (v_cache s)" and q: "valid_names q" "map_of (v_cache s) (path_of q) \<noteq> None"
    and k: "k < length (copies s q d)"
  obtains ys x where "valid_names (q @ ys)" and "shallowest_first s (path_of q) ! k = path_of (q @ ys)"
    and "map_of (v_cache s) (path_of (q @ ys)) = Some x" and "copies s q d ! k = (graft q d ys, x)"
proof -
  let ?p = "shallowest_first s (path_of q) ! k"
  have k': "k < length (shallowest_first s (path_of q))" using k by (simp add: copies_def)
  obtain ys where ys: "valid_names (q @ ys)" "?p = path_of (q @ ys)" "map_of (v_cache s) ?p \<noteq> None"
    using shallowest_segs [OF keys q nth_mem [OF k']] by blast
  obtain x where x: "map_of (v_cache s) (path_of (q @ ys)) = Some x" using ys(2,3) by auto
  have "copies s q d ! k = (graft q d ys, x)" using k' ys(1,2) x by (simp add: copies_def)
  then show ?thesis using that ys(1,2) x by blast
qed

lemma copies_distinct:
  assumes keys: "normal_keys (v_cache s)" "distinct (map fst (v_cache s))" and q: "valid_names q" "map_of (v_cache s) (path_of q) \<noteq> None"
    and d: "valid_names d" "d \<noteq> []"
  shows "distinct (map fst (copies s q d))"
proof -
  let ?L = "shallowest_first s (path_of q)" and ?g = "\<lambda>p. graft q d (drop (length q) (path_parts p))"
  have "inj_on ?g (set ?L)"
  proof (rule inj_onI)
    fix a b assume ab: "a \<in> set ?L" "b \<in> set ?L" and eq: "?g a = ?g b"
    obtain ys where ys: "valid_names (q @ ys)" "a = path_of (q @ ys)" using shallowest_segs [OF keys(1) q ab(1)] by blast
    obtain zs where zs: "valid_names (q @ zs)" "b = path_of (q @ zs)" using shallowest_segs [OF keys(1) q ab(2)] by blast
    have "graft q d ys = graft q d zs" using eq ys zs by simp
    then show "a = b" using graft_inj [OF _ d ys(1) zs(1)] ys(2) zs(2) by simp
  qed
  then show ?thesis using distinct_shallowest [OF keys(2)] by (simp add: copies_def distinct_map comp_def)
qed

lemma copies_planned:
  assumes s: "in_sync sid e r \<rho> (v_cache s0) tx" and q: "valid_names q" "map_of (v_cache s0) (path_of q) \<noteq> None"
    and d: "valid_names d" "d \<noteq> []" "butlast d \<in> dirs_of (v_cache s0)"
  shows "planned (dirs_of (v_cache s0)) (copies s0 q d)"
proof (rule plannedI)
  let ?L = "shallowest_first s0 (path_of q)" and ?c = "v_cache s0"
  have keys: "normal_keys ?c" using s by (auto simp: in_sync_def dest: cohere_normal_keys)
  fix k assume k: "k < length (copies s0 q d)"
  obtain ys x where ys: "valid_names (q @ ys)" "?L ! k = path_of (q @ ys)" "map_of ?c (path_of (q @ ys)) = Some x"
      "copies s0 q d ! k = (graft q d ys, x)"
    using copies_nth [OF keys q k] .
  have "butlast (graft q d ys) \<in> dirs_of ?c \<or> (\<exists>j < k. fst (copies s0 q d ! j) = butlast (graft q d ys) \<and> pe_kind (snd (copies s0 q d ! j)) = DIRECTORY)"
  proof (cases "ys = [] \<or> q = [] \<and> length ys = 1")
    case True
    then have "butlast (graft q d ys) = butlast d" using graft_top(1) [OF d(2), of q] graft_top(2) [OF d(2), of "hd ys"] by (cases ys) auto
    then show ?thesis using d(3) by simp
  next
    case False
    then obtain zs n where zs: "ys = zs @ [n]" "q \<noteq> [] \<or> zs \<noteq> []" by (cases ys rule: rev_cases) auto
    have v: "valid_names ((q @ zs) @ [n])" "valid_names (q @ zs)" using ys(1) zs(1) by simp_all
    obtain pe where pe: "map_of ?c (path_of (q @ zs)) = Some pe" "pe_kind pe = DIRECTORY"
      using in_sync_parent [OF s v(1)] ys(3) zs(1) by (metis append.assoc)
    have mem: "path_of (q @ zs) \<in> set ?L" using set_pathsUnder [OF q v(2)] pe(1) by (simp add: shallowest_first_def)
    have "path_depth (path_of (q @ zs)) < path_depth (?L ! k)"
      using path_depth_path_of [OF v(2)] path_depth_path_of [OF ys(1)] ys(2) zs by auto
    moreover have "sorted (map path_depth ?L)" "k < length ?L" using k by (simp_all add: shallowest_first_def copies_def)
    ultimately obtain j where j: "j < k" "?L ! j = path_of (q @ zs)" using mem by (metis sorted_before)
    have "copies s0 q d ! j = (graft q d zs, pe)"
      using j k v pe(1) by (simp add: copies_def del: append_assoc)
    moreover have "butlast (graft q d ys) = graft q d zs" using graft_parent [of q zs n d] v(1) zs d(2) by simp
    ultimately show ?thesis using j(1) pe(2) by auto
  qed
  moreover have "valid_names ys" using ys(1) by simp
  ultimately show "fst (copies s0 q d ! k) \<noteq> [] \<and> valid_names (fst (copies s0 q d ! k))
      \<and> (butlast (fst (copies s0 q d ! k)) \<in> dirs_of ?c
        \<or> (\<exists>j < k. fst (copies s0 q d ! j) = butlast (fst (copies s0 q d ! k)) \<and> pe_kind (snd (copies s0 q d ! j)) = DIRECTORY))"
    using graft_valid [OF d(1,2), of ys q] ys(4) by simp
qed

section \<open>The replay is faithful\<close>

lemma faithful_cp_tree:
  assumes q: "valid_names q" "map_of (v_cache s0) (path_of q) \<noteq> None" and dk: "distinct (map fst (v_cache s0))" "normal_keys (v_cache s0)"
    and d: "valid_names d" "d \<noteq> []" "butlast d \<in> dirs_of (v_cache s0)"
  defines "steps \<equiv> copies s0 q d"
  shows "faithful sid (\<lambda>rp. cp_tree_loop sid rp [] [] (map (cp_step_of (v_cache s0)) steps)) (length steps) (v_cache s0)
    (\<lambda>ids. copy_into mtime steps ids (v_cache s0))"
proof (cases "all_free (v_cache s0) steps")
  let ?c = "v_cache s0" and ?run = "\<lambda>rp. cp_tree_loop sid rp [] [] (map (cp_step_of (v_cache s0)) steps)"
  have dist: "distinct (map fst steps)" unfolding steps_def by (rule copies_distinct [OF dk(2,1) q d(1,2)])
  have ne: "map (cp_step_of ?c) steps \<noteq> []"
    by (simp add: steps_def copies_def shallowest_first_def pathsUnder_def)
  {
    case True
    have "simulates sid ?run (length steps) ?c (\<lambda>ids. copy_into mtime steps ids ?c)"
    proof (rule simulatesI)
      fix e r \<rho> tx rp assume s: "in_sync sid e r \<rho> ?c tx" and rp: "r_expected rp = e" "resolves rp \<rho> ?c"
      have pl: "planned (dirs_of ?c) steps" unfolding steps_def by (rule copies_planned [OF s q d])
      obtain rids tx' where run: "?run rp tx = (Inr rids, tx')" and rids: "length rids = length steps" "distinct rids"
          "\<forall>i \<in> set rids. node (t_db tx) i = None \<and> 0 < i"
        using cp_loop_outcome [OF s copying_start [OF rp(2)] rp(1) pl dist, of "[]"] True by auto
      have "in_sync sid e r \<rho>' (copy_into mtime steps cids ?c) tx' \<and> inos (copy_into mtime steps cids ?c) \<subseteq> inos ?c \<union> set cids"
        if "map \<rho>' cids = rids" "set cids \<inter> inos ?c = {}" "\<forall>i \<in> inos ?c. \<rho>' i = \<rho> i" for cids \<rho>'
      proof (rule cp_loop_tree [OF in_sync_rename [OF s that(3)] copying_start rp(1) pl dist True _ that(1) _ that(2)])
        show "resolves rp \<rho>' ?c" using rp(2) that(3) by (simp add: resolves_def)
        show "?run rp tx = (Inr ([] @ rids), tx')" using run by simp
        show "distinct cids" using that(1) rids(2) by (auto simp: distinct_map)
      qed
      then show "\<exists>rids tx'. ?run rp tx = (Inr rids, tx') \<and> length rids = length steps \<and> distinct rids
        \<and> (\<forall>i \<in> set rids. node (t_db tx) i = None \<and> 0 < i)
        \<and> (\<forall>cids \<rho>'. map \<rho>' cids = rids \<and> set cids \<inter> inos ?c = {} \<and> (\<forall>i \<in> inos ?c. \<rho>' i = \<rho> i)
             \<longrightarrow> in_sync sid e r \<rho>' (copy_into mtime steps cids ?c) tx' \<and> inos (copy_into mtime steps cids ?c) \<subseteq> inos ?c \<union> set cids)"
        using run rids by blast
    qed
    then show ?thesis using advancing_cp_tree [OF ne] by (simp add: faithful_def)
  next
    case False
    have "doomed sid ?run ?c"
      unfolding doomed_def
    proof (intro allI impI, elim conjE)
      fix e r \<rho> tx rp assume s: "in_sync sid e r \<rho> ?c tx" and rp: "r_expected rp = e" "resolves rp \<rho> ?c"
      have pl: "planned (dirs_of ?c) steps" unfolding steps_def by (rule copies_planned [OF s q d])
      show "\<exists>err tx'. ?run rp tx = (Inl err, tx')"
        using cp_loop_outcome [OF s copying_start [OF rp(2)] rp(1) pl dist, of "[]"] False by blast
    qed
    then show ?thesis by (simp add: faithful_def)
  }
qed

section \<open>The plan computed by the code\<close>

lemma validate_normal:
  assumes "valid_names z" and "validatePath (path_of z) = Inr u"
  shows "validatePath (path_of z) = Inr (path_of z)"
  using assms normalizeFsPath_path_of [OF assms(1)] by (auto simp: validatePath_def Let_def split: if_splits)

lemma parent_name_last:
  assumes "valid_names z" and "z \<noteq> []"
  shows "parentOf (path_of z) = path_of (butlast z)" and "nameOf (path_of z) = last z"
  using assms by (cases z rule: rev_cases; simp)+

lemma cp_plan_steps:
  assumes d: "valid_names d" "d \<noteq> []" and L: "\<And>p. p \<in> set L \<Longrightarrow> \<exists>ys. valid_names (q @ ys) \<and> p = path_of (q @ ys)"
    and plan: "cp_plan s (path_of q) (path_of d) L = Inr plan"
  defines "steps \<equiv> map (\<lambda>p. (graft q d (drop (length q) (path_parts p)), the (map_of (v_cache s) p))) L"
  shows "plan = map (cp_step_of (v_cache s)) steps \<and> (\<forall>z \<in> fst ` set steps. ok_path (path_of z))"
  using L plan unfolding steps_def
proof (induction L arbitrary: plan)
  case (Cons p ps)
  obtain ys where ys: "valid_names (q @ ys)" "p = path_of (q @ ys)" using Cons.prems(1) by force
  let ?z = "graft q d ys"
  have z: "valid_names ?z" "?z \<noteq> []" using graft_valid [OF d, of ys q] ys(1) by auto
  have dest: "path_of d @ drop (length (path_of q)) p = path_of ?z" using graft_path [OF ys(1) d] ys(2) by simp
  obtain u v steps where ok: "validatePath (path_of ?z) = Inr u" "assertStoredPath (path_of ?z) ''cp'' = Inr v"
    and rest: "cp_plan s (path_of q) (path_of d) ps = Inr steps"
    and plan: "plan = \<lparr>cs_dest = path_of ?z, cs_name = nameOf (path_of ?z), cs_parent_path = parentOf (path_of ?z),
        cs_existing_parent = map_option pe_inode (view_get s (parentOf (path_of ?z))), cs_entry = the (view_get s p)\<rparr> # steps"
    using Cons.prems(2) by (auto simp: dest Let_def split: sum.splits)
  have "ok_path (path_of ?z)" using validate_normal [OF z(1) ok(1)] ok(2) by (auto simp: ok_path_def assertStoredPath_def split: if_splits)
  moreover have "drop (length q) (path_parts p) = ys" using ys by simp
  ultimately show ?case
    using Cons.IH [OF _ rest] Cons.prems(1) plan z
    by (auto simp: cp_step_of_def parent_name_last view_get_def)
qed simp

lemma copies_plan:
  assumes keys: "normal_keys (v_cache s)" and q: "valid_names q" "map_of (v_cache s) (path_of q) \<noteq> None"
    and d: "valid_names d" "d \<noteq> []" and plan: "cp_plan s (path_of q) (path_of d) (shallowest_first s (path_of q)) = Inr plan"
  shows "plan = map (cp_step_of (v_cache s)) (copies s q d)" and "\<And>z x. (z, x) \<in> set (copies s q d) \<Longrightarrow> ok_path (path_of z)"
proof -
  have "\<exists>ys. valid_names (q @ ys) \<and> p = path_of (q @ ys)" if "p \<in> set (shallowest_first s (path_of q))" for p
    using shallowest_segs [OF keys q that] by metis
  note * = cp_plan_steps [OF d this plan, folded copies_def]
  show "plan = map (cp_step_of (v_cache s)) (copies s q d)" using * by blast
  show "ok_path (path_of z)" if "(z, x) \<in> set (copies s q d)" for z x using * that by force
qed

text \<open>The published changes: the source entry is found again from the destination path.\<close>

lemma fold_update_zip:
  "length ks = length vs \<Longrightarrow> distinct ks \<Longrightarrow> fst ` set t \<inter> set ks = {} \<Longrightarrow>
     fold (\<lambda>(k, v). AList.update k v) (zip ks vs) t = t @ zip ks vs"
  by (induction ks vs arbitrary: t rule: list_induct2) (auto simp: table_update_absent)

definition copy_changes :: "int \<Rightarrow> (string list \<times> path_entry) list \<Rightarrow> int list \<Rightarrow> path_change list" where
  "copy_changes mtime steps ids = map (\<lambda>((z, x), i). SetPath (path_of z) (copy_entry x mtime i)) (zip steps ids)"

lemma cache_copy_changes: "fold cache_change (copy_changes mtime steps ids) c = copy_into mtime steps ids c"
  by (induction steps arbitrary: ids c) (auto simp: copy_changes_def split: list.splits simp: zip_Cons1)

lemma inos_copy_into: "inos (copy_into mtime steps ids c) \<subseteq> inos c \<union> set ids"
proof (induction steps arbitrary: ids c)
  case (Cons zx steps)
  show ?case
  proof (cases ids)
    case (Cons i js)
    have "inos (AList.update (path_of (fst zx)) (copy_entry (snd zx) mtime i) c) \<subseteq> insert i (inos c)"
      using inos_update [of "path_of (fst zx)" "copy_entry (snd zx) mtime i" c] by (simp add: copy_entry_def)
    then show ?thesis using Cons.IH [of js "AList.update (path_of (fst zx)) (copy_entry (snd zx) mtime i) c"] \<open>ids = i # js\<close>
      by (auto simp: case_prod_beta)
  qed simp
qed simp

lemma published_copies:
  assumes keys: "normal_keys (v_cache s)" "distinct (map fst (v_cache s))" and q: "valid_names q" "map_of (v_cache s) (path_of q) \<noteq> None"
    and d: "valid_names d" "d \<noteq> []" and len: "length ids = length (copies s q d)"
  shows "map (\<lambda>(destPath, i).
       SetPath destPath ((the (view_get s (path_of q @ drop (length (path_of d)) destPath)))\<lparr>pe_inode := i, pe_mtime := mtime\<rparr>))
       (fold (\<lambda>(st, i). AList.update (cs_dest st) i) (zip (map (cp_step_of (v_cache s)) (copies s q d)) ids) [])
    = copy_changes mtime (copies s q d) ids"
proof -
  let ?S = "copies s q d"
  have valid: "valid_names z" if zx: "(z, x) \<in> set ?S" for z x
  proof -
    obtain k where k: "k < length ?S" "?S ! k = (z, x)" using zx by (metis in_set_conv_nth)
    obtain ys y where y: "valid_names (q @ ys)" "?S ! k = (graft q d ys, y)" by (rule copies_nth [OF keys(1) q k(1)])
    show ?thesis using graft_valid [OF d, of ys q] y k(2) by simp
  qed
  have "inj_on path_of (fst ` set ?S)" by (rule inj_onI) (use valid in \<open>auto simp: path_of_inject\<close>)
  then have dist: "distinct (map (\<lambda>zx. path_of (fst zx)) ?S)"
    using copies_distinct [OF keys q d] by (simp add: distinct_map comp_inj_on_iff comp_def)
  have f: "fold (\<lambda>(st, i). AList.update (cs_dest st) i) (zip (map (cp_step_of (v_cache s)) steps) ids) t
      = fold (\<lambda>(k, v). AList.update k v) (zip (map (\<lambda>zx. path_of (fst zx)) steps) ids) t" for steps and ids :: "int list" and t
    by (induction steps arbitrary: ids t) (auto simp: cp_step_of_def zip_Cons1 split: list.splits)
  have src: "view_get s (path_of q @ drop (length (path_of d)) (path_of z)) = Some x" if zx: "(z, x) \<in> set ?S" for z x
  proof -
    obtain k where k: "k < length ?S" "?S ! k = (z, x)" using zx by (metis in_set_conv_nth)
    obtain ys y where y: "valid_names (q @ ys)" "map_of (v_cache s) (path_of (q @ ys)) = Some y" "?S ! k = (graft q d ys, y)"
      by (rule copies_nth [OF keys(1) q k(1)])
    have z: "z = graft q d ys" "x = y" using y(3) k(2) by auto
    have "path_of q @ drop (length (path_of q)) (path_of (q @ ys)) = path_of (q @ ys)"
      using dir_prefix_path_of_append [OF q(1), of ys] by (cases "ys = []") (auto simp: dir_prefix_def)
    then have "path_of q @ drop (length (path_of d)) (path_of z) = path_of (q @ ys)"
      using graft_path [OF y(1) d] z(1) by (metis append_eq_conv_conj)
    then show ?thesis using y(2) z(2) by (simp add: view_get_def)
  qed
  have "map (\<lambda>(destPath, i). SetPath destPath ((the (view_get s (path_of q @ drop (length (path_of d)) destPath)))\<lparr>pe_inode := i, pe_mtime := mtime\<rparr>))
      (zip (map (\<lambda>zx. path_of (fst zx)) ?S) ids) = copy_changes mtime ?S ids"
    unfolding copy_changes_def zip_map1 map_map
    by (rule map_cong [OF refl]) (auto simp: copy_entry_def src dest: set_zip_leftD)
  then show ?thesis using fold_update_zip [of "map (\<lambda>zx. path_of (fst zx)) ?S" ids "[]"] dist len by (simp add: f)
qed

end
