(* ===== verification/PgIngest.thy ===== *)
theory PgIngest
  imports PgNamespace PgBlobs
begin

text \<open>
  \<open>src/sql-fs/dialects/postgres/ingest.ts\<close>: the bulk upload of files in one transaction. Missing ancestor
  directories are created depth by depth, then every file gets a fresh inode; entries that exist are repointed,
  the inodes they had lose their links, and the other entries are inserted. Each statement works on a batch of rows.
\<close>

record ingest_file =
  if_path :: string
  if_content :: bytes
  if_mode :: int

section \<open>Batch statements\<close>

text \<open>\<open>INSERT INTO inodes ... RETURNING id\<close> and \<open>INSERT INTO dirents\<close>, row by row.\<close>

fun insert_inodes :: "inode_row list \<Rightarrow> int list pg" where
  "insert_inodes [] = return_ok []"
| "insert_inodes (r # rs) =
     and_then (insert_inode r) (\<lambda>i. and_then (insert_inodes rs) (\<lambda>ids. return_ok (i # ids)))"

fun insert_dirents :: "((int \<times> string) \<times> dirent_row) list \<Rightarrow> unit pg" where
  "insert_dirents [] = return_ok ()"
| "insert_dirents ((k, e) # es) = and_then (insert_dirent_row k e) (\<lambda>_. insert_dirents es)"

text \<open>\<open>UPDATE dirents SET inode_id ... FROM (VALUES ...)\<close>: entries that are not visible are left alone.\<close>

definition repoint_dirent :: "(int \<times> string) \<times> int \<Rightarrow> unit pg" where
  "repoint_dirent v = (\<lambda>tx.
     case get_dirent tx (fst v) of
       None \<Rightarrow> (Inr (), tx)
     | Some d \<Rightarrow>
         if map_of (inodes (t_db tx)) (snd v) = None then (Inl foreign_key_violation, tx)
         else (Inr (), on_db (put_dirent (fst v) (d\<lparr>d_inode := snd v\<rparr>)) tx))"

text \<open>\<open>UPDATE inodes SET nlink = nlink - cnt\<close>, and \<open>DELETE FROM inodes WHERE id IN ... AND nlink <= 0\<close>.\<close>

definition lower_nlink :: "int \<times> int \<Rightarrow> unit pg" where
  "lower_nlink v = (\<lambda>tx.
     (Inr (), case get_inode tx (fst v) of
                None \<Rightarrow> tx
              | Some r \<Rightarrow> on_db (put_inode (fst v) (r\<lparr>i_nlink := i_nlink r - snd v\<rparr>)) tx))"

definition delete_unlinked :: "int \<Rightarrow> unit pg" where
  "delete_unlinked i = (\<lambda>tx.
     (Inr (), case get_inode tx i of
                None \<Rightarrow> tx
              | Some r \<Rightarrow> if i_nlink r \<le> 0 then on_db (del_inode i) tx else tx))"

text \<open>Existing rows under the given slots: \<open>dirents\<close> joined with \<open>inodes\<close> and the values.\<close>

definition existing_row :: "pgtx \<Rightarrow> int \<times> string \<Rightarrow> (int \<times> inode_kind) option" where
  "existing_row tx k =
     (case get_dirent tx k of
        None \<Rightarrow> None
      | Some d \<Rightarrow> map_option (\<lambda>r. (d_inode d, i_kind r)) (get_inode tx (d_inode d)))"

section \<open>Checks and context\<close>

fun check_ingest_paths :: "ingest_file list \<Rightarrow> fs_error + unit" where
  "check_ingest_paths [] = Inr ()"
| "check_ingest_paths (f # fs) =
     (let path = resolvePath ''/'' (if_path f)
      in if path = ''/'' then Inl (EISDIR (if_path f))
         else if path = DEV_NULL then Inl (EPERM (if_path f) ''bulkIngest'')
         else if prefix (DEV_NULL @ ''/'') path then Inl (ENOTDIR DEV_NULL)
         else check_ingest_paths fs)"

definition ingest_context :: "string \<Rightarrow> int option \<Rightarrow> int pg" where
  "ingest_context sid expected = (\<lambda>tx.
     case get_sandbox tx sid of
       None \<Rightarrow> (Inl (InternalError ''bulkIngest: sandbox not found or has no root inode''), tx)
     | Some s \<Rightarrow>
         (case fenceCtes Existing sid expected tx of
            (False, tx') \<Rightarrow> (Inl (ESTALE sid), tx')
          | (True, tx') \<Rightarrow>
              (case sb_root s of
                 None \<Rightarrow> (Inl (InternalError ''bulkIngest: sandbox not found or has no root inode''), tx')
               | Some r \<Rightarrow> (Inr r, tx'))))"

section \<open>Directories\<close>

text \<open>A JavaScript \<open>Set\<close> keeps the first of equal elements, in insertion order.\<close>

definition js_set :: "'a list \<Rightarrow> 'a list" where
  "js_set xs = rev (remdups (rev xs))"

definition dirs_at :: "ingest_file list \<Rightarrow> nat \<Rightarrow> string list" where
  "dirs_at files depth =
     js_set (concat (map (\<lambda>f. let parts = path_parts (if_path f)
                              in if depth < length parts then [path_of (take depth parts)] else []) files))"

definition ingest_depths :: "ingest_file list \<Rightarrow> nat list" where
  "ingest_depths files = [1 ..< foldr (\<lambda>f. max (length (path_parts (if_path f)))) files 0]"

record ingest_state =
  is_dirs :: "(string, int) table"
  is_result :: path_rows

record dir_candidate =
  dc_path :: string
  dc_name :: string
  dc_parent :: int

fun dir_candidates :: "(string, int) table \<Rightarrow> string list \<Rightarrow> fs_error + dir_candidate list" where
  "dir_candidates dirs [] = Inr []"
| "dir_candidates dirs (p # ps) =
     (if map_of dirs p \<noteq> None then dir_candidates dirs ps
      else
        let parts = path_parts p
        in (case map_of dirs (path_of (butlast parts)) of
              None \<Rightarrow> Inl (InternalError ''bulkIngest: parent dir not found'')
            | Some i \<Rightarrow>
                (case dir_candidates dirs ps of
                   Inl e \<Rightarrow> Inl e
                 | Inr cs \<Rightarrow> Inr (\<lparr>dc_path = p, dc_name = last parts, dc_parent = i\<rparr> # cs))))"

text \<open>
  The rows found for the candidates must be directories. The order in which Postgres returns the rows only decides
  which of several files in the way is named.
\<close>

fun adopt_dirs :: "pgtx \<Rightarrow> dir_candidate list \<Rightarrow> (string, int) table \<Rightarrow> fs_error + (string, int) table" where
  "adopt_dirs tx [] dirs = Inr dirs"
| "adopt_dirs tx (c # cs) dirs =
     (case existing_row tx (dc_parent c, dc_name c) of
        None \<Rightarrow> adopt_dirs tx cs dirs
      | Some (i, kind) \<Rightarrow>
          if kind \<noteq> DIRECTORY then Inl (ENOTDIR (dc_path c))
          else adopt_dirs tx cs (AList.update (dc_path c) i dirs))"

definition ingest_dir_entry :: "int \<Rightarrow> int \<Rightarrow> path_entry" where
  "ingest_dir_entry i mtime =
     \<lparr>pe_inode = i, pe_kind = DIRECTORY, pe_mode = 493, pe_size = 0, pe_mtime = mtime, pe_sha = None, pe_target = None\<rparr>"

definition create_dirs :: "string \<Rightarrow> dir_candidate list \<Rightarrow> ingest_state \<Rightarrow> ingest_state pg" where
  "create_dirs sid cs st = (\<lambda>tx.
     if cs = [] then (Inr st, tx)
     else
       and_then (insert_inodes (map (\<lambda>_. new_inode_row sid DIRECTORY 493 0 None None (t_now tx)) cs)) (\<lambda>ids.
       and_then (insert_dirents (map2 (\<lambda>c i. ((dc_parent c, dc_name c), \<lparr>d_inode = i, d_sandbox = sid\<rparr>)) cs ids)) (\<lambda>_.
       return_ok
         \<lparr>is_dirs = fold (\<lambda>(c, i). AList.update (dc_path c) i) (zip cs ids) (is_dirs st),
          is_result = fold (\<lambda>(c, i). AList.update (dc_path c) (ingest_dir_entry i (t_now tx))) (zip cs ids) (is_result st)\<rparr>)) tx)"

definition ingest_level :: "string \<Rightarrow> string list \<Rightarrow> ingest_state \<Rightarrow> ingest_state pg" where
  "ingest_level sid paths st =
     and_then (of_sum (dir_candidates (is_dirs st) paths)) (\<lambda>cs tx.
       and_then (of_sum (adopt_dirs tx cs (is_dirs st))) (\<lambda>dirs.
       create_dirs sid (filter (\<lambda>c. map_of dirs (dc_path c) = None) cs) (st\<lparr>is_dirs := dirs\<rparr>)) tx)"

fun ingest_levels :: "string \<Rightarrow> string list list \<Rightarrow> ingest_state \<Rightarrow> ingest_state pg" where
  "ingest_levels sid [] st = return_ok st"
| "ingest_levels sid (ps # pss) st = and_then (ingest_level sid ps st) (ingest_levels sid pss)"

section \<open>Files\<close>

record hashed_file =
  hf_file :: ingest_file
  hf_sha :: bytes
  hf_name :: string
  hf_parent :: int

fun hash_files :: "(bytes \<Rightarrow> bytes) \<Rightarrow> (string, int) table \<Rightarrow> ingest_file list \<Rightarrow> fs_error + hashed_file list" where
  "hash_files sha dirs [] = Inr []"
| "hash_files sha dirs (f # fs) =
     (let parts = path_parts (if_path f)
      in (case map_of dirs (path_of (butlast parts)) of
            None \<Rightarrow> Inl (SqlState ''22P02'')
          | Some p \<Rightarrow>
              (case hash_files sha dirs fs of
                 Inl e \<Rightarrow> Inl e
               | Inr hs \<Rightarrow> Inr (\<lparr>hf_file = f, hf_sha = sha (if_content f), hf_name = last parts, hf_parent = p\<rparr> # hs))))"

abbreviation hf_slot :: "hashed_file \<Rightarrow> int \<times> string" where
  "hf_slot h \<equiv> (hf_parent h, hf_name h)"

fun existing_files :: "pgtx \<Rightarrow> hashed_file list \<Rightarrow> fs_error + (int \<times> string, int) table" where
  "existing_files tx [] = Inr []"
| "existing_files tx (h # hs) =
     (case existing_row tx (hf_slot h) of
        None \<Rightarrow> existing_files tx hs
      | Some (i, kind) \<Rightarrow>
          if kind = DIRECTORY then Inl (EISDIR (if_path (hf_file h)))
          else (case existing_files tx hs of Inl e \<Rightarrow> Inl e | Inr m \<Rightarrow> Inr (AList.update (hf_slot h) i m)))"

text \<open>\<open>commitBatch\<close>: each distinct content once, in its own transaction.\<close>

definition unique_blobs :: "hashed_file list \<Rightarrow> (bytes, bytes) table" where
  "unique_blobs hs =
     fold (\<lambda>h m. if map_of m (hf_sha h) = None then AList.update (hf_sha h) (if_content (hf_file h)) m else m) hs []"

definition commitBatch :: "(bytes, bytes) table \<Rightarrow> int \<Rightarrow> db \<Rightarrow> db" where
  "commitBatch rows now d = fold (\<lambda>(sha, data). touch_blob sha data now) rows d"

lemma commitBatch_blobs: "\<exists>b. commitBatch rows now d = d\<lparr>blobs := b\<rparr>"
proof -
  have "\<exists>b. fold (\<lambda>(sha, data). touch_blob sha data now) rows (d\<lparr>blobs := x\<rparr>) = d\<lparr>blobs := b\<rparr>" for x
    by (induction rows arbitrary: x) (auto simp: touch_blob_def)
  from this [of "blobs d"] show ?thesis by (simp add: commitBatch_def)
qed

definition ingest_file_entry :: "int \<Rightarrow> int \<Rightarrow> hashed_file \<Rightarrow> path_entry" where
  "ingest_file_entry i mtime h =
     \<lparr>pe_inode = i, pe_kind = FILE, pe_mode = if_mode (hf_file h), pe_size = int (length (if_content (hf_file h))),
      pe_mtime = mtime, pe_sha = Some (hf_sha h), pe_target = None\<rparr>"

definition ingest_file_row :: "string \<Rightarrow> int \<Rightarrow> hashed_file \<Rightarrow> inode_row" where
  "ingest_file_row sid now h =
     new_inode_row sid FILE (if_mode (hf_file h)) (int (length (if_content (hf_file h)))) (Some (hf_sha h)) None now"

text \<open>\<open>nlinkDecrements\<close>: how often each replaced inode lost a link, in the order of first occurrence.\<close>

definition link_losses :: "int list \<Rightarrow> (int \<times> int) list" where
  "link_losses old = map (\<lambda>i. (i, int (length (filter (\<lambda>j. j = i) old)))) (js_set old)"

definition store_files :: "string \<Rightarrow> hashed_file list \<Rightarrow> (int \<times> string, int) table \<Rightarrow> path_rows \<Rightarrow> path_rows pg" where
  "store_files sid hs existing result = (\<lambda>tx.
     and_then (insert_inodes (map (ingest_file_row sid (t_now tx)) hs)) (\<lambda>ids.
       let placed = zip (map hf_slot hs) ids;
           update = filter (\<lambda>(k, i). map_of existing k \<noteq> None) placed;
           fresh = filter (\<lambda>(k, i). map_of existing k = None) placed;
           losses = link_losses (map (\<lambda>(k, i). the (map_of existing k)) update)
       in and_then (for_each update repoint_dirent) (\<lambda>_.
          and_then (for_each losses lower_nlink) (\<lambda>_.
          and_then (for_each (map fst losses) delete_unlinked) (\<lambda>_.
          and_then (insert_dirents (map (\<lambda>(k, i). (k, \<lparr>d_inode = i, d_sandbox = sid\<rparr>)) fresh)) (\<lambda>_.
          return_ok
            (fold (\<lambda>(h, i). AList.update (if_path (hf_file h)) (ingest_file_entry i (t_now tx) h)) (zip hs ids) result)))))) tx)"

section \<open>The statement sequence\<close>

definition pg_bulkIngest :: "(bytes \<Rightarrow> bytes) \<Rightarrow> ingest_file list \<Rightarrow> string \<Rightarrow> int option \<Rightarrow> path_rows pg" where
  "pg_bulkIngest sha files sid expected =
     (if files = [] then return_ok []
      else
        and_then (of_sum (check_ingest_paths files)) (\<lambda>_.
        and_then (ingest_context sid expected) (\<lambda>root.
        and_then (ingest_levels sid (map (dirs_at files) (ingest_depths files)) \<lparr>is_dirs = [(''/'', root)], is_result = []\<rparr>) (\<lambda>st.
        and_then (of_sum (hash_files sha (is_dirs st) files)) (\<lambda>hs.
        and_then (\<lambda>tx. (existing_files tx hs, tx)) (\<lambda>existing.
        and_then (modify (\<lambda>tx. on_db (commitBatch (unique_blobs hs) (t_now tx)) tx)) (\<lambda>_.
        store_files sid hs existing (is_result st))))))))"

end
