(* ===== verification/BulkIngest.thy ===== *)
theory BulkIngest
  imports SqlFs PgIngest
begin

text \<open>
  Bulk ingest through a session: \<open>SqlFs.bulkIngest\<close> of \<open>sql-fs.ts\<close> and \<open>state/namespace/ingest.ts\<close>. It is refused
  inside a script scope; outside it is one fenced transaction whose entries are published together.
\<close>

section \<open>The transaction\<close>

text \<open>
  The blobs are committed on a connection of their own while the transaction is open, so they stay when it is
  rolled back; nothing else in the transaction touches the table of blobs.
\<close>

definition keeping_blobs :: "'a pg \<Rightarrow> 'a fs" where
  "keeping_blobs f = (\<lambda>s.
     case f (begin_tx (s_db s) (s_now s)) of
       (Inl e, tx) \<Rightarrow> (Inl e, s\<lparr>s_db := (s_db s)\<lparr>blobs := blobs (t_db tx)\<rparr>\<rparr>)
     | (Inr a, tx) \<Rightarrow> (Inr a, s\<lparr>s_db := t_db tx\<rparr>))"

text \<open>The body of \<open>#withWriteTx\<close>.\<close>

definition write_tx_body :: "session \<Rightarrow> 'a pg \<Rightarrow> (publication \<times> 'a) pg" where
  "write_tx_body s fn =
     and_then (setSandboxContextWithLock (s_sandbox s)) (\<lambda>_.
     and_then (getSandboxEpoch (s_sandbox s)) (\<lambda>epoch.
     and_then (throw_if (epoch \<noteq> v_epoch s) (ESTALE (s_sandbox s))) (\<lambda>_.
     and_then fn (\<lambda>value.
     and_then (getSandboxEpoch (s_sandbox s)) (\<lambda>observed.
     and_then (of_sum (lease_verdict s)) (\<lambda>_.
     return_ok (Committed observed, value)))))))"

lemma withWriteTx_body: "withWriteTx fn s = transaction (write_tx_body s fn) s"
  by (simp add: withWriteTx_def write_tx_body_def)

definition ingest_write :: "(replay_context \<Rightarrow> 'a pg) \<Rightarrow> (publication \<times> 'a) fs" where
  "ingest_write run = (\<lambda>s. keeping_blobs (write_tx_body s (run (replay_of (expectedEpoch s) (p_remap s)))) s)"

lemma keeping_blobs_cases:
  assumes "keeping_blobs f s = (res, s')"
  obtains a where "res = Inr a" and "transaction f s = (Inr a, s')"
  | e b where "res = Inl e" and "s' = s\<lparr>s_db := (s_db s)\<lparr>blobs := b\<rparr>\<rparr>"
  using assms by (auto simp: keeping_blobs_def transaction_def run_transaction_def split: prod.splits sum.splits)

section \<open>Namespace operation\<close>

definition ingest_contents :: "ingest_file list \<Rightarrow> session \<Rightarrow> path_rows \<Rightarrow> content_change list" where
  "ingest_contents files s entries =
     concat (map (\<lambda>(p, e).
       (case view_get s p of
          None \<Rightarrow> []
        | Some old \<Rightarrow> if pe_inode old \<noteq> pe_inode e then [Evict (pe_inode old)] else [])
       @ (case map_of (rev (map (\<lambda>f. (if_path f, if_content f)) files)) p of
            None \<Rightarrow> []
          | Some b \<Rightarrow> if b \<noteq> [] then [Put (pe_inode e) b] else [])) entries)"

definition bulkIngest_ns :: "ingest_file list \<Rightarrow> unit fs" where
  "bulkIngest_ns files =
     and_then (assertWritable ''/'' ''bulkIngest'') (\<lambda>_ s.
       if p_scope s then (Inl ENOTSUP, s)
       else
         and_then (ingest_write (\<lambda>rp. pg_bulkIngest (e_sha256 (s_env s)) files (s_sandbox s) (Some (r_expected rp)))) (\<lambda>(pub, entries) s.
           (Inr (), publishMutation pub (map (\<lambda>(p, e). SetPath p e) entries) (ingest_contents files s entries) True s)) s)"

section \<open>Facade\<close>

fun normalize_files :: "string list \<Rightarrow> ingest_file list \<Rightarrow> fs_error + ingest_file list" where
  "normalize_files seen [] = Inr []"
| "normalize_files seen (f # fs) =
     (case validatePath (if_path f) of
        Inl e \<Rightarrow> Inl e
      | Inr path \<Rightarrow>
          (case assertStoredPath path ''bulkIngest'' of
             Inl e \<Rightarrow> Inl e
           | Inr _ \<Rightarrow>
               if path \<in> set seen then Inl (EEXIST path)
               else
                 (case normalize_files (path # seen) fs of
                    Inl e \<Rightarrow> Inl e
                  | Inr gs \<Rightarrow> Inr (f\<lparr>if_path := path\<rparr> # gs))))"

definition fs_bulkIngest :: "ingest_file list \<Rightarrow> unit fs" where
  "fs_bulkIngest files =
     (if files = [] then return_ok ()
      else and_then (of_sum (normalize_files [] files)) bulkIngest_ns)"

end
