(* ===== verification/BulkIngestIso.thy ===== *)
theory BulkIngestIso
  imports TenantIsolation BulkIngest
begin

text \<open>Bulk ingest stays within its sandbox.\<close>

lemma iso_insert_inodes: "iso.keeps sid (insert_inodes rs)"
  by (induction rs) (simp_all only: insert_inodes.simps iso.keeps_intros iso_statements)

lemma iso_insert_dirents: "iso.keeps sid (insert_dirents es)"
  by (induction es rule: insert_dirents.induct) (simp_all only: insert_dirents.simps iso.keeps_intros iso_statements)

lemma iso_put_dirent:
  "get_dirent tx k = Some e \<Longrightarrow> d_sandbox e' = d_sandbox e \<Longrightarrow> isolated_tx sid tx (on_db (put_dirent k e') tx)"
  by (rule isolated_txI) (auto simp: on_db_def get_dirent_own intro!: isolated_put_dirent)

lemma iso_repoint: "iso.keeps sid (repoint_dirent v)"
  by (rule iso.keeps_fun) (auto simp: repoint_dirent_def iso.refl split: option.split intro: iso_put_dirent)

lemma iso_lower_nlink: "iso.keeps sid (lower_nlink v)"
  by (rule iso.keeps_fun) (auto simp: lower_nlink_def iso.refl split: option.split intro: iso_put_inode)

lemma iso_delete_unlinked: "iso.keeps sid (delete_unlinked i)"
  by (rule iso.keeps_fun) (auto simp: delete_unlinked_def iso.refl split: option.split intro: iso_del_inode)

lemma iso_ingest_context: "iso.keeps sid (ingest_context s expected)"
proof (rule iso.keeps_fun)
  fix tx
  show "isolated_tx sid tx (snd (ingest_context s expected tx))"
    using iso_fenceCtes [of Existing s expected tx _ _ sid]
    by (auto simp: ingest_context_def iso.refl split: option.split prod.split bool.split)
qed

lemma iso_create_dirs: "iso.keeps sid (create_dirs s cs st)"
  by (rule iso.keeps_fun)
    (auto simp: create_dirs_def iso.refl intro!: iso.keeps_and_then_app iso_insert_inodes iso_insert_dirents iso.keeps_and_then iso.keeps_pure(1)
       simp del: return_ok_def)

lemma iso_ingest_level: "iso.keeps sid (ingest_level s paths st)"
proof -
  have "iso.keeps sid (\<lambda>tx. and_then (of_sum (adopt_dirs tx cs dirs)) (k tx cs) tx)" if "\<And>tx cs d. iso.keeps sid (k tx cs d)" for cs dirs k
    by (rule iso.keeps_fun) (rule iso.keeps_and_then_app, rule iso.keeps_pure, rule that)
  from this [of "\<lambda>tx cs dirs. create_dirs s (filter (\<lambda>c. map_of dirs (dc_path c) = None) cs) (st\<lparr>is_dirs := dirs\<rparr>)"]
  show ?thesis unfolding ingest_level_def by (intro iso.keeps_and_then iso.keeps_pure) (simp add: iso_create_dirs)
qed

lemma iso_ingest_levels: "iso.keeps sid (ingest_levels s pss st)"
  by (induction pss arbitrary: st) (simp_all only: ingest_levels.simps iso.keeps_intros iso_ingest_level)

lemma iso_commitBatch: "iso.keeps sid (modify (\<lambda>tx. on_db (commitBatch rows (t_now tx)) tx))"
proof (rule iso.keeps_modify)
  fix tx :: pgtx
  obtain b where "commitBatch rows (t_now tx) (t_db tx) = (t_db tx)\<lparr>blobs := b\<rparr>" using commitBatch_blobs by blast
  then show "isolated_tx sid tx (on_db (commitBatch rows (t_now tx)) tx)"
    by (intro isolated_txI) (simp add: on_db_def isolated_cong)
qed

lemma iso_store_files: "iso.keeps sid (store_files s hs existing result)"
  unfolding store_files_def Let_def
  by (rule iso.keeps_fun, rule iso.keeps_and_then_app)
    (intro iso.keeps_and_then iso.keeps_pure iso.keeps_for_each iso_insert_inodes iso_insert_dirents iso_repoint iso_lower_nlink iso_delete_unlinked)+

lemma iso_bulkIngest: "iso.keeps sid (pg_bulkIngest sha files s expected)"
proof -
  have "iso.keeps sid (\<lambda>tx. (existing_files tx hs, tx))" for hs by (rule iso.keeps_fun) (simp add: iso.refl)
  then show ?thesis unfolding pg_bulkIngest_def
    by (intro iso.keeps_intros iso_ingest_context iso_ingest_levels iso_commitBatch iso_store_files)
qed

lemma siso_ingest_write: "(\<And>sid rp. iso.keeps sid (run rp)) \<Longrightarrow> siso.keeps (ingest_write run)"
proof (rule siso.keepsI)
  fix s r s' assume run: "\<And>sid rp. iso.keeps sid (run rp)" and eq: "ingest_write run s = (r, s')"
  let ?f = "run (replay_of (expectedEpoch s) (p_remap s))"
  from eq [unfolded ingest_write_def] show "s_isolated s s'"
  proof (cases rule: keeping_blobs_cases)
    case (1 a)
    then have "withWriteTx ?f s = (Inr a, s')" by (simp add: withWriteTx_body)
    then show ?thesis using siso.keepsD [OF siso_withWriteTx] run by blast
  next
    case (2 e b)
    have "isolated (s_sandbox s) (s_db s) ((s_db s)\<lparr>blobs := b\<rparr>)" by (rule isolated_cong) simp_all
    then show ?thesis using 2 siso_db by simp
  qed
qed

lemma siso_bulkIngest_ns: "siso.keeps (bulkIngest_ns files)"
  unfolding bulkIngest_ns_def
proof (rule siso.keeps_and_then [OF siso_asserts(1)], rule siso.keeps_fun)
  fix s
  have "siso.keeps (\<lambda>s. (Inr (), publishMutation pub ps (f s) complete s))" for pub ps f complete
    by (rule siso.keeps_fun) (simp add: siso_core)
  then have "s_isolated s (snd (and_then
       (ingest_write (\<lambda>rp. pg_bulkIngest (e_sha256 (s_env s)) files (s_sandbox s) (Some (r_expected rp)))) (\<lambda>(pub, entries) s.
         (Inr (), publishMutation pub (map (\<lambda>(p, e). SetPath p e) entries) (ingest_contents files s entries) True s)) s))"
    by (intro siso.keeps_and_then_app siso_ingest_write iso_bulkIngest siso.keeps_case_prod)
  then show "s_isolated s (snd (if p_scope s then (Inl ENOTSUP, s)
       else
         and_then (ingest_write (\<lambda>rp. pg_bulkIngest (e_sha256 (s_env s)) files (s_sandbox s) (Some (r_expected rp)))) (\<lambda>(pub, entries) s.
           (Inr (), publishMutation pub (map (\<lambda>(p, e). SetPath p e) entries) (ingest_contents files s entries) True s)) s))"
    by (simp add: siso.refl)
qed

lemma siso_bulkIngest: "siso.keeps (fs_bulkIngest files)"
  unfolding fs_bulkIngest_def by (intro siso.keeps_intros siso_bulkIngest_ns)

end
