(* ===== verification/Calls.thy ===== *)
theory Calls
  imports BulkIngestIso Lifecycle
begin

text \<open>
  One value per call of the file-system interface a script or the service can make on a session, and
  histories of calls. Results are dropped: what counts here is the state each call leaves, whether it
  returned or threw.
\<close>

datatype fs_call =
    WriteFile string bytes
  | AppendFile string bytes
  | Mkdir string bool
  | Rm string bool bool
  | Cp string string bool
  | Mv string string
  | Chmod string int
  | Utimes string int
  | Symlink string string
  | Link string string
  | CreateExclusive string bool int
  | ReadFile string
  | Stat string
  | Realpath string
  | EnsureFresh
  | BeginScope
  | EndScope
  | AbortScope
  | ClaimGeneration
  | Ingest "ingest_file list"

fun run_call :: "fs_call \<Rightarrow> session \<Rightarrow> session" where
  "run_call (WriteFile p b) s = snd (fs_writeFile p b s)"
| "run_call (AppendFile p b) s = snd (fs_appendFile p b s)"
| "run_call (Mkdir p r) s = snd (fs_mkdir p r s)"
| "run_call (Rm p r f) s = snd (fs_rm p r f s)"
| "run_call (Cp a b r) s = snd (fs_cp a b r s)"
| "run_call (Mv a b) s = snd (fs_mv a b s)"
| "run_call (Chmod p m) s = snd (fs_chmod p m s)"
| "run_call (Utimes p t) s = snd (fs_utimes p t s)"
| "run_call (Symlink t p) s = snd (fs_symlink t p s)"
| "run_call (Link a b) s = snd (fs_link a b s)"
| "run_call (CreateExclusive p d m) s = snd (fs_createExclusive p d m s)"
| "run_call (ReadFile p) s = snd (readFileBuffer p s)"
| "run_call (Stat p) s = snd (fs_stat_op p s)"
| "run_call (Realpath p) s = snd (fs_realpath p s)"
| "run_call EnsureFresh s = snd (ensureFresh s)"
| "run_call BeginScope s = snd (beginScriptScope s)"
| "run_call EndScope s = snd (endScriptScope s)"
| "run_call AbortScope s = snd (abortScriptScope s)"
| "run_call ClaimGeneration s = snd (fs_claimGeneration s)"
| "run_call (Ingest files) s = snd (fs_bulkIngest files s)"

abbreviation run_calls :: "fs_call list \<Rightarrow> session \<Rightarrow> session" where
  "run_calls cs s \<equiv> fold run_call cs s"

lemma run_call_isolated: "s_isolated s (run_call c s)"
  using siso_writes siso_reads siso_reload(2) siso_scope_begin siso_endScriptScope siso_abortScriptScope siso_claimGeneration siso_bulkIngest
  by (cases c) (auto simp: beginScriptScope_def intro: siso.keeps_app)

lemma run_calls_isolated: "s_isolated s (run_calls cs s)"
  by (induction cs arbitrary: s) (auto intro: siso.refl siso.trans [OF run_call_isolated])

text \<open>A fresh session on a database, with an empty cache until its first load.\<close>

definition new_env :: "(bytes \<Rightarrow> bytes) \<Rightarrow> bool \<Rightarrow> env" where
  "new_env sha composites = \<lparr>e_sha256 = sha, e_lru_set = AList.update, e_redis = (\<lambda>_. None), e_composites = composites\<rparr>"

definition new_session :: "env \<Rightarrow> string \<Rightarrow> db \<Rightarrow> int \<Rightarrow> session" where
  "new_session env sid d now =
     \<lparr>s_db = d, s_now = now, s_env = env, s_sandbox = sid, v_epoch = 0, v_cache = [], v_dirty = False,
      v_poisoned = False, v_bytes = 0, c_cache = [], c_generation = 0, p_max_ops = 50000, p_max_bytes = 33554432,
      p_scope = False, p_scope_gen = 0, p_script_epoch = None, p_lost = None, p_journal = [], p_journal_bytes = 0,
      p_remap = [], p_next_id = -1, f_readonly = 0, f_allow_symlinks = True, f_guard = None, f_owner_lost = False,
      f_exec = None, f_ro_violated = None\<rparr>"

text \<open>A database with two freshly created sandboxes.\<close>

definition two_tenants :: db where
  "two_tenants = seeded ''b'' ''bob'' 0 (seeded ''a'' ''ann'' 0 empty_db)"

lemma wf_two_tenants: "wf_db two_tenants"
proof -
  have a: "wf_db (seeded ''a'' ''ann'' 0 empty_db)"
    by (rule wf_seeded [OF wf_empty_db]) (simp add: empty_db_def)
  have "map_of (sandboxes (seeded ''a'' ''ann'' 0 empty_db)) ''b'' = None"
    by (simp add: seeded_def Let_def put_sandbox_def put_inode_def empty_db_def)
  then show ?thesis unfolding two_tenants_def by (rule wf_seeded [OF a])
qed

end
