(* ===== verification/SessionFrame.thy ===== *)
theory SessionFrame
  imports CopyTreeSim Calls
begin

text \<open>
  Steps of a session that leave its view, its journal and the tables of the file tree alone: guards,
  reads, commits of file content. They stay in \<open>sync_step\<close>, and a mutation after them is judged in the
  cache the call started with.
\<close>

section \<open>Light steps\<close>

definition light :: "session \<Rightarrow> session \<Rightarrow> bool" where
  "light s s' \<longleftrightarrow> s_sandbox s' = s_sandbox s \<and> s_env s' = s_env s \<and> v_cache s' = v_cache s \<and> v_epoch s' = v_epoch s
     \<and> p_scope s' = p_scope s \<and> p_journal s' = p_journal s \<and> p_next_id s' = p_next_id s \<and> p_remap s' = p_remap s
     \<and> p_script_epoch s' = p_script_epoch s \<and> (s_db s')\<lparr>blobs := blobs (s_db s)\<rparr> = s_db s"

lemma light_db: "light s s' \<Longrightarrow> s_db s' = (s_db s)\<lparr>blobs := blobs (s_db s')\<rparr>"
  by (cases "s_db s"; cases "s_db s'") (simp add: light_def)

lemma light_cache: "light s s' \<Longrightarrow> v_cache s' = v_cache s"
  by (simp add: light_def)

interpretation light: state_preorder light
proof
  show "light s s" for s by (simp add: light_def)
  show "light s u" if "light s t" "light t u" for s t u
    using that by (cases "s_db s"; cases "s_db t"; cases "s_db u") (simp add: light_def)
qed

lemma blobs_frame [simp]:
  "node (d\<lparr>blobs := b\<rparr>) = node d" "child (d\<lparr>blobs := b\<rparr>) = child d" "root_of (d\<lparr>blobs := b\<rparr>) = root_of d"
  "version_of (d\<lparr>blobs := b\<rparr>) = version_of d" "epoch_ceiling sid (d\<lparr>blobs := b\<rparr>) = epoch_ceiling sid d"
  by (simp_all add: fun_eq_iff epoch_ceiling_def node_def child_def root_of_def version_of_def split: option.splits)

lemma db_lookup_blobs [simp]: "db_lookup (d\<lparr>blobs := b\<rparr>) r = db_lookup d r"
  by (simp add: db_lookup_def fun_eq_iff split: option.splits)

lemma wf_blobs [simp]: "wf_db (d\<lparr>blobs := b\<rparr>) = wf_db d"
proof -
  have "wf_db (d\<lparr>blobs := b\<rparr>)" if "wf_db d" for d :: db and b
    by (rule wf_ext [OF that]) (use that in \<open>simp_all add: wf_off_def wf_keys_def\<close>)
  from this [of "d\<lparr>blobs := b\<rparr>" "blobs d"] this [of d b] show ?thesis by auto
qed

lemma light_sync: assumes "light s s'" shows "sync_step s s'"
proof -
  have d: "s_db s' = (s_db s)\<lparr>blobs := blobs (s_db s')\<rparr>" by (rule light_db [OF assms])
  have "sound_db sid (s_db s') = sound_db sid (s_db s)" "later sid (s_db s) (s_db s')" for sid
    by (subst d, simp add: sound_db_def later_def)+
  moreover have "current s' = current s" "snapshot sid c (s_db s') = snapshot sid c (s_db s)" for sid c
    using assms d by (metis blobs_frame(4) current_def light_def, metis d blobs_frame(3) db_lookup_blobs snapshot_def)
  moreover have "epoch_ceiling sid (s_db s') = epoch_ceiling sid (s_db s)" for sid by (subst d) simp
  ultimately show ?thesis using assms unfolding sync_step_def sess_inv_def view_ok_def light_def by simp
qed

lemma light_keeps_sync: "light.keeps m \<Longrightarrow> sync.keeps m"
  by (auto simp: light.keeps_def sync.keeps_def intro: light_sync)

section \<open>Light computations\<close>

lemma light_fields:
  "light s (s\<lparr>f_ro_violated := a\<rparr>)" "light s (s\<lparr>f_exec := x\<rparr>)" "light s (s\<lparr>c_cache := cc\<rparr>)" "light s (s\<lparr>v_dirty := b\<rparr>)"
  "light s (s\<lparr>v_poisoned := b\<rparr>)" "light s (s\<lparr>f_readonly := n\<rparr>)" "light s (s\<lparr>s_db := s_db s\<rparr>)"
  "light s (s\<lparr>p_lost := l\<rparr>)"
  by (simp_all add: light_def)

lemma light_guards:
  "light.keeps assertAlive" "light.keeps (assertWritable path op)" "light.keeps (consumeExecInput n src)"
  "light.keeps (assertExecFileSize path n rd)" "light.keeps (assertReservation stamp)" "light.keeps (assertSymlink t path)"
  by (rule light.keepsI;
      auto simp: assertAlive_def assertWritable_def consumeExecInput_def assertExecFileSize_def assertReservation_def
        assertGeneration_def assertSymlink_def and_then_def Let_def light_fields light.refl
        split: if_splits option.splits sum.splits prod.splits)+

lemma light_commit_content: "light.keeps (commit_content sha b)"
proof -
  have "light s (s\<lparr>s_db := commitBlob sha b (s_now s) (s_db s)\<rparr>)" for s
    by (cases "s_db s") (auto simp: light_def commitBlob_def touch_blob_def split: option.splits)
  then show ?thesis by (auto simp: commit_content_def intro!: light.keeps_intros light.keeps_modify)
qed

text \<open>Transactions that only read.\<close>

interpretation rd: state_preorder "\<lambda>tx tx' :: pgtx. t_db tx' = t_db tx"
  by unfold_locales auto

lemma rd_statements:
  "rd.keeps (setSandboxContext sid)" "rd.keeps (setSandboxContextWithLock sid)" "rd.keeps (getSandboxEpoch sid)"
  "rd.keeps (getBlob env sha)" "rd.keeps (pg_resolvePath path follow)"
  by (rule rd.keepsI; auto simp: setSandboxContext_def setSandboxContextWithLock_def getSandboxEpoch_def getBlob_def
      pg_resolvePath_def and_then_def split: option.splits sum.splits)+

lemma light_transaction: assumes "rd.keeps f" shows "light.keeps (transaction f)"
proof (rule light.keepsI)
  fix s r s' assume run: "transaction f s = (r, s')"
  obtain a tx where f: "f (begin_tx (s_db s) (s_now s)) = (a, tx)" by force
  have "t_db tx = s_db s" using rd.keepsD [OF assms f] by (simp add: begin_tx_def)
  then have "s' = s" using run f by (auto simp: transaction_def run_transaction_def split: sum.splits)
  then show "light s s'" by (simp add: light.refl)
qed

lemma light_reads:
  assumes "rd.keeps f"
  shows "light.keeps (readSnapshot f)" "light.keeps (persist_read f)" "light.keeps (readForAppend f)"
proof -
  have ctx: "light.keeps (transaction (and_then c (\<lambda>_. f)))" if "rd.keeps c" for c :: "unit pg"
    by (rule light_transaction) (intro rd.keeps_and_then that assms)
  show "light.keeps (readSnapshot f)" unfolding readSnapshot_def by (rule light.keeps_state, rule ctx, rule rd_statements)
  show p: "light.keeps (persist_read f)" unfolding persist_read_def
    by (rule light.keeps_and_then [OF light_guards(1)], rule light.keeps_state, rule ctx, rule rd_statements)
  show "light.keeps (readForAppend f)"
    unfolding readForAppend_def
    by (rule light.keeps_fun) (simp add: light.keeps_app [OF p] light.keeps_app [OF ctx [OF rd_statements(2)]])
qed

lemma light_append_base: "light.keeps (append_base path existing b)"
  unfolding append_base_def
  by (intro light.keeps_intros light_guards light_reads rd_statements)

lemma light_contents_put: "light s (contents_put i b s)"
  by (simp add: contents_put_def light_fields)

lemma light_readBytes: "light.keeps (readBytes path e)"
proof -
  have "light.keeps (contents_read path e)"
  proof (rule light.keepsI)
    fix s r s' assume run: "contents_read path e s = (r, s')"
    have tr: "light s s1" if "transaction (getBlob env sha) s = (x, s1)" for env sha x s1
      using light.keepsD [OF light_transaction [OF rd_statements(4)] that] .
    show "light s s'"
      using run tr by (fastforce simp: contents_read_def and_then_def light.refl Let_def
          intro: light.trans [OF _ light_contents_put] split: option.splits prod.splits sum.splits if_splits)
  qed
  then show ?thesis unfolding readBytes_def by (intro light.keeps_intros light_guards)
qed

lemma light_entry_reads: "light.keeps (resolveReadEntry path)" "light.keeps (fs_realpath path)"
proof -
  have pr: "light.keeps (and_then (persist_read (pg_resolvePath p True)) (\<lambda>i s. case f s i of None \<Rightarrow> (Inl x, s) | Some e \<Rightarrow> (Inr (g e), s)))"
    for p f g and x :: fs_error
    by (intro light.keeps_and_then light_reads rd_statements light.keeps_fun) (auto simp: light.refl split: option.splits)
  show "light.keeps (resolveReadEntry path)"
    unfolding resolveReadEntry_def
    by (rule light.keeps_fun) (auto simp: Let_def light.refl light.keeps_app [OF pr] split: option.splits sum.splits prod.splits)
  have "light.keeps (\<lambda>s. (let from_dialect =
         and_then (persist_read (pg_resolvePath path True)) (\<lambda>i s.
           case path_with_inode s i of None \<Rightarrow> (Inl (ENOENT path), s) | Some p \<Rightarrow> (Inr p, s))
       in if path = DEV_NULL then (Inr path, s)
          else
            (case resolveCached s path of
               Inr (p, None) \<Rightarrow> (Inr p, s)
             | Inr (p, Some _) \<Rightarrow> if p_scope s then (Inr p, s) else from_dialect s
             | Inl err \<Rightarrow>
                 if p_scope s \<or> error_code err \<noteq> Some ''ENOENT'' then (Inl err, s) else from_dialect s)))" for path
    by (rule light.keeps_fun)
      (auto simp: Let_def light.refl light.keeps_app [OF pr] split: option.splits sum.splits prod.splits)
  then show "light.keeps (fs_realpath path)"
    unfolding fs_realpath_def by (intro light.keeps_and_then light_guards light.keeps_pure)
qed

lemma light_reads_fs: "light.keeps (readFileBuffer path)" "light.keeps (fs_stat_op path)"
proof -
  show "light.keeps (readFileBuffer path)"
    unfolding readFileBuffer_def readBytes_fs_def
    by (intro light.keeps_intros light_guards light_entry_reads light_readBytes)
  show "light.keeps (fs_stat_op path)"
    unfolding fs_stat_op_def by (intro light.keeps_intros light_guards light_entry_reads)
qed

section \<open>Composition\<close>

text \<open>A call is judged by symbolic execution: \<open>syncs m s\<close> says the call stays in \<open>sync_step\<close> from \<open>s\<close>.\<close>

definition syncs :: "'a fs \<Rightarrow> session \<Rightarrow> bool" where
  "syncs m s \<longleftrightarrow> sync_step s (snd (m s))"

lemma syncs_keeps: "sync.keeps m \<longleftrightarrow> (\<forall>s. syncs m s)"
  by (simp add: sync.keeps_def syncs_def)

lemma syncs_pure: "syncs (return_ok a) s" "syncs (throw e) s" "syncs (of_sum x) s"
  by (simp_all add: syncs_def sync.refl)

lemma syncs_gets: "syncs (k (f s)) s \<Longrightarrow> syncs (and_then (gets f) k) s"
  by (simp add: syncs_def)

lemma syncs_guard: "(\<not> b \<Longrightarrow> syncs (k ()) s) \<Longrightarrow> syncs (and_then (throw_if b e) k) s"
  by (simp add: syncs_def sync.refl)

lemma syncs_of_sum: "(\<And>a. x = Inr a \<Longrightarrow> syncs (k a) s) \<Longrightarrow> syncs (and_then (of_sum x) k) s"
  by (cases x) (simp_all add: syncs_def sync.refl)

lemma syncs_light: assumes "light.keeps m" and "\<And>a s'. light s s' \<Longrightarrow> syncs (k a) s'" shows "syncs (and_then m k) s"
proof (cases "m s")
  case (Pair r s')
  have l: "light s s'" by (rule light.keepsD [OF assms(1) Pair])
  show ?thesis
  proof (cases r)
    case (Inl e)
    then show ?thesis using l Pair by (simp add: syncs_def and_then_def light_sync)
  next
    case (Inr a)
    then show ?thesis
      using sync.trans [OF light_sync [OF l]] assms(2) [OF l] Pair by (simp add: syncs_def and_then_def)
  qed
qed

lemma syncs_then: assumes "syncs m s" and "\<And>a s'. m s = (Inr a, s') \<Longrightarrow> syncs (k a) s'" shows "syncs (and_then m k) s"
proof (cases "m s")
  case (Pair r s')
  then show ?thesis using assms sync.trans [of s s'] by (cases r) (auto simp: syncs_def and_then_def)
qed

lemma syncs_if: "(b \<Longrightarrow> syncs m s) \<Longrightarrow> (\<not> b \<Longrightarrow> syncs n s) \<Longrightarrow> syncs (if b then m else n) s"
  by simp

lemmas syncs_steps = syncs_pure syncs_gets syncs_guard syncs_of_sum
  light_guards [THEN syncs_light] light_commit_content [THEN syncs_light] light_append_base [THEN syncs_light]

end
