(* ===== verification/SessionOps.thy ===== *)
theory SessionOps
  imports SessionFrame
begin

text \<open>
  Every namespace operation keeps the session invariant: the statements it sends (or records) do to the
  tables what it does to the cache, or they fail and nothing is published.
\<close>

section \<open>Publishable paths\<close>

lemma set_join_with: "set (join_with c ss) \<subseteq> insert c (\<Union> (set ` set ss))"
  by (induction c ss rule: join_with.induct) auto

lemma set_push_parts: "set (push_parts stack ps) \<subseteq> set stack \<union> set ps"
  by (induction stack ps rule: push_parts.induct) (auto dest: in_set_butlastD)

lemma normalize_chars: "set (normalizeFsPath p) \<subseteq> insert slash (set p)"
proof (cases "p = [] \<or> p = ''/''")
  case False
  let ?s = "if prefix ''/'' p then p else slash # p"
  let ?parts = "filter (\<lambda>seg. seg \<noteq> [] \<and> seg \<noteq> ''.'') (split_on slash ?s)"
  have "set seg \<subseteq> insert slash (set p)" if "seg \<in> set (push_parts [] ?parts)" for seg
  proof -
    have "seg \<in> set (split_on slash ?s)" using set_push_parts [of "[]" ?parts] that by auto
    then have "set seg \<subseteq> set ?s" by (rule split_on_chars)
    then show ?thesis by (auto split: if_splits)
  qed
  then have "\<Union> (set ` set (push_parts [] ?parts)) \<subseteq> insert slash (set p)" by blast
  then have "set (join_with slash (push_parts [] ?parts)) \<subseteq> insert slash (set p)"
    using set_join_with [of slash "push_parts [] ?parts"] by blast
  moreover have "normalizeFsPath p = slash # join_with slash (push_parts [] ?parts)"
    using False by (simp only: normalizeFsPath_def Let_def if_False)
  ultimately show ?thesis by simp
qed (auto simp: normalizeFsPath_def)

lemma validated_ok: assumes "validatePath p = Inr q" and "q \<noteq> DEV_NULL" shows "ok_path q"
proof -
  have q: "q = normalizeFsPath p" and nul: "nul \<notin> set p" and dev: "\<not> prefix (DEV_NULL @ ''/'') q"
    using assms(1) by (auto simp: validatePath_def Let_def split: if_splits)
  have "nul \<notin> set q" using normalize_chars [of p] nul unfolding q by auto
  moreover obtain segs where "valid_names segs" "q = path_of segs" using normalizeFsPath_segments [of p] q by blast
  then have "normalizeFsPath q = q" using normalizeFsPath_path_of by simp
  ultimately show ?thesis using assms(2) dev by (simp add: ok_path_def validatePath_def)
qed

lemma ok_pathE:
  assumes "ok_path p" obtains segs where "valid_names segs" and "p = path_of segs"
  using normal_pathE [OF ok_path_normal [OF assms]] .

lemma ok_path_iff:
  assumes "valid_names segs"
  shows "ok_path (path_of segs) \<longleftrightarrow> nul \<notin> set (path_of segs) \<and> \<not> prefix (DEV_NULL @ ''/'') (path_of segs) \<and> path_of segs \<noteq> DEV_NULL"
  using normalizeFsPath_path_of [OF assms] by (auto simp: ok_path_def validatePath_def)

lemma path_of_extend: "\<exists>zs. path_of (xs @ ys) = path_of xs @ zs \<and> (ys \<noteq> [] \<longrightarrow> xs \<noteq> [] \<longrightarrow> (\<exists>us. zs = slash # us))"
proof (cases "ys = []")
  case False
  then show ?thesis by (cases "xs = []") (auto simp: path_of_def join_append)
qed simp

text \<open>Ancestors of a publishable path are publishable: the device is never a proper ancestor.\<close>

lemma ok_path_ancestor:
  assumes "ok_path (path_of (xs @ ys))" and "valid_names (xs @ ys)" shows "ok_path (path_of xs)"
proof (cases "ys = [] \<or> xs = []")
  case True
  have "ok_path (path_of [])" by (simp add: ok_path_def validatePath_def normalizeFsPath_def DEV_NULL_def)
  then show ?thesis using True assms(1) by auto
next
  case False
  then obtain us where us: "path_of (xs @ ys) = path_of xs @ slash # us" using path_of_extend [of xs ys] by auto
  have ok: "nul \<notin> set (path_of (xs @ ys))" "\<not> prefix (DEV_NULL @ ''/'') (path_of (xs @ ys))"
    using assms ok_path_iff [OF assms(2)] by blast+
  have "\<not> prefix (DEV_NULL @ ''/'') (path_of xs)" using ok(2) unfolding us by (metis prefix_prefix)
  moreover have "path_of xs \<noteq> DEV_NULL" using ok(2) unfolding us by auto
  ultimately show ?thesis using ok(1) assms(2) ok_path_iff [of xs] unfolding us by simp
qed

lemma requireParentD:
  assumes "requireParent path s = Inr (name, parent)"
  shows "map_of (v_cache s) (parentOf path) = Some parent" and "pe_kind parent = DIRECTORY" and "name = nameOf path"
  using assms by (auto simp: requireParent_def view_get_def split: option.splits if_splits)

lemma parent_segs:
  assumes "ok_path path" and "path \<noteq> ''/''" and "requireParent path s = Inr (name, parent)"
  obtains ps where "valid_names (ps @ [name])" and "path = path_of (ps @ [name])"
    and "map_of (v_cache s) (path_of ps) = Some parent" and "pe_kind parent = DIRECTORY"
proof -
  obtain segs where segs: "valid_names segs" "path = path_of segs" using assms(1) by (rule ok_pathE)
  then have "segs \<noteq> []" using assms(2) by auto
  then obtain ps n where ps: "segs = ps @ [n]" by (cases segs rule: rev_cases) auto
  show ?thesis
    using that [of ps] requireParentD [OF assms(3)] segs ps by simp
qed

lemma light_requireParent: "light s s' \<Longrightarrow> requireParent p s' = requireParent p s" "light s s' \<Longrightarrow> view_get s' p = view_get s p"
  by (simp_all add: requireParent_def view_get_def light_def)

section \<open>Publications\<close>

text \<open>A new entry at one path, its inode minted by the mutation.\<close>

lemma mutation_ok_new:
  assumes "faithful sid (o_run op) 1 c (\<lambda>ids. AList.update path (y (hd ids)) c)" and "o_mints op = 1"
    and "\<And>i. pe_inode (y i) = i" and "ok_path path" and "ok_keys c"
    and "\<And>k. o_supersedes op = Some k \<Longrightarrow> writes_slot sid (o_run op) c (\<lambda>ids. AList.update path (y (hd ids)) c) k"
  shows "mutation_ok sid op c (\<lambda>ids. AList.update path (y (hd ids)) c)"
proof -
  have "inos (AList.update path (y (hd ids)) c) \<subseteq> inos c \<union> set ids" if "length ids = 1" for ids
    using inos_update [of path "y (hd ids)" c] assms(3) that by (cases ids) auto
  then show ?thesis using assms by (simp add: mutation_ok_def ok_keys_update)
qed

lemma syncs_new:
  assumes ok: "sess_inv s \<Longrightarrow> mutation_ok (s_sandbox s) (op\<lparr>o_mints := 1\<rparr>) (v_cache s) (\<lambda>ids. AList.update path (y (hd ids)) (v_cache s))"
    and k: "\<And>pub i s'. v_cache s' = v_cache s \<Longrightarrow> \<exists>cs b. k (pub, i) s' = (Inr (), publishMutation pub [SetPath path (y i)] cs b s')"
  shows "syncs (and_then (mutateOne op) k) s"
proof -
  have "and_then (mutateOne op) k = and_then (mutate (op\<lparr>o_mints := 1\<rparr>)) (\<lambda>(p, ids). k (p, hd ids))"
    by (simp add: mutateOne_def and_then_assoc case_prod_unfold)
  moreover have "sync_step s (snd (and_then (mutate (op\<lparr>o_mints := 1\<rparr>)) (\<lambda>(p, ids). k (p, hd ids)) s))"
    by (rule publish_step [OF ok, where paths = "\<lambda>ids. [SetPath path (y (hd ids))]"]) (auto simp: publishes_def k)
  ultimately show ?thesis by (simp add: syncs_def)
qed

text \<open>A change of the cache with no new inode.\<close>

lemma mutation_ok_plain:
  assumes "faithful sid (o_run op) 0 c (\<lambda>_. c')" and "o_mints op = 0" and "o_supersedes op = None"
    and "ok_keys c'" and "inos c' \<subseteq> inos c"
  shows "mutation_ok sid op c (\<lambda>_. c')"
  using assms by (simp add: mutation_ok_def)

lemma syncs_plain:
  assumes ok: "sess_inv s \<Longrightarrow> mutation_ok (s_sandbox s) op (v_cache s) (\<lambda>_. c')" and c': "fold cache_change paths (v_cache s) = c'"
    and k: "\<And>pub ids s'. v_cache s' = v_cache s \<Longrightarrow> \<exists>cs b. k (pub, ids) s' = (Inr (), publishMutation pub paths cs b s')"
  shows "syncs (and_then (mutate op) k) s"
  unfolding syncs_def by (rule publish_step [OF ok, where paths = "\<lambda>_. paths"]) (use c' in \<open>auto simp: publishes_def k\<close>)

lemma inv_keys: "sess_inv s \<Longrightarrow> ok_keys (v_cache s)" "sess_inv s \<Longrightarrow> distinct (map fst (v_cache s))" "sess_inv s \<Longrightarrow> normal_keys (v_cache s)"
  by (simp_all add: sess_inv_def ok_keys_normal)

section \<open>Writes of one file\<close>

lemma put_ok:
  assumes "ok_path path" and par: "requireParent path s = Inr (name, parent)"
    and leaf: "map_option pe_kind (view_get s path) \<noteq> Some DIRECTORY" and keys: "ok_keys (v_cache s)"
  shows "mutation_ok sid ((putFileOp sid composites kind (pe_inode parent) name mode sz sha)\<lparr>o_mints := 1\<rparr>) (v_cache s)
    (\<lambda>ids. AList.update path (file_entry (hd ids) mode sz mtime sha) (v_cache s))"
proof -
  let ?op = "putFileOp sid composites kind (pe_inode parent) name mode sz sha" and ?c = "v_cache s"
  have "path \<noteq> ''/''" using requireParentD [OF par] leaf by (auto simp: view_get_def)
  then obtain ps where ps: "valid_names (ps @ [name])" "path = path_of (ps @ [name])" "map_of ?c (path_of ps) = Some parent" "pe_kind parent = DIRECTORY"
    using parent_segs [OF assms(1) _ par] by metis
  have free: "map_of ?c path = None \<or> (\<exists>x. map_of ?c path = Some x \<and> pe_kind x \<noteq> DIRECTORY)"
    using leaf by (cases "map_of ?c path") (auto simp: view_get_def)
  have put: "faithful sid (o_run ?op) 1 c' (\<lambda>ids. AList.update path (file_entry (hd ids) mode sz mtime sha) c')"
    if slot: "slot_at c' (pe_inode parent, name) ps" for c'
  proof -
    obtain pe where pe: "map_of c' (path_of ps) = Some pe" "pe_kind pe = DIRECTORY" "pe_inode pe = pe_inode parent"
      and lf: "map_of c' (path_of (ps @ [name])) = None \<or> (\<exists>x. map_of c' (path_of (ps @ [name])) = Some x \<and> pe_kind x \<noteq> DIRECTORY)"
      using slot by (auto simp: slot_at_def)
    show ?thesis
      using sim_putFileOp [OF ps(1) pe(1,2) lf, of sid composites kind mode sz sha mtime] advancing_putFileOp pe(3) ps(2)
      by (simp add: faithful_def)
  qed
  have slot: "slot_at ?c (pe_inode parent, name) ps" using ps free by (simp add: slot_at_def)
  have "writes_slot sid (o_run ?op) ?c (\<lambda>ids. AList.update path (file_entry (hd ids) mode sz mtime sha) ?c) (pe_inode parent, name)"
    unfolding writes_slot_def
    by (intro exI [of _ ps] exI [of _ "\<lambda>ids. file_entry (hd ids) mode sz mtime sha"]) (use slot put ps(2) in \<open>simp add: file_entry_def\<close>)
  moreover have "o_supersedes ?op = Some (pe_inode parent, name)" by (simp add: putFileOp_def)
  ultimately show ?thesis
    using put [OF slot] keys assms(1) by (intro mutation_ok_new) (simp_all add: file_entry_def)
qed

lemma syncs_put:
  assumes "ok_path path" and "requireParent path s = Inr (name, parent)" and "map_option pe_kind (view_get s path) \<noteq> Some DIRECTORY"
    and "\<And>pub i s'. v_cache s' = v_cache s \<Longrightarrow>
      \<exists>cs b. k (pub, i) s' = (Inr (), publishMutation pub [SetPath path (file_entry i mode sz mtime sha)] cs b s')"
  shows "syncs (and_then (mutateOne (putFileOp (s_sandbox s) composites kind (pe_inode parent) name mode sz sha)) k) s"
  by (rule syncs_new [OF put_ok [OF assms(1,2,3) inv_keys(1)] assms(4)])

lemma light_chain: "light s s' \<Longrightarrow> light s' s'' \<Longrightarrow> light s s''"
  by (rule light.trans)

lemma sync_writeFile:
  assumes "ok_path path" shows "sync.keeps (writeFile_ns path b createMode)"
  unfolding syncs_keeps writeFile_ns_def Let_def
  apply (intro allI syncs_steps)
  apply (simp only: split_paired_all prod.case)
  apply (intro syncs_steps)
  apply (rule syncs_put [OF assms])
    prefer 3
    apply (simp only: prod.case and_then_basic modify_app, intro exI, rule refl)
   apply (simp_all add: light_requireParent)
  done

lemma sync_appendFile:
  assumes "ok_path path" shows "sync.keeps (appendFile_ns path b)"
  unfolding syncs_keeps appendFile_ns_def Let_def
  apply (intro allI syncs_steps syncs_if)
  apply (simp only: split_paired_all prod.case)
  apply (intro syncs_steps)
  apply (rule syncs_put [OF assms])
    prefer 3
    apply (simp only: prod.case and_then_basic modify_app, intro exI, rule refl)
   apply (simp_all add: light_requireParent)
  done

section \<open>mkdir\<close>

lemma dir_new_ok:
  assumes q: "valid_names (ps @ [n])" "ok_path (path_of (ps @ [n]))" and p: "map_of c (path_of ps) = Some parent" "pe_kind parent = DIRECTORY"
    and free: "map_of c (path_of (ps @ [n])) = None" and keys: "ok_keys c"
    and op: "op = mkdir_p_spec sid (pe_inode parent) n mode \<or> op = mkdir_spec sid composites (pe_inode parent) n mode"
  shows "mutation_ok sid (op\<lparr>o_mints := 1\<rparr>) c (\<lambda>ids. AList.update (path_of (ps @ [n])) (dir_entry (hd ids) mode mtime) c)"
proof -
  have "faithful sid (o_run op) 1 c (\<lambda>ids. AList.update (path_of (ps @ [n])) (dir_entry (hd ids) mode mtime) c)"
    using op sim_create_dir_run [OF q(1) p free] sim_mkdir_spec [OF q(1) p free] advancing_create_dir_run advancing_mkdir_spec
    by (auto simp: faithful_def mkdir_p_spec_def)
  moreover have "o_supersedes op = None" using op by (auto simp: mkdir_p_spec_def mkdir_spec_def)
  ultimately show ?thesis using q(2) keys by (intro mutation_ok_new) (simp_all add: dir_entry_def)
qed

lemma sync_mkdir_segments:
  assumes "valid_names (cur @ segs)" and "ok_path (path_of (cur @ segs))"
  shows "syncs (mkdir_segments mode mtime (path_of cur) created segs) s"
  using assms
proof (induction segs arbitrary: cur created s)
  case Nil
  show ?case unfolding mkdir_segments.simps by (rule syncs_pure)
next
  case (Cons n segs cur created s)
  let ?nxt = "path_of (cur @ [n])"
  have v: "valid_names cur" "valid_names (cur @ [n])" and nxt: "child_path (path_of cur) n = ?nxt" using Cons.prems(1) by (simp_all add: child_path_of)
  have ok: "ok_path ?nxt" using ok_path_ancestor [of "cur @ [n]" segs] Cons.prems by simp
  have IH: "syncs (mkdir_segments mode mtime ?nxt cr segs) s'" for cr s' using Cons.IH [of "cur @ [n]"] Cons.prems by simp
  consider "view_has s ?nxt" | "\<not> view_has s ?nxt" "\<forall>p. view_get s (path_of cur) = Some p \<longrightarrow> pe_kind p \<noteq> DIRECTORY"
    | parent where "\<not> view_has s ?nxt" "view_get s (path_of cur) = Some parent" "pe_kind parent = DIRECTORY" by blast
  then show ?case
  proof cases
    case 1
    then show ?thesis using IH [of created s] by (simp add: syncs_def nxt Let_def)
  next
    case 2
    then show ?thesis by (auto simp: syncs_def nxt Let_def sync.refl split: option.splits)
  next
    case (3 parent)
    let ?m = "and_then (mutateOne (mkdir_p_spec (s_sandbox s) (pe_inode parent) n mode)) (\<lambda>(pub, i).
      modify (publishMutation pub [SetPath ?nxt (dir_entry i mode mtime)] [] False))"
    have run: "mkdir_segments mode mtime (path_of cur) created (n # segs) s = and_then ?m (\<lambda>_. mkdir_segments mode mtime ?nxt True segs) s"
      using 3 by (simp add: nxt Let_def and_then_assoc case_prod_unfold)
    have "syncs ?m s"
      by (rule syncs_new [OF dir_new_ok [OF v(2) ok _ 3(3) _ inv_keys(1)]]) (use 3 in \<open>auto simp: view_get_def view_has_def\<close>)
    then have "syncs (and_then ?m (\<lambda>_. mkdir_segments mode mtime ?nxt True segs)) s" by (rule syncs_then) (rule IH)
    then show ?thesis unfolding syncs_def run .
  qed
qed

lemma syncs_light_end: "light s (snd (m s)) \<Longrightarrow> syncs m s"
  by (simp add: syncs_def light_sync)

lemma sync_mkdir:
  assumes "ok_path path" shows "sync.keeps (mkdir_ns path recursive mode)"
proof (cases recursive)
  case True
  obtain segs where segs: "valid_names segs" "path = path_of segs" using assms by (rule ok_pathE)
  have "syncs (mkdir_segments mode mtime ''/'' False (path_parts path)) s" for mtime s
    using sync_mkdir_segments [of "[]" segs] assms segs by simp
  moreover have "syncs (if created then modify (\<lambda>s. s\<lparr>v_dirty := True\<rparr>) else return_ok ()) s" for created s
    by (rule syncs_light_end) (simp add: light_fields light.refl)
  ultimately show ?thesis
    unfolding syncs_keeps mkdir_ns_def using True by (auto intro!: syncs_steps syncs_then)
next
  case False
  have "syncs (and_then (mutateOne (mkdir_spec (s_sandbox s) (e_composites (s_env s)) (pe_inode parent) name mode)) (\<lambda>(pub, i).
       modify (publishMutation pub [SetPath path (dir_entry i mode mtime)] [] True))) s"
    if free: "\<not> view_has s path" and par: "requireParent path s = Inr (name, parent)" for s name parent mtime
  proof -
    have "path \<noteq> ''/''" using requireParentD(1) [OF par] free by (auto simp: view_has_def view_get_def)
    then obtain ps where ps: "valid_names (ps @ [name])" "path = path_of (ps @ [name])" "map_of (v_cache s) (path_of ps) = Some parent" "pe_kind parent = DIRECTORY"
      using parent_segs [OF assms _ par] by metis
    show ?thesis unfolding ps(2)
      by (rule syncs_new [OF dir_new_ok [OF ps(1) _ ps(3,4) _ inv_keys(1)]]) (use free assms ps(2) in \<open>auto simp: view_get_def view_has_def\<close>)
  qed
  then show ?thesis
    unfolding syncs_keeps mkdir_ns_def using False by (auto intro!: syncs_steps)
qed

section \<open>rm\<close>

text \<open>A directory the cache knows no child of.\<close>

lemma childPaths_empty:
  assumes "valid_names q" and "childPaths s (path_of q) = []" shows "childless (v_cache s) q"
  unfolding childless_def
proof (intro allI impI)
  fix m assume m: "valid_name m"
  have "path_of (q @ [m]) \<noteq> path_of q" using assms(1) m by simp
  moreover have "path_of (q @ [m]) = dir_prefix (path_of q) @ m"
    using dir_prefix_path_of_append [OF assms(1), of "[m]"] by simp
  ultimately have k: "key \<noteq> path_of q \<and> prefix (dir_prefix (path_of q)) key \<and> slash \<notin> set (drop (length (dir_prefix (path_of q))) key)"
    if "key = path_of (q @ [m])" for key
    using that valid_name_no_slash [OF m] by (metis append_eq_conv_conj prefixI)
  have "path_of (q @ [m]) \<notin> set (map fst (v_cache s))"
    using assms(2) k [OF refl] unfolding childPaths_def filter_empty_conv by blast
  then show "map_of (v_cache s) (path_of (q @ [m])) = None" by (simp add: map_of_eq_None_iff)
qed

lemma ok_segs_cases:
  assumes "ok_path path"
  obtains "path = ''/''" | ps n where "valid_names (ps @ [n])" and "path = path_of (ps @ [n])"
proof -
  obtain segs where "valid_names segs" "path = path_of segs" using assms by (rule ok_pathE)
  then show ?thesis using that by (cases segs rule: rev_cases) auto
qed

lemma inos_deletes: "inos (fold cache_change (map DeletePath ps) c) \<subseteq> inos c"
proof (induction ps arbitrary: c)
  case (Cons p ps)
  have "inos (AList.delete p c) \<subseteq> inos c" by (rule inos_subset) (auto simp: AList.delete_eq)
  then show ?case using Cons.IH [of "AList.delete p c"] by auto
qed simp

lemma rm_ok:
  assumes "ok_path path" and x: "map_of (v_cache s) path = Some x" and p: "map_of (v_cache s) (parentOf path) = Some parent"
    and leaf: "pe_kind x \<noteq> DIRECTORY \<or> childPaths s path = []" and keys: "ok_keys (v_cache s)"
  shows "mutation_ok sid (rm_spec sid composites (pe_inode parent) (nameOf path)) (v_cache s)
    (\<lambda>_. AList.delete path (v_cache s))"
proof (rule mutation_ok_plain)
  show "faithful sid (o_run (rm_spec sid composites (pe_inode parent) (nameOf path))) 0 (v_cache s) (\<lambda>_. AList.delete path (v_cache s))"
    using assms(1)
  proof (cases rule: ok_segs_cases)
    case 1
    then show ?thesis using doomed_rm_spec by (simp add: faithful_def)
  next
    case (2 ps n)
    have "pe_kind x \<noteq> DIRECTORY \<or> childless (v_cache s) (ps @ [n])" using leaf childPaths_empty 2 by blast
    then show ?thesis using sim_rm_spec [of ps n "v_cache s" parent x sid composites] advancing_rm_spec 2 x p by (simp add: faithful_def)
  qed
  show "ok_keys (AList.delete path (v_cache s))" using keys by (rule ok_keys_delete)
  show "inos (AList.delete path (v_cache s)) \<subseteq> inos (v_cache s)" using inos_deletes [of "[path]" "v_cache s"] by simp
qed (simp_all add: rm_spec_def)

lemma rm_tree_ok:
  assumes "ok_path path" and x: "map_of (v_cache s) path = Some x" and keys: "ok_keys (v_cache s)"
    and op: "o_run op = rm_tree_run sid (map_option pe_inode (view_get s (parentOf path))) (nameOf path) (rm_plan s path (deepest_first s path))"
      "o_mints op = 0" "o_supersedes op = None"
  shows "mutation_ok sid op (v_cache s) (\<lambda>_. fold cache_change (map DeletePath (deepest_first s path)) (v_cache s))"
proof (rule mutation_ok_plain)
  show "faithful sid (o_run op) 0 (v_cache s) (\<lambda>_. fold cache_change (map DeletePath (deepest_first s path)) (v_cache s))"
    using assms(1)
  proof (cases rule: ok_segs_cases)
    case 1
    then show ?thesis using doomed_rm_tree x op(1) by (simp add: faithful_def view_get_def)
  next
    case (2 ps n)
    have up: "parentOf path = path_of ps" "nameOf path = n" using 2 by simp_all
    show ?thesis
    proof (cases "map_of (v_cache s) (path_of ps)")
      case None
      then show ?thesis using orphan_no_parent 2 x by (metis orphan_faithful)
    next
      case (Some pe)
      then show ?thesis
        using sim_rm_tree [of ps n s pe x sid] advancing_rm_tree_run 2 x op(1) up by (simp add: faithful_def view_get_def)
    qed
  qed
  show "ok_keys (fold cache_change (map DeletePath (deepest_first s path)) (v_cache s))" using keys by (rule ok_keys_changes) auto
qed (simp_all add: op inos_deletes)

lemma sync_rm:
  assumes "ok_path path" shows "sync.keeps (rm_ns path recursive force)"
proof -
  have tree: "syncs (rm_tree_ns path) s" if x: "view_get s path = Some x" for s x
  proof -
    let ?op = "\<lparr>o_kind = ''rm -r'', o_composite = False, o_mints = 0,
           o_bytes = Some (PER_MUTATION_BASE_BYTES + int (length (rm_plan s path (deepest_first s path))) * 80), o_supersedes = None,
           o_run = rm_tree_run (s_sandbox s) (map_option pe_inode (view_get s (parentOf path))) (nameOf path) (rm_plan s path (deepest_first s path))\<rparr>"
    let ?k = "\<lambda>(pub, ids :: int list). and_then (gets (\<lambda>s. concat (map (\<lambda>p. case view_get s p of
             None \<Rightarrow> [] | Some e \<Rightarrow> [Evict (pe_inode e)]) (deepest_first s path)))) (\<lambda>contents.
        modify (publishMutation pub (map DeletePath (deepest_first s path)) contents True))"
    have "syncs (and_then (mutate ?op) (\<lambda>(pub, _). and_then (gets (\<lambda>s'. concat (map (\<lambda>p. case view_get s' p of
             None \<Rightarrow> [] | Some e \<Rightarrow> [Evict (pe_inode e)]) (deepest_first s path)))) (\<lambda>contents.
        modify (publishMutation pub (map DeletePath (deepest_first s path)) contents True)))) s"
      by (rule syncs_plain [OF rm_tree_ok [OF assms _ inv_keys(1)] refl]) (use x in \<open>auto simp: view_get_def\<close>)
    then show ?thesis unfolding syncs_def rm_tree_ns_def deepest_first_def [symmetric] Let_def .
  qed
  have "syncs (\<lambda>s. case view_get s path of
         None \<Rightarrow> if force then (Inr (), s) else (Inl (ENOENT path), s)
       | Some e \<Rightarrow>
           if recursive \<and> pe_kind e = DIRECTORY then rm_tree_ns path s
           else if pe_kind e = DIRECTORY \<and> childPaths s path \<noteq> [] then (Inl (ENOTEMPTY path), s)
           else
             (case view_get s (parentOf path) of
                None \<Rightarrow> (Inl (InternalError ''TypeError''), s)
              | Some parent \<Rightarrow>
                  and_then (mutate (rm_spec (s_sandbox s) (e_composites (s_env s)) (pe_inode parent) (nameOf path)))
                    (\<lambda>(pub, _).
                  modify (publishMutation pub [DeletePath path] [Evict (pe_inode e)] True)) s)) s" for s
  proof (cases "view_get s path")
    case (Some x)
    have one: "syncs (and_then (mutate (rm_spec (s_sandbox s) (e_composites (s_env s)) (pe_inode parent) (nameOf path)))
        (\<lambda>(pub, _). modify (publishMutation pub [DeletePath path] [Evict (pe_inode x)] True))) s"
      if p: "view_get s (parentOf path) = Some parent" and leaf: "\<not> (pe_kind x = DIRECTORY \<and> childPaths s path \<noteq> [])" for parent
      by (rule syncs_plain [OF rm_ok [OF assms _ _ _ inv_keys(1)]]) (use p leaf Some in \<open>auto simp: view_get_def\<close>)
    show ?thesis using Some tree [OF Some] one by (simp add: syncs_def sync.refl split: option.splits)
  qed (simp add: syncs_def sync.refl)
  then show ?thesis unfolding syncs_keeps rm_ns_def by (intro allI syncs_steps)
qed

section \<open>chmod, utimes, link, symlink\<close>

lemma update_ok:
  assumes keys: "ok_keys c" and x: "map_of c path = Some x"
    and u: "\<not> (u_mode u = None \<and> u_size u = None \<and> u_mtime u = None \<and> u_sha u = None)"
    and ep: "u_size u = None" "u_sha u = None" "ep_mode ep = u_mode u" "ep_mtime ep = u_mtime u"
  shows "mutation_ok sid (update_spec kind sid (pe_inode x) u) c (\<lambda>_. cache_change (PatchInode (pe_inode x) ep) c)"
proof (rule mutation_ok_plain)
  obtain segs where "valid_names segs" "path = path_of segs" using ok_keysD [OF keys x] by (rule ok_pathE)
  then show "faithful sid (o_run (update_spec kind sid (pe_inode x) u)) 0 c (\<lambda>_. cache_change (PatchInode (pe_inode x) ep) c)"
    using sim_update_spec [OF _ _ u ep] advancing_update_spec [OF u] x unfolding faithful_def by blast
  show "ok_keys (cache_change (PatchInode (pe_inode x) ep) c)" using keys by (rule ok_keys_change) auto
qed (auto simp: update_spec_def inos_patch simp del: cache_change.simps)

lemma sync_update: "sync.keeps (chmod_ns path mode)" "sync.keeps (utimes_ns path mtime)"
proof -
  have upd: "syncs (and_then (mutate (update_spec kind (s_sandbox s) (pe_inode x) u)) (\<lambda>(pub, _).
      modify (publishMutation pub [PatchInode (pe_inode x) ep] [] True))) s"
    if x: "view_get s path = Some x" and u: "\<not> (u_mode u = None \<and> u_size u = None \<and> u_mtime u = None \<and> u_sha u = None)"
      "u_size u = None" "u_sha u = None" "ep_mode ep = u_mode u" "ep_mtime ep = u_mtime u" for s x kind u ep
    by (rule syncs_plain [OF update_ok [OF inv_keys(1) _ u]]) (use x in \<open>auto simp: view_get_def\<close>)
  show "sync.keeps (chmod_ns path mode)"
    unfolding syncs_keeps chmod_ns_def
    by (intro allI syncs_steps) (auto simp: syncs_def no_update_def sync.refl intro!: upd [unfolded syncs_def] split: option.splits)
  show "sync.keeps (utimes_ns path mtime)"
    unfolding syncs_keeps utimes_ns_def
    by (intro allI syncs_steps) (auto simp: syncs_def no_update_def sync.refl intro!: upd [unfolded syncs_def] split: option.splits)
qed

lemma symlink_ok:
  assumes "ok_path path" and "path \<noteq> ''/''" and par: "requireParent path s = Inr (name, parent)" and keys: "ok_keys (v_cache s)"
  shows "mutation_ok sid ((symlink_spec sid (pe_inode parent) name target)\<lparr>o_mints := 1\<rparr>) (v_cache s)
    (\<lambda>ids. AList.update path (symlink_entry (hd ids) target mtime) (v_cache s))"
proof -
  obtain ps where ps: "valid_names (ps @ [name])" "path = path_of (ps @ [name])" "map_of (v_cache s) (path_of ps) = Some parent" "pe_kind parent = DIRECTORY"
    using parent_segs [OF assms(1-3)] by metis
  have "faithful sid (o_run (symlink_spec sid (pe_inode parent) name target)) 1 (v_cache s)
      (\<lambda>ids. AList.update path (symlink_entry (hd ids) target mtime) (v_cache s))"
    using sim_symlink_spec [OF ps(1,3,4)] doomed_symlink [OF ps(1,3,4)] advancing_symlink_spec ps(2)
    by (cases "map_of (v_cache s) path") (auto simp: faithful_def)
  moreover have "o_supersedes (symlink_spec sid (pe_inode parent) name target) = None" by (simp add: symlink_spec_def)
  ultimately show ?thesis using assms(1) keys by (intro mutation_ok_new) (simp_all add: symlink_entry_def)
qed

lemma sync_symlink:
  assumes "ok_path path" and "path \<noteq> ''/''" shows "sync.keeps (symlink_ns target path)"
  unfolding syncs_keeps symlink_ns_def
  apply (intro allI syncs_steps)
  apply (simp only: split_paired_all prod.case)
  apply (intro syncs_steps)
  apply (rule syncs_new [OF symlink_ok [OF assms _ inv_keys(1)]])
    prefer 3
    apply (simp only: prod.case and_then_basic modify_app, intro exI, rule refl)
   apply (simp_all add: light_requireParent)
  done

lemma link_ok:
  assumes "ok_path path" and x: "map_of (v_cache s) existing = Some x" "pe_kind x \<noteq> DIRECTORY" and free: "map_of (v_cache s) path = None"
    and par: "requireParent path s = Inr (name, parent)" and keys: "ok_keys (v_cache s)"
  shows "mutation_ok sid (link_spec sid (pe_inode x) (pe_inode parent) name) (v_cache s) (\<lambda>_. AList.update path x (v_cache s))"
proof (rule mutation_ok_plain)
  have "path \<noteq> ''/''" using requireParentD(1) [OF par] free by auto
  then obtain ps where ps: "valid_names (ps @ [name])" "path = path_of (ps @ [name])" "map_of (v_cache s) (path_of ps) = Some parent" "pe_kind parent = DIRECTORY"
    using parent_segs [OF assms(1) _ par] by metis
  obtain src where src: "valid_names src" "existing = path_of src" using ok_keysD [OF keys x(1)] by (rule ok_pathE)
  show "faithful sid (o_run (link_spec sid (pe_inode x) (pe_inode parent) name)) 0 (v_cache s) (\<lambda>_. AList.update path x (v_cache s))"
    using sim_link_spec [OF src(1) _ x(2) ps(1,3,4)] advancing_link_spec x(1) src(2) free ps(2) by (simp add: faithful_def)
  show "ok_keys (AList.update path x (v_cache s))" using keys assms(1) by (rule ok_keys_update)
  show "inos (AList.update path x (v_cache s)) \<subseteq> inos (v_cache s)" using inos_update [of path x] inos_I [OF x(1)] by blast
qed (simp_all add: link_spec_def)

lemma sync_link:
  assumes "ok_path path" shows "sync.keeps (link_ns existing path)"
proof -
  have link: "syncs (and_then (mutate (link_spec (s_sandbox s) (pe_inode x) (pe_inode parent) name)) (\<lambda>(pub, _).
      modify (publishMutation pub [SetPath path x] [] True))) s"
    if "view_get s existing = Some x" "pe_kind x \<noteq> DIRECTORY" "\<not> view_has s path" "requireParent path s = Inr (name, parent)" for s x name parent
    by (rule syncs_plain [OF link_ok [OF assms _ that(2) _ that(4) inv_keys(1)]]) (use that in \<open>auto simp: view_get_def view_has_def\<close>)
  show ?thesis
    unfolding syncs_keeps link_ns_def
  proof (intro allI syncs_steps)
    fix s s' assume "light s s'"
    show "syncs (\<lambda>s. case view_get s existing of
         None \<Rightarrow> (Inl (ENOENT existing), s)
       | Some srcEntry \<Rightarrow>
           if pe_kind srcEntry = DIRECTORY then (Inl (EPERM existing ''link''), s)
           else if view_has s path then (Inl (EEXIST path), s)
           else
             and_then (of_sum (requireParent path s)) (\<lambda>(name, parent).
             and_then (mutate (link_spec (s_sandbox s) (pe_inode srcEntry) (pe_inode parent) name)) (\<lambda>(pub, _).
             modify (publishMutation pub [SetPath path srcEntry] [] True))) s) s'"
      using link [of s'] by (cases "requireParent path s'") (auto simp: syncs_def sync.refl split: option.splits)
  qed
qed

section \<open>cp\<close>

lemma cp_file_ok:
  assumes "ok_path path" and par: "requireParent path s = Inr (name, parent)"
    and leaf: "map_option pe_kind (view_get s path) \<noteq> Some DIRECTORY" and keys: "ok_keys (v_cache s)"
  shows "mutation_ok sid ((cp_file_spec sid x (pe_inode parent) name)\<lparr>o_mints := 1\<rparr>) (v_cache s)
    (\<lambda>ids. AList.update path (x\<lparr>pe_inode := hd ids, pe_mtime := mtime\<rparr>) (v_cache s))"
proof -
  let ?c = "v_cache s"
  have "path \<noteq> ''/''" using requireParentD [OF par] leaf by (auto simp: view_get_def)
  then obtain ps where ps: "valid_names (ps @ [name])" "path = path_of (ps @ [name])" "map_of ?c (path_of ps) = Some parent" "pe_kind parent = DIRECTORY"
    using parent_segs [OF assms(1) _ par] by metis
  have free: "map_of ?c (path_of (ps @ [name])) = None \<or> (\<exists>x. map_of ?c (path_of (ps @ [name])) = Some x \<and> pe_kind x \<noteq> DIRECTORY)"
    using leaf ps(2) by (cases "map_of ?c path") (auto simp: view_get_def)
  have "faithful sid (o_run (cp_file_spec sid x (pe_inode parent) name)) 1 ?c (\<lambda>ids. AList.update path (x\<lparr>pe_inode := hd ids, pe_mtime := mtime\<rparr>) ?c)"
    using sim_cp_file_spec [OF ps(1,3,4) free] advancing_cp_file_spec ps(2) by (simp add: faithful_def)
  moreover have "o_supersedes (cp_file_spec sid x (pe_inode parent) name) = None" by (simp add: cp_file_spec_def)
  ultimately show ?thesis
    using keys assms(1) by (intro mutation_ok_new [where y = "\<lambda>i. x\<lparr>pe_inode := i, pe_mtime := mtime\<rparr>"]) simp_all
qed

text \<open>\<open>cp -r\<close>: the plan and its publication.\<close>

lemma sync_cp_tree:
  assumes dest: "ok_path dest" "nameOf dest \<noteq> []" and x: "view_get s src = Some x"
  shows "syncs (cp_tree_ns src dest) s"
proof (cases "sess_inv s")
  case True
  note keys = inv_keys [OF True]
  let ?c = "v_cache s" and ?mtime = "s_now s"
  let ?op = "\<lambda>plan. \<lparr>o_kind = ''cp -r'', o_composite = False, o_mints = length plan,
           o_bytes = Some (cp_tree_bytes plan), o_supersedes = None,
           o_run = (\<lambda>rp. cp_tree_loop (s_sandbox s) rp [] [] plan)\<rparr>"
  let ?paths = "\<lambda>plan s' ids. map (\<lambda>(destPath, i).
            SetPath destPath ((the (view_get s' (src @ drop (length dest) destPath)))\<lparr>pe_inode := i, pe_mtime := ?mtime\<rparr>))
            (fold (\<lambda>(st, i). AList.update (cs_dest st) i) (zip plan ids) [])"
  obtain q where q: "valid_names q" "src = path_of q" "map_of ?c (path_of q) \<noteq> None"
    using ok_pathE [OF ok_keysD [OF keys(1)]] x by (metis option.distinct(1) view_get_def)
  obtain d where d: "valid_names d" "dest = path_of d" using dest(1) by (rule ok_pathE)
  have dne: "d \<noteq> []" using dest(2) d by auto
  have main: "syncs (and_then (mutate (?op plan)) (\<lambda>(pub, ids). and_then (gets (\<lambda>s'. ?paths plan s' ids)) (\<lambda>paths.
      modify (publishMutation pub paths [] True)))) s"
    if np: "requireParent dest s = Inr np" and plan: "cp_plan s src dest (shallowest_first s src) = Inr plan" for np plan
    unfolding syncs_def
  proof (rule publish_step)
    let ?S = "copies s q d"
    have par: "butlast d \<in> dirs_of ?c"
      using np requireParentD [of dest s "fst np" "snd np"] d dne parent_name_last(1) [OF d(1) dne]
      by (cases d rule: rev_cases) (auto simp: dirs_of_def)
    note pl = copies_plan [OF keys(3) q(1,3) d(1) dne plan [unfolded q(2) d(2)]]
    have len: "length plan = length ?S" using pl(1) by simp
    have "ok_keys (copy_into ?mtime ?S ids ?c)" for ids
      unfolding cache_copy_changes [symmetric]
      by (rule ok_keys_changes [OF keys(1)]) (auto simp: copy_changes_def dest: set_zip_leftD intro: pl(2))
    then show "mutation_ok (s_sandbox s) (?op plan) ?c (\<lambda>ids. copy_into ?mtime ?S ids ?c)"
      using faithful_cp_tree [OF q(1,3) keys(2,3) d(1) dne par] inos_copy_into len pl(1) by (simp add: mutation_ok_def)
    show "fold cache_change (?paths plan s ids) ?c = copy_into ?mtime ?S ids ?c" if "length ids = o_mints (?op plan)" for ids
      using published_copies [OF keys(3,2) q(1,3) d(1) dne, of ids ?mtime] that len pl(1) q(2) d(2) by (simp add: cache_copy_changes)
    show "publishes ?c (?paths plan s) (\<lambda>(pub, ids). and_then (gets (\<lambda>s'. ?paths plan s' ids)) (\<lambda>paths. modify (publishMutation pub paths [] True)))"
      unfolding publishes_def prod.case by (auto simp: view_get_def)
  qed
  show ?thesis
    using main unfolding syncs_def cp_tree_ns_def Let_def shallowest_first_def [symmetric]
    by (cases "requireParent dest s"; cases "cp_plan s src dest (shallowest_first s src)") (simp_all add: sync.refl)
qed (simp add: syncs_def sync_step_def)

lemma sync_cp:
  assumes dest: "dest = DEV_NULL \<or> ok_path dest"
  shows "sync.keeps (cp_ns src dest recursive (\<lambda>path mode. writeFile_ns path [] (Some mode)))"
proof -
  have single: "syncs (and_then (gets (\<lambda>s. map_option pe_kind (view_get s dest))) (\<lambda>kind.
      and_then (throw_if (kind = Some DIRECTORY) (EISDIR dest)) (\<lambda>_.
      and_then (gets (requireParent dest)) (\<lambda>par.
      and_then (of_sum par) (\<lambda>(name, parent).
      and_then (gets s_now) (\<lambda>mtime.
      and_then (gets s_sandbox) (\<lambda>sid.
      and_then (mutateOne (cp_file_spec sid x (pe_inode parent) name)) (\<lambda>(pub, i).
      modify (publishMutation pub [SetPath dest (x\<lparr>pe_inode := i, pe_mtime := mtime\<rparr>)] [] True)))))))) ) s"
    if ok: "ok_path dest" for x s
    apply (intro syncs_steps)
    apply (simp only: split_paired_all prod.case)
    apply (intro syncs_steps)
    apply (rule syncs_new [OF cp_file_ok [OF ok _ _ inv_keys(1)]])
       prefer 4
       apply (simp only: prod.case modify_app, intro exI, rule refl)
      apply simp_all
    done
  show ?thesis
    unfolding syncs_keeps
  proof
    fix s
    show "syncs (cp_ns src dest recursive (\<lambda>path mode. writeFile_ns path [] (Some mode))) s"
    proof (cases "src = DEV_NULL \<or> dest = DEV_NULL")
      case True
      have "ok_path dest \<Longrightarrow> syncs (writeFile_ns dest [] (Some 438)) s" using sync_writeFile syncs_keeps by blast
      then show ?thesis
        using True dest unfolding cp_ns_def by (auto intro!: syncs_steps split: option.splits)
    next
      case False
      have ok: "ok_path dest" using dest False by simp
      have ne: "(src = DEV_NULL) = False" "(dest = DEV_NULL) = False" using False by simp_all
      have rest: "syncs (case view_get s src of None \<Rightarrow> throw (ENOENT src)
          | Some e \<Rightarrow> if pe_kind e = DIRECTORY then (if \<not> recursive then throw (EISDIR src) else cp_tree_ns src dest)
              else and_then (gets (\<lambda>s. map_option pe_kind (view_get s dest))) (\<lambda>kind.
                and_then (throw_if (kind = Some DIRECTORY) (EISDIR dest)) (\<lambda>_.
                and_then (gets (requireParent dest)) (\<lambda>par.
                and_then (of_sum par) (\<lambda>(name, parent).
                and_then (gets s_now) (\<lambda>mtime.
                and_then (gets s_sandbox) (\<lambda>sid.
                and_then (mutateOne (cp_file_spec sid e (pe_inode parent) name)) (\<lambda>(pub, i).
                modify (publishMutation pub [SetPath dest (e\<lparr>pe_inode := i, pe_mtime := mtime\<rparr>)] [] True))))))))) s'"
        if l: "light s s'" and n: "nameOf dest \<noteq> []" for s'
        using sync_cp_tree [OF ok n, of s' src] single [OF ok, of _ s'] light_requireParent(2) [OF l, of src]
        by (auto simp: syncs_pure split: option.splits)
      show ?thesis unfolding cp_ns_def ne if_False by (intro syncs_steps) (rule rest)
    qed
  qed
qed

section \<open>mv\<close>

lemma mv_targets_ok:
  assumes "mv_check_targets src dest ps = Inr ()" and "p \<in> set ps"
  shows "\<exists>q. validatePath (dest @ drop (length src) p) = Inr q \<and> q \<noteq> DEV_NULL"
  using assms by (induction ps) (auto simp: assertStoredPath_def split: sum.splits if_splits)

lemma mv_changes_ok:
  assumes keys: "ok_keys (v_cache s)" and a: "valid_names a" and b: "valid_names b" "b \<noteq> []"
    and targets: "mv_check_targets (path_of a) (path_of b) (pathsUnder s (path_of a)) = Inr ()"
  shows "ok_keys (fold cache_change (mv_changes s (path_of a) (path_of b)) (v_cache s))"
    and "inos (fold cache_change (mv_changes s (path_of a) (path_of b)) (v_cache s)) \<subseteq> inos (v_cache s)"
proof -
  let ?set = "\<lambda>p e. \<exists>q. p = path_of b @ drop (length (path_of a)) q \<and> q \<in> set (pathsUnder s (path_of a)) \<and> view_get s q = Some e"
  have set: "?set p e" if "SetPath p e \<in> set (mv_changes s (path_of a) (path_of b))" for p e
    using that by (auto simp: mv_changes_def split: option.splits)
  have path: "ok_path p" if s: "?set p e" for p e
  proof -
    obtain q where q: "p = path_of b @ drop (length (path_of a)) q" "q \<in> set (pathsUnder s (path_of a))" using s by blast
    obtain ys where ys: "valid_names (a @ ys)" "q = path_of (a @ ys)" using pathsUnder_segs [OF ok_keys_normal [OF keys] a q(2)] by blast
    have p: "p = path_of (graft a b ys)" "valid_names (graft a b ys)" using graft_path [OF ys(1) b] graft_valid [OF b, of ys a] q(1) ys by auto
    obtain u where "validatePath p = Inr u" "u \<noteq> DEV_NULL" using mv_targets_ok [OF targets q(2)] q(1) by auto
    then show ?thesis using validate_normal [of "graft a b ys" u] p by (simp add: ok_path_def)
  qed
  show "ok_keys (fold cache_change (mv_changes s (path_of a) (path_of b)) (v_cache s))"
    by (rule ok_keys_changes [OF keys]) (use set path in blast)
  have "inos (fold cache_change chs c) \<subseteq> inos c \<union> inos (v_cache s)"
    if "\<And>p e. SetPath p e \<in> set chs \<Longrightarrow> pe_inode e \<in> inos (v_cache s)" "\<And>i u. PatchInode i u \<notin> set chs" for chs c
    using that
  proof (induction chs arbitrary: c)
    case (Cons ch chs)
    have "inos (cache_change ch c) \<subseteq> inos c \<union> inos (v_cache s)"
    proof (cases ch)
      case (SetPath p e)
      then show ?thesis using inos_update [of p e c] Cons.prems(1) [of p e] by auto
    next
      case (DeletePath p)
      then show ?thesis using inos_deletes [of "[p]" c] by auto
    next
      case (PatchInode i u)
      then show ?thesis using Cons.prems(2) by auto
    qed
    moreover have "inos (fold cache_change chs (cache_change ch c)) \<subseteq> inos (cache_change ch c) \<union> inos (v_cache s)"
      by (rule Cons.IH) (use Cons.prems in auto)
    ultimately show ?case by auto
  qed simp
  from this [of "mv_changes s (path_of a) (path_of b)" "v_cache s"]
  show "inos (fold cache_change (mv_changes s (path_of a) (path_of b)) (v_cache s)) \<subseteq> inos (v_cache s)"
    using set by (fastforce simp: mv_changes_def view_get_def dest: inos_I split: option.splits)
qed

text \<open>The guards of the code, read off the cache.\<close>

lemma mv_ok:
  assumes src: "ok_path src" and dest: "ok_path dest" "nameOf dest \<noteq> []"
    and x: "map_of (v_cache s) src = Some x" and sp: "map_of (v_cache s) (parentOf src) = Some spe"
    and dp: "map_of (v_cache s) (parentOf dest) = Some dpe" "pe_kind dpe = DIRECTORY"
    and under: "\<not> (pe_kind x = DIRECTORY \<and> (prefix (dir_prefix src) dest \<or> dest = src))"
    and same: "map_option pe_inode (map_of (v_cache s) dest) \<noteq> Some (pe_inode x)"
    and empty: "\<not> (map_option pe_kind (map_of (v_cache s) dest) = Some DIRECTORY \<and> childPaths s dest \<noteq> [])"
    and targets: "mv_check_targets src dest (pathsUnder s src) = Inr ()" and keys: "ok_keys (v_cache s)"
  shows "mutation_ok sid (mv_spec sid composites (pe_inode spe) (nameOf src) (pe_inode dpe) (nameOf dest)
        (map_option pe_inode (map_of (v_cache s) dest))) (v_cache s) (\<lambda>_. fold cache_change (mv_changes s src dest) (v_cache s))"
proof -
  obtain a where a: "valid_names a" "src = path_of a" using src by (rule ok_pathE)
  obtain b where b: "valid_names b" "dest = path_of b" using dest(1) by (rule ok_pathE)
  have bne: "b \<noteq> []" using dest(2) b by auto
  then obtain ds dn where ds: "b = ds @ [dn]" by (cases b rule: rev_cases) auto
  show ?thesis
  proof (rule mutation_ok_plain)
    show "faithful sid (o_run (mv_spec sid composites (pe_inode spe) (nameOf src) (pe_inode dpe) (nameOf dest)
        (map_option pe_inode (map_of (v_cache s) dest)))) 0 (v_cache s) (\<lambda>_. fold cache_change (mv_changes s src dest) (v_cache s))"
    proof (cases "a = []")
      case True
      have "pe_kind x \<noteq> DIRECTORY" using under True a b by (auto simp: dir_prefix_def path_of_def)
      then show ?thesis using orphan_root x True a by (intro orphan_faithful) simp
    next
      case False
      then obtain ss sn where ss: "a = ss @ [sn]" by (cases a rule: rev_cases) auto
      have guard: "\<not> prefix (ss @ [sn]) (ds @ [dn])" if "pe_kind x = DIRECTORY"
        using under that under_iff [OF a(1) b(1)] a(2) b(2) ss ds by blast
      have "mv_guards (v_cache s) ss sn spe x ds dn dpe"
        unfolding mv_guards_def
      proof (intro conjI allI impI)
        fix y assume y: "map_of (v_cache s) (path_of (ds @ [dn])) = Some y"
        show "pe_inode y \<noteq> pe_inode x" using same y b ds by simp
        show "pe_kind y \<noteq> DIRECTORY \<or> childless (v_cache s) (ds @ [dn])"
          using empty y b ds childPaths_empty [of "ds @ [dn]" s] by auto
      qed (use a b ss ds x sp dp guard in auto)
      from sim_mv_spec [OF this, of sid composites] show ?thesis
        using advancing_mv_spec a b ss ds by (simp add: faithful_def)
    qed
    show "ok_keys (fold cache_change (mv_changes s src dest) (v_cache s))"
      "inos (fold cache_change (mv_changes s src dest) (v_cache s)) \<subseteq> inos (v_cache s)"
      using mv_changes_ok [OF keys a(1) b(1) bne] targets a(2) b(2) by simp_all
  qed (simp_all add: mv_spec_def)
qed

lemma mv_changes_cong: "v_cache s' = v_cache s \<Longrightarrow> mv_changes s' src dest = mv_changes s src dest"
  by (simp add: mv_changes_def pathsUnder_def view_paths_def view_get_def)

lemma sync_mv:
  assumes "ok_path src" and "ok_path dest" shows "sync.keeps (mv_ns src dest)"
  unfolding syncs_keeps mv_ns_def
proof (intro allI syncs_steps)
  fix s0 s assume "light s0 s"
  have mv: "syncs (and_then (mutate (mv_spec (s_sandbox s) (e_composites (s_env s)) (pe_inode spe) (nameOf src) (pe_inode dpe) (nameOf dest)
       (map_option pe_inode (map_of (v_cache s) dest)))) (\<lambda>(pub, _) s. modify (publishMutation pub (mv_changes s src dest) [] True) s)) s"
    if mv: "map_of (v_cache s) src = Some x" "map_of (v_cache s) (parentOf src) = Some spe"
      "map_of (v_cache s) (parentOf dest) = Some dpe" "pe_kind dpe = DIRECTORY" "nameOf dest \<noteq> []"
      "\<not> (pe_kind x = DIRECTORY \<and> (prefix (dir_prefix src) dest \<or> dest = src))"
      "map_option pe_inode (map_of (v_cache s) dest) \<noteq> Some (pe_inode x)"
      "\<not> (map_option pe_kind (map_of (v_cache s) dest) = Some DIRECTORY \<and> childPaths s dest \<noteq> [])"
      "mv_check_targets src dest (pathsUnder s src) = Inr ()" for x spe dpe
  proof (rule syncs_plain [OF _ refl])
    show "mutation_ok (s_sandbox s) (mv_spec (s_sandbox s) (e_composites (s_env s)) (pe_inode spe) (nameOf src) (pe_inode dpe) (nameOf dest)
       (map_option pe_inode (map_of (v_cache s) dest))) (v_cache s) (\<lambda>_. fold cache_change (mv_changes s src dest) (v_cache s))" if "sess_inv s"
      by (rule mv_ok [OF assms mv(5,1,2,3,4,6,7,8,9) inv_keys(1) [OF that]])
    fix pub and s' :: session and ids :: "int list" assume "v_cache s' = v_cache s"
    then have "mv_changes s' src dest = mv_changes s src dest" by (rule mv_changes_cong)
    then show "\<exists>cs b. (case (pub, ids) of (pub, _) \<Rightarrow> \<lambda>s. modify (publishMutation pub (mv_changes s src dest) [] True) s) s' =
        (Inr (), publishMutation pub (mv_changes s src dest) cs b s')"
      by (simp only: prod.case modify_app) blast
  qed
  show "syncs (\<lambda>s. case view_get s src of
         None \<Rightarrow> (Inl (ENOENT src), s)
       | Some srcEntry \<Rightarrow>
           and_then (of_sum (mv_check_targets src dest (pathsUnder s src))) (\<lambda>_ s.
           case view_get s (parentOf src) of
             None \<Rightarrow> (Inl (ENOENT (parentOf src)), s)
           | Some srcParent \<Rightarrow>
               (case view_get s (parentOf dest) of
                  None \<Rightarrow> (Inl (ENOENT (parentOf dest)), s)
                | Some destParent \<Rightarrow>
                    let destEntry = view_get s dest
                    in if pe_kind destParent \<noteq> DIRECTORY then (Inl (ENOTDIR (parentOf dest)), s)
                       else if pe_kind srcEntry = DIRECTORY \<and> (prefix (dir_prefix src) dest \<or> dest = src)
                       then (Inl (EINVAL src), s)
                       else if nameOf dest = [] then (Inl (EISDIR dest), s)
                       else if map_option pe_inode destEntry = Some (pe_inode srcEntry) then (Inr (), s)
                       else if map_option pe_kind destEntry = Some DIRECTORY \<and> childPaths s dest \<noteq> []
                       then (Inl (ENOTEMPTY dest), s)
                       else if map_option pe_kind destEntry = Some DIRECTORY \<and> pe_kind srcEntry \<noteq> DIRECTORY
                       then (Inl (EISDIR dest), s)
                       else if destEntry \<noteq> None \<and> map_option pe_kind destEntry \<noteq> Some DIRECTORY \<and> pe_kind srcEntry = DIRECTORY
                       then (Inl (ENOTDIR dest), s)
                       else
                         and_then (mutate (mv_spec (s_sandbox s) (e_composites (s_env s))
                             (pe_inode srcParent) (nameOf src) (pe_inode destParent) (nameOf dest)
                             (map_option pe_inode destEntry))) (\<lambda>(pub, _) s.
                           modify (publishMutation pub (mv_changes s src dest) [] True) s) s)) s) s"
    unfolding syncs_def view_get_def Let_def
    apply (cases "map_of (v_cache s) src"; cases "mv_check_targets src dest (pathsUnder s src)";
        cases "map_of (v_cache s) (parentOf src)"; cases "map_of (v_cache s) (parentOf dest)")
    apply (simp_all only: option.case and_then_of_sum snd_conv sync.refl)
    apply (split if_split, intro conjI impI, simp only: snd_conv sync.refl)+
    apply (rule mv [unfolded syncs_def])
            apply auto
    done
qed

end
