(* ===== verification/IngestTables.thy ===== *)
theory IngestTables
  imports FsTree PgIngest
begin

text \<open>
  The batches of bulk ingest as updates of the tables. On a transaction that owns its sandbox every statement is a
  function on the database; link counts are followed through the batches by the offsets of \<open>wf_off\<close>: a fresh inode is
  owed a link, a replaced one has a link too many, and at the end nothing is owed.
\<close>

section \<open>Batches\<close>

definition add_inode :: "inode_row \<Rightarrow> db \<Rightarrow> db" where
  "add_inode r d = (put_inode (inode_seq d) r d)\<lparr>inode_seq := inode_seq d + 1\<rparr>"

lemma add_inode_simps [simp]:
  "inode_seq (add_inode r d) = inode_seq d + 1" "node (add_inode r d) j = (if j = inode_seq d then Some r else node d j)"
  "dirents (add_inode r d) = dirents d" "child (add_inode r d) = child d" "root_of (add_inode r d) = root_of d"
  "version_of (add_inode r d) = version_of d" "links (add_inode r d) = links d"
  by (simp_all add: add_inode_def)

fun ids_from :: "int \<Rightarrow> nat \<Rightarrow> int list" where
  "ids_from s 0 = []"
| "ids_from s (Suc n) = s # ids_from (s + 1) n"

lemma ids_from_facts [simp]: "length (ids_from s n) = n" "set (ids_from s n) = {s ..< s + int n}" "distinct (ids_from s n)"
proof -
  show "length (ids_from s n) = n" by (induction n arbitrary: s) simp_all
  show set: "set (ids_from s n) = {s ..< s + int n}" for s n by (induction n arbitrary: s) auto
  show "distinct (ids_from s n)" by (induction n arbitrary: s) (simp_all only: ids_from.simps distinct.simps set, auto)
qed

lemma insert_inodes_ready:
  assumes "ready sid e tx" and "\<forall>r \<in> set rs. i_sandbox r = sid"
  shows "insert_inodes rs tx = (Inr (ids_from (inode_seq (t_db tx)) (length rs)), on_db (fold add_inode rs) tx)"
  using assms
proof (induction rs arbitrary: tx)
  case Nil
  then show ?case by (simp add: on_db_def)
next
  case (Cons r rs)
  let ?tx = "on_db (add_inode r) tx"
  have rd: "ready sid e ?tx" using Cons.prems(1) by (rule ready_on_db) simp
  have "insert_inode r tx = (Inr (inode_seq (t_db tx)), ?tx)"
    using insert_inode_ready [OF Cons.prems(1)] Cons.prems(2) by (simp add: add_inode_def [abs_def])
  then show ?case using Cons.IH [OF rd] Cons.prems(2) by (simp add: and_then_def)
qed

lemma for_each_on_db:
  assumes "P tx" and "\<And>x tx. P tx \<Longrightarrow> x \<in> set xs \<Longrightarrow> f x tx = (Inr (), on_db (g x) tx) \<and> P (on_db (g x) tx)"
  shows "for_each xs f tx = (Inr (), on_db (fold g xs) tx)"
  using assms
proof (induction xs arbitrary: tx)
  case Nil
  then show ?case by (simp add: on_db_def)
next
  case (Cons x xs)
  have "f x tx = (Inr (), on_db (g x) tx)" "P (on_db (g x) tx)" using Cons.prems by auto
  then show ?case using Cons.IH [of "on_db (g x) tx"] Cons.prems(2) by (simp add: and_then_def)
qed

definition set_entry :: "string \<Rightarrow> (int \<times> string) \<times> int \<Rightarrow> db \<Rightarrow> db" where
  "set_entry sid v = put_dirent (fst v) \<lparr>d_inode = snd v, d_sandbox = sid\<rparr>"

abbreviation with_sandbox :: "string \<Rightarrow> ((int \<times> string) \<times> int) list \<Rightarrow> ((int \<times> string) \<times> dirent_row) list" where
  "with_sandbox sid \<equiv> map (\<lambda>(k, i). (k, \<lparr>d_inode = i, d_sandbox = sid\<rparr>))"

lemma set_entry_simps [simp]:
  "node (set_entry sid v d) = node d" "root_of (set_entry sid v d) = root_of d" "version_of (set_entry sid v d) = version_of d"
  "inode_seq (set_entry sid v d) = inode_seq d"
  "map_of (dirents (set_entry sid v d)) k = (if k = fst v then Some \<lparr>d_inode = snd v, d_sandbox = sid\<rparr> else map_of (dirents d) k)"
  by (simp_all add: set_entry_def put_dirent_def node_def root_of_def version_of_def fun_eq_iff)

lemma insert_dirents_ready:
  assumes "ready sid e tx" and "distinct (map fst es)"
    and "\<forall>(k, i) \<in> set es. map_of (dirents (t_db tx)) k = None \<and> node (t_db tx) (fst k) \<noteq> None \<and> node (t_db tx) i \<noteq> None"
  shows "insert_dirents (with_sandbox sid es) tx = (Inr (), on_db (fold (set_entry sid) es) tx)"
  using assms
proof (induction es arbitrary: tx)
  case Nil
  then show ?case by (simp add: on_db_def)
next
  case (Cons v es)
  obtain k i where v: "v = (k, i)" by (cases v)
  let ?tx = "on_db (set_entry sid v) tx"
  have rd: "ready sid e ?tx" using Cons.prems(1) by (rule ready_on_db) simp
  have "map_of (inodes (t_db tx)) (fst k) \<noteq> None" "map_of (inodes (t_db tx)) i \<noteq> None" "map_of (dirents (t_db tx)) k = None"
    using Cons.prems(3) by (simp_all add: v node_def)
  then have "insert_dirent_row k \<lparr>d_inode = i, d_sandbox = sid\<rparr> tx = (Inr (), ?tx)"
    using ready_sandbox [OF Cons.prems(1)] Cons.prems(1) by (simp add: insert_dirent_row_def v set_entry_def)
  moreover have "\<forall>(k', i') \<in> set es. map_of (dirents (t_db ?tx)) k' = None \<and> node (t_db ?tx) (fst k') \<noteq> None \<and> node (t_db ?tx) i' \<noteq> None"
    using Cons.prems(2,3) v by (fastforce simp: image_iff)
  ultimately show ?case using Cons.IH [OF rd] Cons.prems(2) by (simp add: v and_then_def)
qed

lemma add_node_split: "add_node sid p n r d = set_entry sid ((p, n), inode_seq d) (add_inode r d)"
  by (simp add: add_node_def set_entry_def add_inode_def)

lemma set_entry_add_inode: "set_entry sid v (fold add_inode rs d) = fold add_inode rs (set_entry sid v d)"
proof (induction rs arbitrary: d)
  case (Cons r rs)
  have "set_entry sid v (add_inode r d) = add_inode r (set_entry sid v d)"
    by (cases d) (simp add: set_entry_def put_dirent_def add_inode_def put_inode_def)
  then show ?case using Cons by simp
qed simp

lemma batch_add_nodes:
  "fold (set_entry sid) (zip ks (ids_from (inode_seq d) (length ks))) (fold add_inode (map (\<lambda>_. r) ks) d)
     = fold (\<lambda>k. add_node sid (fst k) (snd k) r) ks d"
proof (induction ks arbitrary: d)
  case (Cons k ks)
  show ?case using Cons [of "set_entry sid (k, inode_seq d) (add_inode r d)"]
    by (simp add: set_entry_add_inode add_node_split)
qed simp

section \<open>Links\<close>

lemma wf_add_inodes:
  assumes "wf_off off d" and "\<forall>r \<in> set rs. i_nlink r = 1"
  shows "wf_off (\<lambda>i. if inode_seq d \<le> i \<and> i < inode_seq d + int (length rs) then 1 else off i) (fold add_inode rs d)"
  using assms
proof (induction rs arbitrary: d off)
  case (Cons r rs)
  have "wf_off (off(inode_seq d := 1)) (add_inode r d)"
    unfolding add_inode_def by (rule wf_insert_inode [OF Cons.prems(1) refl]) (use Cons.prems(2) in simp)
  from Cons.IH [OF this] Cons.prems(2) have "wf_off (\<lambda>i. if inode_seq d + 1 \<le> i \<and> i < inode_seq d + 1 + int (length rs) then 1
      else (off(inode_seq d := 1)) i) (fold add_inode rs (add_inode r d))" by simp
  then show ?case by (simp only: fold_simps) (erule wf_off_cong [rotated], auto)
qed (simp, erule wf_off_cong [rotated], simp)

lemma node_add_inodes:
  "node (fold add_inode rs d) j =
     (if inode_seq d \<le> j \<and> j < inode_seq d + int (length rs) then Some (rs ! nat (j - inode_seq d)) else node d j)"
proof (induction rs arbitrary: d)
  case (Cons r rs)
  have "nat (j - inode_seq d) = Suc (nat (j - (inode_seq d + 1)))" if "inode_seq d + 1 \<le> j" using that by simp
  then show ?case using Cons [of "add_inode r d"] by auto
qed auto

lemma add_inodes_simps [simp]:
  "dirents (fold add_inode rs d) = dirents d" "child (fold add_inode rs d) = child d" "root_of (fold add_inode rs d) = root_of d"
  "version_of (fold add_inode rs d) = version_of d" "links (fold add_inode rs d) = links d"
  by (induction rs arbitrary: d) simp_all

lemma wf_repoints:
  assumes "wf_off off d" and "distinct (map fst us)" and "distinct (map snd us)"
    and "\<forall>(k, i) \<in> set us. map_of (dirents d) k \<noteq> None \<and> dir_of sid (fst k) d \<and> in_sandbox sid i d \<and> \<not> is_root d i \<and> links d i = {}"
  shows "wf_off (\<lambda>j. off j + int (count_list (map (\<lambda>(k, i). d_inode (the (map_of (dirents d) k))) us) j) - int (count_list (map snd us) j))
     (fold (set_entry sid) us d)"
  using assms
proof (induction us arbitrary: off d)
  case (Cons u us)
  obtain k i where u: "u = (k, i)" by (cases u)
  obtain p n where k: "k = (p, n)" by (cases k)
  obtain x where x: "map_of (dirents d) (p, n) = Some x" using Cons.prems(4) by (auto simp: u k)
  have dir: "dir_of sid p d" and own: "in_sandbox sid i d" and root: "\<not> is_root d i" and free: "links d i = {}"
    using Cons.prems(4) by (simp_all add: u k)
  obtain pr where pr: "node d p = Some pr" "i_kind pr = DIRECTORY" "i_sandbox pr = sid" using dir by (rule wf_dir_ofE)
  obtain cr where cr: "node d i = Some cr" "i_sandbox cr = sid" using own by (auto simp: in_sandbox_def)
  have n: "valid_name n" using Cons.prems(1) x by (auto simp: wf_off_def wf_entries_def)
  have ne: "d_inode x \<noteq> i" using free x mem_links_iff [of "(p, n)" d i] by auto
  let ?d = "set_entry sid u d"
  have wf: "wf_off (off(d_inode x := off (d_inode x) + 1, i := off i - 1)) ?d"
    using wf_put_over [OF Cons.prems(1) x, of pr "\<lparr>d_inode = i, d_sandbox = sid\<rparr>" cr] pr cr n root free
    by (simp add: set_entry_def u k)
  have keys: "k \<notin> fst ` set us" "i \<notin> snd ` set us" using Cons.prems(2,3) by (simp_all add: u)
  have links: "links ?d j = {}" if "links d j = {}" "j \<noteq> i" for j using that by (simp add: set_entry_def u links_put_dirent)
  have rest: "\<forall>(k', j) \<in> set us. map_of (dirents ?d) k' \<noteq> None \<and> dir_of sid (fst k') ?d \<and> in_sandbox sid j ?d \<and> \<not> is_root ?d j \<and> links ?d j = {}"
    using Cons.prems(4) keys links unfolding u by (simp add: dir_of_def in_sandbox_def is_root_def) (smt (verit, best) case_prodD case_prodI2 image_eqI fst_conv snd_conv)
  have old: "map (\<lambda>(k, i). d_inode (the (map_of (dirents ?d) k))) us = map (\<lambda>(k, i). d_inode (the (map_of (dirents d) k))) us"
    using keys by (force simp: u)
  from Cons.IH [OF wf _ _ rest, unfolded old] Cons.prems(2,3) show ?case
    by (simp add: u) (erule wf_off_cong [rotated], use ne in \<open>auto simp: x k\<close>)
qed simp

definition lower_db :: "int \<times> int \<Rightarrow> db \<Rightarrow> db" where
  "lower_db v d = (case node d (fst v) of None \<Rightarrow> d | Some r \<Rightarrow> put_inode (fst v) (r\<lparr>i_nlink := i_nlink r - snd v\<rparr>) d)"

definition reap_db :: "int \<Rightarrow> db \<Rightarrow> db" where
  "reap_db i d = (case node d i of None \<Rightarrow> d | Some r \<Rightarrow> if i_nlink r \<le> 0 then del_inode i d else d)"

lemma lower_db_simps [simp]:
  "dirents (lower_db v d) = dirents d" "child (lower_db v d) = child d" "root_of (lower_db v d) = root_of d"
  "version_of (lower_db v d) = version_of d" "links (lower_db v d) = links d" "is_root (lower_db v d) = is_root d" "inode_seq (lower_db v d) = inode_seq d"
  by (simp_all add: lower_db_def split: option.split) (simp add: put_inode_def)

lemma node_lower_db:
  "node (lower_db v d) j = (if j = fst v then map_option (\<lambda>r. r\<lparr>i_nlink := i_nlink r - snd v\<rparr>) (node d j) else node d j)"
  by (simp add: lower_db_def split: option.split)

lemma wf_lowers:
  assumes "wf_off off d" and "distinct (map fst ls)"
  shows "wf_off (\<lambda>j. off j - (case map_of ls j of None \<Rightarrow> 0 | Some c \<Rightarrow> c)) (fold lower_db ls d)"
  using assms
proof (induction ls arbitrary: off d)
  case (Cons l ls)
  obtain i c where l: "l = (i, c)" by (cases l)
  have wf: "wf_off (off(i := off i - c)) (lower_db l d)"
  proof (cases "node d i")
    case None
    then show ?thesis using Cons.prems(1) by (simp add: lower_db_def l) (erule wf_off_cong [rotated], auto)
  next
    case (Some r)
    then show ?thesis using wf_put_inode [OF Cons.prems(1) Some, of "r\<lparr>i_nlink := i_nlink r - c\<rparr>"] by (simp add: lower_db_def l)
  qed
  have "map_of ls i = None" using Cons.prems(2) by (simp add: l map_of_eq_None_iff)
  then show ?case using Cons.IH [OF wf] Cons.prems(2)
    by (simp add: l) (erule wf_off_cong [rotated], auto)
qed simp

lemma wf_reap:
  assumes wf: "wf_off off d" and i: "off i = 0" "\<not> is_root d i" "\<And>r. node d i = Some r \<Longrightarrow> i_kind r \<noteq> DIRECTORY"
  shows "wf_off off (reap_db i d)" and "dirents (reap_db i d) = dirents d"
proof -
  have "wf_off off (del_inode i d)" "dirents (del_inode i d) = dirents d" if r: "node d i = Some r" "i_nlink r \<le> 0" for r
  proof -
    have "i_nlink r = link_count d i" using wf r(1) i by (simp add: wf_off_def wf_links_def)
    then have "links d i = {}" using r(2) link_count_0_iff [of d i] link_count_nonneg [of d i] by linarith
    moreover have "child d i n = None" for n using wf_nondir_no_child [OF wf] r(1) i(3) by blast
    ultimately show "wf_off off (del_inode i d)" "dirents (del_inode i d) = dirents d" using wf_del_inode [OF wf] i(2) by blast+
  qed
  then show "wf_off off (reap_db i d)" "dirents (reap_db i d) = dirents d" using wf by (simp_all add: reap_db_def split: option.split)
qed

lemma node_reap_db: "node (reap_db i d) j = (if j = i \<and> (\<exists>r. node d i = Some r \<and> i_nlink r \<le> 0) then None else node d j)"
  by (simp add: reap_db_def split: option.split)

lemma reap_db_simps [simp]:
  "root_of (reap_db i d) = root_of d" "version_of (reap_db i d) = version_of d" "is_root (reap_db i d) = is_root d"
  by (simp_all add: reap_db_def split: option.split)

lemma wf_reaps:
  assumes "wf_off off d" and "\<forall>i \<in> set is. off i = 0 \<and> \<not> is_root d i \<and> (\<forall>r. node d i = Some r \<longrightarrow> i_kind r \<noteq> DIRECTORY)"
  shows "wf_off off (fold reap_db is d) \<and> dirents (fold reap_db is d) = dirents d"
  using assms
proof (induction "is" arbitrary: d)
  case (Cons i is')
  have step: "wf_off off (reap_db i d)" "dirents (reap_db i d) = dirents d" using wf_reap [OF Cons.prems(1)] Cons.prems(2) by auto
  have "\<forall>i' \<in> set is'. off i' = 0 \<and> \<not> is_root (reap_db i d) i' \<and> (\<forall>r. node (reap_db i d) i' = Some r \<longrightarrow> i_kind r \<noteq> DIRECTORY)"
    using Cons.prems(2) by (auto simp: node_reap_db split: if_splits)
  then show ?case using Cons.IH [OF step(1)] step(2) by simp
qed simp

lemma wf_set_entries:
  assumes "wf_off off d" and "distinct (map fst us)" and "distinct (map snd us)"
    and "\<forall>(k, i) \<in> set us. map_of (dirents d) k = None \<and> valid_name (snd k) \<and> dir_of sid (fst k) d \<and> in_sandbox sid i d \<and> \<not> is_root d i \<and> links d i = {}"
  shows "wf_off (\<lambda>j. off j - int (count_list (map snd us) j)) (fold (set_entry sid) us d)"
  using assms
proof (induction us arbitrary: off d)
  case (Cons u us)
  obtain k i where u: "u = (k, i)" by (cases u)
  obtain p n where k: "k = (p, n)" by (cases k)
  have x: "map_of (dirents d) (p, n) = None" and dir: "dir_of sid p d" and own: "in_sandbox sid i d" and root: "\<not> is_root d i"
    and free: "links d i = {}" and n: "valid_name n"
    using Cons.prems(4) by (simp_all add: u k)
  obtain pr where pr: "node d p = Some pr" "i_kind pr = DIRECTORY" "i_sandbox pr = sid" using dir by (rule wf_dir_ofE)
  obtain cr where cr: "node d i = Some cr" "i_sandbox cr = sid" using own by (auto simp: in_sandbox_def)
  let ?d = "set_entry sid u d"
  have wf: "wf_off (off(i := off i - 1)) ?d"
    using wf_put_dirent [OF Cons.prems(1) x, of pr "\<lparr>d_inode = i, d_sandbox = sid\<rparr>" cr] pr cr n root free
    by (simp add: set_entry_def u k)
  have keys: "k \<notin> fst ` set us" "i \<notin> snd ` set us" using Cons.prems(2,3) by (simp_all add: u)
  have links: "links ?d j = {}" if "links d j = {}" "j \<noteq> i" for j using that by (simp add: set_entry_def u links_put_dirent)
  have rest: "\<forall>(k', j) \<in> set us. map_of (dirents ?d) k' = None \<and> valid_name (snd k') \<and> dir_of sid (fst k') ?d \<and> in_sandbox sid j ?d \<and> \<not> is_root ?d j \<and> links ?d j = {}"
    using Cons.prems(4) keys links unfolding u by (simp add: dir_of_def in_sandbox_def is_root_def) (smt (verit, best) case_prodD case_prodI2 image_eqI fst_conv snd_conv)
  from Cons.IH [OF wf _ _ rest] Cons.prems(2,3) show ?case
    by (simp add: u) (erule wf_off_cong [rotated], auto)
qed simp

section \<open>The batch of files\<close>

lemma map_of_set_entries:
  "distinct (map fst us) \<Longrightarrow> map_of (dirents (fold (set_entry sid) us d)) k =
     (case map_of us k of None \<Rightarrow> map_of (dirents d) k | Some i \<Rightarrow> Some \<lparr>d_inode = i, d_sandbox = sid\<rparr>)"
proof (induction us arbitrary: d)
  case (Cons u us)
  have "map_of us (fst u) = None" using Cons.prems by (simp add: map_of_eq_None_iff)
  then show ?case using Cons by (cases u) (auto split: option.split)
qed simp

lemma set_entries_simps [simp]:
  "node (fold (set_entry sid) us d) = node d" "root_of (fold (set_entry sid) us d) = root_of d"
  "version_of (fold (set_entry sid) us d) = version_of d"
  by (induction us arbitrary: d) simp_all

lemma lowers_simps [simp]:
  "dirents (fold lower_db ls d) = dirents d" "root_of (fold lower_db ls d) = root_of d" "version_of (fold lower_db ls d) = version_of d"
  by (induction ls arbitrary: d) simp_all

lemma reaps_simps [simp]:
  "root_of (fold reap_db is d) = root_of d" "version_of (fold reap_db is d) = version_of d"
  by (induction "is" arbitrary: d) simp_all

lemma node_lowers:
  "distinct (map fst ls) \<Longrightarrow> node (fold lower_db ls d) j =
     map_option (\<lambda>r. r\<lparr>i_nlink := i_nlink r - (case map_of ls j of None \<Rightarrow> 0 | Some c \<Rightarrow> c)\<rparr>) (node d j)"
proof (induction ls arbitrary: d)
  case (Cons l ls)
  have "map_of ls (fst l) = None" using Cons.prems by (simp add: map_of_eq_None_iff)
  then show ?case using Cons by (cases l, cases "node d j") (auto simp: node_lower_db)
qed (simp add: option.map_ident)

lemma node_reaps:
  "node (fold reap_db is d) j = (if j \<in> set is \<and> (\<exists>r. node d j = Some r \<and> i_nlink r \<le> 0) then None else node d j)"
  by (induction "is" arbitrary: d) (auto simp: node_reap_db)

definition batch_ok :: "string \<Rightarrow> db \<Rightarrow> (int \<times> string) list \<Rightarrow> inode_row list \<Rightarrow> bool" where
  "batch_ok sid d ks rs \<longleftrightarrow> wf_db d \<and> distinct ks \<and> length rs = length ks
     \<and> (\<forall>r \<in> set rs. i_sandbox r = sid \<and> i_nlink r = 1 \<and> i_kind r \<noteq> DIRECTORY)
     \<and> (\<forall>k \<in> set ks. dir_of sid (fst k) d \<and> valid_name (snd k)
          \<and> (\<forall>i r. child d (fst k) (snd k) = Some i \<and> node d i = Some r \<longrightarrow> i_kind r \<noteq> DIRECTORY))"

definition placed_at :: "db \<Rightarrow> (int \<times> string) list \<Rightarrow> ((int \<times> string) \<times> int) list" where
  "placed_at d ks = zip ks (ids_from (inode_seq d) (length ks))"

abbreviation occupied :: "db \<Rightarrow> int \<times> string \<Rightarrow> bool" where
  "occupied d k \<equiv> child d (fst k) (snd k) \<noteq> None"

definition replaced_by :: "db \<Rightarrow> (int \<times> string) list \<Rightarrow> int list" where
  "replaced_by d ks = map (\<lambda>(k, i). the (child d (fst k) (snd k))) (filter (\<lambda>(k, i). occupied d k) (placed_at d ks))"

definition repointed :: "string \<Rightarrow> (int \<times> string) list \<Rightarrow> inode_row list \<Rightarrow> db \<Rightarrow> db" where
  "repointed sid ks rs d = fold (set_entry sid) (filter (\<lambda>(k, i). occupied d k) (placed_at d ks)) (fold add_inode rs d)"

definition lowered :: "string \<Rightarrow> (int \<times> string) list \<Rightarrow> inode_row list \<Rightarrow> db \<Rightarrow> db" where
  "lowered sid ks rs d = fold lower_db (link_losses (replaced_by d ks)) (repointed sid ks rs d)"

definition reaped :: "string \<Rightarrow> (int \<times> string) list \<Rightarrow> inode_row list \<Rightarrow> db \<Rightarrow> db" where
  "reaped sid ks rs d = fold reap_db (js_set (replaced_by d ks)) (lowered sid ks rs d)"

definition store_db :: "string \<Rightarrow> (int \<times> string) list \<Rightarrow> inode_row list \<Rightarrow> db \<Rightarrow> db" where
  "store_db sid ks rs d = fold (set_entry sid) (filter (\<lambda>(k, i). \<not> occupied d k) (placed_at d ks)) (reaped sid ks rs d)"

lemmas store_stages = store_db_def reaped_def lowered_def repointed_def

lemma set_js_set [simp]: "set (js_set xs) = set xs" "distinct (js_set xs)"
  by (simp_all add: js_set_def)

lemma map_of_link_losses: "map_of (link_losses xs) j = (if j \<in> set xs then Some (int (count_list xs j)) else None)"
proof -
  have "length (filter (\<lambda>x. x = j) xs) = count_list xs j" by (induction xs) auto
  moreover have "map_of (map (\<lambda>i. (i, f i)) ys) j = (if j \<in> set ys then Some (f j) else None)" for f :: "int \<Rightarrow> int" and ys
    by (induction ys) auto
  ultimately show ?thesis by (simp add: link_losses_def)
qed

lemma fst_link_losses [simp]: "map fst (link_losses xs) = js_set xs"
  by (simp add: link_losses_def comp_def)

lemma fst_placed [simp]: "map fst (placed_at d ks) = ks" "map snd (placed_at d ks) = ids_from (inode_seq d) (length ks)"
  by (simp_all add: placed_at_def)

lemma placed_facts:
  assumes "batch_ok sid d ks rs"
  shows "distinct (map fst (placed_at d ks))" "distinct (map snd (placed_at d ks))"
    "\<And>k i. (k, i) \<in> set (placed_at d ks) \<Longrightarrow> k \<in> set ks \<and> inode_seq d \<le> i \<and> i < inode_seq d + int (length ks)"
  using assms by (auto simp: placed_at_def batch_ok_def dest: set_zip_leftD set_zip_rightD)

text \<open>The fresh inodes after the first batch.\<close>

lemma batch_fresh:
  assumes ok: "batch_ok sid d ks rs" and i: "(k, i) \<in> set (placed_at d ks)"
  shows "in_sandbox sid i (fold add_inode rs d)" "\<not> is_root (fold add_inode rs d) i" "links (fold add_inode rs d) i = {}"
    "dir_of sid (fst k) (fold add_inode rs d)"
proof -
  have wf: "wf_db d" and len: "length rs = length ks" using ok by (simp_all add: batch_ok_def)
  note at = placed_facts(3) [OF ok i]
  have none: "node d i = None" using wf at by (auto simp: wf_off_def wf_ids_def)
  have "rs ! nat (i - inode_seq d) \<in> set rs" using at len by (intro nth_mem) linarith
  then show "in_sandbox sid i (fold add_inode rs d)" using ok at len by (simp add: in_sandbox_def node_add_inodes batch_ok_def)
  show "\<not> is_root (fold add_inode rs d) i" using wf_root_node [OF wf, of i] none by (auto simp: is_root_def)
  show "links (fold add_inode rs d) i = {}" using wf_no_node_no_links [OF wf none] by simp
  obtain pr where pr: "node d (fst k) = Some pr" "i_kind pr = DIRECTORY" "i_sandbox pr = sid"
    using ok at by (auto simp: batch_ok_def dir_of_def)
  then have "fst k < inode_seq d" using wf by (auto simp: wf_off_def wf_ids_def)
  then show "dir_of sid (fst k) (fold add_inode rs d)" using pr by (simp add: dir_of_def node_add_inodes)
qed

lemma filter_counts:
  "count_list (map f (filter P xs)) j + count_list (map f (filter (\<lambda>x. \<not> P x) xs)) j = count_list (map f xs) j"
  by (induction xs) auto

lemma count_distinct: "distinct xs \<Longrightarrow> int (count_list xs j) = (if j \<in> set xs then 1 else 0)"
  by (induction xs) auto

text \<open>The inodes that lose a link: files or links of the sandbox, older than the batch.\<close>

lemma batch_replaced:
  assumes ok: "batch_ok sid d ks rs" and j: "j \<in> set (replaced_by d ks)"
  shows "j < inode_seq d" "\<not> is_root d j" "\<And>r. node d j = Some r \<Longrightarrow> i_kind r \<noteq> DIRECTORY \<and> i_sandbox r = sid" "node d j \<noteq> None"
proof -
  have wf: "wf_db d" using ok by (simp add: batch_ok_def)
  obtain k i where k: "(k, i) \<in> set (placed_at d ks)" "child d (fst k) (snd k) = Some j"
    using j by (auto simp: replaced_by_def)
  have ks: "k \<in> set ks" using placed_facts(3) [OF ok k(1)] by blast
  show "\<not> is_root d j" using wf_linked(2) [OF wf k(2)] .
  have own: "in_sandbox sid j d"
    using wf_child_own [OF wf _ k(2)] ok ks by (auto simp: batch_ok_def intro: dir_of_in_sandbox)
  then show "j < inode_seq d" using wf by (auto simp: in_sandbox_def wf_off_def wf_ids_def)
  show "i_kind r \<noteq> DIRECTORY \<and> i_sandbox r = sid" if "node d j = Some r" for r
    using ok ks k(2) own that by (auto simp: batch_ok_def in_sandbox_def)
  show "node d j \<noteq> None" using own by (auto simp: in_sandbox_def)
qed

lemma is_root_stages [simp]:
  "is_root (fold add_inode rs d) = is_root d" "is_root (repointed sid ks rs d) = is_root d" "is_root (lowered sid ks rs d) = is_root d"
  "is_root (reaped sid ks rs d) = is_root d" "root_of (store_db sid ks rs d) = root_of d" "version_of (store_db sid ks rs d) = version_of d"
  by (simp_all add: is_root_def fun_eq_iff store_stages)

lemma distinct_placed:
  assumes "batch_ok sid d ks rs"
  shows "distinct (map fst (filter P (placed_at d ks)))" "distinct (map snd (filter P (placed_at d ks)))"
  using placed_facts(1,2) [OF assms] by (simp_all only: distinct_map_filter)

lemma wf_repointed:
  assumes ok: "batch_ok sid d ks rs"
  shows "wf_off (\<lambda>j. (if inode_seq d \<le> j \<and> j < inode_seq d + int (length ks) then 1 else 0) + int (count_list (replaced_by d ks) j)
     - int (count_list (map snd (filter (\<lambda>(k, i). occupied d k) (placed_at d ks))) j)) (repointed sid ks rs d)"
proof -
  let ?d = "fold add_inode rs d" and ?U = "filter (\<lambda>(k, i). occupied d k) (placed_at d ks)"
  have wf: "wf_db d" and len: "length rs = length ks" using ok by (simp_all add: batch_ok_def)
  have old: "map (\<lambda>(k, i). d_inode (the (map_of (dirents ?d) k))) ?U = replaced_by d ks"
    by (auto simp: replaced_by_def child_def)
  have "\<forall>(k, i) \<in> set ?U. map_of (dirents ?d) k \<noteq> None \<and> dir_of sid (fst k) ?d \<and> in_sandbox sid i ?d \<and> \<not> is_root ?d i \<and> links ?d i = {}"
    using batch_fresh [OF ok] by (auto simp: child_def)
  from wf_repoints [OF wf_add_inodes [OF wf] distinct_placed [OF ok] this] show ?thesis
    using ok unfolding old repointed_def len by (simp add: batch_ok_def)
qed

lemma wf_lowered:
  assumes ok: "batch_ok sid d ks rs"
  shows "wf_off (\<lambda>j. int (count_list (map snd (filter (\<lambda>(k, i). \<not> occupied d k) (placed_at d ks))) j)) (lowered sid ks rs d)"
proof -
  let ?P = "placed_at d ks" and ?occ = "\<lambda>(k, i). occupied d k"
  have neg: "(\<lambda>(k, i). \<not> occupied d k) = (\<lambda>x. \<not> ?occ x)" by (simp add: fun_eq_iff)
  have all: "int (count_list (map snd ?P) j) = (if inode_seq d \<le> j \<and> j < inode_seq d + int (length ks) then 1 else 0)" for j
    by (simp add: count_distinct)
  have counts: "int (count_list (map snd (filter (\<lambda>(k, i). \<not> occupied d k) ?P)) j) =
      (if inode_seq d \<le> j \<and> j < inode_seq d + int (length ks) then 1 else 0) - int (count_list (map snd (filter ?occ ?P)) j)" for j
    using arg_cong [OF filter_counts [of snd ?occ ?P j], of int] unfolding neg of_nat_add all by linarith
  have eq: "(if inode_seq d \<le> j \<and> j < inode_seq d + int (length ks) then 1 else 0) + int (count_list (replaced_by d ks) j)
      - int (count_list (map snd (filter ?occ ?P)) j) - (case map_of (link_losses (replaced_by d ks)) j of None \<Rightarrow> 0 | Some c \<Rightarrow> c)
    = int (count_list (map snd (filter (\<lambda>(k, i). \<not> occupied d k) ?P)) j)" for j
    unfolding counts map_of_link_losses by (cases "j \<in> set (replaced_by d ks)") (simp_all add: count_notin)
  have "distinct (map fst (link_losses (replaced_by d ks)))" by simp
  from wf_lowers [OF wf_repointed [OF ok] this] show ?thesis unfolding lowered_def [symmetric] eq .
qed

lemma node_lowered:
  "node (lowered sid ks rs d) j =
     map_option (\<lambda>r. r\<lparr>i_nlink := i_nlink r - (if j \<in> set (replaced_by d ks) then int (count_list (replaced_by d ks) j) else 0)\<rparr>)
       (node (fold add_inode rs d) j)"
  by (simp add: lowered_def repointed_def node_lowers map_of_link_losses)

lemma wf_reaped:
  assumes ok: "batch_ok sid d ks rs"
  shows "wf_off (\<lambda>j. int (count_list (map snd (filter (\<lambda>(k, i). \<not> occupied d k) (placed_at d ks))) j)) (reaped sid ks rs d)"
    and "dirents (reaped sid ks rs d) = dirents (repointed sid ks rs d)"
proof -
  have "j \<notin> snd ` set (placed_at d ks) \<and> \<not> is_root d j \<and> (\<forall>r. node (lowered sid ks rs d) j = Some r \<longrightarrow> i_kind r \<noteq> DIRECTORY)"
    if j: "j \<in> set (replaced_by d ks)" for j
    using batch_replaced [OF ok j] placed_facts(3) [OF ok] by (force simp: node_lowered node_add_inodes)
  then have "\<forall>j \<in> set (js_set (replaced_by d ks)). int (count_list (map snd (filter (\<lambda>(k, i). \<not> occupied d k) (placed_at d ks))) j) = 0
      \<and> \<not> is_root (lowered sid ks rs d) j \<and> (\<forall>r. node (lowered sid ks rs d) j = Some r \<longrightarrow> i_kind r \<noteq> DIRECTORY)"
    by (force simp: count_list_0_iff)
  from wf_reaps [OF wf_lowered [OF ok] this]
  show "wf_off (\<lambda>j. int (count_list (map snd (filter (\<lambda>(k, i). \<not> occupied d k) (placed_at d ks))) j)) (reaped sid ks rs d)"
    "dirents (reaped sid ks rs d) = dirents (repointed sid ks rs d)"
    by (simp_all add: reaped_def lowered_def)
qed

lemma child_map: "child d p n = map_option d_inode (map_of (dirents d) (p, n))"
  by (simp add: child_def)

lemma dirents_reaped:
  assumes ok: "batch_ok sid d ks rs"
  shows "map_of (dirents (reaped sid ks rs d)) k =
    (case map_of (filter (\<lambda>(k, i). occupied d k) (placed_at d ks)) k of
       None \<Rightarrow> map_of (dirents d) k | Some i \<Rightarrow> Some \<lparr>d_inode = i, d_sandbox = sid\<rparr>)"
  unfolding wf_reaped(2) [OF ok] repointed_def
  by (subst map_of_set_entries [OF distinct_placed(1) [OF ok]]) (simp only: add_inodes_simps)

lemma map_of_filter_keys:
  "map_of (filter (\<lambda>(k, i). P k) xs) k = (if P k then map_of xs k else None)"
  by (induction xs) auto

lemma reaped_fresh:
  assumes ok: "batch_ok sid d ks rs" and at: "(k, i) \<in> set (placed_at d ks)" "\<not> occupied d k"
  shows "map_of (dirents (reaped sid ks rs d)) k = None" "dir_of sid (fst k) (reaped sid ks rs d)"
    "in_sandbox sid i (reaped sid ks rs d)" "links (reaped sid ks rs d) i = {}"
proof -
  let ?d = "reaped sid ks rs d"
  note fresh = batch_fresh [OF ok at(1)] and in_ks = placed_facts(3) [OF ok at(1)]
  have new: "j \<notin> set (replaced_by d ks)" if "inode_seq d \<le> j" for j using batch_replaced(1) [OF ok] that by force
  show "map_of (dirents ?d) k = None" using at(2) by (simp add: dirents_reaped [OF ok] map_of_filter_keys) (simp add: child_def)
  show "dir_of sid (fst k) ?d"
  proof -
    obtain pr where pr: "node d (fst k) = Some pr" "i_kind pr = DIRECTORY" using ok in_ks by (auto simp: batch_ok_def dir_of_def)
    then have "fst k \<notin> set (replaced_by d ks)" using batch_replaced(3) [OF ok] by blast
    then have "node ?d (fst k) = node (fold add_inode rs d) (fst k)"
      by (cases "node (fold add_inode rs d) (fst k)") (simp_all add: reaped_def node_reaps node_lowered)
    then show ?thesis using fresh(4) by (simp add: dir_of_def)
  qed
  show "in_sandbox sid i ?d" using fresh(1) new in_ks by (auto simp: in_sandbox_def reaped_def node_reaps node_lowered)
  have "map_option d_inode (map_of (dirents ?d) k') \<noteq> Some i" for k'
  proof (cases "map_of (filter (\<lambda>(k, i). occupied d k) (placed_at d ks)) k'")
    case None
    then show ?thesis using fresh(3) mem_links_iff [of k' "fold add_inode rs d" i] by (auto simp: dirents_reaped [OF ok])
  next
    case (Some i')
    then have i': "(k', i') \<in> set (placed_at d ks)" "occupied d k'" by (auto dest: map_of_SomeD)
    have "inj_on snd (set (placed_at d ks))" using iffD1 [OF distinct_map placed_facts(2) [OF ok]] by blast
    then have "i' \<noteq> i" using i' at inj_onD [of snd "set (placed_at d ks)" "(k', i')" "(k, i)"] by auto
    then show ?thesis using Some by (simp add: dirents_reaped [OF ok])
  qed
  then show "links ?d i = {}" by (simp add: links_def)
qed

lemma wf_store_db:
  assumes ok: "batch_ok sid d ks rs"
  shows "wf_db (store_db sid ks rs d)"
proof -
  let ?F = "filter (\<lambda>(k, i). \<not> occupied d k) (placed_at d ks)" and ?d = "reaped sid ks rs d"
  have "\<forall>(k, i) \<in> set ?F. map_of (dirents ?d) k = None \<and> valid_name (snd k) \<and> dir_of sid (fst k) ?d \<and> in_sandbox sid i ?d \<and> \<not> is_root ?d i \<and> links ?d i = {}"
  proof safe
    fix p n i assume at: "((p, n), i) \<in> set ?F"
    then have at: "((p, n), i) \<in> set (placed_at d ks)" "\<not> occupied d (p, n)" by auto
    show "valid_name (snd (p, n))" using placed_facts(3) [OF ok at(1)] ok by (auto simp: batch_ok_def)
    show "False" if "is_root ?d i" using batch_fresh(2) [OF ok at(1)] that by simp
    show "x \<in> {}" if "x \<in> links ?d i" for x using reaped_fresh(4) [OF ok at] that by simp
  qed (use reaped_fresh [OF ok] in auto)
  from wf_set_entries [OF wf_reaped(1) [OF ok] distinct_placed [OF ok] this] show ?thesis
    by (simp add: store_db_def)
qed

lemma child_store_db:
  assumes ok: "batch_ok sid d ks rs"
  shows "child (store_db sid ks rs d) p n = (case map_of (placed_at d ks) (p, n) of None \<Rightarrow> child d p n | Some i \<Rightarrow> Some i)"
  unfolding child_def store_db_def
  by (subst map_of_set_entries [OF distinct_placed(1) [OF ok]])
    (auto simp: dirents_reaped [OF ok] map_of_filter_keys child_def split: option.split)

lemma node_store_db:
  assumes ok: "batch_ok sid d ks rs"
  shows "inode_seq d \<le> j \<Longrightarrow> j < inode_seq d + int (length ks) \<Longrightarrow> node (store_db sid ks rs d) j = Some (rs ! nat (j - inode_seq d))"
    and "j < inode_seq d \<Longrightarrow> node (store_db sid ks rs d) j = Some r \<Longrightarrow> \<exists>x. node d j = Some (r\<lparr>i_nlink := x\<rparr>)"
proof -
  have len: "length rs = length ks" using ok by (simp add: batch_ok_def)
  have node: "node (store_db sid ks rs d) j = (if j \<in> set (replaced_by d ks) \<and> (\<exists>r. node (lowered sid ks rs d) j = Some r \<and> i_nlink r \<le> 0)
      then None else node (lowered sid ks rs d) j)"
    by (simp add: store_db_def reaped_def node_reaps)
  show "node (store_db sid ks rs d) j = Some (rs ! nat (j - inode_seq d))" if "inode_seq d \<le> j" "j < inode_seq d + int (length ks)"
    using that batch_replaced(1) [OF ok, of j] len by (auto simp: node node_lowered node_add_inodes)
  have same: "\<exists>x. r = r\<lparr>i_nlink := x\<rparr>" for r :: inode_row by (rule exI [of _ "i_nlink r"]) simp
  show "\<exists>x. node d j = Some (r\<lparr>i_nlink := x\<rparr>)" if "j < inode_seq d" "node (store_db sid ks rs d) j = Some r"
    using that by (auto simp: node node_lowered node_add_inodes same split: if_splits)
qed

section \<open>The statements of the batch\<close>

lemma repoint_ready:
  assumes rd: "ready sid e tx" and x: "map_of (dirents (t_db tx)) k = Some x" "d_sandbox x = sid" and i: "node (t_db tx) i \<noteq> None"
  shows "repoint_dirent (k, i) tx = (Inr (), on_db (set_entry sid (k, i)) tx)"
proof -
  have "get_dirent tx k = Some x" using x rd by (simp add: get_dirent_def)
  moreover have "map_of (inodes (t_db tx)) i \<noteq> None" using i by (simp add: node_def)
  moreover have "x\<lparr>d_inode := i\<rparr> = \<lparr>d_inode = i, d_sandbox = sid\<rparr>" using x(2) by (cases x) simp
  ultimately show ?thesis by (auto simp: repoint_dirent_def set_entry_def)
qed

lemma lower_ready:
  assumes "ready sid e tx" and "\<And>r. node (t_db tx) (fst v) = Some r \<Longrightarrow> i_sandbox r = sid"
  shows "lower_nlink v tx = (Inr (), on_db (lower_db v) tx)"
proof -
  have "get_inode tx (fst v) = node (t_db tx) (fst v)" using assms by (auto simp: get_inode_def node_def split: option.split)
  then show ?thesis by (cases "node (t_db tx) (fst v)") (simp_all add: lower_nlink_def lower_db_def on_db_def)
qed

lemma reap_ready:
  assumes "ready sid e tx" and "\<And>r. node (t_db tx) i = Some r \<Longrightarrow> i_sandbox r = sid"
  shows "delete_unlinked i tx = (Inr (), on_db (reap_db i) tx)"
proof -
  have "get_inode tx i = node (t_db tx) i" using assms by (auto simp: get_inode_def node_def split: option.split)
  then show ?thesis by (cases "node (t_db tx) i") (simp_all add: delete_unlinked_def reap_db_def on_db_def)
qed

lemma for_each_repoint:
  assumes "ready sid e tx" and "\<forall>(k, i) \<in> set us. (\<exists>x. map_of (dirents (t_db tx)) k = Some x \<and> d_sandbox x = sid) \<and> node (t_db tx) i \<noteq> None"
  shows "for_each us repoint_dirent tx = (Inr (), on_db (fold (set_entry sid) us) tx)"
proof (rule for_each_on_db [where P = "\<lambda>tx. ready sid e tx \<and>
    (\<forall>(k, i) \<in> set us. (\<exists>x. map_of (dirents (t_db tx)) k = Some x \<and> d_sandbox x = sid) \<and> node (t_db tx) i \<noteq> None)"])
  fix v tx assume P: "ready sid e tx \<and> (\<forall>(k, i) \<in> set us. (\<exists>x. map_of (dirents (t_db tx)) k = Some x \<and> d_sandbox x = sid) \<and> node (t_db tx) i \<noteq> None)"
    and v: "v \<in> set us"
  obtain k i where ki: "v = (k, i)" by (cases v)
  obtain x where x: "map_of (dirents (t_db tx)) k = Some x" "d_sandbox x = sid" "node (t_db tx) i \<noteq> None" using P v ki by auto
  have "ready sid e (on_db (set_entry sid v) tx)" using P by (intro ready_on_db) simp_all
  then show "repoint_dirent v tx = (Inr (), on_db (set_entry sid v) tx) \<and>
     (ready sid e (on_db (set_entry sid v) tx) \<and> (\<forall>(k, i) \<in> set us. (\<exists>x. map_of (dirents (t_db (on_db (set_entry sid v) tx))) k = Some x
        \<and> d_sandbox x = sid) \<and> node (t_db (on_db (set_entry sid v) tx)) i \<noteq> None))"
    using P repoint_ready [of sid e tx k x i] x unfolding ki by (auto; force)
qed (use assms in simp)

lemma for_each_lower:
  assumes "ready sid e tx" and "\<forall>v \<in> set ls. \<forall>r. node (t_db tx) (fst v) = Some r \<longrightarrow> i_sandbox r = sid"
  shows "for_each ls lower_nlink tx = (Inr (), on_db (fold lower_db ls) tx)"
proof (rule for_each_on_db [where P = "\<lambda>tx. ready sid e tx \<and> (\<forall>v \<in> set ls. \<forall>r. node (t_db tx) (fst v) = Some r \<longrightarrow> i_sandbox r = sid)"])
  fix v tx assume P: "ready sid e tx \<and> (\<forall>v \<in> set ls. \<forall>r. node (t_db tx) (fst v) = Some r \<longrightarrow> i_sandbox r = sid)" and v: "v \<in> set ls"
  have "ready sid e (on_db (lower_db v) tx)" using P by (intro ready_on_db) simp_all
  then show "lower_nlink v tx = (Inr (), on_db (lower_db v) tx) \<and>
     (ready sid e (on_db (lower_db v) tx) \<and> (\<forall>w \<in> set ls. \<forall>r. node (t_db (on_db (lower_db v) tx)) (fst w) = Some r \<longrightarrow> i_sandbox r = sid))"
    using P v lower_ready [of sid e tx v] by (auto simp: node_lower_db split: if_splits)
qed (use assms in simp)

lemma for_each_reap:
  assumes "ready sid e tx" and "\<forall>i \<in> set is. \<forall>r. node (t_db tx) i = Some r \<longrightarrow> i_sandbox r = sid"
  shows "for_each is delete_unlinked tx = (Inr (), on_db (fold reap_db is) tx)"
proof (rule for_each_on_db [where P = "\<lambda>tx. ready sid e tx \<and> (\<forall>i \<in> set is. \<forall>r. node (t_db tx) i = Some r \<longrightarrow> i_sandbox r = sid)"])
  fix i tx assume P: "ready sid e tx \<and> (\<forall>i \<in> set is. \<forall>r. node (t_db tx) i = Some r \<longrightarrow> i_sandbox r = sid)" and i: "i \<in> set is"
  have "ready sid e (on_db (reap_db i) tx)" using P by (intro ready_on_db) simp_all
  then show "delete_unlinked i tx = (Inr (), on_db (reap_db i) tx) \<and>
     (ready sid e (on_db (reap_db i) tx) \<and> (\<forall>j \<in> set is. \<forall>r. node (t_db (on_db (reap_db i) tx)) j = Some r \<longrightarrow> i_sandbox r = sid))"
    using P i reap_ready [of sid e tx i] by (auto simp: node_reap_db split: if_splits)
qed (use assms in simp)

lemma batch_entry:
  assumes ok: "batch_ok sid d ks rs" and k: "(k, i) \<in> set (placed_at d ks)" "occupied d k"
  shows "\<exists>x. map_of (dirents d) k = Some x \<and> d_sandbox x = sid"
proof -
  have wf: "wf_db d" "in_sandbox sid (fst k) d" using ok placed_facts(3) [OF ok k(1)] by (auto simp: batch_ok_def intro: dir_of_in_sandbox)
  obtain x where "map_of (dirents d) (fst k, snd k) = Some x" using k(2) by (auto simp: child_def)
  then show ?thesis using wf_entry_own(1) [OF wf, of "snd k" x] by auto
qed

lemma store_statements_ready:
  assumes rd: "ready sid e tx" and ok: "batch_ok sid (t_db tx) ks rs"
  defines "occ \<equiv> \<lambda>(k :: int \<times> string, i :: int). occupied (t_db tx) k"
  shows "and_then (for_each (filter occ (placed_at (t_db tx) ks)) repoint_dirent) (\<lambda>_.
     and_then (for_each (link_losses (replaced_by (t_db tx) ks)) lower_nlink) (\<lambda>_.
     and_then (for_each (map fst (link_losses (replaced_by (t_db tx) ks))) delete_unlinked) (\<lambda>_.
     and_then (insert_dirents (with_sandbox sid (filter (\<lambda>x. \<not> occ x) (placed_at (t_db tx) ks)))) K))) (on_db (fold add_inode rs) tx)
   = K () (on_db (store_db sid ks rs) tx)"
proof -
  let ?d = "t_db tx" and ?U = "filter occ (placed_at (t_db tx) ks)" and ?F = "filter (\<lambda>x. \<not> occ x) (placed_at (t_db tx) ks)"
  have occ: "?U = filter (\<lambda>(k, i). occupied ?d k) (placed_at ?d ks)" "?F = filter (\<lambda>(k, i). \<not> occupied ?d k) (placed_at ?d ks)"
    by (simp_all add: occ_def case_prod_unfold)
  define tx1 where "tx1 = on_db (fold add_inode rs) tx"
  define tx2 where "tx2 = on_db (\<lambda>_. repointed sid ks rs ?d) tx"
  define tx3 where "tx3 = on_db (\<lambda>_. lowered sid ks rs ?d) tx"
  define tx4 where "tx4 = on_db (\<lambda>_. reaped sid ks rs ?d) tx"
  have ready: "ready sid e tx1" "ready sid e tx2" "ready sid e tx3" "ready sid e tx4"
    unfolding tx1_def tx2_def tx3_def tx4_def by (rule ready_on_db [OF rd], simp add: store_stages)+
  note fresh = batch_fresh [OF ok] and old = batch_replaced [OF ok]
  have 1: "for_each ?U repoint_dirent tx1 = (Inr (), tx2)"
  proof -
    have "\<forall>(k, i) \<in> set ?U. (\<exists>x. map_of (dirents (t_db tx1)) k = Some x \<and> d_sandbox x = sid) \<and> node (t_db tx1) i \<noteq> None"
      using batch_entry [OF ok] fresh(1) by (fastforce simp: occ_def tx1_def in_sandbox_def)
    from for_each_repoint [OF ready(1) this] show ?thesis
      by (simp add: tx1_def tx2_def repointed_def occ on_db_def)
  qed
  have nodes: "node (repointed sid ks rs ?d) j = Some r \<Longrightarrow> j \<in> set (replaced_by ?d ks) \<Longrightarrow> i_sandbox r = sid" for j r
    using old(1) [of j] old(3) [of j] by (auto simp: repointed_def node_add_inodes split: if_splits)
  have 2: "for_each (link_losses (replaced_by ?d ks)) lower_nlink tx2 = (Inr (), tx3)"
  proof -
    have "fst v \<in> set (replaced_by ?d ks)" if "v \<in> set (link_losses (replaced_by ?d ks))" for v
      using that by (auto simp: link_losses_def)
    then show ?thesis using for_each_lower [OF ready(2)] nodes by (simp add: tx2_def tx3_def lowered_def on_db_def)
  qed
  have 3: "for_each (map fst (link_losses (replaced_by ?d ks))) delete_unlinked tx3 = (Inr (), tx4)"
  proof -
    have "\<forall>j \<in> set (js_set (replaced_by ?d ks)). \<forall>r. node (t_db tx3) j = Some r \<longrightarrow> i_sandbox r = sid"
      using nodes by (force simp: tx3_def node_lowered repointed_def)
    from for_each_reap [OF ready(3) this] show ?thesis by (simp add: tx3_def tx4_def reaped_def on_db_def)
  qed
  have 4: "insert_dirents (with_sandbox sid ?F) tx4 = (Inr (), on_db (store_db sid ks rs) tx)"
  proof -
    have "\<forall>(k, i) \<in> set ?F. map_of (dirents (t_db tx4)) k = None \<and> node (t_db tx4) (fst k) \<noteq> None \<and> node (t_db tx4) i \<noteq> None"
      using reaped_fresh(1,2,3) [OF ok] by (fastforce simp: occ_def tx4_def dir_of_def in_sandbox_def)
    from insert_dirents_ready [OF ready(4) distinct_placed(1) [OF ok] this] show ?thesis
      by (simp add: tx4_def store_db_def occ on_db_def)
  qed
  show ?thesis using 1 2 3 4 by (simp add: and_then_def tx1_def [symmetric])
qed

lemma store_files_ready:
  assumes rd: "ready sid e tx" and ok: "batch_ok sid (t_db tx) (map hf_slot hs) (map (ingest_file_row sid (t_now tx)) hs)"
    and ex: "\<And>k. k \<in> set (map hf_slot hs) \<Longrightarrow> map_of existing k = child (t_db tx) (fst k) (snd k)"
  shows "store_files sid hs existing result tx =
    (Inr (fold (\<lambda>(h, i). AList.update (if_path (hf_file h)) (ingest_file_entry i (t_now tx) h))
        (zip hs (ids_from (inode_seq (t_db tx)) (length hs))) result),
     on_db (store_db sid (map hf_slot hs) (map (ingest_file_row sid (t_now tx)) hs)) tx)"
proof -
  let ?ks = "map hf_slot hs" and ?rs = "map (ingest_file_row sid (t_now tx)) hs" and ?d = "t_db tx"
  have rows: "insert_inodes ?rs tx = (Inr (ids_from (inode_seq ?d) (length hs)), on_db (fold add_inode ?rs) tx)"
    using insert_inodes_ready [OF rd, of ?rs] ok by (simp add: batch_ok_def)
  have placed: "zip ?ks (ids_from (inode_seq ?d) (length hs)) = placed_at ?d ?ks" by (simp add: placed_at_def)
  have keys: "map_of existing (fst v) = child ?d (fst (fst v)) (snd (fst v))" if "v \<in> set (placed_at ?d ?ks)" for v
    using that placed_facts(3) [OF ok, of "fst v" "snd v"] ex by simp
  have occ: "filter (\<lambda>(k, i). map_of existing k \<noteq> None) (placed_at ?d ?ks) = filter (\<lambda>(k, i). occupied ?d k) (placed_at ?d ?ks)"
    "filter (\<lambda>(k, i). map_of existing k = None) (placed_at ?d ?ks) = filter (\<lambda>v. \<not> (case v of (k, i) \<Rightarrow> occupied ?d k)) (placed_at ?d ?ks)"
    using keys by (auto intro!: filter_cong)
  have losses: "map (\<lambda>(k, i). the (map_of existing k)) (filter (\<lambda>(k, i). occupied ?d k) (placed_at ?d ?ks)) = replaced_by ?d ?ks"
    using keys by (force simp: replaced_by_def)
  have "and_then (insert_inodes ?rs) k tx = k (ids_from (inode_seq ?d) (length hs)) (on_db (fold add_inode ?rs) tx)" for k :: "int list \<Rightarrow> path_rows pg"
    using rows by (simp add: and_then_def)
  then show ?thesis
    unfolding store_files_def Let_def placed occ losses store_statements_ready [OF rd ok] by (simp only: placed occ losses store_statements_ready [OF rd ok]) simp
qed

end
