(* ===== verification/IngestDirs.thy ===== *)
theory IngestDirs
  imports SessionOps IngestTables
begin

text \<open>
  Bulk ingest keeps the view of the session in step with the tables: while it runs, a cache that has received the
  entries created so far is in sync with the transaction, and the entries it returns are exactly those changes.
\<close>

section \<open>Directories\<close>

abbreviation apply_entries :: "path_rows \<Rightarrow> path_rows \<Rightarrow> path_rows" where
  "apply_entries rs c \<equiv> fold (\<lambda>(p, e). AList.update p e) rs c"

lemma apply_entries_new: "map_of rs p = None \<Longrightarrow> apply_entries (AList.update p e rs) c = AList.update p e (apply_entries rs c)"
proof -
  assume "map_of rs p = None"
  then have "AList.update p e rs = rs @ [(p, e)]" by (induction rs) (auto split: if_splits)
  then show ?thesis by simp
qed

lemma apply_entries_keeps: "map_of c p \<noteq> None \<or> map_of rs p \<noteq> None \<Longrightarrow> map_of (apply_entries rs c) p \<noteq> None"
  by (induction rs arbitrary: c) (auto simp: update_conv split: if_splits)

lemma in_sync_add_node:
  assumes s: "in_sync sid e r id c tx" and q: "valid_names (ps @ [n])"
    and p: "map_of c (path_of ps) = Some pe" "pe_kind pe = DIRECTORY" and free: "map_of c (path_of (ps @ [n])) = None"
    and row: "i_sandbox row = sid" "i_nlink row = 1"
    and y: "norm_entry id y = norm_entry id (entry_of_row (inode_seq (t_db tx)) row)"
  shows "in_sync sid e r id (AList.update (path_of (ps @ [n])) y c) (on_db (add_node sid (pe_inode pe) n row) tx)"
proof -
  have wf: "wf_db (t_db tx)" and root: "root_of (t_db tx) sid = Some r" and rd: "ready sid e tx" using s by (simp_all add: in_sync_def)
  have v: "valid_names ps" "valid_name n" using q by simp_all
  note dir = in_sync_dir [OF s v(1) p, unfolded id_apply]
  have none: "child (t_db tx) (pe_inode pe) n = None" using in_sync_child [OF s q dir(2)] free by simp
  have ino: "pe_inode y = inode_seq (t_db tx)" using norm_entry_eqD(1) [OF y] by (simp add: entry_of_row_def)
  have "in_sync sid e r id (AList.update (path_of (ps @ [n])) y c) (on_db (add_node sid (pe_inode pe) n row) tx)
     \<and> inos (AList.update (path_of (ps @ [n])) y c) \<subseteq> inos c \<union> set [inode_seq (t_db tx)]"
  proof (rule in_sync_set [OF s q])
    show "ready sid e (on_db (add_node sid (pe_inode pe) n row) tx)" by (rule ready_on_db [OF rd]) simp
    show "wf_db (t_db (on_db (add_node sid (pe_inode pe) n row) tx))" using wf_add_node [OF wf dir(1) none v(2) row] by simp
    show "db_lookup (t_db (on_db (add_node sid (pe_inode pe) n row) tx)) r =
        tree_set (ps @ [n]) (entry_of_row (inode_seq (t_db tx)) row) (db_lookup (t_db tx) r)"
      using lookup_add_node [OF wf root dir(2,1)] by simp
  qed (use free root y ino wf_fresh [OF wf] in auto)
  then show ?thesis by blast
qed

lemma existing_row_sync:
  assumes s: "in_sync sid e r id c tx" and q: "valid_names (ps @ [n])" and p: "map_of c (path_of ps) = Some pe" "pe_kind pe = DIRECTORY"
  shows "existing_row tx (pe_inode pe, n) = map_option (\<lambda>x. (pe_inode x, pe_kind x)) (map_of c (path_of (ps @ [n])))"
proof -
  have rd: "ready sid e tx" and wf: "wf_db (t_db tx)" using s by (simp_all add: in_sync_def)
  have v: "valid_names ps" using q by simp
  note dir = in_sync_dir [OF s v p, unfolded id_apply]
  have own: "in_sandbox sid (pe_inode pe) (t_db tx)" using dir(1) by (simp add: dir_of_in_sandbox)
  have get: "get_dirent tx (pe_inode pe, n) = map_of (dirents (t_db tx)) (pe_inode pe, n)" by (rule get_dirent_ready [OF rd wf]) (use own in simp)
  show ?thesis
  proof (cases "map_of c (path_of (ps @ [n]))")
    case None
    then have "map_of (dirents (t_db tx)) (pe_inode pe, n) = None" using in_sync_child [OF s q dir(2)] by (simp add: child_def)
    then show ?thesis using None get by (simp add: existing_row_def)
  next
    case (Some x)
    then obtain d where d: "map_of (dirents (t_db tx)) (pe_inode pe, n) = Some d" "d_inode d = pe_inode x"
      using in_sync_child [OF s q dir(2)] by (auto simp: child_def)
    obtain row where row: "node (t_db tx) (pe_inode x) = Some row" "i_kind row = pe_kind x" "i_sandbox row = sid"
      using in_sync_entry [OF s q Some] by auto
    have "get_inode tx (pe_inode x) = Some row" using get_inode_ready [OF rd, of "pe_inode x"] row by (auto simp: in_sandbox_def)
    then show ?thesis using Some get d row by (simp add: existing_row_def)
  qed
qed

definition dirs_ok :: "path_rows \<Rightarrow> (string, int) table \<Rightarrow> bool" where
  "dirs_ok c dirs \<longleftrightarrow> (\<forall>p i. map_of dirs p = Some i \<longrightarrow> (\<exists>x. map_of c p = Some x \<and> pe_kind x = DIRECTORY \<and> pe_inode x = i))"

definition slot_ok :: "path_rows \<Rightarrow> string \<Rightarrow> int \<Rightarrow> string \<Rightarrow> bool" where
  "slot_ok c path parent name \<longleftrightarrow> (\<exists>ps pe. valid_names (ps @ [name]) \<and> path = path_of (ps @ [name])
     \<and> map_of c (path_of ps) = Some pe \<and> pe_kind pe = DIRECTORY \<and> pe_inode pe = parent)"

lemma slot_of_parent:
  assumes "dirs_ok c dirs" and "valid_names segs" "segs \<noteq> []" and "map_of dirs (path_of (butlast segs)) = Some i"
  shows "slot_ok c (path_of segs) i (last segs)"
proof -
  obtain ps n where "segs = ps @ [n]" using assms(3) by (cases segs rule: rev_cases) auto
  then show ?thesis using assms by (auto simp: slot_ok_def dirs_ok_def)
qed

lemma slot_grows:
  assumes "slot_ok c path parent name" and "\<And>p x. map_of c p = Some x \<Longrightarrow> map_of c' p = Some x"
  shows "slot_ok c' path parent name"
  using assms unfolding slot_ok_def by blast

lemma slot_unique:
  assumes s: "in_sync sid e r id c tx" and "slot_ok c path parent name" and "slot_ok c path' parent name"
  shows "path = path'"
proof -
  obtain ps pe where a: "valid_names (ps @ [name])" "path = path_of (ps @ [name])" "map_of c (path_of ps) = Some pe" "pe_kind pe = DIRECTORY" "pe_inode pe = parent"
    using assms(2) by (auto simp: slot_ok_def)
  obtain qs qe where b: "valid_names (qs @ [name])" "path' = path_of (qs @ [name])" "map_of c (path_of qs) = Some qe" "pe_kind qe = DIRECTORY" "pe_inode qe = parent"
    using assms(3) by (auto simp: slot_ok_def)
  have "ps = qs" by (rule in_sync_dir_unique [OF s _ a(3,4) _ b(3,4)]) (use a b in auto)
  then show ?thesis using a b by simp
qed

lemma slot_row:
  assumes s: "in_sync sid e r id c tx" and ok: "slot_ok c path parent name"
  shows "existing_row tx (parent, name) = map_option (\<lambda>x. (pe_inode x, pe_kind x)) (map_of c path)"
    and "child (t_db tx) parent name = map_option pe_inode (map_of c path)" and "dir_of sid parent (t_db tx)" and "valid_name name"
proof -
  obtain ps pe where a: "valid_names (ps @ [name])" "path = path_of (ps @ [name])" "map_of c (path_of ps) = Some pe" "pe_kind pe = DIRECTORY" "pe_inode pe = parent"
    using ok by (auto simp: slot_ok_def)
  have v: "valid_names ps" using a(1) by simp
  note dir = in_sync_dir [OF s v a(3,4), unfolded id_apply]
  show "existing_row tx (parent, name) = map_option (\<lambda>x. (pe_inode x, pe_kind x)) (map_of c path)" using existing_row_sync [OF s a(1,3,4)] a by simp
  show "child (t_db tx) parent name = map_option pe_inode (map_of c path)" using in_sync_child [OF s a(1) dir(2)] a by (simp add: comp_def)
  show "dir_of sid parent (t_db tx)" "valid_name name" using dir(1) a by simp_all
qed

lemma dir_candidates_ok:
  assumes "dir_candidates dirs ps = Inr cs" and "dirs_ok c dirs" and "\<forall>p \<in> set ps. \<exists>segs. valid_names segs \<and> segs \<noteq> [] \<and> p = path_of segs"
  shows "map dc_path cs = filter (\<lambda>p. map_of dirs p = None) ps" and "\<forall>x \<in> set cs. slot_ok c (dc_path x) (dc_parent x) (dc_name x)"
proof -
  have "map dc_path cs = filter (\<lambda>p. map_of dirs p = None) ps \<and> (\<forall>x \<in> set cs. slot_ok c (dc_path x) (dc_parent x) (dc_name x))"
    using assms
  proof (induction ps arbitrary: cs)
    case (Cons p ps)
    show ?case
    proof (cases "map_of dirs p")
      case None
      obtain segs where segs: "valid_names segs" "segs \<noteq> []" "p = path_of segs" using Cons.prems(3) by auto
      obtain i cs' where i: "map_of dirs (path_of (butlast segs)) = Some i" "dir_candidates dirs ps = Inr cs'"
        "cs = \<lparr>dc_path = p, dc_name = last segs, dc_parent = i\<rparr> # cs'"
        using Cons.prems(1) None segs by (auto simp: Let_def split: option.splits sum.splits)
      then show ?thesis using Cons.IH [OF i(2)] Cons.prems(2,3) None slot_of_parent [OF Cons.prems(2) segs(1,2) i(1)] segs(3) by auto
    next
      case (Some i)
      then show ?thesis using Cons by auto
    qed
  qed simp
  then show "map dc_path cs = filter (\<lambda>p. map_of dirs p = None) ps" "\<forall>x \<in> set cs. slot_ok c (dc_path x) (dc_parent x) (dc_name x)" by blast+
qed

lemma adopt_dirs_ok:
  assumes "adopt_dirs tx cs dirs = Inr dirs'" and "in_sync sid e r id c tx" and "dirs_ok c dirs"
    and "\<forall>x \<in> set cs. slot_ok c (dc_path x) (dc_parent x) (dc_name x)"
  shows "dirs_ok c dirs' \<and> (\<forall>p. map_of dirs p \<noteq> None \<longrightarrow> map_of dirs' p \<noteq> None)
    \<and> (\<forall>x \<in> set cs. map_of dirs' (dc_path x) = None \<longrightarrow> map_of c (dc_path x) = None)"
  using assms
proof (induction cs arbitrary: dirs)
  case (Cons x cs)
  have row: "existing_row tx (dc_parent x, dc_name x) = map_option (\<lambda>y. (pe_inode y, pe_kind y)) (map_of c (dc_path x))"
    using slot_row(1) [OF Cons.prems(2)] Cons.prems(4) by simp
  show ?case
  proof (cases "map_of c (dc_path x)")
    case None
    then show ?thesis using Cons row by simp
  next
    case (Some y)
    then have y: "pe_kind y = DIRECTORY" "adopt_dirs tx cs (AList.update (dc_path x) (pe_inode y) dirs) = Inr dirs'"
      using Cons.prems(1) row by (auto split: if_splits)
    have "dirs_ok c (AList.update (dc_path x) (pe_inode y) dirs)"
      using Cons.prems(3) Some y(1) by (auto simp: dirs_ok_def update_conv)
    from Cons.IH [OF y(2) Cons.prems(2) this] Cons.prems(4) show ?thesis by (auto simp: update_conv split: if_splits)
  qed
qed simp

section \<open>Creating directories\<close>

abbreviation dc_slot :: "dir_candidate \<Rightarrow> int \<times> string" where
  "dc_slot x \<equiv> (dc_parent x, dc_name x)"

abbreviation new_dir_row :: "string \<Rightarrow> int \<Rightarrow> inode_row" where
  "new_dir_row sid now \<equiv> new_inode_row sid DIRECTORY 493 0 None None now"

definition made_dir :: "int \<Rightarrow> dir_candidate \<times> int \<Rightarrow> ingest_state \<Rightarrow> ingest_state" where
  "made_dir now v st = \<lparr>is_dirs = AList.update (dc_path (fst v)) (snd v) (is_dirs st),
     is_result = AList.update (dc_path (fst v)) (ingest_dir_entry (snd v) now) (is_result st)\<rparr>"

lemma fold_made_dir:
  "\<lparr>is_dirs = fold (\<lambda>(c, i). AList.update (dc_path c) i) vs (is_dirs st),
    is_result = fold (\<lambda>(c, i). AList.update (dc_path c) (ingest_dir_entry i now)) vs (is_result st)\<rparr> = fold (made_dir now) vs st"
proof (induction vs arbitrary: st)
  case (Cons v vs)
  show ?case using Cons [of "made_dir now v st"] by (simp add: made_dir_def case_prod_unfold)
qed simp

definition fresh_dirs :: "path_rows \<Rightarrow> dir_candidate list \<Rightarrow> bool" where
  "fresh_dirs c cs \<longleftrightarrow> distinct (map dc_path cs)
     \<and> (\<forall>x \<in> set cs. slot_ok c (dc_path x) (dc_parent x) (dc_name x) \<and> map_of c (dc_path x) = None)"

lemma create_dirs_ready:
  assumes s: "in_sync sid e r id c tx" and ok: "fresh_dirs c cs"
  shows "create_dirs sid cs st tx = (Inr (fold (made_dir (t_now tx)) (zip cs (ids_from (inode_seq (t_db tx)) (length cs))) st),
    on_db (fold (\<lambda>x. add_node sid (dc_parent x) (dc_name x) (new_dir_row sid (t_now tx))) cs) tx)"
proof (cases "cs = []")
  case True
  then show ?thesis by (simp add: create_dirs_def on_db_def)
next
  case False
  let ?d = "t_db tx" and ?row = "new_dir_row sid (t_now tx)" and ?ks = "map dc_slot cs"
  let ?ids = "ids_from (inode_seq ?d) (length cs)" and ?tx1 = "on_db (fold add_inode (map (\<lambda>_. new_dir_row sid (t_now tx)) cs)) tx"
  have rd: "ready sid e tx" and wf: "wf_db ?d" using s by (simp_all add: in_sync_def)
  have slots: "slot_ok c (dc_path x) (dc_parent x) (dc_name x)" "map_of c (dc_path x) = None" if "x \<in> set cs" for x
    using ok that by (simp_all add: fresh_dirs_def)
  have rd1: "ready sid e ?tx1" using rd by (rule ready_on_db) simp
  have rows: "insert_inodes (map (\<lambda>_. ?row) cs) tx = (Inr ?ids, ?tx1)"
    using insert_inodes_ready [OF rd, of "map (\<lambda>_. ?row) cs"] by (simp add: new_inode_row_def)
  have dirents: "map2 (\<lambda>c i. ((dc_parent c, dc_name c), \<lparr>d_inode = i, d_sandbox = sid\<rparr>)) cs ids = with_sandbox sid (zip ?ks ids)" for ids
    by (induction cs ids rule: list_induct2') simp_all
  have inj: "inj_on dc_slot (set cs)"
  proof (rule inj_onI)
    fix x y assume xy: "x \<in> set cs" "y \<in> set cs" "dc_slot x = dc_slot y"
    then have "dc_path x = dc_path y" using slot_unique [OF s slots(1) [of x]] slots(1) [of y] by simp
    moreover have "inj_on dc_path (set cs)" using ok by (simp add: fresh_dirs_def distinct_map)
    ultimately show "x = y" using xy by (auto dest: inj_onD)
  qed
  have dist: "distinct (map fst (zip ?ks ?ids))" using inj ok by (simp add: fresh_dirs_def distinct_map)
  have free: "\<forall>(k, i) \<in> set (zip ?ks ?ids). map_of (dirents (t_db ?tx1)) k = None \<and> node (t_db ?tx1) (fst k) \<noteq> None \<and> node (t_db ?tx1) i \<noteq> None"
  proof safe
    fix p n i assume at: "((p, n), i) \<in> set (zip ?ks ?ids)"
    obtain x where x: "x \<in> set cs" "(p, n) = dc_slot x" using set_zip_leftD [OF at] by auto
    note row = slot_row [OF s slots(1) [OF x(1)]]
    show "map_of (dirents (t_db ?tx1)) (p, n) = None" using row(2) slots(2) [OF x(1)] x(2) by (simp add: child_def)
    show "\<exists>y. node (t_db ?tx1) (fst (p, n)) = Some y" using row(3) x(2) by (auto simp: dir_of_def node_add_inodes)
    have "i \<in> set ?ids" using set_zip_rightD [OF at] .
    then show "\<exists>y. node (t_db ?tx1) i = Some y" by (auto simp: node_add_inodes)
  qed
  have "insert_dirents (map2 (\<lambda>c i. ((dc_parent c, dc_name c), \<lparr>d_inode = i, d_sandbox = sid\<rparr>)) cs ?ids) ?tx1
      = (Inr (), on_db (fold (\<lambda>x. add_node sid (dc_parent x) (dc_name x) ?row) cs) tx)"
    unfolding dirents insert_dirents_ready [OF rd1 dist free]
    using batch_add_nodes [of sid ?ks ?d ?row] by (simp add: on_db_def comp_def fold_map)
  then show ?thesis using False rows by (simp add: create_dirs_def and_then_def fold_made_dir)
qed

definition ingesting :: "string \<Rightarrow> int \<Rightarrow> int \<Rightarrow> path_rows \<Rightarrow> ingest_state \<Rightarrow> path_rows \<Rightarrow> pgtx \<Rightarrow> bool" where
  "ingesting sid e r c0 st c tx \<longleftrightarrow> in_sync sid e r id c tx \<and> dirs_ok c (is_dirs st) \<and> c = apply_entries (is_result st) c0
     \<and> distinct (map fst (is_result st)) \<and> (\<forall>p x. map_of (is_result st) p = Some x \<longrightarrow> map_of c0 p = None \<and> pe_kind x = DIRECTORY)"

lemma ingesting_make:
  assumes i: "ingesting sid e r c0 st c tx" and slot: "slot_ok c (dc_path x) (dc_parent x) (dc_name x)" and free: "map_of c (dc_path x) = None"
  shows "ingesting sid e r c0 (made_dir now (x, inode_seq (t_db tx)) st)
     (AList.update (dc_path x) (ingest_dir_entry (inode_seq (t_db tx)) now) c) (on_db (add_node sid (dc_parent x) (dc_name x) (new_dir_row sid (t_now tx))) tx)"
proof -
  let ?y = "ingest_dir_entry (inode_seq (t_db tx)) now"
  have s: "in_sync sid e r id c tx" and c: "c = apply_entries (is_result st) c0" using i unfolding ingesting_def by blast+
  obtain ps pe where a: "valid_names (ps @ [dc_name x])" "dc_path x = path_of (ps @ [dc_name x])" "map_of c (path_of ps) = Some pe" "pe_kind pe = DIRECTORY" "pe_inode pe = dc_parent x"
    using slot unfolding slot_ok_def by blast
  have old: "map_of (is_result st) (dc_path x) = None" "map_of c0 (dc_path x) = None"
    using apply_entries_keeps [of c0 "dc_path x" "is_result st"] free c by metis+
  have "in_sync sid e r id (AList.update (dc_path x) ?y c) (on_db (add_node sid (dc_parent x) (dc_name x) (new_dir_row sid (t_now tx))) tx)"
    using in_sync_add_node [OF s a(1,3,4), of "new_dir_row sid (t_now tx)" ?y] free a
    by (simp add: new_inode_row_def norm_entry_def entry_of_row_def ingest_dir_entry_def)
  moreover have "dirs_ok (AList.update (dc_path x) ?y c) (AList.update (dc_path x) (inode_seq (t_db tx)) (is_dirs st))"
    using i free by (auto simp: ingesting_def dirs_ok_def update_conv ingest_dir_entry_def)
  moreover have "AList.update (dc_path x) ?y c = apply_entries (AList.update (dc_path x) ?y (is_result st)) c0"
    using apply_entries_new [OF old(1)] c by simp
  moreover have "distinct (map fst (AList.update (dc_path x) ?y (is_result st)))" using i by (auto simp: ingesting_def intro: distinct_update)
  moreover have "\<forall>p z. map_of (AList.update (dc_path x) ?y (is_result st)) p = Some z \<longrightarrow> map_of c0 p = None \<and> pe_kind z = DIRECTORY"
    using i old by (auto simp: ingesting_def update_conv ingest_dir_entry_def split: if_splits)
  ultimately show ?thesis by (simp add: ingesting_def made_dir_def)
qed

abbreviation add_dirs :: "string \<Rightarrow> int \<Rightarrow> dir_candidate list \<Rightarrow> db \<Rightarrow> db" where
  "add_dirs sid now \<equiv> fold (\<lambda>x. add_node sid (dc_parent x) (dc_name x) (new_dir_row sid now))"

definition knows :: "ingest_state \<Rightarrow> string \<Rightarrow> bool" where
  "knows st p \<longleftrightarrow> map_of (is_dirs st) p \<noteq> None"

lemma knows_made [simp]: "knows (made_dir now v st) p \<longleftrightarrow> p = dc_path (fst v) \<or> knows st p"
  by (auto simp: knows_def made_dir_def update_conv)

abbreviation made_keys :: "ingest_state \<Rightarrow> string set" where
  "made_keys st \<equiv> fst ` set (is_result st)"

lemma made_keys_made [simp]: "made_keys (made_dir now v st) = insert (dc_path (fst v)) (made_keys st)"
  by (simp add: made_dir_def dom_update)

lemma ingesting_makes:
  assumes "ingesting sid e r c0 st c tx" and "fresh_dirs c cs"
  defines "ids \<equiv> ids_from (inode_seq (t_db tx)) (length cs)"
  shows "\<exists>c'. ingesting sid e r c0 (fold (made_dir (t_now tx)) (zip cs ids) st) c' (on_db (add_dirs sid (t_now tx) cs) tx)"
    and "made_keys (fold (made_dir (t_now tx)) (zip cs ids) st) = made_keys st \<union> dc_path ` set cs"
    and "knows (fold (made_dir (t_now tx)) (zip cs ids) st) p \<longleftrightarrow> knows st p \<or> p \<in> dc_path ` set cs"
proof -
  show "\<exists>c'. ingesting sid e r c0 (fold (made_dir (t_now tx)) (zip cs ids) st) c' (on_db (add_dirs sid (t_now tx) cs) tx)"
    using assms(1,2) unfolding ids_def
  proof (induction cs arbitrary: st c tx)
    case Nil
    then show ?case by (auto simp: on_db_def)
  next
    case (Cons x cs)
    let ?tx = "on_db (add_node sid (dc_parent x) (dc_name x) (new_dir_row sid (t_now tx))) tx"
    let ?c = "AList.update (dc_path x) (ingest_dir_entry (inode_seq (t_db tx)) (t_now tx)) c"
    have x: "slot_ok c (dc_path x) (dc_parent x) (dc_name x)" "map_of c (dc_path x) = None" using Cons.prems(2) by (simp_all add: fresh_dirs_def)
    note step = ingesting_make [OF Cons.prems(1) x]
    have "slot_ok ?c p i n" if "slot_ok c p i n" for p i n using that by (rule slot_grows) (use x(2) in \<open>auto simp: update_conv\<close>)
    moreover have "dc_path y \<noteq> dc_path x" if "y \<in> set cs" for y using that Cons.prems(2) by (simp add: fresh_dirs_def) (metis image_eqI)
    ultimately have "fresh_dirs ?c cs" using Cons.prems(2) by (auto simp: fresh_dirs_def update_conv)
    from Cons.IH [OF step this] show ?case by (simp add: on_db_def)
  qed
  have "length xs = length is \<Longrightarrow> made_keys (fold (made_dir now) (zip xs is) st) = made_keys st \<union> dc_path ` set xs" for xs "is" now
    by (induction xs "is" arbitrary: st rule: list_induct2) auto
  then show "made_keys (fold (made_dir (t_now tx)) (zip cs ids) st) = made_keys st \<union> dc_path ` set cs" by (simp add: ids_def)
  have "length xs = length is \<Longrightarrow> knows (fold (made_dir now) (zip xs is) st) p \<longleftrightarrow> knows st p \<or> p \<in> dc_path ` set xs" for xs "is" now
    by (induction xs "is" arbitrary: st rule: list_induct2) auto
  then show "knows (fold (made_dir (t_now tx)) (zip cs ids) st) p \<longleftrightarrow> knows st p \<or> p \<in> dc_path ` set cs" by (simp add: ids_def)
qed

lemma add_dirs_simps [simp]: "version_of (add_dirs sid now cs d) = version_of d"
  by (induction cs arbitrary: d) simp_all

text \<open>One depth: afterwards every directory of that depth is known, and the view has received the ones created.\<close>

definition later_than :: "string \<Rightarrow> pgtx \<Rightarrow> pgtx \<Rightarrow> bool" where
  "later_than sid tx tx' \<longleftrightarrow> t_now tx' = t_now tx \<and> version_of (t_db tx') sid = version_of (t_db tx) sid"

lemma ingest_level_sync:
  assumes i: "ingesting sid e r c0 st c tx" and run: "ingest_level sid ps st tx = (Inr st', tx')"
    and ps: "distinct ps" "\<forall>p \<in> set ps. \<exists>segs. valid_names segs \<and> segs \<noteq> [] \<and> p = path_of segs"
  shows "\<exists>c'. ingesting sid e r c0 st' c' tx'" and "later_than sid tx tx'" and "made_keys st' \<subseteq> made_keys st \<union> set ps" and "knows st p \<or> p \<in> set ps \<Longrightarrow> knows st' p"
proof -
  have s: "in_sync sid e r id c tx" and d: "dirs_ok c (is_dirs st)" using i unfolding ingesting_def by blast+
  obtain cs dirs where cs: "dir_candidates (is_dirs st) ps = Inr cs" and dirs: "adopt_dirs tx cs (is_dirs st) = Inr dirs"
    and make: "create_dirs sid (filter (\<lambda>c. map_of dirs (dc_path c) = None) cs) (st\<lparr>is_dirs := dirs\<rparr>) tx = (Inr st', tx')"
    using run by (auto simp: ingest_level_def and_then_def of_sum_def split: sum.splits prod.splits)
  note cand = dir_candidates_ok [OF cs d ps(2)]
  note adopt = adopt_dirs_ok [OF dirs s d cand(2)]
  let ?new = "filter (\<lambda>c. map_of dirs (dc_path c) = None) cs"
  have "distinct (map dc_path cs)" using cand(1) ps(1) by simp
  then have "distinct (map dc_path ?new)" by (rule distinct_map_filter)
  then have fresh: "fresh_dirs c ?new" using cand(2) adopt by (simp add: fresh_dirs_def)
  have st: "ingesting sid e r c0 (st\<lparr>is_dirs := dirs\<rparr>) c tx"
  proof -
    have st: "is_dirs (st\<lparr>is_dirs := dirs\<rparr>) = dirs" "is_result (st\<lparr>is_dirs := dirs\<rparr>) = is_result st" by simp_all
    show ?thesis using i adopt unfolding ingesting_def st by blast
  qed
  note made = ingesting_makes [OF st fresh]
  have eq: "st' = fold (made_dir (t_now tx)) (zip ?new (ids_from (inode_seq (t_db tx)) (length ?new))) (st\<lparr>is_dirs := dirs\<rparr>)"
    "tx' = on_db (add_dirs sid (t_now tx) ?new) tx" using create_dirs_ready [OF s fresh] make by simp_all
  show "\<exists>c'. ingesting sid e r c0 st' c' tx'" using made(1) eq by simp
  show "later_than sid tx tx'" using eq(2) by (simp add: later_than_def)
  have "dc_path ` set cs \<subseteq> set ps" unfolding set_map [symmetric] cand(1) by auto
  then show "made_keys st' \<subseteq> made_keys st \<union> set ps" using made(2) eq(1) by auto
  show "knows st' p" if "knows st p \<or> p \<in> set ps"
  proof -
    have "knows (st\<lparr>is_dirs := dirs\<rparr>) p \<or> p \<in> dc_path ` set ?new"
    proof (cases "map_of dirs p")
      case None
      then have "map_of (is_dirs st) p = None" using adopt by blast
      then have "p \<in> set (map dc_path cs)" using that cand(1) by (simp add: knows_def)
      then show ?thesis using None by auto
    qed (simp add: knows_def)
    then show ?thesis using made(3) eq(1) by simp
  qed
qed

lemma later_than_trans: "later_than sid a b \<Longrightarrow> later_than sid b c \<Longrightarrow> later_than sid a c"
  by (simp add: later_than_def)

lemma ingest_levels_sync:
  assumes "ingesting sid e r c0 st c tx" and "ingest_levels sid pss st tx = (Inr st', tx')"
    and "\<forall>ps \<in> set pss. distinct ps \<and> (\<forall>p \<in> set ps. \<exists>segs. valid_names segs \<and> segs \<noteq> [] \<and> p = path_of segs)"
  shows "(\<exists>c'. ingesting sid e r c0 st' c' tx') \<and> later_than sid tx tx' \<and> made_keys st' \<subseteq> made_keys st \<union> \<Union> (set (map set pss)) \<and> (\<forall>p. knows st p \<or> p \<in> \<Union> (set (map set pss)) \<longrightarrow> knows st' p)"
  using assms
proof (induction pss arbitrary: st c tx)
  case Nil
  then show ?case by (auto simp: return_ok_def later_than_def)
next
  case (Cons ps pss)
  obtain st1 tx1 where 1: "ingest_level sid ps st tx = (Inr st1, tx1)" and 2: "ingest_levels sid pss st1 tx1 = (Inr st', tx')"
    using Cons.prems(2) by (auto simp: and_then_Inr_iff)
  have ps: "distinct ps" "\<forall>p \<in> set ps. \<exists>segs. valid_names segs \<and> segs \<noteq> [] \<and> p = path_of segs" using Cons.prems(3) by auto
  note level = ingest_level_sync [OF Cons.prems(1) 1 ps]
  obtain c1 where "ingesting sid e r c0 st1 c1 tx1" using level(1) by blast
  note rest = Cons.IH [OF this 2]
  have pss: "\<forall>ps \<in> set pss. distinct ps \<and> (\<forall>p \<in> set ps. \<exists>segs. valid_names segs \<and> segs \<noteq> [] \<and> p = path_of segs)" using Cons.prems(3) by simp
  note rest = rest [OF pss, THEN conjunct1] rest [OF pss, THEN conjunct2, THEN conjunct1]
    rest [OF pss, THEN conjunct2, THEN conjunct2, THEN conjunct1] rest [OF pss, THEN conjunct2, THEN conjunct2, THEN conjunct2, rule_format]
  show ?case
  proof (intro conjI allI impI)
    show "later_than sid tx tx'" by (rule later_than_trans [OF level(2) rest(2)])
    show "made_keys st' \<subseteq> made_keys st \<union> \<Union> (set (map set (ps # pss)))"
      using subset_trans [OF rest(3) Un_mono [OF level(3) subset_refl]] by (simp add: Un_ac)
    show "knows st' p" if "knows st p \<or> p \<in> \<Union> (set (map set (ps # pss)))" for p
      using that level(4) [of p] by (intro rest(4)) auto
  qed (rule rest(1))
qed

end
