(* ===== verification/IngestFiles.thy ===== *)
theory IngestFiles
  imports IngestDirs
begin

text \<open>
  The files of a bulk ingest: the tree after they are stored, in step with the view that received their entries, and
  the whole statement sequence.
\<close>

section \<open>The tree after the files are stored\<close>

text \<open>The fresh inode a path leads to, when its last step is one of the slots of the batch.\<close>

definition placed_inode :: "db \<Rightarrow> int \<Rightarrow> (int \<times> string) list \<Rightarrow> string list \<Rightarrow> int option" where
  "placed_inode d r ks segs =
     (if segs = [] then None
      else case walk d r (butlast segs) of None \<Rightarrow> None | Some p \<Rightarrow> map_of (placed_at d ks) (p, last segs))"

lemma placed_id:
  assumes ok: "batch_ok sid d ks rs" and "map_of (placed_at d ks) k = Some i"
  shows "k \<in> set ks" and "inode_seq d \<le> i" and "i < inode_seq d + int (length ks)"
proof -
  have "(k, i) \<in> set (placed_at d ks)" using assms(2) by (rule map_of_SomeD)
  then have "k \<in> set ks" "i \<in> set (ids_from (inode_seq d) (length ks))" unfolding placed_at_def by (auto dest: set_zip_leftD set_zip_rightD)
  then show "k \<in> set ks" "inode_seq d \<le> i" "i < inode_seq d + int (length ks)" by auto
qed

lemma walk_store:
  assumes ok: "batch_ok sid d ks rs"
  shows "walk (store_db sid ks rs d) r segs = (case placed_inode d r ks segs of None \<Rightarrow> walk d r segs | Some i \<Rightarrow> Some i)"
proof (induction segs rule: rev_induct)
  case Nil
  show ?case by (simp add: placed_inode_def)
next
  case (snoc m qs)
  have wf: "wf_db d" using ok by (simp add: batch_ok_def)
  note child = child_store_db [OF ok]
  show ?case
  proof (cases "placed_inode d r ks qs")
    case None
    then show ?thesis using snoc by (auto simp: walkc_snoc placed_inode_def child split: option.splits)
  next
    case (Some i)
    then obtain p where p: "qs \<noteq> []" "walk d r (butlast qs) = Some p" "map_of (placed_at d ks) (p, last qs) = Some i"
      by (auto simp: placed_inode_def split: if_splits option.splits)
    note id = placed_id [OF ok p(3)]
    have leaf: "child d j m = None" "map_of (placed_at d ks) (j, m) = None" if "\<not> dir_of sid j d" "node d j = None \<or> in_sandbox sid j d" for j
    proof -
      show "child d j m = None" by (rule wf_nondir_no_child [OF wf]) (use that in \<open>auto simp: dir_of_def in_sandbox_def\<close>)
      show "map_of (placed_at d ks) (j, m) = None"
      proof (rule ccontr)
        assume "map_of (placed_at d ks) (j, m) \<noteq> None"
        then have "(j, m) \<in> set ks" using placed_id(1) [OF ok] by blast
        then show False using that ok by (auto simp: batch_ok_def)
      qed
    qed
    have none: "node d i = None" using id wf by (auto simp: wf_off_def wf_ids_def)
    have new: "child (store_db sid ks rs d) i m = None" using leaf [of i] none by (simp add: child dir_of_def in_sandbox_def)
    have old: "child d j m = None \<and> map_of (placed_at d ks) (j, m) = None" if "walk d r qs = Some j" for j
    proof -
      have ch: "child d p (last qs) = Some j" using that p by (cases qs rule: rev_cases) (auto simp: walkc_snoc)
      have dir: "dir_of sid p d" and nd: "\<And>r. node d j = Some r \<Longrightarrow> i_kind r \<noteq> DIRECTORY" using ok id(1) ch by (auto simp: batch_ok_def)
      have "in_sandbox sid j d" using wf dir ch wf_entry_own [OF wf dir_of_in_sandbox [OF dir]] by (auto simp: child_def)
      then show ?thesis using leaf [of j] nd by (auto simp: dir_of_def)
    qed
    show ?thesis using snoc Some new old p by (auto simp: walkc_snoc placed_inode_def split: option.split)
  qed
qed

lemma lookup_store:
  assumes ok: "batch_ok sid d ks rs" and root: "root_of d sid = Some r"
  shows "db_lookup (store_db sid ks rs d) r segs = (case placed_inode d r ks segs of
      None \<Rightarrow> db_lookup d r segs | Some i \<Rightarrow> Some (entry_of_row i (rs ! nat (i - inode_seq d))))"
proof (cases "placed_inode d r ks segs")
  case (Some i)
  then obtain p where p: "map_of (placed_at d ks) (p, last segs) = Some i" by (auto simp: placed_inode_def split: if_splits option.splits)
  show ?thesis using Some node_store_db(1) [OF ok] placed_id [OF ok p] by (simp add: db_lookup_def walk_store [OF ok])
next
  case None
  have wf: "wf_db d" "wf_db (store_db sid ks rs d)" using ok wf_store_db by (auto simp: batch_ok_def)
  have "map_option (entry_of_row j) (node (store_db sid ks rs d) j) = map_option (entry_of_row j) (node d j)" if j: "walk d r segs = Some j" for j
  proof -
    have "walk (store_db sid ks rs d) r segs = Some j" using j None by (simp add: walk_store [OF ok])
    then obtain row where row: "node (store_db sid ks rs d) j = Some row" using wf_walk_node [OF wf(2), of sid r segs j] root by auto
    obtain old where "node d j = Some old" using wf_walk_node [OF wf(1) root j] by auto
    then have "j < inode_seq d" using wf(1) by (auto simp: wf_off_def wf_ids_def)
    from node_store_db(2) [OF ok this row] row show ?thesis by auto
  qed
  then show ?thesis using None by (simp add: db_lookup_def walk_store [OF ok] split: option.split)
qed

text \<open>In terms of the paths of the files.\<close>

abbreviation hf_path :: "hashed_file \<Rightarrow> string" where
  "hf_path h \<equiv> if_path (hf_file h)"

abbreviation hf_ids :: "pgtx \<Rightarrow> hashed_file list \<Rightarrow> int list" where
  "hf_ids tx hs \<equiv> ids_from (inode_seq (t_db tx)) (length hs)"

definition files_ok :: "path_rows \<Rightarrow> hashed_file list \<Rightarrow> bool" where
  "files_ok c hs \<longleftrightarrow> distinct (map hf_path hs) \<and> (\<forall>h \<in> set hs. slot_ok c (hf_path h) (hf_parent h) (hf_name h)
     \<and> (\<forall>x. map_of c (hf_path h) = Some x \<longrightarrow> pe_kind x \<noteq> DIRECTORY))"

lemma nth_ids_from [simp]: "k < n \<Longrightarrow> ids_from s n ! k = s + int k"
  by (induction n arbitrary: s k) (auto simp: nth_Cons split: nat.split)

lemma files_batch_ok:
  assumes s: "in_sync sid e r id c tx" and ok: "files_ok c hs"
  shows "batch_ok sid (t_db tx) (map hf_slot hs) (map (ingest_file_row sid now) hs)"
  unfolding batch_ok_def
proof (intro conjI ballI)
  have slots: "slot_ok c (hf_path h) (hf_parent h) (hf_name h)" if "h \<in> set hs" for h using ok that by (simp add: files_ok_def)
  show "wf_db (t_db tx)" using s by (simp add: in_sync_def)
  have "inj_on hf_slot (set hs)"
  proof (rule inj_onI)
    fix h g assume hg: "h \<in> set hs" "g \<in> set hs" "hf_slot h = hf_slot g"
    then have "hf_path h = hf_path g" using slot_unique [OF s slots [of h]] slots [of g] by simp
    moreover have "inj_on hf_path (set hs)" using ok by (simp add: files_ok_def distinct_map)
    ultimately show "h = g" using hg by (auto dest: inj_onD)
  qed
  then show "distinct (map hf_slot hs)" using ok by (simp add: files_ok_def distinct_map)
  fix k assume "k \<in> set (map hf_slot hs)"
  then obtain h where h: "h \<in> set hs" "k = hf_slot h" by auto
  note row = slot_row [OF s slots [OF h(1)]]
  show "dir_of sid (fst k) (t_db tx)" "valid_name (snd k)" using row h by simp_all
  show "\<forall>i x. child (t_db tx) (fst k) (snd k) = Some i \<and> node (t_db tx) i = Some x \<longrightarrow> i_kind x \<noteq> DIRECTORY"
  proof safe
    fix i x assume x: "child (t_db tx) (fst k) (snd k) = Some i" "node (t_db tx) i = Some x" "i_kind x = DIRECTORY"
    then obtain y where y: "map_of c (hf_path h) = Some y" "i = pe_inode y" using row(2) h by auto
    obtain segs where segs: "valid_names segs" "hf_path h = path_of segs" using slots [OF h(1)] unfolding slot_ok_def by blast
    obtain z where "node (t_db tx) i = Some z" "i_kind z = pe_kind y" using in_sync_entry [OF s segs(1)] y segs(2) by (metis id_apply)
    then show False using ok h(1) y(1) x by (simp add: files_ok_def)
  qed
qed (auto simp: ingest_file_row_def new_inode_row_def)

lemma placed_path:
  assumes s: "in_sync sid e r id c tx" and ok: "files_ok c hs" and v: "valid_names segs"
  shows "placed_inode (t_db tx) r (map hf_slot hs) segs = map_of (zip (map hf_path hs) (hf_ids tx hs)) (path_of segs)"
proof -
  have batch: "batch_ok sid (t_db tx) (map hf_slot hs) (map (ingest_file_row sid 0) hs)" by (rule files_batch_ok [OF s ok])
  have wf: "wf_db (t_db tx)" and root: "root_of (t_db tx) sid = Some r" using s by (simp_all add: in_sync_def)
  have parent: "\<exists>ps. valid_names (ps @ [hf_name h]) \<and> hf_path h = path_of (ps @ [hf_name h]) \<and> walk (t_db tx) r ps = Some (hf_parent h)
      \<and> dir_of sid (hf_parent h) (t_db tx)" if h: "h \<in> set hs" for h
  proof -
    obtain ps pe where a: "valid_names (ps @ [hf_name h])" "hf_path h = path_of (ps @ [hf_name h])" "map_of c (path_of ps) = Some pe"
        "pe_kind pe = DIRECTORY" "pe_inode pe = hf_parent h" using ok h unfolding files_ok_def slot_ok_def by blast
    have vp: "valid_names ps" using a(1) by simp
    show ?thesis using in_sync_dir [OF s vp a(3,4), unfolded id_apply] a by auto
  qed
  show ?thesis
  proof (cases "path_of segs \<in> set (map hf_path hs)")
    case True
    then obtain k where k: "k < length hs" "hf_path (hs ! k) = path_of segs" by (auto simp: in_set_conv_nth)
    obtain ps where ps: "valid_names (ps @ [hf_name (hs ! k)])" "path_of segs = path_of (ps @ [hf_name (hs ! k)])"
      "walk (t_db tx) r ps = Some (hf_parent (hs ! k))" using parent [OF nth_mem [OF k(1)]] k(2) by metis
    have segs: "segs = ps @ [hf_name (hs ! k)]" using ps path_of_inject [OF v ps(1)] by simp
    have "map_of (zip (map hf_slot hs) (hf_ids tx hs)) (map hf_slot hs ! k) = Some (hf_ids tx hs ! k)"
      by (rule map_of_zip_nth) (use batch k in \<open>simp_all add: batch_ok_def\<close>)
    moreover have "map_of (zip (map hf_path hs) (hf_ids tx hs)) (map hf_path hs ! k) = Some (hf_ids tx hs ! k)"
      by (rule map_of_zip_nth) (use ok k in \<open>simp_all add: files_ok_def\<close>)
    ultimately show ?thesis using k segs ps(3) by (simp add: placed_inode_def placed_at_def)
  next
    case False
    have "placed_inode (t_db tx) r (map hf_slot hs) segs = None"
    proof (rule ccontr)
      assume "placed_inode (t_db tx) r (map hf_slot hs) segs \<noteq> None"
      then obtain p i where p: "segs \<noteq> []" "walk (t_db tx) r (butlast segs) = Some p" "map_of (placed_at (t_db tx) (map hf_slot hs)) (p, last segs) = Some i"
        by (auto simp: placed_inode_def split: if_splits option.splits)
      obtain h where h: "h \<in> set hs" "hf_parent h = p" "hf_name h = last segs" using placed_id(1) [OF batch p(3)] by auto
      obtain ps where ps: "hf_path h = path_of (ps @ [last segs])" "walk (t_db tx) r ps = Some p" "dir_of sid p (t_db tx)"
        using parent [OF h(1)] h by metis
      have "ps = butlast segs" using wf_dir_unique_path [OF wf root _ _ ps(2) p(2)] ps(3) by (auto simp: dir_of_def)
      then have "hf_path h = path_of segs" using ps(1) p(1) by simp
      then show False using h(1) False by (metis image_eqI list.set_map)
    qed
    moreover have "map_of (zip (map hf_path hs) (hf_ids tx hs)) (path_of segs) = None" unfolding map_of_eq_None_iff using False by (auto dest: set_zip_leftD)
    ultimately show ?thesis by (rule trans [OF _ sym])
  qed
qed

lemma map_of_apply_entries:
  "distinct (map fst es) \<Longrightarrow> map_of (apply_entries es c) p = (case map_of es p of None \<Rightarrow> map_of c p | Some x \<Rightarrow> Some x)"
proof (induction es arbitrary: c)
  case (Cons x es)
  have "map_of es (fst x) = None" using Cons.prems by (simp add: map_of_eq_None_iff)
  then show ?case using Cons by (cases x) (auto simp: update_conv split: option.split)
qed simp

definition file_entries :: "int \<Rightarrow> hashed_file list \<Rightarrow> int list \<Rightarrow> path_rows" where
  "file_entries now hs ids = map (\<lambda>(h, i). (hf_path h, ingest_file_entry i now h)) (zip hs ids)"

lemma fst_file_entries [simp]: "length ids = length hs \<Longrightarrow> map fst (file_entries now hs ids) = map hf_path hs"
  by (induction hs ids rule: list_induct2') (simp_all add: file_entries_def)

lemma file_entries_nth:
  "length ids = length hs \<Longrightarrow> k < length hs \<Longrightarrow> file_entries now hs ids ! k = (hf_path (hs ! k), ingest_file_entry (ids ! k) now (hs ! k))"
  by (simp add: file_entries_def)

lemma norm_file_entry:
  "norm_entry id (ingest_file_entry i now h) = norm_entry id (entry_of_row i (ingest_file_row sid now' h))"
  by (simp add: norm_entry_def ingest_file_entry_def ingest_file_row_def new_inode_row_def entry_of_row_def)

lemma in_sync_store:
  assumes s: "in_sync sid e r id c tx" and ok: "files_ok c hs"
  shows "in_sync sid e r id (apply_entries (file_entries now hs (hf_ids tx hs)) c)
    (on_db (store_db sid (map hf_slot hs) (map (ingest_file_row sid (t_now tx)) hs)) tx)"
proof -
  let ?d = "t_db tx" and ?ks = "map hf_slot hs" and ?rs = "map (ingest_file_row sid (t_now tx)) hs"
  let ?es = "file_entries now hs (hf_ids tx hs)"
  have batch: "batch_ok sid ?d ?ks ?rs" by (rule files_batch_ok [OF s ok])
  have root: "root_of ?d sid = Some r" and rd: "ready sid e tx" and co: "cohere id c (db_lookup ?d r)" using s by (simp_all add: in_sync_def)
  have dist: "distinct (map fst ?es)" using ok by (simp add: files_ok_def)
  have keys: "distinct (map fst (apply_entries es c))" for es
    using cohere_distinct [OF co] by (induction es arbitrary: c) (auto intro: distinct_update)
  have "cohere id (apply_entries ?es c) (db_lookup (store_db sid ?ks ?rs ?d) r)"
  proof (rule cohere_I_maps [OF co keys])
    fix p x assume x: "map_of (apply_entries ?es c) p = Some x"
    show "normal_path p"
    proof (cases "map_of ?es p")
      case None
      then show ?thesis using x cohere_normal [OF co] by (simp add: map_of_apply_entries [OF dist])
    next
      case (Some y)
      then obtain h where "h \<in> set hs" "p = hf_path h" by (auto simp: file_entries_def dest!: map_of_SomeD set_zip_leftD)
      then obtain segs where "valid_names segs" "p = path_of segs" using ok unfolding files_ok_def slot_ok_def by blast
      then show ?thesis by simp
    qed
  next
    fix segs assume v: "valid_names segs"
    note lookup = lookup_store [OF batch root, of segs, unfolded placed_path [OF s ok v]]
    show "map_option (norm_entry id) (map_of (apply_entries ?es c) (path_of segs)) = map_option (norm_entry id) (db_lookup (store_db sid ?ks ?rs ?d) r segs)"
    proof (cases "path_of segs \<in> set (map hf_path hs)")
      case False
      have 1: "map_of (zip (map hf_path hs) (hf_ids tx hs)) (path_of segs) = None" unfolding map_of_eq_None_iff using False by (auto dest: set_zip_leftD)
      have 2: "map_of ?es (path_of segs) = None" using False by (simp add: map_of_eq_None_iff image_set del: set_map)
      show ?thesis unfolding lookup 1 map_of_apply_entries [OF dist] 2 option.case using cohere_at [OF co v] .
    next
      case True
      then obtain k where k: "k < length hs" "hf_path (hs ! k) = path_of segs" by (auto simp: in_set_conv_nth)
      have "map_of (zip (map hf_path hs) (hf_ids tx hs)) (map hf_path hs ! k) = Some (hf_ids tx hs ! k)"
        by (rule map_of_zip_nth) (use ok k in \<open>simp_all add: files_ok_def\<close>)
      then have 1: "map_of (zip (map hf_path hs) (hf_ids tx hs)) (path_of segs) = Some (inode_seq ?d + int k)" using k by simp
      have "(path_of segs, ingest_file_entry (inode_seq ?d + int k) now (hs ! k)) \<in> set ?es"
        using k file_entries_nth [of "hf_ids tx hs" hs k now] nth_mem [of k ?es] by (simp add: file_entries_def)
      then have 2: "map_of ?es (path_of segs) = Some (ingest_file_entry (inode_seq ?d + int k) now (hs ! k))" by (rule map_of_is_SomeI [OF dist])
      show ?thesis using 1 2 k(1) norm_file_entry [of _ now _ sid "t_now tx"] by (simp add: lookup map_of_apply_entries [OF dist])
    qed
  qed
  then show ?thesis using wf_store_db [OF batch] root ready_on_db [OF rd] by (simp add: in_sync_def store_stages)
qed

section \<open>The whole statement sequence\<close>

lemma existing_files_ok:
  assumes s: "in_sync sid e r id c tx" and run: "existing_files tx hs = Inr ex"
    and slots: "\<forall>h \<in> set hs. slot_ok c (hf_path h) (hf_parent h) (hf_name h)"
  shows "\<forall>h \<in> set hs. map_of ex (hf_slot h) = child (t_db tx) (hf_parent h) (hf_name h) \<and> (\<forall>x. map_of c (hf_path h) = Some x \<longrightarrow> pe_kind x \<noteq> DIRECTORY)"
proof -
  have keys: "map_of ex k = (if k \<in> hf_slot ` set hs then map_option fst (existing_row tx k) else None)" if "existing_files tx hs = Inr ex" for hs ex k
    using that
  proof (induction hs arbitrary: ex)
    case (Cons h hs)
    show ?case
      using Cons by (cases k) (auto simp: update_conv split: option.splits if_splits sum.splits)
  qed simp
  have kinds: "kd \<noteq> DIRECTORY" if "existing_files tx hs = Inr ex" "h \<in> set hs" "existing_row tx (hf_slot h) = Some (i, kd)" for hs ex h i kd
    using that by (induction hs arbitrary: ex) (auto split: option.splits if_splits sum.splits)
  show ?thesis
  proof
    fix h assume h: "h \<in> set hs"
    note row = slot_row [OF s bspec [OF slots h]]
    show "map_of ex (hf_slot h) = child (t_db tx) (hf_parent h) (hf_name h) \<and> (\<forall>x. map_of c (hf_path h) = Some x \<longrightarrow> pe_kind x \<noteq> DIRECTORY)"
      using keys [OF run, of "hf_slot h"] kinds [OF run h] h row(1,2) by (auto simp: option.map_comp comp_def)
  qed
qed

abbreviation stored_path :: "string \<Rightarrow> bool" where
  "stored_path p \<equiv> \<exists>segs. valid_names segs \<and> segs \<noteq> [] \<and> p = path_of segs"

lemma hash_files_ok:
  assumes "hash_files sha dirs files = Inr hs" and "dirs_ok c dirs" and "\<forall>f \<in> set files. stored_path (if_path f)"
  shows "map hf_file hs = files" and "\<forall>h \<in> set hs. hf_sha h = sha (if_content (hf_file h)) \<and> slot_ok c (hf_path h) (hf_parent h) (hf_name h)"
proof -
  have "map hf_file hs = files \<and> (\<forall>h \<in> set hs. hf_sha h = sha (if_content (hf_file h)) \<and> slot_ok c (hf_path h) (hf_parent h) (hf_name h))"
    using assms
  proof (induction files arbitrary: hs)
    case (Cons f fs)
    obtain segs where segs: "valid_names segs" "segs \<noteq> []" "if_path f = path_of segs" using Cons.prems(3) by auto
    obtain i hs' where i: "map_of dirs (path_of (butlast segs)) = Some i" "hash_files sha dirs fs = Inr hs'"
      "hs = \<lparr>hf_file = f, hf_sha = sha (if_content f), hf_name = last segs, hf_parent = i\<rparr> # hs'"
      using Cons.prems(1) segs by (auto simp: Let_def split: option.splits sum.splits)
    then show ?case using Cons.IH [OF i(2)] Cons.prems(2,3) slot_of_parent [OF Cons.prems(2) segs(1,2) i(1)] segs(3) by auto
  qed simp
  then show "map hf_file hs = files" "\<forall>h \<in> set hs. hf_sha h = sha (if_content (hf_file h)) \<and> slot_ok c (hf_path h) (hf_parent h) (hf_name h)" by blast+
qed

lemma ingest_context_ready:
  assumes s: "in_sync sid e r id c tx"
  shows "ingest_context sid (Some e) tx = (Inr r, bumped sid tx)" and "in_sync sid e r id c (bumped sid tx)"
proof -
  have rd: "ready sid e tx" and root: "root_of (t_db tx) sid = Some r" using s by (simp_all add: in_sync_def)
  obtain b where b: "map_of (sandboxes (t_db tx)) sid = Some b" "sb_root b = Some r" using root by (auto simp: root_of_def split: option.splits)
  have "get_sandbox tx sid = Some b" using b(1) rd by (simp add: get_sandbox_def ready_def rls_ok_def)
  then show "ingest_context sid (Some e) tx = (Inr r, bumped sid tx)" using fence_ready(1) [OF rd] b(2) by (simp add: ingest_context_def)
  show "in_sync sid e r id c (bumped sid tx)" using s in_sync_bumped [OF s] by (simp add: in_sync_def)
qed

lemma in_sync_commitBatch:
  assumes "in_sync sid e r id c tx"
  shows "in_sync sid e r id c (on_db (commitBatch rows now) tx)" and "child (t_db (on_db (commitBatch rows now) tx)) = child (t_db tx)"
    and "version_of (t_db (on_db (commitBatch rows now) tx)) = version_of (t_db tx)"
proof -
  obtain b where b: "commitBatch rows now (t_db tx) = (t_db tx)\<lparr>blobs := b\<rparr>" using commitBatch_blobs by blast
  have "ready sid e (on_db (commitBatch rows now) tx)" by (rule ready_on_db) (use assms b in \<open>simp_all add: in_sync_def\<close>)
  then show "in_sync sid e r id c (on_db (commitBatch rows now) tx)" using assms b by (simp add: in_sync_def)
  show "child (t_db (on_db (commitBatch rows now) tx)) = child (t_db tx)" "version_of (t_db (on_db (commitBatch rows now) tx)) = version_of (t_db tx)"
    using b by simp_all
qed

lemma apply_entries_append:
  "distinct (map fst es) \<Longrightarrow> fst ` set rs \<inter> fst ` set es = {} \<Longrightarrow> apply_entries es rs = rs @ es"
proof (induction es arbitrary: rs)
  case (Cons x es)
  have "AList.update (fst x) (snd x) rs = rs @ [x]"
    using Cons.prems(2) by (induction rs) auto
  moreover have "fst ` set (rs @ [x]) \<inter> fst ` set es = {}" using Cons.prems by auto
  ultimately show ?case using Cons.IH [of "rs @ [x]"] Cons.prems(1) by (simp add: case_prod_unfold)
qed simp

text \<open>The directories above the files, and what becomes of the files.\<close>

definition above_files :: "ingest_file list \<Rightarrow> string \<Rightarrow> bool" where
  "above_files files p \<longleftrightarrow> (\<exists>f \<in> set files. \<exists>k. 0 < k \<and> k < length (path_parts (if_path f)) \<and> p = path_of (take k (path_parts (if_path f))))"

lemma set_dirs_at: "p \<in> set (dirs_at files k) \<longleftrightarrow> (\<exists>f \<in> set files. k < length (path_parts (if_path f)) \<and> p = path_of (take k (path_parts (if_path f))))"
  by (auto simp: dirs_at_def Let_def split: if_splits)

lemma levels_ok:
  assumes "\<forall>f \<in> set files. stored_path (if_path f)"
  shows "\<forall>ps \<in> set (map (dirs_at files) (ingest_depths files)). distinct ps \<and> (\<forall>p \<in> set ps. stored_path p)"
    and "p \<in> \<Union> (set (map set (map (dirs_at files) (ingest_depths files)))) \<Longrightarrow> above_files files p"
proof -
  show "\<forall>ps \<in> set (map (dirs_at files) (ingest_depths files)). distinct ps \<and> (\<forall>p \<in> set ps. stored_path p)"
  proof safe
    fix ps assume "ps \<in> set (map (dirs_at files) (ingest_depths files))"
    then obtain k where "k \<in> set (ingest_depths files)" and ps: "ps = dirs_at files k" by auto
    then have k: "0 < k" "ps = dirs_at files k" by (simp_all add: ingest_depths_def)
    show "distinct ps" by (simp add: k(2) dirs_at_def)
    fix p assume "p \<in> set ps"
    then obtain f where f: "f \<in> set files" "k < length (path_parts (if_path f))" "p = path_of (take k (path_parts (if_path f)))" by (auto simp: k set_dirs_at)
    obtain segs where segs: "valid_names segs" "if_path f = path_of segs" using assms f(1) by blast
    have "valid_names (take k segs)" using segs(1) by (metis append_take_drop_id valid_names_append)
    moreover have "take k segs \<noteq> []" using f(2) segs k(1) by auto
    ultimately show "stored_path p" using f(3) segs by auto
  qed
  show "above_files files p" if p: "p \<in> \<Union> (set (map set (map (dirs_at files) (ingest_depths files))))"
  proof -
    obtain k where k: "k \<in> set (ingest_depths files)" "p \<in> set (dirs_at files k)" using p by auto
    have "0 < k" using k(1) by (simp add: ingest_depths_def)
    then show ?thesis using k(2) unfolding above_files_def set_dirs_at by blast
  qed
qed

lemma file_entries_keys: "length ids = length hs \<Longrightarrow> fst ` set (file_entries now hs ids) = hf_path ` set hs"
  by (metis fst_file_entries list.set_map)

lemma store_result: "fold (\<lambda>(h, i). AList.update (hf_path h) (ingest_file_entry i now h)) (zip hs ids) rs = apply_entries (file_entries now hs ids) rs"
  by (simp add: file_entries_def fold_map comp_def case_prod_unfold)

lemma store_files_sync:
  assumes i: "ingesting sid e r c0 st c tx" and hs: "hash_files sha (is_dirs st) files = Inr hs" and ex: "existing_files tx hs = Inr ex"
    and files: "\<forall>f \<in> set files. stored_path (if_path f)" "distinct (map if_path files)"
    and run: "store_files sid hs ex (is_result st) (on_db (commitBatch rows now) tx) = (Inr es, tx')"
  shows "es = is_result st @ file_entries (t_now tx) hs (hf_ids tx hs)" and "in_sync sid e r id (apply_entries es c0) tx'"
    and "version_of (t_db tx') = version_of (t_db tx)" and "map hf_file hs = files" and "\<forall>h \<in> set hs. hf_sha h = sha (if_content (hf_file h))"
    and "distinct (map fst es)" and "\<forall>h \<in> set hs. \<forall>x. map_of c (hf_path h) = Some x \<longrightarrow> pe_kind x \<noteq> DIRECTORY"
proof -
  let ?tx = "on_db (commitBatch rows now) tx" and ?fe = "file_entries (t_now tx) hs (hf_ids tx hs)"
  have s: "in_sync sid e r id c tx" and d: "dirs_ok c (is_dirs st)" and c: "c = apply_entries (is_result st) c0"
    and dist: "distinct (map fst (is_result st))" and made: "\<And>p x. map_of (is_result st) p = Some x \<Longrightarrow> pe_kind x = DIRECTORY"
    using i unfolding ingesting_def by blast+
  note hashed = hash_files_ok [OF hs d files(1)]
  note old = existing_files_ok [OF s ex]
  have slots: "\<forall>h \<in> set hs. slot_ok c (hf_path h) (hf_parent h) (hf_name h)" using hashed(2) by blast
  have paths: "map hf_path hs = map if_path files" using hashed(1) by (metis (no_types, lifting) map_map comp_apply map_eq_conv)
  have ok: "files_ok c hs" using slots old [OF slots] files(2) by (simp add: files_ok_def paths)
  then show "\<forall>h \<in> set hs. \<forall>x. map_of c (hf_path h) = Some x \<longrightarrow> pe_kind x \<noteq> DIRECTORY" by (simp add: files_ok_def)
  note sync = in_sync_commitBatch [OF s, of rows now]
  obtain b where b: "t_db ?tx = (t_db tx)\<lparr>blobs := b\<rparr>" using commitBatch_blobs by force
  have rd: "ready sid e ?tx" using sync(1) by (simp add: in_sync_def)
  have kids: "map_of ex k = child (t_db ?tx) (fst k) (snd k)" if "k \<in> set (map hf_slot hs)" for k using that old [OF slots] b by auto
  have "store_files sid hs ex (is_result st) ?tx = (Inr (apply_entries ?fe (is_result st)), on_db (store_db sid (map hf_slot hs) (map (ingest_file_row sid (t_now ?tx)) hs)) ?tx)"
    using store_files_ready [OF rd files_batch_ok [OF sync(1) ok, of "t_now ?tx"] kids, of "is_result st"] b by (simp add: store_result)
  then have es: "es = apply_entries ?fe (is_result st)" and tx': "tx' = on_db (store_db sid (map hf_slot hs) (map (ingest_file_row sid (t_now ?tx)) hs)) ?tx"
    using run by simp_all
  have "fst ` set (is_result st) \<inter> fst ` set ?fe = {}"
  proof (rule ccontr)
    assume "fst ` set (is_result st) \<inter> fst ` set ?fe \<noteq> {}"
    then obtain p where p: "p \<in> fst ` set (is_result st)" "p \<in> hf_path ` set hs" unfolding file_entries_keys [OF ids_from_facts(1)] by blast
    obtain h where "p = hf_path h" and h: "h \<in> set hs" using p(2) by (rule imageE)
    then have h: "h \<in> set hs" "hf_path h \<in> fst ` set (is_result st)" using p(1) by simp_all
    then obtain x where x: "map_of (is_result st) (hf_path h) = Some x" by (metis map_of_eq_None_iff not_None_eq)
    have "map_of c (hf_path h) = Some x" using x by (simp add: c map_of_apply_entries [OF dist])
    then show False using made [OF x] ok h(1) by (simp add: files_ok_def)
  qed
  moreover have fdist: "distinct (map fst ?fe)" using files(2) by (simp add: paths)
  ultimately show app: "es = is_result st @ ?fe" and "distinct (map fst es)"
    unfolding es by (simp_all only: apply_entries_append map_append distinct_append set_map dist simp_thms)
  show "in_sync sid e r id (apply_entries es c0) tx'"
    using in_sync_store [OF sync(1) ok, of "t_now tx"] b by (simp add: app tx' c)
  show "version_of (t_db tx') = version_of (t_db tx)" using b by (simp add: tx' store_stages)
  show "map hf_file hs = files" "\<forall>h \<in> set hs. hf_sha h = sha (if_content (hf_file h))" using hashed by blast+
qed

definition ingested :: "(bytes \<Rightarrow> bytes) \<Rightarrow> int \<Rightarrow> ingest_file \<Rightarrow> path_entry \<Rightarrow> bool" where
  "ingested sha now f x \<longleftrightarrow> pe_kind x = FILE \<and> pe_mode x = if_mode f \<and> pe_size x = int (length (if_content f)) \<and> pe_mtime x = now
     \<and> pe_sha x = Some (sha (if_content f)) \<and> pe_target x = None"

theorem pg_bulkIngest_sync:
  assumes s: "in_sync sid e r id c0 tx" and run: "pg_bulkIngest sha files sid (Some e) tx = (Inr es, tx')" and ne: "files \<noteq> []"
    and files: "\<forall>f \<in> set files. stored_path (if_path f)" "distinct (map if_path files)"
  shows "in_sync sid e r id (apply_entries es c0) tx'" and "version_of (t_db tx') sid = map_option (\<lambda>v. v + 1) (version_of (t_db tx) sid)"
    and "distinct (map fst es)" and "f \<in> set files \<Longrightarrow> \<exists>x. map_of es (if_path f) = Some x \<and> ingested sha (t_now tx) f x"
    and "map_of es p = Some x \<Longrightarrow> p \<notin> if_path ` set files \<Longrightarrow> above_files files p \<and> map_of c0 p = None \<and> pe_kind x = DIRECTORY"
    and "f \<in> set files \<Longrightarrow> map_of c0 (if_path f) = Some x \<Longrightarrow> pe_kind x \<noteq> DIRECTORY"
proof -
  let ?tx0 = "bumped sid tx" and ?st0 = "\<lparr>is_dirs = [(''/'', r)], is_result = []\<rparr>"
  note ctx = ingest_context_ready [OF s]
  obtain st tx1 hs ex where levels: "ingest_levels sid (map (dirs_at files) (ingest_depths files)) ?st0 ?tx0 = (Inr st, tx1)"
    and hs: "hash_files sha (is_dirs st) files = Inr hs" and ex: "existing_files tx1 hs = Inr ex"
    and store: "store_files sid hs ex (is_result st) (on_db (commitBatch (unique_blobs hs) (t_now tx1)) tx1) = (Inr es, tx')"
    using run ne ctx(1) by (auto simp: pg_bulkIngest_def and_then_def of_sum_def modify_def split: sum.splits prod.splits)
  obtain pe where pe: "map_of c0 ''/'' = Some pe" "pe_kind pe = DIRECTORY" using s by (rule in_sync_root)
  have "pe_inode pe = r" using in_sync_dir(2) [OF s, of "[]"] pe by simp
  then have start: "ingesting sid e r c0 ?st0 c0 ?tx0" using ctx(2) pe by (simp add: ingesting_def dirs_ok_def)
  note lv = levels_ok [OF files(1)]
  note dirs = ingest_levels_sync [OF start levels lv(1)]
  obtain c1 where c1: "ingesting sid e r c0 st c1 tx1" using dirs by blast
  note stored = store_files_sync [OF c1 hs ex files store]
  show "in_sync sid e r id (apply_entries es c0) tx'" "distinct (map fst es)" using stored(2,6) by blast+
  have tx1: "t_now tx1 = t_now tx" "version_of (t_db tx1) sid = version_of (bump sid (t_db tx)) sid" using dirs by (simp_all add: later_than_def)
  show "version_of (t_db tx') sid = map_option (\<lambda>v. v + 1) (version_of (t_db tx) sid)" using tx1(2) by (simp add: stored(3))
  let ?fe = "file_entries (t_now tx1) hs (hf_ids tx1 hs)"
  show "\<exists>x. map_of es (if_path f) = Some x \<and> ingested sha (t_now tx) f x" if f: "f \<in> set files" for f
  proof -
    obtain k where k: "k < length hs" "f = hf_file (hs ! k)" using f stored(4) by (auto simp: in_set_conv_nth)
    have "(if_path f, ingest_file_entry (hf_ids tx1 hs ! k) (t_now tx1) (hs ! k)) \<in> set ?fe"
      using k file_entries_nth [of "hf_ids tx1 hs" hs k "t_now tx1"] nth_mem [of k ?fe] by (simp add: file_entries_def)
    then have "map_of es (if_path f) = Some (ingest_file_entry (hf_ids tx1 hs ! k) (t_now tx1) (hs ! k))"
      using stored(1) by (intro map_of_is_SomeI [OF stored(6)]) simp
    then show ?thesis using stored(5) k tx1(1) by (simp add: ingested_def ingest_file_entry_def)
  qed
  show "pe_kind x \<noteq> DIRECTORY" if f: "f \<in> set files" "map_of c0 (if_path f) = Some x" for f x
  proof -
    obtain h where h: "h \<in> set hs" "f = hf_file h" using f(1) stored(4) by auto
    have "c1 = apply_entries (is_result st) c0" "distinct (map fst (is_result st))" "map_of (is_result st) (if_path f) = None"
      using c1 f(2) unfolding ingesting_def by (blast, blast, metis not_None_eq)
    then have "map_of c1 (hf_path h) = Some x" using f(2) h(2) by (simp add: map_of_apply_entries)
    then show ?thesis using stored(7) h(1) by blast
  qed
  assume p: "map_of es p = Some x" "p \<notin> if_path ` set files"
  have "p \<notin> hf_path ` set hs" using p(2) stored(4) by auto
  then have "map_of ?fe p = None" using file_entries_keys [of "hf_ids tx1 hs" hs "t_now tx1"] by (simp add: map_of_eq_None_iff)
  then have x: "map_of (is_result st) p = Some x" using p(1) stored(1) by (auto simp: map_add_def split: option.splits)
  then have "p \<in> made_keys st" by (metis map_of_eq_None_iff option.distinct(1))
  moreover have "made_keys st \<subseteq> \<Union> (set (map set (map (dirs_at files) (ingest_depths files))))" using dirs by simp
  ultimately have "above_files files p" by (intro lv(2)) (rule subsetD)
  then show "above_files files p \<and> map_of c0 p = None \<and> pe_kind x = DIRECTORY" using x c1 unfolding ingesting_def by blast
qed

end
