(* ===== verification/BulkIngestSync.thy ===== *)
theory BulkIngestSync
  imports IngestFiles
begin

text \<open>
  Bulk ingest on a session: whatever the outcome the session stays coherent, and when nothing is in the way the
  files are there afterwards, with the directories above them, and nothing else has changed.
\<close>

section \<open>When nothing is in the way\<close>

abbreviation parent_path :: "string \<Rightarrow> string" where
  "parent_path p \<equiv> path_of (butlast (path_parts p))"

fun top_down :: "string set \<Rightarrow> string list list \<Rightarrow> bool" where
  "top_down K [] \<longleftrightarrow> True"
| "top_down K (ps # pss) \<longleftrightarrow> parent_path ` set ps \<subseteq> K \<and> top_down (K \<union> set ps) pss"

lemma top_down_mono: "top_down K pss \<Longrightarrow> K \<subseteq> L \<Longrightarrow> top_down L pss"
proof (induction pss arbitrary: K L)
  case (Cons ps pss)
  have "top_down (L \<union> set ps) pss" by (rule Cons.IH [of "K \<union> set ps"]) (use Cons.prems in auto)
  then show ?case using Cons.prems by auto
qed simp

lemma top_down_levels:
  assumes "\<forall>f \<in> set files. stored_path (if_path f)" and "0 < i"
  shows "top_down (insert ''/'' (set (dirs_at files (i - 1)))) (map (dirs_at files) [i ..< m])"
proof (cases "i < m")
  case True
  then show ?thesis using assms(2)
  proof (induction "m - i" arbitrary: i)
    case (Suc n)
    have "parent_path p \<in> insert ''/'' (set (dirs_at files (i - 1)))" if p: "p \<in> set (dirs_at files i)" for p
    proof -
      obtain f where f: "f \<in> set files" "i < length (path_parts (if_path f))" "p = path_of (take i (path_parts (if_path f)))" using p by (auto simp: set_dirs_at)
      obtain segs where segs: "valid_names segs" "if_path f = path_of segs" using assms(1) f(1) by blast
      have v: "valid_names (take i segs)" using segs(1) by (metis append_take_drop_id valid_names_append)
      have "parent_path p = path_of (take (i - 1) segs)" using f segs v by (simp add: butlast_take)
      moreover have "path_of (take (i - 1) segs) \<in> set (dirs_at files (i - 1))" using f segs by (auto simp: set_dirs_at intro!: bexI [of _ f])
      ultimately show ?thesis by simp
    qed
    moreover have "top_down (insert ''/'' (set (dirs_at files (Suc i - 1)))) (map (dirs_at files) [Suc i ..< m])"
    proof (cases "Suc i < m")
      case True
      then show ?thesis by (intro Suc.hyps(1)) (use Suc in auto)
    qed simp
    ultimately show ?case using Suc.prems(1) by (auto simp: upt_conv_Cons intro: top_down_mono)
  qed simp
qed simp

lemma dir_candidates_total:
  assumes "\<forall>p \<in> set ps. map_of dirs (parent_path p) \<noteq> None"
  shows "\<exists>cs. dir_candidates dirs ps = Inr cs"
  using assms by (induction ps) (auto simp: Let_def split: option.splits)

lemma adopt_dirs_total:
  assumes "in_sync sid e r id c tx" and "\<forall>x \<in> set cs. slot_ok c (dc_path x) (dc_parent x) (dc_name x)"
    and "\<forall>x \<in> set cs. \<forall>y. map_of c (dc_path x) = Some y \<longrightarrow> pe_kind y = DIRECTORY"
  shows "\<exists>dirs'. adopt_dirs tx cs dirs = Inr dirs'"
  using assms
proof (induction cs arbitrary: dirs)
  case (Cons x cs)
  have "existing_row tx (dc_parent x, dc_name x) = map_option (\<lambda>y. (pe_inode y, pe_kind y)) (map_of c (dc_path x))"
    using slot_row(1) [OF Cons.prems(1)] Cons.prems(2) by simp
  then show ?case using Cons by (cases "map_of c (dc_path x)") auto
qed simp

lemma ingesting_dir:
  assumes i: "ingesting sid e r c0 st c tx" and "\<And>x. map_of c0 p = Some x \<Longrightarrow> pe_kind x = DIRECTORY" and "map_of c p = Some y"
  shows "pe_kind y = DIRECTORY"
proof -
  have c: "c = apply_entries (is_result st) c0" and dist: "distinct (map fst (is_result st))" using i unfolding ingesting_def by blast+
  have "\<And>x. map_of (is_result st) p = Some x \<Longrightarrow> pe_kind x = DIRECTORY" using i unfolding ingesting_def by blast
  then show ?thesis using assms(2,3) unfolding c map_of_apply_entries [OF dist] by (auto split: option.splits)
qed

lemma ingest_level_total:
  assumes i: "ingesting sid e r c0 st c tx" and ps: "\<forall>p \<in> set ps. stored_path p"
    and up: "\<forall>p \<in> set ps. knows st (parent_path p)" and clear: "\<forall>p \<in> set ps. \<forall>x. map_of c0 p = Some x \<longrightarrow> pe_kind x = DIRECTORY"
    and dist: "distinct ps"
  shows "\<exists>st' tx'. ingest_level sid ps st tx = (Inr st', tx')"
proof -
  have s: "in_sync sid e r id c tx" and d: "dirs_ok c (is_dirs st)" using i unfolding ingesting_def by blast+
  obtain cs where cs: "dir_candidates (is_dirs st) ps = Inr cs" using dir_candidates_total [of ps "is_dirs st"] up by (auto simp: knows_def)
  note cand = dir_candidates_ok [OF cs d ps]
  have "dc_path ` set cs \<subseteq> set ps" unfolding set_map [symmetric] cand(1) by auto
  then have "\<forall>x \<in> set cs. \<forall>y. map_of c (dc_path x) = Some y \<longrightarrow> pe_kind y = DIRECTORY" using ingesting_dir [OF i] clear by blast
  then obtain dirs where dirs: "adopt_dirs tx cs (is_dirs st) = Inr dirs" using adopt_dirs_total [OF s cand(2)] by blast
  note adopt = adopt_dirs_ok [OF dirs s d cand(2)]
  let ?new = "filter (\<lambda>c. map_of dirs (dc_path c) = None) cs"
  have "distinct (map dc_path cs)" using cand(1) dist by simp
  then have "distinct (map dc_path ?new)" by (rule distinct_map_filter)
  then have fresh: "fresh_dirs c ?new" using cand(2) adopt by (simp add: fresh_dirs_def)
  show ?thesis using cs dirs create_dirs_ready [OF s fresh] by (simp add: ingest_level_def and_then_def of_sum_def)
qed

lemma ingest_levels_total:
  assumes "ingesting sid e r c0 st c tx" and "\<forall>ps \<in> set pss. distinct ps \<and> (\<forall>p \<in> set ps. stored_path p)"
    and "top_down K pss" and "\<And>p. p \<in> K \<Longrightarrow> knows st p"
    and "\<forall>ps \<in> set pss. \<forall>p \<in> set ps. \<forall>x. map_of c0 p = Some x \<longrightarrow> pe_kind x = DIRECTORY"
  shows "\<exists>st' tx'. ingest_levels sid pss st tx = (Inr st', tx')"
  using assms
proof (induction pss arbitrary: st c tx K)
  case (Cons ps pss)
  have ps: "distinct ps" "\<forall>p \<in> set ps. stored_path p" using Cons.prems(2) by auto
  have up: "\<forall>p \<in> set ps. knows st (parent_path p)" using Cons.prems(3,4) by auto
  obtain st1 tx1 where 1: "ingest_level sid ps st tx = (Inr st1, tx1)"
    using ingest_level_total [OF Cons.prems(1) ps(2) up _ ps(1)] Cons.prems(5) by auto
  note level = ingest_level_sync [OF Cons.prems(1) 1 ps]
  obtain c1 where c1: "ingesting sid e r c0 st1 c1 tx1" using level(1) by blast
  have "\<exists>st' tx'. ingest_levels sid pss st1 tx1 = (Inr st', tx')"
    by (rule Cons.IH [OF c1, of "K \<union> set ps"]) (use Cons.prems level(4) in auto)
  then show ?case using 1 by (auto simp: and_then_def)
qed (simp add: return_ok_def)

text \<open>No file stands where a directory is needed, and no directory where a file goes.\<close>

definition clear_for :: "path_rows \<Rightarrow> ingest_file list \<Rightarrow> bool" where
  "clear_for c files \<longleftrightarrow>
     (\<forall>f \<in> set files. \<not> above_files files (if_path f) \<and> (\<forall>x. map_of c (if_path f) = Some x \<longrightarrow> pe_kind x \<noteq> DIRECTORY))
     \<and> (\<forall>p x. above_files files p \<and> map_of c p = Some x \<longrightarrow> pe_kind x = DIRECTORY)"

text \<open>The directories above the files as a list, which makes the condition executable.\<close>

definition dirs_above :: "ingest_file list \<Rightarrow> string list" where
  "dirs_above files = concat (map (\<lambda>f. let parts = path_parts (if_path f) in map (\<lambda>k. path_of (take k parts)) [1 ..< length parts]) files)"

lemma above_files_code [code]: "above_files files p \<longleftrightarrow> p \<in> set (dirs_above files)"
proof
  show "p \<in> set (dirs_above files)" if "above_files files p"
    using that by (fastforce simp: above_files_def dirs_above_def Let_def Suc_le_eq)
  show "above_files files p" if "p \<in> set (dirs_above files)"
    using that by (fastforce simp: above_files_def dirs_above_def Let_def Suc_le_eq)
qed

lemma clear_for_code [code]:
  "clear_for c files \<longleftrightarrow>
     list_all (\<lambda>f. \<not> above_files files (if_path f) \<and> map_option pe_kind (map_of c (if_path f)) \<noteq> Some DIRECTORY) files
     \<and> list_all (\<lambda>p. case map_of c p of None \<Rightarrow> True | Some x \<Rightarrow> pe_kind x = DIRECTORY) (dirs_above files)"
  by (auto simp: clear_for_def list_all_iff above_files_code split: option.splits)

lemma hash_files_total:
  assumes "\<forall>f \<in> set files. map_of dirs (parent_path (if_path f)) \<noteq> None"
  shows "\<exists>hs. hash_files sha dirs files = Inr hs"
  using assms by (induction files) (auto simp: Let_def split: option.splits)

lemma existing_files_total:
  assumes "\<forall>h \<in> set hs. \<forall>i k. existing_row tx (hf_slot h) = Some (i, k) \<longrightarrow> k \<noteq> DIRECTORY"
  shows "\<exists>ex. existing_files tx hs = Inr ex"
  using assms by (induction hs) (auto split: option.splits)

lemma check_ingest_paths_ok:
  assumes "\<forall>f \<in> set files. ok_path (if_path f) \<and> if_path f \<noteq> ''/''"
  shows "check_ingest_paths files = Inr ()"
  using assms
proof (induction files)
  case (Cons f fs)
  have ok: "ok_path (if_path f)" "if_path f \<noteq> ''/''" using Cons.prems by simp_all
  obtain segs where segs: "valid_names segs" "if_path f = path_of segs" using ok(1) by (rule ok_pathE)
  have "resolvePath ''/'' (path_of segs) = path_of segs" using normalizeFsPath_path_of [OF segs(1)] by (simp add: resolvePath_def path_of_def)
  then show ?case using Cons ok segs ok_path_iff [OF segs(1)] by simp
qed simp

lemma parent_of_file:
  assumes files: "\<forall>f \<in> set files. stored_path (if_path f)" and f: "f \<in> set files"
  shows "parent_path (if_path f) \<in> insert ''/'' (\<Union> (set (map set (map (dirs_at files) (ingest_depths files)))))"
proof -
  obtain segs where segs: "valid_names segs" "segs \<noteq> []" "if_path f = path_of segs" using files f by blast
  have le: "length segs \<le> foldr (\<lambda>f. max (length (path_parts (if_path f)))) files 0"
    using f segs by (induction files) (auto simp: le_max_iff_disj)
  show ?thesis
  proof (cases "length segs = 1")
    case True
    then have "butlast segs = []" by (cases segs) simp_all
    then show ?thesis using segs by simp
  next
    case False
    then have k: "length segs - 1 \<in> set (ingest_depths files)" "length segs - 1 < length segs"
      using segs(2) le by (auto simp: ingest_depths_def Suc_le_eq) (cases segs; simp)+
    have "parent_path (if_path f) \<in> set (dirs_at files (length segs - 1))"
      unfolding set_dirs_at by (rule bexI [OF _ f]) (use segs k(2) in \<open>simp add: butlast_conv_take\<close>)
    then show ?thesis using k(1) by auto
  qed
qed

theorem pg_bulkIngest_total:
  assumes s: "in_sync sid e r id c0 tx" and ne: "files \<noteq> []" and clear: "clear_for c0 files"
    and files: "\<forall>f \<in> set files. ok_path (if_path f) \<and> if_path f \<noteq> ''/''" "distinct (map if_path files)"
  shows "\<exists>es tx'. pg_bulkIngest sha files sid (Some e) tx = (Inr es, tx')"
proof -
  let ?tx0 = "bumped sid tx" and ?st0 = "\<lparr>is_dirs = [(''/'', r)], is_result = []\<rparr>" and ?pss = "map (dirs_at files) (ingest_depths files)"
  have stored: "\<forall>f \<in> set files. stored_path (if_path f)" using files(1) by (metis ok_pathE path_of_root_iff)
  note ctx = ingest_context_ready [OF s]
  obtain pe where pe: "map_of c0 ''/'' = Some pe" "pe_kind pe = DIRECTORY" using s by (rule in_sync_root)
  have "pe_inode pe = r" using in_sync_dir(2) [OF s, of "[]"] pe by simp
  then have start: "ingesting sid e r c0 ?st0 c0 ?tx0" using ctx(2) pe by (simp add: ingesting_def dirs_ok_def)
  note lv = levels_ok [OF stored]
  have "top_down (insert ''/'' (set (dirs_at files 0))) ?pss" using top_down_levels [OF stored, of 1] by (simp add: ingest_depths_def)
  then have top: "top_down {''/''} ?pss" by (rule top_down_mono) (auto simp: set_dirs_at)
  obtain st tx1 where levels: "ingest_levels sid ?pss ?st0 ?tx0 = (Inr st, tx1)"
    using ingest_levels_total [OF start lv(1) top] lv(2) clear by (fastforce simp: clear_for_def knows_def)
  note dirs = ingest_levels_sync [OF start levels lv(1)]
  obtain c1 where c1: "ingesting sid e r c0 st c1 tx1" using dirs by blast
  have known: "map_of (is_dirs st) (parent_path (if_path f)) \<noteq> None" if "f \<in> set files" for f
    using parent_of_file [OF stored that] dirs unfolding knows_def [symmetric] by (auto simp: knows_def)
  then obtain hs where hs: "hash_files sha (is_dirs st) files = Inr hs" using hash_files_total by blast
  have s1: "in_sync sid e r id c1 tx1" and d1: "dirs_ok c1 (is_dirs st)" and c: "c1 = apply_entries (is_result st) c0"
    and dist: "distinct (map fst (is_result st))" using c1 unfolding ingesting_def by blast+
  note hashed = hash_files_ok [OF hs d1 stored]
  have free: "map_of c1 (hf_path h) = map_of c0 (hf_path h)" if h: "h \<in> set hs" for h
  proof -
    have "hf_file h \<in> set files" using h hashed(1) by auto
    then have "hf_path h \<notin> \<Union> (set (map set ?pss))" using clear lv(2) by (auto simp: clear_for_def)
    moreover have "made_keys st \<subseteq> \<Union> (set (map set ?pss))" using dirs by simp
    ultimately have "map_of (is_result st) (hf_path h) = None" unfolding map_of_eq_None_iff by blast
    then show ?thesis unfolding c map_of_apply_entries [OF dist] by simp
  qed
  have slots: "\<forall>h \<in> set hs. slot_ok c1 (hf_path h) (hf_parent h) (hf_name h)" using hashed(2) by blast
  have leaf: "pe_kind x \<noteq> DIRECTORY" if "h \<in> set hs" "map_of c1 (hf_path h) = Some x" for h x
  proof -
    have "hf_file h \<in> set files" using that(1) hashed(1) by auto
    then show ?thesis using clear free [OF that(1)] that(2) by (simp add: clear_for_def)
  qed
  have "\<forall>h \<in> set hs. \<forall>i k. existing_row tx1 (hf_slot h) = Some (i, k) \<longrightarrow> k \<noteq> DIRECTORY"
    using slot_row(1) [OF s1 bspec [OF slots]] leaf by auto
  then obtain ex where ex: "existing_files tx1 hs = Inr ex" using existing_files_total by blast
  let ?tx2 = "on_db (commitBatch (unique_blobs hs) (t_now tx1)) tx1"
  note sync = in_sync_commitBatch [OF s1, of "unique_blobs hs" "t_now tx1"]
  have "map hf_path hs = map if_path files" using hashed(1) by (metis (no_types, lifting) map_map comp_apply map_eq_conv)
  then have ok: "files_ok c1 hs" using slots leaf files(2) by (simp add: files_ok_def)
  have rd: "ready sid e ?tx2" using sync(1) by (simp add: in_sync_def)
  have kids: "map_of ex k = child (t_db ?tx2) (fst k) (snd k)" if "k \<in> set (map hf_slot hs)" for k
    using that existing_files_ok [OF s1 ex slots] sync(2) by auto
  show ?thesis
    using store_files_ready [OF rd files_batch_ok [OF sync(1) ok, of "t_now ?tx2"] kids, of "is_result st"] ne ctx(1) levels hs ex check_ingest_paths_ok [OF files(1)]
    by (simp add: pg_bulkIngest_def and_then_def of_sum_def modify_def)
qed


section \<open>Publication\<close>

lemma check_ingest_paths_Inr:
  "check_ingest_paths files = Inr u \<Longrightarrow> f \<in> set files \<Longrightarrow> resolvePath ''/'' (if_path f) \<noteq> ''/''"
  by (induction files) (auto simp: Let_def split: if_splits)

lemma ingest_paths_stored:
  assumes "\<forall>f \<in> set files. ok_path (if_path f)" and "pg_bulkIngest sha files sid expected tx = (Inr es, tx')" and "files \<noteq> []"
  shows "\<forall>f \<in> set files. stored_path (if_path f)"
proof
  fix f assume f: "f \<in> set files"
  have "\<exists>u. check_ingest_paths files = Inr u"
    using assms(2,3) by (auto simp: pg_bulkIngest_def and_then_def of_sum_def split: sum.splits prod.splits)
  then have ne: "resolvePath ''/'' (if_path f) \<noteq> ''/''" using check_ingest_paths_Inr f by blast
  obtain segs where segs: "valid_names segs" "if_path f = path_of segs" using assms(1) f by (metis ok_pathE)
  have "resolvePath ''/'' (path_of segs) = path_of segs" using normalizeFsPath_path_of [OF segs(1)] by (simp add: resolvePath_def path_of_def)
  then show "stored_path (if_path f)" using ne segs by auto
qed

lemma fold_SetPath: "fold cache_change (map (\<lambda>(p, e). SetPath p e) es) c = apply_entries es c"
  by (induction es arbitrary: c) auto

lemma ok_keys_apply: "ok_keys c \<Longrightarrow> (\<And>p. p \<in> fst ` set es \<Longrightarrow> ok_path p) \<Longrightarrow> ok_keys (apply_entries es c)"
proof (induction es arbitrary: c)
  case (Cons x es)
  have "ok_keys (AList.update (fst x) (snd x) c)" by (rule ok_keys_update) (use Cons.prems in auto)
  then show ?case using Cons by (simp add: case_prod_unfold)
qed simp

lemma above_files_ok:
  assumes "\<forall>f \<in> set files. ok_path (if_path f)" and "above_files files p"
  shows "ok_path p"
proof -
  obtain f k where f: "f \<in> set files" "p = path_of (take k (path_parts (if_path f)))" using assms(2) by (auto simp: above_files_def)
  obtain segs where segs: "valid_names segs" "if_path f = path_of segs" using assms(1) f(1) by (metis ok_pathE)
  then show ?thesis using ok_path_ancestor [of "take k segs" "drop k segs"] assms(1) f by auto
qed

lemma ingest_published:
  assumes inv: "sess_inv s" and out: "\<not> p_scope s" and cur: "current s" and tx: "t_db tx = s_db s" "ready (s_sandbox s) (v_epoch s) tx"
    and run: "pg_bulkIngest sha files (s_sandbox s) (Some (v_epoch s)) tx = (Inr es, tx')" and v: "version_of (t_db tx') (s_sandbox s) = Some v"
    and files: "files \<noteq> []" "\<forall>f \<in> set files. ok_path (if_path f)" "distinct (map if_path files)"
    and s'_def: "s' = publishMutation (Committed v) (map (\<lambda>(p, e). SetPath p e) es) cs True (s\<lparr>s_db := t_db tx'\<rparr>)"
  shows "sess_inv s'" and "later (s_sandbox s) (s_db s) (s_db s')" and "current s'" and "v_cache s' = apply_entries es (v_cache s)"
    and "s_sandbox s' = s_sandbox s"
proof -
  let ?sid = "s_sandbox s" and ?c = "apply_entries es (v_cache s)"
  note si = inv [unfolded sess_inv_def]
  have wf: "wf_db (s_db s)" using si by (simp add: sound_db_def)
  have "snapshot ?sid (v_cache s) (s_db s)" using si out cur by (simp add: view_ok_def)
  then obtain r where sync: "in_sync ?sid (v_epoch s) r id (v_cache s) tx" using snapshot_in_sync [OF _ wf tx(2,1)] by blast
  note post = pg_bulkIngest_sync [OF sync run files(1) ingest_paths_stored [OF files(2) run files(1)] files(3)]
  have snap: "snapshot ?sid ?c (t_db tx')" by (rule in_sync_snapshot [OF post(1)])
  have wf': "wf_db (t_db tx')" using post(1) by (simp add: in_sync_def)
  have "v = v_epoch s + 1" using post(2) v cur tx(1) by (simp add: current_def)
  then have later: "v_epoch s < v" by simp
  have keys: "ok_keys ?c"
  proof (rule ok_keys_apply)
    show "ok_keys (v_cache s)" using si by blast
    fix p assume p: "p \<in> fst ` set es"
    then obtain x where x: "map_of es p = Some x" by (metis map_of_eq_None_iff not_None_eq)
    show "ok_path p" using post(5) [OF x] above_files_ok [OF files(2)] files(2) by (cases "p \<in> if_path ` set files") auto
  qed
  have dist: "distinct (map fst ?c)" using snap by (auto simp: snapshot_def dest: cohere_distinct)
  have inos: "\<forall>i \<in> inos ?c. p_next_id s < i" using snapshot_ino_pos [OF snap wf'] si by fastforce
  show cache: "v_cache s' = ?c" unfolding s'_def by (subst v_cache_publishMutation) (use si in \<open>simp_all add: fold_SetPath\<close>)
  show "sess_inv s'"
    unfolding sess_inv_def view_ok_def cache
    using si out keys dist inos snap v wf' snapshot_sound [OF snap wf' keys] by (simp add: s'_def ceiling_version view_ok_def)
  show "later ?sid (s_db s) (s_db s')" using cur v later by (simp add: later_def current_def ceiling_version s'_def)
  show "current s'" "s_sandbox s' = ?sid" using v by (simp_all add: current_def s'_def)
qed

text \<open>Above an entry of the view there are only directories.\<close>

lemma in_sync_above:
  assumes s: "in_sync sid e r id c tx" and f: "f \<in> set files" "map_of c (if_path f) \<noteq> None" "stored_path (if_path f)"
    and k: "k < length (path_parts (if_path f))"
  shows "\<exists>x. map_of c (path_of (take k (path_parts (if_path f)))) = Some x \<and> pe_kind x = DIRECTORY"
proof (rule ccontr)
  obtain segs where segs: "valid_names segs" "if_path f = path_of segs" using f(3) by blast
  have v: "valid_names (take k segs)" using segs(1) by (metis append_take_drop_id valid_names_append)
  have sp: "strict_prefix (take k segs) segs" using k segs by (simp add: strict_prefix_def take_is_prefix)
  assume no: "\<not> ?thesis"
  have "map_of c (path_of (take k segs)) = None \<or> (\<exists>x. map_of c (path_of (take k segs)) = Some x \<and> pe_kind x \<noteq> DIRECTORY)"
    using no segs by (cases "map_of c (path_of (take k segs))") simp_all
  then have "db_lookup (t_db tx) r segs = None" by (rule in_sync_below [OF s _ v sp])
  moreover have "db_lookup (t_db tx) r segs \<noteq> None" using f(2) segs cohere_None [OF _ segs(1)] s unfolding in_sync_def by metis
  ultimately show False by simp
qed

lemma ingest_needs_clear:
  assumes s: "in_sync sid e r id c tx" and run: "pg_bulkIngest sha files sid (Some e) tx = (Inr es, tx')" and ne: "files \<noteq> []"
    and stored: "\<forall>f \<in> set files. stored_path (if_path f)" and dist: "distinct (map if_path files)"
  shows "clear_for c files"
    and "above_files files p \<Longrightarrow> \<exists>x. map_of (apply_entries es c) p = Some x \<and> pe_kind x = DIRECTORY"
proof -
  note post = pg_bulkIngest_sync [OF s run ne stored dist]
  have get: "map_of (apply_entries es c) p = (case map_of es p of None \<Rightarrow> map_of c p | Some x \<Rightarrow> Some x)" for p
    by (rule map_of_apply_entries [OF post(3)])
  have stays: "\<exists>x. map_of (apply_entries es c) (if_path f) = Some x \<and> pe_kind x = FILE" if "f \<in> set files" for f
    using post(4) [OF that] by (auto simp: get ingested_def)
  show above: "\<exists>x. map_of (apply_entries es c) p = Some x \<and> pe_kind x = DIRECTORY" if p: "above_files files p" for p
  proof -
    obtain f k where f: "f \<in> set files" "k < length (path_parts (if_path f))" "p = path_of (take k (path_parts (if_path f)))" using p by (auto simp: above_files_def)
    show ?thesis unfolding f(3) by (rule in_sync_above [OF post(1) f(1)]) (use f(1,2) stays [OF f(1)] stored in auto)
  qed
  show "clear_for c files"
    unfolding clear_for_def
  proof (intro conjI ballI allI impI)
    show "\<not> above_files files (if_path f)" if "f \<in> set files" for f using above [of "if_path f"] stays [OF that] by auto
    show "pe_kind x \<noteq> DIRECTORY" if "f \<in> set files" "map_of c (if_path f) = Some x" for f x by (rule post(6) [OF that])
    show "pe_kind x = DIRECTORY" if p: "above_files files p \<and> map_of c p = Some x" for p x
    proof -
      have "p \<notin> if_path ` set files" using above [of p] stays p by force
      then have "map_of es p = None" using post(5) [of p] p by (metis not_None_eq)
      then show ?thesis using above [of p] p by (auto simp: get)
    qed
  qed
qed

section \<open>Every outcome\<close>

lemma normalize_files_ok:
  assumes "normalize_files seen files = Inr gs"
  shows "(\<forall>g \<in> set gs. ok_path (if_path g) \<and> if_path g \<notin> set seen) \<and> distinct (map if_path gs) \<and> length gs = length files"
  using assms
proof (induction seen files arbitrary: gs rule: normalize_files.induct)
  case (2 seen f fs)
  obtain path u gs' where p: "validatePath (if_path f) = Inr path" "assertStoredPath path ''bulkIngest'' = Inr u" "path \<notin> set seen"
      "normalize_files (path # seen) fs = Inr gs'" "gs = f\<lparr>if_path := path\<rparr> # gs'"
    using 2(2) by (auto split: sum.splits if_splits)
  have "ok_path path" by (rule validated_ok [OF p(1)]) (use p(2) in \<open>auto simp: assertStoredPath_def split: if_splits\<close>)
  then show ?case using 2(1) [OF p(1,2,3) p(4)] p(3,5) by auto
qed simp

lemma ingest_ns_failed:
  assumes "bulkIngest_ns files s = (Inl e, s')"
  shows "light s s'"
proof -
  obtain a s1 where w: "assertWritable ''/'' ''bulkIngest'' s = (a, s1)" by force
  have l: "light s s1" by (rule light.keepsD [OF light_guards(2) w])
  let ?fn = "\<lambda>rp. pg_bulkIngest (e_sha256 (s_env s1)) files (s_sandbox s1) (Some (r_expected rp))"
  obtain x s2 where x: "ingest_write ?fn s1 = (x, s2)" by force
  consider "s' = s1" | "x = Inl e" "s' = s2"
    using assms w x by (auto simp: bulkIngest_ns_def and_then_def split: sum.splits if_splits prod.splits)
  then show ?thesis
  proof cases
    case 2
    from x [unfolded ingest_write_def] have "light s1 s2"
      by (cases rule: keeping_blobs_cases) (use 2 in \<open>auto simp: light_def\<close>)
    then show ?thesis using light.trans [OF l] 2 by blast
  qed (use l in simp)
qed

lemma ingest_ns_committed:
  assumes "bulkIngest_ns files s = (Inr u, s')"
  obtains tx tx' es v where "\<not> p_scope s" and "current s" and "t_db tx = s_db s" and "ready (s_sandbox s) (v_epoch s) tx"
    and "pg_bulkIngest (e_sha256 (s_env s)) files (s_sandbox s) (Some (expectedEpoch s)) tx = (Inr es, tx')"
    and "version_of (t_db tx') (s_sandbox s) = Some v"
    and "s' = publishMutation (Committed v) (map (\<lambda>(p, e). SetPath p e) es) (ingest_contents files (s\<lparr>s_db := t_db tx'\<rparr>) es) True (s\<lparr>s_db := t_db tx'\<rparr>)"
proof -
  let ?fn = "\<lambda>rp. pg_bulkIngest (e_sha256 (s_env s)) files (s_sandbox s) (Some (r_expected rp))"
  obtain pub es s1 where out: "\<not> p_scope s" and x: "ingest_write ?fn s = (Inr (pub, es), s1)"
    and s': "s' = publishMutation pub (map (\<lambda>(p, e). SetPath p e) es) (ingest_contents files s1 es) True s1"
    using assms by (auto simp: bulkIngest_ns_def and_then_def assertWritable_def assertAlive_def split: sum.splits if_splits prod.splits)
  from x [unfolded ingest_write_def] have "withWriteTx (?fn (replay_of (expectedEpoch s) (p_remap s))) s = (Inr (pub, es), s1)"
    by (cases rule: keeping_blobs_cases) (simp_all add: withWriteTx_body)
  then have "(if False then withBareTx (?fn (replay_of (expectedEpoch s) (p_remap s))) s else withWriteTx (?fn (replay_of (expectedEpoch s) (p_remap s))) s)
      = (Inr (pub, es), s1)" by simp
  then obtain tx tx' v where "t_db tx = s_db s" "ready (s_sandbox s) (v_epoch s) tx" "current s"
    "?fn (replay_of (expectedEpoch s) (p_remap s)) tx = (Inr es, tx')" "s1 = s\<lparr>s_db := t_db tx'\<rparr>" "pub = Committed v"
    "version_of (t_db tx') (s_sandbox s) = Some v"
    by (rule write_tx_Inr) blast
  then show thesis using that out s' by (simp add: replay_of_def)
qed

lemma ingest_epoch: "sess_inv s \<Longrightarrow> expectedEpoch s = v_epoch s"
  by (simp add: expectedEpoch_def sess_inv_def)

lemma sync_ingest_ns:
  assumes files: "files \<noteq> []" "\<forall>f \<in> set files. ok_path (if_path f)" "distinct (map if_path files)"
  shows "sync.keeps (bulkIngest_ns files)"
proof (rule sync.keepsI)
  fix s res s' assume run: "bulkIngest_ns files s = (res, s')"
  show "sync_step s s'"
  proof (cases res)
    case (Inl e)
    then show ?thesis using light_sync [OF ingest_ns_failed] run by blast
  next
    case (Inr u)
    show ?thesis unfolding sync_step_def
    proof
      assume inv: "sess_inv s"
      from run [unfolded Inr] show "s_sandbox s' = s_sandbox s \<and> sess_inv s' \<and> later (s_sandbox s) (s_db s) (s_db s')"
      proof (rule ingest_ns_committed)
        fix tx tx' es v
        assume out: "\<not> p_scope s" "current s" and tx: "t_db tx = s_db s" "ready (s_sandbox s) (v_epoch s) tx"
          and run': "pg_bulkIngest (e_sha256 (s_env s)) files (s_sandbox s) (Some (expectedEpoch s)) tx = (Inr es, tx')"
          and v: "version_of (t_db tx') (s_sandbox s) = Some v"
          and s': "s' = publishMutation (Committed v) (map (\<lambda>(p, e). SetPath p e) es) (ingest_contents files (s\<lparr>s_db := t_db tx'\<rparr>) es) True (s\<lparr>s_db := t_db tx'\<rparr>)"
        note pub = ingest_published [OF inv out tx run' [unfolded ingest_epoch [OF inv]] v files s']
        show ?thesis using pub(1,2,5) by blast
      qed
    qed
  qed
qed

text \<open>An ingest that goes through had nothing in its way.\<close>

lemma ingest_ns_clear:
  assumes inv: "sess_inv s" and run: "bulkIngest_ns files s = (Inr u, s')"
    and files: "files \<noteq> []" "\<forall>f \<in> set files. ok_path (if_path f)" "distinct (map if_path files)"
  shows "clear_for (v_cache s) files \<and> (\<forall>f \<in> set files. if_path f \<noteq> ''/'')"
  using run
proof (rule ingest_ns_committed)
  fix tx tx' es v
  assume out: "\<not> p_scope s" and cur: "current s" and tx: "t_db tx = s_db s" "ready (s_sandbox s) (v_epoch s) tx"
    and run: "pg_bulkIngest (e_sha256 (s_env s)) files (s_sandbox s) (Some (expectedEpoch s)) tx = (Inr es, tx')"
  have wf: "wf_db (s_db s)" and snap: "snapshot (s_sandbox s) (v_cache s) (s_db s)" using inv out cur by (simp_all add: sess_inv_def sound_db_def view_ok_def)
  obtain r where sync: "in_sync (s_sandbox s) (v_epoch s) r id (v_cache s) tx" using snapshot_in_sync [OF snap wf tx(2,1)] by blast
  have stored: "\<forall>f \<in> set files. stored_path (if_path f)" by (rule ingest_paths_stored [OF files(2) run files(1)])
  then have "\<forall>f \<in> set files. if_path f \<noteq> ''/''" by (metis path_of_root_iff)
  then show ?thesis using ingest_needs_clear(1) [OF sync run [unfolded ingest_epoch [OF inv]] files(1) stored files(3)] by blast
qed

lemma sync_bulkIngest: "sync.keeps (fs_bulkIngest files)"
proof (cases "files = []")
  case True
  then show ?thesis by (simp add: fs_bulkIngest_def sync.keeps_pure)
next
  case False
  show ?thesis
  proof (cases "normalize_files [] files")
    case (Inl e)
    then show ?thesis using False by (simp add: fs_bulkIngest_def sync.keeps_def sync.refl)
  next
    case (Inr gs)
    have "gs \<noteq> []" "\<forall>g \<in> set gs. ok_path (if_path g)" "distinct (map if_path gs)" using normalize_files_ok [OF Inr] False by auto
    then show ?thesis using False Inr sync_ingest_ns [of gs] by (simp add: fs_bulkIngest_def sync.keeps_def and_then_def)
  qed
qed

section \<open>Nothing in the way\<close>

text \<open>The session can write: no scope, not read only, its view current, its lease held.\<close>

definition can_ingest :: "session \<Rightarrow> bool" where
  "can_ingest s \<longleftrightarrow> \<not> p_scope s \<and> f_readonly s \<le> 0 \<and> current s \<and> lease_verdict s = Inr ()"

lemma ingest_write_runs:
  assumes "can_ingest s" and "sess_inv s"
    and run: "\<And>tx. t_db tx = s_db s \<Longrightarrow> t_now tx = s_now s \<Longrightarrow> ready (s_sandbox s) (v_epoch s) tx \<Longrightarrow>
      \<exists>es tx'. fn (replay_of (v_epoch s) (p_remap s)) tx = (Inr es, tx') \<and> ready (s_sandbox s) (v_epoch s) tx'"
  obtains tx es tx' v where "t_db tx = s_db s" and "t_now tx = s_now s" and "ready (s_sandbox s) (v_epoch s) tx"
    and "fn (replay_of (v_epoch s) (p_remap s)) tx = (Inr es, tx')" and "version_of (t_db tx') (s_sandbox s) = Some v"
    and "ingest_write fn s = (Inr (Committed v, es), s\<lparr>s_db := t_db tx'\<rparr>)"
proof -
  have cur: "version_of (s_db s) (s_sandbox s) = Some (v_epoch s)" and lease: "lease_verdict s = Inr ()"
    using assms(1) by (simp_all add: can_ingest_def current_def)
  have e: "expectedEpoch s = v_epoch s" using assms(2) by (simp add: expectedEpoch_def sess_inv_def)
  obtain tx where tx: "setSandboxContextWithLock (s_sandbox s) (begin_tx (s_db s) (s_now s)) = (Inr (), tx)" "t_db tx = s_db s" "t_now tx = s_now s"
    using context_ok [OF cur] by blast
  have rd: "ready (s_sandbox s) (v_epoch s) tx" by (rule context_ready(4) [OF tx(1) cur])
  obtain es tx' where r: "fn (replay_of (v_epoch s) (p_remap s)) tx = (Inr es, tx')" and rd': "ready (s_sandbox s) (v_epoch s) tx'" using run [OF tx(2,3) rd] by blast
  obtain v where v: "version_of (t_db tx') (s_sandbox s) = Some v" using rd' by (auto simp: ready_def)
  have epoch: "getSandboxEpoch (s_sandbox s) t = (Inr w, t)" if "ready (s_sandbox s) (v_epoch s) t" "version_of (t_db t) (s_sandbox s) = Some w" for t w
    using that by (auto simp: getSandboxEpoch_def get_sandbox_def rls_ok_def ready_def version_of_def split: option.splits)
  have "write_tx_body s (fn (replay_of (v_epoch s) (p_remap s))) (begin_tx (s_db s) (s_now s)) = (Inr (Committed v, es), tx')"
    using tx r epoch [OF rd] epoch [OF rd' v] cur lease by (simp add: write_tx_body_def and_then_def throw_if_def of_sum_def return_ok_def)
  then have "ingest_write fn s = (Inr (Committed v, es), s\<lparr>s_db := t_db tx'\<rparr>)" by (simp add: ingest_write_def keeping_blobs_def e)
  then show thesis using that tx(2,3) rd r v by blast
qed

theorem bulkIngest_complete:
  assumes inv: "sess_inv s" and can: "can_ingest s" and norm: "normalize_files [] files = Inr gs" and ne: "files \<noteq> []"
    and root: "\<forall>g \<in> set gs. if_path g \<noteq> ''/''" and clear: "clear_for (v_cache s) gs"
  obtains s' where "fs_bulkIngest files s = (Inr (), s')" and "sess_inv s'" and "current s'" and "s_sandbox s' = s_sandbox s"
    and "\<And>g. g \<in> set gs \<Longrightarrow> \<exists>x. view_get s' (if_path g) = Some x \<and> ingested (e_sha256 (s_env s)) (s_now s) g x"
    and "\<And>p. above_files gs p \<Longrightarrow> \<exists>x. view_get s' p = Some x \<and> pe_kind x = DIRECTORY"
    and "\<And>p. p \<notin> if_path ` set gs \<Longrightarrow> view_get s p \<noteq> None \<or> \<not> above_files gs p \<Longrightarrow> view_get s' p = view_get s p"
    and "\<not> p_scope s'"
proof -
  let ?sid = "s_sandbox s" and ?fn = "\<lambda>rp. pg_bulkIngest (e_sha256 (s_env s)) gs (s_sandbox s) (Some (r_expected rp))"
  have gs: "gs \<noteq> []" "\<forall>g \<in> set gs. ok_path (if_path g)" "distinct (map if_path gs)" using normalize_files_ok [OF norm] ne by auto
  have out: "\<not> p_scope s" and cur: "current s" and ro: "f_readonly s \<le> 0" using can by (simp_all add: can_ingest_def)
  have wf: "wf_db (s_db s)" and snap: "snapshot ?sid (v_cache s) (s_db s)" using inv out cur by (simp_all add: sess_inv_def sound_db_def view_ok_def)
  have stored: "\<forall>g \<in> set gs. stored_path (if_path g)" using gs(2) root by (metis ok_pathE path_of_root_iff)
  have runs: "\<exists>es tx'. ?fn (replay_of (v_epoch s) (p_remap s)) tx = (Inr es, tx') \<and> ready ?sid (v_epoch s) tx'"
    if tx: "t_db tx = s_db s" "ready ?sid (v_epoch s) tx" for tx
  proof -
    obtain r where sync: "in_sync ?sid (v_epoch s) r id (v_cache s) tx" using snapshot_in_sync [OF snap wf tx(2,1)] by blast
    obtain es tx' where run: "pg_bulkIngest (e_sha256 (s_env s)) gs ?sid (Some (v_epoch s)) tx = (Inr es, tx')"
      using pg_bulkIngest_total [OF sync gs(1) clear _ gs(3)] gs(2) root by blast
    then show ?thesis using pg_bulkIngest_sync(1) [OF sync run gs(1) stored gs(3)] by (auto simp: replay_of_def in_sync_def)
  qed
  obtain tx es tx' v where tx: "t_db tx = s_db s" "t_now tx = s_now s" "ready ?sid (v_epoch s) tx"
    and fn: "?fn (replay_of (v_epoch s) (p_remap s)) tx = (Inr es, tx')" and v: "version_of (t_db tx') ?sid = Some v"
    and wrote: "ingest_write ?fn s = (Inr (Committed v, es), s\<lparr>s_db := t_db tx'\<rparr>)"
    by (rule ingest_write_runs [OF can inv, of ?fn]) (use runs in blast)+
  have run: "pg_bulkIngest (e_sha256 (s_env s)) gs ?sid (Some (v_epoch s)) tx = (Inr es, tx')" using fn by (simp add: replay_of_def)
  define s' where "s' = publishMutation (Committed v) (map (\<lambda>(p, e). SetPath p e) es) (ingest_contents gs (s\<lparr>s_db := t_db tx'\<rparr>) es) True (s\<lparr>s_db := t_db tx'\<rparr>)"
  note pub = ingest_published [OF inv out cur tx(1,3) run v gs s'_def]
  obtain r where sync: "in_sync ?sid (v_epoch s) r id (v_cache s) tx" using snapshot_in_sync [OF snap wf tx(3,1)] by blast
  note post = pg_bulkIngest_sync [OF sync run gs(1) stored gs(3)]
  have get: "view_get s' p = (case map_of es p of None \<Rightarrow> view_get s p | Some x \<Rightarrow> Some x)" for p
    unfolding view_get_def pub(4) map_of_apply_entries [OF post(3)] ..
  have "assertWritable ''/'' ''bulkIngest'' s = (Inr (), s)" using out ro by (simp add: assertWritable_def and_then_def assertAlive_def alive_verdict_def split: option.split)
  then have "fs_bulkIngest files s = (Inr (), s')"
    using norm ne out wrote by (simp add: fs_bulkIngest_def bulkIngest_ns_def and_then_def of_sum_def s'_def)
  moreover have "\<exists>x. view_get s' (if_path g) = Some x \<and> ingested (e_sha256 (s_env s)) (s_now s) g x" if "g \<in> set gs" for g
    using post(4) [OF that] tx(2) by (auto simp: get)
  moreover have "\<exists>x. view_get s' p = Some x \<and> pe_kind x = DIRECTORY" if p: "above_files gs p" for p
    using ingest_needs_clear(2) [OF sync run gs(1) stored gs(3) p] by (simp add: view_get_def pub(4))
  moreover have "view_get s' p = view_get s p" if "p \<notin> if_path ` set gs" "view_get s p \<noteq> None \<or> \<not> above_files gs p" for p
  proof -
    have "map_of es p = None" using post(5) [OF _ that(1)] that(2) unfolding view_get_def by (metis not_None_eq)
    then show ?thesis by (simp add: get)
  qed
  moreover have "\<not> p_scope s'" using out by (simp add: s'_def)
  ultimately show thesis using that pub(1,3,5) by blast
qed

theorem bulkIngest_refused:
  assumes inv: "sess_inv s" and norm: "normalize_files [] files = Inr gs" and ne: "files \<noteq> []"
    and conflict: "\<not> clear_for (v_cache s) gs \<or> (\<exists>g \<in> set gs. if_path g = ''/'')"
  shows "\<exists>e s'. fs_bulkIngest files s = (Inl e, s') \<and> light s s'"
proof -
  have gs: "gs \<noteq> []" "\<forall>g \<in> set gs. ok_path (if_path g)" "distinct (map if_path gs)" using normalize_files_ok [OF norm] ne by auto
  have ns: "fs_bulkIngest files s = bulkIngest_ns gs s" using norm ne by (simp add: fs_bulkIngest_def and_then_def of_sum_def)
  obtain res s' where run: "bulkIngest_ns gs s = (res, s')" by force
  show ?thesis
  proof (cases res)
    case (Inl e)
    then show ?thesis using ns run ingest_ns_failed by auto
  next
    case (Inr u)
    then show ?thesis using ingest_ns_clear [OF inv run [unfolded Inr] gs] conflict by blast
  qed
qed

end
