(* ===== verification/SessionLife.thy ===== *)
theory SessionLife
  imports BulkIngestSync
begin

text \<open>
  Loading, scopes and generation claims keep the session invariant: a load installs exactly the
  committed tree, a scope either replays its whole journal in one transaction and keeps its view, or
  is thrown away and the committed tree is loaded again.
\<close>

section \<open>The invariant without its view\<close>

definition core_inv :: "session \<Rightarrow> bool" where
  "core_inv s \<longleftrightarrow> sound_db (s_sandbox s) (s_db s) \<and> distinct (map fst (v_cache s)) \<and> ok_keys (v_cache s)
     \<and> p_next_id s < 0 \<and> (\<forall>i \<in> inos (v_cache s). p_next_id s < i) \<and> p_remap s = [] \<and> p_script_epoch s = None
     \<and> v_epoch s \<le> epoch_ceiling (s_sandbox s) (s_db s)"

lemma sess_inv_core: "sess_inv s \<longleftrightarrow> core_inv s \<and> view_ok s"
  by (auto simp: sess_inv_def core_inv_def)

definition settled :: "session \<Rightarrow> bool" where
  "settled s \<longleftrightarrow> core_inv s \<and> \<not> p_scope s \<and> p_journal s = []"

definition loadable :: "session \<Rightarrow> bool" where
  "loadable s \<longleftrightarrow> sound_db (s_sandbox s) (s_db s) \<and> \<not> p_scope s \<and> p_journal s = [] \<and> p_next_id s < 0
     \<and> p_remap s = [] \<and> p_script_epoch s = None"

lemma settled_loadable: "settled s \<Longrightarrow> loadable s"
  by (simp add: settled_def core_inv_def loadable_def)

lemma settled_gone: "settled s \<Longrightarrow> version_of (s_db s) (s_sandbox s) = None \<Longrightarrow> sess_inv s"
  by (simp add: settled_def sess_inv_core view_ok_def current_def)

lemma settled_fresh: "settled s \<Longrightarrow> snapshot (s_sandbox s) (v_cache s) (s_db s) \<Longrightarrow> sess_inv s"
  by (simp add: settled_def sess_inv_core view_ok_def)

lemma inv_settled: "sess_inv s \<Longrightarrow> \<not> p_scope s \<Longrightarrow> settled s"
  by (simp add: settled_def sess_inv_core view_ok_def)

lemma alive_outside: "\<not> p_scope s \<Longrightarrow> assertAlive s = (Inr (), s)"
  by (simp add: assertAlive_def alive_verdict_def split: option.split)

section \<open>Loading\<close>

lemma check_loaded_ok: "(\<And>p. p \<in> set ps \<Longrightarrow> ok_path p) \<Longrightarrow> check_loaded_paths ps = Inr ()"
  by (induction ps) (auto simp: ok_path_def assertStoredPath_def)

lemma sandbox_visible:
  "app_sandbox_id tx = sid \<Longrightarrow> version_of (t_db tx) sid = Some v \<Longrightarrow> getSandboxEpoch sid tx = (Inr v, tx)"
  using getSandboxEpoch_Inr_iff [of sid tx v tx] sees_rls [of sid tx] by (simp add: sees_def)

lemma sandbox_gone: "version_of (t_db tx) sid = None \<Longrightarrow> \<exists>e. getSandboxEpoch sid tx = (Inl e, tx)"
  by (auto simp: getSandboxEpoch_def version_of_def get_sandbox_def split: option.splits)

text \<open>The rows of a load are a snapshot of the committed tree, and every path is publishable.\<close>

lemma load_rows:
  assumes sound: "sound_db sid (t_db tx)" and v: "version_of (t_db tx) sid = Some v" and sees: "sees sid tx"
  obtains rows where "loadAllPaths tx = Some rows" and "rows \<noteq> []" and "map_from_rows rows = rows" and "distinct (map fst rows)"
    and "ok_keys rows" and "snapshot sid rows (t_db tx)"
proof -
  obtain r where wf: "wf_db (t_db tx)" and r: "root_of (t_db tx) sid = Some r"
    and ok: "\<And>segs e. db_lookup (t_db tx) r segs = Some e \<Longrightarrow> ok_path (path_of segs)"
    using sound v by (auto simp: sound_db_def)
  obtain rows where rows: "loadAllPaths tx = Some rows" "distinct (map fst rows)" "rows \<noteq> []"
      "\<forall>segs. valid_names segs \<longrightarrow> map_of rows (path_of segs) = db_lookup (t_db tx) r segs" "\<forall>p \<in> fst ` set rows. normal_path p"
    using loadAllPaths_ok [OF wf r sees] by blast
  have map: "map_from_rows rows = rows" by (rule map_from_rows_distinct [OF rows(2)])
  have "ok_path p" if p: "p \<in> fst ` set rows" for p
  proof -
    obtain segs where segs: "valid_names segs" "p = path_of segs" using rows(5) p normal_pathE by metis
    obtain e where "map_of rows p = Some e" using p by (metis in_keys_map_of list.set_map)
    then show ?thesis using rows(4) segs ok by simp
  qed
  then have "ok_keys rows" by (simp add: ok_keys_def)
  moreover have "snapshot sid rows (t_db tx)" using loaded_coherent [OF wf r sees rows(1)] map r by (auto simp: snapshot_def)
  ultimately show ?thesis using that rows map by blast
qed

lemma load_outcome:
  assumes s: "loadable s" and run: "loadCommittedView force s = (res, s')"
  shows "version_of (s_db s) (s_sandbox s) = None \<and> (\<exists>e. res = Inl e) \<and> s' = s
    \<or> res = Inr False \<and> s' = s \<and> current s
    \<or> res = Inr True \<and> sess_inv s' \<and> current s' \<and> \<not> p_scope s' \<and> s_sandbox s' = s_sandbox s \<and> s_db s' = s_db s"
proof -
  let ?sid = "s_sandbox s" and ?d = "s_db s"
  define tx where "tx = (begin_tx ?d (s_now s))\<lparr>app_sandbox_id := ?sid\<rparr>"
  have tx: "t_db tx = ?d" "sees ?sid tx" "app_sandbox_id tx = ?sid" by (simp_all add: tx_def begin_tx_def sees_def)
  have out: "\<not> p_scope s" and sound: "sound_db ?sid ?d" using s by (simp_all add: loadable_def)
  have snap: "readSnapshot (load_snapshot force s) s = (case load_snapshot force s tx of (Inl e, _) \<Rightarrow> (Inl e, s) | (Inr a, tx') \<Rightarrow> (Inr a, s\<lparr>s_db := t_db tx'\<rparr>))"
    by (simp add: readSnapshot_def transaction_def run_transaction_def setSandboxContext_def tx_def split: prod.splits sum.splits)
  show ?thesis
  proof (cases "version_of ?d ?sid")
    case None
    then obtain e where "getSandboxEpoch ?sid tx = (Inl e, tx)" using sandbox_gone tx(1) by metis
    then have "load_snapshot force s tx = (Inl e, tx)" by (simp add: load_snapshot_def and_then_def)
    then show ?thesis using run None snap by (auto simp: loadCommittedView_def and_then_def)
  next
    case (Some v)
    obtain rows where rows: "loadAllPaths tx = Some rows" "rows \<noteq> []" "map_from_rows rows = rows" "distinct (map fst rows)"
        "ok_keys rows" "snapshot ?sid rows ?d"
      using load_rows [of ?sid tx v] sound Some tx by metis
    have ep: "getSandboxEpoch ?sid tx = (Inr v, tx)" using sandbox_visible tx Some by simp
    show ?thesis
    proof (cases "\<not> force \<and> \<not> v_poisoned s \<and> v_cache s \<noteq> [] \<and> v = v_epoch s")
      case True
      then have "load_snapshot force s tx = (Inr None, tx)" by (simp add: load_snapshot_def and_then_def ep)
      then show ?thesis
        using run snap tx(1) out True Some alive_outside [OF out] by (auto simp: loadCommittedView_def and_then_def current_def)
    next
      case False
      then have "load_snapshot force s tx = (Inr (Some (v, rows)), tx)"
        using rows by (auto simp: load_snapshot_def and_then_def ep)
      moreover have "check_loaded_paths (map fst rows) = Inr ()" by (rule check_loaded_ok) (use rows(5) in \<open>auto simp: ok_keys_def\<close>)
      ultimately have r: "res = Inr True" "s' = installView v rows s"
        using run snap tx(1) alive_outside [OF out] by (auto simp: loadCommittedView_def and_then_def)
      have wf: "wf_db ?d" using sound by (simp add: sound_db_def)
      have "settled (installView v rows s)"
        using s rows snapshot_ino_pos [OF rows(6) wf] Some
        by (fastforce simp: loadable_def settled_def core_inv_def installView_def ceiling_version)
      then have "sess_inv (installView v rows s)" by (rule settled_fresh) (simp add: installView_def rows(6))
      then show ?thesis using r Some out by (simp add: installView_def current_def)
    qed
  qed
qed

lemma reload_settles:
  assumes s: "settled s" and run: "reload s = (res, s')"
  shows "sess_inv s' \<and> s_sandbox s' = s_sandbox s \<and> s_db s' = s_db s"
proof -
  have out: "\<not> p_scope s" using s by (simp add: settled_def)
  obtain r s1 where l: "loadCommittedView True s = (r, s1)" by force
  have "s' = s1" using run l out alive_outside [OF out] by (auto simp: reload_def and_then_def split: sum.splits)
  moreover have "r = Inr False \<Longrightarrow> False"
    using l by (auto simp: loadCommittedView_def load_snapshot_def readSnapshot_def transaction_def run_transaction_def and_then_def
        setSandboxContext_def assertAlive_def modify_def return_ok_def of_sum_def split: prod.splits sum.splits option.splits if_splits)
  ultimately show ?thesis using load_outcome [OF settled_loadable [OF s] l] settled_gone [OF s] by auto
qed

lemma sync_ensureFresh: "sync.keeps ensureFresh"
proof (rule sync.keepsI)
  fix s r s' assume run: "ensureFresh s = (r, s')"
  show "sync_step s s'"
  proof (cases "p_scope s")
    case True
    then have "s' = s" using run by (auto simp: ensureFresh_def and_then_def assertAlive_def split: sum.splits)
    then show ?thesis by (simp add: sync.refl)
  next
    case False
    then have l: "loadCommittedView False s = (r, s')" using run alive_outside [OF False] by (simp add: ensureFresh_def and_then_def)
    show ?thesis unfolding sync_step_def using load_outcome [OF settled_loadable [OF inv_settled [OF _ False]] l] by auto
  qed
qed

section \<open>Settling a scope\<close>

lemma recover_settles:
  assumes s: "settled s" and run: "recoverCommittedView s = (res, s')"
  shows "sess_inv s' \<and> s_sandbox s' = s_sandbox s \<and> s_db s' = s_db s"
proof -
  obtain r s1 where l: "reload s = (r, s1)" by force
  have "light s1 s'" using run l by (cases r) (auto simp: recoverCommittedView_def catch_def and_then_def light_fields)
  then have "sync_step s1 s'" "s_sandbox s' = s_sandbox s1" by (simp_all add: light_sync light_def)
  moreover have "s_db s' = s_db s1" using run l by (cases r) (auto simp: recoverCommittedView_def catch_def and_then_def)
  ultimately show ?thesis using reload_settles [OF s l] by (auto simp: sync_step_def)
qed

definition dropped :: "session \<Rightarrow> session" where
  "dropped s = clearTransaction (discardMutations (s\<lparr>p_scope := False\<rparr>))"

lemma dropped_simps [simp]:
  "s_sandbox (dropped s) = s_sandbox s" "s_db (dropped s) = s_db s" "v_cache (dropped s) = v_cache s" "p_scope (dropped s) = False"
  "p_journal (dropped s) = []" "v_epoch (dropped s) = v_epoch s" "p_next_id (dropped s) = p_next_id s" "p_remap (dropped s) = []"
  "p_script_epoch (dropped s) = None"
  by (simp_all add: dropped_def clearTransaction_def discardMutations_def)

lemma settled_dropped: "core_inv s \<Longrightarrow> settled (dropped s)"
  by (simp add: settled_def core_inv_def)

text \<open>An empty journal leaves the view as the scope found it.\<close>

lemma dropped_unchanged:
  assumes "sess_inv s" and "p_scope s" and "p_journal s = []" shows "sess_inv (dropped s)"
proof -
  obtain c0 where c0: "chain (s_sandbox s) (p_next_id s) c0 [] (v_cache s)" "current s \<longrightarrow> snapshot (s_sandbox s) c0 (s_db s)"
    using assms by (auto simp: sess_inv_def view_ok_def)
  have "c0 = v_cache s" using c0(1) by (auto elim: chain_NilE)
  moreover have "settled (dropped s)" using assms(1) by (intro settled_dropped) (simp add: sess_inv_core)
  ultimately show ?thesis using c0(2) by (simp add: settled_def sess_inv_core view_ok_def current_def)
qed

text \<open>Recovery after a step that leaves the session settled, on a database at least as new.\<close>

lemma sync_recovered:
  assumes "sess_inv s \<Longrightarrow> core_inv s1" and "recoverCommittedView (dropped s1) = (res, s')"
    and "s_sandbox s1 = s_sandbox s" and "sess_inv s \<Longrightarrow> later (s_sandbox s) (s_db s) (s_db s1)"
  shows "sync_step s s'"
  unfolding sync_step_def
proof
  assume inv: "sess_inv s"
  from recover_settles [OF settled_dropped [OF assms(1) [OF inv]] assms(2)]
  show "s_sandbox s' = s_sandbox s \<and> sess_inv s' \<and> later (s_sandbox s) (s_db s) (s_db s')"
    using assms(3) assms(4) [OF inv] by simp
qed

lemma sync_scope_begin: "sync.keeps scope_begin"
proof (rule sync.keepsI)
  fix s r s' assume run: "scope_begin s = (r, s')"
  show "sync_step s s'"
  proof (cases "p_scope s")
    case True
    then have "s' = s" using run by (auto simp: scope_begin_def and_then_def assertAlive_def split: sum.splits)
    then show ?thesis by (simp add: sync.refl)
  next
    case False
    let ?s = "(discardMutations (s\<lparr>p_lost := None\<rparr>))\<lparr>p_scope_gen := Suc (p_scope_gen s), p_scope := True\<rparr>"
    have s': "s' = ?s" using run False alive_outside [OF False] by (auto simp: scope_begin_def and_then_def)
    have "sess_inv ?s" if inv: "sess_inv s"
    proof -
      have "chain (s_sandbox s) (p_next_id s) (v_cache s) [] (v_cache s)" using inv by (intro chain.start) (auto simp: sess_inv_def)
      moreover have "current ?s = current s" by (simp add: current_def discardMutations_def)
      ultimately show ?thesis using inv False unfolding sess_inv_def view_ok_def by (auto simp: discardMutations_def)
    qed
    then show ?thesis by (simp add: sync_step_def s' discardMutations_def)
  qed
qed

lemma sync_abortScriptScope: "sync.keeps abortScriptScope"
proof (rule sync.keepsI)
  fix s r s' assume run: "abortScriptScope s = (r, s')"
  show "sync_step s s'"
  proof (cases "p_scope s")
    case False
    then have "s' = s" using run by (simp add: abortScriptScope_def scope_abort_def and_then_def)
    then show ?thesis by (simp add: sync.refl)
  next
    case True
    then have ab: "scope_abort s = (Inr (p_journal s \<noteq> []), dropped s)" by (simp add: scope_abort_def dropped_def)
    show ?thesis
    proof (cases "p_journal s = []")
      case True
      then have "s' = dropped s" using run ab by (simp add: abortScriptScope_def and_then_def)
      then show ?thesis using dropped_unchanged [OF _ \<open>p_scope s\<close> True] by (simp add: sync_step_def)
    next
      case False
      have "abortScriptScope s = recoverCommittedView (dropped s)"
        unfolding abortScriptScope_def and_then_ok [where m = scope_abort, OF ab] recoverCommittedView_def by (simp only: False not_False_eq_True if_True)
      then have rec: "recoverCommittedView (dropped s) = (r, s')" using run by (simp only:)
      show ?thesis by (rule sync_recovered [OF _ rec]) (simp_all add: sess_inv_core)
    qed
  qed
qed

section \<open>The flush of a scope\<close>

lemma replay_ops_lease:
  "replay_ops lease e js remap tx = (Inr remap', tx') \<Longrightarrow> js \<noteq> [] \<Longrightarrow> lease = Inr ()"
  by (cases js; cases lease) auto

lemma keys_bind_ids: "fst ` set (bind_ids minted produced remap) \<subseteq> set minted \<union> fst ` set remap"
proof (induction minted arbitrary: produced remap)
  case (Cons m minted)
  show ?case
  proof (cases produced)
    case (Cons p ps)
    then show ?thesis using Cons.IH [of ps "AList.update m p remap"] by (auto simp: dom_update)
  qed auto
qed simp

lemma replay_ops_keys:
  assumes "replay_ops lease e js remap tx = (Inr remap', tx')" and "\<And>m i. m \<in> set js \<Longrightarrow> i \<in> set (m_minted m) \<Longrightarrow> i < 0"
    and "\<And>i. i \<in> fst ` set remap \<Longrightarrow> i < (0 :: int)" and "i \<in> fst ` set remap'"
  shows "i < 0"
  using assms
proof (induction js arbitrary: remap tx)
  case (Cons m js)
  obtain produced tx1 where rest: "replay_ops lease e js (bind_ids (m_minted m) produced remap) tx1 = (Inr remap', tx')"
    using Cons.prems(1) by (auto simp: and_then_Inr_iff)
  show ?case
  proof (rule Cons.IH [OF rest _ _ Cons.prems(4)])
    show "i < 0" if "i \<in> fst ` set (bind_ids (m_minted m) produced remap)" for i
      using keys_bind_ids [of "m_minted m" produced remap] that Cons.prems(2) [of m i] Cons.prems(3) [of i] by auto
  qed (use Cons.prems(2) in auto)
qed simp

lemma chain_minted: "chain sid b c0 js c \<Longrightarrow> m \<in> set js \<Longrightarrow> i \<in> set (m_minted m) \<Longrightarrow> i < 0"
  by (induction rule: chain.induct) (auto simp: step_ok_def)

text \<open>A committed flush: the whole journal ran, and the tables hold the tree of the cache.\<close>

lemma flush_committed:
  assumes inv: "sess_inv s" and scope: "p_scope s" and js: "p_journal s \<noteq> []"
    and run: "transaction (flush_body (s\<lparr>p_scope := False\<rparr>)) (s\<lparr>p_scope := False\<rparr>) = (Inr (final, remap), s')"
  obtains tx e r where "s' = s\<lparr>p_scope := False, s_db := t_db tx\<rparr>" and "in_sync (s_sandbox s) e r (real_id remap) (v_cache s) tx"
    and "resolves (replay_of e remap) (real_id remap) (v_cache s)" and "version_of (t_db tx) (s_sandbox s) = Some final"
    and "v_epoch s < final" and "current s" and "\<forall>i \<in> fst ` set remap. i < 0"
proof -
  let ?s = "s\<lparr>p_scope := False\<rparr>" and ?sid = "s_sandbox s" and ?d = "s_db s"
  obtain tx where body: "flush_body ?s (begin_tx ?d (s_now s)) = (Inr (final, remap), tx)" and s': "s' = ?s\<lparr>s_db := t_db tx\<rparr>"
    using run by (auto simp: transaction_def run_transaction_def split: prod.splits sum.splits)
  obtain u tx0 epoch tx1 where ctx: "setSandboxContextWithLock ?sid (begin_tx ?d (s_now s)) = (Inr u, tx0)"
    and ep: "getSandboxEpoch ?sid tx0 = (Inr epoch, tx0)" and cur: "epoch = v_epoch s"
    and rep: "replay_ops (lease_verdict ?s) epoch (p_journal s) (p_remap s) tx0 = (Inr remap, tx1)"
    and fin: "getSandboxEpoch ?sid tx1 = (Inr final, tx)"
    using body by (auto simp: flush_body_def and_then_Inr_iff getSandboxEpoch_Inr_iff throw_if_def split: if_splits)
  note c = context_ready [OF ctx]
  have v: "version_of ?d ?sid = Some (v_epoch s)" using ep cur c(1) by (simp add: getSandboxEpoch_Inr_iff)
  have "current s" using v by (simp add: current_def)
  then obtain c0 where ch: "chain ?sid (p_next_id s) c0 (p_journal s) (v_cache s)" and snap: "snapshot ?sid c0 ?d"
    using inv scope by (auto simp: sess_inv_def view_ok_def)
  have wf: "wf_db ?d" and rm: "p_remap s = []" using inv by (simp_all add: sess_inv_def sound_db_def)
  obtain r where r: "in_sync ?sid (v_epoch s) r id c0 tx0" using snapshot_in_sync [OF snap wf c(4) [OF v] c(1)] by metis
  have lease: "lease_verdict ?s = Inr ()" by (rule replay_ops_lease [OF rep js])
  have rep': "replay_ops (Inr ()) (v_epoch s) (p_journal s) [] tx0 = (Inr remap, tx1)" using rep lease rm cur by simp
  have tx: "tx = tx1" "version_of (t_db tx1) ?sid = Some final" using fin by (simp_all add: getSandboxEpoch_Inr_iff)
  have v0: "version_of (t_db tx0) ?sid = Some (v_epoch s)" using v c(1) by simp
  note replayed = chain_replay [OF ch r rep' v0]
  have "i < 0" if "i \<in> fst ` set remap" for i
    by (rule replay_ops_keys [OF rep' _ _ that]) (use chain_minted [OF ch] in auto)
  then show ?thesis using that [of tx "v_epoch s" r] replayed tx s' js \<open>current s\<close> by auto
qed

definition remapped :: "(int, int) table \<Rightarrow> path_rows \<Rightarrow> path_rows" where
  "remapped ids c = map (\<lambda>(p, e). (p, remap_entry ids e)) c"

lemma v_cache_remapped:
  assumes "distinct (map fst (v_cache s))"
  shows "v_cache (fold (\<lambda>(p, e) s. if map_of ids (pe_inode e) \<noteq> None then cacheSet p (remap_entry ids e) s else s) (v_cache s) s)
    = remapped ids (v_cache s)"
proof -
  have "v_cache (fold (\<lambda>(p, e) s. if map_of ids (pe_inode e) \<noteq> None then cacheSet p (remap_entry ids e) s else s) (v_cache s) s) =
      map (\<lambda>(p, e). (p, if p \<in> fst ` set (v_cache s) \<and> map_of ids (pe_inode e) \<noteq> None then remap_entry ids e else e)) (v_cache s)"
    by (rule fold_rewrite_entries [OF assms order_refl assms])
  also have "\<dots> = remapped ids (v_cache s)"
    unfolding remapped_def by (rule map_cong [OF refl]) (force simp: remap_entry_def)
  finally show ?thesis .
qed

lemma v_cache_contents_remap [simp]: "v_cache (contents_remap ids s) = v_cache s" "v_epoch (contents_remap ids s) = v_epoch s"
  unfolding contents_remap_def
  by (induction ids arbitrary: s) (auto simp: Let_def contents_evict_def contents_put_def split: option.splits)

text \<open>Replacing the provisional ids by the real ones turns the scope's view into the committed tree.\<close>

lemma remapped_entry:
  assumes "resolves (replay_of e ids) (real_id ids) c" and "\<And>i. i \<in> fst ` set ids \<Longrightarrow> i < 0" and "map_of c p = Some x"
  shows "norm_entry id (remap_entry ids x) = norm_entry (real_id ids) x"
proof (cases "0 \<le> pe_inode x")
  case True
  then have "map_of ids (pe_inode x) = None" using assms(2) [of "pe_inode x"] by (auto simp: map_of_eq_None_iff)
  then show ?thesis using True by (simp add: remap_entry_def norm_entry_def real_id_def)
next
  case False
  have "realId ids (pe_inode x) = Inr (real_id ids (pe_inode x))" using assms(1) inos_I [OF assms(3)] by (simp add: resolves_def replay_of_def)
  then have "map_of ids (pe_inode x) = Some (real_id ids (pe_inode x))" using False by (auto simp: realId_def real_id_def split: option.splits)
  then show ?thesis by (simp add: remap_entry_def norm_entry_def)
qed

lemma remapped_coherent:
  assumes co: "cohere (real_id ids) c T" and res: "resolves (replay_of e ids) (real_id ids) c" and neg: "\<And>i. i \<in> fst ` set ids \<Longrightarrow> i < 0"
  shows "cohere id (remapped ids c) T"
proof -
  have keys: "map fst (remapped ids c) = map fst c" by (auto simp: remapped_def)
  have "map_of (remapped ids c) p = map_option (remap_entry ids) (map_of c p)" for p
    by (simp add: remapped_def map_of_map_values)
  moreover have "map_option (norm_entry id) (map_option (remap_entry ids) (map_of c p)) = map_option (norm_entry (real_id ids)) (map_of c p)" for p
    using remapped_entry [OF res neg] by (cases "map_of c p") auto
  moreover have "fst ` set (remapped ids c) = fst ` set c" using keys by (metis list.set_map)
  moreover have "distinct (map fst (remapped ids c))" using co keys by (simp add: cohere_def)
  ultimately show ?thesis using co by (simp add: cohere_def)
qed

lemma publish_committed:
  assumes inv: "sess_inv s" and scope: "p_scope s" and js: "p_journal s \<noteq> []"
    and run: "transaction (flush_body (s\<lparr>p_scope := False\<rparr>)) (s\<lparr>p_scope := False\<rparr>) = (Inr (final, remap), s1)"
    and pub: "publishScope final (Some remap) (dropped s1) = (res, s')"
  shows "core_inv s1" and "s_sandbox s1 = s_sandbox s" and "later (s_sandbox s) (s_db s) (s_db s1)"
    and "res = Inr () \<Longrightarrow> sess_inv s' \<and> s_sandbox s' = s_sandbox s \<and> s_db s' = s_db s1"
    and "res \<noteq> Inr () \<Longrightarrow> settled s' \<and> s_sandbox s' = s_sandbox s \<and> s_db s' = s_db s1"
    and "\<exists>tx e r. s_db s1 = t_db tx \<and> in_sync (s_sandbox s) e r (real_id remap) (v_cache s) tx"
proof -
  let ?sid = "s_sandbox s" and ?c = "v_cache s"
  obtain tx e r where s1: "s1 = s\<lparr>p_scope := False, s_db := t_db tx\<rparr>" and sync: "in_sync ?sid e r (real_id remap) ?c tx"
    and res: "resolves (replay_of e remap) (real_id remap) ?c" and v: "version_of (t_db tx) ?sid = Some final"
    and lt: "v_epoch s < final" and cur: "current s" and neg: "\<forall>i \<in> fst ` set remap. i < 0"
    by (rule flush_committed [OF inv scope js run])
  let ?c' = "remapped remap ?c"
  have wf: "wf_db (t_db tx)" and root: "root_of (t_db tx) ?sid = Some r" and co: "cohere (real_id remap) ?c (db_lookup (t_db tx) r)"
    using sync by (simp_all add: in_sync_def)
  have snap: "snapshot ?sid ?c' (t_db tx)" using remapped_coherent [OF co res] neg root by (auto simp: snapshot_def)
  have keys: "ok_keys ?c'" "distinct (map fst ?c')" using inv by (auto simp: sess_inv_def ok_keys_def remapped_def case_prod_unfold comp_def)
  have sound: "sound_db ?sid (t_db tx)" by (rule snapshot_sound [OF snap wf keys(1)])
  have ceil: "epoch_ceiling ?sid (t_db tx) = final" "epoch_ceiling ?sid (s_db s) = v_epoch s" using v cur by (simp_all add: ceiling_version current_def)
  show "\<exists>tx e r. s_db s1 = t_db tx \<and> in_sync ?sid e r (real_id remap) ?c tx"
    using sync by (intro exI [of _ tx] exI [of _ e] exI [of _ r]) (simp add: s1)
  show core: "core_inv s1" using inv sound lt by (simp add: s1 core_inv_def sess_inv_def ceil)
  show "s_sandbox s1 = ?sid" by (simp add: s1)
  show "later ?sid (s_db s) (s_db s1)" using lt by (simp add: s1 later_def ceil)
  let ?f = "fold (\<lambda>(p, e) s. if map_of remap (pe_inode e) \<noteq> None then cacheSet p (remap_entry remap e) s else s) (v_cache (dropped s1)) (dropped s1)"
  define s2 where "s2 = contents_remap remap ?f"
  have cache: "v_cache s2 = ?c'"
    using v_cache_remapped [of "dropped s1" remap] inv by (simp add: s2_def s1 sess_inv_def)
  have s': "s' = s2 \<and> res \<noteq> Inr () \<or> s' = s2\<lparr>v_epoch := final\<rparr> \<and> res = Inr ()"
    using pub unfolding publishScope_def Let_def s2_def by (auto split: if_splits)
  have coreq: "core s2 = core (dropped s1)"
  proof -
    have "core ?f = core (dropped s1)" by (rule core_fold) (auto split: if_splits)
    then show ?thesis by (simp add: s2_def)
  qed
  have fields: "s_sandbox s2 = ?sid" "s_db s2 = t_db tx" "p_scope s2 = False" "p_journal s2 = []" "p_remap s2 = []" "p_script_epoch s2 = None"
      "p_next_id s2 = p_next_id s"
    using core_eq_fields [OF coreq] by (simp_all add: s1)
  have pos: "\<forall>i \<in> inos ?c'. p_next_id s < i" using snapshot_ino_pos [OF snap wf] inv by (fastforce simp: sess_inv_def)
  have le: "v_epoch s2 \<le> final"
  proof -
    have "v_epoch (fold (\<lambda>(p, e) s. if map_of remap (pe_inode e) \<noteq> None then cacheSet p (remap_entry remap e) s else s) xs t) = v_epoch t" for xs t
      by (induction xs arbitrary: t) (auto simp: cacheSet_def)
    from this [of "v_cache (dropped s1)" "dropped s1"] show ?thesis using lt by (simp add: s1 s2_def)
  qed
  have base: "settled (s2\<lparr>v_epoch := x\<rparr>)" if "x \<le> final" for x
    using inv sound keys pos that unfolding settled_def core_inv_def by (simp add: cache fields ceil sess_inv_def)
  show "sess_inv s' \<and> s_sandbox s' = ?sid \<and> s_db s' = s_db s1" if "res = Inr ()"
  proof -
    have s'2: "s' = s2\<lparr>v_epoch := final\<rparr>" using s' that by blast
    have "sess_inv (s2\<lparr>v_epoch := final\<rparr>)"
      by (rule settled_fresh [OF base [OF order_refl]]) (use snap in \<open>simp add: cache fields\<close>)
    then show ?thesis using s'2 fields by (simp add: s1)
  qed
  show "settled s' \<and> s_sandbox s' = ?sid \<and> s_db s' = s_db s1" if "res \<noteq> Inr ()"
  proof -
    have s'2: "s' = s2" using s' that by blast
    have "s2\<lparr>v_epoch := v_epoch s2\<rparr> = s2" by simp
    then have "settled s2" using base [OF le] by metis
    then show ?thesis using s'2 fields by (simp add: s1)
  qed
qed

lemma discard_dropped: "\<not> p_scope s \<Longrightarrow> discardMutations (clearTransaction s) = dropped s"
  by (cases s) (simp add: dropped_def discardMutations_def clearTransaction_def)

lemma dropped_flush_fields: "dropped (s\<lparr>p_scope := False, p_script_epoch := a, p_remap := b\<rparr>) = dropped s"
  "dropped (s\<lparr>p_script_epoch := a, p_remap := b\<rparr>) = dropped s" "dropped (s\<lparr>p_scope := False\<rparr>) = dropped s"
  "dropped (dropped s) = dropped s"
  by (simp_all add: dropped_def discardMutations_def clearTransaction_def)

lemma settled_is_dropped: "settled s \<Longrightarrow> settled (dropped s)"
  by (simp add: settled_def core_inv_def)

lemma catch_ok: "m s = (Inr a, s') \<Longrightarrow> catch m h s = (Inr a, s')" and catch_err: "m s = (Inl e, s') \<Longrightarrow> catch m h s = h e s'"
  by (simp_all add: catch_def)

lemma transaction_failed: "transaction f s = (Inl e, s') \<Longrightarrow> s' = s"
  by (auto simp: transaction_def run_transaction_def split: prod.splits sum.splits)

lemma flush_fields:
  assumes "transaction f s = (r, s')" shows "p_scope s' = p_scope s"
  using assms by (auto simp: transaction_def split: prod.splits)

text \<open>The end of a scope with a journal to flush.\<close>

lemma sync_flush:
  assumes scope: "p_scope s" and lost: "p_lost s = None" and js: "p_journal s \<noteq> []"
    and run: "and_then finish (\<lambda>settlement.
           case settlement of
             ScopeFailed e reloadRequired \<Rightarrow>
               and_then (if reloadRequired then recoverCommittedView else return_ok ()) (\<lambda>_. throw e)
           | ScopeCommitted epoch remap \<Rightarrow>
               catch (publishScope epoch remap) (\<lambda>e. and_then recoverCommittedView (\<lambda>_. throw e))
           | Unchanged \<Rightarrow> return_ok ()) s = (res, s')"
  shows "sync_step s s'"
    and "sess_inv s \<Longrightarrow> s_db s' = s_db s \<or> (\<exists>tx e r remap. s_db s' = t_db tx \<and> in_sync (s_sandbox s) e r (real_id remap) (v_cache s) tx)"
proof -
  let ?ok = "s_db s' = s_db s \<or> (\<exists>tx e r remap. s_db s' = t_db tx \<and> in_sync (s_sandbox s) e r (real_id remap) (v_cache s) tx)"
  let ?s1 = "s\<lparr>p_scope := False\<rparr>"
  obtain r s2 where tr: "transaction (flush_body ?s1) ?s1 = (r, s2)" by force
  have out: "\<not> p_scope s2" using flush_fields [OF tr] by simp
  have both: "sync_step s s' \<and> (sess_inv s \<longrightarrow> ?ok)"
  proof (cases r)
    case (Inl e)
    have s2: "s2 = ?s1" by (rule transaction_failed [OF tr [unfolded Inl]])
    have fin: "finish s = (Inr (ScopeFailed e True), dropped s)"
      using scope lost js tr Inl s2 discard_dropped [of ?s1] dropped_flush_fields(3) [of s]
      by (simp add: finish_def flushMutations_def Let_def)
    obtain r' s3 where rec: "recoverCommittedView (dropped s) = (r', s3)" by force
    have "s' = s3" using run rec unfolding and_then_ok [where m = finish, OF fin]
      by (cases r') (simp_all add: and_then_def)
    moreover have "sync_step s s3" using sync_recovered [OF _ rec] by (simp add: sess_inv_core)
    moreover have "sess_inv s \<Longrightarrow> s_db s3 = s_db s" using recover_settles [OF settled_dropped rec] by (simp add: sess_inv_core)
    ultimately show ?thesis by blast
  next
    case (Inr x)
    obtain final remap where x: "x = (final, remap)" by force
    have fin: "finish s = (Inr (ScopeCommitted final (Some remap)), dropped s2)"
      using scope lost js tr Inr x out discard_dropped [of "s2\<lparr>p_script_epoch := Some final, p_remap := remap\<rparr>"] dropped_flush_fields(2) [of _ _ s2]
      by (simp add: finish_def flushMutations_def Let_def)
    obtain r' s3 where pub: "publishScope final (Some remap) (dropped s2) = (r', s3)" by force
    show ?thesis
    proof (cases "sess_inv s")
      case inv: True
      note p = publish_committed [OF inv scope js tr [unfolded Inr x] pub]
      show ?thesis
      proof (cases r')
        case (Inr u)
        then have "s' = s3" using run unfolding and_then_ok [where m = finish, OF fin] scope_settlement.case catch_ok [where m = "publishScope final (Some remap)", OF pub [unfolded Inr]] by simp
        moreover have "s_db s3 = s_db s2" "sync_step s s3" using p(3) p(4) Inr by (simp_all add: sync_step_def)
        ultimately show ?thesis using p(6) by metis
      next
        case (Inl e)
        obtain r'' s4 where rec: "recoverCommittedView s3 = (r'', s4)" by force
        have "s' = s4" using run rec unfolding and_then_ok [where m = finish, OF fin] scope_settlement.case catch_err [where m = "publishScope final (Some remap)", OF pub [unfolded Inl]]
          by (cases r'') (simp_all add: and_then_def)
        moreover have "s_db s4 = s_db s2" "sync_step s s4" using recover_settles [OF _ rec] p(3) p(5) Inl by (simp_all add: sync_step_def)
        ultimately show ?thesis using p(6) by metis
      qed
    qed (simp add: sync_step_def)
  qed
  show "sync_step s s'" using both by blast
  show ?ok if "sess_inv s" using both that by blast
qed

lemma sync_endScriptScope: "sync.keeps endScriptScope"
proof (rule sync.keepsI)
  fix s r s' assume run: "endScriptScope s = (r, s')"
  have ab: "sync_step s (snd (and_then abortScriptScope (\<lambda>_. throw e) s))" for e :: fs_error
    by (rule sync.keeps_and_then_app [OF sync_abortScriptScope sync.keeps_pure(2)])
  consider "\<not> p_scope s" | "p_scope s" "f_owner_lost s \<or> (\<exists>e. alive_verdict s = Inl e)"
    | "p_scope s" "\<not> f_owner_lost s" "alive_verdict s = Inr ()" "p_journal s \<noteq> []" | "p_scope s" "\<not> f_owner_lost s" "alive_verdict s = Inr ()" "p_journal s = []"
    by (cases "alive_verdict s") auto
  then show "sync_step s s'"
  proof cases
    case 1
    then show ?thesis using run by (simp add: endScriptScope_def sync.refl)
  next
    case 2
    then have "\<exists>e. endScriptScope s = and_then abortScriptScope (\<lambda>_. throw e) s"
      by (cases "f_owner_lost s") (auto simp: endScriptScope_def)
    then show ?thesis using ab run by (metis snd_conv)
  next
    case 3
    then have lost: "p_lost s = None" by (simp add: alive_verdict_def split: option.splits)
    show ?thesis by (rule sync_flush(1) [OF 3(1) lost 3(4)]) (use run 3 in \<open>simp add: endScriptScope_def\<close>)
  next
    case 4
    then have lost: "p_lost s = None" by (simp add: alive_verdict_def split: option.splits)
    have "s' = dropped s" if "sess_inv s"
      using run 4 lost that discard_dropped [of "s\<lparr>p_scope := False\<rparr>"] dropped_flush_fields(3) [of s]
      by (simp add: endScriptScope_def finish_def flushMutations_def Let_def and_then_def sess_inv_def)
    then show ?thesis using dropped_unchanged [OF _ 4(1,4)] by (auto simp: sync_step_def)
  qed
qed

section \<open>Claiming a generation\<close>

lemma sound_bump: "sound_db sid d \<Longrightarrow> sound_db sid (bump sid d)"
  by (auto simp: sound_db_def)

lemma retire_bumps:
  assumes "run_transaction (and_then (retireSandboxGeneration sid lease) (\<lambda>g. and_then (of_sum lease) (\<lambda>_. return_ok g))) d now = (Inr g, d')"
  obtains v where "version_of d sid = Some v" and "g = \<lparr>prior_epoch = v, gen_epoch = v + 1\<rparr>" and "d' = bump sid d"
proof -
  obtain u tx tx' where ctx: "setSandboxContextWithLock sid (begin_tx d now) = (Inr u, tx)"
    and rest: "(case get_sandbox tx sid of None \<Rightarrow> (Inl (ENOENT sid), tx)
       | Some s \<Rightarrow> (Inr \<lparr>prior_epoch = sb_version s, gen_epoch = sb_version s + 1\<rparr>,
            on_db (\<lambda>d. d\<lparr>sandboxes := AList.update sid (s\<lparr>sb_version := sb_version s + 1\<rparr>) (sandboxes d)\<rparr>) tx)) = (Inr g, tx')"
    and d': "d' = t_db tx'"
    using assms by (auto simp: run_transaction_Inr_iff retireSandboxGeneration_def and_then_Inr_iff)
  obtain x where x: "get_sandbox tx sid = Some x" using rest by (auto split: option.splits)
  then have sb: "map_of (sandboxes d) sid = Some x" using context_ready(1) [OF ctx] by (auto simp: get_sandbox_def split: if_splits)
  show ?thesis
  proof (rule that [of "sb_version x"])
    show "version_of d sid = Some (sb_version x)" using sb by (simp add: version_of_def)
    show "g = \<lparr>prior_epoch = sb_version x, gen_epoch = sb_version x + 1\<rparr>" using rest x by simp
    show "d' = bump sid d" using rest x d' sb context_ready(1) [OF ctx] by (auto simp: bump_def)
  qed
qed

lemma sync_claimGeneration: "sync.keeps fs_claimGeneration"
proof (rule sync.keepsI)
  fix s res s' assume run: "fs_claimGeneration s = (res, s')"
  let ?sid = "s_sandbox s" and ?l = "lease_verdict s"
  let ?f = "and_then (retireSandboxGeneration ?sid ?l) (\<lambda>g. and_then (of_sum ?l) (\<lambda>_. return_ok g))"
  obtain r d' where tr: "run_transaction ?f (s_db s) (s_now s) = (r, d')" by force
  show "sync_step s s'"
  proof (cases "p_scope s \<or> ?l \<noteq> Inr () \<or> (\<exists>e. r = Inl e)")
    case True
    have failed: "transaction ?f s = (Inl e, s)" if "r = Inl e" for e
      using tr that run_transaction_Inl [of ?f "s_db s" "s_now s" e d'] by (simp add: transaction_def)
    have "\<exists>e. claimGeneration s = (Inl e, s)"
    proof (cases "p_scope s \<or> ?l \<noteq> Inr ()")
      case True
      then show ?thesis by (cases ?l; cases "alive_verdict s") (auto simp: claimGeneration_def and_then_assertAlive)
    next
      case False
      then obtain e where "r = Inl e" using \<open>p_scope s \<or> ?l \<noteq> Inr () \<or> (\<exists>e. r = Inl e)\<close> by blast
      then show ?thesis using False failed alive_outside [of s] by (cases ?l) (simp_all add: claimGeneration_def and_then_def)
    qed
    then have "s' = s" using run by (auto simp: fs_claimGeneration_def and_then_def)
    then show ?thesis by (simp add: sync.refl)
  next
    case False
    then obtain g where g: "r = Inr g" and out: "\<not> p_scope s" and l: "?l = Inr ()" by (cases r) auto
    obtain v where v: "version_of (s_db s) ?sid = Some v" "g = \<lparr>prior_epoch = v, gen_epoch = v + 1\<rparr>" "d' = bump ?sid (s_db s)"
      by (rule retire_bumps [OF tr [unfolded g]])
    let ?s1 = "s\<lparr>s_db := d'\<rparr>"
    have claim: "claimGeneration s = (Inr (Some g), ?s1)"
      using tr g l out alive_outside [OF out] alive_outside [of ?s1]
      by (simp add: claimGeneration_def and_then_def transaction_def)
    have later: "later ?sid (s_db s) d'" and ceil: "epoch_ceiling ?sid d' = v + 1" "epoch_ceiling ?sid (s_db s) = v"
      using v(1) by (simp_all add: later_def v(3) ceiling_version)
    have settled: "settled ?s1" if inv: "sess_inv s"
      using inv_settled [OF inv out] ceil sound_bump [of ?sid "s_db s"] by (simp add: settled_def core_inv_def v(3))
    show ?thesis
    proof (cases "\<not> v_poisoned s \<and> v = v_epoch s")
      case True
      then have s': "s' = ?s1\<lparr>v_epoch := v + 1\<rparr>"
        using run v(2) unfolding fs_claimGeneration_def and_then_ok [where m = claimGeneration, OF claim]
        by (simp add: publishGeneration_def and_then_def)
      have "sess_inv (?s1\<lparr>v_epoch := v + 1\<rparr>)" if inv: "sess_inv s"
      proof (rule settled_fresh)
        have "current s" using True v(1) by (simp add: current_def)
        then have "snapshot ?sid (v_cache s) (s_db s)" using inv out by (simp add: sess_inv_def view_ok_def)
        then show "snapshot (s_sandbox (?s1\<lparr>v_epoch := v + 1\<rparr>)) (v_cache (?s1\<lparr>v_epoch := v + 1\<rparr>)) (s_db (?s1\<lparr>v_epoch := v + 1\<rparr>))"
          by (simp add: v(3) snapshot_def)
        show "settled (?s1\<lparr>v_epoch := v + 1\<rparr>)" using settled [OF inv] ceil by (simp add: settled_def core_inv_def)
      qed
      then show ?thesis using later by (simp add: sync_step_def s')
    next
      case False
      obtain r2 s2 where rl: "reload ?s1 = (r2, s2)" by force
      have "s' = s2"
        using run v(2) False rl unfolding fs_claimGeneration_def and_then_ok [where m = claimGeneration, OF claim]
        by (cases r2) (auto simp: publishGeneration_def and_then_def)
      then show ?thesis using reload_settles [OF settled rl] later by (simp add: sync_step_def)
    qed
  qed
qed

section \<open>Calls\<close>

lemma sync_createExclusive: "sync.keeps (fs_createExclusive path directory mode)"
  unfolding syncs_keeps fs_createExclusive_def
proof (intro allI syncs_steps syncs_if)
  fix s p s' and np :: "string \<times> path_entry" assume "validatePath path = Inr p" "p \<noteq> DEV_NULL"
  then have ok: "ok_path p" by (rule validated_ok)
  show "syncs (mkdir_ns p False mode) s'" "syncs (writeFile_ns p [] (Some mode)) s'"
    using sync_mkdir [OF ok] sync_writeFile [OF ok] by (simp_all add: syncs_keeps)
qed

text \<open>
  The one call that breaks the invariant is a symbolic link at the root itself: no guard of the code
  rejects it, and it stores an entry with an empty name.
\<close>

fun safe_call :: "fs_call \<Rightarrow> bool" where
  "safe_call (Symlink target path) \<longleftrightarrow> validatePath path \<noteq> Inr ''/''"
| "safe_call _ \<longleftrightarrow> True"

lemma stored_ok: "validatePath p = Inr q \<Longrightarrow> assertStoredPath q op = Inr u \<Longrightarrow> ok_path q"
  by (rule validated_ok) (auto simp: assertStoredPath_def split: if_splits)

lemma sync_guarded: "sync.keeps m \<Longrightarrow> syncs m s"
  by (simp add: syncs_keeps)

lemma sync_call: assumes "safe_call c" shows "sync_step s (run_call c s)"
proof (cases c)
  case (WriteFile p b)
  have "syncs (fs_writeFile p b) s" unfolding fs_writeFile_def
    by (intro syncs_steps syncs_if) (rule sync_guarded [OF sync_writeFile [OF validated_ok]])
  then show ?thesis by (simp add: WriteFile syncs_def)
next
  case (AppendFile p b)
  have "syncs (fs_appendFile p b) s" unfolding fs_appendFile_def
    by (intro syncs_steps syncs_if) (rule sync_guarded [OF sync_appendFile [OF validated_ok]])
  then show ?thesis by (simp add: AppendFile syncs_def)
next
  case (Mkdir p r)
  have "syncs (fs_mkdir p r) s" unfolding fs_mkdir_def
    by (intro syncs_steps syncs_if) (rule sync_guarded [OF sync_mkdir [OF validated_ok]])
  then show ?thesis by (simp add: Mkdir syncs_def)
next
  case (Rm p r f)
  have "syncs (fs_rm p r f) s" unfolding fs_rm_def
    by (intro syncs_steps) (rule sync_guarded [OF sync_rm [OF stored_ok]])
  then show ?thesis by (simp add: Rm syncs_def)
next
  case (Cp a b r)
  have "syncs (fs_cp a b r) s" unfolding fs_cp_def
    by (intro syncs_steps) (rule sync_guarded [OF sync_cp], use validated_ok in blast)
  then show ?thesis by (simp add: Cp syncs_def)
next
  case (Mv a b)
  have "syncs (fs_mv a b) s" unfolding fs_mv_def
    by (intro syncs_steps) (rule sync_guarded [OF sync_mv [OF stored_ok stored_ok]])
  then show ?thesis by (simp add: Mv syncs_def)
next
  case (Chmod p m)
  have "syncs (fs_chmod p m) s" unfolding fs_chmod_def by (intro syncs_steps) (rule sync_guarded [OF sync_update(1)])
  then show ?thesis by (simp add: Chmod syncs_def)
next
  case (Utimes p m)
  have "syncs (fs_utimes p m) s" unfolding fs_utimes_def by (intro syncs_steps) (rule sync_guarded [OF sync_update(2)])
  then show ?thesis by (simp add: Utimes syncs_def)
next
  case (Symlink t p)
  have "syncs (fs_symlink t p) s" unfolding fs_symlink_def
  proof (intro syncs_steps syncs_if)
    fix q assume "validatePath p = Inr q" "q \<noteq> DEV_NULL"
    then show "syncs (symlink_ns t q) s" using assms Symlink by (intro sync_guarded sync_symlink validated_ok) auto
  qed
  then show ?thesis by (simp add: Symlink syncs_def)
next
  case (Link a b)
  have "syncs (fs_link a b) s" unfolding fs_link_def
    by (intro syncs_steps syncs_if) (rule sync_guarded [OF sync_link [OF validated_ok]])
  then show ?thesis by (simp add: Link syncs_def)
next
  case (CreateExclusive p d m)
  then show ?thesis using sync_guarded [OF sync_createExclusive] by (simp add: syncs_def)
qed (simp_all add: light_sync light.keeps_app [OF light_reads_fs(1)] light.keeps_app [OF light_reads_fs(2)] light.keeps_app [OF light_entry_reads(2)]
    sync.keeps_app [OF sync_ensureFresh] sync.keeps_app [OF sync_scope_begin] sync.keeps_app [OF sync_endScriptScope]
    sync.keeps_app [OF sync_abortScriptScope] sync.keeps_app [OF sync_claimGeneration] sync.keeps_app [OF sync_bulkIngest] beginScriptScope_def)

end
