(* ===== verification/SessionSystem.thy ===== *)
theory SessionSystem
  imports SessionLife
begin

text \<open>
  Many sessions on one database. Each worker holds its own view; the database is shared. Sessions of
  the same sandbox interleave call by call, sandboxes are created and deleted underneath them, leases
  are lost and clocks move: every view whose epoch is still the sandbox's epoch is the committed tree.
\<close>

section \<open>Frames between sandboxes\<close>

definition apart :: "string \<Rightarrow> db \<Rightarrow> db \<Rightarrow> bool" where
  "apart sid d d' \<longleftrightarrow> only i_sandbox sid (node d') = only i_sandbox sid (node d)
     \<and> only d_sandbox sid (map_of (dirents d')) = only d_sandbox sid (map_of (dirents d))
     \<and> (\<forall>s. s \<noteq> sid \<longrightarrow> map_of (sandboxes d') s = map_of (sandboxes d) s
          \<and> map_of (sandbox_epochs d') s = map_of (sandbox_epochs d) s)"

lemma isolated_apart: "wf_db d \<Longrightarrow> isolated sid d d' \<Longrightarrow> apart sid d d'"
  using wf_closed_for [of "\<lambda>_. 0" d sid]
  by (auto simp: apart_def isolated_def same_foreign_def foreign_inodes_def foreign_dirents_def foreign_sandboxes_def dest: fun_cong split: if_splits)

lemma only_Some: "only ow sid t' = only ow sid t \<Longrightarrow> t k = Some r \<Longrightarrow> ow r \<noteq> sid \<Longrightarrow> t' k = Some r"
proof -
  assume eq: "only ow sid t' = only ow sid t" and t: "t k = Some r" "ow r \<noteq> sid"
  have "only ow sid t' k = only ow sid t k" by (simp only: eq)
  then show "t' k = Some r" using t by (auto simp: only_def split: option.splits if_splits)
qed

lemma apart_node:
  assumes "apart sid d d'" and "other \<noteq> sid" and "in_sandbox other i d"
  shows "node d' i = node d i"
  using assms only_Some [of i_sandbox sid "node d'" "node d" i] by (auto simp: apart_def in_sandbox_def)

lemma apart_child:
  assumes ap: "apart sid d d'" and wf: "wf_db d" "wf_db d'" and o: "other \<noteq> sid" and p: "in_sandbox other p d"
  shows "child d' p n = child d p n"
proof -
  have p': "in_sandbox other p d'" using apart_node [OF ap o p] p by (simp add: in_sandbox_def)
  have eq: "only d_sandbox sid (map_of (dirents d')) = only d_sandbox sid (map_of (dirents d))" using ap by (simp add: apart_def)
  have 1: "map_of (dirents d') (p, n) = Some x" if "map_of (dirents d) (p, n) = Some x" for x
    using only_Some [OF eq that] wf_entry_own(1) [OF wf(1) p that] o by simp
  have 2: "map_of (dirents d) (p, n) = Some x" if "map_of (dirents d') (p, n) = Some x" for x
    using only_Some [OF eq [symmetric] that] wf_entry_own(1) [OF wf(2) p' that] o by simp
  show ?thesis using 1 2 by (cases "map_of (dirents d) (p, n)"; cases "map_of (dirents d') (p, n)") (auto simp: child_def)
qed

lemma walkc_snoc_option: "walkc ch r (segs @ [n]) = (case walkc ch r segs of None \<Rightarrow> None | Some i \<Rightarrow> ch i n)"
  by (induction segs arbitrary: r) (auto split: option.splits)

lemma apart_lookup:
  assumes ap: "apart sid d d'" and wf: "wf_db d" "wf_db d'" and o: "other \<noteq> sid" and r: "root_of d other = Some r"
  shows "db_lookup d' r = db_lookup d r"
proof
  fix segs
  have own: "in_sandbox other i d" if "walk d r segs = Some i" for segs i
    using db_lookup_Some [OF wf(1) r that] by (auto simp: in_sandbox_def)
  have walk: "walk d' r segs = walk d r segs"
  proof (induction segs rule: rev_induct)
    case (snoc n segs)
    then show ?case using apart_child [OF ap wf o own [of segs]] by (simp add: walkc_snoc_option split: option.split)
  qed simp
  show "db_lookup d' r segs = db_lookup d r segs"
    using apart_node [OF ap o own [of segs]] by (simp add: db_lookup_def walk split: option.split)
qed

lemma apart_root: "apart sid d d' \<Longrightarrow> other \<noteq> sid \<Longrightarrow> root_of d' other = root_of d other"
  and apart_version: "apart sid d d' \<Longrightarrow> other \<noteq> sid \<Longrightarrow> version_of d' other = version_of d other"
  and apart_ceiling: "apart sid d d' \<Longrightarrow> other \<noteq> sid \<Longrightarrow> epoch_ceiling other d' = epoch_ceiling other d"
  by (simp_all add: apart_def root_of_def version_of_def epoch_ceiling_def split: option.split)

lemma apart_later:
  assumes "apart sid d d'" and "wf_db d" and "wf_db d'" and "other \<noteq> sid"
  shows "later other d d'"
  using apart_root [OF assms(1,4)] apart_version [OF assms(1,4)] apart_ceiling [OF assms(1,4)] apart_lookup [OF assms]
  by (simp add: later_def)

lemma apart_sound:
  assumes "apart sid d d'" and "wf_db d'" and "other \<noteq> sid" and "sound_db other d"
  shows "sound_db other d'"
proof -
  have wf: "wf_db d" using assms(4) by (simp add: sound_db_def)
  show ?thesis
    using assms(4) apart_root [OF assms(1,3)] apart_version [OF assms(1,3)] apart_lookup [OF assms(1) wf assms(2,3)] assms(2)
    by (auto simp: sound_db_def)
qed

section \<open>A session under a moving database\<close>

lemma sess_inv_later:
  assumes inv: "sess_inv s" and later: "later (s_sandbox s) (s_db s) d'" and sound: "sound_db (s_sandbox s) d'"
  shows "sess_inv (s\<lparr>s_db := d'\<rparr>)"
proof (cases "epoch_ceiling (s_sandbox s) (s_db s) < epoch_ceiling (s_sandbox s) d'")
  case True
  have "\<not> current (s\<lparr>s_db := d'\<rparr>)"
    using inv True by (auto simp: current_def sess_inv_def dest: ceiling_version)
  then show ?thesis using inv True sound by (auto simp: sess_inv_def view_ok_def)
next
  case False
  then have eq: "version_of d' (s_sandbox s) = version_of (s_db s) (s_sandbox s)" "root_of d' (s_sandbox s) = root_of (s_db s) (s_sandbox s)"
      "epoch_ceiling (s_sandbox s) d' = epoch_ceiling (s_sandbox s) (s_db s)"
    and look: "\<And>r. root_of (s_db s) (s_sandbox s) = Some r \<Longrightarrow> db_lookup d' r = db_lookup (s_db s) r"
    using later by (auto simp: later_def)
  have "snapshot (s_sandbox s) c d' = snapshot (s_sandbox s) c (s_db s)" for c
    using eq(2) look by (auto simp: snapshot_def)
  moreover have "current (s\<lparr>s_db := d'\<rparr>) = current s" using eq(1) by (simp add: current_def)
  ultimately show ?thesis using inv sound eq(3) by (simp add: sess_inv_def view_ok_def)
qed

section \<open>The system\<close>

record system =
  y_db :: db
  y_sessions :: "session list"

abbreviation at :: "session \<Rightarrow> db \<Rightarrow> session" where
  "at s d \<equiv> s\<lparr>s_db := d\<rparr>"

datatype sys_step =
    OpenSession env string int
  | SessionCall nat fs_call
  | CreateSandbox string string int
  | DeleteSandbox string int
  | SessionLease nat int "fs_error option" bool

fun run_step :: "sys_step \<Rightarrow> system \<Rightarrow> system" where
  "run_step (OpenSession env sid now) y =
     (case view_ready (new_session env sid (y_db y) now) of
        (Inl e, _) \<Rightarrow> y
      | (Inr _, s) \<Rightarrow> y\<lparr>y_sessions := y_sessions y @ [s]\<rparr>)"
| "run_step (SessionCall k c) y =
     (if k < length (y_sessions y) then
        let s = run_call c (at (y_sessions y ! k) (y_db y))
        in \<lparr>y_db = s_db s, y_sessions = (y_sessions y)[k := s]\<rparr>
      else y)"
| "run_step (CreateSandbox sid owner now) y = y\<lparr>y_db := snd (run_transaction (createSandbox sid owner) (y_db y) now)\<rparr>"
| "run_step (DeleteSandbox sid now) y = y\<lparr>y_db := snd (run_transaction (deleteSandbox sid) (y_db y) now)\<rparr>"
| "run_step (SessionLease k now guard lost) y =
     (if k < length (y_sessions y) then
        y\<lparr>y_sessions := (y_sessions y)[k := (y_sessions y ! k)\<lparr>s_now := now, f_guard := guard, f_owner_lost := lost\<rparr>]\<rparr>
      else y)"

abbreviation run_steps :: "sys_step list \<Rightarrow> system \<Rightarrow> system" where
  "run_steps steps y \<equiv> fold run_step steps y"

fun safe_step :: "sys_step \<Rightarrow> bool" where
  "safe_step (OpenSession env sid now) \<longleftrightarrow> sid \<noteq> []"
| "safe_step (SessionCall k c) \<longleftrightarrow> safe_call c"
| "safe_step (CreateSandbox sid owner now) \<longleftrightarrow> sid \<noteq> []"
| "safe_step _ \<longleftrightarrow> True"

definition sess_ok :: "db \<Rightarrow> session \<Rightarrow> bool" where
  "sess_ok d s \<longleftrightarrow> sess_inv (at s d) \<and> s_sandbox s \<noteq> [] \<and> journal_isolated s"

definition sys_inv :: "system \<Rightarrow> bool" where
  "sys_inv y \<longleftrightarrow> (\<forall>sid. sound_db sid (y_db y)) \<and> (\<forall>s \<in> set (y_sessions y). sess_ok (y_db y) s)"

text \<open>What a step of one sandbox means for every session and every sandbox.\<close>

definition moves :: "string \<Rightarrow> db \<Rightarrow> db \<Rightarrow> bool" where
  "moves sid d d' \<longleftrightarrow> sound_db sid d' \<and> later sid d d' \<and> apart sid d d'"

lemma moves_sound: "moves sid d d' \<Longrightarrow> \<forall>s. sound_db s d \<Longrightarrow> sound_db s d'"
  using apart_sound by (cases "s = sid") (auto simp: moves_def sound_db_def)

lemma moves_later: "moves sid d d' \<Longrightarrow> \<forall>s. sound_db s d \<Longrightarrow> later s d d'"
  using apart_later by (cases "s = sid") (auto simp: moves_def sound_db_def)

lemma moves_session:
  assumes m: "moves sid d d'" and sound: "\<forall>s. sound_db s d" and ok: "sess_ok d s"
  shows "sess_ok d' s"
proof -
  have inv: "sess_inv (at s d)" using ok by (simp add: sess_ok_def)
  have "sess_inv ((at s d)\<lparr>s_db := d'\<rparr>)"
    by (rule sess_inv_later [OF inv]) (use moves_later [OF m sound] moves_sound [OF m sound] in simp_all)
  then show ?thesis using ok by (simp add: sess_ok_def)
qed

lemma moves_refl: "sound_db sid d \<Longrightarrow> moves sid d d"
  by (simp add: moves_def apart_def)

section \<open>Calls, creation, deletion\<close>

lemma call_moves:
  assumes ok: "sess_ok d s" and safe: "safe_call c" and wf: "wf_db d"
  defines "s' \<equiv> run_call c (at s d)"
  shows "moves (s_sandbox s) d (s_db s')" and "sess_ok (s_db s') s'"
proof -
  have inv: "sess_inv (at s d)" and sid: "s_sandbox s \<noteq> []" and ji: "journal_isolated (at s d)"
    using ok by (simp_all add: sess_ok_def journal_isolated_def)
  have step: "s_sandbox s' = s_sandbox s" "sess_inv s'" "later (s_sandbox s) d (s_db s')"
    using sync_call [OF safe, of "at s d"] inv by (simp_all add: sync_step_def s'_def)
  have iso: "journal_isolated s'" "isolated (s_sandbox s) d (s_db s')"
    using run_call_isolated [of "at s d" c] sid ji by (simp_all add: s_isolated_def s'_def)
  show "moves (s_sandbox s) d (s_db s')" using step isolated_apart [OF wf iso(2)] by (simp add: moves_def sess_inv_def)
  show "sess_ok (s_db s') s'" using step iso sid by (simp add: sess_ok_def)
qed

lemma apart_add_node:
  assumes "i_sandbox row = sid" and "node d (inode_seq d) = None" and "child d p n = None"
  shows "apart sid d (add_node sid p n row d)"
  using assms by (auto simp: apart_def only_def fun_eq_iff add_node_def put_dirent_def put_inode_def child_def node_def)

lemma apart_trans: "apart sid d d' \<Longrightarrow> apart sid d' d'' \<Longrightarrow> apart sid d d''"
  by (simp add: apart_def)

text \<open>A fresh sandbox: five directories, all at publishable paths.\<close>

lemma wf_child_known: assumes "wf_db d" and "inode_seq d \<le> p" shows "child d p n = None"
proof (rule ccontr)
  assume "child d p n \<noteq> None"
  then obtain x where "map_of (dirents d) (p, n) = Some x" by (auto simp: child_def)
  then have "node d p \<noteq> None" using assms(1) by (fastforce simp: wf_off_def wf_entries_def)
  then show False using assms by (force simp: wf_off_def wf_ids_def)
qed

lemma child_seed_root: "child (seed_root sid owner now d) = child d"
  by (simp add: seed_root_def Let_def) (simp add: child_def fun_eq_iff put_inode_def put_sandbox_def)

lemma seeded_add_nodes:
  "seeded sid owner now d = (let i = inode_seq d; row = seed_dir sid now in
     add_node sid (i + 1) ''user'' row (add_node sid i ''bin'' row (add_node sid i ''tmp'' row (add_node sid i ''home'' row (seed_root sid owner now d)))))"
  by (simp add: seeded_def seed_root_def Let_def)

lemma seed_root_seq: "inode_seq (seed_root sid owner now d) = inode_seq d + 1"
  by (simp add: seed_root_def Let_def)

lemma child_seeded:
  "child (seeded sid owner now d) p n = (let i = inode_seq d in
     if p = i + 1 \<and> n = ''user'' then Some (i + 4) else if p = i \<and> n = ''bin'' then Some (i + 3)
     else if p = i \<and> n = ''tmp'' then Some (i + 2) else if p = i \<and> n = ''home'' then Some (i + 1) else child d p n)"
  by (simp add: seeded_add_nodes Let_def child_add_node child_seed_root seed_root_seq)

lemma seeded_walk:
  assumes wf: "wf_db d" and w: "walk (seeded sid owner now d) (inode_seq d) segs = Some j"
  shows "segs \<in> {[], [''home''], [''tmp''], [''bin''], [''home'', ''user'']}"
proof -
  let ?i = "inode_seq d" and ?ch = "child (seeded sid owner now d)"
  note ch = child_seeded [of sid owner now d] wf_child_known [OF wf]
  have leaf: "walkc ?ch p xs = Some j \<Longrightarrow> xs = []" if "p \<in> {?i + 2, ?i + 3, ?i + 4}" for p xs
    using that by (cases xs) (auto simp: ch Let_def split: if_splits)
  have home: "walkc ?ch (?i + 1) xs = Some j \<Longrightarrow> xs \<in> {[], [''user'']}" for xs
    using leaf [of "?i + 4" "tl xs"] by (cases xs) (auto simp: ch Let_def split: if_splits)
  show ?thesis
    using w leaf [of "?i + 3" "tl segs"] leaf [of "?i + 2" "tl segs"] home [of "tl segs"]
    by (cases segs) (auto simp: ch Let_def split: if_splits)
qed

lemma sound_seeded:
  assumes wf: "wf_db d" and new: "map_of (sandboxes d) sid = None"
  shows "sound_db sid (seeded sid owner now d)"
proof -
  have "list_all (\<lambda>segs. ok_path (path_of segs)) [[], [''home''], [''tmp''], [''bin''], [''home'', ''user'']]" by code_simp
  then have "ok_path (path_of segs)" if "segs \<in> {[], [''home''], [''tmp''], [''bin''], [''home'', ''user'']}" for segs
    using that by auto
  then have "ok_path (path_of segs)" if "db_lookup (seeded sid owner now d) (inode_seq d) segs = Some e" for segs e
    using that seeded_walk [OF wf] by (auto simp: db_lookup_def split: option.splits)
  then show ?thesis using wf_seeded [OF wf new] seeded_root [of sid owner now d] by (auto simp: sound_db_def)
qed

lemma apart_seeded:
  assumes wf: "wf_db d" shows "apart sid d (seeded sid owner now d)"
proof -
  let ?i = "inode_seq d" and ?row = "seed_dir sid now"
  have fresh: "node d j = None" if "?i \<le> j" for j using wf that by (force simp: wf_off_def wf_ids_def)
  have row: "i_sandbox ?row = sid" by (simp add: seed_dir_def new_inode_row_def)
  have "apart sid d (seed_root sid owner now d)"
    using fresh [of ?i] row by (auto simp: apart_def only_def fun_eq_iff seed_root_def Let_def put_inode_def put_sandbox_def node_def)
  moreover have "node (seed_root sid owner now d) j = (if j = ?i then Some ?row else node d j)" for j
    by (simp add: seed_root_def Let_def put_inode_def put_sandbox_def node_def)
  ultimately show ?thesis
    unfolding seeded_add_nodes Let_def using fresh wf_child_known [OF wf] row
    by (auto intro!: apart_trans [OF _ apart_add_node] simp: seed_root_seq child_add_node child_seed_root)
qed

lemma create_moves:
  assumes wf: "wf_db d" and sound: "sound_db sid d"
  shows "moves sid d (snd (run_transaction (createSandbox sid owner) d now))"
proof (cases "map_of (sandboxes d) sid")
  case None
  have v: "version_of d sid = None" using None by (simp add: version_of_def)
  have "later sid d (seeded sid owner now d)"
    using v seeded_version [of sid owner now d] by (auto simp: later_def epoch_ceiling_def next_epoch_def split: option.splits)
  then show ?thesis
    using createSandbox_seeded [OF wf None, of owner now] sound_seeded [OF wf None] apart_seeded [OF wf] by (simp add: moves_def)
next
  case (Some row)
  obtain r d' where run: "run_transaction (createSandbox sid owner) d now = (r, d')" by force
  have "d' = d"
  proof (cases r)
    case (Inl e)
    then show ?thesis using run_transaction_Inl run by metis
  next
    case (Inr x)
    then show ?thesis using createSandbox_epochs(1) [OF run [unfolded Inr]] Some by (simp add: version_of_def)
  qed
  then show ?thesis using run moves_refl [OF sound] by simp
qed

lemma delete_moves:
  assumes wf: "wf_db d" and sound: "sound_db sid d"
  shows "moves sid d (snd (run_transaction (deleteSandbox sid) d now))"
proof (cases "map_of (sandboxes d) sid")
  case None
  then show ?thesis using moves_refl [OF sound] by (simp add: deleteSandbox_run)
next
  case (Some s)
  let ?e = "case map_of (sandbox_epochs d) sid of None \<Rightarrow> sb_version s + 1 | Some e \<Rightarrow> max e (sb_version s + 1)"
  let ?d = "(del_sandbox sid d)\<lparr>sandbox_epochs := AList.update sid ?e (sandbox_epochs d)\<rparr>"
  have run: "snd (run_transaction (deleteSandbox sid) d now) = ?d" using Some by (simp add: deleteSandbox_run Let_def)
  have wf': "wf_db ?d"
    by (rule wf_ext [OF wf_del_sandbox [OF wf, of sid]]) (use wf_del_sandbox [OF wf, of sid] in \<open>simp_all add: wf_off_def wf_keys_def\<close>)
  have gone: "version_of ?d sid = None" by (simp add: version_of_def del_sandbox_def Let_def)
  have "epoch_ceiling sid ?d = ?e" "epoch_ceiling sid d = sb_version s"
    using gone Some by (simp_all add: epoch_ceiling_def version_of_def)
  then have "later sid d ?d" by (auto simp: later_def split: option.split)
  moreover have "apart sid d ?d"
  proof -
    have n: "node ?d i = node (del_sandbox sid d) i" for i by (simp add: node_def)
    have s: "map_of (sandboxes ?d) t = map_of (sandboxes d) t" if "t \<noteq> sid" for t using that by (simp add: del_sandbox_def Let_def)
    show ?thesis using node_del_sandbox [OF wf] dirents_del_sandbox [OF wf] s
      by (auto simp: apart_def only_def fun_eq_iff n split: option.splits)
  qed
  ultimately show ?thesis using wf' gone run by (simp add: moves_def sound_db_def)
qed

lemma open_ok:
  assumes sound: "sound_db sid d" and sid: "sid \<noteq> []" and run: "view_ready (new_session env sid d now) = (Inr u, s)"
  shows "sess_ok d s" and "current s"
proof -
  let ?s = "new_session env sid d now"
  have s: "loadable ?s" using sound by (simp add: loadable_def new_session_def)
  have fields: "s_sandbox ?s = sid" "s_db ?s = d" "\<not> p_scope ?s" "v_cache ?s = []" by (simp_all add: new_session_def)
  obtain b where l: "loadCommittedView True ?s = (Inr b, s)"
    using run alive_outside [OF fields(3)] by (auto simp: view_ready_def and_then_def split: prod.splits sum.splits)
  have "b = True"
    using l by (auto simp: loadCommittedView_def load_snapshot_def readSnapshot_def transaction_def run_transaction_def and_then_def
        setSandboxContext_def assertAlive_def modify_def return_ok_def of_sum_def split: prod.splits sum.splits option.splits if_splits)
  then have inv: "sess_inv s" "current s" "\<not> p_scope s" "s_sandbox s = sid" "s_db s = d" using load_outcome [OF s l] fields by auto
  have "at s d = s" using inv(5) by (cases s) simp
  moreover have "journal_isolated s" using inv(1,3) by (simp add: journal_isolated_def sess_inv_def view_ok_def)
  ultimately show "sess_ok d s" using inv(1,4) sid unfolding sess_ok_def by metis
  show "current s" by (rule inv(2))
qed

section \<open>The invariant of the system\<close>

lemma session_fields: "sess_inv (s\<lparr>s_now := a, f_guard := b, f_owner_lost := c\<rparr>) = sess_inv s"
  by (simp add: sess_inv_def view_ok_def current_def)

lemma run_step_inv:
  assumes inv: "sys_inv y" and safe: "safe_step st"
  shows "sys_inv (run_step st y)"
proof -
  let ?d = "y_db y" and ?ss = "y_sessions y"
  have sound: "\<forall>sid. sound_db sid ?d" and ok: "\<And>s. s \<in> set ?ss \<Longrightarrow> sess_ok ?d s" using inv by (simp_all add: sys_inv_def)
  have wf: "wf_db ?d" using sound by (simp add: sound_db_def)
  have moved: "sys_inv (y\<lparr>y_db := d'\<rparr>)" if "moves sid ?d d'" for sid d'
    using moves_sound [OF that sound] moves_session [OF that sound] ok by (simp add: sys_inv_def)
  show ?thesis
  proof (cases st)
    case (OpenSession env sid now)
    obtain r s where run: "view_ready (new_session env sid ?d now) = (r, s)" by force
    show ?thesis
    proof (cases r)
      case (Inl e)
      then show ?thesis using inv by (simp add: OpenSession run)
    next
      case (Inr u)
      have "sess_ok ?d s" by (rule open_ok(1) [OF _ _ run [unfolded Inr]]) (use sound safe OpenSession in simp_all)
      then show ?thesis using inv by (auto simp: OpenSession run Inr sys_inv_def)
    qed
  next
    case (SessionCall k c)
    show ?thesis
    proof (cases "k < length ?ss")
      case True
      let ?s = "?ss ! k"
      have s: "sess_ok ?d ?s" using ok True by simp
      have sc: "safe_call c" using safe SessionCall by simp
      note m = call_moves [OF s sc wf]
      have "sess_ok (s_db (run_call c (at ?s ?d))) t" if "t \<in> set (?ss[k := run_call c (at ?s ?d)])" for t
        using that m(2) moves_session [OF m(1) sound ok] set_update_subset_insert [of ?ss k "run_call c (at ?s ?d)"] by blast
      then show ?thesis using True moves_sound [OF m(1) sound] by (simp add: SessionCall Let_def sys_inv_def)
    qed (simp add: SessionCall inv)
  next
    case (CreateSandbox sid owner now)
    then show ?thesis using moved [OF create_moves [OF wf sound [rule_format]]] by simp
  next
    case (DeleteSandbox sid now)
    then show ?thesis using moved [OF delete_moves [OF wf sound [rule_format]]] by simp
  next
    case (SessionLease k now guard lost)
    show ?thesis
    proof (cases "k < length ?ss")
      case True
      let ?s = "(?ss ! k)\<lparr>s_now := now, f_guard := guard, f_owner_lost := lost\<rparr>"
      have "sess_ok ?d (?ss ! k)" using ok True by simp
      moreover have "at ?s ?d = (at (?ss ! k) ?d)\<lparr>s_now := now, f_guard := guard, f_owner_lost := lost\<rparr>" by simp
      ultimately have "sess_ok ?d ?s" by (simp only: sess_ok_def session_fields) (simp add: journal_isolated_def)
      then have "sess_ok ?d t" if "t \<in> set (?ss[k := ?s])" for t
        using that ok set_update_subset_insert [of ?ss k ?s] by blast
      then show ?thesis using sound by (simp add: SessionLease True sys_inv_def)
    qed (simp add: SessionLease inv)
  qed
qed

interpretation sessions: safe_machine "\<lambda>y. y = \<lparr>y_db = empty_db, y_sessions = []\<rparr>"
    "\<lambda>y y'. \<exists>st. safe_step st \<and> y' = run_step st y" sys_inv
proof
  show "sys_inv y" if "y = \<lparr>y_db = empty_db, y_sessions = []\<rparr>" for y
    using that wf_empty_db by (simp add: sys_inv_def sound_db_def version_of_def) (simp add: empty_db_def)
  show "\<And>s t. sys_inv s \<Longrightarrow> \<exists>st. safe_step st \<and> t = run_step st s \<Longrightarrow> sys_inv t" using run_step_inv by blast
qed

lemma run_steps_inv: "sys_inv y \<Longrightarrow> list_all safe_step steps \<Longrightarrow> sys_inv (run_steps steps y)"
  by (induction steps arbitrary: y) (auto simp: run_step_inv)

end
