(* ===== verification/ScopeBuffer.thy ===== *)
theory ScopeBuffer
  imports SessionSystem
begin

text \<open>
  Inside a script scope nothing reaches the tables of the file tree: mutations go to the journal, and
  only content-addressed blobs (which no path refers to yet) are committed before the scope ends.
\<close>

definition quiet :: "session \<Rightarrow> session \<Rightarrow> bool" where
  "quiet s s' \<longleftrightarrow> (p_scope s \<longrightarrow> p_scope s' \<and> (s_db s')\<lparr>blobs := blobs (s_db s)\<rparr> = s_db s)"

interpretation quiet: state_preorder quiet
proof
  show "quiet s s" for s by (simp add: quiet_def)
  show "quiet s u" if "quiet s t" "quiet t u" for s t u
    using that by (cases "s_db s"; cases "s_db t"; cases "s_db u") (simp add: quiet_def)
qed

lemma light_quiet: "light s s' \<Longrightarrow> quiet s s'"
  by (simp add: light_def quiet_def)

lemma light_keeps_quiet: "light.keeps m \<Longrightarrow> quiet.keeps m"
  by (auto simp: light.keeps_def quiet.keeps_def intro: light_quiet)

lemma quiet_core: "core s' = core s \<Longrightarrow> quiet s s'"
  using core_eq_fields [of s' s] by (simp add: quiet_def)

lemma quiet_mutate: "quiet.keeps (mutate op)"
proof (rule quiet.keepsI)
  fix s r s' assume run: "mutate op s = (r, s')"
  show "quiet s s'"
  proof (cases "p_scope s")
    case scope: True
    obtain minted b where mint: "mint_ids (o_mints op) (p_next_id s) = (minted, b)" by force
    have rec: "p_scope t' = p_scope t \<and> s_db t' = s_db t" if "recordMutation m t = (x, t')" for m t x t'
      using that by (cases x) (auto dest: recordMutation_Inl recordMutation_Inr)
    show ?thesis
      using run mutate_scope [OF scope mint] rec [of _ "s\<lparr>p_next_id := b\<rparr>"]
      by (cases "alive_verdict s"; cases r) (fastforce simp: quiet_def and_then_def scope split: sum.splits prod.splits)+
  qed (simp add: quiet_def)
qed

lemma quiet_mutateOne: "quiet.keeps (mutateOne op)"
  unfolding mutateOne_def by (intro quiet.keeps_and_then quiet_mutate quiet.keeps_case_prod quiet.keeps_pure)

lemma quiet_publish: "quiet.keeps (modify (publishMutation pub ps cs complete))"
  by (rule quiet.keeps_modify) (rule quiet_core [OF core_publishMutation])

lemmas quiet_light = light_guards [THEN light_keeps_quiet] light_commit_content [THEN light_keeps_quiet] light_append_base [THEN light_keeps_quiet]
lemmas quiet_basic = quiet.keeps_intros quiet_light quiet_mutate quiet_mutateOne quiet_publish

lemma quiet_files: "quiet.keeps (writeFile_ns path b createMode)" "quiet.keeps (appendFile_ns path b)"
  unfolding writeFile_ns_def appendFile_ns_def Let_def by (intro quiet_basic)+

lemma quiet_mkdir_segments: "quiet.keeps (mkdir_segments mode mtime dir created segs)"
proof (induction segs arbitrary: dir created)
  case Nil
  then show ?case unfolding mkdir_segments.simps by (rule quiet.keeps_pure)
next
  case (Cons seg segs)
  have step: "quiet.keeps (and_then (mutateOne op) (\<lambda>(pub, i).
      and_then (modify (publishMutation pub (ps i) [] False)) (\<lambda>_. mkdir_segments mode mtime cur True segs)))" for op ps cur
    by (intro quiet_basic Cons.IH)
  show ?case
    unfolding mkdir_segments.simps Let_def
    by (rule quiet.keeps_fun) (auto simp: quiet.refl quiet.keeps_app [OF Cons.IH] quiet.keeps_app [OF step] split: option.split)
qed

lemma quiet_mkdir_ns: "quiet.keeps (mkdir_ns path recursive mode)"
proof -
  have "quiet.keeps (modify (\<lambda>s. s\<lparr>v_dirty := True\<rparr>))" by (rule quiet.keeps_modify) (simp add: quiet_def)
  then show ?thesis unfolding mkdir_ns_def by (intro quiet_basic quiet_mkdir_segments)
qed

lemma quiet_rm_ns: "quiet.keeps (rm_ns path recursive force)"
proof -
  have tree: "quiet.keeps (rm_tree_ns path)"
    unfolding rm_tree_ns_def Let_def by (rule quiet.keeps_fun) (intro quiet.keeps_and_then_app quiet_basic)
  have one: "quiet.keeps (and_then (mutate op) (\<lambda>(pub, _). modify (publishMutation pub ps cs True)))" for op ps cs
    by (intro quiet_basic)
  show ?thesis
    unfolding rm_ns_def
    by (intro quiet.keeps_and_then quiet_light quiet.keeps_fun)
       (auto simp: quiet.refl quiet.keeps_app [OF tree] quiet.keeps_app [OF one] split: option.split)
qed

lemma quiet_cp_ns: "(\<And>p m. quiet.keeps (w p m)) \<Longrightarrow> quiet.keeps (cp_ns src dest recursive w)"
proof -
  assume w: "\<And>p m. quiet.keeps (w p m)"
  have tree: "quiet.keeps (cp_tree_ns src dest)"
    unfolding cp_tree_ns_def Let_def by (rule quiet.keeps_fun) (intro quiet.keeps_and_then_app quiet_basic)
  show ?thesis unfolding cp_ns_def by (intro quiet_basic w tree)
qed

lemma quiet_entry_ops:
  "quiet.keeps (chmod_ns path mode)" "quiet.keeps (utimes_ns path mtime)" "quiet.keeps (symlink_ns target path)"
  "quiet.keeps (link_ns existing path)" "quiet.keeps (mv_ns src dest)"
proof -
  have one: "quiet.keeps (and_then (mutate op) (\<lambda>(pub, _). modify (publishMutation pub ps cs True)))" for op ps cs
    by (intro quiet_basic)
  show "quiet.keeps (chmod_ns path mode)" "quiet.keeps (utimes_ns path mtime)"
    unfolding chmod_ns_def utimes_ns_def
    by (intro quiet.keeps_and_then quiet_light quiet.keeps_fun; auto simp: quiet.refl quiet.keeps_app [OF one] split: option.split)+
  show "quiet.keeps (symlink_ns target path)" unfolding symlink_ns_def by (intro quiet_basic)
  show "quiet.keeps (link_ns existing path)"
    unfolding link_ns_def
    by (intro quiet.keeps_and_then quiet_light quiet.keeps_fun)
       (auto simp: quiet.refl split: option.split intro!: quiet.keeps_and_then_app quiet_basic)
  show "quiet.keeps (mv_ns src dest)"
    unfolding mv_ns_def
    by (intro quiet.keeps_and_then quiet_light quiet.keeps_fun)
       (auto simp: quiet.refl Let_def quiet_core [OF core_publishMutation] split: option.split
         intro!: quiet.keeps_and_then_app quiet.keeps_pure quiet.keeps_fun quiet.keeps_app [OF quiet_mutate])
qed

lemma quiet_outside: "p_scope s \<Longrightarrow> ensureFresh s = (r, s') \<Longrightarrow> s' = s" "p_scope s \<Longrightarrow> scope_begin s = (x, s') \<Longrightarrow> s' = s"
  "p_scope s \<Longrightarrow> fs_claimGeneration s = (y, s') \<Longrightarrow> s' = s"
  by (auto simp: ensureFresh_def scope_begin_def fs_claimGeneration_def claimGeneration_def and_then_def assertAlive_def lease_verdict_def
      split: sum.splits prod.splits option.splits if_splits)

text \<open>Every call but the two that end a scope.\<close>

fun ends_scope :: "fs_call \<Rightarrow> bool" where
  "ends_scope EndScope \<longleftrightarrow> True"
| "ends_scope AbortScope \<longleftrightarrow> True"
| "ends_scope _ \<longleftrightarrow> False"

lemma quiet_writes:
  "quiet.keeps (fs_writeFile path b)" "quiet.keeps (fs_appendFile path b)" "quiet.keeps (fs_rm path recursive force)"
  "quiet.keeps (fs_chmod path mode)" "quiet.keeps (fs_utimes path mtime)" "quiet.keeps (fs_cp src dest recursive)"
  "quiet.keeps (fs_mv src dest)" "quiet.keeps (fs_symlink target path)" "quiet.keeps (fs_link src dest)"
  "quiet.keeps (fs_createExclusive path directory mode)" "quiet.keeps (fs_mkdir path recursive)"
  unfolding fs_writeFile_def fs_appendFile_def fs_rm_def fs_chmod_def fs_utimes_def fs_cp_def fs_mv_def
    fs_symlink_def fs_link_def fs_createExclusive_def fs_mkdir_def
  by (intro quiet_basic quiet_files quiet_rm_ns quiet_entry_ops quiet_cp_ns quiet_mkdir_ns)+

text \<open>Bulk ingest is refused inside a scope.\<close>

lemma quiet_bulkIngest: "quiet.keeps (fs_bulkIngest files)"
proof -
  have "quiet s (snd (bulkIngest_ns gs s))" for gs s
  proof (cases "p_scope s")
    case True
    obtain r s1 where w: "assertWritable ''/'' ''bulkIngest'' s = (r, s1)" by force
    have l: "light s s1" by (rule light.keepsD [OF light_guards(2) w])
    then have "p_scope s1" using True by (simp add: light_def)
    then have "snd (bulkIngest_ns gs s) = s1" using w by (simp add: bulkIngest_ns_def and_then_def split: sum.split)
    then show ?thesis using light_quiet [OF l] by simp
  qed (simp add: quiet_def)
  then show ?thesis unfolding fs_bulkIngest_def by (intro quiet.keeps_intros quiet.keeps_fun)
qed

lemma quiet_call: assumes "\<not> ends_scope c" shows "quiet s (run_call c s)"
proof (cases "p_scope s")
  case True
  have stay: "quiet s (snd (ensureFresh s))" "quiet s (snd (scope_begin s))" "quiet s (snd (fs_claimGeneration s))"
    using quiet_outside [OF True, of _ "snd (ensureFresh s)"] quiet_outside(2) [OF True, of _ "snd (scope_begin s)"]
      quiet_outside(3) [OF True, of _ "snd (fs_claimGeneration s)"]
    by (metis prod.collapse quiet.refl)+
  show ?thesis
    using assms quiet_writes [THEN quiet.keeps_app] quiet.keeps_app [OF quiet_bulkIngest] light_reads_fs [THEN light.keeps_app, THEN light_quiet]
      light_entry_reads(2) [THEN light.keeps_app, THEN light_quiet] stay
    by (cases c) (simp_all add: beginScriptScope_def)
qed (simp add: quiet_def)

end
