(* ===== verification/Guarantees.thy ===== *)
theory Guarantees
  imports ScopeBuffer
begin

text \<open>
  What the file system promises the scripts and services that use it. The theorems speak of every system
  reached from empty tables by creating and deleting sandboxes, opening sessions and calling their
  operations in any order; a session's cached view, its scopes and its reads are compared with the tree the
  tables hold.
\<close>

definition empty_system :: system where
  "empty_system = \<lparr>y_db = empty_db, y_sessions = []\<rparr>"

lemma system_inv: "list_all safe_step steps \<Longrightarrow> sys_inv (run_steps steps empty_system)"
  by (rule run_steps_inv [OF sessions.start_inv]) (simp_all add: empty_system_def)

lemma reachable_session:
  assumes "list_all safe_step steps" and "s \<in> set (y_sessions (run_steps steps empty_system))"
  shows "sess_ok (y_db (run_steps steps empty_system)) s"
  using system_inv [OF assms(1)] assms(2) by (simp add: sys_inv_def)

text \<open>
  C1. Coherent views: in every reachable system, a session that is not in a script scope and whose epoch is
  the sandbox's current version answers every path lookup from its cache exactly as the tables would: an
  entry is cached at a path if and only if the path leads to a row, with the same inode, kind, mode, size,
  link target and hash (the cached modification time is the session's clock).
\<close>

theorem coherent_views:
  assumes "list_all safe_step steps" and "y = run_steps steps empty_system" and "s \<in> set (y_sessions y)"
    and "\<not> p_scope s" and "version_of (y_db y) (s_sandbox s) = Some (v_epoch s)"
  shows "\<exists>r. root_of (y_db y) (s_sandbox s) = Some r \<and> (\<forall>segs. valid_names segs \<longrightarrow>
    map_option (norm_entry id) (view_get s (path_of segs)) = map_option (norm_entry id) (db_lookup (y_db y) r segs))"
proof -
  have "sess_inv (at s (y_db y))" using reachable_session [OF assms(1)] assms(2,3) by (simp add: sess_ok_def)
  then have "snapshot (s_sandbox s) (v_cache s) (y_db y)" using assms(4,5) by (simp add: sess_inv_def view_ok_def current_def)
  then show ?thesis by (auto simp: snapshot_def view_get_def dest: cohere_at)
qed

text \<open>A sandbox, two sessions on it, and a write by the first.\<close>

definition demo_env :: env where
  "demo_env = new_env id True"

definition demo_open :: "sys_step list" where
  "demo_open = [CreateSandbox ''a'' ''ann'' 0, OpenSession demo_env ''a'' 1, OpenSession demo_env ''a'' 1]"

definition demo_system :: system where
  "demo_system = run_steps (demo_open @ [SessionCall 0 (WriteFile ''/home/x'' [1])]) empty_system"

abbreviation demo_session :: "nat \<Rightarrow> session" where
  "demo_session k \<equiv> y_sessions demo_system ! k"

lemma demo_facts:
  "length (y_sessions demo_system) = 2" "p_scope (demo_session 0) = False" "s_sandbox (demo_session 0) = ''a''"
  "version_of (y_db demo_system) ''a'' = Some 1" "v_epoch (demo_session 0) = 1" "v_epoch (demo_session 1) = 0"
  "p_scope (demo_session 1) = False" "s_sandbox (demo_session 1) = ''a''"
  "root_of (y_db demo_system) ''a'' = Some 1"
  "list_all safe_step (demo_open @ [SessionCall 0 (WriteFile ''/home/x'' [1])])"
  by code_simp+

theorem coherent_views_witness:
  "\<exists>r. root_of (y_db demo_system) ''a'' = Some r \<and> (\<forall>segs. valid_names segs \<longrightarrow>
    map_option (norm_entry id) (view_get (demo_session 0) (path_of segs)) = map_option (norm_entry id) (db_lookup (y_db demo_system) r segs))"
  using coherent_views [OF demo_facts(10) demo_system_def, of "demo_session 0"] demo_facts by simp

lemma stale_write:
  assumes out: "\<not> p_scope s" and stale: "\<not> current s"
  shows "\<exists>e. mutate op s = (Inl e, s)"
proof (cases "mutate op s")
  case (Pair r s')
  show ?thesis
  proof (cases r)
    case (Inl e)
    then show ?thesis using Pair mutate_refused [OF out] by blast
  next
    case (Inr x)
    obtain pub ids where x: "x = (pub, ids)" by force
    have "(if o_composite op then withBareTx (o_run op (replay_of (expectedEpoch s) (p_remap s))) s
        else withWriteTx (o_run op (replay_of (expectedEpoch s) (p_remap s))) s) = (Inr (pub, ids), s')"
      using Pair Inr x out by (simp add: mutate_def Let_def)
    then have "current s" by (rule write_tx_Inr)
    then show ?thesis using stale by simp
  qed
qed

text \<open>What settles a scope or reloads a view only reads the tables.\<close>

interpretation tables: state_preorder "\<lambda>s s' :: session. s_db s' = s_db s"
  by unfold_locales auto

lemma tables_load: "tables.keeps (loadCommittedView force)"
proof (rule tables.keeps_fun)
  fix s :: session
  have "t_db tx = t_db tx0" if "load_snapshot force s tx0 = (Inr v, tx)" for v tx tx0
    using that by (auto simp: load_snapshot_def and_then_def getSandboxEpoch_def split: option.splits if_splits)
  then have read: "s_db (snd (readSnapshot (load_snapshot force s) s)) = s_db s"
    by (auto simp: readSnapshot_def transaction_def run_transaction_def and_then_def setSandboxContext_def begin_tx_def split: prod.splits sum.splits)
  have "tables.keeps assertAlive" "tables.keeps (modify (installView e rows))" for e rows
    by (simp_all add: tables.keeps_def assertAlive_def installView_def)
  then have "tables.keeps (and_then assertAlive (\<lambda>_. case view of None \<Rightarrow> return_ok False
      | Some (epoch, entries) \<Rightarrow> and_then (of_sum (check_loaded_paths (map fst entries))) (\<lambda>_. and_then (modify (installView epoch entries)) (\<lambda>_. return_ok True))))" for view
    by (intro tables.keeps_intros)
  then show "s_db (snd (loadCommittedView force s)) = s_db s"
    unfolding loadCommittedView_def by (intro tables.keeps_and_then_from read)
qed

lemma tables_settling: "tables.keeps reload" "tables.keeps recoverCommittedView" "tables.keeps abortScriptScope"
proof -
  have alive: "tables.keeps assertAlive" by (simp add: tables.keeps_def assertAlive_def)
  show load: "tables.keeps reload"
    unfolding reload_def
    by (intro tables.keeps_and_then alive tables.keeps_fun) (simp add: tables.keeps_app [OF tables.keeps_and_then [OF tables_load tables.keeps_pure(1)]])
  show rec: "tables.keeps recoverCommittedView"
    unfolding recoverCommittedView_def by (intro tables.keeps_intros load tables.keeps_modify) simp_all
  have "tables.keeps scope_abort" by (simp add: tables.keeps_def scope_abort_def clearTransaction_def discardMutations_def)
  then show "tables.keeps abortScriptScope"
    unfolding abortScriptScope_def using rec [unfolded recoverCommittedView_def]
    by (intro tables.keeps_and_then tables.keeps_if tables.keeps_pure)
qed

lemma flush_stale:
  assumes "p_journal s \<noteq> []" and "\<not> current s"
  shows "\<exists>e. flushMutations s = (Inl e, s)"
proof -
  have "\<exists>e. transaction (flush_body s) s = (Inl e, s)"
  proof (cases "transaction (flush_body s) s")
    case (Pair r s')
    have "r \<noteq> Inr x" for x
    proof
      assume "r = Inr x"
      then obtain tx where "setSandboxContextWithLock (s_sandbox s) (begin_tx (s_db s) (s_now s)) = (Inr (), tx)" "version_of (t_db tx) (s_sandbox s) = Some (v_epoch s)"
        using Pair by (auto simp: transaction_def run_transaction_Inr_iff flush_body_def and_then_Inr_iff getSandboxEpoch_Inr_iff split: prod.splits if_splits)
      then show False using assms(2) context_ready(1) by (simp add: current_def)
    qed
    then show ?thesis using Pair by (cases r) (auto simp: transaction_def dest: run_transaction_Inl split: prod.splits)
  qed
  then show ?thesis using assms(1) by (auto simp: flushMutations_def)
qed

lemma stale_scope:
  assumes scope: "p_scope s" and stale: "\<not> current s"
  shows "s_db (snd (mutate op s)) = s_db s" and "p_journal s \<noteq> [] \<Longrightarrow> \<exists>e s'. endScriptScope s = (Inl e, s') \<and> s_db s' = s_db s"
proof -
  obtain minted b where mint: "mint_ids (o_mints op) (p_next_id s) = (minted, b)" by force
  show "s_db (snd (mutate op s)) = s_db s"
    by (cases "alive_verdict s") (auto simp: mutate_scope [OF scope mint] and_then_def recordMutation_def Let_def split: prod.splits sum.splits)
  assume js: "p_journal s \<noteq> []"
  have thrown: "\<exists>e' s'. and_then m (\<lambda>_. throw e) t = (Inl e', s') \<and> s_db s' = s_db t" if "tables.keeps m" for m :: "unit fs" and e t
    using tables.keeps_app [OF that, of t] by (cases "m t"; cases "fst (m t)") (auto simp: and_then_def)
  show "\<exists>e s'. endScriptScope s = (Inl e, s') \<and> s_db s' = s_db s"
  proof (cases "f_owner_lost s \<or> (\<exists>e. alive_verdict s = Inl e)")
    case True
    then have "\<exists>e. endScriptScope s = and_then abortScriptScope (\<lambda>_. throw e) s" using scope by (cases "f_owner_lost s") (auto simp: endScriptScope_def)
    then show ?thesis using thrown [OF tables_settling(3)] by metis
  next
    case False
    then have alive: "alive_verdict s = Inr ()" and own: "\<not> f_owner_lost s" by (cases "alive_verdict s"; simp)+
    then have lost: "p_lost s = None" using scope by (simp add: alive_verdict_def split: option.splits)
    obtain e where flush: "flushMutations (s\<lparr>p_scope := False\<rparr>) = (Inl e, s\<lparr>p_scope := False\<rparr>)"
      using flush_stale [of "s\<lparr>p_scope := False\<rparr>"] js stale by (auto simp: current_def)
    let ?t = "discardMutations (clearTransaction (s\<lparr>p_scope := False\<rparr>))"
    have "endScriptScope s = and_then recoverCommittedView (\<lambda>_. throw e) ?t"
      using scope own alive lost js flush by (simp add: endScriptScope_def finish_def and_then_def Let_def)
    moreover have "s_db ?t = s_db s" by (simp add: discardMutations_def clearTransaction_def)
    ultimately show ?thesis using thrown [OF tables_settling(2), of e ?t] by metis
  qed
qed

text \<open>
  C16. A writer whose epoch is not the sandbox's version changes nothing. Outside a scope its mutation returns
  an error, and the session, its cache and the tables stay exactly as they were. In a scope the mutation is only
  recorded, or refused for the size of the journal, with the tables unchanged; and when the scope ends with anything
  recorded, the end returns an error and the tables are unchanged again.
\<close>

theorem stale_writer_refused:
  assumes "version_of (s_db s) (s_sandbox s) \<noteq> Some (v_epoch s)"
  shows "(\<not> p_scope s \<longrightarrow> (\<exists>e. mutate op s = (Inl e, s)))
    \<and> (p_scope s \<longrightarrow> s_db (snd (mutate op s)) = s_db s
        \<and> (p_journal s \<noteq> [] \<longrightarrow> (\<exists>e s'. endScriptScope s = (Inl e, s') \<and> s_db s' = s_db s)))"
  using assms stale_write [of s op] stale_scope(1) [of s op] stale_scope(2) [of s] by (auto simp: current_def)

definition demo_stale_scope :: session where
  "demo_stale_scope = (y_sessions (run_steps (demo_open @ [SessionCall 1 BeginScope, SessionCall 1 (Mkdir ''/home/d'' False)]) empty_system) ! 1)
     \<lparr>s_db := y_db demo_system\<rparr>"

theorem stale_writer_refused_witness:
  "(\<exists>e. mutate (mkdir_spec ''a'' True 1 ''d'' 493) ((demo_session 1)\<lparr>s_db := y_db demo_system\<rparr>)
     = (Inl e, (demo_session 1)\<lparr>s_db := y_db demo_system\<rparr>))
   \<and> (\<exists>e s'. endScriptScope demo_stale_scope = (Inl e, s') \<and> s_db s' = y_db demo_system)"
proof
  show "\<exists>e. mutate (mkdir_spec ''a'' True 1 ''d'' 493) ((demo_session 1)\<lparr>s_db := y_db demo_system\<rparr>)
      = (Inl e, (demo_session 1)\<lparr>s_db := y_db demo_system\<rparr>)"
    using stale_writer_refused [of "(demo_session 1)\<lparr>s_db := y_db demo_system\<rparr>"] demo_facts by simp
  have "(p_scope demo_stale_scope, p_journal demo_stale_scope = [], v_epoch demo_stale_scope, s_sandbox demo_stale_scope) = (True, False, 0, ''a'')"
    by code_simp
  moreover have "s_db demo_stale_scope = y_db demo_system" by (simp add: demo_stale_scope_def)
  ultimately show "\<exists>e s'. endScriptScope demo_stale_scope = (Inl e, s') \<and> s_db s' = y_db demo_system"
    using stale_writer_refused [of demo_stale_scope "mkdir_spec ''a'' True 1 ''d'' 493"] demo_facts(4) by simp
qed

text \<open>
  C3. No lost updates: in every reachable system, if a call of one session changes the tree a sandbox
  stores, then every mutation that another session of the sandbox tries from its old view, outside a scope,
  is refused without any effect.
\<close>

theorem lost_update_impossible:
  assumes "list_all safe_step steps" and "y = run_steps steps empty_system" and "k < length (y_sessions y)" and "safe_call c"
    and "y' = run_step (SessionCall k c) y" and "sid = s_sandbox (y_sessions y ! k)" and "root_of (y_db y) sid = Some r"
    and "db_lookup (y_db y') r \<noteq> db_lookup (y_db y) r"
    and "s \<in> set (y_sessions y)" and "s_sandbox s = sid" and "\<not> p_scope s"
  shows "\<exists>e. mutate op (s\<lparr>s_db := y_db y'\<rparr>) = (Inl e, s\<lparr>s_db := y_db y'\<rparr>)"
proof (rule stale_write)
  have inv: "sys_inv y" using system_inv [OF assms(1)] assms(2) by simp
  have k: "sess_ok (y_db y) (y_sessions y ! k)" and s: "sess_ok (y_db y) s" using inv assms(3,9) by (simp_all add: sys_inv_def)
  have wf: "wf_db (y_db y)" using inv by (simp add: sys_inv_def sound_db_def)
  have db: "y_db y' = s_db (run_call c (at (y_sessions y ! k) (y_db y)))" using assms(3,5) by (simp add: Let_def)
  have "later sid (y_db y) (y_db y')" using call_moves(1) [OF k assms(4) wf] assms(6) db by (simp add: moves_def)
  then have "epoch_ceiling sid (y_db y) < epoch_ceiling sid (y_db y')" using assms(7,8) by (auto simp: later_def)
  moreover have "v_epoch s \<le> epoch_ceiling sid (y_db y)" using s assms(10) by (simp add: sess_ok_def sess_inv_def)
  ultimately show "\<not> current (s\<lparr>s_db := y_db y'\<rparr>)" using assms(10) by (auto simp: current_def dest: ceiling_version)
qed (use assms in simp)

definition demo_before :: system where
  "demo_before = run_steps demo_open empty_system"

definition demo_after :: system where
  "demo_after = run_step (SessionCall 0 (WriteFile ''/home/x'' [1])) demo_before"

theorem lost_update_impossible_witness:
  "\<exists>e. mutate (mkdir_spec ''a'' True 1 ''d'' 493) ((y_sessions demo_before ! 1)\<lparr>s_db := y_db demo_after\<rparr>)
     = (Inl e, (y_sessions demo_before ! 1)\<lparr>s_db := y_db demo_after\<rparr>)"
proof -
  have run: "list_all safe_step demo_open" "safe_call (WriteFile ''/home/x'' [1])" by code_simp+
  have sessions: "length (y_sessions demo_before) = 2" "s_sandbox (y_sessions demo_before ! 0) = ''a''"
    "s_sandbox (y_sessions demo_before ! 1) = ''a''" "p_scope (y_sessions demo_before ! 1) = False" by code_simp+
  have db: "root_of (y_db demo_before) ''a'' = Some 1" "db_lookup (y_db demo_after) 1 [''home'', ''x''] \<noteq> None"
    "db_lookup (y_db demo_before) 1 [''home'', ''x''] = None" by code_simp+
  have "db_lookup (y_db demo_after) 1 \<noteq> db_lookup (y_db demo_before) 1" using db(2,3) by metis
  then show ?thesis
    by (intro lost_update_impossible [OF run(1) demo_before_def _ run(2) demo_after_def]) (use sessions db(1) in \<open>simp_all add: nth_mem\<close>)
qed

section \<open>Scopes\<close>

text \<open>What a scope's end does to the database: nothing, or the tree of the scope's view.\<close>

lemma snd_then_throw: "snd (and_then m (\<lambda>_. throw e) s) = snd (m s)"
  by (cases "m s"; cases "fst (m s)") (simp_all add: and_then_def)

lemma end_scope_outcome:
  assumes inv: "sess_inv s" and scope: "p_scope s"
  defines "s' \<equiv> snd (endScriptScope s)"
  shows "s_db s' = s_db s \<or> (\<exists>tx e r remap. s_db s' = t_db tx \<and> in_sync (s_sandbox s) e r (real_id remap) (v_cache s) tx)"
proof (cases "f_owner_lost s \<or> (\<exists>e. alive_verdict s = Inl e) \<or> p_journal s = []")
  case True
  have "s_db s' = s_db s"
  proof (cases "f_owner_lost s \<or> (\<exists>e. alive_verdict s = Inl e)")
    case True
    then have "\<exists>e. endScriptScope s = and_then abortScriptScope (\<lambda>_. throw e) s"
      using scope by (cases "f_owner_lost s") (auto simp: endScriptScope_def)
    then have "s' = snd (abortScriptScope s)" by (auto simp: s'_def snd_then_throw)
    then show ?thesis using tables.keeps_app [OF tables_settling(3), of s] by simp
  next
    case False
    then show ?thesis
      using True scope inv by (auto simp: s'_def endScriptScope_def finish_def flushMutations_def Let_def and_then_def sess_inv_def alive_verdict_def
          discardMutations_def clearTransaction_def split: option.splits sum.splits)
  qed
  then show ?thesis ..
next
  case False
  then have js: "p_journal s \<noteq> []" and alive: "alive_verdict s = Inr ()" "\<not> f_owner_lost s" by (cases "alive_verdict s"; simp)+
  have lost: "p_lost s = None" using alive(1) scope by (simp add: alive_verdict_def split: option.splits)
  obtain res where run: "endScriptScope s = (res, s')" unfolding s'_def by (cases "endScriptScope s") simp
  show ?thesis by (rule sync_flush(2) [OF scope lost js _ inv]) (use run alive scope in \<open>simp add: endScriptScope_def\<close>)
qed

text \<open>
  C2. A script scope is all or nothing: ending a scope either leaves the tables untouched, or makes the
  stored tree equal, at every path, to the view the script had at the end of the scope (inode numbers and
  modification times aside, which the flush assigns).
\<close>

theorem scope_all_or_nothing:
  assumes "list_all safe_step steps" and "y = run_steps steps empty_system" and "k < length (y_sessions y)"
    and "s = y_sessions y ! k" and "p_scope s" and "y' = run_step (SessionCall k EndScope) y"
  shows "y_db y' = y_db y \<or> (\<exists>r. root_of (y_db y') (s_sandbox s) = Some r \<and> (\<forall>segs. valid_names segs \<longrightarrow>
     map_option (norm_entry (\<lambda>_. 0)) (db_lookup (y_db y') r segs) = map_option (norm_entry (\<lambda>_. 0)) (view_get s (path_of segs))))"
proof -
  have inv: "sess_inv (at s (y_db y))" using reachable_session [OF assms(1)] assms(2,3,4) by (simp add: sess_ok_def)
  have db: "y_db y' = s_db (snd (endScriptScope (at s (y_db y))))" using assms(3,4,6) by (simp add: Let_def)
  have forget: "norm_entry (\<lambda>_. 0) x = norm_entry (\<lambda>_. 0) z" if "norm_entry \<rho> x = norm_entry id z" for \<rho> x z
    using that by (cases x; cases z) (simp add: norm_entry_def)
  have tree: ?thesis if tx: "y_db y' = t_db tx" and sync: "in_sync (s_sandbox s) e r \<rho> (v_cache s) tx" for tx e r \<rho>
  proof -
    have co: "cohere \<rho> (v_cache s) (db_lookup (y_db y') r)" and root: "root_of (y_db y') (s_sandbox s) = Some r" using sync tx by (simp_all add: in_sync_def)
    have "map_option (norm_entry (\<lambda>_. 0)) (db_lookup (y_db y') r segs) = map_option (norm_entry (\<lambda>_. 0)) (view_get s (path_of segs))" if "valid_names segs" for segs
      using cohere_at [OF co that] forget [of \<rho>] by (cases "db_lookup (y_db y') r segs"; cases "map_of (v_cache s) (path_of segs)") (auto simp: view_get_def)
    then show ?thesis using root by blast
  qed
  show ?thesis using end_scope_outcome [OF inv] assms(5) db tree by fastforce
qed

definition demo_scope :: system where
  "demo_scope = run_steps (demo_open @ [SessionCall 0 BeginScope, SessionCall 0 (Mkdir ''/home/d'' False), SessionCall 0 (WriteFile ''/home/d/x'' [1])]) empty_system"

definition demo_flushed :: system where
  "demo_flushed = run_step (SessionCall 0 EndScope) demo_scope"

theorem scope_all_or_nothing_witness:
  "y_db demo_flushed \<noteq> y_db demo_scope \<and> (\<exists>r. root_of (y_db demo_flushed) ''a'' = Some r \<and> (\<forall>segs. valid_names segs \<longrightarrow>
     map_option (norm_entry (\<lambda>_. 0)) (db_lookup (y_db demo_flushed) r segs)
       = map_option (norm_entry (\<lambda>_. 0)) (view_get (y_sessions demo_scope ! 0) (path_of segs))))"
proof -
  have safe: "list_all safe_step (demo_open @ [SessionCall 0 BeginScope, SessionCall 0 (Mkdir ''/home/d'' False), SessionCall 0 (WriteFile ''/home/d/x'' [1])])"
    by code_simp
  have s: "length (y_sessions demo_scope) = 2" "p_scope (y_sessions demo_scope ! 0) = True" "s_sandbox (y_sessions demo_scope ! 0) = ''a''" by code_simp+
  have "version_of (y_db demo_flushed) ''a'' = Some 2" "version_of (y_db demo_scope) ''a'' = Some 0" by code_simp+
  then have "y_db demo_flushed \<noteq> y_db demo_scope" by (metis option.inject zero_neq_numeral)
  then show ?thesis using scope_all_or_nothing [OF safe demo_scope_def _ refl _ demo_flushed_def] s by simp
qed

text \<open>
  C13. Inside a scope nothing becomes visible to others: whatever calls a script makes, short of ending or
  aborting the scope, the scope stays open and no table except the
  content-addressed blob store changes.
\<close>

theorem scope_buffers_writes:
  assumes "p_scope s" and "list_all (\<lambda>c. \<not> ends_scope c) cs"
  shows "p_scope (run_calls cs s) \<and> (s_db (run_calls cs s))\<lparr>blobs := blobs (s_db s)\<rparr> = s_db s"
proof -
  have "quiet s (run_calls cs s)" using assms(2) by (induction cs arbitrary: s) (auto intro: quiet.refl quiet.trans [OF quiet_call])
  then show ?thesis using assms(1) by (simp add: quiet_def)
qed

theorem scope_buffers_writes_witness:
  "p_scope (run_calls [WriteFile ''/home/d/y'' [2], Rm ''/home'' True False] (y_sessions demo_scope ! 0))
   \<and> (s_db (run_calls [WriteFile ''/home/d/y'' [2], Rm ''/home'' True False] (y_sessions demo_scope ! 0)))
        \<lparr>blobs := blobs (s_db (y_sessions demo_scope ! 0))\<rparr> = s_db (y_sessions demo_scope ! 0)"
proof (rule scope_buffers_writes)
  show "p_scope (y_sessions demo_scope ! 0)" by code_simp
qed simp

section \<open>Reads\<close>

lemma childPaths_path_of:
  assumes keys: "normal_keys (v_cache s)" and q: "valid_names q" and p: "p \<in> set (childPaths s (path_of q))"
  obtains n where "valid_name n" and "p = path_of (q @ [n])" and "map_of (v_cache s) p \<noteq> None"
proof -
  have p': "p \<noteq> path_of q" "prefix (dir_prefix (path_of q)) p" "slash \<notin> set (drop (length (dir_prefix (path_of q))) p)" "p \<in> set (map fst (v_cache s))"
    using p by (auto simp: childPaths_def)
  obtain e where e: "map_of (v_cache s) p = Some e" using p'(4) in_keys_map_of by metis
  obtain segs where segs: "valid_names segs" "p = path_of segs" using keys e normal_pathE unfolding normal_keys_def by metis
  have "strict_prefix q segs" using starts_with_iff [OF q segs(1)] p' segs(2) by blast
  then obtain n ns where ns: "segs = q @ n # ns" by (auto elim: strict_prefixE')
  have "p = dir_prefix (path_of q) @ join_with slash (n # ns)" using dir_prefix_path_of_append [OF q, of "n # ns"] segs(2) ns by simp
  then have "slash \<notin> set (join_with slash (n # ns))" using p'(3) by simp
  then have "ns = []" by (cases ns) (simp_all add: join_with_Cons)
  then show ?thesis using that segs ns e by auto
qed

lemma childPaths_mem:
  assumes q: "valid_names q" and n: "valid_name n" and x: "map_of (v_cache s) (path_of (q @ [n])) = Some e"
  shows "path_of (q @ [n]) \<in> set (childPaths s (path_of q))"
proof -
  have ne: "path_of (q @ [n]) \<noteq> path_of q" using q n by simp
  have eq: "path_of (q @ [n]) = dir_prefix (path_of q) @ n" using dir_prefix_path_of_append [OF q, of "[n]"] by simp
  have "path_of (q @ [n]) \<in> set (map fst (v_cache s))" using x by (rule map_of_Some_in_keys)
  moreover have "prefix (dir_prefix (path_of q)) (path_of (q @ [n]))" "drop (length (dir_prefix (path_of q))) (path_of (q @ [n])) = n"
    unfolding eq by simp_all
  ultimately show ?thesis using ne valid_name_no_slash [OF n] by (simp add: childPaths_def)
qed

lemma readdir_names:
  assumes keys: "normal_keys (v_cache s)" "distinct (map fst (v_cache s))" and q: "valid_names q"
  shows "distinct (map nameOf (childPaths s (path_of q)))"
    and "set (map nameOf (childPaths s (path_of q))) = {n. valid_name n \<and> map_of (v_cache s) (path_of (q @ [n])) \<noteq> None}"
proof -
  have inj: "inj_on nameOf (set (childPaths s (path_of q)))"
  proof (rule inj_onI)
    fix a b assume ab: "a \<in> set (childPaths s (path_of q))" "b \<in> set (childPaths s (path_of q))" and eq: "nameOf a = nameOf b"
    obtain m where m: "valid_name m" "a = path_of (q @ [m])" by (rule childPaths_path_of [OF keys(1) q ab(1)])
    obtain n where n: "valid_name n" "b = path_of (q @ [n])" by (rule childPaths_path_of [OF keys(1) q ab(2)])
    show "a = b" using eq m n by simp
  qed
  have "distinct (childPaths s (path_of q))" using keys(2) by (simp add: childPaths_def)
  then show "distinct (map nameOf (childPaths s (path_of q)))" using inj by (simp add: distinct_map)
  show "set (map nameOf (childPaths s (path_of q))) = {n. valid_name n \<and> map_of (v_cache s) (path_of (q @ [n])) \<noteq> None}"
  proof (intro set_eqI iffI)
    fix n assume "n \<in> set (map nameOf (childPaths s (path_of q)))"
    then obtain p where p: "p \<in> set (childPaths s (path_of q))" "n = nameOf p" by auto
    obtain m where m: "valid_name m" "p = path_of (q @ [m])" "map_of (v_cache s) p \<noteq> None" by (rule childPaths_path_of [OF keys(1) q p(1)])
    then show "n \<in> {n. valid_name n \<and> map_of (v_cache s) (path_of (q @ [n])) \<noteq> None}" using p(2) by simp
  next
    fix n assume n: "n \<in> {n. valid_name n \<and> map_of (v_cache s) (path_of (q @ [n])) \<noteq> None}"
    then obtain e where "map_of (v_cache s) (path_of (q @ [n])) = Some e" by auto
    then have "path_of (q @ [n]) \<in> set (childPaths s (path_of q))" using n by (intro childPaths_mem [OF q]) simp_all
    then have "nameOf (path_of (q @ [n])) \<in> set (map nameOf (childPaths s (path_of q)))" by simp
    then show "n \<in> set (map nameOf (childPaths s (path_of q)))" using n by simp
  qed
qed

text \<open>
  C8. Listing a directory is exact: when a current session outside a scope lists a directory, it returns
  each name once, and a name is listed if and only if the tables have an entry of that name there; the
  listed path is a directory of the stored tree.
\<close>

theorem readdir_exact:
  assumes "list_all safe_step steps" and "y = run_steps steps empty_system" and "s \<in> set (y_sessions y)"
    and "\<not> p_scope s" and "version_of (y_db y) (s_sandbox s) = Some (v_epoch s)"
    and "root_of (y_db y) (s_sandbox s) = Some r" and "valid_names q" and "fs_readdir (path_of q) s = (Inr names, s')"
  shows "distinct names \<and> set names = {n. db_lookup (y_db y) r (q @ [n]) \<noteq> None}
    \<and> (\<exists>e. db_lookup (y_db y) r q = Some e \<and> pe_kind e = DIRECTORY)"
proof -
  have inv: "sess_inv (at s (y_db y))" using reachable_session [OF assms(1)] assms(2,3) by (simp add: sess_ok_def)
  then have wf: "wf_db (y_db y)" and keys: "normal_keys (v_cache s)" "distinct (map fst (v_cache s))"
    by (simp_all add: sess_inv_def sound_db_def ok_keys_normal)
  have co: "cohere id (v_cache s) (db_lookup (y_db y) r)"
    using inv assms(4,5,6) by (auto simp: sess_inv_def view_ok_def current_def snapshot_def)
  obtain e where e: "map_of (v_cache s) (path_of q) = Some e" "pe_kind e = DIRECTORY" and names: "names = map nameOf (childPaths s (path_of q))"
  proof -
    obtain p where p: "validatePath (path_of q) = Inr p" using assms(8)
      by (cases "validatePath (path_of q)") (auto simp: fs_readdir_def and_then_assertAlive split: sum.splits)
    have "p = path_of q" using validate_normal [OF assms(7) p] p by simp
    then show ?thesis using that p assms(8) by (auto simp: fs_readdir_def and_then_assertAlive view_get_def split: sum.splits if_splits option.splits)
  qed
  have "set names = {n. db_lookup (y_db y) r (q @ [n]) \<noteq> None}"
  proof -
    have "valid_name n \<and> map_of (v_cache s) (path_of (q @ [n])) \<noteq> None \<longleftrightarrow> db_lookup (y_db y) r (q @ [n]) \<noteq> None" for n
    proof (cases "valid_name n")
      case True
      then show ?thesis using cohere_None [OF co, of "q @ [n]"] assms(7) by simp
    next
      case False
      then have "walk (y_db y) r (q @ [n]) = None" using wf_walk_valid [OF wf, of r "q @ [n]"] by (cases "walk (y_db y) r (q @ [n])") auto
      then show ?thesis using False by (simp add: db_lookup_def)
    qed
    then show ?thesis using names readdir_names(2) [OF keys assms(7)] by simp
  qed
  moreover have "\<exists>x. db_lookup (y_db y) r q = Some x \<and> pe_kind x = DIRECTORY"
    using cohere_Some [OF co assms(7) e(1)] e(2) norm_entry_eqD(2) by metis
  ultimately show ?thesis using names readdir_names(1) [OF keys assms(7)] by blast
qed

theorem readdir_exact_witness:
  "distinct [''user'', ''x''] \<and> set [''user'', ''x''] = {n. db_lookup (y_db demo_system) 1 ([''home''] @ [n]) \<noteq> None}"
proof -
  have "fst (fs_readdir (path_of [''home'']) (demo_session 0)) = Inr [''user'', ''x'']" "valid_names [''home'']" by code_simp+
  then show ?thesis
    using readdir_exact [OF demo_facts(10) demo_system_def, of "demo_session 0" 1 "[''home'']" "[''user'', ''x'']" "snd (fs_readdir (path_of [''home'']) (demo_session 0))"]
      demo_facts by (simp add: prod_eq_iff)
qed

section \<open>Loading and the shape of the tables\<close>

text \<open>
  C15. Loading a sandbox ends and is exact: on well-formed tables the recursive query that loads all paths
  returns, with no path twice, exactly the entries the tables store, each under its normal path.
\<close>

theorem load_exact:
  assumes "wf_db (t_db tx)" and "root_of (t_db tx) (app_sandbox_id tx) = Some r"
  shows "\<exists>rows. loadAllPaths tx = Some rows \<and> distinct (map fst rows)
    \<and> (\<forall>segs. valid_names segs \<longrightarrow> map_of rows (path_of segs) = db_lookup (t_db tx) r segs)
    \<and> (\<forall>p \<in> fst ` set rows. \<exists>segs. valid_names segs \<and> p = path_of segs)"
  using loadAllPaths_ok [OF assms] by (auto simp: sees_def normal_path_iff)

lemma demo_wf: "wf_db (y_db demo_system)"
  using system_inv [OF demo_facts(10)] by (simp add: sys_inv_def sound_db_def demo_system_def)

theorem load_exact_witness:
  "\<exists>rows. loadAllPaths ((begin_tx (y_db demo_system) 0)\<lparr>app_sandbox_id := ''a''\<rparr>) = Some rows \<and> distinct (map fst rows)
    \<and> (\<forall>segs. valid_names segs \<longrightarrow> map_of rows (path_of segs) = db_lookup (y_db demo_system) 1 segs)"
  using load_exact [of "(begin_tx (y_db demo_system) 0)\<lparr>app_sandbox_id := ''a''\<rparr>" 1] demo_wf demo_facts(9) by (auto simp: begin_tx_def)

text \<open>
  C14. The tables stay well formed: whatever sandboxes are created and deleted, sessions opened and calls
  made (a symbolic link at \<open>/\<close> apart), every directory entry joins a directory and an inode of the same sandbox under a valid name, a
  directory is entered once and never by a cycle, every link count is the number of entries of the inode,
  roots are directories that no entry names, and identifiers are below the sequence.
\<close>

theorem tables_well_formed:
  assumes "list_all safe_step steps"
  shows "wf_db (y_db (run_steps steps empty_system))"
  using system_inv [OF assms] by (simp add: sys_inv_def sound_db_def)

theorem tables_well_formed_witness: "wf_db (y_db demo_system)"
  unfolding demo_system_def by (rule tables_well_formed) (rule demo_facts(10))

section \<open>Paths\<close>

text \<open>
  C17. Validated paths are normal forms: the path a validation returns validates to itself, splitting it into
  names and joining them gives it back, the names are valid, and its parent and its last name joined give
  it back unless it is the root.
\<close>

theorem validated_path_normal:
  assumes "validatePath p = Inr q"
  shows "validatePath q = Inr q \<and> path_of (path_parts q) = q \<and> valid_names (path_parts q)
    \<and> (q \<noteq> ''/'' \<longrightarrow> child_path (parentOf q) (nameOf q) = q)"
proof -
  have "normal_path q" by (rule validatePath_ok [OF assms])
  then obtain segs where segs: "valid_names segs" "q = path_of segs" by (rule normal_pathE)
  have "nul \<notin> set q" "\<not> prefix (DEV_NULL @ ''/'') q"
    using normalize_chars [of p] assms by (auto simp: validatePath_def Let_def split: if_splits)
  then have "validatePath q = Inr q" using normalizeFsPath_path_of [OF segs(1)] segs(2) by (simp add: validatePath_def)
  moreover have "child_path (parentOf q) (nameOf q) = q" if ne: "q \<noteq> ''/''"
  proof -
    obtain ps n where "segs = ps @ [n]" using segs ne by (cases segs rule: rev_cases) auto
    then show ?thesis using segs by (simp add: child_path_of)
  qed
  ultimately show ?thesis using segs by simp
qed

theorem validated_path_normal_witness:
  "validatePath ''/home/x'' = Inr ''/home/x'' \<and> child_path (parentOf ''/home/x'') (nameOf ''/home/x'') = ''/home/x''"
proof -
  have "validatePath ''home//./y/../x/'' = Inr ''/home/x''" by code_simp
  then show ?thesis using validated_path_normal [of "''home//./y/../x/''" "''/home/x''"] by simp
qed

section \<open>Two corners of symbolic links\<close>

definition root_link_system :: system where
  "root_link_system = run_steps (demo_open @ [SessionCall 0 (Symlink ''x'' ''/''), OpenSession demo_env ''a'' 2]) empty_system"

text \<open>
  A symbolic link made at the root path is not refused: it stores an entry with the empty name below
  the root, and a session opened afterwards sees the root itself as a symbolic link and cannot make a
  directory in it.
\<close>

lemma root_symlink_bricks_sandbox:
  "map_of (dirents (y_db root_link_system)) (1, []) \<noteq> None
   \<and> map_option pe_kind (view_get (y_sessions root_link_system ! 2) ''/'') = Some SYMLINK
   \<and> fst (fs_mkdir ''/d'' False (y_sessions root_link_system ! 2)) = Inl (ENOTDIR ''/'')"
  by code_simp

definition dotdot_system :: system where
  "dotdot_system = run_steps (demo_open @ [SessionCall 0 (Symlink ''/tmp'' ''/home/l''), SessionCall 0 (Symlink ''l/../home'' ''/home/m''),
     SessionCall 0 (Mkdir ''/home/home'' False)]) empty_system"

text \<open>
  The cache and the SQL function resolve parent segments of link targets differently: a script that
  reads the status of the same link outside and inside a scope is given two different inodes, because the
  cache drops the segment before a parent segment without following it when it is itself a link.
\<close>

lemma resolvers_disagree_on_dotdot:
  "(let s = y_sessions dotdot_system ! 0; out = fst (fs_stat_op ''/home/m'' s); within = fst (fs_stat_op ''/home/m'' (run_call BeginScope s))
    in map_sum id st_identity out = Inr (Some 2) \<and> map_sum id st_identity within = Inr (map_option pe_inode (view_get s ''/home/home'')) \<and> out \<noteq> within)"
  by code_simp

end
