(* ===== verification/Refinement.thy ===== *)
theory Refinement
  imports Guarantees
begin

text \<open>
  The SQL statements behind the writes refine operations on the tree they store: a tree is a partial
  function from lists of names to entries, and writing, removing and moving are the updates
  \<open>tree_set\<close>, \<open>tree_del\<close> and \<open>tree_move\<close> of it. The composite CTE statements and the statement-by-statement
  forms have the same effect.
\<close>

section \<open>A transaction ready to write\<close>

definition demo_tx :: pgtx where
  "demo_tx = snd (setSandboxContextWithLock ''a'' (begin_tx (y_db demo_system) 5))"

definition demo_replay :: replay_context where
  "demo_replay = replay_of 1 []"

lemma demo_tx_facts:
  "ready ''a'' 1 demo_tx" "wf_db (t_db demo_tx)" "root_of (t_db demo_tx) ''a'' = Some 1" "t_db demo_tx = y_db demo_system"
  "r_resolve demo_replay i = Inr i \<longleftrightarrow> 0 \<le> i" "r_expected demo_replay = 1"
proof -
  have "fst (setSandboxContextWithLock ''a'' (begin_tx (y_db demo_system) 5)) = Inr ()" by code_simp
  then have run: "setSandboxContextWithLock ''a'' (begin_tx (y_db demo_system) 5) = (Inr (), demo_tx)" by (simp add: demo_tx_def prod_eq_iff)
  show d: "t_db demo_tx = y_db demo_system" and "ready ''a'' 1 demo_tx" using context_ready [OF run] demo_facts(4) by simp_all
  show "root_of (t_db demo_tx) ''a'' = Some 1" using d demo_facts(9) by simp
  show "wf_db (t_db demo_tx)" using system_inv [OF demo_facts(10)] d by (simp add: sys_inv_def sound_db_def demo_system_def)
  show "r_resolve demo_replay i = Inr i \<longleftrightarrow> 0 \<le> i" "r_expected demo_replay = 1"
    by (simp_all add: demo_replay_def replay_of_def realId_def)
qed

lemma demo_dirs:
  "dir_of ''a'' 1 (t_db demo_tx)" "dir_of ''a'' 2 (t_db demo_tx)" "walk (t_db demo_tx) 1 [] = Some 1" "walk (t_db demo_tx) 1 [''home''] = Some 2"
  "child (t_db demo_tx) 2 ''x'' = Some 6" "child (t_db demo_tx) 2 ''d'' = None" "child (t_db demo_tx) 6 m = None" "valid_name ''x''" "valid_name ''d''"
proof -
  have "map_option (\<lambda>x. (i_kind x, i_sandbox x)) (node (y_db demo_system) 1) = Some (DIRECTORY, ''a'')"
    "map_option (\<lambda>x. (i_kind x, i_sandbox x)) (node (y_db demo_system) 2) = Some (DIRECTORY, ''a'')"
    "map_option i_kind (node (y_db demo_system) 6) = Some FILE" by code_simp+
  then show "dir_of ''a'' 1 (t_db demo_tx)" "dir_of ''a'' 2 (t_db demo_tx)" "child (t_db demo_tx) 6 m = None"
    using wf_nondir_no_child [OF demo_tx_facts(2), of 6 m] by (auto simp: dir_of_def demo_tx_facts(4))
  have "walk (y_db demo_system) 1 [] = Some 1" "walk (y_db demo_system) 1 [''home''] = Some 2"
    "child (y_db demo_system) 2 ''x'' = Some 6" "child (y_db demo_system) 2 ''d'' = None" by code_simp+
  then show "walk (t_db demo_tx) 1 [] = Some 1" "walk (t_db demo_tx) 1 [''home''] = Some 2"
    "child (t_db demo_tx) 2 ''x'' = Some 6" "child (t_db demo_tx) 2 ''d'' = None" by (simp_all add: demo_tx_facts(4))
  show "valid_name ''x''" "valid_name ''d''" by code_simp+
qed

section \<open>Composite statements\<close>

definition same_effect :: "'a pg \<Rightarrow> 'a pg \<Rightarrow> pgtx \<Rightarrow> bool" where
  "same_effect a b tx \<longleftrightarrow> fst (a tx) = fst (b tx) \<and> t_db (snd (a tx)) = t_db (snd (b tx))"

lemma put_statements_ready:
  assumes "ready sid e tx" and "wf_db (t_db tx)" and "dir_of sid p (t_db tx)" and "r_resolve rp parent = Inr p" and "r_expected rp = e"
  shows "o_run (putFileOp sid False kind parent n mode sz sha) rp tx =
    (Inr [inode_seq (t_db tx)], on_db (replace_node sid p n (row_of_opts (file_opts sid mode sz sha) (t_now tx))) (bumped sid tx))"
  using replace_run [OF assms(1-3), of "file_opts sid mode sz sha" n] by (simp add: putFileOp_def file_opts_def assms(4,5))

lemma put_composite_ready:
  assumes "ready sid e tx" and "wf_db (t_db tx)" and "dir_of sid p (t_db tx)" and "r_resolve rp parent = Inr p" and "r_expected rp = e"
  shows "o_run (putFileOp sid True kind parent n mode sz sha) rp tx =
    (Inr [inode_seq (t_db tx)], on_db (replace_node sid p n (row_of_opts (file_opts sid mode sz sha) (t_now tx))) (bumped sid (lockd sid tx)))"
  using writeFileComposite_ready [OF assms(1-3), of n mode sz sha] assms(4,5)
  by (simp add: putFileOp_def file_opts_def row_of_opts_def and_then_def)

lemma rm_composite_ready:
  assumes "ready sid e tx" and "wf_db (t_db tx)" and "dir_of sid p (t_db tx)" and "r_resolve rp parent = Inr p" and "r_expected rp = e"
    and "child (t_db tx) p n = Some i"
  shows "o_run (rm_spec sid True parent n) rp tx = (Inr [], on_db (remove_entry p n) (bumped sid (lockd sid tx)))"
  using rmComposite_ready [OF assms(1-3,6)] assms(4,5) by (simp add: rm_spec_def and_then_def)

lemma rm_plain_ready:
  assumes "ready sid e tx" and "wf_db (t_db tx)" and "dir_of sid p (t_db tx)" and "r_resolve rp parent = Inr p" and "r_expected rp = e"
    and "child (t_db tx) p n = Some i"
  shows "o_run (rm_spec sid False parent n) rp tx = (Inr [], on_db (remove_entry p n) (bumped sid tx))"
  using rm_statements_ready [OF assms(1-3,6), of "\<lambda>_ _. return_ok []"] by (simp add: rm_spec_def assms(4,5))

section \<open>The tree the statements change\<close>

text \<open>C10. Writing a file refines setting a leaf of the tree: either form of the statement succeeds, returns the
  identifier of a fresh inode, keeps the tables well formed, and changes the stored tree exactly at the written
  path, where it now has a file of the given mode, size and hash; nothing else of the tree changes.\<close>

theorem put_refines_tree:
  assumes "ready sid e tx" and "wf_db (t_db tx)" and "root_of (t_db tx) sid = Some r" and "walk (t_db tx) r ps = Some p"
    and "dir_of sid p (t_db tx)" and "valid_name n" and "r_resolve rp parent = Inr p" and "r_expected rp = e"
    and "\<forall>i m. child (t_db tx) p n = Some i \<longrightarrow> child (t_db tx) i m = None"
  shows "\<exists>tx' i. o_run (putFileOp sid composites kind parent n mode sz sha) rp tx = (Inr [i], tx')
    \<and> wf_db (t_db tx') \<and> node (t_db tx) i = None
    \<and> db_lookup (t_db tx') r = tree_set (ps @ [n]) (file_entry i mode sz (t_now tx) sha) (db_lookup (t_db tx) r)"
proof -
  let ?row = "row_of_opts (file_opts sid mode sz sha) (t_now tx)"
  let ?d = "replace_node sid p n ?row (bump sid (t_db tx))"
  have wf: "wf_db ?d" by (rule wf_replace_node(1)) (use assms in \<open>auto simp: file_opts_def\<close>)
  have look: "db_lookup ?d r = tree_set (ps @ [n]) (entry_of_row (inode_seq (t_db tx)) ?row) (db_lookup (t_db tx) r)"
    using lookup_replace_node [of "bump sid (t_db tx)" sid r ps p n ?row] assms by (simp add: file_opts_def)
  have entry: "entry_of_row i ?row = file_entry i mode sz (t_now tx) sha" for i
    by (simp add: entry_of_row_def row_of_opts_def file_opts_def file_entry_def new_inode_row_def)
  have "\<exists>tx'. o_run (putFileOp sid composites kind parent n mode sz sha) rp tx = (Inr [inode_seq (t_db tx)], tx') \<and> t_db tx' = ?d"
    using put_composite_ready [OF assms(1,2,5,7,8)] put_statements_ready [OF assms(1,2,5,7,8)] by (cases composites) simp_all
  then show ?thesis using wf look entry wf_fresh [OF assms(2)] by metis
qed

theorem put_refines_tree_witness:
  "\<exists>tx' i. o_run (putFileOp ''a'' True ''writeFile'' 2 ''x'' 420 3 [1]) demo_replay demo_tx = (Inr [i], tx')
    \<and> wf_db (t_db tx') \<and> node (t_db demo_tx) i = None
    \<and> db_lookup (t_db tx') 1 = tree_set ([''home''] @ [''x'']) (file_entry i 420 3 (t_now demo_tx) [1]) (db_lookup (t_db demo_tx) 1)"
  by (rule put_refines_tree [OF demo_tx_facts(1,2,3) demo_dirs(4,2)]) (simp_all add: demo_tx_facts(5,6) demo_dirs)

text \<open>C11. Removing an entry without children refines cutting it out of the tree: either form of the statement
  succeeds, keeps the tables well formed, and the stored tree loses exactly the removed path.\<close>

theorem rm_refines_tree:
  assumes "ready sid e tx" and "wf_db (t_db tx)" and "root_of (t_db tx) sid = Some r" and "walk (t_db tx) r ps = Some p"
    and "dir_of sid p (t_db tx)" and "r_resolve rp parent = Inr p" and "r_expected rp = e"
    and "child (t_db tx) p n = Some i" and "\<forall>m. child (t_db tx) i m = None"
  shows "\<exists>tx'. o_run (rm_spec sid composites parent n) rp tx = (Inr [], tx')
    \<and> wf_db (t_db tx') \<and> db_lookup (t_db tx') r = tree_del (ps @ [n]) (db_lookup (t_db tx) r)"
proof -
  let ?d = "remove_entry p n (bump sid (t_db tx))"
  have "wf_db ?d" by (rule wf_remove_entry(1)) (use assms in auto)
  moreover have "db_lookup ?d r = tree_del (ps @ [n]) (db_lookup (t_db tx) r)"
    using lookup_remove_entry [of "bump sid (t_db tx)" sid r ps p n i] assms by simp
  moreover have "\<exists>tx'. o_run (rm_spec sid composites parent n) rp tx = (Inr [], tx') \<and> t_db tx' = ?d"
    using rm_composite_ready [OF assms(1,2,5,6,7,8)] rm_plain_ready [OF assms(1,2,5,6,7,8)] by (cases composites) simp_all
  ultimately show ?thesis by metis
qed

theorem rm_refines_tree_witness:
  "\<exists>tx'. o_run (rm_spec ''a'' False 2 ''x'') demo_replay demo_tx = (Inr [], tx')
    \<and> wf_db (t_db tx') \<and> db_lookup (t_db tx') 1 = tree_del ([''home''] @ [''x'']) (db_lookup (t_db demo_tx) 1)"
  by (rule rm_refines_tree [OF demo_tx_facts(1,2,3) demo_dirs(4,2) _ _ demo_dirs(5)]) (simp_all add: demo_tx_facts(5,6) demo_dirs)

lemma bump_move: "move_entry k k' x (bump sid d) = bump sid (move_entry k k' x d)"
  by (simp add: move_entry_def bump_def put_dirent_def del_dirent_def split: option.split)

lemma mv_ready:
  assumes "ready sid e tx" and "movable sid r (t_db tx) ss sp sn i ds dp dn"
    and "r_resolve rp sparent = Inr sp" and "r_resolve rp dparent = Inr dp" and "r_expected rp = e"
    and "old = child (t_db tx) dp dn" and "\<forall>j. old = Some j \<longrightarrow> r_resolve rp j = Inr j"
    and x: "map_of (dirents (t_db tx)) (sp, sn) = Some x"
  defines "d \<equiv> move_entry (sp, sn) (dp, dn) x (remove_entry dp dn (bump sid (t_db tx)))"
  shows "\<exists>tx'. o_run (mv_spec sid True sparent sn dparent dn old) rp tx = (Inr [], tx') \<and> t_db tx' = bump sid d"
    and "\<exists>tx'. o_run (mv_spec sid False sparent sn dparent dn old) rp tx = (Inr [], tx') \<and> t_db tx' = d"
proof -
  show "\<exists>tx'. o_run (mv_spec sid True sparent sn dparent dn old) rp tx = (Inr [], tx') \<and> t_db tx' = bump sid d"
    using mvComposite_ready [OF assms(2,1) x] assms(3-5) by (auto simp: mv_spec_def and_then_def d_def bump_move)
  have step: "(case old of None \<Rightarrow> return_ok () | Some i \<Rightarrow> and_then (of_sum (r_resolve rp i)) (\<lambda>i'. and_then (decrementNlink i') (\<lambda>n. if n = 0 then deleteInode i' else return_ok ())))
      = (case child (t_db tx) dp dn of None \<Rightarrow> return_ok () | Some j \<Rightarrow> unlink_inode j)"
    using assms(6,7) by (auto simp: unlink_inode_def split: option.split)
  show "\<exists>tx'. o_run (mv_spec sid False sparent sn dparent dn old) rp tx = (Inr [], tx') \<and> t_db tx' = d"
    using move_then_unlink [OF assms(2,1) x, of "\<lambda>_. return_ok []"] assms(3-5) by (auto simp: mv_spec_def step [simplified] d_def)
qed

text \<open>C9. Moving refines moving a subtree: when the source exists, the destination's parent is a directory, neither
  path is below the other and whatever is at the destination has no children, the composite move and the
  statement-by-statement move both succeed, keep the tables well formed, and the whole subtree of the source is
  found under the destination, whose former entry is gone.\<close>

theorem mv_refines_tree:
  assumes "ready sid e tx" and "movable sid r (t_db tx) ss sp sn i ds dp dn"
    and "r_resolve rp sparent = Inr sp" and "r_resolve rp dparent = Inr dp" and "r_expected rp = e"
    and "old = child (t_db tx) dp dn" and "\<forall>j. old = Some j \<longrightarrow> r_resolve rp j = Inr j"
  shows "\<exists>tx'. o_run (mv_spec sid composites sparent sn dparent dn old) rp tx = (Inr [], tx') \<and> wf_db (t_db tx')
    \<and> db_lookup (t_db tx') r = tree_move (ss @ [sn]) (ds @ [dn]) (tree_del (ds @ [dn]) (db_lookup (t_db tx) r))"
proof -
  obtain x where x: "map_of (dirents (t_db tx)) (sp, sn) = Some x" using movable_entry [OF assms(2,1)] by blast
  let ?d = "\<lambda>d1. move_entry (sp, sn) (dp, dn) x d1"
  have mv: "movable sid r (bump sid (t_db tx)) ss sp sn i ds dp dn" using assms(2) by simp
  have res: "wf_db (?d d1)" "db_lookup (?d d1) r = tree_move (ss @ [sn]) (ds @ [dn]) (tree_del (ds @ [dn]) (db_lookup (t_db tx) r))"
    if "d1 = remove_entry dp dn (bump sid (t_db tx)) \<or> d1 = bump sid (remove_entry dp dn (bump sid (t_db tx)))" for d1
    using move_result [OF mv _ that, of x] x by simp_all
  have "\<exists>tx' d1. o_run (mv_spec sid composites sparent sn dparent dn old) rp tx = (Inr [], tx') \<and> t_db tx' = ?d d1
    \<and> (d1 = remove_entry dp dn (bump sid (t_db tx)) \<or> d1 = bump sid (remove_entry dp dn (bump sid (t_db tx))))"
    using mv_ready [OF assms x] by (cases composites) (auto simp: bump_move [symmetric])
  then show ?thesis using res by metis
qed

lemma demo_movable: "movable ''a'' 1 (t_db demo_tx) [''home''] 2 ''x'' 6 [] 1 ''d''" "child (t_db demo_tx) 1 ''d'' = None"
proof -
  have none: "child (y_db demo_system) 1 ''d'' = None" by code_simp
  then show "movable ''a'' 1 (t_db demo_tx) [''home''] 2 ''x'' 6 [] 1 ''d''" "child (t_db demo_tx) 1 ''d'' = None"
    using demo_tx_facts demo_dirs by (simp_all add: movable_def)
qed

theorem mv_refines_tree_witness:
  "\<exists>tx'. o_run (mv_spec ''a'' True 2 ''x'' 1 ''d'' None) demo_replay demo_tx = (Inr [], tx') \<and> wf_db (t_db tx')
    \<and> db_lookup (t_db tx') 1 = tree_move ([''home''] @ [''x'']) ([] @ [''d'']) (tree_del ([] @ [''d'']) (db_lookup (t_db demo_tx) 1))"
  by (rule mv_refines_tree [OF _ demo_movable(1)]) (simp_all add: demo_tx_facts(1,5,6) demo_movable(2))

section \<open>Composite statements and statement sequences\<close>

text \<open>C12. The composite CTEs and the statement sequences they replace agree: in a transaction that holds the
  sandbox's context at the expected epoch, on well-formed tables and below a directory of the sandbox, writing a
  file either way returns the same inode and leaves the same tables; so does making a directory whose name is
  free, and so does removing an entry that is there. The two forms of a move that is possible also return the same and
  leave the same tables, except that the composite one advances the version of the sandbox once more.\<close>

theorem composites_agree:
  assumes "ready sid e tx" and "wf_db (t_db tx)" and "dir_of sid p (t_db tx)" and "r_resolve rp parent = Inr p" and "r_expected rp = e"
  shows "same_effect (o_run (putFileOp sid True kind parent n mode sz sha) rp) (o_run (putFileOp sid False kind parent n mode sz sha) rp) tx
    \<and> (child (t_db tx) p n = None \<longrightarrow>
         same_effect (o_run (mkdir_spec sid True parent n mode) rp) (o_run (mkdir_spec sid False parent n mode) rp) tx)
    \<and> (child (t_db tx) p n = Some i \<longrightarrow>
         same_effect (o_run (rm_spec sid True parent n) rp) (o_run (rm_spec sid False parent n) rp) tx)
    \<and> (movable sid r (t_db tx) ss p n i ds dp dn \<and> r_resolve rp dparent = Inr dp
         \<and> (\<forall>j. child (t_db tx) dp dn = Some j \<longrightarrow> r_resolve rp j = Inr j) \<longrightarrow>
       (\<exists>tx1 tx2. o_run (mv_spec sid True parent n dparent dn (child (t_db tx) dp dn)) rp tx = (Inr [], tx1)
         \<and> o_run (mv_spec sid False parent n dparent dn (child (t_db tx) dp dn)) rp tx = (Inr [], tx2)
         \<and> t_db tx1 = bump sid (t_db tx2)))"
proof (intro conjI impI)
  show "same_effect (o_run (putFileOp sid True kind parent n mode sz sha) rp) (o_run (putFileOp sid False kind parent n mode sz sha) rp) tx"
    by (simp add: same_effect_def put_composite_ready [OF assms] put_statements_ready [OF assms])
  show "same_effect (o_run (mkdir_spec sid True parent n mode) rp) (o_run (mkdir_spec sid False parent n mode) rp) tx"
    if "child (t_db tx) p n = None"
    using mkdirComposite_ready [OF assms(1,2,3) that, of mode] create_dir_run_ready [OF assms(1,3) that assms(4,5), of mode] assms(4,5)
    by (simp add: same_effect_def mkdir_spec_def and_then_def)
  show "same_effect (o_run (rm_spec sid True parent n) rp) (o_run (rm_spec sid False parent n) rp) tx"
    if ch: "child (t_db tx) p n = Some i"
    by (simp add: same_effect_def rm_composite_ready [OF assms ch] rm_plain_ready [OF assms ch])
  assume mv: "movable sid r (t_db tx) ss p n i ds dp dn \<and> r_resolve rp dparent = Inr dp
    \<and> (\<forall>j. child (t_db tx) dp dn = Some j \<longrightarrow> r_resolve rp j = Inr j)"
  obtain x where x: "map_of (dirents (t_db tx)) (p, n) = Some x" using movable_entry mv assms(1) by blast
  show "\<exists>tx1 tx2. o_run (mv_spec sid True parent n dparent dn (child (t_db tx) dp dn)) rp tx = (Inr [], tx1)
      \<and> o_run (mv_spec sid False parent n dparent dn (child (t_db tx) dp dn)) rp tx = (Inr [], tx2) \<and> t_db tx1 = bump sid (t_db tx2)"
    using mv_ready [OF assms(1) _ assms(4) _ assms(5) refl _ x, of r ss i ds dp dn dparent] mv by metis
qed

theorem composites_agree_witness:
  "same_effect (o_run (putFileOp ''a'' True ''writeFile'' 2 ''x'' 420 3 [1]) demo_replay)
       (o_run (putFileOp ''a'' False ''writeFile'' 2 ''x'' 420 3 [1]) demo_replay) demo_tx
   \<and> same_effect (o_run (rm_spec ''a'' True 2 ''x'') demo_replay) (o_run (rm_spec ''a'' False 2 ''x'') demo_replay) demo_tx
   \<and> same_effect (o_run (mkdir_spec ''a'' True 2 ''d'' 493) demo_replay) (o_run (mkdir_spec ''a'' False 2 ''d'' 493) demo_replay) demo_tx
   \<and> (\<exists>tx1 tx2. o_run (mv_spec ''a'' True 2 ''x'' 1 ''d'' None) demo_replay demo_tx = (Inr [], tx1)
        \<and> o_run (mv_spec ''a'' False 2 ''x'' 1 ''d'' None) demo_replay demo_tx = (Inr [], tx2) \<and> t_db tx1 = bump ''a'' (t_db tx2))"
  using composites_agree [OF demo_tx_facts(1,2) demo_dirs(2), of demo_replay 2 "''writeFile''" "''x''" 420 3 "[1]" 6 1 "[''home'']" "[]" 1 "''d''" 1]
    composites_agree [OF demo_tx_facts(1,2) demo_dirs(2), of demo_replay 2 "''writeFile''" "''d''" 493 3 "[1]" 6]
  by (simp add: demo_tx_facts(5,6) demo_dirs demo_movable)

end
