(* ===== verification/ReadBack.thy ===== *)
theory ReadBack
  imports Guarantees
begin

text \<open>
  Reading back what was written. Content goes to the blob store under its hash before the tree refers
  to it, and into the session's content cache under the new inode; a later read takes it from either.
\<close>

section \<open>The blob store during a write\<close>

interpretation store: state_preorder "\<lambda>tx tx' :: pgtx. blobs (t_db tx') = blobs (t_db tx)"
  by unfold_locales auto

lemma blobs_updates [simp]:
  "blobs (put_inode i r d) = blobs d" "blobs (put_dirent k e d) = blobs d" "blobs (del_dirent k d) = blobs d" "blobs (del_inode i d) = blobs d"
  by (simp_all add: put_inode_def put_dirent_def del_dirent_def del_inode_def)

lemma store_fences: "store.keeps (plain_fence sid e)" "store.keeps (composite_fence sid e gone)" "store.keeps (takeWriterLock sid)"
  by (rule store.keepsI; auto simp: plain_fence_def composite_fence_def fenceCtes_def Let_def split: option.splits if_splits prod.splits bool.splits)+

lemma blobs_drop_link [simp]: "blobs (t_db (drop_link i tx)) = blobs (t_db tx)"
  by (simp add: drop_link_def split: option.split)

lemma store_statements:
  "store.keeps (insert_inode r)" "store.keeps (insert_dirent_row k e)" "store.keeps (upsert_dirent_row k e)"
  "store.keeps (decrementNlink i)" "store.keeps (deleteInode i)" "store.keeps (upsertDirent p n i)"
proof -
  show ins: "store.keeps (insert_inode r)" and dir: "store.keeps (insert_dirent_row k e)" for k e
    by (rule store.keepsI; auto simp: insert_inode_def insert_dirent_row_def Let_def split: if_splits)+
  show ups: "store.keeps (upsert_dirent_row k e)" for k e
    by (rule store.keepsI) (auto simp: upsert_dirent_row_def split: option.splits if_splits dest: store.keepsD [OF dir])
  show "store.keeps (decrementNlink i)" "store.keeps (deleteInode i)"
    by (rule store.keepsI; auto simp: decrementNlink_def deleteInode_def split: option.splits)+
  have "store.keeps (and_then (upsert_dirent_row k e) (\<lambda>_. return_ok old))" for k e and old :: "int option"
    by (intro store.keeps_and_then ups store.keeps_pure)
  from store.keeps_app [OF this] show "store.keeps (upsertDirent p n i)"
    unfolding upsertDirent_def by (intro store.keeps_fun) (simp add: Let_def split: option.split)
qed

lemma store_insert_now: "store.keeps (\<lambda>tx. insert_inode (f tx) tx)"
  by (rule store.keeps_fun) (rule store.keeps_app [OF store_statements(1)])

lemma store_putFileOp: "store.keeps (o_run (putFileOp sid composites kind parent name mode sz sha) rp)"
proof (cases composites)
  case True
  have body: "store.keeps (\<lambda>tx0.
     and_then (\<lambda>tx. insert_inode (f tx) tx) (\<lambda>i.
     and_then (upsert_dirent_row k (g i)) (\<lambda>_.
     and_then (modify (case h tx0 of None \<Rightarrow> id | Some d \<Rightarrow> drop_link (d_inode d))) (\<lambda>_.
     return_ok i))) tx0)" for f k g h
  proof (rule store.keeps_fun)
    fix tx0
    have "store.keeps (modify (case h tx0 of None \<Rightarrow> id | Some d \<Rightarrow> drop_link (d_inode d)))"
      by (rule store.keeps_modify) (simp split: option.split)
    then show "blobs (t_db (snd (and_then (\<lambda>tx. insert_inode (f tx) tx) (\<lambda>i.
       and_then (upsert_dirent_row k (g i)) (\<lambda>_.
       and_then (modify (case h tx0 of None \<Rightarrow> id | Some d \<Rightarrow> drop_link (d_inode d))) (\<lambda>_.
       return_ok i))) tx0))) = blobs (t_db tx0)"
      by (intro store.keeps_and_then_app store.keeps_and_then store_insert_now store_statements store.keeps_pure)
  qed
  have "store.keeps (writeFileComposite sid p name mode sz sha e)" for p e
    unfolding writeFileComposite_def Let_def by (intro store.keeps_and_then store_fences body)
  then show ?thesis using True by (simp add: putFileOp_def) (intro store.keeps_intros)
next
  case False
  have "store.keeps (createInode opts e)" for opts e
    unfolding createInode_def by (intro store.keeps_and_then store_fences store_insert_now)
  then show ?thesis
    using False unfolding putFileOp_def unlink_replaced_def by (auto intro!: store.keeps_intros store_statements)
qed

section \<open>A mutation that succeeds\<close>

definition steady :: "session \<Rightarrow> session \<Rightarrow> bool" where
  "steady s s' \<longleftrightarrow> s_env s' = s_env s \<and> f_exec s' = f_exec s \<and> p_lost s' = p_lost s \<and> p_scope s' = p_scope s
     \<and> v_cache s' = v_cache s \<and> c_cache s' = c_cache s \<and> blobs (s_db s') = blobs (s_db s)"

lemma transaction_steady:
  assumes "store.keeps f" and "transaction f s = (Inr x, s')" shows "steady s s'"
  using assms store.keepsD [OF assms(1), of "begin_tx (s_db s) (s_now s)"]
  by (auto simp: transaction_def run_transaction_def steady_def begin_tx_def split: prod.splits sum.splits)

lemma store_contexts: "store.keeps (setSandboxContextWithLock sid)" "store.keeps (getSandboxEpoch sid)" "store.keeps (assertDurableWriteEpoch s)"
proof -
  show "store.keeps (setSandboxContextWithLock sid)" by (rule store.keepsI) (auto simp: setSandboxContextWithLock_def and_then_def split: option.splits)
  show ep: "store.keeps (getSandboxEpoch sid)" for sid by (rule store.keepsI) (auto simp: getSandboxEpoch_def split: option.splits)
  show "store.keeps (assertDurableWriteEpoch s)" unfolding assertDurableWriteEpoch_def by (intro store.keeps_intros ep)
qed

lemma bare_steady: "store.keeps f \<Longrightarrow> withBareTx f s = (Inr x, s') \<Longrightarrow> steady s s'"
  unfolding withBareTx_def by (erule transaction_steady [rotated]) (intro store.keeps_intros store_contexts, assumption)

lemma write_steady: "store.keeps f \<Longrightarrow> withWriteTx f s = (Inr x, s') \<Longrightarrow> steady s s'"
  unfolding withWriteTx_def by (erule transaction_steady [rotated]) (intro store.keeps_intros store_contexts, assumption)

lemma mutate_steady:
  assumes "\<And>rp. store.keeps (o_run op rp)" and run: "mutate op s = (Inr x, s')"
  shows "steady s s'" and "p_scope s \<Longrightarrow> p_lost s = None"
proof -
  have "steady s s' \<and> (p_scope s \<longrightarrow> p_lost s = None)"
  proof (cases "p_scope s")
    case True
    obtain minted b where mint: "mint_ids (o_mints op) (p_next_id s) = (minted, b)" by force
    have alive: "alive_verdict s = Inr ()" using run mutate_scope [OF True mint] by (cases "alive_verdict s") auto
    then have rec: "recordMutation (recorded_as op minted) (s\<lparr>p_next_id := b\<rparr>) = (Inr (), s')"
      using run mutate_scope [OF True mint] by (auto simp: and_then_Inr_iff)
    have "p_lost s = None" using alive True by (simp add: alive_verdict_def split: option.splits)
    then show ?thesis using recordMutation_Inr [OF rec] by (auto simp: steady_def)
  next
    case False
    define rp where "rp = replay_of (expectedEpoch s) (p_remap s)"
    have "store.keeps (o_run op rp)" by (rule assms(1))
    then have "steady s s'"
      using run False unfolding mutate_def Let_def rp_def [symmetric]
      by (cases "o_composite op") (auto simp: split_beta split: prod.splits sum.splits dest: bare_steady write_steady)
    then show ?thesis using False by simp
  qed
  then show "steady s s'" and "p_scope s \<Longrightarrow> p_lost s = None" by blast+
qed

section \<open>Reading\<close>

text \<open>The limits of an exec context on a read of \<open>n\<close> bytes: the largest file, and what is left of the input budget.\<close>

definition file_room :: "int \<Rightarrow> session \<Rightarrow> bool" where
  "file_room n s \<longleftrightarrow> (case f_exec s of None \<Rightarrow> True | Some c \<Rightarrow> (case x_max_file c of None \<Rightarrow> True | Some limit \<Rightarrow> n \<le> limit))"

definition input_room :: "int \<Rightarrow> session \<Rightarrow> bool" where
  "input_room n s \<longleftrightarrow>
     (case f_exec s of
        None \<Rightarrow> True
      | Some c \<Rightarrow> (case x_input_limit c of None \<Rightarrow> True | Some limit \<Rightarrow> x_exceeded c = None \<and> n \<le> limit - x_input_bytes c))"

lemma exec_room:
  "file_room n s \<Longrightarrow> assertExecFileSize p n rd s = (Inr (), s)"
  "input_room n s \<Longrightarrow> \<exists>x. consumeExecInput n p s = (Inr (), s\<lparr>f_exec := x\<rparr>)"
proof -
  show "file_room n s \<Longrightarrow> assertExecFileSize p n rd s = (Inr (), s)"
    by (auto simp: file_room_def assertExecFileSize_def split: option.splits)
  assume room: "input_room n s"
  have same: "consumeExecInput n p s = (Inr (), s) \<Longrightarrow> consumeExecInput n p s = (Inr (), s\<lparr>f_exec := f_exec s\<rparr>)" by simp
  show "\<exists>x. consumeExecInput n p s = (Inr (), s\<lparr>f_exec := x\<rparr>)"
  proof (cases "f_exec s")
    case None
    then show ?thesis by (intro exI [of _ "f_exec s"] same) (simp add: consumeExecInput_def)
  next
    case (Some c)
    show ?thesis
    proof (cases "x_input_limit c")
      case None
      then show ?thesis using Some by (intro exI [of _ "f_exec s"] same) (simp add: consumeExecInput_def)
    next
      case (Some limit)
      then have "consumeExecInput n p s = (Inr (), s\<lparr>f_exec := Some (c\<lparr>x_input_bytes := x_input_bytes c + n\<rparr>)\<rparr>)"
        using room \<open>f_exec s = Some c\<close> by (simp add: consumeExecInput_def input_room_def)
      then show ?thesis by blast
    qed
  qed
qed

text \<open>What the read of a path needs to find.\<close>

definition readable :: "string \<Rightarrow> bytes \<Rightarrow> session \<Rightarrow> bool" where
  "readable p b s \<longleftrightarrow> file_room (int (length b)) s \<and> input_room (int (length b)) s \<and> alive_verdict s = Inr ()
     \<and> (\<exists>e sha. view_get s p = Some e \<and> pe_kind e = FILE \<and> pe_sha e = Some sha \<and> pe_size e = int (length b)
          \<and> (map_of (c_cache s) (pe_inode e) = Some b
             \<or> map_of (c_cache s) (pe_inode e) = None
               \<and> (case e_redis (s_env s) sha of Some x \<Rightarrow> x = b
                   | None \<Rightarrow> \<exists>r. map_of (blobs (s_db s)) sha = Some r \<and> b_data r = b)))"

lemma read_readable:
  assumes v: "validatePath path = Inr p" "p \<noteq> DEV_NULL" and r: "readable p b s"
  shows "fst (readFileBuffer path s) = Inr b"
proof -
  have room: "file_room (int (length b)) s" "input_room (int (length b)) s" and alive: "alive_verdict s = Inr ()" using r by (simp_all add: readable_def)
  obtain e sha where e: "view_get s p = Some e" "pe_kind e = FILE" "pe_sha e = Some sha" "pe_size e = int (length b)"
    and c: "map_of (c_cache s) (pe_inode e) = Some b
       \<or> map_of (c_cache s) (pe_inode e) = None \<and> (case e_redis (s_env s) sha of Some x \<Rightarrow> x = b
            | None \<Rightarrow> \<exists>r. map_of (blobs (s_db s)) sha = Some r \<and> b_data r = b)"
    using r by (auto simp: readable_def)
  have res: "resolveReadEntry p s = (Inr (Some e), s)" using e by (simp add: resolveReadEntry_def Let_def)
  obtain x where size: "assertExecFileSize p (int (length b)) True s = (Inr (), s)" "consumeExecInput (int (length b)) p s = (Inr (), s\<lparr>f_exec := x\<rparr>)"
    using exec_room(1) [OF room(1)] exec_room(2) [OF room(2)] by blast
  define s2 where "s2 = s\<lparr>f_exec := x\<rparr>"
  have alive2: "alive_verdict s2 = Inr ()" using alive by (auto simp: s2_def alive_verdict_def split: option.splits if_splits)
  have "\<exists>s'. contents_read p e s2 = (Inr b, s') \<and> alive_verdict s' = Inr ()"
  proof (cases "map_of (c_cache s) (pe_inode e)")
    case (Some x)
    then show ?thesis using c alive2 by (simp add: contents_read_def s2_def)
  next
    case None
    have c2: "c_cache s2 = c_cache s" "s_env s2 = s_env s" by (simp_all add: s2_def)
    have blob: "transaction (getBlob (s_env s) sha) s2 = (Inr (Some b), s2)"
      using c None by (auto simp: s2_def transaction_def run_transaction_def getBlob_def begin_tx_def split: option.splits)
    have "alive_verdict (contents_put i x s) = alive_verdict s" for i x s by (simp add: contents_put_def alive_verdict_def split: option.split)
    then show ?thesis using None e(3) alive2 using c2 by (simp add: contents_read_def and_then_def blob Let_def)
  qed
  then obtain s' where "contents_read p e s2 = (Inr b, s')" "alive_verdict s' = Inr ()" by blast
  then have "readBytes p e s2 = (Inr b, s')" by (simp add: readBytes_def and_then_def assertAlive_def)
  then show ?thesis
    using v alive res size e(2,4) by (simp add: readFileBuffer_def readBytes_fs_def and_then_def assertAlive_def s2_def)
qed

section \<open>Writing\<close>

lemma guard_success:
  "assertWritable p op s = (Inr u, s') \<Longrightarrow> s' = s" "assertReservation st s = (Inr u, s') \<Longrightarrow> s' = s"
  "assertExecFileSize p n rd s = (Inr u, s') \<Longrightarrow> s' = s \<and> file_room n s"
  by (auto simp: assertWritable_def and_then_def assertAlive_def assertReservation_def assertGeneration_def assertExecFileSize_def file_room_def Let_def
      split: if_splits sum.splits option.splits)

text \<open>The hypotheses on the hash and on the two stores the session reads through.\<close>

definition honest_env :: "env \<Rightarrow> db \<Rightarrow> bytes \<Rightarrow> bool" where
  "honest_env env d b \<longleftrightarrow>
     (\<forall>i t. map_of (e_lru_set env i b t) i \<in> {None, Some b})
     \<and> (\<forall>x. e_sha256 env x = e_sha256 env b \<longrightarrow> x = b)
     \<and> (\<forall>sha x. e_redis env sha = Some x \<longrightarrow> e_sha256 env x = sha)
     \<and> (\<forall>sha r. map_of (blobs d) sha = Some r \<longrightarrow> e_sha256 env (b_data r) = sha)"

lemma writeFile_success:
  assumes b: "b \<noteq> []" and run: "writeFile_ns p b cm s = (Inr (), s1)"
  obtains composites parent name mode pub i sM mtime cs where
    "mutateOne (putFileOp (s_sandbox s) composites ''writeFile'' parent name mode (int (length b)) (e_sha256 (s_env s) b))
        (s\<lparr>s_db := commitBlob (e_sha256 (s_env s) b) b (s_now s) (s_db s)\<rparr>) = (Inr (pub, i), sM)"
    and "s1 = publishMutation pub [SetPath p (file_entry i mode (int (length b)) mtime (e_sha256 (s_env s) b))] (cs @ [Put i b]) True sM"
    and "file_room (int (length b)) s"
proof -
  have "\<exists>composites parent name mode pub i sM mtime cs.
    mutateOne (putFileOp (s_sandbox s) composites ''writeFile'' parent name mode (int (length b)) (e_sha256 (s_env s) b))
        (s\<lparr>s_db := commitBlob (e_sha256 (s_env s) b) b (s_now s) (s_db s)\<rparr>) = (Inr (pub, i), sM)
    \<and> s1 = publishMutation pub [SetPath p (file_entry i mode (int (length b)) mtime (e_sha256 (s_env s) b))] (cs @ [Put i b]) True sM \<and> file_room (int (length b)) s"
    using run b unfolding writeFile_ns_def
    by (auto simp: and_then_Inr_iff commit_content_def Let_def split: prod.splits if_splits dest!: guard_success) blast+
  then show ?thesis using that by blast
qed

lemma c_cache_published:
  "c_cache (publishMutation pub ps (cs @ [Put i b]) complete s) =
     e_lru_set (s_env s) i b (c_cache (fold apply_content_change cs (fold apply_path_change ps s)))"
proof -
  have "s_env (fold apply_content_change cs (fold apply_path_change ps s)) = s_env s"
    by (rule core_eq_fields(3)) (simp add: core_fold)
  then show ?thesis by (simp add: publishMutation_def Let_def publish_epoch_def contents_put_def split: publication.split)
qed

lemma core_exec: "core s' = core s \<Longrightarrow> f_exec s' = f_exec s"
  by (drule arg_cong [where f = f_exec]) (simp add: core_def)

lemma blobs_commit:
  assumes "honest_env env d b"
  shows "\<exists>r. map_of (blobs (commitBlob (e_sha256 env b) b now d)) (e_sha256 env b) = Some r \<and> b_data r = b"
  using assms by (auto simp: honest_env_def commitBlob_def touch_blob_def map_of_update split: option.split)

lemma written_readable:
  assumes ex: "input_room (int (length b)) s" and b: "b \<noteq> []" and env: "honest_env (s_env s) (s_db s) b"
    and run: "writeFile_ns p b cm s = (Inr (), s1)"
  shows "readable p b s1"
proof -
  let ?sha = "e_sha256 (s_env s) b"
  define sC where "sC = s\<lparr>s_db := commitBlob ?sha b (s_now s) (s_db s)\<rparr>"
  obtain composites parent name mode pub i sM mtime cs where
    mut: "mutateOne (putFileOp (s_sandbox s) composites ''writeFile'' parent name mode (int (length b)) ?sha) sC = (Inr (pub, i), sM)"
    and s1: "s1 = publishMutation pub [SetPath p (file_entry i mode (int (length b)) mtime ?sha)] (cs @ [Put i b]) True sM"
    and room: "file_room (int (length b)) s"
    using writeFile_success [OF b run] unfolding sC_def by blast
  obtain ids where mut': "mutate ((putFileOp (s_sandbox s) composites ''writeFile'' parent name mode (int (length b)) ?sha)\<lparr>o_mints := 1\<rparr>) sC
      = (Inr (pub, ids), sM)" using mut by (auto simp: mutateOne_def and_then_Inr_iff)
  have st: "steady sC sM" and lost: "p_scope sC \<Longrightarrow> p_lost sC = None"
    using mutate_steady [OF _ mut'] store_putFileOp by simp_all
  have fields: "s_env s1 = s_env s" "f_exec s1 = f_exec s" "p_lost s1 = p_lost s" "p_scope s1 = p_scope s" "blobs (s_db s1) = blobs (s_db sC)"
    using st s1 core_exec [OF core_publishMutation] by (simp_all add: steady_def sC_def)
  have alive: "alive_verdict s1 = Inr ()" using fields lost by (simp add: alive_verdict_def sC_def split: option.split)
  have entry: "view_get s1 p = Some (file_entry i mode (int (length b)) mtime ?sha)"
    by (simp add: s1 view_get_def v_cache_publishMutation_paths map_of_update)
  have "map_of (c_cache s1) i \<in> {None, Some b}"
    using env st unfolding s1 c_cache_published by (simp add: honest_env_def steady_def sC_def)
  moreover have "case e_redis (s_env s1) ?sha of Some x \<Rightarrow> x = b | None \<Rightarrow> \<exists>r. map_of (blobs (s_db s1)) ?sha = Some r \<and> b_data r = b"
    using env fields blobs_commit [OF env] by (auto simp: honest_env_def sC_def split: option.split)
  ultimately show ?thesis
    using fields alive entry ex room by (auto simp: readable_def file_entry_def file_room_def input_room_def)
qed

text \<open>A script in its scope, with limits on the files and the input it may read.\<close>

definition demo_writer :: session where
  "demo_writer = (snd (beginScriptScope ((demo_session 0)\<lparr>s_env := demo_env\<rparr>)))
     \<lparr>f_exec := Some \<lparr>x_max_file = Some 100, x_input_limit = Some 10, x_input_bytes = 3, x_exceeded = None\<rparr>\<rparr>"

lemma demo_writer_env: "s_env demo_writer = demo_env" "blobs (s_db demo_writer) = blobs (s_db (demo_session 0))"
  by (simp_all add: demo_writer_def beginScriptScope_def scope_begin_def and_then_def assertAlive_def discardMutations_def split: sum.split)

text \<open>
  C5. Reading back a write: when a write of nonempty content to a path other than \<open>/dev/null\<close> succeeds, in or
  outside a script scope, with or without an exec context, the next read of the path by the session returns exactly the
  bytes written. The hypotheses are that what is left of the exec context's input budget covers the read, that the hash has
  no second preimage of the content, that both blob stores hold content under its own hash, and that the
  content cache returns what it was given or nothing.
\<close>

theorem read_your_write:
  assumes "fs_writeFile path b s = (Inr (), s1)" and "validatePath path \<noteq> Inr DEV_NULL" and "b \<noteq> []" and "input_room (int (length b)) s"
    and "honest_env (s_env s) (s_db s) b"
  shows "fst (readFileBuffer path s1) = Inr b"
proof -
  obtain p where p: "validatePath path = Inr p" "p \<noteq> DEV_NULL" "writeFile_ns p b None s = (Inr (), s1)"
    using assms(1,2) by (auto simp: fs_writeFile_def and_then_Inr_iff split: if_splits)
  show ?thesis by (rule read_readable [OF p(1,2)]) (rule written_readable [OF assms(4,3,5) p(3)])
qed

theorem read_your_write_witness:
  "p_scope demo_writer \<and> fst (readFileBuffer ''/home/y'' (snd (fs_writeFile ''/home/y'' [7, 8] demo_writer))) = Inr [7, 8]"
proof
  show "p_scope demo_writer" by code_simp
  show "fst (readFileBuffer ''/home/y'' (snd (fs_writeFile ''/home/y'' [7, 8] demo_writer))) = Inr [7, 8]"
  proof (rule read_your_write)
    have "fst (fs_writeFile ''/home/y'' [7, 8] demo_writer) = Inr ()" by code_simp
    then show "fs_writeFile ''/home/y'' [7, 8] demo_writer = (Inr (), snd (fs_writeFile ''/home/y'' [7, 8] demo_writer))"
      by (simp add: prod_eq_iff)
    show "validatePath ''/home/y'' \<noteq> Inr DEV_NULL" "input_room (int (length [7, 8 :: 8 word])) demo_writer" by code_simp+
    have "map (\<lambda>(sha, r). b_data r = sha) (blobs (s_db (demo_session 0))) = [True]" by code_simp
    then have "b_data r = sha" if "map_of (blobs (s_db (demo_session 0))) sha = Some r" for sha r
      using map_of_SomeD [OF that] by (cases "blobs (s_db (demo_session 0))") auto
    then show "honest_env (s_env demo_writer) (s_db demo_writer) [7, 8]"
      by (auto simp: demo_writer_env honest_env_def demo_env_def new_env_def map_of_update)
  qed simp
qed

end
