(* ===== verification/IngestGuarantees.thy ===== *)
theory IngestGuarantees
  imports Guarantees
begin

text \<open>
  What bulk ingest promises in every reachable system: when nothing is in the way the files are stored exactly, and
  otherwise nothing but the blob store has changed.
\<close>

text \<open>
  C6. Bulk ingest: in every reachable system, a session that may write (outside a scope, current, not read only, its
  lease held) and whose view has no file where a directory is needed and no directory where a file goes, ingests a
  list of files. Afterwards the tables are well formed and hold exactly the view; the view has every file with its
  mode, size and hash, directories above it, and every other path as before.
\<close>

theorem bulk_ingest_exact:
  assumes "list_all safe_step steps" and "y = run_steps steps empty_system" and "k < length (y_sessions y)"
    and "s = at (y_sessions y ! k) (y_db y)" and "can_ingest s" and "normalize_files [] files = Inr gs" and "files \<noteq> []"
    and "\<forall>g \<in> set gs. if_path g \<noteq> ''/''" and "clear_for (v_cache s) gs"
  shows "\<exists>s'. fs_bulkIngest files s = (Inr (), s') \<and> wf_db (s_db s') \<and> snapshot (s_sandbox s) (v_cache s') (s_db s')
    \<and> (\<forall>g \<in> set gs. \<exists>x. view_get s' (if_path g) = Some x \<and> ingested (e_sha256 (s_env s)) (s_now s) g x)
    \<and> (\<forall>p. above_files gs p \<longrightarrow> (\<exists>x. view_get s' p = Some x \<and> pe_kind x = DIRECTORY))
    \<and> (\<forall>p. p \<notin> if_path ` set gs \<and> (view_get s p \<noteq> None \<or> \<not> above_files gs p) \<longrightarrow> view_get s' p = view_get s p)"
proof -
  have inv: "sess_inv s" using reachable_session [OF assms(1), of "y_sessions y ! k"] assms(2-4) by (simp add: sess_ok_def)
  show ?thesis
  proof (rule bulkIngest_complete [OF inv assms(5-9)])
    fix s' assume run: "fs_bulkIngest files s = (Inr (), s')" and s': "sess_inv s'" "current s'" "s_sandbox s' = s_sandbox s" "\<not> p_scope s'"
      and stored: "\<And>g. g \<in> set gs \<Longrightarrow> \<exists>x. view_get s' (if_path g) = Some x \<and> ingested (e_sha256 (s_env s)) (s_now s) g x"
      and above: "\<And>p. above_files gs p \<Longrightarrow> \<exists>x. view_get s' p = Some x \<and> pe_kind x = DIRECTORY"
      and rest: "\<And>p. p \<notin> if_path ` set gs \<Longrightarrow> view_get s p \<noteq> None \<or> \<not> above_files gs p \<Longrightarrow> view_get s' p = view_get s p"
    have "wf_db (s_db s')" "snapshot (s_sandbox s) (v_cache s') (s_db s')" using s' by (simp_all add: sess_inv_def sound_db_def view_ok_def)
    then show ?thesis using run stored above rest by blast
  qed
qed

definition demo_files :: "ingest_file list" where
  "demo_files = [\<lparr>if_path = ''home/x'', if_content = [2, 3], if_mode = 420\<rparr>, \<lparr>if_path = ''/p/q/y'', if_content = [], if_mode = 384\<rparr>]"

definition demo_stored :: "ingest_file list" where
  "demo_stored = [\<lparr>if_path = ''/home/x'', if_content = [2, 3], if_mode = 420\<rparr>, \<lparr>if_path = ''/p/q/y'', if_content = [], if_mode = 384\<rparr>]"

lemma demo_ingest:
  "0 < length (y_sessions demo_system)" "can_ingest (at (demo_session 0) (y_db demo_system))" "normalize_files [] demo_files = Inr demo_stored"
  "demo_files \<noteq> []" "list_all (\<lambda>g. if_path g \<noteq> ''/'') demo_stored" "clear_for (v_cache (at (demo_session 0) (y_db demo_system))) demo_stored"
  "above_files demo_stored ''/p/q''" "view_get (demo_session 0) ''/tmp'' \<noteq> None"
  by code_simp+

theorem bulk_ingest_exact_witness:
  "\<exists>s'. fs_bulkIngest demo_files (at (demo_session 0) (y_db demo_system)) = (Inr (), s') \<and> wf_db (s_db s')
    \<and> (\<exists>x. view_get s' ''/p/q/y'' = Some x \<and> pe_kind x = FILE \<and> pe_mode x = 384 \<and> pe_size x = 0)
    \<and> (\<exists>x. view_get s' ''/p/q'' = Some x \<and> pe_kind x = DIRECTORY)
    \<and> view_get s' ''/tmp'' = view_get (demo_session 0) ''/tmp''"
proof -
  let ?s = "at (demo_session 0) (y_db demo_system)"
  obtain s' where s': "fs_bulkIngest demo_files ?s = (Inr (), s')" "wf_db (s_db s')"
    and stored: "\<forall>g \<in> set demo_stored. \<exists>x. view_get s' (if_path g) = Some x \<and> ingested (e_sha256 (s_env ?s)) (s_now ?s) g x"
    and above: "\<forall>p. above_files demo_stored p \<longrightarrow> (\<exists>x. view_get s' p = Some x \<and> pe_kind x = DIRECTORY)"
    and rest: "\<forall>p. p \<notin> if_path ` set demo_stored \<and> (view_get ?s p \<noteq> None \<or> \<not> above_files demo_stored p) \<longrightarrow> view_get s' p = view_get ?s p"
    using bulk_ingest_exact [OF demo_facts(10) demo_system_def demo_ingest(1) refl demo_ingest(2-4) demo_ingest(5) [unfolded list_all_iff] demo_ingest(6)]
    by blast
  have "\<exists>x. view_get s' ''/p/q/y'' = Some x \<and> ingested (e_sha256 (s_env ?s)) (s_now ?s) \<lparr>if_path = ''/p/q/y'', if_content = [], if_mode = 384\<rparr> x"
    using stored by (simp add: demo_stored_def)
  then have "\<exists>x. view_get s' ''/p/q/y'' = Some x \<and> pe_kind x = FILE \<and> pe_mode x = 384 \<and> pe_size x = 0" by (auto simp: ingested_def)
  moreover have "view_get s' ''/tmp'' = view_get (demo_session 0) ''/tmp''"
    using rest [rule_format, of "''/tmp''"] demo_ingest(8) by (simp add: demo_stored_def view_get_def)
  ultimately show ?thesis using s' above demo_ingest(7) by blast
qed

text \<open>
  C7. A bulk ingest with something in its way is refused as a whole: in every reachable system, when a file stands
  where a directory is needed, a directory where a file goes, one file of the list above another, or a file at the
  root, the call returns an error; the view, its epoch and every table but the blob store are as before.
\<close>

theorem bulk_ingest_all_or_nothing:
  assumes "list_all safe_step steps" and "y = run_steps steps empty_system" and "k < length (y_sessions y)"
    and "s = at (y_sessions y ! k) (y_db y)" and "normalize_files [] files = Inr gs" and "files \<noteq> []"
    and "\<not> clear_for (v_cache s) gs \<or> (\<exists>g \<in> set gs. if_path g = ''/'')"
  shows "\<exists>e s'. fs_bulkIngest files s = (Inl e, s') \<and> v_cache s' = v_cache s \<and> v_epoch s' = v_epoch s
    \<and> (s_db s')\<lparr>blobs := blobs (s_db s)\<rparr> = s_db s"
proof -
  have inv: "sess_inv s" using reachable_session [OF assms(1), of "y_sessions y ! k"] assms(2-4) by (simp add: sess_ok_def)
  from bulkIngest_refused [OF inv assms(5-7)] show ?thesis by (auto simp: light_def)
qed

definition demo_conflict :: "ingest_file list" where
  "demo_conflict = [\<lparr>if_path = ''/new/z'', if_content = [1], if_mode = 420\<rparr>, \<lparr>if_path = ''/home/x/y'', if_content = [1], if_mode = 420\<rparr>]"

lemma demo_blocked:
  "normalize_files [] demo_conflict = Inr demo_conflict" "demo_conflict \<noteq> []"
  "\<not> clear_for (v_cache (at (demo_session 0) (y_db demo_system))) demo_conflict"
  by code_simp+

theorem bulk_ingest_all_or_nothing_witness:
  "\<exists>e s'. fs_bulkIngest demo_conflict (at (demo_session 0) (y_db demo_system)) = (Inl e, s') \<and> v_cache s' = v_cache (demo_session 0)
    \<and> (s_db s')\<lparr>blobs := blobs (y_db demo_system)\<rparr> = y_db demo_system"
  using bulk_ingest_all_or_nothing [OF demo_facts(10) demo_system_def demo_ingest(1) refl demo_blocked(1,2) disjI1 [OF demo_blocked(3)]] by auto

end
