(* ===== verification/CircuitBreaker.thy ===== *)
theory CircuitBreaker
  imports Prelude
begin

text \<open>
  \<open>src/redis/circuit-breaker.ts\<close>: the per-role Redis circuit breaker and the per-call error budget.
  The clock is a parameter of every operation; a probe ticket is its generation number, and a caller
  that passes no holder or presents no ticket is \<open>None\<close>. Log lines are left out.
\<close>

section \<open>State and operations\<close>

datatype breaker_state = Closed | Open | HalfOpen

record breaker =
  b_state :: breaker_state
  consecutiveFailures :: int
  openedAt :: int
  halfOpenInFlight :: bool
  probeGeneration :: nat
  b_threshold :: int
  b_openMs :: int

definition new_breaker :: "int \<Rightarrow> int \<Rightarrow> breaker" where
  "new_breaker threshold openMs =
     \<lparr>b_state = Closed, consecutiveFailures = 0, openedAt = 0, halfOpenInFlight = False,
      probeGeneration = 0, b_threshold = threshold, b_openMs = openMs\<rparr>"

definition isOpen :: "int \<Rightarrow> breaker \<Rightarrow> bool" where
  "isOpen now b =
     (case b_state b of
        Closed \<Rightarrow> False
      | HalfOpen \<Rightarrow> halfOpenInFlight b
      | Open \<Rightarrow> now - openedAt b < b_openMs b)"

text \<open>\<open>tryAcquire\<close> answers whether the command may be issued and, for a probe, the minted ticket.\<close>

definition mintProbeTicket :: "breaker \<Rightarrow> nat \<times> breaker" where
  "mintProbeTicket b = (Suc (probeGeneration b), b\<lparr>probeGeneration := Suc (probeGeneration b)\<rparr>)"

definition tryAcquire :: "int \<Rightarrow> breaker \<Rightarrow> (bool \<times> nat option) \<times> breaker" where
  "tryAcquire now b =
     (case b_state b of
        Closed \<Rightarrow> ((True, None), b)
      | HalfOpen \<Rightarrow>
          if halfOpenInFlight b then ((False, None), b)
          else (case mintProbeTicket (b\<lparr>halfOpenInFlight := True\<rparr>) of (g, b') \<Rightarrow> ((True, Some g), b'))
      | Open \<Rightarrow>
          if now - openedAt b \<ge> b_openMs b then
            (case mintProbeTicket (b\<lparr>b_state := HalfOpen, halfOpenInFlight := True\<rparr>) of
               (g, b') \<Rightarrow> ((True, Some g), b'))
          else ((False, None), b))"

text \<open>\<open>assertClosed\<close> claims like \<open>tryAcquire()\<close> without a holder: a probe's ticket is dropped.\<close>

definition assertClosed :: "int \<Rightarrow> breaker \<Rightarrow> (string + unit) \<times> breaker" where
  "assertClosed now b =
     (case tryAcquire now b of
        ((True, _), b') \<Rightarrow> (Inr (), b')
      | ((False, _), b') \<Rightarrow> (Inl ''EREDISCIRCUITOPEN'', b'))"

definition recordSuccess :: "nat option \<Rightarrow> breaker \<Rightarrow> breaker" where
  "recordSuccess probe b =
     (if b_state b = Open then b
      else if b_state b = HalfOpen \<and> probe \<noteq> Some (probeGeneration b) then b
      else b\<lparr>b_state := Closed, consecutiveFailures := 0, halfOpenInFlight := False\<rparr>)"

definition open_breaker :: "int \<Rightarrow> breaker \<Rightarrow> breaker" where
  "open_breaker now b =
     b\<lparr>b_state := Open,
       openedAt := (if b_state b = Open then openedAt b else now),
       halfOpenInFlight := False, consecutiveFailures := b_threshold b\<rparr>"

definition recordFailure :: "nat option \<Rightarrow> int \<Rightarrow> breaker \<Rightarrow> breaker" where
  "recordFailure probe now b =
     (if b_state b = HalfOpen then
        (if probe \<noteq> Some (probeGeneration b) then b else open_breaker now b)
      else
        let b1 = b\<lparr>consecutiveFailures := consecutiveFailures b + 1\<rparr>
        in if consecutiveFailures b1 \<ge> b_threshold b1 then open_breaker now b1 else b1)"

section \<open>The error budget of one acquire call\<close>

record error_budget =
  firstErrorAt :: "int option"
  budgetMs :: int

definition recordError :: "int \<Rightarrow> error_budget \<Rightarrow> bool \<times> error_budget" where
  "recordError t b =
     (let first = (case firstErrorAt b of None \<Rightarrow> t | Some f \<Rightarrow> f)
      in (t - first \<ge> budgetMs b, b\<lparr>firstErrorAt := Some first\<rparr>))"

definition budget_reset :: "error_budget \<Rightarrow> error_budget" where
  "budget_reset b = b\<lparr>firstErrorAt := None\<rparr>"

section \<open>Histories\<close>

text \<open>What the process does to a breaker: claims, and results of commands, with the ticket they carry.\<close>

datatype breaker_event =
    Claim int
  | Succeeded "nat option"
  | Failed "nat option" int

fun breaker_step :: "breaker_event \<Rightarrow> breaker \<Rightarrow> breaker" where
  "breaker_step (Claim now) b = snd (tryAcquire now b)"
| "breaker_step (Succeeded probe) b = recordSuccess probe b"
| "breaker_step (Failed probe now) b = recordFailure probe now b"

fun event_before :: "int \<Rightarrow> breaker_event \<Rightarrow> bool" where
  "event_before t (Claim now) = (now < t)"
| "event_before t (Succeeded _) = True"
| "event_before t (Failed _ _) = True"

text \<open>The ticket an event settles with.\<close>

fun settles_with :: "breaker_event \<Rightarrow> nat option" where
  "settles_with (Claim _) = None"
| "settles_with (Succeeded p) = p"
| "settles_with (Failed p _) = p"

abbreviation breaker_run :: "breaker_event list \<Rightarrow> breaker \<Rightarrow> breaker" where
  "breaker_run es b \<equiv> fold breaker_step es b"

lemmas breaker_defs = tryAcquire_def mintProbeTicket_def recordSuccess_def recordFailure_def open_breaker_def

section \<open>Invariant\<close>

text \<open>
  Half-open always means that one probe is out; outside it none is; and a closed breaker has seen
  fewer consecutive failures than the threshold.
\<close>

definition breaker_inv :: "breaker \<Rightarrow> bool" where
  "breaker_inv b \<longleftrightarrow> (halfOpenInFlight b \<longleftrightarrow> b_state b = HalfOpen)
     \<and> (b_state b = Closed \<longrightarrow> 0 \<le> consecutiveFailures b \<and> consecutiveFailures b < b_threshold b) \<and> 0 < b_threshold b"

lemma breaker_step_inv: "breaker_inv b \<Longrightarrow> breaker_inv (breaker_step ev b)"
  by (cases ev) (auto simp: breaker_inv_def breaker_defs Let_def split: breaker_state.splits)

interpretation cb: safe_machine "\<lambda>b. \<exists>threshold openMs. 0 < threshold \<and> b = new_breaker threshold openMs"
  "\<lambda>b b'. \<exists>ev. b' = breaker_step ev b" breaker_inv
proof
  show "breaker_inv b" if "\<exists>threshold openMs. 0 < threshold \<and> b = new_breaker threshold openMs" for b
    using that by (auto simp: new_breaker_def breaker_inv_def)
  show "breaker_inv b'" if "breaker_inv b" "\<exists>ev. b' = breaker_step ev b" for b b'
    using that breaker_step_inv by blast
qed

lemma breaker_run_star: "(\<lambda>b b'. \<exists>ev. b' = breaker_step ev b)\<^sup>*\<^sup>* b (breaker_run es b)"
  by (induction es arbitrary: b) (auto intro: converse_rtranclp_into_rtranclp)

lemma breaker_run_inv: "0 < threshold \<Longrightarrow> breaker_inv (breaker_run es (new_breaker threshold openMs))"
  by (rule cb.reachable_inv [OF _ breaker_run_star]) blast

section \<open>Open and half-open phases\<close>

lemma stays_open:
  assumes "b_state b = Open" and "list_all (event_before (openedAt b + b_openMs b)) es"
  shows "b_state (breaker_run es b) = Open \<and> openedAt (breaker_run es b) = openedAt b \<and> b_openMs (breaker_run es b) = b_openMs b"
  using assms
proof (induction es arbitrary: b)
  case (Cons ev es)
  have "b_state (breaker_step ev b) = Open \<and> openedAt (breaker_step ev b) = openedAt b \<and> b_openMs (breaker_step ev b) = b_openMs b"
    using Cons.prems by (cases ev) (auto simp: breaker_defs Let_def)
  then show ?case using Cons.IH [of "breaker_step ev b"] Cons.prems(2) by simp
qed simp

lemma half_open_ignores:
  assumes "b_state b = HalfOpen" and "halfOpenInFlight b" and "list_all (\<lambda>ev. settles_with ev \<noteq> Some (probeGeneration b)) es"
  shows "breaker_run es b = b"
  using assms
proof (induction es)
  case (Cons ev es)
  have "breaker_step ev b = b" using Cons.prems by (cases ev) (auto simp: breaker_defs)
  then show ?case using Cons by simp
qed simp

section \<open>Properties\<close>

text \<open>
  C27. At most one probe: in every history of a breaker, half-open is exactly the time a probe is in
  flight, so while it is half-open no further command is admitted, and a closed breaker has counted
  fewer failures than its threshold.
\<close>

theorem breaker_single_probe:
  assumes "0 < threshold"
  shows "let b = breaker_run es (new_breaker threshold openMs)
         in (halfOpenInFlight b \<longleftrightarrow> b_state b = HalfOpen)
          \<and> (b_state b = HalfOpen \<longrightarrow> fst (tryAcquire now b) = (False, None))
          \<and> (b_state b = Closed \<longrightarrow> consecutiveFailures b < b_threshold b)"
  using breaker_run_inv [OF assms, of es openMs] by (simp add: Let_def breaker_inv_def tryAcquire_def)

theorem breaker_single_probe_witness:
  "(0::int) < 1 \<and> b_state (breaker_run [Failed None 0, Claim 10] (new_breaker 1 10)) = HalfOpen
   \<and> fst (tryAcquire 99 (breaker_run [Failed None 0, Claim 10] (new_breaker 1 10))) = (False, None)"
proof -
  have "b_state (breaker_run [Failed None 0, Claim 10] (new_breaker 1 10)) = HalfOpen" by code_simp
  then show ?thesis using breaker_single_probe [of 1 "[Failed None 0, Claim 10]" 10 99] by (simp add: Let_def)
qed

text \<open>
  The cool-down holds: once open, whatever results arrive and whoever asks, every claim made less
  than \<open>openMs\<close> after the opening is refused, and stragglers do not move the end of the cool-down:
  the first claim at or after it is admitted as a probe.
\<close>

theorem breaker_cool_down:
  assumes "b_state b = Open" and "list_all (event_before (openedAt b + b_openMs b)) es"
  shows "fst (tryAcquire now (breaker_run es b)) =
    (if now < openedAt b + b_openMs b then (False, None) else (True, Some (Suc (probeGeneration (breaker_run es b)))))"
  using stays_open [OF assms] by (auto simp: tryAcquire_def mintProbeTicket_def)

theorem breaker_cool_down_witness:
  "fst (tryAcquire 11 (breaker_run [Failed None 5, Succeeded None, Claim 7] (recordFailure None 2 (new_breaker 1 10)))) = (False, None)
   \<and> fst (tryAcquire 12 (breaker_run [Failed None 5, Succeeded None, Claim 7] (recordFailure None 2 (new_breaker 1 10)))) = (True, Some 1)"
proof -
  let ?b = "recordFailure None 2 (new_breaker 1 10)" and ?es = "[Failed None 5, Succeeded None, Claim 7]"
  have f: "b_state ?b = Open" "list_all (event_before (openedAt ?b + b_openMs ?b)) ?es" "openedAt ?b = 2" "b_openMs ?b = 10"
    by code_simp+
  have "probeGeneration (breaker_run ?es ?b) = 0" by code_simp
  then show ?thesis using breaker_cool_down [OF f(1,2), of 11] breaker_cool_down [OF f(1,2), of 12] f(3,4) by simp
qed

text \<open>
  C28. Only the current probe settles a half-open breaker: any sequence of results without its ticket,
  and any claims, leave the breaker exactly as it is; the probe's own success then closes it and its
  own failure re-opens it with a fresh cool-down.
\<close>

theorem breaker_only_probe_settles:
  assumes "b_state b = HalfOpen" and "halfOpenInFlight b"
    and "list_all (\<lambda>ev. settles_with ev \<noteq> Some (probeGeneration b)) es"
  shows "breaker_run es b = b
    \<and> b_state (recordSuccess (Some (probeGeneration b)) (breaker_run es b)) = Closed
    \<and> b_state (recordFailure (Some (probeGeneration b)) now (breaker_run es b)) = Open
    \<and> openedAt (recordFailure (Some (probeGeneration b)) now (breaker_run es b)) = now"
  using half_open_ignores [OF assms] assms(1) by (simp add: recordSuccess_def recordFailure_def open_breaker_def)

theorem breaker_only_probe_settles_witness:
  "b_state (recordSuccess (Some 1) (breaker_run [Succeeded None, Failed (Some 0) 5, Claim 6]
     (breaker_run [Failed None 0, Claim 10] (new_breaker 1 10)))) = Closed"
proof -
  let ?b = "breaker_run [Failed None 0, Claim 10] (new_breaker 1 10)"
  have f: "b_state ?b = HalfOpen" "halfOpenInFlight ?b" "probeGeneration ?b = 1" by code_simp+
  have "list_all (\<lambda>ev. settles_with ev \<noteq> Some (probeGeneration ?b)) [Succeeded None, Failed (Some 0) 5, Claim 6]"
    using f(3) by simp
  from breaker_only_probe_settles [OF f(1,2) this] show ?thesis unfolding f(3) by blast
qed

text \<open>
  \<open>assertClosed\<close> throws the ticket away: when it claims the half-open probe, no later claim is ever
  admitted and no result closes the breaker again, since nobody holds the current ticket (tickets of
  earlier probes have smaller generations).
\<close>

lemma assertClosed_wedges:
  assumes "b_state b = Open" and "openedAt b + b_openMs b \<le> now" and "assertClosed now b = (Inr (), b')"
    and "list_all (\<lambda>ev. \<forall>g. settles_with ev = Some g \<longrightarrow> g \<le> probeGeneration b) es"
  shows "b_state (breaker_run es b') = HalfOpen \<and> fst (tryAcquire later (breaker_run es b')) = (False, None)"
proof -
  have b': "b_state b' = HalfOpen" "halfOpenInFlight b'" "probeGeneration b' = Suc (probeGeneration b)"
    using assms(1-3) by (auto simp: assertClosed_def tryAcquire_def mintProbeTicket_def split: if_splits)
  have "list_all (\<lambda>ev. settles_with ev \<noteq> Some (probeGeneration b')) es"
    using assms(4) b'(3) by (auto simp: list_all_iff)
  then have "breaker_run es b' = b'" by (rule half_open_ignores [OF b'(1,2)])
  then show ?thesis using b' by (simp add: tryAcquire_def)
qed

fun budget_run :: "int list \<Rightarrow> error_budget \<Rightarrow> bool list \<times> error_budget" where
  "budget_run [] b = ([], b)"
| "budget_run (t # ts) b =
     (case recordError t b of (done, b1) \<Rightarrow> (case budget_run ts b1 of (ds, b2) \<Rightarrow> (done # ds, b2)))"

lemma budget_run_from: "firstErrorAt b = Some f \<Longrightarrow> fst (budget_run ts b) = map (\<lambda>t. budgetMs b \<le> t - f) ts"
proof (induction ts arbitrary: b)
  case (Cons t ts)
  have "fst (budget_run ts (b\<lparr>firstErrorAt := Some f\<rparr>)) = map (\<lambda>t. budgetMs b \<le> t - f) ts"
    using Cons.IH [of "b\<lparr>firstErrorAt := Some f\<rparr>"] by simp
  then show ?case using Cons.prems by (auto simp: recordError_def split: prod.split)
qed simp

text \<open>
  The error budget of an acquire call: with the clock moving forward, it is reported exhausted
  exactly when the current run of thrown errors has lasted at least \<open>budgetMs\<close>; a successful call
  restarts the run.
\<close>

theorem error_budget_exhausted:
  "fst (budget_run (t # ts) (budget_reset b)) = map (\<lambda>u. budgetMs b \<le> u - t) (t # ts)"
  using budget_run_from [of "b\<lparr>firstErrorAt := Some t\<rparr>" t ts]
  by (auto simp: recordError_def budget_reset_def split: prod.split)

end
