(* ===== verification/RateLimit.thy ===== *)
theory RateLimit
  imports Prelude
begin

text \<open>
  \<open>src/api/rate-limit.ts\<close>: the fixed-window rate limiter of the authentication routes. The store is
  a JavaScript \<open>Map\<close>, an association list in insertion order; the clock is a parameter. The HTTP
  framework (headers, audit log) is outside: the middleware yields the \<open>Retry-After\<close> seconds of a
  429, or passes the request on.
\<close>

section \<open>Store\<close>

record rl_entry =
  rl_count :: int
  rl_resetAt :: int

record rl_store =
  rl_entries :: "(string, rl_entry) table"
  rl_maxEntries :: nat
  rl_hits :: nat

record rl_decision =
  rl_allowed :: bool
  rl_until :: int
  rl_remaining :: int

definition DEFAULT_MAX_ENTRIES :: nat where "DEFAULT_MAX_ENTRIES = 10000"

definition new_rl_store :: "int option \<Rightarrow> string + rl_store" where
  "new_rl_store maxEntries =
     (case maxEntries of
        None \<Rightarrow> Inr \<lparr>rl_entries = [], rl_maxEntries = DEFAULT_MAX_ENTRIES, rl_hits = 0\<rparr>
      | Some n \<Rightarrow>
          if n \<le> 0 then Inl ''ERR_INVALID_RATE_LIMIT''
          else Inr \<lparr>rl_entries = [], rl_maxEntries = nat n, rl_hits = 0\<rparr>)"

text \<open>The purge before an eviction: expired entries in order, until there is room.\<close>

fun purge_until :: "int \<Rightarrow> nat \<Rightarrow> nat \<Rightarrow> (string, rl_entry) table \<Rightarrow> (string, rl_entry) table" where
  "purge_until now sz mx [] = []"
| "purge_until now sz mx ((k, v) # es) =
     (if rl_resetAt v \<le> now then (if sz - 1 < mx then es else purge_until now (sz - 1) mx es)
      else (k, v) # purge_until now sz mx es)"

definition make_room :: "int \<Rightarrow> nat \<Rightarrow> (string, rl_entry) table \<Rightarrow> (string, rl_entry) table" where
  "make_room now mx es =
     (if length es \<ge> mx then
        let es1 = purge_until now (length es) mx es
        in if length es1 \<ge> mx then (case es1 of [] \<Rightarrow> [] | (oldest, _) # _ \<Rightarrow> AList.delete oldest es1) else es1
      else es)"

text \<open>The lazy collection of every 1024th hit.\<close>

definition rl_gc :: "nat \<Rightarrow> int \<Rightarrow> (string, rl_entry) table \<Rightarrow> (string, rl_entry) table" where
  "rl_gc hits now es = (if hits mod 1024 = 0 then filter (\<lambda>(k, v). \<not> rl_resetAt v \<le> now) es else es)"

definition rl_hit :: "string \<Rightarrow> int \<Rightarrow> int \<Rightarrow> int \<Rightarrow> rl_store \<Rightarrow> rl_decision \<times> rl_store" where
  "rl_hit key windowMs mx now s =
     (let hits = Suc (rl_hits s);
          es = rl_gc hits now (rl_entries s)
      in case map_of es key of
           Some e \<Rightarrow>
             if rl_resetAt e \<le> now then
               (\<lparr>rl_allowed = (1 \<le> mx), rl_until = now + windowMs, rl_remaining = max 0 (mx - 1)\<rparr>,
                s\<lparr>rl_hits := hits,
                  rl_entries := AList.update key \<lparr>rl_count = 1, rl_resetAt = now + windowMs\<rparr> (AList.delete key es)\<rparr>)
             else
               (\<lparr>rl_allowed = (rl_count e + 1 \<le> mx), rl_until = rl_resetAt e, rl_remaining = max 0 (mx - (rl_count e + 1))\<rparr>,
                s\<lparr>rl_hits := hits, rl_entries := AList.update key (e\<lparr>rl_count := rl_count e + 1\<rparr>) es\<rparr>)
         | None \<Rightarrow>
             (\<lparr>rl_allowed = (1 \<le> mx), rl_until = now + windowMs, rl_remaining = max 0 (mx - 1)\<rparr>,
              s\<lparr>rl_hits := hits,
                rl_entries := AList.update key \<lparr>rl_count = 1, rl_resetAt = now + windowMs\<rparr>
                  (make_room now (rl_maxEntries s) es)\<rparr>))"

definition rl_reset :: "rl_store \<Rightarrow> rl_store" where
  "rl_reset s = s\<lparr>rl_entries := [], rl_hits := 0\<rparr>"

section \<open>Client address\<close>

definition js_space :: "char \<Rightarrow> bool" where
  "js_space c \<longleftrightarrow> c \<in> {CHR 0x09, CHR 0x0A, CHR 0x0B, CHR 0x0C, CHR 0x0D, CHR 0x20, CHR 0xA0}"

definition js_trim :: "string \<Rightarrow> string" where
  "js_trim s = rev (dropWhile js_space (rev (dropWhile js_space s)))"

definition clientIp :: "bool \<Rightarrow> string option \<Rightarrow> string option \<Rightarrow> string option \<Rightarrow> string" where
  "clientIp trustProxy forwardedFor realIp remoteAddress =
     (let fwd = (if trustProxy then (case forwardedFor of None \<Rightarrow> [] | Some h \<Rightarrow> js_trim (hd (split_on CHR '','' h))) else []);
          real = (if trustProxy then (case realIp of None \<Rightarrow> [] | Some h \<Rightarrow> h) else []);
          remote = (case remoteAddress of None \<Rightarrow> [] | Some a \<Rightarrow> a)
      in if fwd \<noteq> [] then fwd else if real \<noteq> [] then real else if remote \<noteq> [] then remote else ''unknown'')"

section \<open>Middleware\<close>

text \<open>The loop over the keys: the tripped key with the latest end of window, and every decision made.\<close>

fun limit_keys ::
  "int \<Rightarrow> int \<Rightarrow> int \<Rightarrow> string list \<Rightarrow> string option \<times> int \<Rightarrow> rl_store \<Rightarrow> rl_decision list \<times> (string option \<times> int) \<times> rl_store" where
  "limit_keys windowMs mx t [] tripped s = ([], tripped, s)"
| "limit_keys windowMs mx t (key # keys) tripped s =
     (case rl_hit key windowMs mx t s of (d, s1) \<Rightarrow>
        let tripped' = (if \<not> rl_allowed d \<and> rl_until d \<ge> snd tripped then (Some key, rl_until d) else tripped)
        in case limit_keys windowMs mx t keys tripped' s1 of (ds, r) \<Rightarrow> (d # ds, r))"

definition ceil_div :: "int \<Rightarrow> int \<Rightarrow> int" where
  "ceil_div a b = - ((- a) div b)"

definition rateLimit_config :: "int \<Rightarrow> int \<Rightarrow> string + unit" where
  "rateLimit_config windowMs mx = (if windowMs \<le> 0 \<or> mx \<le> 0 then Inl ''ERR_INVALID_RATE_LIMIT'' else Inr ())"

definition rateLimit :: "int \<Rightarrow> int \<Rightarrow> int \<Rightarrow> string list \<Rightarrow> rl_store \<Rightarrow> int option \<times> rl_store" where
  "rateLimit windowMs mx t keys s =
     (case limit_keys windowMs mx t keys (None, 0) s of
        (ds, (tripped, resetAt), s') \<Rightarrow>
          (case tripped of
             None \<Rightarrow> (None, s')
           | Some key \<Rightarrow> (Some (ceil_div (resetAt - t) 1000), s')))"

section \<open>The store stays small\<close>

definition rl_inv :: "rl_store \<Rightarrow> bool" where
  "rl_inv s \<longleftrightarrow> distinct (map fst (rl_entries s)) \<and> length (rl_entries s) \<le> rl_maxEntries s \<and> 0 < rl_maxEntries s"

lemma purge_until_subset: "set (purge_until now sz mx es) \<subseteq> set es"
  by (induction now sz mx es rule: purge_until.induct) auto

lemma purge_until_distinct: "distinct (map fst es) \<Longrightarrow> distinct (map fst (purge_until now sz mx es))"
proof (induction now sz mx es rule: purge_until.induct)
  case (2 now sz mx k v es)
  then have "k \<notin> fst ` set (purge_until now sz mx es)" using purge_until_subset [of now sz mx es] by auto
  then show ?case using 2 by simp
qed simp

lemma purge_until_length: "length (purge_until now sz mx es) \<le> length es"
  by (induction now sz mx es rule: purge_until.induct) auto

lemma delete_first_length: "distinct (map fst ((k, v) # es)) \<Longrightarrow> AList.delete k ((k, v) # es) = es"
  by (simp add: delete_id)

lemma make_room_props:
  assumes "distinct (map fst es)" and "length es \<le> mx" and "0 < mx"
  shows "distinct (map fst (make_room now mx es)) \<and> set (make_room now mx es) \<subseteq> set es \<and> length (make_room now mx es) < mx"
proof (cases "length es \<ge> mx")
  case True
  let ?es = "purge_until now (length es) mx es"
  have p: "distinct (map fst ?es)" "set ?es \<subseteq> set es" "length ?es \<le> mx"
    using purge_until_distinct [OF assms(1)] purge_until_subset purge_until_length [of now "length es" mx es] assms(2)
    by (blast, blast, simp)
  show ?thesis
  proof (cases ?es)
    case Nil
    then show ?thesis using True assms(3) by (simp add: make_room_def)
  next
    case (Cons kv es')
    obtain k v where kv: "kv = (k, v)" by force
    have "AList.delete k ?es = es'" using delete_first_length [of k v es'] p(1) Cons kv by simp
    then show ?thesis using True p Cons kv by (auto simp: make_room_def Let_def)
  qed
next
  case False
  then show ?thesis using assms by (simp add: make_room_def)
qed

lemma length_update_absent: "map_of es k = None \<Longrightarrow> length (AList.update k v es) = Suc (length es)"
  by (simp add: map_of_eq_None_iff table_update_absent)

lemma length_update_present: "map_of es k \<noteq> None \<Longrightarrow> length (AList.update k v es) = length es"
  by (induction es) auto

lemma rl_hit_inv:
  assumes "rl_inv s"
  shows "rl_inv (snd (rl_hit key w m now s))"
proof -
  define es where "es = rl_gc (Suc (rl_hits s)) now (rl_entries s)"
  have es: "distinct (map fst es)" "length es \<le> rl_maxEntries s" and pos: "0 < rl_maxEntries s"
    using assms distinct_keys_filter by (auto simp: es_def rl_gc_def rl_inv_def intro: le_trans [OF length_filter_le])
  show ?thesis
  proof (cases "map_of es key")
    case None
    note mr = make_room_props [OF es pos, of now]
    have "map_of (make_room now (rl_maxEntries s) es) key = None" using None mr by (force simp: map_of_eq_None_iff)
    then have "length (AList.update key v (make_room now (rl_maxEntries s) es)) \<le> rl_maxEntries s" for v
      using mr by (simp add: length_update_absent)
    then show ?thesis using None mr pos by (simp add: rl_hit_def Let_def es_def [symmetric] rl_inv_def distinct_update)
  next
    case (Some e)
    have del: "length (AList.delete key es) < length es" using Some
      by (induction es) (auto simp: less_Suc_eq_le length_delete_le)
    have "length (AList.update key v (AList.delete key es)) \<le> rl_maxEntries s" for v
      using del es(2) length_update_absent [of "AList.delete key es" key v] by simp
    moreover have "length (AList.update key v es) \<le> rl_maxEntries s" for v
      using length_update_present [of es key v] Some es(2) by simp
    ultimately show ?thesis
      using Some es(1) pos by (simp add: rl_hit_def Let_def es_def [symmetric] rl_inv_def distinct_update distinct_keys_delete)
  qed
qed

section \<open>Counting within a window\<close>

text \<open>A sequence of hits with one limit; the decisions it gets.\<close>

fun hits_run :: "int \<Rightarrow> int \<Rightarrow> (string \<times> int) list \<Rightarrow> rl_store \<Rightarrow> (string \<times> rl_decision) list \<times> rl_store" where
  "hits_run w m [] s = ([], s)"
| "hits_run w m ((k, t) # hs) s =
     (case rl_hit k w m t s of (d, s1) \<Rightarrow> (case hits_run w m hs s1 of (ds, s2) \<Rightarrow> ((k, d) # ds, s2)))"

abbreviation decisions_for :: "string \<Rightarrow> (string \<times> rl_decision) list \<Rightarrow> bool list" where
  "decisions_for k ds \<equiv> map (rl_allowed \<circ> snd) (filter (\<lambda>(k', d). k' = k) ds)"

lemma hits_run_inv: "rl_inv s \<Longrightarrow> rl_inv (snd (hits_run w m hs s))"
proof (induction hs arbitrary: s)
  case (Cons h hs)
  obtain k t where "h = (k, t)" by force
  then show ?case
    using Cons.IH [of "snd (rl_hit k w m t s)"] rl_hit_inv [OF Cons.prems, of k w m t] by (auto split: prod.splits)
qed simp

text \<open>With room for every key in play, a live entry is neither purged nor evicted.\<close>

lemma make_room_keeps: "length es < mx \<Longrightarrow> make_room now mx es = es"
  by (simp add: make_room_def)

lemma rl_hit_live:
  assumes inv: "rl_inv s" and U: "finite U" "card U \<le> rl_maxEntries s" "fst ` set (rl_entries s) \<subseteq> U" "k' \<in> U"
    and e: "map_of (rl_entries s) k = Some e" "t < rl_resetAt e" and w: "0 < w"
  shows "map_of (rl_entries (snd (rl_hit k' w m t s))) k = Some (if k' = k then e\<lparr>rl_count := rl_count e + 1\<rparr> else e)"
    and "k' = k \<Longrightarrow> rl_allowed (fst (rl_hit k' w m t s)) \<longleftrightarrow> rl_count e + 1 \<le> m"
    and "fst ` set (rl_entries (snd (rl_hit k' w m t s))) \<subseteq> U"
    and "rl_maxEntries (snd (rl_hit k' w m t s)) = rl_maxEntries s"
proof -
  define es where "es = rl_gc (Suc (rl_hits s)) t (rl_entries s)"
  have dis: "distinct (map fst (rl_entries s))" using inv by (simp add: rl_inv_def)
  have es: "map_of es k = Some e" "distinct (map fst es)" "fst ` set es \<subseteq> U"
    using e dis U(3) by (auto simp: es_def rl_gc_def map_of_filter_distinct intro: distinct_keys_filter)
  have room: "make_room t (rl_maxEntries s) es = es" if "map_of es k' = None"
  proof (rule make_room_keeps)
    have "k' \<notin> fst ` set es" using that by (simp add: map_of_eq_None_iff)
    then have "card (insert k' (fst ` set es)) = Suc (length es)"
      using es(2) by (metis card_insert_disjoint distinct_card finite_imageI finite_set length_map list.set_map)
    moreover have "card (insert k' (fst ` set es)) \<le> card U" using U es(3) by (intro card_mono) auto
    ultimately show "length es < rl_maxEntries s" using U(2) by simp
  qed
  show "map_of (rl_entries (snd (rl_hit k' w m t s))) k = Some (if k' = k then e\<lparr>rl_count := rl_count e + 1\<rparr> else e)"
    "k' = k \<Longrightarrow> rl_allowed (fst (rl_hit k' w m t s)) \<longleftrightarrow> rl_count e + 1 \<le> m"
    "rl_maxEntries (snd (rl_hit k' w m t s)) = rl_maxEntries s"
    using es(1) room e(2) by (auto simp: rl_hit_def Let_def es_def [symmetric] split: option.splits)
  have del: "fst ` set (AList.delete k' es) \<subseteq> U" using es(3) by (auto simp: AList.delete_eq)
  show "fst ` set (rl_entries (snd (rl_hit k' w m t s))) \<subseteq> U"
    using es(3) U(4) room del by (auto simp: rl_hit_def Let_def es_def [symmetric] dom_update split: option.splits if_splits)
qed

lemma live_decisions:
  assumes "rl_inv s" and U: "finite U" and "card U \<le> rl_maxEntries s" and "fst ` set (rl_entries s) \<subseteq> U"
    and "map_of (rl_entries s) k = Some e" and "list_all (\<lambda>(k', t). k' \<in> U \<and> t < rl_resetAt e) hs" and w: "0 < w"
  shows "decisions_for k (fst (hits_run w m hs s)) =
    map (\<lambda>i. rl_count e + 1 + int i \<le> m) [0..<length (filter (\<lambda>(k', t). k' = k) hs)]"
  using assms
proof (induction hs arbitrary: s e)
  case (Cons h hs)
  obtain k' t where h: "h = (k', t)" by force
  have t: "k' \<in> U" "t < rl_resetAt e" using Cons.prems(6) h by simp_all
  note hit = rl_hit_live [OF Cons.prems(1) U Cons.prems(3,4) t(1) Cons.prems(5) t(2) w, of m]
  let ?s = "snd (rl_hit k' w m t s)" and ?e = "if k' = k then e\<lparr>rl_count := rl_count e + 1\<rparr> else e"
  have IH: "decisions_for k (fst (hits_run w m hs ?s)) =
      map (\<lambda>i. rl_count ?e + 1 + int i \<le> m) [0..<length (filter (\<lambda>(k', t). k' = k) hs)]"
    by (rule Cons.IH) (use Cons.prems hit h rl_hit_inv [OF Cons.prems(1)] in \<open>auto split: if_splits\<close>)
  have shift: "map (\<lambda>i. c + 1 + int i \<le> m) [0..<Suc n] = (c + 1 \<le> m) # map (\<lambda>i. c + 1 + 1 + int i \<le> m) [0..<n]" for c n
    by (simp add: upt_conv_Cons map_Suc_upt [symmetric] del: upt_Suc) (simp add: algebra_simps)
  show ?case
    using IH hit(2) shift [of "rl_count e"] h by (auto simp: comp_def split: prod.splits)
qed simp

lemma allowed_prefix: "length (filter id (map (\<lambda>i. 1 + c + int i \<le> m) [0..<n])) = min n (nat (m - c))"
proof (induction n)
  case (Suc n)
  then show ?case by (auto simp: min_def)
qed simp

text \<open>The hit that opens a window.\<close>

lemma rl_hit_fresh:
  assumes inv: "rl_inv s" and U: "finite U" "card U \<le> rl_maxEntries s" "fst ` set (rl_entries s) \<subseteq> U" "k \<in> U"
    and old: "\<And>e. map_of (rl_entries s) k = Some e \<Longrightarrow> rl_resetAt e \<le> t"
  shows "map_of (rl_entries (snd (rl_hit k w m t s))) k = Some \<lparr>rl_count = 1, rl_resetAt = t + w\<rparr>"
    and "rl_allowed (fst (rl_hit k w m t s)) \<longleftrightarrow> 1 \<le> m"
    and "fst ` set (rl_entries (snd (rl_hit k w m t s))) \<subseteq> U"
    and "rl_maxEntries (snd (rl_hit k w m t s)) = rl_maxEntries s"
proof -
  define es where "es = rl_gc (Suc (rl_hits s)) t (rl_entries s)"
  have dis: "distinct (map fst (rl_entries s))" using inv by (simp add: rl_inv_def)
  have es: "distinct (map fst es)" "fst ` set es \<subseteq> U" "length es \<le> rl_maxEntries s"
    using dis U(3) inv by (auto simp: es_def rl_gc_def rl_inv_def intro: distinct_keys_filter le_trans [OF length_filter_le])
  have exp: "rl_resetAt e \<le> t" if "map_of es k = Some e" for e
    using that old dis by (auto simp: es_def rl_gc_def map_of_filter_distinct split: if_splits option.splits)
  have sub: "fst ` set (make_room t (rl_maxEntries s) es) \<subseteq> U" "fst ` set (AList.delete k es) \<subseteq> U"
    using make_room_props [OF es(1,3), of t] inv es(2) by (auto simp: rl_inv_def AList.delete_eq)
  show "map_of (rl_entries (snd (rl_hit k w m t s))) k = Some \<lparr>rl_count = 1, rl_resetAt = t + w\<rparr>"
    "rl_allowed (fst (rl_hit k w m t s)) \<longleftrightarrow> 1 \<le> m" "rl_maxEntries (snd (rl_hit k w m t s)) = rl_maxEntries s"
    using exp by (auto simp: rl_hit_def Let_def es_def [symmetric] split: option.splits)
  show "fst ` set (rl_entries (snd (rl_hit k w m t s))) \<subseteq> U"
    using exp sub U(4) by (auto simp: rl_hit_def Let_def es_def [symmetric] dom_update split: option.splits)
qed

section \<open>Retry-After\<close>

lemma ceil_div_ge: "0 < b \<Longrightarrow> a \<le> b * ceil_div a b"
  using pos_mod_sign [of b "- a"] minus_mult_div_eq_mod [of "- a" b]
  unfolding ceil_div_def mult_minus_right by linarith

lemma rl_hit_denied_until:
  assumes "\<not> rl_allowed (fst (rl_hit key w m t s))" and "0 \<le> t" and "0 < w"
  shows "0 \<le> rl_until (fst (rl_hit key w m t s))"
  using assms by (auto simp: rl_hit_def Let_def split: option.splits if_splits)

lemma limit_keys_tripped:
  assumes "limit_keys w m t keys tr s = (ds, (tr', resetAt), s')" and "0 \<le> t" and "0 < w"
  shows "snd tr \<le> resetAt \<and> (\<forall>d \<in> set ds. \<not> rl_allowed d \<longrightarrow> 0 \<le> rl_until d \<and> rl_until d \<le> resetAt)
    \<and> (tr' = None \<longleftrightarrow> fst tr = None \<and> (\<forall>d \<in> set ds. rl_allowed d \<or> rl_until d < snd tr))"
  using assms
proof (induction keys arbitrary: tr s ds)
  case (Cons key keys)
  obtain d s1 where h: "rl_hit key w m t s = (d, s1)" by force
  define tr1 where "tr1 = (if \<not> rl_allowed d \<and> rl_until d \<ge> snd tr then (Some key, rl_until d) else tr)"
  obtain ds1 where r: "limit_keys w m t keys tr1 s1 = (ds1, (tr', resetAt), s')" "ds = d # ds1"
    using h Cons.prems(1) by (auto simp: tr1_def [symmetric] split: prod.splits)
  have "0 \<le> rl_until d" if "\<not> rl_allowed d"
    using rl_hit_denied_until [of key w m t s] h that Cons.prems(2,3) by simp
  then show ?case
    using Cons.IH [OF r(1) Cons.prems(2,3)] r(2) by (auto simp: tr1_def split: if_splits)
qed auto

section \<open>Properties\<close>

text \<open>
  C30. The limit holds per window: once a hit on a key opens a window, exactly the first \<open>max\<close> hits on
  that key in the window are allowed, whatever other keys are hit in between, as long as the keys in
  play fit the store (so that the entry is not evicted to make room).
\<close>

theorem rate_limit_window:
  assumes "rl_inv s" and "finite U" and "card U \<le> rl_maxEntries s" and "fst ` set (rl_entries s) \<subseteq> U" and "k \<in> U"
    and "\<forall>e. map_of (rl_entries s) k = Some e \<longrightarrow> rl_resetAt e \<le> t0" and "0 < w" and "0 \<le> m"
    and "list_all (\<lambda>(k', t). k' \<in> U \<and> t < t0 + w) hs"
  shows "length (filter id (decisions_for k (fst (hits_run w m ((k, t0) # hs) s)))) =
    min (Suc (length (filter (\<lambda>(k', t). k' = k) hs))) (nat m)"
proof -
  note fr = rl_hit_fresh [OF assms(1-5), of t0 w m]
  have old: "rl_resetAt e \<le> t0" if "map_of (rl_entries s) k = Some e" for e using assms(6) that by blast
  let ?s = "snd (rl_hit k w m t0 s)" and ?n = "length (filter (\<lambda>(k', t). k' = k) hs)"
  have "decisions_for k (fst (hits_run w m hs ?s)) = map (\<lambda>i. 1 + 1 + int i \<le> m) [0..<?n]"
    using live_decisions [OF rl_hit_inv [OF assms(1)] assms(2) _ fr(3) fr(1) _ assms(7), of hs m] old fr(4) assms(3,9)
    by simp
  moreover have "fst (hits_run w m ((k, t0) # hs) s) = (k, fst (rl_hit k w m t0 s)) # fst (hits_run w m hs ?s)"
    by (simp split: prod.split)
  ultimately show ?thesis
    using fr(2) old allowed_prefix [of 1 m ?n] assms(8) by (simp del: hits_run.simps) (auto simp: min_def)
qed

theorem rate_limit_window_witness:
  "length (filter id (decisions_for ''ip'' (fst (hits_run 100 2 [(''ip'', 0), (''x'', 1), (''ip'', 5), (''ip'', 99)]
     \<lparr>rl_entries = [], rl_maxEntries = 2, rl_hits = 0\<rparr>)))) = 2"
  using rate_limit_window [of "\<lparr>rl_entries = [], rl_maxEntries = 2, rl_hits = 0\<rparr>" "{''ip'', ''x''}" "''ip''" 0 100 2
      "[(''x'', 1), (''ip'', 5), (''ip'', 99)]"]
  by (simp add: rl_inv_def del: hits_run.simps)

text \<open>C31. The store never holds more keys than configured, whatever keys an attacker rotates through.\<close>

theorem rate_limit_store_bounded:
  assumes "new_rl_store (Some n) = Inr s"
  shows "length (rl_entries (snd (hits_run w m hs s))) \<le> nat n"
proof -
  have "rl_inv s" "rl_maxEntries s = nat n" using assms by (auto simp: new_rl_store_def rl_inv_def split: if_splits)
  moreover have "rl_maxEntries (snd (rl_hit k w m t s)) = rl_maxEntries s" for k t and s :: rl_store
    by (auto simp: rl_hit_def Let_def split: option.splits)
  then have "rl_maxEntries (snd (hits_run w m hs s)) = rl_maxEntries s" for s
    by (induction hs arbitrary: s) (auto split: prod.splits, metis snd_conv)
  ultimately show ?thesis using hits_run_inv [of s w m hs] by (simp add: rl_inv_def)
qed

theorem rate_limit_store_bounded_witness:
  "length (rl_entries (snd (hits_run 10 1 [(''a'', 0), (''b'', 1), (''c'', 2)]
     \<lparr>rl_entries = [], rl_maxEntries = 2, rl_hits = 0\<rparr>))) \<le> nat 2"
  by (rule rate_limit_store_bounded) (simp add: new_rl_store_def)

text \<open>
  \<open>Retry-After\<close> is long enough: a request is refused exactly when one of its keys is over the
  limit, and after the announced number of seconds every one of those windows is over.
\<close>

theorem rate_limit_retry_after:
  assumes "limit_keys w m t keys (None, 0) s = (ds, tr, s')" and "0 \<le> t" and "0 < w"
  shows "case fst (rateLimit w m t keys s) of
      None \<Rightarrow> \<forall>d \<in> set ds. rl_allowed d
    | Some secs \<Rightarrow> (\<exists>d \<in> set ds. \<not> rl_allowed d) \<and> (\<forall>d \<in> set ds. \<not> rl_allowed d \<longrightarrow> rl_until d \<le> t + 1000 * secs)"
proof -
  obtain tk resetAt where tr: "tr = (tk, resetAt)" by force
  note tripped = limit_keys_tripped [OF assms(1) [unfolded tr] assms(2,3)]
  show ?thesis
  proof (cases tk)
    case None
    then have "\<forall>d \<in> set ds. rl_allowed d" using tripped by fastforce
    then show ?thesis using None assms(1) tr by (simp add: rateLimit_def)
  next
    case (Some key)
    have "resetAt \<le> t + 1000 * ceil_div (resetAt - t) 1000" using ceil_div_ge [of 1000 "resetAt - t"] by simp
    then have "\<forall>d \<in> set ds. \<not> rl_allowed d \<longrightarrow> rl_until d \<le> t + 1000 * ceil_div (resetAt - t) 1000"
      using tripped by fastforce
    moreover have "\<exists>d \<in> set ds. \<not> rl_allowed d" using tripped Some by auto
    ultimately show ?thesis using Some assms(1) tr by (simp add: rateLimit_def)
  qed
qed

theorem rate_limit_retry_after_witness:
  "fst (rateLimit 1500 1 100 [''a'', ''a''] \<lparr>rl_entries = [], rl_maxEntries = 2, rl_hits = 0\<rparr>) = Some 2
   \<and> 1600 \<le> 100 + 1000 * (2::int)"
proof -
  let ?s = "\<lparr>rl_entries = [], rl_maxEntries = 2, rl_hits = 0\<rparr>"
  let ?r = "limit_keys 1500 1 100 [''a'', ''a''] (None, 0) ?s"
  have two: "fst (rateLimit 1500 1 100 [''a'', ''a''] ?s) = Some 2" by code_simp
  have ds: "fst ?r = [\<lparr>rl_allowed = True, rl_until = 1600, rl_remaining = 0\<rparr>, \<lparr>rl_allowed = False, rl_until = 1600, rl_remaining = 0\<rparr>]"
    by code_simp
  have "?r = (fst ?r, fst (snd ?r), snd (snd ?r))" by simp
  from rate_limit_retry_after [OF this] two show ?thesis unfolding ds by simp
qed

end
