(* ===== verification/ApiErrors.thy ===== *)
theory ApiErrors
  imports Prelude "HOL-Library.Char_ord" "HOL-Library.Sublist"
begin

text \<open>
  \<open>src/api/errors.ts\<close>: how an error reaches an API client. A thrown value is \<open>None\<close> when it is not
  an \<open>Error\<close>, otherwise its \<open>code\<close> property and message. The message sanitiser itself
  (\<open>sanitizeFsError\<close>) rewrites prose and is left out: \<open>clientSafeMessageShown\<close> says whether the
  error's own message is shown at all.
\<close>

section \<open>Classification\<close>

record js_error =
  je_code :: "string option"
  je_message :: string

definition SAFE_FS_ERROR_CODES :: "string list" where
  "SAFE_FS_ERROR_CODES =
     [''ENOENT'', ''EEXIST'', ''EISDIR'', ''ENOTDIR'', ''EPERM'', ''FORBIDDEN'', ''ENOTEMPTY'', ''ESESSIONCLOSING'',
      ''ESHUTTINGDOWN'', ''ELOOP'', ''EINVAL'', ''ELOCKTIMEOUT'', ''ELOCKLOST'', ''ELOCKLOST_APPLIED'', ''ECOHERENCE'',
      ''ESTALE'', ''ECOHERENCE_UNAPPLIED'', ''ERUNTIME_BUSY'', ''EWORKER_BUSY'', ''EWORKER_UNAVAILABLE'',
      ''EEXEC_OUTCOME_UNKNOWN'', ''EEXEC_INPUT_LIMIT'', ''EREADONLY'', ''EREADONLY_VIOLATION'', ''EDRIVERFAULT'',
      ''EFBIG'', ''ESCRIPTBUFFER'', ''EEXEC_FS'']"

definition RETRYABLE_SQLSTATES :: "string list" where
  "RETRYABLE_SQLSTATES = [''53300'', ''53400'', ''57P03'']"

definition upper_alnum :: "char \<Rightarrow> bool" where
  "upper_alnum c \<longleftrightarrow> (CHR ''0'' \<le> c \<and> c \<le> CHR ''9'') \<or> (CHR ''A'' \<le> c \<and> c \<le> CHR ''Z'')"

text \<open>\<open>/^08[0-9A-Z]{3}$/\<close>.\<close>

definition connection_exception :: "string \<Rightarrow> bool" where
  "connection_exception code \<longleftrightarrow> length code = 5 \<and> take 2 code = ''08'' \<and> list_all upper_alnum (drop 2 code)"

definition preservesAmbiguousOutcome :: "js_error option \<Rightarrow> bool" where
  "preservesAmbiguousOutcome error =
     (case error of
        None \<Rightarrow> False
      | Some e \<Rightarrow>
          (case je_code e of
             None \<Rightarrow> False
           | Some code \<Rightarrow>
               connection_exception code
               \<or> code \<in> set [''EEXEC_OUTCOME_UNKNOWN'', ''ECOHERENCE'', ''ELOCKLOST_APPLIED'', ''EDRIVERFAULT'']))"

definition isConnectionClassSqlState :: "string option \<Rightarrow> bool" where
  "isConnectionClassSqlState code =
     (case code of None \<Rightarrow> False | Some c \<Rightarrow> connection_exception c \<or> c \<in> set RETRYABLE_SQLSTATES)"

definition UNAVAILABLE_ERROR_CODE :: string where "UNAVAILABLE_ERROR_CODE = ''EUNAVAILABLE''"

definition RETRY_SAFE_ERROR_CODES :: "string list" where
  "RETRY_SAFE_ERROR_CODES =
     [''ESESSIONCLOSING'', ''ESHUTTINGDOWN'', ''ELOCKTIMEOUT'', ''ELOCKLOST'', ''ECOHERENCE_UNAPPLIED'',
      ''ERUNTIME_BUSY'', ''EWORKER_BUSY'', ''EWORKER_UNAVAILABLE'']"

definition isRetryableError :: "js_error option \<Rightarrow> bool" where
  "isRetryableError err =
     (case err of
        None \<Rightarrow> False
      | Some e \<Rightarrow>
          (case je_code e of
             None \<Rightarrow> False
           | Some code \<Rightarrow> code \<in> set RETRY_SAFE_ERROR_CODES \<or> code \<in> set RETRYABLE_SQLSTATES))"

definition clientSafeMessageShown :: "js_error option \<Rightarrow> bool" where
  "clientSafeMessageShown err =
     (case err of
        None \<Rightarrow> False
      | Some e \<Rightarrow> (case je_code e of None \<Rightarrow> False | Some code \<Rightarrow> code \<in> set SAFE_FS_ERROR_CODES))"

definition clientSafeErrorCode :: "js_error option \<Rightarrow> string \<Rightarrow> string" where
  "clientSafeErrorCode err fallback =
     (case err of
        None \<Rightarrow> fallback
      | Some e \<Rightarrow>
          (case je_code e of
             None \<Rightarrow> fallback
           | Some code \<Rightarrow>
               if code \<in> set SAFE_FS_ERROR_CODES then code
               else if isConnectionClassSqlState (je_code e) then UNAVAILABLE_ERROR_CODE
               else fallback))"

definition status_table :: "(string, int) table" where
  "status_table =
     [(''ENOENT'', 404), (''EEXIST'', 409), (''EISDIR'', 400), (''ENOTDIR'', 400), (''EPERM'', 403), (''FORBIDDEN'', 403),
      (''ENOTEMPTY'', 409), (''ESESSIONCLOSING'', 503), (''ESHUTTINGDOWN'', 503), (''ELOOP'', 400), (''EINVAL'', 400),
      (''ELOCKTIMEOUT'', 503), (''ELOCKLOST'', 503), (''ELOCKLOST_APPLIED'', 503), (''ECOHERENCE'', 503), (''ESTALE'', 409),
      (''EDRIVERFAULT'', 503), (''ECOHERENCE_UNAPPLIED'', 503), (''EWORKER_BUSY'', 503), (''EWORKER_UNAVAILABLE'', 503),
      (''EEXEC_OUTCOME_UNKNOWN'', 503), (''ERUNTIME_BUSY'', 503), (''ESCRIPTBUFFER'', 413), (''EEXEC_INPUT_LIMIT'', 413),
      (''EFBIG'', 413)]"

definition mapFsErrorToStatus :: "js_error \<Rightarrow> int" where
  "mapFsErrorToStatus err =
     (case (case je_code err of None \<Rightarrow> None | Some c \<Rightarrow> map_of status_table c) of
        Some status \<Rightarrow> status
      | None \<Rightarrow> if isConnectionClassSqlState (je_code err) then 503 else 500)"

text \<open>\<open>extractErrCode\<close>: an empty \<open>code\<close> is falsy; the fallback is \<open>/^([A-Z]+):/\<close> on the message.\<close>

definition upper_letter :: "char \<Rightarrow> bool" where
  "upper_letter c \<longleftrightarrow> CHR ''A'' \<le> c \<and> c \<le> CHR ''Z''"

definition message_prefix_code :: "string \<Rightarrow> string option" where
  "message_prefix_code m =
     (let p = takeWhile upper_letter m
      in if p \<noteq> [] \<and> prefix (p @ '':'') m then Some p else None)"

definition extractErrCode :: "js_error option \<Rightarrow> string option" where
  "extractErrCode err =
     (case err of
        None \<Rightarrow> None
      | Some e \<Rightarrow>
          (case je_code e of
             Some c \<Rightarrow> if c \<noteq> [] then Some c else message_prefix_code (je_message e)
           | None \<Rightarrow> message_prefix_code (je_message e)))"

definition SCRIPT_FS_ERROR_CODES :: "string list" where
  "SCRIPT_FS_ERROR_CODES =
     [''ENOENT'', ''EEXIST'', ''EISDIR'', ''ENOTDIR'', ''ENOTEMPTY'', ''ELOOP'', ''EPERM'', ''EINVAL'']"

text \<open>The code \<open>execFsError\<close> gives an escaped file-system error; its message is prose.\<close>

definition execFsError_code :: "js_error option \<Rightarrow> string option" where
  "execFsError_code err =
     (case extractErrCode err of
        None \<Rightarrow> None
      | Some code \<Rightarrow> if code \<in> set SCRIPT_FS_ERROR_CODES then Some ''EEXEC_FS'' else None)"

record api_error_body =
  ab_status :: int
  ab_code :: string
  ab_retryable :: bool
  ab_retry_after :: bool
  ab_own_message :: bool

definition apiErrorHandler :: "js_error \<Rightarrow> api_error_body" where
  "apiErrorHandler err =
     (let code = clientSafeErrorCode (Some err) ''INTERNAL_ERROR''
      in \<lparr>ab_status = mapFsErrorToStatus err, ab_code = code, ab_retryable = isRetryableError (Some err),
          ab_retry_after = (code = ''EWORKER_BUSY''), ab_own_message = clientSafeMessageShown (Some err)\<rparr>)"

section \<open>Properties\<close>

text \<open>Facts about the finite lists, by evaluation.\<close>

lemma listed_not_connection:
  "list_all (\<lambda>c. \<not> connection_exception c) (RETRY_SAFE_ERROR_CODES @ RETRYABLE_SQLSTATES)"
  by code_simp

definition ambiguous_codes :: "string list" where
  "ambiguous_codes = [''EEXEC_OUTCOME_UNKNOWN'', ''ECOHERENCE'', ''ELOCKLOST_APPLIED'', ''EDRIVERFAULT'']"

lemma retry_codes_status:
  "list_all (\<lambda>c. c \<notin> set ambiguous_codes \<and> mapFsErrorToStatus \<lparr>je_code = Some c, je_message = []\<rparr> = 503)
     (RETRY_SAFE_ERROR_CODES @ RETRYABLE_SQLSTATES)"
  by code_simp

lemma status_code_only: "mapFsErrorToStatus err = mapFsErrorToStatus \<lparr>je_code = je_code err, je_message = []\<rparr>"
  by (simp add: mapFsErrorToStatus_def)

lemma apiErrorHandler_fields [simp]:
  "ab_status (apiErrorHandler err) = mapFsErrorToStatus err"
  "ab_code (apiErrorHandler err) = clientSafeErrorCode (Some err) ''INTERNAL_ERROR''"
  "ab_retryable (apiErrorHandler err) = isRetryableError (Some err)"
  "ab_retry_after (apiErrorHandler err) = (clientSafeErrorCode (Some err) ''INTERNAL_ERROR'' = ''EWORKER_BUSY'')"
  "ab_own_message (apiErrorHandler err) = clientSafeMessageShown (Some err)"
  by (simp_all add: apiErrorHandler_def Let_def)

lemma retryable_unambiguous:
  assumes r: "isRetryableError (Some err)"
  shows "\<not> preservesAmbiguousOutcome (Some err) \<and> mapFsErrorToStatus err = 503"
proof -
  obtain code where code: "je_code err = Some code" "code \<in> set (RETRY_SAFE_ERROR_CODES @ RETRYABLE_SQLSTATES)"
    using r by (auto simp: isRetryableError_def split: option.splits)
  have "\<not> connection_exception code" "code \<notin> set ambiguous_codes" "mapFsErrorToStatus \<lparr>je_code = Some code, je_message = []\<rparr> = 503"
    using code(2) listed_not_connection retry_codes_status unfolding list_all_iff by blast+
  then show ?thesis
    using code(1) status_code_only [of err] by (simp add: preservesAmbiguousOutcome_def ambiguous_codes_def)
qed

lemma table_not_connection: "list_all (\<lambda>c. \<not> connection_exception c) (map fst status_table)"
  by code_simp

text \<open>The whole connection-exception class 08xxx is a 503, and never retryable.\<close>

lemma connection_class_unavailable:
  assumes "je_code err = Some code" and "connection_exception code"
  shows "mapFsErrorToStatus err = 503 \<and> \<not> isRetryableError (Some err)"
proof
  have "code \<notin> fst ` set status_table" using table_not_connection assms(2) by (auto simp: list_all_iff)
  then have "map_of status_table code = None" by (simp add: map_of_eq_None_iff)
  then show "mapFsErrorToStatus err = 503" using assms by (simp add: mapFsErrorToStatus_def isConnectionClassSqlState_def)
  have "preservesAmbiguousOutcome (Some err)" using assms by (simp add: preservesAmbiguousOutcome_def)
  then show "\<not> isRetryableError (Some err)" using retryable_unambiguous by blast
qed

text \<open>
  C37. Retry is only advertised where nothing can have been applied: no error whose outcome is
  ambiguous (a lost connection, a lease lost after the work returned, an unknown outcome, a driver
  fault, broken coherence) is reported retryable, and every retryable error is a 503. The converse fails on purpose: a
  connection exception 08xxx is answered with a 503 that is not retryable, as the comment in \<open>isRetryableError\<close> says
  (the older comment on \<open>RETRYABLE_SQLSTATES\<close> says otherwise).
\<close>

theorem retryable_never_ambiguous:
  "\<not> (isRetryableError (Some err) \<and> preservesAmbiguousOutcome (Some err))
   \<and> (ab_retryable (apiErrorHandler err) \<longrightarrow> ab_status (apiErrorHandler err) = 503 \<and> \<not> preservesAmbiguousOutcome (Some err))
   \<and> (je_code err = Some code \<and> connection_exception code \<longrightarrow>
        ab_status (apiErrorHandler err) = 503 \<and> \<not> ab_retryable (apiErrorHandler err))"
  using retryable_unambiguous connection_class_unavailable by auto

theorem retryable_never_ambiguous_witness:
  "ab_retryable (apiErrorHandler \<lparr>je_code = Some ''ELOCKLOST'', je_message = []\<rparr>)
   \<and> ab_status (apiErrorHandler \<lparr>je_code = Some ''ELOCKLOST'', je_message = []\<rparr>) = 503
   \<and> \<not> preservesAmbiguousOutcome (Some \<lparr>je_code = Some ''ELOCKLOST'', je_message = []\<rparr>)
   \<and> \<not> ab_retryable (apiErrorHandler \<lparr>je_code = Some ''08006'', je_message = []\<rparr>)"
proof -
  have "ab_retryable (apiErrorHandler \<lparr>je_code = Some ''ELOCKLOST'', je_message = []\<rparr>)" "connection_exception ''08006''" by code_simp+
  then show ?thesis
    using retryable_never_ambiguous [of "\<lparr>je_code = Some ''ELOCKLOST'', je_message = []\<rparr>" "[]"]
      retryable_never_ambiguous [of "\<lparr>je_code = Some ''08006'', je_message = []\<rparr>" "''08006''"] by simp
qed

text \<open>
  No raw driver or SQL code reaches a client: the code in a response is one of the known safe
  codes, \<open>EUNAVAILABLE\<close> or \<open>INTERNAL_ERROR\<close>, and the error's own message is shown only with a known
  safe code.
\<close>

theorem client_code_is_safe:
  "ab_code (apiErrorHandler err) \<in> set SAFE_FS_ERROR_CODES \<union> {UNAVAILABLE_ERROR_CODE, ''INTERNAL_ERROR''}
   \<and> (ab_own_message (apiErrorHandler err) \<longrightarrow> je_code err = Some (ab_code (apiErrorHandler err)))"
  by (cases "je_code err") (auto simp: clientSafeErrorCode_def clientSafeMessageShown_def)

theorem client_code_is_safe_witness:
  "ab_own_message (apiErrorHandler \<lparr>je_code = Some ''ENOENT'', je_message = []\<rparr>)
   \<and> Some ''ENOENT'' = Some (ab_code (apiErrorHandler \<lparr>je_code = Some ''ENOENT'', je_message = []\<rparr>))"
proof -
  have "ab_own_message (apiErrorHandler \<lparr>je_code = Some ''ENOENT'', je_message = []\<rparr>)" by code_simp
  then show ?thesis using client_code_is_safe [of "\<lparr>je_code = Some ''ENOENT'', je_message = []\<rparr>"] by simp
qed

text \<open>A stale epoch is reported as a conflict that must not be retried blindly.\<close>

lemma estale_not_retryable:
  "ab_status (apiErrorHandler \<lparr>je_code = Some ''ESTALE'', je_message = []\<rparr>) = 409
   \<and> \<not> ab_retryable (apiErrorHandler \<lparr>je_code = Some ''ESTALE'', je_message = []\<rparr>)"
  by code_simp

end
