(* ===== verification/DistLock.thy ===== *)
theory DistLock
  imports Complex_Main CircuitBreaker ApiErrors
begin

text \<open>
  The Redis-backed locks of \<open>api/distributed-rw-lock.ts\<close> and \<open>api/distributed-lock.ts\<close>: the Lua scripts as
  functions on the two keys of a lock, the polling loops with their deadline, error budget and circuit
  breaker, the heartbeats, and the outcome of a guarded operation; and the options of
  \<open>api/exec-lock-config.ts\<close>. The Redis server is the record \<open>redis_lock\<close> with its own clock; the clients are
  tokens that run scripts in any order, whose replies may be lost.
\<close>

section \<open>The scripts\<close>

text \<open>The writer key with its expiry on the server's clock, and the sorted set of readers with their scores.\<close>

record redis_lock =
  rk_writer :: "(string \<times> int) option"
  rk_readers :: "(string, int) table"

definition writer_get :: "int \<Rightarrow> redis_lock \<Rightarrow> string option" where
  "writer_get t l = (case rk_writer l of None \<Rightarrow> None | Some (tok, ex) \<Rightarrow> if t \<le> ex then Some tok else None)"

definition zrem_expired :: "int \<Rightarrow> redis_lock \<Rightarrow> redis_lock" where
  "zrem_expired now l = l\<lparr>rk_readers := filter (\<lambda>(tok, score). now < score) (rk_readers l)\<rparr>"

definition acquire_shared_script :: "int \<Rightarrow> string \<Rightarrow> int \<Rightarrow> int \<Rightarrow> redis_lock \<Rightarrow> int \<times> redis_lock" where
  "acquire_shared_script t token now expireAt l =
     (let l1 = zrem_expired now l
      in if writer_get t l1 \<noteq> None then (0, l1)
         else (1, l1\<lparr>rk_readers := AList.update token expireAt (rk_readers l1)\<rparr>))"

definition release_shared_script :: "string \<Rightarrow> redis_lock \<Rightarrow> int \<times> redis_lock" where
  "release_shared_script token l =
     (if map_of (rk_readers l) token = None then 0 else 1, l\<lparr>rk_readers := AList.delete token (rk_readers l)\<rparr>)"

definition renew_shared_script :: "string \<Rightarrow> int \<Rightarrow> redis_lock \<Rightarrow> int \<times> redis_lock" where
  "renew_shared_script token expireAt l =
     (if map_of (rk_readers l) token \<noteq> None then (1, l\<lparr>rk_readers := AList.update token expireAt (rk_readers l)\<rparr>)
      else (0, l))"

text \<open>\<open>SET key token PX lease NX\<close>: 1 stands for the reply OK and 0 for nil.\<close>

definition acquire_exclusive_flag_script :: "int \<Rightarrow> string \<Rightarrow> int \<Rightarrow> redis_lock \<Rightarrow> int \<times> redis_lock" where
  "acquire_exclusive_flag_script t token lease l =
     (if writer_get t l \<noteq> None then (0, l) else (1, l\<lparr>rk_writer := Some (token, t + lease)\<rparr>))"

definition check_readers_drained_script :: "int \<Rightarrow> string \<Rightarrow> int \<Rightarrow> redis_lock \<Rightarrow> int \<times> redis_lock" where
  "check_readers_drained_script t token now l =
     (if writer_get t l \<noteq> Some token then (-1, l)
      else let l1 = zrem_expired now l in (int (length (rk_readers l1)), l1))"

definition renew_exclusive_script :: "int \<Rightarrow> string \<Rightarrow> int \<Rightarrow> redis_lock \<Rightarrow> int \<times> redis_lock" where
  "renew_exclusive_script t token lease l =
     (if writer_get t l = Some token then (1, l\<lparr>rk_writer := Some (token, t + lease)\<rparr>) else (0, l))"

definition release_exclusive_script :: "int \<Rightarrow> string \<Rightarrow> redis_lock \<Rightarrow> int \<times> redis_lock" where
  "release_exclusive_script t token l =
     (if writer_get t l = Some token then (1, l\<lparr>rk_writer := None\<rparr>) else (0, l))"

text \<open>The mutex runs the same two scripts on its single key.\<close>

definition mutex_release_script :: "int \<Rightarrow> string \<Rightarrow> redis_lock \<Rightarrow> int \<times> redis_lock" where
  "mutex_release_script = release_exclusive_script"

definition mutex_renew_script :: "int \<Rightarrow> string \<Rightarrow> int \<Rightarrow> redis_lock \<Rightarrow> int \<times> redis_lock" where
  "mutex_renew_script = renew_exclusive_script"

section \<open>Options\<close>

record rw_lock_options =
  leaseMs :: int
  renewMs :: int
  acquireTimeoutMs :: int
  acquireRetryMs :: int
  readerLeaseMs :: int
  errorBudgetMs :: int

definition rw_lock_defaults :: rw_lock_options where
  "rw_lock_defaults = \<lparr>leaseMs = 60000, renewMs = 20000, acquireTimeoutMs = 75000, acquireRetryMs = 50,
     readerLeaseMs = 60000, errorBudgetMs = 4000\<rparr>"

definition assertOptions :: "rw_lock_options \<Rightarrow> string + unit" where
  "assertOptions opts =
     (if leaseMs opts \<le> 0 then Inl ''leaseMs must be > 0''
      else if renewMs opts \<le> 0 then Inl ''renewMs must be > 0''
      else if renewMs opts \<ge> leaseMs opts then Inl ''renewMs must be strictly less than leaseMs''
      else if acquireTimeoutMs opts < 0 then Inl ''acquireTimeoutMs must be >= 0''
      else if acquireRetryMs opts \<le> 0 then Inl ''acquireRetryMs must be > 0''
      else if readerLeaseMs opts \<le> 0 then Inl ''readerLeaseMs must be > 0''
      else if errorBudgetMs opts < 0 then Inl ''errorBudgetMs must be >= 0''
      else if renewMs opts \<ge> readerLeaseMs opts then Inl ''renewMs must be strictly less than readerLeaseMs''
      else Inr ())"

definition assertLockOptions :: "rw_lock_options \<Rightarrow> string + unit" where
  "assertLockOptions opts =
     (if leaseMs opts \<le> 0 then Inl ''leaseMs must be > 0''
      else if renewMs opts \<le> 0 then Inl ''renewMs must be > 0''
      else if renewMs opts \<ge> leaseMs opts then Inl ''renewMs must be strictly less than leaseMs''
      else if acquireTimeoutMs opts < 0 then Inl ''acquireTimeoutMs must be >= 0''
      else if acquireRetryMs opts \<le> 0 then Inl ''acquireRetryMs must be > 0''
      else if errorBudgetMs opts < 0 then Inl ''errorBudgetMs must be >= 0''
      else Inr ())"

text \<open>
  The environment variables are a function, and so is the reading of a text as an integer
  (\<open>Number(raw)\<close> when \<open>Number.isInteger\<close> holds).
\<close>

definition parse_int_above :: "int \<Rightarrow> (string \<Rightarrow> string option) \<Rightarrow> (string \<Rightarrow> int option) \<Rightarrow> string \<Rightarrow> int \<Rightarrow> string + int" where
  "parse_int_above least env number var dflt =
     (case env var of
        None \<Rightarrow> Inr dflt
      | Some raw \<Rightarrow>
          if raw = [] then Inr dflt
          else (case number raw of
                  None \<Rightarrow> Inl var
                | Some n \<Rightarrow> if n < least then Inl var else Inr n))"

definition parseNonNegativeInt :: "(string \<Rightarrow> string option) \<Rightarrow> (string \<Rightarrow> int option) \<Rightarrow> string \<Rightarrow> int \<Rightarrow> string + int" where
  "parseNonNegativeInt = parse_int_above 0"

definition parsePositiveInt :: "(string \<Rightarrow> string option) \<Rightarrow> (string \<Rightarrow> int option) \<Rightarrow> string \<Rightarrow> int \<Rightarrow> string + int" where
  "parsePositiveInt = parse_int_above 1"

definition assertAcquireTimeoutAboveLeases :: "rw_lock_options \<Rightarrow> string + unit" where
  "assertAcquireTimeoutAboveLeases opts =
     (if acquireTimeoutMs opts \<le> leaseMs opts then Inl ''ERR_ACQUIRE_TIMEOUT_INVARIANT''
      else if acquireTimeoutMs opts \<le> readerLeaseMs opts then Inl ''ERR_ACQUIRE_TIMEOUT_INVARIANT''
      else Inr ())"

definition sum_then :: "'e + 'a \<Rightarrow> ('a \<Rightarrow> 'e + 'b) \<Rightarrow> 'e + 'b" where
  "sum_then x f = (case x of Inl e \<Rightarrow> Inl e | Inr a \<Rightarrow> f a)"

definition loadExecLockOptions :: "(string \<Rightarrow> string option) \<Rightarrow> (string \<Rightarrow> int option) \<Rightarrow> string + rw_lock_options" where
  "loadExecLockOptions env number =
     sum_then (parsePositiveInt env number ''REDIS_EXEC_LOCK_LEASE_MS'' 60000) (\<lambda>lease.
     sum_then (parsePositiveInt env number ''REDIS_EXEC_LOCK_RENEW_MS'' 20000) (\<lambda>renew.
     sum_then (parseNonNegativeInt env number ''REDIS_EXEC_LOCK_ACQUIRE_TIMEOUT_MS'' 75000) (\<lambda>timeout.
     sum_then (parsePositiveInt env number ''REDIS_EXEC_LOCK_ACQUIRE_RETRY_MS'' 50) (\<lambda>retry.
     sum_then (parsePositiveInt env number ''REDIS_RWLOCK_READER_LEASE_MS'' 60000) (\<lambda>readerLease.
     let opts = rw_lock_defaults\<lparr>leaseMs := lease, renewMs := renew, acquireTimeoutMs := timeout, acquireRetryMs := retry,
                  readerLeaseMs := readerLease\<rparr>
     in sum_then (assertAcquireTimeoutAboveLeases opts) (\<lambda>_. Inr opts))))))"

text \<open>The pause between two polls; \<open>random\<close> is the fraction \<open>Math.random()\<close> returns.\<close>

definition jitteredDelayMs :: "rat \<Rightarrow> rat \<Rightarrow> rat" where
  "jitteredDelayMs retryMs random = (let half = retryMs / 2 in half + random * half)"

section \<open>The polling loops\<close>

text \<open>
  One turn of a loop sees: what other callers did to the process-wide breaker before it, the clock when it asks
  the breaker, what others did while it waited for the server, the server's reply or an error, and the clock
  when it handles the error and when it checks the deadline.
\<close>

datatype redis_reply = Replied int | Threw

record poll =
  q_before :: "breaker_event list"
  q_asked_at :: int
  q_during :: "breaker_event list"
  q_reply :: redis_reply
  q_failed_at :: int
  q_checked_at :: int

datatype verdict = Done | Again | FlagLost

datatype lock_error = ELOCKTIMEOUT | LockLost | LockLostAfterCommit

datatype poll_result = Acquired | Failing lock_error | Retry

definition poll_once :: "(int \<Rightarrow> verdict) \<Rightarrow> int \<Rightarrow> poll \<Rightarrow> breaker \<Rightarrow> error_budget \<Rightarrow> poll_result \<times> breaker \<times> error_budget" where
  "poll_once judge deadline q b eb =
     (case tryAcquire (q_asked_at q) (breaker_run (q_before q) b) of
        ((False, _), b1) \<Rightarrow> (Failing ELOCKTIMEOUT, b1, eb)
      | ((True, ticket), b1) \<Rightarrow>
          let b2 = breaker_run (q_during q) b1;
              wait = (if q_checked_at q \<ge> deadline then Failing ELOCKTIMEOUT else Retry)
          in (case q_reply q of
                Replied r \<Rightarrow>
                  ((case judge r of Done \<Rightarrow> Acquired | FlagLost \<Rightarrow> Failing LockLost | Again \<Rightarrow> wait),
                   recordSuccess ticket b2, budget_reset eb)
              | Threw \<Rightarrow>
                  (case recordError (q_failed_at q) eb of
                     (exhausted, eb') \<Rightarrow>
                       (if exhausted then Failing ELOCKTIMEOUT else wait, recordFailure ticket (q_failed_at q) b2, eb'))))"

partial_function (option) poll_loop ::
  "(int \<Rightarrow> verdict) \<Rightarrow> int \<Rightarrow> (nat \<Rightarrow> poll) \<Rightarrow> nat \<Rightarrow> breaker \<Rightarrow> error_budget \<Rightarrow> (poll_result \<times> breaker \<times> error_budget) option" where
  "poll_loop judge deadline qs k b eb =
     (case poll_once judge deadline (qs k) b eb of
        (Retry, b', eb') \<Rightarrow> poll_loop judge deadline qs (Suc k) b' eb'
      | res \<Rightarrow> Some res)"

declare poll_loop.simps [code]

definition judge_shared :: "int \<Rightarrow> verdict" where
  "judge_shared r = (if r = 1 then Done else Again)"

definition judge_drained :: "int \<Rightarrow> verdict" where
  "judge_drained count = (if count = -1 then FlagLost else if count = 0 then Done else Again)"

definition new_budget :: "int \<Rightarrow> error_budget" where
  "new_budget ms = \<lparr>firstErrorAt = None, budgetMs = ms\<rparr>"

definition acquireShared :: "rw_lock_options \<Rightarrow> int \<Rightarrow> (nat \<Rightarrow> poll) \<Rightarrow> breaker \<Rightarrow> (poll_result \<times> breaker \<times> error_budget) option" where
  "acquireShared opts start qs b =
     poll_loop judge_shared (start + acquireTimeoutMs opts) qs 0 b (new_budget (errorBudgetMs opts))"

definition acquireExclusive ::
  "rw_lock_options \<Rightarrow> int \<Rightarrow> (nat \<Rightarrow> poll) \<Rightarrow> breaker \<Rightarrow> error_budget \<Rightarrow> (poll_result \<times> breaker \<times> error_budget) option" where
  "acquireExclusive opts start qs b eb = poll_loop judge_shared (start + acquireTimeoutMs opts) qs 0 b eb"

definition acquireMutex :: "rw_lock_options \<Rightarrow> int \<Rightarrow> (nat \<Rightarrow> poll) \<Rightarrow> breaker \<Rightarrow> (poll_result \<times> breaker \<times> error_budget) option" where
  "acquireMutex opts start qs b =
     poll_loop judge_shared (start + acquireTimeoutMs opts) qs 0 b (new_budget (errorBudgetMs opts))"

definition waitReadersDrained ::
  "int \<Rightarrow> (nat \<Rightarrow> poll) \<Rightarrow> breaker \<Rightarrow> error_budget \<Rightarrow> (poll_result \<times> breaker \<times> error_budget) option" where
  "waitReadersDrained deadline qs b eb = poll_loop judge_drained deadline qs 0 b eb"

section \<open>Heartbeats\<close>

text \<open>The timer's next delay is \<open>None\<close> once nothing is scheduled any more.\<close>

record heartbeat =
  hb_expires :: int
  hb_lost :: bool
  hb_next :: "int option"

datatype renew_outcome = Renewed | OwnershipLost | Transient

definition renew_outcome_of :: "redis_reply \<Rightarrow> renew_outcome" where
  "renew_outcome_of r = (case r of Threw \<Rightarrow> Transient | Replied n \<Rightarrow> if n = 1 then Renewed else OwnershipLost)"

definition renewRetryMs :: "int \<Rightarrow> int" where
  "renewRetryMs renew = max 50 (renew div 4)"

definition start_heartbeat :: "int \<Rightarrow> int \<Rightarrow> int \<Rightarrow> heartbeat" where
  "start_heartbeat lease renew now = \<lparr>hb_expires = now + lease, hb_lost = False, hb_next = Some renew\<rparr>"

definition heartbeat_tick :: "int \<Rightarrow> int \<Rightarrow> redis_reply \<Rightarrow> int \<Rightarrow> heartbeat \<Rightarrow> heartbeat" where
  "heartbeat_tick lease renew reply now h =
     (if hb_next h = None then h
      else (case renew_outcome_of reply of
              Renewed \<Rightarrow> h\<lparr>hb_expires := now + lease, hb_next := Some renew\<rparr>
            | OwnershipLost \<Rightarrow> h\<lparr>hb_lost := True, hb_next := None\<rparr>
            | Transient \<Rightarrow>
                if now \<ge> hb_expires h then h\<lparr>hb_lost := True, hb_next := None\<rparr>
                else h\<lparr>hb_next := Some (renewRetryMs renew)\<rparr>))"

text \<open>The heartbeat of a reader, of a writer and of the mutex: a start and a tick each.\<close>

definition startSharedHeartbeat :: "rw_lock_options \<Rightarrow> int \<Rightarrow> heartbeat \<times> (redis_reply \<Rightarrow> int \<Rightarrow> heartbeat \<Rightarrow> heartbeat)" where
  "startSharedHeartbeat opts now =
     (start_heartbeat (readerLeaseMs opts) (renewMs opts) now, heartbeat_tick (readerLeaseMs opts) (renewMs opts))"

definition startExclusiveHeartbeat :: "rw_lock_options \<Rightarrow> int \<Rightarrow> heartbeat \<times> (redis_reply \<Rightarrow> int \<Rightarrow> heartbeat \<Rightarrow> heartbeat)" where
  "startExclusiveHeartbeat opts now =
     (start_heartbeat (leaseMs opts) (renewMs opts) now, heartbeat_tick (leaseMs opts) (renewMs opts))"

definition scheduleRenew :: "rw_lock_options \<Rightarrow> int \<Rightarrow> heartbeat \<times> (redis_reply \<Rightarrow> int \<Rightarrow> heartbeat \<Rightarrow> heartbeat)" where
  "scheduleRenew opts now =
     (start_heartbeat (leaseMs opts) (renewMs opts) now, heartbeat_tick (leaseMs opts) (renewMs opts))"

definition stop_heartbeat :: "heartbeat \<Rightarrow> heartbeat" where
  "stop_heartbeat h = h\<lparr>hb_next := None\<rparr>"

section \<open>The outcome of a guarded operation\<close>

definition lock_error_code :: "lock_error \<Rightarrow> string" where
  "lock_error_code e = (case e of ELOCKTIMEOUT \<Rightarrow> ''ELOCKTIMEOUT'' | LockLost \<Rightarrow> ''ELOCKLOST'' | LockLostAfterCommit \<Rightarrow> ''ELOCKLOST_APPLIED'')"

definition raise_lock :: "lock_error \<Rightarrow> js_error" where
  "raise_lock e = \<lparr>je_code = Some (lock_error_code e), je_message = lock_error_code e\<rparr>"

text \<open>The work returns or throws; \<open>hook\<close> is what the optional \<open>onLostAfterWork\<close> throws.\<close>

definition settle_work :: "lock_error \<Rightarrow> bool \<Rightarrow> js_error option \<Rightarrow> js_error + 'a \<Rightarrow> js_error + 'a" where
  "settle_work after lost hook work =
     (case work of
        Inl e \<Rightarrow> if lost \<and> \<not> preservesAmbiguousOutcome (Some e) then Inl (raise_lock LockLost) else Inl e
      | Inr r \<Rightarrow>
          if lost then (case hook of Some e \<Rightarrow> Inl e | None \<Rightarrow> Inl (raise_lock after))
          else Inr r)"

text \<open>
  One call of a lock, with what it meets: its token, the clock at its start, where a writer sets its flag and once it holds the lock, its polls,
  the heartbeat ticks while a writer waits for readers and while the work runs, what the work does, and the server
  when the lock is released, if the release gets through.
\<close>

record 'a guarded =
  u_token :: string
  u_called_at :: int
  u_flag_at :: int
  u_polls :: "nat \<Rightarrow> poll"
  u_drains :: "nat \<Rightarrow> poll"
  u_held_at :: int
  u_drain_ticks :: "(redis_reply \<times> int) list"
  u_ticks :: "(redis_reply \<times> int) list"
  u_work :: "js_error + 'a"
  u_hook :: "js_error option"
  u_released :: bool
  u_time :: int
  u_server :: redis_lock

definition lost_after :: "heartbeat \<times> (redis_reply \<Rightarrow> int \<Rightarrow> heartbeat \<Rightarrow> heartbeat) \<Rightarrow> (redis_reply \<times> int) list \<Rightarrow> bool" where
  "lost_after hb ticks = hb_lost (fold (\<lambda>(r, now). snd hb r now) ticks (fst hb))"

definition runShared :: "rw_lock_options \<Rightarrow> breaker \<Rightarrow> 'a guarded \<Rightarrow> ((js_error + 'a) \<times> redis_lock) option" where
  "runShared opts b u =
     (case acquireShared opts (u_called_at u) (u_polls u) b of
        None \<Rightarrow> None
      | Some (Acquired, _) \<Rightarrow>
          Some (settle_work LockLost (lost_after (startSharedHeartbeat opts (u_held_at u)) (u_ticks u)) (u_hook u) (u_work u),
                if u_released u then snd (release_shared_script (u_token u) (u_server u)) else u_server u)
      | Some (Failing e, _) \<Rightarrow> Some (Inl (raise_lock e), u_server u)
      | Some (Retry, _) \<Rightarrow> None)"

definition writer_released :: "'a guarded \<Rightarrow> redis_lock" where
  "writer_released u = (if u_released u then snd (release_exclusive_script (u_time u) (u_token u) (u_server u)) else u_server u)"

definition runExclusive :: "rw_lock_options \<Rightarrow> breaker \<Rightarrow> 'a guarded \<Rightarrow> ((js_error + 'a) \<times> redis_lock) option" where
  "runExclusive opts b u =
     (case acquireExclusive opts (u_flag_at u) (u_polls u) b (new_budget (errorBudgetMs opts)) of
        None \<Rightarrow> None
      | Some (Failing e, _) \<Rightarrow> Some (Inl (raise_lock e), u_server u)
      | Some (Retry, _) \<Rightarrow> None
      | Some (Acquired, b1, eb1) \<Rightarrow>
          let hb = startExclusiveHeartbeat opts (u_held_at u)
          in (case waitReadersDrained (u_called_at u + acquireTimeoutMs opts) (u_drains u) b1 eb1 of
                None \<Rightarrow> None
              | Some (Failing e, _) \<Rightarrow> Some (Inl (raise_lock e), writer_released u)
              | Some (Retry, _) \<Rightarrow> None
              | Some (Acquired, _) \<Rightarrow>
                  Some (if lost_after hb (u_drain_ticks u) then Inl (raise_lock LockLost)
                        else settle_work LockLostAfterCommit (lost_after hb (u_drain_ticks u @ u_ticks u)) (u_hook u) (u_work u),
                        writer_released u)))"

definition withDistributedRWLock :: "rw_lock_options \<Rightarrow> bool \<Rightarrow> breaker \<Rightarrow> 'a guarded \<Rightarrow> (string + (js_error + 'a) \<times> redis_lock) option" where
  "withDistributedRWLock opts shared b u =
     (case assertOptions opts of
        Inl msg \<Rightarrow> Some (Inl msg)
      | Inr _ \<Rightarrow> map_option Inr (if shared then runShared opts b u else runExclusive opts b u))"

definition withDistributedLock :: "rw_lock_options \<Rightarrow> bool \<Rightarrow> breaker \<Rightarrow> 'a guarded \<Rightarrow> (string + (js_error + 'a) \<times> redis_lock) option" where
  "withDistributedLock opts readOnly b u =
     (case assertLockOptions opts of
        Inl msg \<Rightarrow> Some (Inl msg)
      | Inr _ \<Rightarrow>
          (case acquireMutex opts (u_called_at u) (u_polls u) b of
             None \<Rightarrow> None
           | Some (Failing e, _) \<Rightarrow> Some (Inr (Inl (raise_lock e), u_server u))
           | Some (Retry, _) \<Rightarrow> None
           | Some (Acquired, _) \<Rightarrow>
               Some (Inr (settle_work (if readOnly then LockLost else LockLostAfterCommit)
                            (lost_after (scheduleRenew opts (u_held_at u)) (u_ticks u)) (u_hook u) (u_work u),
                          if u_released u then snd (mutex_release_script (u_time u) (u_token u) (u_server u)) else u_server u))))"

section \<open>Replicas sharing one lock\<close>

text \<open>
  A call of the lock is a token. It is fresh until a poll that it hears of succeeds; a reader then reads; a
  writer then has the flag, and writes once it hears that the readers are drained. Each step is one script run
  on the server at the server's time; when \<open>heard\<close> is false the reply was lost and the caller does not know.
  Clients pass whatever their own clocks show.
\<close>

datatype phase = Fresh | Reading | Flagged | Writing | Gone

record lock_world =
  k_redis :: redis_lock
  k_time :: int
  k_phase :: "string \<Rightarrow> phase"

datatype lock_event =
    Pass int
  | AcquireShared string int int bool
  | RenewShared string int
  | ReleaseShared string
  | AcquireFlag string int bool
  | CheckDrained string int bool
  | RenewExclusive string int
  | ReleaseExclusive string
  | Leave string

fun lock_enabled :: "lock_event \<Rightarrow> lock_world \<Rightarrow> bool" where
  "lock_enabled (Pass n) w \<longleftrightarrow> 0 \<le> n"
| "lock_enabled (AcquireShared tok _ _ _) w \<longleftrightarrow> k_phase w tok = Fresh"
| "lock_enabled (RenewShared tok _) w \<longleftrightarrow> k_phase w tok = Reading"
| "lock_enabled (ReleaseShared tok) w \<longleftrightarrow> True"
| "lock_enabled (AcquireFlag tok lease _) w \<longleftrightarrow> k_phase w tok = Fresh"
| "lock_enabled (CheckDrained tok _ _) w \<longleftrightarrow> k_phase w tok = Flagged"
| "lock_enabled (RenewExclusive tok lease) w \<longleftrightarrow> k_phase w tok = Flagged \<or> k_phase w tok = Writing"
| "lock_enabled (ReleaseExclusive tok) w \<longleftrightarrow> True"
| "lock_enabled (Leave tok) w \<longleftrightarrow> True"

definition ran :: "lock_world \<Rightarrow> int \<times> redis_lock \<Rightarrow> string \<Rightarrow> (int \<Rightarrow> phase) \<Rightarrow> lock_world" where
  "ran w res tok f = w\<lparr>k_redis := snd res, k_phase := (k_phase w)(tok := f (fst res))\<rparr>"

fun lock_step :: "lock_event \<Rightarrow> lock_world \<Rightarrow> lock_world" where
  "lock_step (Pass n) w = w\<lparr>k_time := k_time w + n\<rparr>"
| "lock_step (AcquireShared tok now expireAt heard) w =
     ran w (acquire_shared_script (k_time w) tok now expireAt (k_redis w)) tok
       (\<lambda>r. if heard \<and> judge_shared r = Done then Reading else Fresh)"
| "lock_step (RenewShared tok expireAt) w = ran w (renew_shared_script tok expireAt (k_redis w)) tok (\<lambda>_. k_phase w tok)"
| "lock_step (ReleaseShared tok) w = ran w (release_shared_script tok (k_redis w)) tok (\<lambda>_. Gone)"
| "lock_step (AcquireFlag tok lease heard) w =
     ran w (acquire_exclusive_flag_script (k_time w) tok lease (k_redis w)) tok
       (\<lambda>r. if heard \<and> judge_shared r = Done then Flagged else Fresh)"
| "lock_step (CheckDrained tok now heard) w =
     ran w (check_readers_drained_script (k_time w) tok now (k_redis w)) tok
       (\<lambda>r. if heard then (case judge_drained r of Done \<Rightarrow> Writing | FlagLost \<Rightarrow> Gone | Again \<Rightarrow> Flagged) else Flagged)"
| "lock_step (RenewExclusive tok lease) w = ran w (renew_exclusive_script (k_time w) tok lease (k_redis w)) tok (\<lambda>_. k_phase w tok)"
| "lock_step (ReleaseExclusive tok) w = ran w (release_exclusive_script (k_time w) tok (k_redis w)) tok (\<lambda>_. Gone)"
| "lock_step (Leave tok) w = w\<lparr>k_phase := (k_phase w)(tok := Gone)\<rparr>"

inductive lock_moves :: "lock_world \<Rightarrow> lock_world \<Rightarrow> bool" where
  move: "lock_enabled st w \<Longrightarrow> lock_moves w (lock_step st w)"

definition free_lock :: "lock_world \<Rightarrow> bool" where
  "free_lock w \<longleftrightarrow> k_redis w = \<lparr>rk_writer = None, rk_readers = []\<rparr> \<and> (\<forall>tok. k_phase w tok = Fresh)"

abbreviation holds_flag :: "lock_world \<Rightarrow> string \<Rightarrow> bool" where
  "holds_flag w tok \<equiv> writer_get (k_time w) (k_redis w) = Some tok"

text \<open>While a writer that has entered holds the flag, the sorted set of readers is empty.\<close>

definition lock_inv :: "lock_world \<Rightarrow> bool" where
  "lock_inv w \<longleftrightarrow> (\<forall>tok. k_phase w tok = Writing \<and> holds_flag w tok \<longrightarrow> rk_readers (k_redis w) = [])"

lemmas script_defs = acquire_shared_script_def release_shared_script_def renew_shared_script_def acquire_exclusive_flag_script_def
  check_readers_drained_script_def renew_exclusive_script_def release_exclusive_script_def zrem_expired_def Let_def

lemma writer_get_simps [simp]:
  "writer_get t (l\<lparr>rk_readers := rs\<rparr>) = writer_get t l" "writer_get t (l\<lparr>rk_writer := None\<rparr>) = None"
  "writer_get t (l\<lparr>rk_writer := Some (tok, ex)\<rparr>) = (if t \<le> ex then Some tok else None)"
  by (simp_all add: writer_get_def)

lemma writer_get_later: "0 \<le> n \<Longrightarrow> writer_get (t + n) l = Some tok \<Longrightarrow> writer_get t l = Some tok"
  by (auto simp: writer_get_def split: option.splits if_splits)

lemma judge_drained_Done: "judge_drained (int (length xs)) = Done \<longleftrightarrow> xs = []"
  by (simp add: judge_drained_def)

lemma lock_step_inv: "lock_inv w \<Longrightarrow> lock_enabled st w \<Longrightarrow> lock_inv (lock_step st w)"
  by (cases st) (auto simp: lock_inv_def ran_def script_defs judge_drained_Done judge_shared_def judge_drained_def
      dest: writer_get_later split: if_splits verdict.splits)

interpretation rwd: safe_machine free_lock lock_moves lock_inv
proof unfold_locales
  show "lock_inv w" if "free_lock w" for w using that by (simp add: free_lock_def lock_inv_def)
  show "lock_inv w'" if "lock_inv w" and "lock_moves w w'" for w w' using that(2,1) by cases (simp add: lock_step_inv)
qed

lemma map_of_filter_None: "map_of t k = None \<Longrightarrow> map_of (filter P t) k = None"
  by (auto simp: map_of_eq_None_iff)

lemma token_forgotten:
  assumes "lock_moves\<^sup>*\<^sup>* w w'" and "k_phase w tok \<noteq> Fresh"
  shows "k_phase w' tok \<noteq> Fresh \<and> (map_of (rk_readers (k_redis w)) tok = None \<longrightarrow> map_of (rk_readers (k_redis w')) tok = None)
    \<and> (\<not> holds_flag w tok \<longrightarrow> \<not> holds_flag w' tok)"
  using assms(1)
proof (induction rule: rtranclp_induct)
  case base
  then show ?case using assms(2) by simp
next
  case (step v v')
  have keep: "k_phase (lock_step st v) tok \<noteq> Fresh
     \<and> (map_of (rk_readers (k_redis v)) tok = None \<longrightarrow> map_of (rk_readers (k_redis (lock_step st v))) tok = None)
     \<and> (\<not> holds_flag v tok \<longrightarrow> \<not> holds_flag (lock_step st v) tok)"
    if "lock_enabled st v" "k_phase v tok \<noteq> Fresh" for st
    using that by (cases st) (auto simp: ran_def script_defs map_of_update map_of_delete map_of_filter_None dest: writer_get_later
        split: if_splits verdict.splits)
  show ?case using step.hyps(2) step.IH keep by cases auto
qed

section \<open>Theorems\<close>

text \<open>
  C19. Mutual exclusion across replicas: whatever scripts the callers run in whatever order, however their clocks
  differ and whichever replies are lost, while a writer that has entered still holds the flag no reader is
  registered and no other writer that has entered holds it.
\<close>

theorem dist_rw_exclusion:
  assumes "free_lock w0" and "lock_moves\<^sup>*\<^sup>* w0 w" and "k_phase w tok = Writing" and "holds_flag w tok"
  shows "(\<forall>r. map_of (rk_readers (k_redis w)) r = None) \<and> (\<forall>tok'. tok' \<noteq> tok \<longrightarrow> \<not> holds_flag w tok')"
  using rwd.reachable_inv [OF assms(1,2)] assms(3,4) by (simp add: lock_inv_def)

definition demo_lock :: lock_world where
  "demo_lock = \<lparr>k_redis = \<lparr>rk_writer = None, rk_readers = []\<rparr>, k_time = 0, k_phase = \<lambda>_. Fresh\<rparr>"

definition demo_events :: "lock_event list" where
  "demo_events = [AcquireShared ''r'' 0 60 True, AcquireFlag ''w'' 100 True, CheckDrained ''w'' 10 True, Pass 20,
     ReleaseShared ''r'', CheckDrained ''w'' 20 True]"

fun lock_run :: "lock_event list \<Rightarrow> lock_world \<Rightarrow> lock_world option" where
  "lock_run [] w = Some w"
| "lock_run (st # sts) w = (if lock_enabled st w then lock_run sts (lock_step st w) else None)"

lemma lock_run_moves: "lock_run sts w = Some w' \<Longrightarrow> lock_moves\<^sup>*\<^sup>* w w'"
  by (induction sts arbitrary: w) (auto split: if_splits intro: converse_rtranclp_into_rtranclp lock_moves.move)

lemma demo_lock_free: "free_lock demo_lock"
  by (simp add: demo_lock_def free_lock_def)

theorem dist_rw_exclusion_witness:
  "\<exists>w. lock_run demo_events demo_lock = Some w \<and> k_phase w ''w'' = Writing \<and> (\<forall>r. map_of (rk_readers (k_redis w)) r = None)"
proof -
  have "map_option (\<lambda>w. (k_phase w ''w'', writer_get (k_time w) (k_redis w))) (lock_run demo_events demo_lock) = Some (Writing, Some ''w'')"
    by code_simp
  then obtain w where "lock_run demo_events demo_lock = Some w" "k_phase w ''w'' = Writing" "holds_flag w ''w''" by auto
  then show ?thesis using dist_rw_exclusion [OF demo_lock_free lock_run_moves, of demo_events w "''w''"] by blast
qed

text \<open>
  C20. A lost lease stays lost and is noticed: once a caller that had acquired the lock has no registration, or no
  flag, it never gets it back, whatever happens later, and every renewal it sends is answered as a loss of
  ownership.
\<close>

theorem lost_lease_is_noticed:
  assumes "k_phase w tok \<noteq> Fresh" and "lock_moves\<^sup>*\<^sup>* w w'"
  shows "(map_of (rk_readers (k_redis w)) tok = None \<longrightarrow> map_of (rk_readers (k_redis w')) tok = None
       \<and> renew_outcome_of (Replied (fst (renew_shared_script tok expireAt (k_redis w')))) = OwnershipLost)
    \<and> (\<not> holds_flag w tok \<longrightarrow> \<not> holds_flag w' tok
       \<and> renew_outcome_of (Replied (fst (renew_exclusive_script (k_time w') tok lease (k_redis w')))) = OwnershipLost)"
  using token_forgotten [OF assms(2,1)] by (simp add: renew_outcome_of_def renew_shared_script_def renew_exclusive_script_def)

theorem lost_lease_is_noticed_witness:
  "\<exists>w. lock_run [AcquireShared ''r'' 0 60 True, Pass 70, AcquireFlag ''w'' 100 True, CheckDrained ''w'' 70 True] demo_lock = Some w
    \<and> renew_outcome_of (Replied (fst (renew_shared_script ''r'' 130 (k_redis w)))) = OwnershipLost"
proof -
  let ?sts = "[AcquireShared ''r'' 0 60 True, Pass 70, AcquireFlag ''w'' 100 True, CheckDrained ''w'' 70 True]"
  have "map_option (\<lambda>w. (k_phase w ''r'', map_of (rk_readers (k_redis w)) ''r'')) (lock_run ?sts demo_lock) = Some (Reading, None)"
    by code_simp
  then obtain w where "lock_run ?sts demo_lock = Some w" "k_phase w ''r'' = Reading" "map_of (rk_readers (k_redis w)) ''r'' = None" by auto
  then show ?thesis using lost_lease_is_noticed [of w "''r''" w 130] by auto
qed

lemma poll_loop_returns:
  assumes "deadline \<le> q_checked_at (qs (k + n))"
  shows "\<exists>r b' eb'. poll_loop judge deadline qs k b eb = Some (r, b', eb') \<and> r \<noteq> Retry"
  using assms
proof (induction n arbitrary: k b eb)
  case 0
  obtain r b' eb' where res: "poll_once judge deadline (qs k) b eb = (r, b', eb')" by (cases "poll_once judge deadline (qs k) b eb")
  have "r \<noteq> Retry" using res 0 by (auto simp: poll_once_def Let_def split: prod.splits bool.splits redis_reply.splits verdict.splits if_splits)
  then show ?case using res by (subst poll_loop.simps) (cases r; simp)
next
  case (Suc n)
  obtain r b' eb' where res: "poll_once judge deadline (qs k) b eb = (r, b', eb')" by (cases "poll_once judge deadline (qs k) b eb")
  show ?case
  proof (cases "r = Retry")
    case True
    then show ?thesis using res Suc.IH [of "Suc k" b' eb'] Suc.prems by (subst poll_loop.simps) simp
  next
    case False
    then show ?thesis using res by (subst poll_loop.simps) (cases r; simp)
  qed
qed

lemma poll_threw:
  assumes "q_reply q = Threw" and "poll_once judge deadline q b eb = (r, b', eb')" and "r \<noteq> Failing ELOCKTIMEOUT"
  shows "r = Retry \<and> eb' = snd (recordError (q_failed_at q) eb) \<and> \<not> fst (recordError (q_failed_at q) eb)"
  using assms by (auto simp: poll_once_def Let_def split: prod.splits bool.splits if_splits)

lemma poll_loop_outage:
  assumes "\<forall>j \<le> n. q_reply (qs (k + j)) = Threw" and "budgetMs eb \<le> q_failed_at (qs (k + n)) - first"
    and "firstErrorAt eb = Some first \<or> n \<noteq> 0 \<and> firstErrorAt eb = None \<and> q_failed_at (qs k) = first \<or> firstErrorAt eb = None \<and> budgetMs eb \<le> 0"
  shows "\<exists>b' eb'. poll_loop judge deadline qs k b eb = Some (Failing ELOCKTIMEOUT, b', eb')"
  using assms
proof (induction n arbitrary: k b eb)
  case 0
  obtain r b' eb' where res: "poll_once judge deadline (qs k) b eb = (r, b', eb')" by (cases "poll_once judge deadline (qs k) b eb")
  have "r = Failing ELOCKTIMEOUT"
    using poll_threw [OF _ res] 0 by (cases "firstErrorAt eb") (auto simp: recordError_def Let_def)
  then show ?case using res by (subst poll_loop.simps) simp
next
  case (Suc n)
  obtain r b' eb' where res: "poll_once judge deadline (qs k) b eb = (r, b', eb')" by (cases "poll_once judge deadline (qs k) b eb")
  have threw: "q_reply (qs k) = Threw" using Suc.prems(1) by (metis add_0_right zero_le)
  show ?case
  proof (cases "r = Failing ELOCKTIMEOUT")
    case True
    then show ?thesis using res by (subst poll_loop.simps) simp
  next
    case False
    then have r: "r = Retry" and eb': "eb' = snd (recordError (q_failed_at (qs k)) eb)" and ok: "\<not> fst (recordError (q_failed_at (qs k)) eb)"
      using poll_threw [OF threw res] by simp_all
    have all: "\<forall>j \<le> n. q_reply (qs (Suc k + j)) = Threw" using Suc.prems(1) by (metis Suc_le_mono add_Suc_shift)
    have budget: "budgetMs eb' = budgetMs eb" using eb' by (simp add: recordError_def Let_def)
    have "firstErrorAt eb' = Some first"
      using Suc.prems(3) eb' budget ok by (auto simp: recordError_def Let_def split: option.splits)
    then have "\<exists>b'' eb''. poll_loop judge deadline qs (Suc k) b' eb' = Some (Failing ELOCKTIMEOUT, b'', eb'')"
      by (intro Suc.IH) (use all Suc.prems(2) budget in auto)
    then show ?thesis using res r by (subst poll_loop.simps) simp
  qed
qed

text \<open>
  C21. Acquiring returns: if the clock ever reaches the deadline at the end of a poll, the loop of a shared
  acquire, of a mutex acquire and of a writer's wait for readers returns; and when every poll throws, the shared
  acquire fails with ELOCKTIMEOUT at the latest when the errors have lasted the error budget.
\<close>

theorem acquire_returns:
  assumes "start + acquireTimeoutMs opts \<le> q_checked_at (qs n)"
  shows "(\<exists>r b' eb'. acquireShared opts start qs b = Some (r, b', eb') \<and> r \<noteq> Retry)
    \<and> (\<exists>r b' eb'. acquireMutex opts start qs b = Some (r, b', eb') \<and> r \<noteq> Retry)
    \<and> (\<exists>r b' eb'. waitReadersDrained (start + acquireTimeoutMs opts) qs b eb = Some (r, b', eb') \<and> r \<noteq> Retry)
    \<and> ((\<forall>j \<le> m. q_reply (qs j) = Threw) \<and> errorBudgetMs opts \<le> q_failed_at (qs m) - q_failed_at (qs 0) \<longrightarrow>
         (\<exists>b' eb'. acquireShared opts start qs b = Some (Failing ELOCKTIMEOUT, b', eb')))"
proof -
  have at: "start + acquireTimeoutMs opts \<le> q_checked_at (qs (0 + n))" using assms by simp
  have outage: "\<exists>b' eb'. poll_loop judge_shared (start + acquireTimeoutMs opts) qs 0 b (new_budget (errorBudgetMs opts)) = Some (Failing ELOCKTIMEOUT, b', eb')"
    if "\<forall>j \<le> m. q_reply (qs j) = Threw" "errorBudgetMs opts \<le> q_failed_at (qs m) - q_failed_at (qs 0)"
    using poll_loop_outage [of m qs 0 "new_budget (errorBudgetMs opts)" "q_failed_at (qs 0)"] that by (cases m) (auto simp: new_budget_def)
  show ?thesis
    unfolding acquireShared_def acquireMutex_def waitReadersDrained_def using poll_loop_returns [of _ qs 0 n, OF at] outage by blast
qed

definition demo_poll :: "nat \<Rightarrow> poll" where
  "demo_poll k = \<lparr>q_before = [], q_asked_at = 100 * int k, q_during = [], q_reply = Threw, q_failed_at = 100 * int k, q_checked_at = 100 * int k\<rparr>"

theorem acquire_returns_witness:
  "\<exists>b' eb'. acquireShared (rw_lock_defaults\<lparr>errorBudgetMs := 300\<rparr>) 0 demo_poll (new_breaker 5 30000) = Some (Failing ELOCKTIMEOUT, b', eb')"
  using acquire_returns [of 0 "rw_lock_defaults\<lparr>errorBudgetMs := 300\<rparr>" demo_poll 750 "new_breaker 5 30000" "new_budget 0" 3]
  by (simp add: rw_lock_defaults_def demo_poll_def)

lemma settled_not_retryable:
  assumes "\<forall>h. hook = Some h \<longrightarrow> \<not> isRetryableError (Some h)" and "settle_work LockLostAfterCommit lost hook (Inr r) = Inl e"
  shows "\<not> isRetryableError (Some e)"
proof -
  have "\<not> isRetryableError (Some (raise_lock LockLostAfterCommit))" by code_simp
  then show ?thesis using assms by (auto simp: settle_work_def split: if_splits option.splits)
qed

text \<open>
  C22. A durable write is never advertised as retryable: when the work of a call that got the exclusive lock has
  run and returned, and the hook for a lost lease does not itself raise a retryable error, the call either returns
  the result of the work or raises an error that clients are not told to retry.
\<close>

theorem committed_never_retryable:
  assumes "\<forall>h. u_hook u = Some h \<longrightarrow> \<not> isRetryableError (Some h)" and "u_work u = Inr r"
    and "acquireExclusive opts (u_flag_at u) (u_polls u) b (new_budget (errorBudgetMs opts)) = Some (Acquired, b1, eb1)"
    and "waitReadersDrained (u_called_at u + acquireTimeoutMs opts) (u_drains u) b1 eb1 = Some (Acquired, b2, eb2)"
    and "\<not> lost_after (startExclusiveHeartbeat opts (u_held_at u)) (u_drain_ticks u)"
  shows "\<exists>out l. runExclusive opts b u = Some (out, l) \<and> (out = Inr r \<or> (\<exists>e. out = Inl e \<and> \<not> isRetryableError (Some e)))"
proof -
  let ?out = "settle_work LockLostAfterCommit (lost_after (startExclusiveHeartbeat opts (u_held_at u)) (u_drain_ticks u @ u_ticks u)) (u_hook u) (u_work u)"
  have "runExclusive opts b u = Some (?out, writer_released u)" using assms(3-5) by (simp add: runExclusive_def Let_def)
  moreover have "?out = Inr r \<or> (\<exists>e. ?out = Inl e \<and> \<not> isRetryableError (Some e))"
  proof (cases ?out)
    case (Inl e)
    then have "\<not> isRetryableError (Some e)" using settled_not_retryable [OF assms(1), of _ r e] assms(2) by simp
    then show ?thesis using Inl by simp
  qed (use assms(2) in \<open>auto simp: settle_work_def split: if_splits option.splits\<close>)
  ultimately show ?thesis by blast
qed

definition demo_answer :: "int \<Rightarrow> nat \<Rightarrow> poll" where
  "demo_answer n k = \<lparr>q_before = [], q_asked_at = 0, q_during = [], q_reply = Replied n, q_failed_at = 0, q_checked_at = 0\<rparr>"

definition demo_call :: "int guarded" where
  "demo_call = \<lparr>u_token = ''w'', u_called_at = 0, u_flag_at = 0, u_polls = demo_answer 1, u_drains = demo_answer 0, u_held_at = 0,
     u_drain_ticks = [], u_ticks = [(Replied 0, 20000)], u_work = Inr 7, u_hook = None, u_released = True, u_time = 20000,
     u_server = \<lparr>rk_writer = Some (''x'', 90000), rk_readers = []\<rparr>\<rparr>"

theorem committed_never_retryable_witness:
  "\<exists>out l. runExclusive rw_lock_defaults (new_breaker 5 1000) demo_call = Some (out, l)
     \<and> (out = Inr 7 \<or> (\<exists>e. out = Inl e \<and> \<not> isRetryableError (Some e)))"
proof (rule committed_never_retryable)
  show "acquireExclusive rw_lock_defaults (u_flag_at demo_call) (u_polls demo_call) (new_breaker 5 1000) (new_budget (errorBudgetMs rw_lock_defaults))
      = Some (Acquired, new_breaker 5 1000, new_budget 4000)" by code_simp
  show "waitReadersDrained (u_called_at demo_call + acquireTimeoutMs rw_lock_defaults) (u_drains demo_call) (new_breaker 5 1000) (new_budget 4000)
      = Some (Acquired, new_breaker 5 1000, new_budget 4000)" by code_simp
  show "\<not> lost_after (startExclusiveHeartbeat rw_lock_defaults (u_held_at demo_call)) (u_drain_ticks demo_call)" by code_simp
qed (simp_all add: demo_call_def)

text \<open>The release leaves no flag of the caller behind, whatever came of the work.\<close>

lemma exclusive_released:
  assumes "runExclusive opts b u = Some (out, l)" and "u_released u"
    and "acquireExclusive opts (u_flag_at u) (u_polls u) b (new_budget (errorBudgetMs opts)) = Some (Acquired, b1, eb1)"
  shows "writer_get (u_time u) l \<noteq> Some (u_token u)"
  using assms
  by (auto simp: runExclusive_def Let_def writer_released_def release_exclusive_script_def split: option.splits prod.splits poll_result.splits if_splits)

section \<open>Lemmas on heartbeats and options\<close>

text \<open>Failures of renewals alone never give up a lease before it expires.\<close>

lemma heartbeat_rides_out:
  assumes "\<forall>(r, now) \<in> set ticks. r = Threw \<and> now < hb_expires h" and "hb_next h \<noteq> None" and "\<not> hb_lost h"
  shows "let h' = fold (\<lambda>(r, now). heartbeat_tick lease renew r now) ticks h
         in \<not> hb_lost h' \<and> hb_expires h' = hb_expires h \<and> hb_next h' \<noteq> None"
  using assms
proof (induction ticks arbitrary: h)
  case (Cons x xs)
  obtain r now where x: "x = (r, now)" by force
  have "heartbeat_tick lease renew r now h = h\<lparr>hb_next := Some (renewRetryMs renew)\<rparr>"
    using Cons.prems x by (auto simp: heartbeat_tick_def renew_outcome_of_def)
  then show ?case using Cons.IH [of "h\<lparr>hb_next := Some (renewRetryMs renew)\<rparr>"] Cons.prems x by (simp add: Let_def)
qed simp

text \<open>
  The holder's estimate of its lease starts at the reply, the server's at the request: with a reply that took 30
  of a lease of 100, and failing renewals, the holder does not count itself lost at a time when the key has
  expired and another caller owns it.
\<close>

lemma heartbeat_overestimates_lease:
  "let l0 = \<lparr>rk_writer = None, rk_readers = []\<rparr>;
       l1 = snd (acquire_exclusive_flag_script 0 ''a'' 100 l0);
       h = start_heartbeat 100 33 30;
       l2 = snd (acquire_exclusive_flag_script 101 ''b'' 100 l1);
       h' = fold (\<lambda>(r, now). heartbeat_tick 100 33 r now) [(Threw, 70), (Threw, 110)] h
   in writer_get 110 l2 = Some ''b'' \<and> \<not> hb_lost h'"
  by code_simp

text \<open>Options that pass the check at startup may be refused by every call of the lock.\<close>

lemma boot_accepts_unusable_options:
  "\<exists>opts. loadExecLockOptions (\<lambda>v. if v = ''REDIS_EXEC_LOCK_RENEW_MS'' then Some ''60000'' else None) (\<lambda>_. Some 60000) = Inr opts
     \<and> assertOptions opts \<noteq> Inr () \<and> assertLockOptions opts \<noteq> Inr ()"
  by (simp add: loadExecLockOptions_def sum_then_def parsePositiveInt_def parseNonNegativeInt_def parse_int_above_def
      assertAcquireTimeoutAboveLeases_def rw_lock_defaults_def assertOptions_def assertLockOptions_def)

lemma jitter_bounds: "0 \<le> retry \<Longrightarrow> 0 \<le> random \<Longrightarrow> random < 1 \<Longrightarrow> retry / 2 \<le> jitteredDelayMs retry random \<and> jitteredDelayMs retry random \<le> retry"
proof -
  assume a: "0 \<le> retry" "0 \<le> random" "random < 1"
  have "random * (retry / 2) \<le> 1 * (retry / 2)" by (rule mult_right_mono) (use a in auto)
  then show ?thesis using a by (simp add: jitteredDelayMs_def Let_def field_simps)
qed

end
