(* ===== verification/RwLock.thy ===== *)
theory RwLock
  imports Prelude "HOL-Library.Multiset"
begin

text \<open>
  \<open>src/api/rw-lock.ts\<close>: the in-process readers-writer lock with writer priority. A waiter is the
  queued promise; \<open>rw_sys\<close> adds the callers that currently run under the lock, so that histories of
  requests, aborts and completions can be stated. One event-loop turn runs one of the operations.
\<close>

section \<open>State and operations\<close>

datatype lock_mode = Shared | Exclusive

record rw_waiter =
  w_id :: nat
  w_mode :: lock_mode
  w_settled :: bool

record rw_lock =
  readers :: nat
  writerActive :: bool
  rw_queue :: "rw_waiter list"

definition new_rw_lock :: rw_lock where
  "new_rw_lock = \<lparr>readers = 0, writerActive = False, rw_queue = []\<rparr>"

definition pendingCount :: "rw_lock \<Rightarrow> nat" where
  "pendingCount l = length (filter (\<lambda>w. \<not> w_settled w) (rw_queue l))"

definition hasQueuedWriter :: "rw_lock \<Rightarrow> bool" where
  "hasQueuedWriter l \<longleftrightarrow> list_ex (\<lambda>w. \<not> w_settled w \<and> w_mode w = Exclusive) (rw_queue l)"

datatype acquisition = Granted | Queued | Aborted

definition rw_enqueue :: "nat \<Rightarrow> lock_mode \<Rightarrow> rw_lock \<Rightarrow> rw_lock" where
  "rw_enqueue i m l = l\<lparr>rw_queue := rw_queue l @ [\<lparr>w_id = i, w_mode = m, w_settled = False\<rparr>]\<rparr>"

definition rw_acquire :: "nat \<Rightarrow> lock_mode \<Rightarrow> bool \<Rightarrow> rw_lock \<Rightarrow> acquisition \<times> rw_lock" where
  "rw_acquire i m aborted l =
     (if aborted then (Aborted, l)
      else
        (case m of
           Shared \<Rightarrow>
             if \<not> writerActive l \<and> \<not> hasQueuedWriter l then (Granted, l\<lparr>readers := Suc (readers l)\<rparr>)
             else (Queued, rw_enqueue i m l)
         | Exclusive \<Rightarrow>
             if \<not> writerActive l \<and> readers l = 0 then (Granted, l\<lparr>writerActive := True\<rparr>)
             else (Queued, rw_enqueue i m l)))"

text \<open>The abort listener of a queued waiter: settled and taken out of the queue, nothing else.\<close>

fun drop_waiter :: "nat \<Rightarrow> rw_waiter list \<Rightarrow> rw_waiter list" where
  "drop_waiter i [] = []"
| "drop_waiter i (w # ws) = (if w_id w = i then ws else w # drop_waiter i ws)"

definition rw_abort :: "nat \<Rightarrow> rw_lock \<Rightarrow> rw_lock" where
  "rw_abort i l = l\<lparr>rw_queue := drop_waiter i (rw_queue l)\<rparr>"

text \<open>The last loop of \<open>#dispatch\<close>: the shared waiters at the head of the queue, and the rest.\<close>

fun wake_readers :: "rw_waiter list \<Rightarrow> nat list \<times> rw_waiter list" where
  "wake_readers [] = ([], [])"
| "wake_readers (w # ws) =
     (if w_settled w then wake_readers ws
      else if w_mode w \<noteq> Shared then ([], w # ws)
      else (case wake_readers ws of (ids, rest) \<Rightarrow> (w_id w # ids, rest)))"

definition rw_dispatch :: "rw_lock \<Rightarrow> nat list \<times> rw_lock" where
  "rw_dispatch l =
     (let l1 = l\<lparr>rw_queue := dropWhile w_settled (rw_queue l)\<rparr>
      in case rw_queue l1 of
           [] \<Rightarrow> ([], l1)
         | head # ws \<Rightarrow>
             if writerActive l1 then ([], l1)
             else if w_mode head = Exclusive then
               (if readers l1 > 0 then ([], l1)
                else ([w_id head], l1\<lparr>rw_queue := ws, writerActive := True\<rparr>))
             else
               (case wake_readers (rw_queue l1) of
                  (ids, rest) \<Rightarrow> (ids, l1\<lparr>rw_queue := rest, readers := readers l1 + length ids\<rparr>)))"

definition releaseShared :: "rw_lock \<Rightarrow> string + (nat list \<times> rw_lock)" where
  "releaseShared l =
     (if readers l = 0 then Inl ''RWLock: releaseShared called with no active readers''
      else
        let l1 = l\<lparr>readers := readers l - 1\<rparr>
        in Inr (if readers l1 = 0 then rw_dispatch l1 else ([], l1)))"

definition releaseExclusive :: "rw_lock \<Rightarrow> string + (nat list \<times> rw_lock)" where
  "releaseExclusive l =
     (if \<not> writerActive l then Inl ''RWLock: releaseExclusive called with no active writer''
      else Inr (rw_dispatch (l\<lparr>writerActive := False\<rparr>)))"

section \<open>Callers\<close>

text \<open>
  \<open>runShared\<close> and \<open>runExclusive\<close>: a caller holds the lock from the grant until its function settles,
  and then releases it once, whatever the outcome. Request ids are handed out in order.
\<close>

record rw_sys =
  the_lock :: rw_lock
  sharers :: "nat list"
  owners :: "nat list"
  next_req :: nat

definition new_rw_sys :: rw_sys where
  "new_rw_sys = \<lparr>the_lock = new_rw_lock, sharers = [], owners = [], next_req = 0\<rparr>"

definition request :: "lock_mode \<Rightarrow> bool \<Rightarrow> rw_sys \<Rightarrow> rw_sys" where
  "request m aborted s =
     (case rw_acquire (next_req s) m aborted (the_lock s) of
        (Granted, l) \<Rightarrow>
          (case m of
             Shared \<Rightarrow> s\<lparr>the_lock := l, sharers := next_req s # sharers s, next_req := Suc (next_req s)\<rparr>
           | Exclusive \<Rightarrow> s\<lparr>the_lock := l, owners := next_req s # owners s, next_req := Suc (next_req s)\<rparr>)
      | (_, l) \<Rightarrow> s\<lparr>the_lock := l, next_req := Suc (next_req s)\<rparr>)"

definition abort_request :: "nat \<Rightarrow> rw_sys \<Rightarrow> rw_sys" where
  "abort_request i s = s\<lparr>the_lock := rw_abort i (the_lock s)\<rparr>"

text \<open>The requests a dispatch wakes: one writer, or a batch of readers.\<close>

definition enter :: "nat list \<times> rw_lock \<Rightarrow> rw_sys \<Rightarrow> rw_sys" where
  "enter g s =
     (case g of (ids, l) \<Rightarrow>
        if writerActive l then s\<lparr>the_lock := l, owners := ids @ owners s\<rparr>
        else s\<lparr>the_lock := l, sharers := ids @ sharers s\<rparr>)"

definition finish_shared :: "nat \<Rightarrow> rw_sys \<Rightarrow> string + rw_sys" where
  "finish_shared i s =
     (case releaseShared (the_lock s) of
        Inl e \<Rightarrow> Inl e
      | Inr g \<Rightarrow> Inr (enter g (s\<lparr>sharers := remove1 i (sharers s)\<rparr>)))"

definition finish_exclusive :: "nat \<Rightarrow> rw_sys \<Rightarrow> string + rw_sys" where
  "finish_exclusive i s =
     (case releaseExclusive (the_lock s) of
        Inl e \<Rightarrow> Inl e
      | Inr g \<Rightarrow> Inr (enter g (s\<lparr>owners := remove1 i (owners s)\<rparr>)))"

inductive rw_step :: "rw_sys \<Rightarrow> rw_sys \<Rightarrow> bool" where
  req: "rw_step s (request m aborted s)"
| abort: "rw_step s (abort_request i s)"
| fin_shared: "i \<in> set (sharers s) \<Longrightarrow> finish_shared i s = Inr t \<Longrightarrow> rw_step s t"
| fin_exclusive: "i \<in> set (owners s) \<Longrightarrow> finish_exclusive i s = Inr t \<Longrightarrow> rw_step s t"

inductive_cases rw_stepE: "rw_step s t"

section \<open>Invariant\<close>

text \<open>
  The counters describe the callers inside; readers and a writer exclude each other; no queued waiter
  is settled; and the lock is never idle while somebody waits, so no wake-up is lost.
\<close>

definition rw_ids :: "rw_lock \<Rightarrow> nat list" where
  "rw_ids l = map w_id (rw_queue l)"

definition rw_inv :: "rw_sys \<Rightarrow> bool" where
  "rw_inv s \<longleftrightarrow>
     readers (the_lock s) = length (sharers s) \<and> writerActive (the_lock s) = (owners s \<noteq> []) \<and> length (owners s) \<le> 1
     \<and> (writerActive (the_lock s) \<longrightarrow> readers (the_lock s) = 0)
     \<and> list_all (\<lambda>w. \<not> w_settled w) (rw_queue (the_lock s))
     \<and> (readers (the_lock s) = 0 \<and> \<not> writerActive (the_lock s) \<longrightarrow> rw_queue (the_lock s) = [])"

lemma drop_waiter_subset: "set (drop_waiter i ws) \<subseteq> set ws"
  by (induction ws) auto

lemma drop_waiter_all: "list_all P ws \<Longrightarrow> list_all P (drop_waiter i ws)"
  by (induction ws) auto

lemma dropWhile_unsettled: "list_all (\<lambda>w. \<not> w_settled w) ws \<Longrightarrow> dropWhile w_settled ws = ws"
  by (cases ws) auto

lemma wake_readers_unsettled:
  assumes "list_all (\<lambda>w. \<not> w_settled w) ws" and "wake_readers ws = (ids, rest)"
  shows "\<exists>batch. ws = batch @ rest \<and> ids = map w_id batch \<and> list_all (\<lambda>w. w_mode w = Shared) batch
    \<and> (rest = [] \<or> w_mode (hd rest) = Exclusive)"
  using assms
proof (induction ws arbitrary: ids rest)
  case (Cons w ws)
  show ?case
  proof (cases "w_mode w = Shared")
    case True
    obtain ids' where ids': "wake_readers ws = (ids', rest)" "ids = w_id w # ids'"
      using Cons.prems True by (auto split: prod.splits)
    from Cons.IH [OF _ ids'(1)] Cons.prems(1) obtain batch
      where "ws = batch @ rest" "ids' = map w_id batch" "list_all (\<lambda>w. w_mode w = Shared) batch"
        "rest = [] \<or> w_mode (hd rest) = Exclusive" by auto
    then show ?thesis using ids'(2) True by (intro exI [of _ "w # batch"]) simp
  next
    case False
    then have "w_mode w = Exclusive" by (cases "w_mode w") simp_all
    then show ?thesis using Cons.prems by auto
  qed
qed auto

lemma dispatch_idle:
  assumes idle: "readers l = 0" "\<not> writerActive l" and uns: "list_all (\<lambda>w. \<not> w_settled w) (rw_queue l)"
  shows "rw_inv (enter (rw_dispatch l) \<lparr>the_lock = l0, sharers = [], owners = [], next_req = n\<rparr>)"
proof (cases "rw_queue l")
  case Nil
  then show ?thesis using idle by (simp add: rw_dispatch_def enter_def rw_inv_def)
next
  case (Cons h ws)
  show ?thesis
  proof (cases "w_mode h")
    case Shared
    obtain ids rest where wk: "wake_readers (rw_queue l) = (ids, rest)" by force
    have ne: "ids \<noteq> []" using wk Cons Shared uns by (auto split: prod.splits)
    obtain batch where "rw_queue l = batch @ rest" using wake_readers_unsettled [OF uns wk] by blast
    then have "list_all (\<lambda>w. \<not> w_settled w) rest" using uns by simp
    then show ?thesis
      using wk ne idle Cons Shared dropWhile_unsettled [OF uns]
      by (simp add: rw_dispatch_def enter_def rw_inv_def Let_def)
  next
    case Exclusive
    then show ?thesis
      using idle Cons uns dropWhile_unsettled [OF uns]
      by (simp add: rw_dispatch_def enter_def rw_inv_def Let_def)
  qed
qed

lemma finish_shared_inv:
  assumes "rw_inv s" and "i \<in> set (sharers s)" and "finish_shared i s = Inr t"
  shows "rw_inv t"
proof -
  let ?l = "the_lock s" and ?l1 = "(the_lock s)\<lparr>readers := readers (the_lock s) - 1\<rparr>"
  have len: "length (remove1 i (sharers s)) = length (sharers s) - 1" using assms(2) by (simp add: length_remove1)
  have pos: "0 < readers ?l" and own: "owners s = []" "\<not> writerActive ?l" and uns: "list_all (\<lambda>w. \<not> w_settled w) (rw_queue ?l)"
    using assms(1,2) by (auto simp: rw_inv_def)
  show ?thesis
  proof (cases "readers ?l1 = 0")
    case True
    then have "remove1 i (sharers s) = []" using assms(1) len by (simp add: rw_inv_def)
    moreover have "t = enter (rw_dispatch ?l1) (s\<lparr>sharers := remove1 i (sharers s)\<rparr>)"
      using assms(3) pos True by (simp add: finish_shared_def releaseShared_def Let_def)
    ultimately show ?thesis
      using dispatch_idle [of ?l1 ?l "next_req s"] True own uns by (cases s) simp
  next
    case False
    then have "t = s\<lparr>sharers := remove1 i (sharers s), the_lock := ?l1\<rparr>"
      using assms(3) pos own by (auto simp: finish_shared_def releaseShared_def enter_def Let_def)
    then show ?thesis using assms(1) False own len by (simp add: rw_inv_def)
  qed
qed

lemma finish_exclusive_inv:
  assumes "rw_inv s" and "i \<in> set (owners s)" and "finish_exclusive i s = Inr t"
  shows "rw_inv t"
proof -
  let ?l1 = "(the_lock s)\<lparr>writerActive := False\<rparr>"
  have f: "writerActive (the_lock s)" "readers (the_lock s) = 0" "sharers s = []"
    "list_all (\<lambda>w. \<not> w_settled w) (rw_queue (the_lock s))" "length (owners s) = 1" using assms(1,2) by (auto simp: rw_inv_def le_Suc_eq)
  have "t = enter (rw_dispatch ?l1) (s\<lparr>owners := []\<rparr>)"
    using assms(2,3) f(1,5) by (auto simp: finish_exclusive_def releaseExclusive_def length_Suc_conv)
  then show ?thesis using dispatch_idle [of ?l1 "the_lock s" "next_req s"] f by (cases s) simp
qed

lemma request_inv: "rw_inv s \<Longrightarrow> rw_inv (request m aborted s)"
  by (cases m)
     (auto simp: request_def rw_acquire_def rw_inv_def rw_enqueue_def hasQueuedWriter_def split: if_splits)

lemma abort_inv: "rw_inv s \<Longrightarrow> rw_inv (abort_request i s)"
  using drop_waiter_all by (auto simp: abort_request_def rw_abort_def rw_inv_def)

interpretation rw: safe_machine "\<lambda>s. s = new_rw_sys" rw_step rw_inv
proof
  show "rw_inv s" if "s = new_rw_sys" for s
    using that by (simp add: rw_inv_def new_rw_sys_def new_rw_lock_def)
  show "rw_inv t" if "rw_inv s" "rw_step s t" for s t
    using that(2,1)
    by (induction rule: rw_step.induct) (blast intro: request_inv abort_inv finish_shared_inv finish_exclusive_inv)+
qed

section \<open>Progress\<close>

lemma dispatch_serves_head:
  assumes "readers l = 0" "\<not> writerActive l" "list_all (\<lambda>w. \<not> w_settled w) (rw_queue l)" and q: "rw_queue l = h # ws"
    and "sharers s = []" "owners s = []"
  shows "w_id h \<in> set (sharers (enter (rw_dispatch l) s)) \<or> w_id h \<in> set (owners (enter (rw_dispatch l) s))"
  using assms by (cases "w_mode h") (auto simp: rw_dispatch_def enter_def Let_def split: prod.split)

text \<open>The current readers complete, in the given order.\<close>

fun finish_readers :: "nat list \<Rightarrow> rw_sys \<Rightarrow> string + rw_sys" where
  "finish_readers [] s = Inr s"
| "finish_readers (i # is) s = (case finish_shared i s of Inl e \<Rightarrow> Inl e | Inr t \<Rightarrow> finish_readers is t)"

definition inside :: "nat \<Rightarrow> rw_sys \<Rightarrow> bool" where
  "inside i s \<longleftrightarrow> i \<in> set (sharers s) \<or> i \<in> set (owners s)"

lemma finish_readers_serves_head:
  assumes "rw_inv s" and "owners s = []" and "rw_queue (the_lock s) = h # ws" and "mset is = mset (sharers s)"
  shows "\<exists>t. finish_readers is s = Inr t \<and> inside (w_id h) t"
  using assms
proof (induction "is" arbitrary: s)
  case Nil
  then show ?case by (auto simp: rw_inv_def)
next
  case (Cons i "is")
  let ?l = "the_lock s" and ?l1 = "(the_lock s)\<lparr>readers := readers (the_lock s) - 1\<rparr>"
  have mem: "i \<in> set (sharers s)" using Cons.prems(4) by (metis list.set_intros(1) set_mset_mset)
  have rest: "mset is = mset (remove1 i (sharers s))" using Cons.prems(4) by (metis add_mset_remove_trivial mset.simps(2) mset_remove1)
  have len: "readers ?l = Suc (length is)" using Cons.prems(1,4) by (metis length_Cons rw_inv_def size_mset)
  have uns: "list_all (\<lambda>w. \<not> w_settled w) (rw_queue ?l)" and nw: "\<not> writerActive ?l"
    using Cons.prems(1,2) by (auto simp: rw_inv_def)
  show ?case
  proof (cases "is")
    case Nil
    have "remove1 i (sharers s) = []" using rest Nil by (simp del: mset_remove1)
    then have "finish_shared i s = Inr (enter (rw_dispatch ?l1) (s\<lparr>sharers := []\<rparr>))"
      using len Nil by (simp add: finish_shared_def releaseShared_def)
    moreover have "inside (w_id h) (enter (rw_dispatch ?l1) (s\<lparr>sharers := []\<rparr>))"
      unfolding inside_def
      by (rule dispatch_serves_head [of ?l1 h ws]) (use Nil len uns nw Cons.prems(2,3) in simp_all)
    ultimately show ?thesis using Nil by simp
  next
    case (Cons j js)
    let ?t = "s\<lparr>the_lock := ?l1, sharers := remove1 i (sharers s)\<rparr>"
    have fs: "finish_shared i s = Inr ?t"
      using len Cons nw by (auto simp: finish_shared_def releaseShared_def enter_def Let_def)
    have "\<exists>t. finish_readers is ?t = Inr t \<and> inside (w_id h) t"
      by (rule Cons.IH) (use finish_shared_inv [OF Cons.prems(1) mem fs] Cons.prems(2,3) rest in simp_all)
    then show ?thesis using fs by simp
  qed
qed

section \<open>Order of service\<close>

text \<open>
  Waiters queue in the order of their requests, and everyone inside asked before every queued writer.
\<close>

definition rw_fifo :: "rw_sys \<Rightarrow> bool" where
  "rw_fifo s \<longleftrightarrow> rw_inv s \<and> sorted_wrt (<) (rw_ids (the_lock s))
     \<and> (\<forall>w \<in> set (rw_queue (the_lock s)). w_id w < next_req s) \<and> (\<forall>i. inside i s \<longrightarrow> i < next_req s)
     \<and> (\<forall>w \<in> set (rw_queue (the_lock s)). w_mode w = Exclusive \<longrightarrow> (\<forall>i. inside i s \<longrightarrow> i < w_id w))"

lemma drop_waiter_sorted: "sorted_wrt R (map w_id ws) \<Longrightarrow> sorted_wrt R (map w_id (drop_waiter i ws))"
  using drop_waiter_subset by (induction ws) (fastforce simp: subset_iff)+

lemma request_fifo:
  assumes "rw_fifo s" shows "rw_fifo (request m aborted s)"
proof -
  note old = assms [unfolded rw_fifo_def inside_def rw_ids_def]
  have queued: "\<not> list_ex (\<lambda>w. \<not> w_settled w \<and> w_mode w = Exclusive) (rw_queue (the_lock s)) \<Longrightarrow>
      w \<in> set (rw_queue (the_lock s)) \<Longrightarrow> w_mode w \<noteq> Exclusive" for w
    using old by (auto simp: rw_inv_def list_all_iff list_ex_iff)
  have idle: "\<not> writerActive (the_lock s) \<Longrightarrow> readers (the_lock s) = 0 \<Longrightarrow> rw_queue (the_lock s) = []"
    using old by (auto simp: rw_inv_def)
  have "rw_inv (request m aborted s)" using old request_inv by blast
  then show ?thesis
    unfolding rw_fifo_def inside_def rw_ids_def using old queued idle
    by (cases m) (auto simp: request_def rw_acquire_def rw_enqueue_def hasQueuedWriter_def sorted_wrt_append less_Suc_eq)
qed

lemma dispatch_fifo:
  assumes idle: "readers l = 0" "\<not> writerActive l" "list_all (\<lambda>w. \<not> w_settled w) (rw_queue l)"
    and order: "sorted_wrt (<) (rw_ids l)" "\<forall>w \<in> set (rw_queue l). w_id w < n"
  shows "rw_fifo (enter (rw_dispatch l) \<lparr>the_lock = l0, sharers = [], owners = [], next_req = n\<rparr>)"
proof -
  note inv = dispatch_idle [OF idle, of l0 n]
  show ?thesis
  proof (cases "rw_queue l")
    case Nil
    then show ?thesis
      using inv idle by (simp add: rw_dispatch_def enter_def rw_fifo_def inside_def rw_ids_def Let_def)
  next
    case (Cons h ws)
    show ?thesis
    proof (cases "w_mode h")
      case Exclusive
      then show ?thesis
        using inv idle Cons order by (auto simp: rw_dispatch_def enter_def rw_fifo_def inside_def rw_ids_def Let_def)
    next
      case Shared
      obtain ids rest where wk: "wake_readers (rw_queue l) = (ids, rest)" by force
      obtain batch where batch: "rw_queue l = batch @ rest" "ids = map w_id batch"
        using wake_readers_unsettled [OF idle(3) wk] by blast
      have d: "rw_dispatch l = (ids, l\<lparr>rw_queue := rest, readers := readers l + length ids\<rparr>)"
        using wk Cons Shared idle dropWhile_unsettled [OF idle(3)] by (simp add: rw_dispatch_def Let_def)
      show ?thesis
        using inv order idle batch
        by (auto simp: d enter_def rw_fifo_def inside_def rw_ids_def sorted_wrt_append)
    qed
  qed
qed

lemma finish_shared_fifo:
  assumes "rw_fifo s" and "i \<in> set (sharers s)" and "finish_shared i s = Inr t"
  shows "rw_fifo t"
proof -
  let ?l1 = "(the_lock s)\<lparr>readers := readers (the_lock s) - 1\<rparr>"
  note old = assms(1) [unfolded rw_fifo_def]
  have len: "length (remove1 i (sharers s)) = length (sharers s) - 1" using assms(2) by (simp add: length_remove1)
  have pos: "0 < readers (the_lock s)" and own: "owners s = []" "\<not> writerActive (the_lock s)"
    and uns: "list_all (\<lambda>w. \<not> w_settled w) (rw_queue (the_lock s))"
    using old assms(2) by (auto simp: rw_inv_def)
  show ?thesis
  proof (cases "readers ?l1 = 0")
    case True
    then have "remove1 i (sharers s) = []" using old len by (simp add: rw_inv_def)
    moreover have "t = enter (rw_dispatch ?l1) (s\<lparr>sharers := remove1 i (sharers s)\<rparr>)"
      using assms(3) pos True by (simp add: finish_shared_def releaseShared_def Let_def)
    ultimately show ?thesis
      using dispatch_fifo [of ?l1 "next_req s" "the_lock s"] True own uns old by (cases s) (simp add: rw_ids_def)
  next
    case False
    then have t: "t = s\<lparr>sharers := remove1 i (sharers s), the_lock := ?l1\<rparr>"
      using assms(3) pos own by (auto simp: finish_shared_def releaseShared_def enter_def Let_def)
    have "inside j t \<Longrightarrow> inside j s" for j using t set_remove1_subset [of i "sharers s"] by (auto simp: inside_def)
    then show ?thesis using finish_shared_inv [OF _ assms(2,3)] old t by (auto simp: rw_fifo_def rw_ids_def)
  qed
qed

lemma finish_exclusive_fifo:
  assumes "rw_fifo s" and "i \<in> set (owners s)" and "finish_exclusive i s = Inr t"
  shows "rw_fifo t"
proof -
  let ?l1 = "(the_lock s)\<lparr>writerActive := False\<rparr>"
  note old = assms(1) [unfolded rw_fifo_def]
  have f: "writerActive (the_lock s)" "readers (the_lock s) = 0" "sharers s = []"
    "list_all (\<lambda>w. \<not> w_settled w) (rw_queue (the_lock s))" "length (owners s) = 1" using old assms(2) by (auto simp: rw_inv_def le_Suc_eq)
  have "t = enter (rw_dispatch ?l1) (s\<lparr>owners := []\<rparr>)"
    using assms(2,3) f(1,5) by (auto simp: finish_exclusive_def releaseExclusive_def length_Suc_conv)
  then show ?thesis
    using dispatch_fifo [of ?l1 "next_req s" "the_lock s"] f old by (cases s) (simp add: rw_ids_def)
qed

lemma abort_fifo: "rw_fifo s \<Longrightarrow> rw_fifo (abort_request i s)"
  using abort_inv [of s i] drop_waiter_subset [of i "rw_queue (the_lock s)"]
  by (auto simp: rw_fifo_def abort_request_def rw_abort_def inside_def rw_ids_def intro: drop_waiter_sorted)

interpretation rw_order: safe_machine "\<lambda>s. s = new_rw_sys" rw_step rw_fifo
proof
  show "rw_fifo s" if "s = new_rw_sys" for s
    using that by (simp add: rw_fifo_def rw_inv_def new_rw_sys_def new_rw_lock_def inside_def rw_ids_def)
  show "rw_fifo t" if "rw_fifo s" "rw_step s t" for s t
    using that(2,1)
    by (induction rule: rw_step.induct) (blast intro: request_fifo abort_fifo finish_shared_fifo finish_exclusive_fifo)+
qed

section \<open>Properties\<close>

text \<open>
  C23. Mutual exclusion: after any history of requests, aborts and completions, a writer runs alone, at
  most one writer runs, and the lock's own counters are exactly the callers inside.
\<close>

theorem rw_mutual_exclusion:
  assumes "rw_step\<^sup>*\<^sup>* new_rw_sys s"
  shows "length (owners s) \<le> 1 \<and> (owners s \<noteq> [] \<longrightarrow> sharers s = []) \<and> readers (the_lock s) = length (sharers s)
    \<and> writerActive (the_lock s) = (owners s \<noteq> [])"
  using rw.reachable_inv [OF refl assms] by (auto simp: rw_inv_def)

theorem rw_mutual_exclusion_witness:
  "owners (request Exclusive False (request Shared False (request Exclusive False new_rw_sys))) = [0]
   \<and> sharers (request Exclusive False (request Shared False (request Exclusive False new_rw_sys))) = []"
proof -
  let ?s = "request Exclusive False (request Shared False (request Exclusive False new_rw_sys))"
  have own: "0 \<in> set (owners ?s)" by code_simp
  have "rw_step\<^sup>*\<^sup>* new_rw_sys ?s" by (meson rw_step.req rtranclp.rtrancl_into_rtrancl rtranclp.rtrancl_refl)
  from rw_mutual_exclusion [OF this] own show ?thesis by (cases "owners ?s") auto
qed

text \<open>
  C24. No lost wake-up: whenever nobody runs under the lock, nobody waits for it, even after waiters
  have been aborted.
\<close>

theorem rw_no_lost_wakeup:
  assumes "rw_step\<^sup>*\<^sup>* new_rw_sys s" and "sharers s = []" and "owners s = []"
  shows "pendingCount (the_lock s) = 0"
  using rw.reachable_inv [OF refl assms(1)] assms(2,3) by (simp add: rw_inv_def pendingCount_def)

text \<open>A writer runs, a reader and a second writer wait; the reader gives up, the first writer ends, then the second.\<close>

theorem rw_no_lost_wakeup_witness:
  "\<exists>s t. finish_exclusive 0 (abort_request 1 (request Exclusive False (request Shared False (request Exclusive False new_rw_sys)))) = Inr s
     \<and> finish_exclusive 2 s = Inr t \<and> pendingCount (the_lock t) = 0"
proof -
  let ?a = "abort_request 1 (request Exclusive False (request Shared False (request Exclusive False new_rw_sys)))"
  let ?s = "\<lparr>the_lock = \<lparr>readers = 0, writerActive = True, rw_queue = []\<rparr>, sharers = [], owners = [2], next_req = 3\<rparr>"
  let ?t = "\<lparr>the_lock = \<lparr>readers = 0, writerActive = False, rw_queue = []\<rparr>, sharers = [], owners = [], next_req = 3\<rparr>"
  have fin: "finish_exclusive 0 ?a = Inr ?s" "finish_exclusive 2 ?s = Inr ?t" and own: "0 \<in> set (owners ?a)" by code_simp+
  have "rw_step\<^sup>*\<^sup>* new_rw_sys ?a" by (meson rw_step.req rw_step.abort rtranclp.rtrancl_into_rtrancl rtranclp.rtrancl_refl)
  then have "rw_step\<^sup>*\<^sup>* new_rw_sys ?s" using rw_step.fin_exclusive [OF own fin(1)] by (rule rtranclp.rtrancl_into_rtrancl)
  then have "rw_step\<^sup>*\<^sup>* new_rw_sys ?t" using rw_step.fin_exclusive [OF _ fin(2)] by (simp add: rtranclp.rtrancl_into_rtrancl)
  then have "pendingCount (the_lock ?t) = 0" by (rule rw_no_lost_wakeup) simp_all
  then show ?thesis using fin by blast
qed

text \<open>
  C25. Writer priority: in every history, while a writer waits, everyone inside asked for the lock
  before that writer did; no reader, however many keep arriving, overtakes it.
\<close>

theorem rw_no_overtaking:
  assumes "rw_step\<^sup>*\<^sup>* new_rw_sys s" and "w \<in> set (rw_queue (the_lock s))" and "w_mode w = Exclusive" and "inside i s"
  shows "i < w_id w"
  using rw_order.reachable_inv [OF refl assms(1)] assms(2-4) by (auto simp: rw_fifo_def)

theorem rw_no_overtaking_witness:
  "inside 0 (request Shared False (request Exclusive False (request Shared False new_rw_sys)))
   \<and> (0 :: nat) < w_id \<lparr>w_id = 1, w_mode = Exclusive, w_settled = False\<rparr>"
proof -
  let ?s = "request Shared False (request Exclusive False (request Shared False new_rw_sys))"
  have run: "rw_step\<^sup>*\<^sup>* new_rw_sys ?s" by (meson rw_step.req rtranclp.rtrancl_into_rtrancl rtranclp.rtrancl_refl)
  have q: "\<lparr>w_id = 1, w_mode = Exclusive, w_settled = False\<rparr> \<in> set (rw_queue (the_lock ?s))" by code_simp
  have "inside 0 ?s" by code_simp
  then show ?thesis using rw_no_overtaking [OF run q] by simp
qed

text \<open>
  C26. Progress: once the callers inside have completed, in any order, the waiter at the head of the
  queue runs under the lock.
\<close>

theorem rw_head_is_served:
  assumes "rw_step\<^sup>*\<^sup>* new_rw_sys s" and "rw_queue (the_lock s) = h # ws"
  shows "(\<forall>i \<in> set (owners s). \<exists>t. finish_exclusive i s = Inr t \<and> inside (w_id h) t)
    \<and> (\<forall>is. owners s = [] \<and> mset is = mset (sharers s) \<longrightarrow> (\<exists>t. finish_readers is s = Inr t \<and> inside (w_id h) t))"
proof (intro conjI allI impI ballI)
  have inv: "rw_inv s" by (rule rw.reachable_inv [OF refl assms(1)])
  show "\<exists>t. finish_exclusive i s = Inr t \<and> inside (w_id h) t" if i: "i \<in> set (owners s)" for i
  proof -
    have "owners s = [i]" using inv i by (cases "owners s") (auto simp: rw_inv_def)
    then show ?thesis
      using dispatch_serves_head [of "(the_lock s)\<lparr>writerActive := False\<rparr>" h ws "s\<lparr>owners := []\<rparr>"] inv assms(2)
      by (auto simp: finish_exclusive_def releaseExclusive_def rw_inv_def inside_def)
  qed
  show "\<exists>t. finish_readers is s = Inr t \<and> inside (w_id h) t" if "owners s = [] \<and> mset is = mset (sharers s)" for "is"
    using finish_readers_serves_head [OF inv _ assms(2)] that by blast
qed

theorem rw_head_is_served_witness:
  "\<exists>t. finish_exclusive 0 (request Shared False (request Exclusive False new_rw_sys)) = Inr t \<and> inside 1 t"
proof -
  let ?s = "request Shared False (request Exclusive False new_rw_sys)"
  have q: "rw_queue (the_lock ?s) = [\<lparr>w_id = 1, w_mode = Shared, w_settled = False\<rparr>]" by code_simp
  have own: "0 \<in> set (owners ?s)" by code_simp
  have "rw_step\<^sup>*\<^sup>* new_rw_sys ?s" by (meson rw_step.req rtranclp.rtrancl_into_rtrancl rtranclp.rtrancl_refl)
  from rw_head_is_served [OF this q] own show ?thesis by simp
qed

text \<open>
  An aborted writer does not wake the readers queued behind it: with one reader inside, a writer
  queued and a reader behind it, aborting the writer leaves the second reader waiting, while a reader
  that arrives later is admitted at once.
\<close>

lemma rw_abort_strands_readers:
  "let s = abort_request 1 (request Shared False (request Exclusive False (request Shared False new_rw_sys)))
   in pendingCount (the_lock s) = 1 \<and> \<not> hasQueuedWriter (the_lock s)
     \<and> sharers (request Shared False s) = [3, 0] \<and> pendingCount (the_lock (request Shared False s)) = 1"
  by code_simp

end
