(* ===== verification/SessionCatalog.thy ===== *)
theory SessionCatalog
  imports RwLock
begin

text \<open>
  The catalog of resident sessions of \<open>api/session-manager/session-catalog.ts\<close>: creation of a session under a
  key, borrowing it under its readers-writer lock, and the four ways it is closed (the sandbox is missing, the
  sandbox is destroyed, the reaper evicts it, the server shuts down). The lock of a resident is the lock of
  theory \<open>RwLock\<close> with its callers; each request on it has a job.
\<close>

section \<open>Residents\<close>

datatype closing_job = MissingJob | DestroyJob | ReapJob | ShutdownJob

datatype job = Waiting lock_mode | Working lock_mode | Closing closing_job

record resident =
  r_key :: string
  r_lock :: rw_sys
  r_jobs :: "(nat, job) table"
  r_last_used :: int
  r_in_flight :: int
  r_closing :: bool
  r_owner :: string
  r_name :: "string option"
  r_created_at :: string
  r_bytes :: int
  r_over_budget :: bool
  r_destroying :: bool
  r_draining :: bool
  r_drained :: bool
  r_open :: bool

record session_source =
  src_owner :: string
  src_created_at :: string
  src_bytes :: int

definition new_resident :: "string \<Rightarrow> session_source \<Rightarrow> int \<Rightarrow> int \<Rightarrow> resident" where
  "new_resident key src maxBytes now =
     \<lparr>r_key = key, r_lock = new_rw_sys, r_jobs = [], r_last_used = now, r_in_flight = 0, r_closing = False,
      r_owner = src_owner src, r_name = None, r_created_at = src_created_at src, r_bytes = src_bytes src,
      r_over_budget = (src_bytes src > maxBytes), r_destroying = False, r_draining = False, r_drained = False, r_open = True\<rparr>"

definition ask_lock :: "lock_mode \<Rightarrow> job \<Rightarrow> resident \<Rightarrow> resident" where
  "ask_lock m j r =
     r\<lparr>r_lock := request m False (r_lock r), r_jobs := AList.update (next_req (r_lock r)) j (r_jobs r)\<rparr>"

text \<open>\<open>runShared\<close> and \<open>runExclusive\<close> give the lock back when the work is over.\<close>

definition give_back :: "nat \<Rightarrow> lock_mode \<Rightarrow> resident \<Rightarrow> resident" where
  "give_back i m r =
     (case (if m = Shared then finish_shared i (r_lock r) else finish_exclusive i (r_lock r)) of
        Inl _ \<Rightarrow> r
      | Inr s \<Rightarrow> r\<lparr>r_lock := s, r_jobs := AList.delete i (r_jobs r)\<rparr>)"

definition assertActive :: "resident \<Rightarrow> string + unit" where
  "assertActive r = (if r_closing r then Inl ''ESESSIONCLOSING'' else Inr ())"

definition borrow :: "lock_mode \<Rightarrow> resident \<Rightarrow> (string + unit) \<times> resident" where
  "borrow m r =
     (case assertActive r of
        Inl e \<Rightarrow> (Inl e, r)
      | Inr _ \<Rightarrow> (Inr (), ask_lock m (Waiting m) r))"

text \<open>The protected work begins once the lock is held, if the session is still active, and ends.\<close>

definition begin_work :: "nat \<Rightarrow> lock_mode \<Rightarrow> int \<Rightarrow> resident \<Rightarrow> (string + unit) \<times> resident" where
  "begin_work i m now r =
     (case assertActive r of
        Inl e \<Rightarrow> (Inl e, give_back i m r)
      | Inr _ \<Rightarrow>
          (Inr (), r\<lparr>r_in_flight := r_in_flight r + 1, r_last_used := now, r_jobs := AList.update i (Working m) (r_jobs r)\<rparr>))"

definition end_work :: "nat \<Rightarrow> lock_mode \<Rightarrow> resident \<Rightarrow> resident" where
  "end_work i m r = give_back i m (r\<lparr>r_in_flight := r_in_flight r - 1\<rparr>)"

definition refreshBudget :: "int \<Rightarrow> int \<Rightarrow> resident \<Rightarrow> resident" where
  "refreshBudget bytes maxBytes r = r\<lparr>r_bytes := bytes, r_over_budget := (bytes > maxBytes)\<rparr>"

definition initializeMetadata :: "string \<Rightarrow> string option \<Rightarrow> resident \<Rightarrow> resident" where
  "initializeMetadata own nm r = r\<lparr>r_owner := (if r_owner r = [] then own else r_owner r), r_name := nm\<rparr>"

text \<open>Fields of the stored metadata may be missing; an empty owner counts as missing.\<close>

definition hydrateMetadata :: "string option \<Rightarrow> string option option \<Rightarrow> string option \<Rightarrow> resident \<Rightarrow> resident" where
  "hydrateMetadata own nm created r =
     r\<lparr>r_owner := (case own of Some (c # cs) \<Rightarrow> c # cs | _ \<Rightarrow> r_owner r),
       r_name := (case nm of Some n \<Rightarrow> n | None \<Rightarrow> r_name r),
       r_created_at := (case created of Some t \<Rightarrow> t | None \<Rightarrow> r_created_at r)\<rparr>"

section \<open>The catalog\<close>

record catalog =
  cat_sessions :: "(string, nat) table"
  cat_residents :: "(nat, resident) table"
  cat_pending :: "string list"
  cat_down :: bool
  cat_forced :: "nat list"
  cat_next :: nat

definition empty_catalog :: catalog where
  "empty_catalog = \<lparr>cat_sessions = [], cat_residents = [], cat_pending = [], cat_down = False, cat_forced = [], cat_next = 0\<rparr>"

definition on_resident :: "nat \<Rightarrow> (resident \<Rightarrow> resident) \<Rightarrow> catalog \<Rightarrow> catalog" where
  "on_resident k f c =
     (case map_of (cat_residents c) k of
        None \<Rightarrow> c
      | Some r \<Rightarrow> c\<lparr>cat_residents := AList.update k (f r) (cat_residents c)\<rparr>)"

datatype get_reply = GetFailed string | GetExisting nat | GetPending | GetCreating

definition getOrCreate :: "string \<Rightarrow> catalog \<Rightarrow> get_reply \<times> catalog" where
  "getOrCreate key c =
     (if cat_down c then (GetFailed ''ESHUTTINGDOWN'', c)
      else (case map_of (cat_sessions c) key of
              Some k \<Rightarrow> (GetExisting k, c)
            | None \<Rightarrow>
                if key \<in> set (cat_pending c) then (GetPending, c)
                else (GetCreating, c\<lparr>cat_pending := key # cat_pending c\<rparr>)))"

text \<open>The attachment of a session that exists has returned.\<close>

definition attached :: "int \<Rightarrow> resident \<Rightarrow> resident" where
  "attached now r = r\<lparr>r_last_used := now\<rparr>"

text \<open>The creation ends: with an error, with a source that comes too late, or with a new resident.\<close>

definition created :: "string \<Rightarrow> (string + session_source) \<Rightarrow> int \<Rightarrow> int \<Rightarrow> catalog \<Rightarrow> (string + nat) \<times> catalog" where
  "created key res maxBytes now c =
     (let settled = c\<lparr>cat_pending := removeAll key (cat_pending c)\<rparr>
      in (case res of
            Inl e \<Rightarrow> (Inl e, settled)
          | Inr src \<Rightarrow>
              if cat_down c then (Inl ''ESHUTTINGDOWN'', settled)
              else (Inr (cat_next c),
                    settled\<lparr>cat_residents := AList.update (cat_next c) (new_resident key src maxBytes now) (cat_residents c),
                      cat_sessions := AList.update key (cat_next c) (cat_sessions c), cat_next := Suc (cat_next c)\<rparr>)))"

text \<open>Closing asks for the lock exclusively, after the session has been marked.\<close>

definition close_with :: "closing_job \<Rightarrow> resident \<Rightarrow> resident" where
  "close_with j r = ask_lock Exclusive (Closing j) (r\<lparr>r_closing := True\<rparr>)"

definition closeMissing :: "nat \<Rightarrow> catalog \<Rightarrow> catalog" where
  "closeMissing k = on_resident k (\<lambda>r. if r_destroying r then r else close_with MissingJob (r\<lparr>r_destroying := True\<rparr>))"

definition destroy :: "string \<Rightarrow> catalog \<Rightarrow> bool \<times> catalog" where
  "destroy key c =
     (case map_of (cat_sessions c) key of
        None \<Rightarrow> (False, c)
      | Some k \<Rightarrow>
          (True, on_resident k (\<lambda>r. if r_destroying r then r else close_with DestroyJob (r\<lparr>r_destroying := True\<rparr>)) c))"

definition reap :: "int \<Rightarrow> int \<Rightarrow> nat \<Rightarrow> catalog \<Rightarrow> catalog" where
  "reap now idleMs k c =
     (case map_of (cat_residents c) k of
        None \<Rightarrow> c
      | Some r \<Rightarrow>
          if map_of (cat_sessions c) (r_key r) \<noteq> Some k \<or> r_closing r \<or> r_in_flight r \<noteq> 0 then c
          else if r_over_budget r \<or> now - r_last_used r > idleMs
          then on_resident k (close_with ReapJob) (c\<lparr>cat_sessions := AList.delete (r_key r) (cat_sessions c)\<rparr>)
          else c)"

definition runReaper :: "int \<Rightarrow> int \<Rightarrow> catalog \<Rightarrow> catalog" where
  "runReaper now idleMs c = fold (reap now idleMs) (map snd (cat_sessions c)) c"

text \<open>The work of a closing job, under the exclusive lock.\<close>

definition forget_session :: "string \<Rightarrow> nat \<Rightarrow> catalog \<Rightarrow> catalog" where
  "forget_session key k c =
     (if map_of (cat_sessions c) key = Some k then c\<lparr>cat_sessions := AList.delete key (cat_sessions c)\<rparr> else c)"

definition run_closing :: "nat \<Rightarrow> nat \<Rightarrow> closing_job \<Rightarrow> catalog \<Rightarrow> catalog" where
  "run_closing k i j c =
     (case map_of (cat_residents c) k of
        None \<Rightarrow> c
      | Some r \<Rightarrow>
          (case j of
             MissingJob \<Rightarrow> on_resident k (\<lambda>r. give_back i Exclusive (r\<lparr>r_open := False\<rparr>)) (forget_session (r_key r) k c)
           | DestroyJob \<Rightarrow>
               on_resident k (\<lambda>r. give_back i Exclusive (r\<lparr>r_open := False\<rparr>)) (c\<lparr>cat_sessions := AList.delete (r_key r) (cat_sessions c)\<rparr>)
           | ReapJob \<Rightarrow> on_resident k (\<lambda>r. give_back i Exclusive (r\<lparr>r_open := False\<rparr>)) c
           | ShutdownJob \<Rightarrow> on_resident k (\<lambda>r. give_back i Exclusive (r\<lparr>r_drained := True\<rparr>)) c))"

text \<open>
  \<open>shutdown\<close>: no more sessions; then every session is marked and each that is not being destroyed is drained
  through its lock, and disconnected when it is drained or when the time is up. The sessions disconnected
  before they were drained are remembered in \<open>cat_forced\<close>, which the code has no need for.
\<close>

definition shutdown_start :: "catalog \<Rightarrow> catalog" where
  "shutdown_start c = c\<lparr>cat_down := True\<rparr>"

definition mark_session :: "nat \<Rightarrow> catalog \<Rightarrow> catalog" where
  "mark_session k c =
     (case map_of (cat_residents c) k of
        None \<Rightarrow> c
      | Some r \<Rightarrow>
          if map_of (cat_sessions c) (r_key r) \<noteq> Some k then c
          else on_resident k (\<lambda>r. if r_destroying r then r\<lparr>r_closing := True\<rparr> else (close_with ShutdownJob r)\<lparr>r_draining := True\<rparr>) c)"

definition shutdown_mark :: "catalog \<Rightarrow> catalog" where
  "shutdown_mark c = fold mark_session (map snd (cat_sessions c)) c"

definition shutdown_disconnect :: "bool \<Rightarrow> nat \<Rightarrow> catalog \<Rightarrow> catalog" where
  "shutdown_disconnect expired k c =
     (case map_of (cat_residents c) k of
        None \<Rightarrow> c
      | Some r \<Rightarrow>
          if \<not> r_draining r \<or> \<not> r_drained r \<and> \<not> expired then c
          else on_resident k (\<lambda>r. r\<lparr>r_open := False, r_draining := False\<rparr>)
                 (c\<lparr>cat_sessions := AList.delete (r_key r) (cat_sessions c),
                    cat_forced := (if r_drained r then cat_forced c else k # cat_forced c)\<rparr>))"

definition shutdown_clear :: "catalog \<Rightarrow> catalog" where
  "shutdown_clear c = c\<lparr>cat_sessions := []\<rparr>"

section \<open>Histories\<close>

definition holds :: "nat \<Rightarrow> lock_mode \<Rightarrow> rw_sys \<Rightarrow> bool" where
  "holds i m s \<longleftrightarrow> (case m of Shared \<Rightarrow> i \<in> set (sharers s) | Exclusive \<Rightarrow> i \<in> set (owners s))"

datatype cat_event =
    Get string
  | Attached nat int
  | CreationEnds string "string + session_source" int int
  | Borrow nat lock_mode
  | BeginWork nat nat lock_mode int
  | EndWork nat nat lock_mode
  | Budget nat int int
  | InitMeta nat string "string option"
  | HydrateMeta nat "string option" "string option option" "string option"
  | CloseMissing nat
  | Destroy string
  | Reaper int int
  | RunClosing nat nat closing_job
  | DownStart
  | DownMark
  | DownDisconnect bool nat
  | DownClear

definition job_of :: "catalog \<Rightarrow> nat \<Rightarrow> nat \<Rightarrow> job option" where
  "job_of c k i = (case map_of (cat_residents c) k of None \<Rightarrow> None | Some r \<Rightarrow> map_of (r_jobs r) i)"

definition granted :: "catalog \<Rightarrow> nat \<Rightarrow> nat \<Rightarrow> lock_mode \<Rightarrow> bool" where
  "granted c k i m \<longleftrightarrow> (case map_of (cat_residents c) k of None \<Rightarrow> False | Some r \<Rightarrow> holds i m (r_lock r))"

fun cat_enabled :: "cat_event \<Rightarrow> catalog \<Rightarrow> bool" where
  "cat_enabled (CreationEnds key _ _ _) c \<longleftrightarrow> key \<in> set (cat_pending c)"
| "cat_enabled (BeginWork k i m _) c \<longleftrightarrow> job_of c k i = Some (Waiting m) \<and> granted c k i m"
| "cat_enabled (EndWork k i m) c \<longleftrightarrow> job_of c k i = Some (Working m)"
| "cat_enabled (RunClosing k i j) c \<longleftrightarrow> job_of c k i = Some (Closing j) \<and> granted c k i Exclusive"
| "cat_enabled DownMark c \<longleftrightarrow> cat_down c"
| "cat_enabled (DownDisconnect _ k) c \<longleftrightarrow> (case map_of (cat_residents c) k of None \<Rightarrow> False | Some r \<Rightarrow> r_draining r)"
| "cat_enabled DownClear c \<longleftrightarrow> cat_down c \<and> list_all (\<lambda>(_, r). r_closing r \<and> \<not> r_draining r) (cat_residents c)"
| "cat_enabled _ c \<longleftrightarrow> True"

fun cat_step :: "cat_event \<Rightarrow> catalog \<Rightarrow> catalog" where
  "cat_step (Get key) c = snd (getOrCreate key c)"
| "cat_step (Attached k now) c = on_resident k (attached now) c"
| "cat_step (CreationEnds key res maxBytes now) c = snd (created key res maxBytes now c)"
| "cat_step (Borrow k m) c = on_resident k (\<lambda>r. snd (borrow m r)) c"
| "cat_step (BeginWork k i m now) c = on_resident k (\<lambda>r. snd (begin_work i m now r)) c"
| "cat_step (EndWork k i m) c = on_resident k (end_work i m) c"
| "cat_step (Budget k bytes maxBytes) c = on_resident k (refreshBudget bytes maxBytes) c"
| "cat_step (InitMeta k own nm) c = on_resident k (initializeMetadata own nm) c"
| "cat_step (HydrateMeta k own nm cr) c = on_resident k (hydrateMetadata own nm cr) c"
| "cat_step (CloseMissing k) c = closeMissing k c"
| "cat_step (Destroy key) c = snd (destroy key c)"
| "cat_step (Reaper now idleMs) c = runReaper now idleMs c"
| "cat_step (RunClosing k i j) c = run_closing k i j c"
| "cat_step DownStart c = shutdown_start c"
| "cat_step DownMark c = shutdown_mark c"
| "cat_step (DownDisconnect expired k) c = shutdown_disconnect expired k c"
| "cat_step DownClear c = shutdown_clear c"

section \<open>The invariant of a resident\<close>

definition working :: "resident \<Rightarrow> nat set" where
  "working r = {i. \<exists>m. map_of (r_jobs r) i = Some (Working m)}"

definition res_ok :: "bool \<Rightarrow> resident \<Rightarrow> bool" where
  "res_ok expired r \<longleftrightarrow> rw_inv (r_lock r) \<and> (\<forall>i. map_of (r_jobs r) i \<noteq> None \<longrightarrow> i < next_req (r_lock r))
     \<and> (\<forall>i m. map_of (r_jobs r) i = Some (Working m) \<longrightarrow> holds i m (r_lock r))
     \<and> r_in_flight r = int (card (working r)) \<and> (\<forall>i j. map_of (r_jobs r) i = Some (Closing j) \<longrightarrow> r_closing r)
     \<and> (\<not> r_open r \<longrightarrow> r_closing r \<and> (expired \<or> working r = {})) \<and> (r_drained r \<longrightarrow> r_closing r \<and> working r = {})"

lemma finite_working [simp]: "finite (working r)"
  by (rule finite_subset [of _ "dom (map_of (r_jobs r))"]) (auto simp: working_def finite_dom_map_of)

lemma holds_request: "rw_inv s \<Longrightarrow> holds i m s \<Longrightarrow> holds i m (request m' aborted s)"
  by (auto simp: holds_def request_def rw_acquire_def rw_inv_def split: lock_mode.splits if_splits)

lemma next_request [simp]: "next_req (request m aborted s) = Suc (next_req s)"
  by (simp add: request_def split: prod.split acquisition.split lock_mode.split)

lemma finish_shared_total: "rw_inv s \<Longrightarrow> i \<in> set (sharers s) \<Longrightarrow> \<exists>t. finish_shared i s = Inr t"
  by (auto simp: finish_shared_def releaseShared_def rw_inv_def Let_def)

lemma finish_exclusive_total: "rw_inv s \<Longrightarrow> i \<in> set (owners s) \<Longrightarrow> \<exists>t. finish_exclusive i s = Inr t"
  by (auto simp: finish_exclusive_def releaseExclusive_def rw_inv_def)

lemma next_enter [simp]: "next_req (enter g s) = next_req s"
  by (simp add: enter_def split: prod.split)

lemma give_back_lock:
  assumes inv: "rw_inv (r_lock r)" and held: "holds i m (r_lock r)"
  shows "\<exists>s. give_back i m r = r\<lparr>r_lock := s, r_jobs := AList.delete i (r_jobs r)\<rparr> \<and> rw_inv s \<and> next_req s = next_req (r_lock r)
    \<and> (\<forall>j m'. holds j m' (r_lock r) \<and> j \<noteq> i \<longrightarrow> holds j m' s)"
proof (cases m)
  case Shared
  then have i: "i \<in> set (sharers (r_lock r))" using held by (simp add: holds_def)
  obtain s where s: "finish_shared i (r_lock r) = Inr s" using finish_shared_total [OF inv i] by blast
  have "owners (r_lock r) = []" using inv i by (auto simp: rw_inv_def)
  then have "holds j m' s" if "holds j m' (r_lock r)" "j \<noteq> i" for j m'
    using that s by (auto simp: holds_def finish_shared_def enter_def Let_def split: lock_mode.splits sum.splits prod.splits if_splits)
  moreover have "next_req s = next_req (r_lock r)" using s by (auto simp: finish_shared_def split: sum.splits)
  ultimately show ?thesis using s Shared finish_shared_inv [OF inv i s] by (auto simp: give_back_def)
next
  case Exclusive
  then have i: "i \<in> set (owners (r_lock r))" using held by (simp add: holds_def)
  obtain s where s: "finish_exclusive i (r_lock r) = Inr s" using finish_exclusive_total [OF inv i] by blast
  have "sharers (r_lock r) = []" and one: "owners (r_lock r) = [i]" using inv i by (cases "owners (r_lock r)"; auto simp: rw_inv_def)+
  then have "holds j m' s" if "holds j m' (r_lock r)" "j \<noteq> i" for j m'
    using that by (auto simp: holds_def split: lock_mode.splits)
  moreover have "next_req s = next_req (r_lock r)" using s by (auto simp: finish_exclusive_def split: sum.splits)
  ultimately show ?thesis using s Exclusive finish_exclusive_inv [OF inv i s] by (auto simp: give_back_def)
qed

lemma working_delete: "working (r\<lparr>r_lock := s, r_jobs := AList.delete i (r_jobs r)\<rparr>) = working r - {i}"
  by (auto simp: working_def map_of_delete)

lemma res_give_back:
  assumes ok: "res_ok expired r" and held: "holds i m (r_lock r)" and idle: "i \<notin> working r"
  shows "res_ok expired (give_back i m r)"
proof -
  obtain s where s: "give_back i m r = r\<lparr>r_lock := s, r_jobs := AList.delete i (r_jobs r)\<rparr>" "rw_inv s" "next_req s = next_req (r_lock r)"
    "\<forall>j m'. holds j m' (r_lock r) \<and> j \<noteq> i \<longrightarrow> holds j m' s"
    using give_back_lock [of r i m] ok held by (auto simp: res_ok_def)
  have "working (give_back i m r) = working r" using idle by (simp add: s(1) working_delete)
  then show ?thesis using ok s by (auto simp: res_ok_def map_of_delete split: if_splits)
qed

lemma res_ask:
  assumes ok: "res_ok expired r" and j: "(\<exists>m. j = Waiting m) \<or> (\<exists>x. j = Closing x) \<and> r_closing r"
  shows "res_ok expired (ask_lock m j r)"
proof -
  have "map_of (r_jobs r) (next_req (r_lock r)) = None" using ok by (auto simp: res_ok_def)
  then have "working (ask_lock m j r) = working r" using j by (auto simp: working_def ask_lock_def map_of_update)
  then show ?thesis
    using ok j request_inv [of "r_lock r" m False] holds_request [of "r_lock r"]
    by (auto simp: res_ok_def ask_lock_def map_of_update less_Suc_eq split: if_splits)
qed

lemma res_begin:
  assumes ok: "res_ok expired r" and w: "map_of (r_jobs r) i = Some (Waiting m)" and held: "holds i m (r_lock r)"
  shows "res_ok expired (snd (begin_work i m now r))"
proof (cases "r_closing r")
  case True
  then show ?thesis using res_give_back [OF ok held] w by (simp add: begin_work_def assertActive_def working_def)
next
  case False
  let ?r = "r\<lparr>r_in_flight := r_in_flight r + 1, r_last_used := now, r_jobs := AList.update i (Working m) (r_jobs r)\<rparr>"
  have "i \<notin> working r" using w by (simp add: working_def)
  moreover have "working ?r = insert i (working r)" by (auto simp: working_def map_of_update)
  ultimately have "card (working ?r) = Suc (card (working r))" by simp
  then show ?thesis
    using False ok w held by (auto simp: begin_work_def assertActive_def res_ok_def map_of_update split: if_splits)
qed

lemma res_end:
  assumes ok: "res_ok expired r" and w: "map_of (r_jobs r) i = Some (Working m)"
  shows "res_ok expired (end_work i m r)"
proof -
  have held: "holds i m (r_lock r)" using ok w by (simp add: res_ok_def)
  let ?r = "r\<lparr>r_in_flight := r_in_flight r - 1\<rparr>"
  obtain s where s: "give_back i m ?r = ?r\<lparr>r_lock := s, r_jobs := AList.delete i (r_jobs ?r)\<rparr>" "rw_inv s" "next_req s = next_req (r_lock r)"
    "\<forall>j m'. holds j m' (r_lock r) \<and> j \<noteq> i \<longrightarrow> holds j m' s"
    using give_back_lock [of ?r i m] ok held by (auto simp: res_ok_def)
  have i: "i \<in> working r" using w by (simp add: working_def)
  have eq: "working (end_work i m r) = working r - {i}" using s(1) working_delete [where r = ?r and s = s and i = i] by (simp add: end_work_def working_def)
  have "int (card (working r - {i})) = int (card (working r)) - 1" using i card_gt_0_iff [of "working r"] by (auto simp: card_Diff_singleton)
  then show ?thesis using ok s i eq by (auto simp: res_ok_def end_work_def map_of_delete split: if_splits)
qed

text \<open>A closing job that holds the lock runs alone.\<close>

lemma closing_alone:
  assumes ok: "res_ok expired r" and j: "map_of (r_jobs r) i = Some (Closing j)" and held: "i \<in> set (owners (r_lock r))"
  shows "working r = {}"
proof -
  have "sharers (r_lock r) = []" "owners (r_lock r) = [i]" using ok held by (cases "owners (r_lock r)"; auto simp: res_ok_def rw_inv_def)+
  then have "holds n m (r_lock r) \<longrightarrow> n = i" for n m using held by (auto simp: holds_def split: lock_mode.split)
  then show ?thesis using ok j by (fastforce simp: working_def res_ok_def)
qed

section \<open>The invariant of the catalog\<close>

definition destroy_pending :: "resident \<Rightarrow> bool" where
  "destroy_pending r \<longleftrightarrow> (\<exists>i. map_of (r_jobs r) i = Some (Closing DestroyJob))"

definition exits :: "resident \<Rightarrow> nat set" where
  "exits r = {i. map_of (r_jobs r) i = Some (Closing DestroyJob) \<or> map_of (r_jobs r) i = Some (Closing MissingJob)}"

text \<open>
  An active resident is in the table of sessions. At most one job destroys the resident or closes it as missing,
  and one that waits to destroy it finds it in the table, unless the server is shutting down.
\<close>

definition filed :: "(string, nat) table \<Rightarrow> bool \<Rightarrow> nat \<Rightarrow> resident \<Rightarrow> bool" where
  "filed ss down k r \<longleftrightarrow> (\<not> r_closing r \<longrightarrow> map_of ss (r_key r) = Some k)
     \<and> (\<forall>i \<in> exits r. \<forall>j \<in> exits r. i = j) \<and> (exits r \<noteq> {} \<longrightarrow> r_destroying r)
     \<and> (destroy_pending r \<longrightarrow> r_closing r \<and> (map_of ss (r_key r) = Some k \<or> down \<and> map_of ss (r_key r) = None))
     \<and> (r_draining r \<longrightarrow> down \<and> r_closing r \<and> map_of ss (r_key r) \<in> {Some k, None})"

definition cat_ok :: "catalog \<Rightarrow> bool" where
  "cat_ok c \<longleftrightarrow>
     (\<forall>k r. map_of (cat_residents c) k = Some r \<longrightarrow>
        k < cat_next c \<and> res_ok (k \<in> set (cat_forced c)) r \<and> filed (cat_sessions c) (cat_down c) k r)
     \<and> (\<forall>key k. map_of (cat_sessions c) key = Some k \<longrightarrow> map_option r_key (map_of (cat_residents c) k) = Some key)
     \<and> (\<forall>key \<in> set (cat_pending c). map_of (cat_sessions c) key = None)
     \<and> (cat_forced c \<noteq> [] \<longrightarrow> cat_down c) \<and> (\<forall>k \<in> set (cat_forced c). k < cat_next c)"

text \<open>An update of one resident that keeps its key, its activity (or closes it), and asks for no destruction.\<close>

definition tame :: "resident \<Rightarrow> resident \<Rightarrow> bool" where
  "tame r r' \<longleftrightarrow> r_key r' = r_key r \<and> (r_closing r \<longrightarrow> r_closing r') \<and> (r_destroying r \<longrightarrow> r_destroying r')
     \<and> (r_draining r' \<longrightarrow> r_draining r) \<and> (\<forall>i j. map_of (r_jobs r') i = Some (Closing j) \<and> j \<in> {DestroyJob, MissingJob} \<longrightarrow> map_of (r_jobs r) i = Some (Closing j))"

lemma filed_tame: "tame r r' \<Longrightarrow> filed ss down k r \<Longrightarrow> filed ss down k r'"
  unfolding tame_def filed_def destroy_pending_def exits_def by (simp, metis)

lemma cat_okD:
  assumes "cat_ok c" and "map_of (cat_residents c) k = Some r"
  shows "res_ok (k \<in> set (cat_forced c)) r" and "k < cat_next c" and "filed (cat_sessions c) (cat_down c) k r"
  using assms by (auto simp: cat_ok_def)

lemma cat_ok_session:
  assumes "cat_ok c" and "map_of (cat_sessions c) key = Some k"
  obtains r where "map_of (cat_residents c) k = Some r" and "r_key r = key"
proof -
  have "map_option r_key (map_of (cat_residents c) k) = Some key" using assms unfolding cat_ok_def by blast
  then show ?thesis using that by (cases "map_of (cat_residents c) k") auto
qed

lemma close_with_fields [simp]:
  "r_key (close_with j r) = r_key r" "r_closing (close_with j r)" "r_destroying (close_with j r) = r_destroying r" "r_draining (close_with j r) = r_draining r"
  by (simp_all add: close_with_def ask_lock_def)

text \<open>The invariant after the sessions were changed and one resident was replaced.\<close>

lemma cat_ok_replace:
  assumes ok: "cat_ok c" and r: "map_of (cat_residents c) k = Some r"
    and ss: "\<And>key k'. map_of ss key = Some k' \<Longrightarrow> map_of (cat_sessions c) key = Some k'"
    and r': "res_ok (k \<in> set forced) r'" "r_key r' = r_key r" "filed ss (cat_down c) k r'"
    and others: "\<And>k' x. map_of (cat_residents c) k' = Some x \<Longrightarrow> k' \<noteq> k \<Longrightarrow> res_ok (k' \<in> set forced) x \<and> filed ss (cat_down c) k' x"
    and forced: "forced = cat_forced c \<or> forced = k # cat_forced c \<and> cat_down c"
  shows "cat_ok (c\<lparr>cat_sessions := ss, cat_forced := forced, cat_residents := AList.update k r' (cat_residents c)\<rparr>)"
proof -
  have "map_of ss key = None" if "key \<in> set (cat_pending c)" for key
    using ok ss that by (cases "map_of ss key") (fastforce simp: cat_ok_def)+
  moreover have "map_option r_key (map_of (AList.update k r' (cat_residents c)) k') = Some key" if "map_of ss key = Some k'" for key k'
    by (rule cat_ok_session [OF ok ss [OF that]]) (use r r'(2) in \<open>auto simp: map_of_update\<close>)
  moreover have "k' < cat_next c \<and> res_ok (k' \<in> set forced) x \<and> filed ss (cat_down c) k' x"
    if "map_of (AList.update k r' (cat_residents c)) k' = Some x" for k' x
    using that others [of k' x] cat_okD(2) [OF ok] r r' by (auto simp: map_of_update split: if_splits)
  moreover have "(forced \<noteq> [] \<longrightarrow> cat_down c) \<and> (\<forall>k \<in> set forced. k < cat_next c)"
    using forced ok cat_okD(2) [OF ok r] by (auto simp: cat_ok_def)
  ultimately show ?thesis by (simp add: cat_ok_def)
qed

lemma cat_on_resident:
  assumes ok: "cat_ok c" and f: "\<And>r. map_of (cat_residents c) k = Some r \<Longrightarrow> res_ok (k \<in> set (cat_forced c)) (f r) \<and> tame r (f r)"
  shows "cat_ok (on_resident k f c)"
proof (cases "map_of (cat_residents c) k")
  case (Some r)
  then have fr: "res_ok (k \<in> set (cat_forced c)) (f r)" "tame r (f r)" using f by blast+
  have "filed (cat_sessions c) (cat_down c) k (f r)" by (rule filed_tame [OF fr(2) cat_okD(3) [OF ok Some]])
  then have "cat_ok (c\<lparr>cat_sessions := cat_sessions c, cat_forced := cat_forced c, cat_residents := AList.update k (f r) (cat_residents c)\<rparr>)"
    using fr cat_okD [OF ok] by (intro cat_ok_replace [OF ok Some]) (auto simp: tame_def)
  then show ?thesis by (simp add: on_resident_def Some)
qed (simp add: on_resident_def ok)

lemma tame_give_back: "tame r r0 \<Longrightarrow> tame r (give_back i m r0)"
  by (auto simp: tame_def give_back_def map_of_delete split: sum.split if_splits)

lemma tame_ask: "tame r r0 \<Longrightarrow> j \<noteq> Closing DestroyJob \<Longrightarrow> j \<noteq> Closing MissingJob \<Longrightarrow> tame r (ask_lock m j r0)"
  by (auto simp: tame_def ask_lock_def map_of_update split: if_splits)

lemma tame_refl [simp]: "tame r r"
  by (simp add: tame_def)

lemma res_close:
  assumes "res_ok expired r" shows "res_ok expired (r\<lparr>r_closing := True\<rparr>)" "res_ok expired (r\<lparr>r_destroying := d\<rparr>)"
  using assms by (auto simp: res_ok_def working_def)

lemma res_close_with: "res_ok expired r \<Longrightarrow> res_ok expired (close_with j r)"
  by (simp add: close_with_def res_ask res_close)

lemma tame_close_with: "tame r0 r \<Longrightarrow> j \<noteq> DestroyJob \<Longrightarrow> j \<noteq> MissingJob \<Longrightarrow> tame r0 (close_with j r)"
  unfolding close_with_def by (rule tame_ask) (auto simp: tame_def)

lemma cat_borrow: "cat_ok c \<Longrightarrow> cat_ok (cat_step (Borrow k m) c)"
  by (simp, rule cat_on_resident)
    (auto simp: borrow_def assertActive_def res_ask dest: cat_okD(1) intro!: tame_ask)

lemma job_ofD: "job_of c k i = Some j \<Longrightarrow> map_of (cat_residents c) k = Some r \<Longrightarrow> map_of (r_jobs r) i = Some j"
  by (simp add: job_of_def)

lemma grantedD: "granted c k i m \<Longrightarrow> map_of (cat_residents c) k = Some r \<Longrightarrow> holds i m (r_lock r)"
  by (simp add: granted_def)

lemma cat_begin:
  assumes "cat_ok c" and "job_of c k i = Some (Waiting m)" and "granted c k i m"
  shows "cat_ok (cat_step (BeginWork k i m now) c)"
proof (simp, rule cat_on_resident [OF assms(1)], intro conjI)
  fix r assume r: "map_of (cat_residents c) k = Some r"
  show "res_ok (k \<in> set (cat_forced c)) (snd (begin_work i m now r))"
    using res_begin [OF cat_okD(1) [OF assms(1) r] job_ofD [OF assms(2) r] grantedD [OF assms(3) r]] .
  show "tame r (snd (begin_work i m now r))"
    by (auto simp: begin_work_def assertActive_def tame_give_back) (auto simp: tame_def map_of_update)
qed

lemma cat_end:
  assumes "cat_ok c" and "job_of c k i = Some (Working m)"
  shows "cat_ok (cat_step (EndWork k i m) c)"
proof (simp, rule cat_on_resident [OF assms(1)], intro conjI)
  fix r assume r: "map_of (cat_residents c) k = Some r"
  show "res_ok (k \<in> set (cat_forced c)) (end_work i m r)" using res_end [OF cat_okD(1) [OF assms(1) r] job_ofD [OF assms(2) r]] .
  show "tame r (end_work i m r)" unfolding end_work_def by (rule tame_give_back) (simp add: tame_def)
qed

lemma cat_metadata:
  assumes "cat_ok c"
  shows "cat_ok (cat_step (Budget k b mx) c)" "cat_ok (cat_step (InitMeta k own nm) c)" "cat_ok (cat_step (HydrateMeta k own' nm' cr) c)"
    "cat_ok (cat_step (Attached k now) c)"
proof -
  show "cat_ok (cat_step (Attached k now) c)"
    by (simp, rule cat_on_resident [OF assms]) (drule cat_okD(1) [OF assms], simp add: attached_def res_ok_def working_def tame_def)
  show "cat_ok (cat_step (Budget k b mx) c)"
    by (simp, rule cat_on_resident [OF assms]) (drule cat_okD(1) [OF assms], simp add: refreshBudget_def res_ok_def working_def tame_def)
  show "cat_ok (cat_step (InitMeta k own nm) c)"
    by (simp, rule cat_on_resident [OF assms]) (drule cat_okD(1) [OF assms], simp add: initializeMetadata_def res_ok_def working_def tame_def)
  show "cat_ok (cat_step (HydrateMeta k own' nm' cr) c)"
    by (simp, rule cat_on_resident [OF assms]) (drule cat_okD(1) [OF assms], simp add: hydrateMetadata_def res_ok_def working_def tame_def)
qed

lemma cat_get: "cat_ok c \<Longrightarrow> cat_ok (cat_step (Get key) c)"
  by (auto simp: getOrCreate_def cat_ok_def split: option.split)

lemma res_new: "res_ok expired (new_resident key src mx now)"
  by (simp add: res_ok_def new_resident_def working_def rw.start_inv)

lemma cat_created:
  assumes ok: "cat_ok c" and key: "key \<in> set (cat_pending c)"
  shows "cat_ok (cat_step (CreationEnds key res mx now) c)"
proof (cases "cat_down c \<or> (\<exists>e. res = Inl e)")
  case True
  have "cat_ok (c\<lparr>cat_pending := removeAll key (cat_pending c)\<rparr>)" using ok by (simp add: cat_ok_def)
  then show ?thesis using True by (auto simp: created_def Let_def split: sum.split)
next
  case False
  then obtain src where src: "res = Inr src" "\<not> cat_down c" by (cases res) auto
  let ?r = "new_resident key src mx now" let ?ss = "AList.update key (cat_next c) (cat_sessions c)"
  have free: "map_of (cat_sessions c) key = None" using ok key by (simp add: cat_ok_def)
  have new: "map_of (cat_residents c) (cat_next c) = None"
  proof (rule ccontr)
    assume "map_of (cat_residents c) (cat_next c) \<noteq> None"
    then obtain x where "map_of (cat_residents c) (cat_next c) = Some x" by auto
    then show False using cat_okD(2) [OF ok] by fastforce
  qed
  have filed: "filed ?ss False k r" if "map_of (cat_residents c) k = Some r" for k r
    using cat_okD(3) [OF ok that] free src(2) by (auto simp: filed_def map_of_update)
  have filed': "filed ?ss False (cat_next c) ?r" by (simp add: filed_def map_of_update new_resident_def destroy_pending_def exits_def)
  have "k < Suc (cat_next c) \<and> res_ok (k \<in> set (cat_forced c)) r \<and> filed ?ss False k r"
    if "map_of (AList.update (cat_next c) ?r (cat_residents c)) k = Some r" for k r
    using that filed [of k r] filed' res_new cat_okD(1,2) [OF ok, of k r] by (auto simp: map_of_update split: if_splits)
  moreover have "map_option r_key (map_of (AList.update (cat_next c) ?r (cat_residents c)) k) = Some key'" if "map_of ?ss key' = Some k" for key' k
  proof (cases "key' = key")
    case False
    then have old: "map_of (cat_sessions c) key' = Some k" using that by (simp add: map_of_update)
    show ?thesis by (rule cat_ok_session [OF ok old]) (use new in \<open>auto simp: map_of_update\<close>)
  qed (use that in \<open>simp add: map_of_update new_resident_def\<close>)
  moreover have "map_of ?ss key' = None" if "key' \<in> set (removeAll key (cat_pending c))" for key'
    using that ok by (auto simp: cat_ok_def map_of_update)
  moreover have "cat_forced c = []" using ok src(2) by (auto simp: cat_ok_def)
  ultimately show ?thesis using src by (simp add: created_def Let_def cat_ok_def)
qed

text \<open>A session that nothing destroys or closes as missing yet may be closed so.\<close>

lemma filed_exit:
  assumes f: "filed ss down k r" and free: "\<not> r_destroying r" and ok: "res_ok expired r"
    and j: "j = MissingJob \<or> j = DestroyJob \<and> map_of ss (r_key r) = Some k"
  shows "filed ss down k (close_with j (r\<lparr>r_destroying := True\<rparr>))"
proof -
  have none: "exits r = {}" using f free by (auto simp: filed_def)
  then have jobs: "map_of (r_jobs r) i \<noteq> Some (Closing DestroyJob)" "map_of (r_jobs r) i \<noteq> Some (Closing MissingJob)" for i
    by (auto simp: exits_def)
  show ?thesis
    using f j jobs by (auto simp: filed_def exits_def destroy_pending_def close_with_def ask_lock_def map_of_update split: if_splits)
qed

lemma cat_exit:
  assumes ok: "cat_ok c" and r: "map_of (cat_residents c) k = Some r"
    and j: "j = MissingJob \<or> j = DestroyJob \<and> map_of (cat_sessions c) (r_key r) = Some k"
  shows "cat_ok (on_resident k (\<lambda>r. if r_destroying r then r else close_with j (r\<lparr>r_destroying := True\<rparr>)) c)"
proof (cases "r_destroying r")
  case True
  then show ?thesis by (intro cat_on_resident [OF ok]) (use r cat_okD(1) [OF ok] in simp)
next
  case False
  let ?r = "close_with j (r\<lparr>r_destroying := True\<rparr>)"
  note res = cat_okD(1) [OF ok r]
  have "cat_ok (c\<lparr>cat_sessions := cat_sessions c, cat_forced := cat_forced c, cat_residents := AList.update k ?r (cat_residents c)\<rparr>)"
  proof (rule cat_ok_replace [OF ok r])
    show "res_ok (k \<in> set (cat_forced c)) ?r" using res by (intro res_close_with res_close)
    show "filed (cat_sessions c) (cat_down c) k ?r" by (rule filed_exit [OF cat_okD(3) [OF ok r] False res j])
  qed (use cat_okD [OF ok] in auto)
  then show ?thesis using r False by (simp add: on_resident_def)
qed

lemma cat_close_missing:
  assumes ok: "cat_ok c" shows "cat_ok (cat_step (CloseMissing k) c)"
proof (cases "map_of (cat_residents c) k")
  case (Some r)
  then show ?thesis using cat_exit [OF ok Some, of MissingJob] by (simp add: closeMissing_def)
qed (simp add: closeMissing_def on_resident_def ok)

lemma cat_destroy:
  assumes ok: "cat_ok c" shows "cat_ok (cat_step (Destroy key) c)"
proof (cases "map_of (cat_sessions c) key")
  case (Some k)
  obtain r where r: "map_of (cat_residents c) k = Some r" "r_key r = key" by (rule cat_ok_session [OF ok Some])
  show ?thesis using cat_exit [OF ok r(1), of DestroyJob] Some r(2) by (simp add: destroy_def)
qed (simp add: destroy_def ok)

text \<open>Taking a resident that closes out of the sessions.\<close>

lemma filed_delete:
  assumes ok: "cat_ok c" and r: "map_of (cat_residents c) k = Some r" and here: "map_of (cat_sessions c) (r_key r) \<in> {Some k, None}"
    and x: "map_of (cat_residents c) k' = Some x" "k' \<noteq> k"
  shows "filed (AList.delete (r_key r) (cat_sessions c)) (cat_down c) k' x"
  using cat_okD(3) [OF ok x(1)] here x(2) by (auto simp: filed_def map_of_delete)

lemma cat_unfile:
  assumes ok: "cat_ok c" and r: "map_of (cat_residents c) k = Some r" and here: "map_of (cat_sessions c) (r_key r) \<in> {Some k, None}"
    and r': "res_ok (k \<in> set forced) r'" "tame r r'" "r_closing r'" "\<not> destroy_pending r' \<or> cat_down c"
    and forced: "forced = cat_forced c \<or> forced = k # cat_forced c \<and> cat_down c"
  shows "cat_ok (c\<lparr>cat_sessions := AList.delete (r_key r) (cat_sessions c), cat_forced := forced, cat_residents := AList.update k r' (cat_residents c)\<rparr>)"
proof (rule cat_ok_replace [OF ok r])
  show "filed (AList.delete (r_key r) (cat_sessions c)) (cat_down c) k r'"
    using filed_tame [OF r'(2) cat_okD(3) [OF ok r]] r'(3,4) by (auto simp: filed_def map_of_delete)
  show "res_ok (k' \<in> set forced) x \<and> filed (AList.delete (r_key r) (cat_sessions c)) (cat_down c) k' x" if "map_of (cat_residents c) k' = Some x" "k' \<noteq> k" for k' x
    using filed_delete [OF ok r here that] cat_okD(1) [OF ok that(1)] that(2) forced by auto
qed (use r' forced in \<open>auto simp: map_of_delete tame_def split: if_splits\<close>)

lemma cat_reap:
  assumes ok: "cat_ok c" shows "cat_ok (reap now idleMs k c)"
proof (cases "map_of (cat_residents c) k")
  case (Some r)
  show ?thesis
  proof (cases "map_of (cat_sessions c) (r_key r) = Some k \<and> \<not> r_closing r \<and> r_in_flight r = 0 \<and> (r_over_budget r \<or> now - r_last_used r > idleMs)")
    case True
    have "\<not> destroy_pending r" using cat_okD(3) [OF ok Some] True by (auto simp: filed_def)
    then have "\<not> destroy_pending (close_with ReapJob r)" by (auto simp: destroy_pending_def close_with_def ask_lock_def map_of_update split: if_splits)
    then have "cat_ok (c\<lparr>cat_sessions := AList.delete (r_key r) (cat_sessions c), cat_forced := cat_forced c, cat_residents := AList.update k (close_with ReapJob r) (cat_residents c)\<rparr>)"
      using True cat_okD(1) [OF ok Some] by (intro cat_unfile [OF ok Some]) (simp_all add: res_close_with tame_close_with)
    then show ?thesis using True Some by (simp add: reap_def on_resident_def)
  qed (use ok Some in \<open>auto simp: reap_def\<close>)
qed (simp add: reap_def ok)

text \<open>A closing job under the lock: nobody works, so the file system may be disconnected.\<close>

lemma closed_ok:
  assumes ok: "res_ok expired r" and j: "map_of (r_jobs r) i = Some (Closing j)" and held: "holds i Exclusive (r_lock r)"
  shows "res_ok expired (give_back i Exclusive (r\<lparr>r_open := False\<rparr>))" and "res_ok expired (give_back i Exclusive (r\<lparr>r_drained := True\<rparr>))"
    and "r_closing r"
proof -
  have none: "working r = {}" using closing_alone [OF ok j] held by (simp add: holds_def)
  show closing: "r_closing r" using ok j by (auto simp: res_ok_def)
  have "res_ok expired (r\<lparr>r_open := False\<rparr>)" "res_ok expired (r\<lparr>r_drained := True\<rparr>)"
    using ok none closing by (auto simp: res_ok_def working_def)
  then show "res_ok expired (give_back i Exclusive (r\<lparr>r_open := False\<rparr>))" "res_ok expired (give_back i Exclusive (r\<lparr>r_drained := True\<rparr>))"
    using none held by (auto intro!: res_give_back simp: working_def)
qed

lemma give_back_fields:
  assumes "rw_inv (r_lock r)" and "holds i m (r_lock r)"
  shows "r_closing (give_back i m r) = r_closing r" and "exits (give_back i m r) = exits r - {i}"
    and "destroy_pending (give_back i m r) \<longleftrightarrow> (\<exists>j. j \<noteq> i \<and> map_of (r_jobs r) j = Some (Closing DestroyJob))"
  using give_back_lock [OF assms] by (auto simp: exits_def destroy_pending_def map_of_delete split: if_splits)

lemma cat_run_closing:
  assumes ok: "cat_ok c" and job: "job_of c k i = Some (Closing j)" and held: "granted c k i Exclusive"
  shows "cat_ok (cat_step (RunClosing k i j) c)"
proof -
  obtain r where r: "map_of (cat_residents c) k = Some r" using job by (auto simp: job_of_def split: option.splits)
  note jr = job_ofD [OF job r] and hr = grantedD [OF held r] and res = cat_okD(1) [OF ok r] and f = cat_okD(3) [OF ok r]
  note closed = closed_ok [OF res jr hr]
  define r' where "r' = give_back i Exclusive (r\<lparr>r_open := False\<rparr>)"
  have inv: "rw_inv (r_lock (r\<lparr>r_open := False\<rparr>))" "holds i Exclusive (r_lock (r\<lparr>r_open := False\<rparr>))" using res hr by (simp_all add: res_ok_def)
  have tame: "tame r r'" "tame r (give_back i Exclusive (r\<lparr>r_drained := True\<rparr>))" unfolding r'_def by (rule tame_give_back, simp add: tame_def)+
  have shut: "r_closing r'" using give_back_fields(1) [OF inv] closed(3) by (simp add: r'_def)
  have last: "\<not> destroy_pending r'" if "j = DestroyJob \<or> j = MissingJob"
  proof -
    have "i \<in> exits r" using jr that by (auto simp: exits_def)
    then have "n = i" if "map_of (r_jobs r) n = Some (Closing DestroyJob)" for n using f that by (auto simp: filed_def exits_def)
    then show ?thesis using give_back_fields(3) [OF inv] by (auto simp: r'_def)
  qed
  have unfile: "cat_ok (c\<lparr>cat_sessions := AList.delete (r_key r) (cat_sessions c), cat_forced := cat_forced c, cat_residents := AList.update k r' (cat_residents c)\<rparr>)"
    if "j = DestroyJob \<or> j = MissingJob" "map_of (cat_sessions c) (r_key r) \<in> {Some k, None}"
    by (rule cat_unfile [OF ok r that(2) _ tame(1) shut disjI1 [OF last [OF that(1)]]]) (use closed(1) r'_def in simp_all)
  have keep: "cat_ok (on_resident k (\<lambda>r. give_back i Exclusive (r\<lparr>r_open := False\<rparr>)) c)"
    by (rule cat_on_resident [OF ok]) (use r closed(1) tame(1) in \<open>simp add: r'_def\<close>)
  show ?thesis
  proof (cases j)
    case MissingJob
    then show ?thesis
      using r keep unfile by (simp add: run_closing_def forget_session_def on_resident_def r'_def)
  next
    case DestroyJob
    then have "map_of (cat_sessions c) (r_key r) \<in> {Some k, None}" using f jr by (auto simp: filed_def destroy_pending_def)
    then show ?thesis using r unfile DestroyJob by (simp add: run_closing_def on_resident_def r'_def)
  next
    case ReapJob
    then show ?thesis using r keep by (simp add: run_closing_def)
  next
    case ShutdownJob
    have "cat_ok (on_resident k (\<lambda>r. give_back i Exclusive (r\<lparr>r_drained := True\<rparr>)) c)"
      by (rule cat_on_resident [OF ok]) (use r closed(2) tame(2) in simp)
    then show ?thesis using ShutdownJob r by (simp add: run_closing_def)
  qed
qed

lemma cat_reaper: "cat_ok c \<Longrightarrow> cat_ok (cat_step (Reaper now idleMs) c)"
proof -
  have "cat_ok (fold (reap now idleMs) ks c)" if "cat_ok c" for ks c using that by (induction ks arbitrary: c) (simp_all add: cat_reap)
  then show "cat_ok c \<Longrightarrow> cat_ok (cat_step (Reaper now idleMs) c)" by (simp add: runReaper_def)
qed

lemma tame_marked: "tame r (r\<lparr>r_closing := True\<rparr>)"
  by (simp add: tame_def)

lemma cat_mark:
  assumes ok: "cat_ok c" and down: "cat_down c"
  shows "cat_ok (mark_session k c)" and "cat_down (mark_session k c)"
proof -
  show "cat_down (mark_session k c)" using down by (simp add: mark_session_def on_resident_def split: option.split)
  show "cat_ok (mark_session k c)"
  proof (cases "\<exists>r. map_of (cat_residents c) k = Some r \<and> map_of (cat_sessions c) (r_key r) = Some k")
    case True
    then obtain r where r: "map_of (cat_residents c) k = Some r" "map_of (cat_sessions c) (r_key r) = Some k" by blast
    let ?f = "\<lambda>r. if r_destroying r then r\<lparr>r_closing := True\<rparr> else (close_with ShutdownJob r)\<lparr>r_draining := True\<rparr>"
    note res = cat_okD(1) [OF ok r(1)] and f = cat_okD(3) [OF ok r(1)]
    have "res_ok (k \<in> set (cat_forced c)) ((close_with ShutdownJob r)\<lparr>r_draining := True\<rparr>)"
      using res_close_with [OF res, of ShutdownJob] by (auto simp: res_ok_def working_def)
    moreover have "filed (cat_sessions c) (cat_down c) k ((close_with ShutdownJob r)\<lparr>r_draining := True\<rparr>)"
      using filed_tame [OF tame_close_with [OF tame_refl, of ShutdownJob r] f] r(2) down
      by (auto simp: filed_def exits_def destroy_pending_def)
    ultimately have "res_ok (k \<in> set (cat_forced c)) (?f r) \<and> r_key (?f r) = r_key r \<and> filed (cat_sessions c) (cat_down c) k (?f r)"
      using res_close(1) [OF res] filed_tame [OF tame_marked f] by auto
    then have "cat_ok (c\<lparr>cat_sessions := cat_sessions c, cat_forced := cat_forced c, cat_residents := AList.update k (?f r) (cat_residents c)\<rparr>)"
      using cat_okD [OF ok] by (intro cat_ok_replace [OF ok r(1)]) blast+
    then show ?thesis using r by (simp add: mark_session_def on_resident_def)
  qed (use ok in \<open>auto simp: mark_session_def split: option.splits\<close>)
qed

lemma cat_shutdown:
  assumes ok: "cat_ok c"
  shows "cat_ok (cat_step DownStart c)" and "cat_enabled DownMark c \<Longrightarrow> cat_ok (cat_step DownMark c)"
    and "cat_enabled (DownDisconnect expired k) c \<Longrightarrow> cat_ok (cat_step (DownDisconnect expired k) c)"
    and "cat_enabled DownClear c \<Longrightarrow> cat_ok (cat_step DownClear c)"
proof -
  have up: "filed ss True k r" if "filed ss down k r" for ss down k r using that by (cases down) (auto simp: filed_def)
  have "k < cat_next c \<and> res_ok (k \<in> set (cat_forced c)) r \<and> filed (cat_sessions c) True k r" if "map_of (cat_residents c) k = Some r" for k r
    using cat_okD [OF ok that] up by blast
  then show "cat_ok (cat_step DownStart c)" using ok by (simp add: shutdown_start_def cat_ok_def)
  have "cat_ok (fold mark_session ks c) \<and> cat_down (fold mark_session ks c)" if "cat_ok c" "cat_down c" for ks c
    using that by (induction ks arbitrary: c) (simp_all add: cat_mark)
  then show "cat_enabled DownMark c \<Longrightarrow> cat_ok (cat_step DownMark c)" using ok by (simp add: shutdown_mark_def)
  show "cat_ok (cat_step (DownDisconnect expired k) c)" if en: "cat_enabled (DownDisconnect expired k) c"
  proof -
    obtain r where r: "map_of (cat_residents c) k = Some r" "r_draining r" using en by (auto split: option.splits)
    have f: "cat_down c" "r_closing r" "map_of (cat_sessions c) (r_key r) \<in> {Some k, None}"
      using cat_okD(3) [OF ok r(1)] r(2) by (auto simp: filed_def)
    show ?thesis
    proof (cases "\<not> r_drained r \<and> \<not> expired")
      case False
      let ?F = "if r_drained r then cat_forced c else k # cat_forced c" and ?r = "r\<lparr>r_open := False, r_draining := False\<rparr>"
      have "res_ok (k \<in> set ?F) ?r" using cat_okD(1) [OF ok r(1)] f(2) by (auto simp: res_ok_def working_def)
      then have "cat_ok (c\<lparr>cat_sessions := AList.delete (r_key r) (cat_sessions c), cat_forced := ?F, cat_residents := AList.update k ?r (cat_residents c)\<rparr>)"
        using f by (intro cat_unfile [OF ok r(1)]) (auto simp: tame_def)
      then show ?thesis using r False by (auto simp: shutdown_disconnect_def on_resident_def)
    qed (use r ok in \<open>auto simp: shutdown_disconnect_def\<close>)
  qed
  show "cat_ok (cat_step DownClear c)" if en: "cat_enabled DownClear c"
  proof -
    have "r_closing r \<and> \<not> r_draining r" if "map_of (cat_residents c) k = Some r" for k r using en map_of_SomeD [OF that] by (auto simp: list_all_iff)
    then show ?thesis using ok en by (auto simp: shutdown_clear_def cat_ok_def filed_def)
  qed
qed

lemma cat_step_ok:
  assumes "cat_ok c" and "cat_enabled ev c" shows "cat_ok (cat_step ev c)"
proof (cases ev)
  case (CreationEnds key res mx now) then show ?thesis using cat_created assms by simp
next
  case (BeginWork k i m now) then show ?thesis using cat_begin assms by simp
next
  case (EndWork k i m) then show ?thesis using cat_end assms by simp
next
  case (RunClosing k i j) then show ?thesis using cat_run_closing assms by simp
next
  case (DownDisconnect e k) then show ?thesis using cat_shutdown(3) assms by blast
next
  case DownClear then show ?thesis using cat_shutdown(4) assms by blast
next
  case DownMark then show ?thesis using cat_shutdown(2) assms by blast
qed (use assms in \<open>simp_all only: cat_get cat_borrow cat_metadata cat_close_missing cat_destroy cat_reaper cat_shutdown(1)\<close>)

inductive cat_moves :: "catalog \<Rightarrow> catalog \<Rightarrow> bool" where
  event: "cat_enabled ev c \<Longrightarrow> cat_moves c (cat_step ev c)"

interpretation cat: safe_machine "\<lambda>c. c = empty_catalog" cat_moves cat_ok
proof unfold_locales
  show "cat_ok c" if "c = empty_catalog" for c using that by (simp add: empty_catalog_def cat_ok_def)
  show "cat_ok c'" if "cat_ok c" and "cat_moves c c'" for c c' using that(2,1) by cases (simp add: cat_step_ok)
qed

text \<open>
  C29. No work on a closed session: in every history of creations, borrows, evictions by the reaper, destructions,
  closings of missing sandboxes and a shutdown, a session whose file system has been disconnected runs no work,
  unless the shutdown ran out of time before that session was drained; the counter of borrows in flight is always the
  number of borrows that are running, and two active sessions never share a key.
\<close>

theorem catalog_no_work_after_close:
  assumes "cat_moves\<^sup>*\<^sup>* empty_catalog c" and "map_of (cat_residents c) k = Some r"
  shows "(\<not> r_open r \<and> k \<notin> set (cat_forced c) \<longrightarrow> working r = {} \<and> r_in_flight r = 0) \<and> (k \<in> set (cat_forced c) \<longrightarrow> cat_down c)
    \<and> r_in_flight r = int (card (working r))
    \<and> (\<forall>k' r'. map_of (cat_residents c) k' = Some r' \<and> r_key r' = r_key r \<and> \<not> r_closing r \<and> \<not> r_closing r' \<longrightarrow> k' = k)"
proof -
  have ok: "cat_ok c" by (rule cat.reachable_inv [OF refl assms(1)])
  have "k' = k" if "map_of (cat_residents c) k' = Some r'" "r_key r' = r_key r" "\<not> r_closing r" "\<not> r_closing r'" for k' r'
    using cat_okD(3) [OF ok assms(2)] cat_okD(3) [OF ok that(1)] that by (simp add: filed_def)
  moreover have "k \<in> set (cat_forced c) \<longrightarrow> cat_down c" using ok by (auto simp: cat_ok_def)
  ultimately show ?thesis using cat_okD(1) [OF ok assms(2)] by (auto simp: res_ok_def)
qed

text \<open>Only the end of a drain that timed out disconnects a session that was not drained.\<close>

lemma forced_only_on_timeout:
  assumes "cat_forced (cat_step ev c) \<noteq> cat_forced c"
  obtains k r where "ev = DownDisconnect True k" and "map_of (cat_residents c) k = Some r" and "\<not> r_drained r"
proof -
  have keep: "cat_forced (on_resident k f c) = cat_forced c" for k f c by (simp add: on_resident_def split: option.split)
  have keep_fold: "(\<And>k c. cat_forced (g k c) = cat_forced c) \<Longrightarrow> cat_forced (fold g ks c) = cat_forced c" for g :: "nat \<Rightarrow> catalog \<Rightarrow> catalog" and ks c
    by (induction ks arbitrary: c) simp_all
  have marks: "cat_forced (mark_session k c) = cat_forced c" "cat_forced (reap now idleMs k c) = cat_forced c" for k now idleMs c
    by (simp_all add: mark_session_def reap_def keep split: option.split)
  show thesis
    using assms that
    by (cases ev) (auto simp: keep keep_fold marks getOrCreate_def created_def closeMissing_def destroy_def runReaper_def shutdown_mark_def shutdown_start_def
      shutdown_disconnect_def shutdown_clear_def run_closing_def forget_session_def Let_def split: option.splits sum.splits closing_job.splits if_splits)
qed

fun cat_run :: "cat_event list \<Rightarrow> catalog \<Rightarrow> catalog option" where
  "cat_run [] c = Some c"
| "cat_run (ev # evs) c = (if cat_enabled ev c then cat_run evs (cat_step ev c) else None)"

lemma cat_run_moves: "cat_run evs c = Some c' \<Longrightarrow> cat_moves\<^sup>*\<^sup>* c c'"
  by (induction evs arbitrary: c) (auto split: if_splits intro: converse_rtranclp_into_rtranclp cat_moves.event)

definition demo_history :: "cat_event list" where
  "demo_history = [Get ''t:a'', CreationEnds ''t:a'' (Inr \<lparr>src_owner = ''ann'', src_created_at = ''now'', src_bytes = 10\<rparr>) 100 0,
     Borrow 0 Shared, BeginWork 0 0 Shared 5, Destroy ''t:a'', Borrow 0 Exclusive, EndWork 0 0 Shared, RunClosing 0 1 DestroyJob]"

theorem catalog_no_work_after_close_witness:
  "\<exists>c r. cat_run demo_history empty_catalog = Some c \<and> map_of (cat_residents c) 0 = Some r \<and> \<not> r_open r \<and> working r = {}"
proof -
  have "map_option (\<lambda>c. (cat_forced c, map_option r_open (map_of (cat_residents c) 0))) (cat_run demo_history empty_catalog) = Some ([], Some False)"
    by code_simp
  then obtain c r where c: "cat_run demo_history empty_catalog = Some c" "cat_forced c = []" "map_of (cat_residents c) 0 = Some r" "\<not> r_open r" by auto
  have "working r = {}" using catalog_no_work_after_close [OF cat_run_moves [OF c(1)] c(3)] c(2,4) by simp
  then show ?thesis using c by blast
qed

end
