(* ===== verification/RuntimeAdmission.thy ===== *)
theory RuntimeAdmission
  imports Prelude
begin

text \<open>
  The semaphores of \<open>api/session-manager/runtime-admission.ts\<close> that limit the Python and JavaScript runtimes
  in use, and the callers of \<open>run\<close>, which take the Python slot first and the JavaScript slot second.
\<close>

section \<open>Semaphores\<close>

record slot_waiter =
  sw_id :: nat
  sw_settled :: bool

record semaphore =
  sm_limit :: int
  sm_max_waiters :: int
  sm_in_flight :: int
  sm_waiters :: "slot_waiter list"

datatype slot_reply = SlotGranted | SlotQueued | SlotAborted | SlotBusy

definition acquireSlot :: "nat \<Rightarrow> bool \<Rightarrow> semaphore \<Rightarrow> slot_reply \<times> semaphore" where
  "acquireSlot c aborted sem =
     (if aborted then (SlotAborted, sem)
      else if sm_in_flight sem < sm_limit sem then (SlotGranted, sem\<lparr>sm_in_flight := sm_in_flight sem + 1\<rparr>)
      else if int (length (sm_waiters sem)) \<ge> sm_max_waiters sem then (SlotBusy, sem)
      else (SlotQueued, sem\<lparr>sm_waiters := sm_waiters sem @ [\<lparr>sw_id = c, sw_settled = False\<rparr>]\<rparr>))"

text \<open>\<open>waiter.reject\<close> of a waiter that has not been settled: it leaves the queue.\<close>

definition waiter_reject :: "nat \<Rightarrow> semaphore \<Rightarrow> semaphore" where
  "waiter_reject c sem = sem\<lparr>sm_waiters := filter (\<lambda>w. sw_id w \<noteq> c \<or> sw_settled w) (sm_waiters sem)\<rparr>"

fun release_to :: "slot_waiter list \<Rightarrow> nat option \<times> slot_waiter list" where
  "release_to [] = (None, [])"
| "release_to (w # ws) = (if sw_settled w then release_to ws else (Some (sw_id w), ws))"

definition releaseSlot :: "semaphore \<Rightarrow> nat option \<times> semaphore" where
  "releaseSlot sem =
     (case release_to (sm_waiters sem) of
        (Some c, ws) \<Rightarrow> (Some c, sem\<lparr>sm_waiters := ws\<rparr>)
      | (None, ws) \<Rightarrow> (None, sem\<lparr>sm_waiters := ws, sm_in_flight := sm_in_flight sem - 1\<rparr>))"

section \<open>Callers\<close>

text \<open>A caller waits for Python, has it, waits for JavaScript, or runs its work; it is forgotten when it is over.\<close>

datatype rt_phase = WaitPython | GotPython | WaitJs | GotJs

record rt_caller =
  k_python :: bool
  k_js :: bool
  k_phase :: rt_phase

record runtime_admission =
  pythonSem :: semaphore
  jsSem :: semaphore
  rt_callers :: "(nat, rt_caller) table"

definition set_phase :: "nat \<Rightarrow> rt_phase \<Rightarrow> runtime_admission \<Rightarrow> runtime_admission" where
  "set_phase c ph st =
     (case map_of (rt_callers st) c of
        None \<Rightarrow> st
      | Some k \<Rightarrow> st\<lparr>rt_callers := AList.update c (k\<lparr>k_phase := ph\<rparr>) (rt_callers st)\<rparr>)"

definition release_python :: "runtime_admission \<Rightarrow> runtime_admission" where
  "release_python st =
     (case releaseSlot (pythonSem st) of
        (woken, sem) \<Rightarrow>
          (case woken of None \<Rightarrow> id | Some c \<Rightarrow> set_phase c GotPython) (st\<lparr>pythonSem := sem\<rparr>))"

definition release_js :: "runtime_admission \<Rightarrow> runtime_admission" where
  "release_js st =
     (case releaseSlot (jsSem st) of
        (woken, sem) \<Rightarrow> (case woken of None \<Rightarrow> id | Some c \<Rightarrow> set_phase c GotJs) (st\<lparr>jsSem := sem\<rparr>))"

definition forget :: "nat \<Rightarrow> runtime_admission \<Rightarrow> runtime_admission" where
  "forget c st = st\<lparr>rt_callers := AList.delete c (rt_callers st)\<rparr>"

text \<open>\<open>run\<close>: the Python slot, then the JavaScript slot; a refusal of the second gives back the first.\<close>

definition run_enter :: "nat \<Rightarrow> bool \<Rightarrow> bool \<Rightarrow> bool \<Rightarrow> runtime_admission \<Rightarrow> runtime_admission" where
  "run_enter c python js aborted st =
     (let caller = \<lambda>ph. \<lparr>k_python = python, k_js = js, k_phase = ph\<rparr>;
          joined = \<lambda>ph st. st\<lparr>rt_callers := AList.update c (caller ph) (rt_callers st)\<rparr>
      in if python then
           (case acquireSlot c aborted (pythonSem st) of
              (SlotGranted, sem) \<Rightarrow> joined GotPython (st\<lparr>pythonSem := sem\<rparr>)
            | (SlotQueued, sem) \<Rightarrow> joined WaitPython (st\<lparr>pythonSem := sem\<rparr>)
            | (_, sem) \<Rightarrow> st\<lparr>pythonSem := sem\<rparr>)
         else joined GotPython st)"

definition run_js :: "nat \<Rightarrow> bool \<Rightarrow> runtime_admission \<Rightarrow> runtime_admission" where
  "run_js c aborted st =
     (case map_of (rt_callers st) c of
        None \<Rightarrow> st
      | Some k \<Rightarrow>
          if \<not> k_js k then set_phase c GotJs st
          else (case acquireSlot c aborted (jsSem st) of
                  (SlotGranted, sem) \<Rightarrow> set_phase c GotJs (st\<lparr>jsSem := sem\<rparr>)
                | (SlotQueued, sem) \<Rightarrow> set_phase c WaitJs (st\<lparr>jsSem := sem\<rparr>)
                | (_, sem) \<Rightarrow>
                    let st1 = forget c (st\<lparr>jsSem := sem\<rparr>) in if k_python k then release_python st1 else st1))"

text \<open>A timeout or an abort rejects a waiting caller.\<close>

definition run_reject :: "nat \<Rightarrow> runtime_admission \<Rightarrow> runtime_admission" where
  "run_reject c st =
     (case map_of (rt_callers st) c of
        None \<Rightarrow> st
      | Some k \<Rightarrow>
          if k_phase k = WaitPython then forget c (st\<lparr>pythonSem := waiter_reject c (pythonSem st)\<rparr>)
          else if k_phase k = WaitJs then
            let st1 = forget c (st\<lparr>jsSem := waiter_reject c (jsSem st)\<rparr>) in if k_python k then release_python st1 else st1
          else st)"

definition run_finish :: "nat \<Rightarrow> runtime_admission \<Rightarrow> runtime_admission" where
  "run_finish c st =
     (case map_of (rt_callers st) c of
        None \<Rightarrow> st
      | Some k \<Rightarrow>
          let st1 = forget c st;
              st2 = (if k_js k then release_js st1 else st1)
          in if k_python k then release_python st2 else st2)"

definition rt_shutdown :: "runtime_admission \<Rightarrow> runtime_admission" where
  "rt_shutdown st =
     fold run_reject (map sw_id (sm_waiters (pythonSem st)) @ map sw_id (sm_waiters (jsSem st))) st"

datatype rt_event = Enter nat bool bool bool | TakeJs nat bool | Reject nat | Finish nat | Shutdown

fun rt_enabled :: "rt_event \<Rightarrow> runtime_admission \<Rightarrow> bool" where
  "rt_enabled (Enter c _ _ _) st \<longleftrightarrow> map_of (rt_callers st) c = None"
| "rt_enabled (TakeJs c _) st \<longleftrightarrow> map_option k_phase (map_of (rt_callers st) c) = Some GotPython"
| "rt_enabled (Reject c) st \<longleftrightarrow> True"
| "rt_enabled (Finish c) st \<longleftrightarrow> map_option k_phase (map_of (rt_callers st) c) = Some GotJs"
| "rt_enabled Shutdown st \<longleftrightarrow> True"

fun rt_step :: "rt_event \<Rightarrow> runtime_admission \<Rightarrow> runtime_admission" where
  "rt_step (Enter c python js aborted) st = run_enter c python js aborted st"
| "rt_step (TakeJs c aborted) st = run_js c aborted st"
| "rt_step (Reject c) st = run_reject c st"
| "rt_step (Finish c) st = run_finish c st"
| "rt_step Shutdown st = rt_shutdown st"

section \<open>The invariant\<close>

text \<open>
  For one semaphore: its waiters are the waiting callers, its count is the number of holders and within the
  limit, and nobody waits for a free slot.
\<close>

definition sem_ok :: "semaphore \<Rightarrow> nat set \<Rightarrow> nat set \<Rightarrow> bool" where
  "sem_ok sem waiting holding \<longleftrightarrow>
     distinct (map sw_id (sm_waiters sem)) \<and> (\<forall>w \<in> set (sm_waiters sem). \<not> sw_settled w)
     \<and> sw_id ` set (sm_waiters sem) = waiting \<and> finite holding \<and> sm_in_flight sem = int (card holding)
     \<and> sm_in_flight sem \<le> sm_limit sem \<and> (sm_waiters sem \<noteq> [] \<longrightarrow> sm_in_flight sem = sm_limit sem)
     \<and> waiting \<inter> holding = {}"

lemma sem_ok_counts:
  assumes "sem_ok sem waiting holding"
  shows "int (card holding) = sm_in_flight sem" and "sm_in_flight sem \<le> sm_limit sem"
    and "waiting \<noteq> {} \<Longrightarrow> sm_in_flight sem = sm_limit sem"
  using assms by (auto simp: sem_ok_def)

lemma sem_acquire:
  assumes ok: "sem_ok sem waiting holding" and c: "c \<notin> waiting" "c \<notin> holding"
  shows "acquireSlot c aborted sem = (SlotGranted, sem') \<Longrightarrow> sem_ok sem' waiting (insert c holding)"
    and "acquireSlot c aborted sem = (SlotQueued, sem') \<Longrightarrow> sem_ok sem' (insert c waiting) holding"
    and "acquireSlot c aborted sem = (SlotBusy, sem') \<or> acquireSlot c aborted sem = (SlotAborted, sem') \<Longrightarrow> sem' = sem"
  using ok c by (auto simp: acquireSlot_def sem_ok_def split: if_splits)

lemma sem_reject:
  assumes "sem_ok sem waiting holding"
  shows "sem_ok (waiter_reject c sem) (waiting - {c}) holding"
  using assms by (auto simp: waiter_reject_def sem_ok_def distinct_map_filter)

lemma sem_release:
  assumes ok: "sem_ok sem waiting (insert c holding)" and c: "c \<notin> holding" and run: "releaseSlot sem = (woken, sem')"
  shows "case woken of None \<Rightarrow> waiting = {} \<and> sem_ok sem' {} holding
           | Some w \<Rightarrow> w \<in> waiting \<and> sem_ok sem' (waiting - {w}) (insert w holding)"
proof (cases "sm_waiters sem")
  case Nil
  then show ?thesis using ok c run by (auto simp: releaseSlot_def sem_ok_def)
next
  case (Cons w ws)
  then have woken: "woken = Some (sw_id w)" "sem' = sem\<lparr>sm_waiters := ws\<rparr>" using run ok by (auto simp: releaseSlot_def sem_ok_def)
  have notin: "sw_id w \<notin> holding" "sw_id w \<noteq> c" using ok Cons by (auto simp: sem_ok_def)
  have "card (insert (sw_id w) holding) = card (insert c holding)" using ok notin c by (simp add: sem_ok_def)
  then show ?thesis using woken ok Cons notin by (auto simp: sem_ok_def) (metis imageI)
qed

text \<open>The callers that wait for a slot and those that hold one.\<close>

definition in_phase :: "(rt_caller \<Rightarrow> bool) \<Rightarrow> runtime_admission \<Rightarrow> nat set" where
  "in_phase P st = {c. \<exists>k. map_of (rt_callers st) c = Some k \<and> P k}"

abbreviation waits_python :: "rt_caller \<Rightarrow> bool" where
  "waits_python k \<equiv> k_phase k = WaitPython"

abbreviation waits_js :: "rt_caller \<Rightarrow> bool" where
  "waits_js k \<equiv> k_phase k = WaitJs"

abbreviation holds_python :: "rt_caller \<Rightarrow> bool" where
  "holds_python k \<equiv> k_python k \<and> k_phase k \<noteq> WaitPython"

abbreviation holds_js :: "rt_caller \<Rightarrow> bool" where
  "holds_js k \<equiv> k_js k \<and> k_phase k = GotJs"

definition rt_inv :: "runtime_admission \<Rightarrow> bool" where
  "rt_inv st \<longleftrightarrow>
     sem_ok (pythonSem st) (in_phase waits_python st) (in_phase holds_python st)
     \<and> sem_ok (jsSem st) (in_phase waits_js st) (in_phase holds_js st)
     \<and> (\<forall>c k. map_of (rt_callers st) c = Some k \<longrightarrow> (k_phase k = WaitPython \<longrightarrow> k_python k) \<and> (k_phase k = WaitJs \<longrightarrow> k_js k))"

lemma in_phase_update:
  "in_phase P (st\<lparr>rt_callers := AList.update c k (rt_callers st')\<rparr>) = (if P k then insert c (in_phase P st') else in_phase P st' - {c})"
  by (auto simp: in_phase_def map_of_update split: if_splits)

lemma in_phase_delete: "in_phase P (st\<lparr>rt_callers := AList.delete c (rt_callers st')\<rparr>) = in_phase P st' - {c}"
  by (auto simp: in_phase_def map_of_delete split: if_splits)

lemma in_phase_sems [simp]: "in_phase P (st\<lparr>pythonSem := s\<rparr>) = in_phase P st" "in_phase P (st\<lparr>jsSem := s\<rparr>) = in_phase P st"
  by (simp_all add: in_phase_def)

lemma in_phase_absent: "map_of (rt_callers st) c = None \<Longrightarrow> c \<notin> in_phase P st"
  by (simp add: in_phase_def)

lemma in_phase_at: "map_of (rt_callers st) c = Some k \<Longrightarrow> c \<in> in_phase P st \<longleftrightarrow> P k"
  by (simp add: in_phase_def)

text \<open>The invariant but for one Python slot that the departed caller \<open>c\<close> still counts for; its release repairs it.\<close>

definition rt_inv_but :: "nat set \<Rightarrow> nat set \<Rightarrow> runtime_admission \<Rightarrow> bool" where
  "rt_inv_but py js st \<longleftrightarrow>
     sem_ok (pythonSem st) (in_phase waits_python st) (py \<union> in_phase holds_python st)
     \<and> sem_ok (jsSem st) (in_phase waits_js st) (js \<union> in_phase holds_js st)
     \<and> (\<forall>c k. map_of (rt_callers st) c = Some k \<longrightarrow> (k_phase k = WaitPython \<longrightarrow> k_python k) \<and> (k_phase k = WaitJs \<longrightarrow> k_js k))"

lemma rt_inv_but_none: "rt_inv_but {} {} st \<longleftrightarrow> rt_inv st"
  by (simp add: rt_inv_but_def rt_inv_def)

lemma release_python_inv:
  assumes inv: "rt_inv_but {c} js st" and gone: "map_of (rt_callers st) c = None"
  shows "rt_inv_but {} js (release_python st)" and "map_of (rt_callers (release_python st)) c = None"
proof -
  obtain woken sem where run: "releaseSlot (pythonSem st) = (woken, sem)" by force
  have free: "c \<notin> in_phase P st" for P using gone by (rule in_phase_absent)
  have rel: "case woken of None \<Rightarrow> in_phase waits_python st = {} \<and> sem_ok sem {} (in_phase holds_python st)
      | Some w \<Rightarrow> w \<in> in_phase waits_python st \<and> sem_ok sem (in_phase waits_python st - {w}) (insert w (in_phase holds_python st))"
    by (rule sem_release [OF _ free run]) (use inv in \<open>simp add: rt_inv_but_def\<close>)
  have "rt_inv_but {} js (release_python st) \<and> map_of (rt_callers (release_python st)) c = None"
  proof (cases woken)
    case None
    then show ?thesis using run rel inv gone by (simp add: release_python_def rt_inv_but_def)
  next
    case (Some w)
    obtain k where k: "map_of (rt_callers st) w = Some k" "k_phase k = WaitPython" using rel Some by (auto simp: in_phase_def)
    have st': "release_python st = st\<lparr>pythonSem := sem, rt_callers := AList.update w (k\<lparr>k_phase := GotPython\<rparr>) (rt_callers st)\<rparr>"
      using run Some k by (simp add: release_python_def set_phase_def)
    have notjs: "w \<notin> in_phase waits_js st" "w \<notin> in_phase holds_js st" using k by (simp_all add: in_phase_at)
    show ?thesis
      using rel Some inv k notjs gone
      by (auto simp: st' rt_inv_but_def in_phase_update map_of_update)
  qed
  then show "rt_inv_but {} js (release_python st)" and "map_of (rt_callers (release_python st)) c = None" by auto
qed

lemma release_js_inv:
  assumes inv: "rt_inv_but py {c} st" and gone: "map_of (rt_callers st) c = None"
  shows "rt_inv_but py {} (release_js st)" and "map_of (rt_callers (release_js st)) c = None"
proof -
  obtain woken sem where run: "releaseSlot (jsSem st) = (woken, sem)" by force
  have free: "c \<notin> in_phase P st" for P using gone by (rule in_phase_absent)
  have rel: "case woken of None \<Rightarrow> in_phase waits_js st = {} \<and> sem_ok sem {} (in_phase holds_js st)
      | Some w \<Rightarrow> w \<in> in_phase waits_js st \<and> sem_ok sem (in_phase waits_js st - {w}) (insert w (in_phase holds_js st))"
    by (rule sem_release [OF _ free run]) (use inv in \<open>simp add: rt_inv_but_def\<close>)
  have "rt_inv_but py {} (release_js st) \<and> map_of (rt_callers (release_js st)) c = None"
  proof (cases woken)
    case None
    then show ?thesis using run rel inv gone by (simp add: release_js_def rt_inv_but_def)
  next
    case (Some w)
    obtain k where k: "map_of (rt_callers st) w = Some k" "k_phase k = WaitJs" using rel Some by (auto simp: in_phase_def)
    have js: "k_js k" using inv k by (auto simp: rt_inv_but_def)
    have st': "release_js st = st\<lparr>jsSem := sem, rt_callers := AList.update w (k\<lparr>k_phase := GotJs\<rparr>) (rt_callers st)\<rparr>"
      using run Some k by (simp add: release_js_def set_phase_def)
    have py: "w \<notin> in_phase waits_python st" "w \<in> in_phase holds_python st \<longleftrightarrow> k_python k" using k by (simp_all add: in_phase_at)
    have "in_phase holds_python (release_js st) = in_phase holds_python st" using py by (auto simp: st' in_phase_update)
    moreover have "in_phase waits_python (release_js st) = in_phase waits_python st" using py by (auto simp: st' in_phase_update)
    moreover have "in_phase waits_js (release_js st) = in_phase waits_js st - {w}" "in_phase holds_js (release_js st) = insert w (in_phase holds_js st)"
      using js by (simp_all add: st' in_phase_update)
    ultimately show ?thesis
      using rel Some inv k js gone by (auto simp: rt_inv_but_def st' map_of_update)
  qed
  then show "rt_inv_but py {} (release_js st)" and "map_of (rt_callers (release_js st)) c = None" by auto
qed

lemma enter_inv:
  assumes inv: "rt_inv st" and new: "map_of (rt_callers st) c = None"
  shows "rt_inv (run_enter c python js aborted st)"
proof (cases python)
  case False
  then show ?thesis
    using inv in_phase_absent [OF new] by (simp add: run_enter_def rt_inv_def in_phase_update map_of_update)
next
  case True
  obtain r sem where acq: "acquireSlot c aborted (pythonSem st) = (r, sem)" by force
  have ok: "sem_ok (pythonSem st) (in_phase waits_python st) (in_phase holds_python st)" using inv by (simp add: rt_inv_def)
  note step = sem_acquire [OF ok in_phase_absent [OF new] in_phase_absent [OF new], of aborted sem]
  show ?thesis
    using True inv acq step in_phase_absent [OF new]
    by (cases r) (simp_all add: run_enter_def rt_inv_def in_phase_update map_of_update)
qed

lemma leave_python:
  assumes inv: "rt_inv_but (if k_python k then {c} else {}) {} st1" and gone: "map_of (rt_callers st1) c = None"
  shows "rt_inv (if k_python k then release_python st1 else st1)"
  using release_python_inv [of c "{}" st1] assms by (auto simp: rt_inv_but_none split: if_splits)

lemma forget_waiting_js:
  assumes inv: "rt_inv st" and k: "map_of (rt_callers st) c = Some k" and ph: "k_phase k = GotPython \<or> k_phase k = WaitJs"
    and sem: "sem_ok sem (in_phase waits_js st - {c}) (in_phase holds_js st)"
  shows "rt_inv_but (if k_python k then {c} else {}) {} (forget c (st\<lparr>jsSem := sem\<rparr>))"
    and "map_of (rt_callers (forget c (st\<lparr>jsSem := sem\<rparr>))) c = None"
proof -
  have here: "c \<notin> in_phase waits_python st" "c \<in> in_phase holds_python st \<longleftrightarrow> k_python k" "c \<notin> in_phase holds_js st"
    using ph by (auto simp: in_phase_at [OF k])
  have "in_phase holds_python st - {c} \<union> (if k_python k then {c} else {}) = in_phase holds_python st" using here by auto
  then show "rt_inv_but (if k_python k then {c} else {}) {} (forget c (st\<lparr>jsSem := sem\<rparr>))"
    using inv sem here by (auto simp: forget_def rt_inv_def rt_inv_but_def in_phase_delete map_of_delete Un_commute split: if_splits)
  show "map_of (rt_callers (forget c (st\<lparr>jsSem := sem\<rparr>))) c = None" by (simp add: forget_def map_of_delete)
qed

lemma js_inv:
  assumes inv: "rt_inv st" and k: "map_of (rt_callers st) c = Some k" and ph: "k_phase k = GotPython"
  shows "rt_inv (run_js c aborted st)"
proof -
  have here: "c \<notin> in_phase waits_python st" "c \<in> in_phase holds_python st \<longleftrightarrow> k_python k" "c \<notin> in_phase holds_js st" "c \<notin> in_phase waits_js st"
    using ph by (simp_all add: in_phase_at [OF k])
  have ok: "sem_ok (jsSem st) (in_phase waits_js st) (in_phase holds_js st)" using inv by (simp add: rt_inv_def)
  have py: "insert c (in_phase holds_python st) = in_phase holds_python st" if "k_python k" using that here by auto
  show ?thesis
  proof (cases "k_js k")
    case False
    then show ?thesis
      using inv k here py by (auto simp: run_js_def set_phase_def rt_inv_def in_phase_update map_of_update insert_absorb)
  next
    case True
    obtain r sem where acq: "acquireSlot c aborted (jsSem st) = (r, sem)" by force
    note step = sem_acquire [OF ok here(4,3), of aborted sem]
    show ?thesis
    proof (cases "r = SlotGranted \<or> r = SlotQueued")
      case True
      then show ?thesis
        using \<open>k_js k\<close> inv k here py acq step
        by (auto simp: run_js_def set_phase_def rt_inv_def in_phase_update map_of_update insert_absorb split: if_splits)
    next
      case False
      then have sem: "sem = jsSem st" using step(3) acq by (cases r) auto
      have run: "run_js c aborted st = (if k_python k then release_python (forget c (st\<lparr>jsSem := sem\<rparr>)) else forget c (st\<lparr>jsSem := sem\<rparr>))"
        using False \<open>k_js k\<close> k acq by (cases r) (simp_all add: run_js_def Let_def)
      have "sem_ok sem (in_phase waits_js st - {c}) (in_phase holds_js st)" using ok here sem by simp
      then show ?thesis unfolding run by (intro leave_python [of k c] forget_waiting_js [OF inv k disjI1 [OF ph]])
    qed
  qed
qed

lemma reject_inv:
  assumes inv: "rt_inv st" shows "rt_inv (run_reject c st)"
proof (cases "map_of (rt_callers st) c")
  case (Some k)
  consider "k_phase k = WaitPython" | "k_phase k = WaitJs" | "k_phase k = GotPython \<or> k_phase k = GotJs" by (cases "k_phase k") auto
  then show ?thesis
  proof cases
    case 1
    have here: "c \<notin> in_phase holds_python st" "c \<notin> in_phase waits_js st" "c \<notin> in_phase holds_js st" using 1 by (simp_all add: in_phase_at [OF Some])
    have "sem_ok (waiter_reject c (pythonSem st)) (in_phase waits_python st - {c}) (in_phase holds_python st)"
      by (rule sem_reject) (use inv in \<open>simp add: rt_inv_def\<close>)
    then show ?thesis
      using 1 Some inv here by (auto simp: run_reject_def forget_def rt_inv_def in_phase_delete map_of_delete split: if_splits)
  next
    case 2
    have "sem_ok (waiter_reject c (jsSem st)) (in_phase waits_js st - {c}) (in_phase holds_js st)"
      by (rule sem_reject) (use inv in \<open>simp add: rt_inv_def\<close>)
    then show ?thesis
      using leave_python [OF forget_waiting_js [OF inv Some]] 2 Some by (simp add: run_reject_def Let_def)
  qed (use Some inv in \<open>auto simp: run_reject_def\<close>)
qed (simp add: run_reject_def inv)

lemma finish_inv:
  assumes inv: "rt_inv st" and k: "map_of (rt_callers st) c = Some k" and ph: "k_phase k = GotJs"
  shows "rt_inv (run_finish c st)"
proof -
  have here: "c \<notin> in_phase waits_python st" "c \<in> in_phase holds_python st \<longleftrightarrow> k_python k" "c \<in> in_phase holds_js st \<longleftrightarrow> k_js k"
    "c \<notin> in_phase waits_js st"
    using ph by (simp_all add: in_phase_at [OF k])
  define st1 where "st1 = forget c st"
  have gone: "map_of (rt_callers st1) c = None" by (simp add: st1_def forget_def map_of_delete)
  have eqs: "in_phase holds_python st - {c} \<union> (if k_python k then {c} else {}) = in_phase holds_python st"
    "in_phase holds_js st - {c} \<union> (if k_js k then {c} else {}) = in_phase holds_js st" using here by auto
  have but: "rt_inv_but (if k_python k then {c} else {}) (if k_js k then {c} else {}) st1"
    using inv here eqs by (auto simp: st1_def forget_def rt_inv_def rt_inv_but_def in_phase_delete map_of_delete Un_commute split: if_splits)
  define st2 where "st2 = (if k_js k then release_js st1 else st1)"
  have "rt_inv_but (if k_python k then {c} else {}) {} st2 \<and> map_of (rt_callers st2) c = None"
    using release_js_inv [of "if k_python k then {c} else {}" c st1] but gone by (auto simp: st2_def split: if_splits)
  then have "rt_inv (if k_python k then release_python st2 else st2)" using leave_python [of k c st2] by blast
  then show ?thesis unfolding st2_def st1_def by (simp only: run_finish_def Let_def k option.case)
qed

lemma rt_step_inv: "rt_inv st \<Longrightarrow> rt_enabled ev st \<Longrightarrow> rt_inv (rt_step ev st)"
proof (cases ev)
  case Shutdown
  have "rt_inv (fold run_reject cs st)" if "rt_inv st" for cs st using that by (induction cs arbitrary: st) (simp_all add: reject_inv)
  then show "rt_inv st \<Longrightarrow> rt_enabled ev st \<Longrightarrow> rt_inv (rt_step ev st)" using Shutdown by (simp add: rt_shutdown_def)
qed (auto simp: enter_inv js_inv reject_inv finish_inv)

inductive rt_moves :: "runtime_admission \<Rightarrow> runtime_admission \<Rightarrow> bool" where
  event: "rt_enabled ev st \<Longrightarrow> rt_moves st (rt_step ev st)"

definition new_semaphore :: "int \<Rightarrow> int \<Rightarrow> semaphore" where
  "new_semaphore limit maxWaiters = \<lparr>sm_limit = limit, sm_max_waiters = maxWaiters, sm_in_flight = 0, sm_waiters = []\<rparr>"

definition new_runtime_admission :: "int \<Rightarrow> int \<Rightarrow> int \<Rightarrow> int \<Rightarrow> runtime_admission" where
  "new_runtime_admission py pyQueue js jsQueue =
     \<lparr>pythonSem = new_semaphore py pyQueue, jsSem = new_semaphore js jsQueue, rt_callers = []\<rparr>"

lemma new_inv: "0 \<le> py \<Longrightarrow> 0 \<le> js \<Longrightarrow> rt_inv (new_runtime_admission py pyQueue js jsQueue)"
  by (simp add: new_runtime_admission_def new_semaphore_def rt_inv_def sem_ok_def in_phase_def)

interpretation rt: safe_machine "\<lambda>st. \<exists>py pyQueue js jsQueue. 0 \<le> py \<and> 0 \<le> js \<and> st = new_runtime_admission py pyQueue js jsQueue" rt_moves rt_inv
proof unfold_locales
  show "rt_inv st" if "\<exists>py pyQueue js jsQueue. 0 \<le> py \<and> 0 \<le> js \<and> st = new_runtime_admission py pyQueue js jsQueue" for st
    using that new_inv by blast
  show "rt_inv st'" if "rt_inv st" and "rt_moves st st'" for st st' using that(2,1) by cases (simp add: rt_step_inv)
qed

text \<open>
  C38. Runtime slots are counted exactly: in every history of callers entering, waiting, timing out, aborting,
  being refused their second slot, finishing and being shut down, the callers holding a Python or JavaScript slot
  are as many as the semaphore says and at most the limit, and nobody waits while a slot is free.
\<close>

theorem runtime_slots_exact:
  assumes "0 \<le> py" and "0 \<le> js" and "rt_moves\<^sup>*\<^sup>* (new_runtime_admission py pyQueue js jsQueue) st"
  shows "int (card (in_phase holds_python st)) = sm_in_flight (pythonSem st) \<and> sm_in_flight (pythonSem st) \<le> sm_limit (pythonSem st)
    \<and> int (card (in_phase holds_js st)) = sm_in_flight (jsSem st) \<and> sm_in_flight (jsSem st) \<le> sm_limit (jsSem st)
    \<and> (in_phase waits_python st \<noteq> {} \<longrightarrow> sm_in_flight (pythonSem st) = sm_limit (pythonSem st))
    \<and> (in_phase waits_js st \<noteq> {} \<longrightarrow> sm_in_flight (jsSem st) = sm_limit (jsSem st))"
proof -
  have "rt_inv st" by (rule rt.reachable_inv [OF _ assms(3)]) (use assms in blast)
  then show ?thesis unfolding rt_inv_def using sem_ok_counts by blast
qed

fun rt_run :: "rt_event list \<Rightarrow> runtime_admission \<Rightarrow> runtime_admission option" where
  "rt_run [] st = Some st"
| "rt_run (ev # evs) st = (if rt_enabled ev st then rt_run evs (rt_step ev st) else None)"

lemma rt_run_moves: "rt_run evs st = Some st' \<Longrightarrow> rt_moves\<^sup>*\<^sup>* st st'"
  by (induction evs arbitrary: st) (auto split: if_splits intro: converse_rtranclp_into_rtranclp rt_moves.event)

theorem runtime_slots_exact_witness:
  "\<exists>st. rt_run [Enter 1 True True False, TakeJs 1 False, Enter 2 True False False, Finish 1] (new_runtime_admission 1 5 1 5) = Some st
     \<and> int (card (in_phase holds_python st)) = sm_in_flight (pythonSem st)"
proof -
  let ?evs = "[Enter 1 True True False, TakeJs 1 False, Enter 2 True False False, Finish 1]"
  have "rt_run ?evs (new_runtime_admission 1 5 1 5) \<noteq> None" by code_simp
  then obtain st where run: "rt_run ?evs (new_runtime_admission 1 5 1 5) = Some st" by blast
  have "int (card (in_phase holds_python st)) = sm_in_flight (pythonSem st)"
    using runtime_slots_exact [OF _ _ rt_run_moves [OF run]] by simp
  then show ?thesis using run by blast
qed

end
