(* ===== verification/FairAdmission.thy ===== *)
theory FairAdmission
  imports Prelude "HOL-Library.Multiset"
begin

text \<open>
  \<open>src/api/worker-owner/admission.ts\<close>: fair admission of requests by tenant and key. Maps are
  association lists in insertion order. A waiter's promise, timer and abort listener are the events
  \<open>timeout_waiter\<close> and \<open>abort_waiter\<close> on its id; the waiters a drain resolves are returned with the
  state. The optional \<open>tryReserve\<close> callback of the constructor works on a resource of its own, a
  parameter with its state: \<open>None\<close> when the callback is absent.
\<close>

section \<open>State\<close>

record admission_options =
  o_capacity :: int
  o_maxActivePerTenant :: int
  o_maxQueued :: int
  o_maxQueuedPerTenant :: int
  o_maxQueuedBytes :: int
  o_maxQueuedBytesPerTenant :: int

record 'r reserver =
  rv_try :: "string \<Rightarrow> bool \<Rightarrow> 'r \<Rightarrow> 'r option"
  rv_release :: "string \<Rightarrow> bool \<Rightarrow> 'r \<Rightarrow> 'r"

record ad_waiter =
  aw_id :: nat
  aw_tenant :: string
  aw_key :: string
  aw_bytes :: int
  aw_shared :: bool
  aw_started :: int

record 'r admission =
  ad_queues :: "(string, ad_waiter list) table"
  ad_keys :: "(string, int \<times> bool) table"
  ad_tenants :: "(string, int) table"
  ad_active :: int
  ad_queued :: int
  ad_queuedBytes :: int
  ad_closed :: bool
  ad_lastTenant :: "string option"
  ad_offered :: int
  ad_admitted :: int
  ad_refused :: int
  ad_completed :: int
  ad_cancelled :: int
  ad_timedOut :: int
  ad_totalWaitMs :: int
  ad_waitCounts :: "int list"
  ad_resource :: 'r

definition waitBuckets :: "int list" where
  "waitBuckets = [1, 5, 25, 100, 250, 1000, 2500, 5000, 10000, 30000]"

definition new_admission :: "'r \<Rightarrow> 'r admission" where
  "new_admission r =
     \<lparr>ad_queues = [], ad_keys = [], ad_tenants = [], ad_active = 0, ad_queued = 0, ad_queuedBytes = 0,
      ad_closed = False, ad_lastTenant = None, ad_offered = 0, ad_admitted = 0, ad_refused = 0,
      ad_completed = 0, ad_cancelled = 0, ad_timedOut = 0, ad_totalWaitMs = 0,
      ad_waitCounts = map (\<lambda>_. 0) waitBuckets, ad_resource = r\<rparr>"

section \<open>Operations\<close>

definition recordWait :: "int \<Rightarrow> 'r admission \<Rightarrow> 'r admission" where
  "recordWait ms st =
     st\<lparr>ad_totalWaitMs := ad_totalWaitMs st + ms,
        ad_waitCounts := map2 (\<lambda>upper n. if ms \<le> upper then n + 1 else n) waitBuckets (ad_waitCounts st)\<rparr>"

definition tenant_active :: "'r admission \<Rightarrow> string \<Rightarrow> int" where
  "tenant_active st tenant = (case map_of (ad_tenants st) tenant of None \<Rightarrow> 0 | Some n \<Rightarrow> n)"

definition reserve ::
  "'r reserver option \<Rightarrow> admission_options \<Rightarrow> string \<Rightarrow> string \<Rightarrow> bool \<Rightarrow> 'r admission \<Rightarrow> 'r admission option" where
  "reserve rv opts tenant key shared st =
     (if tenant_active st tenant \<ge> o_maxActivePerTenant opts then None
      else if (case map_of (ad_keys st) key of None \<Rightarrow> False | Some (_, sh) \<Rightarrow> \<not> shared \<or> \<not> sh) then None
      else if rv = None \<and> ad_active st \<ge> o_capacity opts then None
      else
        (case (case rv of None \<Rightarrow> Some (ad_resource st) | Some r \<Rightarrow> rv_try r key shared (ad_resource st)) of
           None \<Rightarrow> None
         | Some res \<Rightarrow>
             Some (st\<lparr>ad_active := ad_active st + 1, ad_admitted := ad_admitted st + 1,
               ad_tenants := AList.update tenant (tenant_active st tenant + 1) (ad_tenants st),
               ad_keys := AList.update key
                 ((case map_of (ad_keys st) key of None \<Rightarrow> 0 | Some (n, _) \<Rightarrow> n) + 1, shared) (ad_keys st),
               ad_resource := res\<rparr>)))"

text \<open>\<open>remove\<close>: the waiter leaves its tenant's queue, an empty queue leaves the map.\<close>

definition remove_waiter :: "ad_waiter \<Rightarrow> 'r admission \<Rightarrow> 'r admission" where
  "remove_waiter w st =
     (case map_of (ad_queues st) (aw_tenant w) of
        None \<Rightarrow> st
      | Some ws \<Rightarrow>
          if w \<notin> set ws then st
          else
            let ws' = remove1 w ws
            in st\<lparr>ad_queues := (if ws' = [] then AList.delete (aw_tenant w) (ad_queues st)
                                else AList.update (aw_tenant w) ws' (ad_queues st)),
                  ad_queued := ad_queued st - 1, ad_queuedBytes := ad_queuedBytes st - aw_bytes w\<rparr>)"

text \<open>One tenant's queue in a drain round: a waiter behind a waiting writer of its key is passed over.\<close>

fun scan_queue ::
  "'r reserver option \<Rightarrow> admission_options \<Rightarrow> string list \<Rightarrow> ad_waiter list \<Rightarrow> 'r admission \<Rightarrow> (ad_waiter \<times> 'r admission) option" where
  "scan_queue rv opts writers [] st = None"
| "scan_queue rv opts writers (w # ws) st =
     (if aw_key w \<in> set writers then scan_queue rv opts writers ws st
      else
        (case reserve rv opts (aw_tenant w) (aw_key w) (aw_shared w) st of
           Some st' \<Rightarrow> Some (w, st')
         | None \<Rightarrow> scan_queue rv opts (if aw_shared w then writers else aw_key w # writers) ws st))"

fun scan_tenants ::
  "'r reserver option \<Rightarrow> admission_options \<Rightarrow> string list \<Rightarrow> 'r admission \<Rightarrow> (ad_waiter \<times> 'r admission) option" where
  "scan_tenants rv opts [] st = None"
| "scan_tenants rv opts (t # ts) st =
     (case scan_queue rv opts [] (case map_of (ad_queues st) t of None \<Rightarrow> [] | Some ws \<Rightarrow> ws) st of
        Some r \<Rightarrow> Some r
      | None \<Rightarrow> scan_tenants rv opts ts st)"

fun index_of :: "'a \<Rightarrow> 'a list \<Rightarrow> nat option" where
  "index_of x [] = None"
| "index_of x (y # ys) = (if x = y then Some 0 else map_option Suc (index_of x ys))"

text \<open>The tenants in round-robin order: the one after the tenant served last comes first.\<close>

definition tenant_order :: "'r admission \<Rightarrow> string list" where
  "tenant_order st =
     (let tenants = map fst (ad_queues st)
      in case (case ad_lastTenant st of None \<Rightarrow> None | Some t \<Rightarrow> index_of t tenants) of
           None \<Rightarrow> tenants
         | Some i \<Rightarrow> rotate (Suc i) tenants)"

definition next_waiter ::
  "'r reserver option \<Rightarrow> admission_options \<Rightarrow> 'r admission \<Rightarrow> (ad_waiter \<times> 'r admission) option" where
  "next_waiter rv opts st = scan_tenants rv opts (tenant_order st) st"

definition waiting :: "'r admission \<Rightarrow> ad_waiter list" where
  "waiting st = concat (map snd (ad_queues st))"

text \<open>
  \<open>drain\<close>. Every round that continues takes one waiter out of the queues, so as many rounds as there
  are waiters suffice.
\<close>

fun drain_rounds ::
  "nat \<Rightarrow> 'r reserver option \<Rightarrow> admission_options \<Rightarrow> int \<Rightarrow> 'r admission \<Rightarrow> ad_waiter list \<times> 'r admission" where
  "drain_rounds 0 rv opts now st = ([], st)"
| "drain_rounds (Suc n) rv opts now st =
     (if ad_closed st \<or> ad_queued st \<le> 0 then ([], st)
      else
        (case next_waiter rv opts st of
           None \<Rightarrow> ([], st)
         | Some (w, st1) \<Rightarrow>
             let st2 = recordWait (now - aw_started w) (remove_waiter w (st1\<lparr>ad_lastTenant := Some (aw_tenant w)\<rparr>))
             in (case drain_rounds n rv opts now st2 of (ws, st3) \<Rightarrow> (w # ws, st3))))"

definition drain :: "'r reserver option \<Rightarrow> admission_options \<Rightarrow> int \<Rightarrow> 'r admission \<Rightarrow> ad_waiter list \<times> 'r admission" where
  "drain rv opts now st = drain_rounds (length (waiting st)) rv opts now st"

text \<open>The release closure of a reservation.\<close>

definition release_slot ::
  "'r reserver option \<Rightarrow> string \<Rightarrow> string \<Rightarrow> bool \<Rightarrow> 'r admission \<Rightarrow> 'r admission" where
  "release_slot rv tenant key shared st =
     st\<lparr>ad_active := ad_active st - 1, ad_completed := ad_completed st + 1,
        ad_tenants := (if tenant_active st tenant > 1
                       then AList.update tenant (tenant_active st tenant - 1) (ad_tenants st)
                       else AList.delete tenant (ad_tenants st)),
        ad_keys := (case map_of (ad_keys st) key of
                      Some (n, sh) \<Rightarrow> if n > 1 then AList.update key (n - 1, sh) (ad_keys st) else AList.delete key (ad_keys st)
                    | None \<Rightarrow> AList.delete key (ad_keys st)),
        ad_resource := (case rv of None \<Rightarrow> ad_resource st | Some r \<Rightarrow> rv_release r key shared (ad_resource st))\<rparr>"

datatype admission_outcome = Admitted | Waiting | Busy | RequestAborted

definition enqueue_waiter :: "ad_waiter \<Rightarrow> 'r admission \<Rightarrow> 'r admission" where
  "enqueue_waiter w st =
     st\<lparr>ad_queues := AList.update (aw_tenant w)
          ((case map_of (ad_queues st) (aw_tenant w) of None \<Rightarrow> [] | Some ws \<Rightarrow> ws) @ [w]) (ad_queues st),
        ad_queued := ad_queued st + 1, ad_queuedBytes := ad_queuedBytes st + aw_bytes w\<rparr>"

text \<open>
  \<open>acquire\<close>: the outcome for the caller, the waiters resolved on the way, and the state. The flag
  \<open>queued_fails\<close> says whether the \<open>onQueued\<close> callback throws.
\<close>

definition ad_acquire ::
  "'r reserver option \<Rightarrow> admission_options \<Rightarrow> nat \<Rightarrow> string \<Rightarrow> string \<Rightarrow> int \<Rightarrow> bool \<Rightarrow> bool \<Rightarrow> bool \<Rightarrow> int \<Rightarrow> 'r admission
     \<Rightarrow> admission_outcome \<times> ad_waiter list \<times> 'r admission" where
  "ad_acquire rv opts i tenant key bytes aborted shared queued_fails now st0 =
     (let st = st0\<lparr>ad_offered := ad_offered st0 + 1\<rparr>
      in if ad_closed st \<or> aborted then (RequestAborted, [], st\<lparr>ad_cancelled := ad_cancelled st + 1\<rparr>)
         else
           (case drain rv opts now st of (woken, st1) \<Rightarrow>
              let queue = (case map_of (ad_queues st1) tenant of None \<Rightarrow> [] | Some ws \<Rightarrow> ws)
              in (case (if list_ex (\<lambda>w. aw_key w = key) queue then None else reserve rv opts tenant key shared st1) of
                    Some st2 \<Rightarrow> (Admitted, woken, recordWait 0 st2)
                  | None \<Rightarrow>
                      if ad_queued st1 \<ge> o_maxQueued opts \<or> int (length queue) \<ge> o_maxQueuedPerTenant opts
                         \<or> bytes > o_maxQueuedBytes opts - ad_queuedBytes st1
                         \<or> bytes > o_maxQueuedBytesPerTenant opts - sum_list (map aw_bytes queue)
                      then (Busy, woken, st1\<lparr>ad_refused := ad_refused st1 + 1\<rparr>)
                      else
                        let w = \<lparr>aw_id = i, aw_tenant = tenant, aw_key = key, aw_bytes = bytes, aw_shared = shared, aw_started = now\<rparr>;
                            st2 = enqueue_waiter w st1;
                            st3 = (if queued_fails
                                   then (remove_waiter w st2)\<lparr>ad_cancelled := ad_cancelled st2 + 1\<rparr> else st2)
                        in (case drain rv opts now st3 of (woken', st4) \<Rightarrow>
                              (if queued_fails then RequestAborted else Waiting, woken @ woken', st4)))))"

definition timeout_waiter ::
  "'r reserver option \<Rightarrow> admission_options \<Rightarrow> ad_waiter \<Rightarrow> int \<Rightarrow> 'r admission \<Rightarrow> ad_waiter list \<times> 'r admission" where
  "timeout_waiter rv opts w now st =
     (let st1 = remove_waiter w st
      in drain rv opts now (st1\<lparr>ad_refused := ad_refused st1 + 1, ad_timedOut := ad_timedOut st1 + 1\<rparr>))"

definition abort_waiter ::
  "'r reserver option \<Rightarrow> admission_options \<Rightarrow> ad_waiter \<Rightarrow> int \<Rightarrow> 'r admission \<Rightarrow> ad_waiter list \<times> 'r admission" where
  "abort_waiter rv opts w now st =
     (let st1 = remove_waiter w st
      in drain rv opts now (st1\<lparr>ad_cancelled := ad_cancelled st1 + 1\<rparr>))"

definition ad_release ::
  "'r reserver option \<Rightarrow> admission_options \<Rightarrow> string \<Rightarrow> string \<Rightarrow> bool \<Rightarrow> int \<Rightarrow> 'r admission \<Rightarrow> ad_waiter list \<times> 'r admission" where
  "ad_release rv opts tenant key shared now st = drain rv opts now (release_slot rv tenant key shared st)"

definition close_admission :: "'r admission \<Rightarrow> 'r admission" where
  "close_admission st =
     fold (\<lambda>w s. let s1 = remove_waiter w s in s1\<lparr>ad_cancelled := ad_cancelled s1 + 1\<rparr>)
       (waiting st) (st\<lparr>ad_closed := True\<rparr>)"

section \<open>Queues\<close>

declare map_of_eq_Some_iff [simp del] Some_eq_map_of_iff [simp del]

text \<open>Queues are filed under their waiters' tenant, are never empty, and the counters describe them.\<close>

definition queues_ok :: "'r admission \<Rightarrow> bool" where
  "queues_ok st \<longleftrightarrow> distinct (map fst (ad_queues st))
     \<and> (\<forall>t ws. map_of (ad_queues st) t = Some ws \<longrightarrow> ws \<noteq> [] \<and> (\<forall>w \<in> set ws. aw_tenant w = t))
     \<and> ad_queued st = int (length (waiting st)) \<and> ad_queuedBytes st = sum_list (map aw_bytes (waiting st))"

definition tenant_queue :: "'r admission \<Rightarrow> string \<Rightarrow> ad_waiter list" where
  "tenant_queue st t = (case map_of (ad_queues st) t of None \<Rightarrow> [] | Some ws \<Rightarrow> ws)"

text \<open>Replacing one row of a table changes a sum over its rows by the difference.\<close>

lemma concat_update:
  assumes "distinct (map fst t)" and "map_of t k = Some v"
  shows "int (length (concat (map snd (AList.update k v' t)))) = int (length (concat (map snd t))) + int (length v') - int (length v)"
    and "sum_list (map f (concat (map snd (AList.update k v' t)))) =
      sum_list (map f (concat (map snd t))) + sum_list (map f v') - (sum_list (map f v) :: int)"
  using assms by (induction t) auto

lemma concat_delete:
  assumes "distinct (map fst t)" and "map_of t k = Some v"
  shows "int (length (concat (map snd (AList.delete k t)))) = int (length (concat (map snd t))) - int (length v)"
    and "sum_list (map f (concat (map snd (AList.delete k t)))) = sum_list (map f (concat (map snd t))) - (sum_list (map f v) :: int)"
  using assms by (induction t) (auto simp: delete_id)

lemma concat_insert:
  assumes "map_of t k = None"
  shows "concat (map snd (AList.update k v t)) = concat (map snd t) @ v"
  using assms by (simp add: map_of_eq_None_iff table_update_absent)

lemma sum_list_remove1: "w \<in> set ws \<Longrightarrow> sum_list (map f (remove1 w ws)) = sum_list (map f ws) - (f w :: int)"
  by (induction ws) auto

lemma queues_ok_remove:
  assumes ok: "queues_ok st"
  shows "queues_ok (remove_waiter w st)"
proof (cases "w \<in> set (tenant_queue st (aw_tenant w))")
  case True
  then obtain ws where q: "map_of (ad_queues st) (aw_tenant w) = Some ws" "w \<in> set ws"
    by (cases "map_of (ad_queues st) (aw_tenant w)") (auto simp: tenant_queue_def)
  have dis: "distinct (map fst (ad_queues st))" using ok by (simp add: queues_ok_def)
  have len: "int (length (remove1 w ws)) = int (length ws) - 1"
    using length_pos_if_in_set [OF q(2)] q(2) by (simp only: length_remove1 if_True of_nat_diff Suc_leI One_nat_def of_nat_Suc of_nat_0 simp_thms)
  have one: "remove1 w ws = [] \<Longrightarrow> int (length ws) = 1" using len by simp
  have own: "\<forall>x \<in> set ws. aw_tenant x = aw_tenant w" using ok q(1) by (simp add: queues_ok_def)
  have sub: "\<forall>x \<in> set (remove1 w ws). aw_tenant x = aw_tenant w" using own set_remove1_subset by fastforce
  have st: "remove_waiter w st = st\<lparr>ad_queues := (if remove1 w ws = [] then AList.delete (aw_tenant w) (ad_queues st)
        else AList.update (aw_tenant w) (remove1 w ws) (ad_queues st)),
      ad_queued := ad_queued st - 1, ad_queuedBytes := ad_queuedBytes st - aw_bytes w\<rparr>"
    using q by (simp add: remove_waiter_def Let_def)
  have bytes: "remove1 w ws = [] \<Longrightarrow> sum_list (map aw_bytes ws) = aw_bytes w"
    using sum_list_remove1 [OF q(2), of aw_bytes] by simp
  define qs where "qs = (if remove1 w ws = [] then AList.delete (aw_tenant w) (ad_queues st)
    else AList.update (aw_tenant w) (remove1 w ws) (ad_queues st))"
  have sums: "int (length (concat (map snd qs))) = int (length (waiting st)) - 1"
    "sum_list (map aw_bytes (concat (map snd qs))) = sum_list (map aw_bytes (waiting st)) - aw_bytes w"
    using concat_update(1) [OF dis q(1), of "remove1 w ws"] concat_update(2) [OF dis q(1), of aw_bytes "remove1 w ws"]
      concat_delete(1) [OF dis q(1)] concat_delete(2) [OF dis q(1), of aw_bytes] len one bytes sum_list_remove1 [OF q(2), of aw_bytes]
    unfolding waiting_def qs_def by (cases "remove1 w ws = []"; simp only: if_True if_False simp_thms)+
  have rows: "ws' \<noteq> [] \<and> (\<forall>x \<in> set ws'. aw_tenant x = t)" if "map_of qs t = Some ws'" for t ws'
    using that ok sub by (cases "remove1 w ws = []") (auto simp: queues_ok_def qs_def split: if_splits)
  have keys: "distinct (map fst qs)" using dis by (simp add: qs_def distinct_update distinct_delete)
  show ?thesis using ok sums rows keys unfolding st qs_def [symmetric] queues_ok_def waiting_def by simp
next
  case False
  then show ?thesis using ok by (auto simp: remove_waiter_def tenant_queue_def split: option.splits)
qed

lemma queues_ok_enqueue:
  assumes ok: "queues_ok st"
  shows "queues_ok (enqueue_waiter w st)"
proof -
  have dis: "distinct (map fst (ad_queues st))" using ok by (simp add: queues_ok_def)
  show ?thesis
  proof (cases "map_of (ad_queues st) (aw_tenant w)")
    case None
    then show ?thesis using ok concat_insert [OF None, of "[w]"]
      by (auto simp: queues_ok_def enqueue_waiter_def waiting_def distinct_update)
  next
    case (Some ws)
    then show ?thesis using ok concat_update [OF dis Some, where v' = "ws @ [w]"]
      by (auto simp: queues_ok_def enqueue_waiter_def waiting_def distinct_update)
  qed
qed

lemma reserve_frame:
  assumes "reserve rv opts tenant key shared st = Some st'"
  shows "ad_queues st' = ad_queues st" "ad_queued st' = ad_queued st" "ad_queuedBytes st' = ad_queuedBytes st"
    "ad_closed st' = ad_closed st" "ad_offered st' = ad_offered st" "ad_refused st' = ad_refused st"
    "ad_cancelled st' = ad_cancelled st" "ad_completed st' = ad_completed st" "ad_admitted st' = ad_admitted st + 1"
    "ad_active st' = ad_active st + 1"
  using assms by (auto simp: reserve_def Let_def split: if_splits option.splits)

lemma remove_frame:
  "ad_keys (remove_waiter w st) = ad_keys st" "ad_tenants (remove_waiter w st) = ad_tenants st"
  "ad_active (remove_waiter w st) = ad_active st" "ad_closed (remove_waiter w st) = ad_closed st"
  "ad_offered (remove_waiter w st) = ad_offered st" "ad_admitted (remove_waiter w st) = ad_admitted st"
  "ad_refused (remove_waiter w st) = ad_refused st" "ad_cancelled (remove_waiter w st) = ad_cancelled st"
  "ad_completed (remove_waiter w st) = ad_completed st"
  by (auto simp: remove_waiter_def Let_def split: option.splits)

lemma tenant_queue_remove:
  assumes "queues_ok st"
  shows "tenant_queue (remove_waiter w st) t = (if t = aw_tenant w then remove1 w (tenant_queue st t) else tenant_queue st t)"
  by (auto simp: remove_waiter_def tenant_queue_def remove1_idem Let_def split: option.splits)

lemma set_waiting:
  assumes "distinct (map fst (ad_queues st))"
  shows "w \<in> set (waiting st) \<longleftrightarrow> (\<exists>t. w \<in> set (tenant_queue st t))"
proof
  assume "w \<in> set (waiting st)"
  then obtain t ws where "(t, ws) \<in> set (ad_queues st)" "w \<in> set ws" by (auto simp: waiting_def)
  then show "\<exists>t. w \<in> set (tenant_queue st t)" using map_of_is_SomeI [OF assms, of t ws] by (intro exI [of _ t]) (simp add: tenant_queue_def)
next
  assume "\<exists>t. w \<in> set (tenant_queue st t)"
  then obtain t where t: "w \<in> set (tenant_queue st t)" by blast
  then obtain ws where "map_of (ad_queues st) t = Some ws" "w \<in> set ws"
    by (cases "map_of (ad_queues st) t") (auto simp: tenant_queue_def)
  then show "w \<in> set (waiting st)" by (force simp: waiting_def dest: map_of_SomeD)
qed

lemma waiting_tenant: "queues_ok st \<Longrightarrow> w \<in> set (tenant_queue st t) \<Longrightarrow> aw_tenant w = t"
  by (cases "map_of (ad_queues st) t") (auto simp: queues_ok_def tenant_queue_def)

lemma waiting_remove_subset:
  assumes "queues_ok st"
  shows "set (waiting (remove_waiter w st)) \<subseteq> set (waiting st)"
proof -
  have d: "distinct (map fst (ad_queues (remove_waiter w st)))" "distinct (map fst (ad_queues st))"
    using queues_ok_remove [OF assms, of w] assms by (simp_all add: queues_ok_def)
  show ?thesis
  proof
    fix x assume "x \<in> set (waiting (remove_waiter w st))"
    then obtain t where "x \<in> set (tenant_queue (remove_waiter w st) t)" using set_waiting [OF d(1)] by blast
    then have "x \<in> set (tenant_queue st t)"
      using set_remove1_subset by (fastforce simp: tenant_queue_remove [OF assms] split: if_splits)
    then show "x \<in> set (waiting st)" using set_waiting [OF d(2)] by blast
  qed
qed

lemma queued_remove:
  assumes "queues_ok st" and "w \<in> set (tenant_queue st (aw_tenant w))"
  shows "ad_queued (remove_waiter w st) = ad_queued st - 1" "ad_queuedBytes (remove_waiter w st) = ad_queuedBytes st - aw_bytes w"
  using assms(2) by (cases "map_of (ad_queues st) (aw_tenant w)"; simp add: remove_waiter_def tenant_queue_def Let_def)+

section \<open>Slots\<close>

text \<open>A slot is one admitted, unreleased request: tenant, key and mode.\<close>

type_synonym ad_slot = "string \<times> string \<times> bool"

abbreviation tenant_slots :: "string \<Rightarrow> ad_slot list \<Rightarrow> ad_slot list" where
  "tenant_slots t \<equiv> filter (\<lambda>s. fst s = t)"

abbreviation key_slots :: "string \<Rightarrow> ad_slot list \<Rightarrow> ad_slot list" where
  "key_slots k \<equiv> filter (\<lambda>s. fst (snd s) = k)"

definition key_row_ok :: "(int \<times> bool) option \<Rightarrow> ad_slot list \<Rightarrow> bool" where
  "key_row_ok row ks =
     (case row of
        None \<Rightarrow> ks = []
      | Some (n, sh) \<Rightarrow> n = int (length ks) \<and> ks \<noteq> [] \<and> (\<forall>s \<in> set ks. snd (snd s) = sh) \<and> (\<not> sh \<longrightarrow> length ks = 1))"

definition slots_ok :: "'r reserver option \<Rightarrow> admission_options \<Rightarrow> 'r admission \<Rightarrow> ad_slot list \<Rightarrow> bool" where
  "slots_ok rv opts st slots \<longleftrightarrow> ad_active st = int (length slots)
     \<and> (\<forall>t. map_of (ad_tenants st) t = (if tenant_slots t slots = [] then None else Some (int (length (tenant_slots t slots)))))
     \<and> (\<forall>k. key_row_ok (map_of (ad_keys st) k) (key_slots k slots))
     \<and> (\<forall>t. int (length (tenant_slots t slots)) \<le> max 0 (o_maxActivePerTenant opts))
     \<and> (rv = None \<longrightarrow> int (length slots) \<le> max 0 (o_capacity opts))"

lemma tenant_active_slots: "slots_ok rv opts st slots \<Longrightarrow> tenant_active st t = int (length (tenant_slots t slots))"
  by (simp add: slots_ok_def tenant_active_def)

lemma slots_ok_reserve:
  assumes ok: "slots_ok rv opts st slots" and r: "reserve rv opts tenant key shared st = Some st'"
  shows "slots_ok rv opts st' ((tenant, key, shared) # slots)"
proof -
  note ta = tenant_active_slots [OF ok]
  have room: "tenant_active st tenant < o_maxActivePerTenant opts" "rv = None \<Longrightarrow> ad_active st < o_capacity opts"
    using r by (auto simp: reserve_def split: if_splits)
  have free: "case map_of (ad_keys st) key of None \<Rightarrow> True | Some (_, sh) \<Rightarrow> shared \<and> sh"
    using r by (auto simp: reserve_def split: if_splits option.splits)
  have st': "ad_active st' = ad_active st + 1" "ad_tenants st' = AList.update tenant (tenant_active st tenant + 1) (ad_tenants st)"
    "ad_keys st' = AList.update key ((case map_of (ad_keys st) key of None \<Rightarrow> 0 | Some (n, _) \<Rightarrow> n) + 1, shared) (ad_keys st)"
    using r by (auto simp: reserve_def split: if_splits option.splits)
  have row: "key_row_ok (map_of (ad_keys st) key) (key_slots key slots)" using ok by (simp add: slots_ok_def)
  have newrow: "key_row_ok (map_of (ad_keys st') key) ((tenant, key, shared) # key_slots key slots)"
    using row free unfolding st' by (cases "map_of (ad_keys st) key") (auto simp: key_row_ok_def)
  show ?thesis
    unfolding slots_ok_def
  proof (intro conjI allI impI)
    show "key_row_ok (map_of (ad_keys st') k) (key_slots k ((tenant, key, shared) # slots))" for k
      using newrow ok unfolding st' by (auto simp: slots_ok_def)
  qed (use ok room ta [of tenant] in \<open>auto simp: slots_ok_def st'\<close>)
qed

lemma length_filter_remove1:
  "x \<in> set xs \<Longrightarrow> P x \<Longrightarrow> int (length (filter P (remove1 x xs))) = int (length (filter P xs)) - 1"
  by (induction xs) auto

lemma filter_remove1_other: "\<not> P x \<Longrightarrow> filter P (remove1 x xs) = filter P xs"
  by (induction xs) auto

lemma slots_ok_release:
  assumes ok: "slots_ok rv opts st slots" and s: "(tenant, key, shared) \<in> set slots"
  shows "slots_ok rv opts (release_slot rv tenant key shared st) (remove1 (tenant, key, shared) slots)"
proof -
  let ?s = "(tenant, key, shared)" and ?st = "release_slot rv tenant key shared st"
  have tl: "int (length (tenant_slots tenant (remove1 ?s slots))) = int (length (tenant_slots tenant slots)) - 1"
    and kl: "int (length (key_slots key (remove1 ?s slots))) = int (length (key_slots key slots)) - 1"
    using length_filter_remove1 [OF s] by simp_all
  have other: "t \<noteq> tenant \<Longrightarrow> tenant_slots t (remove1 ?s slots) = tenant_slots t slots"
    "k \<noteq> key \<Longrightarrow> key_slots k (remove1 ?s slots) = key_slots k slots" for t k
    by (simp_all add: filter_remove1_other)
  have len: "int (length (remove1 ?s slots)) = int (length slots) - 1"
    using length_filter_remove1 [OF s, of "\<lambda>_. True"] by simp
  have row: "key_row_ok (map_of (ad_keys st) key) (key_slots key slots)" using ok by (simp add: slots_ok_def)
  have kne: "key_slots key slots \<noteq> []" using s by (force simp: filter_empty_conv)
  then obtain n sh where nsh: "map_of (ad_keys st) key = Some (n, sh)" using row by (auto simp: key_row_ok_def split: option.splits)
  have sub: "set (remove1 ?s slots) \<subseteq> set slots" by (rule set_remove1_subset)
  have nlen: "n = int (length (key_slots key slots))" using row nsh by (simp add: key_row_ok_def)
  have "n > 1 \<Longrightarrow> key_slots key (remove1 ?s slots) \<noteq> []" using kl nlen by auto
  moreover have "\<not> n > 1 \<Longrightarrow> length (key_slots key (remove1 ?s slots)) = 0" using kl nlen by linarith
  ultimately have "n > 1 \<Longrightarrow> key_slots key (remove1 ?s slots) \<noteq> []" "\<not> n > 1 \<Longrightarrow> key_slots key (remove1 ?s slots) = []"
    by simp_all
  note rest = this
  have mode: "\<forall>s \<in> set (key_slots key (remove1 ?s slots)). snd (snd s) = sh" "\<not> sh \<Longrightarrow> n = 1"
    using row nsh subsetD [OF sub] by (force simp: key_row_ok_def)+
  have newrow: "key_row_ok (map_of (ad_keys ?st) key) (key_slots key (remove1 ?s slots))"
  proof (cases "n > 1")
    case True
    then have "map_of (ad_keys ?st) key = Some (n - 1, sh)" using nsh by (simp add: release_slot_def)
    then show ?thesis using rest(1) [OF True] mode kl nlen True by (auto simp: key_row_ok_def)
  next
    case False
    then have "map_of (ad_keys ?st) key = None" using nsh by (simp add: release_slot_def)
    then show ?thesis using rest(2) [OF False] by (simp add: key_row_ok_def)
  qed
  have tne: "tenant_slots tenant slots \<noteq> []" using s by (force simp: filter_empty_conv)
  have trow: "map_of (ad_tenants ?st) tenant =
      (if tenant_slots tenant (remove1 ?s slots) = [] then None else Some (int (length (tenant_slots tenant (remove1 ?s slots)))))"
  proof (cases "tenant_active st tenant > 1")
    case True
    then have "tenant_slots tenant (remove1 ?s slots) \<noteq> []" using tl tenant_active_slots [OF ok, of tenant] by auto
    then show ?thesis using True tl tenant_active_slots [OF ok, of tenant] by (simp add: release_slot_def)
  next
    case False
    then have "length (tenant_slots tenant (remove1 ?s slots)) = 0" using tl tenant_active_slots [OF ok, of tenant] by linarith
    then show ?thesis using False by (simp add: release_slot_def)
  qed
  show ?thesis
    unfolding slots_ok_def
  proof (intro conjI allI impI)
    show "key_row_ok (map_of (ad_keys ?st) k) (key_slots k (remove1 ?s slots))" for k
      using newrow ok other(2) [of k] nsh by (cases "k = key") (auto simp: slots_ok_def release_slot_def)
    show "map_of (ad_tenants ?st) t =
        (if tenant_slots t (remove1 ?s slots) = [] then None else Some (int (length (tenant_slots t (remove1 ?s slots)))))" for t
      using trow ok other(1) [of t] by (cases "t = tenant") (auto simp: slots_ok_def release_slot_def)
    show "int (length (tenant_slots t (remove1 ?s slots))) \<le> max 0 (o_maxActivePerTenant opts)" for t
    proof -
      have "int (length (tenant_slots t slots)) \<le> max 0 (o_maxActivePerTenant opts)" using ok by (simp add: slots_ok_def)
      then show ?thesis using tl other(1) [of t] by (cases "t = tenant") simp_all
    qed
  qed (use ok len in \<open>auto simp: slots_ok_def release_slot_def\<close>)
qed

section \<open>Limits and accounting\<close>

definition limits_ok :: "admission_options \<Rightarrow> 'r admission \<Rightarrow> bool" where
  "limits_ok opts st \<longleftrightarrow> queues_ok st \<and> ad_queued st \<le> max 0 (o_maxQueued opts)
     \<and> (\<forall>t. int (length (tenant_queue st t)) \<le> max 0 (o_maxQueuedPerTenant opts))
     \<and> (\<forall>t. sum_list (map aw_bytes (tenant_queue st t)) \<le> max 0 (o_maxQueuedBytesPerTenant opts))
     \<and> (\<forall>w \<in> set (waiting st). 0 \<le> aw_bytes w) \<and> ad_queuedBytes st \<le> max 0 (o_maxQueuedBytes opts)"

text \<open>Every offered request is admitted, waiting, refused or cancelled; every admitted one is active or completed.\<close>

definition accounts_ok :: "'r admission \<Rightarrow> bool" where
  "accounts_ok st \<longleftrightarrow> ad_offered st = ad_admitted st + ad_queued st + ad_refused st + ad_cancelled st
     \<and> ad_admitted st = ad_active st + ad_completed st"

definition ad_inv :: "'r reserver option \<Rightarrow> admission_options \<Rightarrow> 'r admission \<Rightarrow> ad_slot list \<Rightarrow> bool" where
  "ad_inv rv opts st slots \<longleftrightarrow> limits_ok opts st \<and> slots_ok rv opts st slots \<and> accounts_ok st"

lemma limits_remove:
  assumes "limits_ok opts st"
  shows "limits_ok opts (remove_waiter w st)"
proof -
  have q: "queues_ok st" using assms by (simp add: limits_ok_def)
  have len: "length (tenant_queue (remove_waiter w st) t) \<le> length (tenant_queue st t)" for t
    by (simp add: tenant_queue_remove [OF q] length_remove1)
  have pos: "w' \<in> set (waiting st) \<Longrightarrow> 0 \<le> aw_bytes w'" for w' using assms by (simp add: limits_ok_def)
  show ?thesis
  proof (cases "w \<in> set (tenant_queue st (aw_tenant w))")
    case True
    then have "w \<in> set (waiting st)" using set_waiting q by (auto simp: queues_ok_def)
    then have "0 \<le> aw_bytes w" by (rule pos)
    moreover have "int (length (tenant_queue (remove_waiter w st) t)) \<le> max 0 (o_maxQueuedPerTenant opts)" for t
      using assms len [of t] order_trans unfolding limits_ok_def by (metis of_nat_le_iff)
    moreover have "sum_list (map aw_bytes (tenant_queue (remove_waiter w st) t)) \<le> max 0 (o_maxQueuedBytesPerTenant opts)" for t
    proof -
      have "sum_list (map aw_bytes (tenant_queue st t)) \<le> max 0 (o_maxQueuedBytesPerTenant opts)" using assms by (simp add: limits_ok_def)
      then show ?thesis
        using \<open>0 \<le> aw_bytes w\<close> sum_list_remove1 [OF True, of aw_bytes] by (cases "t = aw_tenant w") (simp_all add: tenant_queue_remove [OF q])
    qed
    ultimately show ?thesis
      using assms queued_remove [OF q True] queues_ok_remove [OF q] waiting_remove_subset [OF q] by (fastforce simp: limits_ok_def)
  next
    case False
    then have "remove_waiter w st = st" by (auto simp: remove_waiter_def tenant_queue_def split: option.splits)
    then show ?thesis using assms by simp
  qed
qed

lemma limits_cong:
  assumes "ad_queues st' = ad_queues st" "ad_queued st' = ad_queued st" "ad_queuedBytes st' = ad_queuedBytes st"
  shows "limits_ok opts st' = limits_ok opts st" "tenant_queue st' = tenant_queue st" "waiting st' = waiting st"
    "queues_ok st' = queues_ok st"
  using assms by (simp_all add: limits_ok_def queues_ok_def waiting_def tenant_queue_def fun_eq_iff)

lemma slots_cong:
  assumes "ad_active st' = ad_active st" "ad_tenants st' = ad_tenants st" "ad_keys st' = ad_keys st"
  shows "slots_ok rv opts st' slots = slots_ok rv opts st slots"
  using assms by (simp add: slots_ok_def)

lemma recordWait_frame [simp]:
  "ad_queues (recordWait ms st) = ad_queues st" "ad_queued (recordWait ms st) = ad_queued st"
  "ad_queuedBytes (recordWait ms st) = ad_queuedBytes st" "ad_active (recordWait ms st) = ad_active st"
  "ad_tenants (recordWait ms st) = ad_tenants st" "ad_keys (recordWait ms st) = ad_keys st"
  "ad_offered (recordWait ms st) = ad_offered st" "ad_admitted (recordWait ms st) = ad_admitted st"
  "ad_refused (recordWait ms st) = ad_refused st" "ad_cancelled (recordWait ms st) = ad_cancelled st"
  "ad_completed (recordWait ms st) = ad_completed st" "ad_closed (recordWait ms st) = ad_closed st"
  by (simp_all add: recordWait_def)

lemma ad_inv_recordWait [simp]: "ad_inv rv opts (recordWait ms st) slots = ad_inv rv opts st slots"
  using limits_cong(1) [of "recordWait ms st" st] slots_cong [of "recordWait ms st" st] by (simp add: ad_inv_def accounts_ok_def)

section \<open>Scanning\<close>

lemma scan_queue_Some:
  "scan_queue rv opts writers ws st = Some (w, st') \<Longrightarrow>
     w \<in> set ws \<and> reserve rv opts (aw_tenant w) (aw_key w) (aw_shared w) st = Some st'"
  by (induction ws arbitrary: writers) (auto split: if_splits option.splits)

lemma scan_queue_None:
  assumes "scan_queue rv opts writers (a @ w # b) st = None" and "aw_key w \<notin> set writers"
    and "\<And>v. v \<in> set a \<Longrightarrow> aw_key v = aw_key w \<Longrightarrow> aw_shared v"
  shows "reserve rv opts (aw_tenant w) (aw_key w) (aw_shared w) st = None"
  using assms
proof (induction a arbitrary: writers)
  case Nil
  then show ?case by (auto split: option.splits)
next
  case (Cons v a)
  have "\<not> aw_shared v \<Longrightarrow> aw_key v \<noteq> aw_key w" using Cons.prems(3) [of v] by auto
  then show ?case using Cons by (auto split: if_splits option.splits)
qed

text \<open>A waiter that may be admitted: no exclusive waiter of its key is ahead of it in its tenant's queue.\<close>

definition admissible :: "'r reserver option \<Rightarrow> admission_options \<Rightarrow> 'r admission \<Rightarrow> string \<Rightarrow> bool" where
  "admissible rv opts st t \<longleftrightarrow> (\<exists>a w b. tenant_queue st t = a @ w # b
     \<and> (\<forall>v \<in> set a. aw_key v = aw_key w \<longrightarrow> aw_shared v) \<and> reserve rv opts (aw_tenant w) (aw_key w) (aw_shared w) st \<noteq> None)"

lemma scan_tenants_Some:
  assumes "scan_tenants rv opts ts st = Some (w, st')"
  shows "\<exists>a t b. ts = a @ t # b \<and> (\<forall>u \<in> set a. \<not> admissible rv opts st u)
    \<and> w \<in> set (tenant_queue st t) \<and> reserve rv opts (aw_tenant w) (aw_key w) (aw_shared w) st = Some st'"
  using assms
proof (induction ts)
  case (Cons t ts)
  show ?case
  proof (cases "scan_queue rv opts [] (tenant_queue st t) st")
    case None
    then have no: "\<not> admissible rv opts st t"
      using scan_queue_None [where writers = "[]"] unfolding admissible_def by (metis empty_iff list.set(1))
    have "scan_tenants rv opts ts st = Some (w, st')" using Cons.prems None by (simp add: tenant_queue_def)
    from Cons.IH [OF this] obtain a u b where "ts = a @ u # b" "\<forall>u \<in> set a. \<not> admissible rv opts st u"
      "w \<in> set (tenant_queue st u)" "reserve rv opts (aw_tenant w) (aw_key w) (aw_shared w) st = Some st'" by blast
    then show ?thesis using no by (intro exI [of _ "t # a"] exI [of _ u] exI [of _ b]) auto
  next
    case (Some r)
    then have "scan_queue rv opts [] (tenant_queue st t) st = Some (w, st')" using Cons.prems by (simp add: tenant_queue_def)
    from scan_queue_Some [OF this] show ?thesis
      by (intro exI [of _ "[]"] exI [of _ t] exI [of _ ts]) auto
  qed
qed simp

lemma scan_tenants_None:
  assumes "scan_tenants rv opts ts st = None" and "t \<in> set ts"
  shows "\<not> admissible rv opts st t"
  using assms
proof (induction ts)
  case (Cons u ts)
  have "scan_queue rv opts [] (tenant_queue st u) st = None" "scan_tenants rv opts ts st = None"
    using Cons.prems(1) by (auto simp: tenant_queue_def split: option.splits)
  then show ?case
    using Cons scan_queue_None [where writers = "[]"] unfolding admissible_def by (metis empty_iff list.set(1) set_ConsD)
qed simp

lemma set_tenant_order [simp]: "set (tenant_order st) = fst ` set (ad_queues st)"
  by (auto simp: tenant_order_def Let_def split: option.splits)

lemma next_waiter_Some:
  assumes "next_waiter rv opts st = Some (w, st1)" and "queues_ok st"
  shows "w \<in> set (tenant_queue st (aw_tenant w))" and "reserve rv opts (aw_tenant w) (aw_key w) (aw_shared w) st = Some st1"
proof -
  obtain t where t: "w \<in> set (tenant_queue st t)" and r: "reserve rv opts (aw_tenant w) (aw_key w) (aw_shared w) st = Some st1"
    using scan_tenants_Some [OF assms(1) [unfolded next_waiter_def]] by blast
  then show "w \<in> set (tenant_queue st (aw_tenant w))" "reserve rv opts (aw_tenant w) (aw_key w) (aw_shared w) st = Some st1"
    using waiting_tenant [OF assms(2) t] by simp_all
qed

section \<open>Draining\<close>

definition slot_of :: "ad_waiter \<Rightarrow> ad_slot" where
  "slot_of w = (aw_tenant w, aw_key w, aw_shared w)"

lemma ad_inv_admit:
  assumes inv: "ad_inv rv opts st slots" and w: "w \<in> set (tenant_queue st (aw_tenant w))"
    and r: "reserve rv opts (aw_tenant w) (aw_key w) (aw_shared w) st = Some st1"
  shows "ad_inv rv opts (remove_waiter w (st1\<lparr>ad_lastTenant := x\<rparr>)) (slot_of w # slots)"
proof -
  let ?st = "st1\<lparr>ad_lastTenant := x\<rparr>"
  note fr = reserve_frame [OF r]
  have c: "limits_ok opts ?st" "queues_ok ?st" "w \<in> set (tenant_queue ?st (aw_tenant w))"
    using inv w limits_cong [of ?st st] fr by (simp_all add: ad_inv_def limits_ok_def)
  have "slots_ok rv opts (remove_waiter w ?st) (slot_of w # slots)"
    using slots_ok_reserve [OF _ r] inv slots_cong [of "remove_waiter w ?st" st1] by (simp add: ad_inv_def slot_of_def remove_frame)
  then show ?thesis
    using limits_remove [OF c(1)] queued_remove [OF c(2,3)] inv fr by (simp add: ad_inv_def accounts_ok_def remove_frame)
qed

lemma drain_rounds_inv:
  assumes "ad_inv rv opts st slots" and "drain_rounds n rv opts now st = (ws, st')"
  shows "ad_inv rv opts st' (rev (map slot_of ws) @ slots) \<and> ad_closed st' = ad_closed st"
  using assms
proof (induction n arbitrary: st slots ws)
  case (Suc n)
  show ?case
  proof (cases "ad_closed st \<or> ad_queued st \<le> 0 \<or> next_waiter rv opts st = None")
    case True
    then have "ws = [] \<and> st' = st" using Suc.prems(2) by (auto split: if_splits)
    then show ?thesis using Suc.prems(1) by simp
  next
    case False
    then obtain w st1 where w: "next_waiter rv opts st = Some (w, st1)" by auto
    define st2 where "st2 = recordWait (now - aw_started w) (remove_waiter w (st1\<lparr>ad_lastTenant := Some (aw_tenant w)\<rparr>))"
    obtain ws' where r: "drain_rounds n rv opts now st2 = (ws', st')" "ws = w # ws'"
      using Suc.prems(2) False w by (auto simp: st2_def [symmetric] Let_def split: prod.splits)
    have q: "queues_ok st" using Suc.prems(1) by (simp add: ad_inv_def limits_ok_def)
    have "ad_inv rv opts st2 (slot_of w # slots)"
      unfolding st2_def ad_inv_recordWait by (rule ad_inv_admit [OF Suc.prems(1) next_waiter_Some [OF w q]])
    moreover have "ad_closed st2 = ad_closed st"
      using reserve_frame(4) [OF next_waiter_Some(2) [OF w q]] by (simp add: st2_def remove_frame)
    ultimately show ?thesis using Suc.IH [OF _ r(1)] r(2) by auto
  qed
qed auto

lemma waiting_length_remove:
  assumes "queues_ok st" and "w \<in> set (tenant_queue st (aw_tenant w))"
  shows "Suc (length (waiting (remove_waiter w st))) = length (waiting st)"
  using queues_ok_remove [OF assms(1), of w] assms queued_remove [OF assms] by (simp add: queues_ok_def)

lemma no_waiters:
  assumes "queues_ok st" and "waiting st = []"
  shows "\<not> admissible rv opts st t"
proof -
  have "distinct (map fst (ad_queues st))" using assms(1) by (simp add: queues_ok_def)
  then have "w \<notin> set (tenant_queue st t)" for w using set_waiting [of st w] assms(2) by auto
  then have "tenant_queue st t = []" by (metis list.set_intros(1) neq_Nil_conv)
  then show ?thesis by (simp add: admissible_def)
qed

lemma drain_rounds_exhaust:
  assumes "ad_inv rv opts st slots" and "drain_rounds n rv opts now st = (ws, st')" and "length (waiting st) \<le> n"
  shows "ad_closed st' \<or> (\<forall>t. \<not> admissible rv opts st' t)"
  using assms
proof (induction n arbitrary: st slots ws)
  case 0
  have "queues_ok st" "waiting st = []" using 0 by (simp_all add: ad_inv_def limits_ok_def)
  then show ?case using 0 no_waiters by auto
next
  case (Suc n)
  have q: "queues_ok st" using Suc.prems(1) by (simp add: ad_inv_def limits_ok_def)
  consider "ad_closed st" | "ad_queued st \<le> 0" | "next_waiter rv opts st = None" "\<not> ad_closed st" "0 < ad_queued st"
    | w st1 where "next_waiter rv opts st = Some (w, st1)" "\<not> ad_closed st" "0 < ad_queued st"
    by (cases "next_waiter rv opts st"; cases "ad_closed st"; cases "ad_queued st \<le> 0") force+
  then show ?case
  proof cases
    case 2
    then have "waiting st = []" using q by (simp add: queues_ok_def)
    then show ?thesis using 2 Suc.prems(2) no_waiters [OF q] by auto
  next
    case 3
    have "\<not> admissible rv opts st t" for t
    proof (cases "t \<in> fst ` set (ad_queues st)")
      case True
      then show ?thesis using scan_tenants_None [OF 3(1) [unfolded next_waiter_def], of t] by simp
    next
      case False
      then have "tenant_queue st t = []" by (simp add: tenant_queue_def map_of_eq_None_iff [THEN iffD2])
      then show ?thesis by (simp add: admissible_def)
    qed
    then show ?thesis using 3 Suc.prems(2) by simp
  next
    case 4
    define st2 where "st2 = recordWait (now - aw_started w) (remove_waiter w (st1\<lparr>ad_lastTenant := Some (aw_tenant w)\<rparr>))"
    obtain ws' where r: "drain_rounds n rv opts now st2 = (ws', st')"
      using Suc.prems(2) 4 by (auto simp: st2_def [symmetric] Let_def split: prod.splits)
    note nw = next_waiter_Some [OF 4(1) q]
    let ?st = "st1\<lparr>ad_lastTenant := Some (aw_tenant w)\<rparr>"
    have c: "queues_ok ?st" "tenant_queue ?st = tenant_queue st" "waiting ?st = waiting st"
      using q limits_cong(2-4) [of ?st st] reserve_frame [OF nw(2)] by simp_all
    have "Suc (length (waiting st2)) = length (waiting st)"
      using waiting_length_remove [OF c(1), of w] c(2,3) nw(1) limits_cong(3) [of st2 "remove_waiter w ?st"] by (simp add: st2_def)
    moreover have "ad_inv rv opts st2 (slot_of w # slots)"
      unfolding st2_def ad_inv_recordWait by (rule ad_inv_admit [OF Suc.prems(1) nw])
    ultimately show ?thesis using Suc.IH [OF _ r] Suc.prems(3) by auto
  qed (use Suc.prems(2) in auto)
qed

lemma drain_inv:
  assumes "ad_inv rv opts st slots" and "drain rv opts now st = (ws, st')"
  shows "ad_inv rv opts st' (rev (map slot_of ws) @ slots)" and "ad_closed st' = ad_closed st"
    and "ad_closed st' \<or> (\<forall>t. \<not> admissible rv opts st' t)"
  using drain_rounds_inv [OF assms(1) assms(2) [unfolded drain_def]] drain_rounds_exhaust [OF assms(1) assms(2) [unfolded drain_def]]
  by auto

section \<open>The operations keep the invariant\<close>

lemma ad_inv_counters:
  assumes "ad_inv rv opts st slots" and "w \<in> set (tenant_queue st (aw_tenant w))"
  shows "ad_inv rv opts ((remove_waiter w st)\<lparr>ad_cancelled := ad_cancelled st + 1\<rparr>) slots"
    and "ad_inv rv opts ((remove_waiter w st)\<lparr>ad_refused := ad_refused st + 1, ad_timedOut := x\<rparr>) slots"
proof -
  have l: "limits_ok opts (remove_waiter w st)" "queues_ok st" using assms(1) limits_remove by (auto simp: ad_inv_def limits_ok_def)
  have s: "slots_ok rv opts (remove_waiter w st) slots"
    using assms(1) slots_cong [of "remove_waiter w st" st] by (simp add: ad_inv_def remove_frame)
  show "ad_inv rv opts ((remove_waiter w st)\<lparr>ad_cancelled := ad_cancelled st + 1\<rparr>) slots"
    using l s assms(1) queued_remove [OF l(2) assms(2)]
      limits_cong(1) [of "(remove_waiter w st)\<lparr>ad_cancelled := ad_cancelled st + 1\<rparr>" "remove_waiter w st"]
      slots_cong [of "(remove_waiter w st)\<lparr>ad_cancelled := ad_cancelled st + 1\<rparr>" "remove_waiter w st"]
    by (simp add: ad_inv_def accounts_ok_def remove_frame)
  show "ad_inv rv opts ((remove_waiter w st)\<lparr>ad_refused := ad_refused st + 1, ad_timedOut := x\<rparr>) slots"
    using l s assms(1) queued_remove [OF l(2) assms(2)]
      limits_cong(1) [of "(remove_waiter w st)\<lparr>ad_refused := ad_refused st + 1, ad_timedOut := x\<rparr>" "remove_waiter w st"]
      slots_cong [of "(remove_waiter w st)\<lparr>ad_refused := ad_refused st + 1, ad_timedOut := x\<rparr>" "remove_waiter w st"]
    by (simp add: ad_inv_def accounts_ok_def remove_frame)
qed

lemma ad_inv_release:
  assumes "ad_inv rv opts st slots" and "(tenant, key, shared) \<in> set slots"
  shows "ad_inv rv opts (release_slot rv tenant key shared st) (remove1 (tenant, key, shared) slots)"
proof -
  let ?st = "release_slot rv tenant key shared st"
  have "limits_ok opts ?st = limits_ok opts st" by (rule limits_cong) (simp_all add: release_slot_def)
  then show ?thesis
    using assms slots_ok_release [of rv opts st slots tenant key shared] by (auto simp: ad_inv_def accounts_ok_def release_slot_def)
qed

lemma enqueue_limits:
  assumes l: "limits_ok opts st" and b: "0 \<le> aw_bytes w"
    and room: "ad_queued st < o_maxQueued opts" "int (length (tenant_queue st (aw_tenant w))) < o_maxQueuedPerTenant opts"
      "aw_bytes w \<le> o_maxQueuedBytes opts - ad_queuedBytes st"
      "aw_bytes w \<le> o_maxQueuedBytesPerTenant opts - sum_list (map aw_bytes (tenant_queue st (aw_tenant w)))"
  shows "limits_ok opts (enqueue_waiter w st)" and "w \<in> set (tenant_queue (enqueue_waiter w st) (aw_tenant w))"
proof -
  have q: "queues_ok st" using l by (simp add: limits_ok_def)
  have tq: "tenant_queue (enqueue_waiter w st) t = (if t = aw_tenant w then tenant_queue st t @ [w] else tenant_queue st t)" for t
    by (simp add: enqueue_waiter_def tenant_queue_def)
  show "w \<in> set (tenant_queue (enqueue_waiter w st) (aw_tenant w))" by (simp add: tq)
  have d: "distinct (map fst (ad_queues (enqueue_waiter w st)))" "distinct (map fst (ad_queues st))"
    using q queues_ok_enqueue [OF q] by (auto simp: queues_ok_def)
  have "x = w \<or> x \<in> set (waiting st)" if "x \<in> set (waiting (enqueue_waiter w st))" for x
    using that unfolding set_waiting [OF d(1)] set_waiting [OF d(2)] tq by (auto split: if_splits)
  then have pos: "\<forall>x \<in> set (waiting (enqueue_waiter w st)). 0 \<le> aw_bytes x" using l b by (auto simp: limits_ok_def)
  show "limits_ok opts (enqueue_waiter w st)"
    using l room queues_ok_enqueue [OF q, of w] pos unfolding limits_ok_def tq
    by (auto simp: enqueue_waiter_def)
qed

lemma enqueue_frame:
  "ad_keys (enqueue_waiter w st) = ad_keys st" "ad_tenants (enqueue_waiter w st) = ad_tenants st"
  "ad_active (enqueue_waiter w st) = ad_active st" "ad_offered (enqueue_waiter w st) = ad_offered st"
  "ad_admitted (enqueue_waiter w st) = ad_admitted st" "ad_refused (enqueue_waiter w st) = ad_refused st"
  "ad_cancelled (enqueue_waiter w st) = ad_cancelled st" "ad_completed (enqueue_waiter w st) = ad_completed st"
  "ad_queued (enqueue_waiter w st) = ad_queued st + 1" "ad_closed (enqueue_waiter w st) = ad_closed st"
  by (simp_all add: enqueue_waiter_def)

text \<open>
  While an \<open>acquire\<close> runs, one offered request is not yet accounted for: the invariant holds for the
  state with the offer taken back.
\<close>

definition unoffered :: "'r admission \<Rightarrow> 'r admission" where
  "unoffered st = st\<lparr>ad_offered := ad_offered st - 1\<rparr>"

lemma unoffered_ok:
  "limits_ok opts (unoffered st) = limits_ok opts st" "slots_ok rv opts (unoffered st) slots = slots_ok rv opts st slots"
  "queues_ok (unoffered st) = queues_ok st"
  using limits_cong(1,4) [of "unoffered st" st] slots_cong [of "unoffered st" st] by (simp_all add: unoffered_def)

lemma reserve_unoffered:
  "reserve rv opts t k sh (unoffered st) = map_option unoffered (reserve rv opts t k sh st)"
  by (auto simp: reserve_def unoffered_def tenant_active_def split: option.splits)

lemma scan_unoffered:
  "scan_queue rv opts writers ws (unoffered st) = map_option (map_prod id unoffered) (scan_queue rv opts writers ws st)"
  by (induction ws arbitrary: writers) (auto simp: reserve_unoffered split: option.splits)

lemma next_unoffered: "next_waiter rv opts (unoffered st) = map_option (map_prod id unoffered) (next_waiter rv opts st)"
proof -
  have "scan_tenants rv opts ts (unoffered st) = map_option (map_prod id unoffered) (scan_tenants rv opts ts st)" for ts
  proof (induction ts)
    case (Cons t ts)
    have "ad_queues (unoffered st) = ad_queues st" by (simp add: unoffered_def)
    then show ?case using Cons by (simp add: scan_unoffered split: option.split)
  qed simp
  moreover have "tenant_order (unoffered st) = tenant_order st" by (simp add: tenant_order_def unoffered_def)
  ultimately show ?thesis by (simp add: next_waiter_def)
qed

lemma drain_unoffered: "drain rv opts now (unoffered st) = map_prod id unoffered (drain rv opts now st)"
proof -
  have rem: "recordWait ms (remove_waiter w ((unoffered st)\<lparr>ad_lastTenant := x\<rparr>)) = unoffered (recordWait ms (remove_waiter w (st\<lparr>ad_lastTenant := x\<rparr>)))" for ms w x and st :: "'a admission"
    by (auto simp: recordWait_def remove_waiter_def unoffered_def Let_def split: option.splits)
  have fl: "ad_closed (unoffered st) = ad_closed st" "ad_queued (unoffered st) = ad_queued st" "waiting (unoffered st) = waiting st" for st :: "'a admission"
    by (simp_all add: unoffered_def waiting_def)
  have "drain_rounds n rv opts now (unoffered st) = map_prod id unoffered (drain_rounds n rv opts now st)" for n and st :: "'a admission"
  proof (induction n arbitrary: st)
    case (Suc n)
    show ?case
      by (cases "next_waiter rv opts st")
         (auto simp: next_unoffered fl rem Suc.IH Let_def split: prod.split)
  qed simp
  then show ?thesis by (simp add: drain_def fl)
qed

lemma drain_offered:
  assumes "ad_inv rv opts (unoffered st) slots" and "drain rv opts now st = (ws, st')"
  shows "ad_inv rv opts (unoffered st') (rev (map slot_of ws) @ slots)" and "ad_closed st' = ad_closed st"
proof -
  have d: "drain rv opts now (unoffered st) = (ws, unoffered st')" using assms(2) by (simp add: drain_unoffered)
  show "ad_inv rv opts (unoffered st') (rev (map slot_of ws) @ slots)" by (rule drain_inv(1) [OF assms(1) d])
  show "ad_closed st' = ad_closed st" using drain_inv(2) [OF assms(1) d] by (simp add: unoffered_def)
qed

lemma acquire_inv:
  assumes inv: "ad_inv rv opts st0 slots" and b: "0 \<le> bytes"
    and acq: "ad_acquire rv opts i tenant key bytes aborted shared qf now st0 = (out, woken, st')"
  shows "ad_inv rv opts st' ((if out = Admitted then [(tenant, key, shared)] else []) @ rev (map slot_of woken) @ slots)"
proof -
  define st where "st = st0\<lparr>ad_offered := ad_offered st0 + 1\<rparr>"
  have un: "unoffered st = st0" by (simp add: st_def unoffered_def)
  show ?thesis
  proof (cases "ad_closed st \<or> aborted")
    case True
    then have o: "out = RequestAborted" "woken = []" "st' = st\<lparr>ad_cancelled := ad_cancelled st + 1\<rparr>"
      using acq by (auto simp: ad_acquire_def st_def Let_def)
    have "limits_ok opts st' = limits_ok opts st0" "slots_ok rv opts st' slots = slots_ok rv opts st0 slots"
      by (rule limits_cong slots_cong; simp add: o st_def)+
    then show ?thesis using inv o by (simp add: ad_inv_def accounts_ok_def st_def)
  next
    case False
    obtain w1 st1 where d: "drain rv opts now st = (w1, st1)" by force
    let ?slots = "rev (map slot_of w1) @ slots" and ?q = "tenant_queue st1 tenant"
    have inv1: "ad_inv rv opts (unoffered st1) ?slots" using drain_offered(1) [OF _ d] inv un by simp
    then have p: "limits_ok opts st1" "slots_ok rv opts st1 ?slots"
      "ad_offered st1 - 1 = ad_admitted st1 + ad_queued st1 + ad_refused st1 + ad_cancelled st1" "ad_admitted st1 = ad_active st1 + ad_completed st1"
      by (auto simp: ad_inv_def unoffered_ok accounts_ok_def) (auto simp: unoffered_def)
    show ?thesis
    proof (cases "if list_ex (\<lambda>w. aw_key w = key) ?q then None else reserve rv opts tenant key shared st1")
      case (Some st2)
      then have r: "reserve rv opts tenant key shared st1 = Some st2" by (auto split: if_splits)
      have o: "out = Admitted" "woken = w1" "st' = recordWait 0 st2"
        using acq False d Some by (auto simp: ad_acquire_def st_def [symmetric] tenant_queue_def Let_def)
      have "limits_ok opts st2 = limits_ok opts st1" by (rule limits_cong) (simp_all add: reserve_frame [OF r])
      then have "ad_inv rv opts st2 ((tenant, key, shared) # ?slots)"
        using p slots_ok_reserve [OF p(2) r] reserve_frame [OF r] by (simp add: ad_inv_def accounts_ok_def)
      then show ?thesis using o by simp
    next
      case None
      define full where "full \<longleftrightarrow> ad_queued st1 \<ge> o_maxQueued opts \<or> int (length ?q) \<ge> o_maxQueuedPerTenant opts
          \<or> bytes > o_maxQueuedBytes opts - ad_queuedBytes st1 \<or> bytes > o_maxQueuedBytesPerTenant opts - sum_list (map aw_bytes ?q)"
      show ?thesis
      proof (cases full)
        case True
        have o: "out = Busy" "woken = w1" "st' = st1\<lparr>ad_refused := ad_refused st1 + 1\<rparr>"
          using acq False d None True by (auto simp: ad_acquire_def st_def [symmetric] tenant_queue_def Let_def full_def)
        have "limits_ok opts st' = limits_ok opts st1" "slots_ok rv opts st' ?slots = slots_ok rv opts st1 ?slots"
          by (rule limits_cong slots_cong; simp add: o)+
        then show ?thesis using o p by (simp add: ad_inv_def accounts_ok_def)
      next
        case nfull: False
        define w where "w = \<lparr>aw_id = i, aw_tenant = tenant, aw_key = key, aw_bytes = bytes, aw_shared = shared, aw_started = now\<rparr>"
        define st2 where "st2 = enqueue_waiter w st1"
        define st3 where "st3 = (if qf then (remove_waiter w st2)\<lparr>ad_cancelled := ad_cancelled st2 + 1\<rparr> else st2)"
        obtain w2 st4 where d2: "drain rv opts now st3 = (w2, st4)" by force
        have o: "out \<noteq> Admitted" "woken = w1 @ w2" "st' = st4"
          using acq False d None nfull d2 [unfolded st3_def st2_def w_def] unfolding ad_acquire_def Let_def
          by (cases qf; auto simp: st_def [symmetric] tenant_queue_def [symmetric] full_def)+
        have lim: "limits_ok opts st2" "w \<in> set (tenant_queue st2 (aw_tenant w))"
          unfolding st2_def by (rule enqueue_limits [OF p(1)]; use nfull b in \<open>simp add: full_def w_def\<close>)+
        have sl: "slots_ok rv opts st2 ?slots"
          using p(2) slots_cong [of st2 st1] by (simp add: st2_def enqueue_frame)
        have inv2: "ad_inv rv opts st2 ?slots"
          using lim sl p(3,4) by (simp add: ad_inv_def accounts_ok_def st2_def enqueue_frame)
        have inv3: "ad_inv rv opts st3 ?slots"
          using inv2 ad_inv_counters(1) [OF inv2 lim(2)] by (simp add: st3_def)
        show ?thesis using drain_inv(1) [OF inv3 d2] o by simp
      qed
    qed
  qed
qed

text \<open>Closing rejects every waiter once.\<close>

lemma mset_concat_update:
  "distinct (map fst t) \<Longrightarrow> map_of t k = Some v \<Longrightarrow>
     mset (concat (map snd (AList.update k v' t))) + mset v = mset (concat (map snd t)) + mset v'"
  by (induction t) auto

lemma mset_concat_delete:
  "distinct (map fst t) \<Longrightarrow> map_of t k = Some v \<Longrightarrow> mset (concat (map snd (AList.delete k t))) + mset v = mset (concat (map snd t))"
  by (induction t) (auto simp: delete_id)

lemma mset_waiting_remove:
  assumes q: "queues_ok st" and w: "w \<in> set (tenant_queue st (aw_tenant w))"
  shows "add_mset w (mset (waiting (remove_waiter w st))) = mset (waiting st)"
proof -
  obtain ws where ws: "map_of (ad_queues st) (aw_tenant w) = Some ws" "w \<in> set ws"
    using w by (cases "map_of (ad_queues st) (aw_tenant w)") (auto simp: tenant_queue_def)
  have dis: "distinct (map fst (ad_queues st))" using q by (simp add: queues_ok_def)
  have m: "mset ws = add_mset w (mset (remove1 w ws))" using ws(2) by simp
  show ?thesis
  proof (cases "remove1 w ws = []")
    case True
    then have "waiting (remove_waiter w st) = concat (map snd (AList.delete (aw_tenant w) (ad_queues st)))"
      using ws by (simp add: remove_waiter_def waiting_def)
    then show ?thesis using mset_concat_delete [OF dis ws(1)] True m unfolding waiting_def by (metis add_mset_add_single mset.simps(1))
  next
    case False
    then have "waiting (remove_waiter w st) = concat (map snd (AList.update (aw_tenant w) (remove1 w ws) (ad_queues st)))"
      using ws by (simp add: remove_waiter_def waiting_def)
    moreover have "mset (concat (map snd (AList.update (aw_tenant w) (remove1 w ws) (ad_queues st)))) + add_mset w (mset (remove1 w ws)) =
        mset (waiting st) + mset (remove1 w ws)"
      using mset_concat_update [OF dis ws(1), of "remove1 w ws"] unfolding m waiting_def .
    ultimately show ?thesis by (simp del: mset_remove1)
  qed
qed

lemma waiting_queued:
  assumes "ad_inv rv opts st slots" and "w \<in> set (waiting st)"
  shows "w \<in> set (tenant_queue st (aw_tenant w))"
proof -
  have q: "queues_ok st" using assms(1) by (simp add: ad_inv_def limits_ok_def)
  then obtain t where t: "w \<in> set (tenant_queue st t)" using assms(2) set_waiting [of st w] by (auto simp: queues_ok_def)
  then show ?thesis using waiting_tenant [OF q t] by simp
qed

lemma close_fold_inv:
  assumes "ad_inv rv opts st slots" and "mset ws = mset (waiting st)"
  shows "ad_inv rv opts (fold (\<lambda>w s. let s1 = remove_waiter w s in s1\<lparr>ad_cancelled := ad_cancelled s1 + 1\<rparr>) ws st) slots"
  using assms
proof (induction ws arbitrary: st)
  case (Cons w ws)
  have q: "queues_ok st" using Cons.prems(1) by (simp add: ad_inv_def limits_ok_def)
  have "w \<in> set (waiting st)" using Cons.prems(2) by (metis list.set_intros(1) set_mset_mset)
  then have w: "w \<in> set (tenant_queue st (aw_tenant w))" by (rule waiting_queued [OF Cons.prems(1)])
  let ?s = "(remove_waiter w st)\<lparr>ad_cancelled := ad_cancelled st + 1\<rparr>"
  have "mset ws = mset (waiting ?s)"
    using Cons.prems(2) mset_waiting_remove [OF q w] limits_cong(3) [of ?s "remove_waiter w st"]
    by simp (metis add_mset_add_single add_right_cancel)
  then show ?case using Cons.IH [OF ad_inv_counters(1) [OF Cons.prems(1) w]] by (simp add: remove_frame)
qed simp

lemma close_inv: "ad_inv rv opts st slots \<Longrightarrow> ad_inv rv opts (close_admission st) slots"
proof -
  assume inv: "ad_inv rv opts st slots"
  let ?st = "st\<lparr>ad_closed := True\<rparr>"
  have "ad_inv rv opts ?st slots"
    using inv limits_cong(1) [of ?st st] slots_cong [of ?st st] by (simp add: ad_inv_def accounts_ok_def)
  then show ?thesis
    using close_fold_inv [of rv opts ?st slots "waiting st"] limits_cong(3) [of ?st st] by (simp add: close_admission_def)
qed

section \<open>Histories\<close>

record 'r ad_sys =
  sys_ad :: "'r admission"
  sys_slots :: "ad_slot list"

inductive ad_step :: "'r reserver option \<Rightarrow> admission_options \<Rightarrow> 'r ad_sys \<Rightarrow> 'r ad_sys \<Rightarrow> bool" for rv opts where
  offer: "0 \<le> bytes \<Longrightarrow> ad_acquire rv opts i tenant key bytes aborted shared qf now (sys_ad s) = (out, woken, st) \<Longrightarrow>
     ad_step rv opts s \<lparr>sys_ad = st,
       sys_slots = (if out = Admitted then [(tenant, key, shared)] else []) @ rev (map slot_of woken) @ sys_slots s\<rparr>"
| timeout: "w \<in> set (waiting (sys_ad s)) \<Longrightarrow> timeout_waiter rv opts w now (sys_ad s) = (woken, st) \<Longrightarrow>
     ad_step rv opts s \<lparr>sys_ad = st, sys_slots = rev (map slot_of woken) @ sys_slots s\<rparr>"
| abort: "w \<in> set (waiting (sys_ad s)) \<Longrightarrow> abort_waiter rv opts w now (sys_ad s) = (woken, st) \<Longrightarrow>
     ad_step rv opts s \<lparr>sys_ad = st, sys_slots = rev (map slot_of woken) @ sys_slots s\<rparr>"
| release: "(tenant, key, shared) \<in> set (sys_slots s) \<Longrightarrow> ad_release rv opts tenant key shared now (sys_ad s) = (woken, st) \<Longrightarrow>
     ad_step rv opts s \<lparr>sys_ad = st, sys_slots = rev (map slot_of woken) @ remove1 (tenant, key, shared) (sys_slots s)\<rparr>"
| wake: "drain rv opts now (sys_ad s) = (woken, st) \<Longrightarrow>
     ad_step rv opts s \<lparr>sys_ad = st, sys_slots = rev (map slot_of woken) @ sys_slots s\<rparr>"
| close: "ad_step rv opts s (s\<lparr>sys_ad := close_admission (sys_ad s)\<rparr>)"

definition new_ad_sys :: "'r \<Rightarrow> 'r ad_sys" where
  "new_ad_sys r = \<lparr>sys_ad = new_admission r, sys_slots = []\<rparr>"

lemma ad_step_inv:
  assumes "ad_step rv opts s t" and "ad_inv rv opts (sys_ad s) (sys_slots s)"
  shows "ad_inv rv opts (sys_ad t) (sys_slots t)"
  using assms
proof cases
  case offer
  then show ?thesis using acquire_inv [OF assms(2)] by simp
next
  case (timeout w now woken st)
  then show ?thesis
    using drain_inv(1) [OF ad_inv_counters(2) [OF assms(2) waiting_queued [OF assms(2)]]]
    by (simp add: timeout_waiter_def remove_frame Let_def)
next
  case (abort w now woken st)
  then show ?thesis
    using drain_inv(1) [OF ad_inv_counters(1) [OF assms(2) waiting_queued [OF assms(2)]]]
    by (simp add: abort_waiter_def remove_frame Let_def)
next
  case (release tenant key shared now woken st)
  then show ?thesis using drain_inv(1) [OF ad_inv_release [OF assms(2) release(2)]] by (simp add: ad_release_def)
next
  case wake
  then show ?thesis using drain_inv(1) [OF assms(2)] by simp
next
  case close
  then show ?thesis using close_inv [OF assms(2)] by simp
qed

interpretation fair: safe_machine "\<lambda>s. \<exists>r. s = new_ad_sys r" "ad_step rv opts" "\<lambda>s. ad_inv rv opts (sys_ad s) (sys_slots s)"
  for rv opts
proof
  show "ad_inv rv opts (sys_ad s) (sys_slots s)" if "\<exists>r. s = new_ad_sys r" for s
    using that by (auto simp: new_ad_sys_def new_admission_def ad_inv_def limits_ok_def queues_ok_def slots_ok_def
        accounts_ok_def key_row_ok_def waiting_def tenant_queue_def)
  show "ad_inv rv opts (sys_ad t) (sys_slots t)" if "ad_inv rv opts (sys_ad s) (sys_slots s)" "ad_step rv opts s t" for s t
    by (rule ad_step_inv [OF that(2,1)])
qed

section \<open>Round robin\<close>

lemma index_of_Some: "index_of x xs = Some i \<Longrightarrow> i < length xs \<and> xs ! i = x"
  by (induction xs arbitrary: i) (auto split: if_splits)

lemma index_of_in: "x \<in> set xs \<Longrightarrow> \<exists>i. index_of x xs = Some i"
  by (induction xs) auto

lemma last_rotate_Suc:
  assumes "i < length xs"
  shows "last (rotate (Suc i) xs) = xs ! i"
proof (cases "Suc i = length xs")
  case True
  then have "rotate (Suc i) xs = xs" by (simp add: rotate_length01 rotate_conv_mod [of "Suc i"])
  then show ?thesis using True assms by (metis diff_Suc_1 last_conv_nth list.size(3) not_less0)
next
  case False
  then have "rotate (Suc i) xs = drop (Suc i) xs @ take (Suc i) xs" using assms by (simp add: rotate_drop_take)
  then show ?thesis using assms by (simp add: take_Suc_conv_app_nth)
qed

lemma tenant_order_last:
  assumes "ad_lastTenant st = Some t" and "t \<in> fst ` set (ad_queues st)"
  shows "last (tenant_order st) = t"
proof -
  obtain i where i: "index_of t (map fst (ad_queues st)) = Some i" using index_of_in [of t "map fst (ad_queues st)"] assms(2) by auto
  then show ?thesis using assms(1) index_of_Some [OF i] last_rotate_Suc [of i "map fst (ad_queues st)"]
    by (simp add: tenant_order_def)
qed

section \<open>Properties\<close>

text \<open>
  C33. Admission limits: in every history, with no external reservation callback, at most \<open>capacity\<close>
  requests are active; always at most \<open>maxActivePerTenant\<close> of one tenant; the waiting requests stay
  within the total and the per-tenant queue limits, in number and in bytes; and the counters are exact.
\<close>

theorem admission_limits:
  assumes "(ad_step rv opts)\<^sup>*\<^sup>* (new_ad_sys r) s"
  shows "(rv = None \<longrightarrow> int (length (sys_slots s)) \<le> max 0 (o_capacity opts))
    \<and> int (length (tenant_slots t (sys_slots s))) \<le> max 0 (o_maxActivePerTenant opts)
    \<and> int (length (waiting (sys_ad s))) \<le> max 0 (o_maxQueued opts)
    \<and> int (length (tenant_queue (sys_ad s) t)) \<le> max 0 (o_maxQueuedPerTenant opts)
    \<and> sum_list (map aw_bytes (waiting (sys_ad s))) \<le> max 0 (o_maxQueuedBytes opts)
    \<and> sum_list (map aw_bytes (tenant_queue (sys_ad s) t)) \<le> max 0 (o_maxQueuedBytesPerTenant opts)
    \<and> ad_active (sys_ad s) = int (length (sys_slots s)) \<and> ad_queued (sys_ad s) = int (length (waiting (sys_ad s)))"
proof -
  have inv: "ad_inv rv opts (sys_ad s) (sys_slots s)" by (rule fair.reachable_inv [OF _ assms]) blast
  then have q: "queues_ok (sys_ad s)" by (simp add: ad_inv_def limits_ok_def)
  show ?thesis
    using inv q unfolding ad_inv_def limits_ok_def slots_ok_def queues_ok_def by simp
qed

definition demo_opts :: admission_options where
  "demo_opts = \<lparr>o_capacity = 1, o_maxActivePerTenant = 1, o_maxQueued = 2, o_maxQueuedPerTenant = 1,
     o_maxQueuedBytes = 10, o_maxQueuedBytesPerTenant = 10\<rparr>"

definition demo_sys :: "unit ad_sys" where
  "demo_sys =
     (case ad_acquire None demo_opts 0 ''t'' ''k'' 5 False False False 0 (new_admission ()) of
        (out, woken, st) \<Rightarrow> \<lparr>sys_ad = st, sys_slots = (if out = Admitted then [(''t'', ''k'', False)] else []) @ rev (map slot_of woken) @ []\<rparr>)"

lemma demo_sys_reachable: "(ad_step None demo_opts)\<^sup>*\<^sup>* (new_ad_sys ()) demo_sys"
proof -
  obtain out woken st where a: "ad_acquire None demo_opts 0 ''t'' ''k'' 5 False False False 0 (new_admission ()) = (out, woken, st)"
    by (metis prod_cases3)
  have "ad_step None demo_opts (new_ad_sys ()) demo_sys"
    using ad_step.offer [of 5 None demo_opts 0 "''t''" "''k''" False False False 0 "new_ad_sys ()"] a
    by (simp add: demo_sys_def new_ad_sys_def)
  then show ?thesis by (rule r_into_rtranclp)
qed

lemma demo_slots: "sys_slots demo_sys = [(''t'', ''k'', False)]"
  by code_simp

theorem admission_limits_witness:
  "int (length (sys_slots demo_sys)) \<le> max 0 (o_capacity demo_opts) \<and> ad_active (sys_ad demo_sys) = 1"
  using admission_limits [OF demo_sys_reachable, of "''t''"] demo_slots by simp

text \<open>
  C34. Exclusive keys: two requests active under the same key are both shared; so an exclusive
  request is alone on its key.
\<close>

theorem admission_key_exclusion:
  assumes "(ad_step rv opts)\<^sup>*\<^sup>* (new_ad_sys r) s" and "sys_slots s = a @ (t, k, sh) # b" and "(t', k, sh') \<in> set (a @ b)"
  shows "sh \<and> sh'"
proof -
  have "ad_inv rv opts (sys_ad s) (sys_slots s)" by (rule fair.reachable_inv [OF _ assms(1)]) blast
  then have row: "key_row_ok (map_of (ad_keys (sys_ad s)) k) (key_slots k (sys_slots s))" by (simp add: ad_inv_def slots_ok_def)
  have two: "length (key_slots k (sys_slots s)) \<noteq> 1"
  proof -
    have "key_slots k (a @ b) \<noteq> []" using assms(3) by (force simp: filter_empty_conv)
    then show ?thesis unfolding assms(2) by auto
  qed
  have mem: "(t, k, sh) \<in> set (key_slots k (sys_slots s))" "(t', k, sh') \<in> set (key_slots k (sys_slots s))"
    using assms(2,3) by auto
  then obtain n sh0 where "map_of (ad_keys (sys_ad s)) k = Some (n, sh0)"
    using row by (cases "map_of (ad_keys (sys_ad s)) k") (fastforce simp: key_row_ok_def filter_empty_conv)+
  then have sh0: "\<forall>x \<in> set (key_slots k (sys_slots s)). snd (snd x) = sh0" "\<not> sh0 \<longrightarrow> length (key_slots k (sys_slots s)) = 1"
    using row by (simp_all add: key_row_ok_def)
  show ?thesis using bspec [OF sh0(1) mem(1)] bspec [OF sh0(1) mem(2)] sh0(2) two by simp
qed

theorem admission_key_exclusion_witness:
  "\<exists>s :: unit ad_sys. \<exists>sh sh'. sys_slots s = [(''t'', ''k'', sh), (''t'', ''k'', sh')] \<and> sh \<and> sh'"
proof -
  let ?o = "demo_opts\<lparr>o_capacity := 2, o_maxActivePerTenant := 2\<rparr>"
  let ?acq = "ad_acquire None ?o 0 ''t'' ''k'' 5 False True False 0"
  let ?st1 = "snd (snd (?acq (new_admission ())))" and ?st2 = "snd (snd (?acq (snd (snd (?acq (new_admission ()))))))"
  let ?s1 = "\<lparr>sys_ad = ?st1, sys_slots = [(''t'', ''k'', True)]\<rparr>" and ?s2 = "\<lparr>sys_ad = ?st2, sys_slots = [(''t'', ''k'', True), (''t'', ''k'', True)]\<rparr>"
  have o: "fst (?acq (new_admission ())) = Admitted" "fst (snd (?acq (new_admission ()))) = []"
    "fst (?acq ?st1) = Admitted" "fst (snd (?acq ?st1)) = []" by code_simp+
  have "ad_step None ?o (new_ad_sys ()) ?s1"
    using ad_step.offer [of 5 None ?o 0 "''t''" "''k''" False True False 0 "new_ad_sys ()" Admitted "[]" ?st1] o(1,2)
    by (simp add: new_ad_sys_def prod_eq_iff)
  moreover have "ad_step None ?o ?s1 ?s2"
    using ad_step.offer [of 5 None ?o 0 "''t''" "''k''" False True False 0 ?s1 Admitted "[]" ?st2] o(3,4)
    by (simp add: prod_eq_iff)
  ultimately have "(ad_step None ?o)\<^sup>*\<^sup>* (new_ad_sys ()) ?s2" by (meson converse_rtranclp_into_rtranclp r_into_rtranclp)
  from admission_key_exclusion [OF this, of "[]" "''t''" "''k''" True "[(''t'', ''k'', True)]" "''t''" True]
  show ?thesis by (intro exI [of _ ?s2] exI [of _ True]) simp
qed

text \<open>
  C35. No request is lost: in every history each offered request is admitted, waiting, refused or
  cancelled, exactly one of them, and each admitted one is active or completed.
\<close>

theorem admission_accounting:
  assumes "(ad_step rv opts)\<^sup>*\<^sup>* (new_ad_sys r) s"
  shows "ad_offered (sys_ad s) = ad_active (sys_ad s) + ad_completed (sys_ad s) + int (length (waiting (sys_ad s)))
    + ad_refused (sys_ad s) + ad_cancelled (sys_ad s)"
proof -
  have "ad_inv rv opts (sys_ad s) (sys_slots s)" by (rule fair.reachable_inv [OF _ assms]) blast
  then show ?thesis by (simp add: ad_inv_def accounts_ok_def limits_ok_def queues_ok_def)
qed

theorem admission_accounting_witness:
  "ad_offered (sys_ad demo_sys) = ad_active (sys_ad demo_sys) + ad_completed (sys_ad demo_sys) + int (length (waiting (sys_ad demo_sys)))
    + ad_refused (sys_ad demo_sys) + ad_cancelled (sys_ad demo_sys)"
  by (rule admission_accounting [OF demo_sys_reachable])

text \<open>
  C36. No slot idles while it could be used: when a request completes, its release admits waiters until
  no tenant has one left that could be admitted (one with no exclusive waiter of its key ahead of it
  in the tenant's queue and with capacity for it), unless the admission has been closed.
\<close>

theorem admission_work_conserving:
  assumes "(ad_step rv opts)\<^sup>*\<^sup>* (new_ad_sys r) s" and "(tenant, key, shared) \<in> set (sys_slots s)"
    and "ad_release rv opts tenant key shared now (sys_ad s) = (woken, st)" and "\<not> ad_closed (sys_ad s)"
  shows "\<forall>t. \<not> admissible rv opts st t"
proof -
  have inv: "ad_inv rv opts (sys_ad s) (sys_slots s)" by (rule fair.reachable_inv [OF _ assms(1)]) blast
  note d = drain_inv [OF ad_inv_release [OF inv assms(2)] assms(3) [unfolded ad_release_def]]
  show ?thesis using d(2,3) assms(4) by (simp add: release_slot_def)
qed

text \<open>With one slot taken and a second tenant waiting, the release admits the waiter.\<close>

definition demo_waiting :: "unit ad_sys" where
  "demo_waiting = \<lparr>sys_ad = snd (snd (ad_acquire None demo_opts 1 ''u'' ''j'' 5 False False False 0 (sys_ad demo_sys))), sys_slots = [(''t'', ''k'', False)]\<rparr>"

lemma demo_waiting_reachable: "(ad_step None demo_opts)\<^sup>*\<^sup>* (new_ad_sys ()) demo_waiting"
proof -
  let ?acq = "ad_acquire None demo_opts 1 ''u'' ''j'' 5 False False False 0 (sys_ad demo_sys)"
  have o: "fst ?acq = Waiting" "fst (snd ?acq) = []" by code_simp+
  have "ad_step None demo_opts demo_sys demo_waiting"
    using ad_step.offer [of 5 None demo_opts 1 "''u''" "''j''" False False False 0 demo_sys Waiting "[]" "snd (snd ?acq)"] o
    by (simp add: prod_eq_iff demo_slots demo_waiting_def)
  then show ?thesis by (meson demo_sys_reachable rtranclp.rtrancl_into_rtrancl)
qed

theorem admission_work_conserving_witness:
  "map aw_tenant (fst (ad_release None demo_opts ''t'' ''k'' False 1 (sys_ad demo_waiting))) = [''u'']
   \<and> (\<forall>t. \<not> admissible None demo_opts (snd (ad_release None demo_opts ''t'' ''k'' False 1 (sys_ad demo_waiting))) t)"
proof
  let ?rel = "ad_release None demo_opts ''t'' ''k'' False 1 (sys_ad demo_waiting)"
  show "map aw_tenant (fst ?rel) = [''u'']" by code_simp
  have "\<not> ad_closed (sys_ad demo_waiting)" by code_simp
  then show "\<forall>t. \<not> admissible None demo_opts (snd ?rel) t"
    using admission_work_conserving [OF demo_waiting_reachable, of "''t''" "''k''" False 1 "fst ?rel" "snd ?rel"]
    by (simp add: demo_waiting_def)
qed

text \<open>
  Tenants are served in turn: when a release frees a slot, the next waiter admitted belongs to
  the first tenant, in round-robin order, that has an admissible one; and the tenant served last
  comes last in that order.
\<close>

theorem admission_round_robin:
  assumes "(ad_step rv opts)\<^sup>*\<^sup>* (new_ad_sys r) s" and "(tenant, key, shared) \<in> set (sys_slots s)"
    and "next_waiter rv opts (release_slot rv tenant key shared (sys_ad s)) = Some (w, st1)"
  shows "let st = release_slot rv tenant key shared (sys_ad s)
    in (\<exists>a b. tenant_order st = a @ aw_tenant w # b \<and> (\<forall>u \<in> set a. \<not> admissible rv opts st u))
      \<and> (\<forall>t. ad_lastTenant st = Some t \<and> tenant_queue st t \<noteq> [] \<longrightarrow> last (tenant_order st) = t)"
  unfolding Let_def
proof (intro conjI allI impI)
  let ?st = "release_slot rv tenant key shared (sys_ad s)"
  have "ad_inv rv opts (sys_ad s) (sys_slots s)" by (rule fair.reachable_inv [OF _ assms(1)]) blast
  then have "ad_inv rv opts ?st (remove1 (tenant, key, shared) (sys_slots s))" using assms(2) by (rule ad_inv_release)
  then have q: "queues_ok ?st" by (simp add: ad_inv_def limits_ok_def)
  obtain a t b where t: "tenant_order ?st = a @ t # b" "\<forall>u \<in> set a. \<not> admissible rv opts ?st u" "w \<in> set (tenant_queue ?st t)"
    using scan_tenants_Some [OF assms(3) [unfolded next_waiter_def]] by blast
  then show "\<exists>a b. tenant_order ?st = a @ aw_tenant w # b \<and> (\<forall>u \<in> set a. \<not> admissible rv opts ?st u)"
    using waiting_tenant [OF q t(3)] by blast
  show "last (tenant_order ?st) = t" if "ad_lastTenant ?st = Some t \<and> tenant_queue ?st t \<noteq> []" for t
    using that by (intro tenant_order_last) (force simp: tenant_queue_def dest: map_of_SomeD split: option.splits)+
qed

theorem admission_round_robin_witness:
  "\<exists>st :: unit admission. \<exists>w st1. next_waiter None demo_opts st = Some (w, st1) \<and> aw_tenant w = ''u''
     \<and> (\<exists>a b. tenant_order st = a @ ''u'' # b \<and> (\<forall>v \<in> set a. \<not> admissible None demo_opts st v))"
proof -
  let ?st = "release_slot None ''t'' ''k'' False (sys_ad demo_waiting)"
  have mem: "(''t'', ''k'', False) \<in> set (sys_slots demo_waiting)" by (simp add: demo_waiting_def)
  have "map_option (aw_tenant \<circ> fst) (next_waiter None demo_opts ?st) = Some ''u''" by code_simp
  then obtain w st1 where nw: "next_waiter None demo_opts ?st = Some (w, st1)" "aw_tenant w = ''u''" by auto
  from admission_round_robin [OF demo_waiting_reachable mem nw(1)] nw show ?thesis by (auto simp: Let_def)
qed

end
