(* ===== verification/Ingress.thy ===== *)
theory Ingress
  imports FairAdmission
begin

text \<open>
  Admission of request bodies, \<open>api/ingress-admission.ts\<close>: the options, the budget of raw bytes held for
  requests in flight, in total and per tenant, and the life of one request from its declared length over its
  chunks, failures and holders to the release of everything it held. The queue for a request slot is the one of
  theory \<open>FairAdmission\<close>; here its answer is part of the history.
\<close>

section \<open>Options\<close>

record ingress_options =
  n_maxRequests :: int
  n_maxTenantRequests :: int
  n_maxQueuedRequests :: int
  n_maxTenantQueuedRequests :: int
  n_maxMcpListeners :: int
  n_maxTenantMcpListeners :: int
  n_maxBytes :: int
  n_maxTenantBytes :: int
  n_maxBodyBytes :: int
  n_waitMs :: int

definition MAX_SAFE_INTEGER :: int where "MAX_SAFE_INTEGER = 9007199254740991"

definition MAX_TIMER_MS :: int where "MAX_TIMER_MS = 2147483647"

definition read_option :: "(string \<Rightarrow> string option) \<Rightarrow> (string \<Rightarrow> int option) \<Rightarrow> string \<Rightarrow> int \<Rightarrow> int \<Rightarrow> string + int" where
  "read_option env number name fallback minimum =
     (let value = (case env name of None \<Rightarrow> Some fallback | Some raw \<Rightarrow> if raw = [] then Some fallback else number raw)
      in (case value of
            None \<Rightarrow> Inl name
          | Some v \<Rightarrow> if \<bar>v\<bar> > MAX_SAFE_INTEGER \<or> v < minimum then Inl name else Inr v))"

definition opt_then :: "string + 'a \<Rightarrow> ('a \<Rightarrow> string + 'b) \<Rightarrow> string + 'b" where
  "opt_then x f = (case x of Inl e \<Rightarrow> Inl e | Inr a \<Rightarrow> f a)"

definition check_option :: "bool \<Rightarrow> string \<Rightarrow> string + unit" where
  "check_option bad name = (if bad then Inl name else Inr ())"

text \<open>\<open>Math.ceil(maxBytes / 4)\<close> on integers.\<close>

definition loadIngressOptions :: "(string \<Rightarrow> string option) \<Rightarrow> (string \<Rightarrow> int option) \<Rightarrow> string + ingress_options" where
  "loadIngressOptions env number =
     (let rd = read_option env number in
      opt_then (rd ''SQL_FS_MAX_INGRESS_REQUESTS'' 8 1) (\<lambda>maxRequests.
      opt_then (rd ''SQL_FS_MAX_INGRESS_TENANT_REQUESTS'' (max 1 (maxRequests div 2)) 1) (\<lambda>maxTenantRequests.
      opt_then (check_option (maxTenantRequests > max 1 (maxRequests - 1)) ''SQL_FS_MAX_INGRESS_TENANT_REQUESTS'') (\<lambda>_.
      opt_then (rd ''SQL_FS_MAX_INGRESS_QUEUED_REQUESTS'' maxRequests 0) (\<lambda>maxQueued.
      let share = (if maxQueued > 1 then maxQueued - 1 else maxQueued) in
      opt_then (rd ''SQL_FS_MAX_INGRESS_TENANT_QUEUED_REQUESTS'' (min maxTenantRequests share) 0) (\<lambda>maxTenantQueued.
      opt_then (check_option (maxTenantQueued > share) ''SQL_FS_MAX_INGRESS_TENANT_QUEUED_REQUESTS'') (\<lambda>_.
      opt_then (rd ''SQL_FS_MAX_INGRESS_MCP_LISTENERS'' maxRequests 1) (\<lambda>mcp.
      opt_then (rd ''SQL_FS_MAX_INGRESS_TENANT_MCP_LISTENERS'' (max 1 (mcp div 2)) 1) (\<lambda>tenantMcp.
      opt_then (check_option (tenantMcp > max 1 (mcp - 1)) ''SQL_FS_MAX_INGRESS_TENANT_MCP_LISTENERS'') (\<lambda>_.
      opt_then (rd ''SQL_FS_MAX_INGRESS_BYTES'' (128 * 1024 * 1024) 1) (\<lambda>maxBytes.
      opt_then (rd ''SQL_FS_MAX_INGRESS_TENANT_BYTES'' (max 1 (maxBytes - (maxBytes + 3) div 4)) 1) (\<lambda>maxTenantBytes.
      opt_then (check_option (maxTenantBytes > max 1 (maxBytes - 1)) ''SQL_FS_MAX_INGRESS_TENANT_BYTES'') (\<lambda>_.
      opt_then (rd ''MAX_REQUEST_BODY_BYTES'' (256 * 1024 * 1024) 1) (\<lambda>maxBody.
      opt_then (rd ''SQL_FS_MAX_INGRESS_WAIT_MS'' 250 1) (\<lambda>wait.
      opt_then (check_option (wait > MAX_TIMER_MS) ''SQL_FS_MAX_INGRESS_WAIT_MS'') (\<lambda>_.
      Inr \<lparr>n_maxRequests = maxRequests, n_maxTenantRequests = maxTenantRequests, n_maxQueuedRequests = maxQueued,
           n_maxTenantQueuedRequests = maxTenantQueued, n_maxMcpListeners = mcp, n_maxTenantMcpListeners = tenantMcp,
           n_maxBytes = maxBytes, n_maxTenantBytes = maxTenantBytes, n_maxBodyBytes = maxBody, n_waitMs = wait\<rparr>))))))))))))))))"

text \<open>The constructor: the options of the two queues for slots, of requests and of MCP listeners.\<close>

definition request_queue :: "ingress_options \<Rightarrow> admission_options" where
  "request_queue opts =
     \<lparr>o_capacity = n_maxRequests opts, o_maxActivePerTenant = n_maxTenantRequests opts, o_maxQueued = n_maxQueuedRequests opts,
      o_maxQueuedPerTenant = n_maxTenantQueuedRequests opts, o_maxQueuedBytes = 0, o_maxQueuedBytesPerTenant = 0\<rparr>"

definition mcp_listener_queue :: "ingress_options \<Rightarrow> admission_options" where
  "mcp_listener_queue opts =
     \<lparr>o_capacity = n_maxMcpListeners opts, o_maxActivePerTenant = n_maxTenantMcpListeners opts, o_maxQueued = n_maxMcpListeners opts,
      o_maxQueuedPerTenant = n_maxTenantMcpListeners opts, o_maxQueuedBytes = 0, o_maxQueuedBytesPerTenant = 0\<rparr>"

definition bodyLimit :: "ingress_options \<Rightarrow> int" where
  "bodyLimit opts = min (n_maxBodyBytes opts) (n_maxTenantBytes opts)"

section \<open>Requests\<close>

datatype ingress_failure = Busy | TooLarge | InAborted | ShuttingDown | InputError

text \<open>The tenant \<open>None\<close> is the symbol of bootstrap requests.\<close>

record ingress_request =
  q_tenant :: "string option"
  q_retained :: int
  q_failure :: "ingress_failure option"
  q_ended :: bool
  q_refs :: nat
  q_slot :: bool

record ingress =
  retainedRawBytes :: int
  tenantBytes :: "(string option, int) table"
  g_refused :: int
  payloadTooLarge :: int
  g_aborted :: int
  g_requests :: "(nat, ingress_request) table"

definition tenant_held :: "ingress \<Rightarrow> string option \<Rightarrow> int" where
  "tenant_held g t = (case map_of (tenantBytes g) t of None \<Rightarrow> 0 | Some n \<Rightarrow> n)"

definition put_request :: "nat \<Rightarrow> ingress_request \<Rightarrow> ingress \<Rightarrow> ingress" where
  "put_request i q g = g\<lparr>g_requests := AList.update i q (g_requests g)\<rparr>"

text \<open>A request whose declared length is over the limit is refused before anything is held.\<close>

definition admit :: "ingress_options \<Rightarrow> nat \<Rightarrow> string option \<Rightarrow> int option \<Rightarrow> ingress \<Rightarrow> (int + unit) \<times> ingress" where
  "admit opts i tenant declared g =
     (if (case declared of None \<Rightarrow> False | Some n \<Rightarrow> n > bodyLimit opts) then (Inl 413, g\<lparr>payloadTooLarge := payloadTooLarge g + 1\<rparr>)
      else (Inr (), put_request i \<lparr>q_tenant = tenant, q_retained = 0, q_failure = None, q_ended = False, q_refs = 1, q_slot = False\<rparr> g))"

definition fail :: "nat \<Rightarrow> ingress_failure \<Rightarrow> ingress \<Rightarrow> ingress" where
  "fail i cause g =
     (case map_of (g_requests g) i of
        None \<Rightarrow> g
      | Some q \<Rightarrow>
          if q_failure q \<noteq> None then g
          else put_request i (q\<lparr>q_failure := Some cause, q_ended := True\<rparr>)
                 (g\<lparr>g_aborted := g_aborted g + (if cause = InAborted then 1 else 0),
                    payloadTooLarge := payloadTooLarge g + (if cause = TooLarge then 1 else 0)\<rparr>))"

text \<open>One turn of \<open>pump\<close>: a chunk of \<open>n\<close> bytes was read, or the end of the body.\<close>

definition pump_chunk :: "ingress_options \<Rightarrow> nat \<Rightarrow> nat \<Rightarrow> ingress \<Rightarrow> ingress" where
  "pump_chunk opts i n g =
     (case map_of (g_requests g) i of
        None \<Rightarrow> g
      | Some q \<Rightarrow>
          if q_ended q then g
          else if int n > bodyLimit opts - q_retained q then fail i TooLarge g
          else if int n > n_maxBytes opts - retainedRawBytes g \<or> int n > n_maxTenantBytes opts - tenant_held g (q_tenant q)
          then fail i Busy (g\<lparr>g_refused := g_refused g + 1\<rparr>)
          else put_request i (q\<lparr>q_retained := q_retained q + int n\<rparr>)
                 (g\<lparr>retainedRawBytes := retainedRawBytes g + int n,
                    tenantBytes := AList.update (q_tenant q) (tenant_held g (q_tenant q) + int n) (tenantBytes g)\<rparr>))"

definition pump_done :: "nat \<Rightarrow> ingress \<Rightarrow> ingress" where
  "pump_done i g = (case map_of (g_requests g) i of None \<Rightarrow> g | Some q \<Rightarrow> put_request i (q\<lparr>q_ended := True\<rparr>) g)"

text \<open>The answer of the queue for slots: a slot, or the failure it stands for.\<close>

definition slot_answer :: "nat \<Rightarrow> ingress_failure option \<Rightarrow> ingress \<Rightarrow> ingress" where
  "slot_answer i answer g =
     (case answer of
        Some cause \<Rightarrow> fail i cause g
      | None \<Rightarrow> (case map_of (g_requests g) i of None \<Rightarrow> g | Some q \<Rightarrow> put_request i (q\<lparr>q_slot := True\<rparr>) g))"

definition hold :: "nat \<Rightarrow> ingress \<Rightarrow> (string + unit) \<times> ingress" where
  "hold i g =
     (case map_of (g_requests g) i of
        None \<Rightarrow> (Inl ''AbortError'', g)
      | Some q \<Rightarrow> (Inr (), put_request i (q\<lparr>q_refs := q_refs q + 1\<rparr>) g))"

text \<open>The last holder gives back the bytes and the slot; the boolean says whether a slot was given back.\<close>

definition release :: "nat \<Rightarrow> ingress \<Rightarrow> bool \<times> ingress" where
  "release i g =
     (case map_of (g_requests g) i of
        None \<Rightarrow> (False, g)
      | Some q \<Rightarrow>
          if q_refs q > 1 then (False, put_request i (q\<lparr>q_refs := q_refs q - 1\<rparr>) g)
          else
            let remaining = tenant_held g (q_tenant q) - q_retained q
            in (q_slot q,
                g\<lparr>retainedRawBytes := retainedRawBytes g - q_retained q,
                  tenantBytes := (if remaining = 0 then AList.delete (q_tenant q) (tenantBytes g)
                                  else AList.update (q_tenant q) remaining (tenantBytes g)),
                  g_requests := AList.delete i (g_requests g)\<rparr>))"

definition failureResponse :: "ingress_failure option \<Rightarrow> (int \<times> string) option" where
  "failureResponse f =
     (case f of
        None \<Rightarrow> None
      | Some Busy \<Rightarrow> Some (503, ''EWORKER_BUSY'')
      | Some ShuttingDown \<Rightarrow> Some (503, ''ESHUTTINGDOWN'')
      | Some TooLarge \<Rightarrow> Some (413, ''PAYLOAD_TOO_LARGE'')
      | Some InAborted \<Rightarrow> Some (499, '''')
      | Some InputError \<Rightarrow> None)"

section \<open>Histories\<close>

datatype ingress_event =
    Arrive nat "string option" "int option"
  | Chunk nat nat
  | BodyEnd nat
  | Fails nat ingress_failure
  | SlotAnswer nat "ingress_failure option"
  | Hold nat
  | Release nat

fun ingress_enabled :: "ingress_event \<Rightarrow> ingress \<Rightarrow> bool" where
  "ingress_enabled (Arrive i _ _) g \<longleftrightarrow> map_of (g_requests g) i = None"
| "ingress_enabled _ g \<longleftrightarrow> True"

fun ingress_step :: "ingress_options \<Rightarrow> ingress_event \<Rightarrow> ingress \<Rightarrow> ingress" where
  "ingress_step opts (Arrive i tenant declared) g = snd (admit opts i tenant declared g)"
| "ingress_step opts (Chunk i n) g = pump_chunk opts i n g"
| "ingress_step opts (BodyEnd i) g = pump_done i g"
| "ingress_step opts (Fails i cause) g = fail i cause g"
| "ingress_step opts (SlotAnswer i answer) g = slot_answer i answer g"
| "ingress_step opts (Hold i) g = snd (hold i g)"
| "ingress_step opts (Release i) g = snd (release i g)"

definition new_ingress :: ingress where
  "new_ingress = \<lparr>retainedRawBytes = 0, tenantBytes = [], g_refused = 0, payloadTooLarge = 0, g_aborted = 0, g_requests = []\<rparr>"

section \<open>The invariant\<close>

definition live :: "ingress \<Rightarrow> nat set" where
  "live g = dom (map_of (g_requests g))"

definition held_by :: "ingress \<Rightarrow> nat \<Rightarrow> int" where
  "held_by g i = (case map_of (g_requests g) i of None \<Rightarrow> 0 | Some q \<Rightarrow> q_retained q)"

definition tenant_of :: "ingress \<Rightarrow> nat \<Rightarrow> string option option" where
  "tenant_of g i = map_option q_tenant (map_of (g_requests g) i)"

definition tenant_live :: "ingress \<Rightarrow> string option \<Rightarrow> nat set" where
  "tenant_live g t = {i \<in> live g. tenant_of g i = Some t}"

definition ingress_inv :: "ingress_options \<Rightarrow> ingress \<Rightarrow> bool" where
  "ingress_inv opts g \<longleftrightarrow>
     retainedRawBytes g = (\<Sum>i \<in> live g. held_by g i)
     \<and> (\<forall>t. tenant_held g t = (\<Sum>i \<in> tenant_live g t. held_by g i))
     \<and> (\<forall>t. map_of (tenantBytes g) t \<noteq> None \<longrightarrow> tenant_live g t \<noteq> {})
     \<and> (\<forall>i \<in> live g. 0 \<le> held_by g i \<and> held_by g i \<le> bodyLimit opts)
     \<and> retainedRawBytes g \<le> n_maxBytes opts \<and> (\<forall>t. tenant_held g t \<le> n_maxTenantBytes opts)"

lemma finite_live [simp]: "finite (live g)"
  by (simp add: live_def finite_dom_map_of)

lemma finite_tenant_live [simp]: "finite (tenant_live g t)"
  by (simp add: tenant_live_def)

text \<open>The invariant reads the requests through \<open>live\<close>, \<open>held_by\<close> and \<open>tenant_of\<close> only.\<close>

lemma ingress_inv_cong:
  assumes "live g' = live g" "held_by g' = held_by g" "tenant_of g' = tenant_of g"
    "retainedRawBytes g' = retainedRawBytes g" "tenantBytes g' = tenantBytes g"
  shows "ingress_inv opts g' \<longleftrightarrow> ingress_inv opts g"
  unfolding ingress_inv_def tenant_live_def tenant_held_def assms by simp

lemma put_request_reads [simp]:
  "live (put_request i q g) = insert i (live g)"
  "held_by (put_request i q g) = (held_by g)(i := q_retained q)"
  "tenant_of (put_request i q g) = (tenant_of g)(i := Some (q_tenant q))"
  "retainedRawBytes (put_request i q g) = retainedRawBytes g"
  "tenantBytes (put_request i q g) = tenantBytes g"
  "tenant_held (put_request i q g) = tenant_held g"
  by (auto simp: put_request_def live_def held_by_def tenant_of_def tenant_held_def update_conv fun_eq_iff)

lemma other_fields_reads [simp]:
  "live (g\<lparr>g_aborted := a, payloadTooLarge := b\<rparr>) = live g"
  "live (g\<lparr>g_refused := a\<rparr>) = live g" "live (g\<lparr>g_aborted := a\<rparr>) = live g"
  "live (g\<lparr>payloadTooLarge := b\<rparr>) = live g"
  "live (g\<lparr>retainedRawBytes := x, tenantBytes := y\<rparr>) = live g"
  "held_by (g\<lparr>g_aborted := a, payloadTooLarge := b\<rparr>) = held_by g"
  "held_by (g\<lparr>g_refused := a\<rparr>) = held_by g" "held_by (g\<lparr>g_aborted := a\<rparr>) = held_by g"
  "held_by (g\<lparr>payloadTooLarge := b\<rparr>) = held_by g"
  "held_by (g\<lparr>retainedRawBytes := x, tenantBytes := y\<rparr>) = held_by g"
  "tenant_of (g\<lparr>g_aborted := a, payloadTooLarge := b\<rparr>) = tenant_of g"
  "tenant_of (g\<lparr>g_refused := a\<rparr>) = tenant_of g" "tenant_of (g\<lparr>g_aborted := a\<rparr>) = tenant_of g"
  "tenant_of (g\<lparr>payloadTooLarge := b\<rparr>) = tenant_of g"
  "tenant_of (g\<lparr>retainedRawBytes := x, tenantBytes := y\<rparr>) = tenant_of g"
  by (simp_all add: live_def held_by_def tenant_of_def fun_eq_iff)

lemma held_at:
  assumes "map_of (g_requests g) i = Some q"
  shows "i \<in> live g" "held_by g i = q_retained q" "tenant_of g i = Some (q_tenant q)"
  using assms by (auto simp: live_def held_by_def tenant_of_def)

text \<open>A request rewritten with the tenant and the bytes it had.\<close>

lemma put_request_inv:
  assumes "map_of (g_requests g) i = Some q" "q_tenant q' = q_tenant q" "q_retained q' = q_retained q" "ingress_inv opts g"
    "live g' = live g" "held_by g' = held_by g" "tenant_of g' = tenant_of g"
    "retainedRawBytes g' = retainedRawBytes g" "tenantBytes g' = tenantBytes g"
  shows "ingress_inv opts (put_request i q' g')"
proof -
  have "ingress_inv opts (put_request i q' g') \<longleftrightarrow> ingress_inv opts g"
    using assms held_at[OF assms(1)] by (intro ingress_inv_cong) (auto simp: insert_absorb)
  then show ?thesis using assms by simp
qed

lemma fail_inv:
  assumes "ingress_inv opts g"
  shows "ingress_inv opts (fail i cause g)"
  using assms by (auto simp: fail_def split: option.split intro: put_request_inv)

lemma refused_inv: "ingress_inv opts (g\<lparr>g_refused := a\<rparr>) \<longleftrightarrow> ingress_inv opts g"
  by (rule ingress_inv_cong) simp_all

lemma too_large_inv: "ingress_inv opts (g\<lparr>payloadTooLarge := a\<rparr>) \<longleftrightarrow> ingress_inv opts g"
  by (rule ingress_inv_cong) simp_all

lemma sum_bump:
  assumes "finite A" "i \<in> A"
  shows "(\<Sum>j\<in>A. (f(i := f i + (n::int))) j) = sum f A + n"
proof -
  have "sum (f(i := f i + n)) A = (f i + n) + sum (f(i := f i + n)) (A - {i})"
    using assms by (simp add: sum.remove)
  also have "sum (f(i := f i + n)) (A - {i}) = sum f (A - {i})" by (rule sum.cong) auto
  finally show ?thesis using assms by (simp add: sum.remove)
qed

lemma arrive_inv:
  assumes "ingress_inv opts g" "map_of (g_requests g) i = None" "q_retained q = 0" "0 \<le> bodyLimit opts"
  shows "ingress_inv opts (put_request i q g)"
proof -
  have i: "i \<notin> live g" "held_by g i = 0" using assms by (auto simp: live_def held_by_def)
  have upd: "(held_by g)(i := 0) = held_by g" using i by (simp add: fun_upd_idem)
  have T: "tenant_live (put_request i q g) t = (if t = q_tenant q then insert i (tenant_live g t) else tenant_live g t)" for t
    using i by (auto simp: tenant_live_def)
  show ?thesis
    using assms i unfolding ingress_inv_def put_request_reads upd T assms(3)
    by (auto simp: tenant_live_def)
qed

text \<open>A chunk that fits.\<close>

lemma chunk_inv:
  assumes inv: "ingress_inv opts g" and q: "map_of (g_requests g) i = Some q"
    and fits: "int n \<le> bodyLimit opts - q_retained q" "int n \<le> n_maxBytes opts - retainedRawBytes g"
      "int n \<le> n_maxTenantBytes opts - tenant_held g (q_tenant q)"
  shows "ingress_inv opts (put_request i (q\<lparr>q_retained := q_retained q + int n\<rparr>)
           (g\<lparr>retainedRawBytes := retainedRawBytes g + int n,
              tenantBytes := AList.update (q_tenant q) (tenant_held g (q_tenant q) + int n) (tenantBytes g)\<rparr>))"
    (is "ingress_inv opts ?g'")
proof -
  note at = held_at[OF q]
  have live: "live ?g' = live g" and held: "held_by ?g' = (held_by g)(i := held_by g i + int n)"
    and T: "tenant_live ?g' = tenant_live g"
    using at by (auto simp: tenant_live_def fun_eq_iff)
  have bytes: "tenant_held ?g' t = tenant_held g t + (if t = q_tenant q then int n else 0)" for t
    by (simp add: tenant_held_def update_conv)
  have mem: "i \<in> tenant_live g t \<longleftrightarrow> t = q_tenant q" for t using at by (auto simp: tenant_live_def)
  have "sum (held_by ?g') (tenant_live g t) = sum (held_by g) (tenant_live g t) + (if t = q_tenant q then int n else 0)" for t
    using sum_bump[of "tenant_live g t" i "held_by g" "int n"] mem[of t] unfolding held
    by (auto intro!: sum.cong)
  moreover have "sum (held_by ?g') (live g) = sum (held_by g) (live g) + int n"
    unfolding held by (rule sum_bump) (simp_all add: at)
  moreover have "map_of (tenantBytes ?g') t \<noteq> None \<Longrightarrow> tenant_live g t \<noteq> {}" for t
    using inv mem[of "q_tenant q"] by (auto simp: ingress_inv_def update_conv split: if_splits)
  moreover have "j \<in> live g \<Longrightarrow> 0 \<le> held_by ?g' j \<and> held_by ?g' j \<le> bodyLimit opts" for j
    using inv fits(1) at unfolding held ingress_inv_def by fastforce
  ultimately show ?thesis
    using inv fits(2,3) unfolding ingress_inv_def live T bytes by auto
qed

lemma pump_chunk_inv:
  assumes "ingress_inv opts g"
  shows "ingress_inv opts (pump_chunk opts i n g)"
  using assms by (auto simp: pump_chunk_def not_less split: option.split intro!: fail_inv chunk_inv simp: refused_inv)

text \<open>The last holder leaves.\<close>

definition drop_request :: "nat \<Rightarrow> ingress_request \<Rightarrow> ingress \<Rightarrow> ingress" where
  "drop_request i q g =
     g\<lparr>retainedRawBytes := retainedRawBytes g - q_retained q,
       tenantBytes := (if tenant_held g (q_tenant q) - q_retained q = 0 then AList.delete (q_tenant q) (tenantBytes g)
                       else AList.update (q_tenant q) (tenant_held g (q_tenant q) - q_retained q) (tenantBytes g)),
       g_requests := AList.delete i (g_requests g)\<rparr>"

lemma release_eq:
  "release i g =
     (case map_of (g_requests g) i of
        None \<Rightarrow> (False, g)
      | Some q \<Rightarrow> if q_refs q > 1 then (False, put_request i (q\<lparr>q_refs := q_refs q - 1\<rparr>) g)
                  else (q_slot q, drop_request i q g))"
  by (simp add: release_def drop_request_def Let_def split: option.split)

lemma drop_request_reads:
  "live (drop_request i q g) = live g - {i}"
  "held_by (drop_request i q g) = (held_by g)(i := 0)"
  "tenant_of (drop_request i q g) = (tenant_of g)(i := None)"
  "retainedRawBytes (drop_request i q g) = retainedRawBytes g - q_retained q"
  "tenant_held (drop_request i q g) t = tenant_held g t - (if t = q_tenant q then q_retained q else 0)"
  "map_of (tenantBytes (drop_request i q g)) t \<noteq> None \<Longrightarrow> map_of (tenantBytes g) t \<noteq> None \<or> t = q_tenant q"
  "map_of (tenantBytes (drop_request i q g)) (q_tenant q) \<noteq> None \<Longrightarrow> tenant_held (drop_request i q g) (q_tenant q) \<noteq> 0"
  by (auto simp: drop_request_def live_def held_by_def tenant_of_def tenant_held_def delete_conv update_conv fun_eq_iff split: if_splits)

lemma drop_request_inv:
  assumes inv: "ingress_inv opts g" and q: "map_of (g_requests g) i = Some q"
  shows "ingress_inv opts (drop_request i q g)" (is "ingress_inv opts ?g'")
proof -
  note at = held_at[OF q] and reads = drop_request_reads[of i q g]
  have pos: "0 \<le> held_by g j" "held_by g j \<le> bodyLimit opts" if "j \<in> live g" for j
    using inv that by (auto simp: ingress_inv_def)
  have T: "tenant_live ?g' t = tenant_live g t - {i}" for t
    by (auto simp: tenant_live_def reads)
  have mem: "i \<in> tenant_live g t \<longleftrightarrow> t = q_tenant q" for t using at by (auto simp: tenant_live_def)
  have sums: "sum (held_by ?g') (A - {i}) = sum (held_by g) A - (if i \<in> A then q_retained q else 0)" if "finite A" for A
  proof -
    have "sum (held_by ?g') (A - {i}) = sum (held_by g) (A - {i})" by (rule sum.cong) (auto simp: reads)
    then show ?thesis using that at by (simp add: sum_diff1)
  qed
  have per: "tenant_held ?g' t = sum (held_by ?g') (tenant_live ?g' t)" for t
    using inv sums[of "tenant_live g t"] mem[of t] unfolding T by (simp add: ingress_inv_def reads)
  have "tenant_live ?g' t \<noteq> {}" if dom: "map_of (tenantBytes ?g') t \<noteq> None" for t
  proof (cases "t = q_tenant q")
    case True
    then show ?thesis using per[of t] reads(7) dom by auto
  next
    case False
    then have "tenant_live g t \<noteq> {}" using reads(6)[OF dom] inv by (auto simp: ingress_inv_def)
    then show ?thesis using mem[of t] False T[of t] by auto
  qed
  moreover have "0 \<le> q_retained q" using pos(1) at by metis
  ultimately show ?thesis
    using inv sums[of "live g"] per pos at unfolding ingress_inv_def
    by (simp add: reads) (smt (verit, best))
qed

lemma release_inv:
  assumes "ingress_inv opts g"
  shows "ingress_inv opts (snd (release i g))"
  using assms by (auto simp: release_eq split: option.split intro: put_request_inv drop_request_inv)

lemma ingress_step_inv:
  assumes "ingress_inv opts g" "ingress_enabled e g" "0 \<le> bodyLimit opts"
  shows "ingress_inv opts (ingress_step opts e g)"
proof (cases e)
  case (Arrive i t d)
  then show ?thesis using assms by (auto simp: admit_def too_large_inv intro: arrive_inv)
qed (use assms in \<open>auto simp: pump_done_def slot_answer_def hold_def intro: pump_chunk_inv fail_inv release_inv put_request_inv
       split: option.split\<close>)

inductive ingress_moves :: "ingress_options \<Rightarrow> ingress \<Rightarrow> ingress \<Rightarrow> bool" for opts where
  event: "ingress_enabled e g \<Longrightarrow> ingress_moves opts g (ingress_step opts e g)"

lemma new_ingress_inv: "0 \<le> n_maxBytes opts \<Longrightarrow> 0 \<le> n_maxTenantBytes opts \<Longrightarrow> ingress_inv opts new_ingress"
  by (simp add: ingress_inv_def new_ingress_def live_def tenant_live_def tenant_held_def)

section \<open>Options that load\<close>

lemma read_optionD: "read_option env number name fallback minimum = Inr v \<Longrightarrow> minimum \<le> v"
  by (auto simp: read_option_def Let_def split: option.splits if_splits)

lemma opt_then_Inr [simp]: "opt_then x f = Inr r \<longleftrightarrow> (\<exists>a. x = Inr a \<and> f a = Inr r)"
  by (simp add: opt_then_def split: sum.split)

lemma check_option_Inr [simp]: "check_option bad name = Inr u \<longleftrightarrow> \<not> bad"
  by (simp add: check_option_def)

lemma loaded_options:
  assumes "loadIngressOptions env number = Inr opts"
  shows "1 \<le> n_maxTenantRequests opts" "n_maxTenantRequests opts \<le> max 1 (n_maxRequests opts - 1)"
    "1 \<le> n_maxTenantMcpListeners opts" "n_maxTenantMcpListeners opts \<le> max 1 (n_maxMcpListeners opts - 1)"
    "1 \<le> n_maxBytes opts" "1 \<le> n_maxTenantBytes opts" "n_maxTenantBytes opts \<le> max 1 (n_maxBytes opts - 1)"
    "1 \<le> bodyLimit opts" "1 \<le> n_waitMs opts" "n_waitMs opts \<le> MAX_TIMER_MS"
  using assms by (auto simp: loadIngressOptions_def Let_def bodyLimit_def not_less dest!: read_optionD)

definition ingress_config :: "ingress_options \<Rightarrow> bool" where
  "ingress_config opts \<longleftrightarrow> 0 \<le> n_maxBytes opts \<and> 0 \<le> n_maxTenantBytes opts \<and> 0 \<le> bodyLimit opts"

interpretation ing: safe_machine
  "\<lambda>(opts, g). ingress_config opts \<and> g = new_ingress"
  "\<lambda>(opts, g) (opts', g'). opts' = opts \<and> ingress_moves opts g g'"
  "\<lambda>(opts, g). ingress_config opts \<and> ingress_inv opts g"
  by unfold_locales
    (auto simp: ingress_config_def elim!: ingress_moves.cases intro: new_ingress_inv ingress_step_inv)

lemma ingress_moves_pairs:
  assumes "(ingress_moves opts)\<^sup>*\<^sup>* g g'"
  shows "(\<lambda>(opts, g) (opts', g'). opts' = opts \<and> ingress_moves opts g g')\<^sup>*\<^sup>* (opts, g) (opts, g')"
  using assms by (induction rule: rtranclp_induct) (auto intro: rtranclp.rtrancl_into_rtrancl)

lemma no_keys: "(\<And>t. map_of al t = None) \<Longrightarrow> al = []"
  by (metis ext map_of_eq_empty_iff)

text \<open>
  C32. Under options that load, in every history of requests arriving, sending chunks, failing, being held and
  released: the bytes counted as retained are exactly those of the live requests, in total and for each tenant; they
  stay within the total budget, each tenant within its own, and one tenant can never fill the total when that is
  more than a byte; no request holds more than the body limit; and when no request is live nothing is retained and
  the table of tenants is empty.
\<close>

theorem ingress_bytes_bounded:
  assumes "loadIngressOptions env number = Inr opts" and "(ingress_moves opts)\<^sup>*\<^sup>* new_ingress g"
  shows "retainedRawBytes g = (\<Sum>i \<in> live g. held_by g i) \<and> retainedRawBytes g \<le> n_maxBytes opts
    \<and> (\<forall>t. tenant_held g t = (\<Sum>i \<in> tenant_live g t. held_by g i) \<and> tenant_held g t \<le> n_maxTenantBytes opts
           \<and> (1 < n_maxBytes opts \<longrightarrow> tenant_held g t < n_maxBytes opts))
    \<and> (\<forall>i \<in> live g. 0 \<le> held_by g i \<and> held_by g i \<le> bodyLimit opts)
    \<and> (live g = {} \<longrightarrow> retainedRawBytes g = 0 \<and> tenantBytes g = [])"
proof -
  note loaded = loaded_options [OF assms(1)]
  have "ingress_config opts" using loaded by (simp add: ingress_config_def)
  then have inv: "ingress_inv opts g" using ing.reachable_inv [OF _ ingress_moves_pairs [OF assms(2)]] by simp
  have "tenant_held g t < n_maxBytes opts" if "1 < n_maxBytes opts" for t
    using inv loaded(7) that by (smt (verit) ingress_inv_def max_def)
  moreover have "tenantBytes g = []" if "live g = {}"
    using inv that by (intro no_keys) (auto simp: ingress_inv_def tenant_live_def)
  ultimately show ?thesis using inv by (auto simp: ingress_inv_def)
qed

fun ingress_run :: "ingress_options \<Rightarrow> ingress_event list \<Rightarrow> ingress \<Rightarrow> ingress option" where
  "ingress_run opts [] g = Some g"
| "ingress_run opts (e # es) g = (if ingress_enabled e g then ingress_run opts es (ingress_step opts e g) else None)"

lemma ingress_run_moves: "ingress_run opts es g = Some g' \<Longrightarrow> (ingress_moves opts)\<^sup>*\<^sup>* g g'"
  by (induction es arbitrary: g) (auto split: if_splits intro: converse_rtranclp_into_rtranclp ingress_moves.event)

theorem ingress_bytes_bounded_witness:
  "\<exists>opts g. loadIngressOptions (\<lambda>_. None) (\<lambda>_. None) = Inr opts
     \<and> ingress_run opts [Arrive 1 (Some ''a'') (Some 10), Chunk 1 4, Hold 1, Chunk 1 6, BodyEnd 1, Release 1, Arrive 2 None None, Chunk 2 7]
         new_ingress = Some g
     \<and> retainedRawBytes g = 17 \<and> retainedRawBytes g \<le> n_maxBytes opts \<and> tenant_held g (Some ''a'') \<le> n_maxTenantBytes opts"
proof -
  let ?es = "[Arrive 1 (Some ''a'') (Some 10), Chunk 1 4, Hold 1, Chunk 1 6, BodyEnd 1, Release 1, Arrive 2 None None, Chunk 2 7]"
  let ?opts = "projr (loadIngressOptions (\<lambda>_. None) (\<lambda>_. None))"
  have load: "loadIngressOptions (\<lambda>_. None) (\<lambda>_. None) = Inr ?opts" by code_simp
  have "map_option retainedRawBytes (ingress_run ?opts ?es new_ingress) = Some 17" by code_simp
  then obtain g where run: "ingress_run ?opts ?es new_ingress = Some g" "retainedRawBytes g = 17" by auto
  show ?thesis using ingress_bytes_bounded [OF load ingress_run_moves [OF run(1)]] load run by blast
qed

end
