(* ===== verification/BlobCache.thy ===== *)
theory BlobCache
  imports DistLock PgState
begin

text \<open>
  \<open>src/sql-fs/redis-blob-cache.ts\<close>: the cache of blobs in Redis that all tenants of a process share. A call is two or
  more steps, its start and the replies it awaits, so calls interleave freely; Redis may lose keys at any time.
\<close>

section \<open>Shared occupancy\<close>

record backfill_occupancy =
  inFlight :: int
  inFlightBytes :: int
  bo_maxInFlight :: int
  bo_maxInFlightBytes :: int
  bo_dropped :: int
  lastDropLogAt :: int

definition occupancyFor :: "backfill_occupancy option \<Rightarrow> int \<Rightarrow> int \<Rightarrow> string + backfill_occupancy" where
  "occupancyFor existing mx mxBytes =
     (case existing of
        Some o' \<Rightarrow>
          if bo_maxInFlight o' \<noteq> mx \<or> bo_maxInFlightBytes o' \<noteq> mxBytes
          then Inl ''RedisBlobCache: conflicting backfill limits on the same client'' else Inr o'
      | None \<Rightarrow>
          Inr \<lparr>inFlight = 0, inFlightBytes = 0, bo_maxInFlight = mx, bo_maxInFlightBytes = mxBytes, bo_dropped = 0, lastDropLogAt = 0\<rparr>)"

record blob_cache_options =
  bo_ttlMs :: "int option"
  bo_maxBytes :: "int option"
  bo_enabled :: "bool option"
  bo_limit :: "int option"
  bo_limitBytes :: "int option"
  bo_breaker :: bool

record blob_cache =
  bc_tenant :: string
  bc_ttlMs :: int
  bc_maxBytes :: int
  bc_enabled :: bool
  bc_maxInFlight :: int
  bc_maxInFlightBytes :: int
  bc_breaker :: bool
  bc_dropped :: int

definition loadRedisBlobCacheOptions :: "(string \<Rightarrow> string option) \<Rightarrow> (string \<Rightarrow> int option) \<Rightarrow> string + blob_cache_options" where
  "loadRedisBlobCacheOptions env number =
     sum_then (parseNonNegativeInt env number ''REDIS_BLOB_CACHE_TTL_MS'' (24 * 60 * 60 * 1000)) (\<lambda>ttl.
     sum_then (parseNonNegativeInt env number ''REDIS_BLOB_MAX_BYTES'' (8 * 1024 * 1024)) (\<lambda>mx.
     sum_then (parsePositiveInt env number ''REDIS_BLOB_SET_MAX_IN_FLIGHT'' 32) (\<lambda>limit.
     sum_then (parsePositiveInt env number ''REDIS_BLOB_SET_MAX_IN_FLIGHT_BYTES'' (32 * 1024 * 1024)) (\<lambda>limitBytes.
     Inr \<lparr>bo_ttlMs = Some ttl, bo_maxBytes = Some mx, bo_enabled = None, bo_limit = Some limit, bo_limitBytes = Some limitBytes, bo_breaker = True\<rparr>))))"

definition or_default :: "'a option \<Rightarrow> 'a \<Rightarrow> 'a" where
  "or_default x d = (case x of None \<Rightarrow> d | Some v \<Rightarrow> v)"

definition resolve_limit :: "blob_cache_options \<Rightarrow> int \<times> int" where
  "resolve_limit opts = (or_default (bo_limit opts) 32, or_default (bo_limitBytes opts) (32 * 1024 * 1024))"

definition new_blob_cache :: "string \<Rightarrow> blob_cache_options \<Rightarrow> blob_cache" where
  "new_blob_cache tenant opts =
     \<lparr>bc_tenant = tenant, bc_ttlMs = or_default (bo_ttlMs opts) (24 * 60 * 60 * 1000), bc_maxBytes = or_default (bo_maxBytes opts) (8 * 1024 * 1024),
      bc_enabled = or_default (bo_enabled opts) True, bc_maxInFlight = fst (resolve_limit opts), bc_maxInFlightBytes = snd (resolve_limit opts),
      bc_breaker = bo_breaker opts, bc_dropped = 0\<rparr>"

section \<open>Keys\<close>

definition hex_digit :: "nat \<Rightarrow> char" where
  "hex_digit n = (''0123456789abcdef'') ! n"

definition to_hex :: "bytes \<Rightarrow> string" where
  "to_hex bs = concat (map (\<lambda>w. [hex_digit (unat w div 16), hex_digit (unat w mod 16)]) bs)"

definition blob_key :: "string \<Rightarrow> bytes \<Rightarrow> string" where
  "blob_key tenant sha = ''vfs:'' @ tenant @ '':blob:'' @ to_hex sha"

section \<open>Calls on a connection\<close>

text \<open>
  One Redis connection of the process: the occupancy, the data-plane breaker, the caches made on it, the keys Redis
  holds, and the calls that wait for a reply. A call knows its cache and the probe ticket it was given.
\<close>

datatype blob_call =
    Getting nat bytes "nat option"
  | MGetting nat "bytes list" "bytes option list" "nat option"
  | Setting nat bytes bytes "nat option"
  | MDeleting nat "bytes list"

record blob_conn =
  cn_occupancy :: "backfill_occupancy option"
  cn_breaker :: breaker
  cn_caches :: "blob_cache list"
  cn_redis :: "(string, bytes) table"
  cn_calls :: "blob_call list"

definition new_conn :: "int \<Rightarrow> int \<Rightarrow> blob_conn" where
  "new_conn threshold openMs =
     \<lparr>cn_occupancy = None, cn_breaker = new_breaker threshold openMs, cn_caches = [], cn_redis = [], cn_calls = []\<rparr>"

definition open_cache :: "string \<Rightarrow> blob_cache_options \<Rightarrow> blob_conn \<Rightarrow> blob_conn" where
  "open_cache tenant opts cn =
     (case occupancyFor (cn_occupancy cn) (fst (resolve_limit opts)) (snd (resolve_limit opts)) of
        Inl _ \<Rightarrow> cn
      | Inr o' \<Rightarrow> cn\<lparr>cn_occupancy := Some o', cn_caches := cn_caches cn @ [new_blob_cache tenant opts]\<rparr>)"

definition tryAcquireCircuit :: "blob_cache \<Rightarrow> int \<Rightarrow> breaker \<Rightarrow> (bool \<times> nat option) \<times> breaker" where
  "tryAcquireCircuit c now b = (if bc_breaker c then tryAcquire now b else ((True, None), b))"

definition settle :: "blob_cache \<Rightarrow> bool \<Rightarrow> nat option \<Rightarrow> int \<Rightarrow> breaker \<Rightarrow> breaker" where
  "settle c ok ticket now b = (if \<not> bc_breaker c then b else if ok then recordSuccess ticket b else recordFailure ticket now b)"

definition recordDrop :: "nat \<Rightarrow> int \<Rightarrow> blob_conn \<Rightarrow> blob_conn" where
  "recordDrop i now cn =
     (let c = cn_caches cn ! i
      in cn\<lparr>cn_caches := (cn_caches cn)[i := c\<lparr>bc_dropped := bc_dropped c + 1\<rparr>],
           cn_occupancy := map_option (\<lambda>o'.
             let o1 = o'\<lparr>bo_dropped := bo_dropped o' + 1\<rparr>
             in if now - lastDropLogAt o1 < 5000 then o1 else o1\<lparr>lastDropLogAt := now\<rparr>) (cn_occupancy cn)\<rparr>)"

definition claim_call :: "nat \<Rightarrow> int \<Rightarrow> (nat option \<Rightarrow> blob_call) \<Rightarrow> blob_conn \<Rightarrow> bool \<times> blob_conn" where
  "claim_call i now call cn =
     (case tryAcquireCircuit (cn_caches cn ! i) now (cn_breaker cn) of
        ((False, _), b) \<Rightarrow> (False, cn\<lparr>cn_breaker := b\<rparr>)
      | ((True, t), b) \<Rightarrow> (True, cn\<lparr>cn_breaker := b, cn_calls := cn_calls cn @ [call t]\<rparr>))"

definition get_start :: "nat \<Rightarrow> bytes \<Rightarrow> int \<Rightarrow> blob_conn \<Rightarrow> blob_conn" where
  "get_start i sha now cn =
     (if \<not> bc_enabled (cn_caches cn ! i) then cn else snd (claim_call i now (Getting i sha) cn))"

definition mget_start :: "nat \<Rightarrow> bytes list \<Rightarrow> int \<Rightarrow> blob_conn \<Rightarrow> blob_conn" where
  "mget_start i shas now cn =
     (if \<not> bc_enabled (cn_caches cn ! i) \<or> shas = [] then cn else snd (claim_call i now (MGetting i shas []) cn))"

definition set_start :: "nat \<Rightarrow> bytes \<Rightarrow> bytes \<Rightarrow> int \<Rightarrow> blob_conn \<Rightarrow> blob_conn" where
  "set_start i sha data now cn =
     (let c = cn_caches cn ! i
      in case cn_occupancy cn of
           None \<Rightarrow> cn
         | Some o' \<Rightarrow>
             if \<not> bc_enabled c \<or> int (length data) > bc_maxBytes c then cn
             else if inFlight o' \<ge> bc_maxInFlight c then recordDrop i now cn
             else if inFlightBytes o' + int (length data) > bc_maxInFlightBytes c then recordDrop i now cn
             else
               (case claim_call i now (Setting i sha data) cn of
                  (False, cn') \<Rightarrow> cn'
                | (True, cn') \<Rightarrow>
                    cn'\<lparr>cn_occupancy := Some (o'\<lparr>inFlight := inFlight o' + 1, inFlightBytes := inFlightBytes o' + int (length data)\<rparr>)\<rparr>))"

definition mdel_start :: "nat \<Rightarrow> bytes list \<Rightarrow> int \<Rightarrow> blob_conn \<Rightarrow> blob_conn" where
  "mdel_start i shas now cn =
     (let c = cn_caches cn ! i
      in if \<not> bc_enabled c \<or> shas = [] \<or> bc_breaker c \<and> isOpen now (cn_breaker cn) then cn
         else cn\<lparr>cn_calls := cn_calls cn @ [MDeleting i shas]\<rparr>)"

text \<open>
  The reply to the next command of call number \<open>k\<close>. A failed \<open>SET\<close> may have reached Redis (\<open>applied\<close>). The value a
  finished read returns is given back; \<open>None\<close> also while the call goes on.
\<close>

definition without :: "nat \<Rightarrow> 'a list \<Rightarrow> 'a list" where
  "without k xs = take k xs @ drop (Suc k) xs"

definition finish_call :: "nat \<Rightarrow> nat \<Rightarrow> bool \<Rightarrow> nat option \<Rightarrow> int \<Rightarrow> blob_conn \<Rightarrow> blob_conn" where
  "finish_call k i ok t now cn =
     cn\<lparr>cn_breaker := settle (cn_caches cn ! i) ok t now (cn_breaker cn), cn_calls := without k (cn_calls cn)\<rparr>"

definition get_reply :: "nat \<Rightarrow> bool \<Rightarrow> int \<Rightarrow> blob_conn \<Rightarrow> bytes option \<times> blob_conn" where
  "get_reply k ok now cn =
     (case cn_calls cn ! k of
        Getting i sha t \<Rightarrow>
          (if ok then map_of (cn_redis cn) (blob_key (bc_tenant (cn_caches cn ! i)) sha) else None, finish_call k i ok t now cn)
      | _ \<Rightarrow> (None, cn))"

abbreviation MGET_CHUNK :: nat where
  "MGET_CHUNK \<equiv> 1024"

definition mget_reply :: "nat \<Rightarrow> bool \<Rightarrow> int \<Rightarrow> blob_conn \<Rightarrow> bytes option list option \<times> blob_conn" where
  "mget_reply k ok now cn =
     (case cn_calls cn ! k of
        MGetting i shas out t \<Rightarrow>
          if \<not> ok then (Some (map (\<lambda>_. None) shas), finish_call k i False t now cn)
          else
            let slice = take MGET_CHUNK (drop (length out) shas);
                out' = out @ map (\<lambda>sha. map_of (cn_redis cn) (blob_key (bc_tenant (cn_caches cn ! i)) sha)) slice
            in if length out' < length shas then (None, cn\<lparr>cn_calls := (cn_calls cn)[k := MGetting i shas out' t]\<rparr>)
               else (Some out', finish_call k i True t now cn)
      | _ \<Rightarrow> (None, cn))"

definition set_reply :: "nat \<Rightarrow> bool \<Rightarrow> bool \<Rightarrow> int \<Rightarrow> blob_conn \<Rightarrow> blob_conn" where
  "set_reply k ok applied now cn =
     (case cn_calls cn ! k of
        Setting i sha data t \<Rightarrow>
          let cn1 = (if ok \<or> applied then cn\<lparr>cn_redis := AList.update (blob_key (bc_tenant (cn_caches cn ! i)) sha) data (cn_redis cn)\<rparr> else cn);
              cn2 = finish_call k i ok t now cn1
          in cn2\<lparr>cn_occupancy := map_option (\<lambda>o'. o'\<lparr>inFlight := inFlight o' - 1, inFlightBytes := inFlightBytes o' - int (length data)\<rparr>) (cn_occupancy cn2)\<rparr>
      | _ \<Rightarrow> cn)"

definition mdel_reply :: "nat \<Rightarrow> bool \<Rightarrow> blob_conn \<Rightarrow> blob_conn" where
  "mdel_reply k ok cn =
     (case cn_calls cn ! k of
        MDeleting i shas \<Rightarrow>
          if \<not> ok then cn\<lparr>cn_calls := without k (cn_calls cn)\<rparr>
          else
            let keys = map (blob_key (bc_tenant (cn_caches cn ! i))) (take MGET_CHUNK shas);
                rest = drop MGET_CHUNK shas;
                cn1 = cn\<lparr>cn_redis := filter (\<lambda>(key, v). key \<notin> set keys) (cn_redis cn)\<rparr>
            in if rest = [] then cn1\<lparr>cn_calls := without k (cn_calls cn)\<rparr>
               else cn1\<lparr>cn_calls := (cn_calls cn)[k := MDeleting i rest]\<rparr>
      | _ \<Rightarrow> cn)"

datatype blob_event =
    OpenCache string blob_cache_options
  | StartGet nat bytes int
  | StartMGet nat "bytes list" int
  | StartSet nat bytes bytes int
  | StartMDel nat "bytes list" int
  | ReplyGet nat bool int
  | ReplyMGet nat bool int
  | ReplySet nat bool bool int
  | ReplyMDel nat bool
  | LoseKeys "string list"

fun blob_event_ok :: "blob_conn \<Rightarrow> blob_event \<Rightarrow> bool" where
  "blob_event_ok cn (OpenCache _ _) \<longleftrightarrow> True"
| "blob_event_ok cn (StartGet i _ _) \<longleftrightarrow> i < length (cn_caches cn)"
| "blob_event_ok cn (StartMGet i _ _) \<longleftrightarrow> i < length (cn_caches cn)"
| "blob_event_ok cn (StartSet i _ _ _) \<longleftrightarrow> i < length (cn_caches cn)"
| "blob_event_ok cn (StartMDel i _ _) \<longleftrightarrow> i < length (cn_caches cn)"
| "blob_event_ok cn (ReplyGet k _ _) \<longleftrightarrow> k < length (cn_calls cn)"
| "blob_event_ok cn (ReplyMGet k _ _) \<longleftrightarrow> k < length (cn_calls cn)"
| "blob_event_ok cn (ReplySet k _ _ _) \<longleftrightarrow> k < length (cn_calls cn)"
| "blob_event_ok cn (ReplyMDel k _) \<longleftrightarrow> k < length (cn_calls cn)"
| "blob_event_ok cn (LoseKeys _) \<longleftrightarrow> True"

fun apply_blob_event :: "blob_event \<Rightarrow> blob_conn \<Rightarrow> blob_conn" where
  "apply_blob_event (OpenCache tenant opts) cn = open_cache tenant opts cn"
| "apply_blob_event (StartGet i sha now) cn = get_start i sha now cn"
| "apply_blob_event (StartMGet i shas now) cn = mget_start i shas now cn"
| "apply_blob_event (StartSet i sha data now) cn = set_start i sha data now cn"
| "apply_blob_event (StartMDel i shas now) cn = mdel_start i shas now cn"
| "apply_blob_event (ReplyGet k ok now) cn = snd (get_reply k ok now cn)"
| "apply_blob_event (ReplyMGet k ok now) cn = snd (mget_reply k ok now cn)"
| "apply_blob_event (ReplySet k ok applied now) cn = set_reply k ok applied now cn"
| "apply_blob_event (ReplyMDel k ok) cn = mdel_reply k ok cn"
| "apply_blob_event (LoseKeys ks) cn = cn\<lparr>cn_redis := filter (\<lambda>(key, v). key \<notin> set ks) (cn_redis cn)\<rparr>"

definition blob_step :: "blob_event \<Rightarrow> blob_conn \<Rightarrow> blob_conn" where
  "blob_step ev cn = (if blob_event_ok cn ev then apply_blob_event ev cn else cn)"

section \<open>Keys name one tenant and one hash\<close>

lemma hex_digit_inject: "m < 16 \<Longrightarrow> n < 16 \<Longrightarrow> hex_digit m = hex_digit n \<longleftrightarrow> m = n"
proof -
  have "distinct (map hex_digit [0..<16])" by code_simp
  then show "m < 16 \<Longrightarrow> n < 16 \<Longrightarrow> hex_digit m = hex_digit n \<longleftrightarrow> m = n" by (auto simp: distinct_map inj_on_def)
qed

lemma hex_no_colon: "n < 16 \<Longrightarrow> hex_digit n \<noteq> CHR '':''"
proof -
  have "list_all (\<lambda>n. hex_digit n \<noteq> CHR '':'') [0..<16]" by code_simp
  then show "n < 16 \<Longrightarrow> hex_digit n \<noteq> CHR '':''" by (simp add: list_all_iff)
qed

lemma byte_digits: "unat (w :: 8 word) div 16 < 16" "unat w mod 16 < 16"
proof -
  have "unat w < 2 ^ LENGTH(8)" by (rule unsigned_less)
  then show "unat w div 16 < 16" "unat w mod 16 < 16" by (simp_all add: div_less_iff_less_mult)
qed

lemma to_hex_no_colon: "CHR '':'' \<notin> set (to_hex bs)"
proof -
  have "hex_digit (unat w div 16) \<noteq> CHR '':''" "hex_digit (unat w mod 16) \<noteq> CHR '':''" for w :: "8 word" by (rule hex_no_colon [OF byte_digits(1)], rule hex_no_colon [OF byte_digits(2)])
  then show ?thesis by (auto simp: to_hex_def dest: sym)
qed

lemma split_first: "c \<notin> set a \<Longrightarrow> c \<notin> set b \<Longrightarrow> a @ c # x = b @ c # y \<longleftrightarrow> a = b \<and> x = y"
proof (induction a arbitrary: b)
  case Nil
  then show ?case by (cases b) auto
next
  case (Cons z a)
  then show ?case by (cases b) auto
qed

lemma to_hex_inject: "to_hex a = to_hex b \<longleftrightarrow> a = b"
proof
  show "a = b" if "to_hex a = to_hex b"
    using that
  proof (induction a arbitrary: b)
    case Nil
    then show ?case by (cases b) (simp_all add: to_hex_def)
  next
    case (Cons w a)
    then obtain v b' where b: "b = v # b'" by (cases b) (simp_all add: to_hex_def)
    have eq: "hex_digit (unat w div 16) = hex_digit (unat v div 16)" "hex_digit (unat w mod 16) = hex_digit (unat v mod 16)" "to_hex a = to_hex b'"
      using Cons.prems by (simp_all add: b to_hex_def)
    then have "unat w div 16 = unat v div 16" "unat w mod 16 = unat v mod 16" using hex_digit_inject byte_digits by blast+
    then have "unat w = unat v" by (metis div_mult_mod_eq)
    then show ?case using Cons.IH [OF eq(3)] by (simp add: b word_unat_eq_iff)
  qed
qed simp

lemma blob_key_inject: "blob_key t a = blob_key t' b \<longleftrightarrow> t = t' \<and> a = b"
proof
  assume "blob_key t a = blob_key t' b"
  then have eq: "(t @ '':blob'') @ CHR '':'' # to_hex a = (t' @ '':blob'') @ CHR '':'' # to_hex b" by (simp add: blob_key_def)
  have "rev (to_hex a) @ CHR '':'' # rev (t @ '':blob'') = rev (to_hex b) @ CHR '':'' # rev (t' @ '':blob'')"
    using arg_cong [OF eq, of rev] by simp
  then have "rev (to_hex a) = rev (to_hex b) \<and> rev (t @ '':blob'') = rev (t' @ '':blob'')"
    using to_hex_no_colon by (subst (asm) split_first) simp_all
  then show "t = t' \<and> a = b" by (simp add: to_hex_inject)
qed simp

section \<open>Invariant\<close>

fun is_set_call :: "blob_call \<Rightarrow> bool" where
  "is_set_call (Setting _ _ _ _) \<longleftrightarrow> True"
| "is_set_call _ \<longleftrightarrow> False"

fun call_bytes :: "blob_call \<Rightarrow> int" where
  "call_bytes (Setting _ _ data _) = int (length data)"
| "call_bytes _ = 0"

fun call_cache :: "blob_call \<Rightarrow> nat" where
  "call_cache (Getting i _ _) = i"
| "call_cache (MGetting i _ _ _) = i"
| "call_cache (Setting i _ _ _) = i"
| "call_cache (MDeleting i _) = i"

fun call_ticket :: "blob_call \<Rightarrow> nat option" where
  "call_ticket (Getting _ _ t) = t"
| "call_ticket (MGetting _ _ _ t) = t"
| "call_ticket (Setting _ _ _ t) = t"
| "call_ticket (MDeleting _ _) = None"

fun call_honest :: "(bytes \<Rightarrow> bytes) \<Rightarrow> blob_call \<Rightarrow> bool" where
  "call_honest h (Setting _ sha data _) \<longleftrightarrow> h data = sha"
| "call_honest h (MGetting _ shas out _) \<longleftrightarrow> length out < length shas \<and> (\<forall>j < length out. \<forall>v. out ! j = Some v \<longrightarrow> h v = shas ! j)"
| "call_honest h _ \<longleftrightarrow> True"

definition occupied_by :: "blob_conn \<Rightarrow> backfill_occupancy \<Rightarrow> bool" where
  "occupied_by cn o' \<longleftrightarrow> inFlight o' = int (length (filter is_set_call (cn_calls cn))) \<and> inFlightBytes o' = sum_list (map call_bytes (cn_calls cn))
     \<and> inFlight o' \<le> max 0 (bo_maxInFlight o') \<and> inFlightBytes o' \<le> max 0 (bo_maxInFlightBytes o')
     \<and> (\<forall>c \<in> set (cn_caches cn). bc_maxInFlight c = bo_maxInFlight o' \<and> bc_maxInFlightBytes c = bo_maxInFlightBytes o')"

definition probe_held :: "blob_conn \<Rightarrow> bool" where
  "probe_held cn \<longleftrightarrow> (b_state (cn_breaker cn) = HalfOpen \<longrightarrow>
     (\<exists>call \<in> set (cn_calls cn). call_ticket call = Some (probeGeneration (cn_breaker cn)) \<and> bc_breaker (cn_caches cn ! call_cache call)))"

definition redis_honest :: "(bytes \<Rightarrow> bytes) \<Rightarrow> blob_conn \<Rightarrow> bool" where
  "redis_honest h cn \<longleftrightarrow> (\<forall>t sha v. map_of (cn_redis cn) (blob_key t sha) = Some v \<longrightarrow> h v = sha)"

definition blob_inv :: "(bytes \<Rightarrow> bytes) \<Rightarrow> blob_conn \<Rightarrow> bool" where
  "blob_inv h cn \<longleftrightarrow> (\<forall>call \<in> set (cn_calls cn). call_cache call < length (cn_caches cn) \<and> call_honest h call)
     \<and> (case cn_occupancy cn of None \<Rightarrow> cn_caches cn = [] | Some o' \<Rightarrow> occupied_by cn o') \<and> probe_held cn \<and> redis_honest h cn"

fun honest_event :: "(bytes \<Rightarrow> bytes) \<Rightarrow> blob_event \<Rightarrow> bool" where
  "honest_event h (StartSet _ sha data _) \<longleftrightarrow> h data = sha"
| "honest_event h _ \<longleftrightarrow> True"

lemma without_split: "k < length xs \<Longrightarrow> xs = take k xs @ xs ! k # drop (Suc k) xs"
  by (rule id_take_nth_drop)

lemma without_facts:
  assumes "k < length xs"
  shows "set (without k xs) \<subseteq> set xs" and "x \<in> set xs \<Longrightarrow> x \<noteq> xs ! k \<Longrightarrow> x \<in> set (without k xs)"
    and "length (filter P (without k xs)) = length (filter P xs) - (if P (xs ! k) then 1 else 0)"
    and "sum_list (map f (without k xs)) = sum_list (map f xs) - (f (xs ! k) :: int)"
proof -
  note sp = without_split [OF assms]
  show "set (without k xs) \<subseteq> set xs" by (auto simp: without_def dest: in_set_takeD in_set_dropD)
  show "x \<in> set (without k xs)" if "x \<in> set xs" "x \<noteq> xs ! k" using that sp by (metis Un_iff set_append set_ConsD without_def)
  show "length (filter P (without k xs)) = length (filter P xs) - (if P (xs ! k) then 1 else 0)"
    using arg_cong [OF sp, of "\<lambda>ys. length (filter P ys)"] by (simp add: without_def)
  show "sum_list (map f (without k xs)) = sum_list (map f xs) - f (xs ! k)"
    using arg_cong [OF sp, of "\<lambda>ys. sum_list (map f ys)"] by (simp add: without_def)
qed

section \<open>Claims and settlements\<close>

lemma claim_cases:
  assumes "claim_call i now call cn = (r, cn')" and "probe_held cn" and "\<And>t. call_ticket (call t) = t" and "\<And>t. call_cache (call t) = i"
  obtains b where "\<not> r" and "cn' = cn\<lparr>cn_breaker := b\<rparr>" and "probe_held cn'"
  | b t where "r" and "cn' = cn\<lparr>cn_breaker := b, cn_calls := cn_calls cn @ [call t]\<rparr>" and "probe_held cn'"
proof -
  obtain ok t b where acq: "tryAcquireCircuit (cn_caches cn ! i) now (cn_breaker cn) = ((ok, t), b)" by (metis prod.exhaust)
  have held: "b_state b = HalfOpen \<Longrightarrow> b = cn_breaker cn \<or> ok \<and> t = Some (probeGeneration b) \<and> bc_breaker (cn_caches cn ! i)"
    using acq by (auto simp: tryAcquireCircuit_def breaker_defs split: if_splits breaker_state.splits)
  show thesis
  proof (cases ok)
    case False
    then have cn': "\<not> r" "cn' = cn\<lparr>cn_breaker := b\<rparr>" using assms(1) acq by (simp_all add: claim_call_def)
    have "probe_held cn'" using assms(2) held False by (auto simp: probe_held_def cn'(2))
    then show thesis using that(1) cn' by blast
  next
    case True
    then have cn': "r" "cn' = cn\<lparr>cn_breaker := b, cn_calls := cn_calls cn @ [call t]\<rparr>" using assms(1) acq by (simp_all add: claim_call_def)
    have "probe_held cn'" using assms(2) held by (auto simp: probe_held_def cn'(2) assms(3,4))
    then show thesis using that(2) cn' by blast
  qed
qed

lemma finish_probe:
  assumes "probe_held cn" and k: "k < length (cn_calls cn)" and t: "call_ticket (cn_calls cn ! k) = t" "call_cache (cn_calls cn ! k) = i"
  shows "probe_held (finish_call k i ok t now cn)"
  unfolding probe_held_def
proof
  let ?b = "settle (cn_caches cn ! i) ok t now (cn_breaker cn)"
  assume half: "b_state (cn_breaker (finish_call k i ok t now cn)) = HalfOpen"
  then have b: "?b = cn_breaker cn" "b_state (cn_breaker cn) = HalfOpen" and ne: "t \<noteq> Some (probeGeneration (cn_breaker cn)) \<or> \<not> bc_breaker (cn_caches cn ! i)"
    by (auto simp: finish_call_def settle_def breaker_defs Let_def split: if_splits)
  obtain call where call: "call \<in> set (cn_calls cn)" "call_ticket call = Some (probeGeneration (cn_breaker cn))" "bc_breaker (cn_caches cn ! call_cache call)"
    using assms(1) b(2) by (auto simp: probe_held_def)
  then have "call \<noteq> cn_calls cn ! k" using ne t by auto
  then have "call \<in> set (without k (cn_calls cn))" by (rule without_facts(2) [OF k call(1)])
  then show "\<exists>call \<in> set (cn_calls (finish_call k i ok t now cn)). call_ticket call = Some (probeGeneration (cn_breaker (finish_call k i ok t now cn)))
      \<and> bc_breaker (cn_caches (finish_call k i ok t now cn) ! call_cache call)"
    using call by (auto simp: finish_call_def b(1))
qed

section \<open>Every step\<close>

lemma redis_honest_read: "redis_honest h cn \<Longrightarrow> map_of (cn_redis cn) (blob_key t sha) = Some v \<Longrightarrow> h v = sha"
  by (simp add: redis_honest_def)

lemma redis_honest_filter: "redis_honest h cn \<Longrightarrow> redis_honest h (cn\<lparr>cn_redis := filter (\<lambda>(key, v). key \<notin> A) (cn_redis cn)\<rparr>)"
proof -
  have "map_of (filter (\<lambda>(key, v). key \<notin> A) xs) k = (if k \<in> A then None else map_of xs k)" for xs :: "(string \<times> bytes) list" and k
    by (induction xs) auto
  then show "redis_honest h cn \<Longrightarrow> ?thesis" by (simp add: redis_honest_def)
qed

lemma blob_inv_claim:
  assumes inv: "blob_inv h cn" and i: "i < length (cn_caches cn)" and run: "claim_call i now call cn = (r, cn')"
    and call: "\<And>t. call_ticket (call t) = t" "\<And>t. call_cache (call t) = i" "\<And>t. call_honest h (call t)" "\<And>t. \<not> is_set_call (call t)" "\<And>t. call_bytes (call t) = 0"
  shows "blob_inv h cn'"
proof -
  have held: "probe_held cn" using inv by (simp add: blob_inv_def)
  show ?thesis
    using run held call(1,2)
  proof (cases rule: claim_cases)
    case (1 b)
    then show ?thesis using inv by (auto simp: blob_inv_def occupied_by_def redis_honest_def split: option.splits)
  next
    case (2 b t)
    then show ?thesis using inv call i by (auto simp: blob_inv_def occupied_by_def redis_honest_def split: option.splits)
  qed
qed

lemma recordDrop_simps [simp]:
  "cn_calls (recordDrop i now cn) = cn_calls cn" "cn_breaker (recordDrop i now cn) = cn_breaker cn" "cn_redis (recordDrop i now cn) = cn_redis cn"
  "length (cn_caches (recordDrop i now cn)) = length (cn_caches cn)"
  by (simp_all add: recordDrop_def Let_def)

lemma recordDrop_cache:
  assumes "i < length (cn_caches cn)"
  shows "bc_breaker (cn_caches (recordDrop i now cn) ! j) = bc_breaker (cn_caches cn ! j)"
    and "c \<in> set (cn_caches (recordDrop i now cn)) \<Longrightarrow> \<exists>c' \<in> set (cn_caches cn). bc_maxInFlight c = bc_maxInFlight c' \<and> bc_maxInFlightBytes c = bc_maxInFlightBytes c'"
proof -
  show "bc_breaker (cn_caches (recordDrop i now cn) ! j) = bc_breaker (cn_caches cn ! j)"
    by (cases "j = i") (simp_all add: recordDrop_def Let_def assms)
  assume "c \<in> set (cn_caches (recordDrop i now cn))"
  then have "c = (cn_caches cn ! i)\<lparr>bc_dropped := bc_dropped (cn_caches cn ! i) + 1\<rparr> \<or> c \<in> set (cn_caches cn)"
    using set_update_subset_insert [of "cn_caches cn" i] by (auto simp: recordDrop_def Let_def)
  then show "\<exists>c' \<in> set (cn_caches cn). bc_maxInFlight c = bc_maxInFlight c' \<and> bc_maxInFlightBytes c = bc_maxInFlightBytes c'"
    using nth_mem [OF assms] by auto
qed

lemma blob_inv_occupied:
  assumes "blob_inv h cn" and "i < length (cn_caches cn)"
  obtains o' where "cn_occupancy cn = Some o'" and "occupied_by cn o'"
  using assms by (cases "cn_occupancy cn") (auto simp: blob_inv_def)

lemma blob_inv_drop:
  assumes inv: "blob_inv h cn" and i: "i < length (cn_caches cn)"
  shows "blob_inv h (recordDrop i now cn)"
proof -
  let ?cn = "recordDrop i now cn"
  obtain o' where o: "cn_occupancy cn = Some o'" "occupied_by cn o'" using inv i by (rule blob_inv_occupied)
  obtain o1 where o1: "cn_occupancy ?cn = Some o1" "inFlight o1 = inFlight o'" "inFlightBytes o1 = inFlightBytes o'"
    "bo_maxInFlight o1 = bo_maxInFlight o'" "bo_maxInFlightBytes o1 = bo_maxInFlightBytes o'"
    using o(1) by (simp add: recordDrop_def Let_def)
  have "\<forall>c \<in> set (cn_caches ?cn). bc_maxInFlight c = bo_maxInFlight o' \<and> bc_maxInFlightBytes c = bo_maxInFlightBytes o'"
    using recordDrop_cache(2) [OF i] o(2) by (fastforce simp: occupied_by_def)
  then have "occupied_by ?cn o1" using o(2) o1 by (simp add: occupied_by_def)
  moreover have "probe_held ?cn" "redis_honest h ?cn" using inv by (simp_all add: blob_inv_def probe_held_def redis_honest_def recordDrop_cache(1) [OF i])
  ultimately show ?thesis using inv o1(1) by (simp add: blob_inv_def)
qed

lemma blob_inv_set:
  assumes inv: "blob_inv h cn" and i: "i < length (cn_caches cn)" and h: "h data = sha"
  shows "blob_inv h (set_start i sha data now cn)"
proof -
  let ?c = "cn_caches cn ! i"
  obtain o' where o: "cn_occupancy cn = Some o'" "occupied_by cn o'" using inv i by (rule blob_inv_occupied)
  have lim: "bc_maxInFlight ?c = bo_maxInFlight o'" "bc_maxInFlightBytes ?c = bo_maxInFlightBytes o'" using o(2) nth_mem [OF i] by (auto simp: occupied_by_def)
  show ?thesis
  proof (cases "\<not> bc_enabled ?c \<or> int (length data) > bc_maxBytes ?c \<or> inFlight o' \<ge> bc_maxInFlight ?c \<or> inFlightBytes o' + int (length data) > bc_maxInFlightBytes ?c")
    case True
    then show ?thesis using inv blob_inv_drop [OF inv i] o(1) by (auto simp: set_start_def Let_def)
  next
    case False
    obtain r cn' where run: "claim_call i now (Setting i sha data) cn = (r, cn')" by force
    have held: "probe_held cn" using inv by (simp add: blob_inv_def)
    from run held call_ticket.simps(3) call_cache.simps(3) show ?thesis
    proof (cases rule: claim_cases)
      case (1 b)
      then show ?thesis using False run o inv by (auto simp: set_start_def Let_def blob_inv_def occupied_by_def redis_honest_def)
    next
      case (2 b t)
      let ?o = "o'\<lparr>inFlight := inFlight o' + 1, inFlightBytes := inFlightBytes o' + int (length data)\<rparr>"
      have eq: "set_start i sha data now cn = cn'\<lparr>cn_occupancy := Some ?o\<rparr>" using False run o(1) 2(1) by (auto simp: set_start_def Let_def)
      have "occupied_by (cn'\<lparr>cn_occupancy := Some ?o\<rparr>) ?o" using o(2) False lim 2(2) by (auto simp: occupied_by_def)
      moreover have "probe_held (cn'\<lparr>cn_occupancy := Some ?o\<rparr>)" using 2(3) by (simp add: probe_held_def)
      ultimately show ?thesis using inv 2(2) h i by (auto simp: eq blob_inv_def redis_honest_def)
    qed
  qed
qed

lemma finish_simps [simp]:
  "cn_caches (finish_call k i ok t now cn) = cn_caches cn" "cn_occupancy (finish_call k i ok t now cn) = cn_occupancy cn"
  "cn_redis (finish_call k i ok t now cn) = cn_redis cn" "cn_calls (finish_call k i ok t now cn) = without k (cn_calls cn)"
  by (simp_all add: finish_call_def)

lemma blob_inv_finish:
  assumes inv: "blob_inv h cn" and k: "k < length (cn_calls cn)" and call: "cn_calls cn ! k = call" "\<not> is_set_call call" "call_ticket call = t" "call_cache call = i"
  shows "blob_inv h (finish_call k i ok t now cn)"
proof -
  have held: "probe_held (finish_call k i ok t now cn)" using inv k call by (intro finish_probe) (auto simp: blob_inv_def)
  have "call_bytes call = 0" using call(2) by (cases call) simp_all
  then have "occupied_by (finish_call k i ok t now cn) o'" if "occupied_by cn o'" for o'
    using that call by (simp add: occupied_by_def without_facts [OF k])
  then show ?thesis using inv held without_facts(1) [OF k] by (auto simp: blob_inv_def redis_honest_def split: option.splits)
qed

lemma call_at:
  assumes "blob_inv h cn" and "k < length (cn_calls cn)"
  shows "call_cache (cn_calls cn ! k) < length (cn_caches cn)" and "call_honest h (cn_calls cn ! k)"
  using assms nth_mem [OF assms(2)] by (auto simp: blob_inv_def)

lemma blob_inv_replace:
  assumes inv: "blob_inv h cn" and k: "k < length (cn_calls cn)"
    and new: "call_cache call = call_cache (cn_calls cn ! k)" "call_ticket call = call_ticket (cn_calls cn ! k)" "call_honest h call"
      "\<not> is_set_call call" "\<not> is_set_call (cn_calls cn ! k)"
  shows "blob_inv h (cn\<lparr>cn_calls := (cn_calls cn)[k := call]\<rparr>)"
proof -
  let ?xs = "cn_calls cn" and ?cn = "cn\<lparr>cn_calls := (cn_calls cn)[k := call]\<rparr>"
  have sp: "?xs = take k ?xs @ ?xs ! k # drop (Suc k) ?xs" "?xs[k := call] = take k ?xs @ call # drop (Suc k) ?xs"
    by (rule id_take_nth_drop [OF k], rule upd_conv_take_nth_drop [OF k])
  have zero: "call_bytes call = 0" "call_bytes (?xs ! k) = 0" using new(4,5) by (cases call; simp; cases "?xs ! k"; simp)+
  have "length (filter is_set_call (?xs[k := call])) = length (filter is_set_call ?xs)"
    using arg_cong [OF sp(1), of "\<lambda>ys. length (filter is_set_call ys)"] by (simp add: sp(2) new)
  moreover have "sum_list (map call_bytes (?xs[k := call])) = sum_list (map call_bytes ?xs)"
    using arg_cong [OF sp(1), of "\<lambda>ys. sum_list (map call_bytes ys)"] by (simp add: sp(2) zero)
  ultimately have occ: "occupied_by ?cn o'" if "occupied_by cn o'" for o' using that by (simp add: occupied_by_def)
  have mem: "set (?xs[k := call]) \<subseteq> insert call (set ?xs)" by (rule set_update_subset_insert)
  have "probe_held ?cn"
    unfolding probe_held_def
  proof
    assume "b_state (cn_breaker ?cn) = HalfOpen"
    then obtain c where c: "c \<in> set ?xs" "call_ticket c = Some (probeGeneration (cn_breaker cn))" "bc_breaker (cn_caches cn ! call_cache c)"
      using inv by (auto simp: blob_inv_def probe_held_def)
    show "\<exists>c \<in> set (cn_calls ?cn). call_ticket c = Some (probeGeneration (cn_breaker ?cn)) \<and> bc_breaker (cn_caches ?cn ! call_cache c)"
    proof (cases "c = ?xs ! k")
      case True
      then show ?thesis using c new(1,2) set_update_memI [OF k] by auto
    next
      case False
      then have "c \<in> set (?xs[k := call])" using c(1) arg_cong [OF sp(1), of set] by (simp add: sp(2))
      then show ?thesis using c by auto
    qed
  qed
  moreover have "\<forall>c \<in> set (cn_calls ?cn). call_cache c < length (cn_caches ?cn) \<and> call_honest h c"
    using inv mem call_at [OF inv k] new by (auto simp: blob_inv_def)
  ultimately show ?thesis using inv occ by (auto simp: blob_inv_def redis_honest_def split: option.splits)
qed

lemma mget_answers:
  assumes inv: "blob_inv h cn" and k: "k < length (cn_calls cn)" and call: "cn_calls cn ! k = MGetting i shas out t"
  defines "tn \<equiv> bc_tenant (cn_caches cn ! i)"
  defines "out' \<equiv> out @ map (\<lambda>sha. map_of (cn_redis cn) (blob_key tn sha)) (take MGET_CHUNK (drop (length out) shas))"
  shows "length out' \<le> length shas" and "j < length out' \<Longrightarrow> out' ! j = Some v \<Longrightarrow> h v = shas ! j"
proof -
  have out: "length out < length shas" "\<forall>j < length out. \<forall>v. out ! j = Some v \<longrightarrow> h v = shas ! j" using call_at(2) [OF inv k] call by simp_all
  show "length out' \<le> length shas" using out(1) by (simp add: out'_def)
  have red: "redis_honest h cn" using inv by (simp add: blob_inv_def)
  assume j: "j < length out'" "out' ! j = Some v"
  show "h v = shas ! j"
  proof (cases "j < length out")
    case True
    then show ?thesis using out(2) j by (simp add: out'_def nth_append)
  next
    case False
    have "j - length out < length (take MGET_CHUNK (drop (length out) shas))" using False j(1) unfolding out'_def length_append length_map length_take length_drop by linarith
    then have "out' ! j = map_of (cn_redis cn) (blob_key tn (shas ! j))" using False out(1) by (simp add: out'_def nth_append)
    then have "map_of (cn_redis cn) (blob_key tn (shas ! j)) = Some v" using j(2) by simp
    then show ?thesis by (rule redis_honest_read [OF red])
  qed
qed

lemma blob_inv_mget:
  assumes inv: "blob_inv h cn" and k: "k < length (cn_calls cn)"
  shows "blob_inv h (snd (mget_reply k ok now cn))"
proof (cases "cn_calls cn ! k")
  case call: (MGetting i shas out t)
  let ?out = "out @ map (\<lambda>sha. map_of (cn_redis cn) (blob_key (bc_tenant (cn_caches cn ! i)) sha)) (take MGET_CHUNK (drop (length out) shas))"
  note ans = mget_answers [OF inv k call]
  have fin: "blob_inv h (finish_call k i b t now cn)" for b by (rule blob_inv_finish [OF inv k call]) simp_all
  have rep: "blob_inv h (cn\<lparr>cn_calls := (cn_calls cn)[k := MGetting i shas ?out t]\<rparr>)" if "length ?out < length shas"
    by (rule blob_inv_replace [OF inv k]) (use call that ans(2) in \<open>simp_all\<close>)
  show ?thesis using fin rep by (auto simp: mget_reply_def call Let_def)
qed (use inv in \<open>simp_all add: mget_reply_def\<close>)

lemma blob_inv_get:
  assumes inv: "blob_inv h cn" and k: "k < length (cn_calls cn)"
  shows "blob_inv h (snd (get_reply k ok now cn))"
proof (cases "cn_calls cn ! k")
  case call: (Getting i sha t)
  have "blob_inv h (finish_call k i ok t now cn)" by (rule blob_inv_finish [OF inv k call]) simp_all
  then show ?thesis by (simp add: get_reply_def call)
qed (use inv in \<open>simp_all add: get_reply_def\<close>)

lemma blob_inv_set_reply:
  assumes inv: "blob_inv h cn" and k: "k < length (cn_calls cn)"
  shows "blob_inv h (set_reply k ok applied now cn)"
proof (cases "cn_calls cn ! k")
  case call: (Setting i sha data t)
  have i: "i < length (cn_caches cn)" and h: "h data = sha" using call_at [OF inv k] call by simp_all
  obtain o' where o: "cn_occupancy cn = Some o'" "occupied_by cn o'" using inv i by (rule blob_inv_occupied)
  let ?cn1 = "if ok \<or> applied then cn\<lparr>cn_redis := AList.update (blob_key (bc_tenant (cn_caches cn ! i)) sha) data (cn_redis cn)\<rparr> else cn"
  let ?o = "o'\<lparr>inFlight := inFlight o' - 1, inFlightBytes := inFlightBytes o' - int (length data)\<rparr>"
  let ?cn2 = "(finish_call k i ok t now ?cn1)\<lparr>cn_occupancy := Some ?o\<rparr>"
  have same: "cn_calls ?cn1 = cn_calls cn" "cn_caches ?cn1 = cn_caches cn" "cn_breaker ?cn1 = cn_breaker cn" "cn_occupancy ?cn1 = Some o'" using o(1) by simp_all
  have eq: "set_reply k ok applied now cn = ?cn2" using same by (simp add: set_reply_def call Let_def)
  have "redis_honest h ?cn1" using inv h by (auto simp: blob_inv_def redis_honest_def update_conv blob_key_inject)
  then have red: "redis_honest h ?cn2" by (simp add: redis_honest_def)
  have "probe_held ?cn1" using inv same by (simp add: blob_inv_def probe_held_def)
  then have "probe_held (finish_call k i ok t now ?cn1)" by (rule finish_probe) (use k call same in simp_all)
  then have held: "probe_held ?cn2" by (simp add: probe_held_def)
  have pos: "0 < length (filter is_set_call (cn_calls cn))" using nth_mem [OF k] call by (auto simp: filter_empty_conv intro!: bexI [of _ "cn_calls cn ! k"])
  then obtain n where n: "length (filter is_set_call (cn_calls cn)) = Suc n" using gr0_conv_Suc by blast
  have left: "length (filter is_set_call (cn_calls ?cn2)) = n" "sum_list (map call_bytes (cn_calls ?cn2)) = sum_list (map call_bytes (cn_calls cn)) - int (length data)"
    using same call by (simp_all add: without_facts [OF k] n)
  have "occupied_by ?cn2 ?o" using o(2) same unfolding occupied_by_def left n by auto
  moreover have "\<forall>c \<in> set (cn_calls ?cn2). call_cache c < length (cn_caches ?cn2) \<and> call_honest h c"
    using inv without_facts(1) [OF k] same by (auto simp: blob_inv_def)
  ultimately show ?thesis unfolding eq blob_inv_def using held red by simp
qed (use inv in \<open>simp_all add: set_reply_def\<close>)

lemma blob_inv_lose:
  "blob_inv h cn \<Longrightarrow> blob_inv h (cn\<lparr>cn_redis := filter (\<lambda>(key, v). key \<notin> A) (cn_redis cn)\<rparr>)"
  using redis_honest_filter [of h cn A] by (auto simp: blob_inv_def occupied_by_def probe_held_def split: option.splits)

lemma blob_inv_mdel:
  assumes inv: "blob_inv h cn" and k: "k < length (cn_calls cn)"
  shows "blob_inv h (mdel_reply k ok cn)"
proof (cases "cn_calls cn ! k")
  case call: (MDeleting i shas)
  have drop: "blob_inv h (cn'\<lparr>cn_calls := without k (cn_calls cn')\<rparr>)" if "blob_inv h cn'" "cn_calls cn' = cn_calls cn" for cn'
  proof -
    have "\<not> is_set_call (cn_calls cn' ! k)" "call_bytes (cn_calls cn' ! k) = 0" "k < length (cn_calls cn')" using that(2) call k by simp_all
    then have "occupied_by (cn'\<lparr>cn_calls := without k (cn_calls cn')\<rparr>) o'" if "occupied_by cn' o'" for o'
      using that by (simp add: occupied_by_def without_facts)
    moreover have "probe_held (cn'\<lparr>cn_calls := without k (cn_calls cn')\<rparr>)"
      using that call k without_facts(2) [of k "cn_calls cn"] by (fastforce simp: blob_inv_def probe_held_def)
    ultimately show ?thesis using that k without_facts(1) [of k "cn_calls cn"] by (auto simp: blob_inv_def redis_honest_def split: option.splits)
  qed
  let ?cn1 = "cn\<lparr>cn_redis := filter (\<lambda>(key, v). key \<notin> set (map (blob_key (bc_tenant (cn_caches cn ! i))) (take MGET_CHUNK shas))) (cn_redis cn)\<rparr>"
  have cn1: "blob_inv h ?cn1" by (rule blob_inv_lose [OF inv])
  have rep: "blob_inv h (?cn1\<lparr>cn_calls := (cn_calls ?cn1)[k := MDeleting i (drop MGET_CHUNK shas)]\<rparr>)"
    by (rule blob_inv_replace [OF cn1]) (use k call in simp_all)
  show ?thesis using drop [OF inv] drop [OF cn1] rep by (auto simp: mdel_reply_def call Let_def)
qed (use inv in \<open>simp_all add: mdel_reply_def\<close>)

lemma blob_inv_open:
  assumes inv: "blob_inv h cn"
  shows "blob_inv h (open_cache tenant opts cn)"
proof (cases "occupancyFor (cn_occupancy cn) (fst (resolve_limit opts)) (snd (resolve_limit opts))")
  case (Inl e)
  then show ?thesis using inv by (simp add: open_cache_def)
next
  case (Inr o')
  let ?cn = "cn\<lparr>cn_occupancy := Some o', cn_caches := cn_caches cn @ [new_blob_cache tenant opts]\<rparr>"
  have lim: "bo_maxInFlight o' = fst (resolve_limit opts)" "bo_maxInFlightBytes o' = snd (resolve_limit opts)"
    using Inr by (auto simp: occupancyFor_def split: option.splits if_splits)
  have none: "cn_calls cn = []" if "cn_occupancy cn = None" using inv that by (cases "cn_calls cn") (auto simp: blob_inv_def)
  have "occupied_by ?cn o'"
    using Inr inv lim none by (auto simp: occupancyFor_def occupied_by_def blob_inv_def new_blob_cache_def split: option.splits if_splits)
  moreover have "probe_held ?cn" using inv by (fastforce simp: blob_inv_def probe_held_def nth_append)
  ultimately show ?thesis using inv Inr by (auto simp: open_cache_def blob_inv_def redis_honest_def)
qed

lemma blob_step_inv:
  assumes inv: "blob_inv h cn" and "honest_event h ev"
  shows "blob_inv h (blob_step ev cn)"
proof (cases "blob_event_ok cn ev")
  case ok: True
  have call: "blob_inv h (snd (claim_call i now c cn))" if "i < length (cn_caches cn)" "\<And>t. call_ticket (c t) = t" "\<And>t. call_cache (c t) = i" "\<And>t. call_honest h (c t)"
    "\<And>t. \<not> is_set_call (c t)" "\<And>t. call_bytes (c t) = 0" for i now c
    using blob_inv_claim [OF inv that(1) _ that(2-6)] by (metis prod.collapse)
  have mdel: "blob_inv h (cn\<lparr>cn_calls := cn_calls cn @ [MDeleting i shas]\<rparr>)" if "i < length (cn_caches cn)" for i shas
    using inv that by (auto simp: blob_inv_def occupied_by_def probe_held_def redis_honest_def split: option.splits)
  show ?thesis
    using ok assms
    by (cases ev) (auto simp: blob_step_def get_start_def mget_start_def mdel_start_def Let_def call mdel blob_inv_open blob_inv_set blob_inv_get
        blob_inv_mget blob_inv_set_reply blob_inv_mdel blob_inv_lose)
qed (use inv in \<open>simp add: blob_step_def\<close>)

lemma blob_inv_start: "blob_inv h (new_conn threshold openMs)"
  by (simp add: blob_inv_def new_conn_def new_breaker_def probe_held_def redis_honest_def)

interpretation blobs: safe_machine "\<lambda>cn. \<exists>threshold openMs. cn = new_conn threshold openMs"
  "\<lambda>cn cn'. \<exists>ev. honest_event h ev \<and> cn' = blob_step ev cn" "blob_inv h" for h
  by unfold_locales (use blob_inv_start blob_step_inv in blast)+

abbreviation blob_run :: "blob_event list \<Rightarrow> blob_conn \<Rightarrow> blob_conn" where
  "blob_run es cn \<equiv> fold blob_step es cn"

lemma blob_run_star:
  "list_all (honest_event h) es \<Longrightarrow> (\<lambda>cn cn'. \<exists>ev. honest_event h ev \<and> cn' = blob_step ev cn)\<^sup>*\<^sup>* cn (blob_run es cn)"
  by (induction es arbitrary: cn) (auto intro: converse_rtranclp_into_rtranclp)

lemma blob_run_inv: "list_all (honest_event h) es \<Longrightarrow> blob_inv h (blob_run es (new_conn threshold openMs))"
  by (rule blobs.reachable_inv [OF _ blob_run_star]) blast

text \<open>
  C40. The blob cache, whatever its calls and the replies of Redis and however they interleave: a value that a read
  returns has the hash asked for, provided every value offered to the cache has the hash it is offered under; the
  writes in flight on the connection are counted exactly and stay within the limits all tenants share; and the
  breaker is half-open only while a call on this connection holds the ticket of its probe, so no probe is leaked.
\<close>

theorem blob_cache_sound:
  assumes "list_all (honest_event h) es" and "cn = blob_run es (new_conn threshold openMs)"
  shows "(\<forall>k i sha t ok now v. k < length (cn_calls cn) \<and> cn_calls cn ! k = Getting i sha t \<and> fst (get_reply k ok now cn) = Some v \<longrightarrow> h v = sha)
    \<and> (\<forall>k i shas out t ok now res j v. k < length (cn_calls cn) \<and> cn_calls cn ! k = MGetting i shas out t \<and> fst (mget_reply k ok now cn) = Some res
         \<and> j < length shas \<and> res ! j = Some v \<longrightarrow> length res = length shas \<and> h v = shas ! j)
    \<and> (\<forall>o'. cn_occupancy cn = Some o' \<longrightarrow> inFlight o' = int (length (filter is_set_call (cn_calls cn)))
         \<and> inFlightBytes o' = sum_list (map call_bytes (cn_calls cn))
         \<and> inFlight o' \<le> max 0 (bo_maxInFlight o') \<and> inFlightBytes o' \<le> max 0 (bo_maxInFlightBytes o'))
    \<and> (b_state (cn_breaker cn) = HalfOpen \<longrightarrow> (\<exists>call \<in> set (cn_calls cn). call_ticket call = Some (probeGeneration (cn_breaker cn))))"
proof -
  have inv: "blob_inv h cn" using blob_run_inv [OF assms(1)] assms(2) by simp
  have red: "redis_honest h cn" using inv by (simp add: blob_inv_def)
  have get: "h v = sha" if "cn_calls cn ! k = Getting i sha t" "fst (get_reply k ok now cn) = Some v" for k i sha t ok now v
    using that redis_honest_read [OF red] by (auto simp: get_reply_def split: if_splits)
  have mget: "length res = length shas \<and> h v = shas ! j" if k: "k < length (cn_calls cn)" and call: "cn_calls cn ! k = MGetting i shas out t"
    and res: "fst (mget_reply k ok now cn) = Some res" "j < length shas" "res ! j = Some v" for k i shas out t ok now res j v
  proof -
    note ans = mget_answers [OF inv k call]
    show ?thesis using res ans call by (cases ok) (auto simp: mget_reply_def Let_def split: if_splits)
  qed
  have "(\<forall>o'. cn_occupancy cn = Some o' \<longrightarrow> occupied_by cn o') \<and> probe_held cn" using inv by (auto simp: blob_inv_def split: option.splits)
  then show ?thesis using get mget unfolding occupied_by_def probe_held_def by blast
qed

definition demo_cache_options :: blob_cache_options where
  "demo_cache_options = \<lparr>bo_ttlMs = None, bo_maxBytes = None, bo_enabled = None, bo_limit = Some 1, bo_limitBytes = None, bo_breaker = True\<rparr>"

definition demo_blob_events :: "blob_event list" where
  "demo_blob_events = [OpenCache ''a'' demo_cache_options, OpenCache ''b'' demo_cache_options, StartSet 0 [1] [1] 0, StartSet 1 [2] [2] 0,
     ReplySet 0 True True 0, StartSet 1 [2] [2] 0, StartGet 0 [1] 0]"

definition demo_conn :: blob_conn where
  "demo_conn = blob_run demo_blob_events (new_conn 5 1000)"

lemma demo_blob_facts:
  "list_all (honest_event id) demo_blob_events" "length (cn_calls demo_conn) = 2" "cn_calls demo_conn ! 1 = Getting 0 [1] None"
  "fst (get_reply 1 True 0 demo_conn) = Some [1]" "map_option bo_dropped (cn_occupancy demo_conn) = Some 1"
  "map_option inFlight (cn_occupancy demo_conn) = Some 1"
  by code_simp+

theorem blob_cache_sound_witness:
  "fst (get_reply 1 True 0 demo_conn) = Some [1] \<and> id [1] = ([1] :: bytes) \<and> (\<exists>o'. cn_occupancy demo_conn = Some o' \<and> inFlight o' = 1 \<and> inFlight o' \<le> max 0 (bo_maxInFlight o'))"
proof -
  note sound = blob_cache_sound [OF demo_blob_facts(1) demo_conn_def]
  obtain o' where o: "cn_occupancy demo_conn = Some o'" "inFlight o' = 1" using demo_blob_facts(6) by auto
  have "inFlight o' \<le> max 0 (bo_maxInFlight o')" using sound o(1) by blast
  moreover have "id [1] = ([1] :: bytes)" using conjunct1 [OF sound, rule_format, of 1 0 "[1]" None True 0 "[1]"] demo_blob_facts(2-4) by simp
  ultimately show ?thesis using o demo_blob_facts(4) by blast
qed

text \<open>
  The options accept a lifetime of zero, which the cache hands to Redis as \<open>PX 0\<close>; Redis refuses it, so every write
  fails and counts against the breaker.
\<close>

lemma blob_ttl_zero_accepted:
  assumes "env = (\<lambda>name. if name = ''REDIS_BLOB_CACHE_TTL_MS'' then Some ''0'' else None)" and "number ''0'' = Some 0"
  shows "\<exists>opts. loadRedisBlobCacheOptions env number = Inr opts \<and> bc_ttlMs (new_blob_cache tenant opts) = 0"
  using assms by (simp add: loadRedisBlobCacheOptions_def sum_then_def parsePositiveInt_def parseNonNegativeInt_def parse_int_above_def
      new_blob_cache_def or_default_def)

end
