(* ===== verification/WorkerProtocol.thy ===== *)
theory WorkerProtocol
  imports ApiErrors
begin

text \<open>
  \<open>src/api/worker-owner\<close>: the commands sent to a worker thread and which of them may have effects
  (\<open>protocol.ts\<close>), what a request knows about its effects (\<open>request-outcome.ts\<close>), how the pool sends a command and
  reports its failure (\<open>pool.ts\<close>). Whether a message is within its byte budget (\<open>message-budget.ts\<close>) is part of what a
  send meets.
\<close>

section \<open>Commands\<close>

datatype async_fs_method =
    M_readFile | M_readFileBuffer | M_readFileBytes | M_writeFile | M_appendFile | M_exists | M_stat | M_mkdir | M_createExclusive
  | M_readdir | M_readdirWithFileTypes | M_rm | M_cp | M_mv | M_chmod | M_symlink | M_link | M_readlink | M_lstat | M_realpath | M_utimes

text \<open>An \<open>attach\<close> command carries \<open>identity.openExisting\<close>.\<close>

datatype owner_command =
    C_fs async_fs_method | C_attach bool | C_exec | C_paths | C_reload | C_fresh | C_runtime | C_bulkIngest
  | C_beginScope | C_endScope | C_abortScope | C_disconnect | C_clearDirty | C_shutdown

fun fs_effects :: "async_fs_method \<Rightarrow> bool" where
  "fs_effects M_readFile = False" | "fs_effects M_readFileBuffer = False" | "fs_effects M_readFileBytes = False"
| "fs_effects M_writeFile = True" | "fs_effects M_appendFile = True" | "fs_effects M_exists = False" | "fs_effects M_stat = False"
| "fs_effects M_mkdir = True" | "fs_effects M_createExclusive = True" | "fs_effects M_readdir = False"
| "fs_effects M_readdirWithFileTypes = False" | "fs_effects M_rm = True" | "fs_effects M_cp = True" | "fs_effects M_mv = True"
| "fs_effects M_chmod = True" | "fs_effects M_symlink = True" | "fs_effects M_link = True" | "fs_effects M_readlink = False"
| "fs_effects M_lstat = False" | "fs_effects M_realpath = False" | "fs_effects M_utimes = True"

fun mayApply :: "owner_command \<Rightarrow> bool" where
  "mayApply (C_fs m) = fs_effects m"
| "mayApply (C_attach openExisting) = (\<not> openExisting)"
| "mayApply C_exec = True" | "mayApply C_paths = False" | "mayApply C_reload = False" | "mayApply C_fresh = False"
| "mayApply C_runtime = False" | "mayApply C_bulkIngest = True" | "mayApply C_beginScope = False" | "mayApply C_endScope = True"
| "mayApply C_abortScope = False" | "mayApply C_disconnect = False" | "mayApply C_clearDirty = False" | "mayApply C_shutdown = False"

definition OutcomeUnknownError :: js_error where
  "OutcomeUnknownError = \<lparr>je_code = Some ''EEXEC_OUTCOME_UNKNOWN'',
     je_message = ''EEXEC_OUTCOME_UNKNOWN: the worker stopped after dispatch; the write outcome is unknown; do not replay the script''\<rparr>"

section \<open>The outcome of a request\<close>

record request_outcome =
  mayHaveEffects :: bool
  creatingAttachDispatched :: bool
  execDispatched :: bool
  committedFsWrite :: bool
  scopeOpen :: bool

definition new_outcome :: request_outcome where
  "new_outcome = \<lparr>mayHaveEffects = False, creatingAttachDispatched = False, execDispatched = False, committedFsWrite = False, scopeOpen = False\<rparr>"

definition dispatched :: "owner_command \<Rightarrow> request_outcome \<Rightarrow> request_outcome" where
  "dispatched command o' =
     (let o1 = (if mayApply command then o'\<lparr>mayHaveEffects := True\<rparr> else o');
          o2 = (case command of C_attach _ \<Rightarrow> if mayApply command then o1\<lparr>creatingAttachDispatched := True\<rparr> else o1 | _ \<Rightarrow> o1)
      in if command = C_exec then o2\<lparr>execDispatched := True\<rparr> else o2)"

definition acknowledged :: "owner_command \<Rightarrow> bool \<Rightarrow> request_outcome \<Rightarrow> request_outcome" where
  "acknowledged command hasReadOnlyContext o' =
     (let o1 = (if command = C_beginScope then o'\<lparr>scopeOpen := True\<rparr> else o');
          o2 = (if command = C_endScope \<or> command = C_abortScope then o1\<lparr>scopeOpen := False\<rparr> else o1)
      in if mayApply command \<and> command \<noteq> C_exec \<and> \<not> scopeOpen o2 \<and> \<not> hasReadOnlyContext then o2\<lparr>committedFsWrite := True\<rparr> else o2)"

definition transportFailure :: "request_outcome \<Rightarrow> js_error \<Rightarrow> js_error" where
  "transportFailure o' error = (if mayHaveEffects o' \<and> je_code error = Some ''EWORKER_UNAVAILABLE'' then OutcomeUnknownError else error)"

definition leaseLoss :: "request_outcome \<Rightarrow> js_error option \<Rightarrow> js_error option" where
  "leaseLoss o' error =
     (if \<not> execDispatched o' \<and> \<not> committedFsWrite o' \<and> \<not> creatingAttachDispatched o' then None
      else case error of
             Some e \<Rightarrow> if preservesAmbiguousOutcome (Some e) then Some e else Some OutcomeUnknownError
           | None \<Rightarrow> Some OutcomeUnknownError)"

definition runtimeFailure :: "request_outcome \<Rightarrow> js_error \<Rightarrow> js_error" where
  "runtimeFailure o' error =
     (if je_code error = Some ''ECOHERENCE'' \<and> execDispatched o' then
        \<lparr>je_code = Some ''EEXEC_OUTCOME_UNKNOWN'',
         je_message = ''EEXEC_OUTCOME_UNKNOWN: exec may have committed before coherence recovery failed; inspect sandbox state before proceeding; do not automatically replay the execution''\<rparr>
      else if je_code error = Some ''ERUNTIME_BUSY'' \<and> (execDispatched o' \<or> committedFsWrite o') then
        \<lparr>je_code = Some ''EEXEC_OUTCOME_UNKNOWN'',
         je_message = ''EEXEC_OUTCOME_UNKNOWN: an earlier operation in this request may have applied; do not replay the request''\<rparr>
      else error)"

section \<open>Sending a command\<close>

text \<open>
  What a request to the thread of a slot meets: a thread that is already dead, a message within its byte budget or
  not, a signal already aborted, a post that works or not, and the reply (\<open>None\<close> when the thread dies before it
  answers).
\<close>

record thread_env =
  te_dead :: bool
  te_fits :: bool
  te_aborted :: bool
  te_posts :: bool
  te_reply :: "(nat \<times> (js_error + unit)) option"

definition thread_failure :: "bool \<Rightarrow> js_error" where
  "thread_failure safeToRetry =
     (if safeToRetry then \<lparr>je_code = Some ''EWORKER_UNAVAILABLE'', je_message = ''EWORKER_UNAVAILABLE: read worker stopped; no write was dispatched''\<rparr>
      else OutcomeUnknownError)"

definition thread_request :: "owner_command \<Rightarrow> thread_env \<Rightarrow> request_outcome \<Rightarrow> (js_error + nat \<times> (js_error + unit)) \<times> request_outcome" where
  "thread_request command env o' =
     (if te_dead env then (Inl (thread_failure True), o')
      else if \<not> te_fits env then (Inl \<lparr>je_code = Some ''EFBIG'', je_message = ''EFBIG: worker message exceeds its byte budget''\<rparr>, o')
      else if te_aborted env \<and> command \<noteq> C_endScope then (Inl \<lparr>je_code = Some ''ABORTED'', je_message = ''ABORTED''\<rparr>, o')
      else if \<not> te_posts env then (Inl (thread_failure True), o')
      else
        (case te_reply env of
           None \<Rightarrow> (Inl (thread_failure (\<not> mayApply command)), dispatched command o')
         | Some reply \<Rightarrow> (Inr reply, dispatched command o')))"

definition pool_send :: "nat \<Rightarrow> bool \<Rightarrow> owner_command \<Rightarrow> thread_env \<Rightarrow> request_outcome \<Rightarrow> (js_error + unit) \<times> request_outcome" where
  "pool_send generation readOnly command env o' =
     (case thread_request command env o' of
        (Inl e, o1) \<Rightarrow> (Inl (transportFailure o1 e), o1)
      | (Inr (g, r), o1) \<Rightarrow>
          if g \<noteq> generation then (Inl OutcomeUnknownError, o1)
          else (case r of Inl e \<Rightarrow> (Inl e, o1) | Inr _ \<Rightarrow> (Inr (), acknowledged command readOnly o1)))"

text \<open>\<open>withLease\<close> around the work of a request: \<open>aborted\<close> tells that the lease was lost by then.\<close>

definition with_lease :: "bool \<Rightarrow> js_error + unit \<Rightarrow> request_outcome \<Rightarrow> js_error + unit" where
  "with_lease aborted result o' =
     (case result of
        Inl e \<Rightarrow>
          (case (if aborted \<or> je_code e = Some ''ELOCKLOST'' then leaseLoss o' (Some e) else None) of
             Some f \<Rightarrow> Inl f
           | None \<Rightarrow> Inl (runtimeFailure o' e))
      | Inr _ \<Rightarrow> (case (if aborted then leaseLoss o' None else None) of Some f \<Rightarrow> Inl f | None \<Rightarrow> Inr ()))"

section \<open>Histories of a request\<close>

record sent =
  st_command :: owner_command
  st_readOnly :: bool
  st_generation :: nat
  st_env :: thread_env

fun send_all :: "sent list \<Rightarrow> request_outcome \<Rightarrow> (js_error + unit) list \<times> request_outcome" where
  "send_all [] o' = ([], o')"
| "send_all (s # ss) o' =
     (case pool_send (st_generation s) (st_readOnly s) (st_command s) (st_env s) o' of
        (r, o1) \<Rightarrow> (case send_all ss o1 of (rs, o2) \<Rightarrow> (r # rs, o2)))"

definition posted :: "sent \<Rightarrow> bool" where
  "posted s \<longleftrightarrow> \<not> te_dead (st_env s) \<and> te_fits (st_env s) \<and> (te_aborted (st_env s) \<longrightarrow> st_command s = C_endScope) \<and> te_posts (st_env s)"

lemma send_all_append: "send_all (a @ b) o' = (case send_all a o' of (rs, o1) \<Rightarrow> (case send_all b o1 of (rs', o2) \<Rightarrow> (rs @ rs', o2)))"
  by (induction a arbitrary: o') (auto split: prod.splits)

lemma dispatched_flags:
  "mayHaveEffects (dispatched c o') \<longleftrightarrow> mayHaveEffects o' \<or> mayApply c"
  "execDispatched (dispatched c o') \<longleftrightarrow> execDispatched o' \<or> c = C_exec"
  "creatingAttachDispatched (dispatched c o') \<longleftrightarrow> creatingAttachDispatched o' \<or> c = C_attach False"
  by (cases c; simp add: dispatched_def Let_def)+

lemma acknowledged_flags [simp]:
  "mayHaveEffects (acknowledged c ro o') = mayHaveEffects o'" "execDispatched (acknowledged c ro o') = execDispatched o'"
  "creatingAttachDispatched (acknowledged c ro o') = creatingAttachDispatched o'"
  by (simp_all add: acknowledged_def Let_def)

lemma pool_send_flags:
  assumes "pool_send (st_generation s) (st_readOnly s) (st_command s) (st_env s) o' = (r, o1)"
  shows "mayHaveEffects o1 \<longleftrightarrow> mayHaveEffects o' \<or> posted s \<and> mayApply (st_command s)"
    and "execDispatched o1 \<longleftrightarrow> execDispatched o' \<or> posted s \<and> st_command s = C_exec"
    and "creatingAttachDispatched o1 \<longleftrightarrow> creatingAttachDispatched o' \<or> posted s \<and> st_command s = C_attach False"
  using assms
  by (auto simp: pool_send_def thread_request_def posted_def dispatched_flags split: if_splits sum.splits option.splits prod.splits)

lemma send_all_flags:
  assumes "send_all ss o' = (rs, o1)"
  shows "mayHaveEffects o1 \<longleftrightarrow> mayHaveEffects o' \<or> (\<exists>s \<in> set ss. posted s \<and> mayApply (st_command s))"
    and "execDispatched o1 \<longleftrightarrow> execDispatched o' \<or> (\<exists>s \<in> set ss. posted s \<and> st_command s = C_exec)"
    and "creatingAttachDispatched o1 \<longleftrightarrow> creatingAttachDispatched o' \<or> (\<exists>s \<in> set ss. posted s \<and> st_command s = C_attach False)"
    and "length rs = length ss"
proof -
  have "(mayHaveEffects o1 \<longleftrightarrow> mayHaveEffects o' \<or> (\<exists>s \<in> set ss. posted s \<and> mayApply (st_command s)))
    \<and> (execDispatched o1 \<longleftrightarrow> execDispatched o' \<or> (\<exists>s \<in> set ss. posted s \<and> st_command s = C_exec))
    \<and> (creatingAttachDispatched o1 \<longleftrightarrow> creatingAttachDispatched o' \<or> (\<exists>s \<in> set ss. posted s \<and> st_command s = C_attach False)) \<and> length rs = length ss"
    using assms
  proof (induction ss arbitrary: o' rs)
    case (Cons s ss)
    obtain r o2 rs' where step: "pool_send (st_generation s) (st_readOnly s) (st_command s) (st_env s) o' = (r, o2)" "send_all ss o2 = (rs', o1)" "rs = r # rs'"
      using Cons.prems by (auto split: prod.splits)
    show ?case using Cons.IH [OF step(2)] pool_send_flags [OF step(1)] step(3) by auto
  qed simp
  then show "mayHaveEffects o1 \<longleftrightarrow> mayHaveEffects o' \<or> (\<exists>s \<in> set ss. posted s \<and> mayApply (st_command s))"
    "execDispatched o1 \<longleftrightarrow> execDispatched o' \<or> (\<exists>s \<in> set ss. posted s \<and> st_command s = C_exec)"
    "creatingAttachDispatched o1 \<longleftrightarrow> creatingAttachDispatched o' \<or> (\<exists>s \<in> set ss. posted s \<and> st_command s = C_attach False)" "length rs = length ss"
    by blast+
qed

lemma committed_kept:
  assumes "pool_send g ro c env o' = (r, o1)" and "committedFsWrite o'"
  shows "committedFsWrite o1"
  using assms by (auto simp: pool_send_def thread_request_def dispatched_def acknowledged_def Let_def split: if_splits sum.splits option.splits prod.splits owner_command.splits)

lemma committed_kept_all:
  assumes "send_all ss o' = (rs, o1)" and "committedFsWrite o'"
  shows "committedFsWrite o1"
  using assms
proof (induction ss arbitrary: o' rs)
  case (Cons s ss)
  then show ?case by (auto split: prod.splits dest: committed_kept)
qed simp

lemma scope_closed:
  assumes "pool_send g ro c env o' = (r, o1)" and "\<not> scopeOpen o'" and "c \<noteq> C_beginScope"
  shows "\<not> scopeOpen o1"
  using assms by (auto simp: pool_send_def thread_request_def dispatched_def acknowledged_def Let_def split: if_splits sum.splits option.splits prod.splits owner_command.splits)

lemma write_committed:
  assumes "pool_send g False c env o' = (Inr (), o1)" and "\<not> scopeOpen o'" and "mayApply c" and "c \<noteq> C_exec"
  shows "committedFsWrite o1"
  using assms by (cases c) (auto simp: pool_send_def thread_request_def dispatched_def acknowledged_def Let_def split: if_splits sum.splits option.splits prod.splits)

lemma send_all_committed:
  assumes "send_all ss o' = (rs, o1)" and "\<not> scopeOpen o'" and "\<forall>s \<in> set ss. st_command s \<noteq> C_beginScope"
    and "i < length ss" and "rs ! i = Inr ()" and "mayApply (st_command (ss ! i))" "st_command (ss ! i) \<noteq> C_exec" "\<not> st_readOnly (ss ! i)"
  shows "committedFsWrite o1"
  using assms
proof (induction ss arbitrary: o' rs i)
  case (Cons s ss)
  obtain r o2 rs' where step: "pool_send (st_generation s) (st_readOnly s) (st_command s) (st_env s) o' = (r, o2)" "send_all ss o2 = (rs', o1)" "rs = r # rs'"
    using Cons.prems(1) by (auto split: prod.splits)
  have closed: "\<not> scopeOpen o2" using scope_closed [OF step(1)] Cons.prems(2,3) by simp
  show ?case
  proof (cases i)
    case 0
    then have "committedFsWrite o2" using write_committed step(1,3) Cons.prems by (metis nth_Cons_0)
    then show ?thesis by (rule committed_kept_all [OF step(2)])
  next
    case (Suc j)
    then show ?thesis using Cons.IH [OF step(2) closed, of j] Cons.prems step(3) by simp
  qed
qed simp

section \<open>What a failure tells the client\<close>

lemma unknown_not_retryable [simp]: "\<not> isRetryableError (Some OutcomeUnknownError)"
  by (simp add: isRetryableError_def OutcomeUnknownError_def RETRY_SAFE_ERROR_CODES_def RETRYABLE_SQLSTATES_def)

lemma ambiguous_not_retryable:
  assumes "preservesAmbiguousOutcome (Some e)"
  shows "\<not> isRetryableError (Some e)"
  using assms retryable_unambiguous [of e] by blast

lemma with_lease_retryable:
  assumes "with_lease aborted (Inl e) o' = Inl f" and "isRetryableError (Some f)" and "execDispatched o' \<or> committedFsWrite o'"
  shows "f = e \<and> \<not> aborted \<and> je_code e \<noteq> Some ''ELOCKLOST'' \<and> je_code e \<noteq> Some ''ERUNTIME_BUSY''"
  using assms ambiguous_not_retryable [of e]
  by (auto simp: with_lease_def leaseLoss_def runtimeFailure_def isRetryableError_def RETRY_SAFE_ERROR_CODES_def RETRYABLE_SQLSTATES_def OutcomeUnknownError_def
    split: if_splits)

lemma with_lease_unavailable:
  assumes "with_lease aborted (Inl e) o' = Inl f" and "je_code f = Some ''EWORKER_UNAVAILABLE''"
  shows "f = e"
  using assms by (auto simp: with_lease_def leaseLoss_def runtimeFailure_def OutcomeUnknownError_def split: if_splits)

lemma own_errors_not_retryable [simp]:
  "\<not> isRetryableError (Some \<lparr>je_code = Some ''EFBIG'', je_message = m\<rparr>)" "\<not> isRetryableError (Some \<lparr>je_code = Some ''ABORTED'', je_message = m\<rparr>)"
  by (simp_all add: isRetryableError_def RETRY_SAFE_ERROR_CODES_def RETRYABLE_SQLSTATES_def)

lemma transport_not_retryable:
  assumes "thread_request c env o' = (Inl e, o1)" and "mayHaveEffects o1"
  shows "\<not> isRetryableError (Some (transportFailure o1 e))"
  using assms by (auto simp: thread_request_def thread_failure_def transportFailure_def split: if_splits option.splits)

lemma with_lease_done_unavailable:
  assumes "with_lease aborted r o' = Inl f" and "je_code f = Some ''EWORKER_UNAVAILABLE''"
  shows "r = Inl f"
proof (cases r)
  case (Inl e)
  then show ?thesis using assms with_lease_unavailable by blast
next
  case (Inr u)
  then have "f = OutcomeUnknownError" using assms(1) by (auto simp: with_lease_def leaseLoss_def split: if_splits)
  then show ?thesis using assms(2) by (simp add: OutcomeUnknownError_def)
qed

lemma pool_send_retryable:
  assumes "pool_send g ro c env o' = (Inl e, o1)" and "mayHaveEffects o1" and "isRetryableError (Some e)"
  shows "te_reply env = Some (g, Inl e)"
proof (cases "thread_request c env o'")
  case (Pair x o2)
  show ?thesis
  proof (cases x)
    case (Inl e')
    then show ?thesis using assms Pair transport_not_retryable [of c env o' e' o2] by (auto simp: pool_send_def)
  next
    case (Inr reply)
    obtain g' r where reply: "reply = (g', r)" by (cases reply)
    have env: "te_reply env = Some (g', r)" using Pair Inr reply by (auto simp: thread_request_def split: if_splits option.splits)
    then show ?thesis using assms Pair Inr reply by (auto simp: pool_send_def split: if_splits sum.splits)
  qed
qed

text \<open>
  What a request has behind it: a script that was posted, or a write that was acknowledged outside any script scope.
\<close>

definition script_behind :: "sent list \<Rightarrow> bool" where
  "script_behind ss \<longleftrightarrow> (\<exists>x \<in> set ss. posted x \<and> st_command x = C_exec)"

definition write_behind :: "sent list \<Rightarrow> (js_error + unit) list \<Rightarrow> bool" where
  "write_behind ss rs \<longleftrightarrow> (\<forall>x \<in> set ss. st_command x \<noteq> C_beginScope)
     \<and> (\<exists>i < length ss. rs ! i = Inr () \<and> mayApply (st_command (ss ! i)) \<and> st_command (ss ! i) \<noteq> C_exec \<and> \<not> st_readOnly (ss ! i))"

lemma behind_flags:
  assumes "send_all ss new_outcome = (rs, o')" and "script_behind ss \<or> write_behind ss rs"
  shows "execDispatched o' \<or> committedFsWrite o'"
proof (cases "script_behind ss")
  case True
  then show ?thesis using send_all_flags(2) [OF assms(1)] by (auto simp: script_behind_def)
next
  case False
  then show ?thesis using assms send_all_committed [OF assms(1)] by (auto simp: write_behind_def new_outcome_def)
qed

lemma acknowledged_posted:
  assumes "send_all ss o' = (rs, o1)" and "i < length ss" and "rs ! i = Inr ()"
  shows "posted (ss ! i)"
  using assms
proof (induction ss arbitrary: o' rs i)
  case (Cons s ss)
  have "pool_send g ro c env o2 = (Inr (), o3) \<Longrightarrow> \<not> te_dead env \<and> te_fits env \<and> (te_aborted env \<longrightarrow> c = C_endScope) \<and> te_posts env" for g ro c env o2 o3
    by (auto simp: pool_send_def thread_request_def split: if_splits)
  with Cons show ?case by (cases i) (auto simp: posted_def split: prod.splits)
qed simp

lemma behind_effects:
  assumes "send_all ss new_outcome = (rs, o')" and "script_behind ss \<or> write_behind ss rs"
  shows "\<exists>x \<in> set ss. posted x \<and> mayApply (st_command x)"
proof (cases "script_behind ss")
  case True
  then obtain x where "x \<in> set ss" "posted x" "st_command x = C_exec" by (auto simp: script_behind_def)
  then show ?thesis by (intro bexI [of _ x]) simp_all
next
  case False
  then obtain i where "i < length ss" "rs ! i = Inr ()" "mayApply (st_command (ss ! i))" using assms(2) by (auto simp: write_behind_def)
  then show ?thesis using acknowledged_posted [OF assms(1)] by (intro bexI [of _ "ss ! i"]) simp_all
qed

lemma send_all_last:
  assumes "send_all ss o' = (rs, o1)" and "ss \<noteq> []"
  obtains o2 where "pool_send (st_generation (last ss)) (st_readOnly (last ss)) (st_command (last ss)) (st_env (last ss)) o2 = (last rs, o1)" and "rs \<noteq> []"
proof -
  have "send_all (butlast ss @ [last ss]) o' = (rs, o1)" using assms by simp
  then show ?thesis by (auto simp: send_all_append split: prod.splits intro: that)
qed

text \<open>
  A client is told to repeat a request only when that is safe. Take any request that sends commands to its worker thread,
  each of which may find the thread dead, its message over the budget, its signal aborted or the post failing, may see
  the thread die before the answer, or get an answer of another generation; \<open>withLease\<close> turns the result of the last send
  into what the client sees, whether or not the lease was lost meanwhile. Once a script, or a write acknowledged outside
  a script scope, is behind the request, a failure is retryable only when it is the worker's own answer to the last
  command, the lease was not lost, and it is neither a lost lease nor a busy runtime. Once any command that may have
  effects was posted, a stopped worker with nothing dispatched is reported only when the worker itself answered so. And
  a request with effects behind it succeeds only if its lease was still held at the end.
\<close>

theorem worker_error_honest:
  assumes sends: "send_all ss new_outcome = (rs, o')" "ss \<noteq> []" and lease: "with_lease aborted (last rs) o' = out"
  shows "((script_behind ss \<or> write_behind ss rs) \<and> out = Inl f \<and> isRetryableError (Some f) \<longrightarrow>
      te_reply (st_env (last ss)) = Some (st_generation (last ss), Inl f) \<and> \<not> aborted
      \<and> je_code f \<noteq> Some ''ELOCKLOST'' \<and> je_code f \<noteq> Some ''ERUNTIME_BUSY'')
    \<and> ((\<exists>x \<in> set ss. posted x \<and> mayApply (st_command x)) \<and> out = Inl f \<and> je_code f = Some ''EWORKER_UNAVAILABLE'' \<longrightarrow>
      te_reply (st_env (last ss)) = Some (st_generation (last ss), Inl f))
    \<and> ((script_behind ss \<or> write_behind ss rs) \<and> out = Inr () \<longrightarrow> \<not> aborted)"
proof (intro conjI)
  obtain o2 where final: "pool_send (st_generation (last ss)) (st_readOnly (last ss)) (st_command (last ss)) (st_env (last ss)) o2 = (last rs, o')"
    using send_all_last [OF sends] by blast
  have unavailable: "isRetryableError (Some f)" if "je_code f = Some ''EWORKER_UNAVAILABLE''"
    using that by (simp add: isRetryableError_def RETRY_SAFE_ERROR_CODES_def)
  have effects: "mayHaveEffects o'" if "\<exists>x \<in> set ss. posted x \<and> mayApply (st_command x)"
    using that send_all_flags(1) [OF sends(1)] by blast
  have success: "out = Inr () \<Longrightarrow> last rs = Inr () \<and> (aborted \<longrightarrow> leaseLoss o' None = None)"
    using lease by (auto simp: with_lease_def split: sum.splits option.splits if_splits)
  show "(script_behind ss \<or> write_behind ss rs) \<and> out = Inr () \<longrightarrow> \<not> aborted"
    using success behind_flags [OF sends(1)] by (auto simp: leaseLoss_def)
  show "(\<exists>x \<in> set ss. posted x \<and> mayApply (st_command x)) \<and> out = Inl f \<and> je_code f = Some ''EWORKER_UNAVAILABLE'' \<longrightarrow>
      te_reply (st_env (last ss)) = Some (st_generation (last ss), Inl f)"
  proof (intro impI, elim conjE)
    assume f: "out = Inl f" "je_code f = Some ''EWORKER_UNAVAILABLE''" and x: "\<exists>x \<in> set ss. posted x \<and> mayApply (st_command x)"
    have "last rs = Inl f" using with_lease_done_unavailable lease f by blast
    then show "te_reply (st_env (last ss)) = Some (st_generation (last ss), Inl f)"
      using pool_send_retryable final effects [OF x] unavailable [OF f(2)] by metis
  qed
  show "(script_behind ss \<or> write_behind ss rs) \<and> out = Inl f \<and> isRetryableError (Some f) \<longrightarrow>
      te_reply (st_env (last ss)) = Some (st_generation (last ss), Inl f) \<and> \<not> aborted
      \<and> je_code f \<noteq> Some ''ELOCKLOST'' \<and> je_code f \<noteq> Some ''ERUNTIME_BUSY''"
  proof (intro impI, elim conjE)
    assume behind: "script_behind ss \<or> write_behind ss rs" and f: "out = Inl f" "isRetryableError (Some f)"
    obtain e where e: "last rs = Inl e"
      using lease f behind_flags [OF sends(1) behind] by (cases "last rs") (auto simp: with_lease_def leaseLoss_def split: if_splits)
    have same: "f = e \<and> \<not> aborted \<and> je_code e \<noteq> Some ''ELOCKLOST'' \<and> je_code e \<noteq> Some ''ERUNTIME_BUSY''"
      using with_lease_retryable [of aborted e o' f] lease f e behind_flags [OF sends(1) behind] by simp
    moreover have "te_reply (st_env (last ss)) = Some (st_generation (last ss), Inl f)"
      using pool_send_retryable final e same f(2) effects behind_effects [OF sends(1) behind] by metis
    ultimately show "te_reply (st_env (last ss)) = Some (st_generation (last ss), Inl f) \<and> \<not> aborted
      \<and> je_code f \<noteq> Some ''ELOCKLOST'' \<and> je_code f \<noteq> Some ''ERUNTIME_BUSY''" by simp
  qed
qed

definition demo_reply :: "owner_command \<Rightarrow> js_error + unit \<Rightarrow> sent" where
  "demo_reply c r = \<lparr>st_command = c, st_readOnly = False, st_generation = 1,
     st_env = \<lparr>te_dead = False, te_fits = True, te_aborted = False, te_posts = True, te_reply = Some (1, r)\<rparr>\<rparr>"

definition demo_timeout :: js_error where
  "demo_timeout = \<lparr>je_code = Some ''ELOCKTIMEOUT'', je_message = ''ELOCKTIMEOUT: lock wait timed out''\<rparr>"

text \<open>A script whose worker answers that it could not take its lock in time: the answer is the worker's, and retryable.\<close>

theorem worker_error_honest_witness:
  "with_lease False (Inl demo_timeout) (snd (send_all [demo_reply C_exec (Inl demo_timeout)] new_outcome)) = Inl demo_timeout
     \<and> script_behind [demo_reply C_exec (Inl demo_timeout)] \<and> isRetryableError (Some demo_timeout)
     \<and> je_code demo_timeout \<noteq> Some ''ELOCKLOST''"
proof -
  let ?ss = "[demo_reply C_exec (Inl demo_timeout)]"
  obtain o' where o': "send_all ?ss new_outcome = ([Inl demo_timeout], o')"
    by (simp add: demo_reply_def pool_send_def thread_request_def)
  have lease: "with_lease False (last [Inl demo_timeout]) o' = Inl demo_timeout"
    by (simp add: with_lease_def runtimeFailure_def demo_timeout_def)
  have behind: "script_behind ?ss" by (simp add: script_behind_def posted_def demo_reply_def)
  have retry: "isRetryableError (Some demo_timeout)"
    by (simp add: isRetryableError_def demo_timeout_def RETRY_SAFE_ERROR_CODES_def)
  show ?thesis using worker_error_honest [OF o' _ lease, of demo_timeout] lease behind retry o' by simp
qed

end
