(* ===== verification/WorkerPool.thy ===== *)
theory WorkerPool
  imports FairAdmission DistLock
begin

text \<open>
  \<open>WorkerOwnerPool\<close> (\<open>src/api/worker-owner/pool.ts\<close>): the options of the pool, its worker slots, the reservation of a slot
  for a key, the attachment of a sandbox to a worker, the retirement of idle workers under memory pressure, and the
  composition with the fair admission, which calls \<open>reserveSlot\<close> for every request it admits. The messages
  to a worker are in \<open>WorkerProtocol\<close>.
\<close>

section \<open>Options\<close>

text \<open>
  \<open>amount raw\<close> is the value of \<open>Number(raw)\<close>, or \<open>None\<close> when it is not finite.
\<close>

definition safe_integer :: "rat \<Rightarrow> bool" where
  "safe_integer q \<longleftrightarrow> of_int \<lfloor>q\<rfloor> = q \<and> \<bar>q\<bar> \<le> 2 ^ 53 - 1"

definition positiveIntEnv :: "(string \<Rightarrow> rat option) \<Rightarrow> string option \<Rightarrow> int \<Rightarrow> int" where
  "positiveIntEnv amount value fallback =
     (case value of
        None \<Rightarrow> fallback
      | Some raw \<Rightarrow> if raw = [] then fallback else case amount raw of Some q \<Rightarrow> if q > 0 then \<lfloor>q\<rfloor> else fallback | None \<Rightarrow> fallback)"

definition configuredInteger :: "(string \<Rightarrow> string option) \<Rightarrow> (string \<Rightarrow> rat option) \<Rightarrow> string \<Rightarrow> int \<Rightarrow> string + int" where
  "configuredInteger env amount name fallback =
     (case env name of
        None \<Rightarrow> Inr fallback
      | Some raw \<Rightarrow>
          (case amount raw of
             None \<Rightarrow> Inl (name @ '' must be a positive integer'')
           | Some q \<Rightarrow> if \<not> safe_integer q \<or> q \<le> 0 then Inl (name @ '' must be a positive integer'') else Inr \<lfloor>q\<rfloor>))"

definition MAX_TIMER_MS :: int where "MAX_TIMER_MS = 2147483647"

definition assertTimerMs :: "string \<Rightarrow> int \<Rightarrow> string + int" where
  "assertTimerMs name v = (if v > MAX_TIMER_MS then Inl (name @ '' must be at most 2147483647'') else Inr v)"

definition configuredBoolean :: "(string \<Rightarrow> string option) \<Rightarrow> string \<Rightarrow> bool \<Rightarrow> string + bool" where
  "configuredBoolean env name fallback =
     (case env name of
        None \<Rightarrow> Inr fallback
      | Some raw \<Rightarrow> if raw = ''true'' then Inr True else if raw = ''false'' then Inr False else Inl (name @ '' must be true or false''))"

abbreviation MiB :: int where "MiB \<equiv> 1024 * 1024"

definition loadExecOutputBytes :: "(string \<Rightarrow> string option) \<Rightarrow> (string \<Rightarrow> rat option) \<Rightarrow> string + int" where
  "loadExecOutputBytes env amount = configuredInteger env amount ''SQL_FS_WORKER_OUTPUT_BYTES'' (64 * MiB)"

record shell_limits =
  sl_maxSourceBytes :: int
  sl_maxStringLength :: int
  sl_maxInputBytes :: int
  sl_maxOutputSize :: int
  sl_maxLiveBytes :: int
  sl_maxWorkerMessageBytes :: int
  sl_maxPythonBridgeBytes :: int
  sl_maxExecutionTimeMs :: int

record pool_options =
  po_count :: int
  po_maxActivePerTenant :: int
  po_heapMb :: int
  po_maxQueued :: int
  po_maxQueuedPerTenant :: int
  po_maxQueuedBytes :: int
  po_maxQueuedBytesPerTenant :: int
  po_waitMs :: int
  po_cancelGraceMs :: int
  po_startupMs :: int
  po_maxRssBytes :: int
  po_maxExternalBytes :: int
  po_defenseInDepth :: bool
  po_defenseAuditMode :: bool
  po_executionLimits :: shell_limits
  po_execFileLimitBytes :: "int option"
  po_buffer :: "bool \<times> int \<times> int"
  po_pgPoolMax :: int
  po_maxPgConnections :: int

definition assert_leaves_room :: "string \<Rightarrow> string \<Rightarrow> int \<Rightarrow> int \<Rightarrow> string + unit" where
  "assert_leaves_room name must whole limit =
     (if limit > 2 ^ 53 - 1 \<or> limit \<le> 0 then Inl (name @ '' must be a positive integer'')
      else if limit > max 1 (whole - 1) then Inl (name @ must)
      else Inr ())"

definition assertActiveTenantLimit :: "int \<Rightarrow> int \<Rightarrow> string + unit" where
  "assertActiveTenantLimit = assert_leaves_room ''SQL_FS_WORKER_ACTIVE_TENANT_MAX''
     '' must leave a worker for other tenants when count is at least 2''"

definition assertQueuedTenantByteLimit :: "int \<Rightarrow> int \<Rightarrow> string + unit" where
  "assertQueuedTenantByteLimit = assert_leaves_room ''SQL_FS_WORKER_QUEUE_TENANT_BYTES''
     '' must leave queue bytes for other tenants when total is at least 2''"

definition assertQueuedTenantLimit :: "int \<Rightarrow> int \<Rightarrow> string + unit" where
  "assertQueuedTenantLimit = assert_leaves_room ''SQL_FS_WORKER_QUEUE_TENANT_MAX''
     '' must leave queue capacity for other tenants when total is at least 2''"

text \<open>
  \<open>host\<close> is what \<open>workerHostResources\<close> reads: the number of CPUs and the memory limit in bytes.
\<close>

definition check_pool_options :: "rat \<times> int \<Rightarrow> pool_options \<Rightarrow> string + pool_options" where
  "check_pool_options host opts =
     sum_then (assertActiveTenantLimit (po_count opts) (po_maxActivePerTenant opts)) (\<lambda>_.
     sum_then (assertQueuedTenantLimit (po_maxQueued opts) (po_maxQueuedPerTenant opts)) (\<lambda>_.
     sum_then (assertQueuedTenantByteLimit (po_maxQueuedBytes opts) (po_maxQueuedBytesPerTenant opts)) (\<lambda>_.
     if po_count opts * po_pgPoolMax opts > po_maxPgConnections opts then
       Inl ''Worker count times PG pool size exceeds SQL_FS_WORKER_MAX_PG_CONNECTIONS''
     else if po_count opts * po_heapMb opts * MiB \<ge> po_maxRssBytes opts then
       Inl ''Worker heap limits must leave RSS headroom for the parent and external allocations''
     else if po_execFileLimitBytes opts = None then
       (if \<not> fst host \<ge> 2 \<or> \<not> snd host \<ge> 3 * 1024 ^ 3 then
          Inl ''Worker large-file execution requires at least 2 CPUs and a 3 GiB memory limit''
        else if po_maxRssBytes opts < 2304 * MiB \<or> po_maxRssBytes opts \<ge> snd host \<or> po_maxExternalBytes opts < 1024 * MiB then
          Inl ''Worker large-file memory thresholds require at least 2.25 GiB RSS and 1 GiB external headroom''
        else Inr opts)
     else Inr opts)))"

definition loadWorkerPoolOptions :: "(string \<Rightarrow> string option) \<Rightarrow> (string \<Rightarrow> rat option) \<Rightarrow> rat \<times> int \<Rightarrow> string + pool_options" where
  "loadWorkerPoolOptions env amount host =
     (let int_of = configuredInteger env amount in
     sum_then (configuredBoolean env ''SQL_FS_WORKER_LARGE_FILES'' False) (\<lambda>largeFiles.
     sum_then (int_of ''SQL_FS_WORKER_COUNT'' 2) (\<lambda>count.
     sum_then (int_of ''SQL_FS_WORKER_QUEUE_MAX'' 32) (\<lambda>maxQueued.
     sum_then (int_of ''SQL_FS_WORKER_QUEUE_BYTES'' (64 * MiB)) (\<lambda>maxQueuedBytes.
     sum_then (loadExecOutputBytes env amount) (\<lambda>maxOutputSize.
     sum_then (int_of ''SQL_FS_WORKER_ACTIVE_TENANT_MAX'' (max 1 (count div 2))) (\<lambda>activeTenant.
     sum_then (int_of ''SQL_FS_WORKER_HEAP_MB'' 512) (\<lambda>heapMb.
     sum_then (int_of ''SQL_FS_WORKER_QUEUE_TENANT_MAX'' (min 8 (max 1 (maxQueued div 2)))) (\<lambda>queueTenant.
     sum_then (int_of ''SQL_FS_WORKER_QUEUE_TENANT_BYTES'' (max 1 (maxQueuedBytes div 2))) (\<lambda>queueTenantBytes.
     sum_then (sum_then (int_of ''SQL_FS_WORKER_QUEUE_WAIT_MS'' 250) (assertTimerMs ''SQL_FS_WORKER_QUEUE_WAIT_MS'')) (\<lambda>waitMs.
     sum_then (int_of ''SQL_FS_WORKER_CANCEL_GRACE_MS'' 500) (\<lambda>cancelGraceMs.
     sum_then (int_of ''SQL_FS_WORKER_STARTUP_MS'' 10000) (\<lambda>startupMs.
     sum_then (int_of ''SQL_FS_WORKER_MAX_RSS_BYTES'' (1536 * 1024 * 1024)) (\<lambda>maxRss.
     sum_then (int_of ''SQL_FS_WORKER_MAX_EXTERNAL_BYTES'' (512 * 1024 * 1024)) (\<lambda>maxExternal.
     sum_then (int_of ''SQL_FS_WORKER_PG_POOL_MAX'' 2) (\<lambda>pgPoolMax.
     sum_then (int_of ''SQL_FS_WORKER_MAX_PG_CONNECTIONS'' 4) (\<lambda>maxPg.
     sum_then (int_of ''SQL_FS_WORKER_SOURCE_BYTES'' MiB) (\<lambda>sourceBytes.
     sum_then (int_of ''SQL_FS_WORKER_STRING_CHARS'' (64 * MiB)) (\<lambda>stringChars.
     sum_then (int_of ''SQL_FS_WORKER_INPUT_BYTES'' (128 * MiB)) (\<lambda>inputBytes.
     sum_then (int_of ''SQL_FS_WORKER_LIVE_BYTES'' (128 * MiB)) (\<lambda>liveBytes.
     sum_then (int_of ''SQL_FS_WORKER_MESSAGE_BYTES'' (max (65 * MiB) (maxOutputSize + MiB))) (\<lambda>messageBytes.
     sum_then (int_of ''SQL_FS_WORKER_PYTHON_BRIDGE_BYTES'' (64 * MiB)) (\<lambda>bridgeBytes.
     sum_then (int_of ''SQL_FS_WORKER_EXECUTION_MS'' 120000) (\<lambda>executionMs.
     sum_then (int_of ''SQL_FS_WORKER_SCRIPT_BUFFER_OPS'' 50000) (\<lambda>bufferOps.
     sum_then (int_of ''SQL_FS_WORKER_SCRIPT_BUFFER_BYTES'' (32 * MiB)) (\<lambda>bufferBytes.
     check_pool_options host
       \<lparr>po_count = count, po_maxActivePerTenant = activeTenant, po_heapMb = heapMb, po_maxQueued = maxQueued,
        po_maxQueuedPerTenant = queueTenant, po_maxQueuedBytes = maxQueuedBytes, po_maxQueuedBytesPerTenant = queueTenantBytes,
        po_waitMs = waitMs, po_cancelGraceMs = cancelGraceMs, po_startupMs = startupMs, po_maxRssBytes = maxRss, po_maxExternalBytes = maxExternal,
        po_defenseInDepth = (env ''JUST_BASH_DEFENSE_IN_DEPTH'' = Some ''true''),
        po_defenseAuditMode = (env ''JUST_BASH_DEFENSE_AUDIT_MODE'' \<noteq> Some ''false''),
        po_executionLimits = \<lparr>sl_maxSourceBytes = sourceBytes, sl_maxStringLength = stringChars, sl_maxInputBytes = inputBytes,
          sl_maxOutputSize = maxOutputSize, sl_maxLiveBytes = liveBytes, sl_maxWorkerMessageBytes = messageBytes,
          sl_maxPythonBridgeBytes = bridgeBytes, sl_maxExecutionTimeMs = executionMs\<rparr>,
        po_execFileLimitBytes = (if largeFiles \<and> env ''MAX_EXEC_FILE_BYTES'' = None then None
          else Some (positiveIntEnv amount (env ''MAX_EXEC_FILE_BYTES'') (8 * MiB))),
        po_buffer = (env ''SCRIPT_TX_BUFFERED'' \<noteq> Some ''false'', bufferOps, bufferBytes),
        po_pgPoolMax = pgPoolMax, po_maxPgConnections = maxPg\<rparr>))))))))))))))))))))))))))"

lemma configuredIntegerD: "configuredInteger env amount name fallback = Inr v \<Longrightarrow> 0 < fallback \<Longrightarrow> 0 < v"
  by (auto simp: configuredInteger_def split: option.splits if_splits simp: safe_integer_def)

lemma sum_thenE: "sum_then x f = Inr y \<Longrightarrow> (\<And>v. x = Inr v \<Longrightarrow> f v = Inr y \<Longrightarrow> P) \<Longrightarrow> P"
  by (cases x) (auto simp: sum_then_def)

lemma default_pool_options: "\<exists>opts. loadWorkerPoolOptions (\<lambda>_. None) amount host = Inr opts \<and> po_count opts = 2 \<and> po_maxActivePerTenant opts = 1"
  by (simp add: loadWorkerPoolOptions_def sum_then_def configuredInteger_def configuredBoolean_def loadExecOutputBytes_def assertTimerMs_def
      MAX_TIMER_MS_def check_pool_options_def assertActiveTenantLimit_def assertQueuedTenantLimit_def assertQueuedTenantByteLimit_def assert_leaves_room_def Let_def)

lemma check_pool_optionsD:
  assumes "check_pool_options host opts = Inr opts'"
  shows "opts' = opts \<and> 0 < po_maxActivePerTenant opts \<and> po_maxActivePerTenant opts \<le> max 1 (po_count opts - 1)
    \<and> po_maxQueuedPerTenant opts \<le> max 1 (po_maxQueued opts - 1) \<and> po_maxQueuedBytesPerTenant opts \<le> max 1 (po_maxQueuedBytes opts - 1)
    \<and> po_count opts * po_pgPoolMax opts \<le> po_maxPgConnections opts \<and> po_count opts * po_heapMb opts * MiB < po_maxRssBytes opts"
  using assms
  by (auto simp: check_pool_options_def sum_then_def assertActiveTenantLimit_def assertQueuedTenantLimit_def assertQueuedTenantByteLimit_def assert_leaves_room_def
      split: if_splits)

text \<open>Whatever the environment says, options that load leave a worker and queue room for other tenants.\<close>

lemma loaded_options_leave_room:
  assumes "loadWorkerPoolOptions env amount host = Inr opts"
  shows "0 < po_count opts" and "po_maxActivePerTenant opts \<le> max 1 (po_count opts - 1)"
    and "po_count opts * po_heapMb opts * MiB < po_maxRssBytes opts"
proof -
  obtain count o' where count: "configuredInteger env amount ''SQL_FS_WORKER_COUNT'' 2 = Inr count"
    and chk: "check_pool_options host o' = Inr opts" and o': "po_count o' = count"
    using assms unfolding loadWorkerPoolOptions_def Let_def
    by (elim sum_thenE) (rule that, assumption, assumption, simp)
  show "0 < po_count opts" "po_maxActivePerTenant opts \<le> max 1 (po_count opts - 1)" "po_count opts * po_heapMb opts * MiB < po_maxRssBytes opts"
    using configuredIntegerD [OF count] check_pool_optionsD [OF chk] o' by auto
qed

section \<open>Slots\<close>

datatype thread_state = ThreadStarting | ThreadReady | ThreadDead

text \<open>A worker thread: its identity and its state.\<close>

type_synonym owner_thread = "nat \<times> thread_state"

text \<open>
  How far the one attachment of a slot has come: its key, and whether it waits for the thread, for the answer to
  \<open>disconnect\<close> or for the answer to \<open>attach\<close>.
\<close>

datatype attach_phase = AwaitThread string | AwaitDisconnect string | AwaitAttach string

record worker_slot =
  ws_thread :: "owner_thread option"
  ws_residentKey :: "string option"
  ws_activeKey :: "string option"
  ws_readers :: int
  ws_shared :: bool
  ws_generation :: nat
  ws_attach :: "attach_phase option"
  ws_metadata :: bool
  ws_external :: int
  ws_retiring :: bool

text \<open>
  The pool: its slots, the slot reserved for a key, the counters, the slots the memory recovery under way still
  has to retire (\<open>None\<close>: none under way), and the resident set size that \<open>process.memoryUsage\<close> reports.
\<close>

record worker_pool =
  wp_slots :: "worker_slot list"
  wp_reservations :: "(string, nat) table"
  wp_closing :: bool
  wp_restarts :: int
  wp_unknownOutcomes :: int
  wp_threads :: nat
  wp_pressureRecovery :: "nat list option"
  wp_rss :: int

definition new_slot :: worker_slot where
  "new_slot = \<lparr>ws_thread = None, ws_residentKey = None, ws_activeKey = None, ws_readers = 0, ws_shared = False, ws_generation = 0,
     ws_attach = None, ws_metadata = False, ws_external = 0, ws_retiring = False\<rparr>"

definition new_pool :: "nat \<Rightarrow> worker_pool" where
  "new_pool n = \<lparr>wp_slots = replicate n new_slot, wp_reservations = [], wp_closing = False, wp_restarts = 0, wp_unknownOutcomes = 0, wp_threads = 0, wp_pressureRecovery = None, wp_rss = 0\<rparr>"

definition on_slot :: "nat \<Rightarrow> (worker_slot \<Rightarrow> worker_slot) \<Rightarrow> worker_pool \<Rightarrow> worker_pool" where
  "on_slot i f p = p\<lparr>wp_slots := (wp_slots p)[i := f (wp_slots p ! i)]\<rparr>"

definition externalBytes :: "worker_pool \<Rightarrow> int" where
  "externalBytes p = sum_list (map ws_external (wp_slots p))"

definition underMemoryPressure :: "pool_options \<Rightarrow> worker_pool \<Rightarrow> bool" where
  "underMemoryPressure opts p \<longleftrightarrow> wp_rss p \<ge> po_maxRssBytes opts \<or> externalBytes p \<ge> po_maxExternalBytes opts"

text \<open>\<open>terminate\<close>, and any other end of a thread: the slot keeps the dead thread.\<close>

definition stop_thread :: "worker_slot \<Rightarrow> worker_slot" where
  "stop_thread s = s\<lparr>ws_thread := map_option (\<lambda>(n, _). (n, ThreadDead)) (ws_thread s)\<rparr>"

definition forget_resident :: "worker_slot \<Rightarrow> worker_slot" where
  "forget_resident s = s\<lparr>ws_residentKey := None, ws_metadata := False\<rparr>"

definition idle_slots :: "worker_pool \<Rightarrow> nat list" where
  "idle_slots p = filter (\<lambda>i. ws_readers (wp_slots p ! i) = 0 \<and> ws_thread (wp_slots p ! i) \<noteq> None \<and> \<not> ws_retiring (wp_slots p ! i)) [0..<length (wp_slots p)]"

text \<open>\<open>releaseIdleMemory\<close> up to its first await: the idle slots are marked and their threads are told to stop.\<close>

definition releaseIdleMemory :: "pool_options \<Rightarrow> worker_pool \<Rightarrow> worker_pool" where
  "releaseIdleMemory opts p =
     (if wp_pressureRecovery p \<noteq> None \<or> \<not> underMemoryPressure opts p then p
      else
        let idle = idle_slots p
        in fold (\<lambda>i. on_slot i (\<lambda>s. (stop_thread s)\<lparr>ws_retiring := True\<rparr>)) idle p\<lparr>wp_pressureRecovery := Some idle\<rparr>)"

text \<open>The thread of a retiring slot has ended; then, once all of them have, the end of the recovery.\<close>

definition retire_slot :: "nat \<Rightarrow> worker_pool \<Rightarrow> worker_pool" where
  "retire_slot i p =
     (case wp_pressureRecovery p of
        Some rest \<Rightarrow>
          if i \<in> set rest then
            (on_slot i (\<lambda>s. (forget_resident s)\<lparr>ws_thread := None, ws_external := 0, ws_retiring := False\<rparr>) p)
              \<lparr>wp_pressureRecovery := Some (remove1 i rest), wp_restarts := wp_restarts p + 1\<rparr>
          else p
      | None \<Rightarrow> p)"

definition pressure_done :: "worker_pool \<Rightarrow> worker_pool" where
  "pressure_done p = (if wp_pressureRecovery p = Some [] then p\<lparr>wp_pressureRecovery := None\<rparr> else p)"

section \<open>Reservations\<close>

definition first_slot :: "(worker_slot \<Rightarrow> bool) \<Rightarrow> worker_pool \<Rightarrow> nat option" where
  "first_slot P p = find (\<lambda>i. P (wp_slots p ! i)) [0..<length (wp_slots p)]"

definition pick_slot :: "string \<Rightarrow> worker_pool \<Rightarrow> nat option" where
  "pick_slot key p =
     (case first_slot (\<lambda>s. ws_readers s = 0 \<and> \<not> ws_retiring s \<and> ws_residentKey s = Some key) p of
        Some i \<Rightarrow> Some i
      | None \<Rightarrow> first_slot (\<lambda>s. ws_readers s = 0 \<and> \<not> ws_retiring s) p)"

definition reserveSlot :: "pool_options \<Rightarrow> string \<Rightarrow> bool \<Rightarrow> worker_pool \<Rightarrow> worker_pool option" where
  "reserveSlot opts key shared p =
     (if underMemoryPressure opts p then None
      else
        (case map_of (wp_reservations p) key of
           Some i \<Rightarrow>
             if \<not> shared \<or> \<not> ws_shared (wp_slots p ! i) \<or> ws_readers (wp_slots p ! i) \<ge> 8 then None
             else Some (on_slot i (\<lambda>s. s\<lparr>ws_readers := ws_readers s + 1\<rparr>) p)
         | None \<Rightarrow>
             (case pick_slot key p of
                None \<Rightarrow> None
              | Some i \<Rightarrow>
                  Some ((on_slot i (\<lambda>s. s\<lparr>ws_shared := shared, ws_activeKey := Some key, ws_readers := ws_readers s + 1\<rparr>) p)
                    \<lparr>wp_reservations := AList.update key i (wp_reservations p)\<rparr>))))"

text \<open>
  The release closure of a reservation. It holds on to the slot it reserved, which is the slot of its key as
  long as the reservation lasts.
\<close>

definition release_reservation :: "pool_options \<Rightarrow> string \<Rightarrow> worker_pool \<Rightarrow> worker_pool" where
  "release_reservation opts key p =
     (case map_of (wp_reservations p) key of
        None \<Rightarrow> p
      | Some i \<Rightarrow>
          let p1 = on_slot i (\<lambda>s. s\<lparr>ws_readers := ws_readers s - 1\<rparr>) p
          in if ws_readers (wp_slots p1 ! i) \<noteq> 0 then p1
             else releaseIdleMemory opts ((on_slot i (\<lambda>s. s\<lparr>ws_activeKey := None\<rparr>) p1)\<lparr>wp_reservations := AList.delete key (wp_reservations p)\<rparr>))"

definition pool_reserver :: "pool_options \<Rightarrow> worker_pool reserver" where
  "pool_reserver opts = \<lparr>rv_try = reserveSlot opts, rv_release = (\<lambda>key shared. release_reservation opts key)\<rparr>"

section \<open>Attaching a sandbox\<close>

text \<open>
  \<open>attach\<close> for a caller that holds a reservation of \<open>key\<close>: an attachment under way is shared; otherwise a dead thread is
  replaced and a missing one started, and the attachment waits for the thread to be ready.
\<close>

definition attach_start :: "string \<Rightarrow> worker_pool \<Rightarrow> worker_pool" where
  "attach_start key p =
     (case map_of (wp_reservations p) key of
        None \<Rightarrow> p
      | Some i \<Rightarrow>
          if ws_attach (wp_slots p ! i) \<noteq> None then p
          else
            let dead = (case ws_thread (wp_slots p ! i) of Some (_, ThreadDead) \<Rightarrow> True | _ \<Rightarrow> False);
                p1 = (if dead then (on_slot i (\<lambda>s. (forget_resident s)\<lparr>ws_thread := None, ws_external := 0\<rparr>) p)\<lparr>wp_restarts := wp_restarts p + 1\<rparr> else p)
            in if wp_closing p1 then p1
               else
                 (on_slot i (\<lambda>s. s\<lparr>ws_thread := (case ws_thread s of None \<Rightarrow> Some (wp_threads p1, ThreadStarting) | Some t \<Rightarrow> Some t),
                      ws_attach := Some (AwaitThread key)\<rparr>) p1)\<lparr>wp_threads := wp_threads p1 + 1\<rparr>)"

text \<open>The attachment goes on once the thread is ready, and ends when the thread has died.\<close>

definition attach_continue :: "nat \<Rightarrow> worker_pool \<Rightarrow> worker_pool" where
  "attach_continue i p =
     (let s = wp_slots p ! i
      in case ws_attach s of
           Some (AwaitThread key) \<Rightarrow>
             (case ws_thread s of
                Some (_, ThreadStarting) \<Rightarrow> p
              | Some (_, ThreadReady) \<Rightarrow>
                  if ws_residentKey s = Some key then on_slot i (\<lambda>s. s\<lparr>ws_attach := None\<rparr>) p
                  else if ws_residentKey s \<noteq> None then on_slot i (\<lambda>s. s\<lparr>ws_attach := Some (AwaitDisconnect key)\<rparr>) p
                  else on_slot i (\<lambda>s. s\<lparr>ws_generation := ws_generation s + 1, ws_attach := Some (AwaitAttach key)\<rparr>) p
              | _ \<Rightarrow> on_slot i (\<lambda>s. s\<lparr>ws_attach := None\<rparr>) p)
         | _ \<Rightarrow> p)"

text \<open>The worker's answer to \<open>disconnect\<close> or \<open>attach\<close>; \<open>ok = False\<close> is any failure of the send.\<close>

definition attach_reply :: "nat \<Rightarrow> bool \<Rightarrow> worker_pool \<Rightarrow> worker_pool" where
  "attach_reply i ok p =
     (case ws_attach (wp_slots p ! i) of
        Some (AwaitDisconnect key) \<Rightarrow>
          on_slot i (\<lambda>s. if ok then (forget_resident s)\<lparr>ws_generation := ws_generation s + 1, ws_attach := Some (AwaitAttach key)\<rparr>
                         else s\<lparr>ws_attach := None\<rparr>) p
      | Some (AwaitAttach key) \<Rightarrow>
          on_slot i (\<lambda>s. if ok then s\<lparr>ws_residentKey := Some key, ws_attach := None\<rparr> else s\<lparr>ws_attach := None\<rparr>) p
      | _ \<Rightarrow> p)"

text \<open>What a reply of the current generation tells about the worker (\<open>send\<close>).\<close>

definition note_reply :: "nat \<Rightarrow> bool \<Rightarrow> int \<Rightarrow> worker_pool \<Rightarrow> worker_pool" where
  "note_reply i metadata external = on_slot i (\<lambda>s. s\<lparr>ws_metadata := (ws_metadata s \<or> metadata), ws_external := external\<rparr>)"

definition thread_ready :: "nat \<Rightarrow> worker_pool \<Rightarrow> worker_pool" where
  "thread_ready i = on_slot i (\<lambda>s. s\<lparr>ws_thread := (case ws_thread s of Some (n, ThreadStarting) \<Rightarrow> Some (n, ThreadReady) | t \<Rightarrow> t)\<rparr>)"

section \<open>Recovery and disconnection\<close>

text \<open>
  \<open>recover\<close> for the request that holds \<open>key\<close>; \<open>done\<close> is the generation it already recovered. The thread is stopped at
  once; when it has ended, the resident sandbox is forgotten unless the slot has moved on.
\<close>

definition recover_start :: "string \<Rightarrow> string \<Rightarrow> nat option \<Rightarrow> worker_pool \<Rightarrow> nat option \<times> worker_pool" where
  "recover_start key code done p =
     (case map_of (wp_reservations p) key of
        None \<Rightarrow> (done, p)
      | Some i \<Rightarrow>
          if code \<notin> {''EEXEC_OUTCOME_UNKNOWN'', ''EWORKER_UNAVAILABLE''} \<or> done = Some (ws_generation (wp_slots p ! i)) then (done, p)
          else (Some (ws_generation (wp_slots p ! i)),
            (on_slot i stop_thread p)\<lparr>wp_unknownOutcomes := wp_unknownOutcomes p + (if code = ''EEXEC_OUTCOME_UNKNOWN'' then 1 else 0)\<rparr>))"

definition recover_end :: "nat \<Rightarrow> nat \<Rightarrow> nat option \<Rightarrow> worker_pool \<Rightarrow> worker_pool" where
  "recover_end i generation thread p =
     (if ws_generation (wp_slots p ! i) = generation \<and> map_option fst (ws_thread (wp_slots p ! i)) = thread
      then on_slot i forget_resident p else p)"

definition disconnect_idle :: "string \<Rightarrow> worker_pool \<Rightarrow> worker_pool" where
  "disconnect_idle key p =
     p\<lparr>wp_slots := map (\<lambda>s. if ws_residentKey s \<noteq> Some key \<or> ws_readers s \<noteq> 0 then s else forget_resident (stop_thread s)) (wp_slots p)\<rparr>"

text \<open>
  \<open>disconnect\<close>: the only holder of its own slot asks the worker (\<open>ok\<close>: it answered), anybody else stops the idle
  workers the sandbox lives on.
\<close>

definition pool_disconnect :: "bool \<Rightarrow> bool \<Rightarrow> string \<Rightarrow> worker_pool \<Rightarrow> worker_pool" where
  "pool_disconnect own ok key p =
     (case (if own then map_of (wp_reservations p) key else None) of
        Some i \<Rightarrow>
          if ws_readers (wp_slots p ! i) = 1 \<and> ws_residentKey (wp_slots p ! i) = Some key
          then (if ok then on_slot i forget_resident p else p)
          else disconnect_idle key p
      | None \<Rightarrow> disconnect_idle key p)"

text \<open>\<open>start\<close>: every slot without a thread gets one.\<close>

fun start_threads :: "nat \<Rightarrow> worker_slot list \<Rightarrow> nat \<times> worker_slot list" where
  "start_threads n [] = (n, [])"
| "start_threads n (s # ss) =
     (case ws_thread s of
        None \<Rightarrow> (case start_threads (n + 1) ss of (n', ss') \<Rightarrow> (n', s\<lparr>ws_thread := Some (n, ThreadStarting)\<rparr> # ss'))
      | Some _ \<Rightarrow> (case start_threads n ss of (n', ss') \<Rightarrow> (n', s # ss')))"

definition pool_start :: "worker_pool \<Rightarrow> worker_pool" where
  "pool_start p = (case start_threads (wp_threads p) (wp_slots p) of (n, ss) \<Rightarrow> p\<lparr>wp_slots := ss, wp_threads := n\<rparr>)"

section \<open>Events of the pool\<close>

text \<open>What else happens to the pool between two admissions; \<open>MemoryIs\<close> is a change of the resident set size.\<close>

datatype pool_event =
    PoolStart
  | MemoryIs int
  | ReleaseMemory
  | RetireSlot nat
  | PressureDone
  | ThreadIsReady nat
  | ThreadDies nat
  | AttachStart string
  | AttachContinue nat
  | AttachReply nat bool
  | NoteReply nat bool int
  | RecoverStart string string "nat option"
  | RecoverEnd nat nat "nat option"
  | PoolDisconnect bool bool string
  | PoolCloses

fun apply_pool_event :: "pool_options \<Rightarrow> pool_event \<Rightarrow> worker_pool \<Rightarrow> worker_pool" where
  "apply_pool_event opts PoolStart p = pool_start p"
| "apply_pool_event opts (MemoryIs rss) p = p\<lparr>wp_rss := rss\<rparr>"
| "apply_pool_event opts ReleaseMemory p = releaseIdleMemory opts p"
| "apply_pool_event opts (RetireSlot i) p = retire_slot i p"
| "apply_pool_event opts PressureDone p = pressure_done p"
| "apply_pool_event opts (ThreadIsReady i) p = thread_ready i p"
| "apply_pool_event opts (ThreadDies i) p = on_slot i stop_thread p"
| "apply_pool_event opts (AttachStart key) p = attach_start key p"
| "apply_pool_event opts (AttachContinue i) p = attach_continue i p"
| "apply_pool_event opts (AttachReply i ok) p = attach_reply i ok p"
| "apply_pool_event opts (NoteReply i metadata external) p = note_reply i metadata external p"
| "apply_pool_event opts (RecoverStart key code done) p = snd (recover_start key code done p)"
| "apply_pool_event opts (RecoverEnd i generation thread) p = recover_end i generation thread p"
| "apply_pool_event opts (PoolDisconnect own ok key) p = pool_disconnect own ok key p"
| "apply_pool_event opts PoolCloses p = p\<lparr>wp_closing := True\<rparr>"

text \<open>The admission of the pool, with the pool as the provider of its slots.\<close>

definition pool_admission :: "pool_options \<Rightarrow> admission_options" where
  "pool_admission opts =
     \<lparr>o_capacity = po_count opts, o_maxActivePerTenant = po_maxActivePerTenant opts, o_maxQueued = po_maxQueued opts,
      o_maxQueuedPerTenant = po_maxQueuedPerTenant opts, o_maxQueuedBytes = po_maxQueuedBytes opts,
      o_maxQueuedBytesPerTenant = po_maxQueuedBytesPerTenant opts\<rparr>"

inductive pool_moves :: "pool_options \<Rightarrow> worker_pool ad_sys \<Rightarrow> worker_pool ad_sys \<Rightarrow> bool" for opts where
  admission: "ad_step (Some (pool_reserver opts)) (pool_admission opts) s t \<Longrightarrow> pool_moves opts s t"
| event: "pool_moves opts s (s\<lparr>sys_ad := (sys_ad s)\<lparr>ad_resource := apply_pool_event opts ev (ad_resource (sys_ad s))\<rparr>\<rparr>)"

end
