(* ===== verification/WorkerSlots.thy ===== *)
theory WorkerSlots
  imports WorkerPool
begin

text \<open>
  What the fair admission and the worker pool promise together. The locale states the contract between them: a
  provider of slots that keeps its books for the requests the admission has admitted. The pool is an instance, so in every
  interleaving of requests, releases, attachments, thread failures and memory recovery the sandboxes at work sit on workers of
  their own.
\<close>

section \<open>The contract of a slot provider\<close>

locale slot_provider =
  fixes rv :: "'r reserver" and holds :: "'r \<Rightarrow> ad_slot list \<Rightarrow> bool"
  assumes try_holds: "holds r slots \<Longrightarrow> rv_try rv key shared r = Some r' \<Longrightarrow> holds r' ((tenant, key, shared) # slots)"
    and release_holds: "holds r slots \<Longrightarrow> (tenant, key, shared) \<in> set slots \<Longrightarrow>
      holds (rv_release rv key shared r) (remove1 (tenant, key, shared) slots)"
begin

lemma reserve_holds:
  assumes "reserve (Some rv) opts tenant key shared st = Some st'" and "holds (ad_resource st) slots"
  shows "holds (ad_resource st') ((tenant, key, shared) # slots)"
  using assms try_holds by (auto simp: reserve_def split: if_splits option.splits)

lemma remove_resource [simp]: "ad_resource (remove_waiter w st) = ad_resource st"
  by (auto simp: remove_waiter_def Let_def split: option.splits)

lemma enqueue_resource [simp]: "ad_resource (enqueue_waiter w st) = ad_resource st"
  by (simp add: enqueue_waiter_def)

lemma record_resource [simp]: "ad_resource (recordWait ms st) = ad_resource st"
  by (simp add: recordWait_def)

lemma drain_rounds_holds:
  assumes "drain_rounds n (Some rv) opts now st = (ws, st')" and "holds (ad_resource st) slots"
  shows "holds (ad_resource st') (rev (map slot_of ws) @ slots)"
  using assms
proof (induction n arbitrary: st slots ws)
  case (Suc n)
  show ?case
  proof (cases "ad_closed st \<or> ad_queued st \<le> 0 \<or> next_waiter (Some rv) opts st = None")
    case True
    then have "ws = [] \<and> st' = st" using Suc.prems(1) by (auto split: if_splits)
    then show ?thesis using Suc.prems(2) by simp
  next
    case False
    then obtain w st1 where w: "next_waiter (Some rv) opts st = Some (w, st1)" by auto
    define st2 where "st2 = recordWait (now - aw_started w) (remove_waiter w (st1\<lparr>ad_lastTenant := Some (aw_tenant w)\<rparr>))"
    obtain ws' where r: "drain_rounds n (Some rv) opts now st2 = (ws', st')" "ws = w # ws'"
      using Suc.prems(1) False w by (auto simp: st2_def [symmetric] Let_def split: prod.splits)
    have "reserve (Some rv) opts (aw_tenant w) (aw_key w) (aw_shared w) st = Some st1"
      using scan_tenants_Some [OF w [unfolded next_waiter_def]] by blast
    from reserve_holds [OF this Suc.prems(2)] have "holds (ad_resource st2) (slot_of w # slots)"
      by (simp add: st2_def slot_of_def)
    then show ?thesis using Suc.IH [OF r(1)] r(2) by simp
  qed
qed simp

lemma drain_holds:
  "drain (Some rv) opts now st = (ws, st') \<Longrightarrow> holds (ad_resource st) slots \<Longrightarrow> holds (ad_resource st') (rev (map slot_of ws) @ slots)"
  unfolding drain_def by (rule drain_rounds_holds)

lemma acquire_holds:
  assumes acq: "ad_acquire (Some rv) opts i tenant key bytes aborted shared qf now st0 = (out, woken, st')" and h: "holds (ad_resource st0) slots"
  shows "holds (ad_resource st') ((if out = Admitted then [(tenant, key, shared)] else []) @ rev (map slot_of woken) @ slots)"
proof (cases "ad_closed st0 \<or> aborted")
  case True
  then show ?thesis using acq h by (auto simp: ad_acquire_def Let_def)
next
  case False
  obtain w1 st1 where d: "drain (Some rv) opts now (st0\<lparr>ad_offered := ad_offered st0 + 1\<rparr>) = (w1, st1)" by force
  have h1: "holds (ad_resource st1) (rev (map slot_of w1) @ slots)" using drain_holds [OF d] h by simp
  show ?thesis
    using acq False d h1 drain_holds reserve_holds [of opts tenant key shared st1]
    by (auto simp: ad_acquire_def Let_def split: option.splits if_splits prod.splits)
qed

lemma step_holds:
  assumes "ad_step (Some rv) opts s t" and "holds (ad_resource (sys_ad s)) (sys_slots s)"
  shows "holds (ad_resource (sys_ad t)) (sys_slots t)"
  using assms
proof cases
  case offer
  then show ?thesis using acquire_holds assms(2) by simp
next
  case (timeout w now woken st)
  then show ?thesis using assms(2) by (auto simp: timeout_waiter_def Let_def intro!: drain_holds)
next
  case (abort w now woken st)
  then show ?thesis using assms(2) by (auto simp: abort_waiter_def Let_def intro!: drain_holds)
next
  case (release tenant key shared now woken st)
  have "holds (ad_resource (release_slot (Some rv) tenant key shared (sys_ad s))) (remove1 (tenant, key, shared) (sys_slots s))"
    using release_holds [OF assms(2) release(2)] by (simp add: release_slot_def)
  then show ?thesis using release by (auto simp: ad_release_def intro!: drain_holds)
next
  case wake
  then show ?thesis using assms(2) by (auto intro!: drain_holds)
next
  case close
  have "ad_resource (fold (\<lambda>w s. let s1 = remove_waiter w s in s1\<lparr>ad_cancelled := ad_cancelled s1 + 1\<rparr>) ws st) = ad_resource st" for ws and st :: "'r admission"
    by (induction ws arbitrary: st) (simp_all add: Let_def)
  then show ?thesis using close assms(2) by (simp add: close_admission_def)
qed

end

section \<open>The books of the pool\<close>

definition slot_books :: "(string, nat) table \<Rightarrow> ad_slot list \<Rightarrow> nat \<Rightarrow> worker_slot \<Rightarrow> bool" where
  "slot_books res slots i s =
     (case ws_activeKey s of
        None \<Rightarrow> ws_readers s = 0
      | Some k \<Rightarrow>
          map_of res k = Some i \<and> \<not> ws_retiring s \<and> ws_readers s = int (length (key_slots k slots)) \<and> key_slots k slots \<noteq> []
          \<and> (\<forall>x \<in> set (key_slots k slots). snd (snd x) = ws_shared s)
          \<and> (if ws_shared s then ws_readers s \<le> 8 else ws_readers s = 1))"

definition pool_holds :: "nat \<Rightarrow> worker_pool \<Rightarrow> ad_slot list \<Rightarrow> bool" where
  "pool_holds n p slots \<longleftrightarrow> length (wp_slots p) = n
     \<and> (\<forall>i < n. slot_books (wp_reservations p) slots i (wp_slots p ! i))
     \<and> (\<forall>k i. map_of (wp_reservations p) k = Some i \<longrightarrow> i < n \<and> ws_activeKey (wp_slots p ! i) = Some k)
     \<and> (\<forall>k. map_of (wp_reservations p) k = None \<longrightarrow> key_slots k slots = [])
     \<and> (\<forall>i < n. ws_retiring (wp_slots p ! i) \<longleftrightarrow> (case wp_pressureRecovery p of None \<Rightarrow> False | Some rest \<Rightarrow> i \<in> set rest))
     \<and> (case wp_pressureRecovery p of None \<Rightarrow> True | Some rest \<Rightarrow> distinct rest \<and> set rest \<subseteq> {..<n})"

lemma pool_holds_new: "pool_holds n (new_pool n) []"
  by (simp add: pool_holds_def new_pool_def new_slot_def slot_books_def)

lemma on_slot_simps [simp]:
  "length (wp_slots (on_slot i f p)) = length (wp_slots p)" "wp_reservations (on_slot i f p) = wp_reservations p"
  "wp_pressureRecovery (on_slot i f p) = wp_pressureRecovery p" "wp_rss (on_slot i f p) = wp_rss p" "wp_closing (on_slot i f p) = wp_closing p"
  "j < length (wp_slots p) \<Longrightarrow> wp_slots (on_slot i f p) ! j = (if i = j then f (wp_slots p ! j) else wp_slots p ! j)"
  by (simp_all add: on_slot_def nth_list_update)

text \<open>The fields of a slot its books are about, and that most operations leave alone.\<close>

definition booked :: "worker_slot \<Rightarrow> string option \<times> int \<times> bool \<times> bool" where
  "booked s = (ws_activeKey s, ws_readers s, ws_shared s, ws_retiring s)"

lemma slot_books_cong: "booked s = booked s' \<Longrightarrow> slot_books res slots i s = slot_books res slots i s'"
  by (auto simp: booked_def slot_books_def split: option.splits)

lemma pool_holds_cong:
  assumes "length (wp_slots p') = length (wp_slots p)" and "\<And>i. i < length (wp_slots p) \<Longrightarrow> booked (wp_slots p' ! i) = booked (wp_slots p ! i)"
    and "wp_reservations p' = wp_reservations p" and "wp_pressureRecovery p' = wp_pressureRecovery p"
  shows "pool_holds n p' slots = pool_holds n p slots"
proof -
  have eq: "slot_books res slots i (wp_slots p' ! i) = slot_books res slots i (wp_slots p ! i)" "ws_activeKey (wp_slots p' ! i) = ws_activeKey (wp_slots p ! i)"
    "ws_retiring (wp_slots p' ! i) = ws_retiring (wp_slots p ! i)" if "i < length (wp_slots p)" for res i
    using slot_books_cong [OF assms(2) [OF that]] assms(2) [OF that] by (simp_all add: booked_def)
  show ?thesis
    by (cases "length (wp_slots p) = n") (simp_all add: pool_holds_def assms(1,3,4) eq cong: conj_cong imp_cong)
qed

lemma pool_holds_on_slot:
  assumes "\<And>s. booked (f s) = booked s"
  shows "pool_holds n (on_slot i f p) slots = pool_holds n p slots"
  by (rule pool_holds_cong) (simp_all add: assms)

lemma booked_simps [simp]: "booked (stop_thread s) = booked s" "booked (forget_resident s) = booked s"
  by (simp_all add: booked_def stop_thread_def forget_resident_def)

text \<open>The slot of an active key.\<close>

lemma reserved_slot:
  assumes "pool_holds n p slots" and "map_of (wp_reservations p) k = Some i"
  shows "i < n" "ws_activeKey (wp_slots p ! i) = Some k" "ws_readers (wp_slots p ! i) = int (length (key_slots k slots))"
    "key_slots k slots \<noteq> []" "\<forall>x \<in> set (key_slots k slots). snd (snd x) = ws_shared (wp_slots p ! i)" "\<not> ws_retiring (wp_slots p ! i)"
    "if ws_shared (wp_slots p ! i) then ws_readers (wp_slots p ! i) \<le> 8 else ws_readers (wp_slots p ! i) = 1"
proof -
  have i: "i < n" "ws_activeKey (wp_slots p ! i) = Some k" using assms unfolding pool_holds_def by blast+
  then have "slot_books (wp_reservations p) slots i (wp_slots p ! i)" using assms(1) unfolding pool_holds_def by blast
  then show "i < n" "ws_activeKey (wp_slots p ! i) = Some k" "ws_readers (wp_slots p ! i) = int (length (key_slots k slots))"
    "key_slots k slots \<noteq> []" "\<forall>x \<in> set (key_slots k slots). snd (snd x) = ws_shared (wp_slots p ! i)" "\<not> ws_retiring (wp_slots p ! i)"
    "if ws_shared (wp_slots p ! i) then ws_readers (wp_slots p ! i) \<le> 8 else ws_readers (wp_slots p ! i) = 1"
    using i(1,2) unfolding slot_books_def i(2) option.case by blast+
qed

lemma idle_slot:
  assumes "pool_holds n p slots" and "i < n" and "ws_readers (wp_slots p ! i) = 0"
  shows "ws_activeKey (wp_slots p ! i) = None"
proof (rule ccontr)
  assume "ws_activeKey (wp_slots p ! i) \<noteq> None"
  then obtain k where k: "ws_activeKey (wp_slots p ! i) = Some k" by auto
  have "slot_books (wp_reservations p) slots i (wp_slots p ! i)" using assms(1,2) unfolding pool_holds_def by blast
  then show False using k assms(3) by (auto simp: slot_books_def)
qed

lemma pick_slotD:
  assumes "pick_slot key p = Some i"
  shows "i < length (wp_slots p)" "ws_readers (wp_slots p ! i) = 0" "\<not> ws_retiring (wp_slots p ! i)"
  using assms by (auto simp: pick_slot_def first_slot_def find_Some_iff split: option.splits)

text \<open>Books of a slot whose key does not change its requests.\<close>

lemma slot_books_other:
  assumes "slot_books res slots j s" and "ws_activeKey s \<noteq> Some k" and "\<And>k'. k' \<noteq> k \<Longrightarrow> key_slots k' slots' = key_slots k' slots"
    and "\<And>k'. k' \<noteq> k \<Longrightarrow> map_of res' k' = map_of res k'"
  shows "slot_books res' slots' j s"
proof (cases "ws_activeKey s")
  case None
  then show ?thesis using assms(1) by (simp add: slot_books_def)
next
  case (Some k')
  then have "k' \<noteq> k" using assms(2) by auto
  then show ?thesis using assms(1) unfolding slot_books_def Some option.case assms(3) [OF \<open>k' \<noteq> k\<close>] assms(4) [OF \<open>k' \<noteq> k\<close>] by blast
qed

lemma pool_holds_join:
  assumes h: "pool_holds n p slots" and res: "map_of (wp_reservations p) key = Some i"
    and s: "ws_shared (wp_slots p ! i)" "ws_readers (wp_slots p ! i) < 8"
  shows "pool_holds n (on_slot i (\<lambda>s. s\<lparr>ws_readers := ws_readers s + 1\<rparr>) p) ((tenant, key, True) # slots)"
proof -
  note r = reserved_slot [OF h res]
  have len: "length (wp_slots p) = n" using h by (simp add: pool_holds_def)
  have other: "slot_books (wp_reservations p) ((tenant, key, True) # slots) j (wp_slots p ! j)" if "j < n" "j \<noteq> i" for j
  proof (rule slot_books_other [where k = key])
    show "slot_books (wp_reservations p) slots j (wp_slots p ! j)" using h that(1) unfolding pool_holds_def by blast
    then show "ws_activeKey (wp_slots p ! j) \<noteq> Some key" using res that(2) by (auto simp: slot_books_def)
  qed simp_all
  have own: "slot_books (wp_reservations p) ((tenant, key, True) # slots) i ((wp_slots p ! i)\<lparr>ws_readers := ws_readers (wp_slots p ! i) + 1\<rparr>)"
    using r s res by (simp add: slot_books_def)
  have none: "map_of (wp_reservations p) k = None \<Longrightarrow> key_slots k ((tenant, key, True) # slots) = []" for k
    using h res by (auto simp: pool_holds_def)
  show ?thesis
    using h len own other none unfolding pool_holds_def by (simp add: r(1) cong: conj_cong)
qed

lemma pool_holds_take:
  assumes h: "pool_holds n p slots" and res: "map_of (wp_reservations p) key = None" and pick: "pick_slot key p = Some i"
  shows "pool_holds n ((on_slot i (\<lambda>s. s\<lparr>ws_shared := shared, ws_activeKey := Some key, ws_readers := ws_readers s + 1\<rparr>) p)
    \<lparr>wp_reservations := AList.update key i (wp_reservations p)\<rparr>) ((tenant, key, shared) # slots)"
    (is "pool_holds n ?p ?slots")
proof -
  have len: "length (wp_slots p) = n" using h by (simp add: pool_holds_def)
  have i: "i < n" "ws_readers (wp_slots p ! i) = 0" "\<not> ws_retiring (wp_slots p ! i)" using pick_slotD [OF pick] len by simp_all
  have idle: "ws_activeKey (wp_slots p ! i) = None" by (rule idle_slot [OF h i(1,2)])
  have empty: "key_slots key slots = []" using h res unfolding pool_holds_def by blast
  have rows: "map_of (AList.update key i (wp_reservations p)) k = (if k = key then Some i else map_of (wp_reservations p) k)" for k
    by (simp add: update_conv')
  have books: "slot_books (wp_reservations ?p) ?slots j (wp_slots ?p ! j)" if j: "j < n" for j
  proof (cases "j = i")
    case True
    then show ?thesis using i len empty rows by (simp add: slot_books_def)
  next
    case False
    have "slot_books (wp_reservations p) slots j (wp_slots p ! j)" using h j unfolding pool_holds_def by blast
    moreover have "ws_activeKey (wp_slots p ! j) \<noteq> Some key" using calculation res by (auto simp: slot_books_def)
    ultimately have "slot_books (wp_reservations ?p) ?slots j (wp_slots p ! j)" by (rule slot_books_other) (simp_all add: rows)
    then show ?thesis using False j len by simp
  qed
  have rest: "\<forall>k j. map_of (wp_reservations p) k = Some j \<longrightarrow> j < n \<and> ws_activeKey (wp_slots p ! j) = Some k"
    "\<forall>k. map_of (wp_reservations p) k = None \<longrightarrow> key_slots k slots = []" using h unfolding pool_holds_def by blast+
  have "map_of (wp_reservations ?p) k = Some j \<Longrightarrow> j < n \<and> ws_activeKey (wp_slots ?p ! j) = Some k" for k j
    using rest(1) idle i(1) len by (cases "k = key") (auto simp: rows)
  moreover have "map_of (wp_reservations ?p) k = None \<Longrightarrow> key_slots k ?slots = []" for k using rest(2) by (auto simp: rows split: if_splits)
  ultimately show ?thesis using h books len i(3) unfolding pool_holds_def by (simp cong: conj_cong)
qed

text \<open>Marking the idle slots.\<close>

lemma fold_on_slot:
  assumes "distinct is" and "set is \<subseteq> {..<length (wp_slots p)}"
  shows "length (wp_slots (fold (\<lambda>i. on_slot i f) is p)) = length (wp_slots p) \<and> wp_reservations (fold (\<lambda>i. on_slot i f) is p) = wp_reservations p
    \<and> (\<forall>j < length (wp_slots p). wp_slots (fold (\<lambda>i. on_slot i f) is p) ! j = (if j \<in> set is then f (wp_slots p ! j) else wp_slots p ! j))"
  using assms by (induction "is" arbitrary: p) auto

lemma pool_holds_release_idle:
  assumes h: "pool_holds n p slots"
  shows "pool_holds n (releaseIdleMemory opts p) slots"
proof (cases "wp_pressureRecovery p \<noteq> None \<or> \<not> underMemoryPressure opts p")
  case True
  then show ?thesis using h by (simp add: releaseIdleMemory_def)
next
  case False
  let ?f = "\<lambda>s. (stop_thread s)\<lparr>ws_retiring := True\<rparr>"
  define p1 where "p1 = fold (\<lambda>i. on_slot i ?f) (idle_slots p) p"
  have rel: "releaseIdleMemory opts p = p1\<lparr>wp_pressureRecovery := Some (idle_slots p)\<rparr>" using False by (simp add: releaseIdleMemory_def p1_def Let_def)
  have len: "length (wp_slots p) = n" using h by (simp add: pool_holds_def)
  have idle: "distinct (idle_slots p)" "set (idle_slots p) \<subseteq> {..<length (wp_slots p)}" "\<And>j. j \<in> set (idle_slots p) \<Longrightarrow> ws_readers (wp_slots p ! j) = 0"
    by (auto simp: idle_slots_def)
  note f = fold_on_slot [OF idle(1,2), of ?f, folded p1_def]
  have quiet: "\<not> ws_retiring (wp_slots p ! j)" if "j < n" for j using h False that by (auto simp: pool_holds_def)
  have act: "ws_activeKey (wp_slots p1 ! j) = ws_activeKey (wp_slots p ! j)" if "j < n" for j using f len that by (simp add: stop_thread_def)
  have books: "slot_books (wp_reservations p) slots j (wp_slots p1 ! j)" if j: "j < n" for j
  proof (cases "j \<in> set (idle_slots p)")
    case True
    then have "ws_activeKey (wp_slots p ! j) = None" "ws_readers (wp_slots p ! j) = 0" using idle_slot [OF h j] idle(3) by simp_all
    then show ?thesis using f True j len by (simp add: slot_books_def stop_thread_def)
  next
    case False
    then show ?thesis using h f j len unfolding pool_holds_def by simp
  qed
  have ret: "ws_retiring (wp_slots p1 ! j) \<longleftrightarrow> j \<in> set (idle_slots p)" if "j < n" for j using f len that quiet by simp
  show ?thesis
    using h f len idle books act ret unfolding rel pool_holds_def by (simp cong: conj_cong)
qed

lemma key_slots_remove:
  assumes "k' \<noteq> k"
  shows "key_slots k' (remove1 (tenant, k, sh) slots) = key_slots k' slots"
  using assms by (simp add: filter_remove1_other)

lemma key_slots_remove_own:
  assumes "(tenant, k, sh) \<in> set slots"
  shows "length (key_slots k slots) = Suc (length (key_slots k (remove1 (tenant, k, sh) slots)))"
    and "set (key_slots k (remove1 (tenant, k, sh) slots)) \<subseteq> set (key_slots k slots)"
proof -
  show "length (key_slots k slots) = Suc (length (key_slots k (remove1 (tenant, k, sh) slots)))"
    using assms by (induction slots) auto
  show "set (key_slots k (remove1 (tenant, k, sh) slots)) \<subseteq> set (key_slots k slots)"
    using set_remove1_subset [of "(tenant, k, sh)" slots] by auto
qed

lemma pool_holds_release:
  assumes h: "pool_holds n p slots" and mem: "(tenant, key, shared) \<in> set slots"
  shows "pool_holds n (release_reservation opts key p) (remove1 (tenant, key, shared) slots)"
proof -
  let ?slots = "remove1 (tenant, key, shared) slots"
  have len: "length (wp_slots p) = n" using h by (simp add: pool_holds_def)
  have "key_slots key slots \<noteq> []" using mem by (force simp: filter_empty_conv)
  then obtain i where res: "map_of (wp_reservations p) key = Some i" using h unfolding pool_holds_def by fastforce
  note r = reserved_slot [OF h res] and ks = key_slots_remove_own [OF mem]
  have rest: "\<forall>k j. map_of (wp_reservations p) k = Some j \<longrightarrow> j < n \<and> ws_activeKey (wp_slots p ! j) = Some k"
    "\<forall>k. map_of (wp_reservations p) k = None \<longrightarrow> key_slots k slots = []" using h unfolding pool_holds_def by blast+
  have other: "slot_books res' ?slots j (wp_slots p ! j)" if j: "j < n" "j \<noteq> i" and same: "\<And>k. k \<noteq> key \<Longrightarrow> map_of res' k = map_of (wp_reservations p) k" for j res'
  proof (rule slot_books_other [where k = key])
    show b: "slot_books (wp_reservations p) slots j (wp_slots p ! j)" using h j(1) unfolding pool_holds_def by blast
    show "ws_activeKey (wp_slots p ! j) \<noteq> Some key" using b res j(2) by (auto simp: slot_books_def)
  qed (simp_all add: key_slots_remove same)
  show ?thesis
  proof (cases "ws_readers (wp_slots p ! i) = 1")
    case False
    then have rel: "release_reservation opts key p = on_slot i (\<lambda>s. s\<lparr>ws_readers := ws_readers s - 1\<rparr>) p"
      using res r(1) len by (simp add: release_reservation_def)
    have "key_slots key ?slots \<noteq> []" using False r(3) ks(1) by auto
    moreover have "\<forall>x \<in> set (key_slots key ?slots). snd (snd x) = ws_shared (wp_slots p ! i)" using r(5) ks(2) by blast
    moreover have "ws_shared (wp_slots p ! i) \<and> ws_readers (wp_slots p ! i) \<le> 8" using r(7) False by (simp split: if_splits)
    ultimately have own: "slot_books (wp_reservations p) ?slots i ((wp_slots p ! i)\<lparr>ws_readers := ws_readers (wp_slots p ! i) - 1\<rparr>)"
      using r(2,3,6) res ks(1) by (simp add: slot_books_def)
    have none: "map_of (wp_reservations p) k = None \<Longrightarrow> key_slots k ?slots = []" for k
      using rest(2) res key_slots_remove [of k key tenant shared slots] by (cases "k = key") simp_all
    show ?thesis
      using h len own other [OF _ _ refl] none unfolding rel pool_holds_def by (simp add: r(1) cong: conj_cong)
  next
    case True
    let ?p = "(on_slot i (\<lambda>s. s\<lparr>ws_activeKey := None\<rparr>) (on_slot i (\<lambda>s. s\<lparr>ws_readers := ws_readers s - 1\<rparr>) p))
      \<lparr>wp_reservations := AList.delete key (wp_reservations p)\<rparr>"
    have rel: "release_reservation opts key p = releaseIdleMemory opts ?p" using res r(1) len True by (simp add: release_reservation_def Let_def)
    have rows: "map_of (AList.delete key (wp_reservations p)) k = (if k = key then None else map_of (wp_reservations p) k)" for k
      by (simp add: delete_conv')
    have empty: "key_slots key ?slots = []" using True r(3) ks(1) by simp
    have books: "slot_books (AList.delete key (wp_reservations p)) ?slots j (wp_slots ?p ! j)" if "j < n" for j
      using other [OF that, of "AList.delete key (wp_reservations p)"] that True len by (cases "j = i") (simp_all add: rows slot_books_def)
    have act: "map_of (AList.delete key (wp_reservations p)) k = Some j \<Longrightarrow> j < n \<and> ws_activeKey (wp_slots ?p ! j) = Some k" for k j
      using rest(1) r(2) len by (auto simp: rows split: if_splits)
    have none: "map_of (AList.delete key (wp_reservations p)) k = None \<Longrightarrow> key_slots k ?slots = []" for k
      using rest(2) empty key_slots_remove [of k key tenant shared slots] by (auto simp: rows split: if_splits)
    have "pool_holds n ?p ?slots" using h len books act none unfolding pool_holds_def by (simp cong: conj_cong)
    then show ?thesis unfolding rel by (rule pool_holds_release_idle)
  qed
qed

lemma pool_holds_try:
  assumes h: "pool_holds n p slots" and r: "reserveSlot opts key shared p = Some p'"
  shows "pool_holds n p' ((tenant, key, shared) # slots)"
  using r pool_holds_join [OF h, of key _ tenant] pool_holds_take [OF h, of key _ shared tenant]
  by (auto simp: reserveSlot_def split: if_splits option.splits)

interpretation pool: slot_provider "pool_reserver opts" "pool_holds n" for opts n
  by unfold_locales (simp_all add: pool_reserver_def pool_holds_try pool_holds_release)

section \<open>The other events\<close>

lemma booked_update [simp]:
  "booked (s\<lparr>ws_thread := a\<rparr>) = booked s" "booked (s\<lparr>ws_residentKey := b\<rparr>) = booked s" "booked (s\<lparr>ws_generation := c\<rparr>) = booked s"
  "booked (s\<lparr>ws_attach := d\<rparr>) = booked s" "booked (s\<lparr>ws_metadata := e\<rparr>) = booked s" "booked (s\<lparr>ws_external := f\<rparr>) = booked s"
  by (simp_all add: booked_def)

lemma pool_holds_counters [simp]:
  "pool_holds n (p\<lparr>wp_rss := a\<rparr>) slots = pool_holds n p slots" "pool_holds n (p\<lparr>wp_closing := b\<rparr>) slots = pool_holds n p slots"
  "pool_holds n (p\<lparr>wp_restarts := c\<rparr>) slots = pool_holds n p slots" "pool_holds n (p\<lparr>wp_unknownOutcomes := c\<rparr>) slots = pool_holds n p slots"
  "pool_holds n (p\<lparr>wp_threads := d\<rparr>) slots = pool_holds n p slots"
  by (simp_all add: pool_holds_def)

lemma pool_holds_retire:
  assumes h: "pool_holds n p slots" shows "pool_holds n (retire_slot i p) slots"
proof (cases "\<exists>rest. wp_pressureRecovery p = Some rest \<and> i \<in> set rest")
  case True
  then obtain rest where rest: "wp_pressureRecovery p = Some rest" "i \<in> set rest" by blast
  have len: "length (wp_slots p) = n" and i: "i < n" "ws_retiring (wp_slots p ! i)" "distinct rest" "set rest \<subseteq> {..<n}"
    using h rest by (auto simp: pool_holds_def)
  have "slot_books (wp_reservations p) slots i (wp_slots p ! i)" using h i(1) unfolding pool_holds_def by blast
  then have idle: "ws_activeKey (wp_slots p ! i) = None" "ws_readers (wp_slots p ! i) = 0" using i(2) by (auto simp: slot_books_def split: option.splits)
  let ?s = "(forget_resident (wp_slots p ! i))\<lparr>ws_thread := None, ws_external := 0, ws_retiring := False\<rparr>"
  have new: "slot_books (wp_reservations p) slots i ?s" using idle by (simp add: slot_books_def forget_resident_def)
  have act: "ws_activeKey ?s = None" using idle by (simp add: forget_resident_def)
  have "j \<in> set (remove1 i rest) \<longleftrightarrow> j \<in> set rest \<and> j \<noteq> i" for j using i(3) by simp
  then show ?thesis
    using h rest len i new act idle unfolding pool_holds_def
    by (auto simp: retire_slot_def distinct_remove1)
next
  case False
  then have "retire_slot i p = p" by (auto simp: retire_slot_def split: option.split)
  then show ?thesis using h by simp
qed

lemma pool_holds_disconnect: "pool_holds n (disconnect_idle key p) slots = pool_holds n p slots"
  by (rule pool_holds_cong) (simp_all add: disconnect_idle_def)

lemma start_threads_booked: "map booked (snd (start_threads n ss)) = map booked ss"
  by (induction ss arbitrary: n) (auto split: option.split prod.split, (metis snd_conv)+)

lemma pool_holds_start: "pool_holds n (pool_start p) slots = pool_holds n p slots"
proof -
  obtain m ss where ss: "start_threads (wp_threads p) (wp_slots p) = (m, ss)" by force
  then have "map booked ss = map booked (wp_slots p)" using start_threads_booked [of "wp_threads p" "wp_slots p"] by simp
  then have "length ss = length (wp_slots p)" "\<And>i. i < length (wp_slots p) \<Longrightarrow> booked (ss ! i) = booked (wp_slots p ! i)"
    by (metis length_map, metis length_map nth_map)
  then show ?thesis by (intro pool_holds_cong) (simp_all add: pool_start_def ss)
qed

lemma pool_holds_event:
  assumes h: "pool_holds n p slots" shows "pool_holds n (apply_pool_event opts ev p) slots"
proof (cases ev)
  case PoolStart
  then show ?thesis using h by (simp add: pool_holds_start)
next
  case PressureDone
  then show ?thesis using h by (auto simp: pressure_done_def pool_holds_def)
next
  case (AttachStart key)
  then show ?thesis
    using h by (simp add: attach_start_def Let_def pool_holds_on_slot split: option.split)
next
  case (AttachContinue i)
  then show ?thesis
    using h by (simp add: attach_continue_def Let_def pool_holds_on_slot split: option.split attach_phase.split thread_state.split prod.split)
next
  case (AttachReply i ok)
  then show ?thesis using h by (simp add: attach_reply_def pool_holds_on_slot split: option.split attach_phase.split)
next
  case (RecoverStart key code gone)
  then show ?thesis using h by (simp add: recover_start_def pool_holds_on_slot split: option.split)
next
  case (PoolDisconnect own ok key)
  then show ?thesis using h by (simp add: pool_disconnect_def pool_holds_on_slot pool_holds_disconnect split: option.split)
qed (use h pool_holds_release_idle pool_holds_retire in \<open>simp_all add: pool_holds_on_slot note_reply_def thread_ready_def recover_end_def\<close>)

section \<open>Every history\<close>

lemma ad_inv_resource [simp]: "ad_inv rv opts (st\<lparr>ad_resource := r\<rparr>) slots = ad_inv rv opts st slots"
  by (simp add: ad_inv_def limits_ok_def queues_ok_def tenant_queue_def waiting_def slots_ok_def accounts_ok_def)

definition workers_inv :: "pool_options \<Rightarrow> nat \<Rightarrow> worker_pool ad_sys \<Rightarrow> bool" where
  "workers_inv opts n s \<longleftrightarrow> ad_inv (Some (pool_reserver opts)) (pool_admission opts) (sys_ad s) (sys_slots s)
     \<and> pool_holds n (ad_resource (sys_ad s)) (sys_slots s)"

interpretation workers: safe_machine "\<lambda>s. s = new_ad_sys (new_pool n)" "pool_moves opts" "workers_inv opts n" for opts n
proof
  show "workers_inv opts n s" if "s = new_ad_sys (new_pool n)" for s
    using that fair.start_inv [of s "Some (pool_reserver opts)" "pool_admission opts"] pool_holds_new
    by (auto simp: workers_inv_def new_ad_sys_def new_admission_def)
  show "workers_inv opts n t" if "workers_inv opts n s" "pool_moves opts s t" for s t
    using that(2,1)
    by cases (auto simp: workers_inv_def intro: ad_step_inv pool.step_holds pool_holds_event)
qed

lemma keys_at_work:
  assumes "pool_holds n p slots"
  shows "card ((\<lambda>(t, k, sh). k) ` set slots) \<le> n"
proof -
  let ?at = "\<lambda>k. the (map_of (wp_reservations p) k)"
  have at: "\<exists>i < n. map_of (wp_reservations p) k = Some i \<and> ws_activeKey (wp_slots p ! i) = Some k" if k: "k \<in> (\<lambda>(t, k, sh). k) ` set slots" for k
  proof -
    obtain t sh where "(t, k, sh) \<in> set slots" using k by auto
    then have "key_slots k slots \<noteq> []" by (force simp: filter_empty_conv)
    moreover have "map_of (wp_reservations p) k = None \<Longrightarrow> key_slots k slots = []" using assms unfolding pool_holds_def by blast
    ultimately obtain i where i: "map_of (wp_reservations p) k = Some i" by blast
    show ?thesis using reserved_slot(1,2) [OF assms i] i by blast
  qed
  have "inj_on ?at ((\<lambda>(t, k, sh). k) ` set slots)"
  proof (rule inj_onI)
    fix k k' assume mem: "k \<in> (\<lambda>(t, k, sh). k) ` set slots" "k' \<in> (\<lambda>(t, k, sh). k) ` set slots" and "?at k = ?at k'"
    moreover obtain i j where "map_of (wp_reservations p) k = Some i" "ws_activeKey (wp_slots p ! i) = Some k"
      "map_of (wp_reservations p) k' = Some j" "ws_activeKey (wp_slots p ! j) = Some k'" using at [OF mem(1)] at [OF mem(2)] by blast
    ultimately show "k = k'" by simp
  qed
  moreover have "?at ` (\<lambda>(t, k, sh). k) ` set slots \<subseteq> {..<n}"
  proof
    fix i assume "i \<in> ?at ` (\<lambda>(t, k, sh). k) ` set slots"
    then obtain k where "k \<in> (\<lambda>(t, k, sh). k) ` set slots" "i = ?at k" by blast
    then show "i \<in> {..<n}" using at [of k] by auto
  qed
  ultimately have "card ((\<lambda>(t, k, sh). k) ` set slots) \<le> card {..<n}" by (rule card_inj_on_le) simp
  then show ?thesis by simp
qed

text \<open>
  C39. Workers of their own: with options that load from any environment, in every interleaving of requests, releases,
  queue timeouts, attachments, recoveries, thread failures and memory pressure, each admitted request sits on the one slot
  reserved for its key (so \<open>run\<close> never finds its reservation missing), which is not being retired and counts exactly the requests of that key, at most eight of them when
  they share and exactly one when it is exclusive; two keys never share a slot; a slot without a key has no
  requests; no more keys are at work than there are workers; and with two workers or more no tenant has
  as many requests active as there are workers.
\<close>

theorem worker_slots_exclusive:
  assumes load: "loadWorkerPoolOptions env amount host = Inr opts"
    and run: "(pool_moves opts)\<^sup>*\<^sup>* (new_ad_sys (new_pool (nat (po_count opts)))) s"
    and p: "p = ad_resource (sys_ad s)"
  shows "(\<forall>(t, k, sh) \<in> set (sys_slots s). \<exists>i < length (wp_slots p). map_of (wp_reservations p) k = Some i
        \<and> ws_activeKey (wp_slots p ! i) = Some k \<and> \<not> ws_retiring (wp_slots p ! i)
        \<and> ws_readers (wp_slots p ! i) = int (length (key_slots k (sys_slots s)))
        \<and> (if sh then ws_readers (wp_slots p ! i) \<le> 8 else ws_readers (wp_slots p ! i) = 1))
    \<and> (\<forall>k k' i. map_of (wp_reservations p) k = Some i \<and> map_of (wp_reservations p) k' = Some i \<longrightarrow> k = k')
    \<and> (\<forall>i < length (wp_slots p). ws_activeKey (wp_slots p ! i) = None \<longrightarrow> ws_readers (wp_slots p ! i) = 0)
    \<and> int (card ((\<lambda>(t, k, sh). k) ` set (sys_slots s))) \<le> po_count opts
    \<and> (2 \<le> po_count opts \<longrightarrow> (\<forall>t. int (length (tenant_slots t (sys_slots s))) < po_count opts))"
proof -
  define n where "n = nat (po_count opts)"
  have "workers_inv opts n s" using workers.reachable_inv [OF refl run [folded n_def]] .
  then have h: "pool_holds n p (sys_slots s)" and a: "ad_inv (Some (pool_reserver opts)) (pool_admission opts) (sys_ad s) (sys_slots s)"
    by (simp_all add: workers_inv_def p)
  note room = loaded_options_leave_room [OF load]
  have len: "length (wp_slots p) = n" using h by (simp add: pool_holds_def)
  have "\<exists>i < length (wp_slots p). map_of (wp_reservations p) k = Some i \<and> ws_activeKey (wp_slots p ! i) = Some k \<and> \<not> ws_retiring (wp_slots p ! i)
      \<and> ws_readers (wp_slots p ! i) = int (length (key_slots k (sys_slots s)))
      \<and> (if sh then ws_readers (wp_slots p ! i) \<le> 8 else ws_readers (wp_slots p ! i) = 1)"
    if mem: "(t, k, sh) \<in> set (sys_slots s)" for t k sh
  proof -
    have "key_slots k (sys_slots s) \<noteq> []" using mem by (force simp: filter_empty_conv)
    then obtain i where i: "map_of (wp_reservations p) k = Some i" using h unfolding pool_holds_def by fastforce
    note r = reserved_slot [OF h i]
    have "ws_shared (wp_slots p ! i) = sh" using bspec [OF r(5), of "(t, k, sh)"] mem by simp
    then show ?thesis using i r len by auto
  qed
  then have own: "\<forall>(t, k, sh) \<in> set (sys_slots s). \<exists>i < length (wp_slots p). map_of (wp_reservations p) k = Some i
        \<and> ws_activeKey (wp_slots p ! i) = Some k \<and> \<not> ws_retiring (wp_slots p ! i)
        \<and> ws_readers (wp_slots p ! i) = int (length (key_slots k (sys_slots s)))
        \<and> (if sh then ws_readers (wp_slots p ! i) \<le> 8 else ws_readers (wp_slots p ! i) = 1)" by blast
  have same: "k = k'" if "map_of (wp_reservations p) k = Some i" "map_of (wp_reservations p) k' = Some i" for k k' i
    using reserved_slot(2) [OF h that(1)] reserved_slot(2) [OF h that(2)] by simp
  have free: "ws_readers (wp_slots p ! i) = 0" if "i < length (wp_slots p)" "ws_activeKey (wp_slots p ! i) = None" for i
    using h that len unfolding pool_holds_def slot_books_def by fastforce
  have keys: "int (card ((\<lambda>(t, k, sh). k) ` set (sys_slots s))) \<le> po_count opts" using keys_at_work [OF h] room(1) by (simp add: n_def)
  have lim: "int (length (tenant_slots t (sys_slots s))) \<le> max 0 (po_maxActivePerTenant opts)" for t
    using a by (simp add: ad_inv_def slots_ok_def pool_admission_def)
  have tenants: "int (length (tenant_slots t (sys_slots s))) < po_count opts" if "2 \<le> po_count opts" for t
    using lim [of t] room(2) that by linarith
  show ?thesis by (intro conjI own keys allI impI) (use same free tenants in auto)
qed

text \<open>Four workers from the environment; one tenant has two requests on one sandbox, another has one.\<close>

definition demo_env :: "string \<Rightarrow> string option" where
  "demo_env = map_of [(''SQL_FS_WORKER_COUNT'', ''4''), (''SQL_FS_WORKER_MAX_PG_CONNECTIONS'', ''8''), (''SQL_FS_WORKER_MAX_RSS_BYTES'', ''4294967296'')]"

definition demo_amount :: "string \<Rightarrow> rat option" where
  "demo_amount = map_of [(''4'', 4), (''8'', 8), (''4294967296'', 4294967296)]"

definition demo_pool_opts :: pool_options where
  "demo_pool_opts = (case loadWorkerPoolOptions demo_env demo_amount (2, 0) of Inr opts \<Rightarrow> opts)"

definition demo_admit :: "string \<Rightarrow> string \<Rightarrow> worker_pool ad_sys \<Rightarrow> worker_pool ad_sys" where
  "demo_admit t k s =
     (case ad_acquire (Some (pool_reserver demo_pool_opts)) (pool_admission demo_pool_opts) 0 t k 5 False True False 0 (sys_ad s) of
        (out, woken, st) \<Rightarrow> \<lparr>sys_ad = st, sys_slots = (if out = Admitted then [(t, k, True)] else []) @ rev (map slot_of woken) @ sys_slots s\<rparr>)"

definition demo_workers :: "worker_pool ad_sys" where
  "demo_workers = demo_admit ''u'' ''j'' (demo_admit ''t'' ''k'' (demo_admit ''t'' ''k'' (new_ad_sys (new_pool 4))))"

lemma demo_admit_moves: "pool_moves demo_pool_opts s (demo_admit t k s)"
proof -
  obtain out woken st where a: "ad_acquire (Some (pool_reserver demo_pool_opts)) (pool_admission demo_pool_opts) 0 t k 5 False True False 0 (sys_ad s) = (out, woken, st)"
    by (metis prod_cases3)
  show ?thesis
    using pool_moves.admission [OF ad_step.offer [OF _ a]] by (simp add: demo_admit_def a)
qed

lemma demo_workers_reachable: "(pool_moves demo_pool_opts)\<^sup>*\<^sup>* (new_ad_sys (new_pool 4)) demo_workers"
  unfolding demo_workers_def by (meson demo_admit_moves rtranclp.rtrancl_into_rtrancl rtranclp.rtrancl_refl)

lemma demo_pool_loads: "loadWorkerPoolOptions demo_env demo_amount (2, 0) = Inr demo_pool_opts" "po_count demo_pool_opts = 4"
  by code_simp+

lemma demo_workers_slots: "sys_slots demo_workers = [(''u'', ''j'', True), (''t'', ''k'', True), (''t'', ''k'', True)]"
  by code_simp

theorem worker_slots_exclusive_witness:
  "\<exists>i < 4. map_of (wp_reservations (ad_resource (sys_ad demo_workers))) ''k'' = Some i
     \<and> ws_readers (wp_slots (ad_resource (sys_ad demo_workers)) ! i) = 2
     \<and> ws_activeKey (wp_slots (ad_resource (sys_ad demo_workers)) ! i) = Some ''k''"
proof -
  have "(pool_moves demo_pool_opts)\<^sup>*\<^sup>* (new_ad_sys (new_pool (nat (po_count demo_pool_opts)))) demo_workers"
    using demo_workers_reachable by (simp add: demo_pool_loads(2))
  note w = worker_slots_exclusive [OF demo_pool_loads(1) this refl]
  have "length (wp_slots (ad_resource (sys_ad demo_workers))) = 4" by code_simp
  then show ?thesis using w by (auto simp: demo_workers_slots)
qed

end
