(* ===== verification/Spec2Isabelle.thy ===== *)
theory Spec2Isabelle
  imports Refinement ReadBack IngestGuarantees CircuitBreaker RateLimit DistLock SessionCatalog RuntimeAdmission Ingress BlobCache WorkerProtocol WorkerSlots
begin

text \<open>
  Verification of sql-fs, a virtual file system for sandboxed scripts that is stored in PostgreSQL and
  served over HTTP.

  \<^bold>\<open>The program.\<close> A sandbox is a tree of inodes and directory entries in SQL tables, shared by all
  server processes. A session (\<open>src/sql-fs/sql-fs.ts\<close>) works on one sandbox. It keeps a cache of all paths
  of the tree, answers reads from the cache, and sends each write to the database in a transaction that is
  fenced by the sandbox's version (its epoch): a write from an outdated cache fails with ESTALE. During a
  script the session opens a scope: writes only change the cache and are recorded in a journal, with
  negative provisional inode numbers; ending the scope replays the journal in one transaction and renumbers
  the cache. File contents are content-addressed blobs. Around the file system, the API layer
  (\<open>src/api\<close>) limits, queues and locks requests and maps errors to HTTP answers.

  \<^bold>\<open>The model.\<close> Each theory translates one part of the source; computations are functions
  from a state to a result or error and a new state (type \<open>comp\<close> of theory \<open>Prelude\<close>), and
  every early return or exception is a branch.
  \<^item> \<open>Prelude\<close>: the computations, association-list tables, splitting and joining strings, and the
    locales of relations kept by computations (\<open>state_preorder\<close>) and of machines with an invariant
    (\<open>safe_machine\<close>).
  \<^item> \<open>Paths\<close>, \<open>Errors\<close>: \<open>state/paths.ts\<close>, \<open>errors.ts\<close>.
  \<^item> \<open>PgState\<close>, \<open>PgSandbox\<close>, \<open>PgNamespace\<close>, \<open>PgResolve\<close>, \<open>PgBlobs\<close>: the tables with row-level
    security, transactions, and one definition per statement of \<open>dialects/postgres\<close>: the fence, the life
    of sandboxes, the composite CTEs, the plain statements, the recursive load, the stored function that
    resolves links, and the blob statements.
  \<^item> \<open>Session\<close>, \<open>View\<close>: \<open>state/script-persistence.ts\<close>, \<open>script-tx-buffer.ts\<close> (journal, provisional
    numbers, flush) and \<open>state/coherent-view.ts\<close>, \<open>file-contents.ts\<close> (the cache and its publication). Only the
    buffered scope (\<open>SCRIPT_TX_BUFFERED\<close> on, the default) is modelled: the transaction that stays open for a
    whole script (\<open>#openScriptTx\<close>, \<open>#settleLaggingScriptEpoch\<close>), the driver-fault race of \<open>guarded\<close> and the
    prewarming of the content cache are not.
  \<^item> \<open>FileWrites\<close>, \<open>DirectoryTree\<close>, \<open>LinksMoves\<close>: \<open>state/namespace\<close>, the operations that change the
    tree; \<open>SqlFs\<close>: the facade with its guards, reads and scope life cycle.
  \<^item> \<open>PgIngest\<close>, \<open>BulkIngest\<close>: \<open>dialects/postgres/ingest.ts\<close> and \<open>state/namespace/ingest.ts\<close>, the upload of
    many files in one transaction, with its blobs committed on a connection of their own.
  \<^item> \<open>RwLock\<close>, \<open>CircuitBreaker\<close>, \<open>RateLimit\<close>, \<open>FairAdmission\<close>, \<open>ApiErrors\<close>: \<open>api/rw-lock.ts\<close>,
    \<open>redis/circuit-breaker.ts\<close>, \<open>api/rate-limit.ts\<close>, \<open>api/worker-owner/admission.ts\<close>,
    \<open>api/errors.ts\<close>.
  \<^item> \<open>DistLock\<close>: \<open>api/distributed-rw-lock.ts\<close>, \<open>api/distributed-lock.ts\<close> and their options: the Lua scripts on
    the keys of Redis, the acquire loops, heartbeats, and the outcome of a guarded call.
  \<^item> \<open>SessionCatalog\<close>, \<open>RuntimeAdmission\<close>: \<open>api/session-manager\<close>, the resident sessions with their borrowers,
    reaper and shutdown, and the semaphores of the language runtimes. \<open>Ingress\<close>: \<open>api/ingress-admission.ts\<close>, the
    byte budget of request bodies.
  \<^item> \<open>BlobCache\<close>: \<open>sql-fs/redis-blob-cache.ts\<close>, the fail-open cache of blobs in Redis that all tenants of a process
    share, with its budget of writes in flight and its use of the circuit breaker; each call is split at its awaits.
  \<^item> \<open>WorkerProtocol\<close>, \<open>WorkerPool\<close>: \<open>api/worker-owner\<close>: the commands sent to worker threads and what their failure
    is reported as (\<open>protocol.ts\<close>, \<open>request-outcome.ts\<close>), and the options, slots, reservations, attachments, recovery and
    memory release of the pool (\<open>pool.ts\<close>), which hands its slots to the queue of \<open>FairAdmission\<close>.

  \<^bold>\<open>The proofs.\<close>
  \<^item> \<open>Tree\<close>, \<open>Updates\<close>, \<open>Lifecycle\<close>: the well-formedness \<open>wf_db\<close> of the tables and that every statement
    keeps it. \<open>Fencing\<close>: what the epoch fence accepts, and that accepted writes advance the version.
  \<^item> \<open>Effects\<close>, \<open>FsTree\<close>: closed forms of the statements and their effect on the stored tree
    (\<open>tree_set\<close>, \<open>tree_del\<close>, \<open>tree_move\<close>, \<open>tree_patch\<close>); theory \<open>Refinement\<close> states the results.
  \<^item> \<open>Coherence\<close>, \<open>Simulation\<close>, \<open>MoveSim\<close>, \<open>RemoveTreeSim\<close>, \<open>CopyTreeSim\<close>, \<open>Loading\<close>: the simulation
    relation between a cache and the tables up to a renaming of inodes, and that each mutation and its
    cache changes preserve it.
  \<^item> \<open>Frame\<close>, \<open>SessionSync\<close>, \<open>SessionInv\<close>, \<open>SpecSteps\<close>, \<open>SessionFrame\<close>, \<open>SessionOps\<close>, \<open>SessionLife\<close>: the
    invariant of a session, kept by every call; \<open>SessionSystem\<close>: many sessions on shared tables.
  \<^item> \<open>IngestTables\<close>, \<open>IngestDirs\<close>, \<open>IngestFiles\<close>, \<open>BulkIngestSync\<close>: the batches of bulk ingest as updates of the
    tables, the tree they leave, and that the view receives exactly these changes; \<open>IngestGuarantees\<close> states it
    for reachable systems: with nothing in the way the ingest succeeds and is exact, otherwise it changes nothing.
  \<^item> \<open>ScopeBuffer\<close>, \<open>Guarantees\<close>, \<open>ReadBack\<close>: the promises to users of the file system.
  \<^item> \<open>Isolation\<close>, \<open>TenantIsolation\<close>, \<open>BulkIngestIso\<close>, \<open>Calls\<close>: no call touches rows of another sandbox.
  \<^item> \<open>WorkerSlots\<close>: the locale \<open>slot_provider\<close> is the contract between the admission queue and the provider of its
    slots; the pool is an instance, so every history of requests and pool events keeps each sandbox on a
    worker of its own.
  \<^item> The theories of the API layer hold their own theorems: mutual exclusion, no lost wake-up and no overtaking of
    the two locks, lost leases that are noticed, exact counters and limits of the queues, budgets and windows, no
    work on a session that has been closed, no wrong bytes from the blob cache, and which errors clients may retry.

  \<^bold>\<open>Bounds.\<close> The recursive load is a partial function, as the recursive query may not end on a cyclic
  tree; \<open>Loading\<close> shows that it ends on well-formed tables. Link resolution has the hop bound of the
  source. Time, the hash function, the answers of the blob cache, and the eviction of the content cache are
  parameters of a session's environment; \<open>BlobCache\<close> shows that the cache answers honestly or not at all. The steps of \<open>SessionSystem\<close> are whole calls: within one process
  calls on one session are serialised by the lock in \<open>RwLock\<close>, and across processes the writer lock of a
  transaction serialises writes. A symbolic link at the root path is outside \<open>safe_call\<close>, because the
  program breaks its own cache there (\<open>root_symlink_bricks_sandbox\<close>). The acquire loops of \<open>DistLock\<close> are partial functions
  too; \<open>acquire_returns\<close> shows that they return once the clock reaches the deadline.

  \<^bold>\<open>Not modelled.\<close> The HTTP routes, the MCP server, the request parsing of bulk ingest and the client library
  parse and format messages around the operations modelled here. Token verification, the shell interpreter with its
  commands and the language runtimes are third-party code or wrap it. The inside of the worker threads (their message
  loop, the remote file system and the byte budget of messages), the wiring of the session manager, the Redis
  client, migrations, monitoring and the command line tools are glue and I/O. Log lines, metrics and
  the texts of error messages are left out everywhere.
\<close>

definition sandbox_rows :: "string \<Rightarrow> db \<Rightarrow> (int \<Rightarrow> inode_row option) \<times> (int \<times> string \<Rightarrow> dirent_row option) \<times> sandbox_row option" where
  "sandbox_rows sid d =
     ((\<lambda>i. case node d i of None \<Rightarrow> None | Some r \<Rightarrow> if i_sandbox r = sid then Some r else None),
      (\<lambda>k. case map_of (dirents d) k of None \<Rightarrow> None | Some e \<Rightarrow> if d_sandbox e = sid then Some e else None),
      map_of (sandboxes d) sid)"

lemma only_other:
  assumes "only ow sid t' = only ow sid t" and "other \<noteq> sid"
  shows "(\<lambda>k. case t' k of None \<Rightarrow> None | Some r \<Rightarrow> if ow r = other then Some r else None) =
    (\<lambda>k. case t k of None \<Rightarrow> None | Some r \<Rightarrow> if ow r = other then Some r else None)"
proof
  fix k
  have "only ow sid t' k = only ow sid t k" using assms(1) by simp
  then show "(case t' k of None \<Rightarrow> None | Some r \<Rightarrow> if ow r = other then Some r else None) =
      (case t k of None \<Rightarrow> None | Some r \<Rightarrow> if ow r = other then Some r else None)"
    using assms(2) by (auto simp: only_def split: option.splits if_splits)
qed

lemma sandbox_rows_foreign:
  assumes "same_foreign sid d d'" and "other \<noteq> sid"
  shows "sandbox_rows other d' = sandbox_rows other d"
proof -
  have "foreign_sandboxes sid d' other = foreign_sandboxes sid d other" using assms(1) by (simp add: same_foreign_def)
  then have sb: "map_of (sandboxes d') other = map_of (sandboxes d) other"
    using assms(2) by (simp add: foreign_sandboxes_def)
  have "only i_sandbox sid (node d') = only i_sandbox sid (node d)"
    "only d_sandbox sid (map_of (dirents d')) = only d_sandbox sid (map_of (dirents d))"
    using assms(1) by (simp_all add: same_foreign_def foreign_inodes_def foreign_dirents_def)
  note eqs = this [THEN only_other, OF assms(2)]
  show ?thesis unfolding sandbox_rows_def eqs sb by (rule refl)
qed

text \<open>
  C4. Tenant isolation: whatever sequence of calls is made on a session of one sandbox (writes in and
  outside script scopes, flushes, aborts, reloads, generation claims, succeeding or failing), the
  inodes, directory entries and sandbox row of every other sandbox stay exactly as they were.
\<close>

theorem tenant_isolation:
  assumes "wf_db (s_db s)" and "p_journal s = []" and "s_sandbox s \<noteq> []" and "other \<noteq> s_sandbox s"
  shows "sandbox_rows other (s_db (run_calls cs s)) = sandbox_rows other (s_db s)"
proof -
  have "closed_for (s_sandbox s) (s_db s)" using assms(1) by (rule wf_closed_for)
  then have "same_foreign (s_sandbox s) (s_db s) (s_db (run_calls cs s))"
    using run_calls_isolated [of s cs] assms(2,3)
    by (auto simp: s_isolated_def isolated_def journal_isolated_def)
  then show ?thesis using assms(4) by (rule sandbox_rows_foreign)
qed

theorem tenant_isolation_witness:
  "sandbox_rows ''b'' (s_db (run_calls [WriteFile ''/home/x'' [1], Rm ''/home'' True False]
     (new_session (new_env id True) ''a'' two_tenants 0))) = sandbox_rows ''b'' two_tenants"
  using tenant_isolation [of "new_session (new_env id True) ''a'' two_tenants 0" "''b''"
      "[WriteFile ''/home/x'' [1], Rm ''/home'' True False]"] wf_two_tenants
  by (simp add: new_session_def)

text \<open>
  The calls of a session are steps of kind \<open>Advanced\<close> in the life of its sandbox: on a live sandbox a call keeps the row and the retired epoch,
  and never lowers the version.
\<close>

lemma call_is_life_step:
  assumes ok: "sess_ok d s" and safe: "safe_call c" and wf: "wf_db d"
    and epochs: "epochs_ok (s_sandbox s) d" and live: "version_of d (s_sandbox s) = Some v"
  shows "life_step (s_sandbox s) Advanced d (s_db (run_call c (SessionSystem.at s d)))"
proof -
  let ?d = "s_db (run_call c (SessionSystem.at s d))"
  have later: "later (s_sandbox s) d ?d" using sync_call [OF safe, of "SessionSystem.at s d"] ok by (simp add: sync_step_def sess_ok_def)
  have "isolated (s_sandbox s) d ?d"
    using run_call_isolated [of "SessionSystem.at s d" c] ok by (simp add: s_isolated_def sess_ok_def journal_isolated_def)
  then have same: "sandbox_epochs ?d = sandbox_epochs d" using wf_closed_for [OF wf] by (simp add: isolated_def same_foreign_def)
  obtain e where e: "map_of (sandbox_epochs d) (s_sandbox s) = Some e" "e \<le> v" using epochs live by (auto simp: epochs_ok_def)
  have "\<exists>v'. version_of ?d (s_sandbox s) = Some v' \<and> v \<le> v'"
    using later e live same by (cases "version_of ?d (s_sandbox s)") (auto simp: later_def epoch_ceiling_def)
  then show ?thesis using live same by (auto intro!: life_step.advance)
qed

text \<open>
  C18. Epochs are never reused: if a sandbox id was live at epoch \<open>v\<close>, and in its later history it was
  deleted at least once, then whenever it is live again its epoch is strictly greater, so a writer
  that pinned \<open>v\<close> can never match a later incarnation.
\<close>

theorem epoch_never_reused:
  assumes "life_run sid evs d d'" and "epochs_ok sid d" and "Deleted \<in> set evs"
    and "version_of d sid = Some v" and "version_of d' sid = Some v'"
  shows "v < v'"
  using life_run_deleted [OF assms(1,2,4,3)] assms(5) by (simp add: epoch_ceiling_def)

theorem epoch_never_reused_witness:
  "\<exists>d d'. life_run ''a'' [Deleted, Created] d d' \<and> version_of d ''a'' = Some 0 \<and> version_of d' ''a'' = Some 2 \<and> (0 :: int) < 2"
proof -
  let ?d = "seeded ''a'' ''ann'' 0 empty_db"
  have e: "next_epoch empty_db ''a'' = 0" by (simp add: next_epoch_def empty_db_def)
  have v: "version_of ?d ''a'' = Some 0" "map_of (sandbox_epochs ?d) ''a'' = Some 0"
    using seeded_version [of "''a''"] seeded_epoch [of "''a''"] e by simp_all
  obtain s where s: "map_of (sandboxes ?d) ''a'' = Some s" "sb_version s = 0" using v(1) by (auto simp: version_of_def)
  define d1 where "d1 = (del_sandbox ''a'' ?d)\<lparr>sandbox_epochs := AList.update ''a'' 1 (sandbox_epochs ?d)\<rparr>"
  have wf: "wf_db ?d" by (rule wf_seeded [OF wf_empty_db]) (simp add: empty_db_def)
  have del: "run_transaction (deleteSandbox ''a'') ?d 0 = (Inr 1, d1)"
    using s v(2) by (simp add: deleteSandbox_run d1_def)
  have wf1: "wf_db d1"
    by (rule wf_ext [OF wf_del_sandbox [OF wf, of "''a''"]])
       (use wf_del_sandbox [OF wf, of "''a''"] in \<open>simp_all add: d1_def wf_off_def wf_keys_def\<close>)
  have new: "map_of (sandboxes d1) ''a'' = None" by (simp add: d1_def del_sandbox_def Let_def)
  have n1: "next_epoch d1 ''a'' = 2" by (simp add: next_epoch_def d1_def)
  have run: "life_run ''a'' [Deleted, Created] ?d (seeded ''a'' ''ann'' 0 d1)"
    using life_step.delete [OF del] life_step.create [OF createSandbox_seeded [OF wf1 new]] by (meson life_run.intros)
  have v2: "version_of (seeded ''a'' ''ann'' 0 d1) ''a'' = Some 2" using seeded_version [of "''a''"] n1 by simp
  have "(0 :: int) < 2"
    by (rule epoch_never_reused [OF run _ _ v(1) v2]) (use v in \<open>simp_all add: epochs_ok_def\<close>)
  then show ?thesis using run v(1) v2 by blast
qed

end
